(* ===== verification/G2G_Prelude.thy ===== *)
theory G2G_Prelude
  imports Main "HOL-Library.Word"
begin

text \<open>
  The shared vocabulary of the development: Rust's fixed-width integers as words with the
  checked, saturating and clamping operations of its standard library, \<^verbatim>\<open>Result\<close> as
  a sum whose left side is the error, the order-preserving duplicate-free push that every
  candidate list of the negotiation uses, and the algebra of a \<^emph>\<open>partial meet\<close>: the
  contract that every \<^verbatim>\<open>intersect\<close> function of the repository promises.
\<close>

named_theorems rust_arith \<open>unfolding of the modelled Rust integer operations\<close>
named_theorems meet_simps \<open>unfolding of the modelled intersections\<close>

section \<open>Machine integers\<close>

type_synonym u8 = "8 word"
type_synonym u16 = "16 word"
type_synonym u32 = "32 word"
type_synonym u64 = "64 word"

definition checked_add :: "'a::len word \<Rightarrow> 'a word \<Rightarrow> 'a word option" where
  "checked_add a b = (if unat a + unat b < 2 ^ LENGTH('a) then Some (a + b) else None)"

definition checked_mul :: "'a::len word \<Rightarrow> 'a word \<Rightarrow> 'a word option" where
  "checked_mul a b = (if unat a * unat b < 2 ^ LENGTH('a) then Some (a * b) else None)"

definition checked_div :: "'a::len word \<Rightarrow> 'a word \<Rightarrow> 'a word option" where
  "checked_div a b = (if b = 0 then None else Some (a div b))"

definition saturating_add :: "'a::len word \<Rightarrow> 'a word \<Rightarrow> 'a word" where
  "saturating_add a b = (case checked_add a b of Some c \<Rightarrow> c | None \<Rightarrow> - 1)"

definition saturating_sub :: "'a::len word \<Rightarrow> 'a word \<Rightarrow> 'a word" where
  "saturating_sub a b = (if b \<le> a then a - b else 0)"

definition saturating_mul :: "'a::len word \<Rightarrow> 'a word \<Rightarrow> 'a word" where
  "saturating_mul a b = (case checked_mul a b of Some c \<Rightarrow> c | None \<Rightarrow> - 1)"

definition div_ceil :: "'a::len word \<Rightarrow> 'a word \<Rightarrow> 'a word" where
  "div_ceil a b = (if a mod b = 0 then a div b else a div b + 1)"

definition clamp :: "'a::linorder \<Rightarrow> 'a \<Rightarrow> 'a \<Rightarrow> 'a" where
  "clamp v lo hi = (if v < lo then lo else if v > hi then hi else v)"

section \<open>Results and traversals\<close>

text \<open>
  A Rust \<^verbatim>\<open>Result<T, E>\<close> is \<open>'e + 't\<close>: \<open>Inl\<close> is \<^verbatim>\<open>Err\<close>, \<open>Inr\<close> is \<^verbatim>\<open>Ok\<close>. The question
  mark operator is \<open>bind_res\<close>; \<^verbatim>\<open>ok_or\<close> turns an option into a result; \<^verbatim>\<open>ok\<close> goes back.
\<close>

definition bind_res :: "'e + 'a \<Rightarrow> ('a \<Rightarrow> 'e + 'b) \<Rightarrow> 'e + 'b" where
  "bind_res r f = (case r of Inl e \<Rightarrow> Inl e | Inr x \<Rightarrow> f x)"

definition ok_or :: "'a option \<Rightarrow> 'e \<Rightarrow> 'e + 'a" where
  "ok_or x e = (case x of None \<Rightarrow> Inl e | Some v \<Rightarrow> Inr v)"

definition res_ok :: "'e + 'a \<Rightarrow> 'a option" where
  "res_ok r = (case r of Inl _ \<Rightarrow> None | Inr x \<Rightarrow> Some x)"

definition is_ok :: "'e + 'a \<Rightarrow> bool" where
  "is_ok r = (case r of Inl _ \<Rightarrow> False | Inr _ \<Rightarrow> True)"

text \<open>\<^verbatim>\<open>Iterator::collect::<Result<Vec<_>, _>>()\<close>: the first error wins.\<close>

fun collect_res :: "('e + 'a) list \<Rightarrow> 'e + 'a list" where
  "collect_res [] = Inr []"
| "collect_res (Inl e # rs) = Inl e"
| "collect_res (Inr x # rs) = (case collect_res rs of Inl e \<Rightarrow> Inl e | Inr xs \<Rightarrow> Inr (x # xs))"

text \<open>A loop whose body may return early: \<^verbatim>\<open>for x in xs { body(x, &mut s)?; }\<close>.\<close>

fun fold_res :: "('a \<Rightarrow> 's \<Rightarrow> 'e + 's) \<Rightarrow> 'a list \<Rightarrow> 's \<Rightarrow> 'e + 's" where
  "fold_res f [] s = Inr s"
| "fold_res f (x # xs) s = (case f x s of Inl e \<Rightarrow> Inl e | Inr s' \<Rightarrow> fold_res f xs s')"

text \<open>\<^verbatim>\<open>Iterator::find_map\<close> and \<^verbatim>\<open>Iterator::position\<close>.\<close>

fun find_map :: "('a \<Rightarrow> 'b option) \<Rightarrow> 'a list \<Rightarrow> 'b option" where
  "find_map f [] = None"
| "find_map f (x # xs) = (case f x of Some y \<Rightarrow> Some y | None \<Rightarrow> find_map f xs)"

fun position :: "('a \<Rightarrow> bool) \<Rightarrow> 'a list \<Rightarrow> nat option" where
  "position p [] = None"
| "position p (x # xs) = (if p x then Some 0 else map_option Suc (position p xs))"

text \<open>\<^verbatim>\<open>slice.get(i)\<close>: the bounds-checked read.\<close>

definition get :: "'a list \<Rightarrow> nat \<Rightarrow> 'a option" where
  "get xs i = (if i < length xs then Some (xs ! i) else None)"

section \<open>Duplicate-free push\<close>

text \<open>\<^verbatim>\<open>if !out.contains(&c) { out.push(c) }\<close>, alone and in a loop.\<close>

definition push_unique :: "'a list \<Rightarrow> 'a \<Rightarrow> 'a list" where
  "push_unique xs x = (if x \<in> set xs then xs else xs @ [x])"

definition extend_unique :: "'a list \<Rightarrow> 'a list \<Rightarrow> 'a list" where
  "extend_unique xs ys = foldl push_unique xs ys"

section \<open>Lemmas on results, options and lists\<close>

lemma bind_res_simps [simp]:
  "bind_res (Inl e) f = Inl e"
  "bind_res (Inr x) f = f x"
  by (simp_all add: bind_res_def)

lemma bind_res_eq_Inr [simp]:
  "bind_res r f = Inr y \<longleftrightarrow> (\<exists>x. r = Inr x \<and> f x = Inr y)"
  by (cases r) simp_all

lemma bind_res_eq_Inl:
  "bind_res r f = Inl e \<longleftrightarrow> r = Inl e \<or> (\<exists>x. r = Inr x \<and> f x = Inl e)"
  by (cases r) simp_all

lemma ok_or_simps [simp]:
  "ok_or None e = Inl e"
  "ok_or (Some v) e = Inr v"
  by (simp_all add: ok_or_def)

lemma ok_or_eq_Inr [simp]: "ok_or x e = Inr v \<longleftrightarrow> x = Some v"
  by (cases x) simp_all

lemma ok_or_eq_Inl [simp]: "ok_or x e = Inl e' \<longleftrightarrow> x = None \<and> e' = e"
  by (cases x) auto

lemma res_ok_simps [simp]:
  "res_ok (Inl e) = None"
  "res_ok (Inr x) = Some x"
  by (simp_all add: res_ok_def)

lemma res_ok_eq_Some [simp]: "res_ok r = Some x \<longleftrightarrow> r = Inr x"
  by (cases r) simp_all

lemma res_ok_eq_None [simp]: "res_ok r = None \<longleftrightarrow> (\<exists>e. r = Inl e)"
  by (cases r) simp_all

lemma is_ok_simps [simp]:
  "is_ok (Inl e) = False"
  "is_ok (Inr x) = True"
  by (simp_all add: is_ok_def)

lemma is_ok_iff: "is_ok r \<longleftrightarrow> (\<exists>x. r = Inr x)"
  by (cases r) simp_all

lemma collect_res_Inr_iff:
  "collect_res rs = Inr xs \<longleftrightarrow> list_all2 (\<lambda>r x. r = Inr x) rs xs"
proof (induction rs arbitrary: xs)
  case Nil
  show ?case by auto
next
  case (Cons r rs)
  show ?case
  proof (cases r)
    case (Inl e)
    then show ?thesis by (cases xs) auto
  next
    case (Inr y)
    then show ?thesis using Cons.IH by (cases xs; cases "collect_res rs") auto
  qed
qed

lemma collect_res_Inl_iff:
  "(\<exists>e. collect_res rs = Inl e) \<longleftrightarrow> (\<exists>r \<in> set rs. \<exists>e. r = Inl e)"
proof (induction rs)
  case Nil
  show ?case by simp
next
  case (Cons r rs)
  then show ?case by (cases r; cases "collect_res rs") auto
qed

lemma collect_res_Inl_in_set: "collect_res rs = Inl e \<Longrightarrow> Inl e \<in> set rs"
  by (induction rs rule: collect_res.induct) (auto split: sum.splits)

lemma fold_res_append:
  "fold_res f (xs @ ys) s =
     (case fold_res f xs s of Inl e \<Rightarrow> Inl e | Inr s' \<Rightarrow> fold_res f ys s')"
  by (induction xs arbitrary: s) (auto split: sum.splits)

lemma fold_res_invariant:
  assumes "fold_res f xs s = Inr t" and "P s"
    and "\<And>x s s'. x \<in> set xs \<Longrightarrow> P s \<Longrightarrow> f x s = Inr s' \<Longrightarrow> P s'"
  shows "P t"
  using assms
proof (induction xs arbitrary: s)
  case Nil
  then show ?case by simp
next
  case (Cons x xs)
  from Cons.prems(1) obtain s' where s': "f x s = Inr s'" and rest: "fold_res f xs s' = Inr t"
    by (auto split: sum.splits)
  have "P s'" using Cons.prems(3) [OF _ Cons.prems(2) s'] by simp
  then show ?case
    by (rule Cons.IH [OF rest]) (use Cons.prems(3) in \<open>auto intro: Cons.prems(3)\<close>)
qed

lemma fold_res_total:
  assumes "P s"
    and "\<And>x s. x \<in> set xs \<Longrightarrow> P s \<Longrightarrow> \<exists>s'. f x s = Inr s' \<and> P s'"
  shows "\<exists>t. fold_res f xs s = Inr t \<and> P t"
  using assms
proof (induction xs arbitrary: s)
  case Nil
  then show ?case by simp
next
  case (Cons x xs)
  from Cons.prems obtain s' where "f x s = Inr s'" "P s'" by fastforce
  with Cons show ?case by auto
qed

lemma find_map_Some:
  "find_map f xs = Some y \<Longrightarrow> \<exists>x \<in> set xs. f x = Some y"
  by (induction xs) (auto split: option.splits)

lemma find_map_None: "find_map f xs = None \<longleftrightarrow> (\<forall>x \<in> set xs. f x = None)"
  by (induction xs) (auto split: option.splits)

lemma find_map_first:
  "find_map f xs = Some y \<longleftrightarrow>
     (\<exists>us x vs. xs = us @ x # vs \<and> f x = Some y \<and> (\<forall>u \<in> set us. f u = None))"
proof (induction xs)
  case Nil
  show ?case by simp
next
  case (Cons a xs)
  show ?case
  proof (cases "f a")
    case None
    show ?thesis
    proof
      assume "find_map f (a # xs) = Some y"
      then obtain us x vs where "xs = us @ x # vs" "f x = Some y" "\<forall>u \<in> set us. f u = None"
        using None Cons.IH by auto
      then have "a # xs = (a # us) @ x # vs \<and> f x = Some y \<and> (\<forall>u \<in> set (a # us). f u = None)"
        using None by simp
      then show "\<exists>us x vs. a # xs = us @ x # vs \<and> f x = Some y \<and> (\<forall>u \<in> set us. f u = None)"
        by blast
    next
      assume "\<exists>us x vs. a # xs = us @ x # vs \<and> f x = Some y \<and> (\<forall>u \<in> set us. f u = None)"
      then show "find_map f (a # xs) = Some y"
        using None Cons.IH by (force simp: Cons_eq_append_conv)
    qed
  next
    case (Some b)
    then show ?thesis by (fastforce simp: Cons_eq_append_conv)
  qed
qed

lemma position_Some:
  "position p xs = Some i \<longleftrightarrow> i < length xs \<and> p (xs ! i) \<and> (\<forall>j < i. \<not> p (xs ! j))"
proof (induction xs arbitrary: i)
  case Nil
  show ?case by simp
next
  case (Cons x xs)
  then show ?case by (cases i) (auto simp: less_Suc_eq_0_disj)
qed

lemma position_None: "position p xs = None \<longleftrightarrow> (\<forall>x \<in> set xs. \<not> p x)"
  by (induction xs) auto

lemma get_eq_Some [simp]: "get xs i = Some x \<longleftrightarrow> i < length xs \<and> xs ! i = x"
  by (auto simp: get_def)

lemma get_eq_None [simp]: "get xs i = None \<longleftrightarrow> length xs \<le> i"
  by (auto simp: get_def)

lemma set_push_unique [simp]: "set (push_unique xs x) = insert x (set xs)"
  by (auto simp: push_unique_def)

lemma push_unique_not_Nil [simp]: "push_unique xs x \<noteq> []"
  by (auto simp: push_unique_def)

lemma distinct_push_unique [simp]: "distinct (push_unique xs x) \<longleftrightarrow> distinct xs"
  by (auto simp: push_unique_def)

lemma extend_unique_simps [simp]:
  "extend_unique xs [] = xs"
  "extend_unique xs (y # ys) = extend_unique (push_unique xs y) ys"
  by (simp_all add: extend_unique_def)

lemma set_extend_unique [simp]: "set (extend_unique xs ys) = set xs \<union> set ys"
  by (induction ys arbitrary: xs) auto

lemma distinct_extend_unique [simp]: "distinct (extend_unique xs ys) \<longleftrightarrow> distinct xs"
  by (induction ys arbitrary: xs) auto

lemma extend_unique_prefix: "\<exists>zs. extend_unique xs ys = xs @ zs"
proof (induction ys arbitrary: xs)
  case Nil
  show ?case by simp
next
  case (Cons y ys)
  then obtain zs where "extend_unique (push_unique xs y) ys = push_unique xs y @ zs" by blast
  then show ?case by (auto simp: push_unique_def)
qed

lemma extend_unique_Nil_iff [simp]: "extend_unique xs ys = [] \<longleftrightarrow> xs = [] \<and> ys = []"
  by (metis Un_empty set_empty set_extend_unique)

lemma extend_unique_append: "extend_unique xs (ys @ zs) = extend_unique (extend_unique xs ys) zs"
  by (simp add: extend_unique_def)

section \<open>Partial meets\<close>

text \<open>
  Every \<^verbatim>\<open>intersect\<close> of the capability algebra has the same contract. \<open>le x y\<close> says that
  everything \<open>x\<close> describes is described by \<open>y\<close> (\<open>x\<close> is the more specific constraint),
  \<open>ne x\<close> that \<open>x\<close> describes something, and \<open>meet\<close> is the fallible intersection: its result
  is the greatest lower bound of its arguments and it fails only where no inhabited
  constraint lies below both.
\<close>

locale partial_meet =
  fixes ne :: "'a \<Rightarrow> bool"
    and le :: "'a \<Rightarrow> 'a \<Rightarrow> bool"
    and meet :: "'a \<Rightarrow> 'a \<Rightarrow> 'a option"
  assumes le_refl: "le x x"
    and le_trans: "le x y \<Longrightarrow> le y z \<Longrightarrow> le x z"
    and meet_le1: "meet a b = Some r \<Longrightarrow> le r a"
    and meet_le2: "meet a b = Some r \<Longrightarrow> le r b"
    and meet_ne: "meet a b = Some r \<Longrightarrow> ne r"
    and meet_greatest: "ne c \<Longrightarrow> le c a \<Longrightarrow> le c b \<Longrightarrow> \<exists>r. meet a b = Some r \<and> le c r"
begin

lemma meet_iff:
  assumes "meet a b = Some r" and "ne c"
  shows "le c r \<longleftrightarrow> le c a \<and> le c b"
  using assms meet_le1 meet_le2 meet_greatest le_trans by (metis option.inject)

lemma meet_None_iff: "meet a b = None \<longleftrightarrow> \<not> (\<exists>c. ne c \<and> le c a \<and> le c b)"
  using meet_le1 meet_le2 meet_ne meet_greatest by (metis not_Some_eq)

lemma meet_commute:
  assumes "meet a b = Some r"
  shows "\<exists>r'. meet b a = Some r' \<and> le r r' \<and> le r' r"
proof -
  have "ne r" "le r a" "le r b" using assms meet_ne meet_le1 meet_le2 by auto
  then obtain r' where r': "meet b a = Some r'" "le r r'" using meet_greatest by blast
  moreover have "le r' r" using r' meet_iff [OF assms meet_ne] meet_le1 meet_le2 by blast
  ultimately show ?thesis by blast
qed

lemma meet_mono:
  assumes "meet a b = Some r" and "le a a'" and "le b b'"
  shows "\<exists>r'. meet a' b' = Some r' \<and> le r r'"
  using assms meet_ne meet_le1 meet_le2 meet_greatest le_trans by blast

lemma meet_idem:
  assumes "ne a"
  shows "\<exists>r. meet a a = Some r \<and> le a r \<and> le r a"
  using assms meet_greatest [of a a a] le_refl meet_le1 by blast

lemma meet_assoc:
  assumes "meet a b = Some ab" and "meet ab c = Some r"
  shows "\<exists>bc r'. meet b c = Some bc \<and> meet a bc = Some r' \<and> le r r' \<and> le r' r"
proof -
  have r: "ne r" "le r a" "le r b" "le r c"
    using assms meet_ne meet_le1 meet_le2 le_trans by blast+
  then obtain bc where bc: "meet b c = Some bc" "le r bc" using meet_greatest by blast
  with r obtain r' where r': "meet a bc = Some r'" "le r r'" using meet_greatest by blast
  have ne': "ne r'" using r' meet_ne by blast
  have "le r' a" "le r' b" "le r' c" using r' bc meet_le1 meet_le2 le_trans by blast+
  then have "le r' r" using meet_iff [OF assms(1) ne'] meet_iff [OF assms(2) ne'] by blast
  with bc r' show ?thesis by blast
qed

end

text \<open>
  A scalar field with a wildcard value is the commonest instance: the wildcard accepts
  everything, two equal values agree, two different declared values are disjoint.
\<close>

definition wild_le :: "'a \<Rightarrow> 'a \<Rightarrow> 'a \<Rightarrow> bool" where
  "wild_le w x y \<longleftrightarrow> y = w \<or> x = y"

definition wild_meet :: "'a \<Rightarrow> 'a \<Rightarrow> 'a \<Rightarrow> 'a option" where
  "wild_meet w a b = (if a = w then Some b else if b = w \<or> a = b then Some a else None)"

interpretation wild: partial_meet "\<lambda>_. True" "wild_le w" "wild_meet w" for w
  by unfold_locales (auto simp: wild_le_def wild_meet_def split: if_splits)

section \<open>Lemmas on the integer operations\<close>

lemma unat_lt2p: "unat (w :: 'a::len word) < 2 ^ LENGTH('a)"
  by (rule unsigned_less)

text \<open>Evaluation compares the sums and products as integers.\<close>

lemma checked_add_code [code]:
  "checked_add a b = (if uint a + uint b < 2 ^ LENGTH('a) then Some (a + b) else None)" for a b :: "'a::len word"
proof -
  have "unat a + unat b < 2 ^ LENGTH('a) \<longleftrightarrow> int (unat a + unat b) < int (2 ^ LENGTH('a))" by (rule of_nat_less_iff [symmetric])
  then show ?thesis by (simp add: checked_add_def)
qed

lemma checked_mul_code [code]:
  "checked_mul a b = (if uint a * uint b < 2 ^ LENGTH('a) then Some (a * b) else None)" for a b :: "'a::len word"
proof -
  have "unat a * unat b < 2 ^ LENGTH('a) \<longleftrightarrow> int (unat a * unat b) < int (2 ^ LENGTH('a))" by (rule of_nat_less_iff [symmetric])
  then show ?thesis by (simp add: checked_mul_def)
qed

lemma checked_add_Some [rust_arith]:
  fixes a b :: "'a::len word"
  shows "checked_add a b = Some c \<longleftrightarrow> unat c = unat a + unat b"
proof
  assume "checked_add a b = Some c"
  then show "unat c = unat a + unat b"
    by (auto simp: checked_add_def unat_word_ariths split: if_splits)
next
  assume c: "unat c = unat a + unat b"
  then have lt: "unat a + unat b < 2 ^ LENGTH('a)" using unat_lt2p [of c] by metis
  then have "unat (a + b) = unat c" using c by (simp add: unat_word_ariths)
  then show "checked_add a b = Some c" using lt by (simp add: checked_add_def word_unat_eq_iff)
qed

lemma checked_mul_Some [rust_arith]:
  fixes a b :: "'a::len word"
  shows "checked_mul a b = Some c \<longleftrightarrow> unat c = unat a * unat b"
proof
  assume "checked_mul a b = Some c"
  then show "unat c = unat a * unat b"
    by (auto simp: checked_mul_def unat_word_ariths split: if_splits)
next
  assume c: "unat c = unat a * unat b"
  then have lt: "unat a * unat b < 2 ^ LENGTH('a)" using unat_lt2p [of c] by metis
  then have "unat (a * b) = unat c" using c by (simp add: unat_word_ariths)
  then show "checked_mul a b = Some c" using lt by (simp add: checked_mul_def word_unat_eq_iff)
qed

lemma checked_add_None [rust_arith]:
  fixes a b :: "'a::len word"
  shows "checked_add a b = None \<longleftrightarrow> 2 ^ LENGTH('a) \<le> unat a + unat b"
  by (auto simp: checked_add_def)

lemma checked_mul_None [rust_arith]:
  fixes a b :: "'a::len word"
  shows "checked_mul a b = None \<longleftrightarrow> 2 ^ LENGTH('a) \<le> unat a * unat b"
  by (auto simp: checked_mul_def)

lemma unat_max_word: "unat (- 1 :: 'a::len word) = 2 ^ LENGTH('a) - 1"
  by (simp add: unsigned_minus_1_eq_mask mask_eq_exp_minus_1)

lemma unat_saturating_sub: "unat (saturating_sub a b) = unat a - unat b"
  by (simp add: saturating_sub_def unat_sub word_le_nat_alt)

lemma unat_saturating_add:
  fixes a b :: "'a::len word"
  shows "unat (saturating_add a b) = min (unat a + unat b) (2 ^ LENGTH('a) - 1)"
proof (cases "checked_add a b")
  case None
  then have "2 ^ LENGTH('a) \<le> unat a + unat b" by (simp add: rust_arith)
  then show ?thesis using None by (simp add: saturating_add_def unat_max_word)
next
  case (Some c)
  then have "unat c = unat a + unat b" by (simp add: rust_arith)
  moreover have "unat c < 2 ^ LENGTH('a)" by (rule unsigned_less)
  ultimately show ?thesis using Some by (simp add: saturating_add_def)
qed

lemma unat_saturating_mul:
  fixes a b :: "'a::len word"
  shows "unat (saturating_mul a b) = min (unat a * unat b) (2 ^ LENGTH('a) - 1)"
proof (cases "checked_mul a b")
  case None
  then have "2 ^ LENGTH('a) \<le> unat a * unat b" by (simp add: rust_arith)
  then show ?thesis using None by (simp add: saturating_mul_def unat_max_word)
next
  case (Some c)
  then have "unat c = unat a * unat b" by (simp add: rust_arith)
  moreover have "unat c < 2 ^ LENGTH('a)" by (rule unsigned_less)
  ultimately show ?thesis using Some by (simp add: saturating_mul_def)
qed

text \<open>Rounding up never wraps: the quotient rounded up is at most the dividend.\<close>

lemma unat_div_ceil:
  fixes a b :: "'a::len word"
  assumes "b \<noteq> 0"
  shows "unat (div_ceil a b) = (unat a + unat b - 1) div unat b"
proof -
  have b: "0 < unat b" using assms by (simp add: unat_gt_0)
  have decomp: "unat a = unat a div unat b * unat b + unat a mod unat b" by simp
  show ?thesis
  proof (cases "a mod b = 0")
    case True
    then have m: "unat a mod unat b = 0" by (metis unat_0 unat_mod)
    then obtain k where k: "unat a = unat b * k" by auto
    have "(unat b * k + unat b - 1) div unat b = k"
      using b by (intro div_nat_eqI) (auto simp: algebra_simps)
    then show ?thesis using True k b by (simp add: div_ceil_def unat_div)
  next
    case False
    then have m: "0 < unat a mod unat b" by (metis unat_gt_0 unat_mod)
    then have b2: "2 \<le> unat b" using b by (cases "unat b = 1") auto
    define q r n where "q = unat a div unat b" and "r = unat a mod unat b" and "n = unat b"
    have a: "unat a = q * n + r" and r: "0 < r" "r < n"
      using m b by (simp_all add: q_def r_def n_def)
    have "q + 1 < 2 ^ LENGTH('a)"
    proof (cases "q = 0")
      case True
      have "n < 2 ^ LENGTH('a)" "2 \<le> n" using b2 by (simp_all add: n_def)
      then show ?thesis using True by linarith
    next
      case False
      then have "q + q \<le> q * n" using b2 by (simp add: n_def flip: mult_2_right)
      then have "q + 1 \<le> unat a" using False a by linarith
      then show ?thesis using unat_lt2p [of a] by linarith
    qed
    then have "unat (a div b + 1) = q + 1"
      by (simp add: unat_word_ariths unat_div q_def)
    moreover have "(unat a + n - 1) div n = q + 1"
      using r by (intro div_nat_eqI) (auto simp: a algebra_simps)
    ultimately show ?thesis using False by (simp add: div_ceil_def n_def)
  qed
qed

lemma unat_ucast_small:
  "unat (w :: 'a::len word) < 2 ^ LENGTH('b) \<Longrightarrow> unat (ucast w :: 'b::len word) = unat w"
  by (simp add: unsigned_ucast_eq take_bit_nat_eq_self)

lemma unat_ucast_up:
  assumes "LENGTH('a) \<le> LENGTH('b)"
  shows "unat (ucast (w :: 'a::len word) :: 'b::len word) = unat w"
proof (rule unat_ucast_small)
  have "(2::nat) ^ LENGTH('a) \<le> 2 ^ LENGTH('b)" using assms by simp
  then show "unat w < 2 ^ LENGTH('b)" using unat_lt2p [of w] by linarith
qed

lemma clamp_bounds:
  fixes lo hi v :: "'a::linorder"
  assumes "lo \<le> hi"
  shows "lo \<le> clamp v lo hi" "clamp v lo hi \<le> hi"
  using assms by (auto simp: clamp_def)

lemma clamp_id: "lo \<le> v \<Longrightarrow> v \<le> hi \<Longrightarrow> clamp v lo hi = v"
  by (auto simp: clamp_def)

end
