(* ===== verification/Channels.thy ===== *)
theory Channels
  imports G2G_Prelude
begin

unbundle bit_operations_syntax

text \<open>
  Speaker positions and channel layouts (\<^verbatim>\<open>g2g-core/src/channels.rs\<close>): a layout is a 16-bit
  mask in the WAV bit order, ascending bit order is the interleave order of the samples, and
  the zero mask is the wildcard of a producer that does not know its speakers. The lemmas show
  that the interleave index of a position is its rank in the enumeration, that the conversion
  to GStreamer's 64-bit mask and back is lossless, and that the layout intersection is the
  partial meet of a wildcard field.
\<close>

section \<open>Positions\<close>

datatype channel_position = Fl | Fr | Fc | Lfe | Bl | Br | Flc | Frc | Bc | Sl | Sr

text \<open>The discriminant (\<^verbatim>\<open>repr(u8)\<close>).\<close>

fun pos_index :: "channel_position \<Rightarrow> nat" where
  "pos_index Fl = 0"
| "pos_index Fr = 1"
| "pos_index Fc = 2"
| "pos_index Lfe = 3"
| "pos_index Bl = 4"
| "pos_index Br = 5"
| "pos_index Flc = 6"
| "pos_index Frc = 7"
| "pos_index Bc = 8"
| "pos_index Sl = 9"
| "pos_index Sr = 10"

definition ALL_POSITIONS :: "channel_position list" where
  "ALL_POSITIONS = [Fl, Fr, Fc, Lfe, Bl, Br, Flc, Frc, Bc, Sl, Sr]"

definition pos_bit :: "channel_position \<Rightarrow> u16" where
  "pos_bit p = push_bit (pos_index p) 1"

fun gst_bit :: "channel_position \<Rightarrow> nat" where
  "gst_bit Sl = 10"
| "gst_bit Sr = 11"
| "gst_bit p = pos_index p"

definition from_gst_bit :: "nat \<Rightarrow> channel_position option" where
  "from_gst_bit b =
     (if b = 0 then Some Fl
      else if b = 1 then Some Fr
      else if b = 2 then Some Fc
      else if b = 3 then Some Lfe
      else if b = 4 then Some Bl
      else if b = 5 then Some Br
      else if b = 6 then Some Flc
      else if b = 7 then Some Frc
      else if b = 8 then Some Bc
      else if b = 10 then Some Sl
      else if b = 11 then Some Sr
      else None)"

section \<open>Layouts\<close>

datatype channel_layout = ChannelLayout (layout_mask: u16)

definition UNSPECIFIED :: channel_layout where
  "UNSPECIFIED = ChannelLayout 0"

text \<open>\<^verbatim>\<open>ChannelLayout::of\<close>: the loop that ors the positions' bits together.\<close>

definition layout_of :: "channel_position list \<Rightarrow> channel_layout" where
  "layout_of ps = ChannelLayout (foldl (\<lambda>m p. m OR pos_bit p) 0 ps)"

definition MONO :: channel_layout where
  "MONO = layout_of [Fc]"

definition STEREO :: channel_layout where
  "STEREO = layout_of [Fl, Fr]"

definition SURROUND_5_1 :: channel_layout where
  "SURROUND_5_1 = layout_of [Fl, Fr, Fc, Lfe, Bl, Br]"

definition SURROUND_7_1 :: channel_layout where
  "SURROUND_7_1 = layout_of [Fl, Fr, Fc, Lfe, Bl, Br, Sl, Sr]"

definition default_for :: "u8 \<Rightarrow> channel_layout option" where
  "default_for channels =
     (if channels = 1 then Some MONO
      else if channels = 2 then Some STEREO
      else if channels = 3 then Some (layout_of [Fl, Fr, Lfe])
      else if channels = 4 then Some (layout_of [Fl, Fr, Fc, Bc])
      else if channels = 5 then Some (layout_of [Fl, Fr, Fc, Bl, Br])
      else if channels = 6 then Some SURROUND_5_1
      else if channels = 7 then Some (layout_of [Fl, Fr, Fc, Lfe, Bc, Sl, Sr])
      else if channels = 8 then Some SURROUND_7_1
      else None)"

text \<open>\<^verbatim>\<open>u16::count_ones\<close>.\<close>

definition count_ones :: "u16 \<Rightarrow> nat" where
  "count_ones m = length (filter (bit m) [0..<16])"

definition layout_channels :: "channel_layout \<Rightarrow> u8" where
  "layout_channels l = of_nat (count_ones (layout_mask l))"

definition is_unspecified :: "channel_layout \<Rightarrow> bool" where
  "is_unspecified l \<longleftrightarrow> layout_mask l = 0"

definition from_mask :: "u16 \<Rightarrow> channel_layout" where
  "from_mask m = ChannelLayout (m AND foldl (\<lambda>k p. k OR pos_bit p) 0 ALL_POSITIONS)"

definition layout_intersect :: "channel_layout \<Rightarrow> channel_layout \<Rightarrow> channel_layout option" where
  "layout_intersect a b =
     (if is_unspecified a then Some b
      else if is_unspecified b \<or> layout_mask a = layout_mask b then Some a
      else None)"

definition or_default_for :: "channel_layout \<Rightarrow> u8 \<Rightarrow> channel_layout option" where
  "or_default_for l channels = (if is_unspecified l then default_for channels else Some l)"

definition layout_contains :: "channel_layout \<Rightarrow> channel_position \<Rightarrow> bool" where
  "layout_contains l p \<longleftrightarrow> layout_mask l AND pos_bit p \<noteq> 0"

definition positions :: "channel_layout \<Rightarrow> channel_position list" where
  "positions l = filter (layout_contains l) ALL_POSITIONS"

definition index_of :: "channel_layout \<Rightarrow> channel_position \<Rightarrow> nat option" where
  "index_of l p =
     (if \<not> layout_contains l p then None
      else Some (count_ones (layout_mask l AND (pos_bit p - 1))))"

definition to_gst_mask :: "channel_layout \<Rightarrow> u64" where
  "to_gst_mask l = foldl (\<lambda>acc b. acc OR b) 0 (map (\<lambda>p. push_bit (gst_bit p) 1) (positions l))"

text \<open>The loop of \<^verbatim>\<open>from_gst_mask\<close> over the bit numbers; an unmodelled position returns early.\<close>

fun gst_mask_loop :: "u64 \<Rightarrow> nat list \<Rightarrow> u16 \<Rightarrow> u16 option" where
  "gst_mask_loop m [] layout = Some layout"
| "gst_mask_loop m (b # bs) layout =
     (if m AND push_bit b 1 = 0 then gst_mask_loop m bs layout
      else case from_gst_bit b of
             None \<Rightarrow> None
           | Some p \<Rightarrow> gst_mask_loop m bs (layout OR pos_bit p))"

definition from_gst_mask :: "u64 \<Rightarrow> channel_layout option" where
  "from_gst_mask m = map_option ChannelLayout (gst_mask_loop m [0..<64] 0)"

text \<open>A layout that names modelled positions only, as every constructor but the raw mask gives.\<close>

definition layout_wf :: "channel_layout \<Rightarrow> bool" where
  "layout_wf l \<longleftrightarrow> from_mask (layout_mask l) = l"

section \<open>Lemmas\<close>

lemma pos_index_less: "pos_index p < 11"
  by (cases p) simp_all

lemma set_ALL_POSITIONS [simp]: "set ALL_POSITIONS = UNIV"
proof -
  have "p \<in> set ALL_POSITIONS" for p by (cases p) (simp_all add: ALL_POSITIONS_def)
  then show ?thesis by blast
qed

lemma nth_ALL_POSITIONS: "ALL_POSITIONS ! pos_index p = p"
  by (cases p) (simp_all add: ALL_POSITIONS_def eval_nat_numeral)

lemma length_ALL_POSITIONS [simp]: "length ALL_POSITIONS = 11"
  by (simp add: ALL_POSITIONS_def)

lemma pos_index_nth: "i < 11 \<Longrightarrow> pos_index (ALL_POSITIONS ! i) = i"
  by (auto simp: ALL_POSITIONS_def less_Suc_eq eval_nat_numeral)

lemma pos_index_eq_iff [simp]: "pos_index p = pos_index q \<longleftrightarrow> p = q"
  by (metis nth_ALL_POSITIONS)

lemma bit_pos_bit: "bit (pos_bit p) i \<longleftrightarrow> i = pos_index p"
  using pos_index_less [of p] by (auto simp: pos_bit_def bit_exp_iff)

lemma bit_foldl_or:
  fixes x :: "'a::len word"
  shows "bit (foldl (\<lambda>m p. m OR f p) x ps) i \<longleftrightarrow> bit x i \<or> (\<exists>p \<in> set ps. bit (f p) i)"
  by (induction ps arbitrary: x) (auto simp: bit_or_iff)

lemma bit_layout_of: "bit (layout_mask (layout_of ps)) i \<longleftrightarrow> (\<exists>p \<in> set ps. i = pos_index p)"
  by (simp add: layout_of_def bit_foldl_or bit_pos_bit)

lemma and_push_bit_1_eq_0:
  fixes m :: "'a::len word"
  assumes "n < LENGTH('a)"
  shows "m AND push_bit n 1 = 0 \<longleftrightarrow> \<not> bit m n"
proof
  assume "m AND push_bit n 1 = 0"
  then have "\<not> bit (m AND push_bit n 1) n" by simp
  then show "\<not> bit m n" using assms by (simp add: bit_and_iff bit_exp_iff)
next
  assume "\<not> bit m n"
  then show "m AND push_bit n 1 = 0"
    by (intro bit_word_eqI) (auto simp: bit_and_iff bit_exp_iff)
qed

lemma and_2_exp_eq_0:
  fixes m :: "'a::len word"
  shows "n < LENGTH('a) \<Longrightarrow> m AND 2 ^ n = 0 \<longleftrightarrow> \<not> bit m n"
  using and_push_bit_1_eq_0 [of n m] by simp

lemma layout_contains_iff: "layout_contains l p \<longleftrightarrow> bit (layout_mask l) (pos_index p)"
  using pos_index_less [of p] and_push_bit_1_eq_0 [of "pos_index p" "layout_mask l"]
  by (simp add: layout_contains_def pos_bit_def)

lemma set_positions [simp]: "set (positions l) = {p. layout_contains l p}"
  by (simp add: positions_def)

lemma distinct_positions [simp]: "distinct (positions l)"
proof -
  have "map pos_index ALL_POSITIONS = [0..<11]" by code_simp
  then have "distinct (map pos_index ALL_POSITIONS)" by simp
  then show ?thesis by (simp add: positions_def distinct_map)
qed

lemma bit_known_mask:
  "bit (foldl (\<lambda>k p. k OR pos_bit p) 0 ALL_POSITIONS) i \<longleftrightarrow> i < 11"
  using pos_index_nth by (auto simp: bit_foldl_or bit_pos_bit pos_index_less) metis

lemma layout_wf_iff: "layout_wf l \<longleftrightarrow> (\<forall>i. bit (layout_mask l) i \<longrightarrow> i < 11)"
proof (cases l)
  case (ChannelLayout m)
  have "from_mask m = ChannelLayout m \<longleftrightarrow> (\<forall>i. bit m i \<longrightarrow> i < 11)" (is "?L \<longleftrightarrow> ?R")
  proof
    assume ?L
    then have "m AND foldl (\<lambda>k p. k OR pos_bit p) 0 ALL_POSITIONS = m" by (simp add: from_mask_def)
    then show ?R by (metis bit_and_iff bit_known_mask)
  next
    assume ?R
    then show ?L by (auto simp: from_mask_def bit_and_iff bit_known_mask intro!: bit_word_eqI)
  qed
  then show ?thesis by (simp add: layout_wf_def ChannelLayout)
qed

lemma layout_wf_from_mask: "layout_wf (from_mask m)"
  by (auto simp: layout_wf_iff from_mask_def bit_and_iff bit_known_mask)

lemma layout_wf_of: "layout_wf (layout_of ps)"
  using pos_index_less by (auto simp: layout_wf_iff bit_layout_of)

lemma layout_eqI:
  assumes "layout_wf a" and "layout_wf b" and "\<And>p. layout_contains a p \<longleftrightarrow> layout_contains b p"
  shows "a = b"
proof -
  have "bit (layout_mask a) i \<longleftrightarrow> bit (layout_mask b) i" for i
  proof (cases "i < 11")
    case True
    then show ?thesis using assms(3) [of "ALL_POSITIONS ! i"]
      by (simp add: layout_contains_iff pos_index_nth)
  next
    case False
    then show ?thesis using assms(1,2) by (auto simp: layout_wf_iff)
  qed
  then have "layout_mask a = layout_mask b" by (simp add: bit_eq_iff)
  then show ?thesis by (cases a; cases b) simp
qed

text \<open>The interleave index is the rank of the position in the enumeration.\<close>

lemma count_ones_below:
  assumes "k \<le> 11"
  shows "count_ones (m AND mask k) =
    length (filter (\<lambda>p. layout_contains (ChannelLayout m) p) (take k ALL_POSITIONS))"
proof -
  have mask: "bit (m AND mask k) i \<longleftrightarrow> bit m i \<and> i < k" for i
    using assms by (auto simp: bit_and_iff bit_mask_iff)
  have "filter (bit (m AND mask k)) [0..<16] = filter (bit m) [0..<k]"
  proof -
    have "[0..<16] = [0..<k] @ [k..<16]"
      using assms upt_add_eq_append [of 0 k "16 - k"] by simp
    then show ?thesis by (auto simp: mask filter_empty_conv intro!: filter_cong)
  qed
  moreover have "take k ALL_POSITIONS = map ((!) ALL_POSITIONS) [0..<k]"
    using assms by (intro nth_equalityI) auto
  moreover have "filter (\<lambda>p. layout_contains (ChannelLayout m) p) (map ((!) ALL_POSITIONS) [0..<k])
     = map ((!) ALL_POSITIONS) (filter (bit m) [0..<k])"
    using assms
    by (auto simp: filter_map layout_contains_iff pos_index_nth
        intro!: arg_cong [where f = "map ((!) ALL_POSITIONS)"] filter_cong)
  ultimately show ?thesis by (simp add: count_ones_def)
qed

lemma index_of_Some:
  "index_of l p = Some i \<longleftrightarrow> i < length (positions l) \<and> positions l ! i = p"
proof (cases "layout_contains l p")
  case False
  then have "p \<notin> set (positions l)" by simp
  then have "\<not> (i < length (positions l) \<and> positions l ! i = p)" using nth_mem by blast
  then show ?thesis using False by (simp add: index_of_def)
next
  case True
  define k where "k = pos_index p"
  have k: "k < 11" and nth: "ALL_POSITIONS ! k = p"
    by (simp_all add: k_def pos_index_less nth_ALL_POSITIONS)
  define before where "before = filter (layout_contains l) (take k ALL_POSITIONS)"
  have "ALL_POSITIONS = take k ALL_POSITIONS @ p # drop (Suc k) ALL_POSITIONS"
    using k nth by (metis id_take_nth_drop length_ALL_POSITIONS)
  then have split: "positions l = before @ p # filter (layout_contains l) (drop (Suc k) ALL_POSITIONS)"
    using True unfolding positions_def before_def
    by (metis filter.simps(2) filter_append)
  have "index_of l p = Some (length before)"
    using True k count_ones_below [of k "layout_mask l"]
    by (cases l) (simp add: index_of_def before_def k_def pos_bit_def mask_eq_exp_minus_1)
  moreover have "i < length (positions l) \<and> positions l ! i = p \<longleftrightarrow> i = length before"
  proof -
    have "length before < length (positions l)" "positions l ! length before = p"
      by (simp_all add: split nth_append)
    then show ?thesis using distinct_positions [of l] by (metis nth_eq_iff_index_eq)
  qed
  ultimately show ?thesis by auto
qed

lemma channels_eq_length_positions:
  assumes "layout_wf l"
  shows "count_ones (layout_mask l) = length (positions l)"
proof -
  obtain m where l: "l = ChannelLayout m" by (cases l)
  have "m AND mask 11 = m"
    using assms l by (intro bit_word_eqI) (auto simp: bit_and_iff bit_mask_iff layout_wf_iff)
  then show ?thesis using count_ones_below [of 11 m] l by (simp add: positions_def)
qed

lemma bit_to_gst_mask:
  "bit (to_gst_mask l) i \<longleftrightarrow> (\<exists>p. layout_contains l p \<and> gst_bit p = i)"
proof -
  have g: "gst_bit p < 64" for p by (cases p) simp_all
  have "to_gst_mask l = foldl (\<lambda>acc p. acc OR push_bit (gst_bit p) 1) 0 (positions l)"
    by (simp add: to_gst_mask_def foldl_map)
  then show ?thesis using g by (auto simp: bit_foldl_or bit_exp_iff)
qed

lemma from_gst_bit_Some: "from_gst_bit b = Some p \<longleftrightarrow> gst_bit p = b"
  by (cases p) (auto simp: from_gst_bit_def split: if_splits)

lemma gst_bit_eq_iff [simp]: "gst_bit p = gst_bit q \<longleftrightarrow> p = q"
  by (metis from_gst_bit_Some option.inject)

lemma gst_mask_loop_Some:
  assumes "gst_mask_loop m bs acc = Some r" and "\<forall>b \<in> set bs. b < 64"
  shows "(\<forall>b \<in> set bs. bit m b \<longrightarrow> from_gst_bit b \<noteq> None) \<and>
    (\<forall>i. bit r i \<longleftrightarrow> bit acc i \<or> (\<exists>p. gst_bit p \<in> set bs \<and> bit m (gst_bit p) \<and> i = pos_index p))"
  using assms
proof (induction m bs acc rule: gst_mask_loop.induct)
  case (1 m layout)
  then show ?case by auto
next
  case (2 m b bs layout)
  show ?case
  proof (cases "bit m b")
    case False
    then have "gst_mask_loop m bs layout = Some r"
      using "2.prems" and_push_bit_1_eq_0 [of b m] by simp
    then show ?thesis using "2.IH"(1) "2.prems" False and_push_bit_1_eq_0 [of b m] by auto
  next
    case True
    then obtain p where p: "from_gst_bit b = Some p"
      and r: "gst_mask_loop m bs (layout OR pos_bit p) = Some r"
      using "2.prems" and_push_bit_1_eq_0 [of b m] by (auto split: option.splits)
    have "gst_bit p = b" using p by (simp add: from_gst_bit_Some)
    then show ?thesis
      using "2.IH"(2) [OF _ p] r "2.prems" True p and_push_bit_1_eq_0 [of b m]
      by (auto simp: bit_or_iff bit_pos_bit)
  qed
qed

lemma gst_mask_loop_total:
  assumes "\<forall>b \<in> set bs. bit m b \<longrightarrow> from_gst_bit b \<noteq> None" and "\<forall>b \<in> set bs. b < 64"
  shows "\<exists>r. gst_mask_loop m bs acc = Some r"
  using assms
  by (induction m bs acc rule: gst_mask_loop.induct) (auto simp: and_2_exp_eq_0)

lemma contains_from_gst_mask:
  assumes "from_gst_mask m = Some l"
  shows "layout_wf l" and "layout_contains l p \<longleftrightarrow> bit m (gst_bit p)"
proof -
  have g: "gst_bit p < 64" for p by (cases p) simp_all
  from assms obtain r where r: "gst_mask_loop m [0..<64] 0 = Some r" and l: "l = ChannelLayout r"
    by (auto simp: from_gst_mask_def)
  have "bit r i \<longleftrightarrow> (\<exists>p. bit m (gst_bit p) \<and> i = pos_index p)" for i
    using gst_mask_loop_Some [OF r] g by auto
  then show "layout_wf l" "layout_contains l p \<longleftrightarrow> bit m (gst_bit p)"
    using pos_index_less by (auto simp: l layout_wf_iff layout_contains_iff)
qed

lemma from_gst_mask_total:
  assumes "\<And>b. bit m b \<Longrightarrow> \<exists>p. gst_bit p = b"
  shows "\<exists>l. from_gst_mask m = Some l"
proof -
  have "\<forall>b \<in> set [0..<64]. bit m b \<longrightarrow> from_gst_bit b \<noteq> None"
    using assms from_gst_bit_Some by fastforce
  then show ?thesis using gst_mask_loop_total [of "[0..<64]" m 0]
    by (auto simp: from_gst_mask_def)
qed

lemma from_gst_mask_to_gst_mask:
  assumes "layout_wf l"
  shows "from_gst_mask (to_gst_mask l) = Some l"
proof -
  obtain l' where l': "from_gst_mask (to_gst_mask l) = Some l'"
    using from_gst_mask_total bit_to_gst_mask by blast
  have "l' = l"
    by (rule layout_eqI) (use assms contains_from_gst_mask [OF l'] in \<open>simp_all add: bit_to_gst_mask\<close>)
  then show ?thesis using l' by simp
qed

lemma to_gst_mask_from_gst_mask:
  assumes "from_gst_mask m = Some l"
  shows "to_gst_mask l = m"
proof (rule bit_word_eqI)
  fix i :: nat
  assume i: "i < LENGTH(64)"
  have known: "\<exists>p. gst_bit p = i" if "bit m i"
  proof -
    from assms obtain r where "gst_mask_loop m [0..<64] 0 = Some r"
      by (auto simp: from_gst_mask_def)
    then have "from_gst_bit i \<noteq> None" using gst_mask_loop_Some that i by fastforce
    then show ?thesis using from_gst_bit_Some by auto
  qed
  show "bit (to_gst_mask l) i \<longleftrightarrow> bit m i"
    using contains_from_gst_mask(2) [OF assms] known by (auto simp: bit_to_gst_mask)
qed

lemma layout_intersect_wild: "layout_intersect = wild_meet UNSPECIFIED"
  by (auto simp: fun_eq_iff layout_intersect_def wild_meet_def is_unspecified_def UNSPECIFIED_def
      channel_layout.expand split: channel_layout.splits)

section \<open>Properties\<close>

text \<open>
  The GStreamer channel mask of a layout reads back as the layout, a mask that reads as a
  layout is written back unchanged, and a mask reads as a layout exactly when it names only
  known positions.
\<close>

theorem gst_mask_roundtrip:
  "(layout_wf l \<longrightarrow> from_gst_mask (to_gst_mask l) = Some l) \<and>
   (from_gst_mask m = Some l \<longrightarrow> to_gst_mask l = m \<and> layout_wf l) \<and>
   ((\<exists>l'. from_gst_mask m = Some l') \<longleftrightarrow> (\<forall>b. bit m b \<longrightarrow> (\<exists>p. gst_bit p = b)))"
proof (intro conjI impI)
  show "(\<exists>l'. from_gst_mask m = Some l') \<longleftrightarrow> (\<forall>b. bit m b \<longrightarrow> (\<exists>p. gst_bit p = b))"
  proof
    assume "\<exists>l'. from_gst_mask m = Some l'"
    then show "\<forall>b. bit m b \<longrightarrow> (\<exists>p. gst_bit p = b)"
      using to_gst_mask_from_gst_mask bit_to_gst_mask by metis
  qed (simp add: from_gst_mask_total)
qed (simp_all add: from_gst_mask_to_gst_mask to_gst_mask_from_gst_mask contains_from_gst_mask)

theorem gst_mask_roundtrip_witness:
  "layout_wf SURROUND_5_1 \<and> from_gst_mask (to_gst_mask SURROUND_5_1) = Some SURROUND_5_1"
proof
  show "layout_wf SURROUND_5_1" by (simp add: SURROUND_5_1_def layout_wf_of)
  then show "from_gst_mask (to_gst_mask SURROUND_5_1) = Some SURROUND_5_1"
    using gst_mask_roundtrip [of SURROUND_5_1 0] by blast
qed

text \<open>
  The position list of a well-formed layout has one entry per channel, and the index of a
  position is where the list has it.
\<close>

theorem layout_positions:
  assumes "layout_wf l"
  shows "length (positions l) = count_ones (layout_mask l) \<and> distinct (positions l) \<and>
    (index_of l p = Some i \<longleftrightarrow> i < length (positions l) \<and> positions l ! i = p) \<and>
    (index_of l p = None \<longleftrightarrow> p \<notin> set (positions l))"
proof -
  have "index_of l p = None \<longleftrightarrow> (\<forall>i. \<not> (i < length (positions l) \<and> positions l ! i = p))"
    unfolding index_of_Some [symmetric] by (cases "index_of l p") auto
  also have "\<dots> \<longleftrightarrow> p \<notin> set (positions l)" unfolding in_set_conv_nth by blast
  finally show ?thesis
    using channels_eq_length_positions [OF assms] index_of_Some [of l p i] distinct_positions [of l] by presburger
qed

theorem layout_positions_witness:
  "layout_wf STEREO \<and> length (positions STEREO) = count_ones (layout_mask STEREO)"
  using layout_positions [of STEREO] by (simp add: STEREO_def layout_wf_of)

end
