(* ===== verification/Colorimetry.thy ===== *)
theory Colorimetry
  imports RustStr
begin

text \<open>
  The colour description of a video link (the colorimetry part of
  \<^verbatim>\<open>g2g-core/src/caps.rs\<close>): the four CICP vocabularies with their \<^verbatim>\<open>Unknown\<close> wildcards, the
  code point conversions, the field-wise intersection, the matrix a converter applies, and
  the GStreamer \<^verbatim>\<open>colorimetry=\<close> string form. The lemmas show the code point and string round
  trips and that the intersection is the product of four wildcard meets.
\<close>

section \<open>Vocabularies\<close>

datatype matrix_coefficients = MatUnknown | MatIdentity | MatBt601 | MatBt709 | MatBt2020Ncl

datatype transfer_characteristics =
  TrUnknown | TrSrgb | TrBt601 | TrBt709 | TrBt2020 | TrPq | TrHlg

datatype color_primaries = PrUnknown | PrBt709 | PrBt470bg | PrSmpte170m | PrBt2020

datatype color_range = RgUnknown | RgLimited | RgFull

definition CICP_UNSPECIFIED :: u8 where
  "CICP_UNSPECIFIED = 2"

definition matrix_from_cicp :: "u8 \<Rightarrow> matrix_coefficients" where
  "matrix_from_cicp codepoint =
     (if codepoint = 0 then MatIdentity
      else if codepoint = 1 then MatBt709
      else if codepoint = 5 \<or> codepoint = 6 then MatBt601
      else if codepoint = 9 then MatBt2020Ncl
      else MatUnknown)"

fun matrix_to_cicp :: "matrix_coefficients \<Rightarrow> u8" where
  "matrix_to_cicp MatUnknown = CICP_UNSPECIFIED"
| "matrix_to_cicp MatIdentity = 0"
| "matrix_to_cicp MatBt709 = 1"
| "matrix_to_cicp MatBt601 = 6"
| "matrix_to_cicp MatBt2020Ncl = 9"

definition transfer_from_cicp :: "u8 \<Rightarrow> transfer_characteristics" where
  "transfer_from_cicp codepoint =
     (if codepoint = 1 then TrBt709
      else if codepoint = 6 then TrBt601
      else if codepoint = 13 then TrSrgb
      else if codepoint = 14 \<or> codepoint = 15 then TrBt2020
      else if codepoint = 16 then TrPq
      else if codepoint = 18 then TrHlg
      else TrUnknown)"

fun transfer_to_cicp :: "transfer_characteristics \<Rightarrow> u8" where
  "transfer_to_cicp TrUnknown = CICP_UNSPECIFIED"
| "transfer_to_cicp TrBt709 = 1"
| "transfer_to_cicp TrBt601 = 6"
| "transfer_to_cicp TrSrgb = 13"
| "transfer_to_cicp TrBt2020 = 14"
| "transfer_to_cicp TrPq = 16"
| "transfer_to_cicp TrHlg = 18"

definition primaries_from_cicp :: "u8 \<Rightarrow> color_primaries" where
  "primaries_from_cicp codepoint =
     (if codepoint = 1 then PrBt709
      else if codepoint = 5 then PrBt470bg
      else if codepoint = 6 then PrSmpte170m
      else if codepoint = 9 then PrBt2020
      else PrUnknown)"

fun primaries_to_cicp :: "color_primaries \<Rightarrow> u8" where
  "primaries_to_cicp PrUnknown = CICP_UNSPECIFIED"
| "primaries_to_cicp PrBt709 = 1"
| "primaries_to_cicp PrBt470bg = 5"
| "primaries_to_cicp PrSmpte170m = 6"
| "primaries_to_cicp PrBt2020 = 9"

section \<open>The colorimetry of a link\<close>

record colorimetry =
  cl_range :: color_range
  cl_matrix :: matrix_coefficients
  cl_transfer :: transfer_characteristics
  cl_primaries :: color_primaries

definition CL_UNKNOWN :: colorimetry where
  "CL_UNKNOWN = \<lparr>cl_range = RgUnknown, cl_matrix = MatUnknown, cl_transfer = TrUnknown,
    cl_primaries = PrUnknown\<rparr>"

definition CL_BT601 :: colorimetry where
  "CL_BT601 = \<lparr>cl_range = RgLimited, cl_matrix = MatBt601, cl_transfer = TrBt601,
    cl_primaries = PrSmpte170m\<rparr>"

definition CL_BT709 :: colorimetry where
  "CL_BT709 = \<lparr>cl_range = RgLimited, cl_matrix = MatBt709, cl_transfer = TrBt709,
    cl_primaries = PrBt709\<rparr>"

definition CL_BT2020 :: colorimetry where
  "CL_BT2020 = \<lparr>cl_range = RgLimited, cl_matrix = MatBt2020Ncl, cl_transfer = TrBt2020,
    cl_primaries = PrBt2020\<rparr>"

definition CL_BT2100_PQ :: colorimetry where
  "CL_BT2100_PQ = \<lparr>cl_range = RgLimited, cl_matrix = MatBt2020Ncl, cl_transfer = TrPq,
    cl_primaries = PrBt2020\<rparr>"

definition CL_BT2100_HLG :: colorimetry where
  "CL_BT2100_HLG = \<lparr>cl_range = RgLimited, cl_matrix = MatBt2020Ncl, cl_transfer = TrHlg,
    cl_primaries = PrBt2020\<rparr>"

definition CL_SRGB :: colorimetry where
  "CL_SRGB = \<lparr>cl_range = RgFull, cl_matrix = MatIdentity, cl_transfer = TrSrgb,
    cl_primaries = PrBt709\<rparr>"

definition CL_JPEG :: colorimetry where
  "CL_JPEG = \<lparr>cl_range = RgFull, cl_matrix = MatBt601, cl_transfer = TrSrgb,
    cl_primaries = PrBt709\<rparr>"

definition colorimetry_from_cicp :: "u8 \<Rightarrow> u8 \<Rightarrow> u8 \<Rightarrow> bool \<Rightarrow> colorimetry" where
  "colorimetry_from_cicp colour_primaries tc mc full_range =
     \<lparr>cl_range = (if full_range then RgFull else RgLimited),
      cl_matrix = matrix_from_cicp mc,
      cl_transfer = transfer_from_cicp tc,
      cl_primaries = primaries_from_cicp colour_primaries\<rparr>"

text \<open>\<^verbatim>\<open>Colorimetry::intersect\<close>, with its inner \<^verbatim>\<open>field\<close> function.\<close>

definition cl_field :: "'a \<Rightarrow> 'a \<Rightarrow> 'a \<Rightarrow> 'a option" where
  "cl_field a b unknown =
     (if a = unknown then Some b else if b = unknown \<or> a = b then Some a else None)"

definition colorimetry_intersect :: "colorimetry \<Rightarrow> colorimetry \<Rightarrow> colorimetry option" where
  "colorimetry_intersect x y =
     Option.bind (cl_field (cl_range x) (cl_range y) RgUnknown) (\<lambda>rg.
     Option.bind (cl_field (cl_matrix x) (cl_matrix y) MatUnknown) (\<lambda>m.
     Option.bind (cl_field (cl_transfer x) (cl_transfer y) TrUnknown) (\<lambda>t.
     Option.bind (cl_field (cl_primaries x) (cl_primaries y) PrUnknown) (\<lambda>p.
       Some \<lparr>cl_range = rg, cl_matrix = m, cl_transfer = t, cl_primaries = p\<rparr>))))"

text \<open>
  The matrix and range a converter applies. The luma weights are the three named constants of
  \<^verbatim>\<open>LumaCoefficients\<close>; their \<^verbatim>\<open>f32\<close> values play no part in the choice.
\<close>

datatype luma_coefficients = LumaBT601 | LumaBT709 | LumaBT2020_NCL

record yuv_conversion_params =
  yc_matrix :: matrix_coefficients
  yc_luma :: luma_coefficients
  yc_full_range :: bool

definition yuv_conversion :: "colorimetry \<Rightarrow> yuv_conversion_params" where
  "yuv_conversion c =
     (let (m, luma) = (case cl_matrix c of
          MatBt709 \<Rightarrow> (MatBt709, LumaBT709)
        | MatBt2020Ncl \<Rightarrow> (MatBt2020Ncl, LumaBT2020_NCL)
        | _ \<Rightarrow> (MatBt601, LumaBT601))
      in \<lparr>yc_matrix = m, yc_luma = luma, yc_full_range = (cl_range c = RgFull)\<rparr>)"

section \<open>The GStreamer string form\<close>

definition GST_PRESETS :: "(string \<times> colorimetry) list" where
  "GST_PRESETS =
     [(''bt709'', CL_BT709),
      (''bt601'', CL_BT601),
      (''bt2020'', CL_BT2020),
      (''bt2100-pq'', CL_BT2100_PQ),
      (''bt2100-hlg'', CL_BT2100_HLG),
      (''sRGB'', CL_SRGB)]"

fun gst_range_num :: "color_range \<Rightarrow> nat" where
  "gst_range_num RgUnknown = 0"
| "gst_range_num RgFull = 1"
| "gst_range_num RgLimited = 2"

definition gst_range_from_num :: "nat \<Rightarrow> color_range option" where
  "gst_range_from_num v =
     (if v = 0 then Some RgUnknown
      else if v = 1 then Some RgFull
      else if v = 2 then Some RgLimited
      else None)"

fun gst_matrix_num :: "matrix_coefficients \<Rightarrow> nat" where
  "gst_matrix_num MatUnknown = 0"
| "gst_matrix_num MatIdentity = 1"
| "gst_matrix_num MatBt709 = 3"
| "gst_matrix_num MatBt601 = 4"
| "gst_matrix_num MatBt2020Ncl = 6"

definition gst_matrix_from_num :: "nat \<Rightarrow> matrix_coefficients option" where
  "gst_matrix_from_num v =
     (if v = 0 then Some MatUnknown
      else if v = 1 then Some MatIdentity
      else if v = 3 then Some MatBt709
      else if v = 4 then Some MatBt601
      else if v = 6 then Some MatBt2020Ncl
      else None)"

fun gst_transfer_num :: "transfer_characteristics \<Rightarrow> nat" where
  "gst_transfer_num TrUnknown = 0"
| "gst_transfer_num TrBt709 = 5"
| "gst_transfer_num TrSrgb = 7"
| "gst_transfer_num TrBt2020 = 11"
| "gst_transfer_num TrPq = 14"
| "gst_transfer_num TrHlg = 15"
| "gst_transfer_num TrBt601 = 16"

definition gst_transfer_from_num :: "nat \<Rightarrow> transfer_characteristics option" where
  "gst_transfer_from_num v =
     (if v = 0 then Some TrUnknown
      else if v = 5 then Some TrBt709
      else if v = 7 then Some TrSrgb
      else if v = 11 \<or> v = 13 then Some TrBt2020
      else if v = 14 then Some TrPq
      else if v = 15 then Some TrHlg
      else if v = 16 then Some TrBt601
      else None)"

fun gst_primaries_num :: "color_primaries \<Rightarrow> nat" where
  "gst_primaries_num PrUnknown = 0"
| "gst_primaries_num PrBt709 = 1"
| "gst_primaries_num PrBt470bg = 3"
| "gst_primaries_num PrSmpte170m = 4"
| "gst_primaries_num PrBt2020 = 7"

definition gst_primaries_from_num :: "nat \<Rightarrow> color_primaries option" where
  "gst_primaries_from_num v =
     (if v = 0 then Some PrUnknown
      else if v = 1 then Some PrBt709
      else if v = 3 then Some PrBt470bg
      else if v = 4 then Some PrSmpte170m
      else if v = 7 then Some PrBt2020
      else None)"

definition colorimetry_to_gst_string :: "colorimetry \<Rightarrow> string option" where
  "colorimetry_to_gst_string c =
     (if c = CL_UNKNOWN then None
      else case find_map (\<lambda>(name, preset). if c = preset then Some name else None) GST_PRESETS of
             Some name \<Rightarrow> Some name
           | None \<Rightarrow>
               Some (show_nat (gst_range_num (cl_range c)) @ '':'' @
                     show_nat (gst_matrix_num (cl_matrix c)) @ '':'' @
                     show_nat (gst_transfer_num (cl_transfer c)) @ '':'' @
                     show_nat (gst_primaries_num (cl_primaries c))))"

text \<open>
  The parser reads the four numbers with \<^verbatim>\<open>parts.next()?.parse().ok()?\<close> one after the other and
  refuses a fifth part.
\<close>

definition colorimetry_from_gst_string :: "string \<Rightarrow> colorimetry option" where
  "colorimetry_from_gst_string s0 =
     (let s = trim s0 in
      case find_map (\<lambda>(name, preset). if eq_ignore_ascii_case s name then Some preset else None)
             GST_PRESETS of
        Some preset \<Rightarrow> Some preset
      | None \<Rightarrow>
          (case split_on (CHR '':'') s of
             [a, b, c, d] \<Rightarrow>
               Option.bind (Option.bind (parse_unsigned 256 a) gst_range_from_num) (\<lambda>rg.
               Option.bind (Option.bind (parse_unsigned 256 b) gst_matrix_from_num) (\<lambda>m.
               Option.bind (Option.bind (parse_unsigned 256 c) gst_transfer_from_num) (\<lambda>t.
               Option.bind (Option.bind (parse_unsigned 256 d) gst_primaries_from_num) (\<lambda>p.
                 Some \<lparr>cl_range = rg, cl_matrix = m, cl_transfer = t, cl_primaries = p\<rparr>))))
           | _ \<Rightarrow> None))"

section \<open>Order and meet\<close>

definition colorimetry_le :: "colorimetry \<Rightarrow> colorimetry \<Rightarrow> bool" where
  "colorimetry_le x y \<longleftrightarrow>
     wild_le RgUnknown (cl_range x) (cl_range y) \<and>
     wild_le MatUnknown (cl_matrix x) (cl_matrix y) \<and>
     wild_le TrUnknown (cl_transfer x) (cl_transfer y) \<and>
     wild_le PrUnknown (cl_primaries x) (cl_primaries y)"

lemma cl_field_wild: "cl_field a b u = wild_meet u a b"
  by (simp add: cl_field_def wild_meet_def)

lemma colorimetry_intersect_Some:
  "colorimetry_intersect x y = Some z \<longleftrightarrow>
     wild_meet RgUnknown (cl_range x) (cl_range y) = Some (cl_range z) \<and>
     wild_meet MatUnknown (cl_matrix x) (cl_matrix y) = Some (cl_matrix z) \<and>
     wild_meet TrUnknown (cl_transfer x) (cl_transfer y) = Some (cl_transfer z) \<and>
     wild_meet PrUnknown (cl_primaries x) (cl_primaries y) = Some (cl_primaries z)"
  by (cases z) (auto simp: colorimetry_intersect_def cl_field_wild bind_eq_Some_conv)

interpretation colorimetry: partial_meet "\<lambda>_. True" colorimetry_le colorimetry_intersect
proof unfold_locales
  fix x y z :: colorimetry
  show "colorimetry_le x x" by (simp add: colorimetry_le_def wild.le_refl)
  show "colorimetry_le x y \<Longrightarrow> colorimetry_le y z \<Longrightarrow> colorimetry_le x z"
    unfolding colorimetry_le_def using wild.le_trans by metis
next
  fix a b r :: colorimetry
  assume "colorimetry_intersect a b = Some r"
  then show "colorimetry_le r a" "colorimetry_le r b"
    by (auto simp: colorimetry_intersect_Some colorimetry_le_def
        intro: wild.meet_le1 wild.meet_le2)
next
  fix c a b :: colorimetry
  assume "colorimetry_le c a" "colorimetry_le c b"
  then obtain rg m t p where
    "wild_meet RgUnknown (cl_range a) (cl_range b) = Some rg" "wild_le RgUnknown (cl_range c) rg"
    "wild_meet MatUnknown (cl_matrix a) (cl_matrix b) = Some m" "wild_le MatUnknown (cl_matrix c) m"
    "wild_meet TrUnknown (cl_transfer a) (cl_transfer b) = Some t" "wild_le TrUnknown (cl_transfer c) t"
    "wild_meet PrUnknown (cl_primaries a) (cl_primaries b) = Some p" "wild_le PrUnknown (cl_primaries c) p"
    unfolding colorimetry_le_def using wild.meet_greatest by metis
  then have
    "colorimetry_intersect a b =
       Some \<lparr>cl_range = rg, cl_matrix = m, cl_transfer = t, cl_primaries = p\<rparr> \<and>
     colorimetry_le c \<lparr>cl_range = rg, cl_matrix = m, cl_transfer = t, cl_primaries = p\<rparr>"
    by (simp add: colorimetry_intersect_Some colorimetry_le_def)
  then show "\<exists>r. colorimetry_intersect a b = Some r \<and> colorimetry_le c r" by blast
qed simp

section \<open>Round trips\<close>

lemma matrix_cicp_roundtrip: "matrix_from_cicp (matrix_to_cicp m) = m"
  by (cases m) (simp_all add: matrix_from_cicp_def CICP_UNSPECIFIED_def)

lemma transfer_cicp_roundtrip: "transfer_from_cicp (transfer_to_cicp t) = t"
  by (cases t) (simp_all add: transfer_from_cicp_def CICP_UNSPECIFIED_def)

lemma primaries_cicp_roundtrip: "primaries_from_cicp (primaries_to_cicp p) = p"
  by (cases p) (simp_all add: primaries_from_cicp_def CICP_UNSPECIFIED_def)

lemma gst_range_num_roundtrip: "gst_range_from_num (gst_range_num r) = Some r"
  by (cases r) (simp_all add: gst_range_from_num_def)

lemma gst_matrix_num_roundtrip: "gst_matrix_from_num (gst_matrix_num m) = Some m"
  by (cases m) (simp_all add: gst_matrix_from_num_def)

lemma gst_transfer_num_roundtrip: "gst_transfer_from_num (gst_transfer_num t) = Some t"
  by (cases t) (simp_all add: gst_transfer_from_num_def)

lemma gst_primaries_num_roundtrip: "gst_primaries_from_num (gst_primaries_num p) = Some p"
  by (cases p) (simp_all add: gst_primaries_from_num_def)

lemmas gst_num_roundtrips = gst_range_num_roundtrip gst_matrix_num_roundtrip
  gst_transfer_num_roundtrip gst_primaries_num_roundtrip

lemma gst_range_num_bound: "gst_range_num r < 256"
  by (cases r) simp_all

lemma gst_matrix_num_bound: "gst_matrix_num m < 256"
  by (cases m) simp_all

lemma gst_transfer_num_bound: "gst_transfer_num t < 256"
  by (cases t) simp_all

lemma gst_primaries_num_bound: "gst_primaries_num p < 256"
  by (cases p) simp_all

lemmas gst_num_bounds = gst_range_num_bound gst_matrix_num_bound
  gst_transfer_num_bound gst_primaries_num_bound

lemma ascii_lower_colon: "CHR '':'' = ascii_lower c \<Longrightarrow> c = CHR '':''"
proof -
  assume eq: "CHR '':'' = ascii_lower c"
  show "c = CHR '':''"
  proof (cases "65 \<le> (of_char c :: nat) \<and> of_char c \<le> (90 :: nat)")
    case True
    then have "of_char (ascii_lower c) = (of_char c + 32 :: nat)"
      by (simp add: ascii_lower_def Let_def)
    moreover have "of_char (ascii_lower c) = (58 :: nat)" using eq [symmetric] by simp
    ultimately show ?thesis using True by simp
  next
    case False
    then show ?thesis using eq by (auto simp: ascii_lower_def Let_def)
  qed
qed

text \<open>A preset name contains no colon, so the numeric form is never read as a preset.\<close>

lemma find_preset_numeric:
  assumes "CHR '':'' \<in> set s"
  shows "find_map (\<lambda>(name, preset). if eq_ignore_ascii_case s name then Some preset else None)
    GST_PRESETS = None"
proof -
  have "ascii_lower (CHR '':'') = CHR '':''" by (simp add: ascii_lower_def)
  then have "CHR '':'' \<in> set (map ascii_lower s)" using assms by force
  moreover have "CHR '':'' \<notin> set (map ascii_lower name)" if "(name, preset) \<in> set GST_PRESETS" for name preset
    using that by (auto simp: GST_PRESETS_def dest!: ascii_lower_colon)
  ultimately show ?thesis unfolding find_map_None eq_ignore_ascii_case_def
    by (auto simp del: set_map split: prod.splits)
qed

lemma find_preset_name:
  assumes "find_map (\<lambda>(name, preset). if c = preset then Some name else None) GST_PRESETS = Some name"
  shows "colorimetry_from_gst_string name = Some c"
proof -
  have "(name, c) \<in> set GST_PRESETS" using find_map_Some [OF assms] by (auto split: if_splits)
  then show ?thesis
    by (auto simp: GST_PRESETS_def colorimetry_from_gst_string_def trim_def is_space_def
        eq_ignore_ascii_case_def ascii_lower_def Let_def)
qed

lemma colorimetry_gst_roundtrip:
  assumes "colorimetry_to_gst_string c = Some s"
  shows "colorimetry_from_gst_string s = Some c"
proof (cases "find_map (\<lambda>(name, preset). if c = preset then Some name else None) GST_PRESETS")
  case (Some name)
  then show ?thesis using assms find_preset_name [OF Some]
    by (simp add: colorimetry_to_gst_string_def split: if_splits)
next
  case None
  define a b d e where "a = show_nat (gst_range_num (cl_range c))"
    and "b = show_nat (gst_matrix_num (cl_matrix c))"
    and "d = show_nat (gst_transfer_num (cl_transfer c))"
    and "e = show_nat (gst_primaries_num (cl_primaries c))"
  note parts = a_def b_def d_def e_def
  have s: "s = a @ CHR '':'' # b @ CHR '':'' # d @ CHR '':'' # e"
    using assms None by (simp add: colorimetry_to_gst_string_def parts split: if_splits)
  have colon: "CHR '':'' \<notin> set a" "CHR '':'' \<notin> set b" "CHR '':'' \<notin> set d" "CHR '':'' \<notin> set e"
    unfolding parts by (intro show_nat_no_char; simp)+
  have "\<forall>x \<in> set s. \<not> is_space x"
    unfolding s parts by (auto dest: show_nat_no_space) (simp_all add: is_space_def)
  then have "trim s = s" by (rule trim_no_space)
  moreover have "split_on (CHR '':'') s = [a, b, d, e]"
    by (simp add: s split_on_append split_on_no_sep colon)
  moreover have "find_map (\<lambda>(name, preset). if eq_ignore_ascii_case s name then Some preset else None)
      GST_PRESETS = None"
    by (rule find_preset_numeric) (simp add: s)
  ultimately show ?thesis
    by (simp add: colorimetry_from_gst_string_def Let_def parts gst_num_roundtrips gst_num_bounds)
qed

section \<open>Properties\<close>

text \<open>
  Where a colorimetry has a GStreamer string, reading that string gives the colorimetry back,
  preset names and numeric quadruples alike.
\<close>

theorem colorimetry_string_roundtrip:
  assumes "colorimetry_to_gst_string c = Some s"
  shows "colorimetry_from_gst_string s = Some c"
  by (rule colorimetry_gst_roundtrip [OF assms])

theorem colorimetry_string_roundtrip_witness: "colorimetry_from_gst_string ''bt709'' = Some CL_BT709"
  by (rule colorimetry_string_roundtrip) code_simp

text \<open>The matrix, transfer and primaries codes of the bitstream standards read back.\<close>

theorem cicp_roundtrip:
  "matrix_from_cicp (matrix_to_cicp m) = m \<and> transfer_from_cicp (transfer_to_cicp t) = t \<and>
   primaries_from_cicp (primaries_to_cicp p) = p"
  by (simp add: matrix_cicp_roundtrip transfer_cicp_roundtrip primaries_cicp_roundtrip)

end
