(* ===== verification/Caps.thy ===== *)
theory Caps
  imports Channels Colorimetry
begin

text \<open>
  The capability algebra (\<^verbatim>\<open>g2g-core/src/caps.rs\<close>): the ranged fields \<^verbatim>\<open>Dim\<close> and \<^verbatim>\<open>Rate\<close>, the
  media vocabularies, the eleven variants of \<^verbatim>\<open>Caps\<close>, their intersection (phase 1 of the
  negotiation), fixation (phase 2), and the preference-ordered \<^verbatim>\<open>CapsSet\<close>. The specification
  is an information order \<open>caps_le\<close>: \<open>caps_le c a\<close> says that every stream \<open>c\<close> describes is one
  \<open>a\<close> describes. Intersection is its partial meet, fixation picks a fixed element below.
\<close>

section \<open>Errors\<close>

text \<open>\<^verbatim>\<open>g2g-core/src/error.rs\<close>; the error the capability algebra raises is \<^verbatim>\<open>CapsMismatch\<close>.\<close>

datatype network_failure = NetConnect | NetStream

datatype http_transport_failure =
  HttpTimeout | HttpConnect | HttpRequest | HttpBody | HttpDecode | HttpRedirect

datatype hardware_error =
  HwVulkan int
| HwV4l2 int
| HwWgpu
| HwMediaFoundation int
| HwCuda int
| HwIo int
| HwAlsa int
| HwPulseAudio int
| HwPipeWire int
| HwPeripheral
| HwOther
| HwDeckLink int
| HwLibraryNotFound string
| HwHttp u16
| HwHttpTransport http_transport_failure
| HwMissingCodec string
| HwHip int

datatype g2g_error =
  CapsMismatch
| NotConfigured
| FixationFailed
| PoolExhausted
| UnsupportedDomain
| AllocationConflict
| Hardware hardware_error
| Shutdown
| CopyBudget
| InputRefused
| ControlBinding
| Timeout
| PortCountMismatch nat nat
| BatchFrameTaken nat
| SeekRefused
| VisitRecorderConflict
| Network network_failure
| RtspStream
| FileNotFound
| WindowClosed

section \<open>Ranged fields\<close>

text \<open>\<^verbatim>\<open>u32::MIN\<close> and \<^verbatim>\<open>u32::MAX\<close> are the least and the greatest word.\<close>

definition u32_MAX :: u32 where
  "u32_MAX = - 1"

definition intersect_range :: "u32 \<times> u32 \<Rightarrow> u32 \<times> u32 \<Rightarrow> (u32 \<times> u32) option" where
  "intersect_range a b =
     (let lo = max (fst a) (fst b); hi = min (snd a) (snd b)
      in if lo \<le> hi then Some (lo, hi) else None)"

datatype dim = DimAny | DimRange u32 u32 | DimFixed u32

fun dim_bounds :: "dim \<Rightarrow> u32 \<times> u32" where
  "dim_bounds DimAny = (0, u32_MAX)"
| "dim_bounds (DimRange mn mx) = (mn, mx)"
| "dim_bounds (DimFixed v) = (v, v)"

definition dim_from_bounds :: "u32 \<times> u32 \<Rightarrow> dim" where
  "dim_from_bounds b =
     (if fst b = snd b then DimFixed (fst b)
      else if b = (0, u32_MAX) then DimAny
      else DimRange (fst b) (snd b))"

definition dim_intersect :: "dim \<Rightarrow> dim \<Rightarrow> dim option" where
  "dim_intersect a b = map_option dim_from_bounds (intersect_range (dim_bounds a) (dim_bounds b))"

fun dim_is_fixed :: "dim \<Rightarrow> bool" where
  "dim_is_fixed (DimFixed _) = True"
| "dim_is_fixed _ = False"

fun dim_fixed :: "dim \<Rightarrow> u32 option" where
  "dim_fixed (DimFixed v) = Some v"
| "dim_fixed _ = None"

fun dim_fixate :: "dim \<Rightarrow> dim option" where
  "dim_fixate (DimFixed v) = Some (DimFixed v)"
| "dim_fixate (DimRange mn mx) = (if mn \<le> mx then Some (DimFixed mn) else None)"
| "dim_fixate DimAny = None"

definition dim_nearest_to :: "dim \<Rightarrow> dim \<Rightarrow> dim" where
  "dim_nearest_to d preferred =
     (case (d, preferred) of
        (DimRange mn mx, DimFixed v) \<Rightarrow> if mn \<le> mx then DimFixed (clamp v mn mx) else d
      | _ \<Rightarrow> d)"

datatype rate = RateAny | RateRange u32 u32 | RateFixed u32

fun rate_bounds :: "rate \<Rightarrow> u32 \<times> u32" where
  "rate_bounds RateAny = (0, u32_MAX)"
| "rate_bounds (RateRange mn mx) = (mn, mx)"
| "rate_bounds (RateFixed v) = (v, v)"

definition rate_from_bounds :: "u32 \<times> u32 \<Rightarrow> rate" where
  "rate_from_bounds b =
     (if fst b = snd b then RateFixed (fst b)
      else if b = (0, u32_MAX) then RateAny
      else RateRange (fst b) (snd b))"

definition rate_intersect :: "rate \<Rightarrow> rate \<Rightarrow> rate option" where
  "rate_intersect a b = map_option rate_from_bounds (intersect_range (rate_bounds a) (rate_bounds b))"

fun rate_is_fixed :: "rate \<Rightarrow> bool" where
  "rate_is_fixed (RateFixed _) = True"
| "rate_is_fixed _ = False"

fun rate_fixate :: "rate \<Rightarrow> rate option" where
  "rate_fixate (RateFixed v) = Some (RateFixed v)"
| "rate_fixate (RateRange mn mx) = (if mn \<le> mx then Some (RateFixed mn) else None)"
| "rate_fixate RateAny = None"

definition rate_nearest_to :: "rate \<Rightarrow> rate \<Rightarrow> rate" where
  "rate_nearest_to r preferred =
     (case (r, preferred) of
        (RateRange mn mx, RateFixed v) \<Rightarrow> if mn \<le> mx then RateFixed (clamp v mn mx) else r
      | _ \<Rightarrow> r)"

section \<open>Framerates in Q16 fixed point\<close>

definition Q16_FRACTION_BITS :: nat where
  "Q16_FRACTION_BITS = 16"

definition Q16_DENOMINATOR :: u32 where
  "Q16_DENOMINATOR = push_bit Q16_FRACTION_BITS 1"

definition NANOS_PER_SECOND :: u64 where
  "NANOS_PER_SECOND = 1000000000"

function greatest_common_divisor :: "u64 \<Rightarrow> u64 \<Rightarrow> u64" where
  "greatest_common_divisor a b = (if b \<noteq> 0 then greatest_common_divisor b (a mod b) else a)"
  by pat_completeness auto
termination
  by (relation "measure (\<lambda>(a, b). unat b)")
    (auto simp: unat_mod unat_gt_0 intro!: mod_less_divisor)

declare greatest_common_divisor.simps [simp del]

text \<open>\<^verbatim>\<open>u32::try_from(q16).ok()\<close> is the range check.\<close>

definition framerate_q16_from_fraction :: "u32 \<Rightarrow> u32 \<Rightarrow> u32 option" where
  "framerate_q16_from_fraction num den =
     (case checked_div (push_bit Q16_FRACTION_BITS (ucast num :: u64)) (ucast den) of
        None \<Rightarrow> None
      | Some q16 \<Rightarrow> if unat q16 < 2 ^ 32 then Some (ucast q16) else None)"

definition framerate_q16_to_fraction :: "u32 \<Rightarrow> u32 \<times> u32" where
  "framerate_q16_to_fraction q16 =
     (let divisor = ucast (greatest_common_divisor (ucast q16) (ucast Q16_DENOMINATOR)) :: u32
      in (q16 div divisor, Q16_DENOMINATOR div divisor))"

definition framerate_q16_period_ns :: "u32 \<Rightarrow> u64 option" where
  "framerate_q16_period_ns q16 =
     checked_div (push_bit Q16_FRACTION_BITS NANOS_PER_SECOND) (ucast q16)"

section \<open>Scalar fields with a wildcard\<close>

datatype interlace = InterlaceAny | Progressive | Interleaved

definition interlace_intersect :: "interlace \<Rightarrow> interlace \<Rightarrow> interlace option" where
  "interlace_intersect a b =
     (if a = InterlaceAny then Some b
      else if b = InterlaceAny then Some a
      else if a = b then Some a
      else None)"

datatype bitstream_alignment = AlignUnspecified | AccessUnit | Nal

definition alignment_intersect ::
  "bitstream_alignment \<Rightarrow> bitstream_alignment \<Rightarrow> bitstream_alignment option" where
  "alignment_intersect a b =
     (if a = AlignUnspecified then Some b
      else if b = AlignUnspecified then Some a
      else if a = b then Some a
      else None)"

fun alignment_gst_name :: "bitstream_alignment \<Rightarrow> string option" where
  "alignment_gst_name AlignUnspecified = None"
| "alignment_gst_name AccessUnit = Some ''au''"
| "alignment_gst_name Nal = Some ''nal''"

definition ANY_SAMPLE_RATE :: u32 where
  "ANY_SAMPLE_RATE = 0"

definition ANY_CHANNELS :: u8 where
  "ANY_CHANNELS = 0"

definition FIXATE_CHANNELS_PLACEHOLDER :: u8 where
  "FIXATE_CHANNELS_PLACEHOLDER = 2"

definition intersect_sample_rate :: "u32 \<Rightarrow> u32 \<Rightarrow> u32 option" where
  "intersect_sample_rate a b =
     (if a = ANY_SAMPLE_RATE then Some b
      else if b = ANY_SAMPLE_RATE then Some a
      else if a = b then Some a
      else None)"

definition intersect_channels :: "u8 \<Rightarrow> u8 \<Rightarrow> u8 option" where
  "intersect_channels a b =
     (if a = ANY_CHANNELS then Some b
      else if b = ANY_CHANNELS then Some a
      else if a = b then Some a
      else None)"

section \<open>Media vocabularies\<close>

datatype tag_namespace = Riff | Mov

record codec_tag =
  ct_namespace :: tag_namespace
  ct_tag :: u32

datatype prores_variant =
  ProResProxy | ProResLt | ProResStandard | ProResHq | ProRes4444 | ProRes4444Xq

definition PRORES_ALL :: "prores_variant list" where
  "PRORES_ALL = [ProResProxy, ProResLt, ProResStandard, ProResHq, ProRes4444, ProRes4444Xq]"

text \<open>The four bytes of a sample entry code, as the characters of the byte string literal.\<close>

fun prores_fourcc :: "prores_variant \<Rightarrow> string" where
  "prores_fourcc ProResProxy = ''apco''"
| "prores_fourcc ProResLt = ''apcs''"
| "prores_fourcc ProResStandard = ''apcn''"
| "prores_fourcc ProResHq = ''apch''"
| "prores_fourcc ProRes4444 = ''ap4h''"
| "prores_fourcc ProRes4444Xq = ''ap4x''"

definition prores_from_fourcc :: "string \<Rightarrow> prores_variant option" where
  "prores_from_fourcc fourcc = List.find (\<lambda>v. prores_fourcc v = fourcc) PRORES_ALL"

fun prores_gst_name :: "prores_variant \<Rightarrow> string" where
  "prores_gst_name ProResProxy = ''proxy''"
| "prores_gst_name ProResLt = ''lt''"
| "prores_gst_name ProResStandard = ''standard''"
| "prores_gst_name ProResHq = ''hq''"
| "prores_gst_name ProRes4444 = ''4444''"
| "prores_gst_name ProRes4444Xq = ''4444xq''"

definition prores_from_gst_name :: "string \<Rightarrow> prores_variant option" where
  "prores_from_gst_name name = List.find (\<lambda>v. prores_gst_name v = name) PRORES_ALL"

datatype video_codec =
  H264 | H265 | Av1 | Vp8 | Vp9 | Mjpeg | Png | WebP | Mpeg4Part2 | Mpeg2 | SorensonH263
| Vp6 bool
| JpegXs | Vc1 | Pnm | Vp6Plain | Theora
| ProRes prores_variant
| DnxHd
| VideoTagged codec_tag

datatype byte_stream_encoding =
  MpegTs | Matroska | Ogg | Flv | IsoBmff | Mp4 | Ivf | MpegPs | Wav | Aiff | Au | Avi | Y4m
| Multipart | RawBytes | Rtp | Srtp | Rtcp | Srtcp | Dtls | Iv8

datatype text_format = Utf8 | PangoMarkup | Srt | WebVtt | Ssa | Ttml | Teletext

datatype closed_caption_format = Cea608 | Cea608Raw | Cea608S334 | Cea708 | Cea708Cdp

datatype sub_picture_format = VobSub | DvbSub | Pgs

datatype raw_video_format =
  Nv12 | I420 | Rgba8 | Bgra8 | Rgb8 | Yuyv | I420p10 | I420p12 | I422 | I422p10 | I422p12
| I444 | I444p10 | I444p12 | P010 | A420 | Uyvy | A444p12 | V210 | R210 | Gbr10Le | Gray8
| Bgr8 | Bgrx8 | Argb8

datatype audio_format =
  Aac | Opus | Mp2 | Ac3 | Mp3 | Speex | Flac | Vorbis
| PcmS16Le | PcmF32Le | PcmS24Le | PcmS32Le | PcmU8
| Mulaw | Alaw | ImaAdpcm
| AudioTagged codec_tag

fun audio_bytes_per_sample :: "audio_format \<Rightarrow> nat option" where
  "audio_bytes_per_sample PcmU8 = Some 1"
| "audio_bytes_per_sample Mulaw = Some 1"
| "audio_bytes_per_sample Alaw = Some 1"
| "audio_bytes_per_sample PcmS16Le = Some 2"
| "audio_bytes_per_sample PcmS24Le = Some 3"
| "audio_bytes_per_sample PcmS32Le = Some 4"
| "audio_bytes_per_sample PcmF32Le = Some 4"
| "audio_bytes_per_sample _ = None"

definition PCM_FORMATS :: "(audio_format \<times> string) list" where
  "PCM_FORMATS =
     [(PcmS16Le, ''S16LE''), (PcmF32Le, ''F32LE''), (PcmS24Le, ''S24LE''), (PcmS32Le, ''S32LE''),
      (PcmU8, ''U8'')]"

definition pcm_formats :: "audio_format list" where
  "pcm_formats = map fst PCM_FORMATS"

definition pcm_gst_format :: "audio_format \<Rightarrow> string option" where
  "pcm_gst_format f = find_map (\<lambda>(format, name). if format = f then Some name else None) PCM_FORMATS"

definition pcm_from_gst_format :: "string \<Rightarrow> audio_format option" where
  "pcm_from_gst_format name =
     find_map (\<lambda>(format, gst). if eq_ignore_ascii_case gst name then Some format else None) PCM_FORMATS"

definition is_pcm :: "audio_format \<Rightarrow> bool" where
  "is_pcm f \<longleftrightarrow> list_ex (\<lambda>(format, _). format = f) PCM_FORMATS"

datatype tensor_dtype = F16 | F32 | I8 | U8

fun tensor_dtype_size :: "tensor_dtype \<Rightarrow> nat" where
  "tensor_dtype_size F16 = 2"
| "tensor_dtype_size F32 = 4"
| "tensor_dtype_size I8 = 1"
| "tensor_dtype_size U8 = 1"

definition MAX_TENSOR_RANK :: nat where
  "MAX_TENSOR_RANK = 6"

text \<open>The array of dimensions, padded with zeros to the maximal rank, and the rank.\<close>

record tensor_shape =
  ts_dims :: "u32 list"
  ts_rank :: u8

definition tensor_shape_from_slice :: "u32 list \<Rightarrow> tensor_shape option" where
  "tensor_shape_from_slice dims =
     (if dims = [] \<or> length dims > MAX_TENSOR_RANK then None
      else Some \<lparr>ts_dims = dims @ replicate (MAX_TENSOR_RANK - length dims) 0,
                 ts_rank = of_nat (length dims)\<rparr>)"

definition tensor_shape_dims :: "tensor_shape \<Rightarrow> u32 list" where
  "tensor_shape_dims s = take (min (unat (ts_rank s)) MAX_TENSOR_RANK) (ts_dims s)"

text \<open>\<^verbatim>\<open>usize\<close> is 64 bits wide.\<close>

definition tensor_shape_elements :: "tensor_shape \<Rightarrow> u64" where
  "tensor_shape_elements s = foldl (\<lambda>acc d. saturating_mul acc (ucast d)) 1 (tensor_shape_dims s)"

datatype tensor_layout = Nchw | Nhwc

section \<open>Caps\<close>

datatype caps =
  CompressedVideo video_codec dim dim rate colorimetry bitstream_alignment
| RawVideo raw_video_format dim dim rate interlace colorimetry
| Audio audio_format u8 u32 channel_layout
| Tensor tensor_dtype tensor_shape tensor_layout
| ByteStream byte_stream_encoding
| Text text_format
| Klv
| ClosedCaption closed_caption_format
| SubPicture sub_picture_format
| OnvifMetadata
| Batch "caps list"

fun is_raw_media :: "caps \<Rightarrow> bool" where
  "is_raw_media (RawVideo _ _ _ _ _ _) = True"
| "is_raw_media (Tensor _ _ _) = True"
| "is_raw_media (Audio format _ _ _) = is_pcm format"
| "is_raw_media _ = False"

text \<open>
  \<^verbatim>\<open>Caps::intersect\<close>. The Rust match binds both sides at once; here the left caps selects the arm
  and the guard on the right caps is the inner case. The fields are tried in the order the
  struct literal evaluates them.
\<close>

primrec caps_intersect :: "caps \<Rightarrow> caps \<Rightarrow> g2g_error + caps" where
  "caps_intersect (CompressedVideo ca wa ha ra cla aa) other =
     (case other of
        CompressedVideo cb wb hb rb clb ab \<Rightarrow>
          if ca = cb then
            bind_res (ok_or (dim_intersect wa wb) CapsMismatch) (\<lambda>w.
            bind_res (ok_or (dim_intersect ha hb) CapsMismatch) (\<lambda>h.
            bind_res (ok_or (rate_intersect ra rb) CapsMismatch) (\<lambda>r.
            bind_res (ok_or (colorimetry_intersect cla clb) CapsMismatch) (\<lambda>cl.
            bind_res (ok_or (alignment_intersect aa ab) CapsMismatch) (\<lambda>a.
              Inr (CompressedVideo ca w h r cl a))))))
          else Inl CapsMismatch
      | _ \<Rightarrow> Inl CapsMismatch)"
| "caps_intersect (RawVideo fa wa ha ra ia cla) other =
     (case other of
        RawVideo fb wb hb rb ib clb \<Rightarrow>
          if fa = fb then
            bind_res (ok_or (dim_intersect wa wb) CapsMismatch) (\<lambda>w.
            bind_res (ok_or (dim_intersect ha hb) CapsMismatch) (\<lambda>h.
            bind_res (ok_or (rate_intersect ra rb) CapsMismatch) (\<lambda>r.
            bind_res (ok_or (interlace_intersect ia ib) CapsMismatch) (\<lambda>i.
            bind_res (ok_or (colorimetry_intersect cla clb) CapsMismatch) (\<lambda>cl.
              Inr (RawVideo fa w h r i cl))))))
          else Inl CapsMismatch
      | _ \<Rightarrow> Inl CapsMismatch)"
| "caps_intersect (Audio fa ca sa la) other =
     (case other of
        Audio fb cb sb lb \<Rightarrow>
          if fa = fb then
            (case (intersect_channels ca cb, intersect_sample_rate sa sb, layout_intersect la lb) of
               (Some channels, Some sample_rate, Some layout) \<Rightarrow>
                 Inr (Audio fa channels sample_rate layout)
             | _ \<Rightarrow> Inl CapsMismatch)
          else Inl CapsMismatch
      | _ \<Rightarrow> Inl CapsMismatch)"
| "caps_intersect (Tensor da sha la) other =
     (case other of
        Tensor db shb lb \<Rightarrow>
          if da = db \<and> sha = shb \<and> la = lb then Inr (Tensor da sha la) else Inl CapsMismatch
      | _ \<Rightarrow> Inl CapsMismatch)"
| "caps_intersect (ByteStream ea) other =
     (case other of
        ByteStream eb \<Rightarrow> if ea = eb then Inr (ByteStream ea) else Inl CapsMismatch
      | _ \<Rightarrow> Inl CapsMismatch)"
| "caps_intersect (Text fa) other =
     (case other of
        Text fb \<Rightarrow> if fa = fb then Inr (Text fa) else Inl CapsMismatch
      | _ \<Rightarrow> Inl CapsMismatch)"
| "caps_intersect Klv other =
     (case other of Klv \<Rightarrow> Inr Klv | _ \<Rightarrow> Inl CapsMismatch)"
| "caps_intersect (ClosedCaption a) other =
     (case other of
        ClosedCaption b \<Rightarrow> if a = b then Inr (ClosedCaption a) else Inl CapsMismatch
      | _ \<Rightarrow> Inl CapsMismatch)"
| "caps_intersect (SubPicture a) other =
     (case other of
        SubPicture b \<Rightarrow> if a = b then Inr (SubPicture a) else Inl CapsMismatch
      | _ \<Rightarrow> Inl CapsMismatch)"
| "caps_intersect OnvifMetadata other =
     (case other of OnvifMetadata \<Rightarrow> Inr OnvifMetadata | _ \<Rightarrow> Inl CapsMismatch)"
| "caps_intersect (Batch a) other =
     (case other of
        Batch b \<Rightarrow>
          if length a = length b then
            bind_res (collect_res (map2 (\<lambda>f y. f y) (map caps_intersect a) b)) (\<lambda>streams.
              Inr (Batch streams))
          else Inl CapsMismatch
      | _ \<Rightarrow> Inl CapsMismatch)"

fun caps_dims :: "caps \<Rightarrow> (dim \<times> dim \<times> rate) option" where
  "caps_dims (CompressedVideo _ w h r _ _) = Some (w, h, r)"
| "caps_dims (RawVideo _ w h r _ _) = Some (w, h, r)"
| "caps_dims _ = None"

primrec caps_is_fixed :: "caps \<Rightarrow> bool" where
  "caps_is_fixed (CompressedVideo _ w h r _ _) = (dim_is_fixed w \<and> dim_is_fixed h \<and> rate_is_fixed r)"
| "caps_is_fixed (RawVideo _ w h r _ _) = (dim_is_fixed w \<and> dim_is_fixed h \<and> rate_is_fixed r)"
| "caps_is_fixed (Audio format channels sample_rate _) =
     (\<not> (is_pcm format \<and> (sample_rate = ANY_SAMPLE_RATE \<or> channels = ANY_CHANNELS)))"
| "caps_is_fixed (Tensor _ _ _) = True"
| "caps_is_fixed (ByteStream _) = True"
| "caps_is_fixed (Text _) = True"
| "caps_is_fixed Klv = True"
| "caps_is_fixed (ClosedCaption _) = True"
| "caps_is_fixed (SubPicture _) = True"
| "caps_is_fixed OnvifMetadata = True"
| "caps_is_fixed (Batch streams) = list_all (\<lambda>b. b) (map caps_is_fixed streams)"

primrec caps_fixate :: "caps \<Rightarrow> g2g_error + caps" where
  "caps_fixate (CompressedVideo codec w h r cl a) =
     bind_res (ok_or (dim_fixate w) CapsMismatch) (\<lambda>w'.
     bind_res (ok_or (dim_fixate h) CapsMismatch) (\<lambda>h'.
     bind_res (ok_or (rate_fixate r) CapsMismatch) (\<lambda>r'.
       Inr (CompressedVideo codec w' h' r' cl a))))"
| "caps_fixate (RawVideo format w h r i cl) =
     bind_res (ok_or (dim_fixate w) CapsMismatch) (\<lambda>w'.
     bind_res (ok_or (dim_fixate h) CapsMismatch) (\<lambda>h'.
     bind_res (ok_or (rate_fixate r) CapsMismatch) (\<lambda>r'.
       Inr (RawVideo format w' h' r' i cl))))"
| "caps_fixate (Audio format channels sample_rate layout) =
     (if is_pcm format \<and> sample_rate = ANY_SAMPLE_RATE then Inl CapsMismatch
      else if is_pcm format \<and> channels = ANY_CHANNELS then
        Inr (Audio format FIXATE_CHANNELS_PLACEHOLDER sample_rate layout)
      else Inr (Audio format channels sample_rate layout))"
| "caps_fixate (Tensor d s l) = Inr (Tensor d s l)"
| "caps_fixate (ByteStream e) = Inr (ByteStream e)"
| "caps_fixate (Text f) = Inr (Text f)"
| "caps_fixate Klv = Inr Klv"
| "caps_fixate (ClosedCaption f) = Inr (ClosedCaption f)"
| "caps_fixate (SubPicture f) = Inr (SubPicture f)"
| "caps_fixate OnvifMetadata = Inr OnvifMetadata"
| "caps_fixate (Batch streams) =
     bind_res (collect_res (map caps_fixate streams)) (\<lambda>streams'. Inr (Batch streams'))"

definition narrow_toward :: "caps \<Rightarrow> caps \<Rightarrow> caps" where
  "narrow_toward c preferred =
     (case caps_dims preferred of
        None \<Rightarrow> c
      | Some (pw, ph, pr) \<Rightarrow>
          (case c of
             CompressedVideo codec w h r cl a \<Rightarrow>
               CompressedVideo codec (dim_nearest_to w pw) (dim_nearest_to h ph) (rate_nearest_to r pr) cl a
           | RawVideo format w h r i cl \<Rightarrow>
               RawVideo format (dim_nearest_to w pw) (dim_nearest_to h ph) (rate_nearest_to r pr) i cl
           | _ \<Rightarrow> c))"

definition caps_fixate_toward :: "caps \<Rightarrow> caps \<Rightarrow> g2g_error + caps" where
  "caps_fixate_toward c preferred = caps_fixate (narrow_toward c preferred)"

section \<open>Preference-ordered sets\<close>

type_synonym caps_set = "caps list"

definition set_one :: "caps \<Rightarrow> caps_set" where
  "set_one c = [c]"

text \<open>The two nested loops of \<^verbatim>\<open>CapsSet::intersect\<close>: the row of one left alternative, then all rows.\<close>

fun intersect_row :: "caps \<Rightarrow> caps_set \<Rightarrow> caps_set \<Rightarrow> caps_set" where
  "intersect_row a [] out = out"
| "intersect_row a (b # bs) out =
     intersect_row a bs (case caps_intersect a b of Inr c \<Rightarrow> push_unique out c | Inl _ \<Rightarrow> out)"

fun intersect_rows :: "caps_set \<Rightarrow> caps_set \<Rightarrow> caps_set \<Rightarrow> caps_set" where
  "intersect_rows [] other out = out"
| "intersect_rows (a # as) other out = intersect_rows as other (intersect_row a other out)"

definition set_intersect :: "caps_set \<Rightarrow> caps_set \<Rightarrow> caps_set" where
  "set_intersect a b = intersect_rows a b []"

definition set_union :: "caps_set \<Rightarrow> caps_set \<Rightarrow> caps_set" where
  "set_union a b = extend_unique a b"

definition set_fixate :: "caps_set \<Rightarrow> caps option" where
  "set_fixate s = find_map (\<lambda>c. res_ok (caps_fixate c)) s"

definition set_accepts :: "caps_set \<Rightarrow> caps \<Rightarrow> bool" where
  "set_accepts s c \<longleftrightarrow> list_ex (\<lambda>a. is_ok (caps_intersect a c)) s"

definition pcm_caps_any_rate_and_channels :: "(audio_format \<Rightarrow> bool) \<Rightarrow> caps_set" where
  "pcm_caps_any_rate_and_channels takes_format =
     map (\<lambda>format. Audio format ANY_CHANNELS ANY_SAMPLE_RATE UNSPECIFIED)
       (filter takes_format pcm_formats)"

definition MAX_BATCH_ALTERNATIVES :: nat where
  "MAX_BATCH_ALTERNATIVES = 256"

text \<open>
  \<^verbatim>\<open>batch_alternatives\<close>: the cartesian product of the streams' alternatives, in the order of the
  nested iteration, given up as soon as the product would pass the limit. The lengths are
  vector lengths, so the saturating product of the source is the product.
\<close>

fun batch_product :: "caps list list \<Rightarrow> caps list list \<Rightarrow> caps list list option" where
  "batch_product batches [] = Some batches"
| "batch_product batches (alternatives # rest) =
     (if length batches * length alternatives > MAX_BATCH_ALTERNATIVES then None
      else batch_product
             (concat (map (\<lambda>prefix. map (\<lambda>c. prefix @ [c]) alternatives) batches)) rest)"

definition batch_alternatives :: "caps list list \<Rightarrow> caps_set option" where
  "batch_alternatives streams = map_option (map Batch) (batch_product [[]] streams)"

record passthrough_fields =
  pf_format :: bool
  pf_width :: bool
  pf_height :: bool
  pf_framerate :: bool
  pf_channels :: bool
  pf_sample_rate :: bool

definition PF_NONE :: passthrough_fields where
  "PF_NONE = \<lparr>pf_format = False, pf_width = False, pf_height = False, pf_framerate = False,
    pf_channels = False, pf_sample_rate = False\<rparr>"

definition PF_ALL :: passthrough_fields where
  "PF_ALL = \<lparr>pf_format = True, pf_width = True, pf_height = True, pf_framerate = True,
    pf_channels = True, pf_sample_rate = True\<rparr>"

end
