(* ===== verification/Caps_Laws.thy ===== *)
theory Caps_Laws
  imports Caps
begin

text \<open>
  The specification of the capability algebra and the proof that the code meets it. The order
  \<open>caps_le\<close> compares descriptions by the streams they admit, \<open>caps_ne\<close> says that a description
  admits some stream at all (an inverted range admits none), and \<open>set_admits\<close> is the denotation
  of a \<^verbatim>\<open>CapsSet\<close>. Every field intersection, the intersection of caps and the intersection,
  union, acceptance and fixation of sets are shown to compute the corresponding notion.
\<close>

section \<open>The information order\<close>

definition range_le :: "u32 \<times> u32 \<Rightarrow> u32 \<times> u32 \<Rightarrow> bool" where
  "range_le a b \<longleftrightarrow> fst b \<le> fst a \<and> snd a \<le> snd b"

definition range_ne :: "u32 \<times> u32 \<Rightarrow> bool" where
  "range_ne a \<longleftrightarrow> fst a \<le> snd a"

definition dim_le :: "dim \<Rightarrow> dim \<Rightarrow> bool" where
  "dim_le a b \<longleftrightarrow> range_le (dim_bounds a) (dim_bounds b)"

definition dim_ne :: "dim \<Rightarrow> bool" where
  "dim_ne a \<longleftrightarrow> range_ne (dim_bounds a)"

definition rate_le :: "rate \<Rightarrow> rate \<Rightarrow> bool" where
  "rate_le a b \<longleftrightarrow> range_le (rate_bounds a) (rate_bounds b)"

definition rate_ne :: "rate \<Rightarrow> bool" where
  "rate_ne a \<longleftrightarrow> range_ne (rate_bounds a)"

primrec caps_ne :: "caps \<Rightarrow> bool" where
  "caps_ne (CompressedVideo _ w h r _ _) = (dim_ne w \<and> dim_ne h \<and> rate_ne r)"
| "caps_ne (RawVideo _ w h r _ _) = (dim_ne w \<and> dim_ne h \<and> rate_ne r)"
| "caps_ne (Audio _ _ _ _) = True"
| "caps_ne (Tensor _ _ _) = True"
| "caps_ne (ByteStream _) = True"
| "caps_ne (Text _) = True"
| "caps_ne Klv = True"
| "caps_ne (ClosedCaption _) = True"
| "caps_ne (SubPicture _) = True"
| "caps_ne OnvifMetadata = True"
| "caps_ne (Batch streams) = list_all (\<lambda>b. b) (map caps_ne streams)"

primrec caps_le :: "caps \<Rightarrow> caps \<Rightarrow> bool" where
  "caps_le (CompressedVideo ca wa ha ra cla aa) other =
     (case other of
        CompressedVideo cb wb hb rb clb ab \<Rightarrow>
          ca = cb \<and> dim_le wa wb \<and> dim_le ha hb \<and> rate_le ra rb \<and> colorimetry_le cla clb \<and>
          wild_le AlignUnspecified aa ab
      | _ \<Rightarrow> False)"
| "caps_le (RawVideo fa wa ha ra ia cla) other =
     (case other of
        RawVideo fb wb hb rb ib clb \<Rightarrow>
          fa = fb \<and> dim_le wa wb \<and> dim_le ha hb \<and> rate_le ra rb \<and> wild_le InterlaceAny ia ib \<and>
          colorimetry_le cla clb
      | _ \<Rightarrow> False)"
| "caps_le (Audio fa ca sa la) other =
     (case other of
        Audio fb cb sb lb \<Rightarrow>
          fa = fb \<and> wild_le ANY_CHANNELS ca cb \<and> wild_le ANY_SAMPLE_RATE sa sb \<and>
          wild_le UNSPECIFIED la lb
      | _ \<Rightarrow> False)"
| "caps_le (Tensor d s l) other = (other = Tensor d s l)"
| "caps_le (ByteStream e) other = (other = ByteStream e)"
| "caps_le (Text f) other = (other = Text f)"
| "caps_le Klv other = (other = Klv)"
| "caps_le (ClosedCaption f) other = (other = ClosedCaption f)"
| "caps_le (SubPicture f) other = (other = SubPicture f)"
| "caps_le OnvifMetadata other = (other = OnvifMetadata)"
| "caps_le (Batch a) other =
     (case other of
        Batch b \<Rightarrow> length a = length b \<and> list_all (\<lambda>(f, y). f y) (zip (map caps_le a) b)
      | _ \<Rightarrow> False)"

definition caps_meet :: "caps \<Rightarrow> caps \<Rightarrow> caps option" where
  "caps_meet a b = res_ok (caps_intersect a b)"

text \<open>What a preference-ordered set admits.\<close>

definition set_admits :: "caps_set \<Rightarrow> caps \<Rightarrow> bool" where
  "set_admits s c \<longleftrightarrow> list_ex (\<lambda>a. caps_le c a) s"

section \<open>Fields\<close>

interpretation range: partial_meet range_ne range_le intersect_range
  by unfold_locales
    (auto simp: range_le_def range_ne_def intersect_range_def Let_def min_le_iff_disj le_max_iff_disj
      split: if_splits)

lemma dim_bounds_from_bounds [simp]: "dim_bounds (dim_from_bounds b) = b"
  by (cases b) (auto simp: dim_from_bounds_def)

lemma rate_bounds_from_bounds [simp]: "rate_bounds (rate_from_bounds b) = b"
  by (cases b) (auto simp: rate_from_bounds_def)

interpretation dim: partial_meet dim_ne dim_le dim_intersect
proof unfold_locales
  fix x y z :: dim
  show "dim_le x x" by (simp add: dim_le_def range.le_refl)
  show "dim_le x y \<Longrightarrow> dim_le y z \<Longrightarrow> dim_le x z"
    unfolding dim_le_def by (rule range.le_trans)
next
  fix a b r :: dim
  assume "dim_intersect a b = Some r"
  then obtain q where q: "intersect_range (dim_bounds a) (dim_bounds b) = Some q"
    and r: "r = dim_from_bounds q" by (auto simp: dim_intersect_def)
  show "dim_le r a" "dim_le r b" "dim_ne r"
    using range.meet_le1 [OF q] range.meet_le2 [OF q] range.meet_ne [OF q]
    by (simp_all add: dim_le_def dim_ne_def r)
next
  fix c a b :: dim
  assume "dim_ne c" "dim_le c a" "dim_le c b"
  then obtain q where "intersect_range (dim_bounds a) (dim_bounds b) = Some q"
    "range_le (dim_bounds c) q"
    unfolding dim_le_def dim_ne_def using range.meet_greatest by blast
  then show "\<exists>r. dim_intersect a b = Some r \<and> dim_le c r"
    by (auto simp: dim_intersect_def dim_le_def)
qed

interpretation rate: partial_meet rate_ne rate_le rate_intersect
proof unfold_locales
  fix x y z :: rate
  show "rate_le x x" by (simp add: rate_le_def range.le_refl)
  show "rate_le x y \<Longrightarrow> rate_le y z \<Longrightarrow> rate_le x z"
    unfolding rate_le_def by (rule range.le_trans)
next
  fix a b r :: rate
  assume "rate_intersect a b = Some r"
  then obtain q where q: "intersect_range (rate_bounds a) (rate_bounds b) = Some q"
    and r: "r = rate_from_bounds q" by (auto simp: rate_intersect_def)
  show "rate_le r a" "rate_le r b" "rate_ne r"
    using range.meet_le1 [OF q] range.meet_le2 [OF q] range.meet_ne [OF q]
    by (simp_all add: rate_le_def rate_ne_def r)
next
  fix c a b :: rate
  assume "rate_ne c" "rate_le c a" "rate_le c b"
  then obtain q where "intersect_range (rate_bounds a) (rate_bounds b) = Some q"
    "range_le (rate_bounds c) q"
    unfolding rate_le_def rate_ne_def using range.meet_greatest by blast
  then show "\<exists>r. rate_intersect a b = Some r \<and> rate_le c r"
    by (auto simp: rate_intersect_def rate_le_def)
qed

lemma wild_intersections [meet_simps]:
  "interlace_intersect = wild_meet InterlaceAny"
  "alignment_intersect = wild_meet AlignUnspecified"
  "intersect_sample_rate = wild_meet ANY_SAMPLE_RATE"
  "intersect_channels = wild_meet ANY_CHANNELS"
  "layout_intersect = wild_meet UNSPECIFIED"
  by (auto simp: fun_eq_iff interlace_intersect_def alignment_intersect_def
      intersect_sample_rate_def intersect_channels_def wild_meet_def layout_intersect_wild)

lemmas field_refl = dim.le_refl rate.le_refl colorimetry.le_refl wild.le_refl
lemmas field_trans = dim.le_trans rate.le_trans colorimetry.le_trans wild.le_trans
lemmas field_le = dim.meet_le1 dim.meet_le2 rate.meet_le1 rate.meet_le2 colorimetry.meet_le1
  colorimetry.meet_le2 wild.meet_le1 wild.meet_le2
lemmas field_ne = dim.meet_ne rate.meet_ne

section \<open>Caps\<close>

lemma caps_le_Batch:
  "caps_le (Batch a) (Batch b) \<longleftrightarrow> list_all2 caps_le a b"
proof -
  have "list_all (\<lambda>(f, y). f y) (zip (map caps_le a) b) \<longleftrightarrow> (\<forall>(x, y) \<in> set (zip a b). caps_le x y)"
    by (auto simp: list_all_iff zip_map1 split: prod.splits)
  then show ?thesis by (auto simp: list_all2_iff)
qed

lemma caps_ne_Batch: "caps_ne (Batch a) \<longleftrightarrow> (\<forall>c \<in> set a. caps_ne c)"
  by (simp add: list_all_iff)

lemma caps_intersect_Batch:
  "caps_intersect (Batch a) (Batch b) = Inr r \<longleftrightarrow>
     (\<exists>cs. r = Batch cs \<and> length a = length b \<and> length cs = length a \<and>
       (\<forall>i < length a. caps_intersect (a ! i) (b ! i) = Inr (cs ! i)))"
  by (auto simp: collect_res_Inr_iff list_all2_conv_all_nth)

declare caps_le.simps(11) [simp del] caps_ne.simps(11) [simp del] caps_intersect.simps(11) [simp del]
declare caps_le_Batch [simp] caps_ne_Batch [simp]

lemma caps_le_Batch_left: "caps_le (Batch a) c \<longleftrightarrow> (\<exists>b. c = Batch b \<and> list_all2 caps_le a b)"
  by (cases c) (simp_all add: caps_le.simps(11) flip: caps_le_Batch)

lemma caps_le_Batch_right: "caps_le c (Batch b) \<longleftrightarrow> (\<exists>a. c = Batch a \<and> list_all2 caps_le a b)"
  by (cases c) auto

lemma caps_intersect_Batch_other:
  "caps_intersect (Batch a) c = Inr r \<Longrightarrow> \<exists>b. c = Batch b"
  by (cases c) (simp_all add: caps_intersect.simps(11))

lemma caps_le_refl: "caps_le c c"
proof (induction c)
  case (Batch cs)
  then show ?case by (simp add: list_all2_same)
qed (simp_all add: field_refl)

lemma caps_le_trans: "caps_le a b \<Longrightarrow> caps_le b c \<Longrightarrow> caps_le a c"
proof (induction a arbitrary: b c)
  case (Batch as)
  then show ?case
    by (auto simp: caps_le_Batch_left list_all2_conv_all_nth) (metis nth_mem)
qed (auto split: caps.splits intro: field_trans)

lemma caps_intersect_le1: "caps_intersect a b = Inr r \<Longrightarrow> caps_le r a"
proof (induction a arbitrary: b r)
  case (Batch as)
  from caps_intersect_Batch_other [OF Batch.prems] obtain bs where "b = Batch bs" ..
  with Batch show ?case by (auto simp: caps_intersect_Batch list_all2_conv_all_nth) (metis nth_mem)
qed (auto split: caps.splits if_splits option.splits simp: wild_intersections intro: field_le)

lemma caps_intersect_le2: "caps_intersect a b = Inr r \<Longrightarrow> caps_le r b"
proof (induction a arbitrary: b r)
  case (Batch as)
  from caps_intersect_Batch_other [OF Batch.prems] obtain bs where "b = Batch bs" ..
  with Batch show ?case by (auto simp: caps_intersect_Batch list_all2_conv_all_nth) (metis nth_mem)
qed (auto split: caps.splits if_splits option.splits simp: wild_intersections intro: field_le)

lemma caps_intersect_ne: "caps_intersect a b = Inr r \<Longrightarrow> caps_ne r"
proof (induction a arbitrary: b r)
  case (Batch as)
  from caps_intersect_Batch_other [OF Batch.prems] obtain bs where "b = Batch bs" ..
  with Batch show ?case by (auto simp: caps_intersect_Batch in_set_conv_nth) (metis nth_mem)
qed (auto split: caps.splits if_splits option.splits simp: wild_intersections intro: field_ne)

lemma caps_intersect_greatest:
  "caps_ne c \<Longrightarrow> caps_le c a \<Longrightarrow> caps_le c b \<Longrightarrow> \<exists>r. caps_intersect a b = Inr r \<and> caps_le c r"
proof (induction c arbitrary: a b)
  case (CompressedVideo codec w h r cl al)
  then obtain w1 h1 r1 cl1 al1 w2 h2 r2 cl2 al2
    where ab: "a = CompressedVideo codec w1 h1 r1 cl1 al1" "b = CompressedVideo codec w2 h2 r2 cl2 al2"
    by (auto split: caps.splits)
  with CompressedVideo obtain w' h' r' where
    "dim_intersect w1 w2 = Some w'" "dim_le w w'" "dim_intersect h1 h2 = Some h'" "dim_le h h'"
    "rate_intersect r1 r2 = Some r'" "rate_le r r'"
    using dim.meet_greatest rate.meet_greatest by (auto, metis)
  moreover obtain cl' al' where
    "colorimetry_intersect cl1 cl2 = Some cl'" "colorimetry_le cl cl'"
    "wild_meet AlignUnspecified al1 al2 = Some al'" "wild_le AlignUnspecified al al'"
    using CompressedVideo ab colorimetry.meet_greatest wild.meet_greatest by (auto, metis)
  ultimately show ?case using ab by (simp add: wild_intersections)
next
  case (RawVideo format w h r i cl)
  then obtain w1 h1 r1 i1 cl1 w2 h2 r2 i2 cl2
    where ab: "a = RawVideo format w1 h1 r1 i1 cl1" "b = RawVideo format w2 h2 r2 i2 cl2"
    by (auto split: caps.splits)
  with RawVideo obtain w' h' r' where
    "dim_intersect w1 w2 = Some w'" "dim_le w w'" "dim_intersect h1 h2 = Some h'" "dim_le h h'"
    "rate_intersect r1 r2 = Some r'" "rate_le r r'"
    using dim.meet_greatest rate.meet_greatest by (auto, metis)
  moreover obtain cl' i' where
    "colorimetry_intersect cl1 cl2 = Some cl'" "colorimetry_le cl cl'"
    "wild_meet InterlaceAny i1 i2 = Some i'" "wild_le InterlaceAny i i'"
    using RawVideo ab colorimetry.meet_greatest wild.meet_greatest by (auto, metis)
  ultimately show ?case using ab by (simp add: wild_intersections)
next
  case (Audio format ch sr l)
  then obtain c1 s1 l1 c2 s2 l2
    where ab: "a = Audio format c1 s1 l1" "b = Audio format c2 s2 l2"
    by (auto split: caps.splits)
  with Audio obtain c' s' l' where
    "wild_meet ANY_CHANNELS c1 c2 = Some c'" "wild_le ANY_CHANNELS ch c'"
    "wild_meet ANY_SAMPLE_RATE s1 s2 = Some s'" "wild_le ANY_SAMPLE_RATE sr s'"
    "wild_meet UNSPECIFIED l1 l2 = Some l'" "wild_le UNSPECIFIED l l'"
    using wild.meet_greatest [of ANY_CHANNELS ch c1 c2]
      wild.meet_greatest [of ANY_SAMPLE_RATE sr s1 s2] wild.meet_greatest [of UNSPECIFIED l l1 l2]
    by auto
  then show ?case using ab by (simp add: wild_intersections)
next
  case (Batch cs)
  then obtain as bs where ab: "a = Batch as" "b = Batch bs"
    and le: "list_all2 caps_le cs as" "list_all2 caps_le cs bs"
    by (auto simp: caps_le_Batch_left)
  have "\<forall>i < length cs. \<exists>r. caps_intersect (as ! i) (bs ! i) = Inr r \<and> caps_le (cs ! i) r"
    using Batch.IH Batch.prems(1) le by (simp add: list_all2_conv_all_nth)
  then obtain f where f: "\<forall>i < length cs. caps_intersect (as ! i) (bs ! i) = Inr (f i) \<and> caps_le (cs ! i) (f i)"
    by metis
  then have "caps_intersect a b = Inr (Batch (map f [0..<length cs]))"
    using ab list_all2_lengthD [OF le(1)] list_all2_lengthD [OF le(2)]
    by (simp add: caps_intersect_Batch)
  moreover have "caps_le (Batch cs) (Batch (map f [0..<length cs]))"
    using f by (simp add: list_all2_conv_all_nth)
  ultimately show ?case by blast
qed auto

interpretation caps: partial_meet caps_ne caps_le caps_meet
  by unfold_locales
    (auto simp: caps_meet_def caps_le_refl intro: caps_le_trans caps_intersect_le1 caps_intersect_le2
      caps_intersect_ne dest: caps_intersect_greatest)

lemma caps_intersect_Inl: "caps_intersect a b = Inl e \<Longrightarrow> e = CapsMismatch"
proof (induction a arbitrary: b)
  case (Batch as)
  then show ?case
    by (auto simp: caps_intersect.simps(11) bind_res_eq_Inl in_set_zip zip_map1
        split: caps.splits if_splits dest!: collect_res_Inl_in_set) (metis nth_mem)
qed (auto split: caps.splits if_splits option.splits simp: bind_res_eq_Inl)

lemma caps_intersect_cases:
  obtains (disjoint) "caps_intersect a b = Inl CapsMismatch"
  | (meet) r where "caps_intersect a b = Inr r"
  using caps_intersect_Inl by (cases "caps_intersect a b") auto

section \<open>Fixation\<close>

lemma dim_fixate_Some:
  "dim_fixate d = Some r \<Longrightarrow> r = DimFixed (fst (dim_bounds d)) \<and> dim_ne d \<and> dim_le r d"
  by (cases d) (auto simp: dim_ne_def dim_le_def range_ne_def range_le_def split: if_splits)

lemma rate_fixate_Some:
  "rate_fixate d = Some r \<Longrightarrow> r = RateFixed (fst (rate_bounds d)) \<and> rate_ne d \<and> rate_le r d"
  by (cases d) (auto simp: rate_ne_def rate_le_def range_ne_def range_le_def split: if_splits)

lemma dim_fixate_None: "dim_fixate d = None \<longleftrightarrow> d = DimAny \<or> \<not> dim_ne d"
  by (cases d) (auto simp: dim_ne_def range_ne_def)

lemma rate_fixate_None: "rate_fixate d = None \<longleftrightarrow> d = RateAny \<or> \<not> rate_ne d"
  by (cases d) (auto simp: rate_ne_def range_ne_def)

lemma fixed_ne [simp]: "dim_ne (DimFixed v)" "rate_ne (RateFixed v)"
  by (simp_all add: dim_ne_def rate_ne_def range_ne_def)

lemma is_fixed_ne: "dim_is_fixed d \<Longrightarrow> dim_ne d" "rate_is_fixed r \<Longrightarrow> rate_ne r"
  by (cases d; simp) (cases r; simp)

lemma is_fixed_fixate: "dim_is_fixed d \<Longrightarrow> dim_fixate d = Some d" "rate_is_fixed r \<Longrightarrow> rate_fixate r = Some r"
  by (cases d; simp) (cases r; simp)

lemma caps_is_fixed_Batch: "caps_is_fixed (Batch cs) \<longleftrightarrow> (\<forall>c \<in> set cs. caps_is_fixed c)"
  by (simp add: list_all_iff)

lemma caps_fixate_Batch:
  "caps_fixate (Batch cs) = Inr r \<longleftrightarrow>
     (\<exists>ds. r = Batch ds \<and> list_all2 (\<lambda>c d. caps_fixate c = Inr d) cs ds)"
  by (auto simp: collect_res_Inr_iff list_all2_map1)

declare caps_is_fixed.simps(11) [simp del] caps_fixate.simps(11) [simp del]
declare caps_is_fixed_Batch [simp] caps_fixate_Batch [simp]

lemma caps_fixed_ne: "caps_is_fixed c \<Longrightarrow> caps_ne c"
  by (induction c) (auto simp: is_fixed_ne)

lemma caps_fixate_is_fixed: "caps_fixate c = Inr r \<Longrightarrow> caps_is_fixed r"
proof (induction c arbitrary: r)
  case (Batch cs)
  then show ?case by (auto simp: list_all2_conv_all_nth in_set_conv_nth) (metis nth_mem)
qed (auto dest!: dim_fixate_Some rate_fixate_Some split: if_splits
    simp: ANY_CHANNELS_def FIXATE_CHANNELS_PLACEHOLDER_def)

lemma caps_fixate_le: "caps_fixate c = Inr r \<Longrightarrow> caps_le r c"
proof (induction c arbitrary: r)
  case (Batch cs)
  then show ?case by (auto simp: list_all2_conv_all_nth)
qed (auto dest!: dim_fixate_Some rate_fixate_Some split: if_splits simp: field_refl wild_le_def)

lemma caps_fixate_fixed: "caps_is_fixed c \<Longrightarrow> caps_fixate c = Inr c"
proof (induction c)
  case (Batch cs)
  then show ?case by (auto simp: list_all2_same)
qed (auto simp: is_fixed_fixate)

lemma caps_fixate_Inl: "caps_fixate c = Inl e \<Longrightarrow> e = CapsMismatch"
proof (induction c)
  case (Batch cs)
  then show ?case
    by (auto simp: caps_fixate.simps(11) bind_res_eq_Inl dest!: collect_res_Inl_in_set)
qed (auto simp: bind_res_eq_Inl split: if_splits)

text \<open>The streams fixation gives up on: an open dimension or rate, or PCM with no sample rate.\<close>

primrec fixatable :: "caps \<Rightarrow> bool" where
  "fixatable (CompressedVideo _ w h r _ _) =
     (w \<noteq> DimAny \<and> h \<noteq> DimAny \<and> r \<noteq> RateAny \<and> dim_ne w \<and> dim_ne h \<and> rate_ne r)"
| "fixatable (RawVideo _ w h r _ _) =
     (w \<noteq> DimAny \<and> h \<noteq> DimAny \<and> r \<noteq> RateAny \<and> dim_ne w \<and> dim_ne h \<and> rate_ne r)"
| "fixatable (Audio format _ sample_rate _) = (is_pcm format \<longrightarrow> sample_rate \<noteq> ANY_SAMPLE_RATE)"
| "fixatable (Tensor _ _ _) = True"
| "fixatable (ByteStream _) = True"
| "fixatable (Text _) = True"
| "fixatable Klv = True"
| "fixatable (ClosedCaption _) = True"
| "fixatable (SubPicture _) = True"
| "fixatable OnvifMetadata = True"
| "fixatable (Batch streams) = list_all (\<lambda>b. b) (map fixatable streams)"

lemma fixatable_Batch [simp]: "fixatable (Batch cs) \<longleftrightarrow> (\<forall>c \<in> set cs. fixatable c)"
  by (simp add: list_all_iff)

declare fixatable.simps(11) [simp del]

lemma caps_fixate_total: "is_ok (caps_fixate c) \<longleftrightarrow> fixatable c"
proof (induction c)
  case (Batch cs)
  then have "is_ok (caps_fixate (Batch cs)) \<longleftrightarrow> (\<exists>ds. list_all2 (\<lambda>c d. caps_fixate c = Inr d) cs ds)"
    by (auto simp: is_ok_iff)
  also have "\<dots> \<longleftrightarrow> (\<forall>c \<in> set cs. is_ok (caps_fixate c))"
    unfolding is_ok_iff by (induction cs) (auto simp: list_all2_Cons1)
  finally show ?case using Batch by simp
next
  case (CompressedVideo c w h r cl a)
  show ?case
    using dim_fixate_None [of w] dim_fixate_None [of h] rate_fixate_None [of r]
    by (cases "dim_fixate w"; cases "dim_fixate h"; cases "rate_fixate r") auto
next
  case (RawVideo c w h r cl a)
  show ?case
    using dim_fixate_None [of w] dim_fixate_None [of h] rate_fixate_None [of r]
    by (cases "dim_fixate w"; cases "dim_fixate h"; cases "rate_fixate r") auto
qed (auto simp: is_ok_iff)

section \<open>Fixation toward a preference\<close>

lemma dim_nearest_le: "dim_le (dim_nearest_to d p) d"
  by (cases d; cases p) (auto simp: dim_nearest_to_def dim_le_def range_le_def clamp_def)

lemma rate_nearest_le: "rate_le (rate_nearest_to d p) d"
  by (cases d; cases p) (auto simp: rate_nearest_to_def rate_le_def range_le_def clamp_def)

lemma dim_nearest_ne: "dim_ne (dim_nearest_to d p) = dim_ne d"
  by (cases d; cases p) (auto simp: dim_nearest_to_def dim_ne_def range_ne_def)

lemma rate_nearest_ne: "rate_ne (rate_nearest_to d p) = rate_ne d"
  by (cases d; cases p) (auto simp: rate_nearest_to_def rate_ne_def range_ne_def)

lemma dim_nearest_Any: "dim_nearest_to d p = DimAny \<longleftrightarrow> d = DimAny"
  by (cases d; cases p) (auto simp: dim_nearest_to_def)

lemma rate_nearest_Any: "rate_nearest_to d p = RateAny \<longleftrightarrow> d = RateAny"
  by (cases d; cases p) (auto simp: rate_nearest_to_def)

lemma clamp_nearest:
  fixes v mn mx w :: u32
  assumes "mn \<le> w" "w \<le> mx"
  shows "\<bar>int (unat (clamp v mn mx)) - int (unat v)\<bar> \<le> \<bar>int (unat w) - int (unat v)\<bar>"
  using assms by (auto simp: clamp_def word_le_def word_less_def)

lemma narrow_toward_le: "caps_le (narrow_toward c p) c"
  by (cases c) (auto simp: narrow_toward_def caps_le_refl dim_nearest_le rate_nearest_le field_refl
      split: option.splits)

lemma narrow_toward_fixatable: "fixatable (narrow_toward c p) = fixatable c"
  by (cases c) (auto simp: narrow_toward_def dim_nearest_ne rate_nearest_ne dim_nearest_Any
      rate_nearest_Any split: option.splits)

lemma caps_fixate_toward_le: "caps_fixate_toward c p = Inr r \<Longrightarrow> caps_le r c"
  unfolding caps_fixate_toward_def using caps_fixate_le narrow_toward_le caps_le_trans by blast

lemma caps_fixate_toward_total: "is_ok (caps_fixate_toward c p) \<longleftrightarrow> fixatable c"
  by (simp add: caps_fixate_toward_def caps_fixate_total narrow_toward_fixatable)

section \<open>Sets\<close>

text \<open>The nested loop visits the pairs in lexicographic order and keeps first occurrences.\<close>

definition pairwise_meets :: "caps_set \<Rightarrow> caps_set \<Rightarrow> caps list" where
  "pairwise_meets s t = concat (map (\<lambda>a. List.map_filter (caps_meet a) t) s)"

lemma intersect_row_extend: "intersect_row a t out = extend_unique out (List.map_filter (caps_meet a) t)"
  by (induction t arbitrary: out) (auto simp: caps_meet_def map_filter_simps split: sum.splits)

lemma intersect_rows_extend: "intersect_rows s t out = extend_unique out (pairwise_meets s t)"
  by (induction s arbitrary: out)
    (auto simp: pairwise_meets_def intersect_row_extend extend_unique_append)

lemma set_intersect_eq: "set_intersect s t = extend_unique [] (pairwise_meets s t)"
  by (simp add: set_intersect_def intersect_rows_extend)

lemma set_map_filter: "set (List.map_filter f xs) = {y. \<exists>x \<in> set xs. f x = Some y}"
  by (induction xs) (auto simp: map_filter_simps split: option.splits)

lemma set_set_intersect:
  "set (set_intersect s t) = {c. \<exists>a \<in> set s. \<exists>b \<in> set t. caps_intersect a b = Inr c}"
  by (auto simp: set_intersect_eq pairwise_meets_def set_map_filter caps_meet_def)

lemma distinct_set_intersect: "distinct (set_intersect s t)"
  by (simp add: set_intersect_eq)

lemma set_admits_iff: "set_admits s c \<longleftrightarrow> (\<exists>a \<in> set s. caps_le c a)"
  by (simp add: set_admits_def list_ex_iff)

lemma set_admits_simps [simp]:
  "\<not> set_admits [] c"
  "set_admits (a # s) c \<longleftrightarrow> caps_le c a \<or> set_admits s c"
  by (simp_all add: set_admits_def)

lemma set_admits_append [simp]: "set_admits (s @ t) c \<longleftrightarrow> set_admits s c \<or> set_admits t c"
  by (auto simp: set_admits_iff)

lemma set_admits_mono: "set_admits s c \<Longrightarrow> caps_le d c \<Longrightarrow> set_admits s d"
  by (auto simp: set_admits_iff intro: caps_le_trans)

lemma set_admits_extend_unique [simp]:
  "set_admits (extend_unique s t) c \<longleftrightarrow> set_admits s c \<or> set_admits t c"
  by (auto simp: set_admits_iff)

lemma set_admits_intersect:
  assumes "caps_ne c"
  shows "set_admits (set_intersect s t) c \<longleftrightarrow> set_admits s c \<and> set_admits t c"
proof
  assume "set_admits (set_intersect s t) c"
  then show "set_admits s c \<and> set_admits t c"
    unfolding set_admits_iff set_set_intersect
    using caps_intersect_le1 caps_intersect_le2 caps_le_trans by blast
next
  assume "set_admits s c \<and> set_admits t c"
  then show "set_admits (set_intersect s t) c"
    unfolding set_admits_iff set_set_intersect using caps_intersect_greatest [OF assms] by blast
qed

lemma set_intersect_ne: "c \<in> set (set_intersect s t) \<Longrightarrow> caps_ne c"
  by (auto simp: set_set_intersect intro: caps_intersect_ne)

lemma set_intersect_Nil_iff:
  "set_intersect s t = [] \<longleftrightarrow> \<not> (\<exists>c. caps_ne c \<and> set_admits s c \<and> set_admits t c)"
proof -
  have "set_intersect s t = [] \<longleftrightarrow> \<not> (\<exists>c. caps_ne c \<and> set_admits (set_intersect s t) c)"
    using set_intersect_ne by (auto simp: set_admits_iff) (metis caps_le_refl list.set_intros(1) neq_Nil_conv)
  then show ?thesis using set_admits_intersect by blast
qed

lemma set_accepts_iff:
  "set_accepts s c \<longleftrightarrow> (\<exists>d. caps_ne d \<and> caps_le d c \<and> set_admits s d)"
proof -
  have "is_ok (caps_intersect a c) \<longleftrightarrow> (\<exists>d. caps_ne d \<and> caps_le d a \<and> caps_le d c)" for a
    using caps_intersect_ne caps_intersect_le1 caps_intersect_le2 caps_intersect_greatest
    by (metis is_ok_iff)
  then show ?thesis by (auto simp: set_accepts_def list_ex_iff set_admits_iff)
qed

lemma set_admits_accepts: "caps_ne c \<Longrightarrow> set_admits s c \<Longrightarrow> set_accepts s c"
  unfolding set_accepts_iff using caps_le_refl by blast

lemma set_fixate_Some:
  assumes "set_fixate s = Some r"
  shows "caps_is_fixed r" "set_admits s r"
  using find_map_Some [OF assms [unfolded set_fixate_def]]
  by (auto simp: set_admits_iff intro: caps_fixate_is_fixed caps_fixate_le)

lemma set_fixate_None: "set_fixate s = None \<longleftrightarrow> (\<forall>c \<in> set s. \<not> fixatable c)"
proof -
  have "res_ok (caps_fixate c) = None \<longleftrightarrow> \<not> fixatable c" for c
    unfolding caps_fixate_total [symmetric] by (cases "caps_fixate c") simp_all
  then show ?thesis by (simp add: set_fixate_def find_map_None)
qed

section \<open>Batches\<close>

lemma concat_map_concat_map:
  "concat (map f (concat (map g xs))) = concat (map (\<lambda>x. concat (map f (g x))) xs)"
  by (induction xs) simp_all

lemma batch_product_Some:
  "batch_product batches streams = Some r \<Longrightarrow>
     r = concat (map (\<lambda>p. map (\<lambda>q. p @ q) (product_lists streams)) batches)"
proof (induction batches streams rule: batch_product.induct)
  case (1 batches)
  then show ?case by (simp add: concat_map_singleton)
next
  case (2 batches alternatives rest)
  then have "r = concat (map (\<lambda>p. map (\<lambda>q. p @ q) (product_lists rest))
      (concat (map (\<lambda>prefix. map (\<lambda>c. prefix @ [c]) alternatives) batches)))"
    by (simp split: if_splits)
  moreover have "(@) (p @ [c]) = (\<lambda>q. p @ c # q)" for p and c :: caps by (simp add: fun_eq_iff)
  ultimately show ?case
    unfolding concat_map_concat_map by (simp add: map_concat comp_def)
qed

lemma length_batch_step:
  "length (concat (map (\<lambda>prefix. map (\<lambda>c. prefix @ [c]) alternatives) batches)) =
     length batches * length alternatives"
  by (induction batches) simp_all

lemma batch_product_None:
  "batch_product batches streams = None \<longleftrightarrow>
     (\<exists>k < length streams.
        length batches * prod_list (map length (take (Suc k) streams)) > MAX_BATCH_ALTERNATIVES)"
proof (induction batches streams rule: batch_product.induct)
  case (1 batches)
  show ?case by simp
next
  case (2 batches alternatives rest)
  then show ?case
    by (simp add: Ex_less_Suc2 length_batch_step mult.assoc)
qed

lemma batch_product_length:
  "batch_product batches streams = Some r \<Longrightarrow> length batches \<le> MAX_BATCH_ALTERNATIVES \<Longrightarrow>
     length r \<le> MAX_BATCH_ALTERNATIVES"
  by (induction batches streams rule: batch_product.induct)
    (auto simp: length_batch_step split: if_splits)

section \<open>Framerates\<close>

lemma unat_gcd: "unat (greatest_common_divisor a b) = gcd (unat a) (unat b)"
proof (induction a b rule: greatest_common_divisor.induct)
  case (1 a b)
  show ?case
  proof (cases "b = 0")
    case True
    then show ?thesis by (simp add: greatest_common_divisor.simps [of a 0])
  next
    case False
    then show ?thesis using 1
      by (simp add: greatest_common_divisor.simps [of a b] unat_mod gcd_non_0_nat [of "unat b" "unat a"]
          gcd.commute unat_gt_0)
  qed
qed

lemma Q16_DENOMINATOR_eq: "Q16_DENOMINATOR = 65536"
  by (simp add: Q16_DENOMINATOR_def Q16_FRACTION_BITS_def)

lemma framerate_fraction_unat:
  fixes q :: u32
  defines "d \<equiv> gcd (unat q) 65536"
  shows "unat (fst (framerate_q16_to_fraction q)) = unat q div d"
    "unat (snd (framerate_q16_to_fraction q)) = 65536 div d"
proof -
  let ?g = "greatest_common_divisor (ucast q) (ucast Q16_DENOMINATOR)"
  have g: "unat ?g = d"
    by (simp add: unat_gcd d_def Q16_DENOMINATOR_eq unat_ucast_up)
  have "d \<le> 65536" unfolding d_def by (rule gcd_le2_nat) simp
  then have "unat (ucast ?g :: u32) = d"
    by (simp add: unat_ucast_small g)
  then show "unat (fst (framerate_q16_to_fraction q)) = unat q div d"
    "unat (snd (framerate_q16_to_fraction q)) = 65536 div d"
    by (simp_all add: framerate_q16_to_fraction_def Let_def unat_div Q16_DENOMINATOR_eq)
qed

lemma unat_push_bit_16: "unat (push_bit 16 (ucast (n :: u32)) :: u64) = unat n * 65536"
  using unat_lt2p [of n] by (simp add: push_bit_eq_mult unat_word_ariths unat_ucast_up)

lemma framerate_q16_from_fraction_eq:
  "framerate_q16_from_fraction n d =
     (if d = 0 \<or> 2 ^ 32 \<le> unat n * 65536 div unat d then None
      else Some (of_nat (unat n * 65536 div unat d)))"
proof (cases "d = 0")
  case True
  then show ?thesis by (simp add: framerate_q16_from_fraction_def checked_div_def)
next
  case False
  let ?q = "push_bit 16 (ucast n) div ucast d :: u64"
  have q: "unat ?q = unat n * 65536 div unat d"
    by (simp add: unat_div unat_push_bit_16 unat_ucast_up)
  have "unat (ucast d :: u64) \<noteq> 0"
    using False by (simp add: unat_ucast_up unat_eq_0)
  then have "(ucast d :: u64) \<noteq> 0" by auto
  moreover have "ucast ?q = (of_nat (unat ?q) :: u32)" by simp
  ultimately show ?thesis using False q
    by (simp add: framerate_q16_from_fraction_def checked_div_def Q16_FRACTION_BITS_def)
qed

lemma framerate_q16_roundtrip:
  "framerate_q16_from_fraction (fst (framerate_q16_to_fraction q)) (snd (framerate_q16_to_fraction q)) = Some q"
proof -
  define d where "d = gcd (unat q) 65536"
  obtain m where m: "unat q = d * m" using gcd_dvd1 [of "unat q" 65536] unfolding d_def by blast
  obtain k where k: "65536 = d * k" using gcd_dvd2 [of "unat q" 65536] unfolding d_def by blast
  have pos: "0 < d" "0 < k" using k by (cases d; simp) (cases k; use k in simp)
  have num: "unat (fst (framerate_q16_to_fraction q)) = m"
    and den: "unat (snd (framerate_q16_to_fraction q)) = k"
    unfolding framerate_fraction_unat d_def [symmetric]
    using m k pos by (metis nonzero_mult_div_cancel_left not_gr0)+
  have "m * 65536 div k = unat q" using k m pos by (metis mult.left_commute mult.commute nonzero_mult_div_cancel_left not_gr0)
  moreover have "snd (framerate_q16_to_fraction q) \<noteq> 0" using den pos by (auto simp flip: unat_gt_0)
  ultimately show ?thesis
    using unat_lt2p [of q] by (simp add: framerate_q16_from_fraction_eq num den)
qed

section \<open>Tensor shapes\<close>

lemma tensor_shape_roundtrip:
  "tensor_shape_from_slice dims = Some s \<Longrightarrow> tensor_shape_dims s = dims"
  by (auto simp: tensor_shape_from_slice_def tensor_shape_dims_def MAX_TENSOR_RANK_def unat_of_nat
      split: if_splits)

lemma unat_saturating_product:
  "unat (foldl (\<lambda>acc d. saturating_mul acc (ucast (d :: u32))) (acc :: u64) ds) =
     min (unat acc * prod_list (map unat ds)) (2 ^ 64 - 1)"
proof (induction ds arbitrary: acc)
  case Nil
  show ?case using unat_lt2p [of acc] by simp
next
  case (Cons d ds)
  let ?M = "2 ^ 64 - 1 :: nat" and ?p = "prod_list (map unat ds)"
  have "min (min (unat acc * unat d) ?M * ?p) ?M = min (unat acc * unat d * ?p) ?M"
  proof (cases "?p = 0 \<or> unat acc * unat d \<le> ?M")
    case False
    then have p: "1 \<le> ?p" by simp
    have "?M \<le> ?M * ?p" "unat acc * unat d \<le> unat acc * unat d * ?p"
      using mult_le_mono2 [OF p, of ?M] mult_le_mono2 [OF p, of "unat acc * unat d"]
      unfolding mult_1_right .
    then show ?thesis using False by linarith
  qed auto
  then show ?case using Cons by (simp add: unat_saturating_mul unat_ucast_up mult.assoc)
qed

lemma unat_tensor_shape_elements:
  "unat (tensor_shape_elements s) = min (prod_list (map unat (tensor_shape_dims s))) (2 ^ 64 - 1)"
  unfolding tensor_shape_elements_def unat_saturating_product by simp

section \<open>Properties\<close>

text \<open>
  C31. Intersecting two caps yields their greatest lower bound, and fails with the mismatch error
  exactly where no inhabited caps lies below both.
\<close>

theorem caps_intersect_glb:
  assumes "caps_ne c"
  shows "case caps_intersect a b of
      Inr r \<Rightarrow> caps_ne r \<and> (caps_le c r \<longleftrightarrow> caps_le c a \<and> caps_le c b)
    | Inl e \<Rightarrow> e = CapsMismatch \<and> \<not> (caps_le c a \<and> caps_le c b)"
proof (cases "caps_intersect a b")
  case (Inl e)
  then show ?thesis using assms caps_intersect_Inl caps_intersect_greatest by fastforce
next
  case (Inr r)
  have "caps_le c a \<and> caps_le c b" if "caps_le c r"
    using caps_le_trans [OF that caps_intersect_le1 [OF Inr]] caps_le_trans [OF that caps_intersect_le2 [OF Inr]] by blast
  moreover have "caps_le c r" if "caps_le c a" "caps_le c b" using caps_intersect_greatest [OF assms that] Inr by auto
  ultimately show ?thesis using Inr caps_intersect_ne [OF Inr] by auto
qed

theorem caps_intersect_glb_witness:
  defines "both \<equiv> Audio PcmS16Le 2 48000 UNSPECIFIED"
    and "anywhere \<equiv> Audio PcmS16Le 0 48000 UNSPECIFIED" and "stereo \<equiv> Audio PcmS16Le 2 0 UNSPECIFIED"
  shows "caps_ne both \<and> (case caps_intersect anywhere stereo of
      Inr r \<Rightarrow> caps_ne r \<and> (caps_le both r \<longleftrightarrow> caps_le both anywhere \<and> caps_le both stereo)
    | Inl e \<Rightarrow> e = CapsMismatch \<and> \<not> (caps_le both anywhere \<and> caps_le both stereo))"
proof
  show "caps_ne both" by (simp add: both_def)
  then show "case caps_intersect anywhere stereo of
      Inr r \<Rightarrow> caps_ne r \<and> (caps_le both r \<longleftrightarrow> caps_le both anywhere \<and> caps_le both stereo)
    | Inl e \<Rightarrow> e = CapsMismatch \<and> \<not> (caps_le both anywhere \<and> caps_le both stereo)"
    by (rule caps_intersect_glb)
qed

text \<open>
  The intersection of two sets admits exactly the inhabited caps that both admit, lists no
  alternative twice, and is empty exactly where the sets have no inhabited caps in common.
\<close>

theorem set_intersect_denotation:
  "(\<forall>c. caps_ne c \<longrightarrow> (set_admits (set_intersect s t) c \<longleftrightarrow> set_admits s c \<and> set_admits t c)) \<and>
   distinct (set_intersect s t) \<and>
   (set_intersect s t = [] \<longleftrightarrow> \<not> (\<exists>c. caps_ne c \<and> set_admits s c \<and> set_admits t c))"
  using set_admits_intersect distinct_set_intersect set_intersect_Nil_iff by blast

theorem set_intersect_denotation_witness:
  "set_admits (set_intersect [Klv, ByteStream MpegTs] [Text Utf8, ByteStream MpegTs]) (ByteStream MpegTs)"
  using set_intersect_denotation [of "[Klv, ByteStream MpegTs]" "[Text Utf8, ByteStream MpegTs]"]
  by simp

text \<open>
  Fixation returns a fixed caps below its argument, leaves a fixed caps alone, and fails with
  the mismatch error exactly on the caps with an open or empty field.
\<close>

theorem caps_fixate_correct:
  "case caps_fixate c of
      Inr r \<Rightarrow> fixatable c \<and> caps_is_fixed r \<and> caps_le r c \<and> caps_fixate r = Inr r
    | Inl e \<Rightarrow> e = CapsMismatch \<and> \<not> fixatable c \<and> \<not> caps_is_fixed c"
  using caps_fixate_total [of c] caps_fixate_is_fixed [of c] caps_fixate_le [of c] caps_fixate_fixed
    caps_fixate_Inl [of c]
  by (cases "caps_fixate c") auto

text \<open>
  Fixating a set picks from its first fixatable alternative, and gives up only when the set
  has none.
\<close>

theorem set_fixate_first:
  "case set_fixate s of
      Some r \<Rightarrow> (\<exists>xs c ys. s = xs @ c # ys \<and> caps_fixate c = Inr r \<and> (\<forall>d \<in> set xs. \<not> fixatable d))
    | None \<Rightarrow> (\<forall>c \<in> set s. \<not> fixatable c)"
proof (cases "set_fixate s")
  case None
  show ?thesis using None [unfolded set_fixate_None] unfolding None by simp
next
  case (Some r)
  have open_iff: "res_ok (caps_fixate c) = None \<longleftrightarrow> \<not> fixatable c" for c
    unfolding caps_fixate_total [symmetric] by (cases "caps_fixate c") simp_all
  show ?thesis using Some [unfolded set_fixate_def find_map_first] unfolding Some open_iff by auto
qed

theorem set_fixate_first_witness:
  "\<exists>xs c ys. [RawVideo Nv12 DimAny DimAny RateAny Progressive CL_UNKNOWN, Klv] = xs @ c # ys \<and> caps_fixate c = Inr Klv"
proof -
  have "set_fixate [RawVideo Nv12 DimAny DimAny RateAny Progressive CL_UNKNOWN, Klv] = Some Klv" by code_simp
  then show ?thesis
    using set_fixate_first [of "[RawVideo Nv12 DimAny DimAny RateAny Progressive CL_UNKNOWN, Klv]"] by auto
qed

text \<open>
  The batches of several streams are all combinations in order, unless some prefix of the
  streams has more than the allowed number of combinations.
\<close>

theorem batch_alternatives_product:
  "batch_alternatives streams =
     (if \<exists>k < length streams. prod_list (map length (take (Suc k) streams)) > MAX_BATCH_ALTERNATIVES then None
      else Some (map Batch (product_lists streams)))"
proof (cases "batch_product [[]] streams")
  case None
  then show ?thesis using batch_product_None [of "[[]]" streams] by (simp add: batch_alternatives_def)
next
  case (Some r)
  then have "r = product_lists streams" using batch_product_Some [OF Some] by (simp add: map_idI)
  moreover have "\<not> (\<exists>k < length streams. prod_list (map length (take (Suc k) streams)) > MAX_BATCH_ALTERNATIVES)"
    using Some batch_product_None [of "[[]]" streams] by simp
  ultimately show ?thesis using Some by (simp add: batch_alternatives_def)
qed

text \<open>
  A frame rate given as a fraction becomes its Q16 value rounded down, where that fits in 32
  bits, and the reduced fraction of a Q16 rate converts back to the same rate.
\<close>

theorem framerate_q16_exact:
  "framerate_q16_from_fraction n d =
     (if d = 0 \<or> 2 ^ 32 \<le> unat n * 65536 div unat d then None
      else Some (of_nat (unat n * 65536 div unat d))) \<and>
   framerate_q16_from_fraction (fst (framerate_q16_to_fraction q)) (snd (framerate_q16_to_fraction q)) = Some q"
  using framerate_q16_from_fraction_eq framerate_q16_roundtrip by blast

text \<open>
  Fixating toward a preferred picture size takes, in each ranged dimension, an admitted value
  at least as near to the preference as every other admitted value.
\<close>

theorem fixate_toward_nearest:
  assumes "caps_fixate_toward (RawVideo f (DimRange lo hi) h r i cl) (RawVideo f' (DimFixed p) h' r' i' cl') =
      Inr (RawVideo f'' (DimFixed w) h'' r'' i'' cl'')"
    and "lo \<le> v" "v \<le> hi"
  shows "lo \<le> w \<and> w \<le> hi \<and> \<bar>int (unat w) - int (unat p)\<bar> \<le> \<bar>int (unat v) - int (unat p)\<bar>"
  using assms clamp_nearest [OF assms(2,3), of p]
  by (auto simp: caps_fixate_toward_def narrow_toward_def dim_nearest_to_def clamp_bounds split: if_splits option.splits)

theorem fixate_toward_nearest_witness:
  "(640 :: u32) \<le> 640 \<and> (640 :: u32) \<le> 1280 \<and> \<bar>int (unat (640 :: u32)) - int (unat (320 :: u32))\<bar>
     \<le> \<bar>int (unat (1000 :: u32)) - int (unat (320 :: u32))\<bar>"
proof (rule fixate_toward_nearest)
  show "caps_fixate_toward (RawVideo Nv12 (DimRange 640 1280) (DimFixed 480) (RateFixed 1) Progressive CL_UNKNOWN)
      (RawVideo Nv12 (DimFixed 320) (DimFixed 480) (RateFixed 1) Progressive CL_UNKNOWN) =
      Inr (RawVideo Nv12 (DimFixed 640) (DimFixed 480) (RateFixed 1) Progressive CL_UNKNOWN)" by code_simp
qed simp_all

end
