(* ===== verification/Passthrough.thy ===== *)
theory Passthrough
  imports Constraint
begin

text \<open>
  The passthrough-field helpers of the negotiation (\<^verbatim>\<open>g2g-core/src/runtime/passthrough.rs\<close>): the
  backward coupling of the fields a transform forwards unchanged, the projection of an output
  onto the inputs that can give it, and the probing of a closure for the fields it forwards.
\<close>

section \<open>Geometry accessors\<close>

fun geo_width :: "caps \<Rightarrow> dim option" where
  "geo_width (RawVideo _ w _ _ _ _) = Some w"
| "geo_width (CompressedVideo _ w _ _ _ _) = Some w"
| "geo_width _ = None"

fun geo_height :: "caps \<Rightarrow> dim option" where
  "geo_height (RawVideo _ _ h _ _ _) = Some h"
| "geo_height (CompressedVideo _ _ h _ _ _) = Some h"
| "geo_height _ = None"

fun geo_rate :: "caps \<Rightarrow> rate option" where
  "geo_rate (RawVideo _ _ _ r _ _) = Some r"
| "geo_rate (CompressedVideo _ _ _ r _ _) = Some r"
| "geo_rate _ = None"

section \<open>Coupling\<close>

text \<open>One field of the coupling: intersected with the pin when the mask has it, else kept.\<close>

definition couple_field :: "bool \<Rightarrow> ('a \<Rightarrow> 'a \<Rightarrow> 'a option) \<Rightarrow> 'a \<Rightarrow> 'a \<Rightarrow> 'a option" where
  "couple_field masked meet_of x p = (if masked then meet_of x p else Some x)"

definition couple_scalar :: "bool \<Rightarrow> 'a \<Rightarrow> 'a \<Rightarrow> 'a option" where
  "couple_scalar masked x p = (if masked \<and> x \<noteq> p then None else Some x)"

fun couple_passthrough :: "caps \<Rightarrow> caps \<Rightarrow> passthrough_fields \<Rightarrow> caps option" where
  "couple_passthrough (RawVideo fi wi hi ri ii cli) (RawVideo fp wp hp rp _ _) msk =
     Option.bind (couple_scalar (pf_format msk) fi fp) (\<lambda>format.
     Option.bind (couple_field (pf_width msk) dim_intersect wi wp) (\<lambda>width.
     Option.bind (couple_field (pf_height msk) dim_intersect hi hp) (\<lambda>height.
     Option.bind (couple_field (pf_framerate msk) rate_intersect ri rp) (\<lambda>framerate.
       Some (RawVideo format width height framerate ii cli)))))"
| "couple_passthrough (CompressedVideo ci wi hi ri cli ai) (CompressedVideo cp wp hp rp _ _) msk =
     Option.bind (couple_scalar (pf_format msk) ci cp) (\<lambda>codec.
     Option.bind (couple_field (pf_width msk) dim_intersect wi wp) (\<lambda>width.
     Option.bind (couple_field (pf_height msk) dim_intersect hi hp) (\<lambda>height.
     Option.bind (couple_field (pf_framerate msk) rate_intersect ri rp) (\<lambda>framerate.
       Some (CompressedVideo codec width height framerate cli ai)))))"
| "couple_passthrough (Audio fi ci si _) (Audio fp cp sp _) msk =
     Option.bind (couple_scalar (pf_format msk) fi fp) (\<lambda>format.
     Option.bind (couple_field (pf_channels msk) intersect_channels ci cp) (\<lambda>channels.
     Option.bind (couple_field (pf_sample_rate msk) intersect_sample_rate si sp) (\<lambda>sample_rate.
       Some (Audio format channels sample_rate UNSPECIFIED))))"
| "couple_passthrough _ _ msk = None"

fun same_variant :: "caps \<Rightarrow> caps \<Rightarrow> bool" where
  "same_variant (RawVideo _ _ _ _ _ _) (RawVideo _ _ _ _ _ _) = True"
| "same_variant (CompressedVideo _ _ _ _ _ _) (CompressedVideo _ _ _ _ _ _) = True"
| "same_variant (Audio _ _ _ _) (Audio _ _ _ _) = True"
| "same_variant _ _ = False"

definition couple_passthrough_derived :: "caps \<Rightarrow> caps \<Rightarrow> passthrough_fields \<Rightarrow> caps option" where
  "couple_passthrough_derived input pin msk =
     (if same_variant input pin then couple_passthrough input pin msk
      else
        Option.bind (geo_width input) (\<lambda>wi. Option.bind (geo_height input) (\<lambda>hi.
        Option.bind (geo_rate input) (\<lambda>ri.
        Option.bind (geo_width pin) (\<lambda>wp. Option.bind (geo_height pin) (\<lambda>hp.
        Option.bind (geo_rate pin) (\<lambda>rp.
        Option.bind (couple_field (pf_width msk) dim_intersect wi wp) (\<lambda>width.
        Option.bind (couple_field (pf_height msk) dim_intersect hi hp) (\<lambda>height.
        Option.bind (couple_field (pf_framerate msk) rate_intersect ri rp) (\<lambda>framerate.
          (case input of
             RawVideo format _ _ _ interlace colorimetry \<Rightarrow>
               Some (RawVideo format width height framerate interlace colorimetry)
           | CompressedVideo codec _ _ _ colorimetry _ \<Rightarrow>
               Some (CompressedVideo codec width height framerate colorimetry AlignUnspecified)
           | _ \<Rightarrow> None)))))))))))"

section \<open>Projection\<close>

definition widen_dim :: "bool \<Rightarrow> dim \<Rightarrow> dim" where
  "widen_dim masked d = (if masked then d else DimAny)"

definition widen_rate :: "bool \<Rightarrow> rate \<Rightarrow> rate" where
  "widen_rate masked r = (if masked then r else RateAny)"

fun project_passthrough :: "caps \<Rightarrow> passthrough_fields \<Rightarrow> caps option" where
  "project_passthrough (RawVideo format width height framerate _ _) msk =
     (if \<not> pf_format msk then None
      else Some (RawVideo format (widen_dim (pf_width msk) width) (widen_dim (pf_height msk) height)
                   (widen_rate (pf_framerate msk) framerate) InterlaceAny CL_UNKNOWN))"
| "project_passthrough (CompressedVideo codec width height framerate _ _) msk =
     (if \<not> pf_format msk then None
      else Some (CompressedVideo codec (widen_dim (pf_width msk) width)
                   (widen_dim (pf_height msk) height) (widen_rate (pf_framerate msk) framerate)
                   CL_UNKNOWN AlignUnspecified))"
| "project_passthrough (Audio format channels sample_rate _) msk =
     (if \<not> pf_format msk \<or> \<not> pf_channels msk then None
      else Some (Audio format channels
                   (if pf_sample_rate msk then sample_rate else ANY_SAMPLE_RATE) UNSPECIFIED))"
| "project_passthrough _ msk = None"

definition project_passthrough_derived ::
  "caps \<Rightarrow> caps \<Rightarrow> passthrough_fields \<Rightarrow> caps option" where
  "project_passthrough_derived sample out msk =
     (if same_variant sample out then project_passthrough out msk
      else
        Option.bind (geo_width out) (\<lambda>wp. Option.bind (geo_height out) (\<lambda>hp.
        Option.bind (geo_rate out) (\<lambda>rp.
          (let width = widen_dim (pf_width msk) wp; height = widen_dim (pf_height msk) hp;
               framerate = widen_rate (pf_framerate msk) rp in
           case sample of
             RawVideo format _ _ _ _ _ \<Rightarrow>
               Some (RawVideo format width height framerate InterlaceAny CL_UNKNOWN)
           | CompressedVideo codec _ _ _ _ _ \<Rightarrow>
               Some (CompressedVideo codec width height framerate CL_UNKNOWN AlignUnspecified)
           | _ \<Rightarrow> None)))))"

section \<open>Discovery\<close>

datatype probe_field =
  ProbeWidth | ProbeHeight | ProbeFramerate | ProbeFormat | ProbeChannels | ProbeSampleRate

definition fps :: "u32 \<Rightarrow> rate" where
  "fps n = RateFixed (push_bit 16 n)"

fun concrete_probe_base :: "caps \<Rightarrow> caps" where
  "concrete_probe_base (RawVideo format _ _ _ _ _) =
     RawVideo format (DimFixed 64) (DimFixed 64) (fps 30) InterlaceAny CL_UNKNOWN"
| "concrete_probe_base (CompressedVideo codec _ _ _ _ _) =
     CompressedVideo codec (DimFixed 64) (DimFixed 64) (fps 30) CL_UNKNOWN AlignUnspecified"
| "concrete_probe_base (Audio format _ _ _) = Audio format 2 48000 UNSPECIFIED"
| "concrete_probe_base other = other"

fun set_probe :: "caps \<Rightarrow> probe_field \<Rightarrow> bool \<Rightarrow> caps option" where
  "set_probe (RawVideo f w h r i cl) ProbeWidth hi =
     Some (RawVideo f (DimFixed (if hi then 128 else 64)) h r i cl)"
| "set_probe (CompressedVideo c w h r cl a) ProbeWidth hi =
     Some (CompressedVideo c (DimFixed (if hi then 128 else 64)) h r cl a)"
| "set_probe (RawVideo f w h r i cl) ProbeHeight hi =
     Some (RawVideo f w (DimFixed (if hi then 128 else 64)) r i cl)"
| "set_probe (CompressedVideo c w h r cl a) ProbeHeight hi =
     Some (CompressedVideo c w (DimFixed (if hi then 128 else 64)) r cl a)"
| "set_probe (RawVideo f w h r i cl) ProbeFramerate hi =
     Some (RawVideo f w h (if hi then fps 60 else fps 30) i cl)"
| "set_probe (CompressedVideo c w h r cl a) ProbeFramerate hi =
     Some (CompressedVideo c w h (if hi then fps 60 else fps 30) cl a)"
| "set_probe (RawVideo f w h r i cl) ProbeFormat hi =
     Some (RawVideo (if hi then I420 else Nv12) w h r i cl)"
| "set_probe (CompressedVideo c w h r cl a) ProbeFormat hi =
     Some (CompressedVideo (if hi then H265 else H264) w h r cl a)"
| "set_probe (Audio f ch sr l) ProbeFormat hi =
     Some (Audio (if hi then PcmF32Le else PcmS16Le) ch sr l)"
| "set_probe (Audio f ch sr l) ProbeChannels hi = Some (Audio f (if hi then 1 else 2) sr l)"
| "set_probe (Audio f ch sr l) ProbeSampleRate hi =
     Some (Audio f ch (if hi then 44100 else 48000) l)"
| "set_probe _ _ hi = None"

text \<open>\<^verbatim>\<open>a.zip(b).is_some_and(|(a, b)| a == b)\<close>.\<close>

definition both_eq :: "'a option \<Rightarrow> 'a option \<Rightarrow> bool" where
  "both_eq a b = (case (a, b) of (Some x, Some y) \<Rightarrow> x = y | _ \<Rightarrow> False)"

fun field_eq :: "caps \<Rightarrow> caps \<Rightarrow> probe_field \<Rightarrow> bool" where
  "field_eq out inp ProbeWidth = both_eq (geo_width out) (geo_width inp)"
| "field_eq out inp ProbeHeight = both_eq (geo_height out) (geo_height inp)"
| "field_eq out inp ProbeFramerate = both_eq (geo_rate out) (geo_rate inp)"
| "field_eq out inp ProbeFormat =
     (case (out, inp) of
        (RawVideo a _ _ _ _ _, RawVideo b _ _ _ _ _) \<Rightarrow> a = b
      | (CompressedVideo a _ _ _ _ _, CompressedVideo b _ _ _ _ _) \<Rightarrow> a = b
      | (Audio a _ _ _, Audio b _ _ _) \<Rightarrow> a = b
      | _ \<Rightarrow> False)"
| "field_eq out inp ProbeChannels =
     (case (out, inp) of (Audio _ a _ _, Audio _ b _ _) \<Rightarrow> a = b | _ \<Rightarrow> False)"
| "field_eq out inp ProbeSampleRate =
     (case (out, inp) of (Audio _ _ a _, Audio _ _ b _) \<Rightarrow> a = b | _ \<Rightarrow> False)"

definition every_output_keeps_field :: "(caps \<Rightarrow> caps_set) \<Rightarrow> caps \<Rightarrow> probe_field \<Rightarrow> bool" where
  "every_output_keeps_field f input field =
     (let outputs = f input in outputs \<noteq> [] \<and> list_all (\<lambda>output. field_eq output input field) outputs)"

definition probe_field_passes :: "(caps \<Rightarrow> caps_set) \<Rightarrow> caps \<Rightarrow> probe_field \<Rightarrow> bool" where
  "probe_field_passes f base field =
     (case (set_probe base field False, set_probe base field True) of
        (Some p0, Some p1) \<Rightarrow> list_all (\<lambda>input. every_output_keeps_field f input field) [base, p0, p1]
      | _ \<Rightarrow> False)"

definition discover_passthrough :: "(caps \<Rightarrow> caps_set) \<Rightarrow> caps \<Rightarrow> passthrough_fields" where
  "discover_passthrough f sample =
     (let base = concrete_probe_base sample in
      \<lparr>pf_format = probe_field_passes f base ProbeFormat,
       pf_width = probe_field_passes f base ProbeWidth,
       pf_height = probe_field_passes f base ProbeHeight,
       pf_framerate = probe_field_passes f base ProbeFramerate,
       pf_channels = probe_field_passes f base ProbeChannels,
       pf_sample_rate = probe_field_passes f base ProbeSampleRate\<rparr>)"


section \<open>The mask of a declared transform\<close>

text \<open>\<open>keeps_masked\<close>: every field the mask names has the same value on both sides.\<close>

definition keeps_masked :: "passthrough_fields \<Rightarrow> caps \<Rightarrow> caps \<Rightarrow> bool" where
  "keeps_masked msk out inp \<longleftrightarrow>
     (pf_format msk \<longrightarrow> field_eq out inp ProbeFormat) \<and>
     (pf_width msk \<longrightarrow> field_eq out inp ProbeWidth) \<and>
     (pf_height msk \<longrightarrow> field_eq out inp ProbeHeight) \<and>
     (pf_framerate msk \<longrightarrow> field_eq out inp ProbeFramerate) \<and>
     (pf_channels msk \<longrightarrow> field_eq out inp ProbeChannels) \<and>
     (pf_sample_rate msk \<longrightarrow> field_eq out inp ProbeSampleRate)"

lemma derive_cases:
  assumes "out \<in> set (derive t inp)"
  obtains (video) accept produce shapes s f w h r i cl where
    "t = TransformRawVideo accept produce shapes" "s \<in> set shapes" "inp = RawVideo f w h r i cl"
    "gate accept f" "gate produce (ft_apply (rvs_format s) f)" "out = raw_video_output s f w h r i"
  | (audio) accept produce shapes s f ch sr l where
    "t = TransformAudio accept produce shapes" "s \<in> set shapes" "inp = Audio f ch sr l"
    "gate accept f" "gate produce (ft_apply (as_format s) f)" "out = audio_output s f ch sr"
  using assms
proof (cases "(t, inp)" rule: derive.cases)
  case (1 accept produce shapes f w h r i cl)
  then show ?thesis using assms derive_raw_video [of accept produce shapes f w h r i cl] video
    by (auto split: if_splits simp del: derive.simps)
next
  case (2 accept produce shapes f ch sr l)
  then show ?thesis using assms derive_audio [of accept produce shapes f ch sr l] audio
    by (auto split: if_splits simp del: derive.simps)
qed (use assms in simp_all)

lemma derive_keeps_masked:
  assumes "out \<in> set (derive t inp)"
  shows "keeps_masked (transform_passthrough t) out inp"
  using assms
proof (cases rule: derive_cases)
  case (video accept produce shapes s f w h r i cl)
  then show ?thesis
    by (auto simp: keeps_masked_def raw_video_output_def both_eq_def list_all_iff ft_apply_identity)
next
  case (audio accept produce shapes s f ch sr l)
  then show ?thesis
    by (auto simp: keeps_masked_def audio_output_def list_all_iff ft_apply_identity)
qed

lemma ft_apply_mono: "le x y \<Longrightarrow> (\<And>z. le z z) \<Longrightarrow> le (ft_apply t x) (ft_apply t y)"
  by (cases t) simp_all

text \<open>A more specific input derives, shape by shape, more specific outputs.\<close>

lemma derive_mono:
  assumes "out \<in> set (derive t x)" and "caps_le x a"
  shows "\<exists>out' \<in> set (derive t a). caps_le out out'"
  using assms(1)
proof (cases rule: derive_cases)
  case (video accept produce shapes s f w h r i cl)
  with assms(2) obtain w' h' r' i' cl' where a: "a = RawVideo f w' h' r' i' cl'"
    and le: "dim_le w w'" "dim_le h h'" "rate_le r r'" "wild_le InterlaceAny i i'"
    by (auto split: caps.splits)
  have "raw_video_output s f w' h' r' i' \<in> set (derive t a)"
    unfolding a video(1) derive_raw_video using video by auto
  moreover have "caps_le out (raw_video_output s f w' h' r' i')"
    using le video(6) ft_apply_mono [of dim_le, OF _ dim.le_refl] ft_apply_mono [of rate_le, OF _ rate.le_refl]
    by (simp add: raw_video_output_def colorimetry.le_refl)
  ultimately show ?thesis by blast
next
  case (audio accept produce shapes s f ch sr l)
  with assms(2) obtain ch' sr' l' where a: "a = Audio f ch' sr' l'"
    and le: "wild_le ANY_CHANNELS ch ch'" "wild_le ANY_SAMPLE_RATE sr sr'"
    by (auto split: caps.splits)
  have "audio_output s f ch' sr' \<in> set (derive t a)"
    unfolding a audio(1) derive_audio using audio by auto
  moreover have "caps_le out (audio_output s f ch' sr')"
    using le audio(6) ft_apply_mono [of "wild_le ANY_CHANNELS", OF _ wild.le_refl]
      ft_apply_mono [of "wild_le ANY_SAMPLE_RATE", OF _ wild.le_refl]
    by (simp add: audio_output_def wild.le_refl)
  ultimately show ?thesis by blast
qed

section \<open>Coupling loses no input\<close>

text \<open>
  \<open>le_masked msk d p\<close>: \<open>d\<close> is at least as specific as \<open>p\<close> on the masked fields both sides
  carry. Across the two video variants only the geometry and the rate are shared.
\<close>

definition le_masked :: "passthrough_fields \<Rightarrow> caps \<Rightarrow> caps \<Rightarrow> bool" where
  "le_masked msk d p \<longleftrightarrow>
     (case (caps_dims d, caps_dims p) of
        (Some (w, h, r), Some (w', h', r')) \<Rightarrow>
          (same_variant d p \<longrightarrow> pf_format msk \<longrightarrow> field_eq d p ProbeFormat) \<and>
          (pf_width msk \<longrightarrow> dim_le w w') \<and> (pf_height msk \<longrightarrow> dim_le h h') \<and>
          (pf_framerate msk \<longrightarrow> rate_le r r')
      | _ \<Rightarrow>
          (case (d, p) of
             (Audio f ch sr _, Audio f' ch' sr' _) \<Rightarrow>
               (pf_format msk \<longrightarrow> f = f') \<and> (pf_channels msk \<longrightarrow> wild_le ANY_CHANNELS ch ch') \<and>
               (pf_sample_rate msk \<longrightarrow> wild_le ANY_SAMPLE_RATE sr sr')
           | _ \<Rightarrow> False))"

lemma couple_field_dim:
  assumes "dim_ne d" "dim_le d x" "m \<longrightarrow> dim_le d p"
  shows "\<exists>c. couple_field m dim_intersect x p = Some c \<and> dim_le d c"
  using assms dim.meet_greatest by (auto simp: couple_field_def)

lemma couple_field_rate:
  assumes "rate_ne d" "rate_le d x" "m \<longrightarrow> rate_le d p"
  shows "\<exists>c. couple_field m rate_intersect x p = Some c \<and> rate_le d c"
  using assms rate.meet_greatest by (auto simp: couple_field_def)

lemma couple_field_wild:
  assumes "wild_le v d x" "m \<longrightarrow> wild_le v d p"
  shows "\<exists>c. couple_field m (wild_meet v) x p = Some c \<and> wild_le v d c"
  using assms wild.meet_greatest [of v d x p] by (auto simp: couple_field_def)

lemma couple_geometry:
  assumes "dim_ne w" "dim_ne h" "rate_ne r" "dim_le w w1" "dim_le h h1" "rate_le r r1"
    and "mw \<longrightarrow> dim_le w w'" "mh \<longrightarrow> dim_le h h'" "mr \<longrightarrow> rate_le r r'"
  obtains w2 h2 r2 where
    "couple_field mw dim_intersect w1 w' = Some w2" "dim_le w w2"
    "couple_field mh dim_intersect h1 h' = Some h2" "dim_le h h2"
    "couple_field mr rate_intersect r1 r' = Some r2" "rate_le r r2"
  using couple_field_dim [OF assms(1,4,7)] couple_field_dim [OF assms(2,5,8)]
    couple_field_rate [OF assms(3,6,9)] by blast

lemma couple_greatest:
  assumes "caps_ne d" "caps_le d a" "le_masked msk d p"
  shows "\<exists>c. couple_passthrough_derived a p msk = Some c \<and> caps_le d c"
proof (cases d)
  case (RawVideo f w h r i cl)
  with assms(2) obtain w1 h1 r1 i1 cl1 where a: "a = RawVideo f w1 h1 r1 i1 cl1"
    and le: "dim_le w w1" "dim_le h h1" "rate_le r r1" "wild_le InterlaceAny i i1" "colorimetry_le cl cl1"
    by (auto split: caps.splits)
  obtain w' h' r' where p: "caps_dims p = Some (w', h', r')" and fmt: "same_variant d p \<longrightarrow> pf_format msk \<longrightarrow> field_eq d p ProbeFormat"
    and masked: "pf_width msk \<longrightarrow> dim_le w w'" "pf_height msk \<longrightarrow> dim_le h h'" "pf_framerate msk \<longrightarrow> rate_le r r'"
    using assms(3) RawVideo by (auto simp: le_masked_def split: option.splits caps.splits)
  have ne: "dim_ne w" "dim_ne h" "rate_ne r" using assms(1) RawVideo by auto
  obtain w2 h2 r2 where
    "couple_field (pf_width msk) dim_intersect w1 w' = Some w2" "dim_le w w2"
    "couple_field (pf_height msk) dim_intersect h1 h' = Some h2" "dim_le h h2"
    "couple_field (pf_framerate msk) rate_intersect r1 r' = Some r2" "rate_le r r2"
    using couple_geometry [OF ne le(1-3) masked] .
  then show ?thesis using RawVideo a le fmt p
    by (cases p) (auto simp: couple_passthrough_derived_def couple_scalar_def)
next
  case (CompressedVideo f w h r cl al)
  with assms(2) obtain w1 h1 r1 al1 cl1 where a: "a = CompressedVideo f w1 h1 r1 cl1 al1"
    and le: "dim_le w w1" "dim_le h h1" "rate_le r r1" "wild_le AlignUnspecified al al1" "colorimetry_le cl cl1"
    by (auto split: caps.splits)
  obtain w' h' r' where p: "caps_dims p = Some (w', h', r')" and fmt: "same_variant d p \<longrightarrow> pf_format msk \<longrightarrow> field_eq d p ProbeFormat"
    and masked: "pf_width msk \<longrightarrow> dim_le w w'" "pf_height msk \<longrightarrow> dim_le h h'" "pf_framerate msk \<longrightarrow> rate_le r r'"
    using assms(3) CompressedVideo by (auto simp: le_masked_def split: option.splits caps.splits)
  have ne: "dim_ne w" "dim_ne h" "rate_ne r" using assms(1) CompressedVideo by auto
  obtain w2 h2 r2 where
    "couple_field (pf_width msk) dim_intersect w1 w' = Some w2" "dim_le w w2"
    "couple_field (pf_height msk) dim_intersect h1 h' = Some h2" "dim_le h h2"
    "couple_field (pf_framerate msk) rate_intersect r1 r' = Some r2" "rate_le r r2"
    using couple_geometry [OF ne le(1-3) masked] .
  then show ?thesis using CompressedVideo a le fmt p
    by (cases p) (auto simp: couple_passthrough_derived_def couple_scalar_def wild_le_def)
next
  case (Audio f ch sr l)
  with assms(2) obtain ch1 sr1 l1 where a: "a = Audio f ch1 sr1 l1"
    and le: "wild_le ANY_CHANNELS ch ch1" "wild_le ANY_SAMPLE_RATE sr sr1"
    by (auto split: caps.splits)
  obtain f' ch' sr' l' where p: "p = Audio f' ch' sr' l'" and fmt: "pf_format msk \<longrightarrow> f = f'"
    and masked: "pf_channels msk \<longrightarrow> wild_le ANY_CHANNELS ch ch'"
      "pf_sample_rate msk \<longrightarrow> wild_le ANY_SAMPLE_RATE sr sr'"
    using assms(3) Audio by (auto simp: le_masked_def split: option.splits caps.splits)
  show ?thesis
    using couple_field_wild [OF le(1) masked(1)] couple_field_wild [OF le(2) masked(2)] fmt Audio a p
    by (auto simp: couple_passthrough_derived_def couple_scalar_def wild_intersections wild_le_def)
qed (use assms in \<open>auto simp: le_masked_def split: option.splits\<close>)

section \<open>What coupling may widen\<close>

text \<open>
  The fields a coupling resets instead of narrowing: the channel layout of audio, and the
  alignment of a compressed stream coupled with a raw one.
\<close>

fun relax :: "caps \<Rightarrow> caps" where
  "relax (Audio f ch sr _) = Audio f ch sr UNSPECIFIED"
| "relax (CompressedVideo c w h r cl _) = CompressedVideo c w h r cl AlignUnspecified"
| "relax c = c"

lemma couple_field_dim_le: "couple_field m dim_intersect x p = Some c \<Longrightarrow> dim_le c x \<and> (m \<longrightarrow> dim_le c p)"
  by (auto simp: couple_field_def field_refl intro: field_le split: if_splits)

lemma couple_field_rate_le: "couple_field m rate_intersect x p = Some c \<Longrightarrow> rate_le c x \<and> (m \<longrightarrow> rate_le c p)"
  by (auto simp: couple_field_def field_refl intro: field_le split: if_splits)

lemma couple_field_wild_le: "couple_field m (wild_meet v) x p = Some c \<Longrightarrow> wild_le v c x \<and> (m \<longrightarrow> wild_le v c p)"
  by (auto simp: couple_field_def field_refl intro: field_le split: if_splits)

lemma couple_le_relax:
  assumes "couple_passthrough_derived a p msk = Some c"
  shows "caps_le c (relax a)"
  using assms
  by (cases a; cases p)
    (auto simp: couple_passthrough_derived_def couple_scalar_def wild_intersections field_refl wild_le_def
      split: Option.bind_splits if_splits
      dest!: couple_field_dim_le couple_field_rate_le couple_field_wild_le)

lemma couple_le_masked:
  assumes "couple_passthrough_derived a p msk = Some c"
  shows "le_masked msk c p"
  using assms
  by (cases a; cases p)
    (auto simp: couple_passthrough_derived_def couple_scalar_def wild_intersections le_masked_def
      split: Option.bind_splits if_splits
      dest!: couple_field_dim_le couple_field_rate_le couple_field_wild_le)

section \<open>Concrete inputs of a transform\<close>

text \<open>Caps with every coupled field at one value: audio without the channel or rate wildcard.\<close>

fun concrete :: "caps \<Rightarrow> bool" where
  "concrete (Audio _ ch sr _) \<longleftrightarrow> ch \<noteq> ANY_CHANNELS \<and> sr \<noteq> ANY_SAMPLE_RATE"
| "concrete c \<longleftrightarrow> caps_is_fixed c"

lemma dim_squeeze:
  assumes "dim_is_fixed d" "dim_ne z" "dim_le z d" "dim_le z e"
  shows "dim_le d e"
  using assms by (cases d) (auto simp: dim_le_def dim_ne_def range_le_def range_ne_def)

lemma rate_squeeze:
  assumes "rate_is_fixed d" "rate_ne z" "rate_le z d" "rate_le z e"
  shows "rate_le d e"
  using assms by (cases d) (auto simp: rate_le_def rate_ne_def range_le_def range_ne_def)

text \<open>
  If some stream is described both by an output a transform derives from the concrete input
  \<open>x\<close> and by \<open>e\<close>, the masked fields of \<open>x\<close> already satisfy \<open>e\<close>.
\<close>

lemma derive_le_masked:
  assumes "out \<in> set (derive t x)" "concrete x" "caps_ne z" "caps_le z out" "caps_le z e"
  shows "le_masked (transform_passthrough t) x e \<and> same_variant x e"
  using assms(1)
proof (cases rule: derive_cases)
  case (video accept produce shapes s f w h r i cl)
  then obtain w1 h1 r1 i1 cl1 where z: "z = RawVideo (ft_apply (rvs_format s) f) w1 h1 r1 i1 cl1"
    using assms(4) by (cases z) (auto simp: raw_video_output_def caps_le_Batch_left)
  then obtain w2 h2 r2 i2 cl2 where e: "e = RawVideo (ft_apply (rvs_format s) f) w2 h2 r2 i2 cl2"
    and ze: "dim_le w1 w2" "dim_le h1 h2" "rate_le r1 r2"
    using assms(5) by (cases e) auto
  have zo: "dim_le w1 (ft_apply (rvs_width s) w)" "dim_le h1 (ft_apply (rvs_height s) h)"
    "rate_le r1 (ft_apply (rvs_framerate s) r)" and ne: "dim_ne w1" "dim_ne h1" "rate_ne r1"
    using assms(3,4) z video by (auto simp: raw_video_output_def)
  have fixed: "dim_is_fixed w" "dim_is_fixed h" "rate_is_fixed r" using assms(2) video by auto
  show ?thesis
    using video e ze zo ne fixed
    by (auto simp: le_masked_def list_all_iff ft_apply_identity intro: dim_squeeze rate_squeeze)
next
  case (audio accept produce shapes s f ch sr l)
  then obtain ch1 sr1 l1 where z: "z = Audio (ft_apply (as_format s) f) ch1 sr1 l1"
    using assms(4) by (cases z) (auto simp: audio_output_def caps_le_Batch_left)
  then obtain ch2 sr2 l2 where e: "e = Audio (ft_apply (as_format s) f) ch2 sr2 l2"
    using assms(5) by (cases e) auto
  show ?thesis
    using audio e z assms(2,4,5)
    by (auto simp: le_masked_def list_all_iff ft_apply_identity audio_output_def wild_le_def)
qed

lemma project_complete:
  assumes "le_masked msk x e" "same_variant x e" "project_passthrough e msk = Some p"
  shows "caps_le x p"
  using assms
  by (cases x; cases e)
    (auto simp: le_masked_def widen_dim_def widen_rate_def wild_le_def dim_le_def rate_le_def
      range_le_def colorimetry_le_def u32_MAX_def CL_UNKNOWN_def split: if_splits)

section \<open>Probing a declared transform\<close>

lemma derive_Nil_iff_video:
  "derive (TransformRawVideo accept produce shapes) (RawVideo f w h r i cl) = [] \<longleftrightarrow>
     \<not> (gate accept f \<and> (\<exists>s \<in> set shapes. gate produce (ft_apply (rvs_format s) f)))"
  unfolding set_empty [symmetric] derive_raw_video by auto

lemma every_output_video:
  "every_output_keeps_field (derive (TransformRawVideo accept produce shapes)) (RawVideo f w h r i cl) field \<longleftrightarrow>
     derive (TransformRawVideo accept produce shapes) (RawVideo f w h r i cl) \<noteq> [] \<and>
     (\<forall>s \<in> set shapes. gate produce (ft_apply (rvs_format s) f) \<longrightarrow>
        field_eq (raw_video_output s f w h r i) (RawVideo f w h r i cl) field)"
  unfolding every_output_keeps_field_def Let_def list_all_iff derive_raw_video derive_Nil_iff_video
  by auto

text \<open>
  Probing finds exactly the geometry and rate fields that every output shape alive for the
  sample's format passes through, so a probed mask agrees with the declared one.
\<close>

lemma discover_video:
  fixes accept produce shapes
  defines "t \<equiv> TransformRawVideo accept produce shapes"
  assumes "derive t (RawVideo f w h r i cl) \<noteq> []"
  shows "pf_width (discover_passthrough (derive t) (RawVideo f w h r i cl)) \<longleftrightarrow>
      (\<forall>s \<in> set shapes. gate produce (ft_apply (rvs_format s) f) \<longrightarrow> ft_is_identity (rvs_width s))"
    and "pf_height (discover_passthrough (derive t) (RawVideo f w h r i cl)) \<longleftrightarrow>
      (\<forall>s \<in> set shapes. gate produce (ft_apply (rvs_format s) f) \<longrightarrow> ft_is_identity (rvs_height s))"
    and "pf_framerate (discover_passthrough (derive t) (RawVideo f w h r i cl)) \<longleftrightarrow>
      (\<forall>s \<in> set shapes. gate produce (ft_apply (rvs_format s) f) \<longrightarrow> ft_is_identity (rvs_framerate s))"
proof -
  have alive: "derive t (RawVideo f w' h' r' i' cl') \<noteq> []" for w' h' r' i' cl'
    using assms(2) unfolding t_def derive_Nil_iff_video by simp
  have dim_id: "ft_apply d (DimFixed 64) = DimFixed 64 \<and> ft_apply d (DimFixed 128) = DimFixed 128 \<longleftrightarrow>
      ft_is_identity d" for d by (cases d) auto
  have rate_id: "ft_apply d (fps 30) = fps 30 \<and> ft_apply d (fps 60) = fps 60 \<longleftrightarrow>
      ft_is_identity d" for d by (cases d) (auto simp: fps_def)
  have keeps: "every_output_keeps_field (derive t) (RawVideo f w' h' r' i' cl') fld \<longleftrightarrow>
      (\<forall>s \<in> set shapes. gate produce (ft_apply (rvs_format s) f) \<longrightarrow>
        field_eq (raw_video_output s f w' h' r' i') (RawVideo f w' h' r' i' cl') fld)"
    for w' h' r' i' cl' fld
    using alive [of w' h' r' i' cl'] unfolding t_def every_output_video by simp
  note defs = discover_passthrough_def probe_field_passes_def Let_def keeps raw_video_output_def both_eq_def
  show "pf_width (discover_passthrough (derive t) (RawVideo f w h r i cl)) \<longleftrightarrow>
      (\<forall>s \<in> set shapes. gate produce (ft_apply (rvs_format s) f) \<longrightarrow> ft_is_identity (rvs_width s))"
    unfolding dim_id [symmetric] by (auto simp: defs)
  show "pf_height (discover_passthrough (derive t) (RawVideo f w h r i cl)) \<longleftrightarrow>
      (\<forall>s \<in> set shapes. gate produce (ft_apply (rvs_format s) f) \<longrightarrow> ft_is_identity (rvs_height s))"
    unfolding dim_id [symmetric] by (auto simp: defs)
  show "pf_framerate (discover_passthrough (derive t) (RawVideo f w h r i cl)) \<longleftrightarrow>
      (\<forall>s \<in> set shapes. gate produce (ft_apply (rvs_format s) f) \<longrightarrow> ft_is_identity (rvs_framerate s))"
    unfolding rate_id [symmetric] by (auto simp: defs)
qed

section \<open>Properties\<close>

text \<open>
  The mask of a declarative transform claims a field only if every caps the transform derives
  carries that field of its input unchanged.
\<close>

theorem transform_mask_sound:
  assumes "out \<in> set (derive t inp)"
  shows "keeps_masked (transform_passthrough t) out inp"
  by (rule derive_keeps_masked [OF assms])

definition demo_scaler :: caps_transform where
  "demo_scaler =
     TransformRawVideo [Nv12] [] [RVS_PASSTHROUGH, RVS_PASSTHROUGH\<lparr>rvs_width := FieldFixed (DimFixed 640)\<rparr>]"

definition demo_video :: "dim \<Rightarrow> caps" where
  "demo_video w = RawVideo Nv12 w (DimFixed 480) (RateFixed 1966080) Progressive CL_UNKNOWN"

theorem transform_mask_sound_witness:
  "keeps_masked (transform_passthrough demo_scaler) (demo_video (DimFixed 640)) (demo_video (DimFixed 1280))"
  by (rule transform_mask_sound) code_simp

text \<open>
  The derivation is monotone: whatever a more specific input derives lies below something the
  less specific input derives, so narrowing an input never creates an output.
\<close>

theorem derive_monotone:
  assumes "out \<in> set (derive t x)" "caps_le x a"
  shows "\<exists>out' \<in> set (derive t a). caps_le out out'"
  by (rule derive_mono [OF assms])

theorem derive_monotone_witness:
  "\<exists>out' \<in> set (derive demo_scaler (demo_video (DimRange 1 1920))). caps_le (demo_video (DimFixed 640)) out'"
proof (rule derive_monotone)
  show "demo_video (DimFixed 640) \<in> set (derive demo_scaler (demo_video (DimFixed 1280)))" by code_simp
  show "caps_le (demo_video (DimFixed 1280)) (demo_video (DimRange 1 1920))" by code_simp
qed

text \<open>
  Coupling an input with what its output was pinned to loses nothing: every inhabited caps
  below the input that agrees with the pin on the copied fields stays below the coupled input, and
  the coupled input agrees with the pin.
\<close>

theorem coupling_complete:
  assumes "caps_ne d" "caps_le d a" "le_masked msk d p"
  shows "\<exists>c. couple_passthrough_derived a p msk = Some c \<and> caps_le d c \<and> le_masked msk c p"
  using couple_greatest [OF assms] couple_le_masked by blast

theorem coupling_complete_witness:
  "\<exists>c. couple_passthrough_derived (demo_video (DimRange 1 1920)) (demo_video (DimFixed 640)) PF_ALL = Some c \<and>
     caps_le (demo_video (DimFixed 640)) c \<and> le_masked PF_ALL c (demo_video (DimFixed 640))"
  by (rule coupling_complete) code_simp+

text \<open>
  The coupling is not always a narrowing: for audio it forgets the channel layout of the input,
  and the coupled caps is then strictly wider than the input in that field.
\<close>

theorem coupling_widens_audio_layout:
  "couple_passthrough_derived (Audio PcmS16Le 2 48000 STEREO) (Audio PcmS16Le 2 48000 UNSPECIFIED) PF_ALL =
     Some (Audio PcmS16Le 2 48000 UNSPECIFIED) \<and>
   \<not> caps_le (Audio PcmS16Le 2 48000 UNSPECIFIED) (Audio PcmS16Le 2 48000 STEREO) \<and>
   caps_le (Audio PcmS16Le 2 48000 STEREO) (Audio PcmS16Le 2 48000 UNSPECIFIED)"
  by code_simp

text \<open>
  Probing a derived transform finds the fields it copies: for a raw-video transform the probed
  mask has the width, height and frame rate exactly where every output shape that can apply to the
  sample's format copies them.
\<close>

theorem discovery_exact:
  assumes "derive (TransformRawVideo accept produce shapes) (RawVideo f w h r i cl) \<noteq> []"
  shows "let msk = discover_passthrough (derive (TransformRawVideo accept produce shapes)) (RawVideo f w h r i cl);
             applies = (\<lambda>s. gate produce (ft_apply (rvs_format s) f)) in
    (pf_width msk \<longleftrightarrow> (\<forall>s \<in> set shapes. applies s \<longrightarrow> ft_is_identity (rvs_width s))) \<and>
    (pf_height msk \<longleftrightarrow> (\<forall>s \<in> set shapes. applies s \<longrightarrow> ft_is_identity (rvs_height s))) \<and>
    (pf_framerate msk \<longleftrightarrow> (\<forall>s \<in> set shapes. applies s \<longrightarrow> ft_is_identity (rvs_framerate s)))"
  using discover_video [OF assms] by (simp add: Let_def)

theorem discovery_exact_witness:
  "\<not> pf_width (discover_passthrough (derive demo_scaler) (demo_video (DimFixed 640))) \<and>
   pf_height (discover_passthrough (derive demo_scaler) (demo_video (DimFixed 640)))"
  using discovery_exact [of "[Nv12]" "[]" "[RVS_PASSTHROUGH, RVS_PASSTHROUGH\<lparr>rvs_width := FieldFixed (DimFixed 640)\<rparr>]"
      Nv12 "DimFixed 640" "DimFixed 480" "RateFixed 1966080" Progressive CL_UNKNOWN]
  by (simp add: demo_scaler_def demo_video_def Let_def gate_def RVS_PASSTHROUGH_def)

end
