(* ===== verification/Negotiate.thy ===== *)
theory Negotiate
  imports Passthrough
begin

text \<open>
  The parts of the caps solver (\<^verbatim>\<open>g2g-core/src/runtime/solver.rs\<close>) that its linear and its graph
  form share, and the linear solver: the structured failures, the forward image and the
  backward narrowing of derived transforms, the fixation candidates of a link, the
  least-cost assignment of a chain by dynamic programming, and \<^verbatim>\<open>solve_linear\<close>. Logging is left
  out; it does not influence the result.
\<close>

section \<open>Failures\<close>

record caps_conflict =
  conflict_upstream :: caps_set
  conflict_downstream :: caps_set

datatype negotiation_failure =
  EmptyLink nat nat "caps_conflict option"
| Degenerate
| EndpointShapeMismatch nat
| Unfixable nat nat
| Cyclic
| NoConsistentFixation
| NoOutputForInput nat nat caps_set
| TooManyBatchAlternatives nat

definition empty_link :: "nat \<Rightarrow> nat \<Rightarrow> negotiation_failure" where
  "empty_link upstream downstream = EmptyLink upstream downstream None"

definition empty_link_conflict :: "nat \<Rightarrow> nat \<Rightarrow> caps_set \<Rightarrow> caps_set \<Rightarrow> negotiation_failure" where
  "empty_link_conflict upstream downstream up_set down_set =
     EmptyLink upstream downstream
       (Some \<lparr>conflict_upstream = up_set, conflict_downstream = down_set\<rparr>)"

section \<open>Derived transforms\<close>

definition forward_derived_union :: "(caps \<Rightarrow> caps_set) \<Rightarrow> caps_set \<Rightarrow> caps_set" where
  "forward_derived_union f in_set = foldl (\<lambda>acc a. set_union acc (f a)) [] in_set"

text \<open>
  The backward walks answer \<open>Inr None\<close> when nothing changed, \<open>Inr (Some s)\<close> when the input set
  was narrowed to \<open>s\<close>, and \<open>Inl ()\<close> when nothing survives.
\<close>

definition backward_filter_derived ::
  "(caps \<Rightarrow> caps_set) \<Rightarrow> caps_set \<Rightarrow> caps_set \<Rightarrow> unit + caps_set option" where
  "backward_filter_derived f in_set out_set =
     (if length in_set \<le> 1 then Inr None
      else
        (let kept = filter (\<lambda>a. set_intersect (f a) out_set \<noteq> []) in_set in
         if kept = [] then Inl ()
         else if length kept = length in_set then Inr None
         else Inr (Some kept)))"

text \<open>The state of the field-narrowing loop: the alternatives kept and whether anything changed.\<close>

definition couple_output ::
  "passthrough_fields \<Rightarrow> caps \<Rightarrow> caps list \<times> bool \<times> bool \<Rightarrow> caps \<Rightarrow> caps list \<times> bool \<times> bool" where
  "couple_output passthrough a st out_alt =
     (case st of (kept, changed, any) \<Rightarrow>
        (case couple_passthrough_derived a out_alt passthrough of
           Some c \<Rightarrow> (push_unique kept c, changed \<or> c \<noteq> a, True)
         | None \<Rightarrow> (kept, changed, any)))"

definition narrow_alternative ::
  "(caps \<Rightarrow> caps_set) \<Rightarrow> passthrough_fields \<Rightarrow> caps_set \<Rightarrow> caps list \<times> bool \<Rightarrow> caps \<Rightarrow> caps list \<times> bool" where
  "narrow_alternative derive_of passthrough out_set st a =
     (case st of (kept, changed) \<Rightarrow>
        (let reach = set_intersect (derive_of a) out_set in
         if reach = [] then (kept, True)
         else
           (case foldl (couple_output passthrough a) (kept, changed, False) reach of
              (kept', changed', any) \<Rightarrow> (kept', if any then changed' else True))))"

definition backward_field_narrow ::
  "(caps \<Rightarrow> caps_set) \<Rightarrow> passthrough_fields \<Rightarrow> caps_set \<Rightarrow> caps_set \<Rightarrow> unit + caps_set option" where
  "backward_field_narrow derive_of passthrough in_set out_set =
     (case foldl (narrow_alternative derive_of passthrough out_set) ([], False) in_set of
        (kept, changed) \<Rightarrow>
          if kept = [] then Inl ()
          else if \<not> changed then Inr None
          else Inr (Some kept))"

definition derived_backward :: "(caps \<Rightarrow> caps_set) \<Rightarrow> caps_set \<Rightarrow> caps_set \<Rightarrow> unit + caps_set option" where
  "derived_backward f in_set out_set =
     (let msk = (case in_set of [] \<Rightarrow> PF_NONE | sample # _ \<Rightarrow> discover_passthrough f sample) in
      if msk = PF_NONE then backward_filter_derived f in_set out_set
      else backward_field_narrow f msk in_set out_set)"

section \<open>Mapping pairs\<close>

definition intersect_slot :: "caps_set option \<Rightarrow> caps_set \<Rightarrow> caps_set" where
  "intersect_slot slot s = (case slot of Some cur \<Rightarrow> set_intersect cur s | None \<Rightarrow> s)"

fun mapping_pairs ::
  "(caps_set \<times> caps_set) list \<Rightarrow> caps_set option \<Rightarrow> caps_set option \<Rightarrow> caps_set \<times> caps_set \<Rightarrow> caps_set \<times> caps_set"
  where
  "mapping_pairs [] in_slot out_slot acc = acc"
| "mapping_pairs ((in_set, out_set) # pairs) in_slot out_slot (new_in, new_out) =
     (let in_match = intersect_slot in_slot in_set; out_match = intersect_slot out_slot out_set in
      mapping_pairs pairs in_slot out_slot
        (if in_match \<noteq> [] \<and> out_match \<noteq> []
         then (set_union new_in in_match, set_union new_out out_match)
         else (new_in, new_out)))"

section \<open>Fixation candidates\<close>

definition candidates_of :: "caps option \<Rightarrow> caps \<Rightarrow> caps list" where
  "candidates_of preferred alt =
     (case preferred of
        Some p \<Rightarrow> (case caps_fixate_toward alt p of Inr c \<Rightarrow> [c] | Inl _ \<Rightarrow> [])
      | None \<Rightarrow> []) @
     (case caps_fixate alt of Inr c \<Rightarrow> [c] | Inl _ \<Rightarrow> [])"

definition fixated_candidates :: "caps_set \<Rightarrow> caps option \<Rightarrow> caps list" where
  "fixated_candidates s preferred = foldl (\<lambda>out alt. extend_unique out (candidates_of preferred alt)) [] s"

definition producer_target :: "caps_set \<Rightarrow> caps option" where
  "producer_target s = (case s of [] \<Rightarrow> None | c # _ \<Rightarrow> if caps_is_fixed c then Some c else None)"

fun transform_target :: "caps_constraint \<Rightarrow> caps \<Rightarrow> caps option" where
  "transform_target (Identity _) input = Some input"
| "transform_target IdentityAny input = Some input"
| "transform_target (DerivedOutput f) input = set_fixate (f input)"
| "transform_target (DerivedFields t) input = set_fixate (derive t input)"
| "transform_target _ input = None"

fun transform_pair_consistent :: "caps_constraint \<Rightarrow> caps \<Rightarrow> caps \<Rightarrow> bool" where
  "transform_pair_consistent (Identity _) inp outp = (inp = outp)"
| "transform_pair_consistent IdentityAny inp outp = (inp = outp)"
| "transform_pair_consistent (Mapping pairs) inp outp =
     list_ex (\<lambda>(i, o'). set_accepts i inp \<and> set_accepts o' outp) pairs"
| "transform_pair_consistent (DerivedOutput f) inp outp = set_accepts (f inp) outp"
| "transform_pair_consistent (DerivedFields t) inp outp = set_accepts (derive t inp) outp"
| "transform_pair_consistent _ inp outp = True"

section \<open>Least-cost chains\<close>

definition preference_at :: "caps_preferences option list \<Rightarrow> nat \<Rightarrow> caps_preferences option" where
  "preference_at preferences index = (case get preferences index of Some p \<Rightarrow> p | None \<Rightarrow> None)"

record chain_node =
  cn_constraint :: caps_constraint
  cn_preferences :: "caps_preferences option"

definition chain_node_new :: "caps_constraint \<Rightarrow> caps_preferences option \<Rightarrow> chain_node" where
  "chain_node_new c preferences =
     \<lparr>cn_constraint = c,
      cn_preferences = (case preferences of Some p \<Rightarrow> if p \<noteq> [] then Some p else None | None \<Rightarrow> None)\<rparr>"

definition alternative_position :: "caps_set \<Rightarrow> caps \<Rightarrow> nat option" where
  "alternative_position s c = position (\<lambda>a. is_ok (caps_intersect a c)) s"

fun alternative_index :: "caps_constraint \<Rightarrow> caps option \<Rightarrow> caps option \<Rightarrow> nat option" where
  "alternative_index (Produces s) input output = Option.bind output (alternative_position s)"
| "alternative_index (Accepts s) input output = Option.bind input (alternative_position s)"
| "alternative_index (Identity s) input output =
     Option.bind (case input of Some c \<Rightarrow> Some c | None \<Rightarrow> output) (alternative_position s)"
| "alternative_index (Mapping pairs) input output =
     Option.bind input (\<lambda>i. Option.bind output (\<lambda>o'.
       position (\<lambda>(a, b). set_accepts a i \<and> set_accepts b o') pairs))"
| "alternative_index _ input output = None"

definition chain_cost :: "chain_node \<Rightarrow> caps option \<Rightarrow> caps option \<Rightarrow> u64" where
  "chain_cost nd input output =
     (case alternative_index (cn_constraint nd) input output of
        Some i \<Rightarrow>
          (case cn_preferences nd of
             Some p \<Rightarrow> ucast (preference_cost p i)
           | None \<Rightarrow> of_nat i)
      | None \<Rightarrow> 0)"

text \<open>The lexicographic comparison of two index sequences, and of cost and sequence.\<close>

fun path_less :: "nat list \<Rightarrow> nat list \<Rightarrow> bool" where
  "path_less xs [] = False"
| "path_less [] (y # ys) = True"
| "path_less (x # xs) (y # ys) = (x < y \<or> x = y \<and> path_less xs ys)"

definition is_better :: "(u64 \<times> nat list) option \<Rightarrow> u64 \<Rightarrow> nat list \<Rightarrow> bool" where
  "is_better current cost path =
     (case current of
        None \<Rightarrow> True
      | Some (c, p) \<Rightarrow> cost < c \<or> cost = c \<and> path_less path p)"

definition chain_start :: "chain_node \<Rightarrow> caps list \<Rightarrow> (u64 \<times> nat list) option list" where
  "chain_start first cands =
     map (\<lambda>(j, c). Some (chain_cost first None (Some c), [j])) (enumerate 0 cands)"

definition chain_try ::
  "chain_node \<Rightarrow> (u64 \<times> nat list) option list \<Rightarrow> nat \<Rightarrow> caps \<Rightarrow> (u64 \<times> nat list) option \<Rightarrow> nat \<times> caps \<Rightarrow>
     (u64 \<times> nat list) option" where
  "chain_try middle best b output current ai =
     (case ai of (a, input) \<Rightarrow>
        (case best ! a of
           None \<Rightarrow> current
         | Some (so_far, path) \<Rightarrow>
             if \<not> transform_pair_consistent (cn_constraint middle) input output then current
             else
               (let total = saturating_add so_far (chain_cost middle (Some input) (Some output));
                    candidate = path @ [b] in
                if is_better current total candidate then Some (total, candidate) else current)))"

definition chain_step ::
  "chain_node \<Rightarrow> caps list \<Rightarrow> caps list \<Rightarrow> (u64 \<times> nat list) option list \<Rightarrow> (u64 \<times> nat list) option list" where
  "chain_step middle prev_cands cands best =
     map (\<lambda>(b, output). foldl (chain_try middle best b output) None (enumerate 0 prev_cands))
       (enumerate 0 cands)"

fun chain_links ::
  "chain_node list \<Rightarrow> caps list \<Rightarrow> caps list list \<Rightarrow> (u64 \<times> nat list) option list \<Rightarrow>
     (u64 \<times> nat list) option list" where
  "chain_links (middle # nodes) prev_cands (cands # domains) best =
     chain_links nodes cands domains (chain_step middle prev_cands cands best)"
| "chain_links _ prev_cands _ best = best"

definition chain_finish ::
  "chain_node \<Rightarrow> (u64 \<times> nat list) option list \<Rightarrow> (u64 \<times> nat list) option \<Rightarrow> nat \<times> caps \<Rightarrow>
     (u64 \<times> nat list) option" where
  "chain_finish sink_node best winner jc =
     (case jc of (j, c) \<Rightarrow>
        (case best ! j of
           None \<Rightarrow> winner
         | Some (so_far, path) \<Rightarrow>
             (let total = saturating_add so_far (chain_cost sink_node (Some c) None) in
              if is_better winner total path then Some (total, path) else winner)))"

definition min_cost_chain :: "chain_node list \<Rightarrow> caps list list \<Rightarrow> nat list option" where
  "min_cost_chain nodes domains =
     (if domains = [] \<or> length nodes \<noteq> length domains + 1 then None
      else if \<not> list_ex (\<lambda>nd. cn_preferences nd \<noteq> None) nodes then None
      else
        (let best = chain_links (tl nodes) (hd domains) (tl domains)
                      (chain_start (hd nodes) (hd domains)) in
         map_option snd
           (foldl (chain_finish (last nodes) best) None (enumerate 0 (last domains)))))"

section \<open>The linear solver\<close>

type_synonym link_slots = "caps_set option list"

definition narrow ::
  "link_slots \<Rightarrow> nat \<Rightarrow> caps_set \<Rightarrow> nat \<Rightarrow> nat \<Rightarrow> negotiation_failure + link_slots" where
  "narrow links idx contrib upstream downstream =
     (let next = intersect_slot (links ! idx) contrib in
      if next = [] then Inl (empty_link upstream downstream) else Inr (links[idx := Some next]))"

text \<open>The arms of \<^verbatim>\<open>apply_constraint\<close> that relate an input and an output link.\<close>

definition couple_links :: "nat \<Rightarrow> nat \<Rightarrow> nat \<Rightarrow> link_slots \<Rightarrow> negotiation_failure + link_slots" where
  "couple_links i ii oi links =
     (case (links ! ii, links ! oi) of
        (Some a, Some b) \<Rightarrow>
          (let coupled = set_intersect a b in
           if coupled = [] then Inl (empty_link (i - 1) (i + 1))
           else Inr (links[ii := Some coupled, oi := Some coupled]))
      | _ \<Rightarrow> Inr links)"

definition couple_links_any :: "nat \<Rightarrow> nat \<Rightarrow> nat \<Rightarrow> link_slots \<Rightarrow> negotiation_failure + link_slots" where
  "couple_links_any i ii oi links =
     (case (links ! ii, links ! oi) of
        (Some a, Some b) \<Rightarrow>
          (let coupled = set_intersect a b in
           if coupled = [] then Inl (empty_link (i - 1) (i + 1))
           else Inr (links[ii := Some coupled, oi := Some coupled]))
      | (Some a, None) \<Rightarrow> Inr (links[oi := Some a])
      | (None, Some b) \<Rightarrow> Inr (links[ii := Some b])
      | (None, None) \<Rightarrow> Inr links)"

definition apply_mapping ::
  "(caps_set \<times> caps_set) list \<Rightarrow> nat \<Rightarrow> nat \<Rightarrow> nat \<Rightarrow> link_slots \<Rightarrow> negotiation_failure + link_slots" where
  "apply_mapping pairs i ii oi links =
     (case mapping_pairs pairs (links ! ii) (links ! oi) ([], []) of
        (new_in, new_out) \<Rightarrow>
          if new_in = [] \<or> new_out = [] then Inl (empty_link (i - 1) (i + 1))
          else Inr (links[ii := Some new_in, oi := Some new_out]))"

definition apply_derived ::
  "(caps \<Rightarrow> caps_set) \<Rightarrow> (caps_set \<Rightarrow> caps_set \<Rightarrow> unit + caps_set option) \<Rightarrow> nat \<Rightarrow> nat \<Rightarrow> nat \<Rightarrow>
     link_slots \<Rightarrow> negotiation_failure + link_slots" where
  "apply_derived f backward i ii oi links =
     bind_res
       (case links ! ii of
          Some input_set \<Rightarrow>
            (let derived = forward_derived_union f input_set in
             if derived = [] then Inl (empty_link i (i + 1)) else narrow links oi derived i (i + 1))
        | None \<Rightarrow> Inr links)
       (\<lambda>links.
          case (links ! ii, links ! oi) of
            (Some in_set, Some out_set) \<Rightarrow>
              (case backward in_set out_set of
                 Inr (Some narrowed) \<Rightarrow> Inr (links[ii := Some narrowed])
               | Inr None \<Rightarrow> Inr links
               | Inl _ \<Rightarrow> Inl (empty_link (i - 1) i))
          | _ \<Rightarrow> Inr links)"

text \<open>
  \<open>in_idx\<close> and \<open>out_idx\<close> are \<^verbatim>\<open>None\<close> at the ends of the chain; \<open>i\<close> is positive where \<open>in_idx\<close> is given.
\<close>

definition apply_constraint ::
  "nat \<Rightarrow> caps_constraint \<Rightarrow> nat \<Rightarrow> link_slots \<Rightarrow> negotiation_failure + link_slots" where
  "apply_constraint i c n_links links =
     (let in_idx = (if i = 0 then None else Some (i - 1));
          out_idx = (if i = n_links then None else Some i) in
      case c of
        Produces s \<Rightarrow> (case out_idx of Some idx \<Rightarrow> narrow links idx s i (i + 1) | None \<Rightarrow> Inr links)
      | Accepts s \<Rightarrow> (case in_idx of Some idx \<Rightarrow> narrow links idx s (i - 1) i | None \<Rightarrow> Inr links)
      | Identity s \<Rightarrow>
          bind_res (case in_idx of Some idx \<Rightarrow> narrow links idx s (i - 1) i | None \<Rightarrow> Inr links) (\<lambda>links.
          bind_res (case out_idx of Some idx \<Rightarrow> narrow links idx s i (i + 1) | None \<Rightarrow> Inr links) (\<lambda>links.
            case (in_idx, out_idx) of
              (Some ii, Some oi) \<Rightarrow> couple_links i ii oi links
            | _ \<Rightarrow> Inr links))
      | Mapping pairs \<Rightarrow>
          (case (in_idx, out_idx) of
             (Some ii, Some oi) \<Rightarrow> apply_mapping pairs i ii oi links
           | _ \<Rightarrow> Inl (EndpointShapeMismatch i))
      | DerivedOutput f \<Rightarrow>
          (case (in_idx, out_idx) of
             (Some ii, Some oi) \<Rightarrow> apply_derived f (derived_backward f) i ii oi links
           | _ \<Rightarrow> Inl (EndpointShapeMismatch i))
      | DerivedFields t \<Rightarrow>
          (case (in_idx, out_idx) of
             (Some ii, Some oi) \<Rightarrow>
               apply_derived (derive t) (backward_field_narrow (derive t) (transform_passthrough t))
                 i ii oi links
           | _ \<Rightarrow> Inl (EndpointShapeMismatch i))
      | AcceptsAny \<Rightarrow> Inr links
      | IdentityAny \<Rightarrow>
          (case (in_idx, out_idx) of
             (Some ii, Some oi) \<Rightarrow> couple_links_any i ii oi links
           | _ \<Rightarrow> Inr links))"

definition linear_sweep ::
  "(nat \<times> caps_constraint) list \<Rightarrow> nat \<Rightarrow> link_slots \<Rightarrow> negotiation_failure + link_slots" where
  "linear_sweep ics n_links links = fold_res (\<lambda>(i, c). apply_constraint i c n_links) ics links"

text \<open>\<open>fuel\<close> is the bound of the source's own \<^verbatim>\<open>for _ in 0..max_iters\<close>.\<close>

fun linear_fixpoint ::
  "nat \<Rightarrow> caps_constraint list \<Rightarrow> nat \<Rightarrow> link_slots \<Rightarrow> negotiation_failure + link_slots" where
  "linear_fixpoint 0 constraints n_links links = Inr links"
| "linear_fixpoint (Suc fuel) constraints n_links links =
     (case linear_sweep (enumerate 0 constraints) n_links links of
        Inl e \<Rightarrow> Inl e
      | Inr forward \<Rightarrow>
          (case linear_sweep (rev (enumerate 0 constraints)) n_links forward of
             Inl e \<Rightarrow> Inl e
           | Inr swept \<Rightarrow>
               if swept = links then Inr swept
               else linear_fixpoint fuel constraints n_links swept))"

fun linear_domains ::
  "caps_constraint list \<Rightarrow> nat \<Rightarrow> link_slots \<Rightarrow> caps option \<Rightarrow> negotiation_failure + caps list list" where
  "linear_domains constraints li [] target = Inr []"
| "linear_domains constraints li (slot # slots) target =
     (case slot of
        None \<Rightarrow> Inl (empty_link li (li + 1))
      | Some s \<Rightarrow>
          if s = [] then Inl (empty_link li (li + 1))
          else
            (let candidates = fixated_candidates s target in
             if candidates = [] then Inl (Unfixable li (li + 1))
             else
               (let target' = (case target of
                                 None \<Rightarrow> None
                               | Some _ \<Rightarrow> transform_target (constraints ! (li + 1)) (hd candidates)) in
                bind_res (linear_domains constraints (Suc li) slots target') (\<lambda>ds.
                  Inr (candidates # ds)))))"

text \<open>The part of \<^verbatim>\<open>solve_linear_preferred\<close> after the endpoints are seeded.\<close>

definition solve_linear_rest ::
  "caps_constraint list \<Rightarrow> caps_preferences option list \<Rightarrow> caps_set \<Rightarrow> nat \<Rightarrow> link_slots \<Rightarrow>
     negotiation_failure + caps list" where
  "solve_linear_rest constraints preferences source_set n_links seeded =
     bind_res (linear_fixpoint (8 * n_links + 4) constraints n_links seeded) (\<lambda>links.
     bind_res (linear_domains constraints 0 links (producer_target source_set)) (\<lambda>domains.
       (let chain = map (\<lambda>(i, c). chain_node_new c (preference_at preferences i)) (enumerate 0 constraints) in
        case min_cost_chain chain domains of
          Some pick \<Rightarrow> Inr (map2 (\<lambda>j d. d ! j) pick domains)
        | None \<Rightarrow> Inr (map hd domains))))"

definition solve_linear_preferred ::
  "caps_constraint list \<Rightarrow> caps_preferences option list \<Rightarrow> negotiation_failure + caps list" where
  "solve_linear_preferred constraints preferences =
     (if length constraints < 2 then Inl Degenerate
      else
        (let n = length constraints; n_links = n - 1 in
         case constraints ! 0 of
           Produces source_set \<Rightarrow>
             (case constraints ! (n - 1) of
                Accepts s \<Rightarrow>
                  (let seeded = (replicate n_links None)[0 := Some source_set];
                       li = n_links - 1 in
                   solve_linear_rest constraints preferences source_set n_links
                     (seeded[li := Some (intersect_slot (seeded ! li) s)]))
              | AcceptsAny \<Rightarrow>
                  solve_linear_rest constraints preferences source_set n_links
                    ((replicate n_links None)[0 := Some source_set])
              | _ \<Rightarrow> Inl (EndpointShapeMismatch (n - 1)))
         | _ \<Rightarrow> Inl (EndpointShapeMismatch 0)))"

definition solve_linear :: "caps_constraint list \<Rightarrow> negotiation_failure + caps list" where
  "solve_linear constraints = solve_linear_preferred constraints []"

end
