(* ===== verification/ChainCost.thy ===== *)
theory ChainCost
  imports Negotiate
begin

text \<open>
  The least-cost fixation of a linear chain. A path picks one candidate index per link; it is
  consistent when every inner element's relation holds between the candidates around it. The
  dynamic program \<^verbatim>\<open>min_cost_chain\<close> returns the consistent path of least total cost, and among
  equally cheap ones the lexicographically first.
\<close>

section \<open>Paths and their costs\<close>

fun chain_consistent :: "chain_node list \<Rightarrow> caps \<Rightarrow> caps list list \<Rightarrow> nat list \<Rightarrow> bool" where
  "chain_consistent [sink_node] prev [] [] = True"
| "chain_consistent (m # ns) prev (d # ds) (j # js) =
     (j < length d \<and> transform_pair_consistent (cn_constraint m) prev (d ! j) \<and>
      chain_consistent ns (d ! j) ds js)"
| "chain_consistent _ prev _ _ = False"

fun chain_cost_from :: "chain_node list \<Rightarrow> caps \<Rightarrow> caps list list \<Rightarrow> nat list \<Rightarrow> nat" where
  "chain_cost_from (m # ns) prev (d # ds) (j # js) =
     unat (chain_cost m (Some prev) (Some (d ! j))) + chain_cost_from ns (d ! j) ds js"
| "chain_cost_from (sink_node # _) prev _ _ = unat (chain_cost sink_node (Some prev) None)"
| "chain_cost_from [] prev _ _ = 0"

text \<open>The whole chain: the source, then the rest.\<close>

definition path_ok :: "chain_node list \<Rightarrow> caps list list \<Rightarrow> nat list \<Rightarrow> bool" where
  "path_ok nodes domains path \<longleftrightarrow>
     (case (nodes, domains, path) of
        (source # ns, d # ds, j # js) \<Rightarrow> j < length d \<and> chain_consistent ns (d ! j) ds js
      | _ \<Rightarrow> False)"

definition path_cost :: "chain_node list \<Rightarrow> caps list list \<Rightarrow> nat list \<Rightarrow> nat" where
  "path_cost nodes domains path =
     (case (nodes, domains, path) of
        (source # ns, d # ds, j # js) \<Rightarrow>
          unat (chain_cost source None (Some (d ! j))) + chain_cost_from ns (d ! j) ds js
      | _ \<Rightarrow> 0)"

definition cost_le :: "nat \<times> nat list \<Rightarrow> nat \<times> nat list \<Rightarrow> bool" where
  "cost_le x y \<longleftrightarrow> fst x < fst y \<or> fst x = fst y \<and> (snd x = snd y \<or> path_less (snd x) (snd y))"

section \<open>The order on paths\<close>

lemma path_less_irrefl: "\<not> path_less p p"
  by (induction p) auto

lemma path_less_trans: "path_less p q \<Longrightarrow> path_less q r \<Longrightarrow> path_less p r"
proof (induction p q arbitrary: r rule: path_less.induct)
  case (2 y ys)
  then show ?case by (cases r) auto
next
  case (3 x xs y ys)
  then show ?case by (cases r) auto
qed auto

lemma path_less_total: "p = q \<or> path_less p q \<or> path_less q p"
proof (induction p q rule: path_less.induct)
  case (1 xs)
  then show ?case by (cases xs) auto
qed auto

lemma path_less_append: "length p = length q \<Longrightarrow> path_less p q \<Longrightarrow> path_less (p @ r) (q @ s)"
  by (induction p q rule: path_less.induct) auto

lemma path_less_append_same: "path_less (p @ r) (p @ s) = path_less r s"
  by (induction p) auto

lemma cost_le_refl: "cost_le x x"
  by (simp add: cost_le_def)

lemma cost_le_trans: "cost_le x y \<Longrightarrow> cost_le y z \<Longrightarrow> cost_le x z"
  by (auto simp: cost_le_def intro: path_less_trans)

lemma cost_le_total: "cost_le x y \<or> cost_le y x"
  using path_less_total [of "snd x" "snd y"] by (auto simp: cost_le_def)

lemma cost_le_extend:
  assumes "cost_le (c, p) (c', p')" "length p = length p'"
  shows "cost_le (c + k, p @ r) (c' + k, p' @ r)"
  using assms path_less_append by (auto simp: cost_le_def)

section \<open>Keeping the best\<close>

definition keep_best :: "(u64 \<times> nat list) option \<Rightarrow> (u64 \<times> nat list) option \<Rightarrow> (u64 \<times> nat list) option" where
  "keep_best cur cand =
     (case cand of
        None \<Rightarrow> cur
      | Some (t, p) \<Rightarrow> if is_better cur t p then Some (t, p) else cur)"

definition nat_cost :: "u64 \<times> nat list \<Rightarrow> nat \<times> nat list" where
  "nat_cost x = (unat (fst x), snd x)"

lemma is_better_iff: "is_better (Some y) t p \<longleftrightarrow> \<not> cost_le (nat_cost y) (nat_cost (t, p))"
proof -
  have "\<not> (snd y = p \<or> path_less (snd y) p) \<longleftrightarrow> path_less p (snd y)"
    using path_less_total [of "snd y" p] path_less_irrefl path_less_trans by blast
  then show ?thesis
    by (cases y) (auto simp: is_better_def cost_le_def nat_cost_def word_less_nat_alt word_unat_eq_iff)
qed

lemma keep_best_None: "keep_best cur cand = None \<longleftrightarrow> cur = None \<and> cand = None"
  by (auto simp: keep_best_def is_better_def split: option.splits if_splits)

lemma keep_best_cases: "keep_best cur cand = cur \<or> keep_best cur cand = cand"
  by (auto simp: keep_best_def split: option.splits)

lemma keep_best_le:
  assumes "keep_best cur cand = Some y" "cur = Some z \<or> cand = Some z"
  shows "cost_le (nat_cost y) (nat_cost z)"
proof (cases cand)
  case None
  then show ?thesis using assms by (simp add: keep_best_def cost_le_refl)
next
  case (Some tp)
  obtain t p where tp: "tp = (t, p)" by (cases tp)
  show ?thesis
  proof (cases cur)
    case None
    then show ?thesis using assms Some tp by (simp add: keep_best_def is_better_def cost_le_refl)
  next
    case (Some w)
    show ?thesis
    proof (cases "is_better (Some w) t p")
      case True
      then have "y = (t, p)" using assms(1) Some \<open>cand = Some tp\<close> tp by (simp add: keep_best_def)
      moreover have "cost_le (nat_cost (t, p)) (nat_cost w)"
        using True cost_le_total unfolding is_better_iff by blast
      ultimately show ?thesis using assms(2) Some \<open>cand = Some tp\<close> tp cost_le_refl by (elim disjE) simp_all
    next
      case False
      then have "y = w" using assms(1) Some \<open>cand = Some tp\<close> tp by (simp add: keep_best_def)
      moreover have "cost_le (nat_cost w) (nat_cost (t, p))" using False unfolding is_better_iff by blast
      ultimately show ?thesis using assms(2) Some \<open>cand = Some tp\<close> tp cost_le_refl by (elim disjE) simp_all
    qed
  qed
qed

lemma foldl_best_None:
  "foldl (\<lambda>cur x. keep_best cur (f x)) cur xs = None \<longleftrightarrow> cur = None \<and> (\<forall>x \<in> set xs. f x = None)"
  by (induction xs arbitrary: cur) (auto simp: keep_best_None)

lemma foldl_best_in:
  "foldl (\<lambda>cur x. keep_best cur (f x)) cur xs = Some y \<Longrightarrow> cur = Some y \<or> (\<exists>x \<in> set xs. f x = Some y)"
proof (induction xs arbitrary: cur)
  case (Cons x xs)
  have "keep_best cur (f x) = Some y \<or> (\<exists>x \<in> set xs. f x = Some y)"
    by (rule Cons.IH) (use Cons.prems in simp)
  then show ?case using keep_best_cases [of cur "f x"] by fastforce
qed simp

lemma foldl_best_le:
  "foldl (\<lambda>cur x. keep_best cur (f x)) cur xs = Some y \<Longrightarrow> cur = Some z \<or> (\<exists>x \<in> set xs. f x = Some z) \<Longrightarrow>
     cost_le (nat_cost y) (nat_cost z)"
proof (induction xs arbitrary: cur z)
  case Nil
  then show ?case by (simp add: cost_le_refl)
next
  case (Cons x xs)
  note IH = Cons.IH [of "keep_best cur (f x)"]
  have fold: "foldl (\<lambda>cur x. keep_best cur (f x)) (keep_best cur (f x)) xs = Some y"
    using Cons.prems(1) by simp
  show ?case
  proof (cases "\<exists>x \<in> set xs. f x = Some z")
    case True
    then show ?thesis using IH [OF fold] by blast
  next
    case False
    then have cz: "cur = Some z \<or> f x = Some z" using Cons.prems(2) by auto
    then obtain k where k: "keep_best cur (f x) = Some k" using keep_best_None [of cur "f x"] by fastforce
    have "cost_le (nat_cost y) (nat_cost k)" using IH [OF fold] k by blast
    then show ?thesis using keep_best_le [OF k cz] cost_le_trans by blast
  qed
qed

section \<open>The dynamic program\<close>

definition try_value ::
  "chain_node \<Rightarrow> (u64 \<times> nat list) option list \<Rightarrow> nat \<Rightarrow> caps \<Rightarrow> nat \<times> caps \<Rightarrow> (u64 \<times> nat list) option" where
  "try_value middle best b output ai =
     (case best ! fst ai of
        None \<Rightarrow> None
      | Some (so_far, path) \<Rightarrow>
          if transform_pair_consistent (cn_constraint middle) (snd ai) output
          then Some (saturating_add so_far (chain_cost middle (Some (snd ai)) (Some output)), path @ [b])
          else None)"

lemma chain_try_eq: "chain_try middle best b output = (\<lambda>cur ai. keep_best cur (try_value middle best b output ai))"
  by (auto simp: fun_eq_iff chain_try_def keep_best_def try_value_def Let_def split: option.splits)

definition finish_value ::
  "chain_node \<Rightarrow> (u64 \<times> nat list) option list \<Rightarrow> nat \<times> caps \<Rightarrow> (u64 \<times> nat list) option" where
  "finish_value sink_node best jc =
     (case best ! fst jc of
        None \<Rightarrow> None
      | Some (so_far, path) \<Rightarrow> Some (saturating_add so_far (chain_cost sink_node (Some (snd jc)) None), path))"

lemma chain_finish_eq: "chain_finish sink_node best = (\<lambda>cur jc. keep_best cur (finish_value sink_node best jc))"
  by (auto simp: fun_eq_iff chain_finish_def keep_best_def finish_value_def Let_def split: option.splits)

lemma set_enumerate_0: "set (enumerate 0 xs) = {(i, xs ! i) |i. i < length xs}"
  by (auto simp: in_set_enumerate_eq)

lemma chain_step_nth:
  assumes "b < length cands"
  shows "chain_step middle prev_cands cands best ! b =
    foldl (\<lambda>cur ai. keep_best cur (try_value middle best b (cands ! b) ai)) None (enumerate 0 prev_cands)"
  using assms by (simp add: chain_step_def chain_try_eq nth_enumerate_eq)

lemma length_chain_step: "length (chain_step middle prev_cands cands best) = length cands"
  by (simp add: chain_step_def)

lemma unat_saturating_add_exact:
  "unat a + unat b < 2 ^ 64 \<Longrightarrow> unat (saturating_add (a :: u64) b) = unat a + unat b"
  by (simp add: unat_saturating_add)

lemma unat_saturating_add_le: "unat (saturating_add (a :: u64) b) \<le> unat a + unat b"
  by (simp add: unat_saturating_add)

text \<open>
  One link: the entry of a candidate is the best over the entries before it, and where a
  continuation exists no sum saturates.
\<close>

lemma chain_step_spec:
  assumes b: "b < length cands"
  shows "chain_step middle prev_cands cands best ! b = None \<longleftrightarrow>
      (\<forall>a < length prev_cands. best ! a = None \<or>
        \<not> transform_pair_consistent (cn_constraint middle) (prev_cands ! a) (cands ! b))"
    and "chain_step middle prev_cands cands best ! b = Some (c, p) \<Longrightarrow>
      \<exists>a c0 p0. a < length prev_cands \<and> best ! a = Some (c0, p0) \<and>
        transform_pair_consistent (cn_constraint middle) (prev_cands ! a) (cands ! b) \<and>
        c = saturating_add c0 (chain_cost middle (Some (prev_cands ! a)) (Some (cands ! b))) \<and> p = p0 @ [b]"
    and "chain_step middle prev_cands cands best ! b = Some (c, p) \<Longrightarrow> a < length prev_cands \<Longrightarrow>
      best ! a = Some (c1, p1) \<Longrightarrow>
      transform_pair_consistent (cn_constraint middle) (prev_cands ! a) (cands ! b) \<Longrightarrow>
      cost_le (unat c, p)
        (unat (saturating_add c1 (chain_cost middle (Some (prev_cands ! a)) (Some (cands ! b)))), p1 @ [b])"
proof -
  define f where "f = try_value middle best b (cands ! b)"
  have fold: "chain_step middle prev_cands cands best ! b =
      foldl (\<lambda>cur ai. keep_best cur (f ai)) None (enumerate 0 prev_cands)"
    by (simp add: f_def chain_step_nth [OF b])
  have f: "f (a, prev_cands ! a) =
      (case best ! a of
         None \<Rightarrow> None
       | Some (c0, p0) \<Rightarrow>
           if transform_pair_consistent (cn_constraint middle) (prev_cands ! a) (cands ! b)
           then Some (saturating_add c0 (chain_cost middle (Some (prev_cands ! a)) (Some (cands ! b))), p0 @ [b])
           else None)" for a
    by (simp add: f_def try_value_def split: option.split)
  have "chain_step middle prev_cands cands best ! b = None \<longleftrightarrow> (\<forall>a < length prev_cands. f (a, prev_cands ! a) = None)"
    unfolding fold foldl_best_None by (auto simp: set_enumerate_0)
  then show "chain_step middle prev_cands cands best ! b = None \<longleftrightarrow>
      (\<forall>a < length prev_cands. best ! a = None \<or>
        \<not> transform_pair_consistent (cn_constraint middle) (prev_cands ! a) (cands ! b))"
  proof -
    have "f (a, prev_cands ! a) = None \<longleftrightarrow> best ! a = None \<or>
        \<not> transform_pair_consistent (cn_constraint middle) (prev_cands ! a) (cands ! b)" for a
      by (cases "best ! a") (auto simp: f)
    with \<open>chain_step middle prev_cands cands best ! b = None \<longleftrightarrow>
        (\<forall>a < length prev_cands. f (a, prev_cands ! a) = None)\<close> show ?thesis by simp
  qed
  show "\<exists>a c0 p0. a < length prev_cands \<and> best ! a = Some (c0, p0) \<and>
        transform_pair_consistent (cn_constraint middle) (prev_cands ! a) (cands ! b) \<and>
        c = saturating_add c0 (chain_cost middle (Some (prev_cands ! a)) (Some (cands ! b))) \<and> p = p0 @ [b]"
    if s: "chain_step middle prev_cands cands best ! b = Some (c, p)"
  proof -
    obtain a where a: "a < length prev_cands" "f (a, prev_cands ! a) = Some (c, p)"
      using foldl_best_in [OF s [unfolded fold]] by (auto simp: set_enumerate_0)
    then obtain c0 p0 where "best ! a = Some (c0, p0)" by (cases "best ! a") (auto simp: f)
    then show ?thesis using a by (auto simp: f split: if_splits)
  qed
  show "cost_le (unat c, p)
        (unat (saturating_add c1 (chain_cost middle (Some (prev_cands ! a)) (Some (cands ! b)))), p1 @ [b])"
    if "chain_step middle prev_cands cands best ! b = Some (c, p)" "a < length prev_cands"
      "best ! a = Some (c1, p1)" "transform_pair_consistent (cn_constraint middle) (prev_cands ! a) (cands ! b)"
  proof -
    have "(a, prev_cands ! a) \<in> set (enumerate 0 prev_cands)" using that(2) by (auto simp: set_enumerate_0)
    moreover have "f (a, prev_cands ! a) =
        Some (saturating_add c1 (chain_cost middle (Some (prev_cands ! a)) (Some (cands ! b))), p1 @ [b])"
      using that(3,4) by (simp add: f)
    ultimately show ?thesis
      using foldl_best_le [OF that(1) [unfolded fold]] by (fastforce simp: nat_cost_def)
  qed
qed

text \<open>The winner among the prefixes \<open>best\<close>, each with every continuation to the sink.\<close>

definition winner ::
  "chain_node list \<Rightarrow> caps list \<Rightarrow> caps list list \<Rightarrow> (u64 \<times> nat list) option list \<Rightarrow> (u64 \<times> nat list) option" where
  "winner ns prev_cands ds best =
     foldl (chain_finish (last ns) (chain_links ns prev_cands ds best)) None
       (enumerate 0 (last (prev_cands # ds)))"

definition no_saturation ::
  "chain_node list \<Rightarrow> caps list \<Rightarrow> caps list list \<Rightarrow> (u64 \<times> nat list) option list \<Rightarrow> bool" where
  "no_saturation ns prev_cands ds best \<longleftrightarrow>
     (\<forall>a c p js. a < length prev_cands \<longrightarrow> best ! a = Some (c, p) \<longrightarrow>
        chain_consistent ns (prev_cands ! a) ds js \<longrightarrow>
        unat c + chain_cost_from ns (prev_cands ! a) ds js < 2 ^ 64)"

lemma finish_value_simps:
  "finish_value sink_node best (j, c) =
     (case best ! j of
        None \<Rightarrow> None
      | Some (c0, p0) \<Rightarrow> Some (saturating_add c0 (chain_cost sink_node (Some c) None), p0))"
  by (simp add: finish_value_def split: option.split)

definition completion ::
  "chain_node list \<Rightarrow> caps list \<Rightarrow> caps list list \<Rightarrow> (u64 \<times> nat list) option list \<Rightarrow> nat \<Rightarrow> nat list \<Rightarrow>
     nat \<times> nat list \<Rightarrow> bool" where
  "completion ns prev_cands ds best a js x \<longleftrightarrow>
     a < length prev_cands \<and> chain_consistent ns (prev_cands ! a) ds js \<and>
     (\<exists>c p. best ! a = Some (c, p) \<and> x = (unat c + chain_cost_from ns (prev_cands ! a) ds js, p @ js))"

definition is_optimal :: "(nat \<times> nat list \<Rightarrow> bool) \<Rightarrow> (u64 \<times> nat list) option \<Rightarrow> bool" where
  "is_optimal P w \<longleftrightarrow>
     (case w of
        None \<Rightarrow> \<not> (\<exists>x. P x)
      | Some y \<Rightarrow> P (nat_cost y) \<and> (\<forall>x. P x \<longrightarrow> cost_le (nat_cost y) x))"

lemma winner_Nil:
  assumes "no_saturation [sink_node] prev_cands [] best"
  shows "is_optimal (\<lambda>x. \<exists>a js. completion [sink_node] prev_cands [] best a js x) (winner [sink_node] prev_cands [] best)"
proof -
  define f where "f = finish_value sink_node best"
  have w: "winner [sink_node] prev_cands [] best = foldl (\<lambda>cur x. keep_best cur (f x)) None (enumerate 0 prev_cands)"
    by (simp add: winner_def chain_finish_eq f_def)
  have comp: "(\<exists>a js. completion [sink_node] prev_cands [] best a js x) \<longleftrightarrow>
      (\<exists>a < length prev_cands. \<exists>y. f (a, prev_cands ! a) = Some y \<and> x = nat_cost y)" for x
  proof -
    have cc: "chain_consistent [sink_node] q [] js \<longleftrightarrow> js = []" for q js by (cases js) auto
    have sat: "unat (saturating_add c (chain_cost sink_node (Some (prev_cands ! a)) None)) =
        unat c + unat (chain_cost sink_node (Some (prev_cands ! a)) None)"
      if "a < length prev_cands" "best ! a = Some (c, p)" for a c p
      using assms that by (intro unat_saturating_add_exact) (auto simp: no_saturation_def cc)
    have f: "f (a, prev_cands ! a) = Some y \<longleftrightarrow> (\<exists>c p. best ! a = Some (c, p) \<and>
        y = (saturating_add c (chain_cost sink_node (Some (prev_cands ! a)) None), p))" for a y
      unfolding f_def finish_value_simps by (cases "best ! a") auto
    have "(\<exists>a js. completion [sink_node] prev_cands [] best a js x) \<longleftrightarrow>
        (\<exists>a < length prev_cands. \<exists>c p. best ! a = Some (c, p) \<and>
          x = (unat c + unat (chain_cost sink_node (Some (prev_cands ! a)) None), p))"
      unfolding completion_def cc by auto
    also have "\<dots> \<longleftrightarrow> (\<exists>a < length prev_cands. \<exists>y. f (a, prev_cands ! a) = Some y \<and> x = nat_cost y)"
      unfolding f nat_cost_def using sat by fastforce
    finally show ?thesis .
  qed
  show ?thesis
  proof (cases "winner [sink_node] prev_cands [] best")
    case None
    then have "\<forall>a < length prev_cands. f (a, prev_cands ! a) = None"
      unfolding w foldl_best_None by (auto simp: set_enumerate_0)
    then show ?thesis unfolding None is_optimal_def option.case comp by auto
  next
    case (Some y)
    have "\<exists>a < length prev_cands. f (a, prev_cands ! a) = Some y"
      using foldl_best_in [OF Some [unfolded w]] by (auto simp: set_enumerate_0)
    moreover have "cost_le (nat_cost y) (nat_cost z)" if "a < length prev_cands" "f (a, prev_cands ! a) = Some z" for a z
      using foldl_best_le [OF Some [unfolded w], of z] that by (fastforce simp: set_enumerate_0)
    ultimately show ?thesis unfolding Some is_optimal_def option.case comp by blast
  qed
qed

lemma winner_Cons:
  "winner (m # ns) prev_cands (d # ds) best = winner ns d ds (chain_step m prev_cands d best)"
  if "length ns = Suc (length ds)"
  using that by (cases ns) (auto simp: winner_def)

text \<open>
  A step replaces the prefixes ending in one link by the best prefixes ending in the next.
  No completion is lost: each is matched by one that is at most as expensive.
\<close>

lemma completion_step:
  assumes sat: "no_saturation (m # ns) prev_cands (d # ds) best"
    and len: "\<forall>a c p. a < length prev_cands \<longrightarrow> best ! a = Some (c, p) \<longrightarrow> length p = L"
  shows "completion ns d ds (chain_step m prev_cands d best) b js x \<Longrightarrow>
      \<exists>a. completion (m # ns) prev_cands (d # ds) best a (b # js) x"
    and "completion (m # ns) prev_cands (d # ds) best a js' x \<Longrightarrow>
      \<exists>b js y. completion ns d ds (chain_step m prev_cands d best) b js y \<and> cost_le y x"
proof -
  show "\<exists>a. completion (m # ns) prev_cands (d # ds) best a (b # js) x"
    if comp: "completion ns d ds (chain_step m prev_cands d best) b js x"
  proof -
    obtain c p where b: "b < length d" "chain_consistent ns (d ! b) ds js"
      "chain_step m prev_cands d best ! b = Some (c, p)" "x = (unat c + chain_cost_from ns (d ! b) ds js, p @ js)"
      using comp by (auto simp: completion_def)
    obtain a c0 p0 where a: "a < length prev_cands" "best ! a = Some (c0, p0)"
      "transform_pair_consistent (cn_constraint m) (prev_cands ! a) (d ! b)"
      "c = saturating_add c0 (chain_cost m (Some (prev_cands ! a)) (Some (d ! b)))" "p = p0 @ [b]"
      using chain_step_spec(2) [OF b(1,3)] by blast
    have cons: "chain_consistent (m # ns) (prev_cands ! a) (d # ds) (b # js)" using a b by simp
    have "unat c0 + chain_cost_from (m # ns) (prev_cands ! a) (d # ds) (b # js) < 2 ^ 64"
      using sat a(1,2) cons unfolding no_saturation_def by blast
    then have "unat c = unat c0 + unat (chain_cost m (Some (prev_cands ! a)) (Some (d ! b)))"
      unfolding a(4) by (intro unat_saturating_add_exact) simp
    then have "completion (m # ns) prev_cands (d # ds) best a (b # js) x"
      unfolding completion_def using a b cons by simp
    then show ?thesis ..
  qed
  show "\<exists>b js y. completion ns d ds (chain_step m prev_cands d best) b js y \<and> cost_le y x"
    if comp: "completion (m # ns) prev_cands (d # ds) best a js' x"
  proof -
    obtain c0 p0 where a: "a < length prev_cands" "best ! a = Some (c0, p0)"
      "chain_consistent (m # ns) (prev_cands ! a) (d # ds) js'"
      "x = (unat c0 + chain_cost_from (m # ns) (prev_cands ! a) (d # ds) js', p0 @ js')"
      using comp by (auto simp: completion_def)
    then obtain b js where js': "js' = b # js" "b < length d"
      "transform_pair_consistent (cn_constraint m) (prev_cands ! a) (d ! b)" "chain_consistent ns (d ! b) ds js"
      by (cases js') auto
    let ?cost = "chain_cost m (Some (prev_cands ! a)) (Some (d ! b))"
    have lt: "unat c0 + unat ?cost + chain_cost_from ns (d ! b) ds js < 2 ^ 64"
    proof -
      have "unat c0 + chain_cost_from (m # ns) (prev_cands ! a) (d # ds) js' < 2 ^ 64"
        using sat a(1-3) unfolding no_saturation_def by blast
      then show ?thesis by (simp add: js'(1))
    qed
    have "chain_step m prev_cands d best ! b \<noteq> None"
      using chain_step_spec(1) [OF js'(2), of m prev_cands best] a(1,2) js'(3) by auto
    then obtain c p where cp: "chain_step m prev_cands d best ! b = Some (c, p)" by auto
    have "length p = Suc L" using chain_step_spec(2) [OF js'(2) cp] len by auto
    moreover have "length (p0 @ [b]) = Suc L" using len a(1,2) by simp
    moreover have "cost_le (unat c, p) (unat c0 + unat ?cost, p0 @ [b])"
      using chain_step_spec(3) [OF js'(2) cp a(1,2) js'(3)] lt by (simp add: unat_saturating_add_exact)
    ultimately have "cost_le (unat c + chain_cost_from ns (d ! b) ds js, p @ js)
        (unat c0 + unat ?cost + chain_cost_from ns (d ! b) ds js, (p0 @ [b]) @ js)"
      by (intro cost_le_extend) simp_all
    moreover have "completion ns d ds (chain_step m prev_cands d best) b js
        (unat c + chain_cost_from ns (d ! b) ds js, p @ js)"
      using js' cp by (simp add: completion_def)
    moreover have "x = (unat c0 + unat ?cost + chain_cost_from ns (d ! b) ds js, (p0 @ [b]) @ js)"
      unfolding a(4) js'(1) by simp
    ultimately show ?thesis by blast
  qed
qed

lemma no_saturation_step:
  assumes "no_saturation (m # ns) prev_cands (d # ds) best"
  shows "no_saturation ns d ds (chain_step m prev_cands d best)"
  unfolding no_saturation_def
proof (intro allI impI)
  fix b c p js
  assume b: "b < length d" "chain_step m prev_cands d best ! b = Some (c, p)" "chain_consistent ns (d ! b) ds js"
  obtain a c0 p0 where a: "a < length prev_cands" "best ! a = Some (c0, p0)"
    "transform_pair_consistent (cn_constraint m) (prev_cands ! a) (d ! b)"
    "c = saturating_add c0 (chain_cost m (Some (prev_cands ! a)) (Some (d ! b)))"
    using chain_step_spec(2) [OF b(1,2)] by blast
  have "chain_consistent (m # ns) (prev_cands ! a) (d # ds) (b # js)" using a b by simp
  then have "unat c0 + chain_cost_from (m # ns) (prev_cands ! a) (d # ds) (b # js) < 2 ^ 64"
    using assms a(1,2) unfolding no_saturation_def by blast
  moreover have "unat c \<le> unat c0 + unat (chain_cost m (Some (prev_cands ! a)) (Some (d ! b)))"
    unfolding a(4) by (rule unat_saturating_add_le)
  ultimately show "unat c + chain_cost_from ns (d ! b) ds js < 2 ^ 64" by simp
qed

lemma winner_optimal:
  assumes "length ns = Suc (length ds)" "no_saturation ns prev_cands ds best"
    and "\<forall>a c p. a < length prev_cands \<longrightarrow> best ! a = Some (c, p) \<longrightarrow> length p = L"
  shows "is_optimal (\<lambda>x. \<exists>a js. completion ns prev_cands ds best a js x) (winner ns prev_cands ds best)"
  using assms
proof (induction ds arbitrary: ns prev_cands best L)
  case Nil
  then obtain sink_node where "ns = [sink_node]" by (auto simp: length_Suc_conv)
  then show ?case using winner_Nil Nil.prems by simp
next
  case (Cons d ds)
  then obtain m ms where ns: "ns = m # ms" "length ms = Suc (length ds)" by (cases ns) auto
  let ?best = "chain_step m prev_cands d best"
  have sat: "no_saturation (m # ms) prev_cands (d # ds) best" using Cons.prems(2) ns by simp
  have len: "\<forall>b c p. b < length d \<longrightarrow> ?best ! b = Some (c, p) \<longrightarrow> length p = Suc L"
  proof (intro allI impI)
    fix b c p
    assume "b < length d" "?best ! b = Some (c, p)"
    then obtain a c0 p0 where "a < length prev_cands" "best ! a = Some (c0, p0)" "p = p0 @ [b]"
      using chain_step_spec(2) by blast
    then show "length p = Suc L" using Cons.prems(3) by simp
  qed
  have IH: "is_optimal (\<lambda>x. \<exists>b js. completion ms d ds ?best b js x) (winner ms d ds ?best)"
    by (rule Cons.IH [OF ns(2) no_saturation_step [OF sat] len])
  note step = completion_step [OF sat Cons.prems(3)]
  show ?case
    unfolding ns(1) winner_Cons [OF ns(2)]
  proof (cases "winner ms d ds ?best")
    case None
    then show "is_optimal (\<lambda>x. \<exists>a js. completion (m # ms) prev_cands (d # ds) best a js x) (winner ms d ds ?best)"
      using IH step(2) unfolding is_optimal_def by fastforce
  next
    case (Some y)
    then obtain b js where y: "completion ms d ds ?best b js (nat_cost y)"
      and le: "\<And>x b js. completion ms d ds ?best b js x \<Longrightarrow> cost_le (nat_cost y) x"
      using IH unfolding Some is_optimal_def option.case by blast
    have "\<exists>a js. completion (m # ms) prev_cands (d # ds) best a js (nat_cost y)" using step(1) [OF y] by blast
    moreover have "cost_le (nat_cost y) x" if "completion (m # ms) prev_cands (d # ds) best a js x" for a js x
      using step(2) [OF that] le cost_le_trans by blast
    ultimately show "is_optimal (\<lambda>x. \<exists>a js. completion (m # ms) prev_cands (d # ds) best a js x) (winner ms d ds ?best)"
      unfolding is_optimal_def Some option.case by blast
  qed
qed


lemma winner_sound:
  assumes "length ns = Suc (length ds)" "winner ns prev_cands ds best = Some (t, r)"
  shows "\<exists>a c p js. a < length prev_cands \<and> best ! a = Some (c, p) \<and>
    chain_consistent ns (prev_cands ! a) ds js \<and> r = p @ js"
  using assms
proof (induction ds arbitrary: ns prev_cands best)
  case Nil
  then obtain sink_node where ns: "ns = [sink_node]" by (auto simp: length_Suc_conv)
  have "foldl (\<lambda>cur x. keep_best cur (finish_value sink_node best x)) None (enumerate 0 prev_cands) = Some (t, r)"
    using Nil.prems(2) by (simp add: ns winner_def chain_finish_eq)
  then obtain a where a: "a < length prev_cands" "finish_value sink_node best (a, prev_cands ! a) = Some (t, r)"
    using foldl_best_in [of "finish_value sink_node best" None "enumerate 0 prev_cands" "(t, r)"]
    by (auto simp: set_enumerate_0)
  then obtain c p where "best ! a = Some (c, p)" "r = p"
    unfolding finish_value_simps by (cases "best ! a") auto
  then show ?case using a(1) by (intro exI [of _ a] exI [of _ c] exI [of _ p] exI [of _ "[]"]) (simp add: ns)
next
  case (Cons d ds)
  then obtain m ms where ns: "ns = m # ms" "length ms = Suc (length ds)" by (cases ns) auto
  let ?best = "chain_step m prev_cands d best"
  have "winner ms d ds ?best = Some (t, r)" using Cons.prems(2) ns winner_Cons by simp
  then obtain b c p js where b: "b < length d" "?best ! b = Some (c, p)" "chain_consistent ms (d ! b) ds js" "r = p @ js"
    using Cons.IH [OF ns(2)] by blast
  then obtain a c0 p0 where "a < length prev_cands" "best ! a = Some (c0, p0)"
    "transform_pair_consistent (cn_constraint m) (prev_cands ! a) (d ! b)" "p = p0 @ [b]"
    using chain_step_spec(2) [OF b(1,2)] by blast
  then show ?case using b ns by (intro exI [of _ a] exI [of _ c0] exI [of _ p0] exI [of _ "b # js"]) simp
qed

lemma chain_start_nth: "j < length cands \<Longrightarrow> chain_start source cands ! j = Some (chain_cost source None (Some (cands ! j)), [j])"
  by (simp add: chain_start_def nth_enumerate_eq)

lemma min_cost_chain_winner:
  assumes "length ns = Suc (length ds)"
  shows "min_cost_chain (source # ns) (d # ds) =
    (if list_ex (\<lambda>nd. cn_preferences nd \<noteq> None) (source # ns)
     then map_option snd (winner ns d ds (chain_start source d)) else None)"
  using assms by (cases ns) (auto simp: min_cost_chain_def winner_def)

lemma start_completion:
  "completion ns d ds (chain_start source d) a js x \<longleftrightarrow>
     path_ok (source # ns) (d # ds) (a # js) \<and> x = (path_cost (source # ns) (d # ds) (a # js), a # js)"
  by (auto simp: completion_def path_ok_def path_cost_def chain_start_nth)

lemma path_ok_Cons: "path_ok (source # ns) (d # ds) q \<Longrightarrow> \<exists>j js. q = j # js"
  by (cases q) (auto simp: path_ok_def)

lemma min_cost_chain_shape:
  assumes "min_cost_chain nodes domains = Some p"
  obtains source ns d ds where "nodes = source # ns" "domains = d # ds" "length ns = Suc (length ds)"
    "list_ex (\<lambda>nd. cn_preferences nd \<noteq> None) nodes"
  using assms by (cases nodes; cases domains) (auto simp: min_cost_chain_def split: if_splits)

lemma min_cost_chain_path_ok:
  assumes "min_cost_chain nodes domains = Some p"
  shows "path_ok nodes domains p"
  using assms
proof (rule min_cost_chain_shape)
  fix source ns d ds
  assume s: "nodes = source # ns" "domains = d # ds" "length ns = Suc (length ds)"
    "list_ex (\<lambda>nd. cn_preferences nd \<noteq> None) nodes"
  then obtain t where "winner ns d ds (chain_start source d) = Some (t, p)"
    using assms min_cost_chain_winner [OF s(3), of source d] by auto
  then obtain a js where "a < length d" "chain_consistent ns (d ! a) ds js" "p = a # js"
    using winner_sound [OF s(3)] chain_start_nth by (metis append_Cons append_Nil option.inject prod.inject)
  then show ?thesis using s by (simp add: path_ok_def)
qed

section \<open>No sum saturates\<close>

fun alternatives_count :: "caps_constraint \<Rightarrow> nat" where
  "alternatives_count (Produces s) = length s"
| "alternatives_count (Accepts s) = length s"
| "alternatives_count (Identity s) = length s"
| "alternatives_count (Mapping pairs) = length pairs"
| "alternatives_count _ = 0"

lemma alternative_index_less: "alternative_index c i o' = Some k \<Longrightarrow> k < alternatives_count c"
  by (cases c) (auto simp: alternative_position_def position_Some split: Option.bind_splits option.splits)

lemma chain_cost_less:
  assumes "alternatives_count (cn_constraint nd) \<le> 2 ^ 32"
  shows "unat (chain_cost nd i o') < 2 ^ 32"
proof (cases "alternative_index (cn_constraint nd) i o'")
  case None
  then show ?thesis by (simp add: chain_cost_def)
next
  case (Some k)
  have "k < 2 ^ 32" using alternative_index_less [OF Some] assms by simp
  then show ?thesis using Some unat_lt2p [of "preference_cost p k" for p]
    by (auto simp: chain_cost_def unat_of_nat unat_ucast_up split: option.splits)
qed

lemma chain_cost_from_bound:
  assumes "\<And>nd. nd \<in> set ns \<Longrightarrow> alternatives_count (cn_constraint nd) \<le> 2 ^ 32"
  shows "chain_cost_from ns prev ds js \<le> length ns * (2 ^ 32 - 1)"
  using assms
proof (induction ns prev ds js rule: chain_cost_from.induct [case_names link no_links no_path empty])
  case (link m ns prev d ds j js)
  have "unat (chain_cost m (Some prev) (Some (d ! j))) \<le> 2 ^ 32 - 1"
    using chain_cost_less [of m "Some prev" "Some (d ! j)"] link(2) [of m] by simp
  moreover have "chain_cost_from ns (d ! j) ds js \<le> length ns * (2 ^ 32 - 1)" using link by simp
  ultimately show ?case by simp
next
  case (no_links sink_node rest prev js)
  have "unat (chain_cost sink_node (Some prev) None) \<le> 2 ^ 32 - 1"
    using chain_cost_less [of sink_node "Some prev" None] no_links by simp
  then show ?case by simp
next
  case (no_path sink_node rest prev ds)
  have "unat (chain_cost sink_node (Some prev) None) \<le> 2 ^ 32 - 1"
    using chain_cost_less [of sink_node "Some prev" None] no_path by simp
  then show ?case by simp
qed simp

lemma path_cost_bound:
  assumes "\<And>nd. nd \<in> set nodes \<Longrightarrow> alternatives_count (cn_constraint nd) \<le> 2 ^ 32" and "length nodes \<le> 2 ^ 32"
  shows "path_cost nodes domains path < 2 ^ 64"
proof (cases nodes)
  case (Cons source ns)
  have "chain_cost_from ns prev ds js \<le> length ns * (2 ^ 32 - 1)" for prev ds js
    using chain_cost_from_bound [of ns] assms(1) Cons by simp
  moreover have "unat (chain_cost source None out) \<le> 2 ^ 32 - 1" for out
    using chain_cost_less [of source None out] assms(1) Cons by simp
  ultimately have "path_cost nodes domains path \<le> (2 ^ 32 - 1) + length ns * (2 ^ 32 - 1)"
    unfolding path_cost_def Cons by (auto split: list.splits intro: add_le_mono)
  also have "\<dots> = length nodes * (2 ^ 32 - 1)" by (simp add: Cons)
  also have "\<dots> \<le> 2 ^ 32 * (2 ^ 32 - 1)" using assms(2) by (intro mult_le_mono1)
  also have "\<dots> < 2 ^ 64" by simp
  finally show ?thesis .
qed (simp add: path_cost_def)

lemma min_cost_chain_spec:
  assumes "length nodes = Suc (length domains)" "domains \<noteq> []"
    and "list_ex (\<lambda>nd. cn_preferences nd \<noteq> None) nodes"
    and "\<And>nd. nd \<in> set nodes \<Longrightarrow> alternatives_count (cn_constraint nd) \<le> 2 ^ 32" and "length nodes \<le> 2 ^ 32"
  shows "case min_cost_chain nodes domains of
      None \<Rightarrow> \<not> (\<exists>q. path_ok nodes domains q)
    | Some p \<Rightarrow> path_ok nodes domains p \<and>
        (\<forall>q. path_ok nodes domains q \<longrightarrow>
          cost_le (path_cost nodes domains p, p) (path_cost nodes domains q, q))"
proof -
  obtain source ns d ds where s: "nodes = source # ns" "domains = d # ds" "length ns = Suc (length ds)"
    using assms(1,2) by (cases nodes; cases domains) auto
  let ?P = "\<lambda>x. \<exists>a js. completion ns d ds (chain_start source d) a js x"
  have P: "?P x \<longleftrightarrow> (\<exists>q. path_ok nodes domains q \<and> x = (path_cost nodes domains q, q))" for x
    unfolding start_completion s(1,2) using path_ok_Cons by blast
  have sat: "no_saturation ns d ds (chain_start source d)"
    unfolding no_saturation_def
  proof (intro allI impI)
    fix a c p js
    assume "a < length d" "chain_start source d ! a = Some (c, p)" "chain_consistent ns (d ! a) ds js"
    then show "unat c + chain_cost_from ns (d ! a) ds js < 2 ^ 64"
      using path_cost_bound [OF assms(4,5), of domains "a # js"] s
      by (auto simp: path_cost_def chain_start_nth)
  qed
  have "is_optimal ?P (winner ns d ds (chain_start source d))"
    by (rule winner_optimal [OF s(3) sat, of 1]) (auto simp: chain_start_nth)
  then show ?thesis
    using assms(3) unfolding is_optimal_def P min_cost_chain_winner [OF s(3)] s(1,2)
    by (cases "winner ns d ds (chain_start source d)") (auto simp: nat_cost_def)
qed

end
