(* ===== verification/Graph.thy ===== *)
theory Graph
  imports Caps
begin

text \<open>
  The pipeline graph (\<^verbatim>\<open>g2g-core/src/graph.rs\<close>): nodes with typed pad counts, edges between pads,
  the builder operations, bins with ghost pads, and \<^verbatim>\<open>finish\<close>, which checks that every pad is
  linked exactly once and sorts the nodes topologically. An index panic of the source is
  \<open>None\<close>, a reported failure is \<open>Some (Inl e)\<close>. The lemmas show that graphs made by the builder
  never panic, that a validated graph has the shape the negotiation relies on, and that a
  reported cycle is a cycle.
\<close>

section \<open>Nodes, pads and edges\<close>

text \<open>\<^verbatim>\<open>NodeId\<close> holds a \<^verbatim>\<open>u32\<close>; an index is cast to it by \<open>node_id\<close>.\<close>

type_synonym node_id = nat

definition node_id :: "nat \<Rightarrow> node_id" where
  "node_id i = i mod 2 ^ 32"

lemma node_id_code [code]: "node_id i = unat (of_nat i :: 32 word)"
  by (simp add: node_id_def unat_of_nat)

datatype link_policy = Block | DropOldest | DropNewest

record pad_id =
  pad_node :: node_id
  pad_index :: u8

definition pad_of :: "node_id \<Rightarrow> u8 \<Rightarrow> pad_id" where
  "pad_of n i = \<lparr>pad_node = n, pad_index = i\<rparr>"

datatype node_kind =
  Source | Transform | Sink | Tee u8 | Muxer u8 | FaninSink u8 | FanoutSrc u8

fun in_pads :: "node_kind \<Rightarrow> u8" where
  "in_pads Source = 0"
| "in_pads (FanoutSrc _) = 0"
| "in_pads Transform = 1"
| "in_pads Sink = 1"
| "in_pads (Tee _) = 1"
| "in_pads (Muxer n) = n"
| "in_pads (FaninSink n) = n"

fun out_pads :: "node_kind \<Rightarrow> u8" where
  "out_pads Sink = 0"
| "out_pads (FaninSink _) = 0"
| "out_pads Source = 1"
| "out_pads Transform = 1"
| "out_pads (Muxer _) = 1"
| "out_pads (Tee n) = n"
| "out_pads (FanoutSrc n) = n"

datatype pad_dir = In | Out

datatype fan_out_policy = FailLoud | AllowBranchDrop

record edge =
  e_src :: pad_id
  e_dst :: pad_id
  e_policy :: link_policy
  e_capacity :: "nat option"

datatype graph_error =
  UnknownNode node_id
| PadOutOfRange node_id u8 pad_dir
| UnlinkedPad node_id u8 pad_dir
| PadCountMismatch node_id u8 pad_dir
| OrphanNode node_id
| Cycle "node_id list"
| DuplicateGhostPad node_id u8 pad_dir
| DegenerateFanNode node_id

text \<open>The element payload and the program of animated properties are opaque to the graph.\<close>

record ('e, 'c) graph_node =
  nd_kind :: node_kind
  nd_element :: "'e option"
  nd_fanout :: fan_out_policy
  nd_name :: "string option"
  nd_log_category :: "string option"
  nd_written_caps :: "string option"
  nd_declared_input_caps :: "caps_set option"
  nd_control :: "'c option"

record ('e, 'c) graph =
  g_nodes :: "('e, 'c) graph_node list"
  g_edges :: "edge list"

section \<open>Building\<close>

definition graph_new :: "('e, 'c) graph" where
  "graph_new = \<lparr>g_nodes = [], g_edges = []\<rparr>"

definition push_node :: "node_kind \<Rightarrow> 'e option \<Rightarrow> ('e, 'c) graph \<Rightarrow> node_id \<times> ('e, 'c) graph" where
  "push_node kind element g =
     (node_id (length (g_nodes g)),
      g\<lparr>g_nodes := g_nodes g @
          [\<lparr>nd_kind = kind, nd_element = element, nd_fanout = FailLoud, nd_name = None,
            nd_log_category = None, nd_written_caps = None, nd_declared_input_caps = None,
            nd_control = None\<rparr>]\<rparr>)"

definition add_source :: "'e \<Rightarrow> ('e, 'c) graph \<Rightarrow> node_id \<times> ('e, 'c) graph" where
  "add_source element = push_node Source (Some element)"

definition add_transform :: "'e \<Rightarrow> ('e, 'c) graph \<Rightarrow> node_id \<times> ('e, 'c) graph" where
  "add_transform element = push_node Transform (Some element)"

definition add_sink :: "'e \<Rightarrow> ('e, 'c) graph \<Rightarrow> node_id \<times> ('e, 'c) graph" where
  "add_sink element = push_node Sink (Some element)"

definition add_tee :: "u8 \<Rightarrow> ('e, 'c) graph \<Rightarrow> node_id \<times> ('e, 'c) graph" where
  "add_tee outputs = push_node (Tee outputs) None"

definition add_muxer :: "'e \<Rightarrow> u8 \<Rightarrow> ('e, 'c) graph \<Rightarrow> node_id \<times> ('e, 'c) graph" where
  "add_muxer element inputs = push_node (Muxer inputs) (Some element)"

definition add_fanin_sink :: "'e \<Rightarrow> u8 \<Rightarrow> ('e, 'c) graph \<Rightarrow> node_id \<times> ('e, 'c) graph" where
  "add_fanin_sink element inputs = push_node (FaninSink inputs) (Some element)"

definition add_fanout_src :: "'e \<Rightarrow> u8 \<Rightarrow> ('e, 'c) graph \<Rightarrow> node_id \<times> ('e, 'c) graph" where
  "add_fanout_src element outputs = push_node (FanoutSrc outputs) (Some element)"

definition add_demux :: "'e \<Rightarrow> u8 \<Rightarrow> ('e, 'c) graph \<Rightarrow> node_id \<times> ('e, 'c) graph" where
  "add_demux element outputs = push_node (Tee outputs) (Some element)"

text \<open>The setters index the node vector, so an unknown id panics.\<close>

definition update_node ::
  "node_id \<Rightarrow> (('e, 'c) graph_node \<Rightarrow> ('e, 'c) graph_node) \<Rightarrow> ('e, 'c) graph \<Rightarrow> ('e, 'c) graph option"
  where
  "update_node node f g =
     (case get (g_nodes g) node of
        None \<Rightarrow> None
      | Some nd \<Rightarrow> Some (g\<lparr>g_nodes := (g_nodes g)[node := f nd]\<rparr>))"

definition set_node_name where
  "set_node_name node name = update_node node (\<lambda>nd. nd\<lparr>nd_name := Some name\<rparr>)"

definition set_node_log_category where
  "set_node_log_category node category =
     update_node node (\<lambda>nd. nd\<lparr>nd_log_category := Some category\<rparr>)"

definition set_node_written_caps where
  "set_node_written_caps node caps = update_node node (\<lambda>nd. nd\<lparr>nd_written_caps := Some caps\<rparr>)"

definition set_node_declared_input_caps where
  "set_node_declared_input_caps node caps =
     update_node node (\<lambda>nd. nd\<lparr>nd_declared_input_caps := Some caps\<rparr>)"

definition set_node_control where
  "set_node_control node program = update_node node (\<lambda>nd. nd\<lparr>nd_control := Some program\<rparr>)"

definition add_tee_with_policy ::
  "u8 \<Rightarrow> fan_out_policy \<Rightarrow> ('e, 'c) graph \<Rightarrow> (node_id \<times> ('e, 'c) graph) option" where
  "add_tee_with_policy outputs policy g =
     (let (id, g') = push_node (Tee outputs) None g in
      map_option (Pair id) (update_node id (\<lambda>nd. nd\<lparr>nd_fanout := policy\<rparr>) g'))"

definition node_by_name :: "string \<Rightarrow> ('e, 'c) graph \<Rightarrow> node_id option" where
  "node_by_name name g = map_option node_id (position (\<lambda>nd. nd_name nd = Some name) (g_nodes g))"

definition kind_of :: "('e, 'c) graph \<Rightarrow> node_id \<Rightarrow> graph_error + node_kind" where
  "kind_of g node = ok_or (map_option nd_kind (get (g_nodes g) node)) (UnknownNode node)"

definition pad_count :: "node_kind \<Rightarrow> pad_dir \<Rightarrow> u8" where
  "pad_count kind dir = (case dir of In \<Rightarrow> in_pads kind | Out \<Rightarrow> out_pads kind)"

definition check_pad :: "('e, 'c) graph \<Rightarrow> pad_id \<Rightarrow> pad_dir \<Rightarrow> graph_error + unit" where
  "check_pad g pad dir =
     bind_res (kind_of g (pad_node pad)) (\<lambda>kind.
       if pad_index pad \<ge> pad_count kind dir
       then Inl (PadOutOfRange (pad_node pad) (pad_index pad) dir)
       else Inr ())"

definition link_full ::
  "pad_id \<Rightarrow> pad_id \<Rightarrow> link_policy \<Rightarrow> nat option \<Rightarrow> ('e, 'c) graph \<Rightarrow> graph_error + ('e, 'c) graph" where
  "link_full src dst policy capacity g =
     bind_res (check_pad g src Out) (\<lambda>_.
     bind_res (check_pad g dst In) (\<lambda>_.
       Inr (g\<lparr>g_edges := g_edges g @
              [\<lparr>e_src = src, e_dst = dst, e_policy = policy, e_capacity = capacity\<rparr>]\<rparr>)))"

definition link_with where
  "link_with src dst policy = link_full src dst policy None"

definition link where
  "link src dst = link_with src dst Block"

definition insert_on_edge ::
  "nat \<Rightarrow> 'e \<Rightarrow> ('e, 'c) graph \<Rightarrow> (node_id \<times> ('e, 'c) graph) option" where
  "insert_on_edge edge_idx element g =
     (let (new, g') = push_node Transform (Some element) g in
      case get (g_edges g') edge_idx of
        None \<Rightarrow> None
      | Some e \<Rightarrow>
          Some (new,
            g'\<lparr>g_edges := (g_edges g')[edge_idx := e\<lparr>e_dst := pad_of new 0\<rparr>] @
                [\<lparr>e_src = pad_of new 0, e_dst = e_dst e, e_policy = e_policy e,
                  e_capacity = e_capacity e\<rparr>]\<rparr>))"

definition offset_pad :: "nat \<Rightarrow> pad_id \<Rightarrow> pad_id" where
  "offset_pad offset pad = pad\<lparr>pad_node := pad_node pad + offset\<rparr>"

definition offset_edge :: "nat \<Rightarrow> edge \<Rightarrow> edge" where
  "offset_edge offset e = e\<lparr>e_src := offset_pad offset (e_src e), e_dst := offset_pad offset (e_dst e)\<rparr>"

definition merge :: "('e, 'c) graph \<Rightarrow> ('e, 'c) graph \<Rightarrow> nat \<times> ('e, 'c) graph" where
  "merge inner g =
     (let offset = node_id (length (g_nodes g)) in
      (offset,
       \<lparr>g_nodes = g_nodes g @ g_nodes inner,
        g_edges = g_edges g @ map (offset_edge offset) (g_edges inner)\<rparr>))"

section \<open>Bins\<close>

record ('e, 'c) bin =
  bin_graph :: "('e, 'c) graph"
  bin_ghost_in :: "pad_id list"
  bin_ghost_out :: "pad_id list"

record bin_instance =
  bi_ghost_in :: "pad_id list"
  bi_ghost_out :: "pad_id list"

definition bin_new :: "('e, 'c) bin" where
  "bin_new = \<lparr>bin_graph = graph_new, bin_ghost_in = [], bin_ghost_out = []\<rparr>"

definition ghost_input :: "pad_id \<Rightarrow> ('e, 'c) bin \<Rightarrow> graph_error + ('e, 'c) bin" where
  "ghost_input pad b =
     bind_res (check_pad (bin_graph b) pad In) (\<lambda>_.
       if pad \<in> set (bin_ghost_in b)
       then Inl (DuplicateGhostPad (pad_node pad) (pad_index pad) In)
       else Inr (b\<lparr>bin_ghost_in := bin_ghost_in b @ [pad]\<rparr>))"

definition ghost_output :: "pad_id \<Rightarrow> ('e, 'c) bin \<Rightarrow> graph_error + ('e, 'c) bin" where
  "ghost_output pad b =
     bind_res (check_pad (bin_graph b) pad Out) (\<lambda>_.
       if pad \<in> set (bin_ghost_out b)
       then Inl (DuplicateGhostPad (pad_node pad) (pad_index pad) Out)
       else Inr (b\<lparr>bin_ghost_out := bin_ghost_out b @ [pad]\<rparr>))"

definition add_bin :: "('e, 'c) bin \<Rightarrow> ('e, 'c) graph \<Rightarrow> bin_instance \<times> ('e, 'c) graph" where
  "add_bin b g =
     (let (offset, g') = merge (bin_graph b) g in
      (\<lparr>bi_ghost_in = map (offset_pad offset) (bin_ghost_in b),
        bi_ghost_out = map (offset_pad offset) (bin_ghost_out b)\<rparr>, g'))"

section \<open>Validation\<close>

record ('e, 'c) validated_graph =
  vg_nodes :: "('e, 'c) graph_node list"
  vg_edges :: "edge list"
  vg_topo :: "node_id list"
  vg_in_edges :: "nat list list"
  vg_out_edges :: "nat list list"

text \<open>\<^verbatim>\<open>adj[node].push(eid)\<close>, for the edges in order.\<close>

fun build_adjacency :: "(edge \<Rightarrow> pad_id) \<Rightarrow> nat \<Rightarrow> edge list \<Rightarrow> nat list list \<Rightarrow> nat list list option" where
  "build_adjacency side eid [] adj = Some adj"
| "build_adjacency side eid (e # es) adj =
     (let v = pad_node (side e) in
      case get adj v of
        None \<Rightarrow> None
      | Some eids \<Rightarrow> build_adjacency side (Suc eid) es (adj[v := eids @ [eid]]))"

fun count_pads :: "u8 list \<Rightarrow> nat list \<Rightarrow> nat list option" where
  "count_pads [] seen = Some seen"
| "count_pads (i # is) seen =
     (case get seen (unat i) of
        None \<Rightarrow> None
      | Some c \<Rightarrow> count_pads is (seen[unat i := Suc c]))"

definition pad_verdict :: "node_id \<Rightarrow> pad_dir \<Rightarrow> nat \<times> nat \<Rightarrow> graph_error option" where
  "pad_verdict node dir p =
     (let index = of_nat (fst p) in
      if snd p = 0 then Some (UnlinkedPad node index dir)
      else if snd p > 1 then Some (PadCountMismatch node index dir)
      else None)"

definition check_pads :: "u8 \<Rightarrow> u8 list \<Rightarrow> node_id \<Rightarrow> pad_dir \<Rightarrow> (graph_error + unit) option" where
  "check_pads count indices node dir =
     (case count_pads indices (replicate (unat count) 0) of
        None \<Rightarrow> None
      | Some seen \<Rightarrow>
          Some (case find_map (pad_verdict node dir) (enumerate 0 seen) of
                  Some e \<Rightarrow> Inl e
                | None \<Rightarrow> Inr ()))"

fun is_degenerate_fan :: "node_kind \<Rightarrow> bool" where
  "is_degenerate_fan (Tee n) = (n = 0)"
| "is_degenerate_fan (Muxer n) = (n = 0)"
| "is_degenerate_fan (FaninSink n) = (n = 0)"
| "is_degenerate_fan (FanoutSrc n) = (n = 0)"
| "is_degenerate_fan _ = False"

definition check_node ::
  "('e, 'c) graph \<Rightarrow> nat list list \<Rightarrow> nat list list \<Rightarrow> nat \<Rightarrow> (graph_error + unit) option" where
  "check_node g in_edges out_edges i =
     (let id = node_id i; kind = nd_kind (g_nodes g ! i) in
      if in_edges ! i = [] \<and> out_edges ! i = [] then Some (Inl (OrphanNode id))
      else if is_degenerate_fan kind then Some (Inl (DegenerateFanNode id))
      else
        (case check_pads (in_pads kind) (map (\<lambda>e. pad_index (e_dst (g_edges g ! e))) (in_edges ! i)) id In of
           None \<Rightarrow> None
         | Some (Inl err) \<Rightarrow> Some (Inl err)
         | Some (Inr _) \<Rightarrow>
             check_pads (out_pads kind) (map (\<lambda>e. pad_index (e_src (g_edges g ! e))) (out_edges ! i)) id Out))"

fun check_nodes ::
  "('e, 'c) graph \<Rightarrow> nat list list \<Rightarrow> nat list list \<Rightarrow> nat list \<Rightarrow> (graph_error + unit) option" where
  "check_nodes g in_edges out_edges [] = Some (Inr ())"
| "check_nodes g in_edges out_edges (i # is) =
     (case check_node g in_edges out_edges i of
        None \<Rightarrow> None
      | Some (Inl err) \<Rightarrow> Some (Inl err)
      | Some (Inr _) \<Rightarrow> check_nodes g in_edges out_edges is)"

text \<open>
  The inner loop of Kahn's algorithm: lower the in-degree of each successor and queue it when
  it reaches zero. The subtraction of an \<^verbatim>\<open>usize\<close> below zero panics.
\<close>

fun relax_edges :: "edge list \<Rightarrow> nat list \<Rightarrow> nat list \<Rightarrow> nat list \<Rightarrow> (nat list \<times> nat list) option" where
  "relax_edges edges [] indeg queue = Some (indeg, queue)"
| "relax_edges edges (eid # eids) indeg queue =
     (case get edges eid of
        None \<Rightarrow> None
      | Some e \<Rightarrow>
          (let succ = pad_node (e_dst e) in
           case get indeg succ of
             None \<Rightarrow> None
           | Some 0 \<Rightarrow> None
           | Some (Suc d) \<Rightarrow>
               relax_edges edges eids (indeg[succ := d]) (if d = 0 then queue @ [succ] else queue)))"

definition positives :: "nat list \<Rightarrow> nat" where
  "positives indeg = length (filter (\<lambda>d. 0 < d) indeg)"

lemma positives_append [simp]: "positives (xs @ ys) = positives xs + positives ys"
  by (simp add: positives_def)

lemma positives_Cons [simp]: "positives (x # xs) = (if 0 < x then 1 else 0) + positives xs"
  by (simp add: positives_def)

lemma positives_update:
  assumes "i < length xs" "xs ! i = Suc d"
  shows "positives (xs[i := d]) + (if d = 0 then 1 else 0) = positives xs"
proof -
  have xs: "xs = take i xs @ Suc d # drop (Suc i) xs" using assms by (metis id_take_nth_drop)
  have "xs[i := d] = take i xs @ d # drop (Suc i) xs" using assms(1) by (rule upd_conv_take_nth_drop)
  then show ?thesis by (subst (2) xs) simp
qed

lemma relax_edges_measure:
  "relax_edges edges eids indeg queue = Some (indeg', queue') \<Longrightarrow>
     length queue' + positives indeg' = length queue + positives indeg"
proof (induction edges eids indeg queue rule: relax_edges.induct)
  case (1 edges indeg queue)
  then show ?case by simp
next
  case (2 edges eid eids indeg queue)
  then show ?case
    by (auto simp: Let_def split: option.splits nat.splits if_splits dest!: positives_update)
qed

function kahn ::
  "edge list \<Rightarrow> nat list list \<Rightarrow> nat list \<Rightarrow> nat list \<Rightarrow> nat \<Rightarrow> node_id list \<Rightarrow> bool list \<Rightarrow>
     (node_id list \<times> bool list) option" where
  "kahn edges out_edges indeg queue head topo processed =
     (if head < length queue then
        (let node = queue ! head in
         case get out_edges node of
           None \<Rightarrow> None
         | Some eids \<Rightarrow>
             (case relax_edges edges eids indeg queue of
                None \<Rightarrow> None
              | Some (indeg', queue') \<Rightarrow>
                  kahn edges out_edges indeg' queue' (Suc head) (topo @ [node_id node])
                    (processed[node := True])))
      else Some (topo, processed))"
  by pat_completeness auto
termination
  by (relation "measure (\<lambda>(_, _, indeg, queue, head, _, _). length queue + positives indeg - head)")
    (auto dest!: relax_edges_measure)

declare kahn.simps [simp del]

definition topo_sort ::
  "nat \<Rightarrow> nat list list \<Rightarrow> nat list list \<Rightarrow> edge list \<Rightarrow> (graph_error + node_id list) option" where
  "topo_sort n in_edges out_edges edges =
     (let indeg = map length in_edges;
          queue = filter (\<lambda>i. indeg ! i = 0) [0..<n] in
      case kahn edges out_edges indeg queue 0 [] (replicate n False) of
        None \<Rightarrow> None
      | Some (topo, processed) \<Rightarrow>
          Some (if length topo < n
                then Inl (Cycle (map node_id (filter (\<lambda>i. \<not> processed ! i) [0..<n])))
                else Inr topo))"

definition finish :: "('e, 'c) graph \<Rightarrow> (graph_error + ('e, 'c) validated_graph) option" where
  "finish g =
     (let n = length (g_nodes g) in
      case (build_adjacency e_src 0 (g_edges g) (replicate n []),
            build_adjacency e_dst 0 (g_edges g) (replicate n [])) of
        (Some out_edges, Some in_edges) \<Rightarrow>
          (case check_nodes g in_edges out_edges [0..<n] of
             None \<Rightarrow> None
           | Some (Inl err) \<Rightarrow> Some (Inl err)
           | Some (Inr _) \<Rightarrow>
               (case topo_sort n in_edges out_edges (g_edges g) of
                  None \<Rightarrow> None
                | Some (Inl err) \<Rightarrow> Some (Inl err)
                | Some (Inr topo) \<Rightarrow>
                    Some (Inr \<lparr>vg_nodes = g_nodes g, vg_edges = g_edges g, vg_topo = topo,
                               vg_in_edges = in_edges, vg_out_edges = out_edges\<rparr>)))
      | _ \<Rightarrow> None)"

section \<open>Access to a validated graph\<close>

definition node_count :: "('e, 'c) validated_graph \<Rightarrow> nat" where
  "node_count vg = length (vg_nodes vg)"

definition edge_count :: "('e, 'c) validated_graph \<Rightarrow> nat" where
  "edge_count vg = length (vg_edges vg)"

definition vg_kind :: "('e, 'c) validated_graph \<Rightarrow> node_id \<Rightarrow> node_kind" where
  "vg_kind vg node = nd_kind (vg_nodes vg ! node)"

definition vg_edge :: "('e, 'c) validated_graph \<Rightarrow> nat \<Rightarrow> edge" where
  "vg_edge vg eid = vg_edges vg ! eid"

definition in_edges_of :: "('e, 'c) validated_graph \<Rightarrow> node_id \<Rightarrow> nat list" where
  "in_edges_of vg node = vg_in_edges vg ! node"

definition out_edges_of :: "('e, 'c) validated_graph \<Rightarrow> node_id \<Rightarrow> nat list" where
  "out_edges_of vg node = vg_out_edges vg ! node"

definition take_element ::
  "node_id \<Rightarrow> ('e, 'c) validated_graph \<Rightarrow> ('e option \<times> ('e, 'c) validated_graph) option" where
  "take_element node vg =
     (case get (vg_nodes vg) node of
        None \<Rightarrow> None
      | Some nd \<Rightarrow>
          Some (nd_element nd, vg\<lparr>vg_nodes := (vg_nodes vg)[node := nd\<lparr>nd_element := None\<rparr>]\<rparr>))"

definition take_node_control ::
  "node_id \<Rightarrow> ('e, 'c) validated_graph \<Rightarrow> ('c option \<times> ('e, 'c) validated_graph) option" where
  "take_node_control node vg =
     (case get (vg_nodes vg) node of
        None \<Rightarrow> None
      | Some nd \<Rightarrow>
          Some (nd_control nd, vg\<lparr>vg_nodes := (vg_nodes vg)[node := nd\<lparr>nd_control := None\<rparr>]\<rparr>))"


section \<open>Adjacency\<close>

lemma build_adjacency_aux:
  assumes "\<And>e. e \<in> set es \<Longrightarrow> pad_node (side e) < length adj"
    and "\<And>v. v < length adj \<Longrightarrow> adj ! v = filter (\<lambda>i. pad_node (side ((pre @ es) ! i)) = v) [0..<length pre]"
  shows "\<exists>adj'. build_adjacency side (length pre) es adj = Some adj' \<and> length adj' = length adj \<and>
    (\<forall>v < length adj. adj' ! v = filter (\<lambda>i. pad_node (side ((pre @ es) ! i)) = v) [0..<length (pre @ es)])"
  using assms
proof (induction es arbitrary: pre adj)
  case Nil
  then show ?case by simp
next
  case (Cons e es)
  let ?v = "pad_node (side e)"
  let ?adj = "adj[?v := adj ! ?v @ [length pre]]"
  have v: "?v < length adj" using Cons.prems(1) by simp
  have "\<exists>adj'. build_adjacency side (length (pre @ [e])) es ?adj = Some adj' \<and> length adj' = length ?adj \<and>
    (\<forall>v < length ?adj. adj' ! v = filter (\<lambda>i. pad_node (side (((pre @ [e]) @ es) ! i)) = v)
       [0..<length ((pre @ [e]) @ es)])"
  proof (rule Cons.IH)
    show "pad_node (side e') < length ?adj" if "e' \<in> set es" for e'
      using Cons.prems(1) that by simp
    show "?adj ! u = filter (\<lambda>i. pad_node (side (((pre @ [e]) @ es) ! i)) = u) [0..<length (pre @ [e])]"
      if "u < length ?adj" for u
      using that v Cons.prems(2) [of u] by (auto simp: nth_list_update nth_append)
  qed
  moreover have "build_adjacency side (length pre) (e # es) adj =
      build_adjacency side (length (pre @ [e])) es ?adj"
    using v by (simp add: get_def Let_def)
  ultimately show ?case by (simp only: append.assoc append_Cons append_Nil length_list_update)
qed

lemma build_adjacency_ok:
  assumes "\<And>e. e \<in> set es \<Longrightarrow> pad_node (side e) < n"
  obtains adj where "build_adjacency side 0 es (replicate n []) = Some adj" "length adj = n"
    "\<And>v. v < n \<Longrightarrow> adj ! v = filter (\<lambda>i. pad_node (side (es ! i)) = v) [0..<length es]"
  using build_adjacency_aux [of es side "replicate n []" "[]"] assms that by auto

section \<open>Pads\<close>

lemma count_pads_ok:
  assumes "\<And>i. i \<in> set is \<Longrightarrow> unat i < length seen"
  shows "\<exists>seen'. count_pads is seen = Some seen' \<and> length seen' = length seen \<and>
    (\<forall>i < length seen. seen' ! i = seen ! i + count_list (map unat is) i)"
  using assms
proof (induction "is" arbitrary: seen)
  case Nil
  then show ?case by simp
next
  case (Cons j js)
  have j: "unat j < length seen" using Cons.prems by simp
  obtain seen' where "count_pads js (seen[unat j := Suc (seen ! unat j)]) = Some seen'"
    "length seen' = length seen"
    "\<forall>i < length seen. seen' ! i = seen[unat j := Suc (seen ! unat j)] ! i + count_list (map unat js) i"
    using Cons.IH [of "seen[unat j := Suc (seen ! unat j)]"] Cons.prems by auto
  then show ?case using j by (auto simp: get_def nth_list_update)
qed

lemma pad_verdict_None: "pad_verdict node dir p = None \<longleftrightarrow> snd p = 1"
  by (auto simp: pad_verdict_def Let_def)

lemma count_list_1_distinct:
  assumes "\<And>i. i \<in> set xs \<Longrightarrow> count_list xs i = 1"
  shows "distinct xs"
  using assms
proof (induction xs)
  case (Cons x xs)
  have "x \<notin> set xs" using Cons.prems [of x] by (auto simp: count_list_0_iff)
  moreover have "count_list xs i = 1" if "i \<in> set xs" for i
    using Cons.prems [of i] that \<open>x \<notin> set xs\<close> by (auto split: if_splits)
  ultimately show ?case using Cons.IH by simp
qed simp

lemma distinct_count_list_1: "distinct xs \<Longrightarrow> i \<in> set xs \<Longrightarrow> count_list xs i = 1"
  by (induction xs) (auto simp: count_list_0_iff)

lemma check_pads_total:
  assumes "\<And>i. i \<in> set is \<Longrightarrow> i < count"
  shows "\<exists>r. check_pads count is node dir = Some r"
  using count_pads_ok [of "is" "replicate (unat count) 0"] assms
  by (auto simp: check_pads_def word_less_nat_alt)

lemma check_pads_ok:
  assumes "\<And>i. i \<in> set is \<Longrightarrow> i < count"
  shows "check_pads count is node dir = Some (Inr ()) \<longleftrightarrow>
    distinct (map unat is) \<and> set (map unat is) = {..<unat count}"
proof -
  obtain seen where seen: "count_pads is (replicate (unat count) 0) = Some seen" "length seen = unat count"
    "\<forall>i < unat count. seen ! i = count_list (map unat is) i"
    using count_pads_ok [of "is" "replicate (unat count) 0"] assms by (auto simp: word_less_nat_alt)
  have "check_pads count is node dir = Some (Inr ()) \<longleftrightarrow>
      (\<forall>p \<in> set (enumerate 0 seen). snd p = 1)"
    using find_map_None [of "pad_verdict node dir" "enumerate 0 seen"]
    by (auto simp: check_pads_def seen(1) pad_verdict_None split: option.splits)
  also have "\<dots> \<longleftrightarrow> (\<forall>x \<in> set seen. x = 1)"
    by (metis (mono_tags, lifting) image_iff list.set_map map_snd_enumerate)
  also have "\<dots> \<longleftrightarrow> (\<forall>i < unat count. count_list (map unat is) i = 1)"
    using seen(2,3) by (auto simp: all_set_conv_all_nth)
  also have "\<dots> \<longleftrightarrow> distinct (map unat is) \<and> set (map unat is) = {..<unat count}"
  proof
    assume one: "\<forall>i < unat count. count_list (map unat is) i = 1"
    have sub: "set (map unat is) \<subseteq> {..<unat count}" using assms by (auto simp: word_less_nat_alt)
    have "i \<in> set (map unat is)" if "i < unat count" for i
      using one that by (metis One_nat_def count_list_0_iff zero_neq_one)
    with sub have "set (map unat is) = {..<unat count}" by auto
    moreover have "distinct (map unat is)"
      by (rule count_list_1_distinct) (use one sub in auto)
    ultimately show "distinct (map unat is) \<and> set (map unat is) = {..<unat count}" by simp
  next
    assume "distinct (map unat is) \<and> set (map unat is) = {..<unat count}"
    then show "\<forall>i < unat count. count_list (map unat is) i = 1"
      by (metis distinct_count_list_1 lessThan_iff)
  qed
  finally show ?thesis .
qed

section \<open>Kahn's algorithm\<close>

lemma relax_edges_ok:
  assumes "\<And>e. e \<in> set eids \<Longrightarrow> e < length edges \<and> pad_node (e_dst (edges ! e)) < length indeg"
    and "\<And>u. u < length indeg \<Longrightarrow> count_list (map (\<lambda>e. pad_node (e_dst (edges ! e))) eids) u \<le> indeg ! u"
  shows "\<exists>indeg' new. relax_edges edges eids indeg queue = Some (indeg', queue @ new) \<and>
    length indeg' = length indeg \<and>
    (\<forall>u < length indeg. indeg' ! u + count_list (map (\<lambda>e. pad_node (e_dst (edges ! e))) eids) u = indeg ! u) \<and>
    distinct new \<and> set new = {u. u < length indeg \<and> 0 < indeg ! u \<and> indeg' ! u = 0}"
  using assms
proof (induction eids arbitrary: indeg queue)
  case Nil
  then show ?case by auto
next
  case (Cons e eids)
  let ?v = "pad_node (e_dst (edges ! e))"
  have e: "e < length edges" "?v < length indeg" using Cons.prems(1) by auto
  obtain d where d: "indeg ! ?v = Suc d" using Cons.prems(2) [of ?v] e(2) by (cases "indeg ! ?v") auto
  let ?indeg = "indeg[?v := d]" and ?queue = "if d = 0 then queue @ [?v] else queue"
  have "\<exists>indeg' new. relax_edges edges eids ?indeg ?queue = Some (indeg', ?queue @ new) \<and>
    length indeg' = length ?indeg \<and>
    (\<forall>u < length ?indeg. indeg' ! u + count_list (map (\<lambda>e. pad_node (e_dst (edges ! e))) eids) u = ?indeg ! u) \<and>
    distinct new \<and> set new = {u. u < length ?indeg \<and> 0 < ?indeg ! u \<and> indeg' ! u = 0}"
  proof (rule Cons.IH)
    show "e' < length edges \<and> pad_node (e_dst (edges ! e')) < length ?indeg" if "e' \<in> set eids" for e'
      using Cons.prems(1) that by simp
    show "count_list (map (\<lambda>e. pad_node (e_dst (edges ! e))) eids) u \<le> ?indeg ! u" if "u < length ?indeg" for u
      using Cons.prems(2) [of u] that d e(2) by (auto simp: nth_list_update split: if_splits)
  qed
  then obtain indeg' new where r: "relax_edges edges eids ?indeg ?queue = Some (indeg', ?queue @ new)"
    and len: "length indeg' = length indeg"
    and cnt: "\<forall>u < length indeg. indeg' ! u + count_list (map (\<lambda>e. pad_node (e_dst (edges ! e))) eids) u = ?indeg ! u"
    and new: "distinct new" "set new = {u. u < length indeg \<and> 0 < ?indeg ! u \<and> indeg' ! u = 0}"
    by auto
  let ?new = "if d = 0 then ?v # new else new"
  have "relax_edges edges (e # eids) indeg queue = Some (indeg', queue @ ?new)"
    using e d r by (simp add: get_def Let_def)
  moreover have "\<forall>u < length indeg. indeg' ! u +
      count_list (map (\<lambda>e. pad_node (e_dst (edges ! e))) (e # eids)) u = indeg ! u"
    using cnt d e(2) by (auto simp: nth_list_update)
  moreover have "distinct ?new" using new e(2) by auto
  moreover have "set ?new = {u. u < length indeg \<and> 0 < indeg ! u \<and> indeg' ! u = 0}"
  proof (cases "d = 0")
    case True
    have "indeg' ! ?v = 0" using cnt e(2) True by (metis add_is_0 nth_list_update_eq)
    then have "u < length indeg \<and> 0 < indeg ! u \<and> indeg' ! u = 0 \<longleftrightarrow> u = ?v \<or> u \<in> set new" for u
      unfolding new(2) using e(2) d True by (cases "u = ?v") (simp_all add: nth_list_update)
    then show ?thesis using True by auto
  next
    case False
    then have "u < length indeg \<and> 0 < indeg ! u \<and> indeg' ! u = 0 \<longleftrightarrow> u \<in> set new" for u
      unfolding new(2) using e(2) d by (cases "u = ?v") (simp_all add: nth_list_update)
    then show ?thesis using False by auto
  qed
  ultimately show ?case using len by blast
qed

text \<open>
  The state of the sort: the queue lists each node once, a node is in it exactly when its
  in-degree is exhausted, the in-degrees count the edges whose source is not yet done, and
  every edge into a queued node starts at an earlier position of the queue.
\<close>

definition kahn_inv ::
  "edge list \<Rightarrow> nat \<Rightarrow> nat list \<Rightarrow> nat list \<Rightarrow> nat \<Rightarrow> node_id list \<Rightarrow> bool list \<Rightarrow> bool" where
  "kahn_inv edges n indeg queue head topo processed \<longleftrightarrow>
     length indeg = n \<and> length processed = n \<and> head \<le> length queue \<and>
     distinct queue \<and> set queue \<subseteq> {..<n} \<and>
     (\<forall>u < n. indeg ! u = length (filter (\<lambda>e. pad_node (e_dst (edges ! e)) = u \<and>
        pad_node (e_src (edges ! e)) \<notin> set (take head queue)) [0..<length edges])) \<and>
     (\<forall>u < n. u \<in> set queue \<longleftrightarrow> indeg ! u = 0) \<and>
     topo = map node_id (take head queue) \<and>
     (\<forall>u < n. processed ! u \<longleftrightarrow> u \<in> set (take head queue)) \<and>
     (\<forall>j < length queue. \<forall>e < length edges. pad_node (e_dst (edges ! e)) = queue ! j \<longrightarrow>
        pad_node (e_src (edges ! e)) \<in> set (take j queue))"

lemma length_filter_split:
  "length (filter (\<lambda>e. P e \<and> Q e \<notin> A) xs) =
     length (filter (\<lambda>e. P e \<and> Q e \<notin> insert v A) xs) + length (filter (\<lambda>e. P e \<and> Q e = v \<and> v \<notin> A) xs)"
  by (induction xs) auto

lemma count_list_map_filter:
  "count_list (map f (filter (\<lambda>e. g e = v) xs)) u = length (filter (\<lambda>e. f e = u \<and> g e = v) xs)"
  by (induction xs) auto

lemma kahn_step:
  assumes inv: "kahn_inv edges n indeg queue head topo processed" and head: "head < length queue"
    and dst: "\<And>e. e < length edges \<Longrightarrow> pad_node (e_dst (edges ! e)) < n"
    and out: "\<And>v. v < n \<Longrightarrow>
      out_edges ! v = filter (\<lambda>e. pad_node (e_src (edges ! e)) = v) [0..<length edges]"
  shows "\<exists>indeg' queue'.
    relax_edges edges (out_edges ! (queue ! head)) indeg queue = Some (indeg', queue') \<and>
    kahn_inv edges n indeg' queue' (Suc head) (topo @ [node_id (queue ! head)])
      (processed[queue ! head := True])"
proof -
  define v where "v = queue ! head"
  define done' where "done' = set (take head queue)"
  let ?dst = "\<lambda>e. pad_node (e_dst (edges ! e))" and ?src = "\<lambda>e. pad_node (e_src (edges ! e))"
  have len: "length indeg = n" "length processed = n" and dq: "distinct queue" and sub: "set queue \<subseteq> {..<n}"
    and cnt: "\<And>u. u < n \<Longrightarrow> indeg ! u = length (filter (\<lambda>e. ?dst e = u \<and> ?src e \<notin> done') [0..<length edges])"
    and zero: "\<And>u. u < n \<Longrightarrow> u \<in> set queue \<longleftrightarrow> indeg ! u = 0"
    and topo: "topo = map node_id (take head queue)"
    and proc: "\<And>u. u < n \<Longrightarrow> processed ! u \<longleftrightarrow> u \<in> done'"
    and before: "\<And>j e. j < length queue \<Longrightarrow> e < length edges \<Longrightarrow> ?dst e = queue ! j \<Longrightarrow> ?src e \<in> set (take j queue)"
    using inv unfolding kahn_inv_def done'_def by auto
  have v: "v < n" "v \<in> set queue" using sub nth_mem [OF head] by (auto simp: v_def)
  have vd: "v \<notin> done'"
    using dq head by (auto simp: v_def done'_def in_set_conv_nth nth_eq_iff_index_eq)
  have take: "take (Suc head) queue = take head queue @ [v]" using head by (simp add: v_def take_Suc_conv_app_nth)
  have cnt': "indeg ! u = length (filter (\<lambda>e. ?dst e = u \<and> ?src e \<notin> insert v done') [0..<length edges]) +
      count_list (map ?dst (out_edges ! v)) u" if "u < n" for u
    unfolding cnt [OF that] out [OF v(1)] count_list_map_filter
    using length_filter_split [of "\<lambda>e. ?dst e = u" ?src done' "[0..<length edges]" v] vd by simp
  obtain indeg' new where r: "relax_edges edges (out_edges ! v) indeg queue = Some (indeg', queue @ new)"
    and len': "length indeg' = n"
    and cnt2: "\<And>u. u < n \<Longrightarrow> indeg' ! u + count_list (map ?dst (out_edges ! v)) u = indeg ! u"
    and new: "distinct new" "set new = {u. u < n \<and> 0 < indeg ! u \<and> indeg' ! u = 0}"
  proof -
    have "e < length edges \<and> ?dst e < length indeg" if "e \<in> set (out_edges ! v)" for e
      using that dst len(1) out [OF v(1)] by simp
    moreover have "count_list (map ?dst (out_edges ! v)) u \<le> indeg ! u" if "u < length indeg" for u
      using cnt' [of u] that len(1) by simp
    ultimately have "\<exists>indeg' new. relax_edges edges (out_edges ! v) indeg queue = Some (indeg', queue @ new) \<and>
      length indeg' = n \<and> (\<forall>u < n. indeg' ! u + count_list (map ?dst (out_edges ! v)) u = indeg ! u) \<and>
      distinct new \<and> set new = {u. u < n \<and> 0 < indeg ! u \<and> indeg' ! u = 0}"
      unfolding len(1) [symmetric] by (rule relax_edges_ok)
    then show thesis by (elim exE conjE) (rule that, assumption+, blast, assumption+)
  qed
  have indeg': "indeg' ! u = length (filter (\<lambda>e. ?dst e = u \<and> ?src e \<notin> insert v done') [0..<length edges])"
    if "u < n" for u using cnt' [OF that] cnt2 [OF that] by simp
  have zero': "u \<in> set (queue @ new) \<longleftrightarrow> indeg' ! u = 0" if "u < n" for u
  proof -
    have "u \<in> set new \<longleftrightarrow> indeg ! u \<noteq> 0 \<and> indeg' ! u = 0" unfolding new(2) using that by simp
    moreover have "indeg ! u = 0 \<Longrightarrow> indeg' ! u = 0" using cnt2 [OF that] by simp
    ultimately show ?thesis unfolding set_append Un_iff using zero [OF that] by (cases "indeg ! u = 0") simp_all
  qed
  have before': "?src e \<in> set (take j (queue @ new))"
    if j: "j < length (queue @ new)" and e: "e < length edges" and eq: "?dst e = (queue @ new) ! j" for j e
  proof (cases "j < length queue")
    case True
    then show ?thesis using before [OF True e] eq by (simp add: nth_append)
  next
    case False
    then have u: "(queue @ new) ! j \<in> set new" using j by (simp add: nth_append)
    then have "indeg' ! ?dst e = 0" "?dst e < n" using eq new(2) by auto
    then have "?src e \<in> insert v done'"
      using indeg' [of "?dst e"] e by (auto simp: filter_empty_conv)
    then have "?src e \<in> set (take (Suc head) queue)" using take by (auto simp: done'_def)
    then show ?thesis using False head set_take_subset_set_take [of "Suc head" j queue]
      by (auto simp: take_append)
  qed
  have "kahn_inv edges n indeg' (queue @ new) (Suc head) (topo @ [node_id v]) (processed[v := True])"
    unfolding kahn_inv_def
  proof (intro conjI allI impI)
    show "distinct (queue @ new)" using dq new zero cnt2 by fastforce
    show "set (queue @ new) \<subseteq> {..<n}" using sub new(2) by auto
    show "topo @ [node_id v] = map node_id (take (Suc head) (queue @ new))"
      using take head topo by simp
    show "processed[v := True] ! u \<longleftrightarrow> u \<in> set (take (Suc head) (queue @ new))" if "u < n" for u
      using proc [OF that] take head v len(2) that by (auto simp: nth_list_update done'_def)
  qed (use len' len head take indeg' zero' before' in \<open>auto simp: done'_def\<close>)
  then show ?thesis using r by (auto simp: v_def)
qed

lemma kahn_ok:
  assumes "kahn_inv edges n indeg queue head topo processed"
    and "\<And>e. e < length edges \<Longrightarrow> pad_node (e_dst (edges ! e)) < n"
    and "\<And>v. v < n \<Longrightarrow>
      out_edges ! v = filter (\<lambda>e. pad_node (e_src (edges ! e)) = v) [0..<length edges]"
    and "length out_edges = n"
  shows "\<exists>topo' processed' indeg' queue'. kahn edges out_edges indeg queue head topo processed = Some (topo', processed') \<and>
    kahn_inv edges n indeg' queue' (length queue') topo' processed'"
  using assms
proof (induction edges out_edges indeg queue head topo processed rule: kahn.induct)
  case (1 edges out_edges indeg queue head topo processed)
  note inv = 1(2)
  show ?case
  proof (cases "head < length queue")
    case False
    then have "head = length queue" using inv by (simp add: kahn_inv_def)
    then show ?thesis using False inv by (auto simp: kahn.simps [of edges out_edges indeg queue])
  next
    case True
    have "set queue \<subseteq> {..<n}" using inv unfolding kahn_inv_def by blast
    then have node: "queue ! head < n" using nth_mem [OF True] by blast
    obtain indeg' queue' where
      "relax_edges edges (out_edges ! (queue ! head)) indeg queue = Some (indeg', queue')"
      "kahn_inv edges n indeg' queue' (Suc head) (topo @ [node_id (queue ! head)])
        (processed[queue ! head := True])"
      using kahn_step [OF inv True 1(3,4)] by blast
    then show ?thesis
      using 1(1) [OF True refl _ _ refl _ 1(3,4,5)] node 1(5) True
      by (simp add: kahn.simps [of edges out_edges indeg queue] get_def Let_def)
  qed
qed

section \<open>Topological orders\<close>

definition precedes :: "'a list \<Rightarrow> 'a \<Rightarrow> 'a \<Rightarrow> bool" where
  "precedes xs a b \<longleftrightarrow> (\<exists>j < length xs. xs ! j = b \<and> a \<in> set (take j xs))"

lemma node_id_id: "i < 2 ^ 32 \<Longrightarrow> node_id i = i"
  by (simp add: node_id_def)

lemma topo_sort_ok:
  assumes ends: "\<And>e. e < length edges \<Longrightarrow> pad_node (e_src (edges ! e)) < n \<and> pad_node (e_dst (edges ! e)) < n"
    and out: "\<And>v. v < n \<Longrightarrow> out_edges ! v = filter (\<lambda>e. pad_node (e_src (edges ! e)) = v) [0..<length edges]"
    and inn: "\<And>v. v < n \<Longrightarrow> in_edges ! v = filter (\<lambda>e. pad_node (e_dst (edges ! e)) = v) [0..<length edges]"
    and len: "length out_edges = n" "length in_edges = n" and n: "n \<le> 2 ^ 32"
  obtains (sorted) topo where "topo_sort n in_edges out_edges edges = Some (Inr topo)"
      "distinct topo" "set topo = {..<n}"
      "\<And>e. e < length edges \<Longrightarrow> precedes topo (pad_node (e_src (edges ! e))) (pad_node (e_dst (edges ! e)))"
  | (cycle) nodes where "topo_sort n in_edges out_edges edges = Some (Inl (Cycle nodes))"
      "nodes \<noteq> []" "set nodes \<subseteq> {..<n}"
      "\<And>v. v \<in> set nodes \<Longrightarrow> \<exists>e < length edges. pad_node (e_dst (edges ! e)) = v \<and> pad_node (e_src (edges ! e)) \<in> set nodes"
proof -
  let ?indeg = "map length in_edges" and ?queue = "filter (\<lambda>i. map length in_edges ! i = 0) [0..<n]"
  have start: "kahn_inv edges n ?indeg ?queue 0 [] (replicate n False)"
    unfolding kahn_inv_def
  proof (intro conjI allI impI)
    show "pad_node (e_src (edges ! e)) \<in> set (take j ?queue)"
      if "j < length ?queue" "e < length edges" "pad_node (e_dst (edges ! e)) = ?queue ! j" for j e
    proof -
      have "?queue ! j \<in> set ?queue" using that(1) by (rule nth_mem)
      then have "in_edges ! (?queue ! j) = []" "?queue ! j < n" using len by auto
      then show ?thesis using inn [of "?queue ! j"] that(2,3) by (auto simp: filter_empty_conv)
    qed
  qed (use len inn in auto)
  obtain topo processed indeg queue where
    k: "kahn edges out_edges ?indeg ?queue 0 [] (replicate n False) = Some (topo, processed)"
    and inv: "kahn_inv edges n indeg queue (length queue) topo processed"
    using kahn_ok [OF start _ out len(1)] ends by blast
  have q: "distinct queue" "set queue \<subseteq> {..<n}" and topo: "topo = queue"
    and cnt: "\<And>u. u < n \<Longrightarrow> indeg ! u = length (filter (\<lambda>e. pad_node (e_dst (edges ! e)) = u \<and>
        pad_node (e_src (edges ! e)) \<notin> set queue) [0..<length edges])"
    and zero: "\<And>u. u < n \<Longrightarrow> u \<in> set queue \<longleftrightarrow> indeg ! u = 0"
    and proc: "\<And>u. u < n \<Longrightarrow> processed ! u \<longleftrightarrow> u \<in> set queue"
    and before: "\<And>j e. j < length queue \<Longrightarrow> e < length edges \<Longrightarrow> pad_node (e_dst (edges ! e)) = queue ! j \<Longrightarrow>
      pad_node (e_src (edges ! e)) \<in> set (take j queue)"
  proof -
    show sub: "set queue \<subseteq> {..<n}" and "distinct queue" using inv by (simp_all add: kahn_inv_def)
    have "topo = map node_id queue" using inv by (simp add: kahn_inv_def)
    moreover have "map node_id queue = map id queue" using sub n by (intro map_cong) (auto simp: node_id_id)
    ultimately show "topo = queue" by simp
  qed (use inv in \<open>simp_all add: kahn_inv_def\<close>)
  let ?rest = "filter (\<lambda>i. \<not> processed ! i) [0..<n]"
  have rest: "map node_id ?rest = ?rest" using n by (intro map_idI) (auto simp: node_id_id)
  show thesis
  proof (cases "length topo < n")
    case False
    have "card (set queue) = length queue" using q(1) by (rule distinct_card)
    then have "n \<le> card (set queue)" using False topo by simp
    then have all: "set queue = {..<n}" using q(2) by (metis card_lessThan card_seteq finite_lessThan)
    show thesis
    proof (rule sorted)
      show "topo_sort n in_edges out_edges edges = Some (Inr topo)"
        using k False by (simp add: topo_sort_def Let_def)
      show "precedes topo (pad_node (e_src (edges ! e))) (pad_node (e_dst (edges ! e)))"
        if "e < length edges" for e
      proof -
        have "pad_node (e_dst (edges ! e)) \<in> set queue" using ends [OF that] all by auto
        then obtain j where "j < length queue" "queue ! j = pad_node (e_dst (edges ! e))"
          by (auto simp: in_set_conv_nth)
        then show ?thesis unfolding precedes_def topo using before [of j e] that by auto
      qed
    qed (use topo q all in auto)
  next
    case True
    show thesis
    proof (rule cycle)
      show "topo_sort n in_edges out_edges edges = Some (Inl (Cycle ?rest))"
        using k True rest by (simp add: topo_sort_def Let_def)
      have "\<not> {..<n} \<subseteq> set queue"
        using True topo by (metis card_length card_lessThan card_mono finite_set leD le_trans)
      then show "?rest \<noteq> []" using proc by (auto simp: filter_empty_conv)
      show "\<exists>e < length edges. pad_node (e_dst (edges ! e)) = v \<and> pad_node (e_src (edges ! e)) \<in> set ?rest"
        if "v \<in> set ?rest" for v
      proof -
        have v: "v < n" "v \<notin> set queue" using that proc by auto
        then have "filter (\<lambda>e. pad_node (e_dst (edges ! e)) = v \<and>
            pad_node (e_src (edges ! e)) \<notin> set queue) [0..<length edges] \<noteq> []"
          using zero [OF v(1)] cnt [OF v(1)] by auto
        then show ?thesis using ends proc by (auto simp: filter_empty_conv)
      qed
    qed auto
  qed
qed


section \<open>Well-formed builders\<close>

text \<open>The invariant of the builder: every edge joins an existing output pad to an existing input pad.\<close>

definition pad_ok :: "('e, 'c) graph_node list \<Rightarrow> pad_dir \<Rightarrow> pad_id \<Rightarrow> bool" where
  "pad_ok nodes dir pad \<longleftrightarrow>
     pad_node pad < length nodes \<and> pad_index pad < pad_count (nd_kind (nodes ! pad_node pad)) dir"

definition graph_wf :: "('e, 'c) graph \<Rightarrow> bool" where
  "graph_wf g \<longleftrightarrow> (\<forall>e \<in> set (g_edges g). pad_ok (g_nodes g) Out (e_src e) \<and> pad_ok (g_nodes g) In (e_dst e))"

lemma check_pad_ok: "check_pad g pad dir = Inr () \<longleftrightarrow> pad_ok (g_nodes g) dir pad"
  by (auto simp: check_pad_def kind_of_def pad_ok_def get_def not_le split: if_splits)

lemma pad_ok_append: "pad_ok nodes dir pad \<Longrightarrow> pad_ok (nodes @ extra) dir pad"
  by (auto simp: pad_ok_def nth_append)

lemma pad_ok_offset [simp]:
  "pad_ok (nodes @ extra) dir (offset_pad (length nodes) pad) = pad_ok extra dir pad"
  by (auto simp: pad_ok_def offset_pad_def nth_append)

lemma pad_ok_update:
  "nd_kind nd = nd_kind (nodes ! i) \<Longrightarrow> pad_ok (nodes[i := nd]) dir pad = pad_ok nodes dir pad"
  by (cases "i < length nodes") (auto simp: pad_ok_def nth_list_update)

lemma graph_wf_new: "graph_wf graph_new"
  by (simp add: graph_wf_def graph_new_def)

lemma graph_wf_push: "graph_wf g \<Longrightarrow> graph_wf (snd (push_node kind element g))"
  by (auto simp: graph_wf_def push_node_def intro: pad_ok_append)

lemma graph_wf_update_node:
  assumes "graph_wf g" "update_node node f g = Some g'" "\<And>nd. nd_kind (f nd) = nd_kind nd"
  shows "graph_wf g'"
  using assms by (auto simp: graph_wf_def update_node_def pad_ok_update split: option.splits)

lemma graph_wf_link_full:
  assumes "graph_wf g" "link_full src dst policy capacity g = Inr g'"
  shows "graph_wf g'"
  using assms by (auto simp: graph_wf_def link_full_def check_pad_ok)

lemma graph_wf_merge:
  assumes "graph_wf g" "graph_wf inner" "length (g_nodes g) < 2 ^ 32"
  shows "graph_wf (snd (merge inner g))"
  using assms
  by (auto simp: graph_wf_def merge_def Let_def node_id_id offset_edge_def intro: pad_ok_append)

lemma graph_wf_insert_on_edge:
  assumes "graph_wf g" "insert_on_edge i element g = Some (new, g')" "length (g_nodes g) < 2 ^ 32"
  shows "graph_wf g'"
proof -
  let ?nodes = "g_nodes (snd (push_node Transform (Some element) g))"
  obtain e where e: "i < length (g_edges g)" "e = g_edges g ! i"
    and new: "new = length (g_nodes g)"
    and g': "g_nodes g' = ?nodes"
      "g_edges g' = (g_edges g)[i := e\<lparr>e_dst := pad_of new 0\<rparr>] @
        [\<lparr>e_src = pad_of new 0, e_dst = e_dst e, e_policy = e_policy e, e_capacity = e_capacity e\<rparr>]"
    using assms(2,3) by (auto simp: insert_on_edge_def push_node_def Let_def node_id_id get_def split: if_splits)
  have wf: "pad_ok ?nodes Out (e_src e') \<and> pad_ok ?nodes In (e_dst e')" if "e' \<in> set (g_edges g)" for e'
    using assms(1) that by (auto simp: graph_wf_def push_node_def intro: pad_ok_append)
  have pads: "pad_ok ?nodes d (pad_of new 0)" for d
    by (cases d) (auto simp: pad_ok_def pad_of_def pad_count_def push_node_def new)
  show ?thesis
    unfolding graph_wf_def g' using wf pads e set_update_subset_insert [of "g_edges g" i] by fastforce
qed

text \<open>A flattened bin: the ghost pads of the instance are pads of the host.\<close>

definition bin_wf :: "('e, 'c) bin \<Rightarrow> bool" where
  "bin_wf b \<longleftrightarrow> graph_wf (bin_graph b) \<and>
     (\<forall>p \<in> set (bin_ghost_in b). pad_ok (g_nodes (bin_graph b)) In p) \<and> distinct (bin_ghost_in b) \<and>
     (\<forall>p \<in> set (bin_ghost_out b). pad_ok (g_nodes (bin_graph b)) Out p) \<and> distinct (bin_ghost_out b)"

lemma bin_wf_ghost_input: "bin_wf b \<Longrightarrow> ghost_input pad b = Inr b' \<Longrightarrow> bin_wf b'"
  by (auto simp: bin_wf_def ghost_input_def check_pad_ok split: if_splits)

lemma bin_wf_ghost_output: "bin_wf b \<Longrightarrow> ghost_output pad b = Inr b' \<Longrightarrow> bin_wf b'"
  by (auto simp: bin_wf_def ghost_output_def check_pad_ok split: if_splits)

lemma offset_pad_inj: "offset_pad k p = offset_pad k q \<longleftrightarrow> p = q"
  by (cases p; cases q) (auto simp: offset_pad_def)

lemma add_bin_ok:
  assumes "bin_wf b" "graph_wf g" "length (g_nodes g) < 2 ^ 32" "add_bin b g = (inst, g')"
  shows "graph_wf g'"
    and "\<forall>p \<in> set (bi_ghost_in inst). pad_ok (g_nodes g') In p"
    and "\<forall>p \<in> set (bi_ghost_out inst). pad_ok (g_nodes g') Out p"
    and "distinct (bi_ghost_in inst)" "distinct (bi_ghost_out inst)"
proof -
  have offset: "node_id (length (g_nodes g)) = length (g_nodes g)" using assms(3) by (rule node_id_id)
  have g': "g' = snd (merge (bin_graph b) g)"
    and inst: "inst = \<lparr>bi_ghost_in = map (offset_pad (length (g_nodes g))) (bin_ghost_in b),
      bi_ghost_out = map (offset_pad (length (g_nodes g))) (bin_ghost_out b)\<rparr>"
    using assms(4) offset by (auto simp: add_bin_def merge_def Let_def)
  show "graph_wf g'" unfolding g' using assms graph_wf_merge by (auto simp: bin_wf_def)
  have nodes: "g_nodes g' = g_nodes g @ g_nodes (bin_graph b)" by (simp add: g' merge_def Let_def)
  show "\<forall>p \<in> set (bi_ghost_in inst). pad_ok (g_nodes g') In p"
    "\<forall>p \<in> set (bi_ghost_out inst). pad_ok (g_nodes g') Out p"
    using assms(1) unfolding inst nodes bin_wf_def by auto
  show "distinct (bi_ghost_in inst)" "distinct (bi_ghost_out inst)"
    using assms(1) by (auto simp: inst bin_wf_def distinct_map inj_on_def offset_pad_inj)
qed

section \<open>Validated graphs\<close>

text \<open>The edge relation on nodes.\<close>

definition edge_rel :: "edge list \<Rightarrow> (node_id \<times> node_id) set" where
  "edge_rel edges = {(pad_node (e_src e), pad_node (e_dst e)) |e. e \<in> set edges}"

definition graph_ok :: "('e, 'c) validated_graph \<Rightarrow> bool" where
  "graph_ok vg \<longleftrightarrow>
     node_count vg \<le> 2 ^ 32 \<and>
     length (vg_in_edges vg) = node_count vg \<and> length (vg_out_edges vg) = node_count vg \<and>
     (\<forall>e < edge_count vg. pad_node (e_src (vg_edge vg e)) < node_count vg \<and>
        pad_node (e_dst (vg_edge vg e)) < node_count vg) \<and>
     (\<forall>v < node_count vg.
        in_edges_of vg v = filter (\<lambda>e. pad_node (e_dst (vg_edge vg e)) = v) [0..<edge_count vg] \<and>
        out_edges_of vg v = filter (\<lambda>e. pad_node (e_src (vg_edge vg e)) = v) [0..<edge_count vg] \<and>
        in_edges_of vg v @ out_edges_of vg v \<noteq> [] \<and> \<not> is_degenerate_fan (vg_kind vg v) \<and>
        distinct (map (\<lambda>e. unat (pad_index (e_dst (vg_edge vg e)))) (in_edges_of vg v)) \<and>
        (\<lambda>e. unat (pad_index (e_dst (vg_edge vg e)))) ` set (in_edges_of vg v) = {..<unat (in_pads (vg_kind vg v))} \<and>
        distinct (map (\<lambda>e. unat (pad_index (e_src (vg_edge vg e)))) (out_edges_of vg v)) \<and>
        (\<lambda>e. unat (pad_index (e_src (vg_edge vg e)))) ` set (out_edges_of vg v) = {..<unat (out_pads (vg_kind vg v))}) \<and>
     distinct (vg_topo vg) \<and> set (vg_topo vg) = {..<node_count vg} \<and>
     (\<forall>e < edge_count vg. precedes (vg_topo vg) (pad_node (e_src (vg_edge vg e))) (pad_node (e_dst (vg_edge vg e))))"

lemma check_nodes_ok:
  "check_nodes g ie oe is = Some (Inr ()) \<longleftrightarrow> (\<forall>i \<in> set is. check_node g ie oe i = Some (Inr ()))"
  by (induction "is") (auto split: option.splits sum.splits)

lemma check_nodes_total:
  "(\<And>i. i \<in> set is \<Longrightarrow> \<exists>r. check_node g ie oe i = Some r) \<Longrightarrow> \<exists>r. check_nodes g ie oe is = Some r"
  by (induction "is") (fastforce split: option.splits sum.splits)+

lemma check_nodes_err:
  "check_nodes g ie oe is = Some (Inl e) \<Longrightarrow> \<exists>i \<in> set is. check_node g ie oe i = Some (Inl e)"
  by (induction "is") (auto split: option.splits sum.splits)

lemma check_pads_not_cycle: "check_pads count is node dir \<noteq> Some (Inl (Cycle ns))"
  by (auto simp: check_pads_def pad_verdict_def Let_def split: option.splits if_splits dest!: find_map_Some)

lemma check_node_not_cycle: "check_node g ie oe i \<noteq> Some (Inl (Cycle ns))"
  using check_pads_not_cycle by (auto simp: check_node_def Let_def split: option.splits sum.splits)

lemma finish_spec:
  assumes wf: "graph_wf g" and n: "length (g_nodes g) \<le> 2 ^ 32"
  obtains (valid) vg where "finish g = Some (Inr vg)" "graph_ok vg" "vg_nodes vg = g_nodes g" "vg_edges vg = g_edges g"
  | (cyclic) nodes where "finish g = Some (Inl (Cycle nodes))" "nodes \<noteq> []" "set nodes \<subseteq> {..<length (g_nodes g)}"
      "\<And>v. v \<in> set nodes \<Longrightarrow> \<exists>u \<in> set nodes. (u, v) \<in> edge_rel (g_edges g)"
  | (pads) err where "finish g = Some (Inl err)" "\<And>nodes. err \<noteq> Cycle nodes"
proof -
  let ?n = "length (g_nodes g)" and ?es = "g_edges g"
  have ends: "pad_node (e_src (?es ! e)) < ?n \<and> pad_node (e_dst (?es ! e)) < ?n" if "e < length ?es" for e
    using wf nth_mem [OF that] by (auto simp: graph_wf_def pad_ok_def)
  obtain oe where oe: "build_adjacency e_src 0 ?es (replicate ?n []) = Some oe" "length oe = ?n"
    "\<And>v. v < ?n \<Longrightarrow> oe ! v = filter (\<lambda>i. pad_node (e_src (?es ! i)) = v) [0..<length ?es]"
    using wf by (auto simp: graph_wf_def pad_ok_def intro: build_adjacency_ok [of ?es e_src ?n])
  obtain ie where ie: "build_adjacency e_dst 0 ?es (replicate ?n []) = Some ie" "length ie = ?n"
    "\<And>v. v < ?n \<Longrightarrow> ie ! v = filter (\<lambda>i. pad_node (e_dst (?es ! i)) = v) [0..<length ?es]"
    using wf by (auto simp: graph_wf_def pad_ok_def intro: build_adjacency_ok [of ?es e_dst ?n])
  have inp: "i < in_pads (nd_kind (g_nodes g ! v))"
    if "v < ?n" "i \<in> set (map (\<lambda>e. pad_index (e_dst (?es ! e))) (ie ! v))" for v i
    using that ie(3) [of v] wf nth_mem by (fastforce simp: graph_wf_def pad_ok_def pad_count_def)
  have outp: "i < out_pads (nd_kind (g_nodes g ! v))"
    if "v < ?n" "i \<in> set (map (\<lambda>e. pad_index (e_src (?es ! e))) (oe ! v))" for v i
    using that oe(3) [of v] wf nth_mem by (fastforce simp: graph_wf_def pad_ok_def pad_count_def)
  let ?ip = "\<lambda>v. map (\<lambda>e. pad_index (e_dst (?es ! e))) (ie ! v)"
  let ?op = "\<lambda>v. map (\<lambda>e. pad_index (e_src (?es ! e))) (oe ! v)"
  let ?kind = "\<lambda>v. nd_kind (g_nodes g ! v)"
  have pads_total: "\<exists>r. check_pads (in_pads (?kind v)) (?ip v) (node_id v) In = Some r"
      "\<exists>r. check_pads (out_pads (?kind v)) (?op v) (node_id v) Out = Some r" if "v < ?n" for v
    by (rule check_pads_total, erule inp [OF that]) (rule check_pads_total, erule outp [OF that])
  have pads_ok: "check_pads (in_pads (?kind v)) (?ip v) (node_id v) In = Some (Inr ()) \<longleftrightarrow>
        distinct (map unat (?ip v)) \<and> set (map unat (?ip v)) = {..<unat (in_pads (?kind v))}"
      "check_pads (out_pads (?kind v)) (?op v) (node_id v) Out = Some (Inr ()) \<longleftrightarrow>
        distinct (map unat (?op v)) \<and> set (map unat (?op v)) = {..<unat (out_pads (?kind v))}"
    if "v < ?n" for v
    by (rule check_pads_ok, erule inp [OF that]) (rule check_pads_ok, erule outp [OF that])
  have total: "\<exists>r. check_node g ie oe v = Some r" if "v < ?n" for v
    using pads_total [OF that] by (auto simp: check_node_def Let_def split: sum.splits)
  then obtain r where r: "check_nodes g ie oe [0..<?n] = Some r"
    using check_nodes_total [of "[0..<?n]" g ie oe] by auto
  show thesis
  proof (cases r)
    case (Inl err)
    then have "\<exists>i. check_node g ie oe i = Some (Inl err)" using check_nodes_err r by blast
    then have "\<And>nodes. err \<noteq> Cycle nodes" using check_node_not_cycle by blast
    then show thesis using pads r Inl oe ie by (auto simp: finish_def Let_def)
  next
    case (Inr u)
    then have node: "check_node g ie oe v = Some (Inr ())" if "v < ?n" for v
      using check_nodes_ok [of g ie oe "[0..<?n]"] r that by simp
    show thesis
    proof (rule topo_sort_ok [OF ends oe(3) ie(3) oe(2) ie(2) n])
      fix topo
      assume 1: "topo_sort ?n ie oe ?es = Some (Inr topo)" "distinct topo" "set topo = {..<?n}"
        "\<And>e. e < length ?es \<Longrightarrow> precedes topo (pad_node (e_src (?es ! e))) (pad_node (e_dst (?es ! e)))"
      let ?vg = "\<lparr>vg_nodes = g_nodes g, vg_edges = ?es, vg_topo = topo, vg_in_edges = ie, vg_out_edges = oe\<rparr>"
      have f: "finish g = Some (Inr ?vg)" using 1(1) r Inr oe ie by (simp add: finish_def Let_def)
      have pads: "ie ! v @ oe ! v \<noteq> [] \<and> \<not> is_degenerate_fan (nd_kind (g_nodes g ! v)) \<and>
          distinct (map (\<lambda>e. unat (pad_index (e_dst (?es ! e)))) (ie ! v)) \<and>
          (\<lambda>e. unat (pad_index (e_dst (?es ! e)))) ` set (ie ! v) = {..<unat (in_pads (nd_kind (g_nodes g ! v)))} \<and>
          distinct (map (\<lambda>e. unat (pad_index (e_src (?es ! e)))) (oe ! v)) \<and>
          (\<lambda>e. unat (pad_index (e_src (?es ! e)))) ` set (oe ! v) = {..<unat (out_pads (nd_kind (g_nodes g ! v)))}"
        if "v < ?n" for v
      proof -
        have "check_pads (in_pads (?kind v)) (?ip v) (node_id v) In = Some (Inr ())"
          "check_pads (out_pads (?kind v)) (?op v) (node_id v) Out = Some (Inr ())"
          "ie ! v @ oe ! v \<noteq> [] \<and> \<not> is_degenerate_fan (?kind v)"
          using node [OF that] by (auto simp: check_node_def Let_def split: if_splits option.splits sum.splits)
        then show ?thesis using pads_ok [OF that] by (simp add: comp_def image_image)
      qed
      have "graph_ok ?vg"
        unfolding graph_ok_def node_count_def edge_count_def vg_edge_def vg_kind_def in_edges_of_def
          out_edges_of_def validated_graph.simps
        using n ie(2,3) oe(2,3) ends pads 1(2-4) by simp
      then show thesis using valid [OF f] by simp
    next
      fix nodes
      assume 2: "topo_sort ?n ie oe ?es = Some (Inl (Cycle nodes))" "nodes \<noteq> []" "set nodes \<subseteq> {..<?n}"
        "\<And>v. v \<in> set nodes \<Longrightarrow>
          \<exists>e < length ?es. pad_node (e_dst (?es ! e)) = v \<and> pad_node (e_src (?es ! e)) \<in> set nodes"
      have f: "finish g = Some (Inl (Cycle nodes))" using 2(1) r Inr oe ie by (simp add: finish_def Let_def)
      show thesis
      proof (rule cyclic [OF f 2(2,3)])
        show "\<exists>u \<in> set nodes. (u, v) \<in> edge_rel ?es" if "v \<in> set nodes" for v
          using 2(4) [OF that] nth_mem unfolding edge_rel_def by blast
      qed
    qed
  qed
qed


section \<open>Consequences of validity\<close>

lemma no_minimal_cyclic:
  assumes "finite N" "N \<noteq> {}" "\<And>v. v \<in> N \<Longrightarrow> \<exists>u \<in> N. (u, v) \<in> R"
  shows "\<not> acyclic R"
proof
  assume "acyclic R"
  let ?S = "R \<inter> N \<times> N"
  have "acyclic ?S" using \<open>acyclic R\<close> by (rule acyclic_subset) auto
  moreover have "finite ?S" using assms(1) by auto
  ultimately have "wf ?S" by (simp add: finite_acyclic_wf)
  obtain x where "x \<in> N" using assms(2) by blast
  then obtain m where m: "m \<in> N" "\<And>u. (u, m) \<in> ?S \<Longrightarrow> u \<notin> N"
    using wfE_min [OF \<open>wf ?S\<close> \<open>x \<in> N\<close>] by metis
  then show False using assms(3) [OF m(1)] by blast
qed

lemma precedes_index:
  assumes "distinct xs" "precedes xs a b"
  shows "the (position ((=) a) xs) < the (position ((=) b) xs)"
proof -
  obtain j i where j: "j < length xs" "xs ! j = b" "i < j" "xs ! i = a"
    using assms(2) by (auto simp: precedes_def in_set_conv_nth)
  have "position ((=) b) xs = Some j" "position ((=) a) xs = Some i"
    unfolding position_Some using j assms(1) by (auto simp: nth_eq_iff_index_eq)
  then show ?thesis using j by simp
qed

lemma graph_ok_acyclic:
  assumes "graph_ok vg"
  shows "acyclic (edge_rel (vg_edges vg))"
proof (rule acyclicI_order)
  fix a b
  assume "(a, b) \<in> edge_rel (vg_edges vg)"
  then obtain e where "e < edge_count vg" "a = pad_node (e_src (vg_edge vg e))" "b = pad_node (e_dst (vg_edge vg e))"
    by (auto simp: edge_rel_def in_set_conv_nth edge_count_def vg_edge_def)
  then have "precedes (vg_topo vg) a b" "distinct (vg_topo vg)"
    using assms by (simp_all add: graph_ok_def)
  then show "- int (the (position ((=) b) (vg_topo vg))) < - int (the (position ((=) a) (vg_topo vg)))"
    using precedes_index by fastforce
qed

definition edge_src :: "('e, 'c) validated_graph \<Rightarrow> nat \<Rightarrow> node_id" where
  "edge_src vg e = pad_node (e_src (vg_edge vg e))"

definition edge_dst :: "('e, 'c) validated_graph \<Rightarrow> nat \<Rightarrow> node_id" where
  "edge_dst vg e = pad_node (e_dst (vg_edge vg e))"

lemma graph_ok_edges:
  assumes "graph_ok vg" "e < edge_count vg"
  shows "edge_src vg e < node_count vg" "edge_dst vg e < node_count vg"
    "precedes (vg_topo vg) (edge_src vg e) (edge_dst vg e)"
  using assms by (simp_all add: graph_ok_def edge_src_def edge_dst_def)

lemma graph_ok_in_edges:
  assumes "graph_ok vg" "v < node_count vg"
  shows "e \<in> set (in_edges_of vg v) \<longleftrightarrow> e < edge_count vg \<and> edge_dst vg e = v"
    "e \<in> set (out_edges_of vg v) \<longleftrightarrow> e < edge_count vg \<and> edge_src vg e = v"
    "distinct (in_edges_of vg v)" "distinct (out_edges_of vg v)"
    "length (in_edges_of vg v) = unat (in_pads (vg_kind vg v))"
    "length (out_edges_of vg v) = unat (out_pads (vg_kind vg v))"
proof -
  have eq: "in_edges_of vg v = filter (\<lambda>e. edge_dst vg e = v) [0..<edge_count vg]"
    "out_edges_of vg v = filter (\<lambda>e. edge_src vg e = v) [0..<edge_count vg]"
    using assms by (simp_all add: graph_ok_def edge_src_def edge_dst_def)
  then show "e \<in> set (in_edges_of vg v) \<longleftrightarrow> e < edge_count vg \<and> edge_dst vg e = v"
    "e \<in> set (out_edges_of vg v) \<longleftrightarrow> e < edge_count vg \<and> edge_src vg e = v"
    "distinct (in_edges_of vg v)" "distinct (out_edges_of vg v)" by auto
  have d: "distinct (map (\<lambda>e. unat (pad_index (e_dst (vg_edge vg e)))) (in_edges_of vg v))"
    "set (map (\<lambda>e. unat (pad_index (e_dst (vg_edge vg e)))) (in_edges_of vg v)) = {..<unat (in_pads (vg_kind vg v))}"
    "distinct (map (\<lambda>e. unat (pad_index (e_src (vg_edge vg e)))) (out_edges_of vg v))"
    "set (map (\<lambda>e. unat (pad_index (e_src (vg_edge vg e)))) (out_edges_of vg v)) = {..<unat (out_pads (vg_kind vg v))}"
    unfolding set_map using assms unfolding graph_ok_def by blast+
  show "length (in_edges_of vg v) = unat (in_pads (vg_kind vg v))"
    using distinct_card [OF d(1)] by (simp only: d(2) card_lessThan length_map)
  show "length (out_edges_of vg v) = unat (out_pads (vg_kind vg v))"
    using distinct_card [OF d(3)] by (simp only: d(4) card_lessThan length_map)
qed

lemma graph_ok_topo:
  assumes "graph_ok vg"
  shows "distinct (vg_topo vg)" "set (vg_topo vg) = {..<node_count vg}"
  using assms by (simp_all add: graph_ok_def)

lemma graph_ok_singletons:
  assumes "graph_ok vg" "v < node_count vg"
  shows "vg_kind vg v = Source \<Longrightarrow> \<exists>e. out_edges_of vg v = [e] \<and> in_edges_of vg v = []"
    and "vg_kind vg v = Sink \<Longrightarrow> \<exists>e. in_edges_of vg v = [e] \<and> out_edges_of vg v = []"
    and "vg_kind vg v = Transform \<Longrightarrow> \<exists>i e. in_edges_of vg v = [i] \<and> out_edges_of vg v = [e]"
    and "vg_kind vg v = Tee k \<Longrightarrow> \<exists>e. in_edges_of vg v = [e]"
    and "vg_kind vg v = Muxer k \<Longrightarrow> \<exists>e. out_edges_of vg v = [e]"
  using graph_ok_in_edges(5,6) [OF assms] by (auto simp: length_Suc_conv)

text \<open>An edge never joins a node to itself.\<close>

lemma graph_ok_no_loop:
  assumes "graph_ok vg" "e < edge_count vg"
  shows "edge_src vg e \<noteq> edge_dst vg e"
  using precedes_index [OF graph_ok_topo(1) [OF assms(1)] graph_ok_edges(3) [OF assms]] by auto

end
