(* ===== verification/GraphSolver.thy ===== *)
theory GraphSolver
  imports Negotiate Graph
begin

text \<open>
  The graph form of the caps solver (\<^verbatim>\<open>g2g-core/src/runtime/solver.rs\<close>): each edge of a validated
  graph is a variable holding a set of caps, narrowed by the nodes at its two ends in
  topological order and back until nothing changes, then fixated by a backtracking search, or
  by the least-cost chain where an element declares costs. Logging is left out.
\<close>

section \<open>Node constraints\<close>

datatype node_constraint =
  Element caps_constraint
| MuxerC "caps_constraint list" caps_constraint "nat option"
| DemuxC caps_constraint "caps_constraint list"
| BatchMuxer "caps_constraint list"
| BatchDemux caps_constraint

type_synonym edge_slots = "caps_set option list"

definition edge_endpoints :: "('e, 'c) validated_graph \<Rightarrow> nat \<Rightarrow> nat \<times> nat" where
  "edge_endpoints g eid = (edge_src g eid, edge_dst g eid)"

definition dst_pad :: "('e, 'c) validated_graph \<Rightarrow> nat \<Rightarrow> nat" where
  "dst_pad g e = unat (pad_index (e_dst (vg_edge g e)))"

definition src_pad :: "('e, 'c) validated_graph \<Rightarrow> nat \<Rightarrow> nat" where
  "src_pad g e = unat (pad_index (e_src (vg_edge g e)))"

section \<open>Narrowing\<close>

definition unwrap_or_empty :: "caps_set option \<Rightarrow> caps_set" where
  "unwrap_or_empty slot = (case slot of Some s \<Rightarrow> s | None \<Rightarrow> [])"

definition narrow_edge ::
  "('e, 'c) validated_graph \<Rightarrow> nat \<Rightarrow> caps_set \<Rightarrow> node_id \<Rightarrow> edge_slots \<Rightarrow> negotiation_failure + edge_slots"
  where
  "narrow_edge g eid contrib by_node edges =
     (let next = intersect_slot (edges ! eid) contrib in
      if next = [] then
        (let (up, down) = edge_endpoints g eid; other = unwrap_or_empty (edges ! eid) in
         Inl (if edge_src g eid = by_node then empty_link_conflict up down contrib other
              else empty_link_conflict up down other contrib))
      else Inr (edges[eid := Some next]))"

definition couple_edges ::
  "('e, 'c) validated_graph \<Rightarrow> nat \<Rightarrow> nat \<Rightarrow> edge_slots \<Rightarrow> negotiation_failure + edge_slots" where
  "couple_edges g a b edges =
     (case (edges ! a, edges ! b) of
        (Some sa, Some sb) \<Rightarrow>
          (let coupled = set_intersect sa sb in
           if coupled = []
           then Inl (empty_link_conflict (fst (edge_endpoints g a)) (snd (edge_endpoints g b)) sa sb)
           else Inr (edges[a := Some coupled, b := Some coupled]))
      | (Some sa, None) \<Rightarrow> Inr (edges[b := Some sa])
      | (None, Some sb) \<Rightarrow> Inr (edges[a := Some sb])
      | (None, None) \<Rightarrow> Inr edges)"

text \<open>The arm of a derived transform: forward image, then the given backward walk.\<close>

definition apply_derived_node ::
  "('e, 'c) validated_graph \<Rightarrow> (caps \<Rightarrow> caps_set) \<Rightarrow> (caps_set \<Rightarrow> caps_set \<Rightarrow> unit + caps_set option) \<Rightarrow>
     nat \<Rightarrow> nat \<Rightarrow> node_id \<Rightarrow> edge_slots \<Rightarrow> negotiation_failure + edge_slots" where
  "apply_derived_node g f backward in_e out_e node edges =
     bind_res
       (case edges ! in_e of
          Some in_set \<Rightarrow>
            (let derived = forward_derived_union f in_set in
             if derived = []
             then Inl (NoOutputForInput (fst (edge_endpoints g out_e)) (snd (edge_endpoints g out_e)) in_set)
             else narrow_edge g out_e derived node edges)
        | None \<Rightarrow> Inr edges)
       (\<lambda>edges.
          case (edges ! in_e, edges ! out_e) of
            (Some in_set, Some out_set) \<Rightarrow>
              (case backward in_set out_set of
                 Inr (Some narrowed) \<Rightarrow> Inr (edges[in_e := Some narrowed])
               | Inr None \<Rightarrow> Inr edges
               | Inl _ \<Rightarrow> Inl (empty_link (fst (edge_endpoints g in_e)) (snd (edge_endpoints g in_e))))
          | _ \<Rightarrow> Inr edges)"

definition apply_mapping_node ::
  "('e, 'c) validated_graph \<Rightarrow> (caps_set \<times> caps_set) list \<Rightarrow> nat \<Rightarrow> nat \<Rightarrow> edge_slots \<Rightarrow>
     negotiation_failure + edge_slots" where
  "apply_mapping_node g pairs in_e out_e edges =
     (case mapping_pairs pairs (edges ! in_e) (edges ! out_e) ([], []) of
        (new_in, new_out) \<Rightarrow>
          if new_in = [] \<or> new_out = [] then
            Inl (empty_link_conflict (fst (edge_endpoints g in_e)) (snd (edge_endpoints g out_e))
                   (unwrap_or_empty (edges ! in_e)) (unwrap_or_empty (edges ! out_e)))
          else Inr (edges[in_e := Some new_in, out_e := Some new_out]))"

fun apply_transform_node ::
  "('e, 'c) validated_graph \<Rightarrow> caps_constraint \<Rightarrow> nat \<Rightarrow> nat \<Rightarrow> node_id \<Rightarrow> edge_slots \<Rightarrow>
     negotiation_failure + edge_slots" where
  "apply_transform_node g (Identity s) in_e out_e node edges =
     bind_res (narrow_edge g in_e s node edges) (\<lambda>edges.
     bind_res (narrow_edge g out_e s node edges) (\<lambda>edges.
       couple_edges g in_e out_e edges))"
| "apply_transform_node g IdentityAny in_e out_e node edges = couple_edges g in_e out_e edges"
| "apply_transform_node g (Mapping pairs) in_e out_e node edges =
     apply_mapping_node g pairs in_e out_e edges"
| "apply_transform_node g (DerivedOutput f) in_e out_e node edges =
     apply_derived_node g f (derived_backward f) in_e out_e node edges"
| "apply_transform_node g (DerivedFields t) in_e out_e node edges =
     apply_derived_node g (derive t) (backward_field_narrow (derive t) (transform_passthrough t))
       in_e out_e node edges"
| "apply_transform_node g _ in_e out_e node edges = Inl (EndpointShapeMismatch node)"

definition tee_meet :: "edge_slots \<Rightarrow> caps_set option \<Rightarrow> nat \<Rightarrow> caps_set option" where
  "tee_meet edges acc oe =
     (case edges ! oe of
        Some s \<Rightarrow> Some (case acc of Some a \<Rightarrow> set_intersect a s | None \<Rightarrow> s)
      | None \<Rightarrow> acc)"

definition apply_tee_node ::
  "('e, 'c) validated_graph \<Rightarrow> nat \<Rightarrow> nat list \<Rightarrow> edge_slots \<Rightarrow> negotiation_failure + edge_slots" where
  "apply_tee_node g in_e out_e edges =
     (case foldl (tee_meet edges) (edges ! in_e) out_e of
        None \<Rightarrow> Inr edges
      | Some coupled \<Rightarrow>
          if coupled = []
          then Inl (empty_link (fst (edge_endpoints g in_e)) (snd (edge_endpoints g in_e)))
          else Inr (foldl (\<lambda>es oe. es[oe := Some coupled]) (edges[in_e := Some coupled]) out_e))"

definition apply_port ::
  "('e, 'c) validated_graph \<Rightarrow> node_id \<Rightarrow> nat \<Rightarrow> caps_constraint list \<Rightarrow> nat \<Rightarrow> edge_slots \<Rightarrow>
     negotiation_failure + edge_slots" where
  "apply_port g node in_e ports oe edges =
     (case get ports (src_pad g oe) of
        Some (Produces s) \<Rightarrow> narrow_edge g oe s node edges
      | Some follows_input \<Rightarrow> apply_transform_node g follows_input in_e oe node edges
      | None \<Rightarrow> Inr edges)"

definition accept_input ::
  "('e, 'c) validated_graph \<Rightarrow> node_id \<Rightarrow> nat \<Rightarrow> caps_constraint \<Rightarrow> edge_slots \<Rightarrow>
     negotiation_failure + edge_slots" where
  "accept_input g node in_e input edges =
     (case input of Accepts s \<Rightarrow> narrow_edge g in_e s node edges | _ \<Rightarrow> Inr edges)"

definition apply_demux_node ::
  "('e, 'c) validated_graph \<Rightarrow> node_id \<Rightarrow> nat \<Rightarrow> nat list \<Rightarrow> caps_constraint \<Rightarrow> caps_constraint list \<Rightarrow>
     edge_slots \<Rightarrow> negotiation_failure + edge_slots" where
  "apply_demux_node g node in_e out_e input ports edges =
     bind_res (accept_input g node in_e input edges) (fold_res (apply_port g node in_e ports) out_e)"

definition narrow_input_pad ::
  "('e, 'c) validated_graph \<Rightarrow> node_id \<Rightarrow> caps_constraint list \<Rightarrow> nat \<Rightarrow> edge_slots \<Rightarrow>
     negotiation_failure + edge_slots" where
  "narrow_input_pad g node inputs eid edges =
     (case get inputs (dst_pad g eid) of
        Some (Accepts s) \<Rightarrow> narrow_edge g eid s node edges
      | Some AcceptsAny \<Rightarrow> Inr edges
      | _ \<Rightarrow> Inl (EndpointShapeMismatch node))"

definition narrow_muxer_inputs ::
  "('e, 'c) validated_graph \<Rightarrow> node_id \<Rightarrow> caps_constraint list \<Rightarrow> edge_slots \<Rightarrow>
     negotiation_failure + edge_slots" where
  "narrow_muxer_inputs g node inputs edges =
     fold_res (narrow_input_pad g node inputs) (in_edges_of g node) edges"

definition apply_muxer_node ::
  "('e, 'c) validated_graph \<Rightarrow> node_id \<Rightarrow> caps_constraint list \<Rightarrow> caps_constraint \<Rightarrow> nat option \<Rightarrow>
     edge_slots \<Rightarrow> negotiation_failure + edge_slots" where
  "apply_muxer_node g node inputs output follows edges =
     bind_res (narrow_muxer_inputs g node inputs edges) (\<lambda>edges.
       (let out_edge = out_edges_of g node ! 0 in
        case follows of
          Some pad \<Rightarrow>
            bind_res
              (ok_or (List.find (\<lambda>e. dst_pad g e = pad) (in_edges_of g node)) (EndpointShapeMismatch node))
              (\<lambda>in_edge. couple_edges g in_edge out_edge edges)
        | None \<Rightarrow>
            (case output of
               Produces s \<Rightarrow> narrow_edge g out_edge s node edges
             | _ \<Rightarrow> Inl (EndpointShapeMismatch node))))"

text \<open>\<^verbatim>\<open>pads.sort_unstable()\<close> on pairs of pad index and edge id; the pad indices are distinct.\<close>

definition pads_in_order :: "('e, 'c) validated_graph \<Rightarrow> node_id \<Rightarrow> (nat \<times> nat) list" where
  "pads_in_order g node = sort_key fst (sort_key snd (map (\<lambda>e. (dst_pad g e, e)) (in_edges_of g node)))"

definition batch_stream_step :: "nat \<Rightarrow> nat \<Rightarrow> caps list \<Rightarrow> caps \<Rightarrow> caps list" where
  "batch_stream_step streams stream out alternative =
     (case alternative of
        Batch batch \<Rightarrow> if length batch = streams then push_unique out (batch ! stream) else out
      | _ \<Rightarrow> out)"

definition batch_stream_alternatives :: "caps_set \<Rightarrow> nat \<Rightarrow> nat \<Rightarrow> caps_set" where
  "batch_stream_alternatives s streams stream = foldl (batch_stream_step streams stream) [] s"

fun all_some :: "'a option list \<Rightarrow> 'a list option" where
  "all_some [] = Some []"
| "all_some (None # xs) = None"
| "all_some (Some x # xs) = map_option (Cons x) (all_some xs)"

definition preferred_batch :: "caps list list \<Rightarrow> caps list" where
  "preferred_batch streams =
     (case all_some (map (\<lambda>alternatives. case alternatives of [] \<Rightarrow> None | c # _ \<Rightarrow> Some c) streams) of
        Some cs \<Rightarrow> [Batch cs]
      | None \<Rightarrow> [])"

definition apply_batch_muxer_node ::
  "('e, 'c) validated_graph \<Rightarrow> node_id \<Rightarrow> caps_constraint list \<Rightarrow> edge_slots \<Rightarrow>
     negotiation_failure + edge_slots" where
  "apply_batch_muxer_node g node inputs edges =
     bind_res (narrow_muxer_inputs g node inputs edges) (\<lambda>edges.
       (let out_edge = out_edges_of g node ! 0; pads = pads_in_order g node in
        bind_res
          (case all_some (map (\<lambda>(_, e). edges ! e) pads) of
             Some input_sets \<Rightarrow>
               (let batches = (case batch_alternatives input_sets of
                                 Some b \<Rightarrow> b
                               | None \<Rightarrow> preferred_batch input_sets) in
                narrow_edge g out_edge batches node edges)
           | None \<Rightarrow> Inr edges)
          (\<lambda>edges.
             case edges ! out_edge of
               Some output \<Rightarrow>
                 fold_res (\<lambda>(stream, (_, e)).
                   narrow_edge g e (batch_stream_alternatives output (length pads) stream) node)
                   (enumerate 0 pads) edges
             | None \<Rightarrow> Inr edges)))"

definition batch_demux_alternative ::
  "nat \<Rightarrow> caps_set list \<Rightarrow> negotiation_failure \<Rightarrow> caps \<Rightarrow> caps list \<Rightarrow> negotiation_failure + caps list" where
  "batch_demux_alternative ports port_sets too_many alternative narrowed =
     (case alternative of
        Batch streams \<Rightarrow>
          if length streams \<noteq> ports then Inr narrowed
          else
            bind_res
              (ok_or
                (batch_alternatives
                   (map2 (\<lambda>stream port. List.map_filter (\<lambda>c. res_ok (caps_intersect stream c)) port)
                      streams port_sets))
                too_many)
              (\<lambda>batches.
                 (let narrowed' = extend_unique narrowed batches in
                  if length narrowed' > MAX_BATCH_ALTERNATIVES then Inl too_many else Inr narrowed'))
      | _ \<Rightarrow> Inr narrowed)"

text \<open>The slots of the ports in pad order; a pad index past the port count writes nothing.\<close>

definition port_slots :: "('e, 'c) validated_graph \<Rightarrow> nat list \<Rightarrow> edge_slots \<Rightarrow> caps_set option list" where
  "port_slots g out_e edges =
     foldl (\<lambda>slots oe. slots[src_pad g oe := edges ! oe]) (replicate (length out_e) None) out_e"

definition apply_batch_demux_node ::
  "('e, 'c) validated_graph \<Rightarrow> node_id \<Rightarrow> nat \<Rightarrow> nat list \<Rightarrow> caps_constraint \<Rightarrow> edge_slots \<Rightarrow>
     negotiation_failure + edge_slots" where
  "apply_batch_demux_node g node in_e out_e input edges =
     bind_res (accept_input g node in_e input edges) (\<lambda>edges.
       (let ports = length out_e in
        case edges ! in_e of
          None \<Rightarrow> Inr edges
        | Some batches \<Rightarrow>
            bind_res
              (fold_res (\<lambda>oe.
                 narrow_edge g oe (batch_stream_alternatives batches ports (src_pad g oe)) node) out_e edges)
              (\<lambda>edges.
                 case all_some (port_slots g out_e edges) of
                   None \<Rightarrow> Inr edges
                 | Some port_sets \<Rightarrow>
                     bind_res
                       (fold_res (batch_demux_alternative ports port_sets (TooManyBatchAlternatives node))
                          batches [])
                       (\<lambda>narrowed. narrow_edge g in_e narrowed node edges))))"

definition apply_fanout_port ::
  "('e, 'c) validated_graph \<Rightarrow> node_id \<Rightarrow> caps_constraint list \<Rightarrow> nat \<Rightarrow> edge_slots \<Rightarrow>
     negotiation_failure + edge_slots" where
  "apply_fanout_port g node ports oe edges =
     (case get ports (src_pad g oe) of
        Some (Produces s) \<Rightarrow> narrow_edge g oe s node edges
      | _ \<Rightarrow> Inl (EndpointShapeMismatch node))"

definition apply_node ::
  "('e, 'c) validated_graph \<Rightarrow> node_constraint list \<Rightarrow> node_id \<Rightarrow> edge_slots \<Rightarrow>
     negotiation_failure + edge_slots" where
  "apply_node g constraints node edges =
     (let in_e = in_edges_of g node; out_e = out_edges_of g node; nc = constraints ! node;
          shape_err = EndpointShapeMismatch node in
      case vg_kind g node of
        Source \<Rightarrow>
          (case nc of
             Element (Produces s) \<Rightarrow> narrow_edge g (out_e ! 0) s node edges
           | _ \<Rightarrow> Inl shape_err)
      | Sink \<Rightarrow>
          (case nc of
             Element (Accepts s) \<Rightarrow> narrow_edge g (in_e ! 0) s node edges
           | Element AcceptsAny \<Rightarrow> Inr edges
           | _ \<Rightarrow> Inl shape_err)
      | Transform \<Rightarrow>
          (case nc of
             Element c \<Rightarrow> apply_transform_node g c (in_e ! 0) (out_e ! 0) node edges
           | _ \<Rightarrow> Inl shape_err)
      | Tee _ \<Rightarrow>
          (case nc of
             DemuxC input ports \<Rightarrow> apply_demux_node g node (in_e ! 0) out_e input ports edges
           | BatchDemux input \<Rightarrow> apply_batch_demux_node g node (in_e ! 0) out_e input edges
           | _ \<Rightarrow> apply_tee_node g (in_e ! 0) out_e edges)
      | Muxer _ \<Rightarrow>
          (case nc of
             MuxerC inputs output follows \<Rightarrow> apply_muxer_node g node inputs output follows edges
           | BatchMuxer inputs \<Rightarrow> apply_batch_muxer_node g node inputs edges
           | _ \<Rightarrow> Inl shape_err)
      | FaninSink _ \<Rightarrow>
          (case nc of
             MuxerC inputs _ _ \<Rightarrow> narrow_muxer_inputs g node inputs edges
           | _ \<Rightarrow> Inl shape_err)
      | FanoutSrc _ \<Rightarrow>
          (case nc of
             DemuxC _ ports \<Rightarrow> fold_res (apply_fanout_port g node ports) out_e edges
           | _ \<Rightarrow> Inl shape_err))"

section \<open>Fixation\<close>

definition pads_streams :: "('e, 'c) validated_graph \<Rightarrow> (nat \<Rightarrow> caps) \<Rightarrow> node_id \<Rightarrow> caps list" where
  "pads_streams g get_caps node = map (\<lambda>(_, e). get_caps e) (pads_in_order g node)"

text \<open>The match of \<^verbatim>\<open>node_consistent\<close>, on the values of the edges.\<close>

definition node_relation ::
  "('e, 'c) validated_graph \<Rightarrow> node_constraint list \<Rightarrow> (nat \<Rightarrow> caps) \<Rightarrow> node_id \<Rightarrow> bool" where
  "node_relation g constraints get_caps node =
     (let in_e = in_edges_of g node; out_e = out_edges_of g node in
      case vg_kind g node of
        Source \<Rightarrow> True
      | Sink \<Rightarrow> True
      | FaninSink _ \<Rightarrow> True
      | FanoutSrc _ \<Rightarrow> True
      | Muxer _ \<Rightarrow>
          (case constraints ! node of
             BatchMuxer _ \<Rightarrow> get_caps (out_e ! 0) = Batch (pads_streams g get_caps node)
           | _ \<Rightarrow> True)
      | Tee _ \<Rightarrow>
          (case constraints ! node of
             DemuxC _ ports \<Rightarrow>
               list_all (\<lambda>o'.
                 case get ports (src_pad g o') of
                   None \<Rightarrow> True
                 | Some port \<Rightarrow> transform_pair_consistent port (get_caps (in_e ! 0)) (get_caps o')) out_e
           | BatchDemux _ \<Rightarrow>
               (case get_caps (in_e ! 0) of
                  Batch streams \<Rightarrow>
                    length streams = length out_e \<and>
                    list_all (\<lambda>o'. get streams (src_pad g o') = Some (get_caps o')) out_e
                | _ \<Rightarrow> False)
           | _ \<Rightarrow> list_all (\<lambda>o'. get_caps o' = get_caps (in_e ! 0)) out_e)
      | Transform \<Rightarrow>
          (case constraints ! node of
             Element c \<Rightarrow> transform_pair_consistent c (get_caps (in_e ! 0)) (get_caps (out_e ! 0))
           | _ \<Rightarrow> True))"

definition node_consistent ::
  "('e, 'c) validated_graph \<Rightarrow> node_constraint list \<Rightarrow> caps option list \<Rightarrow> node_id \<Rightarrow> bool" where
  "node_consistent g constraints assign node =
     (if list_ex (\<lambda>e. assign ! e = None) (in_edges_of g node @ out_edges_of g node) then True
      else node_relation g constraints (\<lambda>e. the (assign ! e)) node)"

text \<open>
  The search over the edges from \<open>edge\<close> on. The source mutates the assignment in place; here a
  success returns it, and a failure leaves the caller's own copy.
\<close>

function fixate_backtrack ::
  "('e, 'c) validated_graph \<Rightarrow> node_constraint list \<Rightarrow> caps list list \<Rightarrow> nat \<Rightarrow> caps option list \<Rightarrow>
     caps option list option" where
  "fixate_backtrack g constraints domains eid assign =
     (if eid \<ge> length domains then Some assign
      else
        find_map (\<lambda>cand.
          (let assign' = assign[eid := Some cand] in
           if node_consistent g constraints assign' (edge_src g eid) \<and>
              node_consistent g constraints assign' (edge_dst g eid)
           then fixate_backtrack g constraints domains (Suc eid) assign'
           else None)) (domains ! eid))"
  by pat_completeness auto
termination
  by (relation "measure (\<lambda>(_, _, domains, eid, _). length domains - eid)") auto

declare fixate_backtrack.simps [simp del]

definition first_fixation :: "edge_slots \<Rightarrow> caps option list \<Rightarrow> nat \<Rightarrow> caps option" where
  "first_fixation edges targets edge =
     Option.bind (targets ! edge) (\<lambda>target.
     Option.bind (edges ! edge) (\<lambda>s.
       (case fixated_candidates s (Some target) of [] \<Rightarrow> None | c # _ \<Rightarrow> Some c)))"

definition head_of :: "'a list \<Rightarrow> 'a option" where
  "head_of xs = (case xs of [] \<Rightarrow> None | x # _ \<Rightarrow> Some x)"

definition node_target ::
  "('e, 'c) validated_graph \<Rightarrow> node_constraint list \<Rightarrow> edge_slots \<Rightarrow> caps option list \<Rightarrow> node_id \<Rightarrow> caps option"
  where
  "node_target g constraints edges targets node =
     (case constraints ! node of
        Element (Produces s) \<Rightarrow> producer_target s
      | Element c \<Rightarrow>
          (case vg_kind g node of
             Transform \<Rightarrow>
               Option.bind (head_of (in_edges_of g node)) (\<lambda>e.
               Option.bind (first_fixation edges targets e) (transform_target c))
           | Tee _ \<Rightarrow> Option.bind (head_of (in_edges_of g node)) (first_fixation edges targets)
           | _ \<Rightarrow> None)
      | MuxerC _ _ (Some pad) \<Rightarrow>
          (case vg_kind g node of
             Muxer _ \<Rightarrow>
               Option.bind (List.find (\<lambda>e. dst_pad g e = pad) (in_edges_of g node))
                 (first_fixation edges targets)
           | _ \<Rightarrow> None)
      | _ \<Rightarrow> None)"

definition fixation_targets ::
  "('e, 'c) validated_graph \<Rightarrow> node_constraint list \<Rightarrow> edge_slots \<Rightarrow> caps option list" where
  "fixation_targets g constraints edges =
     foldl (\<lambda>targets node.
       (let target = node_target g constraints edges targets node in
        foldl (\<lambda>ts e. ts[e := target]) targets (out_edges_of g node)))
       (replicate (length edges) None) (vg_topo g)"

section \<open>Chains\<close>

fun chain_walk ::
  "('e, 'c) validated_graph \<Rightarrow> nat \<Rightarrow> node_id \<Rightarrow> node_id list \<Rightarrow> nat list \<Rightarrow> (node_id list \<times> nat list) option" where
  "chain_walk g 0 current nodes edges = None"
| "chain_walk g (Suc fuel) current nodes edges =
     (case out_edges_of g current of
        [] \<Rightarrow> Some (nodes @ [current], edges)
      | edge # _ \<Rightarrow> chain_walk g fuel (edge_dst g edge) (nodes @ [current]) (edges @ [edge]))"

fun find_head :: "('e, 'c) validated_graph \<Rightarrow> nat list \<Rightarrow> node_id option \<Rightarrow> node_id option option" where
  "find_head g [] hd_node = Some hd_node"
| "find_head g (i # is) hd_node =
     (let node = node_id i in
      if length (in_edges_of g node) > 1 \<or> length (out_edges_of g node) > 1 then None
      else if in_edges_of g node = [] then
        (if hd_node \<noteq> None then None else find_head g is (Some node))
      else find_head g is hd_node)"

fun is_element :: "node_constraint \<Rightarrow> bool" where
  "is_element (Element _) = True"
| "is_element _ = False"

text \<open>
  The walk follows the edges of an acyclic graph, so it visits at most every node once: the
  node count bounds it.
\<close>

definition chain_order ::
  "('e, 'c) validated_graph \<Rightarrow> node_constraint list \<Rightarrow> (node_id list \<times> nat list) option" where
  "chain_order g constraints =
     (let n = node_count g in
      if n < 2 \<or> edge_count g + 1 \<noteq> n then None
      else if \<not> list_all is_element constraints then None
      else
        Option.bind (find_head g [0..<n] None) (\<lambda>hd_node.
        Option.bind hd_node (\<lambda>start.
        Option.bind (chain_walk g n start [] []) (\<lambda>(nodes, edges).
          if length nodes = n then Some (nodes, edges) else None))))"

fun element_constraint :: "node_constraint \<Rightarrow> caps_constraint" where
  "element_constraint (Element c) = c"
| "element_constraint _ = AcceptsAny"

definition preferred_chain_assignment ::
  "('e, 'c) validated_graph \<Rightarrow> node_constraint list \<Rightarrow> caps_preferences option list \<Rightarrow> caps list list \<Rightarrow>
     caps option list option" where
  "preferred_chain_assignment g constraints preferences domains =
     (if \<not> list_ex (\<lambda>p. p \<noteq> None) preferences then None
      else
        Option.bind (chain_order g constraints) (\<lambda>(nodes, edges).
          (let chain = map (\<lambda>node. chain_node_new (element_constraint (constraints ! node))
                              (preference_at preferences node)) nodes;
               chain_domains = map (\<lambda>e. domains ! e) edges in
           Option.bind (min_cost_chain chain chain_domains) (\<lambda>pick.
             Some (foldl (\<lambda>assign ((edge, candidates), j). assign[edge := Some (candidates ! j)])
               (replicate (length domains) None) (zip (zip edges chain_domains) pick))))))"

section \<open>Solving\<close>

definition graph_sweep ::
  "('e, 'c) validated_graph \<Rightarrow> node_constraint list \<Rightarrow> node_id list \<Rightarrow> edge_slots \<Rightarrow>
     negotiation_failure + edge_slots" where
  "graph_sweep g constraints order edges = fold_res (apply_node g constraints) order edges"

fun graph_fixpoint ::
  "nat \<Rightarrow> ('e, 'c) validated_graph \<Rightarrow> node_constraint list \<Rightarrow> edge_slots \<Rightarrow>
     negotiation_failure + edge_slots" where
  "graph_fixpoint 0 g constraints edges = Inr edges"
| "graph_fixpoint (Suc fuel) g constraints edges =
     (case graph_sweep g constraints (vg_topo g) edges of
        Inl e \<Rightarrow> Inl e
      | Inr forward \<Rightarrow>
          (case graph_sweep g constraints (rev (vg_topo g)) forward of
             Inl e \<Rightarrow> Inl e
           | Inr swept \<Rightarrow>
               if swept = edges then Inr swept else graph_fixpoint fuel g constraints swept))"

definition edge_domain ::
  "('e, 'c) validated_graph \<Rightarrow> caps option list \<Rightarrow> nat \<times> caps_set option \<Rightarrow> negotiation_failure + caps list" where
  "edge_domain g targets p =
     (case p of (eid, slot) \<Rightarrow>
        (let (up, down) = edge_endpoints g eid in
         case slot of
           None \<Rightarrow> Inl (empty_link up down)
         | Some s \<Rightarrow>
             if s = [] then Inl (empty_link up down)
             else
               (let doms = fixated_candidates s (targets ! eid) in
                if doms = [] then Inl (Unfixable up down) else Inr doms)))"

definition edge_domains ::
  "('e, 'c) validated_graph \<Rightarrow> node_constraint list \<Rightarrow> edge_slots \<Rightarrow> negotiation_failure + caps list list" where
  "edge_domains g constraints edges =
     collect_res (map (edge_domain g (fixation_targets g constraints edges)) (enumerate 0 edges))"

definition graph_assignment ::
  "('e, 'c) validated_graph \<Rightarrow> node_constraint list \<Rightarrow> caps_preferences option list \<Rightarrow> caps list list \<Rightarrow>
     negotiation_failure + caps option list" where
  "graph_assignment g constraints preferences domains =
     (case preferred_chain_assignment g constraints preferences domains of
        Some chosen \<Rightarrow> Inr chosen
      | None \<Rightarrow>
          ok_or (fixate_backtrack g constraints domains 0 (replicate (edge_count g) None))
            NoConsistentFixation)"

text \<open>\<^verbatim>\<open>expect("every edge assigned")\<close> reads the assignment; it is total where the search succeeded.\<close>

definition solve_graph_preferred ::
  "('e, 'c) validated_graph \<Rightarrow> node_constraint list \<Rightarrow> caps_preferences option list \<Rightarrow>
     negotiation_failure + caps list" where
  "solve_graph_preferred g constraints preferences =
     (if node_count g < 2 \<or> length constraints \<noteq> node_count g then Inl Degenerate
      else
        bind_res (graph_fixpoint (8 * edge_count g + 4) g constraints (replicate (edge_count g) None)) (\<lambda>edges.
        bind_res (edge_domains g constraints edges) (\<lambda>domains.
        bind_res (graph_assignment g constraints preferences domains) (\<lambda>assign.
          Inr (map the assign)))))"

definition solve_graph ::
  "('e, 'c) validated_graph \<Rightarrow> node_constraint list \<Rightarrow> negotiation_failure + caps list" where
  "solve_graph g constraints = solve_graph_preferred g constraints []"

end
