(* ===== verification/Fixation.thy ===== *)
theory Fixation
  imports GraphSolver
begin

text \<open>
  The backtracking fixation of the graph solver: \<^verbatim>\<open>fixate_backtrack\<close> is sound, complete and
  greedy. A candidate sequence picks one index per edge; the search returns the
  lexicographically least sequence for which every node's relation holds, and fails only when
  no sequence satisfies all nodes.
\<close>

section \<open>The search tree\<close>

definition partial_assign :: "nat \<Rightarrow> caps list \<Rightarrow> caps option list" where
  "partial_assign ne zs = map Some zs @ replicate (ne - length zs) None"

definition last_edge_ok ::
  "('e, 'c) validated_graph \<Rightarrow> node_constraint list \<Rightarrow> nat \<Rightarrow> caps list \<Rightarrow> bool" where
  "last_edge_ok g constraints ne zs \<longleftrightarrow>
     node_consistent g constraints (partial_assign ne zs) (edge_src g (length zs - 1)) \<and>
     node_consistent g constraints (partial_assign ne zs) (edge_dst g (length zs - 1))"

fun valid_from ::
  "('e, 'c) validated_graph \<Rightarrow> node_constraint list \<Rightarrow> caps list list \<Rightarrow> caps list \<Rightarrow> nat list \<Rightarrow> bool" where
  "valid_from g constraints domains zs [] \<longleftrightarrow> length zs = length domains"
| "valid_from g constraints domains zs (j # js) \<longleftrightarrow>
     length zs < length domains \<and> j < length (domains ! length zs) \<and>
     last_edge_ok g constraints (length domains) (zs @ [domains ! length zs ! j]) \<and>
     valid_from g constraints domains (zs @ [domains ! length zs ! j]) js"

fun chosen :: "caps list list \<Rightarrow> caps list \<Rightarrow> nat list \<Rightarrow> caps list" where
  "chosen domains zs [] = zs"
| "chosen domains zs (j # js) = chosen domains (zs @ [domains ! length zs ! j]) js"

lemma length_chosen: "length (chosen domains zs js) = length zs + length js"
  by (induction domains zs js rule: chosen.induct) auto

lemma valid_from_length: "valid_from g cs domains zs js \<Longrightarrow> length zs + length js = length domains"
  by (induction g cs domains zs js rule: valid_from.induct) auto

lemma partial_assign_update:
  "length zs < ne \<Longrightarrow> (partial_assign ne zs)[length zs := Some c] = partial_assign ne (zs @ [c])"
  by (cases "ne - length zs") (auto simp: partial_assign_def list_update_append Suc_diff_Suc)

text \<open>One level of the search, over the candidates of the next edge.\<close>

lemma fixate_backtrack_step:
  assumes "length zs < length domains"
  shows "fixate_backtrack g cs domains (length zs) (partial_assign (length domains) zs) =
    find_map (\<lambda>c. if last_edge_ok g cs (length domains) (zs @ [c])
                  then fixate_backtrack g cs domains (length (zs @ [c])) (partial_assign (length domains) (zs @ [c]))
                  else None) (domains ! length zs)"
  using assms
  by (subst fixate_backtrack.simps) (simp add: partial_assign_update last_edge_ok_def Let_def cong: if_cong)

lemma find_map_index:
  "find_map f xs = Some y \<longleftrightarrow> (\<exists>j < length xs. f (xs ! j) = Some y \<and> (\<forall>i < j. f (xs ! i) = None))"
proof
  assume "find_map f xs = Some y"
  then obtain us x vs where "xs = us @ x # vs" "f x = Some y" "\<forall>u \<in> set us. f u = None"
    unfolding find_map_first by blast
  then show "\<exists>j < length xs. f (xs ! j) = Some y \<and> (\<forall>i < j. f (xs ! i) = None)"
    by (intro exI [of _ "length us"]) (auto simp: nth_append)
next
  assume "\<exists>j < length xs. f (xs ! j) = Some y \<and> (\<forall>i < j. f (xs ! i) = None)"
  then obtain j where j: "j < length xs" "f (xs ! j) = Some y" "\<forall>i < j. f (xs ! i) = None" by blast
  then have "\<forall>u \<in> set (take j xs). f u = None" by (auto simp: in_set_conv_nth)
  then show "find_map f xs = Some y"
    unfolding find_map_first using j id_take_nth_drop [OF j(1)] by blast
qed

lemma fixate_backtrack_spec:
  assumes "length zs \<le> length domains"
  shows "(\<forall>r. fixate_backtrack g cs domains (length zs) (partial_assign (length domains) zs) = Some r \<longrightarrow>
      (\<exists>js. valid_from g cs domains zs js \<and> r = map Some (chosen domains zs js) \<and>
        (\<forall>ks. valid_from g cs domains zs ks \<longrightarrow> ks = js \<or> path_less js ks))) \<and>
    (fixate_backtrack g cs domains (length zs) (partial_assign (length domains) zs) = None \<longrightarrow>
      \<not> (\<exists>js. valid_from g cs domains zs js))"
  using assms
proof (induction "length domains - length zs" arbitrary: zs)
  case 0
  then have eq: "length zs = length domains" by simp
  then have "fixate_backtrack g cs domains (length zs) (partial_assign (length domains) zs) = Some (map Some zs)"
    by (subst fixate_backtrack.simps) (simp add: partial_assign_def)
  moreover have "valid_from g cs domains zs ks \<longleftrightarrow> ks = []" for ks
    using eq by (cases ks) simp_all
  ultimately show ?case by auto
next
  case (Suc d)
  then have lt: "length zs < length domains" by simp
  let ?next = "\<lambda>c. fixate_backtrack g cs domains (length (zs @ [c])) (partial_assign (length domains) (zs @ [c]))"
  let ?attempt = "\<lambda>c. if last_edge_ok g cs (length domains) (zs @ [c]) then ?next c else None"
  note step = fixate_backtrack_step [OF lt, of g cs]
  have IH: "(\<forall>r. ?next c = Some r \<longrightarrow>
      (\<exists>js. valid_from g cs domains (zs @ [c]) js \<and> r = map Some (chosen domains (zs @ [c]) js) \<and>
        (\<forall>ks. valid_from g cs domains (zs @ [c]) ks \<longrightarrow> ks = js \<or> path_less js ks))) \<and>
    (?next c = None \<longrightarrow> \<not> (\<exists>js. valid_from g cs domains (zs @ [c]) js))" for c
    by (rule Suc.hyps(1)) (use Suc.hyps(2) lt in auto)
  have none: "?attempt (domains ! length zs ! j) = None \<Longrightarrow> j < length (domains ! length zs) \<Longrightarrow>
      \<not> valid_from g cs domains zs (j # js)" for j js
    using IH [of "domains ! length zs ! j"] by (auto split: if_splits)
  show ?case
  proof (intro conjI allI impI)
    fix r
    assume "fixate_backtrack g cs domains (length zs) (partial_assign (length domains) zs) = Some r"
    then obtain j where j: "j < length (domains ! length zs)" "?attempt (domains ! length zs ! j) = Some r"
      and before: "\<And>i. i < j \<Longrightarrow> ?attempt (domains ! length zs ! i) = None"
      unfolding step find_map_index by blast
    then have ok: "last_edge_ok g cs (length domains) (zs @ [domains ! length zs ! j])"
      and nxt: "?next (domains ! length zs ! j) = Some r" by (auto split: if_splits)
    then obtain js where js: "valid_from g cs domains (zs @ [domains ! length zs ! j]) js"
      "r = map Some (chosen domains (zs @ [domains ! length zs ! j]) js)"
      "\<And>ks. valid_from g cs domains (zs @ [domains ! length zs ! j]) ks \<Longrightarrow> ks = js \<or> path_less js ks"
      using IH [of "domains ! length zs ! j"] by blast
    have "ks = j # js \<or> path_less (j # js) ks" if ks: "valid_from g cs domains zs ks" for ks
    proof (cases ks)
      case Nil
      then show ?thesis using ks lt by simp
    next
      case (Cons i rest)
      then have i: "i < length (domains ! length zs)" using ks by simp
      have "\<not> i < j" using none [OF before i] ks Cons by blast
      then show ?thesis using js(3) [of rest] ks Cons by (cases "i = j") auto
    qed
    then show "\<exists>js. valid_from g cs domains zs js \<and> r = map Some (chosen domains zs js) \<and>
        (\<forall>ks. valid_from g cs domains zs ks \<longrightarrow> ks = js \<or> path_less js ks)"
      using js ok lt j(1) by (intro exI [of _ "j # js"]) simp
  next
    assume "fixate_backtrack g cs domains (length zs) (partial_assign (length domains) zs) = None"
    then have all: "\<And>j. j < length (domains ! length zs) \<Longrightarrow> ?attempt (domains ! length zs ! j) = None"
      unfolding step find_map_None by (meson nth_mem)
    show "\<not> (\<exists>js. valid_from g cs domains zs js)"
    proof
      assume "\<exists>js. valid_from g cs domains zs js"
      then obtain js where js: "valid_from g cs domains zs js" ..
      then show False using lt none [OF all] by (cases js) auto
    qed
  qed
qed


section \<open>Relations of whole assignments\<close>

definition assignment_of :: "caps list list \<Rightarrow> nat list \<Rightarrow> caps list" where
  "assignment_of domains js = map2 (\<lambda>d j. d ! j) domains js"

definition valid_choice :: "caps list list \<Rightarrow> nat list \<Rightarrow> bool" where
  "valid_choice domains js \<longleftrightarrow> list_all2 (\<lambda>d j. j < length d) domains js"

definition all_consistent :: "('e, 'c) validated_graph \<Rightarrow> node_constraint list \<Rightarrow> caps list \<Rightarrow> bool" where
  "all_consistent g cs xs \<longleftrightarrow> (\<forall>v < node_count g. node_relation g cs (\<lambda>e. xs ! e) v)"

lemma chosen_eq:
  "length zs + length js \<le> length domains \<Longrightarrow>
     chosen domains zs js = zs @ assignment_of (drop (length zs) domains) js"
proof (induction domains zs js rule: chosen.induct)
  case (1 domains zs)
  then show ?case by (simp add: assignment_of_def)
next
  case (2 domains zs j js)
  then have "drop (length zs) domains = domains ! length zs # drop (Suc (length zs)) domains"
    by (simp add: Cons_nth_drop_Suc)
  with 2 show ?case by (simp add: assignment_of_def)
qed

lemma set_pads_in_order: "snd ` set (pads_in_order g v) = set (in_edges_of g v)"
  by (auto simp: pads_in_order_def image_image)

lemma node_relation_cong:
  assumes "graph_ok g" "v < node_count g"
    and "\<And>e. e \<in> set (in_edges_of g v) \<union> set (out_edges_of g v) \<Longrightarrow> a e = b e"
  shows "node_relation g cs a v = node_relation g cs b v"
proof -
  note single = graph_ok_singletons [OF assms(1,2)]
  have streams: "pads_streams g a v = pads_streams g b v"
    unfolding pads_streams_def using assms(3) set_pads_in_order [of g v] by (force intro: map_cong)
  have outs: "list_all (\<lambda>o'. P o' (a o')) (out_edges_of g v) = list_all (\<lambda>o'. P o' (b o')) (out_edges_of g v)" for P
    using assms(3) by (auto simp: list_all_iff)
  have eq: "e \<in> set (in_edges_of g v) \<Longrightarrow> a e = b e" "e \<in> set (out_edges_of g v) \<Longrightarrow> a e = b e" for e
    using assms(3) by auto
  show ?thesis
  proof (cases "vg_kind g v")
    case (Tee k)
    then obtain i where i: "in_edges_of g v = [i]" using single(4) by blast
    then have ab: "a i = b i" using eq(1) [of i] by simp
    have "list_all (\<lambda>o'. case get ports (src_pad g o') of None \<Rightarrow> True
          | Some port \<Rightarrow> transform_pair_consistent port (a i) (a o')) (out_edges_of g v) =
        list_all (\<lambda>o'. case get ports (src_pad g o') of None \<Rightarrow> True
          | Some port \<Rightarrow> transform_pair_consistent port (b i) (b o')) (out_edges_of g v)" for ports
      unfolding ab by (rule outs)
    moreover have "list_all (\<lambda>o'. get streams (src_pad g o') = Some (a o')) (out_edges_of g v) =
        list_all (\<lambda>o'. get streams (src_pad g o') = Some (b o')) (out_edges_of g v)" for streams
      by (rule outs)
    moreover have "list_all (\<lambda>o'. a o' = a i) (out_edges_of g v) = list_all (\<lambda>o'. b o' = b i) (out_edges_of g v)"
      unfolding ab by (rule outs)
    ultimately show ?thesis
      unfolding node_relation_def Let_def i nth_Cons_0 Tee node_kind.case
      by (cases "cs ! v"; cases "b i") (simp_all add: ab del: get_eq_Some)
  next
    case Transform
    then obtain i j where "in_edges_of g v = [i]" "out_edges_of g v = [j]" using single(3) by blast
    then show ?thesis using Transform eq by (simp add: node_relation_def split: node_constraint.splits)
  next
    case (Muxer k)
    then obtain j where "out_edges_of g v = [j]" using single(5) by blast
    then show ?thesis using Muxer eq streams by (simp add: node_relation_def split: node_constraint.splits)
  qed (simp_all add: node_relation_def)
qed

lemma node_consistent_all:
  assumes "graph_ok g" "v < node_count g" "length xs = edge_count g"
    and "\<And>e. e \<in> set (in_edges_of g v) \<union> set (out_edges_of g v) \<Longrightarrow> a ! e = Some (xs ! e)"
  shows "node_consistent g cs a v = node_relation g cs (\<lambda>e. xs ! e) v"
proof -
  have "\<not> list_ex (\<lambda>e. a ! e = None) (in_edges_of g v @ out_edges_of g v)"
    using assms(4) by (auto simp: list_ex_iff)
  moreover have "node_relation g cs (\<lambda>e. the (a ! e)) v = node_relation g cs (\<lambda>e. xs ! e) v"
    by (rule node_relation_cong [OF assms(1,2)]) (simp add: assms(4))
  ultimately show ?thesis by (simp add: node_consistent_def)
qed

lemma nth_partial_assign:
  "length zs \<le> ne \<Longrightarrow> e < ne \<Longrightarrow> partial_assign ne zs ! e = (if e < length zs then Some (zs ! e) else None)"
  by (simp add: partial_assign_def nth_append)

lemma incident_less:
  assumes "graph_ok g" "v < node_count g" "e \<in> set (in_edges_of g v) \<union> set (out_edges_of g v)"
  shows "e < edge_count g"
  using assms graph_ok_in_edges by blast

text \<open>A partial assignment never refutes a node that the whole assignment satisfies.\<close>

lemma node_consistent_partial:
  assumes "graph_ok g" "v < node_count g" "length xs = edge_count g" "node_relation g cs (\<lambda>e. xs ! e) v"
  shows "node_consistent g cs (partial_assign (edge_count g) (take k xs)) v"
proof (cases "list_ex (\<lambda>e. partial_assign (edge_count g) (take k xs) ! e = None) (in_edges_of g v @ out_edges_of g v)")
  case True
  then show ?thesis by (simp add: node_consistent_def)
next
  case False
  have "partial_assign (edge_count g) (take k xs) ! e = Some (xs ! e)"
    if "e \<in> set (in_edges_of g v) \<union> set (out_edges_of g v)" for e
  proof -
    have "partial_assign (edge_count g) (take k xs) ! e \<noteq> None" using False that by (auto simp: list_ex_iff)
    then show ?thesis using incident_less [OF assms(1,2) that] assms(3)
      by (auto simp: nth_partial_assign split: if_splits)
  qed
  then show ?thesis using node_consistent_all [OF assms(1-3)] assms(4) by blast
qed

lemma valid_from_last_edge_ok:
  "valid_from g cs domains zs js \<Longrightarrow> length zs \<le> i \<Longrightarrow> i < length domains \<Longrightarrow>
     last_edge_ok g cs (length domains) (take (Suc i) (chosen domains zs js))"
proof (induction g cs domains zs js rule: valid_from.induct)
  case (1 g cs domains zs)
  then show ?case by simp
next
  case (2 g cs domains zs j js)
  let ?zs = "zs @ [domains ! length zs ! j]"
  have len: "length ?zs + length js \<le> length domains" using valid_from_length [of g cs domains ?zs js] 2(2) by simp
  show ?case
  proof (cases "i = length zs")
    case True
    then have "take (Suc i) (chosen domains zs (j # js)) = ?zs"
      using chosen_eq [OF len] by simp
    then show ?thesis using 2(2) by simp
  next
    case False
    then show ?thesis using 2 by simp
  qed
qed

lemma valid_from_intro:
  "valid_choice (drop (length zs) domains) js \<Longrightarrow> length zs \<le> length domains \<Longrightarrow>
     (\<And>i. length zs \<le> i \<Longrightarrow> i < length domains \<Longrightarrow>
        last_edge_ok g cs (length domains) (take (Suc i) (chosen domains zs js))) \<Longrightarrow>
     valid_from g cs domains zs js"
proof (induction js arbitrary: zs)
  case Nil
  then show ?case by (simp add: valid_choice_def)
next
  case (Cons j js)
  let ?zs = "zs @ [domains ! length zs ! j]"
  have lt: "length zs < length domains"
    using Cons.prems(1,2) by (cases "length zs = length domains") (auto simp: valid_choice_def)
  then have drop: "drop (length zs) domains = domains ! length zs # drop (length ?zs) domains"
    by (simp add: Cons_nth_drop_Suc)
  have vc: "j < length (domains ! length zs)" "valid_choice (drop (length ?zs) domains) js"
    using Cons.prems(1) unfolding drop by (auto simp: valid_choice_def)
  have "length js = length (drop (length ?zs) domains)"
    using list_all2_lengthD [OF vc(2) [unfolded valid_choice_def]] by simp
  then have len: "length ?zs + length js \<le> length domains" using lt by simp
  have "last_edge_ok g cs (length domains) ?zs"
    using Cons.prems(3) [of "length zs"] lt chosen_eq [OF len] by simp
  moreover have "valid_from g cs domains ?zs js"
    by (rule Cons.IH [OF vc(2)]) (use lt Cons.prems(3) in auto)
  ultimately show ?case using lt vc(1) by simp
qed

lemma valid_from_choice:
  "valid_from g cs domains zs js \<Longrightarrow> valid_choice (drop (length zs) domains) js"
proof (induction g cs domains zs js rule: valid_from.induct)
  case (1 g cs domains zs)
  then show ?case by (simp add: valid_choice_def)
next
  case (2 g cs domains zs j js)
  then have "drop (length zs) domains = domains ! length zs # drop (Suc (length zs)) domains"
    by (simp add: Cons_nth_drop_Suc)
  with 2 show ?case by (simp add: valid_choice_def)
qed

lemma valid_from_all_consistent:
  assumes ok: "graph_ok g" and len: "length domains = edge_count g"
  shows "valid_from g cs domains [] js \<longleftrightarrow>
    valid_choice domains js \<and> all_consistent g cs (assignment_of domains js)"
proof
  assume v: "valid_from g cs domains [] js"
  let ?xs = "assignment_of domains js"
  have vc: "valid_choice domains js" using valid_from_choice [OF v] by simp
  have js: "length js = length domains" using valid_from_length [OF v] by simp
  then have xs: "chosen domains [] js = ?xs" using chosen_eq [of "[]" js domains] by simp
  have lx: "length ?xs = edge_count g" using js len by (simp add: assignment_of_def)
  have "node_relation g cs (\<lambda>e. ?xs ! e) v" if v': "v < node_count g" for v
  proof -
    let ?inc = "set (in_edges_of g v) \<union> set (out_edges_of g v)"
    have "in_edges_of g v @ out_edges_of g v \<noteq> []" using ok v' unfolding graph_ok_def by blast
    then have ne: "?inc \<noteq> {}" by auto
    define m where "m = Max ?inc"
    have m: "m \<in> ?inc" "\<And>e. e \<in> ?inc \<Longrightarrow> e \<le> m" using Max_in [OF _ ne] by (auto simp: m_def)
    have mlt: "m < edge_count g" using incident_less [OF ok v' m(1)] .
    have "edge_src g m = v \<or> edge_dst g m = v" using m(1) graph_ok_in_edges [OF ok v'] by blast
    moreover have "last_edge_ok g cs (edge_count g) (take (Suc m) ?xs)"
      using valid_from_last_edge_ok [OF v, of m] mlt len xs by simp
    ultimately have "node_consistent g cs (partial_assign (edge_count g) (take (Suc m) ?xs)) v"
      using mlt lx by (auto simp: last_edge_ok_def min_absorb2 Suc_le_eq)
    moreover have "partial_assign (edge_count g) (take (Suc m) ?xs) ! e = Some (?xs ! e)" if "e \<in> ?inc" for e
      using m(2) [OF that] mlt lx by (simp add: nth_partial_assign)
    ultimately show ?thesis using node_consistent_all [OF ok v' lx] by blast
  qed
  then show "valid_choice domains js \<and> all_consistent g cs ?xs" using vc by (simp add: all_consistent_def)
next
  assume r: "valid_choice domains js \<and> all_consistent g cs (assignment_of domains js)"
  let ?xs = "assignment_of domains js"
  have js: "length js = length domains" using r list_all2_lengthD by (fastforce simp: valid_choice_def)
  then have xs: "chosen domains [] js = ?xs" using chosen_eq [of "[]" js domains] by simp
  have lx: "length ?xs = edge_count g" using js len by (simp add: assignment_of_def)
  show "valid_from g cs domains [] js"
  proof (rule valid_from_intro)
    fix i
    assume "i < length domains"
    then have i: "i < edge_count g" using len by simp
    show "last_edge_ok g cs (length domains) (take (Suc i) (chosen domains [] js))"
      unfolding xs len last_edge_ok_def
      using r i lx graph_ok_edges(1,2) [OF ok i] node_consistent_partial [OF ok _ lx]
      by (simp add: all_consistent_def min_absorb2 Suc_le_eq)
  qed (use r in simp_all)
qed

end
