(* ===== verification/ChainGraph.thy ===== *)
theory ChainGraph
  imports ChainCost Fixation
begin

text \<open>
  Linear chains inside a graph: \<^verbatim>\<open>chain_order\<close> finds the walk that visits every node and every edge
  once, and the caps that \<^verbatim>\<open>preferred_chain_assignment\<close> puts on the edges come from their candidates
  and satisfy the relation of every node.
\<close>

section \<open>Walks\<close>

text \<open>The nodes of a walk in order and the edges that join them.\<close>

definition is_walk :: "('e, 'c) validated_graph \<Rightarrow> node_id list \<Rightarrow> nat list \<Rightarrow> bool" where
  "is_walk g nodes edges \<longleftrightarrow>
     length nodes = Suc (length edges) \<and> (\<forall>v \<in> set nodes. v < node_count g) \<and>
     (\<forall>k < length edges. edges ! k < edge_count g \<and> edge_src g (edges ! k) = nodes ! k \<and>
        edge_dst g (edges ! k) = nodes ! Suc k)"

text \<open>A tee that a chain passes through carries the identity constraint.\<close>

fun slot_identity :: "node_kind \<Rightarrow> node_constraint \<Rightarrow> bool" where
  "slot_identity (Tee _) (Element IdentityAny) = True"
| "slot_identity (Tee _) (Element _) = False"
| "slot_identity _ _ = True"

definition tee_slots_identity :: "('e, 'c) validated_graph \<Rightarrow> node_constraint list \<Rightarrow> bool" where
  "tee_slots_identity g cs \<longleftrightarrow> (\<forall>v < node_count g. slot_identity (vg_kind g v) (cs ! v))"

lemma is_walk_extend:
  assumes ok: "graph_ok g" and w: "is_walk g (nodes @ [v]) edges" and e: "e \<in> set (out_edges_of g v)"
  shows "is_walk g (nodes @ [v, edge_dst g e]) (edges @ [e])"
proof -
  have "v < node_count g" using w by (simp add: is_walk_def)
  from iffD1 [OF graph_ok_in_edges(2) [OF ok this] e] have e': "e < edge_count g" "edge_src g e = v" by auto
  have "edge_dst g e < node_count g" using graph_ok_edges(2) [OF ok e'(1)] .
  then show ?thesis using w e' by (auto simp: is_walk_def nth_append less_Suc_eq)
qed

lemma chain_walk_is_walk:
  "chain_walk g fuel current nodes edges = Some (ns, es) \<Longrightarrow> graph_ok g \<Longrightarrow>
     is_walk g (nodes @ [current]) edges \<Longrightarrow> is_walk g ns es"
proof (induction g fuel current nodes edges arbitrary: ns es rule: chain_walk.induct)
  case (2 g fuel current nodes edges)
  show ?case
  proof (cases "out_edges_of g current")
    case Nil
    then show ?thesis using "2.prems" by auto
  next
    case (Cons e rest)
    have "is_walk g (nodes @ [current, edge_dst g e]) (edges @ [e])"
      using is_walk_extend [OF "2.prems"(2,3)] Cons by simp
    then show ?thesis using "2.IH" [OF Cons] "2.prems"(1,2) Cons by simp
  qed
qed simp

lemma is_walk_distinct:
  assumes ok: "graph_ok g" and w: "is_walk g ns es"
  shows "distinct ns" "distinct es"
proof -
  let ?pos = "\<lambda>v. the (position ((=) v) (vg_topo g))"
  have step: "?pos (ns ! k) < ?pos (ns ! Suc k)" if k: "k < length es" for k
  proof -
    have "es ! k < edge_count g" "edge_src g (es ! k) = ns ! k" "edge_dst g (es ! k) = ns ! Suc k"
      using w k by (auto simp: is_walk_def)
    then show ?thesis using precedes_index [OF graph_ok_topo(1) [OF ok] graph_ok_edges(3) [OF ok]] by metis
  qed
  have len: "length ns = Suc (length es)" using w by (simp add: is_walk_def)
  have lt: "i < j \<Longrightarrow> j < length ns \<Longrightarrow> ?pos (ns ! i) < ?pos (ns ! j)" for i j
  proof (induction j)
    case (Suc j)
    then show ?case using step [of j] len by (cases "i = j") auto
  qed simp
  show d: "distinct ns" unfolding distinct_conv_nth
  proof (intro allI impI)
    fix i j
    assume "i < length ns" "j < length ns" "i \<noteq> j"
    then show "ns ! i \<noteq> ns ! j" using lt [of i j] lt [of j i] by (cases "i < j") auto
  qed
  show "distinct es" unfolding distinct_conv_nth
  proof (intro allI impI)
    fix i j
    assume ij: "i < length es" "j < length es" "i \<noteq> j"
    then have "ns ! i \<noteq> ns ! j" using d len by (simp add: nth_eq_iff_index_eq)
    then show "es ! i \<noteq> es ! j" using w ij by (metis is_walk_def)
  qed
qed

text \<open>The walk of \<^verbatim>\<open>chain_order\<close> ends: the node count is enough fuel.\<close>

lemma chain_walk_total:
  "graph_ok g \<Longrightarrow> is_walk g (nodes @ [current]) edges \<Longrightarrow> node_count g \<le> length nodes + fuel \<Longrightarrow>
     \<exists>r. chain_walk g fuel current nodes edges = Some r"
proof (induction g fuel current nodes edges rule: chain_walk.induct)
  case (1 g current nodes edges)
  let ?ns = "nodes @ [current]"
  have "distinct ?ns" using is_walk_distinct(1) [OF 1(1,2)] .
  moreover have "set ?ns \<subseteq> {..<node_count g}" using 1(2) by (auto simp: is_walk_def)
  ultimately have "length ?ns \<le> node_count g" using card_mono [of "{..<node_count g}" "set ?ns"] distinct_card by fastforce
  then show ?case using 1(3) by simp
next
  case (2 g fuel current nodes edges)
  show ?case
  proof (cases "out_edges_of g current")
    case (Cons e rest)
    have "is_walk g (nodes @ [current, edge_dst g e]) (edges @ [e])"
      using is_walk_extend [OF "2.prems"(1,2)] Cons by simp
    then show ?thesis using "2.IH" [OF Cons] "2.prems"(1,3) Cons by simp
  qed simp
qed

lemma chain_walk_ends:
  "chain_walk g fuel current nodes edges = Some (ns, es) \<Longrightarrow> ns \<noteq> [] \<and> out_edges_of g (last ns) = []"
  by (induction g fuel current nodes edges arbitrary: ns es rule: chain_walk.induct) (auto split: list.splits)

lemma chain_walk_starts:
  "chain_walk g fuel current nodes edges = Some (ns, es) \<Longrightarrow> hd ns = hd (nodes @ [current])"
proof (induction g fuel current nodes edges arbitrary: ns es rule: chain_walk.induct)
  case (2 g fuel current nodes edges)
  show ?case
  proof (cases "out_edges_of g current")
    case Nil
    then show ?thesis using "2.prems" by auto
  next
    case (Cons e rest)
    then have "hd ns = hd ((nodes @ [current]) @ [edge_dst g e])" using "2.IH" [OF Cons] "2.prems" by simp
    then show ?thesis by (simp add: hd_append)
  qed
qed simp

text \<open>A walk of as many nodes as the graph has visits every node once, and every edge.\<close>

lemma is_walk_covers:
  assumes ok: "graph_ok g" and w: "is_walk g ns es" and n: "length ns = node_count g" "edge_count g + 1 = node_count g"
  shows "set ns = {..<node_count g}" "set es = {..<edge_count g}"
proof -
  have "set ns \<subseteq> {..<node_count g}" "set es \<subseteq> {..<edge_count g}"
    using w by (auto simp: is_walk_def in_set_conv_nth)
  moreover have "card (set ns) = node_count g" "card (set es) = edge_count g"
    using is_walk_distinct [OF ok w] n w by (simp_all add: distinct_card is_walk_def)
  ultimately show "set ns = {..<node_count g}" "set es = {..<edge_count g}"
    by (simp_all add: card_subset_eq)
qed

lemma find_head_narrow:
  "find_head g is h = Some r \<Longrightarrow> \<forall>i \<in> set is. length (in_edges_of g (node_id i)) \<le> 1 \<and> length (out_edges_of g (node_id i)) \<le> 1"
  by (induction g "is" h rule: find_head.induct) (auto simp: Let_def split: if_splits)

lemma find_head_member:
  "find_head g is h = Some (Some v) \<Longrightarrow> h = Some v \<or> v \<in> node_id ` set is"
  by (induction g "is" h rule: find_head.induct) (auto simp: Let_def split: if_splits)

lemma chain_order_result:
  assumes ok: "graph_ok g" and c: "chain_order g cs = Some (ns, es)"
  shows "is_walk g ns es" "length ns = node_count g" "edge_count g + 1 = node_count g" "list_all is_element cs"
    "\<And>v. v < node_count g \<Longrightarrow> length (in_edges_of g v) \<le> 1 \<and> length (out_edges_of g v) \<le> 1"
proof -
  let ?n = "node_count g"
  obtain start where h: "find_head g [0..<?n] None = Some (Some start)" and w: "chain_walk g ?n start [] [] = Some (ns, es)"
    and r: "length ns = ?n" "edge_count g + 1 = ?n" "list_all is_element cs"
    using c by (auto simp: chain_order_def Let_def split: if_splits bind_splits option.splits prod.splits)
  show "length ns = ?n" "edge_count g + 1 = ?n" "list_all is_element cs" by fact+
  have n: "?n \<le> 2 ^ 32" using ok by (simp add: graph_ok_def)
  then show "\<And>v. v < ?n \<Longrightarrow> length (in_edges_of g v) \<le> 1 \<and> length (out_edges_of g v) \<le> 1"
    using find_head_narrow [OF h] by (auto simp: node_id_id)
  have "start < ?n" using find_head_member [OF h] n by (auto simp: node_id_id)
  then show "is_walk g ns es" using chain_walk_is_walk [OF w ok] by (simp add: is_walk_def)
qed

section \<open>The chosen caps\<close>

lemma foldl_assign_other:
  "e \<notin> set es \<Longrightarrow> length es = length ds \<Longrightarrow> length ds = length ps \<Longrightarrow>
     foldl (\<lambda>a ((e, d), j). a[e := Some (d ! j)]) a (zip (zip es ds) ps) ! e = a ! e"
proof (induction es arbitrary: ds ps a)
  case (Cons x es)
  then show ?case by (cases ds; cases ps) auto
qed simp

lemma foldl_assign_length:
  "length (foldl (\<lambda>a ((e, d), j). a[e := Some (d ! j)]) a zs) = length a"
  by (induction zs arbitrary: a) (auto split: prod.splits)

lemma foldl_assign_nth:
  "distinct es \<Longrightarrow> length es = length ds \<Longrightarrow> length ds = length ps \<Longrightarrow> \<forall>e \<in> set es. e < length a \<Longrightarrow> k < length es \<Longrightarrow>
     foldl (\<lambda>a ((e, d), j). a[e := Some (d ! j)]) a (zip (zip es ds) ps) ! (es ! k) = Some (ds ! k ! (ps ! k))"
proof (induction es arbitrary: ds ps a k)
  case (Cons x es)
  obtain d ds' j ps' where dp: "ds = d # ds'" "ps = j # ps'" using Cons.prems by (cases ds; cases ps) auto
  show ?case
  proof (cases k)
    case 0
    then show ?thesis using Cons.prems dp foldl_assign_other [of x es ds' ps'] by simp
  next
    case (Suc m)
    then show ?thesis using Cons.prems dp Cons.IH [of ds' ps' "a[x := Some (d ! j)]" m] by simp
  qed
qed simp

lemma chain_consistent_nth:
  "chain_consistent ns prev ds js \<Longrightarrow> length js = length ds \<and> length ns = Suc (length ds) \<and>
     (\<forall>k < length ds. js ! k < length (ds ! k) \<and>
       transform_pair_consistent (cn_constraint (ns ! k)) ((prev # map2 (!) ds js) ! k) (ds ! k ! (js ! k)))"
proof (induction ns prev ds js rule: chain_consistent.induct)
  case (2 m ns prev d ds j js)
  then show ?case by (auto simp: less_Suc_eq_0_disj)
qed simp_all

lemma path_ok_nth:
  assumes "path_ok nodes ds js"
  shows "length js = length ds" "length nodes = Suc (length ds)" "ds \<noteq> []"
    "\<And>k. k < length ds \<Longrightarrow> js ! k < length (ds ! k)"
    "\<And>k. Suc k < length ds \<Longrightarrow>
      transform_pair_consistent (cn_constraint (nodes ! Suc k)) (ds ! k ! (js ! k)) (ds ! Suc k ! (js ! Suc k))"
proof -
  obtain source ns d ds' j js' where s: "nodes = source # ns" "ds = d # ds'" "js = j # js'" "j < length d"
    and c: "chain_consistent ns (d ! j) ds' js'"
    using assms by (auto simp: path_ok_def split: list.splits)
  note n = chain_consistent_nth [OF c]
  show "length js = length ds" "length nodes = Suc (length ds)" "ds \<noteq> []" using n s by simp_all
  show "js ! k < length (ds ! k)" if "k < length ds" for k using n s that by (cases k) auto
  show "transform_pair_consistent (cn_constraint (nodes ! Suc k)) (ds ! k ! (js ! k)) (ds ! Suc k ! (js ! Suc k))"
    if k: "Suc k < length ds" for k
    using n s k by (cases k) auto
qed

lemma walk_in_out:
  assumes ok: "graph_ok g" and w: "is_walk g ns es" and all: "set es = {..<edge_count g}"
    and v: "v < node_count g" and ij: "i \<in> set (in_edges_of g v)" "j \<in> set (out_edges_of g v)"
  obtains k where "Suc k < length es" "i = es ! k" "j = es ! Suc k" "v = ns ! Suc k"
proof -
  have i: "i < edge_count g" "edge_dst g i = v" and j: "j < edge_count g" "edge_src g j = v"
    using iffD1 [OF graph_ok_in_edges(1) [OF ok v] ij(1)] iffD1 [OF graph_ok_in_edges(2) [OF ok v] ij(2)] by simp_all
  obtain k where k: "k < length es" "es ! k = i" using i(1) all by (metis in_set_conv_nth lessThan_iff)
  obtain m where m: "m < length es" "es ! m = j" using j(1) all by (metis in_set_conv_nth lessThan_iff)
  have "ns ! Suc k = v" "ns ! m = v" using w k m i j by (auto simp: is_walk_def)
  moreover have "Suc k < length ns" "m < length ns" using w k m by (auto simp: is_walk_def)
  ultimately have "m = Suc k" using is_walk_distinct(1) [OF ok w] by (metis nth_eq_iff_index_eq)
  then show thesis using that k m \<open>ns ! Suc k = v\<close> by auto
qed

lemma chain_pairs_relation:
  assumes ok: "graph_ok g" and tee: "tee_slots_identity g cs" and el: "list_all is_element cs" "length cs = node_count g"
    and v: "v < node_count g"
    and pair: "\<And>i j. i \<in> set (in_edges_of g v) \<Longrightarrow> j \<in> set (out_edges_of g v) \<Longrightarrow>
        transform_pair_consistent (element_constraint (cs ! v)) (xs i) (xs j)"
  shows "node_relation g cs xs v"
proof -
  have "is_element (cs ! v)" using el v by (simp add: list_all_length)
  then obtain c where c: "cs ! v = Element c" by (cases "cs ! v") auto
  show ?thesis
  proof (cases "vg_kind g v")
    case Transform
    then show ?thesis using graph_ok_singletons(3) [OF ok v] pair c by (auto simp: node_relation_def Let_def)
  next
    case (Tee k)
    then have "slot_identity (Tee k) (Element c)" using tee v c by (metis tee_slots_identity_def)
    then have "c = IdentityAny" by (cases c) simp_all
    then show ?thesis using graph_ok_singletons(4) [OF ok v Tee] pair c Tee
      by (auto simp: node_relation_def Let_def list_all_iff)
  qed (simp_all add: node_relation_def c)
qed

lemma preferred_chain_result:
  assumes ok: "graph_ok g" and tee: "tee_slots_identity g cs" and n: "length cs = node_count g"
    and len: "length ds = edge_count g" and r: "preferred_chain_assignment g cs prefs ds = Some a"
  shows "\<exists>xs. a = map Some xs \<and> length xs = edge_count g \<and> (\<forall>e < edge_count g. xs ! e \<in> set (ds ! e)) \<and>
      all_consistent g cs xs"
proof -
  obtain ns es pick where co: "chain_order g cs = Some (ns, es)"
    and mc: "min_cost_chain (map (\<lambda>node. chain_node_new (element_constraint (cs ! node)) (preference_at prefs node)) ns)
        (map ((!) ds) es) = Some pick"
    and a: "a = foldl (\<lambda>a ((e, d), j). a[e := Some (d ! j)]) (replicate (length ds) None)
        (zip (zip es (map ((!) ds) es)) pick)"
    using r by (auto simp: preferred_chain_assignment_def Let_def split: if_splits bind_splits option.splits prod.splits)
  note p = path_ok_nth [OF min_cost_chain_path_ok [OF mc]]
  note c = chain_order_result [OF ok co]
  note cov = is_walk_covers [OF ok c(1-3)]
  have dist: "distinct es" using is_walk_distinct(2) [OF ok c(1)] .
  have l: "length pick = length es" using p(1) by simp
  have val: "a ! (es ! k) = Some (ds ! (es ! k) ! (pick ! k))" if "k < length es" for k
    using foldl_assign_nth [OF dist, of "map ((!) ds) es" pick "replicate (length ds) None" k] that l cov(2) len
    unfolding a by simp
  have la: "length a = edge_count g" unfolding a foldl_assign_length using len by simp
  define xs where "xs = map the a"
  have xs: "length xs = edge_count g" "\<And>k. k < length es \<Longrightarrow> xs ! (es ! k) = ds ! (es ! k) ! (pick ! k)"
    using la val cov(2) nth_mem by (fastforce simp: xs_def)+
  have ex: "\<exists>k < length es. es ! k = e" if "e < edge_count g" for e
    using that cov(2) by (metis in_set_conv_nth lessThan_iff)
  have "a = map Some xs"
  proof (rule nth_equalityI)
    fix e
    assume "e < length a"
    then show "a ! e = map Some xs ! e" using ex [of e] val la by (auto simp: xs_def)
  qed (simp add: xs_def)
  moreover have "xs ! e \<in> set (ds ! e)" if e: "e < edge_count g" for e
  proof -
    obtain k where k: "k < length es" "es ! k = e" using ex [OF e] by blast
    then show ?thesis using xs(2) [OF k(1)] p(4) [of k] by simp
  qed
  moreover have "node_relation g cs (\<lambda>e. xs ! e) v" if v: "v < node_count g" for v
  proof (rule chain_pairs_relation [OF ok tee c(4) n v])
    fix i j
    assume "i \<in> set (in_edges_of g v)" "j \<in> set (out_edges_of g v)"
    then obtain k where k: "Suc k < length es" "i = es ! k" "j = es ! Suc k" "v = ns ! Suc k"
      by (rule walk_in_out [OF ok c(1) cov(2) v])
    moreover have "Suc k < length ns" using k(1) c(1) by (simp add: is_walk_def)
    ultimately show "transform_pair_consistent (element_constraint (cs ! v)) (xs ! i) (xs ! j)"
      using p(5) [of k] xs(2) [of k] xs(2) [of "Suc k"] by (simp add: chain_node_new_def)
  qed
  ultimately show ?thesis using xs(1) by (auto simp: all_consistent_def)
qed

end
