(* ===== verification/Sweep.thy ===== *)
theory Sweep
  imports Negotiate
begin

text \<open>
  What the sweeps of the linear and of the graph solver share. A slot holds the caps set of a
  link or an edge, \<^verbatim>\<open>None\<close> while nothing has constrained it. A handler touches the slots next to
  its element and never widens some of them; the locale \<open>local_sweep\<close> states this contract and
  derives what a whole sweep guarantees of a slot from what the two handlers next to it do.
\<close>

section \<open>Refinement of edge sets\<close>

definition slot_refines :: "caps_set option \<Rightarrow> caps_set option \<Rightarrow> bool" where
  "slot_refines new old \<longleftrightarrow>
     (\<forall>s. old = Some s \<longrightarrow> (\<exists>s'. new = Some s' \<and> (\<forall>c \<in> set s'. set_admits s c)))"

definition within :: "caps_set option \<Rightarrow> caps_set \<Rightarrow> bool" where
  "within slot s \<longleftrightarrow> (\<exists>s'. slot = Some s' \<and> (\<forall>c \<in> set s'. set_admits s c))"

text \<open>
  A step of the solver touches only the edges \<open>E\<close> and refines the sets on the edges \<open>F\<close>.
\<close>

definition step_rel :: "nat set \<Rightarrow> nat set \<Rightarrow> link_slots \<Rightarrow> link_slots \<Rightarrow> bool" where
  "step_rel E F a b \<longleftrightarrow>
     length b = length a \<and> (\<forall>e. e \<notin> E \<longrightarrow> b ! e = a ! e) \<and> (\<forall>e \<in> F. slot_refines (b ! e) (a ! e))"

lemma set_admits_self: "c \<in> set s \<Longrightarrow> set_admits s c"
  using caps_le_refl by (auto simp: set_admits_iff)

lemma set_admits_all_trans:
  "\<forall>c \<in> set s. set_admits t c \<Longrightarrow> set_admits s d \<Longrightarrow> set_admits t d"
  unfolding set_admits_iff using caps_le_trans by blast

lemma slot_refines_refl: "slot_refines a a"
  by (auto simp: slot_refines_def set_admits_self)

lemma slot_refines_trans: "slot_refines a b \<Longrightarrow> slot_refines b c \<Longrightarrow> slot_refines a c"
  unfolding slot_refines_def using set_admits_all_trans by (metis option.inject)

lemma slot_refines_None [simp]: "slot_refines a None"
  by (simp add: slot_refines_def)

lemma within_refines: "slot_refines a b \<Longrightarrow> within b s \<Longrightarrow> within a s"
  unfolding slot_refines_def within_def using set_admits_all_trans by metis

lemma set_intersect_admitted:
  "c \<in> set (set_intersect s t) \<Longrightarrow> set_admits s c \<and> set_admits t c"
  by (auto simp: set_set_intersect set_admits_iff intro: caps_intersect_le1 caps_intersect_le2)

lemma intersect_slot_refines: "slot_refines (Some (intersect_slot slot s)) slot"
  by (auto simp: slot_refines_def intersect_slot_def set_intersect_admitted split: option.splits)

lemma intersect_slot_within: "within (Some (intersect_slot slot s)) s"
  by (auto simp: within_def intersect_slot_def set_intersect_admitted set_admits_self split: option.splits)

lemma step_rel_refl: "step_rel E F a a"
  by (simp add: step_rel_def slot_refines_refl)

lemma step_rel_trans: "step_rel E F a b \<Longrightarrow> step_rel E F b c \<Longrightarrow> step_rel E F a c"
  unfolding step_rel_def using slot_refines_trans by (metis (no_types, lifting))

lemma step_rel_mono: "step_rel E F a b \<Longrightarrow> E \<subseteq> E' \<Longrightarrow> F' \<subseteq> F \<Longrightarrow> step_rel E' F' a b"
  by (auto simp: step_rel_def)

lemma step_rel_update:
  assumes "e \<in> E" "e \<in> F \<Longrightarrow> slot_refines (Some s) (a ! e)"
  shows "step_rel E F a (a[e := Some s])"
proof -
  have "slot_refines (a[e := Some s] ! f) (a ! f)" if "f \<in> F" for f
    using assms(2) that slot_refines_refl
    by (cases "e < length a") (auto simp: nth_list_update list_update_beyond)
  moreover have "a[e := Some s] ! f = a ! f" if "f \<notin> E" for f
    using assms(1) that by (metis nth_list_update_neq)
  ultimately show ?thesis by (simp add: step_rel_def)
qed

lemma step_rel_within: "step_rel E F a b \<Longrightarrow> e \<in> F \<Longrightarrow> within (a ! e) s \<Longrightarrow> within (b ! e) s"
  unfolding step_rel_def using within_refines by blast

lemma step_rel_length: "step_rel E F a b \<Longrightarrow> length b = length a"
  by (simp add: step_rel_def)

lemma step_rel_update2:
  assumes "e \<in> E" "f \<in> E" "slot_refines (Some s) (a ! e)" "slot_refines (Some t) (a ! f)" "e = f \<Longrightarrow> s = t"
  shows "step_rel E F a (a[e := Some s, f := Some t])"
proof (cases "e = f")
  case True
  then show ?thesis using assms by (simp add: step_rel_update)
next
  case False
  show ?thesis
  proof (rule step_rel_trans)
    show "step_rel E F a (a[e := Some s])" by (rule step_rel_update) (use assms in auto)
    show "step_rel E F (a[e := Some s]) (a[e := Some s, f := Some t])"
      by (rule step_rel_update) (use assms False in auto)
  qed
qed

lemma step_rel_fold_res:
  assumes "fold_res f xs a = Inr b" "\<And>x a b. x \<in> set xs \<Longrightarrow> f x a = Inr b \<Longrightarrow> step_rel E F a b"
  shows "step_rel E F a b"
  using assms
proof (induction xs arbitrary: a)
  case (Cons x xs)
  then obtain c where c: "f x a = Inr c" "fold_res f xs c = Inr b" by (auto split: sum.splits)
  then show ?case using Cons.IH [OF c(2)] Cons.prems(2) step_rel_trans by (metis list.set_intros(1,2))
qed (simp add: step_rel_refl)

lemma intersect_slot_admitted:
  "slot = Some s \<Longrightarrow> c \<in> set (intersect_slot slot t) \<Longrightarrow> set_admits s c"
  by (simp add: intersect_slot_def set_intersect_admitted)

lemma mapping_pairs_admitted:
  "mapping_pairs pairs i o' acc = acc' \<Longrightarrow>
     (\<forall>s. i = Some s \<longrightarrow> (\<forall>c \<in> set (fst acc). set_admits s c)) \<Longrightarrow>
     (\<forall>s. o' = Some s \<longrightarrow> (\<forall>c \<in> set (snd acc). set_admits s c)) \<Longrightarrow>
     slot_refines (Some (fst acc')) i \<and> slot_refines (Some (snd acc')) o'"
proof (induction pairs i o' acc rule: mapping_pairs.induct)
  case (1 i o' acc)
  then show ?case by (auto simp: slot_refines_def)
next
  case (2 ins outs pairs i o' ni no)
  show ?case
    by (rule "2.IH" [OF refl refl 2(2) [unfolded mapping_pairs.simps Let_def]])
      (use "2.prems"(2,3) intersect_slot_admitted in \<open>auto simp: set_union_def\<close>)
qed

lemma foldl_update_step:
  "\<forall>oe \<in> set os. slot_refines (Some s) (a ! oe) \<Longrightarrow> set os \<subseteq> E \<Longrightarrow>
     step_rel E F a (foldl (\<lambda>es oe. es[oe := Some s]) a os)"
proof (induction os arbitrary: a)
  case (Cons oe os)
  let ?b = "a[oe := Some s]"
  have 1: "step_rel E UNIV a ?b" by (rule step_rel_update) (use Cons.prems in auto)
  have "slot_refines (Some s) (?b ! p)" if "p \<in> set os" for p
    using Cons.prems(1) that slot_refines_refl by (cases "oe = p"; cases "p < length a") (auto simp: list_update_beyond)
  then have "step_rel E F ?b (foldl (\<lambda>es oe. es[oe := Some s]) ?b os)" using Cons.IH Cons.prems(2) by simp
  then show ?case using step_rel_trans [OF step_rel_mono [OF 1]] by simp
qed (simp add: step_rel_refl)

lemma fold_res_appendE:
  assumes "fold_res f (xs @ ys) a = Inr b"
  obtains c where "fold_res f xs a = Inr c" "fold_res f ys c = Inr b"
  using assms by (auto simp: fold_res_append split: sum.splits)

lemma fold_res_ConsE:
  assumes "fold_res f (x # xs) a = Inr b"
  obtains c where "f x a = Inr c" "fold_res f xs c = Inr b"
  using assms by (auto split: sum.splits)

lemma fold_res_within:
  assumes "fold_res f xs a = Inr b" "x \<in> set xs" "x < length a" "x \<in> F"
    and "\<And>y a b. y \<in> set xs \<Longrightarrow> f y a = Inr b \<Longrightarrow> step_rel E F a b"
    and "\<And>a b. f x a = Inr b \<Longrightarrow> x < length a \<Longrightarrow> within (b ! x) s"
  shows "within (b ! x) s"
  using assms
proof (induction xs arbitrary: a)
  case (Cons y xs)
  then obtain c where c: "f y a = Inr c" "fold_res f xs c = Inr b" by (auto split: sum.splits)
  have st: "step_rel E F a c" by (rule Cons.prems(5) [OF _ c(1)]) simp
  have st': "step_rel E F c b" by (rule step_rel_fold_res [OF c(2)], rule Cons.prems(5), simp_all)
  show ?case
  proof (cases "x = y")
    case True
    then have "within (c ! x) s" using Cons.prems(3,6) c(1) by blast
    then show ?thesis using step_rel_within [OF st' Cons.prems(4)] by blast
  next
    case False
    show ?thesis
      by (rule Cons.IH [OF c(2)]) (use False Cons.prems step_rel_length [OF st] in auto)
  qed
qed simp

section \<open>Fixation candidates\<close>

lemma fixated_candidates_set:
  "set (fixated_candidates s t) = (\<Union>alt \<in> set s. set (candidates_of t alt))"
proof -
  have "set (foldl (\<lambda>out alt. extend_unique out (candidates_of t alt)) acc s) =
      set acc \<union> (\<Union>alt \<in> set s. set (candidates_of t alt))" for acc
    by (induction s arbitrary: acc) auto
  then show ?thesis by (simp add: fixated_candidates_def)
qed

lemma candidates_of_le:
  "c \<in> set (candidates_of t alt) \<Longrightarrow> caps_le c alt \<and> caps_is_fixed c"
  using caps_fixate_le caps_fixate_is_fixed caps_fixate_toward_le
  by (auto simp: candidates_of_def caps_fixate_toward_def split: option.splits sum.splits)

lemma within_admits: "within (Some s) t \<Longrightarrow> set_admits s c \<Longrightarrow> set_admits t c"
  unfolding within_def using set_admits_all_trans by blast


section \<open>Local handlers\<close>

locale local_sweep =
  fixes step :: "'v \<Rightarrow> link_slots \<Rightarrow> 'f + link_slots"
    and nodes :: "'v set"
    and touches :: "'v \<Rightarrow> nat set"
    and keeps :: "'v \<Rightarrow> nat set"
    and declares :: "'v \<Rightarrow> nat \<Rightarrow> caps_set option"
    and width :: nat
  assumes step_local:
      "v \<in> nodes \<Longrightarrow> length a = width \<Longrightarrow> step v a = Inr b \<Longrightarrow> step_rel (touches v) (keeps v) a b"
    and step_declares:
      "v \<in> nodes \<Longrightarrow> length a = width \<Longrightarrow> step v a = Inr b \<Longrightarrow> e < width \<Longrightarrow> declares v e = Some s \<Longrightarrow>
         within (b ! e) s"
begin

lemma sweep_length:
  "fold_res step vs a = Inr b \<Longrightarrow> set vs \<subseteq> nodes \<Longrightarrow> length a = width \<Longrightarrow> length b = width"
proof (induction vs arbitrary: a)
  case (Cons v vs)
  then obtain c where c: "step v a = Inr c" "fold_res step vs c = Inr b" by (auto split: sum.splits)
  have "length c = width" using step_rel_length [OF step_local [OF _ _ c(1)]] Cons.prems by simp
  then show ?case using Cons.IH [OF c(2)] Cons.prems by simp
qed simp

lemma sweep_untouched:
  "fold_res step vs a = Inr b \<Longrightarrow> set vs \<subseteq> nodes \<Longrightarrow> length a = width \<Longrightarrow> \<forall>v \<in> set vs. e \<notin> touches v \<Longrightarrow>
     b ! e = a ! e"
proof (induction vs arbitrary: a)
  case (Cons v vs)
  then obtain c where c: "step v a = Inr c" "fold_res step vs c = Inr b" by (auto split: sum.splits)
  have st: "step_rel (touches v) (keeps v) a c" using step_local [OF _ _ c(1)] Cons.prems by simp
  then have "c ! e = a ! e" using Cons.prems(4) by (simp add: step_rel_def)
  then show ?case using Cons.IH [OF c(2)] Cons.prems step_rel_length [OF st] by simp
qed simp

text \<open>
  When the consumer \<open>v\<close> of a slot runs before its producer \<open>u\<close>, the slot ends up within what both
  declare: the producer keeps it, and nobody else touches it.
\<close>

lemma sweep_within:
  assumes r: "fold_res step (xs @ v # ys @ u # zs) a = Inr b" and n: "set (xs @ v # ys @ u # zs) \<subseteq> nodes"
    and len: "length a = width" and e: "e < width" "e \<in> keeps u"
    and away: "\<forall>w \<in> set xs \<union> set ys \<union> set zs. e \<notin> touches w"
    and d: "declares u e = Some s \<or> declares v e = Some s"
  shows "within (b ! e) s"
proof -
  obtain a1 a2 a3 a4 where 1: "fold_res step xs a = Inr a1" and 2: "step v a1 = Inr a2"
    and 3: "fold_res step ys a2 = Inr a3" and 4: "step u a3 = Inr a4" and 5: "fold_res step zs a4 = Inr b"
    using r by (auto elim!: fold_res_appendE fold_res_ConsE simp del: fold_res.simps)
  have l1: "length a1 = width" using sweep_length [OF 1 _ len] n by simp
  have l2: "length a2 = width" using step_rel_length [OF step_local [OF _ l1 2]] n l1 by simp
  have l3: "length a3 = width" using sweep_length [OF 3 _ l2] n by simp
  have st: "step_rel (touches u) (keeps u) a3 a4" using step_local [OF _ l3 4] n by simp
  have l4: "length a4 = width" using step_rel_length [OF st] l3 by simp
  have same: "a3 ! e = a2 ! e" "b ! e = a4 ! e"
    using sweep_untouched [OF 3 _ l2] sweep_untouched [OF 5 _ l4] n away by simp_all
  show ?thesis
  proof (cases "declares u e = Some s")
    case True
    then show ?thesis using step_declares [OF _ l3 4 e(1)] n same(2) by simp
  next
    case False
    then have "within (a3 ! e) s" using d step_declares [OF _ l1 2 e(1)] n same(1) by simp
    then show ?thesis using step_rel_within [OF st e(2)] same(2) by simp
  qed
qed

end

end
