(* ===== verification/GraphSound.thy ===== *)
theory GraphSound
  imports ChainGraph Sweep
begin

text \<open>
  Soundness of the graph solver: a solution has one fixed caps per edge, satisfies the
  relation of every node, and stays inside the set that each source, sink, port and pad
  declares. The argument follows the reverse sweep that ends the fixpoint loop: an edge is
  narrowed by its consumer first and by its producer last, and a producer never widens an
  outgoing edge.
\<close>

definition incident :: "('e, 'c) validated_graph \<Rightarrow> node_id \<Rightarrow> nat set" where
  "incident g v = set (in_edges_of g v) \<union> set (out_edges_of g v)"

text \<open>
  The set that a node declares for one of its edges, where the relation of the node does not
  already say it: what a source, a fan-out port or a muxer produces, what a sink, an input pad
  or a batch demuxer accepts, and the common set of an \<^verbatim>\<open>Identity\<close> transform.
\<close>

definition port_set :: "caps_constraint list \<Rightarrow> nat \<Rightarrow> caps_set option" where
  "port_set ports k = (case get ports k of Some (Produces s) \<Rightarrow> Some s | _ \<Rightarrow> None)"

definition pad_set :: "caps_constraint list \<Rightarrow> nat \<Rightarrow> caps_set option" where
  "pad_set inputs k = (case get inputs k of Some (Accepts s) \<Rightarrow> Some s | _ \<Rightarrow> None)"

definition declared_out :: "('e, 'c) validated_graph \<Rightarrow> node_constraint list \<Rightarrow> node_id \<Rightarrow> nat \<Rightarrow> caps_set option" where
  "declared_out g cs v e =
     (case (vg_kind g v, cs ! v) of
        (Source, Element (Produces s)) \<Rightarrow> Some s
      | (Transform, Element (Identity s)) \<Rightarrow> Some s
      | (Tee _, DemuxC _ ports) \<Rightarrow> port_set ports (src_pad g e)
      | (FanoutSrc _, DemuxC _ ports) \<Rightarrow> port_set ports (src_pad g e)
      | (Muxer _, MuxerC _ (Produces s) None) \<Rightarrow> Some s
      | _ \<Rightarrow> None)"

definition declared_in :: "('e, 'c) validated_graph \<Rightarrow> node_constraint list \<Rightarrow> node_id \<Rightarrow> nat \<Rightarrow> caps_set option" where
  "declared_in g cs v e =
     (case (vg_kind g v, cs ! v) of
        (Sink, Element (Accepts s)) \<Rightarrow> Some s
      | (Transform, Element (Identity s)) \<Rightarrow> Some s
      | (Tee _, BatchDemux (Accepts s)) \<Rightarrow> Some s
      | (Muxer _, MuxerC inputs _ _) \<Rightarrow> pad_set inputs (dst_pad g e)
      | (Muxer _, BatchMuxer inputs) \<Rightarrow> pad_set inputs (dst_pad g e)
      | (FaninSink _, MuxerC inputs _ _) \<Rightarrow> pad_set inputs (dst_pad g e)
      | _ \<Rightarrow> None)"

definition edge_declared :: "('e, 'c) validated_graph \<Rightarrow> node_constraint list \<Rightarrow> nat \<Rightarrow> caps \<Rightarrow> bool" where
  "edge_declared g cs e c \<longleftrightarrow>
     (case declared_out g cs (edge_src g e) e of Some s \<Rightarrow> set_admits s c | None \<Rightarrow> True) \<and>
     (case declared_in g cs (edge_dst g e) e of Some s \<Rightarrow> set_admits s c | None \<Rightarrow> True)"

definition declares :: "('e, 'c) validated_graph \<Rightarrow> node_constraint list \<Rightarrow> node_id \<Rightarrow> nat \<Rightarrow> caps_set option" where
  "declares g cs v e =
     (if e \<in> set (out_edges_of g v) then declared_out g cs v e
      else if e \<in> set (in_edges_of g v) then declared_in g cs v e
      else None)"

section \<open>Steps of the node handlers\<close>

lemma narrow_edge_step:
  assumes "narrow_edge g e s v a = Inr b" "e \<in> E"
  shows "step_rel E F a b"
  using assms intersect_slot_refines
  by (auto simp: narrow_edge_def Let_def split: if_splits prod.splits intro!: step_rel_update)

lemma narrow_edge_within:
  assumes "narrow_edge g e s v a = Inr b" "e < length a"
  shows "within (b ! e) s"
  using assms intersect_slot_within
  by (auto simp: narrow_edge_def Let_def split: if_splits prod.splits)

lemma couple_edges_step:
  assumes "couple_edges g i j a = Inr b" "i \<in> E" "j \<in> E"
  shows "step_rel E F a b"
  using assms
  by (auto simp: couple_edges_def Let_def slot_refines_def set_intersect_admitted
      split: option.splits if_splits intro!: step_rel_update step_rel_update2 step_rel_refl)

lemma apply_mapping_step:
  assumes "apply_mapping_node g pairs i j a = Inr b" "i \<in> E" "j \<in> E" "i \<noteq> j"
  shows "step_rel E F a b"
proof -
  obtain ni no where m: "mapping_pairs pairs (a ! i) (a ! j) ([], []) = (ni, no)"
    by (cases "mapping_pairs pairs (a ! i) (a ! j) ([], [])")
  show ?thesis
    using assms m mapping_pairs_admitted [OF m]
    by (auto simp: apply_mapping_node_def split: if_splits intro!: step_rel_update2)
qed

lemma apply_derived_step:
  assumes "apply_derived_node g f backward i j v a = Inr b" "i \<in> E" "j \<in> E" "i \<notin> F"
  shows "step_rel E F a b"
proof -
  obtain c where 1: "(case a ! i of
        Some in_set \<Rightarrow>
          (let derived = forward_derived_union f in_set in
           if derived = []
           then Inl (NoOutputForInput (fst (edge_endpoints g j)) (snd (edge_endpoints g j)) in_set)
           else narrow_edge g j derived v a)
      | None \<Rightarrow> Inr a) = Inr c"
    and 2: "(case (c ! i, c ! j) of
            (Some in_set, Some out_set) \<Rightarrow>
              (case backward in_set out_set of
                 Inr (Some narrowed) \<Rightarrow> Inr (c[i := Some narrowed])
               | Inr None \<Rightarrow> Inr c
               | Inl _ \<Rightarrow> Inl (empty_link (fst (edge_endpoints g i)) (snd (edge_endpoints g i))))
          | _ \<Rightarrow> Inr c) = Inr b"
    using assms(1) unfolding apply_derived_node_def bind_res_eq_Inr by blast
  have "step_rel E F a c"
    using 1 assms(3) by (auto simp: Let_def step_rel_refl intro: narrow_edge_step split: option.splits if_splits)
  moreover have "step_rel E F c b"
    using 2 assms(2,4) by (auto simp: step_rel_refl intro!: step_rel_update split: option.splits sum.splits)
  ultimately show ?thesis by (rule step_rel_trans)
qed

lemma apply_identity_step:
  assumes "apply_transform_node g (Identity s) i j v a = Inr b" "i \<in> E" "j \<in> E"
  shows "step_rel E F a b" "i < length a \<Longrightarrow> within (b ! i) s" "j < length a \<Longrightarrow> within (b ! j) s"
proof -
  obtain c d where c: "narrow_edge g i s v a = Inr c" and d: "narrow_edge g j s v c = Inr d"
    and e: "couple_edges g i j d = Inr b" using assms(1) by auto
  have *: "step_rel E UNIV a c" "step_rel E UNIV c d" "step_rel E UNIV d b"
    using narrow_edge_step [OF c assms(2)] narrow_edge_step [OF d assms(3)] couple_edges_step [OF e assms(2,3)] by auto
  show "step_rel E F a b" using * step_rel_trans step_rel_mono by (metis subset_UNIV subset_refl)
  have len: "length c = length a" using *(1) by (simp add: step_rel_def)
  show "within (b ! i) s" if "i < length a"
    using narrow_edge_within [OF c that] step_rel_within [OF *(2)] step_rel_within [OF *(3)] by blast
  show "within (b ! j) s" if "j < length a"
    using narrow_edge_within [OF d] that len step_rel_within [OF *(3)] by auto
qed

lemma apply_transform_step:
  assumes "apply_transform_node g c i j v a = Inr b" "i \<in> E" "j \<in> E" "i \<noteq> j" "i \<notin> F"
  shows "step_rel E F a b"
  using assms apply_identity_step(1)
  by (cases c) (auto simp del: apply_transform_node.simps(1) intro: couple_edges_step apply_mapping_step apply_derived_step)

lemma tee_meet_fold:
  "foldl (tee_meet a) acc os = Some s \<Longrightarrow>
     (\<forall>t. acc = Some t \<longrightarrow> (\<forall>c \<in> set s. set_admits t c)) \<and>
     (\<forall>oe \<in> set os. \<forall>t. a ! oe = Some t \<longrightarrow> (\<forall>c \<in> set s. set_admits t c))"
proof (induction os arbitrary: acc)
  case Nil
  then show ?case by (simp add: set_admits_self)
next
  case (Cons oe os)
  have ih: "(\<forall>t. tee_meet a acc oe = Some t \<longrightarrow> (\<forall>c \<in> set s. set_admits t c)) \<and>
     (\<forall>oe \<in> set os. \<forall>t. a ! oe = Some t \<longrightarrow> (\<forall>c \<in> set s. set_admits t c))"
    by (rule Cons.IH) (use Cons.prems in simp)
  show ?case
  proof (cases "a ! oe")
    case None
    then show ?thesis using ih by (simp add: tee_meet_def)
  next
    case (Some u)
    show ?thesis
    proof (cases acc)
      case None
      then show ?thesis using ih Some by (simp add: tee_meet_def)
    next
      case (Some t)
      then have "\<forall>c \<in> set s. set_admits (set_intersect t u) c"
        using ih \<open>a ! oe = Some u\<close> by (simp add: tee_meet_def)
      moreover have "\<forall>c \<in> set (set_intersect t u). set_admits t c"
        "\<forall>c \<in> set (set_intersect t u). set_admits u c" using set_intersect_admitted by blast+
      ultimately show ?thesis using set_admits_all_trans ih Some \<open>a ! oe = Some u\<close> by simp
    qed
  qed
qed

lemma apply_tee_step:
  assumes "apply_tee_node g i os a = Inr b" "i \<in> E" "set os \<subseteq> E"
  shows "step_rel E F a b"
proof (cases "foldl (tee_meet a) (a ! i) os")
  case None
  then show ?thesis using assms(1) by (simp add: apply_tee_node_def step_rel_refl)
next
  case (Some s)
  have b: "b = foldl (\<lambda>es oe. es[oe := Some s]) a (i # os)"
    using Some assms(1) by (auto simp: apply_tee_node_def split: if_splits)
  show ?thesis unfolding b
    by (rule foldl_update_step) (use tee_meet_fold [OF Some] assms(2,3) in \<open>auto simp: slot_refines_def\<close>)
qed

lemma apply_port_step:
  assumes "apply_port g v i ports oe a = Inr b" "i \<in> E" "oe \<in> E" "i \<noteq> oe" "i \<notin> F"
  shows "step_rel E F a b"
proof (cases "get ports (src_pad g oe)")
  case (Some p)
  have "(\<exists>s. narrow_edge g oe s v a = Inr b) \<or> apply_transform_node g p i oe v a = Inr b"
    using assms(1) unfolding apply_port_def Some by (cases p) auto
  then show ?thesis using assms(2-5) narrow_edge_step apply_transform_step by blast
next
  case None
  show ?thesis using assms(1) unfolding apply_port_def None by (simp add: step_rel_refl)
qed

lemma accept_input_step: "accept_input g v i c a = Inr b \<Longrightarrow> i \<in> E \<Longrightarrow> step_rel E F a b"
  by (auto simp: accept_input_def step_rel_refl intro: narrow_edge_step split: caps_constraint.splits)

lemma apply_demux_step:
  assumes "apply_demux_node g v i os input ports a = Inr b" "i \<in> E" "set os \<subseteq> E" "i \<notin> set os" "i \<notin> F"
  shows "step_rel E F a b"
proof -
  obtain c where c: "accept_input g v i input a = Inr c" "fold_res (apply_port g v i ports) os c = Inr b"
    using assms(1) by (auto simp: apply_demux_node_def)
  have "step_rel E F c b" by (rule step_rel_fold_res [OF c(2)]) (use apply_port_step assms in blast)
  then show ?thesis using accept_input_step [OF c(1) assms(2)] step_rel_trans by blast
qed

lemma narrow_muxer_inputs_step:
  "narrow_muxer_inputs g v inputs a = Inr b \<Longrightarrow> set (in_edges_of g v) \<subseteq> E \<Longrightarrow> step_rel E F a b"
  unfolding narrow_muxer_inputs_def
  by (erule step_rel_fold_res)
    (auto simp: narrow_input_pad_def step_rel_refl intro: narrow_edge_step split: option.splits caps_constraint.splits)

lemma apply_muxer_rest:
  assumes "apply_muxer_node g v inputs output follows a = Inr b" "set (in_edges_of g v) \<subseteq> E" "out_edges_of g v ! 0 \<in> E"
  obtains c where "narrow_muxer_inputs g v inputs a = Inr c" "step_rel E F c b"
proof -
  obtain c where c: "narrow_muxer_inputs g v inputs a = Inr c" using assms(1) by (auto simp: apply_muxer_node_def)
  have "step_rel E F c b"
  proof (cases follows)
    case None
    then show ?thesis using assms c
      by (auto simp: apply_muxer_node_def Let_def intro: narrow_edge_step split: caps_constraint.splits)
  next
    case (Some pad)
    then obtain e where e: "List.find (\<lambda>e. dst_pad g e = pad) (in_edges_of g v) = Some e"
      "couple_edges g e (out_edges_of g v ! 0) c = Inr b"
      using assms c by (auto simp: apply_muxer_node_def Let_def)
    moreover have "e \<in> E" using e(1) assms(2) by (auto simp: find_Some_iff)
    ultimately show ?thesis using assms(3) couple_edges_step by blast
  qed
  then show thesis using c that by blast
qed

lemma apply_muxer_step:
  assumes "apply_muxer_node g v inputs output follows a = Inr b" "set (in_edges_of g v) \<subseteq> E" "out_edges_of g v ! 0 \<in> E"
  shows "step_rel E F a b"
  by (rule apply_muxer_rest [OF assms, of F]) (use narrow_muxer_inputs_step [OF _ assms(2)] step_rel_trans in blast)

lemma apply_batch_muxer_rest:
  assumes "apply_batch_muxer_node g v inputs a = Inr b" "set (in_edges_of g v) \<subseteq> E" "out_edges_of g v ! 0 \<in> E"
  obtains c where "narrow_muxer_inputs g v inputs a = Inr c" "step_rel E F c b"
proof -
  let ?o = "out_edges_of g v ! 0" and ?pads = "pads_in_order g v"
  obtain c d where c: "narrow_muxer_inputs g v inputs a = Inr c"
    and d: "(case all_some (map (\<lambda>(_, e). c ! e) ?pads) of
             Some input_sets \<Rightarrow>
               (let batches = (case batch_alternatives input_sets of
                                 Some b \<Rightarrow> b
                               | None \<Rightarrow> preferred_batch input_sets) in
                narrow_edge g ?o batches v c)
           | None \<Rightarrow> Inr c) = Inr d"
    and b: "(case d ! ?o of
               Some output \<Rightarrow>
                 fold_res (\<lambda>(stream, (_, e)).
                   narrow_edge g e (batch_stream_alternatives output (length ?pads) stream) v)
                   (enumerate 0 ?pads) d
             | None \<Rightarrow> Inr d) = Inr b"
    using assms(1) unfolding apply_batch_muxer_node_def Let_def bind_res_eq_Inr by blast
  have "step_rel E F c d"
    using d assms(3) by (auto simp: step_rel_refl Let_def intro: narrow_edge_step split: option.splits)
  moreover have "step_rel E F d b"
  proof (cases "d ! ?o")
    case None
    then show ?thesis using b by (simp add: step_rel_refl)
  next
    case (Some batch)
    have mem: "e \<in> E" if "(k, p, e) \<in> set (enumerate 0 ?pads)" for k p e
    proof -
      have "e \<in> snd ` set ?pads" using that by (force dest: in_set_enumerate_eq [THEN iffD1] nth_mem)
      then show ?thesis using assms(2) set_pads_in_order by blast
    qed
    show ?thesis
      by (rule step_rel_fold_res [OF b [unfolded Some option.case]])
        (use mem in \<open>auto intro: narrow_edge_step\<close>)
  qed
  ultimately show thesis using c that step_rel_trans by blast
qed

lemma apply_batch_muxer_step:
  assumes "apply_batch_muxer_node g v inputs a = Inr b" "set (in_edges_of g v) \<subseteq> E" "out_edges_of g v ! 0 \<in> E"
  shows "step_rel E F a b"
  by (rule apply_batch_muxer_rest [OF assms, of F]) (use narrow_muxer_inputs_step [OF _ assms(2)] step_rel_trans in blast)

lemma apply_batch_demux_rest:
  assumes "apply_batch_demux_node g v i os input a = Inr b" "i \<in> E" "set os \<subseteq> E"
  obtains c where "accept_input g v i input a = Inr c" "step_rel E F c b"
proof -
  obtain c where c: "accept_input g v i input a = Inr c"
    and r: "(case c ! i of
          None \<Rightarrow> Inr c
        | Some batches \<Rightarrow>
            bind_res
              (fold_res (\<lambda>oe.
                 narrow_edge g oe (batch_stream_alternatives batches (length os) (src_pad g oe)) v) os c)
              (\<lambda>edges.
                 case all_some (port_slots g os edges) of
                   None \<Rightarrow> Inr edges
                 | Some port_sets \<Rightarrow>
                     bind_res
                       (fold_res (batch_demux_alternative (length os) port_sets (TooManyBatchAlternatives v))
                          batches [])
                       (\<lambda>narrowed. narrow_edge g i narrowed v edges))) = Inr b"
    using assms(1) unfolding apply_batch_demux_node_def Let_def bind_res_eq_Inr by blast
  have "step_rel E F c b"
  proof (cases "c ! i")
    case None
    then show ?thesis using r by (simp add: step_rel_refl)
  next
    case (Some batches)
    obtain d where d: "fold_res (\<lambda>oe.
                 narrow_edge g oe (batch_stream_alternatives batches (length os) (src_pad g oe)) v) os c = Inr d"
      and e: "(case all_some (port_slots g os d) of
                   None \<Rightarrow> Inr d
                 | Some port_sets \<Rightarrow>
                     bind_res
                       (fold_res (batch_demux_alternative (length os) port_sets (TooManyBatchAlternatives v))
                          batches [])
                       (\<lambda>narrowed. narrow_edge g i narrowed v d)) = Inr b"
      using r unfolding Some option.case bind_res_eq_Inr by blast
    have "step_rel E F c d" by (rule step_rel_fold_res [OF d]) (use assms(3) narrow_edge_step in blast)
    moreover have "step_rel E F d b"
      using e assms(2) by (auto simp: step_rel_refl intro: narrow_edge_step split: option.splits)
    ultimately show ?thesis by (rule step_rel_trans)
  qed
  then show thesis using c that by blast
qed

lemma apply_batch_demux_step:
  assumes "apply_batch_demux_node g v i os input a = Inr b" "i \<in> E" "set os \<subseteq> E"
  shows "step_rel E F a b"
  by (rule apply_batch_demux_rest [OF assms, of F]) (use accept_input_step [OF _ assms(2)] step_rel_trans in blast)

lemma apply_fanout_port_step: "apply_fanout_port g v ports oe a = Inr b \<Longrightarrow> oe \<in> E \<Longrightarrow> step_rel E F a b"
  by (auto simp: apply_fanout_port_def intro: narrow_edge_step split: option.splits caps_constraint.splits)

lemma in_out_disjoint:
  assumes "graph_ok g" "v < node_count g" "i \<in> set (in_edges_of g v)"
  shows "i \<notin> set (out_edges_of g v)"
proof
  assume out: "i \<in> set (out_edges_of g v)"
  have "i < edge_count g" "edge_dst g i = v" "edge_src g i = v"
    using iffD1 [OF graph_ok_in_edges(1) [OF assms(1,2)] assms(3)]
      iffD1 [OF graph_ok_in_edges(2) [OF assms(1,2)] out] by simp_all
  then show False using graph_ok_no_loop [OF assms(1)] by metis
qed

text \<open>A node touches only its own edges and never widens an outgoing one.\<close>

lemma apply_node_step:
  assumes ok: "graph_ok g" and v: "v < node_count g" and ap: "apply_node g cs v a = Inr b"
  shows "step_rel (incident g v) (set (out_edges_of g v)) a b"
proof -
  let ?E = "incident g v" and ?F = "set (out_edges_of g v)"
  note single = graph_ok_singletons [OF ok v]
  have out: "?F \<subseteq> ?E" "set (in_edges_of g v) \<subseteq> ?E" by (auto simp: incident_def)
  show ?thesis
  proof (cases "vg_kind g v")
    case Source
    then show ?thesis using ap single(1) out
      by (auto simp: apply_node_def Let_def intro: narrow_edge_step split: node_constraint.splits caps_constraint.splits)
  next
    case Sink
    then show ?thesis using ap single(2) out
      by (auto simp: apply_node_def Let_def step_rel_refl intro: narrow_edge_step
          split: node_constraint.splits caps_constraint.splits)
  next
    case Transform
    then obtain i j where ij: "in_edges_of g v = [i]" "out_edges_of g v = [j]" using single(3) by blast
    then have "i \<noteq> j" using in_out_disjoint [OF ok v, of i] by auto
    then show ?thesis using ap Transform ij out
      by (auto simp: apply_node_def Let_def intro: apply_transform_step split: node_constraint.splits)
  next
    case (Tee k)
    then obtain i where i: "in_edges_of g v = [i]" using single(4) by blast
    have "i \<notin> ?F" using in_out_disjoint [OF ok v, of i] i by auto
    note steps = apply_demux_step [OF _ _ out(1) _ \<open>i \<notin> ?F\<close>] apply_batch_demux_step [OF _ _ out(1)]
      apply_tee_step [OF _ _ out(1)]
    have inc: "i \<in> ?E" using i by (simp add: incident_def)
    show ?thesis
    proof (cases "cs ! v")
      case (DemuxC input ports)
      then show ?thesis using ap Tee i inc \<open>i \<notin> ?F\<close> by (auto simp: apply_node_def Let_def intro: steps(1))
    next
      case (BatchDemux input)
      then show ?thesis using ap Tee i inc by (auto simp: apply_node_def Let_def intro: steps(2))
    qed (use ap Tee i inc in \<open>auto simp: apply_node_def Let_def intro: steps(3)\<close>)
  next
    case (Muxer k)
    then obtain j where j: "out_edges_of g v = [j]" using single(5) by blast
    then have "out_edges_of g v ! 0 \<in> ?E" using out by auto
    then show ?thesis using ap Muxer out
      by (auto simp: apply_node_def Let_def split: node_constraint.splits
          intro: apply_muxer_step apply_batch_muxer_step)
  next
    case (FaninSink k)
    then show ?thesis using ap out
      by (auto simp: apply_node_def Let_def split: node_constraint.splits intro: narrow_muxer_inputs_step)
  next
    case (FanoutSrc k)
    then obtain ports where "fold_res (apply_fanout_port g v ports) (out_edges_of g v) a = Inr b"
      using ap by (auto simp: apply_node_def Let_def split: node_constraint.splits)
    then show ?thesis by (rule step_rel_fold_res) (use out apply_fanout_port_step in blast)
  qed
qed

section \<open>Declared sets\<close>

lemma port_set_Some: "port_set ports k = Some s \<longleftrightarrow> get ports k = Some (Produces s)"
  by (auto simp: port_set_def simp del: get_eq_Some get_eq_None split: option.splits caps_constraint.splits)

lemma pad_set_Some: "pad_set ports k = Some s \<longleftrightarrow> get ports k = Some (Accepts s)"
  by (auto simp: pad_set_def simp del: get_eq_Some get_eq_None split: option.splits caps_constraint.splits)

lemma narrow_muxer_inputs_within:
  assumes "narrow_muxer_inputs g v inputs a = Inr b" "e \<in> set (in_edges_of g v)" "e < length a"
    "pad_set inputs (dst_pad g e) = Some s"
  shows "within (b ! e) s"
proof (rule fold_res_within [OF assms(1) [unfolded narrow_muxer_inputs_def] assms(2,3), of UNIV UNIV])
  fix c d
  assume "narrow_input_pad g v inputs e c = Inr d" "e < length c"
  then show "within (d ! e) s"
    unfolding narrow_input_pad_def using assms(4) [unfolded pad_set_Some] narrow_edge_within by simp
next
  fix y c d
  assume "narrow_input_pad g v inputs y c = Inr d"
  then show "step_rel UNIV UNIV c d"
    by (auto simp: narrow_input_pad_def step_rel_refl intro: narrow_edge_step split: option.splits caps_constraint.splits)
qed simp

lemma apply_ports_within:
  assumes "fold_res (apply_port g v i ports) os a = Inr b" "oe \<in> set os" "oe < length a" "i \<notin> set os"
    "port_set ports (src_pad g oe) = Some s"
  shows "within (b ! oe) s"
proof (rule fold_res_within [OF assms(1,2,3), of "set os" UNIV])
  fix c d
  assume "apply_port g v i ports oe c = Inr d" "oe < length c"
  then show "within (d ! oe) s"
    unfolding apply_port_def using assms(5) [unfolded port_set_Some] narrow_edge_within by simp
next
  fix y c d
  assume "y \<in> set os" "apply_port g v i ports y c = Inr d"
  moreover have "i \<noteq> y" using assms(4) \<open>y \<in> set os\<close> by blast
  ultimately show "step_rel UNIV (set os) c d" using apply_port_step assms(4) by blast
qed (simp add: assms(2))

lemma apply_fanout_within:
  assumes "fold_res (apply_fanout_port g v ports) os a = Inr b" "oe \<in> set os" "oe < length a"
    "port_set ports (src_pad g oe) = Some s"
  shows "within (b ! oe) s"
proof (rule fold_res_within [OF assms(1,2,3), of UNIV UNIV])
  fix c d
  assume "apply_fanout_port g v ports oe c = Inr d" "oe < length c"
  then show "within (d ! oe) s"
    unfolding apply_fanout_port_def using assms(4) [unfolded port_set_Some] narrow_edge_within by simp
qed (simp_all add: apply_fanout_port_step)

lemma apply_node_out:
  assumes ok: "graph_ok g" and v: "v < node_count g" and ap: "apply_node g cs v a = Inr b"
    and e: "e \<in> set (out_edges_of g v)" "e < length a" and d: "declared_out g cs v e = Some s"
  shows "within (b ! e) s"
proof (cases "vg_kind g v")
  case Source
  then show ?thesis using ap d e graph_ok_singletons(1) [OF ok v]
    by (auto simp: apply_node_def declared_out_def Let_def intro: narrow_edge_within
        split: node_constraint.splits caps_constraint.splits)
next
  case Transform
  then obtain i j where ij: "in_edges_of g v = [i]" "out_edges_of g v = [j]"
    using graph_ok_singletons(3) [OF ok v] by blast
  have c: "cs ! v = Element (Identity s)"
    using d Transform by (auto simp: declared_out_def split: node_constraint.splits caps_constraint.splits)
  then have "apply_transform_node g (Identity s) i e v a = Inr b"
    using ap Transform e(1) ij by (simp add: apply_node_def Let_def)
  from apply_identity_step(3) [OF this UNIV_I UNIV_I e(2)] show ?thesis .
next
  case (Tee k)
  then obtain i where i: "in_edges_of g v = [i]" using graph_ok_singletons(4) [OF ok v] by blast
  obtain input ports where c: "cs ! v = DemuxC input ports" "port_set ports (src_pad g e) = Some s"
    using d Tee by (auto simp: declared_out_def split: node_constraint.splits)
  then obtain c where "accept_input g v i input a = Inr c" "fold_res (apply_port g v i ports) (out_edges_of g v) c = Inr b"
    using ap Tee i by (auto simp: apply_node_def Let_def apply_demux_node_def)
  then show ?thesis
    using apply_ports_within [OF _ e(1)] e(2) step_rel_length [OF accept_input_step [OF _ UNIV_I]] c(2)
      in_out_disjoint [OF ok v] i by (metis list.set_intros(1))
next
  case (Muxer k)
  then obtain inputs where c: "cs ! v = MuxerC inputs (Produces s) None"
    using d by (auto simp: declared_out_def split: node_constraint.splits option.splits caps_constraint.splits)
  obtain j where j: "out_edges_of g v = [j]" using graph_ok_singletons(5) [OF ok v Muxer] by blast
  then obtain c where "narrow_muxer_inputs g v inputs a = Inr c" "narrow_edge g e s v c = Inr b"
    using ap Muxer c e by (auto simp: apply_node_def Let_def apply_muxer_node_def)
  then show ?thesis
    using narrow_edge_within step_rel_length [OF narrow_muxer_inputs_step [OF _ subset_UNIV]] e(2) by metis
next
  case (FanoutSrc k)
  then show ?thesis using ap d apply_fanout_within [OF _ e]
    by (auto simp: apply_node_def declared_out_def Let_def split: node_constraint.splits)
qed (use d in \<open>simp_all add: declared_out_def\<close>)

lemma apply_muxer_within:
  assumes ap: "apply_muxer_node g v inputs output follows a = Inr b"
    and e: "e \<in> set (in_edges_of g v)" "e < length a" "pad_set inputs (dst_pad g e) = Some s"
  shows "within (b ! e) s"
  by (rule apply_muxer_rest [OF ap subset_UNIV UNIV_I, of UNIV])
    (use narrow_muxer_inputs_within [OF _ e] step_rel_within in blast)

lemma apply_batch_muxer_within:
  assumes ap: "apply_batch_muxer_node g v inputs a = Inr b"
    and e: "e \<in> set (in_edges_of g v)" "e < length a" "pad_set inputs (dst_pad g e) = Some s"
  shows "within (b ! e) s"
  by (rule apply_batch_muxer_rest [OF ap subset_UNIV UNIV_I, of UNIV])
    (use narrow_muxer_inputs_within [OF _ e] step_rel_within in blast)

lemma apply_batch_demux_within:
  assumes ap: "apply_batch_demux_node g v e os (Accepts s) a = Inr b" and e: "e < length a"
  shows "within (b ! e) s"
  by (rule apply_batch_demux_rest [OF ap UNIV_I subset_UNIV, of UNIV])
    (use narrow_edge_within [OF _ e] step_rel_within in \<open>simp add: accept_input_def, blast\<close>)

lemma apply_node_in:
  assumes ok: "graph_ok g" and v: "v < node_count g" and ap: "apply_node g cs v a = Inr b"
    and e: "e \<in> set (in_edges_of g v)" "e < length a" and d: "declared_in g cs v e = Some s"
  shows "within (b ! e) s"
proof (cases "vg_kind g v")
  case Sink
  then show ?thesis using ap d e graph_ok_singletons(2) [OF ok v]
    by (auto simp: apply_node_def declared_in_def Let_def intro: narrow_edge_within
        split: node_constraint.splits caps_constraint.splits)
next
  case Transform
  then obtain i j where ij: "in_edges_of g v = [i]" "out_edges_of g v = [j]"
    using graph_ok_singletons(3) [OF ok v] by blast
  have c: "cs ! v = Element (Identity s)"
    using d Transform by (auto simp: declared_in_def split: node_constraint.splits caps_constraint.splits)
  then have "apply_transform_node g (Identity s) e j v a = Inr b"
    using ap Transform e(1) ij by (simp add: apply_node_def Let_def)
  from apply_identity_step(2) [OF this UNIV_I UNIV_I e(2)] show ?thesis .
next
  case (Tee k)
  then obtain i where i: "in_edges_of g v = [i]" using graph_ok_singletons(4) [OF ok v] by blast
  have c: "cs ! v = BatchDemux (Accepts s)"
    using d Tee by (auto simp: declared_in_def split: node_constraint.splits caps_constraint.splits)
  have ap': "apply_batch_demux_node g v e (out_edges_of g v) (Accepts s) a = Inr b"
    using ap c Tee i e(1) by (simp add: apply_node_def Let_def)
  show ?thesis by (rule apply_batch_demux_within [OF ap' e(2)])
next
  case (Muxer k)
  obtain j where j: "out_edges_of g v = [j]" using graph_ok_singletons(5) [OF ok v Muxer] by blast
  consider inputs outp follows where "cs ! v = MuxerC inputs outp follows" "pad_set inputs (dst_pad g e) = Some s"
    | inputs where "cs ! v = BatchMuxer inputs" "pad_set inputs (dst_pad g e) = Some s"
    using d Muxer by (auto simp: declared_in_def split: node_constraint.splits)
  then show ?thesis
  proof cases
    case 1
    then have "apply_muxer_node g v inputs outp follows a = Inr b"
      using ap Muxer by (simp add: apply_node_def Let_def)
    then show ?thesis using apply_muxer_within [OF _ e 1(2)] by blast
  next
    case 2
    then have "apply_batch_muxer_node g v inputs a = Inr b"
      using ap Muxer by (simp add: apply_node_def Let_def)
    then show ?thesis using apply_batch_muxer_within [OF _ e 2(2)] by blast
  qed
next
  case (FaninSink k)
  then show ?thesis using ap d narrow_muxer_inputs_within [OF _ e]
    by (auto simp: apply_node_def declared_in_def Let_def split: node_constraint.splits)
qed (use d in \<open>simp_all add: declared_in_def\<close>)

section \<open>The reverse sweep\<close>

lemma precedes_split:
  assumes "distinct xs" "precedes xs u v"
  obtains as bs cs where "xs = as @ u # bs @ v # cs"
proof -
  obtain j where j: "j < length xs" "xs ! j = v" "u \<in> set (take j xs)" using assms(2) by (auto simp: precedes_def)
  obtain as bs where "take j xs = as @ u # bs" using split_list [OF j(3)] by blast
  then have "xs = as @ u # bs @ v # drop (Suc j) xs" using id_take_nth_drop [OF j(1)] j(2) by simp
  then show thesis using that by blast
qed

interpretation graph_nodes: local_sweep "apply_node g cs" "{v. graph_ok g \<and> v < node_count g}" "incident g"
  "\<lambda>v. set (out_edges_of g v)" "declares g cs" "edge_count g" for g :: "('e, 'c) validated_graph" and cs
proof unfold_locales
  fix v a b e s
  assume v: "v \<in> {v. graph_ok g \<and> v < node_count g}" and a: "length a = edge_count g" "apply_node g cs v a = Inr b"
  show "step_rel (incident g v) (set (out_edges_of g v)) a b" using apply_node_step v a by blast
  assume "e < edge_count g" "declares g cs v e = Some s"
  then show "within (b ! e) s"
    using v a apply_node_out [of g v cs a b e s] apply_node_in [of g v cs a b e s]
    by (auto simp: declares_def split: if_splits)
qed

text \<open>After a reverse sweep every edge lies within what its two ends declare.\<close>

lemma reverse_sweep_declared:
  assumes ok: "graph_ok g" and e: "e < edge_count g" and len: "length a = edge_count g"
    and r: "graph_sweep g cs (rev (vg_topo g)) a = Inr b"
    and d: "declared_out g cs (edge_src g e) e = Some s \<or> declared_in g cs (edge_dst g e) e = Some s"
  shows "within (b ! e) s"
proof -
  let ?u = "edge_src g e" and ?v = "edge_dst g e"
  note uv = graph_ok_edges [OF ok e]
  note topo_all = graph_ok_topo [OF ok]
  obtain xs ys zs where topo: "vg_topo g = xs @ ?u # ys @ ?v # zs" using precedes_split [OF topo_all(1) uv(3)] .
  have rt: "rev (vg_topo g) = rev zs @ ?v # rev ys @ ?u # rev xs" by (simp add: topo)
  have e_in: "e \<in> set (in_edges_of g ?v)" by (rule iffD2 [OF graph_ok_in_edges(1) [OF ok uv(2)]]) (simp add: e)
  have e_out: "e \<in> set (out_edges_of g ?u)" by (rule iffD2 [OF graph_ok_in_edges(2) [OF ok uv(1)]]) (simp add: e)
  have away: "e \<notin> incident g w" if w: "w \<in> set xs \<union> set ys \<union> set zs" for w
  proof
    have "w \<in> set (vg_topo g)" using w topo by auto
    then have w': "w < node_count g" using topo_all(2) by blast
    assume "e \<in> incident g w"
    then have "edge_dst g e = w \<or> edge_src g e = w" using graph_ok_in_edges(1,2) [OF ok w'] unfolding incident_def by blast
    then show False using w topo_all(1) unfolding topo by auto
  qed
  have nodes: "set (rev zs @ ?v # rev ys @ ?u # rev xs) \<subseteq> {v. graph_ok g \<and> v < node_count g}"
    unfolding rt [symmetric] using ok topo_all(2) by auto
  have d': "declares g cs ?u e = Some s \<or> declares g cs ?v e = Some s"
    using d e_in e_out in_out_disjoint [OF ok uv(2) e_in] by (auto simp: declares_def)
  show ?thesis
    by (rule graph_nodes.sweep_within [OF r [unfolded graph_sweep_def rt] nodes len e e_out _ d']) (use away in auto)
qed

lemma graph_sweep_length:
  assumes "graph_ok g" "graph_sweep g cs ws a = Inr b" "set ws \<subseteq> {..<node_count g}" "length a = edge_count g"
  shows "length b = edge_count g"
  by (rule graph_nodes.sweep_length [OF assms(2) [unfolded graph_sweep_def]]) (use assms in auto)

lemma graph_fixpoint_result:
  assumes ok: "graph_ok g"
  shows "graph_fixpoint n g cs a = Inr b \<Longrightarrow> 0 < n \<Longrightarrow> length a = edge_count g \<Longrightarrow>
    \<exists>c. graph_sweep g cs (rev (vg_topo g)) c = Inr b \<and> length c = edge_count g"
proof (induction n arbitrary: a)
  case (Suc n)
  obtain f w where f: "graph_sweep g cs (vg_topo g) a = Inr f" and w: "graph_sweep g cs (rev (vg_topo g)) f = Inr w"
    and r: "(if w = a then Inr w else graph_fixpoint n g cs w) = Inr b"
    using Suc.prems(1) by (auto split: sum.splits)
  have len: "length f = edge_count g" "length w = edge_count g"
    using graph_sweep_length [OF ok f] graph_sweep_length [OF ok w] Suc.prems(3) graph_ok_topo [OF ok] by simp_all
  show ?case
  proof (cases "w = a \<or> n = 0")
    case True
    then show ?thesis using r w len by (auto split: if_splits)
  next
    case False
    then show ?thesis using Suc.IH r len by simp
  qed
qed simp

section \<open>Candidates\<close>

lemma edge_domains_result:
  assumes "edge_domains g cs edges = Inr ds"
  shows "length ds = length edges"
    and "e < length edges \<Longrightarrow> \<exists>s. edges ! e = Some s \<and> set (ds ! e) \<noteq> {} \<and>
           (\<forall>c \<in> set (ds ! e). caps_is_fixed c \<and> set_admits s c)"
proof -
  let ?ts = "fixation_targets g cs edges"
  have all: "list_all2 (\<lambda>r d. r = Inr d) (map (edge_domain g ?ts) (enumerate 0 edges)) ds"
    using assms by (simp add: edge_domains_def collect_res_Inr_iff list_all2_conv_all_nth)
  then show len: "length ds = length edges" using list_all2_lengthD by fastforce
  assume e: "e < length edges"
  then have "edge_domain g ?ts (e, edges ! e) = Inr (ds ! e)"
    using list_all2_nthD [OF all, of e] by (simp add: nth_enumerate_eq)
  then obtain s where s: "edges ! e = Some s" "ds ! e = fixated_candidates s (?ts ! e)" "ds ! e \<noteq> []"
    by (auto simp: edge_domain_def Let_def edge_endpoints_def split: option.splits if_splits)
  moreover have "caps_is_fixed c \<and> set_admits s c" if "c \<in> set (ds ! e)" for c
    using that candidates_of_le unfolding s(2) fixated_candidates_set set_admits_iff by blast
  ultimately show "\<exists>s. edges ! e = Some s \<and> set (ds ! e) \<noteq> {} \<and>
      (\<forall>c \<in> set (ds ! e). caps_is_fixed c \<and> set_admits s c)" by auto
qed

lemma fixpoint_domain_declared:
  assumes ok: "graph_ok g" and fp: "graph_fixpoint (Suc n) g cs (replicate (edge_count g) None) = Inr edges"
    and dm: "edge_domains g cs edges = Inr ds" and e: "e < edge_count g"
  shows "length ds = edge_count g" "ds ! e \<noteq> []"
    "\<forall>c \<in> set (ds ! e). caps_is_fixed c \<and> edge_declared g cs e c"
proof -
  obtain a where a: "graph_sweep g cs (rev (vg_topo g)) a = Inr edges" "length a = edge_count g"
    using graph_fixpoint_result [OF ok fp] by auto
  have len: "length edges = edge_count g"
    using graph_sweep_length [OF ok a(1)] a(2) graph_ok_topo [OF ok] by simp
  then show "length ds = edge_count g" using edge_domains_result(1) [OF dm] by simp
  obtain s where s: "edges ! e = Some s" "set (ds ! e) \<noteq> {}" "\<forall>c \<in> set (ds ! e). caps_is_fixed c \<and> set_admits s c"
    using edge_domains_result(2) [OF dm] e len by auto
  then show "ds ! e \<noteq> []" by simp
  note wi = reverse_sweep_declared [OF ok e a(2,1), unfolded s(1)]
  have "edge_declared g cs e c" if "c \<in> set (ds ! e)" for c
    using within_admits [OF wi] s(3) that by (simp add: edge_declared_def split: option.splits)
  then show "\<forall>c \<in> set (ds ! e). caps_is_fixed c \<and> edge_declared g cs e c" using s(3) by blast
qed

lemma valid_choice_nth:
  "valid_choice ds js \<Longrightarrow> e < length ds \<Longrightarrow> js ! e < length (ds ! e) \<and> assignment_of ds js ! e = ds ! e ! (js ! e)"
  by (auto simp: valid_choice_def assignment_of_def list_all2_conv_all_nth)

section \<open>Soundness\<close>

lemma graph_assignment_result:
  assumes ok: "graph_ok g" and tee: "tee_slots_identity g cs" and n: "length cs = node_count g"
    and len: "length ds = edge_count g" and r: "graph_assignment g cs prefs ds = Inr a"
  shows "\<exists>xs. a = map Some xs \<and> length xs = edge_count g \<and> (\<forall>e < edge_count g. xs ! e \<in> set (ds ! e)) \<and>
      all_consistent g cs xs"
proof (cases "preferred_chain_assignment g cs prefs ds")
  case (Some b)
  then show ?thesis using r preferred_chain_result [OF ok tee n len] by (simp add: graph_assignment_def)
next
  case None
  then have "fixate_backtrack g cs ds 0 (partial_assign (edge_count g) []) = Some a"
    using r by (simp add: graph_assignment_def partial_assign_def)
  then obtain js where "valid_from g cs ds [] js" "a = map Some (chosen ds [] js)"
    using fixate_backtrack_spec [of "[]" ds g cs] len by auto
  moreover from this have "chosen ds [] js = assignment_of ds js"
    using chosen_eq [of "[]" js ds] valid_from_length [of g cs ds "[]" js] by simp
  ultimately show ?thesis
    using valid_from_all_consistent [OF ok len, of cs js] valid_choice_nth [of ds js] len
    by (intro exI [of _ "assignment_of ds js"]) (auto simp: assignment_of_def valid_choice_def dest: list_all2_lengthD)
qed

lemma solve_graph_cases:
  assumes "solve_graph_preferred g cs prefs = Inr sol"
  obtains edges ds a where "length cs = node_count g" "2 \<le> node_count g"
    "graph_fixpoint (8 * edge_count g + 4) g cs (replicate (edge_count g) None) = Inr edges"
    "edge_domains g cs edges = Inr ds" "graph_assignment g cs prefs ds = Inr a" "sol = map the a"
  using assms by (auto simp: solve_graph_preferred_def split: if_splits)

lemma solve_graph_sound:
  assumes ok: "graph_ok g" and tee: "tee_slots_identity g cs" and r: "solve_graph_preferred g cs prefs = Inr sol"
  shows "length sol = edge_count g \<and> all_consistent g cs sol \<and>
    (\<forall>e < edge_count g. caps_is_fixed (sol ! e) \<and> edge_declared g cs e (sol ! e))"
proof (rule solve_graph_cases [OF r])
  fix edges ds a
  assume n: "length cs = node_count g" "2 \<le> node_count g"
    and fp: "graph_fixpoint (8 * edge_count g + 4) g cs (replicate (edge_count g) None) = Inr edges"
    and dm: "edge_domains g cs edges = Inr ds" and a: "graph_assignment g cs prefs ds = Inr a" "sol = map the a"
  have fp': "graph_fixpoint (Suc (8 * edge_count g + 3)) g cs (replicate (edge_count g) None) = Inr edges"
  proof -
    have "8 * edge_count g + 4 = Suc (8 * edge_count g + 3)" by simp
    then show ?thesis using fp by (simp only:)
  qed
  have "0 < edge_count g"
  proof -
    have 0: "0 < node_count g" using n(2) by simp
    have "\<forall>v < node_count g. in_edges_of g v @ out_edges_of g v \<noteq> []" using ok unfolding graph_ok_def by blast
    then have "in_edges_of g 0 @ out_edges_of g 0 \<noteq> []" using 0 by blast
    then have "set (in_edges_of g 0) \<union> set (out_edges_of g 0) \<noteq> {}" by simp
    then obtain e where e: "e \<in> set (in_edges_of g 0) \<union> set (out_edges_of g 0)" unfolding ex_in_conv [symmetric] by (elim exE)
    then show ?thesis using incident_less [OF ok 0 e] by simp
  qed
  then have len: "length ds = edge_count g" using fixpoint_domain_declared(1) [OF ok fp' dm] by blast
  obtain xs where "a = map Some xs" "length xs = edge_count g" "\<forall>e < edge_count g. xs ! e \<in> set (ds ! e)"
      "all_consistent g cs xs"
    using graph_assignment_result [OF ok tee n(1) len a(1)] by blast
  moreover from this have "sol = xs" using a(2) by (simp add: comp_def)
  ultimately show ?thesis using fixpoint_domain_declared(3) [OF ok fp' dm] by auto
qed

end
