(* ===== verification/GraphComplete.thy ===== *)
theory GraphComplete
  imports GraphSound
begin

text \<open>
  The narrowing of the graph solver loses no solution: if a choice of concrete caps for every
  edge satisfies all nodes, no order of node applications ever rejects the graph, and the sets on
  the edges keep admitting the choice. Closures (\<^verbatim>\<open>DerivedOutput\<close>) are left out, since nothing is
  known of them, and so are the batch nodes, which cap the number of alternatives.
\<close>

section \<open>Solutions\<close>

fun transform_solution :: "caps_constraint \<Rightarrow> caps \<Rightarrow> caps \<Rightarrow> bool" where
  "transform_solution (Identity s) x y \<longleftrightarrow> x = y \<and> set_admits s x"
| "transform_solution IdentityAny x y \<longleftrightarrow> x = y"
| "transform_solution (Mapping pairs) x y \<longleftrightarrow> list_ex (\<lambda>(i, o'). set_admits i x \<and> set_admits o' y) pairs"
| "transform_solution (DerivedFields t) x y \<longleftrightarrow> set_admits (derive t x) y"
| "transform_solution _ x y \<longleftrightarrow> False"

fun pad_solution :: "caps_constraint option \<Rightarrow> caps \<Rightarrow> bool" where
  "pad_solution (Some (Accepts s)) x \<longleftrightarrow> set_admits s x"
| "pad_solution (Some AcceptsAny) x \<longleftrightarrow> True"
| "pad_solution _ x \<longleftrightarrow> False"

fun port_solution :: "caps_constraint option \<Rightarrow> caps \<Rightarrow> caps \<Rightarrow> bool" where
  "port_solution (Some (Produces s)) x y \<longleftrightarrow> set_admits s y"
| "port_solution (Some c) x y \<longleftrightarrow> transform_solution c x y"
| "port_solution None x y \<longleftrightarrow> True"

definition node_solution ::
  "('e, 'c) validated_graph \<Rightarrow> node_constraint list \<Rightarrow> (nat \<Rightarrow> caps) \<Rightarrow> node_id \<Rightarrow> bool" where
  "node_solution g cs x v \<longleftrightarrow>
     (let ins = in_edges_of g v; outs = out_edges_of g v in
      case (vg_kind g v, cs ! v) of
        (Source, Element (Produces s)) \<Rightarrow> set_admits s (x (outs ! 0))
      | (Sink, Element c) \<Rightarrow> pad_solution (Some c) (x (ins ! 0))
      | (Transform, Element c) \<Rightarrow> transform_solution c (x (ins ! 0)) (x (outs ! 0))
      | (Tee _, DemuxC input ports) \<Rightarrow>
          (case input of Accepts s \<Rightarrow> set_admits s (x (ins ! 0)) | _ \<Rightarrow> True) \<and>
          list_all (\<lambda>e. port_solution (get ports (src_pad g e)) (x (ins ! 0)) (x e)) outs
      | (Tee _, BatchDemux _) \<Rightarrow> False
      | (Tee _, _) \<Rightarrow> list_all (\<lambda>e. x e = x (ins ! 0)) outs
      | (Muxer _, MuxerC inputs output follows) \<Rightarrow>
          list_all (\<lambda>e. pad_solution (get inputs (dst_pad g e)) (x e)) ins \<and>
          (case follows of
             Some pad \<Rightarrow>
               (case List.find (\<lambda>e. dst_pad g e = pad) ins of
                  Some e \<Rightarrow> x e = x (outs ! 0)
                | None \<Rightarrow> False)
           | None \<Rightarrow> (case output of Produces s \<Rightarrow> set_admits s (x (outs ! 0)) | _ \<Rightarrow> False))
      | (FaninSink _, MuxerC inputs _ _) \<Rightarrow> list_all (\<lambda>e. pad_solution (get inputs (dst_pad g e)) (x e)) ins
      | (FanoutSrc _, DemuxC _ ports) \<Rightarrow>
          list_all (\<lambda>e. case get ports (src_pad g e) of Some (Produces s) \<Rightarrow> set_admits s (x e) | _ \<Rightarrow> False) outs
      | _ \<Rightarrow> False)"

definition graph_solution :: "('e, 'c) validated_graph \<Rightarrow> node_constraint list \<Rightarrow> (nat \<Rightarrow> caps) \<Rightarrow> bool" where
  "graph_solution g cs x \<longleftrightarrow>
     (\<forall>e < edge_count g. concrete (x e)) \<and> (\<forall>v < node_count g. node_solution g cs x v)"

text \<open>The sets on the edges still admit the solution.\<close>

definition slot_admits :: "caps_set option \<Rightarrow> caps \<Rightarrow> bool" where
  "slot_admits slot c \<longleftrightarrow> (case slot of Some s \<Rightarrow> set_admits s c | None \<Rightarrow> True)"

definition admits_solution :: "edge_slots \<Rightarrow> (nat \<Rightarrow> caps) \<Rightarrow> bool" where
  "admits_solution edges x \<longleftrightarrow> (\<forall>e < length edges. slot_admits (edges ! e) (x e))"

section \<open>One step\<close>

lemma concrete_ne: "concrete c \<Longrightarrow> caps_ne c"
  by (cases c) (auto intro: is_fixed_ne simp: caps_is_fixed_Batch caps_ne_Batch dest: caps_fixed_ne)

lemma admits_update:
  "admits_solution edges x \<Longrightarrow> set_admits s (x e) \<Longrightarrow> admits_solution (edges[e := Some s]) x"
  unfolding admits_solution_def
proof (intro allI impI)
  fix f
  assume "\<forall>e < length edges. slot_admits (edges ! e) (x e)" "set_admits s (x e)" "f < length (edges[e := Some s])"
  then show "slot_admits (edges[e := Some s] ! f) (x f)" by (cases "f = e") (auto simp: slot_admits_def)
qed

lemma admits_nth: "admits_solution edges x \<Longrightarrow> e < length edges \<Longrightarrow> edges ! e = Some s \<Longrightarrow> set_admits s (x e)"
  by (auto simp: admits_solution_def slot_admits_def)

lemma intersect_slot_admits:
  "slot_admits slot c \<Longrightarrow> set_admits s c \<Longrightarrow> caps_ne c \<Longrightarrow> set_admits (intersect_slot slot s) c"
  by (cases slot) (simp_all add: slot_admits_def intersect_slot_def set_admits_intersect)

lemma set_admits_not_Nil: "set_admits s c \<Longrightarrow> s \<noteq> []"
  by auto

lemma narrow_edge_keeps:
  assumes "admits_solution a x" "e < length a" "set_admits s (x e)" "caps_ne (x e)"
  shows "\<exists>b. narrow_edge g e s v a = Inr b \<and> admits_solution b x \<and> length b = length a \<and> b ! e \<noteq> None"
proof -
  have "set_admits (intersect_slot (a ! e) s) (x e)"
    using assms by (intro intersect_slot_admits) (simp_all add: admits_solution_def)
  then show ?thesis using assms set_admits_not_Nil by (auto simp: narrow_edge_def Let_def admits_update)
qed

lemma couple_edges_keeps:
  assumes "admits_solution a x" "i < length a" "j < length a" "x i = x j" "caps_ne (x i)"
  shows "\<exists>b. couple_edges g i j a = Inr b \<and> admits_solution b x \<and> length b = length a"
proof (cases "a ! i"; cases "a ! j")
  fix s t
  assume st: "a ! i = Some s" "a ! j = Some t"
  have "set_admits s (x i)" "set_admits t (x i)"
    using admits_nth [OF assms(1,2) st(1)] admits_nth [OF assms(1,3) st(2)] assms(4) by simp_all
  then have m: "set_admits (set_intersect s t) (x i)" using assms(5) by (simp add: set_admits_intersect)
  then have "set_intersect s t \<noteq> []" by (rule set_admits_not_Nil)
  moreover have "admits_solution (a[i := Some (set_intersect s t), j := Some (set_intersect s t)]) x"
    using m assms(1,4) by (intro admits_update) simp_all
  ultimately show ?thesis using st by (simp add: couple_edges_def Let_def)
next
  fix s
  assume st: "a ! i = Some s" "a ! j = None"
  have "admits_solution (a[j := Some s]) x" by (rule admits_update) (use assms admits_nth [OF assms(1,2) st(1)] in simp_all)
  then show ?thesis using st by (simp add: couple_edges_def)
next
  fix t
  assume st: "a ! i = None" "a ! j = Some t"
  have "admits_solution (a[i := Some t]) x" by (rule admits_update) (use assms admits_nth [OF assms(1,3) st(2)] in simp_all)
  then show ?thesis using st by (simp add: couple_edges_def)
qed (use assms in \<open>auto simp: couple_edges_def\<close>)

lemma mapping_pairs_keeps:
  "slot_admits i x \<Longrightarrow> slot_admits o' y \<Longrightarrow> caps_ne x \<Longrightarrow> caps_ne y \<Longrightarrow>
     list_ex (\<lambda>(p, q). set_admits p x \<and> set_admits q y) pairs \<or> set_admits (fst acc) x \<and> set_admits (snd acc) y \<Longrightarrow>
     set_admits (fst (mapping_pairs pairs i o' acc)) x \<and> set_admits (snd (mapping_pairs pairs i o' acc)) y"
proof (induction pairs i o' acc rule: mapping_pairs.induct)
  case (2 p q pairs i o' ni no)
  let ?im = "intersect_slot i p" and ?om = "intersect_slot o' q"
  show ?case
    unfolding mapping_pairs.simps Let_def
  proof (rule "2.IH" [OF refl refl "2.prems"(1-4)])
    show "list_ex (\<lambda>(p, q). set_admits p x \<and> set_admits q y) pairs \<or>
      set_admits (fst (if ?im \<noteq> [] \<and> ?om \<noteq> [] then (set_union ni ?im, set_union no ?om) else (ni, no))) x \<and>
      set_admits (snd (if ?im \<noteq> [] \<and> ?om \<noteq> [] then (set_union ni ?im, set_union no ?om) else (ni, no))) y"
    proof (cases "set_admits p x \<and> set_admits q y")
      case True
      then have "set_admits ?im x" "set_admits ?om y" using 2 intersect_slot_admits by blast+
      then show ?thesis using set_admits_not_Nil by (auto simp: set_union_def)
    next
      case False
      then show ?thesis using "2.prems"(5) by (auto simp: set_union_def)
    qed
  qed
qed simp

lemma apply_mapping_keeps:
  assumes "admits_solution a x" "i < length a" "j < length a" "caps_ne (x i)" "caps_ne (x j)"
    and "list_ex (\<lambda>(p, q). set_admits p (x i) \<and> set_admits q (x j)) pairs"
  shows "\<exists>b. apply_mapping_node g pairs i j a = Inr b \<and> admits_solution b x \<and> length b = length a"
proof -
  obtain ni no where m: "mapping_pairs pairs (a ! i) (a ! j) ([], []) = (ni, no)"
    by (cases "mapping_pairs pairs (a ! i) (a ! j) ([], [])")
  have sl: "slot_admits (a ! i) (x i)" "slot_admits (a ! j) (x j)" using assms(1-3) by (simp_all add: admits_solution_def)
  have ad: "set_admits ni (x i)" "set_admits no (x j)"
    using mapping_pairs_keeps [OF sl assms(4,5), of pairs "([], [])"] assms(6) m by simp_all
  then have "ni \<noteq> []" "no \<noteq> []" using set_admits_not_Nil by blast+
  moreover have "admits_solution (a[i := Some ni, j := Some no]) x" using ad assms(1) by (intro admits_update)
  ultimately show ?thesis using m by (simp add: apply_mapping_node_def)
qed

lemma forward_derived_union_set: "set (forward_derived_union f s) = (\<Union>a \<in> set s. set (f a))"
proof -
  have "set (foldl (\<lambda>acc a. set_union acc (f a)) acc s) = set acc \<union> (\<Union>a \<in> set s. set (f a))" for acc
    by (induction s arbitrary: acc) (auto simp: set_union_def)
  then show ?thesis by (simp add: forward_derived_union_def)
qed

lemma derive_admits_mono:
  assumes "set_admits (derive t x) y" "caps_le x a"
  shows "set_admits (derive t a) y"
proof -
  obtain out where "out \<in> set (derive t x)" "caps_le y out" using assms(1) by (auto simp: set_admits_iff)
  moreover from this obtain out' where "out' \<in> set (derive t a)" "caps_le out out'" using derive_mono assms(2) by blast
  ultimately show ?thesis using caps_le_trans by (auto simp: set_admits_iff)
qed

lemma forward_admits:
  assumes "set_admits (derive t x) y" "set_admits s x"
  shows "set_admits (forward_derived_union (derive t) s) y"
proof -
  obtain a where "a \<in> set s" "caps_le x a" using assms(2) by (auto simp: set_admits_iff)
  then show ?thesis using derive_admits_mono [OF assms(1)] by (fastforce simp: set_admits_iff forward_derived_union_set)
qed

text \<open>The field-narrowing loop keeps the alternatives it found and adds those it couples.\<close>

lemma couple_output_mono:
  "set (fst st) \<subseteq> set (fst (couple_output msk a st r))"
  by (auto simp: couple_output_def split: prod.splits option.splits)

lemma couple_outputs_mono:
  "set (fst st) \<subseteq> set (fst (foldl (couple_output msk a) st rs))"
proof (induction rs arbitrary: st)
  case (Cons r rs)
  show ?case
    using subset_trans [OF couple_output_mono Cons.IH [of "couple_output msk a st r"]] by simp
qed simp

lemma couple_outputs_mem:
  "r \<in> set rs \<Longrightarrow> couple_passthrough_derived a r msk = Some c \<Longrightarrow> c \<in> set (fst (foldl (couple_output msk a) st rs))"
proof (induction rs arbitrary: st)
  case (Cons q rs)
  show ?case
  proof (cases "q = r")
    case True
    then have "c \<in> set (fst (couple_output msk a st q))" using Cons.prems(2) by (auto simp: couple_output_def split: prod.splits)
    then show ?thesis using couple_outputs_mono [of "couple_output msk a st q" msk a rs] by auto
  next
    case False
    then show ?thesis using Cons by simp
  qed
qed simp

lemma narrow_alternative_mono: "set (fst st) \<subseteq> set (fst (narrow_alternative f msk outs st a))"
proof -
  obtain kept changed where st: "st = (kept, changed)" by (cases st)
  show ?thesis
    using couple_outputs_mono [of "(kept, changed, False)" msk a "set_intersect (f a) outs"]
    by (auto simp: st narrow_alternative_def Let_def split: prod.splits)
qed

lemma narrow_alternatives_mono: "set (fst st) \<subseteq> set (fst (foldl (narrow_alternative f msk outs) st as))"
proof (induction as arbitrary: st)
  case (Cons a as)
  show ?case using narrow_alternative_mono [of st f msk outs a] Cons.IH [of "narrow_alternative f msk outs st a"] by auto
qed simp

lemma narrow_alternatives_mem:
  "a \<in> set as \<Longrightarrow> r \<in> set (set_intersect (f a) outs) \<Longrightarrow> couple_passthrough_derived a r msk = Some c \<Longrightarrow>
     c \<in> set (fst (foldl (narrow_alternative f msk outs) st as))"
proof (induction as arbitrary: st)
  case (Cons q as)
  show ?case
  proof (cases "q = a")
    case True
    obtain kept changed where st: "st = (kept, changed)" by (cases st)
    have "c \<in> set (fst (narrow_alternative f msk outs st q))"
      using couple_outputs_mem [OF Cons.prems(2,3), of "(kept, changed, False)"] Cons.prems(2) True
      by (auto simp: st narrow_alternative_def Let_def split: prod.splits)
    then show ?thesis using narrow_alternatives_mono [of "narrow_alternative f msk outs st q" f msk outs as] by auto
  next
    case False
    then show ?thesis using Cons by simp
  qed
qed simp

lemma backward_field_keeps:
  assumes "set_admits (derive t x) y" "concrete x" "caps_ne y" "set_admits ins x" "set_admits outs y"
  shows "backward_field_narrow (derive t) (transform_passthrough t) ins outs = Inr None \<or>
    (\<exists>s. backward_field_narrow (derive t) (transform_passthrough t) ins outs = Inr (Some s) \<and> set_admits s x)"
proof -
  let ?m = "transform_passthrough t"
  obtain a where a: "a \<in> set ins" "caps_le x a" using assms(4) by (auto simp: set_admits_iff)
  have "set_admits (set_intersect (derive t a) outs) y"
    using derive_admits_mono [OF assms(1) a(2)] assms(3,5) by (simp add: set_admits_intersect)
  then obtain r where r: "r \<in> set (set_intersect (derive t a) outs)" "caps_le y r" by (auto simp: set_admits_iff)
  obtain out where out: "out \<in> set (derive t x)" "caps_le y out" using assms(1) by (auto simp: set_admits_iff)
  have "le_masked ?m x r" using derive_le_masked [OF out(1) assms(2,3) out(2) r(2)] by blast
  then obtain c where c: "couple_passthrough_derived a r ?m = Some c" "caps_le x c"
    using couple_greatest [OF concrete_ne [OF assms(2)] a(2)] by blast
  have "c \<in> set (fst (foldl (narrow_alternative (derive t) ?m outs) ([], False) ins))"
    by (rule narrow_alternatives_mem [of a ins r "derive t" outs]) (use a r c in simp_all)
  then have "fst (foldl (narrow_alternative (derive t) ?m outs) ([], False) ins) \<noteq> []"
    "set_admits (fst (foldl (narrow_alternative (derive t) ?m outs) ([], False) ins)) x"
    using c(2) by (auto simp: set_admits_iff)
  then show ?thesis by (auto simp: backward_field_narrow_def split: prod.splits)
qed

lemma apply_fields_keeps:
  assumes "admits_solution a x" "i < length a" "j < length a" "concrete (x i)" "caps_ne (x j)"
    "set_admits (derive t (x i)) (x j)"
  shows "\<exists>b. apply_transform_node g (DerivedFields t) i j v a = Inr b \<and> admits_solution b x \<and> length b = length a"
proof -
  let ?bw = "backward_field_narrow (derive t) (transform_passthrough t)"
  let ?bwd = "\<lambda>c. case (c ! i, c ! j) of
            (Some in_set, Some out_set) \<Rightarrow>
              (case ?bw in_set out_set of
                 Inr (Some narrowed) \<Rightarrow> Inr (c[i := Some narrowed])
               | Inr None \<Rightarrow> Inr c
               | Inl _ \<Rightarrow> Inl (empty_link (fst (edge_endpoints g i)) (snd (edge_endpoints g i))))
          | _ \<Rightarrow> Inr c"
  have bwd: "\<exists>b. ?bwd c = Inr b \<and> admits_solution b x \<and> length b = length a"
    if c: "admits_solution c x" "length c = length a" for c
  proof (cases "c ! i"; cases "c ! j")
    fix s u
    assume su: "c ! i = Some s" "c ! j = Some u"
    have "set_admits s (x i)" "set_admits u (x j)"
      using admits_nth [OF c(1) _ su(1)] admits_nth [OF c(1) _ su(2)] assms(2,3) c(2) by simp_all
    from backward_field_keeps [OF assms(6,4,5) this]
    show ?thesis using su c admits_update [OF c(1)] by (auto split: sum.splits option.splits)
  qed (use c in auto)
  show ?thesis
  proof (cases "a ! i")
    case None
    then show ?thesis using bwd [OF assms(1) refl] by (simp add: apply_derived_node_def)
  next
    case (Some s)
    have "set_admits s (x i)" using admits_nth [OF assms(1,2) Some] .
    then have f: "set_admits (forward_derived_union (derive t) s) (x j)" using forward_admits assms(6) by blast
    then have ne: "forward_derived_union (derive t) s \<noteq> []" by (rule set_admits_not_Nil)
    obtain c where c: "narrow_edge g j (forward_derived_union (derive t) s) v a = Inr c" "admits_solution c x" "length c = length a"
      using narrow_edge_keeps [OF assms(1,3) f assms(5)] by blast
    show ?thesis using bwd [OF c(2,3)] Some ne c(1) by (simp add: apply_derived_node_def Let_def)
  qed
qed

lemma apply_transform_keeps:
  assumes "admits_solution a x" "i < length a" "j < length a" "concrete (x i)" "concrete (x j)"
    "transform_solution c (x i) (x j)"
  shows "\<exists>b. apply_transform_node g c i j v a = Inr b \<and> admits_solution b x \<and> length b = length a"
proof (cases c)
  case (Identity s)
  note ne = concrete_ne [OF assms(4)]
  have s: "x i = x j" "set_admits s (x i)" using assms(6) Identity by auto
  obtain b1 where b1: "narrow_edge g i s v a = Inr b1" "admits_solution b1 x" "length b1 = length a"
    using narrow_edge_keeps [OF assms(1,2) s(2) ne] by blast
  obtain b2 where b2: "narrow_edge g j s v b1 = Inr b2" "admits_solution b2 x" "length b2 = length a"
    using narrow_edge_keeps [OF b1(2), of j s g v] s ne assms(3) b1(3) by auto
  show ?thesis
    using couple_edges_keeps [OF b2(2), of i j g] b1(1) b2(1,3) s(1) ne assms(2,3) Identity by simp
next
  case IdentityAny
  then show ?thesis
    using couple_edges_keeps [OF assms(1-3)] assms(6) concrete_ne [OF assms(4)] by simp
next
  case (Mapping pairs)
  then show ?thesis
    using apply_mapping_keeps [OF assms(1-3) concrete_ne [OF assms(4)] concrete_ne [OF assms(5)]] assms(6) by simp
next
  case (DerivedFields t)
  then show ?thesis using apply_fields_keeps [OF assms(1-4) concrete_ne [OF assms(5)]] assms(6) by simp
qed (use assms(6) in simp_all)

lemma tee_meet_keeps:
  assumes "caps_ne c"
  shows "slot_admits acc c \<Longrightarrow> \<forall>oe \<in> set os. slot_admits (a ! oe) c \<Longrightarrow> slot_admits (foldl (tee_meet a) acc os) c"
proof (induction os arbitrary: acc)
  case (Cons oe os)
  have "slot_admits (tee_meet a acc oe) c"
    using Cons.prems assms by (cases "a ! oe"; cases acc) (auto simp: tee_meet_def slot_admits_def set_admits_intersect)
  then show ?case using Cons by simp
qed simp

lemma foldl_update_keeps:
  "admits_solution a x \<Longrightarrow> \<forall>e \<in> set os. set_admits s (x e) \<Longrightarrow>
     admits_solution (foldl (\<lambda>es e. es[e := Some s]) a os) x \<and> length (foldl (\<lambda>es e. es[e := Some s]) a os) = length a"
proof (induction os arbitrary: a)
  case (Cons e os)
  then show ?case using admits_update [OF Cons.prems(1), of s e] Cons.IH [of "a[e := Some s]"] by simp
qed simp

lemma apply_tee_keeps:
  assumes "admits_solution a x" "i < length a" "\<forall>e \<in> set os. e < length a \<and> x e = x i" "caps_ne (x i)"
  shows "\<exists>b. apply_tee_node g i os a = Inr b \<and> admits_solution b x \<and> length b = length a"
proof -
  have sl: "slot_admits (a ! e) (x i)" if "e \<in> insert i (set os)" for e
    using assms(1-3) that unfolding admits_solution_def by (metis insert_iff)
  have m: "slot_admits (foldl (tee_meet a) (a ! i) os) (x i)"
    by (rule tee_meet_keeps [OF assms(4)]) (use sl in auto)
  show ?thesis
  proof (cases "foldl (tee_meet a) (a ! i) os")
    case None
    then show ?thesis using assms(1) by (simp add: apply_tee_node_def)
  next
    case (Some s)
    then have s: "set_admits s (x i)" using m by (simp add: slot_admits_def)
    have "admits_solution (foldl (\<lambda>es e. es[e := Some s]) a (i # os)) x \<and>
        length (foldl (\<lambda>es e. es[e := Some s]) a (i # os)) = length a"
      by (rule foldl_update_keeps [OF assms(1)]) (use s assms(3) in auto)
    then show ?thesis using Some set_admits_not_Nil [OF s] by (simp add: apply_tee_node_def)
  qed
qed

text \<open>The handlers that run over several edges share the invariant of the fold.\<close>

definition keeps :: "(nat \<Rightarrow> caps) \<Rightarrow> nat \<Rightarrow> edge_slots \<Rightarrow> bool" where
  "keeps x n a \<longleftrightarrow> admits_solution a x \<and> length a = n"

lemma fold_keeps:
  assumes "keeps x n a" "\<And>e a. e \<in> set es \<Longrightarrow> keeps x n a \<Longrightarrow> \<exists>b. f e a = Inr b \<and> keeps x n b"
  shows "\<exists>b. fold_res f es a = Inr b \<and> keeps x n b"
  by (rule fold_res_total [of "keeps x n"]) (use assms in blast)+

lemma narrow_keeps:
  "keeps x n a \<Longrightarrow> e < n \<Longrightarrow> set_admits s (x e) \<Longrightarrow> concrete (x e) \<Longrightarrow> \<exists>b. narrow_edge g e s v a = Inr b \<and> keeps x n b"
  using narrow_edge_keeps [of a x e s g v] concrete_ne by (auto simp: keeps_def)

lemma transform_keeps:
  "keeps x n a \<Longrightarrow> i < n \<Longrightarrow> j < n \<Longrightarrow> concrete (x i) \<Longrightarrow> concrete (x j) \<Longrightarrow> transform_solution c (x i) (x j) \<Longrightarrow>
     \<exists>b. apply_transform_node g c i j v a = Inr b \<and> keeps x n b"
  using apply_transform_keeps [of a x i j c g v] by (auto simp: keeps_def)

lemma pad_solution_SomeE:
  assumes "pad_solution p x"
  obtains s where "p = Some (Accepts s)" "set_admits s x" | "p = Some AcceptsAny"
  using assms by (cases "(p, x)" rule: pad_solution.cases) auto

lemma input_pad_keeps:
  assumes "keeps x n a" "e < n" "concrete (x e)" "pad_solution (get inputs (dst_pad g e)) (x e)"
  shows "\<exists>b. narrow_input_pad g v inputs e a = Inr b \<and> keeps x n b"
proof -
  consider s where "get inputs (dst_pad g e) = Some (Accepts s)" "set_admits s (x e)"
    | "get inputs (dst_pad g e) = Some AcceptsAny"
    using assms(4) by (elim pad_solution_SomeE)
  then show ?thesis
  proof cases
    case 1
    show ?thesis unfolding narrow_input_pad_def 1(1) using narrow_keeps [OF assms(1,2) 1(2) assms(3)] by simp
  next
    case 2
    show ?thesis unfolding narrow_input_pad_def 2 using assms(1) by simp
  qed
qed

lemma muxer_inputs_keep:
  assumes "keeps x n a" "\<forall>e \<in> set (in_edges_of g v). e < n \<and> concrete (x e) \<and> pad_solution (get inputs (dst_pad g e)) (x e)"
  shows "\<exists>b. narrow_muxer_inputs g v inputs a = Inr b \<and> keeps x n b"
  unfolding narrow_muxer_inputs_def by (rule fold_keeps [OF assms(1)]) (use assms(2) input_pad_keeps in blast)

lemma port_keeps:
  assumes "keeps x n a" "i < n" "e < n" "concrete (x i)" "concrete (x e)" "port_solution (get ports (src_pad g e)) (x i) (x e)"
  shows "\<exists>b. apply_port g v i ports e a = Inr b \<and> keeps x n b"
proof (cases "get ports (src_pad g e)")
  case None
  show ?thesis unfolding apply_port_def None using assms(1) by simp
next
  case (Some c)
  have p: "port_solution (Some c) (x i) (x e)" using assms(6) unfolding Some .
  show ?thesis
  proof (cases "\<exists>s. c = Produces s")
    case True
    then obtain s where c: "c = Produces s" by blast
    show ?thesis unfolding apply_port_def Some c using narrow_keeps [OF assms(1,3) _ assms(5)] p c by simp
  next
    case False
    then have "transform_solution c (x i) (x e)" using p by (cases c) auto
    from transform_keeps [OF assms(1-5) this] show ?thesis
      unfolding apply_port_def Some using False by (cases c) auto
  qed
qed

lemma demux_keeps:
  assumes "keeps x n a" "i < n" "concrete (x i)"
    and "\<forall>e \<in> set os. e < n \<and> concrete (x e) \<and> port_solution (get ports (src_pad g e)) (x i) (x e)"
    and "case input of Accepts s \<Rightarrow> set_admits s (x i) | _ \<Rightarrow> True"
  shows "\<exists>b. apply_demux_node g v i os input ports a = Inr b \<and> keeps x n b"
proof -
  obtain b where b: "accept_input g v i input a = Inr b" "keeps x n b"
    using assms(1,5) narrow_keeps [OF assms(1,2) _ assms(3), of _ g v] by (cases input) (auto simp: accept_input_def)
  have "\<exists>c. fold_res (apply_port g v i ports) os b = Inr c \<and> keeps x n c"
    by (rule fold_keeps [OF b(2)]) (use assms(2-4) port_keeps in blast)
  then show ?thesis using b(1) by (simp add: apply_demux_node_def)
qed

lemma muxer_keeps:
  assumes "keeps x n a" and ins: "\<forall>e \<in> set (in_edges_of g v). e < n \<and> concrete (x e) \<and> pad_solution (get inputs (dst_pad g e)) (x e)"
    and out: "out_edges_of g v ! 0 < n" "concrete (x (out_edges_of g v ! 0))"
    and rel: "case follows of
             Some pad \<Rightarrow>
               (case List.find (\<lambda>e. dst_pad g e = pad) (in_edges_of g v) of
                  Some e \<Rightarrow> x e = x (out_edges_of g v ! 0)
                | None \<Rightarrow> False)
           | None \<Rightarrow> (case outp of Produces s \<Rightarrow> set_admits s (x (out_edges_of g v ! 0)) | _ \<Rightarrow> False)"
  shows "\<exists>b. apply_muxer_node g v inputs outp follows a = Inr b \<and> keeps x n b"
proof -
  obtain c where c: "narrow_muxer_inputs g v inputs a = Inr c" "keeps x n c" using muxer_inputs_keep [OF assms(1) ins] by blast
  show ?thesis
  proof (cases follows)
    case None
    then obtain s where s: "outp = Produces s" "set_admits s (x (out_edges_of g v ! 0))"
      using rel by (auto split: caps_constraint.splits)
    show ?thesis using narrow_keeps [OF c(2) out(1) s(2) out(2)] c(1) s(1) None by (simp add: apply_muxer_node_def Let_def)
  next
    case (Some pad)
    then obtain e where e: "List.find (\<lambda>e. dst_pad g e = pad) (in_edges_of g v) = Some e" "x e = x (out_edges_of g v ! 0)"
      using rel by (auto split: option.splits)
    have "e \<in> set (in_edges_of g v)" using e(1) by (auto simp: find_Some_iff)
    then have "e < n" "caps_ne (x e)" using ins concrete_ne by auto
    then show ?thesis
      using couple_edges_keeps [of c x e "out_edges_of g v ! 0" g] c e out(1) Some
      by (auto simp: apply_muxer_node_def Let_def keeps_def)
  qed
qed

lemma apply_node_keeps:
  assumes ok: "graph_ok g" and v: "v < node_count g" and sol: "graph_solution g cs x" and k: "keeps x (edge_count g) a"
  shows "\<exists>b. apply_node g cs v a = Inr b \<and> keeps x (edge_count g) b"
proof -
  let ?n = "edge_count g"
  note single = graph_ok_singletons [OF ok v]
  have inc: "e < ?n \<and> concrete (x e)" if "e \<in> set (in_edges_of g v) \<union> set (out_edges_of g v)" for e
    using incident_less [OF ok v that] sol by (simp add: graph_solution_def)
  have ns: "node_solution g cs x v" using sol v by (simp add: graph_solution_def)
  show ?thesis
  proof (cases "vg_kind g v")
    case Source
    then obtain e where "out_edges_of g v = [e]" using single(1) by blast
    then show ?thesis using ns Source narrow_keeps [OF k, of e _ g v] inc [of e]
      by (auto simp: node_solution_def apply_node_def Let_def split: node_constraint.splits caps_constraint.splits)
  next
    case Sink
    then obtain e where "in_edges_of g v = [e]" using single(2) by blast
    then show ?thesis using ns Sink narrow_keeps [OF k, of e _ g v] inc [of e] k
      by (auto simp: node_solution_def apply_node_def Let_def split: node_constraint.splits caps_constraint.splits)
  next
    case Transform
    then obtain i j where "in_edges_of g v = [i]" "out_edges_of g v = [j]" using single(3) by blast
    then show ?thesis using ns Transform transform_keeps [OF k, of i j _ g v] inc [of i] inc [of j]
      by (auto simp: node_solution_def apply_node_def Let_def split: node_constraint.splits)
  next
    case (Tee m)
    then obtain i where i: "in_edges_of g v = [i]" using single(4) by blast
    have tee: "\<exists>b. apply_tee_node g i (out_edges_of g v) a = Inr b \<and> keeps x ?n b"
      if "list_all (\<lambda>e. x e = x i) (out_edges_of g v)"
      using apply_tee_keeps [of a x i "out_edges_of g v" g] that k inc i concrete_ne by (auto simp: keeps_def list_all_iff)
    show ?thesis
    proof (cases "cs ! v")
      case (DemuxC input ports)
      have "case input of Accepts s \<Rightarrow> set_admits s (x i) | _ \<Rightarrow> True"
        using ns Tee DemuxC i by (simp add: node_solution_def Let_def split: caps_constraint.splits)
      moreover have "\<forall>e \<in> set (out_edges_of g v). e < ?n \<and> concrete (x e) \<and> port_solution (get ports (src_pad g e)) (x i) (x e)"
        using ns Tee DemuxC i inc by (auto simp: node_solution_def Let_def list_all_iff)
      moreover have "i < ?n" "concrete (x i)" using inc i by auto
      ultimately have "\<exists>b. apply_demux_node g v i (out_edges_of g v) input ports a = Inr b \<and> keeps x ?n b"
        using demux_keeps [OF k] by blast
      then show ?thesis using Tee DemuxC i by (simp add: apply_node_def Let_def)
    qed (use ns Tee i tee in \<open>auto simp: node_solution_def apply_node_def Let_def\<close>)
  next
    case (Muxer m)
    then obtain j where j: "out_edges_of g v = [j]" using single(5) by blast
    obtain inputs outp follows where c: "cs ! v = MuxerC inputs outp follows"
      using ns Muxer by (auto simp: node_solution_def Let_def split: node_constraint.splits)
    have ins: "\<forall>e \<in> set (in_edges_of g v). e < ?n \<and> concrete (x e) \<and> pad_solution (get inputs (dst_pad g e)) (x e)"
      using ns Muxer c inc by (auto simp: node_solution_def Let_def list_all_iff)
    have out: "out_edges_of g v ! 0 < ?n" "concrete (x (out_edges_of g v ! 0))" using inc [of j] j by auto
    show ?thesis
      using muxer_keeps [OF k ins out, where follows = follows and outp = outp] ns Muxer c by (simp add: node_solution_def apply_node_def Let_def)
  next
    case (FaninSink m)
    obtain inputs outp follows where c: "cs ! v = MuxerC inputs outp follows"
      using ns FaninSink by (auto simp: node_solution_def Let_def split: node_constraint.splits)
    have ins: "\<forall>e \<in> set (in_edges_of g v). e < ?n \<and> concrete (x e) \<and> pad_solution (get inputs (dst_pad g e)) (x e)"
      using ns FaninSink c inc by (auto simp: node_solution_def Let_def list_all_iff)
    show ?thesis using muxer_inputs_keep [OF k ins] FaninSink c by (simp add: apply_node_def Let_def)
  next
    case (FanoutSrc m)
    obtain input ports where c: "cs ! v = DemuxC input ports"
      using ns FanoutSrc by (auto simp: node_solution_def Let_def split: node_constraint.splits)
    have "\<exists>b. fold_res (apply_fanout_port g v ports) (out_edges_of g v) a = Inr b \<and> keeps x ?n b"
    proof (rule fold_keeps [OF k])
      fix e a
      assume e: "e \<in> set (out_edges_of g v)" and a: "keeps x ?n a"
      have "case get ports (src_pad g e) of Some (Produces s) \<Rightarrow> set_admits s (x e) | _ \<Rightarrow> False"
        using ns FanoutSrc c e by (simp add: node_solution_def Let_def list_all_iff)
      then obtain s where s: "get ports (src_pad g e) = Some (Produces s)" "set_admits s (x e)"
        by (cases "get ports (src_pad g e)"; cases "the (get ports (src_pad g e))")
          (simp_all del: get_eq_Some get_eq_None)
      show "\<exists>b. apply_fanout_port g v ports e a = Inr b \<and> keeps x ?n b"
        unfolding apply_fanout_port_def s(1) using narrow_keeps [OF a _ s(2)] inc [of e] e by simp
    qed
    then show ?thesis using FanoutSrc c by (simp add: apply_node_def Let_def)
  qed
qed

section \<open>Any order of node applications\<close>

text \<open>
  The states of the narrowing, whatever the order in which nodes are applied: the solver's sweeps
  in topological order and back are one such order.
\<close>

inductive narrows :: "('e, 'c) validated_graph \<Rightarrow> node_constraint list \<Rightarrow> edge_slots \<Rightarrow> bool"
  for g :: "('e, 'c) validated_graph" and cs :: "node_constraint list" where
  start: "narrows g cs (replicate (edge_count g) None)"
| step: "narrows g cs a \<Longrightarrow> v < node_count g \<Longrightarrow> apply_node g cs v a = Inr b \<Longrightarrow> narrows g cs b"

lemma keeps_start: "keeps x n (replicate n None)"
  by (simp add: keeps_def admits_solution_def slot_admits_def)

lemma narrows_keeps:
  assumes "narrows g cs a" "graph_ok g" "graph_solution g cs x"
  shows "keeps x (edge_count g) a"
  using assms(1)
proof (induction rule: narrows.induct)
  case start
  show ?case by (rule keeps_start)
next
  case (step a v b)
  then show ?case using apply_node_keeps [OF assms(2) step.hyps(2) assms(3) step.IH] by auto
qed

lemma sweep_narrows:
  assumes "narrows g cs a" "graph_ok g" "graph_solution g cs x" "\<forall>v \<in> set order. v < node_count g"
  shows "\<exists>b. graph_sweep g cs order a = Inr b \<and> narrows g cs b"
  using assms(1,4)
proof (induction order arbitrary: a)
  case Nil
  then show ?case by (simp add: graph_sweep_def)
next
  case (Cons v order)
  then have v: "v < node_count g" by simp
  obtain b where b: "apply_node g cs v a = Inr b"
    using apply_node_keeps [OF assms(2) v assms(3) narrows_keeps [OF Cons.prems(1) assms(2,3)]] by blast
  then have "narrows g cs b" by (rule narrows.step [OF Cons.prems(1) v])
  then show ?case using Cons.IH [of b] Cons.prems(2) b by (simp add: graph_sweep_def)
qed

lemma fixpoint_narrows:
  assumes "graph_ok g" "graph_solution g cs x" "narrows g cs a"
  shows "\<exists>b. graph_fixpoint fuel g cs a = Inr b \<and> narrows g cs b"
  using assms(3)
proof (induction fuel arbitrary: a)
  case 0
  then show ?case by simp
next
  case (Suc fuel)
  have topo: "\<forall>v \<in> set (vg_topo g). v < node_count g" using assms(1) by (auto simp: graph_ok_def)
  obtain b where b: "graph_sweep g cs (vg_topo g) a = Inr b" "narrows g cs b"
    using sweep_narrows [OF Suc.prems assms(1,2) topo] by blast
  obtain c where c: "graph_sweep g cs (rev (vg_topo g)) b = Inr c" "narrows g cs c"
    using sweep_narrows [OF b(2) assms(1,2), of "rev (vg_topo g)"] topo by auto
  show ?case using b c Suc.IH [of c] by auto
qed

end
