(* ===== verification/LinearSound.thy ===== *)
theory LinearSound
  imports Sweep ChainGraph
begin

text \<open>
  Soundness of the linear solver (\<^verbatim>\<open>solve_linear_preferred\<close>): one fixed caps per link, inside what
  the elements at its two ends declare. The element relations hold too where the chain search
  decides; without preferences the solver takes the first candidate of every link.
\<close>

section \<open>Handlers of the linear solver\<close>

definition link_declares :: "nat \<times> caps_constraint \<Rightarrow> nat \<Rightarrow> caps_set option" where
  "link_declares ic e =
     (case ic of (i, c) \<Rightarrow>
        (case c of
           Produces s \<Rightarrow> if e = i then Some s else None
         | Accepts s \<Rightarrow> if Suc e = i then Some s else None
         | Identity s \<Rightarrow> if e = i \<or> Suc e = i then Some s else None
         | _ \<Rightarrow> None))"

definition link_touches :: "nat \<times> caps_constraint \<Rightarrow> nat set" where
  "link_touches ic = {e. e = fst ic \<or> Suc e = fst ic}"

text \<open>A link lies within what its producer and its consumer declare.\<close>

definition link_declared :: "caps_constraint list \<Rightarrow> nat \<Rightarrow> caps \<Rightarrow> bool" where
  "link_declared cs e c \<longleftrightarrow>
     (case link_declares (e, cs ! e) e of Some s \<Rightarrow> set_admits s c | None \<Rightarrow> True) \<and>
     (case link_declares (Suc e, cs ! Suc e) e of Some s \<Rightarrow> set_admits s c | None \<Rightarrow> True)"

lemma narrow_step:
  assumes "narrow a idx s u d = Inr b" "idx \<in> E"
  shows "step_rel E F a b"
  using assms intersect_slot_refines by (auto simp: narrow_def Let_def split: if_splits intro!: step_rel_update)

lemma narrow_within:
  assumes "narrow a idx s u d = Inr b" "idx < length a"
  shows "within (b ! idx) s"
  using assms intersect_slot_within by (auto simp: narrow_def Let_def split: if_splits)

lemma couple_links_step:
  assumes "couple_links i ii oi a = Inr b \<or> couple_links_any i ii oi a = Inr b" "ii \<in> E" "oi \<in> E"
  shows "step_rel E F a b"
  using assms
  by (auto simp: couple_links_def couple_links_any_def Let_def slot_refines_def set_intersect_admitted
      split: option.splits if_splits intro!: step_rel_update step_rel_update2 step_rel_refl)

lemma apply_mapping_links_step:
  assumes "apply_mapping pairs i ii oi a = Inr b" "ii \<in> E" "oi \<in> E" "ii \<noteq> oi"
  shows "step_rel E F a b"
proof -
  obtain ni no where m: "mapping_pairs pairs (a ! ii) (a ! oi) ([], []) = (ni, no)"
    by (cases "mapping_pairs pairs (a ! ii) (a ! oi) ([], [])")
  show ?thesis
    using assms m mapping_pairs_admitted [OF m]
    by (auto simp: apply_mapping_def split: if_splits intro!: step_rel_update2)
qed

lemma apply_derived_links_step:
  assumes "apply_derived f backward i ii oi a = Inr b" "ii \<in> E" "oi \<in> E" "ii \<notin> F"
  shows "step_rel E F a b"
proof -
  obtain c where 1: "(case a ! ii of
          Some input_set \<Rightarrow>
            (let derived = forward_derived_union f input_set in
             if derived = [] then Inl (empty_link i (i + 1)) else narrow a oi derived i (i + 1))
        | None \<Rightarrow> Inr a) = Inr c"
    and 2: "(case (c ! ii, c ! oi) of
            (Some in_set, Some out_set) \<Rightarrow>
              (case backward in_set out_set of
                 Inr (Some narrowed) \<Rightarrow> Inr (c[ii := Some narrowed])
               | Inr None \<Rightarrow> Inr c
               | Inl _ \<Rightarrow> Inl (empty_link (i - 1) i))
          | _ \<Rightarrow> Inr c) = Inr b"
    using assms(1) unfolding apply_derived_def bind_res_eq_Inr by blast
  have "step_rel E F a c"
    using 1 assms(3) by (auto simp: Let_def step_rel_refl intro: narrow_step split: option.splits if_splits)
  moreover have "step_rel E F c b"
    using 2 assms(2,4) by (auto simp: step_rel_refl intro!: step_rel_update split: option.splits sum.splits)
  ultimately show ?thesis by (rule step_rel_trans)
qed

lemma apply_identity_links:
  assumes "apply_constraint i (Identity s) n a = Inr b" "i \<le> n" "length a = n"
  shows "step_rel {e. e = i \<or> Suc e = i} UNIV a b"
    and "e < n \<Longrightarrow> e = i \<or> Suc e = i \<Longrightarrow> within (b ! e) s"
proof -
  let ?E = "{e. e = i \<or> Suc e = i}"
  obtain c d where c: "(if i = 0 then Inr a else narrow a (i - 1) s (i - 1) i) = Inr c"
    and d: "(if i = n then Inr c else narrow c i s i (i + 1)) = Inr d"
    and b: "(if i = 0 \<or> i = n then Inr d else couple_links i (i - 1) i d) = Inr b"
    using assms(1) by (auto simp: apply_constraint_def split: if_splits)
  have 1: "step_rel ?E UNIV a c" using c by (auto simp: step_rel_refl split: if_splits intro: narrow_step)
  have 2: "step_rel ?E UNIV c d" using d by (auto simp: step_rel_refl split: if_splits intro: narrow_step)
  have 3: "step_rel ?E UNIV d b" using b by (auto simp: step_rel_refl split: if_splits intro: couple_links_step)
  show "step_rel ?E UNIV a b" using 1 2 3 step_rel_trans by blast
  assume e: "e < n" "e = i \<or> Suc e = i"
  then consider "e = i" | "Suc e = i" by blast
  then have "within (d ! e) s"
  proof cases
    case 1
    then show ?thesis using d e narrow_within [of c i s] step_rel_length [OF \<open>step_rel ?E UNIV a c\<close>] assms(3) by simp
  next
    case 2
    then have "within (c ! e) s" using c e narrow_within [of a e s] assms(3) by auto
    then show ?thesis using step_rel_within [OF \<open>step_rel ?E UNIV c d\<close>] by blast
  qed
  then show "within (b ! e) s" using step_rel_within [OF 3] by blast
qed

lemma apply_constraint_step:
  assumes "apply_constraint i c n a = Inr b" "i \<le> n" "length a = n"
  shows "step_rel {e. e = i \<or> Suc e = i} {i} a b"
proof (cases c)
  case (Identity s)
  then show ?thesis using apply_identity_links(1) assms step_rel_mono by blast
qed (use assms in \<open>auto simp: apply_constraint_def step_rel_refl split: option.splits if_splits
    intro: narrow_step couple_links_step apply_mapping_links_step apply_derived_links_step\<close>)

lemma apply_constraint_within:
  assumes "apply_constraint i c n a = Inr b" "i \<le> n" "length a = n" "e < n" "link_declares (i, c) e = Some s"
  shows "within (b ! e) s"
proof (cases c)
  case (Identity t)
  then show ?thesis using apply_identity_links(2) assms by (auto simp: link_declares_def split: if_splits)
qed (use assms in \<open>auto simp: apply_constraint_def link_declares_def split: if_splits intro: narrow_within\<close>)

interpretation links: local_sweep "\<lambda>(i, c). apply_constraint i c n" "{ic. fst ic \<le> n}" link_touches "\<lambda>ic. {fst ic}"
  link_declares n for n
  by unfold_locales (auto simp: link_touches_def intro: apply_constraint_step apply_constraint_within)

section \<open>The reverse sweep\<close>

lemma enumerate_split:
  assumes "Suc e < length cs"
  obtains xs zs where "enumerate 0 cs = xs @ (e, cs ! e) # (Suc e, cs ! Suc e) # zs"
    "\<forall>ic \<in> set xs. fst ic < e" "\<forall>ic \<in> set zs. Suc e < fst ic"
proof -
  let ?en = "enumerate 0 cs"
  have n: "?en ! i = (i, cs ! i)" if "i < length cs" for i using that by (simp add: nth_enumerate_eq)
  have "?en = take e ?en @ ?en ! e # ?en ! Suc e # drop (Suc (Suc e)) ?en"
    using assms by (metis Cons_nth_drop_Suc Suc_lessD append_take_drop_id length_enumerate)
  moreover have "\<forall>ic \<in> set (take e ?en). fst ic < e"
    using assms n by (auto simp: in_set_conv_nth)
  moreover have "\<forall>ic \<in> set (drop (Suc (Suc e)) ?en). Suc e < fst ic"
    using n by (auto simp: in_set_conv_nth)
  ultimately show thesis using that n assms by simp
qed

lemma linear_reverse_declared:
  assumes r: "linear_sweep (rev (enumerate 0 cs)) n a = Inr b" and len: "length cs = Suc n" "length a = n" and e: "e < n"
    and d: "link_declares (e, cs ! e) e = Some s \<or> link_declares (Suc e, cs ! Suc e) e = Some s"
  shows "within (b ! e) s"
proof -
  obtain xs zs where en: "enumerate 0 cs = xs @ (e, cs ! e) # (Suc e, cs ! Suc e) # zs"
    and side: "\<forall>ic \<in> set xs. fst ic < e" "\<forall>ic \<in> set zs. Suc e < fst ic"
    using enumerate_split [of e cs] len e by auto
  have rv: "rev (enumerate 0 cs) = rev zs @ (Suc e, cs ! Suc e) # [] @ (e, cs ! e) # rev xs" by (simp add: en)
  have nodes: "set (rev zs @ (Suc e, cs ! Suc e) # [] @ (e, cs ! e) # rev xs) \<subseteq> {ic. fst ic \<le> n}"
    unfolding rv [symmetric] using len by (auto simp: in_set_enumerate_eq)
  show ?thesis
    by (rule links.sweep_within [OF r [unfolded linear_sweep_def rv] nodes len(2) e _ _ d])
      (use side in \<open>auto simp: link_touches_def\<close>)
qed

lemma linear_sweep_length:
  assumes "linear_sweep ics n a = Inr b" "set ics \<subseteq> set (enumerate 0 cs)" "length cs = Suc n" "length a = n"
  shows "length b = n"
proof (rule links.sweep_length [OF assms(1) [unfolded linear_sweep_def] _ assms(4)])
  show "set ics \<subseteq> {ic. fst ic \<le> n}" using assms(2,3) by (auto simp: in_set_enumerate_eq)
qed

lemma linear_fixpoint_result:
  "linear_fixpoint k cs n a = Inr b \<Longrightarrow> 0 < k \<Longrightarrow> length cs = Suc n \<Longrightarrow> length a = n \<Longrightarrow>
     \<exists>c. linear_sweep (rev (enumerate 0 cs)) n c = Inr b \<and> length c = n \<and> length b = n"
proof (induction k arbitrary: a)
  case (Suc k)
  obtain f w where f: "linear_sweep (enumerate 0 cs) n a = Inr f"
    and w: "linear_sweep (rev (enumerate 0 cs)) n f = Inr w"
    and r: "(if w = a then Inr w else linear_fixpoint k cs n w) = Inr b"
    using Suc.prems(1) by (auto split: sum.splits)
  have len: "length f = n" "length w = n"
    using linear_sweep_length [OF f] linear_sweep_length [OF w] Suc.prems(3,4) by auto
  show ?case
  proof (cases "w = a \<or> k = 0")
    case True
    then show ?thesis using r w len by (auto split: if_splits)
  next
    case False
    then show ?thesis using Suc.IH r len Suc.prems(3) by simp
  qed
qed simp

lemma linear_domains_result:
  "linear_domains cs li slots t = Inr ds \<Longrightarrow>
     list_all2 (\<lambda>slot d. \<exists>s. slot = Some s \<and> d \<noteq> [] \<and> (\<forall>c \<in> set d. caps_is_fixed c \<and> set_admits s c)) slots ds"
proof (induction cs li slots t arbitrary: ds rule: linear_domains.induct)
  case (2 cs li slot slots t)
  obtain s t' ds' where s: "slot = Some s" "fixated_candidates s t \<noteq> []"
    and r: "linear_domains cs (Suc li) slots t' = Inr ds'" "ds = fixated_candidates s t # ds'"
    and ih: "list_all2 (\<lambda>slot d. \<exists>s. slot = Some s \<and> d \<noteq> [] \<and> (\<forall>c \<in> set d. caps_is_fixed c \<and> set_admits s c)) slots ds'"
    using 2 by (auto simp: Let_def split: option.splits if_splits)
  then show ?case using candidates_of_le by (fastforce simp: fixated_candidates_set set_admits_iff)
qed simp

section \<open>Soundness\<close>

lemma solve_linear_rest_result:
  assumes r: "solve_linear_rest cs prefs src n seeded = Inr sol" and len: "length cs = Suc n" "length seeded = n"
  obtains ds where "length ds = n"
    "\<And>e. e < n \<Longrightarrow> ds ! e \<noteq> [] \<and> (\<forall>c \<in> set (ds ! e). caps_is_fixed c \<and> link_declared cs e c)"
    "(\<exists>pick. min_cost_chain (map (\<lambda>(i, c). chain_node_new c (preference_at prefs i)) (enumerate 0 cs)) ds = Some pick \<and>
        sol = map2 (\<lambda>j d. d ! j) pick ds) \<or>
     min_cost_chain (map (\<lambda>(i, c). chain_node_new c (preference_at prefs i)) (enumerate 0 cs)) ds = None \<and> sol = map hd ds"
proof -
  let ?chain = "map (\<lambda>(i, c). chain_node_new c (preference_at prefs i)) (enumerate 0 cs)"
  obtain slots ds where fp: "linear_fixpoint (8 * n + 4) cs n seeded = Inr slots"
    and ds: "linear_domains cs 0 slots (producer_target src) = Inr ds"
    and pick: "(case min_cost_chain ?chain ds of
        Some pick \<Rightarrow> Inr (map2 (\<lambda>j d. d ! j) pick ds) | None \<Rightarrow> Inr (map hd ds)) = (Inr sol :: negotiation_failure + _)"
    using r unfolding solve_linear_rest_def Let_def bind_res_eq_Inr by blast
  have sol: "(\<exists>pick. min_cost_chain ?chain ds = Some pick \<and> sol = map2 (\<lambda>j d. d ! j) pick ds) \<or>
      min_cost_chain ?chain ds = None \<and> sol = map hd ds"
    using pick by (cases "min_cost_chain ?chain ds") auto
  obtain a where a: "linear_sweep (rev (enumerate 0 cs)) n a = Inr slots" "length a = n" "length slots = n"
    using linear_fixpoint_result [OF fp _ len] by auto
  note dm = linear_domains_result [OF ds]
  have ld: "length ds = n" using list_all2_lengthD [OF dm] a(3) by simp
  have "ds ! e \<noteq> [] \<and> (\<forall>c \<in> set (ds ! e). caps_is_fixed c \<and> link_declared cs e c)" if e: "e < n" for e
  proof -
    obtain s where s: "slots ! e = Some s" "ds ! e \<noteq> []" "\<forall>c \<in> set (ds ! e). caps_is_fixed c \<and> set_admits s c"
      using list_all2_nthD [OF dm, of e] a(3) e by auto
    note wi = linear_reverse_declared [OF a(1) len(1) a(2) e, unfolded s(1)]
    have "link_declared cs e c" if "c \<in> set (ds ! e)" for c
      using within_admits [OF wi] s(3) that by (simp add: link_declared_def split: option.splits)
    then show ?thesis using s by blast
  qed
  then show thesis using that [OF ld _ sol] by blast
qed

lemma solve_linear_cases:
  assumes "solve_linear_preferred cs prefs = Inr sol"
  shows "2 \<le> length cs \<and> (\<exists>src seeded. cs ! 0 = Produces src \<and> length seeded = length cs - 1 \<and>
    solve_linear_rest cs prefs src (length cs - 1) seeded = Inr sol)"
proof -
  have n: "2 \<le> length cs" using assms by (auto simp: solve_linear_preferred_def split: if_splits)
  obtain src where c: "cs ! 0 = Produces src"
    using assms n by (cases "cs ! 0") (simp_all add: solve_linear_preferred_def Let_def)
  show ?thesis
  proof (cases "cs ! (length cs - 1)")
    case (Accepts s)
    then show ?thesis using assms n c
      by (intro conjI exI [of _ src] exI) (simp_all add: solve_linear_preferred_def Let_def)
  next
    case AcceptsAny
    then show ?thesis using assms n c
      by (intro conjI exI [of _ src] exI) (simp_all add: solve_linear_preferred_def Let_def)
  qed (use assms n c in \<open>simp_all add: solve_linear_preferred_def Let_def\<close>)
qed

lemma solve_linear_result:
  assumes "solve_linear_preferred cs prefs = Inr sol"
  shows "Suc (length sol) = length cs \<and>
    (\<forall>e < length sol. caps_is_fixed (sol ! e) \<and> link_declared cs e (sol ! e))"
proof -
  let ?n = "length cs - 1"
  obtain src seeded where n: "2 \<le> length cs" and s: "length seeded = ?n" "solve_linear_rest cs prefs src ?n seeded = Inr sol"
    using solve_linear_cases [OF assms] by blast
  have len: "length cs = Suc ?n" using n by simp
  obtain ds where ds: "length ds = ?n"
      "\<And>e. e < ?n \<Longrightarrow> ds ! e \<noteq> [] \<and> (\<forall>c \<in> set (ds ! e). caps_is_fixed c \<and> link_declared cs e c)"
    and alt: "(\<exists>pick. min_cost_chain (map (\<lambda>(i, c). chain_node_new c (preference_at prefs i)) (enumerate 0 cs)) ds = Some pick \<and>
        sol = map2 (\<lambda>j d. d ! j) pick ds) \<or> sol = map hd ds"
    by (rule solve_linear_rest_result [OF s(2) len s(1)]) blast
  have mem: "length sol = ?n \<and> (\<forall>e < ?n. sol ! e \<in> set (ds ! e))"
    using alt
  proof
    assume "\<exists>pick. min_cost_chain (map (\<lambda>(i, c). chain_node_new c (preference_at prefs i)) (enumerate 0 cs)) ds = Some pick \<and>
        sol = map2 (\<lambda>j d. d ! j) pick ds"
    then obtain pick where p: "min_cost_chain (map (\<lambda>(i, c). chain_node_new c (preference_at prefs i)) (enumerate 0 cs)) ds = Some pick"
      "sol = map2 (\<lambda>j d. d ! j) pick ds" by blast
    then show ?thesis using path_ok_nth(1,4) [OF min_cost_chain_path_ok [OF p(1)]] ds(1) by simp
  next
    assume "sol = map hd ds"
    then show ?thesis using ds by simp
  qed
  then show ?thesis using ds(2) len by auto
qed

end
