(* ===== verification/ForwardResolve.thy ===== *)
theory ForwardResolve
  imports GraphSolver
begin

text \<open>
  The mid-stream half of the negotiation (\<^verbatim>\<open>g2g-core/src/runtime/solver.rs\<close>): the snapshot of what
  each edge may carry so that everything downstream still agrees, and the derivation of an
  element's new output when its input caps change while the pipeline runs.
\<close>

section \<open>Forward propagation of one caps\<close>

definition derived_forward :: "(caps \<Rightarrow> caps_set) \<Rightarrow> caps_set \<Rightarrow> nat \<Rightarrow> negotiation_failure + caps_set" where
  "derived_forward f upstream i =
     bind_res (ok_or (set_fixate upstream) (Unfixable (i - 1) i)) (\<lambda>fixed.
       (let r = f fixed in if r = [] then Inl (empty_link i (i + 1)) else Inr r))"

definition mapping_forward :: "caps_set \<Rightarrow> caps_set \<Rightarrow> caps_set \<times> caps_set \<Rightarrow> caps_set" where
  "mapping_forward upstream out p =
     (if set_intersect upstream (fst p) \<noteq> [] then set_union out (snd p) else out)"

fun forward_propagate :: "caps_constraint \<Rightarrow> caps_set \<Rightarrow> nat \<Rightarrow> negotiation_failure + caps_set" where
  "forward_propagate (Identity s) upstream i =
     (let r = set_intersect upstream s in if r = [] then Inl (empty_link (i - 1) i) else Inr r)"
| "forward_propagate (Mapping pairs) upstream i =
     (let out = foldl (mapping_forward upstream) [] pairs in
      if out = [] then Inl (empty_link (i - 1) i) else Inr out)"
| "forward_propagate (DerivedOutput f) upstream i = derived_forward f upstream i"
| "forward_propagate (DerivedFields t) upstream i = derived_forward (derive t) upstream i"
| "forward_propagate IdentityAny upstream i = Inr upstream"
| "forward_propagate _ upstream i = Inl (EndpointShapeMismatch i)"

section \<open>Feasible inputs\<close>

definition with_format :: "passthrough_fields \<Rightarrow> passthrough_fields" where
  "with_format msk = msk\<lparr>pf_format := True\<rparr>"

definition with_channels :: "passthrough_fields \<Rightarrow> passthrough_fields" where
  "with_channels msk = msk\<lparr>pf_channels := True\<rparr>"

text \<open>The inputs of a transform that retargets the format, one per accepted format.\<close>

fun enumerate_formats :: "caps_transform \<Rightarrow> caps \<Rightarrow> caps list option" where
  "enumerate_formats (TransformRawVideo accept _ _) (RawVideo _ width height framerate interlace colorimetry) =
     Some (map (\<lambda>format. RawVideo format width height framerate interlace colorimetry) accept)"
| "enumerate_formats (TransformAudio accept _ _) (Audio _ channels sample_rate layout) =
     Some (map (\<lambda>format. Audio format channels sample_rate layout) accept)"
| "enumerate_formats _ _ = None"

definition derived_fields_inputs :: "caps_transform \<Rightarrow> caps \<Rightarrow> caps list option" where
  "derived_fields_inputs t out =
     (let msk = transform_passthrough t in
      case project_passthrough out msk of
        Some input \<Rightarrow> Some [input]
      | None \<Rightarrow>
          Option.bind (project_passthrough out (with_format msk)) (\<lambda>template.
          Option.bind (enumerate_formats t template) (\<lambda>inputs.
            if inputs = [] then None
            else Some (filter (\<lambda>input. set_intersect (derive t input) (set_one out) \<noteq> []) inputs))))"

text \<open>The loop over the alternatives of the downstream set; a \<open>None\<close> leaves the function at once.\<close>

fun fields_feasible :: "caps_transform \<Rightarrow> caps list \<Rightarrow> caps list \<Rightarrow> caps list option" where
  "fields_feasible t [] alts = Some alts"
| "fields_feasible t (out # outs) alts =
     (case derived_fields_inputs t out of
        None \<Rightarrow> None
      | Some inputs \<Rightarrow> fields_feasible t outs (extend_unique alts inputs))"

definition mapping_feasible :: "caps_set option \<Rightarrow> caps_set \<Rightarrow> caps_set \<times> caps_set \<Rightarrow> caps_set" where
  "mapping_feasible down acc p =
     (if (case down of Some d \<Rightarrow> set_intersect (snd p) d \<noteq> [] | None \<Rightarrow> True)
      then set_union acc (fst p) else acc)"

definition derived_feasible ::
  "caps \<Rightarrow> passthrough_fields \<Rightarrow> caps list \<Rightarrow> caps \<Rightarrow> caps list" where
  "derived_feasible sample msk alts out =
     (case project_passthrough_derived sample out msk of Some c \<Rightarrow> push_unique alts c | None \<Rightarrow> alts)"

fun backward_feasible :: "caps_constraint \<Rightarrow> caps_set option \<Rightarrow> caps option \<Rightarrow> caps_set option" where
  "backward_feasible (Identity s) down in_sample =
     Some (case down of Some d \<Rightarrow> set_intersect s d | None \<Rightarrow> s)"
| "backward_feasible IdentityAny down in_sample = down"
| "backward_feasible (Mapping pairs) down in_sample = Some (foldl (mapping_feasible down) [] pairs)"
| "backward_feasible (DerivedFields t) down in_sample =
     Option.bind down (\<lambda>d. fields_feasible t d [])"
| "backward_feasible (DerivedOutput f) down in_sample =
     Option.bind down (\<lambda>d. Option.bind in_sample (\<lambda>sample.
       (let msk = discover_passthrough f sample in
        if msk = PF_NONE then None
        else
          (let alts = foldl (derived_feasible sample msk) [] d in
           if alts \<noteq> [] then Some alts else None))))"
| "backward_feasible _ down in_sample = None"

definition tee_feasible :: "caps_set option list \<Rightarrow> caps_set option \<Rightarrow> nat \<Rightarrow> caps_set option" where
  "tee_feasible feas acc oe =
     (case feas ! oe of
        Some s \<Rightarrow> Some (case acc of Some a \<Rightarrow> set_intersect a s | None \<Rightarrow> s)
      | None \<Rightarrow> acc)"

definition accept_set :: "caps_constraint \<Rightarrow> caps_set option" where
  "accept_set c = (case c of Accepts s \<Rightarrow> Some s | _ \<Rightarrow> None)"

definition feasibility_node ::
  "('e, 'c) validated_graph \<Rightarrow> node_constraint list \<Rightarrow> caps list \<Rightarrow> caps_set option list \<Rightarrow> node_id \<Rightarrow>
     caps_set option list" where
  "feasibility_node g constraints solution feas node =
     (let in_e = in_edges_of g node; out_e = out_edges_of g node; nc = constraints ! node in
      case vg_kind g node of
        Source \<Rightarrow> feas
      | FanoutSrc _ \<Rightarrow> feas
      | Sink \<Rightarrow> feas[in_e ! 0 := (case nc of Element c \<Rightarrow> accept_set c | _ \<Rightarrow> None)]
      | Transform \<Rightarrow>
          (case nc of
             Element c \<Rightarrow>
               feas[in_e ! 0 := backward_feasible c (feas ! (out_e ! 0)) (get solution (in_e ! 0))]
           | _ \<Rightarrow> feas)
      | Tee _ \<Rightarrow>
          (case nc of
             DemuxC input _ \<Rightarrow> feas[in_e ! 0 := accept_set input]
           | BatchDemux input \<Rightarrow> feas[in_e ! 0 := accept_set input]
           | _ \<Rightarrow> feas[in_e ! 0 := foldl (tee_feasible feas) None out_e])
      | _ \<Rightarrow>
          (let pads = (case nc of
                         MuxerC inputs _ _ \<Rightarrow> Some inputs
                       | BatchMuxer inputs \<Rightarrow> Some inputs
                       | _ \<Rightarrow> None) in
           case pads of
             None \<Rightarrow> feas
           | Some inputs \<Rightarrow>
               foldl (\<lambda>fs ie. fs[ie := Option.bind (get inputs (dst_pad g ie)) accept_set]) feas in_e))"

definition graph_downstream_feasibility ::
  "('e, 'c) validated_graph \<Rightarrow> node_constraint list \<Rightarrow> caps list \<Rightarrow> caps_set option list" where
  "graph_downstream_feasibility g constraints solution =
     foldl (feasibility_node g constraints solution) (replicate (edge_count g) None) (rev (vg_topo g))"

section \<open>Mid-stream resolution\<close>

datatype forward_resolve = ResolveFixed caps | Defer | Infeasible negotiation_failure

definition tracks_input :: "caps \<Rightarrow> caps \<Rightarrow> passthrough_fields \<Rightarrow> bool" where
  "tracks_input survivor input copied =
     (case (caps_dims survivor, caps_dims input) of
        (Some (s_w, s_h, s_rate), Some (i_w, i_h, i_rate)) \<Rightarrow>
          (\<not> pf_width copied \<or> s_w = i_w) \<and> (\<not> pf_height copied \<or> s_h = i_h) \<and>
          (\<not> pf_framerate copied \<or> s_rate = i_rate)
      | _ \<Rightarrow>
          (case (survivor, input) of
             (Audio _ s_ch s_rate _, Audio _ i_ch i_rate _) \<Rightarrow>
               (\<not> pf_sample_rate copied \<or> s_rate = i_rate) \<and> (\<not> pf_channels copied \<or> s_ch = i_ch)
           | _ \<Rightarrow> False))"

definition resolve_candidates :: "caps_constraint \<Rightarrow> caps \<Rightarrow> caps_set option" where
  "resolve_candidates c input =
     (let candidates =
        (case forward_propagate c (set_one input) 1 of
           Inr s \<Rightarrow> Some s
         | Inl _ \<Rightarrow>
             (case c of
                DerivedOutput f \<Rightarrow> Some (f input)
              | DerivedFields t \<Rightarrow> Some (derive t input)
              | _ \<Rightarrow> None)) in
      case candidates of Some s \<Rightarrow> if s \<noteq> [] then Some s else None | None \<Rightarrow> None)"

definition keep_shape_of :: "caps option \<Rightarrow> caps option" where
  "keep_shape_of prev_output =
     Option.bind prev_output (\<lambda>p. project_passthrough p (with_channels (with_format PF_NONE)))"

definition copied_fields_of :: "caps_constraint \<Rightarrow> passthrough_fields" where
  "copied_fields_of c = (case c of DerivedFields t \<Rightarrow> transform_passthrough t | _ \<Rightarrow> PF_ALL)"

definition fixate_kept_shape :: "caps option \<Rightarrow> caps \<Rightarrow> passthrough_fields \<Rightarrow> caps_set \<Rightarrow> caps option" where
  "fixate_kept_shape keep_shape input copied s =
     Option.bind keep_shape (\<lambda>shape.
       List.find (\<lambda>c. tracks_input c input copied)
         (filter (\<lambda>alternative. caps_intersect alternative shape = Inr alternative) s))"

definition derives_from_input :: "caps_constraint \<Rightarrow> bool" where
  "derives_from_input c = (case c of DerivedOutput _ \<Rightarrow> True | DerivedFields _ \<Rightarrow> True | _ \<Rightarrow> False)"

definition resolve_forward_output ::
  "caps_constraint \<Rightarrow> caps \<Rightarrow> caps_set option \<Rightarrow> caps option \<Rightarrow> forward_resolve" where
  "resolve_forward_output c input downstream_feasible prev_output =
     (case resolve_candidates c input of
        None \<Rightarrow> Defer
      | Some candidates \<Rightarrow>
          (let keep_shape = keep_shape_of prev_output; copied = copied_fields_of c in
           case downstream_feasible of
             None \<Rightarrow>
               (case candidates of
                  [one] \<Rightarrow>
                    (case set_fixate candidates of
                       Some fixed \<Rightarrow> ResolveFixed fixed
                     | None \<Rightarrow>
                         if derives_from_input c \<or> tracks_input one input copied
                         then ResolveFixed one else Defer)
                | _ \<Rightarrow>
                    (case fixate_kept_shape keep_shape input copied candidates of
                       Some kept \<Rightarrow> ResolveFixed kept
                     | None \<Rightarrow> Defer))
           | Some d \<Rightarrow>
               (let narrowed = set_intersect candidates d in
                if narrowed = [] then Infeasible (empty_link 0 1)
                else
                  (case fixate_kept_shape keep_shape input copied narrowed of
                     Some kept \<Rightarrow> ResolveFixed kept
                   | None \<Rightarrow>
                       (case set_fixate narrowed of
                          Some fixed \<Rightarrow> ResolveFixed fixed
                        | None \<Rightarrow> (case narrowed of [one] \<Rightarrow> ResolveFixed one | _ \<Rightarrow> Defer))))))"

end
