(* ===== verification/GraphBuild.thy ===== *)
theory GraphBuild
  imports Graph
begin

text \<open>
  What a caller of the graph builder can rely on: the graphs and bins that the builder's
  operations reach are well formed, \<^verbatim>\<open>finish\<close> never panics on them, and a graph it accepts has every
  pad linked once and an order of its nodes that respects the edges. A \<^verbatim>\<open>NodeId\<close> has 32 bits, so
  the builder is considered while the node count stays within them.
\<close>

section \<open>Reachable graphs\<close>

inductive built :: "('e, 'c) graph \<Rightarrow> bool" where
  built_new: "built graph_new"
| built_push: "built g \<Longrightarrow> length (g_nodes g) < 2 ^ 32 \<Longrightarrow> built (snd (push_node kind element g))"
| built_name: "built g \<Longrightarrow> set_node_name node name g = Some g' \<Longrightarrow> built g'"
| built_log_category: "built g \<Longrightarrow> set_node_log_category node category g = Some g' \<Longrightarrow> built g'"
| built_written_caps: "built g \<Longrightarrow> set_node_written_caps node text g = Some g' \<Longrightarrow> built g'"
| built_input_caps: "built g \<Longrightarrow> set_node_declared_input_caps node caps g = Some g' \<Longrightarrow> built g'"
| built_control: "built g \<Longrightarrow> set_node_control node program g = Some g' \<Longrightarrow> built g'"
| built_tee_policy: "built g \<Longrightarrow> length (g_nodes g) < 2 ^ 32 \<Longrightarrow>
    add_tee_with_policy outputs policy g = Some (new, g') \<Longrightarrow> built g'"
| built_link: "built g \<Longrightarrow> link_full src dst policy capacity g = Inr g' \<Longrightarrow> built g'"
| built_insert: "built g \<Longrightarrow> length (g_nodes g) < 2 ^ 32 \<Longrightarrow>
    insert_on_edge i element g = Some (new, g') \<Longrightarrow> built g'"
| built_merge: "built g \<Longrightarrow> built inner \<Longrightarrow> length (g_nodes g) + length (g_nodes inner) < 2 ^ 32 \<Longrightarrow>
    built (snd (merge inner g))"

definition src_index :: "('e, 'c) validated_graph \<Rightarrow> nat \<Rightarrow> nat" where
  "src_index vg e = unat (pad_index (e_src (vg_edge vg e)))"

definition dst_index :: "('e, 'c) validated_graph \<Rightarrow> nat \<Rightarrow> nat" where
  "dst_index vg e = unat (pad_index (e_dst (vg_edge vg e)))"

inductive built_bin :: "('e, 'c) bin \<Rightarrow> bool" where
  bin_start: "built_bin bin_new"
| bin_graph: "built_bin b \<Longrightarrow> built g \<Longrightarrow> bin_ghost_in b = [] \<Longrightarrow> bin_ghost_out b = [] \<Longrightarrow> built_bin (b\<lparr>bin_graph := g\<rparr>)"
| bin_input: "built_bin b \<Longrightarrow> ghost_input pad b = Inr b' \<Longrightarrow> built_bin b'"
| bin_output: "built_bin b \<Longrightarrow> ghost_output pad b = Inr b' \<Longrightarrow> built_bin b'"

lemma update_node_length: "update_node node f g = Some g' \<Longrightarrow> length (g_nodes g') = length (g_nodes g)"
  by (auto simp: update_node_def split: option.splits)

lemmas setter_defs = set_node_name_def set_node_log_category_def set_node_written_caps_def
  set_node_declared_input_caps_def set_node_control_def

lemma push_node_length: "length (g_nodes (snd (push_node kind element g))) = Suc (length (g_nodes g))"
  by (simp add: push_node_def)

lemma insert_on_edge_eq:
  "insert_on_edge i element g =
     (if i < length (g_edges g) then
        (let new = node_id (length (g_nodes g)); e = g_edges g ! i in
         Some (new, (snd (push_node Transform (Some element) g))\<lparr>g_edges :=
           (g_edges g)[i := e\<lparr>e_dst := pad_of new 0\<rparr>] @
           [\<lparr>e_src = pad_of new 0, e_dst = e_dst e, e_policy = e_policy e, e_capacity = e_capacity e\<rparr>]\<rparr>))
      else None)"
  by (simp add: insert_on_edge_def push_node_def Let_def get_def)

lemma insert_on_edge_length: "insert_on_edge i element g = Some (new, g') \<Longrightarrow> length (g_nodes g') = Suc (length (g_nodes g))"
  by (auto simp: insert_on_edge_eq Let_def push_node_length split: if_splits)

lemma built_invariant: "built g \<Longrightarrow> graph_wf g \<and> length (g_nodes g) \<le> 2 ^ 32"
proof (induction rule: built.induct)
  case built_new
  then show ?case by (simp add: graph_wf_new) (simp add: graph_new_def)
next
  case (built_push g kind element)
  then show ?case by (simp add: graph_wf_push push_node_length)
next
  case (built_tee_policy g outputs policy new g')
  let ?p = "push_node (Tee outputs) None g"
  have u: "update_node (fst ?p) (\<lambda>nd. nd\<lparr>nd_fanout := policy\<rparr>) (snd ?p) = Some g'"
    using built_tee_policy(3) by (auto simp: add_tee_with_policy_def Let_def split: prod.splits)
  have "graph_wf (snd ?p)" using built_tee_policy(4) graph_wf_push by blast
  then have "graph_wf g'" using graph_wf_update_node [OF _ u] by simp
  then show ?case using update_node_length [OF u] built_tee_policy(2) by (simp add: push_node_length)
next
  case (built_link g src dst policy capacity g')
  then have "graph_wf g'" using graph_wf_link_full by blast
  then show ?case using built_link by (auto simp: link_full_def)
next
  case (built_insert g i element new g')
  have "graph_wf g'" using graph_wf_insert_on_edge [OF _ built_insert(3,2)] built_insert(4) by simp
  then show ?case using insert_on_edge_length [OF built_insert(3)] built_insert(2) by simp
next
  case (built_merge g inner)
  have "length (g_nodes g) < 2 ^ 32" using built_merge(3) by simp
  then have "graph_wf (snd (merge inner g))" using built_merge graph_wf_merge by blast
  then show ?case using built_merge(3) by (simp add: merge_def Let_def)
qed (auto simp: setter_defs update_node_length intro: graph_wf_update_node)

lemma built_bin_invariant: "built_bin b \<Longrightarrow> bin_wf b"
proof (induction rule: built_bin.induct)
  case bin_start
  then show ?case by (simp add: bin_wf_def bin_new_def graph_wf_new)
next
  case (bin_graph b g)
  then show ?case using built_invariant by (auto simp: bin_wf_def)
qed (auto intro: bin_wf_ghost_input bin_wf_ghost_output)

lemma finish_graph_ok:
  assumes "built g" "finish g = Some (Inr vg)"
  shows "graph_ok vg"
proof (rule finish_spec)
  show "graph_wf g" "length (g_nodes g) \<le> 2 ^ 32" using built_invariant [OF assms(1)] by auto
qed (use assms(2) in auto)

lemma one_per_index:
  assumes "distinct (map f es)" "f ` set es = {..<n}" "k < n"
  shows "\<exists>!e. e \<in> set es \<and> f e = k"
proof -
  have "k \<in> f ` set es" using assms(2,3) by blast
  then show ?thesis using assms(1) by (auto simp: distinct_map inj_on_def)
qed

section \<open>Properties\<close>

text \<open>
  C5. Every graph the builder reaches is well formed: both ends of every edge are pads of nodes of
  the graph. Validating it returns, without an out-of-bounds access, either a validated graph of
  the same nodes and edges, whose edges then form no cycle, or the nodes of a real cycle, or a pad
  error.
\<close>

theorem builder_and_finish:
  assumes "built g"
  shows "graph_wf g \<and>
    (case finish g of
       None \<Rightarrow> False
     | Some (Inr vg) \<Rightarrow> graph_ok vg \<and> vg_nodes vg = g_nodes g \<and> vg_edges vg = g_edges g \<and> acyclic (edge_rel (g_edges g))
     | Some (Inl (Cycle nodes)) \<Rightarrow> nodes \<noteq> [] \<and> set nodes \<subseteq> {..<length (g_nodes g)} \<and> \<not> acyclic (edge_rel (g_edges g))
     | Some (Inl _) \<Rightarrow> True)"
proof -
  have wf: "graph_wf g" and n: "length (g_nodes g) \<le> 2 ^ 32" using built_invariant [OF assms] by auto
  show ?thesis
  proof (rule finish_spec [OF wf n])
    fix vg
    assume "finish g = Some (Inr vg)" "graph_ok vg" "vg_nodes vg = g_nodes g" "vg_edges vg = g_edges g"
    then show ?thesis using wf graph_ok_acyclic [of vg] by simp
  next
    fix nodes
    assume f: "finish g = Some (Inl (Cycle nodes))" "nodes \<noteq> []" "set nodes \<subseteq> {..<length (g_nodes g)}"
      and c: "\<And>v. v \<in> set nodes \<Longrightarrow> \<exists>u \<in> set nodes. (u, v) \<in> edge_rel (g_edges g)"
    have "\<not> acyclic (edge_rel (g_edges g))" by (rule no_minimal_cyclic [of "set nodes"]) (use f c in auto)
    then show ?thesis using wf f by simp
  next
    fix err
    assume "finish g = Some (Inl err)" "\<And>nodes. err \<noteq> Cycle nodes"
    then show ?thesis using wf by (cases err) auto
  qed
qed

text \<open>A small graph: a source, a transform and a sink in a row.\<close>

definition demo_graph :: "(unit, unit) graph" where
  "demo_graph =
     (let (s, g) = add_source () graph_new;
          (t, g) = add_transform () g;
          (k, g) = add_sink () g in
      case bind_res (link (pad_of s 0) (pad_of t 0) g) (link (pad_of t 0) (pad_of k 0)) of
        Inr g' \<Rightarrow> g'
      | Inl _ \<Rightarrow> graph_new)"

lemma demo_graph_built: "built demo_graph"
proof -
  let ?g1 = "snd (push_node Source (Some ()) (graph_new :: (unit, unit) graph))"
  let ?g2 = "snd (push_node Transform (Some ()) ?g1)"
  let ?g3 = "snd (push_node Sink (Some ()) ?g2)"
  have b1: "built ?g1" by (rule built_push [OF built_new]) (simp add: graph_new_def)
  have b2: "built ?g2" by (rule built_push [OF b1]) (simp add: graph_new_def push_node_def)
  have b3: "built ?g3" by (rule built_push [OF b2]) (simp add: graph_new_def push_node_def)
  obtain g4 where l4: "link (pad_of 0 0) (pad_of 1 0) ?g3 = Inr g4" and l5: "link (pad_of 1 0) (pad_of 2 0) g4 = Inr demo_graph"
  proof -
    have "\<exists>g4. link (pad_of 0 0) (pad_of 1 0) ?g3 = Inr g4 \<and> link (pad_of 1 0) (pad_of 2 0) g4 = Inr demo_graph"
      by (simp add: demo_graph_def add_source_def add_transform_def add_sink_def push_node_def graph_new_def
          node_id_def link_def link_with_def link_full_def check_pad_def kind_of_def pad_of_def pad_count_def get_def)
    then show thesis using that by blast
  qed
  have b4: "built g4" using built_link [OF b3] l4 unfolding link_def link_with_def by blast
  then show ?thesis using built_link l5 unfolding link_def link_with_def by blast
qed

theorem builder_and_finish_witness:
  "graph_wf demo_graph \<and>
    (case finish demo_graph of
       None \<Rightarrow> False
     | Some (Inr vg) \<Rightarrow> graph_ok vg \<and> vg_nodes vg = g_nodes demo_graph \<and> vg_edges vg = g_edges demo_graph \<and>
         acyclic (edge_rel (g_edges demo_graph))
     | Some (Inl (Cycle nodes)) \<Rightarrow> nodes \<noteq> [] \<and> set nodes \<subseteq> {..<length (g_nodes demo_graph)} \<and>
         \<not> acyclic (edge_rel (g_edges demo_graph))
     | Some (Inl _) \<Rightarrow> True)"
  by (rule builder_and_finish [OF demo_graph_built])

text \<open>
  In a graph that validation accepts, every input pad and every output pad that a node's kind
  declares is the end of exactly one edge, and the topological order lists every node once with
  the producer of each edge before its consumer.
\<close>

theorem accepted_graph:
  assumes "built g" "finish g = Some (Inr vg)" "v < node_count vg"
  shows "(\<forall>k < unat (in_pads (vg_kind vg v)). \<exists>!e. e < edge_count vg \<and> edge_dst vg e = v \<and> dst_index vg e = k) \<and>
    (\<forall>k < unat (out_pads (vg_kind vg v)). \<exists>!e. e < edge_count vg \<and> edge_src vg e = v \<and> src_index vg e = k) \<and>
    distinct (vg_topo vg) \<and> v \<in> set (vg_topo vg) \<and>
    (\<forall>e < edge_count vg. precedes (vg_topo vg) (edge_src vg e) (edge_dst vg e))"
proof -
  have ok: "graph_ok vg" by (rule finish_graph_ok [OF assms(1,2)])
  note ie = graph_ok_in_edges(1,2) [OF ok assms(3)]
  have pads: "distinct (map (dst_index vg) (in_edges_of vg v))"
    "dst_index vg ` set (in_edges_of vg v) = {..<unat (in_pads (vg_kind vg v))}"
    "distinct (map (src_index vg) (out_edges_of vg v))"
    "src_index vg ` set (out_edges_of vg v) = {..<unat (out_pads (vg_kind vg v))}"
    unfolding dst_index_def src_index_def using ok assms(3) unfolding graph_ok_def by blast+
  have "\<exists>!e. e < edge_count vg \<and> edge_dst vg e = v \<and> dst_index vg e = k" if "k < unat (in_pads (vg_kind vg v))" for k
    using one_per_index [OF pads(1,2) that] unfolding ie(1) by simp
  moreover have "\<exists>!e. e < edge_count vg \<and> edge_src vg e = v \<and> src_index vg e = k" if "k < unat (out_pads (vg_kind vg v))" for k
    using one_per_index [OF pads(3,4) that] unfolding ie(2) by simp
  moreover have "v \<in> set (vg_topo vg)" using graph_ok_topo(2) [OF ok] assms(3) by simp
  ultimately show ?thesis using graph_ok_topo(1) [OF ok] graph_ok_edges(3) [OF ok] by simp
qed

theorem accepted_graph_witness:
  "\<exists>vg. finish demo_graph = Some (Inr vg) \<and> precedes (vg_topo vg) (edge_src vg 0) (edge_dst vg 0)"
proof -
  have "(case finish demo_graph of Some (Inr vg) \<Rightarrow> 1 < node_count vg \<and> 0 < edge_count vg | _ \<Rightarrow> False)" by code_simp
  then obtain vg where vg: "finish demo_graph = Some (Inr vg)" "1 < node_count vg" "0 < edge_count vg"
    by (auto split: option.splits sum.splits)
  then show ?thesis using accepted_graph [OF demo_graph_built vg(1,2)] by blast
qed

text \<open>
  Splicing an element into an edge keeps every other edge, sends the old edge to the new node
  and a new edge with the same policy and capacity from it to the old consumer.
\<close>

theorem insert_on_edge_splices:
  assumes "built g" "length (g_nodes g) < 2 ^ 32" "i < length (g_edges g)"
  shows "\<exists>g'. insert_on_edge i element g = Some (length (g_nodes g), g') \<and> graph_wf g' \<and>
    length (g_edges g') = Suc (length (g_edges g)) \<and>
    (\<forall>j < length (g_edges g). j \<noteq> i \<longrightarrow> g_edges g' ! j = g_edges g ! j) \<and>
    e_src (g_edges g' ! i) = e_src (g_edges g ! i) \<and>
    e_dst (g_edges g' ! i) = pad_of (length (g_nodes g)) 0 \<and>
    e_src (last (g_edges g')) = pad_of (length (g_nodes g)) 0 \<and>
    e_dst (last (g_edges g')) = e_dst (g_edges g ! i) \<and>
    e_policy (last (g_edges g')) = e_policy (g_edges g ! i) \<and>
    e_capacity (last (g_edges g')) = e_capacity (g_edges g ! i)"
proof -
  obtain g' where g': "insert_on_edge i element g = Some (node_id (length (g_nodes g)), g')"
    using assms(3) by (auto simp: insert_on_edge_eq Let_def)
  have "graph_wf g'" using graph_wf_insert_on_edge [OF _ g' assms(2)] built_invariant [OF assms(1)] by blast
  then show ?thesis
    using g' assms(2,3) by (auto simp: insert_on_edge_eq Let_def node_id_id nth_append split: if_splits)
qed

theorem insert_on_edge_splices_witness:
  "\<exists>g'. insert_on_edge 0 () demo_graph = Some (3, g') \<and> graph_wf g' \<and>
    e_dst (g_edges g' ! 0) = pad_of 3 0 \<and> e_dst (last (g_edges g')) = e_dst (g_edges demo_graph ! 0)"
proof -
  have n: "length (g_nodes demo_graph) = 3" "0 < length (g_edges demo_graph)" by code_simp+
  then show ?thesis using insert_on_edge_splices [OF demo_graph_built, of 0 "()"] by auto
qed

text \<open>
  Flattening a bin into a host keeps the host well formed, and the ghost pads of the instance
  are distinct pads of the host.
\<close>

theorem flattened_bin:
  assumes "built_bin b" "built g" "length (g_nodes g) < 2 ^ 32" "add_bin b g = (inst, g')"
  shows "graph_wf g' \<and> distinct (bi_ghost_in inst) \<and> distinct (bi_ghost_out inst) \<and>
    (\<forall>p \<in> set (bi_ghost_in inst). pad_ok (g_nodes g') In p) \<and>
    (\<forall>p \<in> set (bi_ghost_out inst). pad_ok (g_nodes g') Out p)"
  using add_bin_ok [OF built_bin_invariant [OF assms(1)] _ assms(3,4)] built_invariant [OF assms(2)] by blast

theorem flattened_bin_witness:
  "graph_wf (snd (add_bin (bin_new :: (unit, unit) bin) demo_graph))"
proof -
  have "length (g_nodes demo_graph) = 3" by code_simp
  then show ?thesis
    using flattened_bin [OF bin_start demo_graph_built, of "fst (add_bin bin_new demo_graph)" "snd (add_bin bin_new demo_graph)"]
    by simp
qed

end
