(* ===== verification/RawVideoLayout.thy ===== *)
theory RawVideoLayout
  imports Caps_Laws
begin

text \<open>
  The byte layout of raw video frames (\<^verbatim>\<open>impl RawVideoFormat\<close> in \<^verbatim>\<open>g2g-core/src/caps.rs\<close>): the
  planes of every format, their strides, rows, sizes and offsets, with the checked arithmetic
  of the source at its width. The lemmas give each quantity as a natural number, show that the
  planes of an unpadded frame tile it without overlap, and bound the frames for which no
  computation overflows.
\<close>

section \<open>Formats\<close>

fun gst_name :: "raw_video_format \<Rightarrow> string" where
  "gst_name Nv12 = ''NV12''"
| "gst_name I420 = ''I420''"
| "gst_name Rgba8 = ''RGBA''"
| "gst_name Bgra8 = ''BGRA''"
| "gst_name Rgb8 = ''RGB''"
| "gst_name Yuyv = ''YUY2''"
| "gst_name I420p10 = ''I420_10LE''"
| "gst_name I420p12 = ''I420_12LE''"
| "gst_name I422 = ''Y42B''"
| "gst_name I422p10 = ''I422_10LE''"
| "gst_name I422p12 = ''I422_12LE''"
| "gst_name I444 = ''Y444''"
| "gst_name I444p10 = ''Y444_10LE''"
| "gst_name I444p12 = ''Y444_12LE''"
| "gst_name P010 = ''P010_10LE''"
| "gst_name A420 = ''A420''"
| "gst_name Uyvy = ''UYVY''"
| "gst_name A444p12 = ''A444_12LE''"
| "gst_name V210 = ''v210''"
| "gst_name R210 = ''r210''"
| "gst_name Gbr10Le = ''GBR_10LE''"
| "gst_name Gray8 = ''GRAY8''"
| "gst_name Bgr8 = ''BGR''"
| "gst_name Bgrx8 = ''BGRx''"
| "gst_name Argb8 = ''ARGB''"

definition bit_depth :: "raw_video_format \<Rightarrow> u8" where
  "bit_depth f =
     (if f \<in> {I420p10, I422p10, I444p10, P010, V210, R210, Gbr10Le} then 10
      else if f \<in> {I420p12, I422p12, I444p12, A444p12} then 12
      else 8)"

definition bytes_per_sample :: "raw_video_format \<Rightarrow> u32" where
  "bytes_per_sample f = (if bit_depth f > 8 then 2 else 1)"

definition chroma_shift :: "raw_video_format \<Rightarrow> (nat \<times> nat) option" where
  "chroma_shift f =
     (if f \<in> {I420, I420p10, I420p12, A420} then Some (1, 1)
      else if f \<in> {I422, I422p10, I422p12} then Some (1, 0)
      else if f \<in> {I444, I444p10, I444p12, A444p12} then Some (0, 0)
      else None)"

definition is_planar_yuv :: "raw_video_format \<Rightarrow> bool" where
  "is_planar_yuv f \<longleftrightarrow> chroma_shift f \<noteq> None"

definition alpha_plane :: "raw_video_format \<Rightarrow> nat option" where
  "alpha_plane f = (if f \<in> {A420, A444p12} then Some 3 else None)"

definition is_full_resolution_plane :: "raw_video_format \<Rightarrow> nat \<Rightarrow> bool" where
  "is_full_resolution_plane f plane \<longleftrightarrow> plane = 0 \<or> f = Gbr10Le \<or> alpha_plane f = Some plane"

definition plane_count :: "raw_video_format \<Rightarrow> nat" where
  "plane_count f =
     (if f \<in> {Rgba8, Bgra8, Rgb8, Yuyv, Uyvy, V210, R210, Gray8, Bgr8, Bgrx8, Argb8} then 1
      else if f \<in> {Nv12, P010} then 2
      else if f \<in> {A420, A444p12} then 4
      else 3)"

definition pixel_stride :: "raw_video_format \<Rightarrow> u32 option" where
  "pixel_stride f =
     (if f \<in> {Rgba8, Bgra8, R210, Bgrx8, Argb8} then Some 4
      else if f \<in> {Rgb8, Bgr8} then Some 3
      else if f \<in> {Yuyv, Uyvy} then Some 2
      else if f = Gray8 then Some 1
      else None)"

section \<open>Planes\<close>

definition V210_ROW_BLOCK_PIXELS :: u32 where
  "V210_ROW_BLOCK_PIXELS = 48"

definition V210_ROW_BLOCK_BYTES :: u32 where
  "V210_ROW_BLOCK_BYTES = 128"

definition plane_stride :: "raw_video_format \<Rightarrow> nat \<Rightarrow> u32 \<Rightarrow> u32 option" where
  "plane_stride f plane width =
     (if plane \<ge> plane_count f then None
      else if f = Yuyv \<or> f = Uyvy then checked_mul (div_ceil width 2) 4
      else if f = V210 then
        checked_mul (div_ceil width V210_ROW_BLOCK_PIXELS) V210_ROW_BLOCK_BYTES
      else
        (case pixel_stride f of
           Some pixel \<Rightarrow> checked_mul width pixel
         | None \<Rightarrow>
             (let sample = bytes_per_sample f in
              if is_full_resolution_plane f plane then checked_mul width sample
              else if f = Nv12 \<or> f = P010 then
                Option.bind (checked_mul (div_ceil width 2) 2) (\<lambda>v. checked_mul v sample)
              else
                Option.bind (chroma_shift f) (\<lambda>(horizontal, _).
                  checked_mul (div_ceil width (push_bit horizontal 1)) sample))))"

definition plane_rows :: "raw_video_format \<Rightarrow> nat \<Rightarrow> u32 \<Rightarrow> u32 option" where
  "plane_rows f plane height =
     (if plane \<ge> plane_count f then None
      else if is_full_resolution_plane f plane then Some height
      else if f = Nv12 \<or> f = P010 then Some (div_ceil height 2)
      else
        Option.bind (chroma_shift f) (\<lambda>(_, vertical). Some (div_ceil height (push_bit vertical 1))))"

definition plane_bytes :: "raw_video_format \<Rightarrow> nat \<Rightarrow> u32 \<Rightarrow> u32 \<Rightarrow> u64 option" where
  "plane_bytes f plane width height =
     Option.bind (plane_stride f plane width) (\<lambda>stride.
     Option.bind (plane_rows f plane height) (\<lambda>rows.
       checked_mul (ucast stride) (ucast rows)))"

text \<open>The accumulating loop of \<^verbatim>\<open>plane_offset\<close> and \<^verbatim>\<open>unpadded_frame_bytes\<close>, over a list of planes.\<close>

fun add_planes :: "raw_video_format \<Rightarrow> u32 \<Rightarrow> u32 \<Rightarrow> nat list \<Rightarrow> u64 \<Rightarrow> u64 option" where
  "add_planes f width height [] acc = Some acc"
| "add_planes f width height (p # ps) acc =
     (case plane_bytes f p width height of
        None \<Rightarrow> None
      | Some bytes \<Rightarrow>
          (case checked_add acc bytes of
             None \<Rightarrow> None
           | Some acc' \<Rightarrow> add_planes f width height ps acc'))"

definition plane_offset :: "raw_video_format \<Rightarrow> nat \<Rightarrow> u32 \<Rightarrow> u32 \<Rightarrow> u64 option" where
  "plane_offset f plane width height =
     (if plane \<ge> plane_count f then None else add_planes f width height [0..<plane] 0)"

definition unpadded_frame_bytes :: "raw_video_format \<Rightarrow> u32 \<Rightarrow> u32 \<Rightarrow> u64 option" where
  "unpadded_frame_bytes f width height = add_planes f width height [0..<plane_count f] 0"

definition single_plane_strided :: "raw_video_format set" where
  "single_plane_strided =
     {Rgba8, Bgra8, Rgb8, Yuyv, Uyvy, V210, R210, Gray8, Bgr8, Bgrx8, Argb8}"

definition row_stride :: "raw_video_format \<Rightarrow> u32 \<Rightarrow> u32 option" where
  "row_stride f width =
     (if f \<in> single_plane_strided then plane_stride f 0 width
      else if f \<in> {Nv12, I420} then checked_mul (div_ceil width 2) 2
      else None)"

definition frame_bytes :: "raw_video_format \<Rightarrow> u64 \<Rightarrow> u64 \<Rightarrow> u64 option" where
  "frame_bytes f stride height =
     Option.bind (checked_mul stride height) (\<lambda>luma.
       if f \<in> single_plane_strided then Some luma
       else if f \<in> {Nv12, I420} then
         Option.bind (checked_mul stride (div_ceil height 2)) (\<lambda>chroma. checked_add luma chroma)
       else None)"

section \<open>Sizes as natural numbers\<close>

text \<open>The stride and rows a plane has, as the formats define them.\<close>

definition ceil_half :: "nat \<Rightarrow> nat" where
  "ceil_half n = (n + 1) div 2"

definition chroma_width :: "raw_video_format \<Rightarrow> nat \<Rightarrow> nat" where
  "chroma_width f w =
     (if f \<in> {I420, I420p10, I420p12, A420, I422, I422p10, I422p12} then ceil_half w else w)"

definition chroma_height :: "raw_video_format \<Rightarrow> nat \<Rightarrow> nat" where
  "chroma_height f h =
     (if f \<in> {Nv12, P010, I420, I420p10, I420p12, A420} then ceil_half h else h)"

definition sample_size :: "raw_video_format \<Rightarrow> nat" where
  "sample_size f = unat (bytes_per_sample f)"

definition stride_nat :: "raw_video_format \<Rightarrow> nat \<Rightarrow> nat \<Rightarrow> nat" where
  "stride_nat f plane w =
     (if f = Yuyv \<or> f = Uyvy then 4 * ceil_half w
      else if f = V210 then 128 * ((w + 47) div 48)
      else
        (case pixel_stride f of
           Some pixel \<Rightarrow> unat pixel * w
         | None \<Rightarrow>
             if is_full_resolution_plane f plane then sample_size f * w
             else if f = Nv12 \<or> f = P010 then sample_size f * (2 * ceil_half w)
             else sample_size f * chroma_width f w))"

definition rows_nat :: "raw_video_format \<Rightarrow> nat \<Rightarrow> nat \<Rightarrow> nat" where
  "rows_nat f plane h = (if is_full_resolution_plane f plane then h else chroma_height f h)"

definition bytes_nat :: "raw_video_format \<Rightarrow> nat \<Rightarrow> nat \<Rightarrow> nat \<Rightarrow> nat" where
  "bytes_nat f plane w h = stride_nat f plane w * rows_nat f plane h"

lemma unat_div_ceil_2: "unat (div_ceil (w :: u32) 2) = ceil_half (unat w)"
  using unat_div_ceil [of "2 :: u32" w] by (simp add: ceil_half_def)

lemma unat_div_ceil_1: "div_ceil (w :: u32) 1 = w"
  by (simp add: div_ceil_def)

lemma checked_mul_eq:
  fixes a b :: u32
  shows "checked_mul a b = (if unat a * unat b < 2 ^ 32 then Some (of_nat (unat a * unat b)) else None)"
  by (auto simp: checked_mul_def)

lemma checked_mul_twice:
  fixes a b c :: u32
  assumes "c \<noteq> 0"
  shows "Option.bind (checked_mul a b) (\<lambda>v. checked_mul v c) =
    (if unat c * (unat b * unat a) < 2 ^ 32 then Some (of_nat (unat c * (unat b * unat a))) else None)"
proof (cases "unat a * unat b < 2 ^ 32")
  case True
  then have "unat (of_nat (unat a * unat b) :: u32) = unat a * unat b"
    by (simp add: unat_word_ariths)
  then show ?thesis using True by (simp add: checked_mul_eq mult.commute)
next
  case False
  have "1 \<le> unat c" using assms by (simp add: Suc_le_eq unat_gt_0)
  from mult_le_mono1 [OF this, of "unat b * unat a"]
  have "\<not> unat c * (unat b * unat a) < 2 ^ 32"
    using False mult.commute [of "unat a" "unat b"] by linarith
  then show ?thesis using False by (simp add: checked_mul_eq)
qed

lemmas format_defs = plane_count_def is_full_resolution_plane_def alpha_plane_def chroma_shift_def
  pixel_stride_def bytes_per_sample_def bit_depth_def

lemmas size_defs = stride_nat_def rows_nat_def chroma_width_def chroma_height_def sample_size_def

lemma plane_stride_eq:
  "plane_stride f plane w =
     (if plane \<ge> plane_count f \<or> 2 ^ 32 \<le> stride_nat f plane (unat w) then None
      else Some (of_nat (stride_nat f plane (unat w))))"
proof -
  have v210: "unat (div_ceil w 48) = (unat w + 47) div 48"
    using unat_div_ceil [of "48 :: u32" w] by simp
  have half: "of_nat (ceil_half (unat w)) = div_ceil w 2" by (simp flip: unat_div_ceil_2)
  show ?thesis
    by (cases f; simp add: plane_stride_def format_defs checked_mul_twice)
      (simp_all add: size_defs format_defs checked_mul_eq unat_div_ceil_2 unat_div_ceil_1 v210 half mult.commute
        V210_ROW_BLOCK_PIXELS_def V210_ROW_BLOCK_BYTES_def)
qed

lemma plane_rows_eq:
  "plane_rows f plane h =
     (if plane \<ge> plane_count f then None else Some (of_nat (rows_nat f plane (unat h))))"
  by (cases f) (simp_all add: plane_rows_def format_defs size_defs unat_div_ceil_1 flip: unat_div_ceil_2)

lemma ceil_half_le: "ceil_half n \<le> n"
  by (simp add: ceil_half_def)

lemma rows_nat_le: "rows_nat f plane h \<le> h"
  by (auto simp: size_defs intro: ceil_half_le)

lemma unat_of_nat_u32: "n < 2 ^ 32 \<Longrightarrow> unat (of_nat n :: u32) = n"
  by (simp add: unat_of_nat)

lemma ucast_of_nat_u32: "n < 2 ^ 32 \<Longrightarrow> ucast (of_nat n :: u32) = (of_nat n :: u64)"
  by (simp add: word_unat_eq_iff unat_ucast_up unat_of_nat)

text \<open>A plane's size in bytes always fits 64 bits: only its stride can overflow.\<close>

lemma plane_bytes_eq:
  "plane_bytes f plane w h =
     (if plane \<ge> plane_count f \<or> 2 ^ 32 \<le> stride_nat f plane (unat w) then None
      else Some (of_nat (bytes_nat f plane (unat w) (unat h))))"
proof (cases "plane \<ge> plane_count f \<or> 2 ^ 32 \<le> stride_nat f plane (unat w)")
  case True
  then show ?thesis by (simp add: plane_bytes_def plane_stride_eq)
next
  case False
  let ?s = "stride_nat f plane (unat w)" and ?r = "rows_nat f plane (unat h)"
  have r: "?r < 2 ^ 32" using rows_nat_le [of f plane "unat h"] unat_lt2p [of h] by simp
  have s: "?s < 2 ^ 32" using False by simp
  have "?s * ?r < 2 ^ 32 * 2 ^ 32" using r s by (intro mult_strict_mono) auto
  then show ?thesis using False r s
    by (simp add: plane_bytes_def plane_stride_eq plane_rows_eq checked_mul_def bytes_nat_def
        unat_ucast_up unat_of_nat_u32 ucast_of_nat_u32)
qed

lemma bytes_nat_lt:
  assumes "stride_nat f plane (unat w) < 2 ^ 32"
  shows "bytes_nat f plane (unat w) (unat (h :: u32)) < 2 ^ 64"
proof -
  have "rows_nat f plane (unat h) < 2 ^ 32"
    using rows_nat_le [of f plane "unat h"] unat_lt2p [of h] by simp
  then have "bytes_nat f plane (unat w) (unat h) < 2 ^ 32 * 2 ^ 32"
    unfolding bytes_nat_def using assms by (intro mult_strict_mono) auto
  then show ?thesis by simp
qed

lemma unat_plane_bytes:
  assumes "plane_bytes f plane w h = Some b"
  shows "unat b = bytes_nat f plane (unat w) (unat h)"
  using assms bytes_nat_lt [of f plane w h] by (auto simp: plane_bytes_eq unat_of_nat split: if_splits)

section \<open>Frames\<close>

lemma add_planes_append:
  "add_planes f w h (ps @ qs) acc = Option.bind (add_planes f w h ps acc) (add_planes f w h qs)"
  by (induction ps arbitrary: acc) (auto split: option.splits)

lemma unat_add_planes:
  "add_planes f w h ps acc = Some t \<Longrightarrow>
     unat t = unat acc + sum_list (map (\<lambda>p. bytes_nat f p (unat w) (unat h)) ps)"
  by (induction ps arbitrary: acc) (auto simp: rust_arith unat_plane_bytes split: option.splits)

lemma add_planes_total:
  assumes "\<And>p. p \<in> set ps \<Longrightarrow> p < plane_count f \<and> stride_nat f p (unat w) < 2 ^ 32"
    and "unat acc + sum_list (map (\<lambda>p. bytes_nat f p (unat w) (unat h)) ps) < 2 ^ 64"
  shows "\<exists>t. add_planes f w h ps acc = Some t"
  using assms
proof (induction ps arbitrary: acc)
  case Nil
  show ?case by simp
next
  case (Cons p ps)
  obtain b where b: "plane_bytes f p w h = Some b" using Cons.prems(1) [of p] by (auto simp: plane_bytes_eq)
  have "unat acc + unat b < 2 ^ 64" using Cons.prems(2) unat_plane_bytes [OF b] by simp
  then obtain acc' where acc': "checked_add acc b = Some acc'" by (simp add: checked_add_def)
  have "\<exists>t. add_planes f w h ps acc' = Some t"
    by (rule Cons.IH)
      (use Cons.prems acc' unat_plane_bytes [OF b] in \<open>auto simp: rust_arith\<close>)
  then show ?case using b acc' by simp
qed

lemma plane_offset_0: "plane_offset f 0 w h = Some 0"
  by (simp add: plane_offset_def plane_count_def)

lemma plane_offset_Suc:
  "Suc p < plane_count f \<Longrightarrow>
     plane_offset f (Suc p) w h =
       Option.bind (plane_offset f p w h) (\<lambda>off.
       Option.bind (plane_bytes f p w h) (\<lambda>b. checked_add off b))"
  by (auto simp: plane_offset_def add_planes_append split: option.splits Option.bind_splits)

lemma plane_count_pos: "0 < plane_count f"
  by (simp add: plane_count_def)

lemma unat_plane_offset:
  assumes "plane_offset f p w h = Some off"
  shows "unat off = (\<Sum>q < p. bytes_nat f q (unat w) (unat h))"
  using assms unat_add_planes [of f w h "[0..<p]" 0 off]
  by (simp add: plane_offset_def interv_sum_list_conv_sum_set_nat atLeast0LessThan split: if_splits)

lemma unat_unpadded_frame_bytes:
  assumes "unpadded_frame_bytes f w h = Some n"
  shows "unat n = (\<Sum>q < plane_count f. bytes_nat f q (unat w) (unat h))"
  using assms unat_add_planes [of f w h "[0..<plane_count f]" 0 n]
  by (simp add: unpadded_frame_bytes_def interv_sum_list_conv_sum_set_nat atLeast0LessThan)

text \<open>A frame that has a size has an offset and a size for each of its planes.\<close>

lemma unpadded_frame_bytes_planes:
  assumes "unpadded_frame_bytes f w h = Some n" and "p < plane_count f"
  shows "\<exists>off b. plane_offset f p w h = Some off \<and> plane_bytes f p w h = Some b"
proof -
  have split: "[0..<plane_count f] = [0..<p] @ [p] @ [Suc p..<plane_count f]"
    using assms(2) upt_add_eq_append [of 0 p "plane_count f - p"] upt_conv_Cons [of p "plane_count f"]
    by simp
  show ?thesis
    using assms unfolding unpadded_frame_bytes_def split add_planes_append plane_offset_def
    by (auto split: option.splits Option.bind_splits)
qed

lemma stride_nat_bound: "w < 2 ^ 30 \<Longrightarrow> stride_nat f p w < 2 ^ 32"
proof -
  assume w: "w < 2 ^ 30"
  have half: "2 * ceil_half w \<le> w + 1" by (simp add: ceil_half_def)
  have "128 * ((w + 47) div 48) < 2 ^ 32" using w by simp
  then show ?thesis using w half
    by (cases f) (simp_all add: size_defs format_defs)
qed

lemma stride_nat_planar: "1 < plane_count f \<Longrightarrow> stride_nat f p w \<le> 2 * w + 2"
  using ceil_half_le [of w]
  by (cases f) (auto simp: size_defs format_defs ceil_half_def)

text \<open>
  Below \<open>2 ^ 30\<close> pixels a side no stride, plane size or frame size overflows its type.
\<close>

lemma unpadded_frame_bytes_total:
  assumes "unat w < 2 ^ 30" "unat h < 2 ^ 30"
  shows "\<exists>n. unpadded_frame_bytes f w h = Some n"
  unfolding unpadded_frame_bytes_def
proof (rule add_planes_total)
  have "bytes_nat f p (unat w) (unat h) \<le> 2 ^ 32 * (2 ^ 30 - 1)" for p
    unfolding bytes_nat_def
    using stride_nat_bound [OF assms(1), of f p] rows_nat_le [of f p "unat h"] assms(2)
    by (intro mult_le_mono) auto
  then have "sum_list (map (\<lambda>p. bytes_nat f p (unat w) (unat h)) [0..<plane_count f]) \<le>
      sum_list (map (\<lambda>p. 2 ^ 32 * (2 ^ 30 - 1)) [0..<plane_count f])"
    by (intro sum_list_mono) auto
  also have "\<dots> = plane_count f * (2 ^ 32 * (2 ^ 30 - 1))"
    by (simp add: sum_list_triv)
  also have "\<dots> \<le> 4 * (2 ^ 32 * (2 ^ 30 - 1))"
    by (intro mult_le_mono1) (simp add: plane_count_def)
  finally show "unat (0 :: u64) +
      sum_list (map (\<lambda>p. bytes_nat f p (unat w) (unat h)) [0..<plane_count f]) < 2 ^ 64"
    by simp
qed (use stride_nat_bound [OF assms(1)] in auto)

lemma unat_checked_mul_half: "checked_mul (div_ceil w 2) 2 = Some s \<Longrightarrow> unat (s :: u32) = 2 * ceil_half (unat w)"
  by (simp add: rust_arith unat_div_ceil_2)

lemma unat_div_ceil_ucast: "unat (div_ceil (ucast (h :: u32) :: u64) 2) = ceil_half (unat h)"
  using unat_div_ceil [of "2 :: u64" "ucast h"] by (simp add: ceil_half_def unat_ucast_up)

lemma frame_bytes_covers:
  assumes s: "row_stride f w = Some s" and m: "unpadded_frame_bytes f w h = Some m"
    and n: "frame_bytes f (ucast s) (ucast h) = Some n"
  shows "unat m \<le> unat n \<and> (f \<in> single_plane_strided \<or> even (unat w) \<longrightarrow> unat m = unat n)"
proof (cases "f \<in> single_plane_strided")
  case True
  then have one: "plane_count f = 1" by (auto simp: single_plane_strided_def plane_count_def)
  have "unat s = stride_nat f 0 (unat w)"
    using s True by (auto simp: row_stride_def plane_stride_eq unat_of_nat split: if_splits)
  moreover have "unat n = unat s * unat h"
    using n True by (auto simp: frame_bytes_def rust_arith unat_ucast_up split: Option.bind_splits)
  ultimately show ?thesis
    using unat_unpadded_frame_bytes [OF m] one
    by (simp add: bytes_nat_def rows_nat_def is_full_resolution_plane_def)
next
  case False
  then have f: "f = Nv12 \<or> f = I420" using s by (auto simp: row_stride_def split: if_splits)
  then have s': "unat s = 2 * ceil_half (unat w)"
    using s False by (auto simp: row_stride_def intro: unat_checked_mul_half)
  have "unat n = unat s * unat h + unat s * ceil_half (unat h)"
    using n False f
    by (auto simp: frame_bytes_def rust_arith unat_ucast_up unat_div_ceil_ucast split: Option.bind_splits)
  moreover have "unat m = unat w * unat h + 2 * ceil_half (unat w) * ceil_half (unat h)"
  proof -
    have "{..<2::nat} = {0, 1}" "{..<3::nat} = {0, 1, 2}" by auto
    then show ?thesis
      using unat_unpadded_frame_bytes [OF m] f
      by (auto simp: bytes_nat_def size_defs format_defs)
  qed
  moreover have "unat w \<le> 2 * ceil_half (unat w)" "even (unat w) \<Longrightarrow> unat w = 2 * ceil_half (unat w)"
    by (simp_all add: ceil_half_def)
  ultimately show ?thesis using False s' by simp
qed

section \<open>Properties\<close>

text \<open>
  The planes of a frame tile it: each plane starts where the previous ones end, the last one
  ends at the frame size, and all of it is exact 64-bit arithmetic.
\<close>

theorem planes_tile_frame:
  assumes "unpadded_frame_bytes f w h = Some n" and "p < plane_count f"
  shows "\<exists>off b. plane_offset f p w h = Some off \<and> plane_bytes f p w h = Some b \<and>
    unat off = (\<Sum>q < p. bytes_nat f q (unat w) (unat h)) \<and>
    unat off + unat b \<le> unat n \<and>
    (Suc p = plane_count f \<longrightarrow> unat off + unat b = unat n) \<and>
    (Suc p < plane_count f \<longrightarrow> plane_offset f (Suc p) w h = Some (off + b))"
proof -
  let ?b = "\<lambda>q. bytes_nat f q (unat w) (unat h)"
  obtain off b where ob: "plane_offset f p w h = Some off" "plane_bytes f p w h = Some b"
    using unpadded_frame_bytes_planes [OF assms] by blast
  have u: "unat off = (\<Sum>q < p. ?b q)" "unat b = ?b p" "unat n = (\<Sum>q < plane_count f. ?b q)"
    using unat_plane_offset [OF ob(1)] unat_plane_bytes [OF ob(2)] unat_unpadded_frame_bytes [OF assms(1)] .
  have "(\<Sum>q < Suc p. ?b q) \<le> (\<Sum>q < plane_count f. ?b q)"
    by (rule sum_mono2) (use assms(2) in auto)
  then have fits: "unat off + unat b \<le> unat n" using u by simp
  have last_plane: "unat off + unat b = unat n" if "Suc p = plane_count f"
    using u unfolding that [symmetric] by simp
  have next_plane: "plane_offset f (Suc p) w h = Some (off + b)" if s: "Suc p < plane_count f"
  proof -
    obtain off' where "plane_offset f (Suc p) w h = Some off'"
      using unpadded_frame_bytes_planes [OF assms(1) s] by blast
    then show ?thesis using plane_offset_Suc [OF s, of w h] ob by (auto simp: checked_add_def split: if_splits)
  qed
  show ?thesis using ob u(1) fits last_plane next_plane by blast
qed

theorem planes_tile_frame_witness:
  "unpadded_frame_bytes I420 5 3 = Some 27 \<and>
   (\<exists>off b. plane_offset I420 2 5 3 = Some off \<and> plane_bytes I420 2 5 3 = Some b \<and> unat off + unat b = unat (27 :: u64))"
proof
  show n: "unpadded_frame_bytes I420 5 3 = Some 27"
    by code_simp
  have "2 < plane_count I420" "Suc 2 = plane_count I420" by code_simp+
  then show "\<exists>off b. plane_offset I420 2 5 3 = Some off \<and> plane_bytes I420 2 5 3 = Some b \<and>
      unat off + unat b = unat (27 :: u64)"
    using planes_tile_frame [OF n] by blast
qed

text \<open>No supported picture up to 2 to the 30 on a side makes the size computation overflow.\<close>

theorem frame_size_total:
  assumes "unat w < 2 ^ 30" "unat h < 2 ^ 30"
  shows "\<exists>n. unpadded_frame_bytes f w h = Some n \<and>
    unat n = (\<Sum>q < plane_count f. bytes_nat f q (unat w) (unat h))"
  using unpadded_frame_bytes_total [OF assms] unat_unpadded_frame_bytes by blast

theorem frame_size_total_witness:
  "\<exists>n. unpadded_frame_bytes P010 7680 4320 = Some n \<and>
    unat n = (\<Sum>q < plane_count P010. bytes_nat P010 q (unat (7680 :: u32)) (unat (4320 :: u32)))"
  by (rule frame_size_total) simp_all

text \<open>
  A buffer sized from the row stride holds every plane of the picture, and for the formats
  with one strided plane or an even width it holds nothing else.
\<close>

theorem frame_buffer_holds_planes:
  assumes "row_stride f w = Some s" "unpadded_frame_bytes f w h = Some m" "frame_bytes f (ucast s) (ucast h) = Some n"
  shows "unat m \<le> unat n \<and> (f \<in> single_plane_strided \<or> even (unat w) \<longrightarrow> unat m = unat n)"
  by (rule frame_bytes_covers [OF assms])

theorem frame_buffer_holds_planes_witness: "unat (27 :: u64) \<le> unat (30 :: u64)"
proof -
  have "row_stride I420 5 = Some 6" "unpadded_frame_bytes I420 5 3 = Some 27"
    "frame_bytes I420 (ucast (6 :: u32)) (ucast (3 :: u32)) = Some 30" by code_simp+
  from frame_buffer_holds_planes [OF this] show ?thesis by (rule conjunct1)
qed

end
