(* ===== verification/Spsc.thy ===== *)
theory Spsc
  imports G2G_Prelude
begin

text \<open>
  The single-producer single-consumer capture ring (\<^verbatim>\<open>spsc.rs\<close>): an interrupt handler fills slots, the
  pipeline drains them. First the operations as the source has them, one call at a time, with the contract
  of a bounded queue; then the two contexts in parallel, one atomic access per step, where an acquire load
  of the other side's cursor may return any value not older than the last one it saw.
\<close>

section \<open>The ring and its operations\<close>

type_synonym frame_bytes = "u8 list"

datatype overrun = Overrun

record ring =
  r_slots :: "frame_bytes list"
  r_head :: nat
  r_tail :: nat
  r_overruns :: u32

definition ring_new :: "nat \<Rightarrow> nat \<Rightarrow> ring" where
  "ring_new n bytes = \<lparr>r_slots = replicate n (replicate bytes 0), r_head = 0, r_tail = 0, r_overruns = 0\<rparr>"

definition ring_capacity :: "ring \<Rightarrow> nat" where
  "ring_capacity r = length (r_slots r)"

definition ring_is_empty :: "ring \<Rightarrow> bool" where
  "ring_is_empty r \<longleftrightarrow> r_head r = r_tail r"

definition ring_wrap :: "nat \<Rightarrow> nat \<Rightarrow> nat" where
  "ring_wrap n i = (if i + 1 \<ge> n then 0 else i + 1)"

definition ring_produce :: "(frame_bytes \<Rightarrow> frame_bytes) \<Rightarrow> ring \<Rightarrow> (overrun + unit) \<times> ring" where
  "ring_produce fill r =
     (let tail = r_tail r; next = ring_wrap (ring_capacity r) tail in
      if next = r_head r then (Inl Overrun, r\<lparr>r_overruns := r_overruns r + 1\<rparr>)
      else
        (case get (r_slots r) tail of
           None \<Rightarrow> (Inl Overrun, r)
         | Some cell \<Rightarrow> (Inr (), r\<lparr>r_slots := (r_slots r)[tail := fill cell], r_tail := next\<rparr>)))"

definition ring_borrow :: "ring \<Rightarrow> frame_bytes option" where
  "ring_borrow r =
     (let head = r_head r in
      if head = r_tail r then None else get (r_slots r) head)"

definition ring_release :: "ring \<Rightarrow> ring" where
  "ring_release r =
     (let head = r_head r in
      if head \<noteq> r_tail r then r\<lparr>r_head := ring_wrap (ring_capacity r) head\<rparr> else r)"

section \<open>The capture source\<close>

record capture_src =
  cs_frame_interval_ns :: u64
  cs_remaining :: "u32 option"
  cs_seq :: u64
  cs_holding :: bool

record capture_frame =
  cf_bytes :: frame_bytes
  cf_pts_ns :: u64
  cf_sequence :: u64

definition capture_src_new :: "u64 \<Rightarrow> capture_src" where
  "capture_src_new interval =
     \<lparr>cs_frame_interval_ns = interval, cs_remaining = None, cs_seq = 0, cs_holding = False\<rparr>"

definition with_frame_limit :: "u32 \<Rightarrow> capture_src \<Rightarrow> capture_src" where
  "with_frame_limit frames src = src\<lparr>cs_remaining := Some frames\<rparr>"

definition capture_reclaim :: "capture_src \<times> ring \<Rightarrow> capture_src \<times> ring" where
  "capture_reclaim p =
     (case p of (src, r) \<Rightarrow> if cs_holding src then (src\<lparr>cs_holding := False\<rparr>, ring_release r) else (src, r))"

text \<open>
  The waiting loop of \<^verbatim>\<open>next\<close>. What happens to the ring while the source idles is a parameter, the ring as
  a function of the number of idle calls so far; the fuel bounds that number.
\<close>

fun capture_wait ::
  "nat \<Rightarrow> (nat \<Rightarrow> ring \<Rightarrow> ring) \<Rightarrow> nat \<Rightarrow> capture_src \<Rightarrow> ring \<Rightarrow> (capture_frame \<times> capture_src \<times> ring) option" where
  "capture_wait fuel idle k src r =
     (case ring_borrow r of
        Some bytes \<Rightarrow>
          Some (\<lparr>cf_bytes = bytes, cf_pts_ns = saturating_mul (cs_seq src) (cs_frame_interval_ns src),
                 cf_sequence = cs_seq src\<rparr>,
                src\<lparr>cs_holding := True, cs_seq := cs_seq src + 1\<rparr>, r)
      | None \<Rightarrow> (case fuel of 0 \<Rightarrow> None | Suc fuel \<Rightarrow> capture_wait fuel idle (Suc k) src (idle k r)))"

declare capture_wait.simps [simp del]

definition capture_next ::
  "nat \<Rightarrow> (nat \<Rightarrow> ring \<Rightarrow> ring) \<Rightarrow> capture_src \<Rightarrow> ring \<Rightarrow> (capture_frame option \<times> capture_src \<times> ring) option" where
  "capture_next fuel idle src r =
     (let (src, r) = capture_reclaim (src, r) in
      case cs_remaining src of
        Some n \<Rightarrow>
          if n = 0 then Some (None, src, r)
          else map_option (\<lambda>(f, s, r). (Some f, s, r)) (capture_wait fuel idle 0 (src\<lparr>cs_remaining := Some (n - 1)\<rparr>) r)
      | None \<Rightarrow> map_option (\<lambda>(f, s, r). (Some f, s, r)) (capture_wait fuel idle 0 src r))"

text \<open>The bounded drain of \<^verbatim>\<open>recover\<close>, after the held slot has been given up.\<close>

fun drain :: "nat \<Rightarrow> ring \<Rightarrow> ring" where
  "drain 0 r = r"
| "drain (Suc k) r = (if ring_is_empty r then r else drain k (ring_release r))"

definition capture_recover :: "capture_src \<Rightarrow> ring \<Rightarrow> capture_src \<times> ring" where
  "capture_recover src r =
     (let (src, r) = capture_reclaim (src, r) in (src, drain (ring_capacity r) r))"

section \<open>The contract of a bounded queue\<close>

text \<open>
  What a queue that overwrites nothing promises, over an abstraction to a list: an insertion appends or,
  exactly when the queue is full, changes nothing; the oldest element can be looked at and discarded.
\<close>

locale bounded_queue =
  fixes inv :: "'s \<Rightarrow> bool" and contents :: "'s \<Rightarrow> 'a list" and room :: "'s \<Rightarrow> nat"
    and push :: "'a \<Rightarrow> 's \<Rightarrow> 's" and peek :: "'s \<Rightarrow> 'a option" and pop :: "'s \<Rightarrow> 's"
  assumes push_inv: "inv s \<Longrightarrow> inv (push x s)" and pop_inv: "inv s \<Longrightarrow> inv (pop s)"
    and push_room: "inv s \<Longrightarrow> room (push x s) = room s" and pop_room: "inv s \<Longrightarrow> room (pop s) = room s"
    and push_contents:
      "inv s \<Longrightarrow> contents (push x s) = (if length (contents s) < room s then contents s @ [x] else contents s)"
    and peek_contents: "inv s \<Longrightarrow> peek s = (case contents s of [] \<Rightarrow> None | x # _ \<Rightarrow> Some x)"
    and pop_contents: "inv s \<Longrightarrow> contents (pop s) = tl (contents s)"
begin

fun run_ops :: "'a option list \<Rightarrow> 's \<Rightarrow> 'a option list \<times> 's" where
  "run_ops [] s = ([], s)"
| "run_ops (Some x # cmds) s = run_ops cmds (push x s)"
| "run_ops (None # cmds) s = (let (outs, t) = run_ops cmds (pop s) in (peek s # outs, t))"

fun spec_ops :: "nat \<Rightarrow> 'a option list \<Rightarrow> 'a list \<Rightarrow> 'a option list \<times> 'a list" where
  "spec_ops n [] q = ([], q)"
| "spec_ops n (Some x # cmds) q = spec_ops n cmds (if length q < n then q @ [x] else q)"
| "spec_ops n (None # cmds) q =
     (let (outs, t) = spec_ops n cmds (tl q) in ((case q of [] \<Rightarrow> None | x # _ \<Rightarrow> Some x) # outs, t))"

lemma run_ops_refines:
  "inv s \<Longrightarrow> inv (snd (run_ops cmds s)) \<and>
    (fst (run_ops cmds s), contents (snd (run_ops cmds s))) = spec_ops (room s) cmds (contents s)"
proof (induction cmds s rule: run_ops.induct)
  case (1 s)
  then show ?case by simp
next
  case (2 x cmds s)
  then show ?case by (simp add: push_inv push_contents push_room)
next
  case (3 cmds s)
  then have "inv (snd (run_ops cmds (pop s)))"
    "(fst (run_ops cmds (pop s)), contents (snd (run_ops cmds (pop s)))) = spec_ops (room s) cmds (tl (contents s))"
    by (simp_all add: pop_inv pop_contents pop_room)
  then show ?case using 3 by (simp add: peek_contents split: prod.splits) (metis fst_conv snd_conv)
qed

lemma room_bound: "inv s \<Longrightarrow> length (contents s) \<le> room s \<Longrightarrow> length (contents (push x s)) \<le> room (push x s)"
  by (simp add: push_contents push_room)

end

section \<open>The ring is a bounded queue\<close>

definition ring_wf :: "ring \<Rightarrow> bool" where
  "ring_wf r \<longleftrightarrow> 2 \<le> ring_capacity r \<and> r_head r < ring_capacity r \<and> r_tail r < ring_capacity r"

definition ring_count :: "ring \<Rightarrow> nat" where
  "ring_count r = (r_tail r + ring_capacity r - r_head r) mod ring_capacity r"

definition ring_contents :: "ring \<Rightarrow> frame_bytes list" where
  "ring_contents r = map (\<lambda>k. r_slots r ! ((r_head r + k) mod ring_capacity r)) [0..<ring_count r]"

lemma ring_new_wf: "2 \<le> n \<Longrightarrow> ring_wf (ring_new n bytes) \<and> ring_contents (ring_new n bytes) = []"
  by (simp add: ring_wf_def ring_new_def ring_capacity_def ring_contents_def ring_count_def)

lemma ring_wrap_mod: "i < n \<Longrightarrow> ring_wrap n i = Suc i mod n"
  by (auto simp: ring_wrap_def mod_Suc)

lemma ring_count_less: "ring_wf r \<Longrightarrow> ring_count r < ring_capacity r"
  by (simp add: ring_count_def ring_wf_def)

lemma ring_count_0: "ring_wf r \<Longrightarrow> ring_count r = 0 \<longleftrightarrow> r_head r = r_tail r"
  unfolding ring_count_def ring_wf_def by (cases "r_head r \<le> r_tail r") (auto simp: le_mod_geq mod_if)

lemma count_full:
  assumes "h < n" "t < n" "2 \<le> (n :: nat)"
  shows "ring_wrap n t = h \<longleftrightarrow> (t + n - h) mod n = n - 1"
  using assms unfolding ring_wrap_def by (cases "h \<le> t") (auto simp: mod_if)

lemma count_push:
  assumes "h < n" "t < n" "2 \<le> (n :: nat)" "ring_wrap n t \<noteq> h"
  shows "(ring_wrap n t + n - h) mod n = Suc ((t + n - h) mod n)"
  using assms unfolding ring_wrap_def by (cases "h \<le> t") (auto simp: mod_if)

lemma count_pop:
  assumes "h < n" "t < n" "2 \<le> (n :: nat)" "h \<noteq> t"
  shows "Suc ((t + n - ring_wrap n h) mod n) = (t + n - h) mod n"
  using assms unfolding ring_wrap_def by (cases "h \<le> t") (auto simp: mod_if)

lemma tail_slot:
  assumes "h < n" "t < n" shows "(h + (t + n - h) mod n) mod n = (t :: nat)"
  using assms by (cases "h \<le> t") (auto simp: mod_if)

lemma slot_inj:
  assumes "a < n" "b < (n :: nat)" "(h + a) mod n = (h + b) mod n"
  shows "a = b"
proof -
  have dvd_less: "y = 0" if "n dvd y" "y < n" for y using that by (auto dest: dvd_imp_le)
  show ?thesis
  proof (cases "a \<le> b")
    case True
    then have "n dvd b - a" using assms(3) mod_eq_dvd_iff_nat [of "h + a" "h + b" n] by simp
    then show ?thesis using dvd_less [of "b - a"] assms(2) True by linarith
  next
    case False
    then have "n dvd a - b" using assms(3) mod_eq_dvd_iff_nat [of "h + b" "h + a" n] by simp
    then show ?thesis using dvd_less [of "a - b"] assms(1) False by linarith
  qed
qed

lemma ring_head_release [simp]:
  "ring_capacity (ring_release r) = ring_capacity r" "ring_capacity (snd (ring_produce fill r)) = ring_capacity r"
  by (simp_all add: ring_release_def ring_produce_def ring_capacity_def Let_def split: option.split)

lemma ring_release_wf: "ring_wf r \<Longrightarrow> ring_wf (ring_release r)"
  by (auto simp: ring_wf_def ring_release_def ring_capacity_def ring_wrap_def Let_def)

lemma ring_produce_wf: "ring_wf r \<Longrightarrow> ring_wf (snd (ring_produce fill r))"
  by (auto simp: ring_wf_def ring_produce_def ring_capacity_def ring_wrap_def Let_def split: option.split)

lemma ring_full:
  "ring_wf r \<Longrightarrow> ring_wrap (ring_capacity r) (r_tail r) = r_head r \<longleftrightarrow> \<not> ring_count r < ring_capacity r - 1"
  using count_full [of "r_head r" "ring_capacity r" "r_tail r"] ring_count_less [of r]
  unfolding ring_wf_def ring_count_def by linarith

lemma ring_produce_contents:
  assumes "ring_wf r"
  shows "if ring_count r < ring_capacity r - 1
    then fst (ring_produce fill r) = Inr () \<and>
      ring_contents (snd (ring_produce fill r)) = ring_contents r @ [fill (r_slots r ! r_tail r)]
    else ring_produce fill r = (Inl Overrun, r\<lparr>r_overruns := r_overruns r + 1\<rparr>)"
proof (cases "ring_count r < ring_capacity r - 1")
  case False
  then show ?thesis using ring_full [OF assms] by (simp add: ring_produce_def Let_def)
next
  case True
  let ?n = "ring_capacity r" and ?h = "r_head r" and ?t = "r_tail r"
  have wf: "?h < ?n" "?t < ?n" "2 \<le> ?n" using assms by (simp_all add: ring_wf_def)
  have ne: "ring_wrap ?n ?t \<noteq> ?h" using True ring_full [OF assms] by simp
  have new: "ring_produce fill r =
    (Inr (), r\<lparr>r_slots := (r_slots r)[?t := fill (r_slots r ! ?t)], r_tail := ring_wrap ?n ?t\<rparr>)"
    using ne wf by (simp add: ring_produce_def Let_def get_def ring_capacity_def)
  have count: "ring_count (snd (ring_produce fill r)) = Suc (ring_count r)"
    using count_push [OF wf ne] by (simp add: new ring_count_def ring_capacity_def)
  have old: "(?h + k) mod ?n \<noteq> ?t" if "k < ring_count r" for k
  proof
    assume "(?h + k) mod ?n = ?t"
    then have "(?h + k) mod ?n = (?h + ring_count r) mod ?n" using tail_slot [OF wf(1,2)] by (simp add: ring_count_def)
    then show False using slot_inj [of k ?n "ring_count r" ?h] that ring_count_less [OF assms] by simp
  qed
  have at_tail: "(?h + ring_count r) mod ?n = ?t" using tail_slot [OF wf(1,2)] by (simp add: ring_count_def)
  have "ring_contents (snd (ring_produce fill r)) =
    map (\<lambda>k. (r_slots r)[?t := fill (r_slots r ! ?t)] ! ((?h + k) mod ?n)) [0..<Suc (ring_count r)]"
    unfolding ring_contents_def count by (simp add: new ring_capacity_def)
  also have "\<dots> = ring_contents r @ [fill (r_slots r ! ?t)]"
    using old [THEN not_sym] at_tail wf(2) by (simp add: ring_contents_def ring_capacity_def)
  finally show ?thesis using True by (simp add: new)
qed

lemma ring_borrow_contents:
  assumes "ring_wf r"
  shows "ring_borrow r = (case ring_contents r of [] \<Rightarrow> None | x # _ \<Rightarrow> Some x)"
proof (cases "ring_count r")
  case 0
  then show ?thesis using ring_count_0 [OF assms] by (simp add: ring_borrow_def ring_contents_def)
next
  case (Suc k)
  then have "ring_contents r \<noteq> []" "hd (ring_contents r) = r_slots r ! (r_head r mod ring_capacity r)"
    by (simp_all add: ring_contents_def hd_map upt_rec)
  then show ?thesis using Suc ring_count_0 [OF assms] assms
    by (auto simp: ring_borrow_def ring_wf_def ring_capacity_def get_def split: list.split)
qed

lemma ring_release_contents:
  assumes "ring_wf r"
  shows "ring_contents (ring_release r) = tl (ring_contents r)"
proof (cases "r_head r = r_tail r")
  case True
  then show ?thesis using ring_count_0 [OF assms] by (simp add: ring_release_def ring_contents_def)
next
  case False
  let ?n = "ring_capacity r" and ?h = "r_head r"
  have wf: "?h < ?n" "r_tail r < ?n" "2 \<le> ?n" using assms by (simp_all add: ring_wf_def)
  have count: "ring_count r = Suc (ring_count (ring_release r))"
    using count_pop [OF wf False] False by (simp add: ring_release_def ring_count_def ring_capacity_def Let_def)
  have head: "r_head (ring_release r) = Suc ?h mod ?n" "r_slots (ring_release r) = r_slots r"
    using False ring_wrap_mod [OF wf(1)] by (simp_all add: ring_release_def Let_def)
  have "(Suc ?h mod ?n + k) mod ?n = (?h + Suc k) mod ?n" for k by (simp add: mod_simps)
  then show ?thesis by (simp add: ring_contents_def count head map_upt_Suc del: upt_Suc)
qed

definition ring_push :: "frame_bytes \<Rightarrow> ring \<Rightarrow> ring" where
  "ring_push f r = snd (ring_produce (\<lambda>_. f) r)"

definition ring_room :: "ring \<Rightarrow> nat" where
  "ring_room r = ring_capacity r - 1"

lemma length_ring_contents: "length (ring_contents r) = ring_count r"
  by (simp add: ring_contents_def)

lemma ring_contents_overruns [simp]: "ring_contents (r\<lparr>r_overruns := n\<rparr>) = ring_contents r"
  by (simp add: ring_contents_def ring_count_def ring_capacity_def)

interpretation capture_ring: bounded_queue ring_wf ring_contents ring_room ring_push ring_borrow ring_release
proof
  fix s x
  assume wf: "ring_wf s"
  show "ring_wf (ring_push x s)" "ring_wf (ring_release s)"
    using wf by (simp_all add: ring_push_def ring_produce_wf ring_release_wf)
  show "ring_room (ring_push x s) = ring_room s" "ring_room (ring_release s) = ring_room s"
    by (simp_all add: ring_room_def ring_push_def)
  show "ring_contents (ring_push x s) =
    (if length (ring_contents s) < ring_room s then ring_contents s @ [x] else ring_contents s)"
    using ring_produce_contents [OF wf, of "\<lambda>_. x"]
    by (auto simp: ring_push_def ring_room_def length_ring_contents split: if_splits)
  show "ring_borrow s = (case ring_contents s of [] \<Rightarrow> None | x # _ \<Rightarrow> Some x)"
    by (rule ring_borrow_contents [OF wf])
  show "ring_contents (ring_release s) = tl (ring_contents s)" by (rule ring_release_contents [OF wf])
qed

section \<open>The source delivers the oldest frame\<close>

lemma ring_is_empty_contents: "ring_wf r \<Longrightarrow> ring_is_empty r \<longleftrightarrow> ring_contents r = []"
  using ring_count_0 [of r] length_ring_contents [of r] by (auto simp: ring_is_empty_def)

lemma drain_contents: "ring_wf r \<Longrightarrow> ring_wf (drain k r) \<and> ring_contents (drain k r) = drop k (ring_contents r)"
proof (induction k arbitrary: r)
  case 0
  then show ?case by simp
next
  case (Suc k)
  then show ?case
    by (cases "ring_contents r") (simp_all add: ring_is_empty_contents ring_release_wf ring_release_contents)
qed

lemma capture_reclaim_wf: "ring_wf r \<Longrightarrow> capture_reclaim (src, r) = (src', r') \<Longrightarrow> ring_wf r' \<and> ring_capacity r' = ring_capacity r"
  by (auto simp: capture_reclaim_def ring_release_wf split: if_splits)

text \<open>The ring after the first \<open>j\<close> idle calls, counted from call \<open>k\<close>.\<close>

primrec idled :: "(nat \<Rightarrow> ring \<Rightarrow> ring) \<Rightarrow> nat \<Rightarrow> nat \<Rightarrow> ring \<Rightarrow> ring" where
  "idled idle k 0 r = r"
| "idled idle k (Suc j) r = idled idle (Suc k) j (idle k r)"

lemma capture_wait_first:
  assumes "\<forall>i < j. ring_borrow (idled idle k i r) = None" "ring_borrow (idled idle k j r) = Some bytes" "j \<le> fuel"
  shows "capture_wait fuel idle k src r =
    Some (\<lparr>cf_bytes = bytes, cf_pts_ns = saturating_mul (cs_seq src) (cs_frame_interval_ns src), cf_sequence = cs_seq src\<rparr>,
      src\<lparr>cs_holding := True, cs_seq := cs_seq src + 1\<rparr>, idled idle k j r)"
  using assms
proof (induction j arbitrary: fuel k r)
  case 0
  then show ?case by (simp add: capture_wait.simps [of fuel])
next
  case (Suc j)
  from Suc.prems(3) obtain fuel' where fuel: "fuel = Suc fuel'" "j \<le> fuel'" by (cases fuel) auto
  have "\<forall>i < j. ring_borrow (idled idle (Suc k) i (idle k r)) = None" using Suc.prems(1) by auto
  moreover have "ring_borrow r = None" using Suc.prems(1) by auto
  ultimately show ?case using Suc.IH [of "Suc k" "idle k r" fuel'] Suc.prems(2) fuel by (simp add: capture_wait.simps [of "Suc fuel'"])
qed

text \<open>
  As soon as a frame is published, a capture source that is within its limit returns: the oldest
  frame of the ring, stamped with the frame number times the interval, after it has given the slot of the
  previous frame back. The fuel is the number of idle calls until then, so the loop needs no more.
\<close>

theorem capture_next_live:
  assumes "ring_wf r" and "cs_remaining src \<noteq> Some 0" and "capture_reclaim (src, r) = (src', r')"
    and "\<forall>i < j. ring_contents (idled idle 0 i r') = []" and "ring_contents (idled idle 0 j r') = f # fs"
    and "\<And>k r. ring_wf r \<Longrightarrow> ring_wf (idle k r)" and "j \<le> fuel"
  shows "\<exists>src''. capture_next fuel idle src r =
      Some (Some \<lparr>cf_bytes = f, cf_pts_ns = saturating_mul (cs_seq src) (cs_frame_interval_ns src), cf_sequence = cs_seq src\<rparr>,
        src'', idled idle 0 j r') \<and>
    cs_holding src'' \<and> cs_seq src'' = cs_seq src + 1 \<and>
    ring_contents r' = (if cs_holding src then tl (ring_contents r) else ring_contents r)"
proof -
  have idle_wf: "ring_wf (idled idle k i x)" if "ring_wf x" for k i x
    using that by (induction i arbitrary: k x) (simp_all add: assms(6))
  have wf: "ring_wf r'" using capture_reclaim_wf [OF assms(1,3)] ..
  have none: "\<forall>i < j. ring_borrow (idled idle 0 i r') = None"
    using assms(4) by (simp add: ring_borrow_contents [OF idle_wf [OF wf]])
  have some: "ring_borrow (idled idle 0 j r') = Some f"
    using assms(5) by (simp add: ring_borrow_contents [OF idle_wf [OF wf]])
  have src': "cs_seq src' = cs_seq src" "cs_frame_interval_ns src' = cs_frame_interval_ns src" "cs_remaining src' = cs_remaining src"
    "ring_contents r' = (if cs_holding src then tl (ring_contents r) else ring_contents r)"
    using assms(1,3) by (auto simp: capture_reclaim_def ring_release_contents split: if_splits)
  show ?thesis
    using assms(2,3) src' by (cases "cs_remaining src") (simp_all add: capture_next_def Let_def capture_wait_first [OF none some assms(7)])
qed

theorem capture_next_live_witness:
  "\<exists>src r. capture_next 1 (\<lambda>_. ring_push [7]) (capture_src_new 40) (ring_new 3 1) =
    Some (Some \<lparr>cf_bytes = [7], cf_pts_ns = saturating_mul 0 40, cf_sequence = 0\<rparr>, src, r)"
proof -
  have wf: "ring_wf (ring_new 3 1)" using ring_new_wf by simp
  have new: "capture_reclaim (capture_src_new 40, ring_new 3 1) = (capture_src_new 40, ring_new 3 1)"
    by (simp add: capture_reclaim_def capture_src_new_def)
  have contents: "ring_contents (ring_new 3 1) = []" "ring_contents (ring_push [7] (ring_new 3 1)) = [[7]]"
    by code_simp+
  have "\<exists>src''. capture_next 1 (\<lambda>_. ring_push [7]) (capture_src_new 40) (ring_new 3 1) =
      Some (Some \<lparr>cf_bytes = [7], cf_pts_ns = saturating_mul (cs_seq (capture_src_new 40)) (cs_frame_interval_ns (capture_src_new 40)),
        cf_sequence = cs_seq (capture_src_new 40)\<rparr>, src'', idled (\<lambda>_. ring_push [7]) 0 1 (ring_new 3 1)) \<and>
    cs_holding src'' \<and> cs_seq src'' = cs_seq (capture_src_new 40) + 1 \<and>
    ring_contents (ring_new 3 1) = (if cs_holding (capture_src_new 40) then tl (ring_contents (ring_new 3 1)) else ring_contents (ring_new 3 1))"
    by (rule capture_next_live [where fs = "[]", OF wf _ new]) (simp_all add: contents [simplified] capture_ring.push_inv, simp add: capture_src_new_def)
  then show ?thesis by (auto simp: capture_src_new_def)
qed

text \<open>
  C30. Any sequence of insertions and removals on a ring gives what the same sequence gives on a list of
  bounded length: an insertion into a full ring drops the new frame, a removal returns the oldest.
\<close>

theorem ring_refines_queue:
  assumes "2 \<le> n"
  shows "fst (capture_ring.run_ops cmds (ring_new n bytes)) = fst (capture_ring.spec_ops (n - 1) cmds [])"
proof -
  have wf: "ring_wf (ring_new n bytes)" "ring_contents (ring_new n bytes) = []" using ring_new_wf [OF assms] by simp_all
  have "ring_room (ring_new n bytes) = n - 1" by (simp add: ring_room_def ring_new_def ring_capacity_def)
  then show ?thesis using capture_ring.run_ops_refines [OF wf(1), of cmds] wf(2) by (metis fst_conv)
qed

theorem ring_refines_queue_witness:
  "fst (capture_ring.run_ops [Some [1], Some [2], Some [3], None, None, None] (ring_new 3 1)) = [Some [1], Some [2], None]"
proof -
  have "2 \<le> (3 :: nat)" by simp
  from ring_refines_queue [OF this, of "[Some [1], Some [2], Some [3], None, None, None]" 1] show ?thesis by simp
qed

text \<open>
  Releasing without a borrowed frame is not always without effect: on a ring that holds a frame
  nobody has borrowed, it discards the frame.
\<close>

theorem release_discards_unborrowed:
  "ring_borrow (snd (ring_produce (\<lambda>_. [7]) (ring_new 3 1))) = Some [7] \<and>
   ring_borrow (ring_release (snd (ring_produce (\<lambda>_. [7]) (ring_new 3 1)))) = None"
  by code_simp

end
