(* ===== verification/SpscConc.thy ===== *)
theory SpscConc
  imports Spsc
begin

text \<open>
  The capture ring under concurrency: producer and consumer of \<^verbatim>\<open>spsc.rs\<close> as two programs that interleave
  at their atomic accesses. Each cursor has a single writer; its modification order is kept as a list, the
  writer reads the newest value, and an acquire load of the other context may return any value that is not
  older than the one it saw last. The numbers of published, dropped and read frames are history variables.
\<close>

section \<open>The two programs\<close>

datatype prod_pc =
    P_Idle
  | P_Check "frame_bytes \<Rightarrow> frame_bytes" nat nat
  | P_Full
  | P_Fill "frame_bytes \<Rightarrow> frame_bytes" nat nat
  | P_Publish nat

datatype cons_pc =
    C_Idle
  | C_Check nat
  | C_Hold nat
  | C_Release nat
  | C_Advance nat

record conc =
  k_slots :: "frame_bytes list"
  k_heads :: "nat list"
  k_tails :: "nat list"
  k_overruns :: u32
  k_seen_head :: nat
  k_seen_tail :: nat
  k_prod :: prod_pc
  k_cons :: cons_pc
  k_published :: "frame_bytes list"
  k_dropped :: nat
  k_read :: "(nat \<times> frame_bytes) list"

definition conc_init :: "nat \<Rightarrow> nat \<Rightarrow> conc" where
  "conc_init n bytes =
     \<lparr>k_slots = r_slots (ring_new n bytes), k_heads = [r_head (ring_new n bytes)],
      k_tails = [r_tail (ring_new n bytes)], k_overruns = r_overruns (ring_new n bytes),
      k_seen_head = 0, k_seen_tail = 0, k_prod = P_Idle, k_cons = C_Idle,
      k_published = [], k_dropped = 0, k_read = []\<rparr>"

definition sees_head :: "conc \<Rightarrow> nat \<Rightarrow> bool" where
  "sees_head s j \<longleftrightarrow> k_seen_head s \<le> j \<and> j < length (k_heads s)"

definition sees_tail :: "conc \<Rightarrow> nat \<Rightarrow> bool" where
  "sees_tail s j \<longleftrightarrow> k_seen_tail s \<le> j \<and> j < length (k_tails s)"

text \<open>The accesses of \<^verbatim>\<open>produce\<close>.\<close>

inductive producer_step :: "conc \<Rightarrow> conc \<Rightarrow> bool" where
  load_tail: "k_prod s = P_Idle \<Longrightarrow> tail = last (k_tails s) \<Longrightarrow>
    producer_step s (s\<lparr>k_prod := P_Check fill tail (ring_wrap (length (k_slots s)) tail)\<rparr>)"
| ring_full: "k_prod s = P_Check fill tail next \<Longrightarrow> sees_head s j \<Longrightarrow> next = k_heads s ! j \<Longrightarrow>
    producer_step s (s\<lparr>k_prod := P_Full, k_seen_head := j\<rparr>)"
| count_overrun: "k_prod s = P_Full \<Longrightarrow>
    producer_step s (s\<lparr>k_prod := P_Idle, k_overruns := k_overruns s + 1, k_dropped := Suc (k_dropped s)\<rparr>)"
| bad_slot: "k_prod s = P_Check fill tail next \<Longrightarrow> sees_head s j \<Longrightarrow> next \<noteq> k_heads s ! j \<Longrightarrow>
    \<not> tail < length (k_slots s) \<Longrightarrow> producer_step s (s\<lparr>k_prod := P_Idle, k_seen_head := j\<rparr>)"
| slot_free: "k_prod s = P_Check fill tail next \<Longrightarrow> sees_head s j \<Longrightarrow> next \<noteq> k_heads s ! j \<Longrightarrow>
    tail < length (k_slots s) \<Longrightarrow> producer_step s (s\<lparr>k_prod := P_Fill fill tail next, k_seen_head := j\<rparr>)"
| fill_slot: "k_prod s = P_Fill fill tail next \<Longrightarrow>
    producer_step s (s\<lparr>k_prod := P_Publish next, k_slots := (k_slots s)[tail := fill (k_slots s ! tail)]\<rparr>)"
| store_tail: "k_prod s = P_Publish next \<Longrightarrow>
    producer_step s (s\<lparr>k_prod := P_Idle, k_tails := k_tails s @ [next],
      k_published := k_published s @ [k_slots s ! last (k_tails s)]\<rparr>)"

text \<open>The accesses of \<^verbatim>\<open>borrow\<close>, of reads through the lent slice, and of \<^verbatim>\<open>release\<close>.\<close>

inductive consumer_step :: "conc \<Rightarrow> conc \<Rightarrow> bool" where
  load_head: "k_cons s = C_Idle \<Longrightarrow> head = last (k_heads s) \<Longrightarrow> consumer_step s (s\<lparr>k_cons := C_Check head\<rparr>)"
| ring_empty: "k_cons s = C_Check head \<Longrightarrow> sees_tail s j \<Longrightarrow> head = k_tails s ! j \<Longrightarrow>
    consumer_step s (s\<lparr>k_cons := C_Idle, k_seen_tail := j\<rparr>)"
| bad_slot: "k_cons s = C_Check head \<Longrightarrow> sees_tail s j \<Longrightarrow> head \<noteq> k_tails s ! j \<Longrightarrow>
    \<not> head < length (k_slots s) \<Longrightarrow> consumer_step s (s\<lparr>k_cons := C_Idle, k_seen_tail := j\<rparr>)"
| lend: "k_cons s = C_Check head \<Longrightarrow> sees_tail s j \<Longrightarrow> head \<noteq> k_tails s ! j \<Longrightarrow>
    head < length (k_slots s) \<Longrightarrow> consumer_step s (s\<lparr>k_cons := C_Hold head, k_seen_tail := j\<rparr>)"
| read_slot: "k_cons s = C_Hold head \<Longrightarrow>
    consumer_step s (s\<lparr>k_read := k_read s @ [(length (k_heads s) - 1, k_slots s ! head)]\<rparr>)"
| begin_release: "k_cons s = C_Idle \<or> k_cons s = C_Hold h \<Longrightarrow> head = last (k_heads s) \<Longrightarrow>
    consumer_step s (s\<lparr>k_cons := C_Release head\<rparr>)"
| release_empty: "k_cons s = C_Release head \<Longrightarrow> sees_tail s j \<Longrightarrow> head = k_tails s ! j \<Longrightarrow>
    consumer_step s (s\<lparr>k_cons := C_Idle, k_seen_tail := j\<rparr>)"
| release_slot: "k_cons s = C_Release head \<Longrightarrow> sees_tail s j \<Longrightarrow> head \<noteq> k_tails s ! j \<Longrightarrow>
    consumer_step s (s\<lparr>k_cons := C_Advance head, k_seen_tail := j\<rparr>)"
| store_head: "k_cons s = C_Advance head \<Longrightarrow>
    consumer_step s (s\<lparr>k_cons := C_Idle, k_heads := k_heads s @ [ring_wrap (length (k_slots s)) head]\<rparr>)"

inductive spsc_reachable :: "nat \<Rightarrow> nat \<Rightarrow> conc \<Rightarrow> bool" for n bytes where
  init: "spsc_reachable n bytes (conc_init n bytes)"
| produce: "spsc_reachable n bytes s \<Longrightarrow> producer_step s t \<Longrightarrow> spsc_reachable n bytes t"
| consume: "spsc_reachable n bytes s \<Longrightarrow> consumer_step s t \<Longrightarrow> spsc_reachable n bytes t"

section \<open>The invariant\<close>

abbreviation consumed :: "conc \<Rightarrow> nat" where
  "consumed s \<equiv> length (k_heads s) - 1"

abbreviation produced :: "conc \<Rightarrow> nat" where
  "produced s \<equiv> length (k_tails s) - 1"

definition counts_up :: "nat \<Rightarrow> nat list \<Rightarrow> bool" where
  "counts_up n xs \<longleftrightarrow> xs \<noteq> [] \<and> (\<forall>i < length xs. xs ! i = i mod n)"

definition cursor_inv :: "nat \<Rightarrow> conc \<Rightarrow> bool" where
  "cursor_inv n s \<longleftrightarrow>
     2 \<le> n \<and> length (k_slots s) = n \<and> counts_up n (k_heads s) \<and> counts_up n (k_tails s) \<and>
     k_seen_head s \<le> consumed s \<and> consumed s \<le> k_seen_tail s \<and> k_seen_tail s \<le> produced s \<and>
     produced s < k_seen_head s + n"

fun prod_ok :: "nat \<Rightarrow> nat \<Rightarrow> nat \<Rightarrow> prod_pc \<Rightarrow> bool" where
  "prod_ok n p seen P_Idle \<longleftrightarrow> True"
| "prod_ok n p seen (P_Check _ tail next) \<longleftrightarrow> tail = p mod n \<and> next = Suc p mod n"
| "prod_ok n p seen P_Full \<longleftrightarrow> Suc p = seen + n"
| "prod_ok n p seen (P_Fill _ tail next) \<longleftrightarrow> tail = p mod n \<and> next = Suc p mod n \<and> Suc p < seen + n"
| "prod_ok n p seen (P_Publish next) \<longleftrightarrow> next = Suc p mod n \<and> Suc p < seen + n"

fun cons_ok :: "nat \<Rightarrow> nat \<Rightarrow> nat \<Rightarrow> cons_pc \<Rightarrow> bool" where
  "cons_ok n c seen C_Idle \<longleftrightarrow> True"
| "cons_ok n c seen (C_Check head) \<longleftrightarrow> head = c mod n"
| "cons_ok n c seen (C_Hold head) \<longleftrightarrow> head = c mod n \<and> c < seen"
| "cons_ok n c seen (C_Release head) \<longleftrightarrow> head = c mod n"
| "cons_ok n c seen (C_Advance head) \<longleftrightarrow> head = c mod n \<and> c < seen"

definition frames_inv :: "nat \<Rightarrow> conc \<Rightarrow> bool" where
  "frames_inv n s \<longleftrightarrow>
     length (k_published s) = produced s \<and>
     (\<forall>i. consumed s \<le> i \<and> i < produced s \<longrightarrow> k_slots s ! (i mod n) = k_published s ! i) \<and>
     sorted (map fst (k_read s)) \<and>
     (\<forall>(i, f) \<in> set (k_read s). i \<le> consumed s \<and> i < produced s \<and> f = k_published s ! i)"

definition spsc_inv :: "nat \<Rightarrow> conc \<Rightarrow> bool" where
  "spsc_inv n s \<longleftrightarrow>
     cursor_inv n s \<and> prod_ok n (produced s) (k_seen_head s) (k_prod s) \<and>
     cons_ok n (consumed s) (k_seen_tail s) (k_cons s) \<and> k_overruns s = of_nat (k_dropped s) \<and> frames_inv n s"

lemmas spsc_invs = spsc_inv_def cursor_inv_def frames_inv_def

lemma counts_up_last: "counts_up n xs \<Longrightarrow> last xs = (length xs - 1) mod n"
  by (simp add: counts_up_def last_conv_nth)

lemma counts_up_snoc: "counts_up n xs \<Longrightarrow> x = length xs mod n \<Longrightarrow> counts_up n (xs @ [x])"
  by (auto simp: counts_up_def nth_append less_Suc_eq)

lemma counts_up_nth: "counts_up n xs \<Longrightarrow> i < length xs \<Longrightarrow> xs ! i = i mod n"
  by (simp add: counts_up_def)

text \<open>Two counters less than a ring apart are equal as slots only if they are equal.\<close>

lemma mod_eq_close:
  assumes close: "a \<le> b" "b < a + n"
  shows "a mod n = b mod n \<longleftrightarrow> a = (b :: nat)"
proof
  assume "a mod n = b mod n"
  then have "0 = b - a" using close by (intro slot_inj [of 0 n "b - a" a]) simp_all
  then show "a = b" using close by simp
qed simp

lemma conc_init_inv: "2 \<le> n \<Longrightarrow> spsc_inv n (conc_init n bytes)"
  by (simp add: spsc_invs conc_init_def ring_new_def counts_up_def)

lemma sees_head_inv:
  assumes "spsc_inv n s" "sees_head s j"
  shows "k_heads s ! j = j mod n" "j \<le> consumed s" "consumed s \<le> produced s" "k_seen_head s \<le> j" "produced s < j + n"
  using assms counts_up_nth by (auto simp: spsc_invs sees_head_def)

lemma producer_step_inv:
  assumes "producer_step s t" "spsc_inv n s"
  shows "spsc_inv n t"
  using assms(1)
proof (cases rule: producer_step.cases)
  case (load_tail tail fill)
  have "tail = produced s mod n" "produced s mod n < n"
    using assms(2) load_tail(3) counts_up_last by (auto simp: spsc_invs)
  then show ?thesis using assms(2) unfolding load_tail(1) by (simp add: spsc_invs ring_wrap_mod mod_Suc_eq)
next
  case (ring_full fill tail "next" j)
  note seen = sees_head_inv [OF assms(2) ring_full(3)]
  have "\<not> Suc (produced s) < j + n"
    using mod_eq_close [of j "Suc (produced s)" n] seen ring_full(2,4) assms(2) by (auto simp: spsc_invs)
  then show ?thesis using seen assms(2) unfolding ring_full(1) by (simp add: spsc_invs)
next
  case count_overrun
  then show ?thesis using assms(2) unfolding count_overrun(1) by (simp add: spsc_invs)
next
  case (bad_slot fill tail "next" j)
  then show ?thesis using assms(2) unfolding bad_slot(1) by (simp add: spsc_invs sees_head_def)
next
  case (slot_free fill tail "next" j)
  note seen = sees_head_inv [OF assms(2) slot_free(3)]
  have "next = Suc (produced s) mod n" using assms(2) slot_free(2) by (simp add: spsc_invs)
  then have "Suc (produced s) \<noteq> j + n" using seen(1) slot_free(4) by auto
  then have "Suc (produced s) < j + n" using seen by linarith
  then show ?thesis using assms(2) slot_free(2) seen unfolding slot_free(1) by (simp add: spsc_invs)
next
  case (fill_slot fill tail "next")
  have inv: "tail = produced s mod n" "produced s < consumed s + n"
    using assms(2) fill_slot(2) by (auto simp: spsc_invs)
  have "tail \<noteq> i mod n" if "consumed s \<le> i" "i < produced s" for i
    using mod_eq_close [of i "produced s" n] that inv by simp
  then show ?thesis using assms(2) fill_slot(2) unfolding fill_slot(1) by (simp add: spsc_invs)
next
  case (store_tail "next")
  have inv: "length (k_published s) = produced s" "last (k_tails s) = produced s mod n" "k_tails s \<noteq> []"
    "next = Suc (produced s) mod n" "counts_up n (k_tails s)" "Suc (produced s) < k_seen_head s + n"
    using assms(2) store_tail(2) counts_up_last by (auto simp: spsc_invs counts_up_def)
  have len: "Suc (produced s) = length (k_tails s)" using inv(3) by (cases "k_tails s") simp_all
  have up: "counts_up n (k_tails s @ [next])" using inv(4,5) len by (simp add: counts_up_snoc)
  have slot: "k_slots s ! (i mod n) = (k_published s @ [k_slots s ! last (k_tails s)]) ! i"
    if "consumed s \<le> i" "i < Suc (produced s)" for i
  proof (cases "i = produced s")
    case True
    then show ?thesis using inv(1,2) by (metis nth_append_length)
  next
    case False
    then show ?thesis using that assms(2) inv(1) by (simp add: spsc_invs nth_append)
  qed
  have read: "i \<le> consumed s \<and> i < Suc (produced s) \<and> f = (k_published s @ [k_slots s ! last (k_tails s)]) ! i"
    if "(i, f) \<in> set (k_read s)" for i f
    using that assms(2) inv(1) by (force simp: spsc_invs nth_append)
  have "sorted (map fst (k_read s))" using assms(2) by (simp add: spsc_invs)
  then have frames: "frames_inv n t" unfolding frames_inv_def store_tail(1) using slot read inv(1) len by auto
  show ?thesis using assms(2) frames up inv(6) len unfolding spsc_inv_def store_tail(1) 
    by (simp add: cursor_inv_def)
qed

lemma sees_tail_inv:
  assumes "spsc_inv n s" "sees_tail s j"
  shows "k_tails s ! j = j mod n" "consumed s \<le> j" "j \<le> produced s" "k_seen_tail s \<le> j"
    "consumed s mod n = k_tails s ! j \<longleftrightarrow> consumed s = j"
proof -
  show seen: "k_tails s ! j = j mod n" "consumed s \<le> j" "j \<le> produced s" "k_seen_tail s \<le> j"
    using assms counts_up_nth by (auto simp: spsc_invs sees_tail_def)
  moreover have "j < consumed s + n" using assms(1) seen(3) by (simp add: spsc_invs)
  ultimately show "consumed s mod n = k_tails s ! j \<longleftrightarrow> consumed s = j" using mod_eq_close by simp
qed

lemma consumer_step_inv:
  assumes "consumer_step s t" "spsc_inv n s"
  shows "spsc_inv n t"
  using assms(1)
proof (cases rule: consumer_step.cases)
  case (load_head head)
  have "head = consumed s mod n" using assms(2) load_head(3) counts_up_last by (auto simp: spsc_invs)
  then show ?thesis using assms(2) unfolding load_head(1) by (simp add: spsc_invs)
next
  case (ring_empty head j)
  then show ?thesis using assms(2) sees_tail_inv(2-4) [OF assms(2) ring_empty(3)] unfolding ring_empty(1) by (simp add: spsc_invs)
next
  case (bad_slot head j)
  then show ?thesis using assms(2) sees_tail_inv(2-4) [OF assms(2) bad_slot(3)] unfolding bad_slot(1) by (simp add: spsc_invs)
next
  case (lend head j)
  note seen = sees_tail_inv [OF assms(2) lend(3)]
  have "head = consumed s mod n" using assms(2) lend(2) by (simp add: spsc_invs)
  moreover have "consumed s < j" using seen(2,5) lend(4) calculation by simp
  ultimately show ?thesis using assms(2) seen(3) unfolding lend(1) by (simp add: spsc_invs)
next
  case (read_slot head)
  have "head = consumed s mod n" "consumed s < produced s" using assms(2) read_slot(2) by (auto simp: spsc_invs)
  then have "k_slots s ! head = k_published s ! consumed s" using assms(2) by (simp add: spsc_invs)
  moreover have "\<forall>i \<in> fst ` set (k_read s). i \<le> consumed s" using assms(2) by (auto simp: spsc_invs)
  ultimately show ?thesis using assms(2) \<open>consumed s < produced s\<close> unfolding read_slot(1)
    by (simp add: spsc_invs sorted_append)
next
  case (begin_release h head)
  have "head = consumed s mod n" using assms(2) begin_release(3) counts_up_last by (auto simp: spsc_invs)
  then show ?thesis using assms(2) unfolding begin_release(1) by (simp add: spsc_invs)
next
  case (release_empty head j)
  then show ?thesis using assms(2) sees_tail_inv(2-4) [OF assms(2) release_empty(3)] unfolding release_empty(1) by (simp add: spsc_invs)
next
  case (release_slot head j)
  note seen = sees_tail_inv [OF assms(2) release_slot(3)]
  have "head = consumed s mod n" using assms(2) release_slot(2) by (simp add: spsc_invs)
  moreover have "consumed s < j" using seen(2,5) release_slot(4) calculation by simp
  ultimately show ?thesis using assms(2) seen(3) unfolding release_slot(1) by (simp add: spsc_invs)
next
  case (store_head head)
  have inv: "head = consumed s mod n" "consumed s < k_seen_tail s" "counts_up n (k_heads s)" "k_heads s \<noteq> []" "length (k_slots s) = n" "2 \<le> n"
    using assms(2) store_head(2) by (auto simp: spsc_invs counts_up_def)
  have len: "Suc (consumed s) = length (k_heads s)" using inv(4) by (cases "k_heads s") simp_all
  have "head < n" using inv by simp
  then have "ring_wrap n head = Suc (consumed s) mod n" by (simp add: ring_wrap_mod inv(1) mod_Suc_eq)
  then have "counts_up n (k_heads s @ [ring_wrap (length (k_slots s)) head])" using counts_up_snoc [OF inv(3)] inv(5) len by simp
  moreover have "\<forall>(i, f) \<in> set (k_read s). i \<le> Suc (consumed s) \<and> i < produced s \<and> f = k_published s ! i"
    using assms(2) by (auto simp: spsc_invs)
  ultimately show ?thesis using assms(2) inv(2) len unfolding store_head(1) by (simp add: spsc_invs)
qed

lemma spsc_reachable_inv:
  assumes "spsc_reachable n bytes s" "2 \<le> n"
  shows "spsc_inv n s"
  using assms(1)
proof (induction rule: spsc_reachable.induct)
  case init
  show ?case by (rule conc_init_inv [OF assms(2)])
next
  case (produce s t)
  show ?case by (rule producer_step_inv [OF produce.hyps(2) produce.IH])
next
  case (consume s t)
  show ?case by (rule consumer_step_inv [OF consume.hyps(2) consume.IH])
qed

section \<open>A call that is not interrupted\<close>

text \<open>
  When one context runs a call to its end with the newest cursors in view, the steps add up to the
  operation of the ring.
\<close>

definition ring_view :: "conc \<Rightarrow> ring" where
  "ring_view s = \<lparr>r_slots = k_slots s, r_head = last (k_heads s), r_tail = last (k_tails s), r_overruns = k_overruns s\<rparr>"

lemma ring_view_simps [simp]:
  "r_slots (ring_view s) = k_slots s" "r_head (ring_view s) = last (k_heads s)"
  "r_tail (ring_view s) = last (k_tails s)" "r_overruns (ring_view s) = k_overruns s"
  "ring_capacity (ring_view s) = length (k_slots s)"
  by (simp_all add: ring_view_def ring_capacity_def)

lemma sees_newest:
  assumes "spsc_inv n s"
  shows "sees_head s (consumed s)" "k_heads s ! consumed s = last (k_heads s)"
    "sees_tail s (produced s)" "k_tails s ! produced s = last (k_tails s)"
  using assms by (auto simp: spsc_invs sees_head_def sees_tail_def counts_up_def last_conv_nth)

lemma cursors_less:
  assumes "spsc_inv n s"
  shows "last (k_tails s) < length (k_slots s)" "last (k_heads s) < length (k_slots s)"
proof -
  have "counts_up n (k_tails s)" "counts_up n (k_heads s)" "2 \<le> n" "length (k_slots s) = n"
    using assms by (simp_all add: spsc_invs)
  then show "last (k_tails s) < length (k_slots s)" "last (k_heads s) < length (k_slots s)"
    by (simp_all add: counts_up_last)
qed

lemma produce_call:
  assumes "spsc_inv n s" "k_prod s = P_Idle"
  shows "\<exists>t. producer_step\<^sup>*\<^sup>* s t \<and> k_prod t = P_Idle \<and> ring_view t = snd (ring_produce fill (ring_view s))"
proof -
  let ?tail = "last (k_tails s)" and ?next = "ring_wrap (length (k_slots s)) (last (k_tails s))"
  let ?s1 = "s\<lparr>k_prod := P_Check fill ?tail ?next\<rparr>"
  have 1: "producer_step s ?s1" by (rule producer_step.load_tail [OF assms(2) refl])
  have seen: "sees_head ?s1 (consumed s)" "k_heads ?s1 ! consumed s = last (k_heads s)"
    using sees_newest [OF assms(1)] by (simp_all add: sees_head_def)
  have tail: "?tail < length (k_slots s)" by (rule cursors_less [OF assms(1)])
  show ?thesis
  proof (cases "?next = last (k_heads s)")
    case True
    let ?s2 = "?s1\<lparr>k_prod := P_Full, k_seen_head := consumed s\<rparr>"
    let ?s3 = "?s2\<lparr>k_prod := P_Idle, k_overruns := k_overruns s + 1, k_dropped := Suc (k_dropped s)\<rparr>"
    have 2: "producer_step ?s1 ?s2"
      by (rule producer_step.ring_full [OF _ seen(1)]) (use seen(2) True in simp_all)
    have 3: "producer_step ?s2 ?s3" using producer_step.count_overrun [of ?s2] by simp
    have "producer_step\<^sup>*\<^sup>* s ?s3" using 1 2 3 by (meson rtranclp.rtrancl_into_rtrancl rtranclp.rtrancl_refl)
    then show ?thesis by (rule exI [where x = ?s3, OF conjI])
      (use True in \<open>simp add: ring_produce_def Let_def ring_view_def ring_capacity_def\<close>)
  next
    case False
    let ?s2 = "?s1\<lparr>k_prod := P_Fill fill ?tail ?next, k_seen_head := consumed s\<rparr>"
    let ?s3 = "?s2\<lparr>k_prod := P_Publish ?next, k_slots := (k_slots s)[?tail := fill (k_slots s ! ?tail)]\<rparr>"
    let ?s4 = "?s3\<lparr>k_prod := P_Idle, k_tails := k_tails s @ [?next], k_published := k_published s @ [fill (k_slots s ! ?tail)]\<rparr>"
    have 2: "producer_step ?s1 ?s2"
      by (rule producer_step.slot_free [OF _ seen(1)]) (use seen(2) False tail in simp_all)
    have 3: "producer_step ?s2 ?s3" using producer_step.fill_slot [of ?s2 fill ?tail ?next] by simp
    have 4: "producer_step ?s3 ?s4" using producer_step.store_tail [of ?s3 ?next] tail by simp
    have "producer_step\<^sup>*\<^sup>* s ?s4" using 1 2 3 4 by (meson rtranclp.rtrancl_into_rtrancl rtranclp.rtrancl_refl)
    then show ?thesis by (rule exI [where x = ?s4, OF conjI])
      (use False tail in \<open>simp add: ring_produce_def Let_def ring_view_def get_def ring_capacity_def\<close>)
  qed
qed

lemma borrow_call:
  assumes "spsc_inv n s" "k_cons s = C_Idle"
  shows "\<exists>t. consumer_step\<^sup>*\<^sup>* s t \<and> ring_view t = ring_view s \<and>
    (case ring_borrow (ring_view s) of
       None \<Rightarrow> k_cons t = C_Idle
     | Some f \<Rightarrow> k_cons t = C_Hold (r_head (ring_view s)) \<and> k_slots t ! r_head (ring_view s) = f)"
proof -
  let ?head = "last (k_heads s)"
  let ?s1 = "s\<lparr>k_cons := C_Check ?head\<rparr>"
  have 1: "consumer_step s ?s1" by (rule consumer_step.load_head [OF assms(2) refl])
  have seen: "sees_tail ?s1 (produced s)" "k_tails ?s1 ! produced s = last (k_tails s)"
    using sees_newest [OF assms(1)] by (simp_all add: sees_tail_def)
  have head: "?head < length (k_slots s)" by (rule cursors_less [OF assms(1)])
  show ?thesis
  proof (cases "?head = last (k_tails s)")
    case True
    let ?s2 = "?s1\<lparr>k_cons := C_Idle, k_seen_tail := produced s\<rparr>"
    have 2: "consumer_step ?s1 ?s2"
      by (rule consumer_step.ring_empty [OF _ seen(1)]) (use seen(2) True in simp_all)
    have "consumer_step\<^sup>*\<^sup>* s ?s2" using 1 2 by (meson rtranclp.rtrancl_into_rtrancl rtranclp.rtrancl_refl)
    then show ?thesis by (rule exI [where x = ?s2, OF conjI])
      (use True in \<open>simp add: ring_borrow_def Let_def ring_view_def\<close>)
  next
    case False
    let ?s2 = "?s1\<lparr>k_cons := C_Hold ?head, k_seen_tail := produced s\<rparr>"
    have 2: "consumer_step ?s1 ?s2"
      by (rule consumer_step.lend [OF _ seen(1)]) (use seen(2) False head in simp_all)
    have "consumer_step\<^sup>*\<^sup>* s ?s2" using 1 2 by (meson rtranclp.rtrancl_into_rtrancl rtranclp.rtrancl_refl)
    then show ?thesis by (rule exI [where x = ?s2, OF conjI])
      (use False head in \<open>simp add: ring_borrow_def Let_def ring_view_def get_def\<close>)
  qed
qed

lemma release_call:
  assumes "spsc_inv n s" "k_cons s = C_Idle \<or> k_cons s = C_Hold h"
  shows "\<exists>t. consumer_step\<^sup>*\<^sup>* s t \<and> k_cons t = C_Idle \<and> ring_view t = ring_release (ring_view s)"
proof -
  let ?head = "last (k_heads s)"
  let ?s1 = "s\<lparr>k_cons := C_Release ?head\<rparr>"
  have 1: "consumer_step s ?s1" by (rule consumer_step.begin_release [OF assms(2) refl])
  have seen: "sees_tail ?s1 (produced s)" "k_tails ?s1 ! produced s = last (k_tails s)"
    using sees_newest [OF assms(1)] by (simp_all add: sees_tail_def)
  show ?thesis
  proof (cases "?head = last (k_tails s)")
    case True
    let ?s2 = "?s1\<lparr>k_cons := C_Idle, k_seen_tail := produced s\<rparr>"
    have 2: "consumer_step ?s1 ?s2"
      by (rule consumer_step.release_empty [OF _ seen(1)]) (use seen(2) True in simp_all)
    have "consumer_step\<^sup>*\<^sup>* s ?s2" using 1 2 by (meson rtranclp.rtrancl_into_rtrancl rtranclp.rtrancl_refl)
    then show ?thesis by (rule exI [where x = ?s2, OF conjI])
      (use True in \<open>simp add: ring_release_def Let_def ring_view_def\<close>)
  next
    case False
    let ?s2 = "?s1\<lparr>k_cons := C_Advance ?head, k_seen_tail := produced s\<rparr>"
    let ?s3 = "?s2\<lparr>k_cons := C_Idle, k_heads := k_heads s @ [ring_wrap (length (k_slots s)) ?head]\<rparr>"
    have 2: "consumer_step ?s1 ?s2"
      by (rule consumer_step.release_slot [OF _ seen(1)]) (use seen(2) False in simp_all)
    have 3: "consumer_step ?s2 ?s3" using consumer_step.store_head [of ?s2 ?head] by simp
    have "consumer_step\<^sup>*\<^sup>* s ?s3" using 1 2 3 by (meson rtranclp.rtrancl_into_rtrancl rtranclp.rtrancl_refl)
    then show ?thesis by (rule exI [where x = ?s3, OF conjI])
      (use False in \<open>simp add: ring_release_def Let_def ring_view_def ring_capacity_def\<close>)
  qed
qed

section \<open>Properties\<close>

text \<open>
  C6. Under every interleaving, and although each context may see an old cursor of the other, the
  producer never fills the slot the consumer holds; whatever the consumer reads is a published frame,
  unchanged, in the order of publication; no more frames are in flight than the ring has room for; a
  producer that gives up has seen a full ring; and the overrun counter counts the given up frames, modulo
  its width.
\<close>

theorem spsc_ring_safe:
  assumes "spsc_reachable n bytes s" and "2 \<le> n"
  shows "(\<forall>fill tail next head. k_prod s = P_Fill fill tail next \<and> k_cons s = C_Hold head \<longrightarrow> tail \<noteq> head) \<and>
    (\<forall>i f. (i, f) \<in> set (k_read s) \<longrightarrow> i < length (k_published s) \<and> f = k_published s ! i) \<and>
    sorted (map fst (k_read s)) \<and>
    consumed s \<le> length (k_published s) \<and> length (k_published s) - consumed s \<le> n - 1 \<and>
    (k_prod s = P_Full \<longrightarrow> length (k_published s) = k_seen_head s + (n - 1)) \<and>
    k_overruns s = of_nat (k_dropped s)"
proof -
  have inv: "spsc_inv n s" by (rule spsc_reachable_inv [OF assms])
  have free: "tail \<noteq> head" if "k_prod s = P_Fill fill tail next" "k_cons s = C_Hold head" for fill tail "next" head
  proof -
    have "tail = produced s mod n" "head = consumed s mod n" "consumed s < produced s" "produced s < consumed s + n"
      using inv that by (auto simp: spsc_invs)
    then show ?thesis using mod_eq_close [of "consumed s" "produced s" n] by simp
  qed
  have full: "length (k_published s) = k_seen_head s + (n - 1)" if "k_prod s = P_Full"
    using inv that assms(2) by (simp add: spsc_invs) linarith
  have reads: "i < length (k_published s) \<and> f = k_published s ! i" if "(i, f) \<in> set (k_read s)" for i f
    using inv that by (force simp: spsc_invs)
  have "length (k_published s) = produced s" "consumed s \<le> produced s" "produced s < consumed s + n"
    "sorted (map fst (k_read s))" "k_overruns s = of_nat (k_dropped s)"
    using inv by (simp_all add: spsc_invs)
  then show ?thesis using free full reads by (intro conjI allI impI) (blast | simp)+
qed

text \<open>
  A run on a ring of three slots: the producer publishes a frame, the consumer borrows and reads it, and
  the producer is about to fill the next slot while the consumer holds the first.
\<close>

definition demo_conc :: "u8 \<Rightarrow> nat list \<Rightarrow> nat \<Rightarrow> prod_pc \<Rightarrow> cons_pc \<Rightarrow> frame_bytes list \<Rightarrow> (nat \<times> frame_bytes) list \<Rightarrow> conc" where
  "demo_conc b tails seen pp cc published reads =
     \<lparr>k_slots = [[b], [0], [0]], k_heads = [0], k_tails = tails, k_overruns = 0, k_seen_head = 0,
      k_seen_tail = seen, k_prod = pp, k_cons = cc, k_published = published, k_dropped = 0, k_read = reads\<rparr>"

definition demo_fill :: "frame_bytes \<Rightarrow> frame_bytes" where
  "demo_fill _ = [7]"

lemma demo_conc_reachable:
  "spsc_reachable 3 1 (demo_conc 7 [0, 1] 1 (P_Fill demo_fill 1 2) (C_Hold 0) [[7]] [(0, [7])])"
proof -
  note states = demo_conc_def sees_head_def sees_tail_def ring_wrap_def
  have "conc_init 3 1 = demo_conc 0 [0] 0 P_Idle C_Idle [] []" by (simp add: conc_init_def ring_new_def demo_conc_def numeral_3_eq_3)
  then have "spsc_reachable 3 1 (demo_conc 0 [0] 0 P_Idle C_Idle [] [])" using spsc_reachable.init [of 3 1] by simp
  moreover have "producer_step (demo_conc 0 [0] 0 P_Idle C_Idle [] []) (demo_conc 0 [0] 0 (P_Check demo_fill 0 1) C_Idle [] [])"
    using producer_step.load_tail [of "demo_conc 0 [0] 0 P_Idle C_Idle [] []" 0 demo_fill] by (simp add: states)
  moreover have "producer_step (demo_conc 0 [0] 0 (P_Check demo_fill 0 1) C_Idle [] []) (demo_conc 0 [0] 0 (P_Fill demo_fill 0 1) C_Idle [] [])"
    using producer_step.slot_free [of "demo_conc 0 [0] 0 (P_Check demo_fill 0 1) C_Idle [] []" demo_fill 0 1 0] by (simp add: states)
  moreover have "producer_step (demo_conc 0 [0] 0 (P_Fill demo_fill 0 1) C_Idle [] []) (demo_conc 7 [0] 0 (P_Publish 1) C_Idle [] [])"
    using producer_step.fill_slot [of "demo_conc 0 [0] 0 (P_Fill demo_fill 0 1) C_Idle [] []" demo_fill 0 1] by (simp add: states demo_fill_def)
  moreover have "producer_step (demo_conc 7 [0] 0 (P_Publish 1) C_Idle [] []) (demo_conc 7 [0, 1] 0 P_Idle C_Idle [[7]] [])"
    using producer_step.store_tail [of "demo_conc 7 [0] 0 (P_Publish 1) C_Idle [] []" 1] by (simp add: states)
  moreover have "consumer_step (demo_conc 7 [0, 1] 0 P_Idle C_Idle [[7]] []) (demo_conc 7 [0, 1] 0 P_Idle (C_Check 0) [[7]] [])"
    using consumer_step.load_head [of "demo_conc 7 [0, 1] 0 P_Idle C_Idle [[7]] []" 0] by (simp add: states)
  moreover have "consumer_step (demo_conc 7 [0, 1] 0 P_Idle (C_Check 0) [[7]] []) (demo_conc 7 [0, 1] 1 P_Idle (C_Hold 0) [[7]] [])"
    using consumer_step.lend [of "demo_conc 7 [0, 1] 0 P_Idle (C_Check 0) [[7]] []" 0 1] by (simp add: states)
  moreover have "consumer_step (demo_conc 7 [0, 1] 1 P_Idle (C_Hold 0) [[7]] []) (demo_conc 7 [0, 1] 1 P_Idle (C_Hold 0) [[7]] [(0, [7])])"
    using consumer_step.read_slot [of "demo_conc 7 [0, 1] 1 P_Idle (C_Hold 0) [[7]] []" 0] by (simp add: states)
  moreover have "producer_step (demo_conc 7 [0, 1] 1 P_Idle (C_Hold 0) [[7]] [(0, [7])])
      (demo_conc 7 [0, 1] 1 (P_Check demo_fill 1 2) (C_Hold 0) [[7]] [(0, [7])])"
    using producer_step.load_tail [of "demo_conc 7 [0, 1] 1 P_Idle (C_Hold 0) [[7]] [(0, [7])]" 1 demo_fill] by (simp add: states numeral_2_eq_2)
  moreover have "producer_step (demo_conc 7 [0, 1] 1 (P_Check demo_fill 1 2) (C_Hold 0) [[7]] [(0, [7])])
      (demo_conc 7 [0, 1] 1 (P_Fill demo_fill 1 2) (C_Hold 0) [[7]] [(0, [7])])"
    using producer_step.slot_free [of "demo_conc 7 [0, 1] 1 (P_Check demo_fill 1 2) (C_Hold 0) [[7]] [(0, [7])]" demo_fill 1 2 0] by (simp add: states)
  ultimately show ?thesis by (meson spsc_reachable.produce spsc_reachable.consume)
qed

theorem spsc_ring_safe_witness:
  "\<exists>s. spsc_reachable 3 1 s \<and> k_prod s = P_Fill demo_fill 1 2 \<and> k_cons s = C_Hold 0 \<and> k_read s = [(0, [7])] \<and>
    k_published s ! 0 = [7] \<and> (1 :: nat) \<noteq> 0"
proof -
  have "2 \<le> (3 :: nat)" by simp
  note safe = spsc_ring_safe [OF demo_conc_reachable this]
  let ?s = "demo_conc 7 [0, 1] 1 (P_Fill demo_fill 1 2) (C_Hold 0) [[7]] [(0, [7])]"
  have s: "k_prod ?s = P_Fill demo_fill 1 2" "k_cons ?s = C_Hold 0" "k_read ?s = [(0, [7])]" by (simp_all add: demo_conc_def)
  have "(1 :: nat) \<noteq> 0" using safe s(1,2) by blast
  moreover have "k_published ?s ! 0 = [7]" using safe s(3) by auto
  ultimately show ?thesis using demo_conc_reachable s by blast
qed

end
