(* ===== verification/MediaTime.thy ===== *)
theory MediaTime
  imports G2G_Prelude
begin

text \<open>
  Conversions between time scales: NTP and Unix time, ticks and nanoseconds (\<^verbatim>\<open>time.rs\<close>), and the media
  clock that maps TAI time to 32-bit RTP timestamps (\<^verbatim>\<open>mediaclock.rs\<close>). The 128-bit intermediates of the
  source are 128-bit words or, where they are signed and cannot overflow, integers.
\<close>

section \<open>Time scales\<close>

type_synonym i64 = "64 word"
type_synonym u128 = "128 word"

datatype tai_ns = TaiNs (tai_get: u64)

datatype rtp_ts = RtpTs (rtp_get: u32)

definition tai_saturating_add_ns :: "tai_ns \<Rightarrow> u64 \<Rightarrow> tai_ns" where
  "tai_saturating_add_ns t ns = TaiNs (saturating_add (tai_get t) ns)"

definition rtp_ts_wrapping_add :: "rtp_ts \<Rightarrow> u32 \<Rightarrow> rtp_ts" where
  "rtp_ts_wrapping_add t ticks = RtpTs (rtp_get t + ticks)"

definition NTP_TO_UNIX_EPOCH_SECS :: u64 where "NTP_TO_UNIX_EPOCH_SECS = 2208988800"
definition NANOS_PER_SECOND :: u64 where "NANOS_PER_SECOND = 1000000000"
definition NTP_FRACTION_BITS :: nat where "NTP_FRACTION_BITS = 32"
definition NTP_FRACTION_MASK :: u64 where "NTP_FRACTION_MASK = 0xFFFFFFFF"
definition NTP_SECONDS_PER_ERA :: i64 where "NTP_SECONDS_PER_ERA = push_bit NTP_FRACTION_BITS 1"
definition NTP_ERA_ZERO_SECONDS_BIT :: u64 where "NTP_ERA_ZERO_SECONDS_BIT = push_bit 31 1"

lemmas time_consts = NTP_TO_UNIX_EPOCH_SECS_def NANOS_PER_SECOND_def NTP_FRACTION_BITS_def NTP_FRACTION_MASK_def
  NTP_SECONDS_PER_ERA_def NTP_ERA_ZERO_SECONDS_BIT_def

unbundle bit_operations_syntax

definition ntp_from_unix_nanos :: "i64 \<Rightarrow> u64 option" where
  "ntp_from_unix_nanos unix_nanos =
     (let ntp_nanos = sint unix_nanos + uint NTP_TO_UNIX_EPOCH_SECS * uint NANOS_PER_SECOND in
      if ntp_nanos < 0 then None
      else
        (let seconds = word_of_int (ntp_nanos div uint NANOS_PER_SECOND) :: u64;
             nanos = word_of_int (ntp_nanos mod uint NANOS_PER_SECOND) :: u64;
             fraction = div_ceil (push_bit NTP_FRACTION_BITS nanos) NANOS_PER_SECOND in
         Some (push_bit NTP_FRACTION_BITS seconds OR fraction)))"

definition unix_nanos_from_ntp :: "u64 \<Rightarrow> i64 option" where
  "unix_nanos_from_ntp ntp =
     (if ntp = 0 then None
      else
        (let ntp_seconds = drop_bit NTP_FRACTION_BITS ntp;
             era_offset = (if ntp_seconds AND NTP_ERA_ZERO_SECONDS_BIT = 0 then NTP_SECONDS_PER_ERA else 0);
             seconds = ntp_seconds + era_offset - NTP_TO_UNIX_EPOCH_SECS;
             fraction = ntp AND NTP_FRACTION_MASK;
             nanos = drop_bit NTP_FRACTION_BITS (fraction * NANOS_PER_SECOND + push_bit (NTP_FRACTION_BITS - 1) 1) in
         Some (seconds * NANOS_PER_SECOND + nanos)))"

definition scale_rounded :: "u64 \<Rightarrow> u64 \<Rightarrow> u64 \<Rightarrow> u64" where
  "scale_rounded value numerator denominator =
     (let scaled = (case checked_div (ucast value * ucast numerator + ucast (denominator div 2) :: u128) (ucast denominator) of
                      Some q \<Rightarrow> q | None \<Rightarrow> - 1) in
      if uint scaled < 2 ^ 64 then ucast scaled else - 1)"

definition ns_to_ticks :: "u64 \<Rightarrow> u32 \<Rightarrow> u64" where
  "ns_to_ticks ns r = scale_rounded ns (ucast r) NANOS_PER_SECOND"

definition ticks_to_ns :: "u64 \<Rightarrow> u32 \<Rightarrow> u64" where
  "ticks_to_ns ticks r = scale_rounded ticks NANOS_PER_SECOND (ucast r)"

section \<open>The media clock\<close>

record media_clock =
  mc_rate_hz :: u32

definition media_clock_new :: "u32 \<Rightarrow> media_clock" where
  "media_clock_new rate_hz = \<lparr>mc_rate_hz = max rate_hz 1\<rparr>"

definition VIDEO_RATE_HZ :: u32 where "VIDEO_RATE_HZ = 90000"

definition media_clock_video :: media_clock where
  "media_clock_video = media_clock_new VIDEO_RATE_HZ"

definition media_clock_audio :: "u32 \<Rightarrow> media_clock" where
  "media_clock_audio sample_rate_hz = media_clock_new sample_rate_hz"

definition clock_ticks :: "media_clock \<Rightarrow> tai_ns \<Rightarrow> u64" where
  "clock_ticks c tai = ns_to_ticks (tai_get tai) (mc_rate_hz c)"

definition rtp_timestamp :: "media_clock \<Rightarrow> tai_ns \<Rightarrow> rtp_ts" where
  "rtp_timestamp c tai = RtpTs (ucast (clock_ticks c tai))"

definition clock_ticks_to_ns :: "media_clock \<Rightarrow> u64 \<Rightarrow> u64" where
  "clock_ticks_to_ns c ticks = ticks_to_ns ticks (mc_rate_hz c)"

text \<open>\<^verbatim>\<open>i64::saturating_add\<close> on the values of two signed integers.\<close>

definition i64_saturate :: "int \<Rightarrow> int" where
  "i64_saturate x = max (- (2 ^ 63)) (min (2 ^ 63 - 1) x)"

definition tai_from_rtp :: "media_clock \<Rightarrow> rtp_ts \<Rightarrow> tai_ns \<Rightarrow> tai_ns" where
  "tai_from_rtp c rtp reference =
     (let ref_ticks = clock_ticks c reference;
          diff = sint (rtp_get rtp - ucast ref_ticks :: u32);
          ticks = word_of_int (max (i64_saturate (sint ref_ticks + diff)) 0) in
      TaiNs (clock_ticks_to_ns c ticks))"

section \<open>Scaling\<close>

lemma sint_of_int_64: "- (2 ^ 63) \<le> k \<Longrightarrow> k < 2 ^ 63 \<Longrightarrow> sint (word_of_int k :: i64) = k"
  unfolding int_word_sint by simp

lemma sint_of_int_32: "- (2 ^ 31) \<le> k \<Longrightarrow> k < 2 ^ 31 \<Longrightarrow> sint (word_of_int k :: 32 word) = k"
  unfolding int_word_sint by simp

lemma unat_ucast_u128 [simp]: "unat (ucast (x :: u64) :: u128) = unat x"
  by (rule unat_ucast_up) simp

lemma unat_ucast_u64 [simp]: "unat (ucast (x :: u32) :: u64) = unat x"
  by (rule unat_ucast_up) simp

lemma u64_less: "unat (x :: u64) < 2 ^ 64"
  using unat_lt2p [of x] by simp

lemma scale_rounded_nat:
  assumes "d \<noteq> 0"
  shows "unat (scale_rounded v n d) = min (2 ^ 64 - 1) ((unat v * unat n + unat d div 2) div unat d)"
proof -
  let ?v = "unat v" and ?n = "unat n" and ?d = "unat d"
  let ?q = "(ucast v * ucast n + ucast (d div 2) :: u128) div ucast d"
  have vn: "?v * ?n \<le> (2 ^ 64 - 1) * (2 ^ 64 - 1)"
    using u64_less [of v] u64_less [of n] by (intro mult_le_mono) simp_all
  have d: "?d div 2 < 2 ^ 63" using u64_less [of d] by simp
  have "?v * ?n + ?d div 2 < 2 ^ 128" using vn d by simp
  then have sum: "unat (ucast v * ucast n + ucast (d div 2) :: u128) = ?v * ?n + ?d div 2"
    by (simp add: unat_word_ariths unat_div del: unat_ucast_u128) (simp add: unat_div)
  have d0: "(ucast d :: u128) \<noteq> 0"
    using assms by (metis unat_ucast_u128 unat_0 unat_eq_zero)
  have quot: "unat ((ucast v * ucast n + ucast (d div 2) :: u128) div ucast d) = (?v * ?n + ?d div 2) div ?d"
    by (simp add: unat_div sum)
  have fits: "uint w < 2 ^ 64 \<longleftrightarrow> unat w < 2 ^ 64" for w :: u128
    using of_nat_less_numeral_power_cancel_iff [of "unat w" "num.Bit0 num.One" 64, where 'a = int] by simp
  have max64: "unat (- 1 :: u64) = 2 ^ 64 - 1" by (simp add: unsigned_minus_1_eq_mask mask_eq_exp_minus_1)
  show ?thesis
  proof (cases "(?v * ?n + ?d div 2) div ?d < 2 ^ 64")
    case True
    then have "unat (ucast ((ucast v * ucast n + ucast (d div 2) :: u128) div ucast d) :: u64) = (?v * ?n + ?d div 2) div ?d"
      using quot by (simp add: unat_ucast_small)
    then show ?thesis using True quot d0 fits [of ?q] by (simp add: scale_rounded_def checked_div_def Let_def)
  next
    case False
    then show ?thesis using quot d0 max64 fits [of ?q] by (simp add: scale_rounded_def checked_div_def Let_def)
  qed
qed

lemma nearest_tick_back:
  fixes t r n :: nat
  assumes "0 < r" "r \<le> n"
  shows "((t * n + r div 2) div r * r + n div 2) div n = t"
proof -
  let ?ns = "(t * n + r div 2) div r"
  have le: "?ns * r \<le> t * n + r div 2" by simp
  have gt: "t * n + r div 2 < ?ns * r + r" using assms(1) by (metis add.commute dividend_less_div_times)
  show ?thesis
  proof (cases "r = n")
    case True
    then show ?thesis using assms by simp
  next
    case False
    then have "r div 2 + n div 2 < n" using assms by linarith
    then have "?ns * r + n div 2 < t * n + n" using le by linarith
    moreover have "t * n \<le> ?ns * r + n div 2" using gt assms by linarith
    ultimately show ?thesis by (intro div_nat_eqI) (simp_all add: mult.commute)
  qed
qed

lemma ns_per_second [simp]: "unat NANOS_PER_SECOND = 1000000000" "NANOS_PER_SECOND \<noteq> 0"
  by (simp_all add: NANOS_PER_SECOND_def)

lemma ns_to_ticks_nat: "unat (ns_to_ticks ns r) = min (2 ^ 64 - 1) ((unat ns * unat r + 500000000) div 1000000000)"
  by (simp add: ns_to_ticks_def scale_rounded_nat)

lemma ticks_to_ns_nat: "r \<noteq> 0 \<Longrightarrow> unat (ticks_to_ns t r) = min (2 ^ 64 - 1) ((unat t * 1000000000 + unat r div 2) div unat r)"
proof -
  assume "r \<noteq> 0"
  then have "(ucast r :: u64) \<noteq> 0" by (metis unat_ucast_u64 unat_0 unat_eq_zero)
  then show ?thesis by (simp add: ticks_to_ns_def scale_rounded_nat)
qed

section \<open>NTP fields\<close>

text \<open>The fraction of a second in units of 2 to the minus 32, rounded up, reads back rounded to the nearest.\<close>

definition ntp_fraction :: "nat \<Rightarrow> nat" where
  "ntp_fraction n = (n * 2 ^ 32 + 999999999) div 1000000000"

lemma ntp_fraction_less: "n < 1000000000 \<Longrightarrow> ntp_fraction n < 2 ^ 32"
  unfolding ntp_fraction_def by (simp add: div_less_iff_less_mult)

lemma ntp_fraction_read: "n < 1000000000 \<Longrightarrow> (ntp_fraction n * 1000000000 + 2 ^ 31) div 2 ^ 32 = n"
proof -
  let ?f = "ntp_fraction n"
  have ge: "n * 2 ^ 32 \<le> ?f * 1000000000" and le: "?f * 1000000000 \<le> n * 2 ^ 32 + 999999999"
    unfolding ntp_fraction_def by linarith+
  show "(?f * 1000000000 + 2 ^ 31) div 2 ^ 32 = n" by (rule div_nat_eqI) (use ge le in simp_all)
qed

lemma unat_push_32: "unat w < 2 ^ 32 \<Longrightarrow> unat (push_bit 32 (w :: u64)) = unat w * 2 ^ 32"
  by (simp add: push_bit_eq_mult unat_word_ariths)

lemma ntp_fraction_word:
  assumes "n < 1000000000"
  shows "unat (div_ceil (push_bit 32 (word_of_nat n :: u64)) NANOS_PER_SECOND) = ntp_fraction n"
proof -
  have "unat (word_of_nat n :: u64) = n" using assms by (simp add: unat_of_nat)
  then have push: "unat (push_bit 32 (word_of_nat n :: u64)) = n * 2 ^ 32" using assms unat_push_32 by simp
  have "unat (div_ceil (push_bit 32 (word_of_nat n :: u64)) NANOS_PER_SECOND) = (n * 2 ^ 32 + 1000000000 - 1) div 1000000000"
    using unat_div_ceil [of NANOS_PER_SECOND "push_bit 32 (word_of_nat n :: u64)"] push by simp
  then show ?thesis by (simp add: ntp_fraction_def)
qed

lemma of_nat_unat_id: "word_of_nat (unat w) = w"
  by simp

lemma small_take_bit: "unat w < 2 ^ n \<Longrightarrow> take_bit n (w :: 'a::len word) = w"
  by (simp add: word_unat_eq_iff unsigned_take_bit_eq take_bit_nat_eq_self)

lemma unat_or_disjoint:
  assumes "unat b < 2 ^ 32"
  shows "unat (push_bit 32 a OR b) = unat a mod 2 ^ 32 * 2 ^ 32 + unat (b :: u64)"
proof -
  have "push_bit 32 a AND take_bit 32 b = 0" by (rule bit_eqI) (auto simp: bit_simps)
  then have "push_bit 32 a AND b = 0" using small_take_bit [OF assms] by simp
  then have "push_bit 32 a OR b = push_bit 32 a + b" by (simp add: disjunctive_add_eq_or)
  moreover have "unat (push_bit 32 a) = unat a mod 2 ^ 32 * 2 ^ 32"
    by (simp add: push_bit_eq_mult unat_word_ariths mult_mod_left)
  moreover have "unat a mod 4294967296 < 4294967296" by simp
  then have "unat a mod 2 ^ 32 * 2 ^ 32 + unat b < 2 ^ 64" using assms by simp
  ultimately show ?thesis by (simp add: unat_word_ariths)
qed

lemma ntp_from_unix_nanos_fields:
  assumes t: "sint x + 2208988800 * 1000000000 = int (s * 1000000000 + n)" and n: "n < 1000000000" and s: "s < 2 ^ 34"
  shows "\<exists>w. ntp_from_unix_nanos x = Some w \<and> unat w = s mod 2 ^ 32 * 2 ^ 32 + ntp_fraction n"
proof -
  have div: "int (s * 1000000000 + n) div 1000000000 = int s" "int (s * 1000000000 + n) mod 1000000000 = int n"
    using n by simp_all
  have const: "uint NANOS_PER_SECOND = 1000000000" "uint NTP_TO_UNIX_EPOCH_SECS = 2208988800" by (simp_all add: time_consts)
  have us: "unat (word_of_nat s :: u64) = s" using s by (simp add: unat_of_nat)
  let ?w = "push_bit 32 (word_of_nat s :: u64) OR div_ceil (push_bit 32 (word_of_nat n)) NANOS_PER_SECOND"
  have "ntp_from_unix_nanos x = Some ?w"
    unfolding ntp_from_unix_nanos_def Let_def const t div NTP_FRACTION_BITS_def by simp
  moreover have "unat ?w = s mod 2 ^ 32 * 2 ^ 32 + ntp_fraction n"
    using unat_or_disjoint [of "div_ceil (push_bit 32 (word_of_nat n)) NANOS_PER_SECOND" "word_of_nat s"]
      ntp_fraction_word [OF n] ntp_fraction_less [OF n] us by simp
  ultimately show ?thesis by blast
qed

lemma bit_31: "q < 2 ^ 32 \<Longrightarrow> (word_of_nat q :: u64) AND push_bit 31 1 = 0 \<longleftrightarrow> q < 2 ^ 31"
proof -
  assume q: "q < 2 ^ 32"
  have "(word_of_nat q :: u64) AND push_bit 31 1 = 0 \<longleftrightarrow> \<not> bit q 31"
    unfolding push_bit_of_1 and_exp_eq_0_iff_not_bit by (simp add: bit_simps)
  also have "q div 2147483648 < 2" using q by (simp add: div_less_iff_less_mult)
  then have "\<not> bit q 31 \<longleftrightarrow> q < 2 ^ 31" by (auto simp: bit_iff_odd less_2_cases_iff div_eq_0_iff)
  finally show ?thesis .
qed

lemma unix_nanos_from_ntp_fields:
  assumes w: "unat w = q * 2 ^ 32 + ntp_fraction n" and n: "n < 1000000000" and q: "q < 2 ^ 32"
  shows "unix_nanos_from_ntp w =
    (if w = 0 then None
     else Some (word_of_int ((int q + (if q < 2 ^ 31 then 2 ^ 32 else 0) - 2208988800) * 1000000000 + int n)))"
proof -
  let ?f = "ntp_fraction n"
  have f: "?f < 2 ^ 32" by (rule ntp_fraction_less [OF n])
  have sec: "drop_bit 32 w = word_of_nat q"
  proof -
    have "unat (drop_bit 32 w) = q" using w f by (simp add: drop_bit_eq_div unat_div)
    then show ?thesis by (metis of_nat_unat_id)
  qed
  have frac: "w AND 0xFFFFFFFF = word_of_nat ?f"
  proof -
    have "w AND 0xFFFFFFFF = take_bit 32 w" using take_bit_eq_mask [of 32 w] by (simp add: mask_eq_exp_minus_1)
    moreover have "unat (take_bit 32 w) = ?f" using w f by (simp add: take_bit_eq_mod unat_mod)
    ultimately show ?thesis by (metis of_nat_unat_id)
  qed
  have nanos: "drop_bit 32 (word_of_nat ?f * 1000000000 + push_bit 31 1 :: u64) = word_of_nat n"
  proof -
    have "unat (word_of_nat ?f * 1000000000 + push_bit 31 1 :: u64) = ?f * 1000000000 + 2 ^ 31"
      using f by (simp add: unat_word_ariths unat_of_nat push_bit_eq_mult)
    then have "unat (drop_bit 32 (word_of_nat ?f * 1000000000 + push_bit 31 1 :: u64)) = n"
      using ntp_fraction_read [OF n] by (simp add: drop_bit_eq_div unat_div)
    then show ?thesis by (metis of_nat_unat_id)
  qed
  show ?thesis
    using bit_31 [OF q] nanos by (simp add: unix_nanos_from_ntp_def Let_def time_consts sec frac)
qed

lemma ntp_unix_exact:
  assumes "- (61505152 * 1000000000) \<le> sint x" and "sint x < 4233462144 * 1000000000"
  shows "\<exists>w. ntp_from_unix_nanos x = Some w \<and>
    (w = 0 \<longleftrightarrow> sint x = 2085978496 * 1000000000) \<and>
    unix_nanos_from_ntp w = (if w = 0 then None else Some x)"
proof -
  let ?t = "sint x + 2208988800 * 1000000000"
  define s where "s = nat (?t div 1000000000)"
  define n where "n = nat (?t mod 1000000000)"
  have pos: "0 \<le> ?t" using assms(1) by simp
  have n: "n < 1000000000" unfolding n_def by (simp add: nat_less_iff)
  have ints: "int s = ?t div 1000000000" "int n = ?t mod 1000000000" using pos by (simp_all add: s_def n_def pos_imp_zdiv_nonneg_iff)
  have t: "?t = int (s * 1000000000 + n)" unfolding of_nat_add of_nat_mult ints by simp
  have s: "2 ^ 31 \<le> s" "s < 2 ^ 32 + 2 ^ 31" using t n assms by simp_all
  obtain w where w: "ntp_from_unix_nanos x = Some w" "unat w = s mod 2 ^ 32 * 2 ^ 32 + ntp_fraction n"
    using ntp_from_unix_nanos_fields [OF t n] s by auto
  have q: "s mod 2 ^ 32 < 2 ^ 32" by simp
  have era: "int (s mod 2 ^ 32) + (if s mod 2 ^ 32 < 2 ^ 31 then 2 ^ 32 else 0) = int s"
    using s by (cases "s < 2 ^ 32") (auto simp: mod_if)
  have back_x: "word_of_int ((int (s mod 2 ^ 32) + (if s mod 2 ^ 32 < 2 ^ 31 then 2 ^ 32 else 0) - 2208988800) * 1000000000 + int n) = x"
  proof -
    have "(int s - 2208988800) * 1000000000 + int n = sint x" using t by simp
    then show ?thesis unfolding era by simp
  qed
  have "unat w = 0 \<longleftrightarrow> s mod 2 ^ 32 = 0 \<and> n = 0" using w(2) by (auto simp: ntp_fraction_def)
  also have "\<dots> \<longleftrightarrow> s = 2 ^ 32 \<and> n = 0" using s by (auto simp: mod_if)
  also have "\<dots> \<longleftrightarrow> sint x = 2085978496 * 1000000000" proof
    assume "s = 2 ^ 32 \<and> n = 0"
    then show "sint x = 2085978496 * 1000000000" using t by simp
  next
    assume "sint x = 2085978496 * 1000000000"
    then show "s = 2 ^ 32 \<and> n = 0" using ints by simp
  qed
  finally have zero: "w = 0 \<longleftrightarrow> sint x = 2085978496 * 1000000000" by (simp add: unat_eq_zero)
  show ?thesis using w(1) zero unix_nanos_from_ntp_fields [OF w(2) n q] back_x by auto
qed

section \<open>Properties\<close>

text \<open>
  Unix time survives the trip through the 64-bit NTP format, exactly and over both eras the reader
  tells apart (1968 to 2104), except for the one instant whose NTP form is zero, which means no time.
\<close>

theorem ntp_roundtrip:
  assumes "- (61505152 * 1000000000) \<le> sint x" and "sint x < 4233462144 * 1000000000"
  shows "\<exists>w. ntp_from_unix_nanos x = Some w \<and>
    (w = 0 \<longleftrightarrow> sint x = 2085978496 * 1000000000) \<and>
    unix_nanos_from_ntp w = (if w = 0 then None else Some x)"
  by (rule ntp_unix_exact [OF assms])

theorem ntp_roundtrip_witness:
  "\<exists>w. ntp_from_unix_nanos 1700000000000000123 = Some w \<and> unix_nanos_from_ntp w = Some 1700000000000000123"
proof -
  let ?x = "1700000000000000123 :: i64"
  have "sint ?x = 1700000000000000123" by code_simp
  then have "- (61505152 * 1000000000) \<le> sint ?x" "sint ?x < 4233462144 * 1000000000" "sint ?x \<noteq> 2085978496 * 1000000000"
    by simp_all
  then show ?thesis using ntp_roundtrip [of ?x] by metis
qed

text \<open>
  Ticks of a clock of at most a gigahertz survive the trip through nanoseconds, as long as the
  nanoseconds fit; both conversions round to the nearest and saturate.
\<close>

theorem ticks_roundtrip:
  assumes "r \<noteq> 0" and "unat r \<le> 1000000000" and "(unat t * 1000000000 + unat r div 2) div unat r < 2 ^ 64"
  shows "ns_to_ticks (ticks_to_ns t r) r = t"
proof -
  have r: "0 < unat r" using assms(1) by (simp add: unat_gt_0)
  have "unat (ns_to_ticks (ticks_to_ns t r) r) = min (2 ^ 64 - 1) (unat t)"
    using nearest_tick_back [OF r assms(2), of "unat t"] assms(3)
    by (simp add: ns_to_ticks_nat ticks_to_ns_nat [OF assms(1)])
  then show ?thesis using u64_less [of t] by (simp add: word_unat_eq_iff)
qed

theorem ticks_roundtrip_witness: "ns_to_ticks (ticks_to_ns 123457 90000) 90000 = 123457"
  by (rule ticks_roundtrip) (code_simp, simp_all)

text \<open>
  The media clock recovers a wrapped timestamp: from the 32-bit RTP timestamp of an instant and
  any reference less than half a wrap period of ticks away, it gets the tick of the instant back, and so
  a time with the same RTP timestamp.
\<close>

theorem media_clock_recovers:
  assumes "unat (clock_ticks c tai) < 2 ^ 63" and "unat (clock_ticks c reference) < 2 ^ 63"
    and "\<bar>int (unat (clock_ticks c tai)) - int (unat (clock_ticks c reference))\<bar> < 2 ^ 31"
  shows "tai_from_rtp c (rtp_timestamp c tai) reference = TaiNs (clock_ticks_to_ns c (clock_ticks c tai))"
proof -
  let ?a = "clock_ticks c tai" and ?b = "clock_ticks c reference"
  have eq: "word_of_int (int (unat ?b)) = ?b" by simp
  have lt: "int (unat ?b) < 2 ^ 63" using assms(2) by (metis of_nat_less_numeral_power_cancel_iff)
  have "- (2 ^ 63) \<le> int (unat ?b)" by (rule order_trans [of _ 0]) simp_all
  from sint_of_int_64 [OF this lt] have sb: "sint ?b = int (unat ?b)" unfolding eq .
  have sub: "word_of_int (int (unat ?a) - int (unat ?b)) = (ucast ?a - ucast ?b :: u32)"
    by (simp only: of_int_diff ucast_eq) simp
  have "- (2 ^ 31) \<le> int (unat ?a) - int (unat ?b)" "int (unat ?a) - int (unat ?b) < 2 ^ 31"
    using assms(3) by linarith+
  from sint_of_int_32 [OF this] have diff: "sint (ucast ?a - ucast ?b :: u32) = int (unat ?a) - int (unat ?b)"
    unfolding sub .
  have sum: "i64_saturate (int (unat ?b) + (int (unat ?a) - int (unat ?b))) = int (unat ?a)"
  proof -
    have "int (unat ?a) < 2 ^ 63" using assms(1) by (metis of_nat_less_numeral_power_cancel_iff)
    moreover have "0 \<le> int (unat ?a)" by simp
    ultimately show ?thesis unfolding i64_saturate_def by linarith
  qed
  have "word_of_int (max (int (unat ?a)) 0) = ?a" by simp
  then show ?thesis unfolding tai_from_rtp_def rtp_timestamp_def Let_def rtp_ts.sel diff sb sum by simp
qed

theorem media_clock_recovers_witness:
  "tai_from_rtp media_clock_video (rtp_timestamp media_clock_video (TaiNs 1700000000000000000)) (TaiNs 1700000001000000000) =
    TaiNs 1700000000000000000"
proof -
  let ?c = media_clock_video and ?t = "TaiNs 1700000000000000000" and ?r = "TaiNs 1700000001000000000"
  have ticks: "clock_ticks ?c ?t = 153000000000000" "clock_ticks ?c ?r = 153000000090000" by code_simp+
  have "tai_from_rtp ?c (rtp_timestamp ?c ?t) ?r = TaiNs (clock_ticks_to_ns ?c (clock_ticks ?c ?t))"
    by (rule media_clock_recovers) (simp_all add: ticks)
  also have "clock_ticks_to_ns ?c (clock_ticks ?c ?t) = 1700000000000000000" by code_simp
  finally show ?thesis .
qed

end
