(* ===== verification/Bytes.thy ===== *)
theory Bytes
  imports G2G_Prelude
begin

text \<open>
  Bytes of machine integers in network and in little-endian order, and slices of byte buffers: what the source
  uses of the standard library for its wire formats.
\<close>

unbundle bit_operations_syntax

section \<open>Bytes\<close>

definition be16 :: "u8 \<Rightarrow> u8 \<Rightarrow> u16" where
  "be16 a b = push_bit 8 (ucast a) OR ucast b"

definition to_be16 :: "u16 \<Rightarrow> u8 list" where
  "to_be16 w = [ucast (drop_bit 8 w), ucast w]"

definition be32 :: "u8 \<Rightarrow> u8 \<Rightarrow> u8 \<Rightarrow> u8 \<Rightarrow> u32" where
  "be32 a b c d = push_bit 24 (ucast a) OR push_bit 16 (ucast b) OR push_bit 8 (ucast c) OR ucast d"

definition to_be32 :: "u32 \<Rightarrow> u8 list" where
  "to_be32 w = [ucast (drop_bit 24 w), ucast (drop_bit 16 w), ucast (drop_bit 8 w), ucast w]"

definition be64 :: "u8 list \<Rightarrow> u64" where
  "be64 bs = foldl (\<lambda>acc b. push_bit 8 acc OR ucast b) 0 bs"

definition to_be64 :: "u64 \<Rightarrow> u8 list" where
  "to_be64 w = map (\<lambda>k. ucast (drop_bit k w)) [56, 48, 40, 32, 24, 16, 8, 0]"

text \<open>\<^verbatim>\<open>slice.get(a..b)\<close> and a write into a slice, which panics (\<open>None\<close>) out of range.\<close>

definition slice_get :: "'a list \<Rightarrow> nat \<Rightarrow> nat \<Rightarrow> 'a list option" where
  "slice_get xs a b = (if a \<le> b \<and> b \<le> length xs then Some (take (b - a) (drop a xs)) else None)"

definition write_at :: "nat \<Rightarrow> 'a list \<Rightarrow> 'a list \<Rightarrow> 'a list option" where
  "write_at k bs out = (if k + length bs \<le> length out then Some (take k out @ bs @ drop (k + length bs) out) else None)"

text \<open>Little-endian order.\<close>

definition to_le16 :: "u16 \<Rightarrow> u8 list" where "to_le16 w = rev (to_be16 w)"
definition to_le32 :: "u32 \<Rightarrow> u8 list" where "to_le32 w = rev (to_be32 w)"
definition to_le64 :: "u64 \<Rightarrow> u8 list" where "to_le64 w = rev (to_be64 w)"

definition le16 :: "u8 list \<Rightarrow> u16" where "le16 bs = be16 (bs ! 1) (bs ! 0)"
definition le32 :: "u8 list \<Rightarrow> u32" where "le32 bs = be32 (bs ! 3) (bs ! 2) (bs ! 1) (bs ! 0)"
definition le64 :: "u8 list \<Rightarrow> u64" where "le64 bs = be64 (rev bs)"

section \<open>Bytes round-trip\<close>

lemma be16_to_be16: "be16 (ucast (drop_bit 8 w)) (ucast w) = w"
  unfolding be16_def by (rule bit_word_eqI) (auto simp: bit_simps)

lemma be32_to_be32: "be32 (ucast (drop_bit 24 w)) (ucast (drop_bit 16 w)) (ucast (drop_bit 8 w)) (ucast w) = w"
  unfolding be32_def
proof (rule bit_word_eqI)
  fix n
  assume "n < LENGTH(32)"
  then show "bit (push_bit 24 (ucast (ucast (drop_bit 24 w) :: u8)) OR push_bit 16 (ucast (ucast (drop_bit 16 w) :: u8)) OR
      push_bit 8 (ucast (ucast (drop_bit 8 w) :: u8)) OR ucast (ucast w :: u8) :: u32) n = bit w n"
    by (cases "n < 8"; cases "n < 16"; cases "n < 24") (auto simp: bit_simps)
qed

lemma be64_step: "push_bit 8 (drop_bit (n + 8) w) OR ucast (ucast (drop_bit n w) :: u8) = drop_bit n (w :: u64)"
  by (rule bit_word_eqI) (auto simp: bit_simps)

lemma be64_to_be64: "be64 (to_be64 w) = w"
proof -
  have "push_bit 8 0 OR ucast (ucast (drop_bit 56 w) :: u8) = drop_bit 56 w"
    by (rule bit_word_eqI) (auto simp: bit_simps dest: bit_imp_le_length)
  moreover note be64_step [of 48 w] be64_step [of 40 w] be64_step [of 32 w] be64_step [of 24 w]
    be64_step [of 16 w] be64_step [of 8 w] be64_step [of 0 w]
  ultimately show ?thesis by (simp add: be64_def to_be64_def)
qed

lemma length_be [simp]: "length (to_be16 x) = 2" "length (to_be32 y) = 4" "length (to_be64 z) = 8"
  by (simp_all add: to_be16_def to_be32_def to_be64_def)

lemma le_to_le [simp]: "le16 (to_le16 x) = x" "le32 (to_le32 y) = y" "le64 (to_le64 z) = z"
proof -
  show "le16 (to_le16 x) = x" by (simp add: le16_def to_le16_def to_be16_def be16_to_be16 del: ucast_drop_bit_eq)
  have "to_le32 y = [ucast y, ucast (drop_bit 8 y), ucast (drop_bit 16 y), ucast (drop_bit 24 y)]"
    by (simp add: to_le32_def to_be32_def)
  then show "le32 (to_le32 y) = y" using be32_to_be32 [of y] by (simp add: le32_def numeral_eq_Suc del: ucast_drop_bit_eq)
  show "le64 (to_le64 z) = z" by (simp add: le64_def to_le64_def be64_to_be64)
qed

lemma length_le [simp]: "length (to_le16 x) = 2" "length (to_le32 y) = 4" "length (to_le64 z) = 8"
  by (simp_all add: to_le16_def to_le32_def to_le64_def)

end
