(* ===== verification/Rtp.thy ===== *)
theory Rtp
  imports MediaTime Bytes
begin

text \<open>
  The RTP header (\<^verbatim>\<open>rtp.rs\<close>): the fixed header, the parser for datagrams of arbitrary peers, header
  extensions in their one-byte and two-byte forms, the capture-time extensions, and the extension of wrapping
  sequence numbers and timestamps. A byte slice is a list; the checked additions on lengths are on numbers far
  below the word size and are written without the check.
\<close>

unbundle bit_operations_syntax

section \<open>The fixed header\<close>

definition RTP_HEADER_LEN :: nat where "RTP_HEADER_LEN = 12"

record rtp_header =
  payload_type :: u8
  marker :: bool
  sequence :: u16
  timestamp :: u32
  ssrc :: u32

record rtp_parsed_header =
  ph_header :: rtp_header
  ph_payload_offset :: nat

record rtp_parsed =
  rp_header :: rtp_header
  rp_payload_offset :: nat
  rp_payload_len :: nat

definition header_bytes :: "rtp_header \<Rightarrow> u8 list" where
  "header_bytes h =
     [0x80, (if marker h then 0x80 else 0) OR (payload_type h AND 0x7F)] @
     to_be16 (sequence h) @ to_be32 (timestamp h) @ to_be32 (ssrc h)"

definition get_be32 :: "u8 list \<Rightarrow> nat \<Rightarrow> u32 option" where
  "get_be32 buf i =
     Option.bind (get buf i) (\<lambda>a. Option.bind (get buf (i + 1)) (\<lambda>b.
     Option.bind (get buf (i + 2)) (\<lambda>c. Option.bind (get buf (i + 3)) (\<lambda>d. Some (be32 a b c d)))))"

definition header_end :: "u8 list \<Rightarrow> bool \<Rightarrow> nat \<Rightarrow> nat option" where
  "header_end buf has_extension payload_offset =
     (if has_extension then
        Option.bind (get buf (payload_offset + 2)) (\<lambda>hi.
        Option.bind (get buf (payload_offset + 3)) (\<lambda>lo.
          Some (payload_offset + 4 + unat (be16 hi lo) * 4)))
      else Some payload_offset)"

definition parse_header :: "u8 list \<Rightarrow> rtp_parsed_header option" where
  "parse_header buf =
     Option.bind (get buf 0) (\<lambda>b0.
     if drop_bit 6 b0 \<noteq> 2 then None
     else
       (let has_extension = (b0 AND 0x10 \<noteq> 0); csrc_count = unat (b0 AND 0x0F) in
        Option.bind (get buf 1) (\<lambda>b1.
        let mark = (b1 AND 0x80 \<noteq> 0); pt = b1 AND 0x7F in
        Option.bind (get buf 2) (\<lambda>s0. Option.bind (get buf 3) (\<lambda>s1.
        Option.bind (get_be32 buf 4) (\<lambda>ts. Option.bind (get_be32 buf 8) (\<lambda>src.
        Option.bind (header_end buf has_extension (RTP_HEADER_LEN + csrc_count * 4)) (\<lambda>payload_offset.
          if payload_offset > length buf then None
          else
            Some \<lparr>ph_header = \<lparr>payload_type = pt, marker = mark, sequence = be16 s0 s1, timestamp = ts, ssrc = src\<rparr>,
                  ph_payload_offset = payload_offset\<rparr>))))))))"

definition payload_end :: "u8 list \<Rightarrow> bool \<Rightarrow> nat option" where
  "payload_end buf has_padding =
     (if has_padding then
        (if length buf < 1 then None
         else
           Option.bind (get buf (length buf - 1)) (\<lambda>pad.
             if length buf < unat pad then None else Some (length buf - unat pad)))
      else Some (length buf))"

definition parse :: "u8 list \<Rightarrow> rtp_parsed option" where
  "parse buf =
     Option.bind (parse_header buf) (\<lambda>parsed.
     Option.bind (get buf 0) (\<lambda>b0.
     Option.bind (payload_end buf (b0 AND 0x20 \<noteq> 0)) (\<lambda>end_of.
       if ph_payload_offset parsed > end_of then None
       else
         Some \<lparr>rp_header = ph_header parsed, rp_payload_offset = ph_payload_offset parsed,
               rp_payload_len = end_of - ph_payload_offset parsed\<rparr>)))"

section \<open>Header extensions\<close>

definition RTP_VERSION :: u8 where "RTP_VERSION = 2"
definition EXTENSION_BIT :: u8 where "EXTENSION_BIT = 0x10"
definition CSRC_COUNT_MASK :: u8 where "CSRC_COUNT_MASK = 0x0F"
definition EXTENSION_HEADER_LEN :: nat where "EXTENSION_HEADER_LEN = 4"
definition EXTENSION_WORD_LEN :: nat where "EXTENSION_WORD_LEN = 4"
definition ONE_BYTE_EXTENSION_PROFILE :: u16 where "ONE_BYTE_EXTENSION_PROFILE = 0xBEDE"
definition TWO_BYTE_EXTENSION_PROFILE :: u16 where "TWO_BYTE_EXTENSION_PROFILE = 0x1000"
definition TWO_BYTE_PROFILE_MASK :: u16 where "TWO_BYTE_PROFILE_MASK = 0xFFF0"

lemmas rtp_consts = RTP_HEADER_LEN_def RTP_VERSION_def EXTENSION_BIT_def CSRC_COUNT_MASK_def EXTENSION_HEADER_LEN_def
  EXTENSION_WORD_LEN_def ONE_BYTE_EXTENSION_PROFILE_def TWO_BYTE_EXTENSION_PROFILE_def TWO_BYTE_PROFILE_MASK_def

record rtp_header_extension =
  ext_id :: u8
  ext_data :: "u8 list"

definition fits_one_byte_form :: "rtp_header_extension \<Rightarrow> bool" where
  "fits_one_byte_form e \<longleftrightarrow> 1 \<le> ext_id e \<and> ext_id e \<le> 14 \<and> 1 \<le> length (ext_data e) \<and> length (ext_data e) \<le> 16"

definition fits_two_byte_form :: "rtp_header_extension \<Rightarrow> bool" where
  "fits_two_byte_form e \<longleftrightarrow> ext_id e \<noteq> 0 \<and> length (ext_data e) \<le> 255"

definition extension_elements_len :: "rtp_header_extension list \<Rightarrow> (nat \<times> bool) option" where
  "extension_elements_len exts =
     (let one_byte = list_all fits_one_byte_form exts in
      if \<not> one_byte \<and> \<not> list_all fits_two_byte_form exts then None
      else
        (let element_header_len = (if one_byte then 1 else 2) in
         Some (foldl (\<lambda>total e. total + element_header_len + length (ext_data e)) 0 exts, one_byte)))"

definition next_multiple_of :: "nat \<Rightarrow> nat \<Rightarrow> nat" where
  "next_multiple_of n k = (if n mod k = 0 then n else n + (k - n mod k))"

definition extended_header_len :: "rtp_header_extension list \<Rightarrow> nat option" where
  "extended_header_len exts =
     (if exts = [] then Some RTP_HEADER_LEN
      else
        Option.bind (extension_elements_len exts) (\<lambda>(elements_len, _).
          let padded = next_multiple_of elements_len EXTENSION_WORD_LEN in
          if padded div EXTENSION_WORD_LEN < 2 ^ 16
          then Some (RTP_HEADER_LEN + EXTENSION_HEADER_LEN + padded) else None))"

definition element_header :: "bool \<Rightarrow> rtp_header_extension \<Rightarrow> u8 list" where
  "element_header one_byte e =
     (if one_byte then [push_bit 4 (ext_id e) OR of_nat (length (ext_data e) - 1)]
      else [ext_id e, of_nat (length (ext_data e))])"

fun write_elements :: "bool \<Rightarrow> rtp_header_extension list \<Rightarrow> nat \<times> u8 list \<Rightarrow> (nat \<times> u8 list) option" where
  "write_elements one_byte [] (k, out) = Some (k, out)"
| "write_elements one_byte (e # exts) (k, out) =
     Option.bind (write_at k (element_header one_byte e) out) (\<lambda>out.
       let k = k + length (element_header one_byte e) in
       Option.bind (write_at k (ext_data e) out) (\<lambda>out.
         write_elements one_byte exts (k + length (ext_data e), out)))"

text \<open>
  The outer option is a panic. The inner one is the result of the call: the length, and the buffer after the
  header has been written to its front.
\<close>

definition write_with_extensions ::
  "rtp_header \<Rightarrow> rtp_header_extension list \<Rightarrow> u8 list \<Rightarrow> (nat \<times> u8 list) option option" where
  "write_with_extensions h exts buf =
     (case extended_header_len exts of
        None \<Rightarrow> Some None
      | Some len \<Rightarrow>
          if len > length buf then Some None
          else
            Option.bind (write_at 0 (header_bytes h) (take len buf)) (\<lambda>out.
            if exts = [] then Some (Some (len, out @ drop len buf))
            else
              (case extension_elements_len exts of
                 None \<Rightarrow> Some None
               | Some (_, one_byte) \<Rightarrow>
                   (let out = out[0 := out ! 0 OR EXTENSION_BIT];
                        profile = (if one_byte then ONE_BYTE_EXTENSION_PROFILE else TWO_BYTE_EXTENSION_PROFILE);
                        words = of_nat ((len - RTP_HEADER_LEN - EXTENSION_HEADER_LEN) div EXTENSION_WORD_LEN) in
                    Option.bind (write_at RTP_HEADER_LEN (to_be16 profile @ to_be16 words) out) (\<lambda>out.
                    Option.bind (write_elements one_byte exts (RTP_HEADER_LEN + EXTENSION_HEADER_LEN, out)) (\<lambda>(k, out).
                      if k \<le> length out
                      then Some (Some (len, take k out @ replicate (length out - k) 0 @ drop len buf))
                      else None))))))"

definition extension_block :: "u8 list \<Rightarrow> (u16 \<times> u8 list) option" where
  "extension_block packet =
     Option.bind (get packet 0) (\<lambda>first.
     if drop_bit 6 first \<noteq> RTP_VERSION \<or> first AND EXTENSION_BIT = 0 then None
     else
       (let start = RTP_HEADER_LEN + unat (first AND CSRC_COUNT_MASK) * 4 in
        Option.bind (slice_get packet start (start + EXTENSION_HEADER_LEN)) (\<lambda>header.
          let profile = be16 (header ! 0) (header ! 1); words = unat (be16 (header ! 2) (header ! 3));
              data_start = start + EXTENSION_HEADER_LEN in
          Option.bind (slice_get packet data_start (data_start + words * EXTENSION_WORD_LEN)) (\<lambda>data.
            Some (profile, data)))))"

text \<open>The loop of \<^verbatim>\<open>find_extension\<close>; an element that overruns the block fails the whole lookup.\<close>

function find_element :: "bool \<Rightarrow> u8 \<Rightarrow> u8 list option \<Rightarrow> u8 list \<Rightarrow> u8 list option" where
  "find_element one_byte i found [] = found"
| "find_element one_byte i found (first # rest) =
     (if first = 0 then find_element one_byte i found rest
      else if one_byte then
        (let element_id = drop_bit 4 first; len = unat (first AND 0x0F) + 1 in
         if element_id = 15 \<or> element_id = 0 then found
         else if len \<le> length rest then
           find_element one_byte i (if element_id = i \<and> found = None then Some (take len rest) else found) (drop len rest)
         else None)
      else
        (case rest of
           [] \<Rightarrow> None
         | l # body \<Rightarrow>
             if unat l \<le> length body then
               find_element one_byte i (if first = i \<and> found = None then Some (take (unat l) body) else found)
                 (drop (unat l) body)
             else None))"
  by pat_completeness auto
termination
  by (relation "measure (\<lambda>(_, _, _, data). length data)") auto

definition find_extension :: "u8 list \<Rightarrow> u8 \<Rightarrow> u8 list option" where
  "find_extension packet i =
     Option.bind (extension_block packet) (\<lambda>(profile, data).
       let one_byte = (profile = ONE_BYTE_EXTENSION_PROFILE) in
       if \<not> one_byte \<and> profile AND TWO_BYTE_PROFILE_MASK \<noteq> TWO_BYTE_EXTENSION_PROFILE then None
       else find_element one_byte i None data)"

section \<open>Capture times\<close>

definition ABS_CAPTURE_TIME_URI :: string where
  "ABS_CAPTURE_TIME_URI = ''http://www.webrtc.org/experiments/rtp-hdrext/abs-capture-time''"

definition NTP_64_URI :: string where
  "NTP_64_URI = ''urn:ietf:params:rtp-hdrext:ntp-64''"

definition NTP_TIMESTAMP_LEN :: nat where "NTP_TIMESTAMP_LEN = 8"
definition ABS_CAPTURE_TIME_WITH_OFFSET_LEN :: nat where "ABS_CAPTURE_TIME_WITH_OFFSET_LEN = 16"

record capture_time_extension_ids =
  abs_capture_time :: "u8 option"
  ntp_64 :: "u8 option"

definition assign_extmap :: "u8 \<Rightarrow> string \<Rightarrow> capture_time_extension_ids \<Rightarrow> bool \<times> capture_time_extension_ids" where
  "assign_extmap i uri ids =
     (if uri = ABS_CAPTURE_TIME_URI then (True, ids\<lparr>abs_capture_time := Some i\<rparr>)
      else if uri = NTP_64_URI then (True, ids\<lparr>ntp_64 := Some i\<rparr>)
      else (False, ids))"

definition capture_elements :: "capture_time_extension_ids \<Rightarrow> u8 list \<Rightarrow> rtp_header_extension list" where
  "capture_elements ids ntp_bytes =
     map (\<lambda>i. \<lparr>ext_id = i, ext_data = ntp_bytes\<rparr>) (List.map_filter id [abs_capture_time ids, ntp_64 ids])"

definition option_filter :: "('a \<Rightarrow> bool) \<Rightarrow> 'a option \<Rightarrow> 'a option" where
  "option_filter p x = (case x of Some v \<Rightarrow> if p v then Some v else None | None \<Rightarrow> None)"

definition capture_read :: "capture_time_extension_ids \<Rightarrow> u8 list \<Rightarrow> u64 option" where
  "capture_read ids packet =
     (let abs_time = option_filter (\<lambda>data. length data = NTP_TIMESTAMP_LEN \<or> length data = ABS_CAPTURE_TIME_WITH_OFFSET_LEN)
            (Option.bind (abs_capture_time ids) (find_extension packet));
          ntp = option_filter (\<lambda>data. length data = NTP_TIMESTAMP_LEN) (Option.bind (ntp_64 ids) (find_extension packet)) in
      List.find (\<lambda>n. n \<noteq> 0)
        (map (\<lambda>data. be64 (take NTP_TIMESTAMP_LEN data)) (List.map_filter id [abs_time, ntp])))"

section \<open>Wrapping counters\<close>

definition extend_wrapping :: "nat \<Rightarrow> u64 option \<Rightarrow> u64 \<Rightarrow> u64 \<times> u64 option" where
  "extend_wrapping bits highest value =
     (let period = push_bit bits 1 in
      case highest of
        None \<Rightarrow> (period + value, Some (period + value))
      | Some high \<Rightarrow>
          (let forward_distance = (value - high) AND (period - 1);
               extended = (if forward_distance < period div 2 then saturating_add high forward_distance
                           else high - (period - forward_distance)) in
           (extended, if extended > high then Some extended else highest)))"

definition extend_sequence :: "u64 option \<Rightarrow> u16 \<Rightarrow> u64 \<times> u64 option" where
  "extend_sequence highest s = extend_wrapping 16 highest (ucast s)"

definition extend_timestamp :: "u64 option \<Rightarrow> u32 \<Rightarrow> u64 \<times> u64 option" where
  "extend_timestamp highest t = extend_wrapping 32 highest (ucast t)"

section \<open>The header reads back\<close>

lemma header_byte_1:
  "((if m then 0x80 else 0) OR (p AND 0x7F) :: u8) AND 0x7F = p AND 0x7F"
  "((if m then 0x80 else 0) OR (p AND 0x7F) :: u8) AND 0x80 \<noteq> 0 \<longleftrightarrow> m"
proof -
  have "(0x80 OR (p AND 0x7F) :: u8) AND 0x7F = p AND 0x7F" by (simp add: bit.conj_disj_distrib2 and.assoc)
  then show "((if m then 0x80 else 0) OR (p AND 0x7F) :: u8) AND 0x7F = p AND 0x7F" by (simp add: and.assoc)
  have "(0x80 OR (p AND 0x7F) :: u8) AND 0x80 = 0x80" "(p AND 0x7F :: u8) AND 0x80 = 0"
    by (simp_all add: bit.conj_disj_distrib2 and.assoc)
  then show "((if m then 0x80 else 0) OR (p AND 0x7F) :: u8) AND 0x80 \<noteq> 0 \<longleftrightarrow> m" by simp
qed

lemma length_header_bytes [simp]: "length (header_bytes h) = 12"
  by (simp add: header_bytes_def)

lemma get_append: "i < length xs \<Longrightarrow> get (xs @ ys) i = Some (xs ! i)"
  by (simp add: get_def nth_append)

lemma parse_header_bytes:
  "parse_header (b0 # b1 # s0 # s1 # t0 # t1 # t2 # t3 # r0 # r1 # r2 # r3 # rest) =
    (if drop_bit 6 b0 \<noteq> 2 then None
     else
       Option.bind (header_end (b0 # b1 # s0 # s1 # t0 # t1 # t2 # t3 # r0 # r1 # r2 # r3 # rest) (b0 AND 0x10 \<noteq> 0)
         (12 + unat (b0 AND 0x0F) * 4)) (\<lambda>off.
       if off > length (b0 # b1 # s0 # s1 # t0 # t1 # t2 # t3 # r0 # r1 # r2 # r3 # rest) then None
       else Some \<lparr>ph_header = \<lparr>payload_type = b1 AND 0x7F, marker = (b1 AND 0x80 \<noteq> 0), sequence = be16 s0 s1,
           timestamp = be32 t0 t1 t2 t3, ssrc = be32 r0 r1 r2 r3\<rparr>, ph_payload_offset = off\<rparr>))"
  by (simp add: parse_header_def get_def get_be32_def Let_def RTP_HEADER_LEN_def)

lemma header_bytes_cons: "\<exists>b1 s0 s1 t0 t1 t2 t3 r0 r1 r2 r3. header_bytes h = [0x80, b1, s0, s1, t0, t1, t2, t3, r0, r1, r2, r3] \<and>
    b1 AND 0x7F = payload_type h AND 0x7F \<and> (b1 AND 0x80 \<noteq> 0) = marker h \<and> be16 s0 s1 = sequence h \<and>
    be32 t0 t1 t2 t3 = timestamp h \<and> be32 r0 r1 r2 r3 = ssrc h"
  unfolding header_bytes_def to_be16_def to_be32_def append_Cons append_Nil
  by (intro exI conjI, rule refl) (simp_all add: header_byte_1 be16_to_be16 be32_to_be32 del: ucast_drop_bit_eq)

lemma parse_header_fixed:
  assumes "drop_bit 6 b0 = (2 :: u8)"
  shows "parse_header (b0 # tl (header_bytes h) @ rest) =
    Option.bind (header_end (b0 # tl (header_bytes h) @ rest) (b0 AND 0x10 \<noteq> 0) (12 + unat (b0 AND 0x0F) * 4)) (\<lambda>off.
      if off > length (b0 # tl (header_bytes h) @ rest) then None
      else Some \<lparr>ph_header = h\<lparr>payload_type := payload_type h AND 0x7F\<rparr>, ph_payload_offset = off\<rparr>)"
proof -
  obtain b1 s0 s1 t0 t1 t2 t3 r0 r1 r2 r3 where b: "header_bytes h = [0x80, b1, s0, s1, t0, t1, t2, t3, r0, r1, r2, r3]"
    and f: "b1 AND 0x7F = payload_type h AND 0x7F" "(b1 AND 0x80 \<noteq> 0) = marker h" "be16 s0 s1 = sequence h"
      "be32 t0 t1 t2 t3 = timestamp h" "be32 r0 r1 r2 r3 = ssrc h"
    using header_bytes_cons [of h] by blast
  have upd: "\<lparr>payload_type = payload_type h AND 0x7F, marker = marker h, sequence = sequence h, timestamp = timestamp h, ssrc = ssrc h\<rparr> =
      h\<lparr>payload_type := payload_type h AND 0x7F\<rparr>" by (cases h) simp
  show ?thesis unfolding b list.sel append_Cons append_Nil parse_header_bytes f upd using assms by simp
qed

section \<open>What the writer writes\<close>

definition enc_element :: "bool \<Rightarrow> rtp_header_extension \<Rightarrow> u8 list" where
  "enc_element one_byte e = element_header one_byte e @ ext_data e"

definition enc_elements :: "bool \<Rightarrow> rtp_header_extension list \<Rightarrow> u8 list" where
  "enc_elements one_byte exts = concat (map (enc_element one_byte) exts)"

lemma enc_elements_simps [simp]:
  "enc_elements one_byte [] = []"
  "enc_elements one_byte (e # exts) = element_header one_byte e @ ext_data e @ enc_elements one_byte exts"
  by (simp_all add: enc_elements_def enc_element_def)

lemma write_at_append: "length bs = length old \<Longrightarrow> write_at (length pre) bs (pre @ old @ post) = Some (pre @ bs @ post)"
  by (simp add: write_at_def)

lemma write_elements_at:
  "length (enc_elements one_byte exts) = length old \<Longrightarrow>
    write_elements one_byte exts (length pre, pre @ old @ post) =
      Some (length pre + length old, pre @ enc_elements one_byte exts @ post)"
proof (induction exts arbitrary: pre old)
  case Nil
  then show ?case by simp
next
  case (Cons e exts)
  let ?h = "element_header one_byte e" and ?d = "ext_data e"
  obtain o1 o2 o3 where old: "old = o1 @ o2 @ o3" and len: "length o1 = length ?h" "length o2 = length ?d"
      "length o3 = length (enc_elements one_byte exts)"
  proof
    let ?n = "length ?h" and ?m = "length ?d"
    show "old = take ?n old @ take ?m (drop ?n old) @ drop ?m (drop ?n old)" by (simp only: append_take_drop_id)
    show "length (take ?n old) = ?n" "length (take ?m (drop ?n old)) = ?m"
      "length (drop ?m (drop ?n old)) = length (enc_elements one_byte exts)"
      using Cons.prems by simp_all
  qed
  have 1: "write_at (length pre) ?h (pre @ old @ post) = Some (pre @ ?h @ o2 @ o3 @ post)"
    using write_at_append [of ?h o1 pre "o2 @ o3 @ post"] len old by simp
  have 2: "write_at (length pre + length ?h) ?d (pre @ ?h @ o2 @ o3 @ post) = Some (pre @ ?h @ ?d @ o3 @ post)"
    using write_at_append [of ?d o2 "pre @ ?h" "o3 @ post"] len by simp
  have 3: "write_elements one_byte exts (length pre + length ?h + length ?d, pre @ ?h @ ?d @ o3 @ post) =
      Some (length pre + length ?h + length ?d + length o3, pre @ ?h @ ?d @ enc_elements one_byte exts @ post)"
    using Cons.IH [of o3 "pre @ ?h @ ?d"] len by (simp add: add.assoc)
  show ?case using 1 2 3 old len by (simp add: Let_def add.assoc)
qed

lemma elements_len: "extension_elements_len exts = Some (n, one_byte) \<Longrightarrow>
    n = length (enc_elements one_byte exts) \<and> list_all (if one_byte then fits_one_byte_form else fits_two_byte_form) exts"
proof -
  assume a: "extension_elements_len exts = Some (n, one_byte)"
  have fold: "foldl (\<lambda>t e. t + k + length (ext_data e)) m exts = m + length (enc_elements b exts)"
    if "k = (if b then 1 else 2)" for k b m
    using that by (induction exts arbitrary: m) (simp_all add: element_header_def)
  show ?thesis using a fold by (auto simp: extension_elements_len_def Let_def split: if_splits)
qed

lemma next_multiple_of_ge: "0 < k \<Longrightarrow> n \<le> next_multiple_of n k \<and> k dvd next_multiple_of n k"
proof (cases "n mod k = 0")
  case False
  assume k: "0 < k"
  have "n + (k - n mod k) = n div k * k + k"
    using mod_less_divisor [OF k, of n] div_mult_mod_eq [of n k] by linarith
  then show ?thesis using False by (simp add: next_multiple_of_def)
qed (auto simp: next_multiple_of_def)

definition extension_packet :: "rtp_header \<Rightarrow> rtp_header_extension list \<Rightarrow> bool \<Rightarrow> nat \<Rightarrow> u8 list" where
  "extension_packet h exts one_byte padded =
     0x90 # tl (header_bytes h) @
     to_be16 (if one_byte then ONE_BYTE_EXTENSION_PROFILE else TWO_BYTE_EXTENSION_PROFILE) @ to_be16 (of_nat (padded div 4)) @
     enc_elements one_byte exts @ replicate (padded - length (enc_elements one_byte exts)) 0"

lemma write_with_extensions_packet:
  assumes "exts \<noteq> []" "extension_elements_len exts = Some (n, one_byte)" "16 + next_multiple_of n 4 \<le> length buf"
    "next_multiple_of n 4 div 4 < 2 ^ 16"
  shows "write_with_extensions h exts buf =
    Some (Some (16 + next_multiple_of n 4,
      extension_packet h exts one_byte (next_multiple_of n 4) @ drop (16 + next_multiple_of n 4) buf))"
proof -
  let ?p = "next_multiple_of n 4" and ?enc = "enc_elements one_byte exts"
  let ?prof = "if one_byte then ONE_BYTE_EXTENSION_PROFILE else TWO_BYTE_EXTENSION_PROFILE"
  have n: "n = length ?enc" "n \<le> ?p" using elements_len [OF assms(2)] next_multiple_of_ge [of 4 n] by simp_all
  obtain o1 o2 o3 o4 where buf: "take (16 + ?p) buf = o1 @ o2 @ o3 @ o4"
    and len: "length o1 = 12" "length o2 = 4" "length o3 = n" "length o4 = ?p - n"
  proof
    let ?b = "take (16 + ?p) buf"
    show "?b = take 12 ?b @ take 4 (drop 12 ?b) @ take n (drop 4 (drop 12 ?b)) @ drop n (drop 4 (drop 12 ?b))"
      by (simp only: append_take_drop_id)
  qed (use assms(3) n in simp_all)
  have total: "extended_header_len exts = Some (16 + ?p)"
    using assms by (simp add: extended_header_len_def rtp_consts Let_def)
  have 1: "write_at 0 (header_bytes h) (take (16 + ?p) buf) = Some (header_bytes h @ o2 @ o3 @ o4)"
    using write_at_append [of "header_bytes h" o1 "[]" "o2 @ o3 @ o4"] len buf by simp
  obtain b1 bs where hb: "header_bytes h = 0x80 # b1 # bs" by (simp add: header_bytes_def)
  let ?h1 = "0x90 # tl (header_bytes h)"
  have l1: "length ?h1 = 12" by simp
  have 2: "write_at 12 (to_be16 ?prof @ to_be16 (of_nat (?p div 4))) (?h1 @ o2 @ o3 @ o4) =
      Some (?h1 @ (to_be16 ?prof @ to_be16 (of_nat (?p div 4))) @ o3 @ o4)"
    using write_at_append [of "to_be16 ?prof @ to_be16 (of_nat (?p div 4))" o2 ?h1 "o3 @ o4"] len l1 by simp
  let ?h2 = "?h1 @ to_be16 ?prof @ to_be16 (of_nat (?p div 4))"
  have l2: "length ?h2 = 16" by simp
  have 3: "write_elements one_byte exts (16, ?h2 @ o3 @ o4) = Some (16 + n, ?h2 @ ?enc @ o4)"
    using write_elements_at [of one_byte exts o3 ?h2 o4] len n l2 by simp
  have 4: "take (16 + n) (?h2 @ ?enc @ o4) = ?h2 @ ?enc"
  proof -
    have "16 + n = length (?h2 @ ?enc)" using l2 n(1) by (metis length_append)
    then show ?thesis by (metis append_assoc append_eq_conv_conj)
  qed
  have upd: "(header_bytes h @ o2 @ o3 @ o4)[0 := (header_bytes h @ o2 @ o3 @ o4) ! 0 OR EXTENSION_BIT] = ?h1 @ o2 @ o3 @ o4"
    by (simp add: hb EXTENSION_BIT_def)
  show ?thesis
    unfolding write_with_extensions_def total option.case
    using assms(1,3) len n(2) 2 3 4
    by (simp add: 1 upd assms(2) Let_def RTP_HEADER_LEN_def EXTENSION_HEADER_LEN_def EXTENSION_WORD_LEN_def extension_packet_def
        n(1) [symmetric] split del: if_split)
qed

section \<open>Lookup finds what was written\<close>

definition first_extension :: "u8 \<Rightarrow> rtp_header_extension list \<Rightarrow> u8 list option" where
  "first_extension i exts = map_option ext_data (List.find (\<lambda>e. ext_id e = i) exts)"

lemma one_byte_header:
  assumes "fits_one_byte_form e"
  shows "element_header True e ! 0 \<noteq> 0" "drop_bit 4 (element_header True e ! 0) = ext_id e"
    "unat (element_header True e ! 0 AND 0x0F) + 1 = length (ext_data e)"
    "ext_id e \<noteq> 15" "ext_id e \<noteq> 0"
proof -
  let ?l = "of_nat (length (ext_data e) - 1) :: u8" and ?i = "ext_id e"
  have i: "1 \<le> ?i" "?i \<le> 14" and d: "1 \<le> length (ext_data e)" "length (ext_data e) \<le> 16"
    using assms by (simp_all add: fits_one_byte_form_def)
  have small: "unat (of_nat k :: u8) = k" if "k < 256" for k using that by (simp add: unat_of_nat)
  have ul: "unat ?l = length (ext_data e) - 1" by (rule small) (use d in linarith)
  have l: "take_bit 4 ?l = ?l" by (rule small_take_bit) (use ul d in simp)
  have "unat ?i < 2 ^ 4" using i by (simp add: word_le_nat_alt)
  then have i4: "take_bit 4 ?i = ?i" by (rule small_take_bit)
  have hi: "drop_bit 4 (push_bit 4 (take_bit 4 ?i) OR take_bit 4 ?l) = take_bit 4 ?i"
    by (rule bit_word_eqI) (auto simp: bit_simps)
  then show id: "drop_bit 4 (element_header True e ! 0) = ext_id e" using i4 l by (simp add: element_header_def)
  show "ext_id e \<noteq> 15" "ext_id e \<noteq> 0" using i by (auto simp: word_le_nat_alt)
  then show "element_header True e ! 0 \<noteq> 0" using id by auto
  have "(push_bit 4 ?i OR take_bit 4 ?l) AND 0x0F = take_bit 4 (push_bit 4 ?i OR take_bit 4 ?l)"
    using take_bit_eq_mask [of 4 "push_bit 4 ?i OR take_bit 4 ?l"] by (simp add: mask_eq_exp_minus_1)
  also have "\<dots> = take_bit 4 ?l" by (rule bit_word_eqI) (auto simp: bit_simps)
  finally show "unat (element_header True e ! 0 AND 0x0F) + 1 = length (ext_data e)"
    using l ul d by (simp add: element_header_def)
qed

lemma find_element_padding: "find_element one_byte i found (replicate k 0) = found"
  by (induction k) simp_all

lemma find_element_one:
  "list_all fits_one_byte_form exts \<Longrightarrow>
    find_element True i found (enc_elements True exts @ replicate k 0) = (if found = None then first_extension i exts else found)"
proof (induction exts arbitrary: found)
  case Nil
  then show ?case by (simp add: find_element_padding first_extension_def)
next
  case (Cons e exts)
  obtain b where b: "element_header True e = [b]" by (simp add: element_header_def)
  note h = one_byte_header [of e, unfolded b nth_Cons_0]
  show ?case using Cons h by (auto simp: b Let_def first_extension_def)
qed

lemma find_element_two:
  "list_all fits_two_byte_form exts \<Longrightarrow>
    find_element False i found (enc_elements False exts @ replicate k 0) = (if found = None then first_extension i exts else found)"
proof (induction exts arbitrary: found)
  case Nil
  then show ?case by (simp add: find_element_padding first_extension_def)
next
  case (Cons e exts)
  have "unat (of_nat (length (ext_data e)) :: u8) = length (ext_data e)"
    using Cons.prems by (simp add: fits_two_byte_form_def unat_of_nat)
  then show ?case using Cons by (auto simp: element_header_def first_extension_def fits_two_byte_form_def)
qed

lemma extension_packet_reads:
  fixes prof :: u16
  assumes w: "w < 2 ^ 16" and data: "length data = w * 4"
    and pk_def: "pk = 0x90 # tl (header_bytes h) @ to_be16 prof @ to_be16 (of_nat w) @ data @ rest"
  shows "parse_header pk = Some \<lparr>ph_header = h\<lparr>payload_type := payload_type h AND 0x7F\<rparr>, ph_payload_offset = 16 + w * 4\<rparr>"
    and "extension_block pk = Some (prof, data)"
proof -
  obtain p0 p1 w0 w1 where pw: "to_be16 prof = [p0, p1]" "to_be16 (of_nat w) = [w0, w1]"
    and vals: "be16 p0 p1 = prof" "be16 w0 w1 = of_nat w"
    using be16_to_be16 [of prof] be16_to_be16 [of "of_nat w"] by (simp add: to_be16_def)
  have uw: "unat (be16 w0 w1) = w" using w vals by (simp add: unat_of_nat)
  let ?h = "0x90 # tl (header_bytes h)"
  have l: "length ?h = 12" by simp
  have pk: "pk = ?h @ [p0, p1, w0, w1] @ data @ rest" by (simp add: pk_def pw)
  have nth: "pk ! 14 = w0" "pk ! 15 = w1" unfolding pk nth_append l by simp_all
  have len: "length pk = 16 + w * 4 + length rest" unfolding pk using l data by simp
  have bits: "drop_bit 6 (0x90 :: u8) = 2" "(0x90 :: u8) AND 0x10 \<noteq> 0" "(0x90 :: u8) AND 0x0F = 0" by code_simp+
  have he: "header_end pk True 12 = Some (16 + w * 4)" using nth len uw by (simp add: header_end_def get_def)
  have "parse_header pk = Option.bind (header_end pk True 12) (\<lambda>off. if off > length pk then None
      else Some \<lparr>ph_header = h\<lparr>payload_type := payload_type h AND 0x7F\<rparr>, ph_payload_offset = off\<rparr>)"
    using parse_header_fixed [OF bits(1), of h "[p0, p1, w0, w1] @ data @ rest"] bits pk by simp
  then show "parse_header pk = Some \<lparr>ph_header = h\<lparr>payload_type := payload_type h AND 0x7F\<rparr>, ph_payload_offset = 16 + w * 4\<rparr>"
    using he len by simp
  have s1: "slice_get pk 12 16 = Some [p0, p1, w0, w1]" unfolding slice_get_def len unfolding pk using l by simp
  have s2: "slice_get pk 16 (16 + w * 4) = Some data" unfolding slice_get_def len unfolding pk using l data by simp
  have g: "get pk 0 = Some 0x90" by (simp add: pk get_def)
  show "extension_block pk = Some (prof, data)"
    using bits s1 s2 vals uw by (simp add: extension_block_def g rtp_consts Let_def)
qed

lemma not_extended:
  "extension_block (header_bytes h @ rest) = None"
  "parse_header (header_bytes h @ rest) = Some \<lparr>ph_header = h\<lparr>payload_type := payload_type h AND 0x7F\<rparr>, ph_payload_offset = 12\<rparr>"
proof -
  have bits: "drop_bit 6 (0x80 :: u8) = 2" "(0x80 :: u8) AND 0x10 = 0" "(0x80 :: u8) AND 0x0F = 0" by code_simp+
  have hb: "header_bytes h = 0x80 # tl (header_bytes h)" by (simp add: header_bytes_def)
  have g: "get (header_bytes h @ rest) 0 = Some 0x80" by (subst hb) (simp add: get_def)
  show "extension_block (header_bytes h @ rest) = None" using bits by (simp add: extension_block_def g rtp_consts)
  show "parse_header (header_bytes h @ rest) = Some \<lparr>ph_header = h\<lparr>payload_type := payload_type h AND 0x7F\<rparr>, ph_payload_offset = 12\<rparr>"
    using parse_header_fixed [OF bits(1), of h rest] bits by (subst hb) (simp add: header_end_def)
qed

lemma write_with_extensions_spec:
  "case write_with_extensions h exts buf of
     None \<Rightarrow> False
   | Some None \<Rightarrow> (case extended_header_len exts of None \<Rightarrow> True | Some n \<Rightarrow> length buf < n)
   | Some (Some (n, out)) \<Rightarrow>
       extended_header_len exts = Some n \<and> length out = length buf \<and> drop n out = drop n buf \<and>
       parse_header out = Some \<lparr>ph_header = h\<lparr>payload_type := payload_type h AND 0x7F\<rparr>, ph_payload_offset = n\<rparr> \<and>
       find_extension out i = first_extension i exts"
proof (cases "extended_header_len exts")
  case None
  then show ?thesis by (simp add: write_with_extensions_def)
next
  case (Some n)
  show ?thesis
  proof (cases "n \<le> length buf")
    case False
    then show ?thesis using Some by (simp add: write_with_extensions_def)
  next
    case fits: True
    show ?thesis
    proof (cases "exts = []")
      case True
      then have n: "n = 12" using Some by (simp add: extended_header_len_def RTP_HEADER_LEN_def)
      have "write_with_extensions h exts buf = Some (Some (12, header_bytes h @ drop 12 buf))"
        using True fits n by (simp add: write_with_extensions_def extended_header_len_def RTP_HEADER_LEN_def write_at_def)
      then show ?thesis using Some fits n True not_extended
        by (simp add: find_extension_def first_extension_def)
    next
      case False
      then obtain k one_byte where k: "extension_elements_len exts = Some (k, one_byte)"
        and n: "n = 16 + next_multiple_of k 4" and small: "next_multiple_of k 4 div 4 < 2 ^ 16"
        using Some by (auto simp: extended_header_len_def rtp_consts Let_def bind_eq_Some_conv split: if_splits)
      define w where "w = next_multiple_of k 4 div 4"
      have w4: "next_multiple_of k 4 = w * 4" using next_multiple_of_ge [of 4 k] by (simp add: w_def)
      define data where "data = enc_elements one_byte exts @ replicate (w * 4 - length (enc_elements one_byte exts)) 0"
      have "length (enc_elements one_byte exts) \<le> w * 4"
        using elements_len [OF k] next_multiple_of_ge [of 4 k] w4 by simp
      then have len: "length data = w * 4" by (simp add: data_def)
      define prof where "prof = (if one_byte then ONE_BYTE_EXTENSION_PROFILE else TWO_BYTE_EXTENSION_PROFILE)"
      define out where "out = 0x90 # tl (header_bytes h) @ to_be16 prof @ to_be16 (of_nat w) @ data @ drop n buf"
      have packet: "extension_packet h exts one_byte (w * 4) @ drop n buf = out"
        by (simp add: extension_packet_def out_def data_def prof_def)
      have wr: "write_with_extensions h exts buf = Some (Some (n, out))"
        using write_with_extensions_packet [OF False k _ small] fits n packet unfolding w4 by simp
      have small': "w < 2 ^ 16" using small by (simp add: w_def)
      note reads = extension_packet_reads [OF small' len out_def]
      have find: "find_element one_byte i None data = first_extension i exts"
        using elements_len [OF k] find_element_one [of exts i None] find_element_two [of exts i None]
        by (cases one_byte) (simp_all add: data_def)
      have prof: "(prof = ONE_BYTE_EXTENSION_PROFILE) = one_byte"
        "\<not> one_byte \<Longrightarrow> prof AND TWO_BYTE_PROFILE_MASK = TWO_BYTE_EXTENSION_PROFILE"
        by (cases one_byte; simp add: prof_def rtp_consts)+
      have "find_extension out i = first_extension i exts" using reads(2) prof find by (auto simp: find_extension_def Let_def)
      moreover have "length out = length buf" using fits len n w4 by (simp add: out_def)
      moreover have "drop n out = drop n buf"
      proof -
        have "out = (0x90 # tl (header_bytes h) @ to_be16 prof @ to_be16 (of_nat w) @ data) @ drop n buf" by (simp add: out_def)
        moreover have "length (0x90 # tl (header_bytes h) @ to_be16 prof @ to_be16 (of_nat w) @ data) = n"
          using len n w4 by simp
        ultimately show ?thesis by (metis append_eq_conv_conj)
      qed
      ultimately show ?thesis using wr Some reads(1) n w4 by simp
    qed
  qed
qed

lemma rtp_roundtrip_find:
  "write_with_extensions h exts buf = Some (Some (n, out)) \<Longrightarrow> find_extension out i = first_extension i exts"
  using write_with_extensions_spec [where h = h and exts = exts and buf = buf and i = i] by simp

section \<open>Properties\<close>

text \<open>
  C7. Writing a header with extensions never panics. It succeeds exactly if the extensions have a
  wire form and the buffer has room; then the header parses back (its payload type reduced to seven bits),
  the payload starts after the written bytes, the rest of the buffer is untouched, and every extension is
  found again, the first one of an identifier.
\<close>

theorem rtp_extension_roundtrip:
  "case write_with_extensions h exts buf of
     None \<Rightarrow> False
   | Some None \<Rightarrow> (case extended_header_len exts of None \<Rightarrow> True | Some n \<Rightarrow> length buf < n)
   | Some (Some (n, out)) \<Rightarrow>
       extended_header_len exts = Some n \<and> length out = length buf \<and> drop n out = drop n buf \<and>
       parse_header out = Some \<lparr>ph_header = h\<lparr>payload_type := payload_type h AND 0x7F\<rparr>, ph_payload_offset = n\<rparr> \<and>
       find_extension out i = first_extension i exts"
  by (rule write_with_extensions_spec)

text \<open>
  The parser never points outside the datagram: the payload it reports lies behind the fixed header
  and inside the buffer; and a packet made of a header and a payload parses back to them.
\<close>

theorem rtp_parse_in_bounds:
  "(case parse buf of None \<Rightarrow> True
    | Some p \<Rightarrow> 12 \<le> rp_payload_offset p \<and> rp_payload_offset p + rp_payload_len p \<le> length buf) \<and>
   (case parse_header buf of None \<Rightarrow> True | Some p \<Rightarrow> 12 \<le> ph_payload_offset p \<and> ph_payload_offset p \<le> length buf) \<and>
   parse (header_bytes h @ payload) =
     Some \<lparr>rp_header = h\<lparr>payload_type := payload_type h AND 0x7F\<rparr>, rp_payload_offset = 12, rp_payload_len = length payload\<rparr>"
proof -
  have off: "12 \<le> off" if "header_end buf e (12 + k) = Some off" for e k off
    using that by (auto simp: header_end_def bind_eq_Some_conv split: if_splits)
  have ph: "12 \<le> ph_payload_offset p \<and> ph_payload_offset p \<le> length buf" if "parse_header buf = Some p" for p
    using that off by (auto simp: parse_header_def bind_eq_Some_conv Let_def RTP_HEADER_LEN_def split: if_splits)
  have pe: "e \<le> length buf" if "payload_end buf b = Some e" for b e
    using that by (auto simp: payload_end_def bind_eq_Some_conv split: if_splits)
  have p: "12 \<le> rp_payload_offset p \<and> rp_payload_offset p + rp_payload_len p \<le> length buf" if "parse buf = Some p" for p
    using that ph pe by (fastforce simp: parse_def bind_eq_Some_conv split: if_splits)
  have g0: "get (header_bytes h @ payload) 0 = Some 0x80" by (simp add: header_bytes_def get_def)
  have "(0x80 :: u8) AND 0x20 = 0" by code_simp
  then have "parse (header_bytes h @ payload) =
     Some \<lparr>rp_header = h\<lparr>payload_type := payload_type h AND 0x7F\<rparr>, rp_payload_offset = 12, rp_payload_len = length payload\<rparr>"
    unfolding parse_def not_extended g0 by (simp add: payload_end_def)
  then show ?thesis using ph p by (simp split: option.split)
qed

section \<open>Extended counters\<close>

lemma forward_distance:
  fixes v h :: u64
  assumes "bits \<le> 32"
  shows "uint ((v - h) AND (push_bit bits 1 - 1)) = (uint v - uint h) mod 2 ^ bits"
proof -
  have "push_bit bits 1 - 1 = (mask bits :: u64)" by (simp add: mask_eq_exp_minus_1 push_bit_of_1)
  then have "(v - h) AND (push_bit bits 1 - 1) = take_bit bits (v - h)" by (simp add: take_bit_eq_mask)
  then have "uint ((v - h) AND (push_bit bits 1 - 1)) = take_bit bits (uint (v - h))" by (simp add: unsigned_take_bit_eq)
  also have "uint (v - h) = take_bit 64 (uint v - uint h)" by (simp add: uint_word_ariths take_bit_eq_mod)
  also have "take_bit bits (take_bit 64 (uint v - uint h)) = take_bit bits (uint v - uint h)" using assms by simp
  finally show ?thesis by (simp add: take_bit_eq_mod)
qed

lemma window_mod:
  fixes t h :: int
  assumes "0 < half"
  shows "h \<le> t \<Longrightarrow> t < h + half \<Longrightarrow> (t - h) mod (2 * half) = t - h"
    and "h - half \<le> t \<Longrightarrow> t < h \<Longrightarrow> (t - h) mod (2 * half) = 2 * half - (h - t)"
proof -
  show "h \<le> t \<Longrightarrow> t < h + half \<Longrightarrow> (t - h) mod (2 * half) = t - h" using assms by simp
  assume "h - half \<le> t" "t < h"
  then have "(t - h + 2 * half) mod (2 * half) = t - h + 2 * half" using assms by (intro mod_pos_pos_trivial) linarith+
  then show "(t - h) mod (2 * half) = 2 * half - (h - t)" by simp
qed

lemma extend_wrapping_near:
  fixes v high :: u64
  assumes bits: "bits = Suc b" "bits \<le> 32" and high: "2 ^ bits \<le> uint high"
    and v: "int t mod 2 ^ bits = uint v" and near: "uint high - 2 ^ b \<le> int t" "int t < uint high + 2 ^ b" and t: "t < 2 ^ 64"
  shows "extend_wrapping bits (Some high) v = (word_of_nat t, Some (word_of_nat (max t (unat high))))"
proof -
  define period :: u64 where "period = push_bit bits 1"
  define fd where "fd = (v - high) AND (period - 1)"
  have half: "(0 :: int) < 2 ^ b" "(2 :: int) ^ bits = 2 * 2 ^ b" using bits(1) by simp_all
  have up: "uint period = 2 ^ bits"
  proof -
    have "(2 :: int) ^ bits < 2 ^ 64" using bits(2) by (intro power_strict_increasing) simp_all
    then show ?thesis using bits(2) unfolding period_def unsigned_push_bit_eq by (simp add: push_bit_of_1 take_bit_int_eq_self)
  qed
  have ph: "uint (period div 2) = 2 ^ b" using up half(2) by (simp add: uint_div)
  have fd: "uint fd = (int t - uint high) mod 2 ^ bits"
    using forward_distance [OF bits(2), of v high] v unfolding fd_def period_def by (metis mod_diff_left_eq)
  have ut: "uint (word_of_nat t :: u64) = int t" using t by (simp add: unsigned_of_nat take_bit_nat_eq_self)
  have e0: "(if fd < period div 2 then saturating_add high fd else high - (period - fd)) = word_of_nat t"
  proof (cases "uint high \<le> int t")
    case True
    then have e: "uint fd = int t - uint high" using window_mod(1) [OF half(1) True near(2)] fd half(2) by simp
    then have "fd < period div 2" using near(2) ph by (simp add: word_less_def)
    moreover have "int (unat high + unat fd) = int t" using e by simp
    then have sum: "unat high + unat fd = t" by (simp only: of_nat_eq_iff)
    then have "saturating_add high fd = high + fd" using t by (simp add: saturating_add_def checked_add_def)
    moreover have "high + fd = word_of_nat t" unfolding sum [symmetric] by simp
    ultimately show ?thesis by simp
  next
    case False
    then have e: "uint fd = 2 ^ bits - (uint high - int t)" using window_mod(2) [OF half(1) near(1)] fd half(2) by simp
    then have "\<not> fd < period div 2" using near(1) ph half(2) by (simp add: word_less_def)
    moreover have "high - (period - fd) = word_of_int (uint high - (uint period - uint fd))" by simp
    then have "high - (period - fd) = word_of_nat t" using e up by simp
    ultimately show ?thesis by simp
  qed
  have ext: "extend_wrapping bits (Some high) v =
      (word_of_nat t, if word_of_nat t > high then Some (word_of_nat t) else Some high)"
    unfolding extend_wrapping_def Let_def period_def [symmetric] option.case fd_def [symmetric] e0 ..
  have "(high < word_of_nat t) = (unat high < t)" using t by (simp add: word_less_nat_alt unat_of_nat)
  then show ?thesis unfolding ext by (auto simp: max_def)
qed

text \<open>Indices that stay within half a wrap period of the highest one so far.\<close>

fun near :: "nat \<Rightarrow> nat \<Rightarrow> nat list \<Rightarrow> bool" where
  "near half high [] \<longleftrightarrow> True"
| "near half high (t # ts) \<longleftrightarrow> high \<le> t + half \<and> t < high + half \<and> near half (max t high) ts"

fun extend_all :: "nat \<Rightarrow> u64 option \<Rightarrow> u64 list \<Rightarrow> u64 list" where
  "extend_all bits st [] = []"
| "extend_all bits st (v # vs) = (let (e, st') = extend_wrapping bits st v in e # extend_all bits st' vs)"

lemma extend_all_near:
  assumes "bits = Suc b" "bits \<le> 32" "2 ^ bits \<le> unat high" "near (2 ^ b) (unat high) ts" "\<forall>t \<in> set ts. t < 2 ^ 64"
  shows "extend_all bits (Some high) (map (\<lambda>t. word_of_nat (t mod 2 ^ bits)) ts) = map word_of_nat ts"
  using assms(3-5)
proof (induction ts arbitrary: high)
  case Nil
  then show ?case by simp
next
  case (Cons t ts)
  have "(2 :: nat) ^ bits < 2 ^ 64" using assms(2) by (intro power_strict_increasing) simp_all
  moreover have "t mod 2 ^ bits < 2 ^ bits" by simp
  ultimately have "t mod 2 ^ bits < 2 ^ 64" by linarith
  then have v: "uint (word_of_nat (t mod 2 ^ bits) :: u64) = int t mod 2 ^ bits"
    by (simp add: unsigned_of_nat take_bit_nat_eq_self of_nat_mod)
  have h: "2 ^ bits \<le> uint high" using Cons.prems(1) by (metis of_nat_le_iff of_nat_numeral of_nat_power uint_nat)
  have n: "uint high - 2 ^ b \<le> int t" "int t < uint high + 2 ^ b"
  proof -
    have "int (unat high) \<le> int (t + 2 ^ b)" "int t < int (unat high + 2 ^ b)" using Cons.prems(2) by (simp_all only: near.simps of_nat_le_iff of_nat_less_iff)
    then show "uint high - 2 ^ b \<le> int t" "int t < uint high + 2 ^ b" by simp_all
  qed
  have t: "t < 2 ^ 64" using Cons.prems(3) by simp
  have step: "extend_wrapping bits (Some high) (word_of_nat (t mod 2 ^ bits)) = (word_of_nat t, Some (word_of_nat (max t (unat high))))"
    by (rule extend_wrapping_near [OF assms(1,2) h v [symmetric] n t])
  have "unat (word_of_nat (max t (unat high)) :: u64) = max t (unat high)"
    using t u64_less [of high] by (simp add: unat_of_nat)
  then show ?case using Cons.IH [of "word_of_nat (max t (unat high))"] Cons.prems step by simp
qed

text \<open>
  C13. Extending wrapped counters recovers the stream: packets whose true indices (counted from one wrap
  period up) never stray half a period from the highest index so far get exactly their indices, whatever the
  order within that window, for sequence numbers and for timestamps.
\<close>

theorem extender_recovers:
  assumes "bits = 16 \<or> bits = 32" and "2 ^ bits \<le> t" and "t < 2 * 2 ^ bits"
    and "near (2 ^ bits div 2) t ts" and "\<forall>i \<in> set ts. i < 2 ^ 64"
  shows "extend_all bits None (map (\<lambda>i. word_of_nat (i mod 2 ^ bits)) (t # ts)) = map word_of_nat (t # ts)"
proof -
  have bits: "bits = Suc (bits - 1)" "bits \<le> 32" using assms(1) by auto
  have "(2 :: nat) ^ bits \<le> 2 ^ 32" using bits(2) by (intro power_increasing) simp_all
  then have t: "t < 2 ^ 64" using assms(3) by simp
  then have ut: "unat (word_of_nat t :: u64) = t" by (simp add: unat_of_nat)
  have "t mod 2 ^ bits = t - 2 ^ bits" using assms(2,3) by (simp add: le_mod_geq)
  then have "word_of_nat (2 ^ bits + t mod 2 ^ bits) = (word_of_nat t :: u64)" using assms(2) by simp
  then have first: "extend_wrapping bits None (word_of_nat (t mod 2 ^ bits)) = (word_of_nat t, Some (word_of_nat t))"
    by (simp add: extend_wrapping_def Let_def push_bit_of_1)
  have half: "(2 :: nat) ^ bits div 2 = 2 ^ (bits - 1)" by (subst bits(1)) simp
  have "extend_all bits (Some (word_of_nat t)) (map (\<lambda>i. word_of_nat (i mod 2 ^ bits)) ts) = map word_of_nat ts"
    by (rule extend_all_near [OF bits]) (use assms(2,4,5) ut half in simp_all)
  then show ?thesis using first by simp
qed

theorem extender_recovers_witness:
  "extend_all 16 None (map (\<lambda>i. word_of_nat (i mod 65536)) [131071, 131073, 131070, 131074]) = map word_of_nat [131071, 131073, 131070, 131074]"
proof -
  have n: "(2 :: nat) ^ 16 = 65536" by simp
  have "extend_all 16 None (map (\<lambda>i. word_of_nat (i mod 2 ^ 16)) (131071 # [131073, 131070, 131074])) =
      map word_of_nat (131071 # [131073, 131070, 131074])"
    by (rule extender_recovers) simp_all
  then show ?thesis unfolding n .
qed

section \<open>Capture times\<close>

lemma first_extension_capture:
  assumes "i = the (abs_capture_time ids) \<and> abs_capture_time ids \<noteq> None \<or> i = the (ntp_64 ids) \<and> ntp_64 ids \<noteq> None"
  shows "first_extension i (capture_elements ids bs) = Some bs"
  using assms by (cases "abs_capture_time ids"; cases "ntp_64 ids") (auto simp: first_extension_def capture_elements_def map_filter_def)

lemma capture_read_written:
  assumes "write_with_extensions h (capture_elements ids (to_be64 ntp)) buf = Some (Some (n, out))"
    and "abs_capture_time ids \<noteq> None \<or> ntp_64 ids \<noteq> None"
  shows "capture_read ids out = (if ntp = 0 then None else Some ntp)"
proof -
  have find: "find_extension out i = first_extension i (capture_elements ids (to_be64 ntp))" for i
    using rtp_roundtrip_find [OF assms(1)] .
  show ?thesis
    using assms(2) first_extension_capture [of _ ids "to_be64 ntp"]
    by (cases "abs_capture_time ids"; cases "ntp_64 ids")
      (auto simp: capture_read_def find option_filter_def NTP_TIMESTAMP_LEN_def map_filter_def be64_to_be64)
qed

definition valid_ids :: "capture_time_extension_ids \<Rightarrow> bool" where
  "valid_ids ids \<longleftrightarrow> (abs_capture_time ids \<noteq> None \<or> ntp_64 ids \<noteq> None) \<and> abs_capture_time ids \<noteq> Some 0 \<and> ntp_64 ids \<noteq> Some 0"

lemma capture_header_len:
  assumes "valid_ids ids"
  shows "\<exists>n \<le> 36. extended_header_len (capture_elements ids (to_be64 ntp)) = Some n"
proof -
  let ?e = "capture_elements ids (to_be64 ntp)"
  have two: "list_all fits_two_byte_form ?e" and count: "?e \<noteq> []" "length ?e \<le> 2"
    using assms by (cases "abs_capture_time ids"; cases "ntp_64 ids";
        auto simp: valid_ids_def capture_elements_def map_filter_def fits_two_byte_form_def)+
  then obtain k b where k: "extension_elements_len ?e = Some (k, b)" by (auto simp: extension_elements_len_def Let_def)
  have data: "\<forall>e \<in> set ?e. length (ext_data e) = 8" by (auto simp: capture_elements_def)
  have "length (enc_elements b es) \<le> 10 * length es" if "\<forall>e \<in> set es. length (ext_data e) = 8" for es
    using that by (induction es) (auto simp: element_header_def)
  then have "k \<le> 20" using elements_len [OF k] data count(2) by fastforce
  then have "next_multiple_of k 4 \<le> 20" by (auto simp: next_multiple_of_def) presburger
  then show ?thesis using k count(1) by (simp add: extended_header_len_def rtp_consts Let_def)
qed

text \<open>
  A capture time put into an RTP header is read back by the receiver, exactly, whichever of the two
  extensions is negotiated and whatever the rest of the packet holds.
\<close>

theorem capture_time_survives:
  assumes "valid_ids ids" and "36 \<le> length buf" and "ntp_from_unix_nanos x = Some ntp"
    and "- (61505152 * 1000000000) \<le> sint x" and "sint x < 4233462144 * 1000000000" and "sint x \<noteq> 2085978496 * 1000000000"
  shows "\<exists>n out. write_with_extensions h (capture_elements ids (to_be64 ntp)) buf = Some (Some (n, out)) \<and>
    Option.bind (capture_read ids out) unix_nanos_from_ntp = Some x"
proof -
  let ?e = "capture_elements ids (to_be64 ntp)"
  obtain m where m: "m \<le> 36" "extended_header_len ?e = Some m" using capture_header_len [OF assms(1)] by blast
  obtain n out where w: "write_with_extensions h ?e buf = Some (Some (n, out))"
    using write_with_extensions_spec [where h = h and exts = ?e and buf = buf and i = 0] m assms(2)
    by (cases "write_with_extensions h ?e buf"; cases "the (write_with_extensions h ?e buf)") auto
  have "ntp \<noteq> 0" "unix_nanos_from_ntp ntp = Some x" using ntp_unix_exact [OF assms(4,5)] assms(3,6) by auto
  moreover have "capture_read ids out = (if ntp = 0 then None else Some ntp)"
    using capture_read_written [OF w] assms(1) by (simp add: valid_ids_def)
  ultimately show ?thesis using w by simp
qed

definition demo_ids :: capture_time_extension_ids where
  "demo_ids = \<lparr>abs_capture_time = Some 3, ntp_64 = Some 20\<rparr>"

theorem capture_time_survives_witness:
  "\<exists>ntp n out. ntp_from_unix_nanos 1700000000000000123 = Some ntp \<and>
    write_with_extensions \<lparr>payload_type = 96, marker = True, sequence = 1, timestamp = 2, ssrc = 3\<rparr>
      (capture_elements demo_ids (to_be64 ntp)) (replicate 64 0) = Some (Some (n, out)) \<and>
    Option.bind (capture_read demo_ids out) unix_nanos_from_ntp = Some 1700000000000000123"
proof -
  let ?x = "1700000000000000123 :: i64"
  have sx: "sint ?x = 1700000000000000123" by code_simp
  have "ntp_from_unix_nanos ?x \<noteq> None" by code_simp
  then obtain ntp where ntp: "ntp_from_unix_nanos ?x = Some ntp" by blast
  have ids: "valid_ids demo_ids" by (simp add: valid_ids_def demo_ids_def)
  show ?thesis
    using capture_time_survives [OF ids _ ntp, of "replicate 64 0" "\<lparr>payload_type = 96, marker = True, sequence = 1, timestamp = 2, ssrc = 3\<rparr>"]
      sx ntp by simp
qed

end
