(* ===== verification/StateControl.thy ===== *)
theory StateControl
  imports G2G_Prelude
begin

text \<open>
  The lifecycle controller of a pipeline (\<^verbatim>\<open>state.rs\<close>, \<^verbatim>\<open>runtime/state.rs\<close>, the play anchor of
  \<^verbatim>\<open>clock.rs\<close>): the ladder of states, preroll accounting, and the gates on which sinks park. First the
  operations, each as one call; then the calls that change the state and the polls of the gates as programs
  that interleave at their atomic accesses. A waker is a number, a clock reading is an argument, and the bus
  is the list of messages offered to it.
\<close>

section \<open>States\<close>

datatype pipeline_state = Null | Ready | Paused | Playing

datatype state_change_return = Success | Async | NoPreroll | Failure

definition state_as_u8 :: "pipeline_state \<Rightarrow> u8" where
  "state_as_u8 s = (case s of Null \<Rightarrow> 0 | Ready \<Rightarrow> 1 | Paused \<Rightarrow> 2 | Playing \<Rightarrow> 3)"

definition state_from_u8 :: "u8 \<Rightarrow> pipeline_state" where
  "state_from_u8 v = (if v = 0 then Null else if v = 1 then Ready else if v = 2 then Paused else Playing)"

datatype bus_message = StateChanged pipeline_state pipeline_state | AsyncDone

datatype flow = Go | Stop

section \<open>The controller\<close>

text \<open>
  \<open>sc_anchor\<close> is \<open>None\<close> until a clock is armed; the inner value is the stamped base time. \<open>sc_woken\<close>
  collects the wakers that have been called.
\<close>

record controller =
  sc_state :: u8
  sc_live :: bool
  sc_prerolled :: bool
  sc_pending_preroll :: nat
  sc_preroll_target :: nat
  sc_preroll_gen :: u64
  sc_wakers :: "nat list"
  sc_preroll_wakers :: "nat list"
  sc_bus :: "bus_message list option"
  sc_anchor :: "u64 option"
  sc_woken :: "nat list"

definition ANCHOR_UNSET :: u64 where "ANCHOR_UNSET = - 1"

definition anchor_get :: "u64 \<Rightarrow> u64 option" where
  "anchor_get v = (if v = ANCHOR_UNSET then None else Some v)"

definition controller_build :: "pipeline_state \<Rightarrow> bus_message list option \<Rightarrow> controller" where
  "controller_build initial bus =
     \<lparr>sc_state = state_as_u8 initial, sc_live = False, sc_prerolled = False, sc_pending_preroll = 1,
      sc_preroll_target = 1, sc_preroll_gen = 0, sc_wakers = [], sc_preroll_wakers = [], sc_bus = bus,
      sc_anchor = None, sc_woken = []\<rparr>"

definition controller_new :: "pipeline_state \<Rightarrow> controller" where
  "controller_new initial = controller_build initial None"

definition controller_with_bus :: "pipeline_state \<Rightarrow> controller" where
  "controller_with_bus initial = controller_build initial (Some [])"

definition ctl_state :: "controller \<Rightarrow> pipeline_state" where
  "ctl_state c = state_from_u8 (sc_state c)"

definition is_playing :: "controller \<Rightarrow> bool" where
  "is_playing c \<longleftrightarrow> ctl_state c = Playing"

definition set_live :: "bool \<Rightarrow> controller \<Rightarrow> controller" where
  "set_live live c = c\<lparr>sc_live := live\<rparr>"

definition arm_play_anchor :: "u64 \<Rightarrow> controller \<Rightarrow> controller" where
  "arm_play_anchor now c =
     c\<lparr>sc_anchor := Some (if ctl_state c = Playing then now else ANCHOR_UNSET)\<rparr>"

definition post_message :: "bus_message \<Rightarrow> controller \<Rightarrow> controller" where
  "post_message m c = c\<lparr>sc_bus := map_option (\<lambda>ms. ms @ [m]) (sc_bus c)\<rparr>"

definition drain_wakers :: "controller \<Rightarrow> controller" where
  "drain_wakers c = c\<lparr>sc_woken := sc_woken c @ sc_wakers c, sc_wakers := []\<rparr>"

definition complete_preroll :: "controller \<Rightarrow> controller" where
  "complete_preroll c =
     (if sc_prerolled c then c
      else
        post_message AsyncDone
          (c\<lparr>sc_prerolled := True, sc_woken := sc_woken c @ sc_preroll_wakers c, sc_preroll_wakers := []\<rparr>))"

definition set_state :: "pipeline_state \<Rightarrow> u64 \<Rightarrow> controller \<Rightarrow> state_change_return \<times> controller" where
  "set_state new now c =
     (let old = ctl_state c; c = c\<lparr>sc_state := state_as_u8 new\<rparr> in
      if old = new then (Success, c)
      else
        (let c = post_message (StateChanged old new) (drain_wakers c);
             c = (case new of
                    Playing \<Rightarrow>
                      complete_preroll (c\<lparr>sc_anchor := map_option (\<lambda>_. now) (sc_anchor c), sc_pending_preroll := 0\<rparr>)
                  | Paused \<Rightarrow> c
                  | _ \<Rightarrow>
                      c\<lparr>sc_anchor := map_option (\<lambda>_. ANCHOR_UNSET) (sc_anchor c),
                        sc_pending_preroll := sc_preroll_target c, sc_prerolled := False\<rparr>) in
         ((case new of Paused \<Rightarrow> if sc_live c then NoPreroll else Async | _ \<Rightarrow> Success), c)))"

definition expect_prerolls :: "nat \<Rightarrow> controller \<Rightarrow> controller" where
  "expect_prerolls sinks c =
     (let c = c\<lparr>sc_preroll_target := sinks, sc_pending_preroll := sinks\<rparr> in
      if sinks = 0 then complete_preroll c else c)"

definition request_repreroll :: "controller \<Rightarrow> controller" where
  "request_repreroll c =
     (if ctl_state c = Playing then c
      else
        drain_wakers (c\<lparr>sc_preroll_gen := sc_preroll_gen c + 1, sc_prerolled := False,
          sc_pending_preroll := sc_preroll_target c\<rparr>))"

text \<open>The compare-and-swap loop of \<^verbatim>\<open>notify_prerolled\<close>: it reports whether it took the count from one to zero.\<close>

definition take_preroll :: "controller \<Rightarrow> bool \<times> controller" where
  "take_preroll c =
     (if sc_pending_preroll c = 0 then (False, c)
      else (sc_pending_preroll c = 1, c\<lparr>sc_pending_preroll := sc_pending_preroll c - 1\<rparr>))"

definition notify_prerolled :: "controller \<Rightarrow> controller" where
  "notify_prerolled c = (let (last_one, c) = take_preroll c in if last_one then complete_preroll c else c)"

text \<open>One poll of a flow gate; \<open>None\<close> is \<^verbatim>\<open>Pending\<close>.\<close>

definition flow_gate_poll :: "bool \<Rightarrow> u64 \<Rightarrow> nat \<Rightarrow> controller \<Rightarrow> flow option \<times> controller" where
  "flow_gate_poll self_prerolled self_gen w c =
     (let go_or_park = (\<lambda>go. if go then (Some Go, c) else (None, c\<lparr>sc_wakers := push_unique (sc_wakers c) w\<rparr>)) in
      case ctl_state c of
        Null \<Rightarrow> (Some Stop, c)
      | Playing \<Rightarrow> (Some Go, c)
      | Ready \<Rightarrow> go_or_park False
      | Paused \<Rightarrow> go_or_park (\<not> sc_live c \<and> (\<not> self_prerolled \<or> self_gen \<noteq> sc_preroll_gen c)))"

definition preroll_gate_poll :: "nat \<Rightarrow> controller \<Rightarrow> unit option \<times> controller" where
  "preroll_gate_poll w c =
     (if sc_prerolled c then (Some (), c)
      else (None, c\<lparr>sc_preroll_wakers := push_unique (sc_preroll_wakers c) w\<rparr>))"

section \<open>Runs of whole calls\<close>

datatype ctl_call =
    SetState pipeline_state u64
  | Repreroll
  | Notify
  | PollFlow bool u64 nat
  | PollPreroll nat

fun do_call :: "ctl_call \<Rightarrow> controller \<Rightarrow> controller" where
  "do_call (SetState new now) c = snd (set_state new now c)"
| "do_call Repreroll c = request_repreroll c"
| "do_call Notify c = notify_prerolled c"
| "do_call (PollFlow p g w) c = snd (flow_gate_poll p g w c)"
| "do_call (PollPreroll w) c = snd (preroll_gate_poll w c)"

lemma state_u8_roundtrip [simp]: "state_from_u8 (state_as_u8 s) = s"
  by (cases s) (simp_all add: state_as_u8_def state_from_u8_def)

text \<open>
  The preroll latch agrees with the count, waiters are parked only while preroll is outstanding, and one
  completion is announced for each time the latch closes.
\<close>

definition preroll_inv :: "nat \<Rightarrow> controller \<Rightarrow> bool" where
  "preroll_inv n c \<longleftrightarrow>
     sc_preroll_target c = n \<and> sc_pending_preroll c \<le> n \<and> (sc_prerolled c \<longleftrightarrow> sc_pending_preroll c = 0) \<and>
     (sc_prerolled c \<longrightarrow> sc_preroll_wakers c = []) \<and> (ctl_state c = Playing \<longrightarrow> sc_prerolled c)"

lemmas ctl_defs = set_state_def request_repreroll_def notify_prerolled_def take_preroll_def complete_preroll_def
  post_message_def drain_wakers_def flow_gate_poll_def preroll_gate_poll_def ctl_state_def Let_def

lemma preroll_inv_start:
  assumes "0 < n" "initial \<noteq> Playing"
  shows "preroll_inv n (expect_prerolls n (controller_build initial bus))"
  using assms by (simp add: preroll_inv_def expect_prerolls_def controller_build_def ctl_defs)

lemma preroll_inv_call:
  assumes "preroll_inv n c" "0 < n"
  shows "preroll_inv n (do_call call c)"
proof (cases call)
  case (SetState new now)
  then show ?thesis using assms by (cases new) (auto simp: preroll_inv_def ctl_defs)
next
  case Repreroll
  then show ?thesis using assms by (auto simp: preroll_inv_def ctl_defs)
next
  case Notify
  then show ?thesis using assms by (auto simp: preroll_inv_def ctl_defs split: if_splits)
next
  case (PollFlow p g w)
  then show ?thesis using assms by (auto simp: preroll_inv_def ctl_defs split: pipeline_state.splits)
next
  case (PollPreroll w)
  then show ?thesis using assms by (auto simp: preroll_inv_def ctl_defs)
qed

lemma preroll_inv_run:
  assumes "0 < n" "initial \<noteq> Playing"
  shows "preroll_inv n (fold do_call calls (expect_prerolls n (controller_build initial bus)))"
proof -
  have "preroll_inv n (fold do_call calls c)" if "preroll_inv n c" for c
    using that by (induction calls arbitrary: c) (simp_all add: preroll_inv_call assms(1))
  then show ?thesis using preroll_inv_start [OF assms] by blast
qed

definition announced :: "controller \<Rightarrow> nat" where
  "announced c = (case sc_bus c of Some ms \<Rightarrow> count_list ms AsyncDone | None \<Rightarrow> 0)"

lemma count_list_snoc: "count_list (xs @ [x]) y = count_list xs y + (if x = y then 1 else 0)"
  by (induction xs) simp_all

lemma announced_post: "sc_bus c \<noteq> None \<Longrightarrow> announced (post_message m c) = announced c + (if m = AsyncDone then 1 else 0)"
  by (auto simp: announced_def post_message_def count_list_snoc)

lemma complete_announces:
  assumes "sc_bus c \<noteq> None"
  shows "announced (complete_preroll c) = announced c + (if sc_prerolled c then 0 else 1)"
    and "sc_woken (complete_preroll c) = sc_woken c @ (if sc_prerolled c then [] else sc_preroll_wakers c)"
    and "sc_prerolled (complete_preroll c)" and "sc_bus (complete_preroll c) \<noteq> None"
  using assms by (auto simp: complete_preroll_def post_message_def announced_def count_list_snoc)

lemma announced_only_complete:
  assumes "sc_bus c \<noteq> None"
  shows "announced (do_call call c) = announced c + (if \<not> sc_prerolled c \<and> sc_prerolled (do_call call c) then 1 else 0) \<and>
    (\<not> sc_prerolled c \<and> sc_prerolled (do_call call c) \<longrightarrow> (\<exists>ws. sc_woken (do_call call c) = sc_woken c @ ws @ sc_preroll_wakers c)) \<and>
    sc_bus (do_call call c) \<noteq> None"
proof (cases call)
  case (SetState new now)
  then show ?thesis using assms
    by (cases new) (auto simp: announced_def complete_preroll_def post_message_def drain_wakers_def set_state_def ctl_state_def Let_def count_list_snoc)
next
  case Repreroll
  then show ?thesis using assms by (auto simp: announced_def ctl_defs)
next
  case Notify
  then show ?thesis using assms by (auto simp: announced_def ctl_defs count_list_snoc)
next
  case (PollFlow p g w)
  then show ?thesis using assms by (auto simp: announced_def ctl_defs split: pipeline_state.splits)
next
  case (PollPreroll w)
  then show ?thesis using assms by (auto simp: announced_def ctl_defs)
qed

lemma notify_counts:
  "sc_pending_preroll c = n \<Longrightarrow> \<not> sc_prerolled c \<Longrightarrow> 0 < n \<Longrightarrow>
    sc_prerolled ((notify_prerolled ^^ k) c) = (n \<le> k) \<and> sc_pending_preroll ((notify_prerolled ^^ k) c) = n - k"
  by (induction k) (auto simp: notify_prerolled_def take_preroll_def complete_preroll_def post_message_def Let_def)

lemma run_bus:
  "sc_bus (fold do_call calls (expect_prerolls n (controller_with_bus initial))) \<noteq> None"
proof -
  have "sc_bus (fold do_call calls c) \<noteq> None" if "sc_bus c \<noteq> None" for c
    using that
  proof (induction calls arbitrary: c)
    case (Cons call calls)
    then show ?case using announced_only_complete [OF Cons.prems, of call] by simp
  qed simp
  then show ?thesis
    by (simp add: controller_with_bus_def controller_build_def expect_prerolls_def complete_preroll_def post_message_def Let_def)
qed

section \<open>Properties of the preroll\<close>

text \<open>
  C9. With whole calls and at least one sink, preroll is counted right: after any sequence of state
  changes, seeks, sink notifications and polls, the latch is closed exactly if no sink is owing; every call
  that closes it announces completion once and wakes the waiters, no other call announces it; and from a
  re-armed state exactly as many notifications as there are sinks close it.
\<close>

theorem preroll_accounting:
  assumes "0 < n" and "initial \<noteq> Playing"
  shows "let c = fold do_call calls (expect_prerolls n (controller_with_bus initial)) in
    preroll_inv n c \<and>
    announced (do_call call c) = announced c + (if \<not> sc_prerolled c \<and> sc_prerolled (do_call call c) then 1 else 0) \<and>
    (\<not> sc_prerolled c \<and> sc_prerolled (do_call call c) \<longrightarrow>
       (\<exists>ws. sc_woken (do_call call c) = sc_woken c @ ws @ sc_preroll_wakers c)) \<and>
    (sc_pending_preroll c = n \<longrightarrow> sc_prerolled ((notify_prerolled ^^ k) c) = (n \<le> k))"
proof -
  let ?c = "fold do_call calls (expect_prerolls n (controller_with_bus initial))"
  have inv: "preroll_inv n ?c" using preroll_inv_run [OF assms, of calls "Some []"] by (simp add: controller_with_bus_def)
  have "sc_prerolled ((notify_prerolled ^^ k) ?c) = (n \<le> k)" if "sc_pending_preroll ?c = n"
    using notify_counts [OF that _ assms(1), of k] inv that assms(1) by (auto simp: preroll_inv_def)
  then show ?thesis using inv announced_only_complete [OF run_bus [of calls n initial], of call] unfolding Let_def by blast
qed

theorem preroll_accounting_witness:
  "announced (fold do_call [SetState Paused 0, Notify, Notify, Notify] (expect_prerolls 2 (controller_with_bus Ready))) = 1"
proof -
  let ?c = "fold do_call [SetState Paused 0, Notify] (expect_prerolls 2 (controller_with_bus Ready))"
  have a: "announced ?c = 0" "\<not> sc_prerolled ?c" "sc_prerolled (do_call Notify ?c)"
    "do_call Notify (do_call Notify ?c) = do_call Notify ?c" by code_simp+
  have "announced (do_call Notify ?c) = announced ?c + (if \<not> sc_prerolled ?c \<and> sc_prerolled (do_call Notify ?c) then 1 else 0)"
    using preroll_accounting [of 2 Ready "[SetState Paused 0, Notify]" Notify] unfolding Let_def by simp
  then have "announced (do_call Notify (do_call Notify ?c)) = 1" using a by simp
  then show ?thesis by simp
qed


text \<open>
  A pipeline without sinks completes preroll at once when the runner declares it, but not after a
  stop: the next asynchronous transition to paused never completes, however many notifications arrive.
\<close>

theorem sinkless_preroll_stuck:
  "let c = snd (set_state Paused 0 (snd (set_state Ready 0 (snd (set_state Paused 0 (expect_prerolls 0 (controller_with_bus Ready)))))))
   in fst (set_state Paused 0 (snd (set_state Ready 0 (snd (set_state Paused 0 (expect_prerolls 0 (controller_with_bus Ready))))))) = Async \<and>
      fst (preroll_gate_poll w ((notify_prerolled ^^ k) c)) = None"
proof -
  let ?c = "snd (set_state Paused 0 (snd (set_state Ready 0 (snd (set_state Paused 0 (expect_prerolls 0 (controller_with_bus Ready)))))))"
  have c: "sc_pending_preroll ?c = 0" "\<not> sc_prerolled ?c" by code_simp+
  have "(notify_prerolled ^^ k) ?c = ?c" by (induction k) (simp_all add: notify_prerolled_def take_preroll_def c)
  moreover have "fst (set_state Paused 0 (snd (set_state Ready 0 (snd (set_state Paused 0 (expect_prerolls 0 (controller_with_bus Ready))))))) = Async"
    by code_simp
  ultimately show ?thesis using c by (simp add: preroll_gate_poll_def Let_def)
qed

end
