(* ===== verification/StateGate.thy ===== *)
theory StateGate
  imports StateControl
begin

text \<open>
  The flow gate under concurrency (\<^verbatim>\<open>runtime/state.rs\<close>): callers of \<^verbatim>\<open>set_state\<close> and \<^verbatim>\<open>request_repreroll\<close> first
  change the state or the generation and later take the lock to drain the wakers; a poll takes the lock,
  loads the state, decides, and parks before it gives the lock back. The steps interleave freely.
\<close>

section \<open>Steps\<close>

record gate_id =
  gi_waker :: nat
  gi_prerolled :: bool
  gi_gen :: u64

text \<open>What a poll that holds the lock has done: nothing, loaded the state, decided to park.\<close>

datatype poll_stage = Entered | Loaded pipeline_state | Parking

record gate_state =
  gs_state :: pipeline_state
  gs_gen :: u64
  gs_wakers :: "nat list"
  gs_lock :: "(gate_id \<times> poll_stage) option"
  gs_drains :: nat
  gs_waiting :: "gate_id set"

definition gate_go :: "bool \<Rightarrow> pipeline_state \<Rightarrow> u64 \<Rightarrow> gate_id \<Rightarrow> bool" where
  "gate_go live st gen g \<longleftrightarrow>
     (case st of
        Null \<Rightarrow> True
      | Playing \<Rightarrow> True
      | Ready \<Rightarrow> False
      | Paused \<Rightarrow> \<not> live \<and> (\<not> gi_prerolled g \<or> gi_gen g \<noteq> gen))"

definition gate_init :: "pipeline_state \<Rightarrow> gate_state" where
  "gate_init initial = \<lparr>gs_state = initial, gs_gen = 0, gs_wakers = [], gs_lock = None, gs_drains = 0, gs_waiting = {}\<rparr>"

text \<open>
  \<open>swap\<close> and \<open>bump\<close> are the first halves of a state change and of a re-preroll, \<open>drain\<close> is the second half
  of either. \<open>gs_drains\<close> counts the calls between the halves, \<open>gs_waiting\<close> the gates that returned pending
  and have not been woken since.
\<close>

inductive gate_step :: "bool \<Rightarrow> gate_state \<Rightarrow> gate_state \<Rightarrow> bool" for live where
  swap: "new \<noteq> gs_state s \<Longrightarrow> gate_step live s (s\<lparr>gs_state := new, gs_drains := Suc (gs_drains s)\<rparr>)"
| bump: "gate_step live s (s\<lparr>gs_gen := gs_gen s + 1, gs_drains := Suc (gs_drains s)\<rparr>)"
| drain: "gs_lock s = None \<Longrightarrow> gs_drains s = Suc k \<Longrightarrow>
    gate_step live s (s\<lparr>gs_wakers := [], gs_waiting := {}, gs_drains := k\<rparr>)"
| enter: "gs_lock s = None \<Longrightarrow> gate_step live s (s\<lparr>gs_lock := Some (g, Entered)\<rparr>)"
| load: "gs_lock s = Some (g, Entered) \<Longrightarrow> gate_step live s (s\<lparr>gs_lock := Some (g, Loaded (gs_state s))\<rparr>)"
| ready: "gs_lock s = Some (g, Loaded st) \<Longrightarrow> gate_go live st (gs_gen s) g \<Longrightarrow>
    gate_step live s (s\<lparr>gs_lock := None, gs_waiting := gs_waiting s - {g}\<rparr>)"
| decide: "gs_lock s = Some (g, Loaded st) \<Longrightarrow> \<not> gate_go live st (gs_gen s) g \<Longrightarrow>
    gate_step live s (s\<lparr>gs_lock := Some (g, Parking)\<rparr>)"
| park: "gs_lock s = Some (g, Parking) \<Longrightarrow>
    gate_step live s (s\<lparr>gs_lock := None, gs_wakers := push_unique (gs_wakers s) (gi_waker g),
      gs_waiting := insert g (gs_waiting s)\<rparr>)"

inductive gate_reachable :: "bool \<Rightarrow> pipeline_state \<Rightarrow> gate_state \<Rightarrow> bool" for live initial where
  init: "gate_reachable live initial (gate_init initial)"
| step: "gate_reachable live initial s \<Longrightarrow> gate_step live s t \<Longrightarrow> gate_reachable live initial t"

text \<open>The decision is that of the poll of the controller.\<close>

lemma gate_go_poll:
  "fst (flow_gate_poll p gen w c) = None \<longleftrightarrow>
    \<not> gate_go (sc_live c) (ctl_state c) (sc_preroll_gen c) \<lparr>gi_waker = w, gi_prerolled = p, gi_gen = gen\<rparr>"
  by (auto simp: flow_gate_poll_def gate_go_def Let_def split: pipeline_state.splits)

section \<open>The invariant\<close>

fun stage_ok :: "bool \<Rightarrow> gate_state \<Rightarrow> gate_id \<times> poll_stage \<Rightarrow> bool" where
  "stage_ok live s (g, Entered) \<longleftrightarrow> True"
| "stage_ok live s (g, Loaded st) \<longleftrightarrow> st = gs_state s \<or> 0 < gs_drains s"
| "stage_ok live s (g, Parking) \<longleftrightarrow> gate_go live (gs_state s) (gs_gen s) g \<longrightarrow> 0 < gs_drains s"

definition gate_inv :: "bool \<Rightarrow> gate_state \<Rightarrow> bool" where
  "gate_inv live s \<longleftrightarrow>
     (\<forall>g \<in> gs_waiting s. gi_waker g \<in> set (gs_wakers s) \<and>
        (gate_go live (gs_state s) (gs_gen s) g \<longrightarrow> 0 < gs_drains s)) \<and>
     (\<forall>p. gs_lock s = Some p \<longrightarrow> stage_ok live s p)"

lemma stage_ok_drains: "0 < gs_drains s \<Longrightarrow> stage_ok live s p"
  by (cases p; cases "snd p") auto

lemma gate_step_inv:
  assumes "gate_step live s t" "gate_inv live s"
  shows "gate_inv live t"
  using assms(1)
proof (cases rule: gate_step.cases)
  case (swap new)
  then show ?thesis using assms(2) by (auto simp: gate_inv_def stage_ok_drains)
next
  case bump
  then show ?thesis using assms(2) by (auto simp: gate_inv_def stage_ok_drains)
next
  case (drain k)
  then show ?thesis using assms(2) by (auto simp: gate_inv_def)
next
  case (enter g)
  then show ?thesis using assms(2) by (auto simp: gate_inv_def)
next
  case (load g)
  then show ?thesis using assms(2) by (auto simp: gate_inv_def)
next
  case (ready g st)
  then show ?thesis using assms(2) by (auto simp: gate_inv_def)
next
  case (decide g st)
  then show ?thesis using assms(2) by (auto simp: gate_inv_def)
next
  case (park g)
  then show ?thesis using assms(2) by (auto simp: gate_inv_def push_unique_def)
qed

lemma gate_reachable_inv: "gate_reachable live initial s \<Longrightarrow> gate_inv live s"
proof (induction rule: gate_reachable.induct)
  case init
  show ?case by (simp add: gate_inv_def gate_init_def)
next
  case (step s t)
  then show ?case by (blast intro: gate_step_inv)
qed

section \<open>Waking up\<close>

text \<open>A poll in its critical section always gives the lock back.\<close>

lemma lock_released:
  "\<exists>t. (gate_step live)\<^sup>*\<^sup>* s t \<and> gs_lock t = None \<and> gs_drains t = gs_drains s"
proof -
  have parking: "\<exists>t. (gate_step live)\<^sup>*\<^sup>* s t \<and> gs_lock t = None \<and> gs_drains t = gs_drains s" if "gs_lock s = Some (g, Parking)" for s g
    using r_into_rtranclp [of "gate_step live", OF gate_step.park [OF that]] by fastforce
  have loaded: "\<exists>t. (gate_step live)\<^sup>*\<^sup>* s t \<and> gs_lock t = None \<and> gs_drains t = gs_drains s" if l: "gs_lock s = Some (g, Loaded st)" for s g st
  proof (cases "gate_go live st (gs_gen s) g")
    case True
    then show ?thesis using r_into_rtranclp [of "gate_step live", OF gate_step.ready [OF l True]] by fastforce
  next
    case False
    note d = gate_step.decide [OF l False]
    obtain t where "(gate_step live)\<^sup>*\<^sup>* (s\<lparr>gs_lock := Some (g, Parking)\<rparr>) t" "gs_lock t = None" "gs_drains t = gs_drains s"
      using parking [of "s\<lparr>gs_lock := Some (g, Parking)\<rparr>" g] by auto
    then show ?thesis using d by (meson converse_rtranclp_into_rtranclp)
  qed
  show ?thesis
  proof (cases "gs_lock s")
    case (Some p)
    obtain g stage where p: "p = (g, stage)" by (cases p)
    show ?thesis
    proof (cases stage)
      case Entered
      note l = gate_step.load [of s g live]
      obtain t where "(gate_step live)\<^sup>*\<^sup>* (s\<lparr>gs_lock := Some (g, Loaded (gs_state s))\<rparr>) t" "gs_lock t = None" "gs_drains t = gs_drains s"
        using loaded [of "s\<lparr>gs_lock := Some (g, Loaded (gs_state s))\<rparr>" g "gs_state s"] by auto
      then show ?thesis using l Some p Entered by (meson converse_rtranclp_into_rtranclp)
    qed (use Some p loaded parking in auto)
  qed auto
qed

text \<open>
  C8. No wakeup is lost: a gate that returned pending and has not been woken since is registered, and
  if the state now lets it through, a call that will wake it is on its way; that call always gets there. So
  while no call is under way, every waiting gate is one that must wait.
\<close>

theorem no_lost_wakeup:
  assumes "gate_reachable live initial s" and "g \<in> gs_waiting s" and "gate_go live (gs_state s) (gs_gen s) g"
  shows "gi_waker g \<in> set (gs_wakers s) \<and> 0 < gs_drains s \<and> (\<exists>t. (gate_step live)\<^sup>*\<^sup>* s t \<and> gs_waiting t = {})"
proof -
  have inv: "gi_waker g \<in> set (gs_wakers s)" "0 < gs_drains s"
    using gate_reachable_inv [OF assms(1)] assms(2,3) by (auto simp: gate_inv_def)
  obtain t where t: "(gate_step live)\<^sup>*\<^sup>* s t" "gs_lock t = None" "gs_drains t = gs_drains s" using lock_released by blast
  then obtain k where "gs_drains t = Suc k" using inv(2) gr0_implies_Suc by metis
  from gate_step.drain [OF t(2) this] have "gate_step live t (t\<lparr>gs_wakers := [], gs_waiting := {}, gs_drains := k\<rparr>)" .
  then have "(gate_step live)\<^sup>*\<^sup>* s (t\<lparr>gs_wakers := [], gs_waiting := {}, gs_drains := k\<rparr>)"
    using t(1) by (rule rtranclp.rtrancl_into_rtrancl [rotated])
  moreover have "gs_waiting (t\<lparr>gs_wakers := [], gs_waiting := {}, gs_drains := k\<rparr>) = {}" by simp
  ultimately show ?thesis using inv by blast
qed

definition demo_gate :: gate_id where
  "demo_gate = \<lparr>gi_waker = 7, gi_prerolled = True, gi_gen = 0\<rparr>"

definition demo_gate_state :: "pipeline_state \<Rightarrow> nat list \<Rightarrow> (gate_id \<times> poll_stage) option \<Rightarrow> nat \<Rightarrow> gate_id set \<Rightarrow> gate_state" where
  "demo_gate_state st ws l d waiting = \<lparr>gs_state = st, gs_gen = 0, gs_wakers = ws, gs_lock = l, gs_drains = d, gs_waiting = waiting\<rparr>"

lemma demo_gate_reachable: "gate_reachable False Ready (demo_gate_state Playing [7] None 1 {demo_gate})"
proof -
  have "gate_reachable False Ready (demo_gate_state Ready [] None 0 {})"
    using gate_reachable.init [of False Ready] by (simp add: gate_init_def demo_gate_state_def)
  moreover have "gate_step False (demo_gate_state Ready [] None 0 {}) (demo_gate_state Ready [] (Some (demo_gate, Entered)) 0 {})"
    using gate_step.enter [of "demo_gate_state Ready [] None 0 {}" False demo_gate] by (simp add: demo_gate_state_def)
  moreover have "gate_step False (demo_gate_state Ready [] (Some (demo_gate, Entered)) 0 {}) (demo_gate_state Ready [] (Some (demo_gate, Loaded Ready)) 0 {})"
    using gate_step.load [of "demo_gate_state Ready [] (Some (demo_gate, Entered)) 0 {}" demo_gate False] by (simp add: demo_gate_state_def)
  moreover have "gate_step False (demo_gate_state Ready [] (Some (demo_gate, Loaded Ready)) 0 {}) (demo_gate_state Ready [] (Some (demo_gate, Parking)) 0 {})"
    using gate_step.decide [of "demo_gate_state Ready [] (Some (demo_gate, Loaded Ready)) 0 {}" demo_gate Ready False]
    by (simp add: demo_gate_state_def gate_go_def)
  moreover have "gate_step False (demo_gate_state Ready [] (Some (demo_gate, Parking)) 0 {}) (demo_gate_state Ready [7] None 0 {demo_gate})"
    using gate_step.park [of "demo_gate_state Ready [] (Some (demo_gate, Parking)) 0 {}" demo_gate False]
    by (simp add: demo_gate_state_def push_unique_def demo_gate_def)
  moreover have "gate_step False (demo_gate_state Ready [7] None 0 {demo_gate}) (demo_gate_state Playing [7] None 1 {demo_gate})"
    using gate_step.swap [of Playing "demo_gate_state Ready [7] None 0 {demo_gate}" False] by (simp add: demo_gate_state_def)
  ultimately show ?thesis by (meson gate_reachable.step)
qed

theorem no_lost_wakeup_witness:
  "\<exists>s t. gate_reachable False Ready s \<and> demo_gate \<in> gs_waiting s \<and> gate_go False (gs_state s) (gs_gen s) demo_gate \<and>
    (gate_step False)\<^sup>*\<^sup>* s t \<and> gs_waiting t = {}"
proof -
  have "demo_gate \<in> gs_waiting (demo_gate_state Playing [7] None 1 {demo_gate})"
    "gate_go False (gs_state (demo_gate_state Playing [7] None 1 {demo_gate})) (gs_gen (demo_gate_state Playing [7] None 1 {demo_gate})) demo_gate"
    by (simp_all add: demo_gate_state_def gate_go_def)
  then show ?thesis using no_lost_wakeup [OF demo_gate_reachable] demo_gate_reachable by blast
qed

end
