(* ===== verification/Supervise.thy ===== *)
theory Supervise
  imports Caps
begin

text \<open>
  Fault supervision of a source and a sink (\<^verbatim>\<open>supervise.rs\<close>). The stages and the policy are parameters, as
  the traits are in the source: a stage call gives a result or suspends (\<open>None\<close>), and changes the state of the
  stage. The two policies of the source are definitions. The watchdog is the count of its refreshes.
\<close>

section \<open>Policies\<close>

datatype recovery = Retry | Skip | Reset | Escalate

record retry_then_reset =
  rr_max_retries :: u32
  rr_max_resets :: u32

definition retry_then_reset_default :: retry_then_reset where
  "retry_then_reset_default = \<lparr>rr_max_retries = 2, rr_max_resets = 1\<rparr>"

fun is_structural :: "g2g_error \<Rightarrow> bool" where
  "is_structural CapsMismatch \<longleftrightarrow> True"
| "is_structural NotConfigured \<longleftrightarrow> True"
| "is_structural FixationFailed \<longleftrightarrow> True"
| "is_structural UnsupportedDomain \<longleftrightarrow> True"
| "is_structural AllocationConflict \<longleftrightarrow> True"
| "is_structural CopyBudget \<longleftrightarrow> True"
| "is_structural _ \<longleftrightarrow> False"

definition classify_retry :: "retry_then_reset \<Rightarrow> g2g_error \<Rightarrow> u32 \<Rightarrow> recovery" where
  "classify_retry p err consecutive =
     (if is_structural err then Escalate
      else
        (let reset_ceiling = saturating_add (rr_max_retries p) (rr_max_resets p) in
         if consecutive \<le> rr_max_retries p then Retry
         else if consecutive \<le> reset_ceiling then Reset
         else Escalate))"

record skip_bounded =
  sb_max_skips :: u32

definition skip_bounded_default :: skip_bounded where
  "skip_bounded_default = \<lparr>sb_max_skips = 4\<rparr>"

definition classify_skip :: "skip_bounded \<Rightarrow> g2g_error \<Rightarrow> u32 \<Rightarrow> recovery" where
  "classify_skip p err consecutive =
     (if is_structural err \<or> consecutive > sb_max_skips p then Escalate else Skip)"

section \<open>Report and outcomes\<close>

record supervisor_report =
  sr_frames :: u32
  sr_faults :: u32
  sr_retries :: u32
  sr_resets :: u32
  sr_skips :: u32
  sr_consecutive_faults :: u32
  sr_escalated :: bool
  sr_last_error :: "g2g_error option"

definition report_new :: supervisor_report where
  "report_new = \<lparr>sr_frames = 0, sr_faults = 0, sr_retries = 0, sr_resets = 0, sr_skips = 0,
     sr_consecutive_faults = 0, sr_escalated = False, sr_last_error = None\<rparr>"

datatype supervised = Advanced | Skipped | Recovered | Eos | Pending | Escalated g2g_error

datatype run_outcome = Completed | RunEscalated g2g_error | Suspended

definition MAX_ATTEMPTS :: nat where "MAX_ATTEMPTS = 64"

section \<open>Stages\<close>

type_synonym ('a, 's) stage_call = "'s \<Rightarrow> (g2g_error + 'a) option \<times> 's"

record ('s, 'k, 'f, 'p) stages =
  sg_next :: "('f option, 's) stage_call"
  sg_consume :: "'f \<Rightarrow> (unit, 'k) stage_call"
  sg_recover_source :: "(unit, 's) stage_call"
  sg_recover_sink :: "(unit, 'k) stage_call"
  sg_classify :: "g2g_error \<Rightarrow> u32 \<Rightarrow> 'p \<Rightarrow> recovery \<times> 'p"

record ('s, 'k, 'p) sup_state =
  su_source :: 's
  su_sink :: 'k
  su_policy :: 'p
  su_pets :: nat
  su_report :: supervisor_report

definition attempt ::
  "('s, 'k, 'f, 'p) stages \<Rightarrow> ('s, 'k, 'p) sup_state \<Rightarrow> (g2g_error + bool) option \<times> ('s, 'k, 'p) sup_state" where
  "attempt sg st =
     (case sg_next sg (su_source st) of (r, s) \<Rightarrow>
        let st = st\<lparr>su_source := s\<rparr> in
        (case r of
           None \<Rightarrow> (None, st)
         | Some (Inl e) \<Rightarrow> (Some (Inl e), st)
         | Some (Inr None) \<Rightarrow> (Some (Inr False), st)
         | Some (Inr (Some f)) \<Rightarrow>
             (case sg_consume sg f (su_sink st) of (r, k) \<Rightarrow>
                (map_option (\<lambda>r. case r of Inl e \<Rightarrow> Inl e | Inr _ \<Rightarrow> Inr True) r, st\<lparr>su_sink := k\<rparr>))))"

definition recover_both ::
  "('s, 'k, 'f, 'p) stages \<Rightarrow> ('s, 'k, 'p) sup_state \<Rightarrow> (g2g_error + unit) option \<times> ('s, 'k, 'p) sup_state" where
  "recover_both sg st =
     (case sg_recover_source sg (su_source st) of (r, s) \<Rightarrow>
        let st = st\<lparr>su_source := s\<rparr> in
        (case r of
           Some (Inr _) \<Rightarrow> (case sg_recover_sink sg (su_sink st) of (r, k) \<Rightarrow> (r, st\<lparr>su_sink := k\<rparr>))
         | _ \<Rightarrow> (r, st)))"

section \<open>Stepping and running\<close>

definition note_fault :: "g2g_error \<Rightarrow> supervisor_report \<Rightarrow> supervisor_report" where
  "note_fault err r =
     r\<lparr>sr_faults := saturating_add (sr_faults r) 1, sr_consecutive_faults := saturating_add (sr_consecutive_faults r) 1,
       sr_last_error := Some err\<rparr>"

definition escalate :: "('s, 'k, 'p) sup_state \<Rightarrow> ('s, 'k, 'p) sup_state" where
  "escalate st = st\<lparr>su_report := (su_report st)\<lparr>sr_escalated := True\<rparr>\<rparr>"

text \<open>The loop of \<^verbatim>\<open>step_supervised\<close>, with the attempts that are left.\<close>

fun step_loop ::
  "nat \<Rightarrow> ('s, 'k, 'f, 'p) stages \<Rightarrow> ('s, 'k, 'p) sup_state \<Rightarrow> supervised \<times> ('s, 'k, 'p) sup_state" where
  "step_loop 0 sg st =
     (Escalated (case sr_last_error (su_report st) of Some e \<Rightarrow> e | None \<Rightarrow> Shutdown), escalate st)"
| "step_loop (Suc left) sg st =
     (case attempt sg st of
        (None, st) \<Rightarrow> (Pending, st)
      | (Some (Inr True), st) \<Rightarrow>
          (Advanced, st\<lparr>su_pets := Suc (su_pets st),
             su_report := (su_report st)\<lparr>sr_frames := saturating_add (sr_frames (su_report st)) 1, sr_consecutive_faults := 0\<rparr>\<rparr>)
      | (Some (Inr False), st) \<Rightarrow> (Eos, st)
      | (Some (Inl err), st) \<Rightarrow>
          (let rep = note_fault err (su_report st);
               (action, p) = sg_classify sg err (sr_consecutive_faults rep) (su_policy st);
               st = st\<lparr>su_policy := p, su_report := rep\<rparr> in
           case action of
             Retry \<Rightarrow> step_loop left sg (st\<lparr>su_report := rep\<lparr>sr_retries := saturating_add (sr_retries rep) 1\<rparr>\<rparr>)
           | Skip \<Rightarrow> (Skipped, st\<lparr>su_report := rep\<lparr>sr_skips := saturating_add (sr_skips rep) 1\<rparr>\<rparr>)
           | Reset \<Rightarrow>
               (case recover_both sg (st\<lparr>su_report := rep\<lparr>sr_resets := saturating_add (sr_resets rep) 1\<rparr>\<rparr>) of
                  (Some (Inr _), st) \<Rightarrow> (Recovered, st)
                | (Some (Inl rerr), st) \<Rightarrow> (Escalated rerr, escalate st)
                | (None, st) \<Rightarrow> (Escalated err, escalate st))
           | Escalate \<Rightarrow> (Escalated err, escalate st)))"

definition step_supervised ::
  "('s, 'k, 'f, 'p) stages \<Rightarrow> ('s, 'k, 'p) sup_state \<Rightarrow> supervised \<times> ('s, 'k, 'p) sup_state" where
  "step_supervised sg st = step_loop MAX_ATTEMPTS sg st"

text \<open>The run to completion may go on for ever; the fuel counts its steps.\<close>

fun run_supervised ::
  "nat \<Rightarrow> ('s, 'k, 'f, 'p) stages \<Rightarrow> ('s, 'k, 'p) sup_state \<Rightarrow> (run_outcome \<times> ('s, 'k, 'p) sup_state) option" where
  "run_supervised 0 sg st = None"
| "run_supervised (Suc fuel) sg st =
     (case step_supervised sg st of
        (Eos, st) \<Rightarrow> Some (Completed, st)
      | (Escalated e, st) \<Rightarrow> Some (RunEscalated e, st)
      | (Pending, st) \<Rightarrow> Some (Suspended, st)
      | (_, st) \<Rightarrow> run_supervised fuel sg st)"

definition sup_start :: "'s \<Rightarrow> 'k \<Rightarrow> 'p \<Rightarrow> ('s, 'k, 'p) sup_state" where
  "sup_start s k p = \<lparr>su_source = s, su_sink = k, su_policy = p, su_pets = 0, su_report = report_new\<rparr>"

section \<open>Accounting\<close>

lemma saturating_succ [simp]:
  "unat x < 4294967295 \<Longrightarrow> unat (saturating_add x (1 :: u32)) = Suc (unat x)" for x :: u32
  by (simp add: saturating_add_def checked_add_def unat_word_ariths)

lemma saturating_succ_max [simp]: "saturating_add (- 1) (1 :: u32) = - 1"
  by (simp add: saturating_add_def checked_add_def unsigned_minus_1_eq_mask mask_eq_exp_minus_1)

text \<open>
  The accounting of a report: every fault is answered once, the escalating one apart, and the watchdog is refreshed
  once per delivered frame.
\<close>

definition report_ok :: "nat \<Rightarrow> supervisor_report \<Rightarrow> bool" where
  "report_ok pets r \<longleftrightarrow>
     (let answered = unat (sr_retries r) + unat (sr_resets r) + unat (sr_skips r) in
      answered \<le> unat (sr_faults r) \<and> unat (sr_faults r) \<le> answered + (if sr_escalated r then 1 else 0)) \<and>
     unat (sr_consecutive_faults r) \<le> unat (sr_faults r) \<and>
     unat (sr_frames r) = pets"

definition sup_ok :: "('s, 'k, 'p) sup_state \<Rightarrow> bool" where
  "sup_ok st \<longleftrightarrow> report_ok (su_pets st) (su_report st)"


lemma attempt_keeps:
  "attempt sg st = (r, st') \<Longrightarrow>
   su_report st' = su_report st \<and> su_pets st' = su_pets st \<and> su_policy st' = su_policy st"
  by (auto simp: attempt_def Let_def split: prod.splits option.splits sum.splits)

lemma recover_both_keeps:
  "recover_both sg st = (r, st') \<Longrightarrow>
   su_report st' = su_report st \<and> su_pets st' = su_pets st \<and> su_policy st' = su_policy st"
  by (auto simp: recover_both_def Let_def split: prod.splits option.splits sum.splits)

lemmas sup_simps = sup_ok_def report_ok_def note_fault_def escalate_def Let_def

text \<open>What a step leaves behind: the accounting, at most one fault per attempt, a refresh exactly when a frame went
  through, and the mark of an escalation exactly when it escalates.\<close>

definition step_post ::
  "nat \<Rightarrow> ('s, 'k, 'p) sup_state \<Rightarrow> supervised \<times> ('s, 'k, 'p) sup_state \<Rightarrow> bool" where
  "step_post n st res \<longleftrightarrow>
     (case res of (outcome, st') \<Rightarrow>
        sup_ok st' \<and>
        unat (sr_faults (su_report st')) \<le> unat (sr_faults (su_report st)) + n \<and>
        su_pets st' = su_pets st + (if outcome = Advanced then 1 else 0) \<and>
        (sr_escalated (su_report st') \<longleftrightarrow> (\<exists>e. outcome = Escalated e)))"

lemma step_loop_post:
  assumes "sup_ok st" "\<not> sr_escalated (su_report st)"
    and "unat (sr_faults (su_report st)) + n < 4294967295" "su_pets st < 4294967295"
  shows "step_post n st (step_loop n sg st)"
  using assms
proof (induction n arbitrary: st)
  case 0
  then show ?case by (simp add: step_post_def sup_simps)
next
  case (Suc n)
  obtain r st1 where a: "attempt sg st = (r, st1)" by fastforce
  note keep [simp] = attempt_keeps [OF a]
  show ?case
  proof (cases r)
    case None
    then show ?thesis using Suc.prems a by (simp add: step_post_def sup_simps)
  next
    case (Some r1)
    show ?thesis
    proof (cases r1)
      case (Inr b)
      then show ?thesis using Suc.prems a Some by (cases b) (simp_all add: step_post_def sup_simps)
    next
      case (Inl err)
      define rep where "rep = note_fault err (su_report st)"
      obtain action p where c: "sg_classify sg err (sr_consecutive_faults rep) (su_policy st) = (action, p)" by fastforce
      have bound: "unat (sr_faults (su_report st)) < 4294967295" "unat (sr_consecutive_faults (su_report st)) < 4294967295"
        "unat (sr_retries (su_report st)) < 4294967295" "unat (sr_resets (su_report st)) < 4294967295"
        "unat (sr_skips (su_report st)) < 4294967295"
        using Suc.prems by (simp_all add: sup_simps)
      show ?thesis
      proof (cases action)
        case Retry
        let ?st = "st1\<lparr>su_policy := p, su_report := rep\<lparr>sr_retries := saturating_add (sr_retries rep) 1\<rparr>\<rparr>"
        have "step_post n ?st (step_loop n sg ?st)"
          by (rule Suc.IH) (use Suc.prems bound in \<open>simp_all add: sup_simps rep_def\<close>)
        moreover have "step_loop (Suc n) sg st = step_loop n sg ?st"
          using a Some Inl c Retry by (simp add: Let_def flip: rep_def)
        ultimately show ?thesis using bound by (auto simp: step_post_def rep_def note_fault_def)
      next
        case Skip
        then show ?thesis using Suc.prems bound a Some Inl c
          by (simp add: step_post_def Let_def flip: rep_def) (simp add: sup_simps rep_def)
      next
        case Escalate
        then show ?thesis using Suc.prems bound a Some Inl c
          by (simp add: step_post_def Let_def flip: rep_def) (simp add: sup_simps rep_def)
      next
        case Reset
        let ?st = "st1\<lparr>su_policy := p, su_report := rep\<lparr>sr_resets := saturating_add (sr_resets rep) 1\<rparr>\<rparr>"
        obtain r2 st2 where rb: "recover_both sg ?st = (r2, st2)" by fastforce
        note keep2 [simp] = recover_both_keeps [OF rb]
        have "step_loop (Suc n) sg st =
          (case r2 of Some (Inr _) \<Rightarrow> (Recovered, st2) | Some (Inl e) \<Rightarrow> (Escalated e, escalate st2) | None \<Rightarrow> (Escalated err, escalate st2))"
          using a Some Inl c Reset rb by (simp add: Let_def split: option.splits sum.splits flip: rep_def)
        then show ?thesis using Suc.prems bound
          by (simp add: step_post_def split: option.split sum.split) (simp add: sup_simps rep_def)
      qed
    qed
  qed
qed


lemma run_supervised_post:
  assumes "run_supervised n sg st = Some (outcome, st')" "sup_ok st" "\<not> sr_escalated (su_report st)"
    and "unat (sr_faults (su_report st)) + 64 * n < 4294967295" "su_pets st + n < 4294967295"
  shows "sup_ok st' \<and> (sr_escalated (su_report st') \<longleftrightarrow> (\<exists>e. outcome = RunEscalated e))"
  using assms
proof (induction n arbitrary: st)
  case 0
  then show ?case by simp
next
  case (Suc n)
  obtain oc st1 where s: "step_supervised sg st = (oc, st1)" by fastforce
  have post: "step_post 64 st (oc, st1)"
    using step_loop_post [of st 64 sg] Suc.prems s by (simp add: step_supervised_def MAX_ATTEMPTS_def)
  show ?case
  proof (cases "oc \<in> {Advanced, Skipped, Recovered}")
    case True
    then have "run_supervised n sg st1 = Some (outcome, st')" using Suc.prems(1) s by auto
    moreover have "sup_ok st1" "\<not> sr_escalated (su_report st1)" "unat (sr_faults (su_report st1)) + 64 * n < 4294967295"
      "su_pets st1 + n < 4294967295"
      using post Suc.prems True by (auto simp: step_post_def)
    ultimately show ?thesis by (rule Suc.IH)
  next
    case False
    then show ?thesis using Suc.prems(1) s post by (cases oc) (auto simp: step_post_def)
  qed
qed


text \<open>A scripted source, for concrete runs: each pull takes the next result of a list, and the end of the list is the
  end of the stream.\<close>

definition scripted :: "('p \<Rightarrow> g2g_error \<Rightarrow> u32 \<Rightarrow> recovery) \<Rightarrow> ((g2g_error + nat option) list, unit, nat, 'p) stages" where
  "scripted classify = \<lparr>sg_next = (\<lambda>s. case s of [] \<Rightarrow> (Some (Inr None), []) | r # s \<Rightarrow> (Some r, s)),
     sg_consume = (\<lambda>_ k. (Some (Inr ()), k)), sg_recover_source = (\<lambda>s. (Some (Inr ()), s)),
     sg_recover_sink = (\<lambda>k. (Some (Inr ()), k)), sg_classify = (\<lambda>err n p. (classify p err n, p))\<rparr>"

lemma supervisor_accounting_run:
  "run_supervised 3 (scripted classify_retry) (sup_start [Inr (Some 7), Inl PoolExhausted, Inr (Some 8)] () retry_then_reset_default) =
     Some (Completed, \<lparr>su_source = [], su_sink = (), su_policy = retry_then_reset_default, su_pets = 2,
       su_report = \<lparr>sr_frames = 2, sr_faults = 1, sr_retries = 1, sr_resets = 0, sr_skips = 0, sr_consecutive_faults = 0,
         sr_escalated = False, sr_last_error = Some PoolExhausted\<rparr>\<rparr>)"
  by code_simp


section \<open>A persistent fault\<close>

lemma saturating_of_nat: "n < 4294967295 \<Longrightarrow> saturating_add (of_nat n) (1 :: u32) = of_nat (Suc n)"
  by (simp add: saturating_add_def checked_add_def unat_of_nat)

lemma of_nat_le_u32: "n < 4294967296 \<Longrightarrow> of_nat n \<le> (w :: u32) \<longleftrightarrow> n \<le> unat w"
  by (simp add: word_le_nat_alt unat_of_nat)

text \<open>Stages whose source fails every pull with the same fault, and that recover whenever they are asked to.\<close>

definition persistent :: "g2g_error \<Rightarrow> ('s, 'k, 'f, 'p) stages \<Rightarrow> bool" where
  "persistent err sg \<longleftrightarrow>
     (\<forall>s. fst (sg_next sg s) = Some (Inl err)) \<and>
     (\<forall>s. fst (sg_recover_source sg s) = Some (Inr ())) \<and> (\<forall>k. fst (sg_recover_sink sg k) = Some (Inr ()))"

definition policy_of :: "('p \<Rightarrow> g2g_error \<Rightarrow> u32 \<Rightarrow> recovery) \<Rightarrow> g2g_error \<Rightarrow> u32 \<Rightarrow> 'p \<Rightarrow> recovery \<times> 'p" where
  "policy_of classify err n p = (classify p err n, p)"

definition faulted_report :: "g2g_error \<Rightarrow> nat \<Rightarrow> nat \<Rightarrow> nat \<Rightarrow> bool \<Rightarrow> supervisor_report" where
  "faulted_report err faults retries resets esc =
     \<lparr>sr_frames = 0, sr_faults = of_nat faults, sr_retries = of_nat retries, sr_resets = of_nat resets, sr_skips = 0,
      sr_consecutive_faults = of_nat faults, sr_escalated = esc,
      sr_last_error = (if faults = 0 then None else Some err)\<rparr>"

definition faulted :: "g2g_error \<Rightarrow> 'p \<Rightarrow> nat \<Rightarrow> nat \<Rightarrow> ('s, 'k, 'p) sup_state \<Rightarrow> bool" where
  "faulted err p i j st \<longleftrightarrow>
     su_report st = faulted_report err (i + j) i j False \<and> su_policy st = p \<and> su_pets st = 0"

lemma persistent_attempt:
  assumes "persistent err sg"
  shows "\<exists>s. attempt sg st = (Some (Inl err), st\<lparr>su_source := s\<rparr>)"
proof -
  obtain s where "sg_next sg (su_source st) = (Some (Inl err), s)"
    using assms by (metis persistent_def prod.exhaust_sel)
  then show ?thesis by (auto simp: attempt_def)
qed

lemma persistent_recover:
  assumes "persistent err sg"
  shows "\<exists>s k. recover_both sg st = (Some (Inr ()), st\<lparr>su_source := s, su_sink := k\<rparr>)"
proof -
  obtain s k where "sg_recover_source sg (su_source st) = (Some (Inr ()), s)"
    "sg_recover_sink sg (su_sink st) = (Some (Inr ()), k)"
    using assms by (metis persistent_def prod.exhaust_sel)
  then show ?thesis by (auto simp: recover_both_def)
qed

lemma note_faulted:
  assumes "faulted err p i j st" "i + j < 4294967295"
  shows "note_fault err (su_report st) = faulted_report err (Suc (i + j)) i j False"
  using assms saturating_of_nat [of "i + j"] by (simp add: faulted_def note_fault_def faulted_report_def)

lemmas persist_simps = note_faulted policy_of_def classify_retry_def of_nat_le_u32 faulted_report_def

definition retry_ladder ::
  "g2g_error \<Rightarrow> ('s, 'k, 'f, retry_then_reset) stages \<Rightarrow> retry_then_reset \<Rightarrow> bool" where
  "retry_ladder err sg p \<longleftrightarrow>
     persistent err sg \<and> sg_classify sg = policy_of classify_retry \<and> \<not> is_structural err \<and>
     unat (rr_max_retries p) < MAX_ATTEMPTS \<and> unat (rr_max_retries p) + unat (rr_max_resets p) < 4294967295"

lemma ladder_ceiling:
  "unat a + unat b < 4294967296 \<Longrightarrow> unat (saturating_add a b) = unat a + unat b" for a b :: u32
  by (simp add: saturating_add_def checked_add_def unat_word_ariths)

lemma ladder_classify:
  assumes "retry_ladder err sg p" "n \<le> 4294967295"
  shows "sg_classify sg err (of_nat n) p =
    ((if n \<le> unat (rr_max_retries p) then Retry
      else if n \<le> unat (rr_max_retries p) + unat (rr_max_resets p) then Reset else Escalate), p)"
  using assms by (simp add: retry_ladder_def policy_of_def classify_retry_def of_nat_le_u32 ladder_ceiling)

lemma ladder_fault:
  assumes "retry_ladder err sg p" "faulted err p i j st" "i + j < 4294967295"
  obtains s act where "attempt sg st = (Some (Inl err), st\<lparr>su_source := s\<rparr>)"
    and "note_fault err (su_report st) = faulted_report err (Suc (i + j)) i j False"
    and "sg_classify sg err (sr_consecutive_faults (faulted_report err (Suc (i + j)) i j False)) (su_policy st) = (act, p)"
    and "act = (if Suc (i + j) \<le> unat (rr_max_retries p) then Retry
      else if Suc (i + j) \<le> unat (rr_max_retries p) + unat (rr_max_resets p) then Reset else Escalate)"
proof -
  have "persistent err sg" using assms(1) by (simp add: retry_ladder_def)
  then obtain s where a: "attempt sg st = (Some (Inl err), st\<lparr>su_source := s\<rparr>)" using persistent_attempt by blast
  have "su_policy st = p" using assms(2) by (simp add: faulted_def)
  then show ?thesis
    using that [OF a note_faulted [OF assms(2, 3)]] ladder_classify [OF assms(1), of "Suc (i + j)"] assms(3)
    by (simp del: of_nat_Suc add: faulted_report_def)
qed

lemma ladder_retry:
  assumes "retry_ladder err sg p" "faulted err p i 0 st" "i < unat (rr_max_retries p)"
  shows "\<exists>st'. step_loop (Suc l) sg st = step_loop l sg st' \<and> faulted err p (Suc i) 0 st'"
proof -
  have b: "i + 0 < 4294967295" using assms(1,3) by (simp add: retry_ladder_def)
  show ?thesis
  proof (rule ladder_fault [OF assms(1,2) b])
    fix s act
    assume "attempt sg st = (Some (Inl err), st\<lparr>su_source := s\<rparr>)"
      "note_fault err (su_report st) = faulted_report err (Suc (i + 0)) i 0 False"
      "sg_classify sg err (sr_consecutive_faults (faulted_report err (Suc (i + 0)) i 0 False)) (su_policy st) = (act, p)"
      "act = (if Suc (i + 0) \<le> unat (rr_max_retries p) then Retry
      else if Suc (i + 0) \<le> unat (rr_max_retries p) + unat (rr_max_resets p) then Reset else Escalate)"
    then show ?thesis using assms(2,3) b saturating_of_nat [of i]
      by (auto simp: faulted_def faulted_report_def simp del: of_nat_Suc)
  qed
qed

lemma ladder_reset:
  assumes "retry_ladder err sg p" "faulted err p (unat (rr_max_retries p)) j st" "j < unat (rr_max_resets p)"
  shows "\<exists>st'. step_loop (Suc l) sg st = (Recovered, st') \<and> faulted err p (unat (rr_max_retries p)) (Suc j) st'"
proof -
  let ?r = "unat (rr_max_retries p)"
  have b: "?r + j < 4294967295" using assms(1,3) by (simp add: retry_ladder_def)
  show ?thesis
  proof (rule ladder_fault [OF assms(1,2) b])
    fix s act
    assume f: "attempt sg st = (Some (Inl err), st\<lparr>su_source := s\<rparr>)"
      "note_fault err (su_report st) = faulted_report err (Suc (?r + j)) ?r j False"
      "sg_classify sg err (sr_consecutive_faults (faulted_report err (Suc (?r + j)) ?r j False)) (su_policy st) = (act, p)"
      "act = (if Suc (?r + j) \<le> ?r then Retry
      else if Suc (?r + j) \<le> ?r + unat (rr_max_resets p) then Reset else Escalate)"
    let ?rep = "faulted_report err (Suc (?r + j)) ?r j False"
    let ?st = "st\<lparr>su_source := s, su_policy := p, su_report := ?rep\<lparr>sr_resets := saturating_add (sr_resets ?rep) 1\<rparr>\<rparr>"
    obtain s' k' where "recover_both sg ?st = (Some (Inr ()), ?st\<lparr>su_source := s', su_sink := k'\<rparr>)"
      using persistent_recover assms(1) unfolding retry_ladder_def by blast
    then show ?thesis using f assms(2,3) b saturating_of_nat [of j]
      by (auto simp: faulted_def faulted_report_def simp del: of_nat_Suc)
  qed
qed

lemma ladder_escalate:
  assumes "retry_ladder err sg p" "faulted err p (unat (rr_max_retries p)) (unat (rr_max_resets p)) st"
  shows "\<exists>st'. step_loop (Suc l) sg st = (Escalated err, st') \<and>
    su_report st' = faulted_report err (Suc (unat (rr_max_retries p) + unat (rr_max_resets p)))
      (unat (rr_max_retries p)) (unat (rr_max_resets p)) True \<and> su_pets st' = 0"
proof -
  let ?r = "unat (rr_max_retries p)" and ?m = "unat (rr_max_resets p)"
  have b: "?r + ?m < 4294967295" using assms(1) by (simp add: retry_ladder_def)
  show ?thesis
    by (rule ladder_fault [OF assms b])
      (use assms(2) in \<open>auto simp: faulted_def faulted_report_def escalate_def simp del: of_nat_Suc\<close>)
qed

lemma ladder_retries:
  assumes "retry_ladder err sg p" "faulted err p i 0 st" "i + n = unat (rr_max_retries p)"
  shows "\<exists>st'. step_loop (l + n) sg st = step_loop l sg st' \<and> faulted err p (unat (rr_max_retries p)) 0 st'"
  using assms(2,3)
proof (induction n arbitrary: i st)
  case 0
  then show ?case by auto
next
  case (Suc n)
  then obtain st1 where "step_loop (Suc (l + n)) sg st = step_loop (l + n) sg st1" "faulted err p (Suc i) 0 st1"
    using ladder_retry [OF assms(1), of i st "l + n"] by auto
  then show ?case using Suc.IH [of "Suc i" st1] Suc.prems(2) by auto
qed

text \<open>Running from a state in which the retries are spent, whatever number of attempts the first step has left.\<close>

lemma ladder_run:
  assumes "retry_ladder err sg p" "faulted err p (unat (rr_max_retries p)) j st" "j + n = unat (rr_max_resets p)"
    and "step_supervised sg st0 = step_loop (Suc l) sg st"
  shows "\<exists>st'. run_supervised (Suc n) sg st0 = Some (RunEscalated err, st') \<and>
    su_report st' = faulted_report err (Suc (unat (rr_max_retries p) + unat (rr_max_resets p)))
      (unat (rr_max_retries p)) (unat (rr_max_resets p)) True \<and> su_pets st' = 0"
  using assms(2-)
proof (induction n arbitrary: j st st0 l)
  case 0
  then show ?case using ladder_escalate [OF assms(1), of st l] by auto
next
  case (Suc n)
  then obtain st1 where st1: "step_loop (Suc l) sg st = (Recovered, st1)" "faulted err p (unat (rr_max_retries p)) (Suc j) st1"
    using ladder_reset [OF assms(1), of j st l] by auto
  then have "\<exists>st'. run_supervised (Suc n) sg st1 = Some (RunEscalated err, st') \<and>
    su_report st' = faulted_report err (Suc (unat (rr_max_retries p) + unat (rr_max_resets p)))
      (unat (rr_max_retries p)) (unat (rr_max_resets p)) True \<and> su_pets st' = 0"
    using Suc.IH [of "Suc j" st1 st1 63] Suc.prems by (simp add: step_supervised_def MAX_ATTEMPTS_def)
  then show ?case using Suc.prems(3) st1(1) by simp
qed


definition skip_max :: skip_bounded where "skip_max = \<lparr>sb_max_skips = - 1\<rparr>"

text \<open>The skip policy is not bounded at the top of its range: with \<open>max_skips = u32::MAX\<close> the saturating count
  of consecutive faults never exceeds it, and a source that fails every pull is skipped for ever.\<close>

theorem skip_max_never_escalates:
  assumes "persistent err sg" "sg_classify sg = policy_of classify_skip" "\<not> is_structural err"
  shows "run_supervised n sg (sup_start s k skip_max) = None"
proof -
  have step: "\<exists>st'. step_supervised sg st = (Skipped, st') \<and> su_policy st' = skip_max" if p: "su_policy st = skip_max" for st
  proof -
    obtain s where a: "attempt sg st = (Some (Inl err), st\<lparr>su_source := s\<rparr>)" using persistent_attempt [OF assms(1)] by blast
    have "sg_classify sg err c skip_max = (Skip, skip_max)" for c
      using assms(2,3) by (simp add: policy_of_def classify_skip_def skip_max_def word_order.extremum_strict)
    then show ?thesis using a p step_loop.simps(2) [of 63 sg st] by (simp add: step_supervised_def MAX_ATTEMPTS_def Let_def)
  qed
  have "run_supervised n sg st = None" if "su_policy st = skip_max" for st
    using that
  proof (induction n arbitrary: st)
    case (Suc n)
    then show ?case using step [of st] by auto
  qed simp
  then show ?thesis by (simp add: sup_start_def)
qed


definition broken :: "g2g_error \<Rightarrow> ('p \<Rightarrow> g2g_error \<Rightarrow> u32 \<Rightarrow> recovery) \<Rightarrow> (nat, nat, nat, 'p) stages" where
  "broken err classify = \<lparr>sg_next = (\<lambda>s. (Some (Inl err), Suc s)),
     sg_consume = (\<lambda>_ k. (Some (Inr ()), k)), sg_recover_source = (\<lambda>s. (Some (Inr ()), s)),
     sg_recover_sink = (\<lambda>k. (Some (Inr ()), Suc k)), sg_classify = policy_of classify\<rparr>"

lemma broken_persistent: "persistent err (broken err classify)"
  by (simp add: persistent_def broken_def)


theorem skip_max_never_escalates_witness:
  "run_supervised 1000 (broken PoolExhausted classify_skip) (sup_start 0 0 skip_max) = None"
  by (rule skip_max_never_escalates [OF broken_persistent]) (simp_all add: broken_def)

end
