(* ===== verification/TensorView.thy ===== *)
theory TensorView
  imports Caps
begin

text \<open>
  Strided views of a byte buffer (\<^verbatim>\<open>tensor.rs\<close>). The fixed arrays with a rank of the source are lists of the rank's
  length. Strides and offsets are unbounded integers: the source's word-size arithmetic agrees as long as the
  buffer's addresses fit, and an address outside the buffer is a panic either way, which is \<open>None\<close>.
\<close>

record tensor_view =
  tv_dtype :: tensor_dtype
  tv_shape :: "u32 list"
  tv_strides :: "int list"
  tv_offset :: int

definition tv_rank :: "tensor_view \<Rightarrow> nat" where
  "tv_rank v = length (tv_shape v)"

fun row_major :: "int \<Rightarrow> u32 list \<Rightarrow> int list \<times> int" where
  "row_major width [] = ([], width)"
| "row_major width (d # ds) = (let (st, acc) = row_major width ds in (acc # st, acc * uint d))"

definition contiguous :: "tensor_dtype \<Rightarrow> u32 list \<Rightarrow> tensor_view option" where
  "contiguous dtype shape =
     (if shape \<noteq> [] \<and> length shape \<le> MAX_TENSOR_RANK
      then Some \<lparr>tv_dtype = dtype, tv_shape = shape,
        tv_strides = fst (row_major (int (tensor_dtype_size dtype)) shape), tv_offset = 0\<rparr>
      else None)"

definition num_elements :: "tensor_view \<Rightarrow> nat" where
  "num_elements v = prod_list (map unat (tv_shape v))"

definition materialized_len :: "tensor_view \<Rightarrow> nat" where
  "materialized_len v = num_elements v * tensor_dtype_size (tv_dtype v)"

fun strides_dense :: "int \<Rightarrow> (u32 \<times> int) list \<Rightarrow> bool" where
  "strides_dense acc [] \<longleftrightarrow> True"
| "strides_dense acc ((d, s) # axes) \<longleftrightarrow> s = acc \<and> strides_dense (acc * uint d) axes"

text \<open>The axes innermost first, as the loops of the source visit them.\<close>

definition axes_rev :: "tensor_view \<Rightarrow> (u32 \<times> int) list" where
  "axes_rev v = rev (zip (tv_shape v) (tv_strides v))"

definition is_contiguous :: "tensor_view \<Rightarrow> bool" where
  "is_contiguous v \<longleftrightarrow> strides_dense (int (tensor_dtype_size (tv_dtype v))) (axes_rev v) \<and> tv_offset v = 0"

definition reversed_axis :: "nat \<Rightarrow> tensor_view \<Rightarrow> tensor_view option" where
  "reversed_axis axis v =
     (if axis < tv_rank v then
        (let extent = uint (tv_shape v ! axis) in
         Some (if extent > 0
           then v\<lparr>tv_offset := tv_offset v + (extent - 1) * (tv_strides v ! axis),
                  tv_strides := (tv_strides v)[axis := - (tv_strides v ! axis)]\<rparr>
           else v))
      else None)"

definition swap :: "nat \<Rightarrow> nat \<Rightarrow> 'a list \<Rightarrow> 'a list" where
  "swap a b xs = xs[a := xs ! b, b := xs ! a]"

definition transposed :: "nat \<Rightarrow> nat \<Rightarrow> tensor_view \<Rightarrow> tensor_view option" where
  "transposed a b v =
     (if a < tv_rank v \<and> b < tv_rank v
      then Some (v\<lparr>tv_shape := swap a b (tv_shape v), tv_strides := swap a b (tv_strides v)\<rparr>)
      else None)"

section \<open>Materializing\<close>

text \<open>The bytes of the buffer from an address on; outside the buffer it is the panic of the slice.\<close>

definition bytes_at :: "u8 list \<Rightarrow> int \<Rightarrow> nat \<Rightarrow> u8 list option" where
  "bytes_at backing start n =
     (if 0 \<le> start \<and> nat start + n \<le> length backing then Some (take n (drop (nat start) backing)) else None)"

text \<open>The trailing axes laid out densely: their extent in bytes and the axes outside of them.\<close>

fun collapse :: "nat \<Rightarrow> (u32 \<times> int) list \<Rightarrow> nat \<times> (u32 \<times> int) list" where
  "collapse run [] = (run, [])"
| "collapse run ((d, s) # axes) = (if s = int run then collapse (run * unat d) axes else (run, (d, s) # axes))"

text \<open>One turn of the odometer: its digits and the source address.\<close>

fun advance :: "(u32 \<times> int) list \<Rightarrow> nat list \<Rightarrow> int \<Rightarrow> nat list \<times> int" where
  "advance ((d, s) # axes) (i # is) src =
     (let i = Suc i; src = src + s in
      if i < unat d then (i # is, src)
      else (let (is, src) = advance axes is (src - s * uint d) in (0 # is, src)))"
| "advance _ is src = (is, src)"

fun copy_runs :: "nat \<Rightarrow> nat \<Rightarrow> (u32 \<times> int) list \<Rightarrow> u8 list \<Rightarrow> nat list \<Rightarrow> int \<Rightarrow> u8 list \<Rightarrow> u8 list option" where
  "copy_runs 0 run axes backing is src out = Some out"
| "copy_runs (Suc n) run axes backing is src out =
     (case bytes_at backing src run of
        None \<Rightarrow> None
      | Some b \<Rightarrow> (case advance axes is src of (is, src) \<Rightarrow> copy_runs n run axes backing is src (out @ b)))"

definition materialize_into :: "tensor_view \<Rightarrow> u8 list \<Rightarrow> u8 list \<Rightarrow> u8 list option" where
  "materialize_into v backing out =
     (if num_elements v = 0 then Some out
      else
        (let (run, outer) = collapse (tensor_dtype_size (tv_dtype v)) (axes_rev v);
             runs = prod_list (map (\<lambda>a. unat (fst a)) outer)
         in copy_runs runs run outer backing (replicate (length outer) 0) (tv_offset v) out))"

definition materialize :: "tensor_view \<Rightarrow> u8 list \<Rightarrow> u8 list option" where
  "materialize v backing = materialize_into v backing []"

section \<open>Reference\<close>

text \<open>Where an element lies: the address of an index, and the address of the element with a given number in
  row-major order.\<close>

definition address :: "tensor_view \<Rightarrow> nat list \<Rightarrow> int" where
  "address v idx = tv_offset v + sum_list (map2 (\<lambda>i s. int i * s) idx (tv_strides v))"

fun place :: "(u32 \<times> int) list \<Rightarrow> nat \<Rightarrow> int" where
  "place [] n = 0"
| "place ((d, s) # axes) n = int (n mod unat d) * s + place axes (n div unat d)"

fun digits :: "(u32 \<times> int) list \<Rightarrow> nat \<Rightarrow> nat list" where
  "digits [] n = []"
| "digits ((d, s) # axes) n = n mod unat d # digits axes (n div unat d)"

fun concat_opt :: "'a list option list \<Rightarrow> 'a list option" where
  "concat_opt [] = Some []"
| "concat_opt (x # xs) = (case (x, concat_opt xs) of (Some a, Some b) \<Rightarrow> Some (a @ b) | _ \<Rightarrow> None)"

definition reference :: "tensor_view \<Rightarrow> u8 list \<Rightarrow> u8 list option" where
  "reference v backing =
     concat_opt (map (\<lambda>n. bytes_at backing (tv_offset v + place (axes_rev v) n) (tensor_dtype_size (tv_dtype v)))
       [0..<num_elements v])"

abbreviation extents :: "(u32 \<times> int) list \<Rightarrow> nat" where
  "extents axes \<equiv> prod_list (map (\<lambda>a. unat (fst a)) axes)"

lemma advance_digits:
  assumes "0 < extents axes"
  shows "advance axes (digits axes n) (off + place axes n) = (digits axes (Suc n), off + place axes (Suc n))"
  using assms
proof (induction axes arbitrary: n off)
  case Nil
  then show ?case by simp
next
  case (Cons a axes)
  obtain d s where a: "a = (d, s)" by fastforce
  have d: "0 < unat d" and ax: "0 < extents axes" using Cons.prems a by simp_all
  show ?case
  proof (cases "Suc (n mod unat d) < unat d")
    case True
    then have "Suc n mod unat d = Suc (n mod unat d)" "Suc n div unat d = n div unat d"
      by (simp_all add: mod_Suc div_Suc)
    then show ?thesis using True a by (simp add: algebra_simps)
  next
    case False
    then have top: "Suc (n mod unat d) = unat d" using d mod_less_divisor [of "unat d" n] by linarith
    then have n: "Suc n mod unat d = 0" "Suc n div unat d = Suc (n div unat d)" by (simp_all add: mod_Suc div_Suc)
    have "int (n mod unat d) * s + s - s * uint d = s * (int (Suc (n mod unat d)) - int (unat d))"
      by (simp add: algebra_simps)
    then have src: "off + (int (n mod unat d) * s + place axes (n div unat d)) + s - s * uint d = off + place axes (n div unat d)"
      unfolding top by simp
    show ?thesis using Cons.IH [OF ax, of "n div unat d" off] False n a by (simp add: Let_def src)
  qed
qed

lemma digits_0: "digits axes 0 = replicate (length axes) 0" "place axes 0 = 0"
  by (induction axes) auto

lemma concat_opt_append:
  "concat_opt (xs @ ys) = (case (concat_opt xs, concat_opt ys) of (Some a, Some b) \<Rightarrow> Some (a @ b) | _ \<Rightarrow> None)"
  by (induction xs) (auto split: option.splits)

lemma copy_runs_spec:
  assumes "0 < extents axes"
  shows "copy_runs k run axes backing (digits axes n) (off + place axes n) out =
    map_option (\<lambda>b. out @ b) (concat_opt (map (\<lambda>i. bytes_at backing (off + place axes i) run) [n..<n + k]))"
proof (induction k arbitrary: n out)
  case 0
  then show ?case by simp
next
  case (Suc k)
  have "[n..<n + Suc k] = n # [Suc n..<Suc n + k]" by (simp add: upt_rec)
  then show ?case
    using Suc [of "Suc n"] advance_digits [OF assms, of n off] by (simp split: option.split)
qed

text \<open>Consecutive slices are one slice.\<close>

lemma bytes_at_add:
  "bytes_at backing a (m + n) =
    (case (bytes_at backing a m, bytes_at backing (a + int m) n) of (Some x, Some y) \<Rightarrow> Some (x @ y) | _ \<Rightarrow> None)"
  by (auto simp: bytes_at_def nat_add_distrib take_add drop_drop add.commute)

lemma bytes_at_runs:
  assumes "0 < k"
  shows "bytes_at backing a (k * es) = concat_opt (map (\<lambda>j. bytes_at backing (a + int (j * es)) es) [0..<k])"
  using assms
proof (induction k)
  case 0
  then show ?case by simp
next
  case (Suc k)
  show ?case
  proof (cases "k = 0")
    case True
    then show ?thesis by (simp split: option.split)
  next
    case False
    then show ?thesis using Suc bytes_at_add [of backing a "k * es" es]
      by (simp add: concat_opt_append add.commute split: option.split)
  qed
qed

lemma concat_opt_groups:
  "concat_opt (map f [0..<r * m]) = concat_opt (map (\<lambda>q. concat_opt (map (\<lambda>j. f (q * r + j)) [0..<r])) [0..<m])"
proof (induction m)
  case 0
  then show ?case by simp
next
  case (Suc m)
  have "[0..<r * Suc m] = [0..<r * m] @ map (\<lambda>j. m * r + j) [0..<r]"
    using upt_add_eq_append [of 0 "r * m" r] by (simp add: add.commute mult.commute map_add_upt)
  then show ?case using Suc by (simp add: concat_opt_append comp_def split: option.split)
qed

text \<open>The address of an element when every entry of the axes is a dense run of \<open>r\<close> elements.\<close>

definition inner_place :: "nat \<Rightarrow> nat \<Rightarrow> (u32 \<times> int) list \<Rightarrow> nat \<Rightarrow> int" where
  "inner_place es r axes n = int (n mod r) * int es + place axes (n div r)"

lemma runs_uncollapsed:
  assumes "0 < r"
  shows "concat_opt (map (\<lambda>n. bytes_at backing (off + inner_place es r axes n) es) [0..<r * m]) =
    concat_opt (map (\<lambda>q. bytes_at backing (off + place axes q) (r * es)) [0..<m])"
proof -
  have "concat_opt (map (\<lambda>j. bytes_at backing (off + inner_place es r axes (q * r + j)) es) [0..<r]) =
    bytes_at backing (off + place axes q) (r * es)" for q
  proof -
    have "inner_place es r axes (q * r + j) = place axes q + int (j * es)" if "j < r" for j
      using that by (simp add: inner_place_def)
    then have "map (\<lambda>j. bytes_at backing (off + inner_place es r axes (q * r + j)) es) [0..<r] =
        map (\<lambda>j. bytes_at backing (off + place axes q + int (j * es)) es) [0..<r]"
      by (auto simp: add.assoc)
    then show ?thesis unfolding bytes_at_runs [OF assms, of backing "off + place axes q" es] by (rule arg_cong)
  qed
  then show ?thesis by (simp add: concat_opt_groups)
qed

lemma inner_place_dense:
  assumes "0 < r"
  shows "inner_place es r ((d, int (r * es)) # axes) n = inner_place es (r * unat d) axes n"
proof -
  have "int (n mod (r * unat d)) = int r * int (n div r mod unat d) + int (n mod r)"
    by (simp add: mod_mult2_eq)
  moreover have "n div (r * unat d) = n div r div unat d" by (simp add: div_mult2_eq)
  ultimately show ?thesis by (simp add: inner_place_def algebra_simps)
qed

lemma collapse_spec:
  assumes "0 < r" "0 < extents axes" "collapse (r * es) axes = (run, outer)"
  shows "0 < extents outer \<and>
    concat_opt (map (\<lambda>n. bytes_at backing (off + inner_place es r axes n) es) [0..<r * extents axes]) =
    concat_opt (map (\<lambda>q. bytes_at backing (off + place outer q) run) [0..<extents outer])"
  using assms
proof (induction axes arbitrary: r)
  case Nil
  then show ?case using runs_uncollapsed [of r backing off es "[]" 1] by simp
next
  case (Cons a axes)
  obtain d s where a: "a = (d, s)" by fastforce
  show ?case
  proof (cases "s = int (r * es)")
    case True
    then have "collapse ((r * unat d) * es) axes = (run, outer)" using Cons.prems(3) a by (simp add: mult_ac)
    then show ?thesis using Cons.IH [of "r * unat d"] Cons.prems a True inner_place_dense [of r es d axes]
      by (simp add: mult.assoc)
  next
    case False
    then have "run = r * es" "outer = a # axes" using Cons.prems(3) a by simp_all
    then show ?thesis using runs_uncollapsed [OF Cons.prems(1)] Cons.prems(2) by simp
  qed
qed

lemma extents_zip: "length xs = length ys \<Longrightarrow> extents (zip xs ys) = prod_list (map unat xs)"
  by (induction xs ys rule: list_induct2) simp_all

lemma materialize_reference:
  assumes "length (tv_strides v) = tv_rank v"
  shows "materialize v backing = reference v backing"
proof (cases "num_elements v = 0")
  case True
  then show ?thesis by (simp add: materialize_def materialize_into_def reference_def)
next
  case False
  let ?axes = "axes_rev v" and ?es = "tensor_dtype_size (tv_dtype v)"
  have ext: "extents ?axes = num_elements v"
    using assms by (simp add: axes_rev_def num_elements_def tv_rank_def extents_zip flip: rev_map)
  obtain run outer where c: "collapse ?es ?axes = (run, outer)" by fastforce
  have "0 < extents outer"
    "concat_opt (map (\<lambda>n. bytes_at backing (tv_offset v + inner_place ?es 1 ?axes n) ?es) [0..<extents ?axes]) =
      concat_opt (map (\<lambda>q. bytes_at backing (tv_offset v + place outer q) run) [0..<extents outer])"
    using collapse_spec [of 1 ?axes ?es run outer backing "tv_offset v"] c ext False by simp_all
  then show ?thesis
    using False c ext copy_runs_spec [of outer "extents outer" run backing 0 "tv_offset v" "[]"]
    by (simp add: materialize_def materialize_into_def reference_def digits_0 inner_place_def option.map_ident)
qed


lemma concat_opt_length:
  "concat_opt xs = Some b \<Longrightarrow> (\<And>x c. x \<in> set xs \<Longrightarrow> x = Some c \<Longrightarrow> length c = k) \<Longrightarrow> length b = length xs * k"
  by (induction xs arbitrary: b) (auto split: option.splits)

lemma reference_length: "reference v backing = Some b \<Longrightarrow> length b = materialized_len v"
  unfolding reference_def materialized_len_def
  by (drule concat_opt_length [where k = "tensor_dtype_size (tv_dtype v)"])
    (auto simp: bytes_at_def split: if_splits)

text \<open>A dense view reads the buffer as it lies.\<close>

lemma place_dense:
  assumes "strides_dense (int k) axes" "0 < extents axes" "n < extents axes"
  shows "place axes n = int (n * k)"
  using assms
proof (induction axes arbitrary: n k)
  case Nil
  then show ?case by simp
next
  case (Cons a axes)
  obtain d s where a: "a = (d, s)" by fastforce
  have d: "0 < unat d" using Cons.prems a by simp
  have "n div unat d < extents axes" using Cons.prems(3) a d by (simp add: less_mult_imp_div_less mult.commute)
  moreover have "strides_dense (int (k * unat d)) axes" using Cons.prems(1) a by simp
  ultimately have "place axes (n div unat d) = int (n div unat d * (k * unat d))" using Cons.IH [of "k * unat d" "n div unat d"] Cons.prems(2) a by simp
  moreover have "n mod unat d * k + n div unat d * (k * unat d) = n * k"
  proof -
    have "(n mod unat d + n div unat d * unat d) * k = n * k" by simp
    then show ?thesis by (simp only: algebra_simps)
  qed
  then have "int (n mod unat d) * int k + int (n div unat d * (k * unat d)) = int (n * k)"
    by (metis of_nat_add of_nat_mult)
  ultimately show ?case using Cons.prems(1) a by simp
qed

lemma contiguous_materialize:
  assumes "is_contiguous v" "length (tv_strides v) = tv_rank v" "materialized_len v \<le> length backing"
  shows "materialize v backing = Some (take (materialized_len v) backing)"
proof (cases "num_elements v = 0")
  case True
  then show ?thesis by (simp add: materialize_def materialize_into_def materialized_len_def)
next
  case False
  let ?es = "tensor_dtype_size (tv_dtype v)"
  have ext: "extents (axes_rev v) = num_elements v"
    using assms(2) by (simp add: axes_rev_def num_elements_def tv_rank_def extents_zip flip: rev_map)
  have "place (axes_rev v) n = int (n * ?es)" if "n < num_elements v" for n
    using place_dense [of ?es "axes_rev v" n] assms(1) ext that False by (simp add: is_contiguous_def)
  then have "map (\<lambda>n. bytes_at backing (tv_offset v + place (axes_rev v) n) ?es) [0..<num_elements v] =
      map (\<lambda>n. bytes_at backing (0 + int (n * ?es)) ?es) [0..<num_elements v]"
    using assms(1) by (auto simp: is_contiguous_def)
  then have "reference v backing = bytes_at backing 0 (num_elements v * ?es)"
    unfolding reference_def using bytes_at_runs [of "num_elements v" backing 0 ?es] False by (metis neq0_conv)
  then show ?thesis using assms(3) materialize_reference [OF assms(2)] by (simp add: bytes_at_def materialized_len_def)
qed


definition demo_view :: tensor_view where
  "demo_view = \<lparr>tv_dtype = U8, tv_shape = [2, 3], tv_strides = [3, - 1], tv_offset = 2\<rparr>"


section \<open>Changing the view\<close>

lemma sum_map2: "length xs = n \<Longrightarrow> length ys = n \<Longrightarrow> sum_list (map2 f xs ys) = (\<Sum>k<n. f (xs ! k) (ys ! k))"
  for f :: "'a \<Rightarrow> 'b \<Rightarrow> int"
  by (simp add: sum_list_sum_nth atLeast0LessThan)

lemma address_sum:
  "length idx = tv_rank v \<Longrightarrow> length (tv_strides v) = tv_rank v \<Longrightarrow>
   address v idx = tv_offset v + (\<Sum>k<tv_rank v. int (idx ! k) * tv_strides v ! k)"
  by (simp add: address_def sum_map2 [of idx "tv_rank v"])

lemma reversed_axis_address:
  assumes "reversed_axis a v = Some w" "length (tv_strides v) = tv_rank v" "length idx = tv_rank v"
    and "idx ! a < unat (tv_shape v ! a)"
  shows "address w idx = address v (idx[a := unat (tv_shape v ! a) - 1 - idx ! a])"
proof -
  let ?n = "tv_rank v" and ?e = "unat (tv_shape v ! a)" and ?st = "tv_strides v"
  have a: "a < ?n" using assms(1) by (auto simp: reversed_axis_def split: if_splits)
  have w: "w = v\<lparr>tv_offset := tv_offset v + (int ?e - 1) * ?st ! a, tv_strides := ?st[a := - (?st ! a)]\<rparr>"
  proof -
    have "0 < int ?e" using assms(4) by linarith
    then have "0 < uint (tv_shape v ! a)" by simp
    then show ?thesis using assms(1) a by (simp add: reversed_axis_def Let_def)
  qed
  have split: "(\<Sum>k<?n. f k) = f a + (\<Sum>k \<in> {..<?n} - {a}. f k)" for f :: "nat \<Rightarrow> int"
    using a by (simp add: sum.remove)
  define rest where "rest = (\<Sum>k \<in> {..<?n} - {a}. int (idx ! k) * ?st ! k)"
  have "(\<Sum>k \<in> {..<?n} - {a}. int (idx ! k) * ?st[a := - (?st ! a)] ! k) = rest"
    "(\<Sum>k \<in> {..<?n} - {a}. int (idx[a := ?e - 1 - idx ! a] ! k) * ?st ! k) = rest"
    unfolding rest_def by (auto intro!: sum.cong)
  then have addr: "address w idx = tv_offset w + (int (idx ! a) * - (?st ! a) + rest)"
    "address v (idx[a := ?e - 1 - idx ! a]) = tv_offset v + (int (?e - 1 - idx ! a) * ?st ! a + rest)"
    using a assms(2,3) w address_sum [of idx w] address_sum [of "idx[a := ?e - 1 - idx ! a]" v]
      split [of "\<lambda>k. int (idx ! k) * ?st[a := - (?st ! a)] ! k"] split [of "\<lambda>k. int (idx[a := ?e - 1 - idx ! a] ! k) * ?st ! k"]
    by (simp_all add: tv_rank_def)
  have mirrored: "int (?e - 1 - idx ! a) = int ?e - 1 - int (idx ! a)" using assms(4) by linarith
  have off: "tv_offset w = tv_offset v + (int ?e - 1) * ?st ! a" using w by simp
  show ?thesis unfolding addr mirrored off by (simp add: algebra_simps)
qed

lemma nth_swap: "a < length xs \<Longrightarrow> b < length xs \<Longrightarrow> k < length xs \<Longrightarrow> swap a b xs ! k = xs ! (if k = a then b else if k = b then a else k)"
  by (auto simp: swap_def nth_list_update)

lemma transposed_address:
  assumes "transposed a b v = Some w" "length (tv_strides v) = tv_rank v" "length idx = tv_rank v"
  shows "address w idx = address v (swap a b idx)"
proof -
  let ?n = "tv_rank v" and ?g = "\<lambda>k. if k = a then b else if k = b then a else k"
  have ab: "a < ?n" "b < ?n" and w: "w = v\<lparr>tv_shape := swap a b (tv_shape v), tv_strides := swap a b (tv_strides v)\<rparr>"
    using assms(1) by (auto simp: transposed_def split: if_splits)
  have rank: "tv_rank w = ?n" using w by (simp add: tv_rank_def swap_def)
  have bij: "bij_betw ?g {..<?n} {..<?n}"
    using ab by (intro bij_betw_byWitness [where f' = ?g]) auto
  have "(\<Sum>k<?n. int (idx ! k) * swap a b (tv_strides v) ! k) = (\<Sum>k<?n. int (swap a b idx ! ?g k) * tv_strides v ! ?g k)"
    using ab assms(2,3) by (intro sum.cong) (auto simp: nth_swap)
  also have "\<dots> = (\<Sum>k<?n. int (swap a b idx ! k) * tv_strides v ! k)"
    by (rule sum.reindex_bij_betw [OF bij])
  finally show ?thesis
    using address_sum [of idx w] address_sum [of "swap a b idx" v] w rank assms(2,3) by (simp add: swap_def)
qed

text \<open>
  Flipping and transposing a view moves no bytes and reads the right ones: in a view reversed along an axis
  the element at an index lies where the mirrored index lay, and in a transposed view where the swapped index lay.
\<close>

theorem view_transforms_correct:
  assumes "length (tv_strides v) = tv_rank v" "length idx = tv_rank v"
  shows "(\<forall>a w. reversed_axis a v = Some w \<and> idx ! a < unat (tv_shape v ! a) \<longrightarrow>
      address w idx = address v (idx[a := unat (tv_shape v ! a) - 1 - idx ! a])) \<and>
    (\<forall>a b w. transposed a b v = Some w \<longrightarrow> address w idx = address v (swap a b idx))"
  using reversed_axis_address [OF _ assms] transposed_address [OF _ assms] by blast

theorem view_transforms_correct_witness:
  "\<exists>w. reversed_axis 1 demo_view = Some w \<and> address w [1, 0] = address demo_view [1, 2] \<and>
    (\<exists>u. transposed 0 1 demo_view = Some u \<and> address u [2, 1] = address demo_view [1, 2])"
proof -
  obtain w u where w: "reversed_axis 1 demo_view = Some w" and u: "transposed 0 1 demo_view = Some u"
    by (simp add: reversed_axis_def transposed_def demo_view_def tv_rank_def)
  have "length (tv_strides demo_view) = tv_rank demo_view" "tv_rank demo_view = 2" "unat (tv_shape demo_view ! 1) = 3"
    by (simp_all add: demo_view_def tv_rank_def)
  then show ?thesis
    using view_transforms_correct [of demo_view "[1, 0]", THEN conjunct1, rule_format, of 1 w]
      view_transforms_correct [of demo_view "[2, 1]", THEN conjunct2, rule_format, of 0 1 u] w u
    by (simp add: swap_def)
qed

end
