(* ===== verification/Frames.thy ===== *)
theory Frames
  imports TensorView
begin

text \<open>
  What crosses a link (\<^verbatim>\<open>frame.rs\<close>): frames with their timing, and the packets of a stream; and the signals that
  travel the other way (\<^verbatim>\<open>element.rs\<close>). A device domain carries a handle that the core never looks into, so the
  eight of them are one constructor with the kind; metadata entries and the playback segment are type
  parameters.
\<close>

datatype memory_domain_kind =
  KSystem | KSystemView | KDmaBuf | KVulkanTexture | KWebGPUBuffer | KCuda | KD3D11Texture | KCvPixelBuffer
| KWebGPUExternalTexture | KWgpuTexture | KWgpuBuffer

datatype memory_domain = System "u8 list" | SystemView "u8 list" tensor_view | Device memory_domain_kind nat

record frame_timing =
  pts_ns :: u64
  dts_ns :: u64
  duration_ns :: u64
  capture_ns :: u64
  arrival_ns :: u64
  keyframe :: bool

record 'm frame =
  f_domain :: memory_domain
  f_timing :: frame_timing
  f_sequence :: u64
  f_meta :: "'m list"

datatype ('m, 's) pipeline_packet =
  CapsChanged caps
| DataFrame "'m frame"
| Eos
| Flush
| Segment 's
| Tick
| Overwrite u64 "'m frame"
| SpliceInfo "'m frame"

definition PTS_NONE :: u64 where "PTS_NONE = - 1"
definition DTS_NONE :: u64 where "DTS_NONE = - 1"

definition timing_pts :: "frame_timing \<Rightarrow> u64 option" where
  "timing_pts t = (if pts_ns t \<noteq> PTS_NONE then Some (pts_ns t) else None)"

definition timing_dts :: "frame_timing \<Rightarrow> u64 option" where
  "timing_dts t = (if dts_ns t \<noteq> DTS_NONE then Some (dts_ns t) else None)"

definition map_dts :: "(u64 \<Rightarrow> u64) \<Rightarrow> frame_timing \<Rightarrow> frame_timing" where
  "map_dts f t = (case timing_dts t of Some d \<Rightarrow> t\<lparr>dts_ns := f d\<rparr> | None \<Rightarrow> t)"

definition timing_default :: frame_timing where
  "timing_default = \<lparr>pts_ns = 0, dts_ns = DTS_NONE, duration_ns = 0, capture_ns = 0, arrival_ns = 0, keyframe = False\<rparr>"

definition frame_new :: "memory_domain \<Rightarrow> frame_timing \<Rightarrow> u64 \<Rightarrow> 'm frame" where
  "frame_new d t n = \<lparr>f_domain = d, f_timing = t, f_sequence = n, f_meta = []\<rparr>"

fun is_data :: "('m, 's) pipeline_packet \<Rightarrow> bool" where
  "is_data (DataFrame _) \<longleftrightarrow> True"
| "is_data _ \<longleftrightarrow> False"

fun frame_payload_bytes :: "'m frame \<Rightarrow> u64" where
  "frame_payload_bytes f =
     (case f_domain f of System b \<Rightarrow> of_nat (length b) | SystemView b _ \<Rightarrow> of_nat (length b) | Device _ _ \<Rightarrow> 0)"

fun packet_bytes :: "('m, 's) pipeline_packet \<Rightarrow> u64" where
  "packet_bytes (DataFrame f) = frame_payload_bytes f"
| "packet_bytes _ = 0"

section \<open>Orientations\<close>

datatype orientation =
  IdentityTurn | Rotate90Cw | Rotate180 | Rotate90Ccw | HorizontalMirror | VerticalMirror | Transpose | Transverse

fun orientation_parts :: "orientation \<Rightarrow> nat \<times> bool" where
  "orientation_parts IdentityTurn = (0, False)"
| "orientation_parts Rotate90Cw = (1, False)"
| "orientation_parts Rotate180 = (2, False)"
| "orientation_parts Rotate90Ccw = (3, False)"
| "orientation_parts HorizontalMirror = (0, True)"
| "orientation_parts Transverse = (1, True)"
| "orientation_parts VerticalMirror = (2, True)"
| "orientation_parts Transpose = (3, True)"

definition orientation_from_parts :: "nat \<Rightarrow> bool \<Rightarrow> orientation" where
  "orientation_from_parts n m =
     (if (n, m) = (0, False) then IdentityTurn
      else if (n, m) = (1, False) then Rotate90Cw
      else if (n, m) = (2, False) then Rotate180
      else if (n, m) = (3, False) then Rotate90Ccw
      else if (n, m) = (0, True) then HorizontalMirror
      else if (n, m) = (1, True) then Transverse
      else if (n, m) = (2, True) then VerticalMirror
      else Transpose)"

definition swaps_dims :: "orientation \<Rightarrow> bool" where
  "swaps_dims r \<longleftrightarrow> fst (orientation_parts r) mod 2 = 1"

definition compose :: "orientation \<Rightarrow> orientation \<Rightarrow> orientation" where
  "compose r next =
     (let (turns, mirrored) = orientation_parts r; (then_turns, then_mirrored) = orientation_parts next;
          carried = (if then_mirrored then 4 - turns else turns)
      in orientation_from_parts ((then_turns + carried) mod 4) (mirrored \<noteq> then_mirrored))"

definition orientation_inverse :: "orientation \<Rightarrow> orientation" where
  "orientation_inverse r =
     (let (turns, mirrored) = orientation_parts r in
      if mirrored then r else orientation_from_parts ((4 - turns) mod 4) False)"

fun orientation_bit :: "orientation \<Rightarrow> u8" where
  "orientation_bit IdentityTurn = 1"
| "orientation_bit Rotate90Cw = 2"
| "orientation_bit Rotate180 = 4"
| "orientation_bit Rotate90Ccw = 8"
| "orientation_bit HorizontalMirror = 16"
| "orientation_bit VerticalMirror = 32"
| "orientation_bit Transpose = 64"
| "orientation_bit Transverse = 128"

datatype orientation_set = OrientationSet u8

definition ORIENTATIONS_EMPTY :: orientation_set where "ORIENTATIONS_EMPTY = OrientationSet 0"
definition ORIENTATIONS_ALL :: orientation_set where "ORIENTATIONS_ALL = OrientationSet (- 1)"

unbundle bit_operations_syntax

definition orientations_contain :: "orientation_set \<Rightarrow> orientation \<Rightarrow> bool" where
  "orientations_contain s r = (case s of OrientationSet bits \<Rightarrow> bits AND orientation_bit r \<noteq> 0)"

definition orientations_of :: "orientation list \<Rightarrow> orientation_set" where
  "orientations_of rs = OrientationSet (foldl (\<lambda>bits r. bits OR orientation_bit r) 0 rs)"

text \<open>The picture a turn makes: the pixel of the turned picture at a place, in terms of the source's. The
  composition of orientations is the composition of the turns.\<close>

type_synonym picture = "int \<Rightarrow> int \<Rightarrow> nat"

text \<open>A picture is centred: a clockwise quarter turn brings the pixel at \<open>(y, -x)\<close> to \<open>(x, y)\<close>, with \<open>y\<close> downwards,
  and a horizontal mirror the one at \<open>(-x, y)\<close>.\<close>

definition turn_cw :: "picture \<Rightarrow> picture" where "turn_cw p = (\<lambda>x y. p y (- x))"

definition mirror :: "picture \<Rightarrow> picture" where "mirror p = (\<lambda>x y. p (- x) y)"

definition apply_orientation :: "orientation \<Rightarrow> picture \<Rightarrow> picture" where
  "apply_orientation r p =
     (let (turns, mirrored) = orientation_parts r in (turn_cw ^^ turns) (if mirrored then mirror p else p))"

lemma apply_orientation_simps:
  "apply_orientation IdentityTurn p = p"
  "apply_orientation Rotate90Cw p = (\<lambda>x y. p y (- x))"
  "apply_orientation Rotate180 p = (\<lambda>x y. p (- x) (- y))"
  "apply_orientation Rotate90Ccw p = (\<lambda>x y. p (- y) x)"
  "apply_orientation HorizontalMirror p = (\<lambda>x y. p (- x) y)"
  "apply_orientation VerticalMirror p = (\<lambda>x y. p x (- y))"
  "apply_orientation Transpose p = (\<lambda>x y. p y x)"
  "apply_orientation Transverse p = (\<lambda>x y. p (- y) (- x))"
  by (simp_all add: apply_orientation_def turn_cw_def mirror_def numeral_eq_Suc)


lemma from_parts_simps [simp]:
  "orientation_from_parts 0 False = IdentityTurn" "orientation_from_parts (Suc 0) False = Rotate90Cw"
  "orientation_from_parts 2 False = Rotate180" "orientation_from_parts 3 False = Rotate90Ccw"
  "orientation_from_parts 0 True = HorizontalMirror" "orientation_from_parts (Suc 0) True = Transverse"
  "orientation_from_parts (Suc (Suc 0)) False = Rotate180" "orientation_from_parts (Suc (Suc 0)) True = VerticalMirror"
  "orientation_from_parts 2 True = VerticalMirror" "orientation_from_parts 3 True = Transpose"
  by (simp_all add: orientation_from_parts_def)

lemma compose_apply: "apply_orientation (compose a b) p = apply_orientation b (apply_orientation a p)"
  by (cases a; cases b) (simp_all add: compose_def apply_orientation_simps)

lemma inverse_apply: "apply_orientation (orientation_inverse a) (apply_orientation a p) = p"
  by (cases a) (simp_all add: orientation_inverse_def apply_orientation_simps)

lemma bit_or_and_zero: "(a OR b) AND c = 0 \<longleftrightarrow> a AND c = 0 \<and> b AND c = (0 :: u8)"
  by (simp add: bit.conj_disj_distrib2 or_eq_0_iff)

lemma orientation_bits_disjoint: "orientation_bit a AND orientation_bit b = 0 \<longleftrightarrow> a \<noteq> b"
  by (cases a; cases b) simp_all

lemma orientations_fold:
  "foldl (\<lambda>bits r. bits OR orientation_bit r) bits rs AND orientation_bit r = 0 \<longleftrightarrow>
     bits AND orientation_bit r = 0 \<and> r \<notin> set rs"
  by (induction rs arbitrary: bits) (auto simp: bit_or_and_zero orientation_bits_disjoint)

text \<open>The orientations are the symmetries of the square: composing two does what applying one after the other
  does to every picture, the inverse undoes, exactly the ones that swap the axes are said to swap dimensions, and
  a set collected from a list contains its members.\<close>

theorem orientation_group:
  "apply_orientation (compose a b) p = apply_orientation b (apply_orientation a p) \<and>
   apply_orientation (orientation_inverse a) (apply_orientation a p) = p \<and>
   (swaps_dims a \<longleftrightarrow> a \<in> {Rotate90Cw, Rotate90Ccw, Transpose, Transverse}) \<and>
   (orientations_contain (orientations_of rs) a \<longleftrightarrow> a \<in> set rs)"
proof -
  have "swaps_dims a \<longleftrightarrow> a \<in> {Rotate90Cw, Rotate90Ccw, Transpose, Transverse}"
    by (cases a) (simp_all add: swaps_dims_def)
  then show ?thesis
    by (simp add: compose_apply inverse_apply orientations_contain_def orientations_of_def orientations_fold)
qed

section \<open>Reverse signals\<close>

datatype reconfigure = Propose caps | Renegotiate | ForceKeyframe | AbsorbOrientation orientation_set

record qos_message =
  qm_jitter_ns :: "64 word"
  qm_running_time_ns :: u64
  qm_taken_ns :: u64
  qm_downstream_proc_ns :: u64

datatype push_outcome = Accepted | Reconfigured reconfigure | QosReport qos_message | Bitrate u32

end
