(* ===== verification/LinkChannel.thy ===== *)
theory LinkChannel
  imports Spsc
begin

text \<open>
  The channel between two elements (\<^verbatim>\<open>runtime/channel.rs\<close>): a bounded queue with wakers, and the latest-value
  slots that carry signals upstream. Every operation of the source runs under one lock, so it is one function
  on the state here. A waker is a number, and the state keeps the wakers that have been woken, in order.
  A poll gives a result or \<open>PollPending\<close>; the panic of polling a send without a packet is \<open>None\<close>.
\<close>

section \<open>Channel\<close>

datatype 'r poll = PollReady 'r | PollPending

datatype send_error = SendClosed | SendFull

record 'a chan =
  ch_queue :: "'a list"
  ch_capacity :: nat
  ch_send_wakers :: "nat list"
  ch_recv_waker :: "nat option"
  ch_senders :: nat
  ch_receivers :: nat
  ch_woken :: "nat list"

definition bounded :: "nat \<Rightarrow> 'a chan option" where
  "bounded capacity =
     (if 0 < capacity
      then Some \<lparr>ch_queue = [], ch_capacity = capacity, ch_send_wakers = [], ch_recv_waker = None,
        ch_senders = 1, ch_receivers = 1, ch_woken = []\<rparr>
      else None)"

definition wake_senders :: "'a chan \<Rightarrow> 'a chan" where
  "wake_senders c = c\<lparr>ch_woken := ch_woken c @ ch_send_wakers c, ch_send_wakers := []\<rparr>"

definition wake_receiver :: "'a chan \<Rightarrow> 'a chan" where
  "wake_receiver c =
     (case ch_recv_waker c of
        Some w \<Rightarrow> c\<lparr>ch_woken := ch_woken c @ [w], ch_recv_waker := None\<rparr>
      | None \<Rightarrow> c)"

definition clone_sender :: "'a chan \<Rightarrow> 'a chan" where
  "clone_sender c = c\<lparr>ch_senders := ch_senders c + 1\<rparr>"

definition drop_sender :: "'a chan \<Rightarrow> 'a chan" where
  "drop_sender c =
     (let c = c\<lparr>ch_senders := ch_senders c - 1\<rparr> in
      if ch_senders c = 0 then wake_receiver c else c)"

definition drop_receiver :: "'a chan \<Rightarrow> 'a chan" where
  "drop_receiver c =
     (let c = c\<lparr>ch_receivers := ch_receivers c - 1\<rparr> in
      if ch_receivers c = 0 then (wake_senders c)\<lparr>ch_queue := []\<rparr> else c)"

definition enqueue :: "'a \<Rightarrow> 'a chan \<Rightarrow> 'a chan" where
  "enqueue v c = wake_receiver (c\<lparr>ch_queue := ch_queue c @ [v]\<rparr>)"

definition chan_send :: "'a \<Rightarrow> 'a chan \<Rightarrow> (('a \<times> send_error) + unit) \<times> 'a chan" where
  "chan_send v c =
     (if ch_receivers c = 0 then (Inl (v, SendClosed), c)
      else if length (ch_queue c) \<ge> ch_capacity c then (Inl (v, SendFull), c)
      else (Inr (), enqueue v c))"

definition poll_send ::
  "nat \<Rightarrow> 'a option \<Rightarrow> 'a chan \<Rightarrow> ((send_error + unit) poll \<times> 'a option \<times> 'a chan) option" where
  "poll_send w slot c =
     (if ch_receivers c = 0 then Some (PollReady (Inl SendClosed), slot, c)
      else if length (ch_queue c) < ch_capacity c then
        (case slot of
           None \<Rightarrow> None
         | Some v \<Rightarrow> Some (PollReady (Inr ()), None, enqueue v c))
      else
        Some (PollPending, slot,
          if w \<in> set (ch_send_wakers c) then c else c\<lparr>ch_send_wakers := ch_send_wakers c @ [w]\<rparr>))"

fun evict_first :: "('a \<Rightarrow> bool) \<Rightarrow> 'a list \<Rightarrow> ('a \<times> 'a list) option" where
  "evict_first P [] = None"
| "evict_first P (x # xs) =
     (if P x then Some (x, xs) else map_option (\<lambda>(y, ys). (y, x # ys)) (evict_first P xs))"

definition evict_front_matching :: "('a \<Rightarrow> bool) \<Rightarrow> 'a chan \<Rightarrow> 'a option \<times> 'a chan" where
  "evict_front_matching P c =
     (case evict_first P (ch_queue c) of
        None \<Rightarrow> (None, c)
      | Some (x, xs) \<Rightarrow> (Some x, c\<lparr>ch_queue := xs\<rparr>))"

definition fill_percent :: "'a chan \<Rightarrow> u8" where
  "fill_percent c = of_nat (length (ch_queue c) * 100 div ch_capacity c)"

definition chan_recv :: "'a chan \<Rightarrow> 'a option \<times> 'a chan" where
  "chan_recv c =
     (case ch_queue c of
        [] \<Rightarrow> (None, c)
      | v # vs \<Rightarrow> (Some v, wake_senders (c\<lparr>ch_queue := vs\<rparr>)))"

definition is_closed :: "'a chan \<Rightarrow> bool" where
  "is_closed c \<longleftrightarrow> ch_senders c = 0"

definition poll_recv :: "nat \<Rightarrow> 'a chan \<Rightarrow> 'a option poll \<times> 'a chan" where
  "poll_recv w c =
     (case ch_queue c of
        v # vs \<Rightarrow> (PollReady (Some v), wake_senders (c\<lparr>ch_queue := vs\<rparr>))
      | [] \<Rightarrow>
          if ch_senders c = 0 then (PollReady None, c)
          else (PollPending, c\<lparr>ch_recv_waker := Some w\<rparr>))"

section \<open>Latest-value slots\<close>

text \<open>A slot is a flag and a value; the flag is read without the lock, so a take may miss a value that is being
  stored, and gives it on the next call.\<close>

record 'a latest =
  lv_pending :: bool
  lv_value :: "'a option"

definition lv_empty :: "'a latest" where
  "lv_empty = \<lparr>lv_pending = False, lv_value = None\<rparr>"

definition lv_store :: "'a \<Rightarrow> 'a latest \<Rightarrow> 'a latest" where
  "lv_store v s = s\<lparr>lv_value := Some v, lv_pending := True\<rparr>"

definition lv_take :: "'a latest \<Rightarrow> 'a option \<times> 'a latest" where
  "lv_take s = (if \<not> lv_pending s then (None, s) else (lv_value s, s\<lparr>lv_pending := False, lv_value := None\<rparr>))"

section \<open>The channel is a bounded queue\<close>

lemma wake_receiver_simps [simp]:
  "ch_queue (wake_receiver c) = ch_queue c" "ch_capacity (wake_receiver c) = ch_capacity c"
  "ch_send_wakers (wake_receiver c) = ch_send_wakers c" "ch_senders (wake_receiver c) = ch_senders c"
  "ch_receivers (wake_receiver c) = ch_receivers c" "ch_recv_waker (wake_receiver c) = None"
  by (simp_all add: wake_receiver_def split: option.split)

lemma wake_senders_simps [simp]:
  "ch_queue (wake_senders c) = ch_queue c" "ch_capacity (wake_senders c) = ch_capacity c"
  "ch_send_wakers (wake_senders c) = []" "ch_senders (wake_senders c) = ch_senders c"
  "ch_receivers (wake_senders c) = ch_receivers c" "ch_recv_waker (wake_senders c) = ch_recv_waker c"
  by (simp_all add: wake_senders_def)

lemma enqueue_simps [simp]:
  "ch_queue (enqueue v c) = ch_queue c @ [v]" "ch_capacity (enqueue v c) = ch_capacity c"
  "ch_send_wakers (enqueue v c) = ch_send_wakers c" "ch_senders (enqueue v c) = ch_senders c"
  "ch_receivers (enqueue v c) = ch_receivers c" "ch_recv_waker (enqueue v c) = None"
  by (simp_all add: enqueue_def)

definition chan_open :: "'a chan \<Rightarrow> bool" where
  "chan_open c \<longleftrightarrow> 0 < ch_receivers c"

definition chan_push :: "'a \<Rightarrow> 'a chan \<Rightarrow> 'a chan" where
  "chan_push v c = snd (chan_send v c)"

definition chan_peek :: "'a chan \<Rightarrow> 'a option" where
  "chan_peek c = fst (chan_recv c)"

definition chan_pop :: "'a chan \<Rightarrow> 'a chan" where
  "chan_pop c = snd (chan_recv c)"

interpretation link_channel: bounded_queue chan_open ch_queue ch_capacity chan_push chan_peek chan_pop
  by unfold_locales
    (auto simp: chan_open_def chan_push_def chan_peek_def chan_pop_def chan_send_def chan_recv_def split: list.splits)

lemma evict_first_spec:
  "evict_first P xs =
     (if \<exists>x \<in> set xs. P x
      then Some (hd (filter P xs), takeWhile (\<lambda>x. \<not> P x) xs @ tl (dropWhile (\<lambda>x. \<not> P x) xs))
      else None)"
  by (induction xs) auto


section \<open>Wakeups\<close>

text \<open>
  Senders and the receiver as clients of one channel. A step is one locked operation; the push of a leaky link
  evicts in one step and sends in another, so the system counts the evictions whose send is still to come. A
  client is parked from a poll that returned pending until its waker is woken.
\<close>

record 'a chan_sys =
  cs_chan :: "'a chan"
  cs_parked :: "nat set"
  cs_parked_recv :: "nat option"
  cs_evicting :: nat

definition settle :: "'a chan \<Rightarrow> 'a chan_sys \<Rightarrow> 'a chan_sys" where
  "settle c s =
     s\<lparr>cs_chan := c\<lparr>ch_woken := []\<rparr>, cs_parked := cs_parked s - set (ch_woken c),
       cs_parked_recv := (case cs_parked_recv s of Some w \<Rightarrow> if w \<in> set (ch_woken c) then None else Some w | None \<Rightarrow> None)\<rparr>"

inductive chan_step :: "'a chan_sys \<Rightarrow> 'a chan_sys \<Rightarrow> bool" where
  step_clone: "0 < ch_senders (cs_chan s) \<Longrightarrow> chan_step s (settle (clone_sender (cs_chan s)) s)"
| step_drop_sender: "0 < ch_senders (cs_chan s) \<Longrightarrow> chan_step s (settle (drop_sender (cs_chan s)) s)"
| step_drop_receiver: "0 < ch_receivers (cs_chan s) \<Longrightarrow>
    chan_step s ((settle (drop_receiver (cs_chan s)) s)\<lparr>cs_parked_recv := None\<rparr>)"
| step_send: "0 < ch_senders (cs_chan s) \<Longrightarrow> chan_send v (cs_chan s) = (r, c) \<Longrightarrow> chan_step s (settle c s)"
| step_poll_send: "0 < ch_senders (cs_chan s) \<Longrightarrow> poll_send w (Some v) (cs_chan s) = Some (r, slot, c) \<Longrightarrow>
    chan_step s ((settle c s)\<lparr>cs_parked := cs_parked (settle c s) - {w} \<union> (if r = PollPending then {w} else {})\<rparr>)"
| step_evict: "0 < ch_senders (cs_chan s) \<Longrightarrow> evict_front_matching P (cs_chan s) = (Some v, c) \<Longrightarrow>
    chan_step s ((settle c s)\<lparr>cs_evicting := Suc (cs_evicting s)\<rparr>)"
| step_send_evicted: "0 < cs_evicting s \<Longrightarrow> chan_send v (cs_chan s) = (r, c) \<Longrightarrow>
    chan_step s ((settle c s)\<lparr>cs_evicting := cs_evicting s - 1\<rparr>)"
| step_recv: "0 < ch_receivers (cs_chan s) \<Longrightarrow> chan_recv (cs_chan s) = (r, c) \<Longrightarrow> chan_step s (settle c s)"
| step_poll_recv: "0 < ch_receivers (cs_chan s) \<Longrightarrow> poll_recv w (cs_chan s) = (r, c) \<Longrightarrow>
    chan_step s ((settle c s)\<lparr>cs_parked_recv := if r = PollPending then Some w else None\<rparr>)"

definition chan_sys_init :: "'a chan \<Rightarrow> 'a chan_sys" where
  "chan_sys_init c = \<lparr>cs_chan = c, cs_parked = {}, cs_parked_recv = None, cs_evicting = 0\<rparr>"

inductive chan_reachable :: "nat \<Rightarrow> 'a chan_sys \<Rightarrow> bool" for capacity where
  reach_init: "bounded capacity = Some c \<Longrightarrow> chan_reachable capacity (chan_sys_init c)"
| reach_step: "chan_reachable capacity s \<Longrightarrow> chan_step s s' \<Longrightarrow> chan_reachable capacity s'"

text \<open>The invariant: the wakers of parked clients are registered, and while one is registered the client has to
  wait, but for the evictions under way.\<close>

definition send_side :: "'a chan \<Rightarrow> nat set \<Rightarrow> nat \<Rightarrow> bool" where
  "send_side c parked n \<longleftrightarrow>
     parked \<subseteq> set (ch_send_wakers c) \<and> length (ch_queue c) \<le> ch_capacity c \<and> 0 < ch_capacity c \<and>
     (ch_send_wakers c = [] \<or> 0 < ch_receivers c \<and> ch_capacity c \<le> length (ch_queue c) + n)"

definition recv_side :: "'a chan \<Rightarrow> nat option \<Rightarrow> bool" where
  "recv_side c parked \<longleftrightarrow>
     (case ch_recv_waker c of None \<Rightarrow> parked = None
      | Some w \<Rightarrow> (parked = None \<or> parked = Some w \<and> 0 < ch_receivers c) \<and>
          (ch_receivers c = 0 \<or> ch_queue c = []) \<and> 0 < ch_senders c)"

definition chan_inv :: "'a chan_sys \<Rightarrow> bool" where
  "chan_inv s \<longleftrightarrow>
     send_side (cs_chan s) (cs_parked s) (cs_evicting s) \<and> recv_side (cs_chan s) (cs_parked_recv s) \<and>
     ch_woken (cs_chan s) = []"


lemmas chan_ops = clone_sender_def drop_sender_def drop_receiver_def chan_send_def poll_send_def
  evict_front_matching_def chan_recv_def poll_recv_def Let_def

lemmas chan_wakes = wake_receiver_def wake_senders_def enqueue_def

lemma evict_first_length: "evict_first P xs = Some (x, ys) \<Longrightarrow> length xs = Suc (length ys)"
  by (induction xs arbitrary: ys) (auto split: if_splits)

lemma chan_step_send_side:
  assumes "chan_step s s'" "send_side (cs_chan s) (cs_parked s) (cs_evicting s)" "ch_woken (cs_chan s) = []"
  shows "send_side (cs_chan s') (cs_parked s') (cs_evicting s')"
  using assms
  by (cases rule: chan_step.cases)
    (auto simp: send_side_def settle_def chan_ops chan_wakes dest: evict_first_length
      split: option.splits if_splits list.splits)

lemma chan_step_recv_side:
  assumes "chan_step s s'" "recv_side (cs_chan s) (cs_parked_recv s)" "ch_woken (cs_chan s) = []"
  shows "recv_side (cs_chan s') (cs_parked_recv s')"
  using assms
  by (cases rule: chan_step.cases)
    (auto simp: recv_side_def settle_def chan_ops chan_wakes split: option.splits if_splits list.splits)

lemma chan_reachable_inv: "chan_reachable n s \<Longrightarrow> chan_inv s"
proof (induction rule: chan_reachable.induct)
  case (reach_init c)
  then show ?case
    by (auto simp: chan_inv_def chan_sys_init_def send_side_def recv_side_def bounded_def split: if_splits)
next
  case (reach_step s s')
  have "ch_woken (cs_chan s') = []" using reach_step.hyps(2) by (cases rule: chan_step.cases) (simp_all add: settle_def)
  then show ?case
    using reach_step chan_step_send_side [of s s'] chan_step_recv_side [of s s'] by (simp add: chan_inv_def)
qed


text \<open>
  C17. No wakeup of a channel is lost, whatever the order in which its clients call it: a sender that waits has
  its waker registered, the receiver is alive and the queue is full up to the slots of evictions that are about
  to send; a receiver that waits is registered, the queue is empty and a sender is alive. So a client that
  could go on has been woken.
\<close>

theorem channel_no_lost_wakeup:
  assumes "chan_reachable n s"
  shows "(\<forall>w. w \<in> cs_parked s \<longrightarrow> w \<in> set (ch_send_wakers (cs_chan s)) \<and> 0 < ch_receivers (cs_chan s) \<and>
      ch_capacity (cs_chan s) \<le> length (ch_queue (cs_chan s)) + cs_evicting s) \<and>
    (\<forall>w. cs_parked_recv s = Some w \<longrightarrow> ch_recv_waker (cs_chan s) = Some w \<and> 0 < ch_receivers (cs_chan s) \<and>
      ch_queue (cs_chan s) = [] \<and> 0 < ch_senders (cs_chan s)) \<and>
    unat (fill_percent (cs_chan s)) \<le> 100"
proof -
  let ?c = "cs_chan s"
  have inv: "send_side ?c (cs_parked s) (cs_evicting s)" "recv_side ?c (cs_parked_recv s)"
    using chan_reachable_inv [OF assms] by (simp_all add: chan_inv_def)
  have "length (ch_queue ?c) * 100 div ch_capacity ?c \<le> 100"
    using inv(1) div_le_mono [of "length (ch_queue ?c) * 100" "ch_capacity ?c * 100" "ch_capacity ?c"]
    by (simp add: send_side_def)
  then have "unat (fill_percent ?c) \<le> 100" by (simp add: fill_percent_def unat_of_nat)
  then show ?thesis using inv by (auto simp: send_side_def recv_side_def split: option.splits)
qed

theorem channel_no_lost_wakeup_witness:
  "\<exists>s :: nat chan_sys. chan_reachable 1 s \<and> cs_parked s = {7} \<and> cs_parked_recv s = None \<and>
     7 \<in> set (ch_send_wakers (cs_chan s)) \<and> ch_queue (cs_chan s) = [5]"
proof -
  define c0 :: "nat chan" where "c0 = the (bounded 1)"
  have c0: "bounded 1 = Some c0" by (simp add: c0_def bounded_def)
  define s1 where "s1 = settle (snd (chan_send 5 c0)) (chan_sys_init c0)"
  have s1: "chan_step (chan_sys_init c0) s1"
    unfolding s1_def by (rule step_send) (simp_all add: c0_def bounded_def chan_sys_init_def prod_eq_iff)
  define s2 where "s2 = (settle ((cs_chan s1)\<lparr>ch_send_wakers := [7]\<rparr>) s1)\<lparr>cs_parked := {7}\<rparr>"
  have "s2 = (settle ((cs_chan s1)\<lparr>ch_send_wakers := [7]\<rparr>) s1)
      \<lparr>cs_parked := cs_parked (settle ((cs_chan s1)\<lparr>ch_send_wakers := [7]\<rparr>) s1) - {7} \<union> {7}\<rparr>"
    by (simp add: s2_def s1_def settle_def chan_sys_init_def)
  moreover have "poll_send 7 (Some 6) (cs_chan s1) =
      Some (PollPending, Some 6, (cs_chan s1)\<lparr>ch_send_wakers := [7]\<rparr>)" "0 < ch_senders (cs_chan s1)"
    by (simp_all add: s1_def settle_def chan_sys_init_def c0_def bounded_def chan_ops chan_wakes)
  ultimately have "chan_step s1 s2" using step_poll_send [of s1 7 6 PollPending] by simp
  then have r: "chan_reachable 1 s2" using s1 c0 reach_init reach_step by metis
  moreover have "cs_parked s2 = {7}" by (simp add: s2_def)
  moreover have "cs_parked_recv s2 = None" "ch_queue (cs_chan s2) = [5]"
    by (simp_all add: s2_def s1_def settle_def chan_sys_init_def c0_def bounded_def chan_ops chan_wakes)
  ultimately show ?thesis using channel_no_lost_wakeup [OF r] by auto
qed

text \<open>Any sequence of sends and receives on an open channel gives what the same sequence gives on a list
  of at most its capacity: a send to a full channel is refused and changes nothing, everything else arrives in
  order.\<close>

theorem channel_refines_queue:
  assumes "bounded n = Some c"
  shows "(fst (link_channel.run_ops cmds c), ch_queue (snd (link_channel.run_ops cmds c))) = link_channel.spec_ops n cmds []"
  using link_channel.run_ops_refines [of c cmds] assms by (auto simp: bounded_def chan_open_def split: if_splits)

theorem channel_refines_queue_witness:
  "\<exists>c :: nat chan. bounded 2 = Some c \<and>
    fst (link_channel.run_ops [Some 1, Some 2, Some 3, None, Some 4, None, None, None] c) = [Some 1, Some 2, Some 4, None]"
proof -
  define c0 :: "nat chan" where "c0 = the (bounded 2)"
  have "bounded 2 = Some c0" by (simp add: c0_def bounded_def)
  from channel_refines_queue [OF this, of "[Some 1, Some 2, Some 3, None, Some 4, None, None, None]"] this
  show ?thesis by auto
qed

end
