(* ===== verification/LinkEndpoint.thy ===== *)
theory LinkEndpoint
  imports Frames LinkChannel
begin

text \<open>
  The retargetable producing end of an edge (\<^verbatim>\<open>ProducerEndpoint\<close> of \<^verbatim>\<open>runtime/channel.rs\<close>): the mutator stops a
  producer at a packet boundary, takes its link and hands it another. Every operation runs under the lock of the
  endpoint and is one function here; the link type is a parameter. The wakers woken are kept in order, as in the
  channel.
\<close>

record ('l, 's) endpoint =
  ep_pending :: bool
  ep_park :: bool
  ep_parked :: bool
  ep_detached :: "'l option"
  ep_staged :: "'l option"
  ep_gone :: bool
  ep_claimed :: bool
  ep_drain :: bool
  ep_retired :: bool
  ep_producer :: "nat option"
  ep_mutator :: "nat option"
  ep_caps :: "caps option"
  ep_segment :: "'s option"
  ep_last_frame :: "(u64 \<times> u64) option"
  ep_last_sequence :: "u64 option"
  ep_continue_after :: "u64 option"
  ep_sequence_shift :: u64
  ep_woken :: "nat list"

definition endpoint_new :: "('l, 's) endpoint" where
  "endpoint_new = \<lparr>ep_pending = False, ep_park = False, ep_parked = False, ep_detached = None, ep_staged = None,
     ep_gone = False, ep_claimed = False, ep_drain = False, ep_retired = False, ep_producer = None, ep_mutator = None,
     ep_caps = None, ep_segment = None, ep_last_frame = None, ep_last_sequence = None, ep_continue_after = None,
     ep_sequence_shift = 0, ep_woken = []\<rparr>"

definition set_caps :: "caps \<Rightarrow> ('l, 's) endpoint \<Rightarrow> ('l, 's) endpoint" where
  "set_caps c ep = ep\<lparr>ep_caps := Some c\<rparr>"

definition observe_frame :: "'m frame \<Rightarrow> ('l, 's) endpoint \<Rightarrow> 'm frame \<times> ('l, 's) endpoint" where
  "observe_frame f ep =
     (let ep = ep\<lparr>ep_last_frame := Some (pts_ns (f_timing f), duration_ns (f_timing f))\<rparr>;
          ep = (case ep_continue_after ep of
                  Some seen \<Rightarrow>
                    ep\<lparr>ep_continue_after := None,
                       ep_sequence_shift := (if f_sequence f \<le> seen then seen + 1 - f_sequence f else 0)\<rparr>
                | None \<Rightarrow> ep);
          f = f\<lparr>f_sequence := saturating_add (f_sequence f) (ep_sequence_shift ep)\<rparr>
      in (f, ep\<lparr>ep_last_sequence := Some (f_sequence f)\<rparr>))"

fun observe ::
  "('m, 's) pipeline_packet \<Rightarrow> ('l, 's) endpoint \<Rightarrow> ('m, 's) pipeline_packet \<times> ('l, 's) endpoint" where
  "observe (CapsChanged c) ep = (CapsChanged c, ep\<lparr>ep_caps := Some c\<rparr>)"
| "observe (Segment s) ep = (Segment s, ep\<lparr>ep_segment := Some s\<rparr>)"
| "observe (DataFrame f) ep = (case observe_frame f ep of (f, ep) \<Rightarrow> (DataFrame f, ep))"
| "observe p ep = (p, ep)"

definition timeline :: "('l, 's) endpoint \<Rightarrow> 's option \<times> (u64 \<times> u64) option" where
  "timeline ep = (ep_segment ep, ep_last_frame ep)"

definition continue_sequence_after :: "u64 option \<Rightarrow> ('l, 's) endpoint \<Rightarrow> ('l, 's) endpoint" where
  "continue_sequence_after seen ep = ep\<lparr>ep_continue_after := seen, ep_sequence_shift := 0\<rparr>"

definition claim_on_end :: "('l, 's) endpoint \<Rightarrow> ('l, 's) endpoint" where
  "claim_on_end ep = ep\<lparr>ep_claimed := True\<rparr>"

definition begin_drain :: "('l, 's) endpoint \<Rightarrow> ('l, 's) endpoint" where
  "begin_drain ep = ep\<lparr>ep_drain := True\<rparr>"

definition request_park :: "('l, 's) endpoint \<Rightarrow> ('l, 's) endpoint" where
  "request_park ep = ep\<lparr>ep_park := True, ep_pending := True\<rparr>"

definition poll_detached :: "nat \<Rightarrow> ('l, 's) endpoint \<Rightarrow> (g2g_error + 'l) poll \<times> ('l, 's) endpoint" where
  "poll_detached w ep =
     (case ep_detached ep of
        Some link \<Rightarrow> (PollReady (Inr link), ep\<lparr>ep_detached := None\<rparr>)
      | None \<Rightarrow>
          if ep_gone ep then (PollReady (Inl Shutdown), ep)
          else (PollPending, ep\<lparr>ep_mutator := Some w\<rparr>))"

definition wake_producer :: "('l, 's) endpoint \<Rightarrow> ('l, 's) endpoint" where
  "wake_producer ep =
     ep\<lparr>ep_woken := ep_woken ep @ (case ep_producer ep of Some w \<Rightarrow> [w] | None \<Rightarrow> []), ep_producer := None\<rparr>"

definition wake_mutator :: "('l, 's) endpoint \<Rightarrow> ('l, 's) endpoint" where
  "wake_mutator ep =
     ep\<lparr>ep_woken := ep_woken ep @ (case ep_mutator ep of Some w \<Rightarrow> [w] | None \<Rightarrow> []), ep_mutator := None\<rparr>"

definition unpark :: "'l option \<Rightarrow> ('l, 's) endpoint \<Rightarrow> ('l, 's) endpoint" where
  "unpark replacement ep = wake_producer (ep\<lparr>ep_park := False, ep_staged := replacement, ep_pending := True\<rparr>)"

definition cancel_park :: "('l, 's) endpoint \<Rightarrow> ('l, 's) endpoint" where
  "cancel_park ep =
     (let ep = ep\<lparr>ep_park := False\<rparr>;
          ep = (case ep_detached ep of Some own \<Rightarrow> ep\<lparr>ep_detached := None, ep_staged := Some own\<rparr> | None \<Rightarrow> ep)
      in wake_producer (ep\<lparr>ep_pending := True\<rparr>))"

definition retire :: "('l, 's) endpoint \<Rightarrow> ('l, 's) endpoint" where
  "retire ep = unpark None (ep\<lparr>ep_retired := True\<rparr>)"

definition rehome :: "('l, 's) endpoint \<Rightarrow> ('l, 's) endpoint" where
  "rehome ep =
     ep\<lparr>ep_park := False, ep_parked := False, ep_gone := False, ep_claimed := False, ep_drain := False,
        ep_retired := False, ep_detached := None, ep_staged := None, ep_segment := None, ep_last_frame := None,
        ep_continue_after := ep_last_sequence ep, ep_sequence_shift := 0\<rparr>"

text \<open>The producer's side of the gate; \<open>dead\<close> is the closed link it is left with.\<close>

definition poll_producer ::
  "'l \<Rightarrow> nat \<Rightarrow> 'l \<Rightarrow> ('l, 's) endpoint \<Rightarrow> unit poll \<times> 'l \<times> ('l, 's) endpoint" where
  "poll_producer dead w link ep =
     (let (link, ep) = (case ep_staged ep of
             Some staged \<Rightarrow> (staged, ep\<lparr>ep_staged := None, ep_parked := False\<rparr>)
           | None \<Rightarrow> (link, ep)) in
      if ep_park ep then
        (let (link, ep) = (if \<not> ep_parked ep
               then (dead, wake_mutator (ep\<lparr>ep_detached := Some link, ep_parked := True\<rparr>))
               else (link, ep))
         in (PollPending, link, ep\<lparr>ep_producer := Some w\<rparr>))
      else (PollReady (), link, ep\<lparr>ep_pending := False\<rparr>))"

definition producer_gone :: "'l \<Rightarrow> ('l, 's) endpoint \<Rightarrow> ('l, 's) endpoint" where
  "producer_gone link ep =
     wake_mutator
       (let ep = ep\<lparr>ep_gone := True\<rparr> in
        if ep_claimed ep \<and> ep_detached ep = None then ep\<lparr>ep_detached := Some link\<rparr> else ep)"

section \<open>Numbering across takeovers\<close>

fun observe_frames :: "'m frame list \<Rightarrow> ('l, 's) endpoint \<Rightarrow> 'm frame list \<times> ('l, 's) endpoint" where
  "observe_frames [] ep = ([], ep)"
| "observe_frames (f # fs) ep =
     (let (f', ep) = observe_frame f ep; (fs', ep) = observe_frames fs ep in (f' # fs', ep))"

text \<open>Producers that push one after the other, each taking over from the last.\<close>

fun observe_producers :: "'m frame list list \<Rightarrow> ('l, 's) endpoint \<Rightarrow> 'm frame list \<times> ('l, 's) endpoint" where
  "observe_producers [] ep = ([], ep)"
| "observe_producers (run # runs) ep =
     (let (fs, ep) = observe_frames run ep; (rest, ep) = observe_producers runs (rehome ep) in (fs @ rest, ep))"

definition numbers :: "'m frame list \<Rightarrow> nat list" where
  "numbers fs = map (unat \<circ> f_sequence) fs"

definition span :: "'m frame list \<Rightarrow> nat" where
  "span fs = (if fs = [] then 0 else Suc (unat (f_sequence (last fs))))"


lemma saturating_nat: "unat a + unat b < 2 ^ 64 \<Longrightarrow> unat (saturating_add a b) = unat a + unat b" for a b :: u64
  by (simp add: saturating_add_def checked_add_def unat_word_ariths)

lemma observe_frames_shifted:
  assumes "ep_continue_after ep = None" "\<forall>f \<in> set fs. unat (f_sequence f) + unat (ep_sequence_shift ep) < 2 ^ 64"
  shows "numbers (fst (observe_frames fs ep)) = map (\<lambda>f. unat (f_sequence f) + unat (ep_sequence_shift ep)) fs \<and>
    map_option unat (ep_last_sequence (snd (observe_frames fs ep))) =
      (if fs = [] then map_option unat (ep_last_sequence ep)
       else Some (unat (f_sequence (last fs)) + unat (ep_sequence_shift ep)))"
  using assms
proof (induction fs arbitrary: ep)
  case Nil
  then show ?case by (simp add: numbers_def)
next
  case (Cons f fs)
  define ep1 where "ep1 = snd (observe_frame f ep)"
  have ep1: "ep_continue_after ep1 = None" "ep_sequence_shift ep1 = ep_sequence_shift ep"
    "ep_last_sequence ep1 = Some (saturating_add (f_sequence f) (ep_sequence_shift ep))"
    "f_sequence (fst (observe_frame f ep)) = saturating_add (f_sequence f) (ep_sequence_shift ep)"
    using Cons.prems(1) by (simp_all add: ep1_def observe_frame_def Let_def)
  show ?case using Cons.IH [of ep1] Cons.prems ep1 saturating_nat [of "f_sequence f" "ep_sequence_shift ep"]
    by (auto simp: numbers_def ep1_def split_beta)
qed

definition run_shift :: "u64 option \<Rightarrow> 'm frame \<Rightarrow> nat" where
  "run_shift seen f = (case seen of Some l \<Rightarrow> Suc (unat l) - unat (f_sequence f) | None \<Rightarrow> 0)"

lemma sorted_wrt_ends:
  assumes "sorted_wrt (<) (map h xs)" "x \<in> set xs"
  shows "(h (hd xs) :: nat) \<le> h x \<and> h x \<le> h (last xs)"
  using assms by (induction xs) (auto dest: order.strict_implies_order)

lemma takeover_run:
  assumes "ep_continue_after ep = ep_last_sequence ep" "ep_sequence_shift ep = 0"
    and "\<forall>l. ep_last_sequence ep = Some l \<longrightarrow> unat l < b" "b + span (f # fs) < 2 ^ 64"
    and "sorted_wrt (<) (numbers (f # fs))"
  shows "numbers (fst (observe_frames (f # fs) ep)) = map (\<lambda>g. unat (f_sequence g) + run_shift (ep_last_sequence ep) f) (f # fs) \<and>
    map_option unat (ep_last_sequence (snd (observe_frames (f # fs) ep))) =
      Some (unat (f_sequence (last (f # fs))) + run_shift (ep_last_sequence ep) f)"
proof -
  let ?d = "run_shift (ep_last_sequence ep) f"
  define ep1 where
    "ep1 = (case ep_last_sequence ep of Some l \<Rightarrow> ep\<lparr>ep_continue_after := None,
        ep_sequence_shift := (if f_sequence f \<le> l then l + 1 - f_sequence f else 0)\<rparr> | None \<Rightarrow> ep)"
  have "observe_frame f ep = observe_frame f ep1"
    using assms(1) by (cases ep) (auto simp: observe_frame_def ep1_def Let_def split: option.splits)
  then have same: "observe_frames (f # fs) ep = observe_frames (f # fs) ep1" by simp
  have "ep_continue_after ep1 = None" using assms(1) by (simp add: ep1_def split: option.split)
  moreover have d: "unat (ep_sequence_shift ep1) = ?d"
  proof (cases "ep_last_sequence ep")
    case None
    then show ?thesis using assms(2) by (simp add: ep1_def run_shift_def)
  next
    case (Some l)
    then have "unat l + 1 < 2 ^ 64" using assms(3,4) by (simp add: span_def)
    then have one: "unat (l + 1) = unat l + 1" by (simp add: unat_word_ariths)
    show ?thesis
    proof (cases "f_sequence f \<le> l")
      case True
      then have "f_sequence f \<le> l + 1" using one by (simp add: word_le_nat_alt)
      then show ?thesis using Some True one by (simp add: ep1_def run_shift_def unat_sub)
    next
      case False
      then show ?thesis using Some by (simp add: ep1_def run_shift_def word_le_nat_alt)
    qed
  qed
  moreover have "unat (f_sequence g) + ?d < 2 ^ 64" if "g \<in> set (f # fs)" for g
  proof -
    have "unat (f_sequence g) \<le> unat (f_sequence (last (f # fs)))" "unat (f_sequence f) \<le> unat (f_sequence g)"
      using sorted_wrt_ends [of "unat \<circ> f_sequence" "f # fs" g] assms(5) that by (simp_all add: numbers_def)
    then show ?thesis using assms(3,4) by (auto simp: run_shift_def span_def split: option.splits)
  qed
  ultimately show ?thesis using observe_frames_shifted [of ep1 "f # fs"] same by simp
qed


text \<open>What a takeover has to go on: the last number of the producers before, below a bound.\<close>

definition numbered :: "nat \<Rightarrow> ('l, 's) endpoint \<Rightarrow> bool" where
  "numbered b ep \<longleftrightarrow> ep_continue_after ep = ep_last_sequence ep \<and> ep_sequence_shift ep = 0 \<and>
     (\<forall>l. ep_last_sequence ep = Some l \<longrightarrow> unat l < b)"

definition later :: "u64 option \<Rightarrow> nat \<Rightarrow> bool" where
  "later seen n \<longleftrightarrow> (\<forall>l. seen = Some l \<longrightarrow> unat l < n)"

lemma takeover_step:
  assumes "numbered b ep" "b + span run < 2 ^ 64" "sorted_wrt (<) (numbers run)"
  shows "numbered (b + span run) (rehome (snd (observe_frames run ep))) \<and>
    sorted_wrt (<) (numbers (fst (observe_frames run ep))) \<and>
    (\<forall>n \<in> set (numbers (fst (observe_frames run ep))). later (ep_last_sequence ep) n) \<and>
    (\<forall>n. later (ep_last_sequence (snd (observe_frames run ep))) n \<longrightarrow>
       later (ep_last_sequence ep) n \<and> (\<forall>m \<in> set (numbers (fst (observe_frames run ep))). m < n))"
proof (cases run)
  case Nil
  then show ?thesis using assms(1) by (simp add: numbered_def span_def numbers_def rehome_def later_def)
next
  case (Cons f fs)
  let ?d = "run_shift (ep_last_sequence ep) f"
  have out: "numbers (fst (observe_frames run ep)) = map (\<lambda>g. unat (f_sequence g) + ?d) run"
    "map_option unat (ep_last_sequence (snd (observe_frames run ep))) = Some (unat (f_sequence (last run)) + ?d)"
    using takeover_run [of ep b f fs] assms Cons by (simp_all add: numbered_def)
  have ends: "unat (f_sequence f) \<le> unat (f_sequence g)" "unat (f_sequence g) \<le> unat (f_sequence (last run))"
    if "g \<in> set run" for g
    using sorted_wrt_ends [of "unat \<circ> f_sequence" run g] that assms(3) Cons by (simp_all add: numbers_def)
  have d: "unat (f_sequence f) + ?d < b + Suc (unat (f_sequence f))"
    "ep_last_sequence ep = Some l \<Longrightarrow> unat l < unat (f_sequence f) + ?d" for l
    using assms(1) by (auto simp: numbered_def run_shift_def split: option.split)
  have top: "unat (f_sequence (last run)) + ?d < b + span run"
    using d(1) ends(1) [of "last run"] Cons assms(1) by (auto simp: span_def run_shift_def numbered_def split: option.splits)
  have sorted: "sorted_wrt (<) (map (\<lambda>g. unat (f_sequence g) + ?d) run)"
    using assms(3) by (simp add: numbers_def sorted_wrt_map)
  obtain l' where l': "ep_last_sequence (snd (observe_frames run ep)) = Some l'" "unat l' = unat (f_sequence (last run)) + ?d"
    using out(2) by (auto simp: map_option_eq_Some)
  have "later (ep_last_sequence ep) (unat (f_sequence g) + ?d)" if "g \<in> set run" for g
    using d(2) ends(1) [OF that] by (fastforce simp: later_def)
  moreover have "unat (f_sequence g) + ?d \<le> unat l'" if "g \<in> set run" for g using ends(2) [OF that] l'(2) by simp
  moreover have "numbered (b + span run) (rehome (snd (observe_frames run ep)))"
    using l' top by (simp add: numbered_def rehome_def)
  moreover have "last run \<in> set run" using Cons by simp
  ultimately show ?thesis using out(1) sorted l'(1) unfolding later_def by fastforce
qed

lemma takeover_numbers:
  assumes "numbered b ep" "b + sum_list (map span runs) < 2 ^ 64" "\<forall>run \<in> set runs. sorted_wrt (<) (numbers run)"
  shows "sorted_wrt (<) (numbers (fst (observe_producers runs ep))) \<and>
    (\<forall>n \<in> set (numbers (fst (observe_producers runs ep))). later (ep_last_sequence ep) n)"
  using assms
proof (induction runs arbitrary: b ep)
  case Nil
  then show ?case by (simp add: numbers_def)
next
  case (Cons run runs)
  let ?ep = "rehome (snd (observe_frames run ep))"
  have small: "b + span run < 2 ^ 64" and run: "sorted_wrt (<) (numbers run)" using Cons.prems by simp_all
  note step = takeover_step [OF Cons.prems(1) small run]
  have IH: "sorted_wrt (<) (numbers (fst (observe_producers runs ?ep)))"
    "\<forall>n \<in> set (numbers (fst (observe_producers runs ?ep))). later (ep_last_sequence (snd (observe_frames run ep))) n"
    using Cons.IH [of "b + span run" ?ep] step Cons.prems by (simp_all add: rehome_def)
  have "numbers (fst (observe_producers (run # runs) ep)) =
    numbers (fst (observe_frames run ep)) @ numbers (fst (observe_producers runs ?ep))"
    by (simp add: numbers_def split_beta)
  then show ?case using step IH by (auto simp: sorted_wrt_append)
qed

text \<open>
  The numbering of an edge rises across any number of takeovers: whatever producers follow one another on
  an edge, each numbering its frames upwards from wherever it likes, the consumer sees strictly rising sequence
  numbers, as long as the ranges of the producers together fit in 64 bits.
\<close>

theorem sequence_rises_across_takeovers:
  assumes "\<And>run. run \<in> set runs \<Longrightarrow> sorted_wrt (<) (numbers run)" "sum_list (map span runs) < 2 ^ 64"
  shows "sorted_wrt (<) (numbers (fst (observe_producers runs (endpoint_new :: ('l, 's) endpoint))))"
proof -
  have "numbered 0 (endpoint_new :: ('l, 's) endpoint)" by (simp add: numbered_def endpoint_new_def)
  from takeover_numbers [OF this, of runs] show ?thesis using assms by simp
qed

definition demo_run :: "u64 list \<Rightarrow> unit frame list" where
  "demo_run ns = map (frame_new (System []) timing_default) ns"

theorem sequence_rises_witness:
  "sorted_wrt (<) (numbers (fst (observe_producers [demo_run [0, 1, 2], demo_run [0, 4], demo_run [100]]
     (endpoint_new :: (nat, nat) endpoint)))) \<and>
   numbers (fst (observe_producers [demo_run [0, 1, 2], demo_run [0, 4], demo_run [100]] (endpoint_new :: (nat, nat) endpoint))) =
     [0, 1, 2, 3, 7, 100]"
proof -
  let ?runs = "[demo_run [0, 1, 2], demo_run [0, 4], demo_run [100]]"
  have "sorted_wrt (<) (numbers run)" if "run \<in> set ?runs" for run
    using that by (auto simp: demo_run_def frame_new_def numbers_def)
  moreover have "sum_list (map span ?runs) < 2 ^ 64" by (simp add: demo_run_def frame_new_def span_def)
  moreover have "numbers (fst (observe_producers ?runs (endpoint_new :: (nat, nat) endpoint))) = [0, 1, 2, 3, 7, 100]"
    by code_simp
  ultimately show ?thesis using sequence_rises_across_takeovers [of ?runs] by blast
qed

section \<open>Handing over a link\<close>

text \<open>
  A producer and a mutator on one endpoint, one locked operation per step. The mutator asks the producer to park,
  waits for its link, and then gives a link back or retires the producer; or it gives up waiting. The producer
  comes by when the flag is set; its arm may end at any time. A client waits from a poll that returned pending
  until its waker is woken; the producer's waker is 0, the mutator's is 1.
\<close>

datatype 'l mutator = MutIdle | MutWaiting | MutHolding 'l | MutDone

record ('l, 's) handoff =
  ho_ep :: "('l, 's) endpoint"
  ho_link :: 'l
  ho_mutator :: "'l mutator"
  ho_producer_waits :: bool
  ho_mutator_waits :: bool

definition ho_settle :: "('l, 's) endpoint \<Rightarrow> ('l, 's) handoff \<Rightarrow> ('l, 's) handoff" where
  "ho_settle ep s =
     s\<lparr>ho_ep := ep\<lparr>ep_woken := []\<rparr>, ho_producer_waits := ho_producer_waits s \<and> 0 \<notin> set (ep_woken ep),
       ho_mutator_waits := ho_mutator_waits s \<and> 1 \<notin> set (ep_woken ep)\<rparr>"

inductive handoff_step :: "'l \<Rightarrow> ('l, 's) handoff \<Rightarrow> ('l, 's) handoff \<Rightarrow> bool" for dead where
  ho_request: "ho_mutator s = MutIdle \<Longrightarrow>
    handoff_step dead s ((ho_settle (request_park (ho_ep s)) s)\<lparr>ho_mutator := MutWaiting\<rparr>)"
| ho_taken: "ho_mutator s = MutWaiting \<Longrightarrow> poll_detached 1 (ho_ep s) = (PollReady (Inr l), ep) \<Longrightarrow>
    handoff_step dead s ((ho_settle ep s)\<lparr>ho_mutator := MutHolding l, ho_mutator_waits := False\<rparr>)"
| ho_over: "ho_mutator s = MutWaiting \<Longrightarrow> poll_detached 1 (ho_ep s) = (PollReady (Inl e), ep) \<Longrightarrow>
    handoff_step dead s ((ho_settle ep s)\<lparr>ho_mutator := MutDone, ho_mutator_waits := False\<rparr>)"
| ho_wait: "ho_mutator s = MutWaiting \<Longrightarrow> poll_detached 1 (ho_ep s) = (PollPending, ep) \<Longrightarrow>
    handoff_step dead s ((ho_settle ep s)\<lparr>ho_mutator_waits := True\<rparr>)"
| ho_cancel: "ho_mutator s = MutWaiting \<Longrightarrow>
    handoff_step dead s ((ho_settle (cancel_park (ho_ep s)) s)\<lparr>ho_mutator := MutIdle, ho_mutator_waits := False\<rparr>)"
| ho_unpark: "ho_mutator s = MutHolding l \<Longrightarrow> r \<noteq> dead \<Longrightarrow>
    handoff_step dead s ((ho_settle (unpark (Some r) (ho_ep s)) s)\<lparr>ho_mutator := MutIdle\<rparr>)"
| ho_retire: "ho_mutator s = MutHolding l \<Longrightarrow>
    handoff_step dead s ((ho_settle (retire (ho_ep s)) s)\<lparr>ho_mutator := MutDone\<rparr>)"
| ho_claim: "handoff_step dead s (ho_settle (claim_on_end (ho_ep s)) s)"
| ho_poll: "\<not> ep_gone (ho_ep s) \<Longrightarrow> ep_pending (ho_ep s) \<Longrightarrow> poll_producer dead 0 (ho_link s) (ho_ep s) = (r, l, ep) \<Longrightarrow>
    handoff_step dead s ((ho_settle ep s)\<lparr>ho_link := l, ho_producer_waits := (r = PollPending)\<rparr>)"
| ho_gone: "\<not> ep_gone (ho_ep s) \<Longrightarrow>
    handoff_step dead s ((ho_settle (producer_gone (ho_link s) (ho_ep s)) s)\<lparr>ho_producer_waits := False\<rparr>)"

definition handoff_init :: "'l \<Rightarrow> ('l, 's) handoff" where
  "handoff_init l = \<lparr>ho_ep = endpoint_new, ho_link = l, ho_mutator = MutIdle, ho_producer_waits = False,
     ho_mutator_waits = False\<rparr>"

inductive handoff_reachable :: "'l \<Rightarrow> ('l, 's) handoff \<Rightarrow> bool" for dead where
  ho_init: "l \<noteq> dead \<Longrightarrow> handoff_reachable dead (handoff_init l)"
| ho_step: "handoff_reachable dead s \<Longrightarrow> handoff_step dead s s' \<Longrightarrow> handoff_reachable dead s'"

text \<open>Where the live link is, by what the mutator is doing, while the producer's arm lives and has not been
  retired.\<close>

definition with_producer :: "'l \<Rightarrow> ('l, 's) endpoint \<Rightarrow> 'l \<Rightarrow> bool" where
  "with_producer dead ep l \<longleftrightarrow>
     ep_detached ep = None \<and>
     (if ep_parked ep then l = dead \<and> (\<exists>r. ep_staged ep = Some r \<and> r \<noteq> dead) \<and> ep_pending ep
      else l \<noteq> dead \<and> ep_staged ep = None)"

fun place_ok :: "'l \<Rightarrow> ('l, 's) endpoint \<Rightarrow> 'l \<Rightarrow> 'l mutator \<Rightarrow> bool" where
  "place_ok dead ep l MutIdle \<longleftrightarrow> \<not> ep_park ep \<and> with_producer dead ep l"
| "place_ok dead ep l MutWaiting \<longleftrightarrow> ep_park ep \<and> ep_pending ep \<and>
     (with_producer dead ep l \<or>
      (\<exists>r. ep_detached ep = Some r \<and> r \<noteq> dead) \<and> ep_staged ep = None \<and> ep_parked ep \<and> l = dead)"
| "place_ok dead ep l (MutHolding r) \<longleftrightarrow> r \<noteq> dead \<and> ep_park ep \<and> ep_pending ep \<and> ep_parked ep \<and> l = dead \<and>
     ep_detached ep = None \<and> ep_staged ep = None"
| "place_ok dead ep l MutDone \<longleftrightarrow> False"

definition waits_ok :: "('l, 's) handoff \<Rightarrow> bool" where
  "waits_ok s \<longleftrightarrow>
     (ho_producer_waits s \<longrightarrow> ep_park (ho_ep s) \<and> ep_producer (ho_ep s) = Some 0) \<and>
     (ho_mutator_waits s \<longrightarrow> ho_mutator s = MutWaiting \<and> ep_mutator (ho_ep s) = Some 1 \<and>
        ep_detached (ho_ep s) = None \<and> \<not> ep_gone (ho_ep s)) \<and>
     ep_producer (ho_ep s) \<in> {None, Some 0} \<and> ep_mutator (ho_ep s) \<in> {None, Some 1} \<and> ep_woken (ho_ep s) = []"

lemmas endpoint_ops = request_park_def poll_detached_def cancel_park_def unpark_def retire_def claim_on_end_def
  poll_producer_def producer_gone_def wake_producer_def wake_mutator_def ho_settle_def Let_def

lemma handoff_waits:
  assumes "handoff_step dead s s'" "waits_ok s"
  shows "waits_ok s'"
  using assms by (cases rule: handoff_step.cases) (auto simp: waits_ok_def endpoint_ops split: option.splits if_splits)

lemma handoff_places:
  assumes "handoff_step dead s s'" "ep_gone (ho_ep s) \<or> ep_retired (ho_ep s) \<or> place_ok dead (ho_ep s) (ho_link s) (ho_mutator s)"
  shows "ep_gone (ho_ep s') \<or> ep_retired (ho_ep s') \<or> place_ok dead (ho_ep s') (ho_link s') (ho_mutator s')"
  using assms
  by (cases rule: handoff_step.cases; cases "ho_mutator s")
    (auto simp: endpoint_ops with_producer_def split: option.splits if_splits)


lemma handoff_reachable_inv:
  "handoff_reachable dead s \<Longrightarrow>
   waits_ok s \<and> (ep_gone (ho_ep s) \<or> ep_retired (ho_ep s) \<or> place_ok dead (ho_ep s) (ho_link s) (ho_mutator s))"
proof (induction rule: handoff_reachable.induct)
  case (ho_init l)
  then show ?case by (simp add: handoff_init_def waits_ok_def endpoint_new_def with_producer_def)
next
  case (ho_step s s')
  show ?case using handoff_waits [OF ho_step.hyps(2)] handoff_places [OF ho_step.hyps(2)] ho_step.IH by blast
qed

definition live_links :: "'l \<Rightarrow> ('l, 's) handoff \<Rightarrow> 'l list" where
  "live_links dead s =
     (if ho_link s = dead then [] else [ho_link s]) @
     (case ep_detached (ho_ep s) of None \<Rightarrow> [] | Some l \<Rightarrow> [l]) @
     (case ep_staged (ho_ep s) of None \<Rightarrow> [] | Some l \<Rightarrow> [l]) @
     (case ho_mutator s of MutHolding l \<Rightarrow> [l] | _ \<Rightarrow> [])"

text \<open>
  C18. The handoff neither loses nor doubles a link and leaves nobody asleep, whatever the order of the steps:
  until the producer's arm ends or is retired, exactly one of producer, endpoint and mutator has the live link; a
  producer that waits was asked to park and is registered, and once the mutator has nothing to do it does not
  wait; a mutator that waits is registered, and no link is there for it yet; and a request or a link for the
  producer comes with the flag that makes it look.
\<close>

theorem handoff_safe:
  assumes "handoff_reachable dead s"
  shows "(ep_gone (ho_ep s) \<or> ep_retired (ho_ep s) \<or>
      (\<exists>l. live_links dead s = [l] \<and> l \<noteq> dead) \<and>
      (ho_mutator s = MutIdle \<longrightarrow> \<not> ho_producer_waits s) \<and>
      (ep_park (ho_ep s) \<or> ep_staged (ho_ep s) \<noteq> None \<longrightarrow> ep_pending (ho_ep s))) \<and>
    (ho_producer_waits s \<longrightarrow> ep_park (ho_ep s) \<and> ep_producer (ho_ep s) = Some 0) \<and>
    (ho_mutator_waits s \<longrightarrow> ep_mutator (ho_ep s) = Some 1 \<and> ep_detached (ho_ep s) = None \<and> \<not> ep_gone (ho_ep s))"
proof -
  have w: "waits_ok s" using handoff_reachable_inv [OF assms] by blast
  have "(\<exists>l. live_links dead s = [l] \<and> l \<noteq> dead) \<and> (ho_mutator s = MutIdle \<longrightarrow> \<not> ho_producer_waits s) \<and>
      (ep_park (ho_ep s) \<or> ep_staged (ho_ep s) \<noteq> None \<longrightarrow> ep_pending (ho_ep s))"
    if "place_ok dead (ho_ep s) (ho_link s) (ho_mutator s)"
    using that w
    by (cases "ho_mutator s") (auto simp: live_links_def with_producer_def waits_ok_def split: option.splits if_splits)
  then show ?thesis using handoff_reachable_inv [OF assms] w by (auto simp: waits_ok_def)
qed

theorem handoff_safe_witness:
  "\<exists>s :: (nat, unit) handoff. handoff_reachable 0 s \<and> ho_mutator s = MutHolding 7 \<and> live_links 0 s = [7]"
proof -
  define s1 :: "(nat, unit) handoff" where
    "s1 = (ho_settle (request_park (ho_ep (handoff_init 7))) (handoff_init 7))\<lparr>ho_mutator := MutWaiting\<rparr>"
  have s1: "handoff_reachable 0 s1"
    unfolding s1_def by (rule ho_step [OF ho_init ho_request]) (simp_all add: handoff_init_def)
  obtain r l ep where p: "poll_producer 0 0 (ho_link s1) (ho_ep s1) = (r, l, ep)" by (metis prod.exhaust)
  define s2 where "s2 = (ho_settle ep s1)\<lparr>ho_link := l, ho_producer_waits := (r = PollPending)\<rparr>"
  have "handoff_step 0 s1 s2"
    unfolding s2_def by (rule ho_poll [OF _ _ p]) (simp_all add: s1_def handoff_init_def endpoint_new_def endpoint_ops)
  then have s2: "handoff_reachable 0 s2" by (rule ho_step [OF s1])
  have ep: "ep_detached ep = Some 7" "ep_woken (ep\<lparr>ep_woken := []\<rparr>) = []"
    using p by (auto simp: s1_def handoff_init_def endpoint_new_def endpoint_ops)
  obtain ep3 where p3: "poll_detached 1 (ho_ep s2) = (PollReady (Inr 7), ep3)"
    using ep by (simp add: s2_def endpoint_ops)
  define s3 where "s3 = (ho_settle ep3 s2)\<lparr>ho_mutator := MutHolding 7, ho_mutator_waits := False\<rparr>"
  have "handoff_step 0 s2 s3"
    unfolding s3_def by (rule ho_taken [OF _ p3]) (simp add: s2_def s1_def handoff_init_def endpoint_ops)
  then have s3: "handoff_reachable 0 s3" by (rule ho_step [OF s2])
  have "\<not> ep_gone (ho_ep s3)" "\<not> ep_retired (ho_ep s3)" "ho_mutator s3 = MutHolding 7"
    using p p3 by (auto simp: s3_def s2_def s1_def handoff_init_def endpoint_new_def endpoint_ops)
  then show ?thesis using handoff_safe [OF s3] s3
    by (auto simp: live_links_def split: if_splits option.splits)
qed

end
