(* ===== verification/LinkPush.thy ===== *)
theory LinkPush
  imports LinkEndpoint Graph
begin

text \<open>
  Pushing a packet through a link (\<^verbatim>\<open>LinkSender\<close>, \<^verbatim>\<open>LinkReceiver\<close> and \<^verbatim>\<open>SenderSink\<close> of \<^verbatim>\<open>runtime/channel.rs\<close>): probes,
  reverse signals, back pressure and leaky policies, traffic counters and transit stamps. A shared cell is a field
  of the state that owns it here: the reverse slots of the link and the upstream slots a transform relays to. An
  interceptor is a function on packets. Of an element's timing probe the model keeps the processing time that a
  relayed report adds; its histograms are left out. A poll takes two clock readings, the one shared by the stamps
  and the one at the end of a blocking send. A panic is \<open>None\<close>.
\<close>

section \<open>Links\<close>

record edge_counters =
  ec_packets :: u64
  ec_bytes :: u64
  ec_drops :: u64
  ec_blocked_ns :: u64
  ec_last_caps :: "caps option"

definition count_packet :: "u64 \<Rightarrow> u64 \<Rightarrow> edge_counters \<Rightarrow> edge_counters" where
  "count_packet bytes blocked c =
     (let c = c\<lparr>ec_packets := ec_packets c + 1, ec_bytes := ec_bytes c + bytes\<rparr> in
      if blocked > 0 then c\<lparr>ec_blocked_ns := ec_blocked_ns c + blocked\<rparr> else c)"

definition count_drop :: "edge_counters \<Rightarrow> edge_counters" where
  "count_drop c = c\<lparr>ec_drops := ec_drops c + 1\<rparr>"

definition count_caps :: "caps \<Rightarrow> edge_counters \<Rightarrow> edge_counters" where
  "count_caps k c = c\<lparr>ec_last_caps := Some k\<rparr>"

datatype probe_action = ProbePass | ProbeDrop

record ('m, 's) link_sender =
  lk_data :: "('m, 's) pipeline_packet chan"
  lk_reconfigure :: "reconfigure latest"
  lk_qos :: "qos_message latest"
  lk_bitrate :: "u32 latest"
  lk_policy :: link_policy
  lk_dropped :: "u64 option"
  lk_probe :: "(('m, 's) pipeline_packet \<Rightarrow> probe_action) option"
  lk_transit :: "u64 list option"
  lk_counters :: "edge_counters option"

definition link_over :: "u64 list option \<Rightarrow> ('m, 's) pipeline_packet chan \<Rightarrow> ('m, 's) link_sender" where
  "link_over transit c = \<lparr>lk_data = c, lk_reconfigure = lv_empty, lk_qos = lv_empty, lk_bitrate = lv_empty,
     lk_policy = Block, lk_dropped = None, lk_probe = None, lk_transit = transit, lk_counters = None\<rparr>"

definition build_link :: "nat \<Rightarrow> u64 list option \<Rightarrow> ('m, 's) link_sender option" where
  "build_link capacity transit = map_option (link_over transit) (bounded capacity)"

definition closed_link :: "('m, 's) link_sender" where
  "closed_link = link_over None \<lparr>ch_queue = [], ch_capacity = 1, ch_send_wakers = [], ch_recv_waker = None,
     ch_senders = 1, ch_receivers = 0, ch_woken = []\<rparr>"

definition record_drop :: "('m, 's) link_sender \<Rightarrow> ('m, 's) link_sender" where
  "record_drop l = l\<lparr>lk_dropped := map_option (\<lambda>n. n + 1) (lk_dropped l), lk_counters := map_option count_drop (lk_counters l)\<rparr>"

definition record_sent :: "u64 \<Rightarrow> u64 \<Rightarrow> ('m, 's) link_sender \<Rightarrow> ('m, 's) link_sender" where
  "record_sent bytes blocked l = l\<lparr>lk_counters := map_option (count_packet bytes blocked) (lk_counters l)\<rparr>"

definition probe_verdict :: "('m, 's) pipeline_packet \<Rightarrow> (('m, 's) pipeline_packet \<Rightarrow> probe_action) option \<Rightarrow> probe_action" where
  "probe_verdict p probe = (case probe of None \<Rightarrow> ProbePass | Some f \<Rightarrow> f p)"

text \<open>The receiving end.\<close>

definition link_recv :: "('m, 's) link_sender \<Rightarrow> ('m, 's) pipeline_packet option \<times> ('m, 's) link_sender" where
  "link_recv l = (case chan_recv (lk_data l) of (r, c) \<Rightarrow> (r, l\<lparr>lk_data := c\<rparr>))"

definition pop_transit_at :: "u64 \<Rightarrow> ('m, 's) link_sender \<Rightarrow> u64 option \<times> ('m, 's) link_sender" where
  "pop_transit_at now l =
     (case lk_transit l of
        Some (t # ts) \<Rightarrow> (Some (if t \<le> now then now - t else 0), l\<lparr>lk_transit := Some ts\<rparr>)
      | _ \<Rightarrow> (None, l))"

definition request_reconfigure :: "reconfigure \<Rightarrow> ('m, 's) link_sender \<Rightarrow> ('m, 's) link_sender" where
  "request_reconfigure r l = l\<lparr>lk_reconfigure := lv_store r (lk_reconfigure l)\<rparr>"

definition request_qos :: "qos_message \<Rightarrow> ('m, 's) link_sender \<Rightarrow> ('m, 's) link_sender" where
  "request_qos q l = l\<lparr>lk_qos := lv_store q (lk_qos l)\<rparr>"

definition request_bitrate :: "u32 \<Rightarrow> ('m, 's) link_sender \<Rightarrow> ('m, 's) link_sender" where
  "request_bitrate b l = l\<lparr>lk_bitrate := lv_store b (lk_bitrate l)\<rparr>"

definition advertise_orientation :: "orientation_set \<Rightarrow> ('m, 's) link_sender \<Rightarrow> ('m, 's) link_sender" where
  "advertise_orientation absorbed l =
     (if absorbed \<noteq> ORIENTATIONS_EMPTY \<and> absorbed \<noteq> orientations_of [IdentityTurn]
      then request_reconfigure (AbsorbOrientation absorbed) l else l)"

section \<open>The pushing adapter\<close>

record reconfigure_answered =
  ra_keyframe :: bool
  ra_orientation :: bool

definition answered_default :: reconfigure_answered where
  "answered_default = \<lparr>ra_keyframe = True, ra_orientation = False\<rparr>"

datatype push_phase =
  PhaseIdle
| PhaseSending (ph_bytes: u64) (ph_since: "u64 option") (ph_stamped: bool) (ph_parked: bool)

record ('m, 's) sender_sink =
  ss_link :: "('m, 's) link_sender"
  ss_probe :: "(('m, 's) pipeline_packet \<Rightarrow> probe_action) option"
  ss_upstream_qos :: "qos_message latest list"
  ss_qos_answered :: bool
  ss_upstream_reconfigure :: "reconfigure latest option"
  ss_reconfigure_answered :: reconfigure_answered
  ss_upstream_bitrate :: "u32 latest option"
  ss_meta_stash :: "'m list option"
  ss_eos_forwarded :: bool
  ss_wait_probe :: "u64 option"
  ss_phase :: push_phase
  ss_endpoint :: "(('m, 's) link_sender, 's) endpoint option"
  ss_strip_terminal :: bool

definition sink_new :: "(('m, 's) link_sender, 's) endpoint option \<Rightarrow> ('m, 's) link_sender \<Rightarrow> ('m, 's) sender_sink" where
  "sink_new ep l = \<lparr>ss_link = l, ss_probe = lk_probe l, ss_upstream_qos = [], ss_qos_answered = True,
     ss_upstream_reconfigure = None, ss_reconfigure_answered = answered_default, ss_upstream_bitrate = None,
     ss_meta_stash = None, ss_eos_forwarded = False, ss_wait_probe = None, ss_phase = PhaseIdle, ss_endpoint = ep,
     ss_strip_terminal = False\<rparr>"

definition wants_blocked_stamp :: "('m, 's) sender_sink \<Rightarrow> bool" where
  "wants_blocked_stamp s \<longleftrightarrow> lk_counters (ss_link s) \<noteq> None \<or> ss_wait_probe s \<noteq> None"

definition relay_qos_to :: "qos_message latest \<Rightarrow> bool \<Rightarrow> ('m, 's) sender_sink \<Rightarrow> ('m, 's) sender_sink" where
  "relay_qos_to up answered s = s\<lparr>ss_upstream_qos := ss_upstream_qos s @ [up], ss_qos_answered := answered\<rparr>"

definition relay_reconfigure_to ::
  "reconfigure latest \<Rightarrow> reconfigure_answered \<Rightarrow> ('m, 's) sender_sink \<Rightarrow> ('m, 's) sender_sink" where
  "relay_reconfigure_to up answered s = s\<lparr>ss_upstream_reconfigure := Some up, ss_reconfigure_answered := answered\<rparr>"

definition relay_bitrate_to :: "u32 latest \<Rightarrow> ('m, 's) sender_sink \<Rightarrow> ('m, 's) sender_sink" where
  "relay_bitrate_to up s = s\<lparr>ss_upstream_bitrate := Some up\<rparr>"

fun answers :: "reconfigure_answered \<Rightarrow> reconfigure \<Rightarrow> bool" where
  "answers a ForceKeyframe \<longleftrightarrow> ra_keyframe a"
| "answers a (AbsorbOrientation _) \<longleftrightarrow> ra_orientation a"
| "answers a (Propose _) \<longleftrightarrow> True"
| "answers a Renegotiate \<longleftrightarrow> True"

fun held_back :: "bool \<Rightarrow> reconfigure \<Rightarrow> bool" where
  "held_back pre (AbsorbOrientation _) \<longleftrightarrow> \<not> pre"
| "held_back pre ForceKeyframe \<longleftrightarrow> pre"
| "held_back pre _ \<longleftrightarrow> False"

definition take_reconfigure_or_relay ::
  "bool \<Rightarrow> ('m, 's) sender_sink \<Rightarrow> reconfigure option \<times> ('m, 's) sender_sink" where
  "take_reconfigure_or_relay pre s =
     (case lv_take (lk_reconfigure (ss_link s)) of (taken, slot) \<Rightarrow>
        let s = s\<lparr>ss_link := (ss_link s)\<lparr>lk_reconfigure := slot\<rparr>\<rparr> in
        (case taken of
           None \<Rightarrow> (None, s)
         | Some r \<Rightarrow>
             if answers (ss_reconfigure_answered s) r then
               (if held_back pre r
                then (None, s\<lparr>ss_link := request_reconfigure r (ss_link s)\<rparr>)
                else (Some r, s))
             else (None, s\<lparr>ss_upstream_reconfigure := map_option (lv_store r) (ss_upstream_reconfigure s)\<rparr>)))"

definition post_send_outcome :: "('m, 's) sender_sink \<Rightarrow> push_outcome \<times> ('m, 's) sender_sink" where
  "post_send_outcome s =
     (case take_reconfigure_or_relay False s of
        (Some r, s) \<Rightarrow> (Reconfigured r, s)
      | (None, s) \<Rightarrow>
          (let (q, slot) = lv_take (lk_qos (ss_link s));
               s = s\<lparr>ss_link := (ss_link s)\<lparr>lk_qos := slot\<rparr>\<rparr>;
               s = (case q of
                      None \<Rightarrow> s
                    | Some q \<Rightarrow>
                        (let proc = (case ss_wait_probe s of Some n \<Rightarrow> n | None \<Rightarrow> 0);
                             relayed = q\<lparr>qm_downstream_proc_ns := saturating_add (qm_downstream_proc_ns q) proc\<rparr>
                         in s\<lparr>ss_upstream_qos := map (lv_store relayed) (ss_upstream_qos s)\<rparr>))
           in if q \<noteq> None \<and> ss_qos_answered s then (QosReport (the q), s)
              else
                (let (b, slot) = lv_take (lk_bitrate (ss_link s));
                     s = s\<lparr>ss_link := (ss_link s)\<lparr>lk_bitrate := slot\<rparr>\<rparr>
                 in case b of
                      None \<Rightarrow> (Accepted, s)
                    | Some bps \<Rightarrow>
                        (case ss_upstream_bitrate s of
                           Some up \<Rightarrow> (Accepted, s\<lparr>ss_upstream_bitrate := Some (lv_store bps up)\<rparr>)
                         | None \<Rightarrow> (Bitrate bps, s)))))"


section \<open>Pushing\<close>

type_synonym ('m, 's) push_result =
  "((g2g_error + push_outcome) poll \<times> ('m, 's) pipeline_packet option \<times> ('m, 's) sender_sink) option"

definition on_data ::
  "(('m, 's) pipeline_packet chan \<Rightarrow> ('m, 's) pipeline_packet chan) \<Rightarrow> ('m, 's) sender_sink \<Rightarrow> ('m, 's) sender_sink" where
  "on_data f s = s\<lparr>ss_link := (ss_link s)\<lparr>lk_data := f (lk_data (ss_link s))\<rparr>\<rparr>"

definition sent :: "('m, 's) sender_sink \<Rightarrow> ('m, 's) push_result" where
  "sent s = (case post_send_outcome s of (r, s) \<Rightarrow> Some (PollReady (Inr r), None, s))"

definition unstamp :: "('m, 's) link_sender \<Rightarrow> ('m, 's) link_sender" where
  "unstamp l = l\<lparr>lk_transit := map_option butlast (lk_transit l)\<rparr>"

definition poll_blocking_send ::
  "nat \<Rightarrow> u64 \<Rightarrow> ('m, 's) pipeline_packet option \<Rightarrow> u64 \<Rightarrow> u64 option \<Rightarrow> bool \<Rightarrow> bool \<Rightarrow> ('m, 's) sender_sink \<Rightarrow> ('m, 's) push_result" where
  "poll_blocking_send w now slot bytes since stamped parked s =
     (case poll_send w slot (lk_data (ss_link s)) of
        None \<Rightarrow> None
      | Some (r, slot, c) \<Rightarrow>
          let s = on_data (\<lambda>_. c) s in
          (case r of
             PollPending \<Rightarrow> Some (PollPending, slot, s\<lparr>ss_phase := PhaseSending bytes since stamped True\<rparr>)
           | PollReady (Inr _) \<Rightarrow>
               (let s = s\<lparr>ss_phase := PhaseIdle\<rparr>;
                    blocked = (case since of Some t0 \<Rightarrow> if parked \<and> t0 \<le> now then now - t0 else 0 | None \<Rightarrow> 0)
                in sent (s\<lparr>ss_link := record_sent bytes blocked (ss_link s)\<rparr>))
           | PollReady (Inl SendClosed) \<Rightarrow>
               (let s = s\<lparr>ss_phase := PhaseIdle\<rparr>;
                    s = (if stamped then s\<lparr>ss_link := unstamp (ss_link s)\<rparr> else s)
                in Some (PollReady (Inl Shutdown), None, s))
           | PollReady (Inl SendFull) \<Rightarrow> None))"

definition start_blocking ::
  "nat \<Rightarrow> u64 \<times> u64 \<Rightarrow> ('m, 's) pipeline_packet \<Rightarrow> u64 \<Rightarrow> bool \<Rightarrow> ('m, 's) sender_sink \<Rightarrow> ('m, 's) push_result" where
  "start_blocking w clock p bytes stamped s =
     (let since = (if wants_blocked_stamp s then Some (fst clock) else None);
          s = s\<lparr>ss_phase := PhaseSending bytes since stamped False\<rparr>
      in poll_blocking_send w (snd clock) (Some p) bytes since stamped False s)"

definition push_drop_newest :: "('m, 's) pipeline_packet \<Rightarrow> u64 \<Rightarrow> ('m, 's) sender_sink \<Rightarrow> ('m, 's) push_result" where
  "push_drop_newest p bytes s =
     (case chan_send p (lk_data (ss_link s)) of
        (Inr _, c) \<Rightarrow> sent (let s = on_data (\<lambda>_. c) s in s\<lparr>ss_link := record_sent bytes 0 (ss_link s)\<rparr>)
      | (Inl (_, SendFull), c) \<Rightarrow> sent (let s = on_data (\<lambda>_. c) s in s\<lparr>ss_link := record_drop (ss_link s)\<rparr>)
      | (Inl (_, SendClosed), c) \<Rightarrow> Some (PollReady (Inl Shutdown), None, on_data (\<lambda>_. c) s))"

definition push_drop_oldest ::
  "nat \<Rightarrow> u64 \<times> u64 \<Rightarrow> ('m, 's) pipeline_packet \<Rightarrow> u64 \<Rightarrow> ('m, 's) sender_sink \<Rightarrow> ('m, 's) push_result" where
  "push_drop_oldest w clock p bytes s =
     (case chan_send p (lk_data (ss_link s)) of
        (Inr _, c) \<Rightarrow> sent (let s = on_data (\<lambda>_. c) s in s\<lparr>ss_link := record_sent bytes 0 (ss_link s)\<rparr>)
      | (Inl (returned, SendFull), _) \<Rightarrow>
          (case evict_front_matching is_data (lk_data (ss_link s)) of
             (Some _, c) \<Rightarrow>
               (let s = on_data (\<lambda>_. c) s; s = s\<lparr>ss_link := record_drop (ss_link s)\<rparr> in
                case chan_send returned (lk_data (ss_link s)) of
                  (Inr _, c) \<Rightarrow> sent (let s = on_data (\<lambda>_. c) s in s\<lparr>ss_link := record_sent bytes 0 (ss_link s)\<rparr>)
                | (Inl (_, SendClosed), _) \<Rightarrow> Some (PollReady (Inl Shutdown), None, s)
                | (Inl (_, SendFull), _) \<Rightarrow> None)
           | (None, _) \<Rightarrow> start_blocking w clock returned bytes False s)
      | (Inl (_, SendClosed), _) \<Rightarrow> Some (PollReady (Inl Shutdown), None, s))"

definition send_by_policy ::
  "nat \<Rightarrow> u64 \<times> u64 \<Rightarrow> ('m, 's) pipeline_packet \<Rightarrow> ('m, 's) sender_sink \<Rightarrow> ('m, 's) push_result" where
  "send_by_policy w clock p s =
     (let bytes = packet_bytes p in
      if is_data p \<and> lk_policy (ss_link s) \<noteq> Block then
        (case lk_policy (ss_link s) of
           DropNewest \<Rightarrow> push_drop_newest p bytes s
         | DropOldest \<Rightarrow> push_drop_oldest w clock p bytes s
         | Block \<Rightarrow> None)
      else
        (let stamped = (is_data p \<and> lk_transit (ss_link s) \<noteq> None);
             s = (if stamped
                  then s\<lparr>ss_link := (ss_link s)\<lparr>lk_transit := map_option (\<lambda>ts. ts @ [fst clock]) (lk_transit (ss_link s))\<rparr>\<rparr>
                  else s)
         in start_blocking w clock p bytes stamped s))"

text \<open>What happens to a packet that is committed to the link, before it is sent.\<close>

definition commit :: "('m, 's) pipeline_packet \<Rightarrow> ('m, 's) sender_sink \<Rightarrow> ('m, 's) pipeline_packet \<times> ('m, 's) sender_sink" where
  "commit p s =
     (let s = (case p of Eos \<Rightarrow> s\<lparr>ss_eos_forwarded := True\<rparr> | Flush \<Rightarrow> s\<lparr>ss_eos_forwarded := False\<rparr> | _ \<Rightarrow> s);
          s = (case p of
                 CapsChanged k \<Rightarrow> s\<lparr>ss_link := (ss_link s)\<lparr>lk_counters := map_option (count_caps k) (lk_counters (ss_link s))\<rparr>\<rparr>
               | _ \<Rightarrow> s)
      in case ss_endpoint s of
           None \<Rightarrow> (p, s)
         | Some ep \<Rightarrow> (case observe p ep of (p, ep) \<Rightarrow> (p, s\<lparr>ss_endpoint := Some ep\<rparr>)))"

definition push_gate :: "nat \<Rightarrow> ('m, 's) sender_sink \<Rightarrow> unit poll \<times> ('m, 's) sender_sink" where
  "push_gate w s =
     (case ss_endpoint s of
        Some ep \<Rightarrow>
          if ep_pending ep then
            (case poll_producer closed_link w (ss_link s) ep of (r, l, ep) \<Rightarrow>
               let s = s\<lparr>ss_link := l, ss_endpoint := Some ep\<rparr> in
               (r, if r = PollPending then s else s\<lparr>ss_probe := lk_probe (ss_link s)\<rparr>))
          else (PollReady (), s)
      | None \<Rightarrow> (PollReady (), s))"

fun attach_meta :: "'m list option \<Rightarrow> ('m, 's) pipeline_packet \<Rightarrow> ('m, 's) pipeline_packet" where
  "attach_meta (Some stash) (DataFrame f) = DataFrame (if f_meta f = [] then f\<lparr>f_meta := stash\<rparr> else f)"
| "attach_meta _ p = p"

fun is_eos :: "('m, 's) pipeline_packet \<Rightarrow> bool" where
  "is_eos Eos \<longleftrightarrow> True"
| "is_eos _ \<longleftrightarrow> False"

definition push_open ::
  "nat \<Rightarrow> u64 \<times> u64 \<Rightarrow> ('m, 's) pipeline_packet option \<Rightarrow> ('m, 's) sender_sink \<Rightarrow> ('m, 's) push_result" where
  "push_open w clock slot s =
     (case slot of
        None \<Rightarrow> None
      | Some p \<Rightarrow>
          if ss_strip_terminal s \<and> is_eos p then Some (PollReady (Inr Accepted), None, s)
          else
            (let p = attach_meta (ss_meta_stash s) p in
             if probe_verdict p (ss_probe s) = ProbeDrop then Some (PollReady (Inr Accepted), None, s)
             else
               (case (if is_eos p then (None, s) else take_reconfigure_or_relay True s) of
                  (Some r, s) \<Rightarrow> Some (PollReady (Inr (Reconfigured r)), None, s)
                | (None, s) \<Rightarrow> (case commit p s of (p, s) \<Rightarrow> send_by_policy w clock p s))))"

definition poll_push ::
  "nat \<Rightarrow> u64 \<times> u64 \<Rightarrow> ('m, 's) pipeline_packet option \<Rightarrow> ('m, 's) sender_sink \<Rightarrow> ('m, 's) push_result" where
  "poll_push w clock slot s =
     (case ss_phase s of
        PhaseSending bytes since stamped parked \<Rightarrow> poll_blocking_send w (snd clock) slot bytes since stamped parked s
      | PhaseIdle \<Rightarrow>
          (case push_gate w s of
             (PollPending, s) \<Rightarrow> Some (PollPending, slot, s)
           | (PollReady _, s) \<Rightarrow> push_open w clock slot s))"

definition begin_push :: "('m, 's) sender_sink \<Rightarrow> ('m, 's) sender_sink" where
  "begin_push s = s\<lparr>ss_phase := PhaseIdle\<rparr>"

definition sink_drop :: "('m, 's) sender_sink \<Rightarrow> ('m, 's) sender_sink" where
  "sink_drop s = s\<lparr>ss_endpoint := map_option (producer_gone (ss_link s)) (ss_endpoint s)\<rparr>"


section \<open>What a push leaves alone\<close>

text \<open>The part of an adapter that carries data: its channel, the drop count, the transit stamps and the phase.\<close>

definition data_view :: "('m, 's) sender_sink \<Rightarrow> ('m, 's) pipeline_packet chan \<times> u64 option \<times> u64 list option \<times> link_policy \<times> push_phase" where
  "data_view s = (lk_data (ss_link s), lk_dropped (ss_link s), lk_transit (ss_link s), lk_policy (ss_link s), ss_phase s)"

lemma data_view_simps [simp]:
  "lk_data (request_reconfigure r l) = lk_data l" "lk_dropped (request_reconfigure r l) = lk_dropped l"
  "lk_transit (request_reconfigure r l) = lk_transit l"
  "lk_data (record_sent b t l) = lk_data l" "lk_dropped (record_sent b t l) = lk_dropped l"
  "lk_transit (record_sent b t l) = lk_transit l" "lk_data (record_drop l) = lk_data l"
  "lk_transit (record_drop l) = lk_transit l" "lk_dropped (record_drop l) = map_option (\<lambda>n. n + 1) (lk_dropped l)"
  "lk_data (unstamp l) = lk_data l" "lk_dropped (unstamp l) = lk_dropped l"
  "lk_transit (unstamp l) = map_option butlast (lk_transit l)"
  "lk_policy (request_reconfigure r l) = lk_policy l" "lk_policy (unstamp l) = lk_policy l"
  "lk_policy (record_drop l) = lk_policy l" "lk_policy (record_sent b t l) = lk_policy l"
  by (simp_all add: request_reconfigure_def record_sent_def record_drop_def unstamp_def)

lemma take_reconfigure_view: "take_reconfigure_or_relay pre s = (r, s') \<Longrightarrow> data_view s' = data_view s"
  by (auto simp: take_reconfigure_or_relay_def data_view_def Let_def split: prod.splits option.splits if_splits)

lemma post_send_view:
  assumes "post_send_outcome s = (r, s')"
  shows "data_view s' = data_view s"
proof -
  obtain r1 s1 where t: "take_reconfigure_or_relay False s = (r1, s1)" by fastforce
  then have "data_view s1 = data_view s" by (rule take_reconfigure_view)
  moreover have "data_view s' = data_view s1"
    using assms t
    by (auto simp: post_send_outcome_def data_view_def Let_def split: prod.splits option.splits if_splits)
  ultimately show ?thesis by simp
qed

lemma sent_view:
  "\<exists>o' s'. sent s = Some (PollReady (Inr o'), None, s') \<and> data_view s' = data_view s"
  using post_send_view by (fastforce simp: sent_def split: prod.split)

lemma on_data_view [simp]:
  "lk_data (ss_link (on_data f s)) = f (lk_data (ss_link s))" "lk_dropped (ss_link (on_data f s)) = lk_dropped (ss_link s)"
  "lk_transit (ss_link (on_data f s)) = lk_transit (ss_link s)" "ss_phase (on_data f s) = ss_phase s"
  "lk_policy (ss_link (on_data f s)) = lk_policy (ss_link s)"
  by (simp_all add: on_data_def)

section \<open>Policies\<close>

text \<open>The contract of a policy on a queue: what a push of a packet makes of the queue and how many frames it drops,
  or nothing when the producer has to wait.\<close>

definition policy_spec ::
  "link_policy \<Rightarrow> nat \<Rightarrow> ('m, 's) pipeline_packet \<Rightarrow> ('m, 's) pipeline_packet list \<Rightarrow> (('m, 's) pipeline_packet list \<times> nat) option" where
  "policy_spec policy capacity p q =
     (if length q < capacity then Some (q @ [p], 0)
      else if is_data p \<and> policy = DropNewest then Some (q, 1)
      else if is_data p \<and> policy = DropOldest then map_option (\<lambda>(_, q'). (q' @ [p], 1)) (evict_first is_data q)
      else None)"

definition send_post ::
  "nat \<Rightarrow> ('m, 's) pipeline_packet \<Rightarrow> ('m, 's) sender_sink \<Rightarrow> ('m, 's) push_result \<Rightarrow> bool" where
  "send_post w p s res \<longleftrightarrow>
     (case res of None \<Rightarrow> False
      | Some (r, slot, s') \<Rightarrow>
          (let c = lk_data (ss_link s); c' = lk_data (ss_link s') in
           if ch_receivers c = 0 then r = PollReady (Inl Shutdown) \<and> slot = None \<and> c' = c
           else
             (case policy_spec (lk_policy (ss_link s)) (ch_capacity c) p (ch_queue c) of
                None \<Rightarrow> r = PollPending \<and> slot = Some p \<and> ch_queue c' = ch_queue c \<and> w \<in> set (ch_send_wakers c') \<and>
                  lk_dropped (ss_link s') = lk_dropped (ss_link s)
              | Some (q, drops) \<Rightarrow> (\<exists>o'. r = PollReady (Inr o')) \<and> slot = None \<and> ch_queue c' = q \<and>
                  lk_dropped (ss_link s') = map_option (\<lambda>n. n + of_nat drops) (lk_dropped (ss_link s)))))"

lemma blocking_post:
  assumes "policy_spec policy (ch_capacity (lk_data (ss_link s))) p (ch_queue (lk_data (ss_link s))) =
      (if length (ch_queue (lk_data (ss_link s))) < ch_capacity (lk_data (ss_link s))
       then Some (ch_queue (lk_data (ss_link s)) @ [p], 0) else None)"
    and "lk_data (ss_link s0) = lk_data (ss_link s)" "lk_dropped (ss_link s0) = lk_dropped (ss_link s)"
    and "lk_policy (ss_link s) = policy"
  shows "send_post w p s (start_blocking w clock p bytes stamped s0)"
proof -
  let ?c = "lk_data (ss_link s)"
  define since where "since = (if wants_blocked_stamp s0 then Some (fst clock) else None)"
  show ?thesis
  proof (cases "ch_receivers ?c = 0 \<or> \<not> length (ch_queue ?c) < ch_capacity ?c")
    case True
    then show ?thesis using assms
      by (auto simp: send_post_def start_blocking_def poll_blocking_send_def poll_send_def Let_def)
  next
    case False
    define s1 where "s1 = (on_data (\<lambda>_. enqueue p ?c) (s0\<lparr>ss_phase := PhaseSending bytes since stamped False\<rparr>))\<lparr>ss_phase := PhaseIdle\<rparr>"
    define s2 where "s2 = s1\<lparr>ss_link := record_sent bytes 0 (ss_link s1)\<rparr>"
    have "start_blocking w clock p bytes stamped s0 = sent s2"
      using False assms
      by (simp add: start_blocking_def poll_blocking_send_def poll_send_def Let_def s1_def s2_def since_def)
    moreover have "lk_data (ss_link s2) = enqueue p ?c" "lk_dropped (ss_link s2) = lk_dropped (ss_link s)"
      using assms(3) by (simp_all add: s2_def s1_def)
    ultimately obtain o' s' where "start_blocking w clock p bytes stamped s0 = Some (PollReady (Inr o'), None, s')"
      "lk_data (ss_link s') = enqueue p ?c" "lk_dropped (ss_link s') = lk_dropped (ss_link s)"
      using sent_view [of s2] by (auto simp: data_view_def)
    then show ?thesis using False assms by (simp add: send_post_def Let_def option.map_ident)
  qed
qed


lemma sent_post:
  assumes "0 < ch_receivers (lk_data (ss_link s))"
    and "policy_spec (lk_policy (ss_link s)) (ch_capacity (lk_data (ss_link s))) p (ch_queue (lk_data (ss_link s))) = Some (q, drops)"
    and "ch_queue (lk_data (ss_link s1)) = q"
    and "lk_dropped (ss_link s1) = map_option (\<lambda>n. n + of_nat drops) (lk_dropped (ss_link s))"
  shows "send_post w p s (sent s1)"
  using sent_view [of s1] assms by (auto simp: send_post_def data_view_def Let_def)

lemma drop_newest_post:
  assumes "lk_policy (ss_link s) = DropNewest" "is_data p"
  shows "send_post w p s (push_drop_newest p bytes s)"
proof (cases "ch_receivers (lk_data (ss_link s)) = 0")
  case True
  then show ?thesis using assms by (simp add: send_post_def push_drop_newest_def chan_send_def Let_def)
next
  case False
  then show ?thesis using assms
    by (auto simp: push_drop_newest_def chan_send_def Let_def policy_spec_def option.map_ident intro!: sent_post)
qed

lemma drop_oldest_post:
  assumes "lk_policy (ss_link s) = DropOldest" "is_data p"
    and "0 < ch_capacity (lk_data (ss_link s))" "length (ch_queue (lk_data (ss_link s))) \<le> ch_capacity (lk_data (ss_link s))"
  shows "send_post w p s (push_drop_oldest w clock p bytes s)"
proof (cases "ch_receivers (lk_data (ss_link s)) = 0")
  case True
  then show ?thesis using assms by (simp add: send_post_def push_drop_oldest_def chan_send_def Let_def)
next
  case False
  let ?c = "lk_data (ss_link s)"
  show ?thesis
  proof (cases "length (ch_queue ?c) < ch_capacity ?c")
    case True
    then show ?thesis using assms False
      by (auto simp: push_drop_oldest_def chan_send_def Let_def policy_spec_def option.map_ident intro!: sent_post)
  next
    case full: False
    show ?thesis
    proof (cases "evict_first is_data (ch_queue ?c)")
      case None
      then show ?thesis using assms False full
        by (auto simp: push_drop_oldest_def chan_send_def Let_def policy_spec_def evict_front_matching_def intro!: blocking_post)
    next
      case (Some r)
      obtain x q where r: "r = (x, q)" by fastforce
      have "length q < ch_capacity ?c" using evict_first_length [of is_data "ch_queue ?c" x q] Some r assms(4) by simp
      then show ?thesis using assms False full Some r
        by (auto simp: push_drop_oldest_def chan_send_def Let_def policy_spec_def evict_front_matching_def intro!: sent_post)
    qed
  qed
qed

lemma send_by_policy_post:
  assumes "0 < ch_capacity (lk_data (ss_link s))" "length (ch_queue (lk_data (ss_link s))) \<le> ch_capacity (lk_data (ss_link s))"
  shows "send_post w p s (send_by_policy w clock p s)"
proof (cases "is_data p \<and> lk_policy (ss_link s) \<noteq> Block")
  case True
  then show ?thesis using drop_newest_post [of s p w] drop_oldest_post [of s p w clock] assms
    by (cases "lk_policy (ss_link s)") (auto simp: send_by_policy_def Let_def)
next
  case False
  then show ?thesis
    by (auto simp: send_by_policy_def Let_def policy_spec_def intro!: blocking_post)
qed


lemma evict_first_filter:
  "evict_first P xs = Some (x, ys) \<Longrightarrow>
   P x \<and> filter (\<lambda>x. \<not> P x) ys = filter (\<lambda>x. \<not> P x) xs \<and> filter P xs = x # filter P ys"
  by (induction xs arbitrary: ys) (auto split: if_splits)

text \<open>Control packets pass in order, and every frame is queued or counted as dropped: the oldest or the newest, by
  the policy.\<close>

lemma policy_spec_keeps:
  assumes "policy_spec policy capacity p q = Some (q', drops)" "length q \<le> capacity"
  shows "filter (\<lambda>x. \<not> is_data x) q' = filter (\<lambda>x. \<not> is_data x) (q @ [p]) \<and>
    length (filter is_data q') + drops = length (filter is_data (q @ [p])) \<and> length q' \<le> capacity \<and>
    filter is_data q' =
      (if drops = 0 then filter is_data (q @ [p])
       else if policy = DropNewest then filter is_data q else tl (filter is_data q) @ [p])"
  using assms
  by (auto simp: policy_spec_def split: if_splits dest: evict_first_filter evict_first_length)

text \<open>An adapter between pushes, on a sound link, with nothing but a reverse signal that keeps a packet from the
  link.\<close>

definition open_sink :: "('m, 's) pipeline_packet \<Rightarrow> ('m, 's) sender_sink \<Rightarrow> bool" where
  "open_sink p s \<longleftrightarrow>
     ss_phase s = PhaseIdle \<and> ss_endpoint s = None \<and> \<not> ss_strip_terminal s \<and>
     probe_verdict (attach_meta (ss_meta_stash s) p) (ss_probe s) = ProbePass \<and>
     0 < ch_capacity (lk_data (ss_link s)) \<and> length (ch_queue (lk_data (ss_link s))) \<le> ch_capacity (lk_data (ss_link s))"

definition ready_sink :: "('m, 's) pipeline_packet \<Rightarrow> ('m, 's) sender_sink \<Rightarrow> bool" where
  "ready_sink p s \<longleftrightarrow> open_sink p s \<and> \<not> lv_pending (lk_reconfigure (ss_link s))"

lemma commit_view:
  assumes "ss_endpoint s = None"
  shows "\<exists>s1. commit p s = (p, s1) \<and> data_view s1 = data_view s"
  using assms by (cases p) (auto simp: commit_def data_view_def Let_def)

lemma send_post_view:
  assumes "send_post w p s1 res" "data_view s1 = data_view s"
  shows "send_post w p s res"
proof -
  have eqs: "lk_data (ss_link s1) = lk_data (ss_link s)" "lk_dropped (ss_link s1) = lk_dropped (ss_link s)"
    "lk_policy (ss_link s1) = lk_policy (ss_link s)"
    using assms(2) by (simp_all add: data_view_def)
  from assms(1) show ?thesis unfolding send_post_def eqs .
qed

lemma take_reconfigure_endpoint: "take_reconfigure_or_relay pre s = (r, s') \<Longrightarrow> ss_endpoint s' = ss_endpoint s"
  by (auto simp: take_reconfigure_or_relay_def Let_def split: prod.splits option.splits if_splits)

lemma open_push:
  assumes "open_sink p s" "is_eos p \<or> fst (take_reconfigure_or_relay True s) = None"
  shows "send_post w (attach_meta (ss_meta_stash s) p) s (poll_push w clock (Some p) s)"
proof -
  let ?p = "attach_meta (ss_meta_stash s) p"
  have eos: "is_eos ?p = is_eos p" by (cases "(ss_meta_stash s, p)" rule: attach_meta.cases) simp_all
  obtain s0 where s0: "(if is_eos ?p then (None, s) else take_reconfigure_or_relay True s) = (None, s0)"
    using assms(2) eos by (cases "take_reconfigure_or_relay True s") auto
  then have v0: "data_view s0 = data_view s" "ss_endpoint s0 = None"
    using assms(1) by (auto simp: open_sink_def split: if_splits dest: take_reconfigure_view take_reconfigure_endpoint)
  obtain s1 where s1: "commit ?p s0 = (?p, s1)" "data_view s1 = data_view s0" using commit_view [OF v0(2)] by blast
  have "push_open w clock (Some p) s = send_by_policy w clock ?p s1"
    unfolding push_open_def option.case Let_def s0 using assms(1) by (simp add: s1(1) open_sink_def)
  then have "poll_push w clock (Some p) s = send_by_policy w clock ?p s1"
    using assms(1) by (simp add: poll_push_def push_gate_def open_sink_def)
  moreover have "send_post w ?p s1 (send_by_policy w clock ?p s1)"
    by (rule send_by_policy_post) (use assms(1) s1(2) v0(1) in \<open>simp_all add: open_sink_def data_view_def\<close>)
  ultimately show ?thesis using send_post_view s1(2) v0(1) by metis
qed

lemma ready_push:
  assumes "ready_sink p s"
  shows "send_post w (attach_meta (ss_meta_stash s) p) s (poll_push w clock (Some p) s)"
  by (rule open_push) (use assms in \<open>simp_all add: ready_sink_def take_reconfigure_or_relay_def lv_take_def Let_def\<close>)

text \<open>
  C16. A push obeys the policy of its link. With a closed link it reports shutdown; with room it appends the
  packet; on a full link it parks the producer with its waker registered and the packet kept, drops the incoming
  frame, or drops the oldest queued frame for it, and counts the drop. It never panics, and whatever the policy,
  control packets are neither dropped nor reordered and every frame is queued or counted.
\<close>

theorem push_obeys_policy:
  assumes "ready_sink p s"
  shows "send_post w (attach_meta (ss_meta_stash s) p) s (poll_push w clock (Some p) s) \<and>
    (\<forall>q drops. policy_spec (lk_policy (ss_link s)) (ch_capacity (lk_data (ss_link s))) (attach_meta (ss_meta_stash s) p)
        (ch_queue (lk_data (ss_link s))) = Some (q, drops) \<longrightarrow>
      filter (\<lambda>x. \<not> is_data x) q = filter (\<lambda>x. \<not> is_data x) (ch_queue (lk_data (ss_link s)) @ [attach_meta (ss_meta_stash s) p]) \<and>
      length (filter is_data q) + drops = length (filter is_data (ch_queue (lk_data (ss_link s)) @ [attach_meta (ss_meta_stash s) p])) \<and>
      length q \<le> ch_capacity (lk_data (ss_link s)))"
proof -
  have "length (ch_queue (lk_data (ss_link s))) \<le> ch_capacity (lk_data (ss_link s))" using assms by (simp add: ready_sink_def open_sink_def)
  then show ?thesis using ready_push [OF assms] policy_spec_keeps by blast
qed


definition demo_frame :: "u64 \<Rightarrow> (unit, unit) pipeline_packet" where
  "demo_frame n = DataFrame (frame_new (System [1, 2]) timing_default n)"

definition demo_sink :: "link_policy \<Rightarrow> (unit, unit) pipeline_packet list \<Rightarrow> nat \<Rightarrow> (unit, unit) sender_sink" where
  "demo_sink policy q capacity =
     sink_new None ((link_over None \<lparr>ch_queue = q, ch_capacity = capacity, ch_send_wakers = [], ch_recv_waker = None,
       ch_senders = 1, ch_receivers = 1, ch_woken = []\<rparr>)\<lparr>lk_policy := policy, lk_dropped := Some 0\<rparr>)"

theorem push_obeys_policy_witness:
  "send_post 0 (demo_frame 3) (demo_sink DropOldest [Flush, demo_frame 1, demo_frame 2] 3)
     (poll_push 0 (0, 0) (Some (demo_frame 3)) (demo_sink DropOldest [Flush, demo_frame 1, demo_frame 2] 3)) \<and>
   policy_spec DropOldest 3 (demo_frame 3) [Flush, demo_frame 1, demo_frame 2] = Some ([Flush, demo_frame 2, demo_frame 3], 1)"
proof -
  have "ready_sink (demo_frame 3) (demo_sink DropOldest [Flush, demo_frame 1, demo_frame 2] 3)"
    by (simp add: ready_sink_def open_sink_def demo_sink_def sink_new_def link_over_def lv_empty_def probe_verdict_def)
  from push_obeys_policy [OF this, of 0 "(0, 0)"]
  show ?thesis by (simp add: demo_sink_def sink_new_def policy_spec_def demo_frame_def)
qed

section \<open>Transit stamps\<close>

text \<open>On a link that blocks, the stamps line up with the queued frames, one more while a stamped frame waits for
  room.\<close>

definition aligned :: "('m, 's) sender_sink \<Rightarrow> bool" where
  "aligned s \<longleftrightarrow> lk_policy (ss_link s) = Block \<and>
     (case lk_transit (ss_link s) of None \<Rightarrow> True
      | Some ts \<Rightarrow> length ts = length (filter is_data (ch_queue (lk_data (ss_link s)))) +
          (case ss_phase s of PhaseSending _ _ True _ \<Rightarrow> 1 | _ \<Rightarrow> 0))"


definition stamps_match :: "bool \<Rightarrow> ('m, 's) link_sender \<Rightarrow> bool" where
  "stamps_match extra l \<longleftrightarrow> lk_policy l = Block \<and>
     (case lk_transit l of None \<Rightarrow> True
      | Some ts \<Rightarrow> length ts = length (filter is_data (ch_queue (lk_data l))) + (if extra then 1 else 0))"

fun stamped_phase :: "push_phase \<Rightarrow> bool" where
  "stamped_phase PhaseIdle \<longleftrightarrow> False"
| "stamped_phase (PhaseSending _ _ stamped _) \<longleftrightarrow> stamped"

lemma aligned_alt: "aligned s \<longleftrightarrow> stamps_match (stamped_phase (ss_phase s)) (ss_link s)"
  by (cases "ss_phase s") (auto simp: aligned_def stamps_match_def split: option.splits bool.splits)

text \<open>The packet a blocked push is polled with is the one it was started with: stamped exactly if it is a frame on
  an instrumented link.\<close>

definition polled_with :: "('m, 's) pipeline_packet \<Rightarrow> ('m, 's) sender_sink \<Rightarrow> bool" where
  "polled_with p s \<longleftrightarrow>
     (case ss_phase s of PhaseIdle \<Rightarrow> True
      | PhaseSending _ _ stamped _ \<Rightarrow> stamped = (is_data p \<and> lk_transit (ss_link s) \<noteq> None))"

lemma aligned_view:
  assumes "data_view s' = data_view s"
  shows "aligned s' = aligned s"
proof -
  have eqs: "lk_data (ss_link s') = lk_data (ss_link s)" "lk_transit (ss_link s') = lk_transit (ss_link s)"
    "lk_policy (ss_link s') = lk_policy (ss_link s)" "ss_phase s' = ss_phase s"
    using assms by (simp_all add: data_view_def)
  show ?thesis unfolding aligned_def eqs ..
qed

lemma sent_aligned:
  assumes "sent s = Some (r, slot, s')" "aligned s"
  shows "aligned s' \<and> r \<noteq> PollPending"
  using sent_view [of s] assms aligned_view by auto

lemma blocking_aligned:
  assumes "poll_blocking_send w now (Some p) bytes since stamped parked s = Some (r, slot, s')"
    and "stamps_match stamped (ss_link s)" "stamped = (is_data p \<and> lk_transit (ss_link s) \<noteq> None)"
  shows "aligned s' \<and> (r = PollPending \<longrightarrow> slot = Some p \<and> polled_with p s')"
proof -
  let ?c = "lk_data (ss_link s)"
  consider (closed) "ch_receivers ?c = 0" | (room) "0 < ch_receivers ?c" "length (ch_queue ?c) < ch_capacity ?c"
    | (full) "0 < ch_receivers ?c" "\<not> length (ch_queue ?c) < ch_capacity ?c" by auto
  then show ?thesis
  proof cases
    case closed
    then show ?thesis using assms
      by (auto simp: poll_blocking_send_def poll_send_def Let_def aligned_def stamps_match_def polled_with_def split: if_splits option.splits)
  next
    case full
    then show ?thesis using assms
      by (auto simp: poll_blocking_send_def poll_send_def Let_def aligned_def stamps_match_def polled_with_def split: if_splits option.splits)
  next
    case room
    define s1 where "s1 = (on_data (\<lambda>_. enqueue p ?c) s)\<lparr>ss_phase := PhaseIdle\<rparr>"
    define s2 where "s2 = s1\<lparr>ss_link := record_sent bytes (case since of Some t0 \<Rightarrow> if parked \<and> t0 \<le> now then now - t0 else 0 | None \<Rightarrow> 0) (ss_link s1)\<rparr>"
    have "sent s2 = Some (r, slot, s')"
      using assms(1) room by (simp add: poll_blocking_send_def poll_send_def Let_def s1_def s2_def)
    moreover have "aligned s2"
      using assms(2,3) by (auto simp: s2_def s1_def aligned_def stamps_match_def split: option.splits if_splits)
    ultimately show ?thesis using sent_aligned by blast
  qed
qed

lemma send_by_policy_aligned:
  assumes "send_by_policy w clock p s = Some (r, slot, s')" "stamps_match False (ss_link s)"
  shows "aligned s' \<and> (r = PollPending \<longrightarrow> slot = Some p \<and> polled_with p s')"
proof -
  define stamped where "stamped = (is_data p \<and> lk_transit (ss_link s) \<noteq> None)"
  define s1 where "s1 = (if stamped
    then s\<lparr>ss_link := (ss_link s)\<lparr>lk_transit := map_option (\<lambda>ts. ts @ [fst clock]) (lk_transit (ss_link s))\<rparr>\<rparr> else s)"
  define since where "since = (if wants_blocked_stamp s1 then Some (fst clock) else None)"
  define s2 where "s2 = s1\<lparr>ss_phase := PhaseSending (packet_bytes p) since stamped False\<rparr>"
  have "lk_policy (ss_link s) = Block" using assms(2) by (simp add: stamps_match_def)
  then have "poll_blocking_send w (snd clock) (Some p) (packet_bytes p) since stamped False s2 = Some (r, slot, s')"
    using assms(1) by (simp add: send_by_policy_def start_blocking_def Let_def s2_def since_def s1_def stamped_def)
  moreover have "stamps_match stamped (ss_link s2)"
    using assms(2) by (auto simp: s2_def s1_def stamps_match_def stamped_def split: option.splits)
  moreover have "stamped = (is_data p \<and> lk_transit (ss_link s2) \<noteq> None)"
    by (auto simp: s2_def s1_def stamped_def)
  ultimately show ?thesis by (rule blocking_aligned)
qed


lemma push_aligned:
  assumes "poll_push w clock (Some p) s = Some (r, slot, s')" "aligned s" "polled_with p s" "ss_endpoint s = None"
  shows "aligned s' \<and> (r = PollPending \<longrightarrow> (\<exists>p'. slot = Some p' \<and> polled_with p' s'))"
proof (cases "ss_phase s")
  case (PhaseSending bytes since stamped parked)
  then show ?thesis using blocking_aligned [of w "snd clock" p bytes since stamped parked s r slot s'] assms
    by (auto simp: poll_push_def aligned_alt polled_with_def)
next
  case PhaseIdle
  let ?p = "attach_meta (ss_meta_stash s) p"
  obtain taken s1 where t: "(if is_eos ?p then (None, s) else take_reconfigure_or_relay True s) = (taken, s1)" by fastforce
  have view1: "data_view s1 = data_view s" using t take_reconfigure_view by (auto split: if_splits)
  have ep1: "ss_endpoint s1 = None" using t assms(4) by (auto split: if_splits dest: take_reconfigure_endpoint)
  obtain s2 where s2: "commit ?p s1 = (?p, s2)" "data_view s2 = data_view s1" using commit_view [OF ep1] by blast
  have opened: "push_open w clock (Some p) s = Some (r, slot, s')"
    using assms(1,4) PhaseIdle by (simp add: poll_push_def push_gate_def)
  show ?thesis
  proof (cases "taken = None \<and> \<not> (ss_strip_terminal s \<and> is_eos p) \<and> probe_verdict ?p (ss_probe s) \<noteq> ProbeDrop")
    case True
    then have "send_by_policy w clock ?p s2 = Some (r, slot, s')"
      using opened unfolding push_open_def option.case Let_def t by (auto simp: s2(1) split: if_splits)
    moreover have "aligned s2" using aligned_view [of s2 s] view1 s2(2) assms(2) by simp
    then have "stamps_match False (ss_link s2)"
      using view1 s2(2) PhaseIdle by (simp add: aligned_alt data_view_def)
    ultimately show ?thesis using send_by_policy_aligned by blast
  next
    case False
    then have "(s' = s \<or> s' = s1) \<and> r \<noteq> PollPending"
      using opened unfolding push_open_def option.case Let_def t by (auto split: if_splits option.splits)
    then show ?thesis using aligned_view [OF view1] assms(2) by auto
  qed
qed

text \<open>Receiving: a consumer pops the stamp of every frame it gets.\<close>

definition recv_and_pop :: "u64 \<Rightarrow> ('m, 's) sender_sink \<Rightarrow> ('m, 's) sender_sink" where
  "recv_and_pop now s =
     (case link_recv (ss_link s) of
        (Some p, l) \<Rightarrow> s\<lparr>ss_link := (if is_data p then snd (pop_transit_at now l) else l)\<rparr>
      | (None, l) \<Rightarrow> s\<lparr>ss_link := l\<rparr>)"

lemma recv_aligned: "aligned s \<Longrightarrow> aligned (recv_and_pop now s)"
  by (auto simp: recv_and_pop_def link_recv_def chan_recv_def aligned_alt stamps_match_def pop_transit_at_def wake_senders_def
      split: list.splits option.splits if_splits)

text \<open>
  On a blocking link with transit stamps, the stamps stay lined up with the queued frames through pushes,
  polls of a push that waits, and receives that pop the stamp of every frame, so that every frame is measured
  against its own entry.
\<close>

theorem transit_stays_aligned:
  assumes "aligned s" "polled_with p s" "ss_endpoint s = None" "poll_push w clock (Some p) s = Some (r, slot, s')"
  shows "aligned s' \<and> (r = PollPending \<longrightarrow> (\<exists>p'. slot = Some p' \<and> polled_with p' s')) \<and> aligned (recv_and_pop now s')"
  using push_aligned [OF assms(4,1,2,3)] recv_aligned by blast

definition timed_sink :: "(unit, unit) pipeline_packet list \<Rightarrow> u64 list \<Rightarrow> (unit, unit) sender_sink" where
  "timed_sink q ts = sink_new None (link_over (Some ts) \<lparr>ch_queue = q, ch_capacity = 1, ch_send_wakers = [], ch_recv_waker = None,
     ch_senders = 1, ch_receivers = 1, ch_woken = []\<rparr>)"

theorem transit_stays_aligned_witness:
  "\<exists>s slot. poll_push 0 (5, 6) (Some (demo_frame 2)) (timed_sink [demo_frame 1] [3]) = Some (PollPending, slot, s) \<and>
     aligned s \<and> aligned (recv_and_pop 9 s) \<and> lk_transit (ss_link s) = Some [3, 5]"
proof -
  obtain s where s: "poll_push 0 (5, 6) (Some (demo_frame 2)) (timed_sink [demo_frame 1] [3]) =
      Some (PollPending, Some (demo_frame 2), s)" "lk_transit (ss_link s) = Some [3, 5]"
    by (simp add: timed_sink_def sink_new_def link_over_def lv_empty_def lv_take_def probe_verdict_def poll_push_def push_gate_def
        push_open_def take_reconfigure_or_relay_def commit_def send_by_policy_def start_blocking_def poll_blocking_send_def
        poll_send_def demo_frame_def wants_blocked_stamp_def on_data_def Let_def)
  have "aligned (timed_sink [demo_frame 1] [3])" "polled_with (demo_frame 2) (timed_sink [demo_frame 1] [3])"
    "ss_endpoint (timed_sink [demo_frame 1] [3]) = None"
    by (simp_all add: aligned_def polled_with_def timed_sink_def sink_new_def link_over_def demo_frame_def)
  from transit_stays_aligned [OF this s(1), of 9] show ?thesis using s by blast
qed



section \<open>Reverse signals\<close>

text \<open>
  A renegotiation request holds back the packet that would cross the link under the old caps: the push
  reports it, takes it out of the slot, and leaves the queue alone. It never holds back the end of the stream, and
  a keyframe request never holds back anything: then the packet is sent as the policy says.
\<close>

theorem reconfigure_intercepts:
  assumes "open_sink p s" "lk_reconfigure (ss_link s) = \<lparr>lv_pending = True, lv_value = Some r\<rparr>"
  shows "if is_eos p \<or> r = ForceKeyframe
    then send_post w (attach_meta (ss_meta_stash s) p) s (poll_push w clock (Some p) s)
    else r = Renegotiate \<or> (\<exists>c. r = Propose c) \<longrightarrow>
      (\<exists>s'. poll_push w clock (Some p) s = Some (PollReady (Inr (Reconfigured r)), None, s') \<and>
        data_view s' = data_view s \<and> \<not> lv_pending (lk_reconfigure (ss_link s')))"
proof (cases "is_eos p \<or> r = ForceKeyframe")
  case True
  have "is_eos p \<or> fst (take_reconfigure_or_relay True s) = None"
    using True assms(2) by (auto simp: take_reconfigure_or_relay_def lv_take_def Let_def)
  then show ?thesis using True open_push [OF assms(1)] by simp
next
  case False
  let ?p = "attach_meta (ss_meta_stash s) p"
  have eos: "is_eos ?p = is_eos p" by (cases "(ss_meta_stash s, p)" rule: attach_meta.cases) simp_all
  have "\<exists>s'. poll_push w clock (Some p) s = Some (PollReady (Inr (Reconfigured r)), None, s') \<and>
      data_view s' = data_view s \<and> \<not> lv_pending (lk_reconfigure (ss_link s'))"
    if r: "r = Renegotiate \<or> (\<exists>c. r = Propose c)"
  proof -
    define s' where "s' = s\<lparr>ss_link := (ss_link s)\<lparr>lk_reconfigure := \<lparr>lv_pending = False, lv_value = None\<rparr>\<rparr>\<rparr>"
    have "take_reconfigure_or_relay True s = (Some r, s')"
      using r assms(2) by (auto simp: take_reconfigure_or_relay_def lv_take_def Let_def s'_def)
    then have "poll_push w clock (Some p) s = Some (PollReady (Inr (Reconfigured r)), None, s')"
      using assms(1) False eos by (simp add: poll_push_def push_gate_def push_open_def open_sink_def Let_def)
    then show ?thesis by (simp add: s'_def data_view_def)
  qed
  then show ?thesis using False by simp
qed

definition asked_sink :: "reconfigure \<Rightarrow> (unit, unit) sender_sink" where
  "asked_sink r = (let s = demo_sink Block [] 2 in s\<lparr>ss_link := request_reconfigure r (ss_link s)\<rparr>)"

theorem reconfigure_intercepts_witness:
  "\<exists>s. poll_push 0 (0, 0) (Some (demo_frame 1)) (asked_sink Renegotiate) =
      Some (PollReady (Inr (Reconfigured Renegotiate)), None, s) \<and> data_view s = data_view (asked_sink Renegotiate)"
proof -
  have "open_sink (demo_frame 1) (asked_sink Renegotiate)"
    by (simp add: open_sink_def asked_sink_def demo_sink_def sink_new_def link_over_def request_reconfigure_def probe_verdict_def Let_def)
  moreover have "lk_reconfigure (ss_link (asked_sink Renegotiate)) = \<lparr>lv_pending = True, lv_value = Some Renegotiate\<rparr>"
    by (simp add: asked_sink_def demo_sink_def sink_new_def link_over_def request_reconfigure_def lv_store_def lv_empty_def Let_def)
  ultimately show ?thesis using reconfigure_intercepts [of "demo_frame 1" "asked_sink Renegotiate" Renegotiate 0 "(0, 0)"]
    by (auto simp: demo_frame_def)
qed

text \<open>Two windows between locked steps. A signal that is taken and put back overwrites a newer one stored in
  between, although the slot promises that the latest wins.\<close>

lemma put_back_overwrites:
  "case lv_take (lv_store ForceKeyframe lv_empty) of
     (Some old, slot) \<Rightarrow> fst (lv_take (lv_store old (lv_store Renegotiate slot))) = Some ForceKeyframe
   | _ \<Rightarrow> False"
  by (simp add: lv_take_def lv_store_def lv_empty_def)

text \<open>And with two clones of a leaky sender, the slot an eviction freed may be taken before the evicting one sends,
  which is the case the source calls unreachable.\<close>

lemma evicted_slot_taken:
  "case bounded 1 of None \<Rightarrow> False
   | Some c \<Rightarrow>
       (let c = clone_sender c; c = snd (chan_send (demo_frame 1) c) in
        case evict_front_matching is_data c of
          (Some _, c) \<Rightarrow> fst (chan_send (demo_frame 2) (snd (chan_send (demo_frame 3) c))) = Inl (demo_frame 2, SendFull)
        | _ \<Rightarrow> False)"
  by (simp add: bounded_def chan_send_def clone_sender_def evict_front_matching_def demo_frame_def Let_def)

end
