(* ===== verification/WireBase.thy ===== *)
theory WireBase
  imports Bytes
begin

text \<open>
  The primitives of the wire format (\<^verbatim>\<open>wire.rs\<close>). A \<^verbatim>\<open>Writer\<close> only appends to its buffer, so a \<^verbatim>\<open>put_\<close> function is the
  bytes it appends. A \<^verbatim>\<open>Reader\<close> is a buffer with a position that only moves forward, so it is the bytes not yet read,
  and a \<^verbatim>\<open>get_\<close> function takes them to an error or to what it read with the bytes left.

  The contract of the format is the locale \<open>wire_field\<close>: what was put is got back, with the bytes after it untouched;
  a reader given fewer bytes than it needs reports truncation, and given more it behaves the same; and what a
  reader accepts could have been written.
\<close>

datatype wire_error = Truncated | BadTag | WireUnsupportedDomain

type_synonym 'a reader = "u8 list \<Rightarrow> wire_error + 'a \<times> u8 list"

definition ret :: "'a \<Rightarrow> 'a reader" where
  "ret x s = Inr (x, s)"

definition fail :: "wire_error \<Rightarrow> 'a reader" where
  "fail e s = Inl e"

definition rbind :: "'a reader \<Rightarrow> ('a \<Rightarrow> 'b reader) \<Rightarrow> 'b reader" where
  "rbind r f s = (case r s of Inl e \<Rightarrow> Inl e | Inr (x, s') \<Rightarrow> f x s')"

text \<open>A result that reads nothing, under the question mark operator.\<close>

definition lift_res :: "wire_error + 'a \<Rightarrow> 'a reader" where
  "lift_res v s = (case v of Inl e \<Rightarrow> Inl e | Inr x \<Rightarrow> Inr (x, s))"

definition get_take :: "nat \<Rightarrow> u8 list reader" where
  "get_take n s = (if n \<le> length s then Inr (take n s, drop n s) else Inl Truncated)"

definition get_u8 :: "u8 reader" where
  "get_u8 = rbind (get_take 1) (\<lambda>b. ret (b ! 0))"

definition get_u16 :: "u16 reader" where
  "get_u16 = rbind (get_take 2) (\<lambda>b. ret (le16 b))"

definition get_u32 :: "u32 reader" where
  "get_u32 = rbind (get_take 4) (\<lambda>b. ret (le32 b))"

definition get_u64 :: "u64 reader" where
  "get_u64 = rbind (get_take 8) (\<lambda>b. ret (le64 b))"

definition get_bool :: "bool reader" where
  "get_bool = rbind get_u8 (\<lambda>b. ret (b \<noteq> 0))"

definition put_bool :: "bool \<Rightarrow> u8 list" where
  "put_bool v = [of_bool v]"

definition put_bytes :: "u8 list \<Rightarrow> u8 list" where
  "put_bytes b = to_le32 (of_nat (length b)) @ b"

definition get_bytes :: "u8 list reader" where
  "get_bytes = rbind get_u32 (\<lambda>n. get_take (unat n))"

text \<open>\<^verbatim>\<open>String::from_utf8\<close>: the well-formed byte sequences of the Unicode standard.\<close>

definition utf8_tail :: "u8 \<Rightarrow> bool" where
  "utf8_tail b \<longleftrightarrow> 0x80 \<le> b \<and> b \<le> 0xBF"

fun utf8_valid :: "u8 list \<Rightarrow> bool" where
  "utf8_valid [] = True"
| "utf8_valid (a # s) =
     (if a < 0x80 then utf8_valid s
      else if 0xC2 \<le> a \<and> a \<le> 0xDF then
        (case s of b # s' \<Rightarrow> utf8_tail b \<and> utf8_valid s' | _ \<Rightarrow> False)
      else if 0xE0 \<le> a \<and> a \<le> 0xEF then
        (case s of b # c # s' \<Rightarrow>
            utf8_tail b \<and> utf8_tail c \<and> (a = 0xE0 \<longrightarrow> 0xA0 \<le> b) \<and> (a = 0xED \<longrightarrow> b \<le> 0x9F) \<and> utf8_valid s'
         | _ \<Rightarrow> False)
      else if 0xF0 \<le> a \<and> a \<le> 0xF4 then
        (case s of b # c # d # s' \<Rightarrow>
            utf8_tail b \<and> utf8_tail c \<and> utf8_tail d \<and> (a = 0xF0 \<longrightarrow> 0x90 \<le> b) \<and> (a = 0xF4 \<longrightarrow> b \<le> 0x8F) \<and> utf8_valid s'
         | _ \<Rightarrow> False)
      else False)"

definition get_str :: "u8 list reader" where
  "get_str = rbind get_bytes (\<lambda>b. if utf8_valid b then ret b else fail BadTag)"

text \<open>A loop \<^verbatim>\<open>for _ in 0..n\<close> that reads one item each time, and a list behind its 32-bit count.\<close>

fun get_n :: "'a reader \<Rightarrow> nat \<Rightarrow> 'a list reader" where
  "get_n r 0 = ret []"
| "get_n r (Suc n) = rbind r (\<lambda>x. rbind (get_n r n) (\<lambda>xs. ret (x # xs)))"

definition put_list :: "('a \<Rightarrow> u8 list) \<Rightarrow> 'a list \<Rightarrow> u8 list" where
  "put_list put xs = to_le32 (of_nat (length xs)) @ concat (map put xs)"

definition get_list :: "'a reader \<Rightarrow> 'a list reader" where
  "get_list r = rbind get_u32 (\<lambda>n. get_n r (unat n))"

section \<open>Readers\<close>

named_theorems stable_intros \<open>readers that read forward\<close>
named_theorems wire_reads \<open>what a reader gets from what a writer put\<close>

lemma rbind_simps [simp]:
  "rbind (ret x) f = f x" "rbind (fail e) f = fail e" "rbind (rbind r f) g = rbind r (\<lambda>x. rbind (f x) g)"
  by (auto simp: rbind_def ret_def fail_def fun_eq_iff split: sum.splits)

lemma lift_res_simps [simp]: "lift_res (Inr x) = ret x" "lift_res (Inl e) = fail e"
  by (auto simp: lift_res_def ret_def fail_def)

lemma lift_Inr [simp]: "lift_res v s = Inr (x, t) \<longleftrightarrow> v = Inr x \<and> s = t"
  by (auto simp: lift_res_def split: sum.splits)

lemma rbind_Inr: "rbind r f s = Inr y \<longleftrightarrow> (\<exists>x t. r s = Inr (x, t) \<and> f x t = Inr y)"
  by (auto simp: rbind_def split: sum.splits)

lemma rbind_step [wire_reads]: "r s = Inr (x, t) \<Longrightarrow> rbind r f s = f x t"
  by (simp add: rbind_def)

lemma ret_Inr [simp]: "ret x s = Inr (y, t) \<longleftrightarrow> x = y \<and> s = t"
  by (auto simp: ret_def)

lemma fail_Inr [simp]: "fail e s \<noteq> Inr y"
  by (simp add: fail_def)

lemma if_reader [wire_reads]: "(if c then r else r') s = (if c then r s else r' s)"
  by simp

text \<open>What a reader does on some bytes it also does when more follow, unless it wanted more.\<close>

definition stable :: "'a reader \<Rightarrow> bool" where
  "stable r \<longleftrightarrow> (\<forall>s t. case r s of
      Inr (x, s') \<Rightarrow> r (s @ t) = Inr (x, s' @ t)
    | Inl e \<Rightarrow> e = Truncated \<or> r (s @ t) = Inl e)"

lemma stableD:
  assumes "stable r"
  shows "r s = Inr (x, s') \<Longrightarrow> r (s @ t) = Inr (x, s' @ t)" "r s = Inl e \<Longrightarrow> e = Truncated \<or> r (s @ t) = Inl e"
  using assms unfolding stable_def by (force split: sum.splits)+

lemma stable_ret [stable_intros]: "stable (ret x)"
  by (simp add: stable_def ret_def)

lemma stable_fail [stable_intros]: "stable (fail e)"
  by (simp add: stable_def fail_def)

lemma stable_lift [stable_intros]: "stable (lift_res v)"
  by (cases v) (simp_all add: stable_ret stable_fail)

lemma stable_take [stable_intros]: "stable (get_take n)"
  by (simp add: stable_def get_take_def)

lemma stable_bind [stable_intros]:
  assumes "stable r" "\<And>x. stable (f x)"
  shows "stable (rbind r f)"
proof -
  have "case rbind r f s of
      Inr (x, s') \<Rightarrow> rbind r f (s @ t) = Inr (x, s' @ t)
    | Inl e \<Rightarrow> e = Truncated \<or> rbind r f (s @ t) = Inl e" for s t
  proof (cases "r s")
    case (Inl e)
    then show ?thesis using stableD(2) [OF assms(1) Inl, of t] by (auto simp: rbind_def)
  next
    case (Inr p)
    then obtain x s' where p: "r s = Inr (x, s')" by (cases p) auto
    have eqs: "rbind r f s = f x s'" "rbind r f (s @ t) = f x (s' @ t)"
      using p stableD(1) [OF assms(1) p, of t] by (simp_all add: rbind_def)
    show ?thesis using assms(2) [of x] unfolding stable_def eqs by blast
  qed
  then show ?thesis unfolding stable_def by blast
qed

lemma stable_if [stable_intros]: "stable r \<Longrightarrow> stable r' \<Longrightarrow> stable (if c then r else r')"
  by simp

lemma stable_option [stable_intros]: "stable r \<Longrightarrow> (\<And>x. stable (f x)) \<Longrightarrow> stable (case v of None \<Rightarrow> r | Some x \<Rightarrow> f x)"
  by (cases v) simp_all

lemma stable_get_n [stable_intros]: "stable r \<Longrightarrow> stable (get_n r n)"
  by (induction n) (auto intro: stable_intros)

lemma stable_prims [stable_intros]:
  "stable get_u8" "stable get_u16" "stable get_u32" "stable get_u64" "stable get_bool" "stable get_bytes" "stable get_str"
  by (simp_all add: get_u8_def get_u16_def get_u32_def get_u64_def get_bool_def get_bytes_def get_str_def stable_intros)

lemma stable_get_list [stable_intros]: "stable r \<Longrightarrow> stable (get_list r)"
  by (simp add: get_list_def stable_intros)

section \<open>The primitives round-trip\<close>

lemma take_read [wire_reads]: "n = length b \<Longrightarrow> get_take n (b @ s) = Inr (b, s)"
  by (simp add: get_take_def)

lemma read_u8 [wire_reads]: "get_u8 (x # s) = Inr (x, s)"
  by (simp add: get_u8_def get_take_def rbind_def ret_def)

lemma read_u16 [wire_reads]: "get_u16 (to_le16 x @ s) = Inr (x, s)"
  by (simp add: get_u16_def get_take_def rbind_def ret_def)

lemma read_u32 [wire_reads]: "get_u32 (to_le32 x @ s) = Inr (x, s)"
  by (simp add: get_u32_def get_take_def rbind_def ret_def)

lemma read_u64 [wire_reads]: "get_u64 (to_le64 x @ s) = Inr (x, s)"
  by (simp add: get_u64_def get_take_def rbind_def ret_def)

lemma read_bool [wire_reads]: "get_bool (put_bool v @ s) = Inr (v, s)"
  by (simp add: get_bool_def put_bool_def get_u8_def get_take_def rbind_def ret_def)

lemma rbind_bool [wire_reads]: "rbind get_bool f (put_bool v @ s) = f v s"
  by (simp add: rbind_def read_bool)

lemma read_bytes [wire_reads]: "length b < 2 ^ 32 \<Longrightarrow> get_bytes (put_bytes b @ s) = Inr (b, s)"
  by (simp add: get_bytes_def put_bytes_def wire_reads unat_of_nat take_bit_nat_eq_self)

lemma read_str [wire_reads]: "length b < 2 ^ 32 \<Longrightarrow> utf8_valid b \<Longrightarrow> get_str (put_bytes b @ s) = Inr (b, s)"
  by (simp add: get_str_def wire_reads ret_def)

text \<open>What a byte reader returns always fits its 32-bit length.\<close>

lemma got_take: "get_take n s = Inr (b, t) \<Longrightarrow> length b = n"
  by (auto simp: get_take_def split: if_splits)

lemma got_bytes: "get_bytes s = Inr (b, t) \<Longrightarrow> length b < 2 ^ 32"
proof -
  assume "get_bytes s = Inr (b, t)"
  then obtain n :: u32 and s' where "get_take (unat n) s' = Inr (b, t)" by (auto simp: get_bytes_def rbind_Inr)
  then show ?thesis using got_take unat_lt2p [of n] by fastforce
qed

lemma got_str: "get_str s = Inr (b, t) \<Longrightarrow> length b < 2 ^ 32 \<and> utf8_valid b"
  by (auto simp: get_str_def rbind_Inr split: if_splits dest: got_bytes)

lemma got_n: "get_n r n s = Inr (xs, t) \<Longrightarrow> length xs = n"
  by (induction n arbitrary: s xs t) (auto simp: rbind_Inr)

section \<open>The contract of a field\<close>

definition list_ok :: "('a \<Rightarrow> bool) \<Rightarrow> 'a list \<Rightarrow> bool" where
  "list_ok ok xs \<longleftrightarrow> length xs < 2 ^ 32 \<and> list_all ok xs"

locale wire_field =
  fixes put :: "'a \<Rightarrow> u8 list" and get_field :: "'a reader" and ok :: "'a \<Rightarrow> bool" and img :: "'a \<Rightarrow> 'a"
  assumes get_put: "ok x \<Longrightarrow> get_field (put x @ s) = Inr (img x, s)"
    and forward: "stable get_field"
    and got_ok: "get_field s = Inr (x, t) \<Longrightarrow> ok x"
begin

lemma get_n_put:
  "list_all ok xs \<Longrightarrow> get_n get_field (length xs) (concat (map put xs) @ s) = Inr (map img xs, s)"
  by (induction xs arbitrary: s) (auto simp: get_put ret_def rbind_def)

lemma get_list_put: "list_ok ok xs \<Longrightarrow> get_list get_field (put_list put xs @ s) = Inr (map img xs, s)"
  by (simp add: get_list_def put_list_def list_ok_def wire_reads unat_of_nat take_bit_nat_eq_self get_n_put)

text \<open>A field cut short anywhere is reported as truncated.\<close>

lemma cut_short:
  assumes "ok x" "n < length (put x)"
  shows "get_field (take n (put x)) = Inl Truncated"
proof (cases "get_field (take n (put x))")
  case (Inl e)
  have "get_field (put x @ []) = Inr (img x, [])" by (rule get_put [OF assms(1)])
  then show ?thesis using stableD(2) [OF forward Inl, of "drop n (put x)"] Inl by auto
next
  case (Inr p)
  obtain y t where p: "p = (y, t)" by (cases p)
  have "get_field (put x @ []) = Inr (img x, [])" by (rule get_put [OF assms(1)])
  then show ?thesis using stableD(1) [OF forward Inr [unfolded p], of "drop n (put x)"] assms(2) by auto
qed

end

text \<open>A field whose reader gives back only what a writer's bytes give back.\<close>

locale wire_codec = wire_field +
  assumes got_img: "get_field s = Inr (x, t) \<Longrightarrow> img x = x"
begin

lemma get_n_got: "get_n get_field n s = Inr (xs, t) \<Longrightarrow> list_all ok xs \<and> map img xs = xs"
  by (induction n arbitrary: s xs t) (auto simp: rbind_Inr dest: got_ok got_img)

lemma get_list_got:
  assumes "get_list get_field s = Inr (xs, t)"
  shows "list_ok ok xs" "map img xs = xs"
proof -
  obtain n s' where n: "get_n get_field (unat (n :: u32)) s' = Inr (xs, t)"
    using assms by (auto simp: get_list_def rbind_Inr)
  show "list_ok ok xs" "map img xs = xs"
    using got_n [OF n] get_n_got [OF n] unat_lt2p [of n] by (simp_all add: list_ok_def)
qed

end

lemma wire_codecI:
  assumes "\<And>x s. ok x \<Longrightarrow> r (put x @ s) = Inr (img x, s)" "stable r" "\<And>s x t. r s = Inr (x, t) \<Longrightarrow> ok x \<and> img x = x"
  shows "wire_codec put r ok img"
  using assms by unfold_locales auto

lemma list_codec:
  assumes "wire_codec put r ok img"
  shows "wire_codec (put_list put) (get_list r) (list_ok ok) (map img)"
proof (rule wire_codecI)
  have f: "wire_field put r ok img" using assms by (rule wire_codec.axioms)
  show "stable (get_list r)" by (rule stable_get_list) (rule wire_field.forward [OF f])
  show "list_ok ok xs \<Longrightarrow> get_list r (put_list put xs @ s) = Inr (map img xs, s)" for xs s
    by (rule wire_field.get_list_put [OF f])
  show "get_list r s = Inr (xs, t) \<Longrightarrow> list_ok ok xs \<and> map img xs = xs" for xs s t
    using wire_codec.get_list_got [OF assms] by blast
qed

interpretation bytes_field: wire_codec put_bytes get_bytes "\<lambda>b. length b < 2 ^ 32" "\<lambda>b. b"
  by (rule wire_codecI) (auto simp: wire_reads stable_intros dest: got_bytes)

interpretation str_field: wire_codec put_bytes get_str "\<lambda>b. length b < 2 ^ 32 \<and> utf8_valid b" "\<lambda>b. b"
  by (rule wire_codecI) (auto simp: wire_reads stable_intros dest: got_str)

end
