(* ===== verification/WireCaps.thy ===== *)
theory WireCaps
  imports WireBase Caps_Laws
begin

text \<open>
  Media formats on the wire (\<^verbatim>\<open>wire.rs\<close>): the byte of every enumeration, and the encoding of \<^verbatim>\<open>Caps\<close>. The alignment of a
  compressed stream is not carried: what arrives is the format with the alignment unspecified.
\<close>

section \<open>Enumerations\<close>

definition VIDEO_CODEC_TAGGED :: u8 where "VIDEO_CODEC_TAGGED = 25"
definition AUDIO_FORMAT_TAGGED :: u8 where "AUDIO_FORMAT_TAGGED = 16"

fun video_codec_to_u8 :: "video_codec \<Rightarrow> u8" where
  "video_codec_to_u8 H264 = 0"
| "video_codec_to_u8 H265 = 1"
| "video_codec_to_u8 Av1 = 2"
| "video_codec_to_u8 Vp8 = 3"
| "video_codec_to_u8 Vp9 = 4"
| "video_codec_to_u8 Mjpeg = 5"
| "video_codec_to_u8 Mpeg4Part2 = 6"
| "video_codec_to_u8 JpegXs = 7"
| "video_codec_to_u8 SorensonH263 = 8"
| "video_codec_to_u8 (Vp6 False) = 9"
| "video_codec_to_u8 (Vp6 True) = 10"
| "video_codec_to_u8 Mpeg2 = 11"
| "video_codec_to_u8 Png = 12"
| "video_codec_to_u8 WebP = 13"
| "video_codec_to_u8 Vc1 = 14"
| "video_codec_to_u8 Pnm = 15"
| "video_codec_to_u8 Vp6Plain = 16"
| "video_codec_to_u8 Theora = 17"
| "video_codec_to_u8 (ProRes ProResProxy) = 18"
| "video_codec_to_u8 (ProRes ProResLt) = 19"
| "video_codec_to_u8 (ProRes ProResStandard) = 20"
| "video_codec_to_u8 (ProRes ProResHq) = 21"
| "video_codec_to_u8 (ProRes ProRes4444) = 22"
| "video_codec_to_u8 (ProRes ProRes4444Xq) = 23"
| "video_codec_to_u8 DnxHd = 24"
| "video_codec_to_u8 (VideoTagged _) = VIDEO_CODEC_TAGGED"

definition video_codec_from_u8 :: "u8 \<Rightarrow> wire_error + video_codec" where
  "video_codec_from_u8 v =
     (if v = 0 then Inr H264
      else if v = 1 then Inr H265
      else if v = 2 then Inr Av1
      else if v = 3 then Inr Vp8
      else if v = 4 then Inr Vp9
      else if v = 5 then Inr Mjpeg
      else if v = 6 then Inr Mpeg4Part2
      else if v = 7 then Inr JpegXs
      else if v = 8 then Inr SorensonH263
      else if v = 9 then Inr (Vp6 False)
      else if v = 10 then Inr (Vp6 True)
      else if v = 11 then Inr Mpeg2
      else if v = 12 then Inr Png
      else if v = 13 then Inr WebP
      else if v = 14 then Inr Vc1
      else if v = 15 then Inr Pnm
      else if v = 16 then Inr Vp6Plain
      else if v = 17 then Inr Theora
      else if v = 18 then Inr (ProRes ProResProxy)
      else if v = 19 then Inr (ProRes ProResLt)
      else if v = 20 then Inr (ProRes ProResStandard)
      else if v = 21 then Inr (ProRes ProResHq)
      else if v = 22 then Inr (ProRes ProRes4444)
      else if v = 23 then Inr (ProRes ProRes4444Xq)
      else if v = 24 then Inr DnxHd
      else Inl BadTag)"

fun raw_format_to_u8 :: "raw_video_format \<Rightarrow> u8" where
  "raw_format_to_u8 Nv12 = 0"
| "raw_format_to_u8 I420 = 1"
| "raw_format_to_u8 Rgba8 = 2"
| "raw_format_to_u8 Bgra8 = 3"
| "raw_format_to_u8 Yuyv = 4"
| "raw_format_to_u8 I420p10 = 5"
| "raw_format_to_u8 I420p12 = 6"
| "raw_format_to_u8 I422 = 7"
| "raw_format_to_u8 I422p10 = 8"
| "raw_format_to_u8 I422p12 = 9"
| "raw_format_to_u8 I444 = 10"
| "raw_format_to_u8 I444p10 = 11"
| "raw_format_to_u8 I444p12 = 12"
| "raw_format_to_u8 P010 = 13"
| "raw_format_to_u8 Rgb8 = 14"
| "raw_format_to_u8 A420 = 15"
| "raw_format_to_u8 Uyvy = 16"
| "raw_format_to_u8 A444p12 = 17"
| "raw_format_to_u8 V210 = 18"
| "raw_format_to_u8 R210 = 19"
| "raw_format_to_u8 Gbr10Le = 20"
| "raw_format_to_u8 Gray8 = 21"
| "raw_format_to_u8 Bgr8 = 22"
| "raw_format_to_u8 Bgrx8 = 23"
| "raw_format_to_u8 Argb8 = 24"

definition raw_format_from_u8 :: "u8 \<Rightarrow> wire_error + raw_video_format" where
  "raw_format_from_u8 v =
     (if v = 0 then Inr Nv12
      else if v = 1 then Inr I420
      else if v = 2 then Inr Rgba8
      else if v = 3 then Inr Bgra8
      else if v = 4 then Inr Yuyv
      else if v = 5 then Inr I420p10
      else if v = 6 then Inr I420p12
      else if v = 7 then Inr I422
      else if v = 8 then Inr I422p10
      else if v = 9 then Inr I422p12
      else if v = 10 then Inr I444
      else if v = 11 then Inr I444p10
      else if v = 12 then Inr I444p12
      else if v = 13 then Inr P010
      else if v = 14 then Inr Rgb8
      else if v = 15 then Inr A420
      else if v = 16 then Inr Uyvy
      else if v = 17 then Inr A444p12
      else if v = 18 then Inr V210
      else if v = 19 then Inr R210
      else if v = 20 then Inr Gbr10Le
      else if v = 21 then Inr Gray8
      else if v = 22 then Inr Bgr8
      else if v = 23 then Inr Bgrx8
      else if v = 24 then Inr Argb8
      else Inl BadTag)"

fun audio_format_to_u8 :: "audio_format \<Rightarrow> u8" where
  "audio_format_to_u8 Aac = 0"
| "audio_format_to_u8 Opus = 1"
| "audio_format_to_u8 PcmS16Le = 2"
| "audio_format_to_u8 PcmF32Le = 3"
| "audio_format_to_u8 PcmS24Le = 4"
| "audio_format_to_u8 Mulaw = 5"
| "audio_format_to_u8 Alaw = 6"
| "audio_format_to_u8 ImaAdpcm = 7"
| "audio_format_to_u8 Mp2 = 8"
| "audio_format_to_u8 Ac3 = 9"
| "audio_format_to_u8 Flac = 10"
| "audio_format_to_u8 Vorbis = 11"
| "audio_format_to_u8 Mp3 = 12"
| "audio_format_to_u8 Speex = 13"
| "audio_format_to_u8 PcmS32Le = 14"
| "audio_format_to_u8 PcmU8 = 15"
| "audio_format_to_u8 (AudioTagged _) = AUDIO_FORMAT_TAGGED"

definition audio_format_from_u8 :: "u8 \<Rightarrow> wire_error + audio_format" where
  "audio_format_from_u8 v =
     (if v = 0 then Inr Aac
      else if v = 1 then Inr Opus
      else if v = 2 then Inr PcmS16Le
      else if v = 3 then Inr PcmF32Le
      else if v = 4 then Inr PcmS24Le
      else if v = 5 then Inr Mulaw
      else if v = 6 then Inr Alaw
      else if v = 7 then Inr ImaAdpcm
      else if v = 8 then Inr Mp2
      else if v = 9 then Inr Ac3
      else if v = 10 then Inr Flac
      else if v = 11 then Inr Vorbis
      else if v = 12 then Inr Mp3
      else if v = 13 then Inr Speex
      else if v = 14 then Inr PcmS32Le
      else if v = 15 then Inr PcmU8
      else Inl BadTag)"

fun bytestream_to_u8 :: "byte_stream_encoding \<Rightarrow> u8" where
  "bytestream_to_u8 MpegTs = 0"
| "bytestream_to_u8 Matroska = 1"
| "bytestream_to_u8 Ogg = 2"
| "bytestream_to_u8 Flv = 3"
| "bytestream_to_u8 IsoBmff = 4"
| "bytestream_to_u8 Mp4 = 5"
| "bytestream_to_u8 Ivf = 6"
| "bytestream_to_u8 MpegPs = 7"
| "bytestream_to_u8 Wav = 8"
| "bytestream_to_u8 Aiff = 18"
| "bytestream_to_u8 Au = 19"
| "bytestream_to_u8 Avi = 9"
| "bytestream_to_u8 Y4m = 10"
| "bytestream_to_u8 Multipart = 11"
| "bytestream_to_u8 RawBytes = 12"
| "bytestream_to_u8 Rtp = 13"
| "bytestream_to_u8 Srtp = 14"
| "bytestream_to_u8 Rtcp = 15"
| "bytestream_to_u8 Srtcp = 16"
| "bytestream_to_u8 Dtls = 17"
| "bytestream_to_u8 Iv8 = 20"

definition bytestream_from_u8 :: "u8 \<Rightarrow> wire_error + byte_stream_encoding" where
  "bytestream_from_u8 v =
     (if v = 0 then Inr MpegTs
      else if v = 1 then Inr Matroska
      else if v = 2 then Inr Ogg
      else if v = 3 then Inr Flv
      else if v = 4 then Inr IsoBmff
      else if v = 5 then Inr Mp4
      else if v = 6 then Inr Ivf
      else if v = 7 then Inr MpegPs
      else if v = 8 then Inr Wav
      else if v = 9 then Inr Avi
      else if v = 18 then Inr Aiff
      else if v = 19 then Inr Au
      else if v = 10 then Inr Y4m
      else if v = 11 then Inr Multipart
      else if v = 12 then Inr RawBytes
      else if v = 13 then Inr Rtp
      else if v = 14 then Inr Srtp
      else if v = 15 then Inr Rtcp
      else if v = 16 then Inr Srtcp
      else if v = 17 then Inr Dtls
      else if v = 20 then Inr Iv8
      else Inl BadTag)"

fun text_format_to_u8 :: "text_format \<Rightarrow> u8" where
  "text_format_to_u8 Utf8 = 0"
| "text_format_to_u8 PangoMarkup = 1"
| "text_format_to_u8 Srt = 2"
| "text_format_to_u8 WebVtt = 3"
| "text_format_to_u8 Ssa = 4"
| "text_format_to_u8 Ttml = 5"
| "text_format_to_u8 Teletext = 6"

definition text_format_from_u8 :: "u8 \<Rightarrow> wire_error + text_format" where
  "text_format_from_u8 v =
     (if v = 0 then Inr Utf8
      else if v = 1 then Inr PangoMarkup
      else if v = 2 then Inr Srt
      else if v = 3 then Inr WebVtt
      else if v = 4 then Inr Ssa
      else if v = 5 then Inr Ttml
      else if v = 6 then Inr Teletext
      else Inl BadTag)"

fun cc_format_to_u8 :: "closed_caption_format \<Rightarrow> u8" where
  "cc_format_to_u8 Cea608 = 0"
| "cc_format_to_u8 Cea708 = 1"
| "cc_format_to_u8 Cea608Raw = 2"
| "cc_format_to_u8 Cea608S334 = 3"
| "cc_format_to_u8 Cea708Cdp = 4"

definition cc_format_from_u8 :: "u8 \<Rightarrow> wire_error + closed_caption_format" where
  "cc_format_from_u8 v =
     (if v = 0 then Inr Cea608
      else if v = 1 then Inr Cea708
      else if v = 2 then Inr Cea608Raw
      else if v = 3 then Inr Cea608S334
      else if v = 4 then Inr Cea708Cdp
      else Inl BadTag)"

fun subpicture_format_to_u8 :: "sub_picture_format \<Rightarrow> u8" where
  "subpicture_format_to_u8 VobSub = 0"
| "subpicture_format_to_u8 DvbSub = 1"
| "subpicture_format_to_u8 Pgs = 2"

definition subpicture_format_from_u8 :: "u8 \<Rightarrow> wire_error + sub_picture_format" where
  "subpicture_format_from_u8 v =
     (if v = 0 then Inr VobSub
      else if v = 1 then Inr DvbSub
      else if v = 2 then Inr Pgs
      else Inl BadTag)"

fun dtype_to_u8 :: "tensor_dtype \<Rightarrow> u8" where
  "dtype_to_u8 F16 = 0"
| "dtype_to_u8 F32 = 1"
| "dtype_to_u8 I8 = 2"
| "dtype_to_u8 U8 = 3"

definition dtype_from_u8 :: "u8 \<Rightarrow> wire_error + tensor_dtype" where
  "dtype_from_u8 v =
     (if v = 0 then Inr F16
      else if v = 1 then Inr F32
      else if v = 2 then Inr I8
      else if v = 3 then Inr U8
      else Inl BadTag)"

fun layout_to_u8 :: "tensor_layout \<Rightarrow> u8" where
  "layout_to_u8 Nchw = 0"
| "layout_to_u8 Nhwc = 1"

definition layout_from_u8 :: "u8 \<Rightarrow> wire_error + tensor_layout" where
  "layout_from_u8 v =
     (if v = 0 then Inr Nchw
      else if v = 1 then Inr Nhwc
      else Inl BadTag)"

fun interlace_to_u8 :: "interlace \<Rightarrow> u8" where
  "interlace_to_u8 InterlaceAny = 0"
| "interlace_to_u8 Progressive = 1"
| "interlace_to_u8 Interleaved = 2"

definition interlace_from_u8 :: "u8 \<Rightarrow> wire_error + interlace" where
  "interlace_from_u8 v =
     (if v = 0 then Inr InterlaceAny
      else if v = 1 then Inr Progressive
      else if v = 2 then Inr Interleaved
      else Inl BadTag)"

fun namespace_to_wire :: "tag_namespace \<Rightarrow> u8" where
  "namespace_to_wire Riff = 0"
| "namespace_to_wire Mov = 1"

definition put_codec_tag :: "codec_tag \<Rightarrow> u8 list" where
  "put_codec_tag tag = namespace_to_wire (ct_namespace tag) # to_le32 (ct_tag tag)"

definition get_codec_tag :: "codec_tag reader" where
  "get_codec_tag =
     rbind get_u8 (\<lambda>v.
     rbind (if v = 0 then ret Riff else if v = 1 then ret Mov else fail BadTag) (\<lambda>namespace.
     rbind get_u32 (\<lambda>tag. ret \<lparr>ct_namespace = namespace, ct_tag = tag\<rparr>)))"

definition put_video_codec :: "video_codec \<Rightarrow> u8 list" where
  "put_video_codec codec =
     video_codec_to_u8 codec # (case codec of VideoTagged tag \<Rightarrow> put_codec_tag tag | _ \<Rightarrow> [])"

definition get_video_codec :: "video_codec reader" where
  "get_video_codec = rbind get_u8 (\<lambda>v.
     if v = VIDEO_CODEC_TAGGED then rbind get_codec_tag (\<lambda>tag. ret (VideoTagged tag))
     else lift_res (video_codec_from_u8 v))"

definition put_audio_format :: "audio_format \<Rightarrow> u8 list" where
  "put_audio_format format =
     audio_format_to_u8 format # (case format of AudioTagged tag \<Rightarrow> put_codec_tag tag | _ \<Rightarrow> [])"

definition get_audio_format :: "audio_format reader" where
  "get_audio_format = rbind get_u8 (\<lambda>v.
     if v = AUDIO_FORMAT_TAGGED then rbind get_codec_tag (\<lambda>tag. ret (AudioTagged tag))
     else lift_res (audio_format_from_u8 v))"

section \<open>Dimensions, rates and colours\<close>

fun put_dim :: "dim \<Rightarrow> u8 list" where
  "put_dim DimAny = [0]"
| "put_dim (DimRange lo hi) = 1 # to_le32 lo @ to_le32 hi"
| "put_dim (DimFixed v) = 2 # to_le32 v"

definition get_dim :: "dim reader" where
  "get_dim = rbind get_u8 (\<lambda>t.
     if t = 0 then ret DimAny
     else if t = 1 then rbind get_u32 (\<lambda>lo. rbind get_u32 (\<lambda>hi. ret (DimRange lo hi)))
     else if t = 2 then rbind get_u32 (\<lambda>v. ret (DimFixed v))
     else fail BadTag)"

fun put_rate :: "rate \<Rightarrow> u8 list" where
  "put_rate RateAny = [0]"
| "put_rate (RateRange lo hi) = 1 # to_le32 lo @ to_le32 hi"
| "put_rate (RateFixed v) = 2 # to_le32 v"

definition get_rate :: "rate reader" where
  "get_rate = rbind get_u8 (\<lambda>t.
     if t = 0 then ret RateAny
     else if t = 1 then rbind get_u32 (\<lambda>lo. rbind get_u32 (\<lambda>hi. ret (RateRange lo hi)))
     else if t = 2 then rbind get_u32 (\<lambda>v. ret (RateFixed v))
     else fail BadTag)"

fun range_to_wire :: "color_range \<Rightarrow> u8" where
  "range_to_wire RgUnknown = 0"
| "range_to_wire RgLimited = 1"
| "range_to_wire RgFull = 2"

definition get_range :: "color_range reader" where
  "get_range = rbind get_u8 (\<lambda>v.
     if v = 0 then ret RgUnknown
     else if v = 1 then ret RgLimited
     else if v = 2 then ret RgFull
     else fail BadTag)"

fun matrix_to_wire :: "matrix_coefficients \<Rightarrow> u8" where
  "matrix_to_wire MatUnknown = 0"
| "matrix_to_wire MatIdentity = 1"
| "matrix_to_wire MatBt601 = 2"
| "matrix_to_wire MatBt709 = 3"
| "matrix_to_wire MatBt2020Ncl = 4"

definition get_matrix :: "matrix_coefficients reader" where
  "get_matrix = rbind get_u8 (\<lambda>v.
     if v = 0 then ret MatUnknown
     else if v = 1 then ret MatIdentity
     else if v = 2 then ret MatBt601
     else if v = 3 then ret MatBt709
     else if v = 4 then ret MatBt2020Ncl
     else fail BadTag)"

fun transfer_to_wire :: "transfer_characteristics \<Rightarrow> u8" where
  "transfer_to_wire TrUnknown = 0"
| "transfer_to_wire TrSrgb = 1"
| "transfer_to_wire TrBt601 = 2"
| "transfer_to_wire TrBt709 = 3"
| "transfer_to_wire TrBt2020 = 4"
| "transfer_to_wire TrPq = 5"
| "transfer_to_wire TrHlg = 6"

definition get_transfer :: "transfer_characteristics reader" where
  "get_transfer = rbind get_u8 (\<lambda>v.
     if v = 0 then ret TrUnknown
     else if v = 1 then ret TrSrgb
     else if v = 2 then ret TrBt601
     else if v = 3 then ret TrBt709
     else if v = 4 then ret TrBt2020
     else if v = 5 then ret TrPq
     else if v = 6 then ret TrHlg
     else fail BadTag)"

fun primaries_to_wire :: "color_primaries \<Rightarrow> u8" where
  "primaries_to_wire PrUnknown = 0"
| "primaries_to_wire PrBt709 = 1"
| "primaries_to_wire PrBt470bg = 2"
| "primaries_to_wire PrSmpte170m = 3"
| "primaries_to_wire PrBt2020 = 4"

definition get_primaries :: "color_primaries reader" where
  "get_primaries = rbind get_u8 (\<lambda>v.
     if v = 0 then ret PrUnknown
     else if v = 1 then ret PrBt709
     else if v = 2 then ret PrBt470bg
     else if v = 3 then ret PrSmpte170m
     else if v = 4 then ret PrBt2020
     else fail BadTag)"

definition put_colorimetry :: "colorimetry \<Rightarrow> u8 list" where
  "put_colorimetry c =
     [range_to_wire (cl_range c), matrix_to_wire (cl_matrix c), transfer_to_wire (cl_transfer c),
      primaries_to_wire (cl_primaries c)]"

definition get_colorimetry :: "colorimetry reader" where
  "get_colorimetry =
     rbind get_range (\<lambda>range. rbind get_matrix (\<lambda>matrix. rbind get_transfer (\<lambda>transfer. rbind get_primaries (\<lambda>primaries.
       ret \<lparr>cl_range = range, cl_matrix = matrix, cl_transfer = transfer, cl_primaries = primaries\<rparr>))))"

section \<open>Caps\<close>

fun put_caps :: "caps \<Rightarrow> u8 list" where
  "put_caps (CompressedVideo codec width height framerate colorimetry _) =
     0 # put_video_codec codec @ put_dim width @ put_dim height @ put_rate framerate @ put_colorimetry colorimetry"
| "put_caps (RawVideo format width height framerate interlace colorimetry) =
     1 # raw_format_to_u8 format # put_dim width @ put_dim height @ put_rate framerate @
     interlace_to_u8 interlace # put_colorimetry colorimetry"
| "put_caps (Audio format channels sample_rate channel_layout) =
     2 # put_audio_format format @ channels # to_le32 sample_rate @ to_le16 (layout_mask channel_layout)"
| "put_caps (Tensor dtype shape layout) =
     3 # dtype_to_u8 dtype # put_list to_le32 (tensor_shape_dims shape) @ [layout_to_u8 layout]"
| "put_caps (ByteStream encoding) = [4, bytestream_to_u8 encoding]"
| "put_caps (Text format) = [5, text_format_to_u8 format]"
| "put_caps Klv = [6]"
| "put_caps (ClosedCaption format) = [7, cc_format_to_u8 format]"
| "put_caps (SubPicture format) = [8, subpicture_format_to_u8 format]"
| "put_caps OnvifMetadata = [9]"
| "put_caps (Batch streams) = 10 # to_le32 (of_nat (length streams)) @ concat (map put_caps streams)"

text \<open>The arms of \<^verbatim>\<open>get_caps\<close> other than the batch.\<close>

definition get_caps_body :: "u8 \<Rightarrow> caps reader" where
  "get_caps_body t =
     (if t = 0 then
        rbind get_video_codec (\<lambda>codec. rbind get_dim (\<lambda>width. rbind get_dim (\<lambda>height. rbind get_rate (\<lambda>framerate.
        rbind get_colorimetry (\<lambda>colorimetry.
        ret (CompressedVideo codec width height framerate colorimetry AlignUnspecified))))))
      else if t = 1 then
        rbind get_u8 (\<lambda>f. rbind (lift_res (raw_format_from_u8 f)) (\<lambda>format.
        rbind get_dim (\<lambda>width. rbind get_dim (\<lambda>height. rbind get_rate (\<lambda>framerate.
        rbind get_u8 (\<lambda>i. rbind (lift_res (interlace_from_u8 i)) (\<lambda>interlace.
        rbind get_colorimetry (\<lambda>colorimetry.
        ret (RawVideo format width height framerate interlace colorimetry)))))))))
      else if t = 2 then
        rbind get_audio_format (\<lambda>format. rbind get_u8 (\<lambda>channels. rbind get_u32 (\<lambda>sample_rate. rbind get_u16 (\<lambda>m.
        ret (Audio format channels sample_rate (from_mask m))))))
      else if t = 3 then
        rbind get_u8 (\<lambda>d. rbind (lift_res (dtype_from_u8 d)) (\<lambda>dtype.
        rbind get_u32 (\<lambda>n.
        if unat n > MAX_TENSOR_RANK then fail BadTag
        else rbind (get_n get_u32 (unat n)) (\<lambda>dims.
          rbind get_u8 (\<lambda>l. rbind (lift_res (layout_from_u8 l)) (\<lambda>layout.
          rbind (lift_res (ok_or (tensor_shape_from_slice dims) BadTag)) (\<lambda>shape.
          ret (Tensor dtype shape layout))))))))
      else if t = 4 then rbind get_u8 (\<lambda>v. rbind (lift_res (bytestream_from_u8 v)) (\<lambda>e. ret (ByteStream e)))
      else if t = 5 then rbind get_u8 (\<lambda>v. rbind (lift_res (text_format_from_u8 v)) (\<lambda>f. ret (Text f)))
      else if t = 6 then ret Klv
      else if t = 7 then rbind get_u8 (\<lambda>v. rbind (lift_res (cc_format_from_u8 v)) (\<lambda>f. ret (ClosedCaption f)))
      else if t = 8 then rbind get_u8 (\<lambda>v. rbind (lift_res (subpicture_format_from_u8 v)) (\<lambda>f. ret (SubPicture f)))
      else if t = 9 then ret OnvifMetadata
      else fail BadTag)"

text \<open>One round of the batch loop: a batch inside a batch is refused before the recursive call, which therefore never
  meets the batch arm.\<close>

definition get_batch_item :: "caps reader" where
  "get_batch_item s = (if get s 0 = Some 10 then Inl BadTag else rbind get_u8 get_caps_body s)"

definition get_caps :: "caps reader" where
  "get_caps = rbind get_u8 (\<lambda>t.
     if t = 10 then rbind (get_list get_batch_item) (\<lambda>streams. ret (Batch streams)) else get_caps_body t)"

lemma get_batch_item_recursive: "get_batch_item s = (if get s 0 = Some 10 then Inl BadTag else get_caps s)"
  by (cases s) (auto simp: get_batch_item_def get_caps_def get_def rbind_def get_u8_def get_take_def ret_def)

section \<open>What arrives\<close>

fun caps_item_ok :: "caps \<Rightarrow> bool" where
  "caps_item_ok (Audio _ _ _ layout) \<longleftrightarrow> layout_wf layout"
| "caps_item_ok (Tensor _ shape _) \<longleftrightarrow> tensor_shape_from_slice (tensor_shape_dims shape) = Some shape"
| "caps_item_ok (Batch _) \<longleftrightarrow> False"
| "caps_item_ok _ \<longleftrightarrow> True"

fun caps_ok :: "caps \<Rightarrow> bool" where
  "caps_ok (Batch streams) \<longleftrightarrow> list_ok caps_item_ok streams"
| "caps_ok c \<longleftrightarrow> caps_item_ok c"

fun wire_caps :: "caps \<Rightarrow> caps" where
  "wire_caps (CompressedVideo codec width height framerate colorimetry _) =
     CompressedVideo codec width height framerate colorimetry AlignUnspecified"
| "wire_caps (Batch streams) = Batch (map wire_caps streams)"
| "wire_caps c = c"

lemma video_codec_byte:
  "case c of VideoTagged _ \<Rightarrow> video_codec_to_u8 c = VIDEO_CODEC_TAGGED
   | _ \<Rightarrow> video_codec_to_u8 c \<noteq> VIDEO_CODEC_TAGGED \<and> video_codec_from_u8 (video_codec_to_u8 c) = Inr c"
  by (cases c rule: video_codec_to_u8.cases) (simp_all add: VIDEO_CODEC_TAGGED_def video_codec_from_u8_def)

lemma raw_format_byte [wire_reads]: "raw_format_from_u8 (raw_format_to_u8 x) = Inr x"
  by (cases x) (simp_all add: raw_format_from_u8_def)

lemma audio_format_byte:
  "case c of AudioTagged _ \<Rightarrow> audio_format_to_u8 c = AUDIO_FORMAT_TAGGED
   | _ \<Rightarrow> audio_format_to_u8 c \<noteq> AUDIO_FORMAT_TAGGED \<and> audio_format_from_u8 (audio_format_to_u8 c) = Inr c"
  by (cases c) (simp_all add: AUDIO_FORMAT_TAGGED_def audio_format_from_u8_def)

lemma bytestream_byte [wire_reads]: "bytestream_from_u8 (bytestream_to_u8 x) = Inr x"
  by (cases x) (simp_all add: bytestream_from_u8_def)

lemma text_format_byte [wire_reads]: "text_format_from_u8 (text_format_to_u8 x) = Inr x"
  by (cases x) (simp_all add: text_format_from_u8_def)

lemma cc_format_byte [wire_reads]: "cc_format_from_u8 (cc_format_to_u8 x) = Inr x"
  by (cases x) (simp_all add: cc_format_from_u8_def)

lemma subpicture_format_byte [wire_reads]: "subpicture_format_from_u8 (subpicture_format_to_u8 x) = Inr x"
  by (cases x) (simp_all add: subpicture_format_from_u8_def)

lemma dtype_byte [wire_reads]: "dtype_from_u8 (dtype_to_u8 x) = Inr x"
  by (cases x) (simp_all add: dtype_from_u8_def)

lemma layout_byte [wire_reads]: "layout_from_u8 (layout_to_u8 x) = Inr x"
  by (cases x) (simp_all add: layout_from_u8_def)

lemma interlace_byte [wire_reads]: "interlace_from_u8 (interlace_to_u8 x) = Inr x"
  by (cases x) (simp_all add: interlace_from_u8_def)

lemma read_codec_tag [wire_reads]: "get_codec_tag (put_codec_tag tag @ s) = Inr (tag, s)"
  by (cases tag; cases "ct_namespace tag") (auto simp: get_codec_tag_def put_codec_tag_def wire_reads ret_def)

lemma read_video_codec [wire_reads]: "get_video_codec (put_video_codec c @ s) = Inr (c, s)"
  using video_codec_byte [of c]
  by (cases c) (simp_all add: get_video_codec_def put_video_codec_def wire_reads ret_def del: video_codec_to_u8.simps)

lemma read_audio_format [wire_reads]: "get_audio_format (put_audio_format c @ s) = Inr (c, s)"
  using audio_format_byte [of c]
  by (cases c) (simp_all add: get_audio_format_def put_audio_format_def wire_reads ret_def del: audio_format_to_u8.simps)

lemma read_dim [wire_reads]: "get_dim (put_dim d @ s) = Inr (d, s)"
  by (cases d) (simp_all add: get_dim_def wire_reads ret_def)

lemma read_rate [wire_reads]: "get_rate (put_rate d @ s) = Inr (d, s)"
  by (cases d) (simp_all add: get_rate_def wire_reads ret_def)

lemma read_colour_bytes [wire_reads]:
  "get_range (range_to_wire r # s) = Inr (r, s)" "get_matrix (matrix_to_wire m # s) = Inr (m, s)"
  "get_transfer (transfer_to_wire t # s) = Inr (t, s)" "get_primaries (primaries_to_wire p # s) = Inr (p, s)"
proof -
  show "get_range (range_to_wire r # s) = Inr (r, s)" by (cases r) (simp_all add: get_range_def wire_reads ret_def)
  show "get_matrix (matrix_to_wire m # s) = Inr (m, s)" by (cases m) (simp_all add: get_matrix_def wire_reads ret_def)
  show "get_transfer (transfer_to_wire t # s) = Inr (t, s)" by (cases t) (simp_all add: get_transfer_def wire_reads ret_def)
  show "get_primaries (primaries_to_wire p # s) = Inr (p, s)" by (cases p) (simp_all add: get_primaries_def wire_reads ret_def)
qed

lemma read_colorimetry [wire_reads]: "get_colorimetry (put_colorimetry c @ s) = Inr (c, s)"
  by (simp add: get_colorimetry_def put_colorimetry_def wire_reads ret_def)

lemma stable_enums [stable_intros]:
  "stable get_codec_tag" "stable get_video_codec" "stable get_audio_format" "stable get_dim" "stable get_rate"
  "stable get_range" "stable get_matrix" "stable get_transfer" "stable get_primaries" "stable get_colorimetry"
  by (simp_all add: get_codec_tag_def get_video_codec_def get_audio_format_def get_dim_def get_rate_def get_range_def
      get_matrix_def get_transfer_def get_primaries_def get_colorimetry_def stable_intros)

interpretation dim_field: wire_codec put_dim get_dim "\<lambda>_. True" "\<lambda>x. x"
  by (rule wire_codecI) (auto simp: wire_reads stable_intros)

interpretation rate_field: wire_codec put_rate get_rate "\<lambda>_. True" "\<lambda>x. x"
  by (rule wire_codecI) (auto simp: wire_reads stable_intros)

interpretation u32_field: wire_codec to_le32 get_u32 "\<lambda>_. True" "\<lambda>x. x"
  by (rule wire_codecI) (auto simp: wire_reads stable_intros)

interpretation colorimetry_field: wire_codec put_colorimetry get_colorimetry "\<lambda>_. True" "\<lambda>x. x"
  by (rule wire_codecI) (auto simp: wire_reads stable_intros)


section \<open>Caps round-trip\<close>

lemma tensor_dims_fit:
  assumes "tensor_shape_from_slice dims = Some shape"
  shows "length dims \<le> MAX_TENSOR_RANK" "list_ok (\<lambda>_. True) dims"
  using assms by (auto simp: tensor_shape_from_slice_def MAX_TENSOR_RANK_def list_ok_def list_all_iff split: if_splits)

lemma read_dims [wire_reads]:
  assumes "tensor_shape_from_slice dims = Some shape"
  shows "rbind get_u32 (\<lambda>n. if unat n > MAX_TENSOR_RANK then fail BadTag else rbind (get_n get_u32 (unat n)) f)
      (put_list to_le32 dims @ s) = f dims s"
proof -
  have "unat (of_nat (length dims) :: u32) = length dims"
    using tensor_dims_fit [OF assms] by (simp add: unat_of_nat take_bit_nat_eq_self MAX_TENSOR_RANK_def)
  then show ?thesis
    using tensor_dims_fit [OF assms] u32_field.get_n_put [of dims s]
    by (simp add: put_list_def wire_reads list_ok_def)
qed

lemma read_caps_body:
  assumes "caps_item_ok c"
  shows "\<exists>t body. put_caps c = t # body \<and> t \<noteq> 10 \<and> get_caps_body t (body @ s) = Inr (wire_caps c, s)"
proof (cases c)
  case (Audio f ch sr l)
  then have "from_mask (layout_mask l) = l" using assms by (simp add: layout_wf_def)
  then show ?thesis using Audio by (simp add: get_caps_body_def wire_reads ret_def)
next
  case (Tensor d shape l)
  then have "tensor_shape_from_slice (tensor_shape_dims shape) = Some shape" using assms by simp
  then show ?thesis using Tensor by (simp add: get_caps_body_def wire_reads ret_def)
qed (use assms in \<open>simp_all add: get_caps_body_def wire_reads ret_def\<close>)

lemma get_u8_Cons [simp]: "rbind get_u8 f (t # s) = f t s"
  by (simp add: wire_reads)

lemma got_caps_body:
  assumes "get_caps_body t s = Inr (c, r)"
  shows "caps_item_ok c \<and> wire_caps c = c"
  using assms
  by (auto simp: get_caps_body_def rbind_Inr layout_wf_from_mask ok_or_def tensor_shape_roundtrip
      split: if_splits option.splits)

lemma stable_caps_body [stable_intros]: "stable (get_caps_body t)"
  by (simp add: get_caps_body_def stable_intros)

interpretation batch_item: wire_codec put_caps get_batch_item caps_item_ok wire_caps
proof (rule wire_codecI)
  show "caps_item_ok c \<Longrightarrow> get_batch_item (put_caps c @ s) = Inr (wire_caps c, s)" for c s
    using read_caps_body [of c s] by (auto simp: get_batch_item_def get_def)
  show "get_batch_item s = Inr (c, t) \<Longrightarrow> caps_item_ok c \<and> wire_caps c = c" for s c t
    by (auto simp: get_batch_item_def rbind_Inr split: if_splits dest: got_caps_body)
  have st: "stable (rbind get_u8 get_caps_body)" by (simp add: stable_intros)
  show "stable get_batch_item"
  proof -
    have "case get_batch_item s of Inr (x, s') \<Rightarrow> get_batch_item (s @ t) = Inr (x, s' @ t)
      | Inl e \<Rightarrow> e = Truncated \<or> get_batch_item (s @ t) = Inl e" for s t
    proof (cases s)
      case Nil
      then show ?thesis
        by (simp add: get_batch_item_def get_def rbind_def get_u8_def get_take_def)
    next
      case (Cons b s')
      then have eqs: "get_batch_item s = (if b = 10 then Inl BadTag else rbind get_u8 get_caps_body s)"
        "get_batch_item (s @ t) = (if b = 10 then Inl BadTag else rbind get_u8 get_caps_body (s @ t))"
        by (simp_all add: get_batch_item_def get_def)
      show ?thesis using st unfolding eqs stable_def by simp
    qed
    then show ?thesis unfolding stable_def by blast
  qed
qed

interpretation caps_field: wire_codec put_caps get_caps caps_ok wire_caps
proof (rule wire_codecI)
  show "get_caps (put_caps c @ s) = Inr (wire_caps c, s)" if "caps_ok c" for c s
  proof (cases "\<exists>streams. c = Batch streams")
    case True
    then obtain streams where c: "c = Batch streams" by blast
    then have "get_list get_batch_item (put_list put_caps streams @ s) = Inr (map wire_caps streams, s)"
      using that by (intro batch_item.get_list_put) simp
    then show ?thesis using c by (simp add: get_caps_def put_list_def rbind_def [of "get_list get_batch_item"] ret_def)
  next
    case False
    then have "caps_item_ok c" using that by (cases c) auto
    then show ?thesis using read_caps_body [of c s] by (auto simp: get_caps_def)
  qed
  show "stable get_caps" by (simp add: get_caps_def stable_intros batch_item.forward)
  show "get_caps s = Inr (c, t) \<Longrightarrow> caps_ok c \<and> wire_caps c = c" for s c t
  proof -
    assume "get_caps s = Inr (c, t)"
    then obtain b s' where "(if b = 10 then rbind (get_list get_batch_item) (\<lambda>streams. ret (Batch streams)) else get_caps_body b) s'
        = Inr (c, t)"
      by (auto simp: get_caps_def rbind_Inr)
    moreover have "caps_item_ok c \<Longrightarrow> caps_ok c" by (cases c) auto
    ultimately show ?thesis
      using got_caps_body by (auto simp: rbind_Inr split: if_splits dest: batch_item.get_list_got)
  qed
qed

end
