(* ===== verification/Meta.thy ===== *)
theory Meta
  imports Frames "HOL-Library.Product_Lexorder"
begin

text \<open>
  Metadata attached to frames (\<^verbatim>\<open>meta.rs\<close>, with the \<^verbatim>\<open>metadata\<close> feature): the typed entries, the set that
  holds at most one of each type, what survives a transform, and the requests a consumer sends upstream. A
  float is its bit pattern; the header of a blob is its UTF-8 bytes; the frames a batch carries are a type
  parameter.
\<close>

section \<open>Where rows lie\<close>

definition MAX_PLANES :: nat where "MAX_PLANES = 4"

record plane =
  pl_offset :: u64
  pl_stride :: u64

record plane_layout =
  pl_planes :: "plane list"
  pl_count :: nat

definition NO_PLANE :: plane where "NO_PLANE = \<lparr>pl_offset = 0, pl_stride = 0\<rparr>"

definition plane_layout_new :: "plane list \<Rightarrow> plane_layout option" where
  "plane_layout_new ps =
     (if ps = [] \<or> length ps > MAX_PLANES then None
      else Some \<lparr>pl_planes = ps @ replicate (MAX_PLANES - length ps) NO_PLANE, pl_count = length ps\<rparr>)"

definition plane_layout_single :: "u64 \<Rightarrow> plane_layout" where
  "plane_layout_single stride =
     \<lparr>pl_planes = \<lparr>pl_offset = 0, pl_stride = stride\<rparr> # replicate (MAX_PLANES - 1) NO_PLANE, pl_count = 1\<rparr>"

definition layout_plane :: "plane_layout \<Rightarrow> nat \<Rightarrow> plane option" where
  "layout_plane l i = (if i < pl_count l then Some (pl_planes l ! i) else None)"

definition row_range :: "plane_layout \<Rightarrow> nat \<Rightarrow> u64 \<Rightarrow> u64 \<Rightarrow> (u64 \<times> u64) option" where
  "row_range l index row row_bytes =
     Option.bind (layout_plane l index) (\<lambda>p.
       if pl_stride p < row_bytes then None
       else Option.bind (checked_mul row (pl_stride p)) (\<lambda>d.
            Option.bind (checked_add (pl_offset p) d) (\<lambda>start.
            Option.bind (checked_add start row_bytes) (\<lambda>end_at. Some (start, end_at)))))"

section \<open>The entries\<close>

type_synonym f32 = "32 word"
type_synonym f64 = "64 word"

record bbox =
  bb_x :: f32
  bb_y :: f32
  bb_w :: f32
  bb_h :: f32

record object_detection =
  od_bbox :: bbox
  od_label :: u32
  od_confidence :: f32

record classification =
  cf_label :: u32
  cf_confidence :: f32

record tracking =
  object_id :: u64

record pixel_mask =
  pm_width :: u32
  pm_height :: u32
  pm_stride :: u32
  pm_data :: "u8 list"

text \<open>\<^verbatim>\<open>Mask::new\<close>. The geometry is compared in 64 bits, where the product of two 32-bit numbers never overflows; the
  \<^verbatim>\<open>checked_mul\<close> is kept as written.\<close>

definition mask_new :: "u32 \<Rightarrow> u32 \<Rightarrow> u32 \<Rightarrow> u8 list \<Rightarrow> pixel_mask option" where
  "mask_new width height stride bytes =
     (if stride < width then None
      else Option.bind (checked_mul (ucast stride :: u64) (ucast height)) (\<lambda>needed.
        if needed > of_nat (length bytes) then None
        else Some \<lparr>pm_width = width, pm_height = height, pm_stride = stride, pm_data = bytes\<rparr>))"

definition mask_sample :: "pixel_mask \<Rightarrow> u32 \<Rightarrow> u32 \<Rightarrow> u8 option" where
  "mask_sample m x y =
     (if x \<ge> pm_width m \<or> y \<ge> pm_height m then None
      else get (pm_data m) (unat y * unat (pm_stride m) + unat x))"

record segmentation =
  sg_bbox :: bbox
  sg_label :: u32
  sg_confidence :: f32
  sg_mask :: pixel_mask

record roi =
  ro_bbox :: bbox
  ro_id :: u32
  ro_label :: u32

record keypoint =
  kp_x :: f32
  kp_y :: f32
  kp_confidence :: f32

record pose =
  ps_bbox :: bbox
  ps_label :: u32
  ps_confidence :: f32
  ps_keypoints :: "keypoint list"

record oriented_detection =
  ob_cx :: f32
  ob_cy :: f32
  ob_w :: f32
  ob_h :: f32
  ob_angle :: f32
  ob_label :: u32
  ob_confidence :: f32

datatype analytics_node =
  Detection object_detection | Classification classification | Tracking tracking | Segmentation segmentation
| Roi roi | Pose pose | OrientedDetection oriented_detection

datatype relation_kind = Classifies | Tracks | Contains

record relation =
  rl_from :: u64
  rl_to :: u64
  rl_kind :: relation_kind

record analytics_meta =
  am_nodes :: "analytics_node list"
  am_relations :: "relation list"
  am_class_names :: "string list option"

definition analytics_new :: analytics_meta where
  "analytics_new = \<lparr>am_nodes = [], am_relations = [], am_class_names = None\<rparr>"

definition class_name :: "analytics_meta \<Rightarrow> u32 \<Rightarrow> string option" where
  "class_name a label = Option.bind (am_class_names a) (\<lambda>names. get names (unat label))"

definition analytics_push :: "analytics_meta \<Rightarrow> analytics_node \<Rightarrow> analytics_meta \<times> nat" where
  "analytics_push a node = (a\<lparr>am_nodes := am_nodes a @ [node]\<rparr>, length (am_nodes a))"

definition relate :: "analytics_meta \<Rightarrow> u64 \<Rightarrow> u64 \<Rightarrow> relation_kind \<Rightarrow> analytics_meta" where
  "relate a from to kind = a\<lparr>am_relations := am_relations a @ [\<lparr>rl_from = from, rl_to = to, rl_kind = kind\<rparr>]\<rparr>"

text \<open>\<^verbatim>\<open>tracking_id\<close>: the first \<^verbatim>\<open>Tracks\<close> relation of the node decides, even when it does not lead to a tracking node.\<close>

definition tracking_id :: "analytics_meta \<Rightarrow> u64 \<Rightarrow> u64 option" where
  "tracking_id a index =
     Option.bind (List.find (\<lambda>r. rl_from r = index \<and> rl_kind r = Tracks) (am_relations a)) (\<lambda>r.
       case get (am_nodes a) (unat (rl_to r)) of Some (Tracking t) \<Rightarrow> Some (object_id t) | _ \<Rightarrow> None)"

record named_tensor =
  nt_name :: string
  nt_dtype :: tensor_dtype
  nt_shape :: tensor_shape
  nt_layout :: tensor_layout
  nt_data :: "u8 list"

text \<open>\<^verbatim>\<open>TensorMeta::push\<close>: a tensor of the same name is replaced where it stands.\<close>

definition tensor_push :: "named_tensor list \<Rightarrow> named_tensor \<Rightarrow> named_tensor list" where
  "tensor_push ts t = (case position (\<lambda>u. nt_name u = nt_name t) ts of Some i \<Rightarrow> ts[i := t] | None \<Rightarrow> ts @ [t])"

definition tensor_get :: "named_tensor list \<Rightarrow> string \<Rightarrow> named_tensor option" where
  "tensor_get ts n = List.find (\<lambda>t. nt_name t = n) ts"

fun tensor_only :: "named_tensor list \<Rightarrow> named_tensor option" where
  "tensor_only [one] = Some one"
| "tensor_only _ = None"

record blob =
  bl_header :: "u8 list"
  bl_payload :: "u8 list"

record caption_triple =
  cc_type :: u8
  cc_b0 :: u8
  cc_b1 :: u8

datatype sei_user_data = SeiRegistered "u8 list" | SeiUnregistered "u8 list" "u8 list"

record chromaticity =
  ch_x :: f32
  ch_y :: f32

record mastering_display =
  md_red :: chromaticity
  md_green :: chromaticity
  md_blue :: chromaticity
  md_white :: chromaticity
  md_max_luminance :: f32
  md_min_luminance :: f32

record hdr_static_meta =
  hdr_mastering :: "mastering_display option"
  hdr_max_content :: "u16 option"
  hdr_max_average :: "u16 option"

definition hdr_is_empty :: "hdr_static_meta \<Rightarrow> bool" where
  "hdr_is_empty h \<longleftrightarrow> hdr_mastering h = None \<and> hdr_max_content h = None \<and> hdr_max_average h = None"

record timecode_meta =
  tc_hours :: u8
  tc_minutes :: u8
  tc_seconds :: u8
  tc_frames :: u8
  tc_drop_frame :: bool
  tc_framerate :: "u32 option"

record crop_rectangle =
  cr_left :: u32
  cr_top :: u32
  cr_width :: u32
  cr_height :: u32

record 'f batch_stream =
  bs_index :: nat
  bs_caps :: caps
  bs_frame :: "'f option"

datatype 'f frame_meta =
  AnalyticsMeta analytics_meta
| BlobMeta "blob list"
| CaptionMeta "caption_triple list"
| HdrStaticMeta hdr_static_meta
| TimecodeMeta timecode_meta
| WallClockMeta "64 word"
| TensorMeta "named_tensor list"
| SeiUserDataMeta "sei_user_data list"
| OrientationMeta orientation
| CropMeta crop_rectangle
| BatchMeta "'f batch_stream list"
| PlaneLayoutMeta plane_layout
| PaletteChange "(u8 \<times> u8 \<times> u8 \<times> u8) list"

text \<open>The concrete type an entry is keyed by (\<^verbatim>\<open>as_any().is::<T>()\<close>).\<close>

datatype meta_type =
  TAnalytics | TBlob | TCaption | THdrStatic | TTimecode | TWallClock | TTensor | TSeiUserData | TOrientation
| TCrop | TBatch | TPlaneLayout | TPalette

fun type_of_meta :: "'f frame_meta \<Rightarrow> meta_type" where
  "type_of_meta (AnalyticsMeta _) = TAnalytics"
| "type_of_meta (BlobMeta _) = TBlob"
| "type_of_meta (CaptionMeta _) = TCaption"
| "type_of_meta (HdrStaticMeta _) = THdrStatic"
| "type_of_meta (TimecodeMeta _) = TTimecode"
| "type_of_meta (WallClockMeta _) = TWallClock"
| "type_of_meta (TensorMeta _) = TTensor"
| "type_of_meta (SeiUserDataMeta _) = TSeiUserData"
| "type_of_meta (OrientationMeta _) = TOrientation"
| "type_of_meta (CropMeta _) = TCrop"
| "type_of_meta (BatchMeta _) = TBatch"
| "type_of_meta (PlaneLayoutMeta _) = TPlaneLayout"
| "type_of_meta (PaletteChange _) = TPalette"

datatype frame_transform = TransformCopy | TransformScale | TransformCrop | TransformEncode

text \<open>\<^verbatim>\<open>FrameMeta::propagate\<close> of each type: whether the entry is kept.\<close>

fun propagate_keeps :: "'f frame_meta \<Rightarrow> frame_transform \<Rightarrow> bool" where
  "propagate_keeps (AnalyticsMeta _) t \<longleftrightarrow> t \<noteq> TransformEncode"
| "propagate_keeps (TensorMeta _) t \<longleftrightarrow> t \<noteq> TransformEncode"
| "propagate_keeps (OrientationMeta _) t \<longleftrightarrow> t \<noteq> TransformCrop"
| "propagate_keeps (CropMeta _) t \<longleftrightarrow> t = TransformCopy \<or> t = TransformEncode"
| "propagate_keeps (BatchMeta _) t \<longleftrightarrow> t = TransformCopy"
| "propagate_keeps (PlaneLayoutMeta _) t \<longleftrightarrow> False"
| "propagate_keeps (PaletteChange _) t \<longleftrightarrow> False"
| "propagate_keeps (BlobMeta _) t \<longleftrightarrow> True"
| "propagate_keeps (CaptionMeta _) t \<longleftrightarrow> True"
| "propagate_keeps (HdrStaticMeta _) t \<longleftrightarrow> True"
| "propagate_keeps (TimecodeMeta _) t \<longleftrightarrow> True"
| "propagate_keeps (WallClockMeta _) t \<longleftrightarrow> True"
| "propagate_keeps (SeiUserDataMeta _) t \<longleftrightarrow> True"

section \<open>The set\<close>

type_synonym 'f frame_meta_set = "'f frame_meta list"

definition meta_position :: "'f frame_meta_set \<Rightarrow> meta_type \<Rightarrow> nat option" where
  "meta_position ms t = position (\<lambda>m. type_of_meta m = t) ms"

definition meta_attach :: "'f frame_meta_set \<Rightarrow> 'f frame_meta \<Rightarrow> 'f frame_meta_set" where
  "meta_attach ms m = (case meta_position ms (type_of_meta m) of Some i \<Rightarrow> ms[i := m] | None \<Rightarrow> ms @ [m])"

definition meta_get :: "'f frame_meta_set \<Rightarrow> meta_type \<Rightarrow> 'f frame_meta option" where
  "meta_get ms t = List.find (\<lambda>m. type_of_meta m = t) ms"

text \<open>\<^verbatim>\<open>get_mut\<close> with the mutation applied through the returned reference. The entry is copied when it is shared, so
  the mutation stays in this set.\<close>

definition meta_update :: "'f frame_meta_set \<Rightarrow> meta_type \<Rightarrow> ('f frame_meta \<Rightarrow> 'f frame_meta) \<Rightarrow> 'f frame_meta_set" where
  "meta_update ms t f = (case meta_position ms t of Some i \<Rightarrow> ms[i := f (ms ! i)] | None \<Rightarrow> ms)"

definition meta_propagate :: "'f frame_meta_set \<Rightarrow> frame_transform \<Rightarrow> 'f frame_meta_set" where
  "meta_propagate ms t =
     (if list_all (\<lambda>m. propagate_keeps m t) ms then ms else filter (\<lambda>m. propagate_keeps m t) ms)"

definition meta_set_wf :: "'f frame_meta_set \<Rightarrow> bool" where
  "meta_set_wf ms \<longleftrightarrow> distinct (map type_of_meta ms)"


lemma position_Some_iff:
  "position p xs = Some i \<longleftrightarrow> i < length xs \<and> p (xs ! i) \<and> (\<forall>j<i. \<not> p (xs ! j))"
proof (induction xs arbitrary: i)
  case (Cons x xs)
  show ?case
  proof (cases i)
    case 0
    then show ?thesis by (auto split: if_splits)
  next
    case (Suc k)
    have "position p xs = Some k \<longleftrightarrow> k < length xs \<and> p (xs ! k) \<and> (\<forall>j<k. \<not> p (xs ! j))" by (rule Cons.IH)
    then show ?thesis using Suc by (auto simp: All_less_Suc2)
  qed
qed simp

lemma position_None_iff: "position p xs = None \<longleftrightarrow> (\<forall>x\<in>set xs. \<not> p x)"
  by (induction xs) auto

lemma meta_position_Some:
  "meta_position ms t = Some i \<Longrightarrow> i < length ms \<and> type_of_meta (ms ! i) = t"
  by (simp add: meta_position_def position_Some_iff)

lemma meta_position_None: "meta_position ms t = None \<longleftrightarrow> t \<notin> type_of_meta ` set ms"
  by (auto simp: meta_position_def position_None_iff)

lemma map_update_same: "i < length xs \<Longrightarrow> f (xs ! i) = f y \<Longrightarrow> map f (xs[i := y]) = map f xs"
  by (metis list_update_id map_update nth_map)

lemma attach_types:
  "map type_of_meta (meta_attach ms m) =
     (if type_of_meta m \<in> type_of_meta ` set ms then map type_of_meta ms else map type_of_meta ms @ [type_of_meta m])"
proof (cases "meta_position ms (type_of_meta m)")
  case None
  then have "type_of_meta m \<notin> type_of_meta ` set ms" by (simp add: meta_position_None)
  then show ?thesis using None by (simp add: meta_attach_def)
next
  case (Some i)
  then have i: "i < length ms" "type_of_meta (ms ! i) = type_of_meta m" using meta_position_Some by blast+
  then have "type_of_meta m \<in> type_of_meta ` set ms" by (metis image_eqI nth_mem)
  then show ?thesis using Some i by (simp add: meta_attach_def map_update_same)
qed

lemma find_append: "List.find p (xs @ ys) = (case List.find p xs of Some x \<Rightarrow> Some x | None \<Rightarrow> List.find p ys)"
  by (induction xs) auto

lemma find_list_update_other:
  assumes "i < length xs" "\<not> p (xs ! i)" "\<not> p y"
  shows "List.find p (xs[i := y]) = List.find p xs"
  using assms by (induction xs arbitrary: i) (auto split: nat.splits)

lemma find_list_update_first:
  assumes "position p xs = Some i" "p y"
  shows "List.find p (xs[i := y]) = Some y"
  using assms by (induction xs arbitrary: i) (auto split: if_splits)

lemma get_attach_other: "t \<noteq> type_of_meta m \<Longrightarrow> meta_get (meta_attach ms m) t = meta_get ms t"
  by (cases "meta_position ms (type_of_meta m)")
     (auto simp: meta_attach_def meta_get_def find_append find_list_update_other split: option.splits
        dest: meta_position_Some)

lemma get_attach_same: "meta_get (meta_attach ms m) (type_of_meta m) = Some m"
proof (cases "meta_position ms (type_of_meta m)")
  case None
  then have "List.find (\<lambda>x. type_of_meta x = type_of_meta m) ms = None"
    unfolding meta_position_None find_None_iff by (metis image_eqI)
  then show ?thesis using None by (simp add: meta_attach_def meta_get_def find_append)
next
  case (Some i)
  then show ?thesis
    by (simp add: meta_attach_def meta_get_def find_list_update_first [of _ ms i] meta_position_def)
qed

lemma meta_propagate_filter: "meta_propagate ms t = filter (\<lambda>m. propagate_keeps m t) ms"
  by (auto simp: meta_propagate_def list_all_iff intro: filter_True [symmetric])

lemma find_filter_distinct:
  assumes "distinct (map f xs)"
  shows "List.find (\<lambda>x. f x = k) (filter q xs) =
     (case List.find (\<lambda>x. f x = k) xs of Some x \<Rightarrow> if q x then Some x else None | None \<Rightarrow> None)"
  using assms
proof (induction xs)
  case (Cons x xs)
  have "f x = k \<Longrightarrow> List.find (\<lambda>x. f x = k) (filter q xs) = None"
    using Cons.prems unfolding find_None_iff distinct.simps list.map(2) list.set_map by (metis image_eqI filter_is_subset subsetD)
  then show ?case using Cons by auto
qed simp

lemma distinct_map_filter_keeps: "distinct (map f xs) \<Longrightarrow> distinct (map f (filter p xs))"
  by (induction xs) auto

text \<open>C29. The metadata set is a map from types to entries: an entry attached is the one read back and leaves every
  other type's alone; a transform keeps exactly the entries that survive it; the set holds at most one entry of a
  type after every operation.\<close>

theorem meta_set_correct:
  assumes "meta_set_wf ms"
  shows "meta_set_wf (meta_attach ms m) \<and> meta_set_wf (meta_propagate ms t) \<and>
    meta_get (meta_attach ms m) k = (if k = type_of_meta m then Some m else meta_get ms k) \<and>
    meta_get (meta_propagate ms t) k =
      (case meta_get ms k of Some x \<Rightarrow> if propagate_keeps x t then Some x else None | None \<Rightarrow> None)"
proof -
  have "meta_set_wf (meta_attach ms m)"
    using assms by (simp add: meta_set_wf_def attach_types)
  moreover have "meta_set_wf (meta_propagate ms t)"
    using assms by (simp add: meta_set_wf_def meta_propagate_filter distinct_map_filter_keeps)
  moreover have "meta_get (meta_propagate ms t) k =
      (case meta_get ms k of Some x \<Rightarrow> if propagate_keeps x t then Some x else None | None \<Rightarrow> None)"
    using assms by (simp add: meta_get_def meta_set_wf_def meta_propagate_filter find_filter_distinct)
  ultimately show ?thesis by (simp add: get_attach_same get_attach_other)
qed

theorem meta_set_correct_witness:
  "meta_get (meta_propagate [WallClockMeta 7, CropMeta \<lparr>cr_left = 0, cr_top = 0, cr_width = 4, cr_height = 4\<rparr>] TransformScale)
     TCrop = (None :: nat frame_meta option)"
  using meta_set_correct [of "[WallClockMeta 7, CropMeta \<lparr>cr_left = 0, cr_top = 0, cr_width = 4, cr_height = 4\<rparr>]"
      "WallClockMeta 7 :: nat frame_meta" TransformScale TCrop]
  by (simp add: meta_set_wf_def meta_get_def)

section \<open>Masks and rows stay in their buffers\<close>

lemma mask_needed: "checked_mul (ucast (s :: u32) :: u64) (ucast (h :: u32)) = Some (ucast s * ucast h)"
  "unat (ucast (s :: u32) * ucast (h :: u32) :: u64) = unat s * unat h"
proof -
  have "unat s * unat h \<le> (2 ^ 32 - 1) * (2 ^ 32 - 1)"
    using unat_lt2p [of s] unat_lt2p [of h] by (intro mult_le_mono) auto
  then have "unat s * unat h < 2 ^ 64" by simp
  moreover have "unat (ucast s :: u64) = unat s" "unat (ucast h :: u64) = unat h"
    by (simp_all add: unat_ucast_up)
  ultimately show "checked_mul (ucast s :: u64) (ucast h) = Some (ucast s * ucast h)"
    "unat (ucast s * ucast h :: u64) = unat s * unat h"
    by (simp_all add: checked_mul_def unat_word_ariths)
qed

lemma mask_new_iff:
  assumes "length bytes < 2 ^ 64"
  shows "mask_new w h s bytes = Some m \<longleftrightarrow>
    w \<le> s \<and> unat s * unat h \<le> length bytes \<and> m = \<lparr>pm_width = w, pm_height = h, pm_stride = s, pm_data = bytes\<rparr>"
proof -
  have "unat (of_nat (length bytes) :: u64) = length bytes"
    using assms by (simp add: unat_of_nat take_bit_nat_eq_self)
  then show ?thesis
    by (auto simp: mask_new_def mask_needed word_less_nat_alt not_less word_le_nat_alt)
qed

text \<open>A mask that was accepted never makes a reader look outside its bytes: every sample inside the picture
  exists, and outside it there is none.\<close>

theorem mask_samples_in_bounds:
  assumes "mask_new w h s bytes = Some m" "length bytes < 2 ^ 64"
  shows "(x < w \<and> y < h \<longrightarrow> mask_sample m x y = Some (bytes ! (unat y * unat s + unat x)) \<and>
      unat y * unat s + unat x < length bytes) \<and>
    (\<not> (x < w \<and> y < h) \<longrightarrow> mask_sample m x y = None)"
proof -
  have m: "w \<le> s" "unat s * unat h \<le> length bytes" "m = \<lparr>pm_width = w, pm_height = h, pm_stride = s, pm_data = bytes\<rparr>"
    using assms mask_new_iff by blast+
  have "unat y * unat s + unat x < length bytes" if "x < w" "y < h"
  proof -
    have "unat x < unat s" using that m(1) by (simp add: word_less_nat_alt word_le_nat_alt)
    moreover have "Suc (unat y) * unat s \<le> unat h * unat s"
      using that(2) by (intro mult_le_mono1) (simp add: word_less_nat_alt)
    ultimately show ?thesis using m(2) by (simp add: mult.commute)
  qed
  then show ?thesis using m(3) by (auto simp: mask_sample_def get_def not_le [symmetric])
qed

theorem mask_samples_in_bounds_witness:
  "(case mask_new 2 2 3 [1, 2, 0, 3, 4, 0] of Some m \<Rightarrow> mask_sample m 1 1 = Some 4 | None \<Rightarrow> False)"
proof -
  have m: "mask_new 2 2 3 [1, 2, 0, 3, 4, 0] = Some \<lparr>pm_width = 2, pm_height = 2, pm_stride = 3, pm_data = [1, 2, 0, 3, 4, 0]\<rparr>"
    by (simp add: mask_new_iff)
  then show ?thesis using mask_samples_in_bounds [OF m, of 1 1] by simp
qed

lemma checked_add_unat: "checked_add a b = Some c \<Longrightarrow> unat c = unat a + unat b"
  by (auto simp: checked_add_def unat_word_ariths split: if_splits)

lemma checked_mul_unat: "checked_mul a b = Some c \<Longrightarrow> unat c = unat a * unat b"
  by (auto simp: checked_mul_def unat_word_ariths split: if_splits)

lemma row_range_exact:
  assumes "row_range l i row n = Some (a, b)"
  shows "\<exists>p. layout_plane l i = Some p \<and> n \<le> pl_stride p \<and>
    unat a = unat (pl_offset p) + unat row * unat (pl_stride p) \<and> unat b = unat a + unat n"
proof -
  obtain p d where p: "layout_plane l i = Some p" "\<not> pl_stride p < n" "checked_mul row (pl_stride p) = Some d"
    "checked_add (pl_offset p) d = Some a" "checked_add a n = Some b"
    using assms by (auto simp: row_range_def bind_eq_Some_conv split: if_splits)
  then show ?thesis
    using checked_add_unat [OF p(4)] checked_add_unat [OF p(5)] checked_mul_unat [OF p(3)] by (auto simp: not_less)
qed

text \<open>Where a layout gives a byte range for a row, the range lies where the plane's geometry puts it, with no
  wrap-around, and the ranges of different rows of a plane do not overlap.\<close>

theorem row_ranges_disjoint:
  assumes "row_range l i r n = Some (a, b)" "row_range l i r' n = Some (a', b')" "r < r'"
  shows "unat b = unat a + unat n \<and> b \<le> a'"
proof -
  obtain p where p: "layout_plane l i = Some p" "n \<le> pl_stride p"
    "unat a = unat (pl_offset p) + unat r * unat (pl_stride p)" "unat b = unat a + unat n"
    using row_range_exact [OF assms(1)] by blast
  obtain p' where p': "layout_plane l i = Some p'"
    "unat a' = unat (pl_offset p') + unat r' * unat (pl_stride p')"
    using row_range_exact [OF assms(2)] by blast
  have "Suc (unat r) * unat (pl_stride p) \<le> unat r' * unat (pl_stride p)"
    using assms(3) by (intro mult_le_mono1) (simp add: word_less_nat_alt)
  then show ?thesis using p p' by (simp add: word_le_nat_alt)
qed

theorem row_ranges_disjoint_witness:
  "row_range (plane_layout_single 256) 0 0 100 = Some (0, 100) \<and> row_range (plane_layout_single 256) 0 1 100 = Some (256, 356) \<and>
   (100 :: u64) \<le> 256"
proof -
  have r: "row_range (plane_layout_single 256) 0 0 100 = Some (0, 100)"
    "row_range (plane_layout_single 256) 0 1 100 = Some (256, 356)" by code_simp+
  then show ?thesis using row_ranges_disjoint [OF r] by simp
qed

end
