(* ===== verification/WireMeta.thy ===== *)
theory WireMeta
  imports WireBase Meta
begin

text \<open>
  Frame metadata on the wire (\<^verbatim>\<open>wire.rs\<close>, with the \<^verbatim>\<open>metadata\<close> feature): six of the entry types are carried, in a fixed
  order, each behind its tag. The table of class names is not carried, and the ends of a relation travel in 32 bits.
\<close>

definition META_ANALYTICS :: u8 where "META_ANALYTICS = 0"
definition META_BLOB :: u8 where "META_BLOB = 1"
definition META_CAPTION :: u8 where "META_CAPTION = 2"
definition META_HDR_STATIC :: u8 where "META_HDR_STATIC = 3"
definition META_TIMECODE :: u8 where "META_TIMECODE = 4"
definition META_WALL_CLOCK :: u8 where "META_WALL_CLOCK = 5"

lemmas meta_tags = META_ANALYTICS_def META_BLOB_def META_CAPTION_def META_HDR_STATIC_def META_TIMECODE_def META_WALL_CLOCK_def

section \<open>The analytics graph\<close>

definition put_bbox :: "bbox \<Rightarrow> u8 list" where
  "put_bbox b = to_le32 (bb_x b) @ to_le32 (bb_y b) @ to_le32 (bb_w b) @ to_le32 (bb_h b)"

definition get_bbox :: "bbox reader" where
  "get_bbox = rbind get_u32 (\<lambda>x. rbind get_u32 (\<lambda>y. rbind get_u32 (\<lambda>w. rbind get_u32 (\<lambda>h.
     ret \<lparr>bb_x = x, bb_y = y, bb_w = w, bb_h = h\<rparr>))))"

definition put_keypoint :: "keypoint \<Rightarrow> u8 list" where
  "put_keypoint k = to_le32 (kp_x k) @ to_le32 (kp_y k) @ to_le32 (kp_confidence k)"

definition get_keypoint :: "keypoint reader" where
  "get_keypoint = rbind get_u32 (\<lambda>x. rbind get_u32 (\<lambda>y. rbind get_u32 (\<lambda>c.
     ret \<lparr>kp_x = x, kp_y = y, kp_confidence = c\<rparr>)))"

fun put_node :: "analytics_node \<Rightarrow> u8 list" where
  "put_node (Detection d) = 0 # put_bbox (od_bbox d) @ to_le32 (od_label d) @ to_le32 (od_confidence d)"
| "put_node (Classification c) = 1 # to_le32 (cf_label c) @ to_le32 (cf_confidence c)"
| "put_node (Tracking t) = 2 # to_le64 (object_id t)"
| "put_node (Segmentation g) =
     3 # put_bbox (sg_bbox g) @ to_le32 (sg_label g) @ to_le32 (sg_confidence g) @
     to_le32 (pm_width (sg_mask g)) @ to_le32 (pm_height (sg_mask g)) @ to_le32 (pm_stride (sg_mask g)) @
     put_bytes (pm_data (sg_mask g))"
| "put_node (Roi r) = 4 # put_bbox (ro_bbox r) @ to_le32 (ro_id r) @ to_le32 (ro_label r)"
| "put_node (Pose p) =
     5 # put_bbox (ps_bbox p) @ to_le32 (ps_label p) @ to_le32 (ps_confidence p) @ put_list put_keypoint (ps_keypoints p)"
| "put_node (OrientedDetection b) =
     6 # to_le32 (ob_cx b) @ to_le32 (ob_cy b) @ to_le32 (ob_w b) @ to_le32 (ob_h b) @ to_le32 (ob_angle b) @
     to_le32 (ob_label b) @ to_le32 (ob_confidence b)"

definition get_node :: "analytics_node reader" where
  "get_node = rbind get_u8 (\<lambda>t.
     if t = 0 then
       rbind get_bbox (\<lambda>b. rbind get_u32 (\<lambda>label. rbind get_u32 (\<lambda>c.
       ret (Detection \<lparr>od_bbox = b, od_label = label, od_confidence = c\<rparr>))))
     else if t = 1 then
       rbind get_u32 (\<lambda>label. rbind get_u32 (\<lambda>c. ret (Classification \<lparr>cf_label = label, cf_confidence = c\<rparr>)))
     else if t = 2 then rbind get_u64 (\<lambda>n. ret (Tracking \<lparr>object_id = n\<rparr>))
     else if t = 3 then
       rbind get_bbox (\<lambda>b. rbind get_u32 (\<lambda>label. rbind get_u32 (\<lambda>c.
       rbind get_u32 (\<lambda>width. rbind get_u32 (\<lambda>height. rbind get_u32 (\<lambda>stride. rbind get_bytes (\<lambda>bytes.
       rbind (lift_res (ok_or (mask_new width height stride bytes) BadTag)) (\<lambda>m.
       ret (Segmentation \<lparr>sg_bbox = b, sg_label = label, sg_confidence = c, sg_mask = m\<rparr>)))))))))
     else if t = 4 then
       rbind get_bbox (\<lambda>b. rbind get_u32 (\<lambda>n. rbind get_u32 (\<lambda>label.
       ret (Roi \<lparr>ro_bbox = b, ro_id = n, ro_label = label\<rparr>))))
     else if t = 5 then
       rbind get_bbox (\<lambda>b. rbind get_u32 (\<lambda>label. rbind get_u32 (\<lambda>c. rbind (get_list get_keypoint) (\<lambda>ks.
       ret (Pose \<lparr>ps_bbox = b, ps_label = label, ps_confidence = c, ps_keypoints = ks\<rparr>)))))
     else if t = 6 then
       rbind get_u32 (\<lambda>cx. rbind get_u32 (\<lambda>cy. rbind get_u32 (\<lambda>w. rbind get_u32 (\<lambda>h. rbind get_u32 (\<lambda>a.
       rbind get_u32 (\<lambda>label. rbind get_u32 (\<lambda>c.
       ret (OrientedDetection \<lparr>ob_cx = cx, ob_cy = cy, ob_w = w, ob_h = h, ob_angle = a, ob_label = label,
         ob_confidence = c\<rparr>))))))))
     else fail BadTag)"

fun relation_kind_to_u8 :: "relation_kind \<Rightarrow> u8" where
  "relation_kind_to_u8 Classifies = 0"
| "relation_kind_to_u8 Tracks = 1"
| "relation_kind_to_u8 Contains = 2"

definition relation_kind_from_u8 :: "u8 \<Rightarrow> wire_error + relation_kind" where
  "relation_kind_from_u8 v =
     (if v = 0 then Inr Classifies else if v = 1 then Inr Tracks else if v = 2 then Inr Contains else Inl BadTag)"

definition put_relation :: "relation \<Rightarrow> u8 list" where
  "put_relation r = to_le32 (ucast (rl_from r)) @ to_le32 (ucast (rl_to r)) @ [relation_kind_to_u8 (rl_kind r)]"

definition get_relation :: "relation reader" where
  "get_relation = rbind get_u32 (\<lambda>from. rbind get_u32 (\<lambda>to. rbind get_u8 (\<lambda>k.
     rbind (lift_res (relation_kind_from_u8 k)) (\<lambda>kind.
     ret \<lparr>rl_from = ucast from, rl_to = ucast to, rl_kind = kind\<rparr>))))"

section \<open>The other entries\<close>

definition put_blob :: "blob \<Rightarrow> u8 list" where
  "put_blob b = put_bytes (bl_header b) @ put_bytes (bl_payload b)"

definition get_blob :: "blob reader" where
  "get_blob = rbind get_str (\<lambda>h. rbind get_bytes (\<lambda>p. ret \<lparr>bl_header = h, bl_payload = p\<rparr>))"

definition put_triple :: "caption_triple \<Rightarrow> u8 list" where
  "put_triple t = [cc_type t, cc_b0 t, cc_b1 t]"

definition get_triple :: "caption_triple reader" where
  "get_triple = rbind get_u8 (\<lambda>t. rbind get_u8 (\<lambda>a. rbind get_u8 (\<lambda>b. ret \<lparr>cc_type = t, cc_b0 = a, cc_b1 = b\<rparr>)))"

definition put_opt_u16 :: "u16 option \<Rightarrow> u8 list" where
  "put_opt_u16 v = put_bool (v \<noteq> None) @ to_le32 (ucast (case v of Some x \<Rightarrow> x | None \<Rightarrow> 0))"

definition get_opt_u16 :: "u16 option reader" where
  "get_opt_u16 = rbind get_bool (\<lambda>present. rbind get_u32 (\<lambda>v.
     if uint v < 65536 then ret (if present then Some (ucast v) else None) else fail BadTag))"

definition put_chroma :: "chromaticity \<Rightarrow> u8 list" where
  "put_chroma p = to_le32 (ch_x p) @ to_le32 (ch_y p)"

definition get_chroma :: "chromaticity reader" where
  "get_chroma = rbind get_u32 (\<lambda>x. rbind get_u32 (\<lambda>y. ret \<lparr>ch_x = x, ch_y = y\<rparr>))"

definition put_hdr :: "hdr_static_meta \<Rightarrow> u8 list" where
  "put_hdr h =
     (case hdr_mastering h of
        Some m \<Rightarrow> put_bool True @ put_chroma (md_red m) @ put_chroma (md_green m) @ put_chroma (md_blue m) @
          put_chroma (md_white m) @ to_le32 (md_max_luminance m) @ to_le32 (md_min_luminance m)
      | None \<Rightarrow> put_bool False) @
     put_opt_u16 (hdr_max_content h) @ put_opt_u16 (hdr_max_average h)"

definition get_hdr :: "hdr_static_meta reader" where
  "get_hdr =
     rbind get_bool (\<lambda>present.
     rbind (if present then
         rbind get_chroma (\<lambda>r. rbind get_chroma (\<lambda>g. rbind get_chroma (\<lambda>b. rbind get_chroma (\<lambda>w.
         rbind get_u32 (\<lambda>hi. rbind get_u32 (\<lambda>lo.
         ret (Some \<lparr>md_red = r, md_green = g, md_blue = b, md_white = w, md_max_luminance = hi, md_min_luminance = lo\<rparr>)))))))
       else ret None) (\<lambda>mastering.
     rbind get_opt_u16 (\<lambda>content. rbind get_opt_u16 (\<lambda>average.
     ret \<lparr>hdr_mastering = mastering, hdr_max_content = content, hdr_max_average = average\<rparr>))))"

definition put_timecode :: "timecode_meta \<Rightarrow> u8 list" where
  "put_timecode t =
     [tc_hours t, tc_minutes t, tc_seconds t, tc_frames t] @ put_bool (tc_drop_frame t) @
     put_bool (tc_framerate t \<noteq> None) @ to_le32 (case tc_framerate t of Some v \<Rightarrow> v | None \<Rightarrow> 0)"

definition get_timecode :: "timecode_meta reader" where
  "get_timecode =
     rbind get_u8 (\<lambda>h. rbind get_u8 (\<lambda>m. rbind get_u8 (\<lambda>s. rbind get_u8 (\<lambda>f. rbind get_bool (\<lambda>d.
     rbind get_bool (\<lambda>present. rbind get_u32 (\<lambda>v.
     ret \<lparr>tc_hours = h, tc_minutes = m, tc_seconds = s, tc_frames = f, tc_drop_frame = d,
       tc_framerate = (if present then Some v else None)\<rparr>)))))))"

section \<open>The set\<close>

definition CARRIED :: "meta_type list" where
  "CARRIED = [TAnalytics, TBlob, TCaption, THdrStatic, TTimecode, TWallClock]"

fun put_entry :: "'f frame_meta \<Rightarrow> u8 list" where
  "put_entry (AnalyticsMeta a) = META_ANALYTICS # put_list put_node (am_nodes a) @ put_list put_relation (am_relations a)"
| "put_entry (BlobMeta b) = META_BLOB # put_list put_blob b"
| "put_entry (CaptionMeta c) = META_CAPTION # put_list put_triple c"
| "put_entry (HdrStaticMeta h) = META_HDR_STATIC # put_hdr h"
| "put_entry (TimecodeMeta t) = META_TIMECODE # put_timecode t"
| "put_entry (WallClockMeta n) = META_WALL_CLOCK # to_le64 n"
| "put_entry _ = []"

definition carried_entries :: "'f frame_meta_set \<Rightarrow> 'f frame_meta list" where
  "carried_entries ms = List.map_filter (meta_get ms) CARRIED"

definition put_meta :: "'f frame_meta_set \<Rightarrow> u8 list" where
  "put_meta ms = of_nat (length (carried_entries ms)) # concat (map put_entry (carried_entries ms))"

definition get_entry :: "'f frame_meta reader" where
  "get_entry = rbind get_u8 (\<lambda>t.
     if t = META_ANALYTICS then
       rbind (get_list get_node) (\<lambda>nodes. rbind (get_list get_relation) (\<lambda>relations.
       ret (AnalyticsMeta \<lparr>am_nodes = nodes, am_relations = relations, am_class_names = None\<rparr>)))
     else if t = META_BLOB then rbind (get_list get_blob) (\<lambda>b. ret (BlobMeta b))
     else if t = META_CAPTION then rbind (get_list get_triple) (\<lambda>c. ret (CaptionMeta c))
     else if t = META_HDR_STATIC then rbind get_hdr (\<lambda>h. ret (HdrStaticMeta h))
     else if t = META_TIMECODE then rbind get_timecode (\<lambda>c. ret (TimecodeMeta c))
     else if t = META_WALL_CLOCK then rbind get_u64 (\<lambda>n. ret (WallClockMeta n))
     else fail BadTag)"

fun get_entries :: "nat \<Rightarrow> 'f frame_meta_set \<Rightarrow> 'f frame_meta_set reader" where
  "get_entries 0 ms = ret ms"
| "get_entries (Suc n) ms = rbind get_entry (\<lambda>m. get_entries n (meta_attach ms m))"

definition get_meta :: "'f frame_meta_set reader" where
  "get_meta = rbind get_u8 (\<lambda>count. get_entries (unat count) [])"


section \<open>Fields\<close>

lemmas node_readers = get_bbox_def get_keypoint_def get_node_def get_relation_def get_blob_def get_triple_def
  get_opt_u16_def get_chroma_def get_hdr_def get_timecode_def

lemma stable_node_readers [stable_intros]:
  "stable get_bbox" "stable get_keypoint" "stable get_relation" "stable get_blob" "stable get_triple" "stable get_opt_u16"
  "stable get_chroma" "stable get_timecode"
  by (simp_all add: node_readers stable_intros)

lemma read_bbox [wire_reads]: "get_bbox (put_bbox b @ s) = Inr (b, s)"
  by (simp add: get_bbox_def put_bbox_def wire_reads ret_def)

interpretation keypoint_field: wire_codec put_keypoint get_keypoint "\<lambda>_. True" "\<lambda>x. x"
  by (rule wire_codecI) (simp_all add: get_keypoint_def put_keypoint_def wire_reads stable_intros ret_def)

interpretation keypoints_field: wire_codec "put_list put_keypoint" "get_list get_keypoint" "list_ok (\<lambda>_. True)" "map (\<lambda>x. x)"
  by (rule list_codec) (rule keypoint_field.wire_codec_axioms)

lemma stable_node [stable_intros]: "stable get_node"
  by (simp add: get_node_def stable_intros keypoint_field.forward)

definition mask_ok :: "pixel_mask \<Rightarrow> bool" where
  "mask_ok m \<longleftrightarrow> length (pm_data m) < 2 ^ 32 \<and> mask_new (pm_width m) (pm_height m) (pm_stride m) (pm_data m) = Some m"

fun node_ok :: "analytics_node \<Rightarrow> bool" where
  "node_ok (Segmentation g) \<longleftrightarrow> mask_ok (sg_mask g)"
| "node_ok (Pose p) \<longleftrightarrow> length (ps_keypoints p) < 2 ^ 32"
| "node_ok _ \<longleftrightarrow> True"

lemma read_node:
  assumes "node_ok n"
  shows "get_node (put_node n @ s) = Inr (n, s)"
proof (cases n)
  case (Segmentation g)
  then have "length (pm_data (sg_mask g)) < 2 ^ 32"
    "mask_new (pm_width (sg_mask g)) (pm_height (sg_mask g)) (pm_stride (sg_mask g)) (pm_data (sg_mask g)) = Some (sg_mask g)"
    using assms by (simp_all add: mask_ok_def)
  then show ?thesis using Segmentation by (simp add: get_node_def wire_reads ret_def)
next
  case (Pose p)
  then have "list_ok (\<lambda>_. True) (ps_keypoints p)" using assms by (simp add: list_ok_def list_all_iff)
  then have "get_list get_keypoint (put_list put_keypoint (ps_keypoints p) @ t) = Inr (ps_keypoints p, t)" for t
    using keypoints_field.get_put by simp
  then show ?thesis using Pose by (simp add: get_node_def wire_reads ret_def)
qed (simp_all add: get_node_def wire_reads ret_def)

lemma mask_got:
  assumes "mask_new w h st d = Some m" "get_bytes s = Inr (d, t)"
  shows "mask_ok m"
proof -
  have "pm_width m = w \<and> pm_height m = h \<and> pm_stride m = st \<and> pm_data m = d"
    using assms(1) by (auto simp: mask_new_def bind_eq_Some_conv split: if_splits)
  then show ?thesis using assms(1) got_bytes [OF assms(2)] by (simp add: mask_ok_def)
qed

lemma got_node: "get_node s = Inr (n, t) \<Longrightarrow> node_ok n"
  by (auto simp: get_node_def rbind_Inr ok_or_def list_ok_def split: if_splits option.splits
      dest: keypoint_field.get_list_got)
    (erule mask_got, assumption)

interpretation node_field: wire_codec put_node get_node node_ok "\<lambda>x. x"
  by (rule wire_codecI) (auto simp: read_node stable_intros got_node)

definition wire_relation :: "relation \<Rightarrow> relation" where
  "wire_relation r = r\<lparr>rl_from := ucast (ucast (rl_from r) :: u32), rl_to := ucast (ucast (rl_to r) :: u32)\<rparr>"

lemma relation_kind_byte [wire_reads]: "relation_kind_from_u8 (relation_kind_to_u8 k) = Inr k"
  by (cases k) (simp_all add: relation_kind_from_u8_def)

lemma ucast_up_down [simp]: "ucast (ucast (w :: u32) :: u64) = w"
  by (rule bit_word_eqI) (auto simp: bit_simps)

interpretation relation_field: wire_codec put_relation get_relation "\<lambda>_. True" wire_relation
  by (rule wire_codecI)
     (auto simp: get_relation_def put_relation_def wire_relation_def wire_reads stable_intros ret_def rbind_Inr)

definition blob_ok :: "blob \<Rightarrow> bool" where
  "blob_ok b \<longleftrightarrow> length (bl_header b) < 2 ^ 32 \<and> utf8_valid (bl_header b) \<and> length (bl_payload b) < 2 ^ 32"

interpretation blob_field: wire_codec put_blob get_blob blob_ok "\<lambda>x. x"
  by (rule wire_codecI)
     (auto simp: get_blob_def put_blob_def blob_ok_def wire_reads stable_intros ret_def rbind_Inr dest: got_str got_bytes)

interpretation triple_field: wire_codec put_triple get_triple "\<lambda>_. True" "\<lambda>x. x"
  by (rule wire_codecI) (auto simp: get_triple_def put_triple_def wire_reads stable_intros ret_def)

lemma read_opt_u16 [wire_reads]: "get_opt_u16 (put_opt_u16 v @ s) = Inr (v, s)"
proof -
  have "uint (ucast (x :: u16) :: u32) < 65536" for x
    using uint_lt2p [of x] by (simp add: unsigned_ucast_eq take_bit_int_eq_self)
  moreover have "ucast (ucast (x :: u16) :: u32) = x" for x
    by (rule bit_word_eqI) (auto simp: bit_simps)
  ultimately show ?thesis by (cases v) (simp_all add: get_opt_u16_def put_opt_u16_def wire_reads ret_def)
qed

lemma read_chroma [wire_reads]: "get_chroma (put_chroma c @ s) = Inr (c, s)"
  by (simp add: get_chroma_def put_chroma_def wire_reads ret_def)

interpretation hdr_field: wire_codec put_hdr get_hdr "\<lambda>_. True" "\<lambda>x. x"
proof (rule wire_codecI)
  show "get_hdr (put_hdr h @ s) = Inr (h, s)" for h s
    by (cases h; cases "hdr_mastering h") (auto simp: get_hdr_def put_hdr_def wire_reads ret_def)
qed (simp_all add: get_hdr_def stable_intros)

interpretation timecode_field: wire_codec put_timecode get_timecode "\<lambda>_. True" "\<lambda>x. x"
proof (rule wire_codecI)
  show "get_timecode (put_timecode h @ s) = Inr (h, s)" for h s
    by (cases h; cases "tc_framerate h") (auto simp: get_timecode_def put_timecode_def wire_reads ret_def)
qed (simp_all add: stable_intros)


section \<open>Entries and sets\<close>

fun entry_ok :: "'f frame_meta \<Rightarrow> bool" where
  "entry_ok (AnalyticsMeta a) \<longleftrightarrow> list_ok node_ok (am_nodes a) \<and> list_ok (\<lambda>_. True) (am_relations a)"
| "entry_ok (BlobMeta b) \<longleftrightarrow> list_ok blob_ok b"
| "entry_ok (CaptionMeta c) \<longleftrightarrow> list_ok (\<lambda>_. True) c"
| "entry_ok _ \<longleftrightarrow> True"

fun wire_entry :: "'f frame_meta \<Rightarrow> 'f frame_meta" where
  "wire_entry (AnalyticsMeta a) =
     AnalyticsMeta \<lparr>am_nodes = am_nodes a, am_relations = map wire_relation (am_relations a), am_class_names = None\<rparr>"
| "wire_entry m = m"

text \<open>What the receiver finds attached: the entries of the carried types, in the order they are written.\<close>

definition wire_meta :: "'f frame_meta_set \<Rightarrow> 'f frame_meta_set" where
  "wire_meta ms = map wire_entry (carried_entries ms)"

definition meta_ok :: "'f frame_meta_set \<Rightarrow> bool" where
  "meta_ok ms \<longleftrightarrow> list_all entry_ok ms"

lemma read_entry:
  assumes "entry_ok m" "type_of_meta m \<in> set CARRIED"
  shows "get_entry (put_entry m @ s) = Inr (wire_entry m, s)"
  using assms
  by (cases m)
     (auto simp: CARRIED_def get_entry_def meta_tags wire_reads ret_def node_field.get_list_put relation_field.get_list_put
       blob_field.get_list_put triple_field.get_list_put hdr_field.get_put timecode_field.get_put)

lemma stable_entry [stable_intros]: "stable get_entry"
  by (simp add: get_entry_def stable_intros hdr_field.forward timecode_field.forward node_field.forward
      relation_field.forward blob_field.forward triple_field.forward)

lemma got_entry: "get_entry s = Inr (m, t) \<Longrightarrow> entry_ok m \<and> wire_entry m = m \<and> type_of_meta m \<in> set CARRIED"
  by (auto simp: get_entry_def CARRIED_def rbind_Inr split: if_splits
      dest: node_field.get_list_got relation_field.get_list_got blob_field.get_list_got triple_field.get_list_got)

lemma carried_types:
  "distinct (map type_of_meta (carried_entries ms))" "m \<in> set (carried_entries ms) \<Longrightarrow> m \<in> set ms \<and> type_of_meta m \<in> set CARRIED"
proof -
  have t: "meta_get ms k = Some m \<Longrightarrow> m \<in> set ms \<and> type_of_meta m = k" for k m
    by (auto simp: meta_get_def find_Some_iff)
  have "map type_of_meta (List.map_filter (meta_get ms) ks) = filter (\<lambda>k. meta_get ms k \<noteq> None) ks" for ks
    by (induction ks) (auto simp: map_filter_def dest: t)
  moreover have "distinct CARRIED" by (simp add: CARRIED_def)
  ultimately show "distinct (map type_of_meta (carried_entries ms))"
    unfolding carried_entries_def by simp
  show "m \<in> set (carried_entries ms) \<Longrightarrow> m \<in> set ms \<and> type_of_meta m \<in> set CARRIED"
    by (auto simp: carried_entries_def map_filter_def dest: t)
qed

lemma type_of_wire_entry [simp]: "type_of_meta (wire_entry m) = type_of_meta m"
  by (cases m) simp_all

lemma attach_new: "type_of_meta m \<notin> type_of_meta ` set ms \<Longrightarrow> meta_attach ms m = ms @ [m]"
  by (simp add: meta_attach_def meta_position_None [symmetric])

lemma get_entries_put:
  assumes "list_all entry_ok es" "list_all (\<lambda>m. type_of_meta m \<in> set CARRIED) es" "distinct (map type_of_meta (ms @ es))"
  shows "get_entries (length es) ms (concat (map put_entry es) @ s) = Inr (ms @ map wire_entry es, s)"
  using assms
proof (induction es arbitrary: ms)
  case (Cons e es)
  have "type_of_meta e \<notin> type_of_meta ` set ms" using Cons.prems by auto
  then have "meta_attach ms (wire_entry e) = ms @ [wire_entry e]" by (simp add: attach_new)
  then show ?case using Cons by (simp add: rbind_def read_entry)
qed (simp add: ret_def)

lemma carried_few: "length (carried_entries ms) \<le> 6"
proof -
  have "length (List.map_filter f xs) \<le> length xs" for f :: "meta_type \<Rightarrow> 'f frame_meta option" and xs
    by (simp add: map_filter_def)
  from this [of "meta_get ms" CARRIED] show ?thesis by (simp add: carried_entries_def CARRIED_def)
qed

lemma got_entries:
  assumes "get_entries n ms s = Inr (ms', t)" "meta_ok ms" "meta_set_wf ms"
  shows "meta_ok ms' \<and> meta_set_wf ms'"
  using assms
proof (induction n arbitrary: ms s)
  case (Suc n)
  then obtain m s' where m: "get_entry s = Inr (m, s')" "get_entries n (meta_attach ms m) s' = Inr (ms', t)"
    by (auto simp: rbind_Inr)
  have "set (meta_attach ms m) \<subseteq> insert m (set ms)"
    by (auto simp: meta_attach_def split: option.splits dest: set_update_subset_insert [THEN subsetD])
  then have "meta_ok (meta_attach ms m)"
    using got_entry [OF m(1)] Suc.prems(2) by (auto simp: meta_ok_def list_all_iff)
  moreover have "meta_set_wf (meta_attach ms m)" using Suc.prems(3) by (simp add: meta_set_wf_def attach_types)
  ultimately show ?case using Suc.IH [OF m(2)] by blast
qed simp

lemma stable_entries [stable_intros]: "stable (get_entries n ms)"
  by (induction n arbitrary: ms) (auto intro: stable_intros)

interpretation meta_field: wire_field put_meta get_meta meta_ok wire_meta
proof
  show "get_meta (put_meta ms @ s) = Inr (wire_meta ms, s)" if "meta_ok ms" for ms :: "'f frame_meta_set" and s
  proof -
    have "unat (of_nat (length (carried_entries ms)) :: u8) = length (carried_entries ms)"
      using carried_few [of ms] by (simp add: unat_of_nat take_bit_nat_eq_self)
    moreover have "list_all entry_ok (carried_entries ms)" "list_all (\<lambda>m. type_of_meta m \<in> set CARRIED) (carried_entries ms)"
      using that carried_types(2) by (auto simp: meta_ok_def list_all_iff)
    ultimately show ?thesis
      using get_entries_put [of "carried_entries ms" "[]" s] carried_types(1) [of ms]
      by (simp add: get_meta_def put_meta_def wire_meta_def wire_reads)
  qed
  show "stable (get_meta :: 'f frame_meta_set reader)" by (simp add: get_meta_def stable_intros)
  show "get_meta s = Inr (ms, t) \<Longrightarrow> meta_ok ms" for s t and ms :: "'f frame_meta_set"
    by (auto simp: get_meta_def rbind_Inr meta_ok_def meta_set_wf_def dest!: got_entries)
qed

end
