(* ===== verification/Wire.thy ===== *)
theory Wire
  imports WireCaps WireMeta
begin

text \<open>
  Packets on the wire and in recordings (\<^verbatim>\<open>wire.rs\<close>): \<^verbatim>\<open>encode_packet\<close>, \<^verbatim>\<open>decode_packet\<close>, and the framing of packets
  in a recording. Encoding a strided view copies it out of its backing, which panics (\<open>None\<close>) when the view reaches
  outside. Floats are their bit patterns.
\<close>

definition WIRE_VERSION :: u8 where "WIRE_VERSION = 3"

definition PKT_CAPS_CHANGED :: u8 where "PKT_CAPS_CHANGED = 0"
definition PKT_DATA_FRAME :: u8 where "PKT_DATA_FRAME = 1"
definition PKT_EOS :: u8 where "PKT_EOS = 2"
definition PKT_FLUSH :: u8 where "PKT_FLUSH = 3"
definition PKT_SEGMENT :: u8 where "PKT_SEGMENT = 4"
definition PKT_OVERWRITE :: u8 where "PKT_OVERWRITE = 5"
definition PKT_SPLICE_INFO :: u8 where "PKT_SPLICE_INFO = 6"
definition DOMAIN_SYSTEM :: u8 where "DOMAIN_SYSTEM = 0"

lemmas packet_tags = PKT_CAPS_CHANGED_def PKT_DATA_FRAME_def PKT_EOS_def PKT_FLUSH_def PKT_SEGMENT_def PKT_OVERWRITE_def
  PKT_SPLICE_INFO_def

section \<open>Timing and segments\<close>

definition put_timing :: "frame_timing \<Rightarrow> u8 list" where
  "put_timing t = to_le64 (pts_ns t) @ to_le64 (dts_ns t) @ to_le64 (duration_ns t) @ to_le64 (capture_ns t) @
     to_le64 (arrival_ns t) @ put_bool (keyframe t)"

definition get_timing :: "frame_timing reader" where
  "get_timing = rbind get_u64 (\<lambda>p. rbind get_u64 (\<lambda>d. rbind get_u64 (\<lambda>u. rbind get_u64 (\<lambda>c. rbind get_u64 (\<lambda>a.
     rbind get_bool (\<lambda>k.
     ret \<lparr>pts_ns = p, dts_ns = d, duration_ns = u, capture_ns = c, arrival_ns = a, keyframe = k\<rparr>))))))"

record segment =
  sgm_rate :: f64
  sgm_applied_rate :: f64
  sgm_base :: u64
  sgm_start :: u64
  sgm_stop :: "u64 option"
  sgm_time :: "64 word"
  sgm_position :: u64
  sgm_key_units_only :: bool

definition put_segment :: "segment \<Rightarrow> u8 list" where
  "put_segment g =
     to_le64 (sgm_rate g) @ to_le64 (sgm_applied_rate g) @ to_le64 (sgm_base g) @ to_le64 (sgm_start g) @
     (case sgm_stop g of Some v \<Rightarrow> put_bool True @ to_le64 v | None \<Rightarrow> put_bool False) @
     to_le64 (sgm_time g) @ to_le64 (sgm_position g) @ put_bool (sgm_key_units_only g)"

definition get_segment :: "segment reader" where
  "get_segment =
     rbind get_u64 (\<lambda>rate. rbind get_u64 (\<lambda>applied. rbind get_u64 (\<lambda>base. rbind get_u64 (\<lambda>start.
     rbind get_bool (\<lambda>present. rbind (if present then rbind get_u64 (\<lambda>v. ret (Some v)) else ret None) (\<lambda>stop.
     rbind get_u64 (\<lambda>time. rbind get_u64 (\<lambda>position. rbind get_bool (\<lambda>key.
     ret \<lparr>sgm_rate = rate, sgm_applied_rate = applied, sgm_base = base, sgm_start = start, sgm_stop = stop,
       sgm_time = time, sgm_position = position, sgm_key_units_only = key\<rparr>)))))))))"

section \<open>Frames\<close>

type_synonym 'f meta_frame = "'f frame_meta frame"
type_synonym 'f meta_packet = "('f frame_meta, segment) pipeline_packet"

fun put_domain :: "memory_domain \<Rightarrow> (wire_error + u8 list) option" where
  "put_domain (System b) = Some (Inr (DOMAIN_SYSTEM # put_bytes b))"
| "put_domain (SystemView backing v) =
     map_option Inr (materialize_into v backing (DOMAIN_SYSTEM # to_le32 (of_nat (materialized_len v))))"
| "put_domain (Device _ _) = Some (Inl WireUnsupportedDomain)"

definition get_domain :: "memory_domain reader" where
  "get_domain = rbind get_u8 (\<lambda>t. if t = DOMAIN_SYSTEM then rbind get_bytes (\<lambda>b. ret (System b)) else fail BadTag)"

definition put_frame :: "'f meta_frame \<Rightarrow> (wire_error + u8 list) option" where
  "put_frame f =
     map_option (\<lambda>d. bind_res d (\<lambda>d.
       Inr (put_timing (f_timing f) @ to_le64 (f_sequence f) @ d @ put_meta (f_meta f)))) (put_domain (f_domain f))"

definition get_frame :: "'f meta_frame reader" where
  "get_frame = rbind get_timing (\<lambda>t. rbind get_u64 (\<lambda>n. rbind get_domain (\<lambda>d. rbind get_meta (\<lambda>m.
     ret \<lparr>f_domain = d, f_timing = t, f_sequence = n, f_meta = m\<rparr>))))"

section \<open>Packets\<close>

definition framed :: "u8 list \<Rightarrow> (wire_error + u8 list) option \<Rightarrow> (wire_error + u8 list) option" where
  "framed head body = map_option (\<lambda>r. bind_res r (\<lambda>b. Inr (WIRE_VERSION # head @ b))) body"

fun encode_packet :: "'f meta_packet \<Rightarrow> (wire_error + u8 list) option" where
  "encode_packet (CapsChanged c) = framed [PKT_CAPS_CHANGED] (Some (Inr (put_caps c)))"
| "encode_packet (DataFrame f) = framed [PKT_DATA_FRAME] (put_frame f)"
| "encode_packet (Overwrite offset f) = framed (PKT_OVERWRITE # to_le64 offset) (put_frame f)"
| "encode_packet (SpliceInfo f) = framed [PKT_SPLICE_INFO] (put_frame f)"
| "encode_packet Eos = framed [PKT_EOS] (Some (Inr []))"
| "encode_packet Flush = framed [PKT_FLUSH] (Some (Inr []))"
| "encode_packet (Segment g) = framed [PKT_SEGMENT] (Some (Inr (put_segment g)))"
| "encode_packet Tick = Some (Inl BadTag)"

definition get_packet :: "'f meta_packet reader" where
  "get_packet = rbind get_u8 (\<lambda>v.
     if v \<noteq> WIRE_VERSION then fail BadTag
     else rbind get_u8 (\<lambda>t.
       if t = PKT_CAPS_CHANGED then rbind get_caps (\<lambda>c. ret (CapsChanged c))
       else if t = PKT_DATA_FRAME then rbind get_frame (\<lambda>f. ret (DataFrame f))
       else if t = PKT_OVERWRITE then rbind get_u64 (\<lambda>n. rbind get_frame (\<lambda>f. ret (Overwrite n f)))
       else if t = PKT_SPLICE_INFO then rbind get_frame (\<lambda>f. ret (SpliceInfo f))
       else if t = PKT_EOS then ret Eos
       else if t = PKT_FLUSH then ret Flush
       else if t = PKT_SEGMENT then rbind get_segment (\<lambda>g. ret (Segment g))
       else fail BadTag))"

text \<open>Bytes after the packet are ignored.\<close>

definition decode_packet :: "u8 list \<Rightarrow> wire_error + 'f meta_packet" where
  "decode_packet bytes = (case get_packet bytes of Inl e \<Rightarrow> Inl e | Inr (p, _) \<Rightarrow> Inr p)"

section \<open>Recordings\<close>

definition RECORD_LENGTH_PREFIX_BYTES :: nat where "RECORD_LENGTH_PREFIX_BYTES = 4"

definition record_length_prefix :: "nat \<Rightarrow> wire_error + u8 list" where
  "record_length_prefix n = (if n < 2 ^ 32 then Inr (to_le32 (of_nat n)) else Inl WireUnsupportedDomain)"

text \<open>The loop, on the part of the buffer from the index on.\<close>

function read_records :: "u8 list \<Rightarrow> wire_error + 'f meta_packet list" where
  "read_records buf =
     (if RECORD_LENGTH_PREFIX_BYTES \<le> length buf then
        let n = unat (le32 (take RECORD_LENGTH_PREFIX_BYTES buf)); rest = drop RECORD_LENGTH_PREFIX_BYTES buf in
        if n \<le> length rest then
          bind_res (decode_packet (take n rest)) (\<lambda>p. bind_res (read_records (drop n rest)) (\<lambda>ps. Inr (p # ps)))
        else Inr []
      else Inr [])"
  by pat_completeness auto
termination
  by (relation "measure length") (auto simp: RECORD_LENGTH_PREFIX_BYTES_def)

declare read_records.simps [simp del]


section \<open>What arrives\<close>

lemma copy_runs_append: "copy_runs n run axes backing idx src out = map_option ((@) out) (copy_runs n run axes backing idx src [])"
proof (induction n arbitrary: idx src out)
  case (Suc n)
  show ?case
  proof (cases "bytes_at backing src run")
    case (Some b)
    obtain idx' src' where a: "advance axes idx src = (idx', src')" by (cases "advance axes idx src")
    show ?thesis
      using Suc [of idx' src' "out @ b"] Suc [of idx' src' b] Some a by (simp add: option.map_comp o_def)
  qed simp
qed simp

lemma materialize_into_append: "materialize_into v backing out = map_option ((@) out) (materialize v backing)"
  unfolding materialize_def materialize_into_def case_prod_unfold Let_def by (simp add: copy_runs_append [where out = out])

text \<open>A payload the wire can carry, and the bytes the receiver gets.\<close>

fun wire_payload :: "memory_domain \<Rightarrow> u8 list option" where
  "wire_payload (System b) = Some b"
| "wire_payload (SystemView backing v) = materialize v backing"
| "wire_payload (Device _ _) = None"

definition domain_ok :: "memory_domain \<Rightarrow> bool" where
  "domain_ok d \<longleftrightarrow>
     (case wire_payload d of Some b \<Rightarrow> length b < 2 ^ 32 | None \<Rightarrow> False) \<and>
     (case d of SystemView _ v \<Rightarrow> length (tv_strides v) = tv_rank v | _ \<Rightarrow> True)"

definition frame_ok :: "'f meta_frame \<Rightarrow> bool" where
  "frame_ok f \<longleftrightarrow> domain_ok (f_domain f) \<and> meta_ok (f_meta f)"

definition wire_frame :: "'f meta_frame \<Rightarrow> 'f meta_frame" where
  "wire_frame f = f\<lparr>f_domain := System (the (wire_payload (f_domain f))), f_meta := wire_meta (f_meta f)\<rparr>"

fun packet_ok :: "'f meta_packet \<Rightarrow> bool" where
  "packet_ok (CapsChanged c) \<longleftrightarrow> caps_ok c"
| "packet_ok (DataFrame f) \<longleftrightarrow> frame_ok f"
| "packet_ok (Overwrite _ f) \<longleftrightarrow> frame_ok f"
| "packet_ok (SpliceInfo f) \<longleftrightarrow> frame_ok f"
| "packet_ok Tick \<longleftrightarrow> False"
| "packet_ok _ \<longleftrightarrow> True"

fun wire_packet :: "'f meta_packet \<Rightarrow> 'f meta_packet" where
  "wire_packet (CapsChanged c) = CapsChanged (wire_caps c)"
| "wire_packet (DataFrame f) = DataFrame (wire_frame f)"
| "wire_packet (Overwrite n f) = Overwrite n (wire_frame f)"
| "wire_packet (SpliceInfo f) = SpliceInfo (wire_frame f)"
| "wire_packet p = p"

section \<open>Fields\<close>

interpretation timing_field: wire_codec put_timing get_timing "\<lambda>_. True" "\<lambda>x. x"
  by (rule wire_codecI) (simp_all add: get_timing_def put_timing_def wire_reads stable_intros ret_def)

interpretation segment_field: wire_codec put_segment get_segment "\<lambda>_. True" "\<lambda>x. x"
proof (rule wire_codecI)
  show "get_segment (put_segment g @ s) = Inr (g, s)" for g s
    by (cases g; cases "sgm_stop g") (auto simp: get_segment_def put_segment_def wire_reads ret_def)
qed (simp_all add: get_segment_def stable_intros)

lemma put_domain_payload:
  assumes "domain_ok d"
  obtains b where "wire_payload d = Some b" "length b < 2 ^ 32" "put_domain d = Some (Inr (DOMAIN_SYSTEM # put_bytes b))"
proof (cases d)
  case (SystemView backing v)
  then obtain b where b: "materialize v backing = Some b" "length b < 2 ^ 32" "length (tv_strides v) = tv_rank v"
    using assms by (auto simp: domain_ok_def split: option.splits)
  then have "length b = materialized_len v"
    using materialize_reference [OF b(3)] reference_length by metis
  then show ?thesis using that [of b] b SystemView by (simp add: materialize_into_append put_bytes_def)
qed (use assms that in \<open>auto simp: domain_ok_def\<close>)

definition frame_encoding :: "'f meta_frame \<Rightarrow> u8 list" where
  "frame_encoding f = (case put_frame f of Some (Inr b) \<Rightarrow> b | _ \<Rightarrow> [])"

lemma put_frame_ok:
  assumes "frame_ok f"
  shows "put_frame f = Some (Inr (frame_encoding f))"
    "frame_encoding f = put_timing (f_timing f) @ to_le64 (f_sequence f) @
       (DOMAIN_SYSTEM # put_bytes (the (wire_payload (f_domain f)))) @ put_meta (f_meta f)"
    "length (the (wire_payload (f_domain f))) < 2 ^ 32"
proof -
  obtain b where "wire_payload (f_domain f) = Some b" "length b < 2 ^ 32"
    "put_domain (f_domain f) = Some (Inr (DOMAIN_SYSTEM # put_bytes b))"
    using assms put_domain_payload by (auto simp: frame_ok_def)
  then show "put_frame f = Some (Inr (frame_encoding f))"
    "frame_encoding f = put_timing (f_timing f) @ to_le64 (f_sequence f) @
       (DOMAIN_SYSTEM # put_bytes (the (wire_payload (f_domain f)))) @ put_meta (f_meta f)"
    "length (the (wire_payload (f_domain f))) < 2 ^ 32"
    by (simp_all add: frame_encoding_def put_frame_def)
qed

lemma stable_frame [stable_intros]: "stable get_frame"
  by (simp add: get_frame_def get_domain_def stable_intros timing_field.forward meta_field.forward)

interpretation frame_field: wire_field frame_encoding get_frame frame_ok wire_frame
proof
  show "get_frame (frame_encoding f @ s) = Inr (wire_frame f, s)" if "frame_ok f" for f :: "'f meta_frame" and s
    using that put_frame_ok [OF that]
    by (simp add: get_frame_def get_domain_def wire_reads timing_field.get_put meta_field.get_put frame_ok_def wire_frame_def
        ret_def)
  show "stable (get_frame :: 'f meta_frame reader)" by (simp add: stable_intros)
  show "get_frame s = Inr (f, t) \<Longrightarrow> frame_ok f" for s t and f :: "'f meta_frame"
    by (auto simp: get_frame_def get_domain_def rbind_Inr frame_ok_def domain_ok_def split: if_splits
        dest: got_bytes meta_field.got_ok)
qed

definition packet_bytes_of :: "'f meta_packet \<Rightarrow> u8 list" where
  "packet_bytes_of p = (case encode_packet p of Some (Inr b) \<Rightarrow> b | _ \<Rightarrow> [])"

lemma encode_ok: "packet_ok p \<Longrightarrow> encode_packet p = Some (Inr (packet_bytes_of p))"
  by (cases p) (auto simp: packet_bytes_of_def framed_def put_frame_ok)

interpretation packet_field: wire_field packet_bytes_of get_packet packet_ok wire_packet
proof
  show "get_packet (packet_bytes_of p @ s) = Inr (wire_packet p, s)" if "packet_ok p" for p :: "'f meta_packet" and s
    using that
    by (cases p)
       (auto simp: packet_bytes_of_def framed_def put_frame_ok(1) get_packet_def packet_tags wire_reads ret_def
         frame_field.get_put caps_field.get_put segment_field.get_put)
  show "stable (get_packet :: 'f meta_packet reader)"
    by (simp add: get_packet_def stable_intros caps_field.forward segment_field.forward)
  show "get_packet s = Inr (p, t) \<Longrightarrow> packet_ok p" for s t and p :: "'f meta_packet"
    by (auto simp: get_packet_def rbind_Inr split: if_splits dest: caps_field.got_ok frame_field.got_ok)
qed


section \<open>The codec\<close>

text \<open>C14. The far side reconstructs the packet: what was encoded is decoded, whatever bytes follow it, to the packet the
  wire carries (views arrive as dense bytes, the alignment of a compressed stream and the class names do not
  arrive, metadata arrives by type), and cut short anywhere it is reported as truncated, never as another
  packet.\<close>

theorem wire_roundtrip:
  assumes "packet_ok (p :: 'f meta_packet)"
  shows "\<exists>bytes. encode_packet p = Some (Inr bytes) \<and> decode_packet (bytes @ rest) = Inr (wire_packet p) \<and>
    (\<forall>n < length bytes. decode_packet (take n bytes) = (Inl Truncated :: wire_error + 'f meta_packet))"
  using encode_ok [OF assms] packet_field.get_put [OF assms, of rest] packet_field.cut_short [OF assms]
  by (auto simp: decode_packet_def)

definition demo_packet :: "nat meta_packet" where
  "demo_packet = DataFrame \<lparr>f_domain = System [1, 2, 3], f_timing = timing_default, f_sequence = 9, f_meta = [WallClockMeta 5]\<rparr>"

theorem wire_roundtrip_witness:
  "decode_packet (packet_bytes_of demo_packet) = Inr demo_packet"
proof -
  have ok: "packet_ok demo_packet"
    by (simp add: demo_packet_def frame_ok_def domain_ok_def meta_ok_def)
  have "wire_meta [WallClockMeta 5 :: nat frame_meta] = [WallClockMeta 5]" by code_simp
  then have "wire_packet demo_packet = demo_packet" by (simp add: demo_packet_def wire_frame_def)
  then show ?thesis using wire_roundtrip [OF ok, of "[]"] by (auto simp: packet_bytes_of_def)
qed

text \<open>C15. Whatever bytes a peer sends, a packet that is accepted is well-formed: channel masks name known positions, tensor
  shapes have a rank the code can hold, batches are not nested, masks fit their bytes, blob names are valid text,
  the payload is plain memory, no internal tick is let in; so it can be sent on, and arrives.\<close>

theorem decoded_packets_are_valid:
  assumes "decode_packet bytes = Inr (p :: 'f meta_packet)"
  shows "packet_ok p \<and> (\<exists>again. encode_packet p = Some (Inr again) \<and> decode_packet again = Inr (wire_packet p))"
proof -
  obtain t where "get_packet bytes = Inr (p, t)"
    using assms by (auto simp: decode_packet_def split: sum.splits)
  then have ok: "packet_ok p" by (rule packet_field.got_ok)
  have "decode_packet (packet_bytes_of p) = Inr (wire_packet p)"
    using packet_field.get_put [OF ok, of "[]"] by (simp add: decode_packet_def)
  then show ?thesis using ok encode_ok [OF ok] by blast
qed

theorem decoded_packets_are_valid_witness:
  "decode_packet [3, 0, 5, 6] = Inr (CapsChanged (Text Teletext) :: nat meta_packet) \<and>
   packet_ok (CapsChanged (Text Teletext) :: nat meta_packet)"
proof -
  have d: "decode_packet [3, 0, 5, 6] = Inr (CapsChanged (Text Teletext) :: nat meta_packet)" by code_simp
  then show ?thesis using decoded_packets_are_valid [OF d] by blast
qed

text \<open>What cannot cross is refused: a frame in device memory (in any of the three packets that carry one) and the
  runner's internal tick do not encode, and a message of another version or with an unknown packet tag does not
  decode.\<close>

theorem wire_refuses:
  "(case packet of
      Tick \<Rightarrow> encode_packet packet = Some (Inl BadTag)
    | DataFrame f \<Rightarrow> (case f_domain f of Device _ _ \<Rightarrow> encode_packet packet = Some (Inl WireUnsupportedDomain) | _ \<Rightarrow> True)
    | Overwrite _ f \<Rightarrow> (case f_domain f of Device _ _ \<Rightarrow> encode_packet packet = Some (Inl WireUnsupportedDomain) | _ \<Rightarrow> True)
    | SpliceInfo f \<Rightarrow> (case f_domain f of Device _ _ \<Rightarrow> encode_packet packet = Some (Inl WireUnsupportedDomain) | _ \<Rightarrow> True)
    | _ \<Rightarrow> True) \<and>
   (if v = WIRE_VERSION \<and> t \<le> 6 then True
    else decode_packet (v # t # body) = (Inl BadTag :: wire_error + 'f meta_packet))"
proof
  show "case packet of
      Tick \<Rightarrow> encode_packet packet = Some (Inl BadTag)
    | DataFrame f \<Rightarrow> (case f_domain f of Device _ _ \<Rightarrow> encode_packet packet = Some (Inl WireUnsupportedDomain) | _ \<Rightarrow> True)
    | Overwrite _ f \<Rightarrow> (case f_domain f of Device _ _ \<Rightarrow> encode_packet packet = Some (Inl WireUnsupportedDomain) | _ \<Rightarrow> True)
    | SpliceInfo f \<Rightarrow> (case f_domain f of Device _ _ \<Rightarrow> encode_packet packet = Some (Inl WireUnsupportedDomain) | _ \<Rightarrow> True)
    | _ \<Rightarrow> True"
    by (simp add: framed_def put_frame_def split: pipeline_packet.split memory_domain.split)
  have "t = k \<Longrightarrow> t \<le> 6" if "k \<in> {0, 1, 2, 3, 4, 5, 6 :: u8}" for k
    using that by auto
  then show "if v = WIRE_VERSION \<and> t \<le> 6 then True
    else decode_packet (v # t # body) = (Inl BadTag :: wire_error + 'f meta_packet)"
    by (auto simp: decode_packet_def get_packet_def wire_reads packet_tags fail_def)
qed

section \<open>Recordings\<close>

definition record_of :: "'f meta_packet \<Rightarrow> u8 list" where
  "record_of p = (let b = packet_bytes_of p in to_le32 (of_nat (length b)) @ b)"

lemma read_record:
  assumes "packet_ok p" "length (packet_bytes_of p) < 2 ^ 32"
  shows "read_records (record_of p @ rest) =
    bind_res (read_records rest) (\<lambda>ps. Inr (wire_packet p # ps :: 'f meta_packet list))"
proof -
  have "decode_packet (packet_bytes_of p) = Inr (wire_packet p)"
    using packet_field.get_put [OF assms(1), of "[]"] by (simp add: decode_packet_def)
  then show ?thesis
    using assms(2)
    by (subst read_records.simps)
       (simp add: record_of_def Let_def RECORD_LENGTH_PREFIX_BYTES_def unat_of_nat take_bit_nat_eq_self)
qed

lemma read_cut_record:
  assumes "packet_ok p" "length (packet_bytes_of p) < 2 ^ 32" "n < length (record_of p)"
  shows "read_records (take n (record_of p)) = (Inr [] :: wire_error + 'f meta_packet list)"
proof (cases "4 \<le> n")
  case True
  have "take 4 (take n (record_of p)) = to_le32 (of_nat (length (packet_bytes_of p)))"
    using True assms(3) by (simp add: record_of_def Let_def min_def take_append)
  then show ?thesis
    using assms True unfolding read_records.simps [of "take n (record_of p)"] RECORD_LENGTH_PREFIX_BYTES_def Let_def
    by (simp add: unat_of_nat take_bit_nat_eq_self record_of_def Let_def)
next
  case False
  then show ?thesis
    unfolding read_records.simps [of "take n (record_of p)"] RECORD_LENGTH_PREFIX_BYTES_def by simp
qed

text \<open>A recording plays back: written records come back in order, each as the wire carries it, and a last record
  cut short by a crash is dropped without losing the ones before it.\<close>

theorem recording_roundtrip:
  assumes "list_all (\<lambda>p. packet_ok p \<and> is_ok (record_length_prefix (length (packet_bytes_of p)))) (ps @ [broken])"
    and "n < length (record_of broken)"
  shows "read_records (concat (map record_of ps) @ take n (record_of broken)) = (Inr (map wire_packet ps) :: wire_error + 'f meta_packet list)"
  using assms
proof (induction ps)
  case Nil
  then show ?case using read_cut_record by (auto simp: record_length_prefix_def is_ok_def split: if_splits)
next
  case (Cons p ps)
  then have "packet_ok p" "length (packet_bytes_of p) < 2 ^ 32"
    by (auto simp: record_length_prefix_def is_ok_def split: if_splits)
  from read_record [OF this] show ?case using Cons by simp
qed

theorem recording_roundtrip_witness:
  "read_records (record_of Flush @ take 3 (record_of Eos)) = (Inr [Flush] :: wire_error + nat meta_packet list)"
  using recording_roundtrip [of "[Flush]" "Eos :: nat meta_packet" 3]
  by (simp add: record_length_prefix_def packet_bytes_of_def framed_def is_ok_def record_of_def)

text \<open>What is lost although the reconstructed packet is described as identical: the alignment of a compressed stream, and
  the names of an analytics graph's classes.\<close>

lemma wire_drops_alignment:
  "decode_packet (packet_bytes_of (CapsChanged (CompressedVideo H264 DimAny DimAny RateAny CL_UNKNOWN AccessUnit))) =
     (Inr (CapsChanged (CompressedVideo H264 DimAny DimAny RateAny CL_UNKNOWN AlignUnspecified)) :: wire_error + nat meta_packet)"
  by code_simp

end
