(* ===== verification/MetaDemand.thy ===== *)
theory MetaDemand
  imports Meta
begin

text \<open>
  The metadata a consumer asks its producers for (\<^verbatim>\<open>MetaRequests\<close> of \<^verbatim>\<open>meta.rs\<close>): a set of at most four types, each
  with the policy under which it is wanted, kept sorted in a fixed array so that equal demands are equal values,
  and the two ways demands combine on their way to the producer: between the branches of a tee, and through an
  element. A type is its identifier, of which the code uses only the order.
\<close>

definition MAX_META_REQUESTS :: nat where "MAX_META_REQUESTS = 4"

datatype request_policy = AnyConsumer | EveryConsumer

instantiation request_policy :: linorder
begin

definition less_eq_request_policy :: "request_policy \<Rightarrow> request_policy \<Rightarrow> bool" where
  "p \<le> q \<longleftrightarrow> p = AnyConsumer \<or> q = EveryConsumer"

definition less_request_policy :: "request_policy \<Rightarrow> request_policy \<Rightarrow> bool" where
  "p < q \<longleftrightarrow> p = AnyConsumer \<and> q = EveryConsumer"

instance
proof
  fix p q r :: request_policy
  show "p < q \<longleftrightarrow> p \<le> q \<and> \<not> q \<le> p" "p \<le> p" "p \<le> q \<or> q \<le> p"
    by (cases p; cases q; simp add: less_eq_request_policy_def less_request_policy_def)+
  show "p \<le> q \<Longrightarrow> q \<le> r \<Longrightarrow> p \<le> r" "p \<le> q \<Longrightarrow> q \<le> p \<Longrightarrow> p = q"
    by (cases p; cases q; cases r; simp add: less_eq_request_policy_def)+
qed

end

type_synonym request = "nat \<times> request_policy"
type_synonym meta_requests = "request option list"

definition mr_new :: meta_requests where
  "mr_new = replicate MAX_META_REQUESTS None"

definition mr_iter :: "meta_requests \<Rightarrow> request list" where
  "mr_iter es = map the (filter (\<lambda>e. e \<noteq> None) es)"

definition mr_policy_of :: "meta_requests \<Rightarrow> nat \<Rightarrow> request_policy option" where
  "mr_policy_of es k = map_option snd (List.find (\<lambda>r. fst r = k) (mr_iter es))"

definition mr_len :: "meta_requests \<Rightarrow> nat" where
  "mr_len es = length (mr_iter es)"

text \<open>The loop of \<^verbatim>\<open>with\<close>: it stops at the entry of the same type, at the first free slot, or at the end.\<close>

datatype slot_search = Held nat request_policy | FreeSlot nat | NoSlot

fun mr_search :: "meta_requests \<Rightarrow> nat \<Rightarrow> nat \<Rightarrow> slot_search" where
  "mr_search [] k i = NoSlot"
| "mr_search (None # es) k i = FreeSlot i"
| "mr_search (Some (present, held) # es) k i = (if present = k then Held i held else mr_search es k (Suc i))"

text \<open>\<^verbatim>\<open>with\<close>. The slots up to the filled one are occupied, and they are sorted by type, then by policy.\<close>

definition mr_with :: "meta_requests \<Rightarrow> nat \<Rightarrow> request_policy \<Rightarrow> meta_requests" where
  "mr_with es k policy =
     (case mr_search es k 0 of
        Held i held \<Rightarrow> es[i := Some (k, max held policy)]
      | NoSlot \<Rightarrow> es
      | FreeSlot free \<Rightarrow>
          (let es' = es[free := Some (k, policy)] in
           map Some (sort (map the (take (Suc free) es'))) @ drop (Suc free) es'))"

definition mr_request :: "meta_requests \<Rightarrow> nat \<Rightarrow> meta_requests" where
  "mr_request es k = mr_with es k AnyConsumer"

definition mr_request_from_every :: "meta_requests \<Rightarrow> nat \<Rightarrow> meta_requests" where
  "mr_request_from_every es k = mr_with es k EveryConsumer"

definition mr_wants :: "meta_requests \<Rightarrow> nat \<Rightarrow> bool" where
  "mr_wants es k \<longleftrightarrow> mr_policy_of es k \<noteq> None"

definition join_branches :: "meta_requests \<Rightarrow> meta_requests \<Rightarrow> meta_requests" where
  "join_branches a b =
     foldl (\<lambda>out (k, policy).
        if policy = AnyConsumer \<or> (mr_policy_of a k \<noteq> None \<and> mr_policy_of b k \<noteq> None) then mr_with out k policy
        else out) mr_new (mr_iter a @ mr_iter b)"

definition carry_upstream :: "meta_requests \<Rightarrow> meta_requests \<Rightarrow> meta_requests" where
  "carry_upstream own downstream =
     foldl (\<lambda>out (k, policy).
        if policy = AnyConsumer \<or> mr_policy_of own k \<noteq> None then mr_with out k policy else out)
       own (mr_iter downstream)"

section \<open>The array as a sorted list\<close>

definition packed :: "request list \<Rightarrow> meta_requests" where
  "packed rs = map Some rs @ replicate (MAX_META_REQUESTS - length rs) None"

definition requests_ok :: "request list \<Rightarrow> bool" where
  "requests_ok rs \<longleftrightarrow> length rs \<le> MAX_META_REQUESTS \<and> sorted_wrt (<) (map fst rs)"

definition mr_wf :: "meta_requests \<Rightarrow> bool" where
  "mr_wf es \<longleftrightarrow> requests_ok (mr_iter es) \<and> es = packed (mr_iter es)"

lemma iter_packed [simp]: "mr_iter (packed rs) = rs"
  by (simp add: mr_iter_def packed_def filter_map o_def)

lemma packed_wf: "requests_ok rs \<Longrightarrow> mr_wf (packed rs)"
  by (simp add: mr_wf_def)

lemma mr_wf_new: "mr_wf mr_new"
  using packed_wf [of "[]"] by (simp add: requests_ok_def packed_def mr_new_def)

lemma search_packed:
  "mr_search (map Some rs @ replicate n None) k i =
     (case position (\<lambda>r. fst r = k) rs of
        Some j \<Rightarrow> Held (i + j) (snd (rs ! j))
      | None \<Rightarrow> if n = 0 then NoSlot else FreeSlot (i + length rs))"
proof (induction rs arbitrary: i)
  case Nil
  then show ?case by (cases n) simp_all
next
  case (Cons r rs)
  then show ?case by (cases r) (auto split: option.splits)
qed

lemma policy_of_map_of: "mr_policy_of es = map_of (mr_iter es)"
proof
  fix k
  have "map_option snd (List.find (\<lambda>r. fst r = k) rs) = map_of rs k" for rs :: "request list"
    by (induction rs) auto
  then show "mr_policy_of es k = map_of (mr_iter es) k" by (simp add: mr_policy_of_def)
qed

lemma sorted_fst_sort:
  assumes "distinct (map fst rs)"
  shows "sorted_wrt (<) (map fst (sort (rs :: request list)))"
proof -
  have "sorted (map fst (sort rs))"
    unfolding sorted_map by (rule sorted_wrt_mono_rel [OF _ sorted_sort]) (auto simp: less_eq_prod_def)
  moreover have "distinct (map fst (sort rs))" using assms by (simp add: distinct_map)
  ultimately show ?thesis by (simp add: strict_sorted_iff)
qed


lemma requests_ok_distinct: "requests_ok rs \<Longrightarrow> distinct (map fst rs)"
  by (simp add: requests_ok_def strict_sorted_iff)

lemma packed_update: "j < length rs \<Longrightarrow> (packed rs)[j := Some r] = packed (rs[j := r])"
  by (simp add: packed_def list_update_append map_update)

lemma with_held:
  assumes "requests_ok rs" "position (\<lambda>r. fst r = k) rs = Some j"
  shows "mr_with (packed rs) k p = packed (rs[j := (k, max (snd (rs ! j)) p)])" "requests_ok (rs[j := (k, max (snd (rs ! j)) p)])"
proof -
  have j: "j < length rs" "fst (rs ! j) = k" using assms(2) by (auto simp: position_Some_iff)
  have "mr_search (packed rs) k 0 = Held j (snd (rs ! j))"
    using assms(2) by (simp add: packed_def search_packed)
  then show "mr_with (packed rs) k p = packed (rs[j := (k, max (snd (rs ! j)) p)])"
    using j(1) by (simp add: mr_with_def packed_update)
  show "requests_ok (rs[j := (k, max (snd (rs ! j)) p)])"
    using assms(1) j by (simp add: requests_ok_def map_update_same)
qed

lemma with_full:
  assumes "position (\<lambda>r. fst r = k) rs = None" "length rs = MAX_META_REQUESTS"
  shows "mr_with (packed rs) k p = packed rs"
  using assms search_packed [of rs 0 k 0] by (simp add: mr_with_def packed_def)

lemma with_free:
  assumes "requests_ok rs" "position (\<lambda>r. fst r = k) rs = None" "length rs < MAX_META_REQUESTS"
  shows "mr_with (packed rs) k p = packed (sort (rs @ [(k, p)]))" "requests_ok (sort (rs @ [(k, p)]))"
proof -
  obtain n where n: "MAX_META_REQUESTS - length rs = Suc n" using assms(3) by (metis Suc_diff_Suc)
  have "mr_search (packed rs) k 0 = FreeSlot (length rs)"
    unfolding packed_def search_packed n using assms(2) by simp
  moreover have "(packed rs)[length rs := Some (k, p)] = map Some (rs @ [(k, p)]) @ replicate n None"
    using n by (simp add: packed_def list_update_append)
  moreover have "MAX_META_REQUESTS - Suc (length rs) = n" using n by simp
  ultimately show "mr_with (packed rs) k p = packed (sort (rs @ [(k, p)]))"
    by (simp add: mr_with_def packed_def)
  have "k \<notin> fst ` set rs" using assms(2) by (auto simp: position_None_iff)
  then have "distinct (map fst (rs @ [(k, p)]))" using requests_ok_distinct [OF assms(1)] by simp
  then show "requests_ok (sort (rs @ [(k, p)]))"
    using assms(3) sorted_fst_sort by (simp add: requests_ok_def del: map_append)
qed

section \<open>Demands as maps\<close>

definition demand_full :: "meta_requests \<Rightarrow> bool" where
  "demand_full es \<longleftrightarrow> mr_len es = MAX_META_REQUESTS"

definition stricter :: "request_policy option \<Rightarrow> request_policy \<Rightarrow> request_policy option" where
  "stricter held p = Some (case held of None \<Rightarrow> p | Some h \<Rightarrow> max h p)"

lemma map_of_update_at:
  assumes "distinct (map fst rs)" "j < length rs" "fst (rs ! j) = k"
  shows "map_of (rs[j := (k, v)]) = (map_of rs)(k \<mapsto> v)"
  using assms
proof (induction rs arbitrary: j)
  case (Cons r rs)
  show ?case
  proof (cases j)
    case 0
    then show ?thesis using Cons.prems by (cases r) auto
  next
    case (Suc i)
    then have "fst r \<noteq> k" using Cons.prems by (auto intro: image_eqI [OF _ nth_mem])
    then show ?thesis using Cons Suc by (cases r) auto
  qed
qed simp

lemma map_of_sort_snoc:
  assumes "distinct (map fst rs)" "k \<notin> fst ` set rs"
  shows "map_of (sort (rs @ [(k, p)])) = (map_of rs)(k \<mapsto> p)"
proof -
  have d: "distinct (map fst (rs @ [(k, p)]))" using assms by simp
  have "map_of (sort (rs @ [(k, p)])) = map_of (rs @ [(k, p)])"
  proof (rule map_of_eqI)
    show "set (map fst (sort (rs @ [(k, p)]))) = set (map fst (rs @ [(k, p)]))" by (simp only: set_map set_sort)
    have ds: "distinct (map fst (sort (rs @ [(k, p)])))" using d by (simp only: distinct_map distinct_sort set_sort)
    show "\<forall>i\<in>set (map fst (sort (rs @ [(k, p)]))). map_of (sort (rs @ [(k, p)])) i = map_of (rs @ [(k, p)]) i"
      using map_of_eq_Some_iff [OF d] map_of_eq_Some_iff [OF ds] by (metis option.exhaust set_sort)
  qed
  also have "\<dots> = (map_of rs)(k \<mapsto> p)"
    using assms(2) by (auto simp: map_add_def fun_eq_iff map_of_eq_None_iff [symmetric] split: option.splits)
  finally show ?thesis .
qed

text \<open>What \<^verbatim>\<open>with\<close> does to the demand: a type already there takes the stricter policy, a new one is added while there is
  room, and is dropped when there is none.\<close>

lemma with_refines:
  assumes "mr_wf es"
  shows "mr_wf (mr_with es k p)"
    "mr_policy_of (mr_with es k p) =
      (if mr_policy_of es k = None \<and> demand_full es then mr_policy_of es
       else (mr_policy_of es)(k := stricter (mr_policy_of es k) p))"
proof -
  define rs where "rs = mr_iter es"
  have es: "es = packed rs" and ok: "requests_ok rs" using assms by (auto simp: mr_wf_def rs_def)
  note d = requests_ok_distinct [OF ok]
  have "mr_wf (mr_with es k p) \<and> mr_policy_of (mr_with es k p) =
      (if mr_policy_of es k = None \<and> demand_full es then mr_policy_of es
       else (mr_policy_of es)(k := stricter (mr_policy_of es k) p))"
  proof (cases "position (\<lambda>r. fst r = k) rs")
    case (Some j)
    then have j: "j < length rs" "fst (rs ! j) = k" by (auto simp: position_Some_iff)
    then have "map_of rs k = Some (snd (rs ! j))" using d by (metis map_of_eq_Some_iff nth_mem prod.collapse)
    then show ?thesis
      using with_held [OF ok Some] map_of_update_at [OF d j] packed_wf
      by (simp add: es policy_of_map_of stricter_def)
  next
    case None
    then have k: "k \<notin> fst ` set rs" by (auto simp: position_None_iff)
    then have n: "map_of rs k = None" by (simp add: map_of_eq_None_iff)
    show ?thesis
    proof (cases "length rs < MAX_META_REQUESTS")
      case True
      then show ?thesis
        using with_free [OF ok None True] packed_wf map_of_sort_snoc [OF d k] n
        by (simp add: es policy_of_map_of demand_full_def mr_len_def stricter_def)
    next
      case False
      then have "length rs = MAX_META_REQUESTS" using ok by (simp add: requests_ok_def)
      then show ?thesis
        using with_full [OF None] packed_wf [OF ok] n by (simp add: es policy_of_map_of demand_full_def mr_len_def)
    qed
  qed
  then show "mr_wf (mr_with es k p)"
    "mr_policy_of (mr_with es k p) =
      (if mr_policy_of es k = None \<and> demand_full es then mr_policy_of es
       else (mr_policy_of es)(k := stricter (mr_policy_of es k) p))" by blast+
qed

lemma demand_size:
  assumes "mr_wf es"
  shows "card (dom (mr_policy_of es)) = mr_len es"
proof -
  have "distinct (map fst (mr_iter es))" using assms by (simp add: mr_wf_def requests_ok_distinct)
  then have "card (set (map fst (mr_iter es))) = length (map fst (mr_iter es))" by (rule distinct_card)
  then show ?thesis by (simp add: policy_of_map_of mr_len_def dom_map_of_conv_image_fst)
qed

text \<open>Equal demands are equal arrays.\<close>

lemma demand_determines:
  assumes "mr_wf a" "mr_wf b" "mr_policy_of a = mr_policy_of b"
  shows "a = b"
proof -
  have m: "map_of (mr_iter a) = map_of (mr_iter b)" using assms(3) by (simp add: policy_of_map_of)
  have ok: "requests_ok (mr_iter a)" "requests_ok (mr_iter b)" using assms by (auto simp: mr_wf_def)
  have "fst ` set (mr_iter a) = fst ` set (mr_iter b)" using m by (metis dom_map_of_conv_image_fst)
  then have "map fst (mr_iter a) = map fst (mr_iter b)"
    using ok by (intro strict_sorted_equal) (auto simp: requests_ok_def)
  moreover have "map snd (mr_iter a) = map snd (mr_iter b)"
  proof -
    have "map snd rs = map (\<lambda>k. the (map_of rs k)) (map fst rs)" if "distinct (map fst rs)" for rs :: "request list"
      using that by (auto simp: map_of_is_SomeI)
    then show ?thesis using m calculation ok requests_ok_distinct by metis
  qed
  ultimately have "mr_iter a = mr_iter b" by (metis zip_map_fst_snd)
  then show ?thesis using assms by (metis mr_wf_def)
qed


section \<open>Asking several times\<close>

definition mr_ask :: "meta_requests \<Rightarrow> request list \<Rightarrow> meta_requests" where
  "mr_ask es rs = foldl (\<lambda>out (k, p). mr_with out k p) es rs"

fun strictest :: "request_policy option \<Rightarrow> nat \<Rightarrow> request list \<Rightarrow> request_policy option" where
  "strictest h k [] = h"
| "strictest h k ((k', p) # rs) = strictest (if k' = k then stricter h p else h) k rs"

lemma ask_simps [simp]: "mr_ask es [] = es" "mr_ask es ((k, p) # rs) = mr_ask (mr_with es k p) rs"
  by (simp_all add: mr_ask_def)

lemma ask_wf: "mr_wf es \<Longrightarrow> mr_wf (mr_ask es rs)"
  by (induction rs arbitrary: es) (auto simp: with_refines)

lemma with_full_stays:
  assumes "mr_wf es" "demand_full es"
  shows "demand_full (mr_with es k p)" "dom (mr_policy_of (mr_with es k p)) = dom (mr_policy_of es)"
proof -
  show d: "dom (mr_policy_of (mr_with es k p)) = dom (mr_policy_of es)"
    using with_refines(2) [OF assms(1)] assms(2) by (auto simp: stricter_def)
  then show "demand_full (mr_with es k p)"
    using demand_size [OF assms(1)] demand_size [OF with_refines(1) [OF assms(1)], of k p] assms(2)
    unfolding demand_full_def by metis
qed

lemma ask_full_stays:
  assumes "mr_wf es" "demand_full es"
  shows "demand_full (mr_ask es rs) \<and> dom (mr_policy_of (mr_ask es rs)) = dom (mr_policy_of es)"
  using assms
proof (induction rs arbitrary: es)
  case (Cons r rs)
  obtain k p where r: "r = (k, p)" by (cases r)
  show ?case
    using Cons.IH [OF with_refines(1) [OF Cons.prems(1), of k p]] with_full_stays [OF Cons.prems, of k p] r by simp
qed simp

lemma ask_cases:
  assumes "mr_wf es"
  shows "mr_policy_of (mr_ask es rs) k = strictest (mr_policy_of es k) k rs \<or>
    mr_policy_of (mr_ask es rs) k = None \<and> demand_full (mr_ask es rs)"
  using assms
proof (induction rs arbitrary: es)
  case (Cons r rs)
  obtain k' p where r: "r = (k', p)" by (cases r)
  have wf: "mr_wf (mr_with es k' p)" using with_refines(1) [OF Cons.prems] .
  show ?case
  proof (cases "mr_policy_of es k' = None \<and> demand_full es \<and> k' = k")
    case True
    then have "k \<notin> dom (mr_policy_of (mr_with es k' p))" "demand_full (mr_with es k' p)"
      using with_full_stays [OF Cons.prems] by auto
    then show ?thesis using ask_full_stays [OF wf] r by auto
  next
    case False
    then have "mr_policy_of (mr_with es k' p) k = (if k' = k then stricter (mr_policy_of es k) p else mr_policy_of es k)"
      by (auto simp: with_refines(2) [OF Cons.prems])
    then show ?thesis using Cons.IH [OF wf] r by simp
  qed
qed simp

lemma ask_dom:
  assumes "mr_wf es"
  shows "dom (mr_policy_of (mr_ask es rs)) \<subseteq> dom (mr_policy_of es) \<union> fst ` set rs"
  using assms
proof (induction rs arbitrary: es)
  case (Cons r rs)
  obtain k p where r: "r = (k, p)" by (cases r)
  have "dom (mr_policy_of (mr_with es k p)) \<subseteq> insert k (dom (mr_policy_of es))"
    by (auto simp: with_refines(2) [OF Cons.prems] split: if_splits)
  then show ?case using Cons.IH [OF with_refines(1) [OF Cons.prems, of k p]] unfolding r ask_simps list.set image_insert fst_conv by blast
qed simp

lemma finite_demand: "finite (dom (mr_policy_of es))"
  by (simp add: policy_of_map_of finite_dom_map_of)

lemma strictest_absent: "k \<notin> fst ` set rs \<Longrightarrow> strictest h k rs = h"
  by (induction rs arbitrary: h) auto

lemma strictest_dom: "strictest h k rs \<noteq> None \<longleftrightarrow> h \<noteq> None \<or> k \<in> fst ` set rs"
proof (induction rs arbitrary: h)
  case (Cons r rs)
  obtain k' p where r: "r = (k', p)" by (cases r)
  show ?case using Cons.IH [of "if k' = k then stricter h p else h"] r by (auto simp: stricter_def)
qed simp

lemma ask_exact:
  assumes "mr_wf es" "card (dom (mr_policy_of es) \<union> fst ` set rs) \<le> MAX_META_REQUESTS"
  shows "mr_policy_of (mr_ask es rs) k = strictest (mr_policy_of es k) k rs"
proof (rule ccontr)
  assume ne: "mr_policy_of (mr_ask es rs) k \<noteq> strictest (mr_policy_of es k) k rs"
  then have n: "mr_policy_of (mr_ask es rs) k = None" "demand_full (mr_ask es rs)"
    using ask_cases [OF assms(1)] by blast+
  then have k: "k \<in> dom (mr_policy_of es) \<union> fst ` set rs" using ne strictest_dom [of "mr_policy_of es k" k rs] by auto
  have "dom (mr_policy_of (mr_ask es rs)) \<subseteq> (dom (mr_policy_of es) \<union> fst ` set rs) - {k}"
    using ask_dom [OF assms(1)] n(1) by auto
  then have "card (dom (mr_policy_of (mr_ask es rs))) \<le> card ((dom (mr_policy_of es) \<union> fst ` set rs) - {k})"
    by (intro card_mono) (auto simp: finite_demand)
  also have "\<dots> < card (dom (mr_policy_of es) \<union> fst ` set rs)"
    using k by (intro card_Diff1_less) (auto simp: finite_demand)
  finally show False
    using assms(2) n(2) demand_size [OF ask_wf [OF assms(1)]] by (simp add: demand_full_def)
qed

section \<open>Combining demands\<close>

text \<open>The demand two branches put on the producer they share, and the one an element passes on.\<close>

definition joined :: "request_policy option \<Rightarrow> request_policy option \<Rightarrow> request_policy option" where
  "joined a b =
     (case (a, b) of
        (Some p, Some q) \<Rightarrow> Some (max p q)
      | (Some p, None) \<Rightarrow> if p = AnyConsumer then Some p else None
      | (None, Some q) \<Rightarrow> if q = AnyConsumer then Some q else None
      | (None, None) \<Rightarrow> None)"

definition carried :: "request_policy option \<Rightarrow> request_policy option \<Rightarrow> request_policy option" where
  "carried own down =
     (case (own, down) of
        (Some p, Some q) \<Rightarrow> Some (max p q)
      | (Some p, None) \<Rightarrow> Some p
      | (None, Some q) \<Rightarrow> if q = AnyConsumer then Some q else None
      | (None, None) \<Rightarrow> None)"

lemma foldl_filter: "foldl (\<lambda>s x. if c x then f s x else s) s xs = foldl f s (filter c xs)"
  by (induction xs arbitrary: s) auto

definition join_asks :: "meta_requests \<Rightarrow> meta_requests \<Rightarrow> request list" where
  "join_asks a b = filter (\<lambda>(k, p). p = AnyConsumer \<or> (mr_policy_of a k \<noteq> None \<and> mr_policy_of b k \<noteq> None))
     (mr_iter a @ mr_iter b)"

definition carry_asks :: "meta_requests \<Rightarrow> meta_requests \<Rightarrow> request list" where
  "carry_asks own down = filter (\<lambda>(k, p). p = AnyConsumer \<or> mr_policy_of own k \<noteq> None) (mr_iter down)"

lemma join_as_ask: "join_branches a b = mr_ask mr_new (join_asks a b)"
  by (simp add: join_branches_def mr_ask_def join_asks_def foldl_filter [symmetric] case_prod_unfold del: filter_append)

lemma carry_as_ask: "carry_upstream own down = mr_ask own (carry_asks own down)"
  by (simp add: carry_upstream_def mr_ask_def carry_asks_def foldl_filter [symmetric] case_prod_unfold)

lemma strictest_append: "strictest h k (xs @ ys) = strictest (strictest h k xs) k ys"
  by (induction xs arbitrary: h) auto

lemma strictest_filter:
  assumes "distinct (map fst rs)"
  shows "strictest h k (filter q rs) =
    (case map_of rs k of Some p \<Rightarrow> if q (k, p) then stricter h p else h | None \<Rightarrow> h)"
  using assms
proof (induction rs arbitrary: h)
  case (Cons r rs)
  obtain k' p where r: "r = (k', p)" by (cases r)
  have "k' \<notin> fst ` set (filter q rs)" using Cons.prems r by force
  then show ?case using Cons r strictest_absent by (auto split: option.splits)
qed simp

lemma iter_distinct: "mr_wf es \<Longrightarrow> distinct (map fst (mr_iter es))"
  by (simp add: mr_wf_def requests_ok_distinct)

lemma policy_new [simp]: "mr_policy_of mr_new k = None"
  by (simp add: mr_policy_of_def mr_iter_def mr_new_def)

lemma join_strictest:
  assumes "mr_wf a" "mr_wf b"
  shows "strictest (mr_policy_of mr_new k) k (join_asks a b) = joined (mr_policy_of a k) (mr_policy_of b k)"
  unfolding join_asks_def filter_append strictest_append policy_new
  by (simp add: strictest_filter iter_distinct assms flip: policy_of_map_of)
     (auto simp: joined_def stricter_def split: option.splits)

lemma carry_strictest:
  assumes "mr_wf own" "mr_wf down"
  shows "strictest (mr_policy_of own k) k (carry_asks own down) = carried (mr_policy_of own k) (mr_policy_of down k)"
  unfolding carry_asks_def
  by (simp add: strictest_filter iter_distinct assms flip: policy_of_map_of)
     (auto simp: carried_def stricter_def split: option.splits)


lemma asks_from: "fst ` set (join_asks a b) \<subseteq> dom (mr_policy_of a) \<union> dom (mr_policy_of b)"
  "fst ` set (carry_asks a b) \<subseteq> dom (mr_policy_of b)"
  by (auto simp: join_asks_def carry_asks_def policy_of_map_of dom_map_of_conv_image_fst intro: image_eqI [rotated])

text \<open>Demands keep what may be misread safe on their way to the producer. What two branches ask of the producer
  they share is, for each type, the stricter of their policies, and a type that changes the buffer is vetoed by the
  branch that does not ask for it; through an element the same, except that its own requests always pass. A type
  can be missing from the result only when it already holds four others.\<close>

theorem demand_combines:
  assumes "mr_wf a" "mr_wf b"
  shows "mr_wf (join_branches a b) \<and> mr_wf (carry_upstream a b) \<and>
    (mr_policy_of (join_branches a b) k = joined (mr_policy_of a k) (mr_policy_of b k) \<or>
     mr_policy_of (join_branches a b) k = None \<and> mr_len (join_branches a b) = MAX_META_REQUESTS) \<and>
    (mr_policy_of (carry_upstream a b) k = carried (mr_policy_of a k) (mr_policy_of b k) \<or>
     mr_policy_of (carry_upstream a b) k = None \<and> mr_len (carry_upstream a b) = MAX_META_REQUESTS)"
  using ask_cases [OF mr_wf_new, of "join_asks a b" k] ask_cases [OF assms(1), of "carry_asks a b" k]
  by (simp only: join_as_ask carry_as_ask ask_wf [OF mr_wf_new] ask_wf [OF assms(1)] join_strictest [OF assms]
      carry_strictest [OF assms] demand_full_def simp_thms)

theorem demand_combines_witness:
  "mr_policy_of (join_branches (mr_request_from_every mr_new 3) (mr_request mr_new 5)) 3 = None \<and>
   mr_policy_of (join_branches (mr_request_from_every mr_new 3) (mr_request mr_new 5)) 5 = Some AnyConsumer"
proof -
  have wf: "mr_wf (mr_request_from_every mr_new 3)" "mr_wf (mr_request mr_new 5)"
    by (simp_all add: mr_request_from_every_def mr_request_def with_refines mr_wf_new)
  have "mr_len (join_branches (mr_request_from_every mr_new 3) (mr_request mr_new 5)) = 1"
    "mr_policy_of (mr_request_from_every mr_new 3) 3 = Some EveryConsumer" "mr_policy_of (mr_request mr_new 5) 3 = None"
    "mr_policy_of (mr_request_from_every mr_new 3) 5 = None" "mr_policy_of (mr_request mr_new 5) 5 = Some AnyConsumer"
    by code_simp+
  then show ?thesis
    using demand_combines [OF wf, of 3] demand_combines [OF wf, of 5] by (simp add: joined_def MAX_META_REQUESTS_def)
qed

text \<open>Up to four types the order of the questions does not matter: branches can be joined in either order, and
  requests made in either order give the same array.\<close>

theorem demand_order_free:
  assumes "mr_wf a" "mr_wf b" "card (dom (mr_policy_of a) \<union> dom (mr_policy_of b)) \<le> MAX_META_REQUESTS"
  shows "join_branches a b = join_branches b a"
proof (rule demand_determines)
  have j: "mr_policy_of (join_branches x y) k = joined (mr_policy_of x k) (mr_policy_of y k)"
    if "mr_wf x" "mr_wf y" "card (dom (mr_policy_of x) \<union> dom (mr_policy_of y)) \<le> MAX_META_REQUESTS" for x y k
  proof -
    have "card (dom (mr_policy_of mr_new) \<union> fst ` set (join_asks x y)) \<le> card (dom (mr_policy_of x) \<union> dom (mr_policy_of y))"
      using asks_from(1) [of x y] by (intro card_mono) (auto simp: finite_demand)
    then show ?thesis
      using ask_exact [OF mr_wf_new, of "join_asks x y" k] that(3) join_strictest [OF that(1,2)] by (simp add: join_as_ask)
  qed
  have "joined p q = joined q p" for p q by (auto simp: joined_def max.commute split: option.splits)
  then show "mr_policy_of (join_branches a b) = mr_policy_of (join_branches b a)"
    using j [OF assms] j [OF assms(2,1)] assms(3) by (auto simp: Un_commute)
  show "mr_wf (join_branches a b)" "mr_wf (join_branches b a)" by (simp_all add: join_as_ask ask_wf mr_wf_new)
qed

theorem demand_order_free_witness:
  "join_branches (mr_request mr_new 3) (mr_request mr_new 5) = join_branches (mr_request mr_new 5) (mr_request mr_new 3)"
proof -
  have "dom (mr_policy_of (mr_request mr_new 3)) \<union> dom (mr_policy_of (mr_request mr_new 5)) \<subseteq> {3, 5}"
    by (auto simp: mr_request_def with_refines(2) [OF mr_wf_new] split: if_splits)
  then have "card (dom (mr_policy_of (mr_request mr_new 3)) \<union> dom (mr_policy_of (mr_request mr_new 5))) \<le> card {3, 5 :: nat}"
    by (intro card_mono) auto
  then show ?thesis
    by (intro demand_order_free) (auto simp: mr_request_def with_refines(1) [OF mr_wf_new] MAX_META_REQUESTS_def)
qed

text \<open>Beyond four types it does: the same five requests made in another order give another array, although the type is
  documented to compare equal.\<close>

lemma demand_order_matters_beyond_four:
  "foldl mr_request mr_new [1, 2, 3, 4, 5] \<noteq> foldl mr_request mr_new [5, 4, 3, 2, 1]"
  by code_simp

end
