(* ===== verification/Pools.thy ===== *)
theory Pools
  imports Caps "HOL-Library.Multiset"
begin

text \<open>
  The three buffer pools: the shared one of \<^verbatim>\<open>pool.rs\<close>, whose free list is a stack behind a lock; the heap-free one of
  \<^verbatim>\<open>staticpool.rs\<close>, an array of slots; and the lending ring of the same file, which hands out places instead of
  buffers. All three promise the same thing, stated once as the locale \<open>pool_contract\<close>: what is handed out has left the
  pool, what comes back is in it again, and a request fails only when nothing is left. Wakers are task numbers, and
  waking is the list of tasks woken.
\<close>

section \<open>The shared pool\<close>

record 'a buffer_pool =
  bp_free :: "'a list"
  bp_waiters :: "nat list"
  bp_capacity :: nat

definition from_buffers :: "'a list \<Rightarrow> 'a buffer_pool" where
  "from_buffers bs = \<lparr>bp_free = bs, bp_waiters = [], bp_capacity = length bs\<rparr>"

definition new_byte_pool :: "nat \<Rightarrow> nat \<Rightarrow> u8 list buffer_pool" where
  "new_byte_pool n bytes = from_buffers (replicate n (replicate bytes 0))"

definition pool_available :: "'a buffer_pool \<Rightarrow> nat" where
  "pool_available p = length (bp_free p)"

definition pool_outstanding :: "'a buffer_pool \<Rightarrow> nat" where
  "pool_outstanding p = bp_capacity p - pool_available p"

text \<open>\<^verbatim>\<open>Vec::pop\<close> takes from the end.\<close>

definition pool_acquire :: "'a buffer_pool \<Rightarrow> ('a \<times> 'a buffer_pool) option" where
  "pool_acquire p =
     (if bp_free p = [] then None else Some (last (bp_free p), p\<lparr>bp_free := butlast (bp_free p)\<rparr>))"

definition pool_acquire_or_err :: "'a buffer_pool \<Rightarrow> g2g_error + 'a \<times> 'a buffer_pool" where
  "pool_acquire_or_err p = ok_or (pool_acquire p) PoolExhausted"

definition pool_poll :: "nat \<Rightarrow> 'a buffer_pool \<Rightarrow> 'a option \<times> 'a buffer_pool" where
  "pool_poll w p =
     (case pool_acquire p of
        Some (v, p') \<Rightarrow> (Some v, p')
      | None \<Rightarrow> (None, if w \<in> set (bp_waiters p) then p else p\<lparr>bp_waiters := bp_waiters p @ [w]\<rparr>))"

text \<open>Dropping a buffer: it goes back, and every parked task is woken.\<close>

definition pool_release :: "'a \<Rightarrow> 'a buffer_pool \<Rightarrow> nat list \<times> 'a buffer_pool" where
  "pool_release v p = (bp_waiters p, p\<lparr>bp_free := bp_free p @ [v], bp_waiters := []\<rparr>)"

section \<open>The heap-free pool\<close>

record 'a static_pool =
  sp_slots :: "'a option list"
  sp_waker :: "nat option"

definition static_new :: "'a list \<Rightarrow> 'a static_pool" where
  "static_new bs = \<lparr>sp_slots = map Some bs, sp_waker = None\<rparr>"

definition static_available :: "'a static_pool \<Rightarrow> nat" where
  "static_available p = length (filter (\<lambda>s. s \<noteq> None) (sp_slots p))"

definition static_outstanding :: "'a static_pool \<Rightarrow> nat" where
  "static_outstanding p = length (sp_slots p) - static_available p"

fun take_first :: "'a option list \<Rightarrow> ('a \<times> 'a option list) option" where
  "take_first [] = None"
| "take_first (Some v # s) = Some (v, None # s)"
| "take_first (None # s) = map_option (\<lambda>(v, s'). (v, None # s')) (take_first s)"

fun put_first :: "'a \<Rightarrow> 'a option list \<Rightarrow> 'a option list" where
  "put_first v [] = []"
| "put_first v (None # s) = Some v # s"
| "put_first v (Some u # s) = Some u # put_first v s"

definition static_acquire :: "'a static_pool \<Rightarrow> ('a \<times> 'a static_pool) option" where
  "static_acquire p = map_option (\<lambda>(v, s). (v, p\<lparr>sp_slots := s\<rparr>)) (take_first (sp_slots p))"

definition static_release :: "'a \<Rightarrow> 'a static_pool \<Rightarrow> nat option \<times> 'a static_pool" where
  "static_release v p = (sp_waker p, p\<lparr>sp_slots := put_first v (sp_slots p), sp_waker := None\<rparr>)"

definition static_poll :: "nat \<Rightarrow> 'a static_pool \<Rightarrow> 'a option \<times> 'a static_pool" where
  "static_poll w p =
     (case static_acquire p of
        Some (v, p') \<Rightarrow> (Some v, p')
      | None \<Rightarrow> (None, p\<lparr>sp_waker := Some w\<rparr>))"

section \<open>The lending ring\<close>

text \<open>The lease flags. A slot handed out is its index: it stays leased while it is filled, while the frame that borrows it
  lives, and until that frame is dropped.\<close>

record lend_ring =
  lr_leased :: "bool list"
  lr_bytes :: "u8 list list"

definition lend_ring_new :: "nat \<Rightarrow> nat \<Rightarrow> lend_ring" where
  "lend_ring_new n bytes = \<lparr>lr_leased = replicate n False, lr_bytes = replicate n (replicate bytes 0)\<rparr>"

definition leased_count :: "lend_ring \<Rightarrow> nat" where
  "leased_count r = length (filter (\<lambda>f. f) (lr_leased r))"

definition ring_acquire :: "lend_ring \<Rightarrow> (nat \<times> lend_ring) option" where
  "ring_acquire r = map_option (\<lambda>i. (i, r\<lparr>lr_leased := (lr_leased r)[i := True]\<rparr>)) (position Not (lr_leased r))"

definition ring_release_slot :: "nat \<Rightarrow> lend_ring \<Rightarrow> lend_ring" where
  "ring_release_slot i r = r\<lparr>lr_leased := (lr_leased r)[i := False]\<rparr>"

text \<open>Filling a slot through the handle, and the bytes of the frame published from it; more bytes than the slot has are
  caught by an assertion in debug builds, and are the caller's obligation otherwise.\<close>

definition ring_fill :: "nat \<Rightarrow> u8 list \<Rightarrow> lend_ring \<Rightarrow> lend_ring" where
  "ring_fill i bs r = r\<lparr>lr_bytes := (lr_bytes r)[i := bs]\<rparr>"

definition ring_publish :: "nat \<Rightarrow> nat \<Rightarrow> lend_ring \<Rightarrow> u8 list option" where
  "ring_publish i n r =
     (if n \<le> length (lr_bytes r ! i) then Some (take n (lr_bytes r ! i)) else None)"

section \<open>The contract\<close>

datatype pool_op = Acquire | Release nat

text \<open>A client: it takes what it can get and gives back one of the things it holds.\<close>

fun pool_run :: "('p \<Rightarrow> ('b \<times> 'p) option) \<Rightarrow> ('b \<Rightarrow> 'p \<Rightarrow> 'p) \<Rightarrow> pool_op list \<Rightarrow> 'b list \<times> 'p \<Rightarrow> 'b list \<times> 'p" where
  "pool_run acquire release [] s = s"
| "pool_run acquire release (Acquire # ops) (held, p) =
     pool_run acquire release ops (case acquire p of Some (b, p') \<Rightarrow> (held @ [b], p') | None \<Rightarrow> (held, p))"
| "pool_run acquire release (Release i # ops) (held, p) =
     pool_run acquire release ops
       (if i < length held then (take i held @ drop (Suc i) held, release (held ! i) p) else (held, p))"

lemma mset_remove_nth: "i < length xs \<Longrightarrow> mset xs = add_mset (xs ! i) (mset (take i xs @ drop (Suc i) xs))"
  by (metis add_mset_add_single id_take_nth_drop mset.simps(2) mset_append union_mset_add_mset_right)

locale pool_contract =
  fixes acquire :: "'p \<Rightarrow> ('b \<times> 'p) option" and release :: "'b \<Rightarrow> 'p \<Rightarrow> 'p" and stock :: "'p \<Rightarrow> 'b multiset"
    and fits :: "'b multiset \<Rightarrow> 'p \<Rightarrow> bool"
  assumes acquired: "fits held p \<Longrightarrow> acquire p = Some (b, p') \<Longrightarrow> stock p = add_mset b (stock p') \<and> fits (add_mset b held) p'"
    and exhausted: "acquire p = None \<longleftrightarrow> stock p = {#}"
    and released: "fits (add_mset b held) p \<Longrightarrow> stock (release b p) = add_mset b (stock p) \<and> fits held (release b p)"
begin

lemma run_conserves:
  assumes "fits (mset held) p" "pool_run acquire release ops (held, p) = (held', p')"
  shows "fits (mset held') p' \<and> mset held' + stock p' = mset held + stock p"
  using assms
proof (induction ops arbitrary: held p)
  case (Cons op ops)
  show ?case
  proof (cases op)
    case Acquire
    show ?thesis
    proof (cases "acquire p")
      case (Some r)
      obtain b q where r: "acquire p = Some (b, q)" using Some by (cases r) auto
      have "fits (mset (held @ [b])) q" "stock p = add_mset b (stock q)"
        using acquired [OF Cons.prems(1) r] by simp_all
      then show ?thesis using Cons.IH [of "held @ [b]" q] Cons.prems(2) r Acquire by simp
    qed (use Cons Acquire in simp)
  next
    case (Release i)
    show ?thesis
    proof (cases "i < length held")
      case True
      let ?held = "take i held @ drop (Suc i) held"
      have m: "mset held = add_mset (held ! i) (mset ?held)" by (rule mset_remove_nth [OF True])
      have "stock (release (held ! i) p) = add_mset (held ! i) (stock p)" "fits (mset ?held) (release (held ! i) p)"
        using released [of "held ! i" "mset ?held" p] Cons.prems(1) m by simp_all
      then show ?thesis using Cons.IH [of ?held "release (held ! i) p"] Cons.prems(2) True Release m by simp
    qed (use Cons Release in simp)
  qed
qed simp

text \<open>A request fails exactly when the client holds everything.\<close>

lemma run_exhausted:
  assumes "fits {#} p" "pool_run acquire release ops ([], p) = (held, p')"
  shows "acquire p' = None \<longleftrightarrow> mset held = stock p"
  using run_conserves [of "[]" p ops held p'] assms exhausted [of p'] by auto

end


section \<open>The three pools keep it\<close>

interpretation shared_pool: pool_contract pool_acquire "\<lambda>b p. snd (pool_release b p)" "\<lambda>p. mset (bp_free p)" "\<lambda>_ _. True"
proof
  fix p p' :: "'a buffer_pool" and b
  show "pool_acquire p = Some (b, p') \<Longrightarrow> mset (bp_free p) = add_mset b (mset (bp_free p')) \<and> True"
    by (cases "bp_free p" rule: rev_cases) (auto simp: pool_acquire_def)
qed (auto simp: pool_acquire_def pool_release_def)

definition slot_stock :: "'a option list \<Rightarrow> 'a multiset" where
  "slot_stock s = mset (map the (filter (\<lambda>x. x \<noteq> None) s))"

lemma slot_stock_simps [simp]:
  "slot_stock [] = {#}" "slot_stock (None # s) = slot_stock s" "slot_stock (Some v # s) = add_mset v (slot_stock s)"
  by (simp_all add: slot_stock_def)

lemma take_first_stock: "take_first s = Some (v, s') \<Longrightarrow> slot_stock s = add_mset v (slot_stock s') \<and> length s' = length s"
  by (induction s arbitrary: s' rule: take_first.induct) auto

lemma take_first_None: "take_first s = None \<longleftrightarrow> slot_stock s = {#}"
  by (induction s rule: take_first.induct) auto

lemma put_first_stock:
  "size (slot_stock s) < length s \<Longrightarrow> slot_stock (put_first v s) = add_mset v (slot_stock s) \<and> length (put_first v s) = length s"
  by (induction v s rule: put_first.induct) auto

definition static_fits :: "'a multiset \<Rightarrow> 'a static_pool \<Rightarrow> bool" where
  "static_fits held p \<longleftrightarrow> size held + size (slot_stock (sp_slots p)) = length (sp_slots p)"

interpretation static_pool: pool_contract static_acquire "\<lambda>b p. snd (static_release b p)" "\<lambda>p. slot_stock (sp_slots p)" static_fits
proof
  fix held and p p' :: "'a static_pool" and b
  show "static_fits held p \<Longrightarrow> static_acquire p = Some (b, p') \<Longrightarrow>
      slot_stock (sp_slots p) = add_mset b (slot_stock (sp_slots p')) \<and> static_fits (add_mset b held) p'"
    by (auto simp: static_acquire_def static_fits_def dest: take_first_stock)
  show "static_acquire p = None \<longleftrightarrow> slot_stock (sp_slots p) = {#}"
    by (simp add: static_acquire_def take_first_None)
  show "static_fits (add_mset b held) p \<Longrightarrow>
      slot_stock (sp_slots (snd (static_release b p))) = add_mset b (slot_stock (sp_slots p)) \<and> static_fits held (snd (static_release b p))"
    using put_first_stock [of "sp_slots p" b] by (auto simp: static_release_def static_fits_def)
qed

definition free_slots :: "bool list \<Rightarrow> nat multiset" where
  "free_slots l = mset_set {i. i < length l \<and> \<not> l ! i}"

definition ring_fits :: "nat multiset \<Rightarrow> lend_ring \<Rightarrow> bool" where
  "ring_fits held r \<longleftrightarrow> held = mset_set {i. i < length (lr_leased r) \<and> lr_leased r ! i}"

lemma finite_slots: "finite {i. i < length l \<and> P i}"
  by simp

lemma lease_sets:
  assumes "i < length l"
  shows "\<not> l ! i \<Longrightarrow> free_slots l = add_mset i (free_slots (l[i := True]))"
    "\<not> l ! i \<Longrightarrow> mset_set {k. k < length l \<and> l[i := True] ! k} = add_mset i (mset_set {k. k < length l \<and> l ! k})"
    "l ! i \<Longrightarrow> free_slots (l[i := False]) = add_mset i (free_slots l)"
    "l ! i \<Longrightarrow> mset_set {k. k < length l \<and> l ! k} = add_mset i (mset_set {k. k < length l \<and> l[i := False] ! k})"
proof -
  have ins: "mset_set A = add_mset i (mset_set B)" if "A = insert i B" "finite B" "i \<notin> B" for A B :: "nat set"
    using that by simp
  show "\<not> l ! i \<Longrightarrow> free_slots l = add_mset i (free_slots (l[i := True]))"
    unfolding free_slots_def by (rule ins) (use assms in \<open>auto simp: nth_list_update\<close>)
  show "\<not> l ! i \<Longrightarrow> mset_set {k. k < length l \<and> l[i := True] ! k} = add_mset i (mset_set {k. k < length l \<and> l ! k})"
    by (rule ins) (use assms in \<open>auto simp: nth_list_update\<close>)
  show "l ! i \<Longrightarrow> free_slots (l[i := False]) = add_mset i (free_slots l)"
    unfolding free_slots_def by (rule ins) (use assms in \<open>auto simp: nth_list_update\<close>)
  show "l ! i \<Longrightarrow> mset_set {k. k < length l \<and> l ! k} = add_mset i (mset_set {k. k < length l \<and> l[i := False] ! k})"
    by (rule ins) (use assms in \<open>auto simp: nth_list_update\<close>)
qed

lemma position_first:
  "position p xs = Some i \<Longrightarrow> i < length xs \<and> p (xs ! i)" "position p xs = None \<longleftrightarrow> (\<forall>i<length xs. \<not> p (xs ! i))"
proof -
  show "position p xs = Some i \<Longrightarrow> i < length xs \<and> p (xs ! i)"
    by (induction xs arbitrary: i) (auto split: if_splits)
  show "position p xs = None \<longleftrightarrow> (\<forall>i<length xs. \<not> p (xs ! i))"
    by (induction xs) (auto simp: All_less_Suc2)
qed

interpretation lending_ring: pool_contract ring_acquire ring_release_slot "\<lambda>r. free_slots (lr_leased r)" ring_fits
proof
  fix held and r r' :: lend_ring and i
  show "free_slots (lr_leased r) = add_mset i (free_slots (lr_leased r')) \<and> ring_fits (add_mset i held) r'"
    if "ring_fits held r" "ring_acquire r = Some (i, r')"
  proof -
    have p: "position Not (lr_leased r) = Some i" and r': "r' = r\<lparr>lr_leased := (lr_leased r)[i := True]\<rparr>"
      using that(2) by (auto simp: ring_acquire_def)
    have "i < length (lr_leased r)" "\<not> lr_leased r ! i" using position_first(1) [OF p] by auto
    then show ?thesis using that(1) lease_sets(1,2) [of i "lr_leased r"] by (simp add: ring_fits_def r')
  qed
  show "ring_acquire r = None \<longleftrightarrow> free_slots (lr_leased r) = {#}"
    by (auto simp: ring_acquire_def position_first(2) free_slots_def mset_set_empty_iff)
  show "free_slots (lr_leased (ring_release_slot i r)) = add_mset i (free_slots (lr_leased r)) \<and> ring_fits held (ring_release_slot i r)"
    if "ring_fits (add_mset i held) r"
  proof -
    have h: "add_mset i held = mset_set {k. k < length (lr_leased r) \<and> lr_leased r ! k}" using that by (simp add: ring_fits_def)
    then have "i \<in># mset_set {k. k < length (lr_leased r) \<and> lr_leased r ! k}" by (metis union_single_eq_member)
    then have "i < length (lr_leased r)" "lr_leased r ! i" by auto
    then show ?thesis using lease_sets(3,4) [of i "lr_leased r"] h by (simp add: ring_fits_def ring_release_slot_def)
  qed
qed




section \<open>Waiting for a buffer\<close>

text \<open>Tasks that wait for the shared pool: each polls, may be dropped while it is parked (its waker stays behind), and is
  polled again only after it was woken. A poll of a parked task without a wake is allowed too.\<close>

record 'a pool_sys =
  py_pool :: "'a buffer_pool"
  py_held :: "'a list"
  py_parked :: "nat set"
  py_woken :: "nat set"

inductive pool_step :: "'a pool_sys \<Rightarrow> 'a pool_sys \<Rightarrow> bool" where
  ready: "pool_poll w (py_pool s) = (Some v, p) \<Longrightarrow>
    pool_step s (s\<lparr>py_pool := p, py_held := py_held s @ [v], py_parked := py_parked s - {w}, py_woken := py_woken s - {w}\<rparr>)"
| park: "pool_poll w (py_pool s) = (None, p) \<Longrightarrow>
    pool_step s (s\<lparr>py_pool := p, py_parked := insert w (py_parked s), py_woken := py_woken s - {w}\<rparr>)"
| cancel: "pool_step s (s\<lparr>py_parked := py_parked s - {w}, py_woken := py_woken s - {w}\<rparr>)"
| give_back: "i < length (py_held s) \<Longrightarrow> pool_release (py_held s ! i) (py_pool s) = (ws, p) \<Longrightarrow>
    pool_step s (s\<lparr>py_pool := p, py_held := take i (py_held s) @ drop (Suc i) (py_held s),
      py_woken := py_woken s \<union> (set ws \<inter> py_parked s)\<rparr>)"

inductive pool_reachable :: "'a list \<Rightarrow> 'a pool_sys \<Rightarrow> bool" for bs where
  start: "pool_reachable bs \<lparr>py_pool = from_buffers bs, py_held = [], py_parked = {}, py_woken = {}\<rparr>"
| step: "pool_reachable bs s \<Longrightarrow> pool_step s t \<Longrightarrow> pool_reachable bs t"

definition pool_inv :: "'a list \<Rightarrow> 'a pool_sys \<Rightarrow> bool" where
  "pool_inv bs s \<longleftrightarrow>
     py_parked s \<subseteq> py_woken s \<union> set (bp_waiters (py_pool s)) \<and>
     (bp_waiters (py_pool s) \<noteq> [] \<longrightarrow> bp_free (py_pool s) = []) \<and>
     mset (py_held s) + mset (bp_free (py_pool s)) = mset bs \<and> distinct (bp_waiters (py_pool s))"

lemma pool_poll_cases:
  "pool_poll w p = (Some v, q) \<longleftrightarrow> bp_free p \<noteq> [] \<and> v = last (bp_free p) \<and> q = p\<lparr>bp_free := butlast (bp_free p)\<rparr>"
  "pool_poll w p = (None, q) \<longleftrightarrow>
     bp_free p = [] \<and> q = (if w \<in> set (bp_waiters p) then p else p\<lparr>bp_waiters := bp_waiters p @ [w]\<rparr>)"
  by (auto simp: pool_poll_def pool_acquire_def split: option.splits if_splits)

lemma pool_step_inv:
  assumes "pool_step s t" "pool_inv bs s"
  shows "pool_inv bs t"
  using assms
proof cases
  case (ready w v p)
  have "mset (bp_free (py_pool s)) = add_mset v (mset (butlast (bp_free (py_pool s))))"
    using ready(2) by (cases "bp_free (py_pool s)" rule: rev_cases) (auto simp: pool_poll_cases)
  then show ?thesis using ready assms(2) by (auto simp: pool_inv_def pool_poll_cases)
next
  case (give_back i ws p)
  then show ?thesis
    using assms(2) mset_remove_nth [of i "py_held s"] by (auto simp: pool_inv_def pool_release_def)
qed (auto simp: pool_inv_def pool_poll_cases)

lemma pool_reachable_inv: "pool_reachable bs s \<Longrightarrow> pool_inv bs s"
  by (induction rule: pool_reachable.induct)
     (auto intro: pool_step_inv, simp add: pool_inv_def from_buffers_def)

text \<open>C36. No task sleeps while a buffer is free: under every interleaving of polls, cancellations and returns of buffers, a
  task that is parked and was not woken finds the pool empty; no waker is queued twice; and no buffer is lost.\<close>

theorem pool_no_lost_wakeup:
  assumes "pool_reachable bs s"
  shows "(w \<in> py_parked s \<and> w \<notin> py_woken s \<longrightarrow> pool_available (py_pool s) = 0 \<and> mset (py_held s) = mset bs) \<and>
    distinct (bp_waiters (py_pool s)) \<and> mset (py_held s) + mset (bp_free (py_pool s)) = mset bs"
  using pool_reachable_inv [OF assms] by (auto simp: pool_inv_def pool_available_def)

theorem pool_no_lost_wakeup_witness:
  "(let s = \<lparr>py_pool = \<lparr>bp_free = [], bp_waiters = [3], bp_capacity = 0\<rparr>, py_held = [], py_parked = {3}, py_woken = {}\<rparr>
    in pool_available (py_pool s) = 0 \<and> mset (py_held s) = mset ([] :: nat list))"
proof -
  let ?s = "\<lparr>py_pool = from_buffers ([] :: nat list), py_held = [], py_parked = {}, py_woken = {}\<rparr>"
  have "pool_poll 3 (py_pool ?s) = (None, \<lparr>bp_free = [], bp_waiters = [3], bp_capacity = 0\<rparr>)" by code_simp
  from pool_step.park [OF this] have "pool_step ?s
      \<lparr>py_pool = \<lparr>bp_free = [], bp_waiters = [3], bp_capacity = 0\<rparr>, py_held = [], py_parked = {3}, py_woken = {}\<rparr>" by simp
  then have "pool_reachable [] \<lparr>py_pool = \<lparr>bp_free = [], bp_waiters = [3], bp_capacity = 0\<rparr>, py_held = ([] :: nat list),
      py_parked = {3}, py_woken = {}\<rparr>"
    by (rule pool_reachable.step [OF pool_reachable.start])
  from pool_no_lost_wakeup [OF this, of 3] show ?thesis by simp
qed

text \<open>The heap-free pool keeps one waker: with two tasks waiting, the one that parked first is not woken by the buffer
  that comes back, which is why it documents a single waiter.\<close>

lemma static_pool_single_waiter:
  "(let (_, p) = static_poll 1 (static_new ([] :: nat list)); (_, p) = static_poll 2 p in fst (static_release 9 p)) = Some 2"
  by code_simp

end
