(* ===== verification/Clocks.thy ===== *)
theory Clocks
  imports StateControl
begin

text \<open>
  Clocks (\<^verbatim>\<open>clock.rs\<close>): the election of a pipeline clock and the monitor that repeats it when the elected clock
  is lost (\<^verbatim>\<open>runtime/graph_runner.rs\<close>), the base time a sink presents against, and where a capture source's own
  timeline sits on it. A shared clock handle is a value of a type \<open>'c\<close>; what it reads and whether it is healthy
  are functions of the handle at the moment of the call.
\<close>

section \<open>Election\<close>

datatype clock_priority = SystemFallback | Provider | AudioProvider | LiveSource | PtpGrandmaster

fun priority_rank :: "clock_priority \<Rightarrow> nat" where
  "priority_rank SystemFallback = 0"
| "priority_rank Provider = 1"
| "priority_rank AudioProvider = 2"
| "priority_rank LiveSource = 3"
| "priority_rank PtpGrandmaster = 4"

lemma priority_rank_inject [simp]: "priority_rank p = priority_rank q \<longleftrightarrow> p = q"
  by (cases p; cases q) simp_all

instantiation clock_priority :: linorder
begin

definition less_eq_clock_priority :: "clock_priority \<Rightarrow> clock_priority \<Rightarrow> bool" where
  "p \<le> q \<longleftrightarrow> priority_rank p \<le> priority_rank q"

definition less_clock_priority :: "clock_priority \<Rightarrow> clock_priority \<Rightarrow> bool" where
  "p < q \<longleftrightarrow> priority_rank p < priority_rank q"

instance
  by standard (auto simp: less_eq_clock_priority_def less_clock_priority_def)

end

record 'c clock_candidate =
  cc_priority :: clock_priority
  cc_clock :: 'c

definition elect_pick :: "'c clock_candidate option \<Rightarrow> 'c clock_candidate \<Rightarrow> 'c clock_candidate option" where
  "elect_pick best c =
     (case best of
        Some b \<Rightarrow> if cc_priority c \<le> cc_priority b then Some b else Some c
      | None \<Rightarrow> Some c)"

definition elect_clock :: "'c clock_candidate option list \<Rightarrow> 'c clock_candidate option" where
  "elect_clock cs = foldl elect_pick None (List.map_filter id cs)"

section \<open>Base time\<close>

text \<open>
  A sink's view of the elected clock. \<open>cs_play_anchor\<close> is \<open>None\<close> on the eager path, else the word in the shared
  anchor cell, read with \<open>anchor_get\<close>.
\<close>

record 'c clock_sync =
  cs_clock :: 'c
  cs_base_time_ns :: u64
  cs_play_anchor :: "u64 option"
  cs_path_live :: bool
  cs_path_latency_min_ns :: u64

definition sync_new :: "'c \<Rightarrow> u64 \<Rightarrow> 'c clock_sync" where
  "sync_new clock base = \<lparr>cs_clock = clock, cs_base_time_ns = base, cs_play_anchor = None, cs_path_live = False, cs_path_latency_min_ns = 0\<rparr>"

definition with_play_anchor :: "'c \<Rightarrow> u64 \<Rightarrow> u64 \<Rightarrow> 'c clock_sync" where
  "with_play_anchor clock base anchor =
     \<lparr>cs_clock = clock, cs_base_time_ns = base, cs_play_anchor = Some anchor, cs_path_live = False, cs_path_latency_min_ns = 0\<rparr>"

definition base_time :: "'c clock_sync \<Rightarrow> u64" where
  "base_time s =
     (case cs_play_anchor s of
        Some a \<Rightarrow> (case anchor_get a of Some v \<Rightarrow> v | None \<Rightarrow> cs_base_time_ns s)
      | None \<Rightarrow> cs_base_time_ns s)"

definition play_anchored :: "'c clock_sync \<Rightarrow> bool" where
  "play_anchored s = (case cs_play_anchor s of Some a \<Rightarrow> anchor_get a \<noteq> None | None \<Rightarrow> False)"

definition set_path_latency_min_ns :: "u64 \<Rightarrow> 'c clock_sync \<Rightarrow> 'c clock_sync" where
  "set_path_latency_min_ns m s = s\<lparr>cs_path_latency_min_ns := m\<rparr>"

text \<open>\<open>now\<close> is what the elected clock reads during the call.\<close>

definition capture_stamp :: "u64 \<Rightarrow> 'c clock_sync \<Rightarrow> u64 \<Rightarrow> u64 \<Rightarrow> u64 option \<Rightarrow> u64 \<times> u64 option" where
  "capture_stamp now sync elapsed lead running_zero =
     (let zero = (case running_zero of
                    Some z \<Rightarrow> z
                  | None \<Rightarrow> saturating_sub (saturating_sub now (base_time sync)) lead)
      in (saturating_add zero elapsed, Some zero))"

section \<open>The health monitor\<close>

text \<open>
  One turn of the monitor's loop, after its sleep: \<open>elected\<close> is the clock the shared handle points at, \<open>healthy\<close> the
  health of every handle at this moment. The third component says whether \<^verbatim>\<open>ClockLost\<close> was posted.
\<close>

definition elected_swap :: "'c \<Rightarrow> 'c \<Rightarrow> 'c" where
  "elected_swap target elected = target"

definition monitor_turn :: "'c clock_candidate list \<Rightarrow> ('c \<Rightarrow> bool) \<Rightarrow> 'c \<times> bool \<Rightarrow> ('c \<times> bool) \<times> bool" where
  "monitor_turn candidates healthy st =
     (let (elected, was_healthy) = st in
      if healthy elected \<or> \<not> was_healthy then ((elected, healthy elected), False)
      else (case elect_clock (map Some (filter (\<lambda>c. healthy (cc_clock c)) candidates)) of
              Some c \<Rightarrow> (let elected = elected_swap (cc_clock c) elected in ((elected, healthy elected), True))
            | None \<Rightarrow> ((elected, False), True)))"

fun monitor_run :: "'c clock_candidate list \<Rightarrow> ('c \<Rightarrow> bool) list \<Rightarrow> 'c \<times> bool \<Rightarrow> ('c \<times> bool) \<times> bool list" where
  "monitor_run candidates [] st = (st, [])"
| "monitor_run candidates (h # hs) st =
     (let (st, posted) = monitor_turn candidates h st; (st, rest) = monitor_run candidates hs st in (st, posted # rest))"

section \<open>Lemmas\<close>

lemma elect_pick_simps [simp]:
  "elect_pick None c = Some c"
  "elect_pick (Some b) c = (if cc_priority c \<le> cc_priority b then Some b else Some c)"
  by (simp_all add: elect_pick_def)

lemma foldl_elect_pick_Some:
  "foldl elect_pick (Some b) cs = Some w \<Longrightarrow>
    (w = b \<and> (\<forall>x\<in>set cs. cc_priority x \<le> cc_priority b)) \<or>
    (cc_priority b < cc_priority w \<and> (\<exists>pre post. cs = pre @ w # post \<and>
      (\<forall>x\<in>set pre. cc_priority x < cc_priority w) \<and> (\<forall>x\<in>set post. cc_priority x \<le> cc_priority w)))"
proof (induction cs arbitrary: b)
  case (Cons c cs)
  show ?case
  proof (cases "cc_priority c \<le> cc_priority b")
    case True
    then have "foldl elect_pick (Some b) cs = Some w" using Cons.prems by simp
    from Cons.IH [OF this] show ?thesis
    proof (elim disjE conjE exE)
      fix pre post
      assume "cc_priority b < cc_priority w" "cs = pre @ w # post" "\<forall>x\<in>set pre. cc_priority x < cc_priority w"
        "\<forall>x\<in>set post. cc_priority x \<le> cc_priority w"
      then show ?thesis using True by (intro disjI2 conjI exI [of _ "c # pre"] exI [of _ post]) auto
    qed (use True in simp)
  next
    case False
    then have "foldl elect_pick (Some c) cs = Some w" using Cons.prems by simp
    from Cons.IH [OF this] show ?thesis
    proof (elim disjE conjE exE)
      assume "w = c" "\<forall>x\<in>set cs. cc_priority x \<le> cc_priority c"
      then show ?thesis using False by (intro disjI2 conjI exI [of _ "[]"] exI [of _ cs]) auto
    next
      fix pre post
      assume "cc_priority c < cc_priority w" "cs = pre @ w # post" "\<forall>x\<in>set pre. cc_priority x < cc_priority w"
        "\<forall>x\<in>set post. cc_priority x \<le> cc_priority w"
      then show ?thesis using False by (intro disjI2 conjI exI [of _ "c # pre"] exI [of _ post]) auto
    qed
  qed
qed simp

definition elected_of :: "'c clock_candidate list \<Rightarrow> 'c clock_candidate \<Rightarrow> bool" where
  "elected_of cs w \<longleftrightarrow> (\<exists>pre post. cs = pre @ w # post \<and> (\<forall>x\<in>set pre. cc_priority x < cc_priority w) \<and>
     (\<forall>x\<in>set post. cc_priority x \<le> cc_priority w))"

lemma elected_of_unique: "elected_of cs v \<Longrightarrow> elected_of cs w \<Longrightarrow> v = w"
  unfolding elected_of_def
proof (elim exE conjE)
  fix p q p' q'
  assume a: "cs = p @ v # q" "\<forall>x\<in>set p. cc_priority x < cc_priority v" "\<forall>x\<in>set q. cc_priority x \<le> cc_priority v"
    "cs = p' @ w # q'" "\<forall>x\<in>set p'. cc_priority x < cc_priority w" "\<forall>x\<in>set q'. cc_priority x \<le> cc_priority w"
  then have "p @ v # q = p' @ w # q'" by simp
  then consider "p = p'" "v = w" | r where "p' = p @ v # r" "w \<in> set q" | r where "p = p' @ w # r" "v \<in> set q'"
    by (auto simp: append_eq_append_conv2 append_eq_Cons_conv Cons_eq_append_conv)
  then show "v = w" using a by cases force+
qed

lemma elect_clock_elected: "elect_clock cs = Some w \<Longrightarrow> elected_of (List.map_filter id cs) w"
proof -
  assume "elect_clock cs = Some w"
  then obtain c ds where d: "List.map_filter id cs = c # ds" "foldl elect_pick (Some c) ds = Some w"
    by (cases "List.map_filter id cs") (auto simp: elect_clock_def)
  from foldl_elect_pick_Some [OF d(2)] show ?thesis
  proof (elim disjE conjE exE)
    assume "w = c" "\<forall>x\<in>set ds. cc_priority x \<le> cc_priority c"
    then show ?thesis unfolding elected_of_def d(1) by (intro exI [of _ "[]"] exI [of _ ds]) simp
  next
    fix pre post
    assume "cc_priority c < cc_priority w" "ds = pre @ w # post" "\<forall>x\<in>set pre. cc_priority x < cc_priority w"
      "\<forall>x\<in>set post. cc_priority x \<le> cc_priority w"
    then show ?thesis unfolding elected_of_def d(1) by (intro exI [of _ "c # pre"] exI [of _ post]) simp
  qed
qed

lemma foldl_elect_pick_not_None: "foldl elect_pick (Some b) cs \<noteq> None"
  by (induction cs arbitrary: b) auto

lemma elect_clock_None: "elect_clock cs = None \<longleftrightarrow> List.map_filter id cs = []"
  using foldl_elect_pick_not_None
  by (cases "List.map_filter id cs") (auto simp: elect_clock_def)

lemma elect_clock_iff: "elect_clock cs = Some w \<longleftrightarrow> elected_of (List.map_filter id cs) w"
proof
  assume e: "elected_of (List.map_filter id cs) w"
  then have "elect_clock cs \<noteq> None" by (auto simp: elect_clock_None elected_of_def)
  then show "elect_clock cs = Some w" using elected_of_unique [OF e] elect_clock_elected by fastforce
qed (rule elect_clock_elected)

section \<open>Properties\<close>

lemma map_filter_Some [simp]: "List.map_filter id (map Some xs) = xs"
  by (induction xs) (simp_all add: map_filter_def)

text \<open>
  The elected clock is the first, in pipeline order, among the candidates of the highest priority on offer; and a clock is elected
  exactly when some element offers one.
\<close>

theorem election_first_of_highest:
  "(elect_clock cs = Some w \<longleftrightarrow> elected_of (List.map_filter id cs) w) \<and> (elect_clock cs = None \<longleftrightarrow> List.map_filter id cs = [])"
  using elect_clock_iff elect_clock_None by blast

lemma elected_of_member: "elected_of cs w \<Longrightarrow> w \<in> set cs"
  by (auto simp: elected_of_def)

text \<open>
  One turn of the health monitor: \<^verbatim>\<open>ClockLost\<close> is posted exactly on a healthy to unhealthy edge of the elected clock.
  Then, and only then, the clock may change; if any candidate is healthy the first of the highest priority among the healthy ones is
  taken, so the pipeline ends the turn on a healthy clock, and otherwise it keeps the clock it has. The remembered health is
  always that of the clock the turn ends with.
\<close>

theorem monitor_turn_contract:
  "monitor_turn candidates healthy (elected, was_healthy) =
     (let lost = (was_healthy \<and> \<not> healthy elected);
          good = filter (\<lambda>c. healthy (cc_clock c)) candidates;
          next_clock = (if lost \<and> good \<noteq> [] then cc_clock (the (elect_clock (map Some good))) else elected)
      in ((next_clock, healthy next_clock), lost)) \<and>
   (case elect_clock (map Some (filter (\<lambda>c. healthy (cc_clock c)) candidates)) of
      Some w \<Rightarrow> healthy (cc_clock w) \<and> w \<in> set candidates \<and> elected_of (filter (\<lambda>c. healthy (cc_clock c)) candidates) w
    | None \<Rightarrow> (\<nexists>c. c \<in> set candidates \<and> healthy (cc_clock c)))"
proof (cases "elect_clock (map Some (filter (\<lambda>c. healthy (cc_clock c)) candidates))")
  case None
  then have "filter (\<lambda>c. healthy (cc_clock c)) candidates = []" by (simp add: elect_clock_None)
  then show ?thesis using None by (auto simp: monitor_turn_def Let_def filter_empty_conv)
next
  case (Some w)
  then have e: "elected_of (filter (\<lambda>c. healthy (cc_clock c)) candidates) w" by (simp add: elect_clock_iff)
  then have "w \<in> set (filter (\<lambda>c. healthy (cc_clock c)) candidates)" by (rule elected_of_member)
  then have "filter (\<lambda>c. healthy (cc_clock c)) candidates \<noteq> []" "healthy (cc_clock w)" "w \<in> set candidates" by (auto simp: filter_empty_conv)
  then show ?thesis using Some e by (auto simp: monitor_turn_def Let_def elected_swap_def)
qed

text \<open>A source's stamps keep the spacing of its own timeline: the anchor is taken once, at the first buffer.\<close>

lemma capture_stamp_anchors_once: "snd (capture_stamp now s e l (Some z)) = Some z" "fst (capture_stamp now s e l (Some z)) = saturating_add z e"
  by (simp_all add: capture_stamp_def)

lemma capture_stamp_spacing:
  assumes "unat z + unat e < 2 ^ 64"
  shows "unat (fst (capture_stamp now s e l (Some z))) = unat z + unat e"
  using assms by (simp add: capture_stamp_def unat_saturating_add)

text \<open>Until the play edge stamps the anchor a sink presents against the eager base time, afterwards against the stamp.\<close>

lemma base_time_cases:
  "base_time s = (if play_anchored s then the (cs_play_anchor s) else cs_base_time_ns s)"
  by (auto simp: base_time_def play_anchored_def anchor_get_def split: option.splits if_splits)

end
