(* ===== verification/Latency.thy ===== *)
theory Latency
  imports GraphBuild Clocks "HOL-Library.Extended_Nat"
begin

text \<open>
  Latency (\<^verbatim>\<open>query.rs\<close>, the fold of \<^verbatim>\<open>runtime/graph_runner.rs\<close>): what one element adds, how contributions add up along
  a path and meet at a fan-in, and the fold over a validated graph that a run repeats whenever an element reports
  a new latency. What an element reports, and the floor a fan-in puts under its branches, are given by the caller.
\<close>

section \<open>Reports\<close>

record latency_report =
  lr_live :: bool
  lr_min_ns :: u64
  lr_max_ns :: "u64 option"

definition lr_ZERO :: latency_report where
  "lr_ZERO = \<lparr>lr_live = False, lr_min_ns = 0, lr_max_ns = Some 0\<rparr>"

definition report_live :: "u64 \<Rightarrow> u64 option \<Rightarrow> latency_report" where
  "report_live m x = \<lparr>lr_live = True, lr_min_ns = m, lr_max_ns = x\<rparr>"

definition report_buffered :: "u64 \<Rightarrow> u64 option \<Rightarrow> latency_report" where
  "report_buffered m x = \<lparr>lr_live = False, lr_min_ns = m, lr_max_ns = x\<rparr>"

definition combine :: "latency_report \<Rightarrow> latency_report \<Rightarrow> latency_report" where
  "combine self nxt =
     \<lparr>lr_live = (lr_live self \<or> lr_live nxt), lr_min_ns = saturating_add (lr_min_ns self) (lr_min_ns nxt),
      lr_max_ns = (case (lr_max_ns self, lr_max_ns nxt) of (Some a, Some b) \<Rightarrow> Some (saturating_add a b) | _ \<Rightarrow> None)\<rparr>"

definition lat_join_branches :: "latency_report \<Rightarrow> latency_report \<Rightarrow> latency_report" where
  "lat_join_branches self other =
     \<lparr>lr_live = (lr_live self \<or> lr_live other), lr_min_ns = max (lr_min_ns self) (lr_min_ns other),
      lr_max_ns = (case (lr_max_ns self, lr_max_ns other) of
          (Some a, Some b) \<Rightarrow> Some (min a b)
        | (Some a, None) \<Rightarrow> Some a
        | (None, Some a) \<Rightarrow> Some a
        | (None, None) \<Rightarrow> None)\<rparr>"

definition lat_aggregate :: "latency_report list \<Rightarrow> latency_report" where
  "lat_aggregate reports = foldl combine lr_ZERO reports"

definition is_unsatisfiable :: "latency_report \<Rightarrow> bool" where
  "is_unsatisfiable r = (case lr_max_ns r of Some m \<Rightarrow> m < lr_min_ns r | None \<Rightarrow> False)"

definition with_path_latency :: "latency_report \<Rightarrow> 'c clock_sync \<Rightarrow> 'c clock_sync" where
  "with_path_latency report s = s\<lparr>cs_path_live := lr_live report, cs_path_latency_min_ns := lr_min_ns report\<rparr>"

section \<open>The fold over a graph\<close>

text \<open>\<^verbatim>\<open>Iterator::reduce\<close>.\<close>

fun reduce :: "('a \<Rightarrow> 'a \<Rightarrow> 'a) \<Rightarrow> 'a list \<Rightarrow> 'a option" where
  "reduce f [] = None"
| "reduce f (x # xs) = Some (foldl f x xs)"

record latency_paths =
  lp_topo :: "node_id list"
  lp_upstream_nodes :: "node_id list list"
  lp_upstream_floors :: "u64 list"
  lp_terminals :: "node_id list"

definition join_all :: "latency_report list \<Rightarrow> latency_report" where
  "join_all rs = (case reduce lat_join_branches rs of Some r \<Rightarrow> r | None \<Rightarrow> lr_ZERO)"

definition lat_value :: "latency_paths \<Rightarrow> latency_report list \<Rightarrow> (node_id \<Rightarrow> latency_report) \<Rightarrow> node_id \<Rightarrow> latency_report" where
  "lat_value p reports upstream node =
     (let incoming = join_all (map upstream (lp_upstream_nodes p ! node));
          incoming = incoming\<lparr>lr_min_ns := max (lr_min_ns incoming) (lp_upstream_floors p ! node)\<rparr>
      in combine incoming (reports ! node))"

definition paths_fold :: "latency_paths \<Rightarrow> latency_report list \<Rightarrow> latency_report list \<Rightarrow> latency_report list \<times> latency_report" where
  "paths_fold p reports upstream =
     (let upstream = foldl (\<lambda>up node. up[node := lat_value p reports ((!) up) node]) upstream (lp_topo p)
      in (upstream, join_all (map ((!) upstream) (lp_terminals p))))"

record 'c latency_fold =
  lf_paths :: latency_paths
  lf_reports :: "latency_report list"
  lf_upstream :: "latency_report list"
  lf_aggregate :: latency_report
  lf_sync :: "'c clock_sync option"

text \<open>\<open>lat\<close> is what an element reports now, \<open>fl\<close> its floor (zero unless it is a muxer).\<close>

definition element_latency :: "('e \<Rightarrow> latency_report) \<Rightarrow> ('e, 'p) validated_graph \<Rightarrow> node_id \<Rightarrow> latency_report option" where
  "element_latency lat vg node = map_option lat (nd_element (vg_nodes vg ! node))"

definition min_upstream_latency :: "('e \<Rightarrow> u64) \<Rightarrow> ('e, 'p) validated_graph \<Rightarrow> node_id \<Rightarrow> u64" where
  "min_upstream_latency fl vg node = (case nd_element (vg_nodes vg ! node) of Some e \<Rightarrow> fl e | None \<Rightarrow> 0)"

definition paths_new :: "('e \<Rightarrow> u64) \<Rightarrow> ('e, 'p) validated_graph \<Rightarrow> node_id list \<Rightarrow> latency_paths" where
  "paths_new fl vg topo =
     \<lparr>lp_topo = topo,
      lp_upstream_nodes = foldl (\<lambda>ups node. ups[node := map (edge_src vg) (in_edges_of vg node)]) (replicate (node_count vg) []) topo,
      lp_upstream_floors = foldl (\<lambda>fs node. fs[node := min_upstream_latency fl vg node]) (replicate (node_count vg) 0) topo,
      lp_terminals = filter (\<lambda>node. out_edges_of vg node = []) topo\<rparr>"

definition fold_new :: "('e \<Rightarrow> latency_report) \<Rightarrow> ('e \<Rightarrow> u64) \<Rightarrow> ('e, 'p) validated_graph \<Rightarrow> node_id list \<Rightarrow> 'c latency_fold" where
  "fold_new lat fl vg topo =
     (let paths = paths_new fl vg topo;
          reports = foldl (\<lambda>rs node. rs[node := (case element_latency lat vg node of Some r \<Rightarrow> r | None \<Rightarrow> lr_ZERO)])
            (replicate (node_count vg) lr_ZERO) topo;
          (upstream, agg) = paths_fold paths reports (replicate (node_count vg) lr_ZERO)
      in \<lparr>lf_paths = paths, lf_reports = reports, lf_upstream = upstream, lf_aggregate = agg, lf_sync = None\<rparr>)"

definition fold_publish :: "node_id \<Rightarrow> latency_report \<Rightarrow> 'c latency_fold \<Rightarrow> 'c latency_fold" where
  "fold_publish node report f =
     (let reports = (lf_reports f)[node := report];
          (upstream, agg) = paths_fold (lf_paths f) reports (lf_upstream f)
      in f\<lparr>lf_reports := reports, lf_upstream := upstream, lf_aggregate := agg,
           lf_sync := map_option (set_path_latency_min_ns (lr_min_ns agg)) (lf_sync f)\<rparr>)"

text \<open>A publisher remembers what it last published for its node.\<close>

definition publisher_observe :: "node_id \<Rightarrow> latency_report \<Rightarrow> latency_report \<times> 'c latency_fold \<Rightarrow> latency_report \<times> 'c latency_fold" where
  "publisher_observe node report st =
     (let (published, f) = st in if report = published then st else (report, fold_publish node report f))"

section \<open>Folds in topological order\<close>

text \<open>A value computed at each node from the nodes before it does not depend on what the slots held at the start.\<close>

definition topo_fold :: "((nat \<Rightarrow> 'a) \<Rightarrow> nat \<Rightarrow> 'a) \<Rightarrow> nat list \<Rightarrow> 'a list \<Rightarrow> 'a list" where
  "topo_fold val order xs = foldl (\<lambda>up v. up[v := val ((!) up) v]) xs order"

definition reads_before :: "((nat \<Rightarrow> 'a) \<Rightarrow> nat \<Rightarrow> 'a) \<Rightarrow> nat list \<Rightarrow> bool" where
  "reads_before val order \<longleftrightarrow>
     (\<forall>f g pre v post. order = pre @ v # post \<longrightarrow> (\<forall>u\<in>set pre. f u = g u) \<longrightarrow> val f v = val g v)"

lemma length_topo_fold [simp]: "length (topo_fold val order xs) = length xs"
  unfolding topo_fold_def by (induction order arbitrary: xs) simp_all

lemma reads_before_prefix: "reads_before val (order @ rest) \<Longrightarrow> reads_before val order"
  unfolding reads_before_def by (metis append.assoc append_Cons)

lemma topo_fold_snoc: "topo_fold val (order @ [v]) xs = (topo_fold val order xs)[v := val ((!) (topo_fold val order xs)) v]"
  by (simp add: topo_fold_def)

lemma topo_fold_untouched: "v \<notin> set order \<Longrightarrow> topo_fold val order xs ! v = xs ! v"
  by (induction order rule: rev_induct) (auto simp: topo_fold_snoc topo_fold_def)

lemma topo_fold_fixpoint:
  assumes "reads_before val order" "distinct order" "set order \<subseteq> {..<length xs}" "v \<in> set order"
  shows "topo_fold val order xs ! v = val ((!) (topo_fold val order xs)) v"
  using assms
proof (induction order rule: rev_induct)
  case (snoc w order)
  let ?r = "topo_fold val order xs"
  have rb: "reads_before val order" using snoc.prems(1) reads_before_prefix by blast
  have w: "w \<notin> set order" "w < length xs" using snoc.prems by auto
  obtain pre post where v: "order @ [w] = pre @ v # post" using snoc.prems(4) by (meson split_list)
  then have "w \<notin> set pre" using snoc.prems(2) by (metis append_is_Nil_conv distinct.simps(2) distinct_append disjoint_iff last_appendR last_in_set
        last_snoc list.discI list.set_intros(1) not_distinct_conv_prefix last_ConsL last_ConsR set_ConsD)
  then have "val ((!) (?r[w := x])) v = val ((!) ?r) v" for x
    using snoc.prems(1) v unfolding reads_before_def by (metis nth_list_update_neq)
  then show ?case using snoc.IH [OF rb] snoc.prems(2,3,4) w by (cases "v = w") (auto simp: topo_fold_snoc)
qed simp

lemma topo_fold_unique:
  assumes "reads_before val order" and "\<forall>v\<in>set order. f v = val f v" and "\<forall>v\<in>set order. g v = val g v"
  shows "\<forall>v\<in>set order. f v = g v"
  using assms
proof (induction order rule: rev_induct)
  case (snoc w order)
  have "\<forall>v\<in>set order. f v = g v" using snoc reads_before_prefix by fastforce
  moreover have "f w = g w" using calculation snoc.prems unfolding reads_before_def by (metis append_Nil2 in_set_conv_decomp)
  ultimately show ?case by auto
qed simp

lemma topo_fold_start:
  assumes "reads_before val order" "distinct order" "set order \<subseteq> {..<length xs}" "length ys = length xs" "v \<in> set order"
  shows "topo_fold val order xs ! v = topo_fold val order ys ! v"
  using topo_fold_unique [OF assms(1), of "(!) (topo_fold val order xs)" "(!) (topo_fold val order ys)"]
    topo_fold_fixpoint [OF assms(1,2)] assms(3,4,5) by simp

section \<open>The fold on a validated graph\<close>

lemma foldl_update_nth:
  "set order \<subseteq> {..<length xs} \<Longrightarrow> foldl (\<lambda>ys v. ys[v := h v]) xs order ! u = (if u \<in> set order then h u else xs ! u)"
  by (induction order arbitrary: xs) (auto simp: nth_list_update)

lemma paths_fold_topo:
  "paths_fold p reports up =
    (topo_fold (lat_value p reports) (lp_topo p) up, join_all (map ((!) (topo_fold (lat_value p reports) (lp_topo p) up)) (lp_terminals p)))"
  by (simp add: paths_fold_def topo_fold_def Let_def)

lemma paths_new_simps [simp]:
  assumes "graph_ok vg" and "v < node_count vg"
  shows "lp_upstream_nodes (paths_new fl vg (vg_topo vg)) ! v = map (edge_src vg) (in_edges_of vg v)"
    and "lp_upstream_floors (paths_new fl vg (vg_topo vg)) ! v = min_upstream_latency fl vg v"
  using assms graph_ok_topo [OF assms(1)] by (simp_all add: paths_new_def foldl_update_nth)

lemma paths_new_topo [simp]: "lp_topo (paths_new fl vg topo) = topo"
  "lp_terminals (paths_new fl vg topo) = filter (\<lambda>node. out_edges_of vg node = []) topo"
  by (simp_all add: paths_new_def)

lemma precedes_prefix:
  assumes "distinct xs" "xs = pre @ v # post" "precedes xs u v"
  shows "u \<in> set pre"
proof -
  obtain i j where "i < j" "j < length xs" "xs ! i = u" "xs ! j = v" using assms(3) by (auto simp: precedes_def in_set_conv_nth)
  moreover have "j = length pre"
    using nth_eq_iff_index_eq [OF assms(1), of j "length pre"] calculation assms(2) by simp
  ultimately show ?thesis using assms(2) by (auto simp: nth_append)
qed

lemma reads_before_latency:
  assumes ok: "graph_ok vg"
  shows "reads_before (lat_value (paths_new fl vg (vg_topo vg)) reports) (vg_topo vg)"
  unfolding reads_before_def
proof (intro allI impI)
  fix f g :: "node_id \<Rightarrow> latency_report" and pre v post
  assume t: "vg_topo vg = pre @ v # post" and eq: "\<forall>u\<in>set pre. f u = g u"
  have v: "v < node_count vg" using graph_ok_topo(2) [OF ok] t by auto
  have "f (edge_src vg e) = g (edge_src vg e)" if "e \<in> set (in_edges_of vg v)" for e
  proof -
    have "e < edge_count vg" "edge_dst vg e = v" using that graph_ok_in_edges(1) [OF ok v] by auto
    then have "precedes (vg_topo vg) (edge_src vg e) v" using graph_ok_edges(3) [OF ok] by blast
    then show ?thesis using precedes_prefix [OF graph_ok_topo(1) [OF ok] t] eq by blast
  qed
  then show "lat_value (paths_new fl vg (vg_topo vg)) reports f v = lat_value (paths_new fl vg (vg_topo vg)) reports g v"
    using ok v by (simp add: lat_value_def comp_def cong: map_cong)
qed

text \<open>The latency up to and including each node, as the fold leaves it.\<close>

definition settled :: "('e \<Rightarrow> u64) \<Rightarrow> ('e, 'p) validated_graph \<Rightarrow> latency_report list \<Rightarrow> node_id \<Rightarrow> latency_report" where
  "settled fl vg reports v =
     topo_fold (lat_value (paths_new fl vg (vg_topo vg)) reports) (vg_topo vg) (replicate (node_count vg) lr_ZERO) ! v"

lemma settled_eq:
  assumes "graph_ok vg" "v < node_count vg"
  shows "settled fl vg reports v =
    (let incoming = join_all (map (\<lambda>e. settled fl vg reports (edge_src vg e)) (in_edges_of vg v))
     in combine (incoming\<lparr>lr_min_ns := max (lr_min_ns incoming) (min_upstream_latency fl vg v)\<rparr>) (reports ! v))"
  using topo_fold_fixpoint [OF reads_before_latency [OF assms(1)] graph_ok_topo(1) [OF assms(1)],
      of "replicate (node_count vg) lr_ZERO" v fl reports] graph_ok_topo(2) [OF assms(1)] assms
  by (simp add: settled_def [abs_def] lat_value_def Let_def comp_def)

lemma fold_from_any_start:
  assumes ok: "graph_ok vg" and "length up = node_count vg"
  shows "snd (paths_fold (paths_new fl vg (vg_topo vg)) reports up) =
      join_all (map (settled fl vg reports) (filter (\<lambda>v. out_edges_of vg v = []) (vg_topo vg)))"
    and "length (fst (paths_fold (paths_new fl vg (vg_topo vg)) reports up)) = node_count vg"
proof -
  have "topo_fold (lat_value (paths_new fl vg (vg_topo vg)) reports) (vg_topo vg) up ! v = settled fl vg reports v"
    if "v \<in> set (vg_topo vg)" for v
    unfolding settled_def
    by (rule topo_fold_start [OF reads_before_latency [OF ok] graph_ok_topo(1) [OF ok]])
      (use graph_ok_topo(2) [OF ok] assms(2) that in simp_all)
  then have "map ((!) (topo_fold (lat_value (paths_new fl vg (vg_topo vg)) reports) (vg_topo vg) up))
      (filter (\<lambda>v. out_edges_of vg v = []) (vg_topo vg)) =
    map (settled fl vg reports) (filter (\<lambda>v. out_edges_of vg v = []) (vg_topo vg))"
    by (intro map_cong) auto
  then show "snd (paths_fold (paths_new fl vg (vg_topo vg)) reports up) =
      join_all (map (settled fl vg reports) (filter (\<lambda>v. out_edges_of vg v = []) (vg_topo vg)))"
    unfolding paths_fold_topo snd_conv paths_new_topo by (rule arg_cong)
qed (simp add: paths_fold_topo assms)

section \<open>Joins and sums\<close>

text \<open>The ceiling of a report: how much it can absorb, without bound or up to a number.\<close>

definition ceiling_of :: "latency_report \<Rightarrow> enat" where
  "ceiling_of r = (case lr_max_ns r of None \<Rightarrow> \<infinity> | Some m \<Rightarrow> enat (unat m))"

definition u64_max :: nat where "u64_max = 2 ^ 64 - 1"

lemma unat_max: "unat (max a b :: 'a::len word) = max (unat a) (unat b)"
  by (simp add: max_def word_le_nat_alt)

lemma join_branches_simps [simp]:
  "unat (lr_min_ns (lat_join_branches a b)) = max (unat (lr_min_ns a)) (unat (lr_min_ns b))"
  "lr_live (lat_join_branches a b) = (lr_live a \<or> lr_live b)"
  "ceiling_of (lat_join_branches a b) = min (ceiling_of a) (ceiling_of b)"
  by (auto simp: lat_join_branches_def ceiling_of_def unat_max min_def word_le_nat_alt split: option.split)

lemma unat_le_u64_max: "unat (w :: u64) \<le> u64_max"
  using unat_lt2p [of w] by (simp add: u64_max_def)

lemma combine_simps [simp]:
  "unat (lr_min_ns (combine a b)) = min u64_max (unat (lr_min_ns a) + unat (lr_min_ns b))"
  "lr_live (combine a b) = (lr_live a \<or> lr_live b)"
  "ceiling_of (combine a b) = (case ceiling_of a + ceiling_of b of \<infinity> \<Rightarrow> \<infinity> | enat n \<Rightarrow> enat (min u64_max n))"
  by (auto simp: combine_def ceiling_of_def unat_saturating_add u64_max_def min.commute split: option.split enat.split)

lemma foldl_join_bounds:
  fixes x :: latency_report and xs :: "latency_report list"
  defines "j \<equiv> foldl lat_join_branches x xs"
  shows "\<forall>r\<in>set (x # xs). unat (lr_min_ns r) \<le> unat (lr_min_ns j) \<and> ceiling_of j \<le> ceiling_of r"
    and "\<exists>r\<in>set (x # xs). unat (lr_min_ns j) = unat (lr_min_ns r)"
    and "\<exists>r\<in>set (x # xs). ceiling_of j = ceiling_of r"
    and "lr_live j \<longleftrightarrow> (\<exists>r\<in>set (x # xs). lr_live r)"
  unfolding j_def
proof (induction xs rule: rev_induct)
  case (snoc y xs)
  {
    case 1
    then show ?case using snoc(1) by (auto simp: max_def min_def)
  next
    case 2
    then show ?case using snoc(2) by (auto simp: max_def)
  next
    case 3
    then show ?case using snoc(3) by (auto simp: min_def)
  next
    case 4
    then show ?case using snoc(4) by auto
  }
qed auto

lemma join_all_bounds:
  assumes "rs \<noteq> []"
  shows "r \<in> set rs \<Longrightarrow> unat (lr_min_ns r) \<le> unat (lr_min_ns (join_all rs))"
    and "r \<in> set rs \<Longrightarrow> ceiling_of (join_all rs) \<le> ceiling_of r"
    and "\<exists>r\<in>set rs. unat (lr_min_ns (join_all rs)) = unat (lr_min_ns r)"
    and "\<exists>r\<in>set rs. ceiling_of (join_all rs) = ceiling_of r"
    and "lr_live (join_all rs) \<longleftrightarrow> (\<exists>r\<in>set rs. lr_live r)"
proof -
  obtain x xs where "rs = x # xs" using assms by (cases rs) auto
  then have eq: "join_all rs = foldl lat_join_branches x xs" "set rs = set (x # xs)" by (simp_all add: join_all_def)
  show "r \<in> set rs \<Longrightarrow> unat (lr_min_ns r) \<le> unat (lr_min_ns (join_all rs))"
      "r \<in> set rs \<Longrightarrow> ceiling_of (join_all rs) \<le> ceiling_of r"
    unfolding eq using foldl_join_bounds(1) [of x xs] by blast+
  show "\<exists>r\<in>set rs. unat (lr_min_ns (join_all rs)) = unat (lr_min_ns r)"
      "\<exists>r\<in>set rs. ceiling_of (join_all rs) = ceiling_of r"
      "lr_live (join_all rs) \<longleftrightarrow> (\<exists>r\<in>set rs. lr_live r)"
    unfolding eq by (rule foldl_join_bounds)+
qed

lemma join_all_Nil [simp]: "join_all [] = lr_ZERO"
  by (simp add: join_all_def)

section \<open>Routes\<close>

definition feeds :: "('e, 'p) validated_graph \<Rightarrow> node_id \<Rightarrow> node_id \<Rightarrow> bool" where
  "feeds vg a b \<longleftrightarrow> (\<exists>e. e < edge_count vg \<and> edge_src vg e = a \<and> edge_dst vg e = b)"

definition route :: "('e, 'p) validated_graph \<Rightarrow> node_id list \<Rightarrow> bool" where
  "route vg ns \<longleftrightarrow> ns \<noteq> [] \<and> set ns \<subseteq> {..<node_count vg} \<and> successively (feeds vg) ns"

definition route_min :: "('e \<Rightarrow> u64) \<Rightarrow> ('e, 'p) validated_graph \<Rightarrow> latency_report list \<Rightarrow> node_id list \<Rightarrow> nat" where
  "route_min fl vg reports ns = unat (min_upstream_latency fl vg (hd ns)) + sum_list (map (\<lambda>v. unat (lr_min_ns (reports ! v))) ns)"

definition route_ceiling :: "latency_report list \<Rightarrow> node_id list \<Rightarrow> enat" where
  "route_ceiling reports ns =
     (case sum_list (map (\<lambda>v. ceiling_of (reports ! v)) ns) of \<infinity> \<Rightarrow> \<infinity> | enat n \<Rightarrow> enat (min u64_max n))"

lemma route_single: "v < node_count vg \<Longrightarrow> route vg [v]"
  by (simp add: route_def)

lemma route_snoc: "ns \<noteq> [] \<Longrightarrow> route vg (ns @ [v]) \<longleftrightarrow> route vg ns \<and> v < node_count vg \<and> feeds vg (last ns) v"
  by (auto simp: route_def successively_append_iff)

lemma route_min_snoc: "ns \<noteq> [] \<Longrightarrow> route_min fl vg reports (ns @ [v]) = route_min fl vg reports ns + unat (lr_min_ns (reports ! v))"
  by (simp add: route_min_def)

lemma feeds_in_edges: "graph_ok vg \<Longrightarrow> v < node_count vg \<Longrightarrow> feeds vg u v \<longleftrightarrow> u \<in> edge_src vg ` set (in_edges_of vg v)"
  using graph_ok_in_edges(1) by (fastforce simp: feeds_def)

lemma feeds_less: "graph_ok vg \<Longrightarrow> feeds vg u v \<Longrightarrow> u < node_count vg \<and> v < node_count vg"
  using graph_ok_edges by (fastforce simp: feeds_def)

lemma node_induct [consumes 2, case_names node]:
  assumes ok: "graph_ok vg" and "v < node_count vg"
    and step: "\<And>v. v < node_count vg \<Longrightarrow> (\<And>u. feeds vg u v \<Longrightarrow> P u) \<Longrightarrow> P v"
  shows "P v"
  using assms(2)
proof (induction "the (position ((=) v) (vg_topo vg))" arbitrary: v rule: less_induct)
  case less
  show ?case
  proof (rule step [OF less.prems])
    fix u assume u: "feeds vg u v"
    then have "precedes (vg_topo vg) u v" using graph_ok_edges(3) [OF ok] by (auto simp: feeds_def)
    then show "P u" using less.hyps precedes_index [OF graph_ok_topo(1) [OF ok]] feeds_less [OF ok u] by blast
  qed
qed

definition arriving :: "('e \<Rightarrow> u64) \<Rightarrow> ('e, 'p) validated_graph \<Rightarrow> latency_report list \<Rightarrow> node_id \<Rightarrow> latency_report" where
  "arriving fl vg reports v = join_all (map (\<lambda>e. settled fl vg reports (edge_src vg e)) (in_edges_of vg v))"

lemma settled_simps:
  assumes "graph_ok vg" "v < node_count vg"
  shows "unat (lr_min_ns (settled fl vg reports v)) =
      min u64_max (max (unat (lr_min_ns (arriving fl vg reports v))) (unat (min_upstream_latency fl vg v)) + unat (lr_min_ns (reports ! v)))"
    and "lr_live (settled fl vg reports v) = (lr_live (arriving fl vg reports v) \<or> lr_live (reports ! v))"
    and "ceiling_of (settled fl vg reports v) =
      (case ceiling_of (arriving fl vg reports v) + ceiling_of (reports ! v) of \<infinity> \<Rightarrow> \<infinity> | enat n \<Rightarrow> enat (min u64_max n))"
proof -
  have "ceiling_of (r\<lparr>lr_min_ns := m\<rparr>) = ceiling_of r" for r m by (simp add: ceiling_of_def)
  then show "unat (lr_min_ns (settled fl vg reports v)) =
      min u64_max (max (unat (lr_min_ns (arriving fl vg reports v))) (unat (min_upstream_latency fl vg v)) + unat (lr_min_ns (reports ! v)))"
    "lr_live (settled fl vg reports v) = (lr_live (arriving fl vg reports v) \<or> lr_live (reports ! v))"
    "ceiling_of (settled fl vg reports v) =
      (case ceiling_of (arriving fl vg reports v) + ceiling_of (reports ! v) of \<infinity> \<Rightarrow> \<infinity> | enat n \<Rightarrow> enat (min u64_max n))"
    unfolding settled_eq [OF assms] Let_def arriving_def [symmetric] by (simp_all add: unat_max)
qed

lemma arriving_zero:
  "in_edges_of vg v = [] \<Longrightarrow> unat (lr_min_ns (arriving fl vg reports v)) = 0 \<and> ceiling_of (arriving fl vg reports v) = 0 \<and> \<not> lr_live (arriving fl vg reports v)"
  by (simp add: arriving_def lr_ZERO_def ceiling_of_def zero_enat_def)

lemma arriving_bounds:
  assumes ok: "graph_ok vg" and v: "v < node_count vg" and u: "feeds vg u v"
  shows "unat (lr_min_ns (settled fl vg reports u)) \<le> unat (lr_min_ns (arriving fl vg reports v))"
    and "ceiling_of (arriving fl vg reports v) \<le> ceiling_of (settled fl vg reports u)"
    and "\<exists>w. feeds vg w v \<and> unat (lr_min_ns (arriving fl vg reports v)) = unat (lr_min_ns (settled fl vg reports w))"
    and "\<exists>w. feeds vg w v \<and> ceiling_of (arriving fl vg reports v) = ceiling_of (settled fl vg reports w)"
proof -
  let ?rs = "map (\<lambda>e. settled fl vg reports (edge_src vg e)) (in_edges_of vg v)"
  have s: "set ?rs = settled fl vg reports ` {w. feeds vg w v}" using feeds_in_edges [OF ok v] by auto
  then have ne: "?rs \<noteq> []" and m: "settled fl vg reports u \<in> set ?rs" using u by (force, simp)
  show "unat (lr_min_ns (settled fl vg reports u)) \<le> unat (lr_min_ns (arriving fl vg reports v))"
    "ceiling_of (arriving fl vg reports v) \<le> ceiling_of (settled fl vg reports u)"
    unfolding arriving_def using join_all_bounds(1,2) [OF ne m] by simp_all
  show "\<exists>w. feeds vg w v \<and> unat (lr_min_ns (arriving fl vg reports v)) = unat (lr_min_ns (settled fl vg reports w))"
    "\<exists>w. feeds vg w v \<and> ceiling_of (arriving fl vg reports v) = ceiling_of (settled fl vg reports w)"
    unfolding arriving_def using join_all_bounds(3,4) [OF ne] unfolding s by auto
qed

lemma arriving_live:
  assumes ok: "graph_ok vg" and v: "v < node_count vg"
  shows "lr_live (arriving fl vg reports v) \<longleftrightarrow> (\<exists>u. feeds vg u v \<and> lr_live (settled fl vg reports u))"
proof (cases "in_edges_of vg v = []")
  case True
  then show ?thesis using arriving_zero [OF True] feeds_in_edges [OF ok v] by simp
next
  case False
  then show ?thesis unfolding arriving_def using join_all_bounds(5) feeds_in_edges [OF ok v] by fastforce
qed

lemma route_below:
  assumes ok: "graph_ok vg"
  shows "route vg ns \<Longrightarrow> min u64_max (route_min fl vg reports ns) \<le> unat (lr_min_ns (settled fl vg reports (last ns)))"
proof (induction ns rule: rev_induct)
  case (snoc v ns)
  show ?case
  proof (cases "ns = []")
    case True
    then have "v < node_count vg" using snoc.prems by (simp add: route_def)
    then show ?thesis using True settled_simps(1) [OF ok] by (simp add: route_min_def)
  next
    case False
    then have r: "route vg ns" "v < node_count vg" "feeds vg (last ns) v" using snoc.prems route_snoc by blast+
    have "min u64_max (route_min fl vg reports ns) \<le> unat (lr_min_ns (arriving fl vg reports v))"
      using snoc.IH [OF r(1)] arriving_bounds(1) [OF ok r(2,3), of fl reports] by linarith
    then show ?thesis unfolding route_min_snoc [OF False] last_snoc settled_simps(1) [OF ok r(2)] by linarith
  qed
qed (simp add: route_def)

lemma route_attains:
  assumes "graph_ok vg" "v < node_count vg"
  shows "\<exists>ns. route vg ns \<and> last ns = v \<and> unat (lr_min_ns (settled fl vg reports v)) = min u64_max (route_min fl vg reports ns)"
  using assms
proof (induction rule: node_induct)
  case (node v)
  let ?a = "unat (lr_min_ns (arriving fl vg reports v))"
  show ?case
  proof (cases "\<exists>u. feeds vg u v \<and> ?a = unat (lr_min_ns (settled fl vg reports u)) \<and> unat (min_upstream_latency fl vg v) \<le> ?a")
    case True
    then obtain u ns where u: "feeds vg u v" "?a = min u64_max (route_min fl vg reports ns)" "unat (min_upstream_latency fl vg v) \<le> ?a"
        "route vg ns" "last ns = u"
      using node.IH by metis
    then have "route vg (ns @ [v])" "ns \<noteq> []" using route_snoc [of ns vg v] node.hyps by (auto simp: route_def)
    moreover have "unat (lr_min_ns (settled fl vg reports v)) = min u64_max (route_min fl vg reports (ns @ [v]))"
      unfolding settled_simps(1) [OF assms(1) node.hyps] route_min_snoc [OF calculation(2)] using u(2,3) by linarith
    ultimately show ?thesis by (intro exI [of _ "ns @ [v]"]) simp
  next
    case False
    then have "?a \<le> unat (min_upstream_latency fl vg v)"
      using arriving_bounds(3) [OF assms(1) node.hyps] arriving_zero [of vg v fl reports] feeds_in_edges [OF assms(1) node.hyps]
      by (cases "in_edges_of vg v") (simp, force)
    then have "unat (lr_min_ns (settled fl vg reports v)) = min u64_max (route_min fl vg reports [v])"
      unfolding settled_simps(1) [OF assms(1) node.hyps] by (simp add: route_min_def max_absorb2)
    then show ?thesis using route_single [OF node.hyps] by (intro exI [of _ "[v]"]) simp
  qed
qed

lemma route_ceiling_snoc:
  "route_ceiling reports (ns @ [v]) = (case route_ceiling reports ns + ceiling_of (reports ! v) of \<infinity> \<Rightarrow> \<infinity> | enat n \<Rightarrow> enat (min u64_max n))"
  by (cases "ceiling_of (reports ! v)"; cases "sum_list (map (\<lambda>v. ceiling_of (reports ! v)) ns)") (auto simp: route_ceiling_def)

lemma capped_mono: "a \<le> b \<Longrightarrow> (case a of \<infinity> \<Rightarrow> \<infinity> | enat n \<Rightarrow> enat (min m n)) \<le> (case b of \<infinity> \<Rightarrow> \<infinity> | enat n \<Rightarrow> enat (min m n))"
  by (auto split: enat.split)

lemma route_ceiling_bound:
  assumes ok: "graph_ok vg"
  shows "route vg ns \<Longrightarrow> in_edges_of vg (hd ns) = [] \<Longrightarrow> ceiling_of (settled fl vg reports (last ns)) \<le> route_ceiling reports ns"
proof (induction ns rule: rev_induct)
  case (snoc v ns)
  show ?case
  proof (cases "ns = []")
    case True
    then have "v < node_count vg" "in_edges_of vg v = []" using snoc.prems by (simp_all add: route_def)
    then show ?thesis
      using True settled_simps(3) [OF ok, of v fl reports] arriving_zero [of vg v fl reports] by (simp add: route_ceiling_def)
  next
    case False
    then have r: "route vg ns" "v < node_count vg" "feeds vg (last ns) v" using snoc.prems route_snoc by blast+
    have "ceiling_of (arriving fl vg reports v) \<le> route_ceiling reports ns"
      using snoc.IH [OF r(1)] snoc.prems(2) arriving_bounds(2) [OF ok r(2,3), of fl reports] False by (simp add: order_trans)
    then show ?thesis unfolding last_snoc settled_simps(3) [OF ok r(2)] route_ceiling_snoc by (intro capped_mono add_right_mono)
  qed
qed (simp add: route_def)

lemma route_ceiling_attained:
  assumes "graph_ok vg" "v < node_count vg"
  shows "\<exists>ns. route vg ns \<and> in_edges_of vg (hd ns) = [] \<and> last ns = v \<and> ceiling_of (settled fl vg reports v) = route_ceiling reports ns"
  using assms
proof (induction rule: node_induct)
  case (node v)
  show ?case
  proof (cases "in_edges_of vg v = []")
    case True
    then show ?thesis using settled_simps(3) [OF assms(1) node.hyps, of fl reports] arriving_zero [OF True, of fl reports] route_single [OF node.hyps]
      by (intro exI [of _ "[v]"]) (simp add: route_ceiling_def)
  next
    case False
    then obtain u where "feeds vg u v" using feeds_in_edges [OF assms(1) node.hyps] by (metis empty_iff equals0I image_is_empty set_empty)
    then obtain w where w: "feeds vg w v" "ceiling_of (arriving fl vg reports v) = ceiling_of (settled fl vg reports w)"
      using arriving_bounds(4) [OF assms(1) node.hyps] by blast
    then obtain ns where ns: "route vg ns" "in_edges_of vg (hd ns) = []" "last ns = w" "ceiling_of (settled fl vg reports w) = route_ceiling reports ns"
      using node.IH by blast
    have "ns \<noteq> []" using ns(1) by (simp add: route_def)
    then show ?thesis using ns w node.hyps route_snoc [of ns vg v] settled_simps(3) [OF assms(1) node.hyps, of fl reports]
      by (intro exI [of _ "ns @ [v]"]) (simp add: route_ceiling_snoc)
  qed
qed

lemma route_live:
  assumes "graph_ok vg" "v < node_count vg"
  shows "lr_live (settled fl vg reports v) \<longleftrightarrow> (\<exists>ns. route vg ns \<and> last ns = v \<and> (\<exists>u\<in>set ns. lr_live (reports ! u)))"
  using assms
proof (induction rule: node_induct)
  case (node v)
  have step: "(\<exists>ns. route vg ns \<and> last ns = v \<and> (\<exists>u\<in>set ns. lr_live (reports ! u))) \<longleftrightarrow>
    lr_live (reports ! v) \<or> (\<exists>u. feeds vg u v \<and> (\<exists>ns. route vg ns \<and> last ns = u \<and> (\<exists>u\<in>set ns. lr_live (reports ! u))))"
    (is "?l \<longleftrightarrow> ?r")
  proof
    assume ?l
    then obtain ns where ns: "route vg ns" "last ns = v" "\<exists>u\<in>set ns. lr_live (reports ! u)" by blast
    then obtain ms where m: "ns = ms @ [v]" by (metis append_butlast_last_id route_def)
    show ?r
    proof (cases "ms = []")
      case False
      then show ?thesis using ns m route_snoc [OF False, of vg v] by auto
    qed (use ns m in simp)
  next
    assume ?r
    then show ?l
    proof (elim disjE exE conjE)
      assume "lr_live (reports ! v)"
      then show ?l using route_single [OF node.hyps] by (intro exI [of _ "[v]"]) simp
    next
      fix u ns
      assume "feeds vg u v" "route vg ns" "last ns = u" "\<exists>u\<in>set ns. lr_live (reports ! u)"
      then show ?l using route_snoc [of ns vg v] node.hyps by (intro exI [of _ "ns @ [v]"]) (auto simp: route_def)
    qed
  qed
  show ?case unfolding settled_simps(2) [OF assms(1) node.hyps] arriving_live [OF assms(1) node.hyps] step using node.IH by blast
qed

section \<open>Properties\<close>

lemma reaches_terminal:
  assumes ok: "graph_ok vg" and "v < node_count vg"
  shows "\<exists>ns. route vg ns \<and> v \<in> set ns \<and> out_edges_of vg (last ns) = []"
  using assms(2)
proof (induction "length (vg_topo vg) - the (position ((=) v) (vg_topo vg))" arbitrary: v rule: less_induct)
  case less
  show ?case
  proof (cases "out_edges_of vg v = []")
    case True
    then show ?thesis using route_single [OF less.prems] by (intro exI [of _ "[v]"]) simp
  next
    case False
    then obtain e where e: "e < edge_count vg" "edge_src vg e = v" using graph_ok_in_edges(2) [OF ok less.prems] by (metis last_in_set)
    let ?w = "edge_dst vg e"
    have w: "?w < node_count vg" "precedes (vg_topo vg) v ?w" "feeds vg v ?w" using graph_ok_edges [OF ok e(1)] e by (auto simp: feeds_def)
    have "?w \<in> set (vg_topo vg)" using w(1) graph_ok_topo(2) [OF ok] by simp
    then obtain i where i: "i < length (vg_topo vg)" "vg_topo vg ! i = ?w" by (auto simp: in_set_conv_nth)
    then have "position ((=) ?w) (vg_topo vg) = Some i"
      using nth_eq_iff_index_eq [OF graph_ok_topo(1) [OF ok], of i] unfolding position_Some by fastforce
    then have "length (vg_topo vg) - the (position ((=) ?w) (vg_topo vg)) < length (vg_topo vg) - the (position ((=) v) (vg_topo vg))"
      using precedes_index [OF graph_ok_topo(1) [OF ok] w(2)] i(1) by simp
    then obtain ns where ns: "route vg ns" "?w \<in> set ns" "out_edges_of vg (last ns) = []" using less.hyps w(1) by blast
    then obtain pre post where p: "ns = pre @ ?w # post" by (meson split_list)
    then have "route vg (v # ?w # post)" using ns(1) w(3) less.prems by (auto simp: route_def successively_append_iff)
    then show ?thesis using ns(3) p by (intro exI [of _ "v # ?w # post"]) simp
  qed
qed

definition ending :: "('e, 'p) validated_graph \<Rightarrow> node_id list \<Rightarrow> bool" where
  "ending vg ns \<longleftrightarrow> route vg ns \<and> out_edges_of vg (last ns) = []"

definition spanning :: "('e, 'p) validated_graph \<Rightarrow> node_id list \<Rightarrow> bool" where
  "spanning vg ns \<longleftrightarrow> ending vg ns \<and> in_edges_of vg (hd ns) = []"

lemma ending_last:
  assumes "graph_ok vg" "ending vg ns"
  shows "last ns \<in> set (filter (\<lambda>v. out_edges_of vg v = []) (vg_topo vg))"
proof -
  have "last ns \<in> set ns" "set ns \<subseteq> {..<node_count vg}" using assms(2) by (auto simp: ending_def route_def)
  then have "last ns \<in> {..<node_count vg}" by blast
  then show ?thesis using assms graph_ok_topo(2) [OF assms(1)] by (simp add: ending_def)
qed

text \<open>
  C33. What the fold reports for a validated graph, whatever the scratch slots held before: its minimum is the cost of the most expensive
  route into a terminal (the floor of the first node plus the contributions of all), its ceiling the least a route from a source
  to a terminal can absorb, both capped at the largest 64-bit number, and it is live exactly when some node is.
\<close>

theorem latency_critical_path:
  assumes ok: "graph_ok vg" and up: "length up = node_count vg" and pos: "0 < node_count vg"
    and agg: "snd (paths_fold (paths_new fl vg (vg_topo vg)) reports up) = agg"
  shows "(\<exists>ns. ending vg ns \<and> unat (lr_min_ns agg) = min u64_max (route_min fl vg reports ns)) \<and>
    (\<forall>ns. ending vg ns \<longrightarrow> min u64_max (route_min fl vg reports ns) \<le> unat (lr_min_ns agg)) \<and>
    (\<exists>ns. spanning vg ns \<and> ceiling_of agg = route_ceiling reports ns) \<and>
    (\<forall>ns. spanning vg ns \<longrightarrow> ceiling_of agg \<le> route_ceiling reports ns) \<and>
    (lr_live agg \<longleftrightarrow> (\<exists>v<node_count vg. lr_live (reports ! v)))"
proof -
  define ts where "ts = filter (\<lambda>v. out_edges_of vg v = []) (vg_topo vg)"
  have t: "t < node_count vg" "out_edges_of vg t = []" if "t \<in> set ts" for t using that graph_ok_topo(2) [OF ok] by (auto simp: ts_def)
  have a: "agg = join_all (map (settled fl vg reports) ts)" using fold_from_any_start(1) [OF ok up] agg by (simp add: ts_def)
  have ne: "map (settled fl vg reports) ts \<noteq> []"
  proof -
    obtain ns where "ending vg ns" using reaches_terminal [OF ok pos] by (auto simp: ending_def)
    then have "last ns \<in> set ts" using ending_last [OF ok] by (simp add: ts_def)
    then show ?thesis by auto
  qed
  note b = join_all_bounds [OF ne, folded a]
  obtain t1 where t1: "t1 \<in> set ts" "unat (lr_min_ns agg) = unat (lr_min_ns (settled fl vg reports t1))" using b(3) by auto
  obtain t2 where t2: "t2 \<in> set ts" "ceiling_of agg = ceiling_of (settled fl vg reports t2)" using b(4) by auto
  have 1: "\<exists>ns. ending vg ns \<and> unat (lr_min_ns agg) = min u64_max (route_min fl vg reports ns)"
    using route_attains [OF ok t(1) [OF t1(1)], of fl reports] t(2) [OF t1(1)] t1(2) by (auto simp: ending_def)
  have 2: "\<exists>ns. spanning vg ns \<and> ceiling_of agg = route_ceiling reports ns"
    using route_ceiling_attained [OF ok t(1) [OF t2(1)], of fl reports] t(2) [OF t2(1)] t2(2) by (auto simp: ending_def spanning_def)
  have m: "settled fl vg reports (last ns) \<in> set (map (settled fl vg reports) ts)" if "ending vg ns" for ns
    using ending_last [OF ok that] by (simp add: ts_def)
  have 3: "min u64_max (route_min fl vg reports ns) \<le> unat (lr_min_ns agg)" if "ending vg ns" for ns
    using route_below [OF ok, of ns fl reports] b(1) [OF m [OF that]] that by (simp add: ending_def order_trans)
  have 4: "ceiling_of agg \<le> route_ceiling reports ns" if "spanning vg ns" for ns
    using route_ceiling_bound [OF ok, of ns fl reports] b(2) [OF m] that by (fastforce simp: ending_def spanning_def)
  have 5: "lr_live agg \<longleftrightarrow> (\<exists>v<node_count vg. lr_live (reports ! v))"
  proof
    assume "lr_live agg"
    then show "\<exists>v<node_count vg. lr_live (reports ! v)" using b(5) route_live [OF ok t(1)] by (fastforce simp: route_def)
  next
    assume "\<exists>v<node_count vg. lr_live (reports ! v)"
    then obtain v where v: "v < node_count vg" "lr_live (reports ! v)" by blast
    then obtain ns where ns: "route vg ns" "v \<in> set ns" "out_edges_of vg (last ns) = []" using reaches_terminal [OF ok v(1)] by blast
    then have "last ns \<in> set ts" using ending_last [OF ok] by (simp add: ending_def ts_def)
    then show "lr_live agg" using b(5) route_live [OF ok t(1)] ns v(2) by auto
  qed
  show ?thesis using 1 2 3 4 5 by blast
qed

text \<open>The demonstration graph, with a live source of 5, a transform of 3 without bound and a sink of 0.\<close>

lemma demo_latency:
  obtains vg where "graph_ok vg" "node_count vg = 3" "finish demo_graph = Some (Inr vg)"
    "lr_min_ns (snd (paths_fold (paths_new (\<lambda>_. 0) vg (vg_topo vg))
       [report_live 5 (Some 20), report_buffered 3 None, lr_ZERO] (replicate 3 lr_ZERO))) = 8"
proof -
  have "(case finish demo_graph of
      Some (Inr vg) \<Rightarrow> node_count vg = 3 \<and> lr_min_ns (snd (paths_fold (paths_new (\<lambda>_. 0) vg (vg_topo vg))
       [report_live 5 (Some 20), report_buffered 3 None, lr_ZERO] (replicate 3 lr_ZERO))) = 8
    | _ \<Rightarrow> False)" by code_simp
  then obtain vg where "finish demo_graph = Some (Inr vg)" "node_count vg = 3"
    "lr_min_ns (snd (paths_fold (paths_new (\<lambda>_. 0) vg (vg_topo vg))
       [report_live 5 (Some 20), report_buffered 3 None, lr_ZERO] (replicate 3 lr_ZERO))) = 8"
    by (auto split: option.splits sum.splits)
  then show thesis using that finish_graph_ok [OF demo_graph_built] by blast
qed

theorem latency_critical_path_witness:
  "\<exists>vg ns. finish demo_graph = Some (Inr vg) \<and> ending vg ns \<and>
     min u64_max (route_min (\<lambda>_. 0) vg [report_live 5 (Some 20), report_buffered 3 None, lr_ZERO] ns) = 8"
proof -
  obtain vg where v: "graph_ok vg" "node_count vg = 3" "finish demo_graph = Some (Inr vg)"
    "lr_min_ns (snd (paths_fold (paths_new (\<lambda>_. 0) vg (vg_topo vg))
       [report_live 5 (Some 20), report_buffered 3 None, lr_ZERO] (replicate 3 lr_ZERO))) = 8" by (rule demo_latency)
  then show ?thesis
    using latency_critical_path [OF v(1), of "replicate 3 lr_ZERO" "\<lambda>_. 0" "[report_live 5 (Some 20), report_buffered 3 None, lr_ZERO]"] by force
qed

lemma fold_new_simps:
  fixes vg :: "('e, 'p) validated_graph" and f :: "'c latency_fold"
  assumes "f = fold_new lat fl vg topo"
  shows "lf_paths f = paths_new fl vg topo" "length (lf_reports f) = node_count vg"
    "lf_aggregate f = snd (paths_fold (paths_new fl vg topo) (lf_reports f) (replicate (node_count vg) lr_ZERO))"
    "length (lf_upstream f) = node_count vg"
proof -
  have "length (foldl (\<lambda>rs v. rs[v := h v]) xs us) = length xs" for h :: "node_id \<Rightarrow> latency_report" and xs us
    by (induction us arbitrary: xs) simp_all
  then show "lf_paths f = paths_new fl vg topo" "length (lf_reports f) = node_count vg"
    "lf_aggregate f = snd (paths_fold (paths_new fl vg topo) (lf_reports f) (replicate (node_count vg) lr_ZERO))"
    "length (lf_upstream f) = node_count vg"
    by (simp_all add: assms fold_new_def Let_def paths_fold_topo)
qed

lemma publish_fields:
  "lf_paths (fold_publish node report f) = lf_paths f"
  "lf_reports (fold_publish node report f) = (lf_reports f)[node := report]"
  "lf_upstream (fold_publish node report f) = fst (paths_fold (lf_paths f) ((lf_reports f)[node := report]) (lf_upstream f))"
  "lf_aggregate (fold_publish node report f) = snd (paths_fold (lf_paths f) ((lf_reports f)[node := report]) (lf_upstream f))"
  by (simp_all add: fold_publish_def Let_def case_prod_beta)

text \<open>
  Re-folding from an arm mid-run, on the scratch slots the last fold left, gives what a fresh fold over the current reports gives,
  after any sequence of publications; and a sink's clock view carries the new minimum after each.
\<close>

theorem refold_is_fresh_fold:
  fixes vg :: "('e, 'p) validated_graph" and f0 :: "'c latency_fold"
  assumes ok: "graph_ok vg" and f0: "f0 = fold_new lat fl vg (vg_topo vg)"
    and f: "f = foldl (\<lambda>f (node, report). fold_publish node report f) f0 pubs"
  shows "lf_reports f = foldl (\<lambda>rs (node, report). rs[node := report]) (lf_reports f0) pubs \<and>
    lf_aggregate f = snd (paths_fold (paths_new fl vg (vg_topo vg)) (lf_reports f) (replicate (node_count vg) lr_ZERO)) \<and>
    lf_aggregate (fold_publish node report (f\<lparr>lf_sync := Some s\<rparr>)) = lf_aggregate (fold_publish node report f) \<and>
    map_option cs_path_latency_min_ns (lf_sync (fold_publish node report (f\<lparr>lf_sync := Some s\<rparr>))) =
      Some (lr_min_ns (lf_aggregate (fold_publish node report f)))"
proof -
  note n = fold_new_simps [OF f0]
  have "lf_paths f = paths_new fl vg (vg_topo vg) \<and> length (lf_reports f) = node_count vg \<and> length (lf_upstream f) = node_count vg \<and>
    lf_reports f = foldl (\<lambda>rs (node, report). rs[node := report]) (lf_reports f0) pubs \<and>
    lf_aggregate f = snd (paths_fold (paths_new fl vg (vg_topo vg)) (lf_reports f) (replicate (node_count vg) lr_ZERO))"
    using f
  proof (induction pubs arbitrary: f rule: rev_induct)
    case Nil
    then show ?case using n by simp
  next
    case (snoc np pubs)
    let ?g = "foldl (\<lambda>f (node, report). fold_publish node report f) f0 pubs"
    obtain node report where np: "np = (node, report)" by (cases np)
    note g = snoc.IH [of ?g, simplified]
    let ?p = "paths_fold (paths_new fl vg (vg_topo vg)) ((lf_reports ?g)[node := report])"
    have e: "snd (?p (lf_upstream ?g)) = snd (?p (replicate (node_count vg) lr_ZERO))" "length (fst (?p (lf_upstream ?g))) = node_count vg"
      using g fold_from_any_start [OF ok] by simp_all
    have "f = fold_publish node report ?g" using snoc.prems by (simp add: np)
    moreover have "length (foldl (\<lambda>rs (node, report). rs[node := report]) (lf_reports f0) pubs) = node_count vg" using g by metis
    ultimately show ?case using g e by (simp add: np publish_fields)
  qed
  then show ?thesis by (simp add: fold_publish_def Let_def set_path_latency_min_ns_def case_prod_beta)
qed

theorem refold_is_fresh_fold_witness:
  "\<exists>vg (f :: unit latency_fold). finish demo_graph = Some (Inr vg) \<and> lf_reports f = [report_live 5 (Some 20), report_live 9 None, report_live 5 (Some 20)] \<and>
     lf_aggregate f = snd (paths_fold (paths_new (\<lambda>_. 0) vg (vg_topo vg)) (lf_reports f) (replicate 3 lr_ZERO))"
proof -
  obtain vg where v: "graph_ok vg" "node_count vg = 3" "finish demo_graph = Some (Inr vg)" by (rule demo_latency)
  define f0 :: "unit latency_fold" where "f0 = fold_new (\<lambda>_. report_live 5 (Some 20)) (\<lambda>_. 0) vg (vg_topo vg)"
  define f where "f = foldl (\<lambda>f (node, report). fold_publish node report f) f0 [(1, report_live 7 None), (1, report_live 9 None)]"
  have "(case finish demo_graph of
      Some (Inr vg) \<Rightarrow> lf_reports (fold_new (\<lambda>_. report_live 5 (Some 20)) (\<lambda>_. 0) vg (vg_topo vg) :: unit latency_fold) =
        replicate 3 (report_live 5 (Some 20))
    | _ \<Rightarrow> False)" by code_simp
  then have r: "lf_reports f0 = replicate 3 (report_live 5 (Some 20))" by (simp add: v(3) f0_def)
  note p = refold_is_fresh_fold [OF v(1) f0_def f_def]
  have "lf_reports f = [report_live 5 (Some 20), report_live 9 None, report_live 5 (Some 20)]"
    using p r by (simp add: eval_nat_numeral)
  then show ?thesis using p v by (intro exI [of _ vg] exI [of _ f]) simp
qed

end
