(* ===== verification/Alloc.thy ===== *)
theory Alloc
  imports Frames MetaDemand
begin

text \<open>
  The allocation query (\<^verbatim>\<open>query.rs\<close>, the domain sets of \<^verbatim>\<open>memory.rs\<close>): the sets of memory domains an
  element can emit or accept as bit masks, the proposal a consumer hands its producer, and how proposals
  combine along a path and where branches meet.
\<close>

unbundle bit_operations_syntax

section \<open>Domain sets\<close>

definition is_system :: "memory_domain_kind \<Rightarrow> bool" where
  "is_system k \<longleftrightarrow> k = KSystem \<or> k = KSystemView"

fun bit_index :: "memory_domain_kind \<Rightarrow> nat" where
  "bit_index KSystem = 0"
| "bit_index KSystemView = 1"
| "bit_index KDmaBuf = 2"
| "bit_index KVulkanTexture = 3"
| "bit_index KWebGPUBuffer = 4"
| "bit_index KCuda = 5"
| "bit_index KD3D11Texture = 6"
| "bit_index KWebGPUExternalTexture = 7"
| "bit_index KWgpuTexture = 8"
| "bit_index KWgpuBuffer = 9"
| "bit_index KCvPixelBuffer = 10"

definition DOMAIN_PREFERENCE :: "memory_domain_kind list" where
  "DOMAIN_PREFERENCE = [KCuda, KD3D11Texture, KCvPixelBuffer, KVulkanTexture, KWgpuTexture, KWgpuBuffer,
     KWebGPUExternalTexture, KWebGPUBuffer, KDmaBuf, KSystemView, KSystem]"

type_synonym domain_set = u16

definition ds_EMPTY :: domain_set where "ds_EMPTY = 0"

definition ds_ALL :: domain_set where
  "ds_ALL = foldl (\<lambda>bits k. bits OR push_bit (bit_index k) 1) 0 DOMAIN_PREFERENCE"

definition ds_only :: "memory_domain_kind \<Rightarrow> domain_set" where
  "ds_only k = push_bit (bit_index k) 1"

definition ds_with :: "domain_set \<Rightarrow> memory_domain_kind \<Rightarrow> domain_set" where
  "ds_with s k = s OR push_bit (bit_index k) 1"

definition ds_contains :: "domain_set \<Rightarrow> memory_domain_kind \<Rightarrow> bool" where
  "ds_contains s k \<longleftrightarrow> s AND push_bit (bit_index k) 1 \<noteq> 0"

definition ds_iter :: "domain_set \<Rightarrow> memory_domain_kind list" where
  "ds_iter s = filter (ds_contains s) DOMAIN_PREFERENCE"

definition ds_intersect :: "domain_set \<Rightarrow> domain_set \<Rightarrow> domain_set" where
  "ds_intersect a b = a AND b"

definition ds_union :: "domain_set \<Rightarrow> domain_set \<Rightarrow> domain_set" where
  "ds_union a b = a OR b"

definition ds_is_empty :: "domain_set \<Rightarrow> bool" where
  "ds_is_empty s \<longleftrightarrow> s = 0"

definition ds_preferred :: "domain_set \<Rightarrow> memory_domain_kind option" where
  "ds_preferred s = List.find (ds_contains s) DOMAIN_PREFERENCE"

section \<open>Proposals\<close>

record allocation_params =
  al_size_bytes :: nat
  al_min_buffers :: nat
  al_align :: nat
  al_domain :: memory_domain_kind
  al_accepts :: domain_set
  al_meta_requests :: meta_requests

definition alloc_default :: allocation_params where
  "alloc_default = \<lparr>al_size_bytes = 0, al_min_buffers = 1, al_align = 1, al_domain = KSystem, al_accepts = ds_only KSystem,
     al_meta_requests = mr_new\<rparr>"

definition alloc_system :: "nat \<Rightarrow> nat \<Rightarrow> allocation_params" where
  "alloc_system n k = \<lparr>al_size_bytes = n, al_min_buffers = k, al_align = 1, al_domain = KSystem, al_accepts = ds_only KSystem,
     al_meta_requests = mr_new\<rparr>"

definition meta_demand :: "meta_requests \<Rightarrow> allocation_params" where
  "meta_demand r = \<lparr>al_size_bytes = 0, al_min_buffers = 1, al_align = 1, al_domain = KSystem, al_accepts = ds_ALL, al_meta_requests = r\<rparr>"

definition alloc_cuda :: "nat \<Rightarrow> nat \<Rightarrow> nat \<Rightarrow> allocation_params" where
  "alloc_cuda n k al = \<lparr>al_size_bytes = n, al_min_buffers = k, al_align = al, al_domain = KCuda, al_accepts = ds_only KCuda,
     al_meta_requests = mr_new\<rparr>"

definition alloc_d3d11 :: "nat \<Rightarrow> nat \<Rightarrow> nat \<Rightarrow> allocation_params" where
  "alloc_d3d11 n k al = \<lparr>al_size_bytes = n, al_min_buffers = k, al_align = al, al_domain = KD3D11Texture,
     al_accepts = ds_only KD3D11Texture, al_meta_requests = mr_new\<rparr>"

definition alloc_merge :: "allocation_params \<Rightarrow> allocation_params \<Rightarrow> allocation_params" where
  "alloc_merge self upstream =
     \<lparr>al_size_bytes = max (al_size_bytes self) (al_size_bytes upstream),
      al_min_buffers = max (al_min_buffers self) (al_min_buffers upstream),
      al_align = max (al_align self) (al_align upstream), al_domain = al_domain self, al_accepts = al_accepts self,
      al_meta_requests = carry_upstream (al_meta_requests upstream) (al_meta_requests self)\<rparr>"

definition alloc_join :: "allocation_params \<Rightarrow> allocation_params \<Rightarrow> g2g_error + allocation_params" where
  "alloc_join self other =
     (let accepts = ds_intersect (al_accepts self) (al_accepts other) in
      bind_res (ok_or (ds_preferred accepts) AllocationConflict) (\<lambda>domain.
        Inr \<lparr>al_size_bytes = max (al_size_bytes self) (al_size_bytes other),
             al_min_buffers = max (al_min_buffers self) (al_min_buffers other),
             al_align = max (al_align self) (al_align other), al_domain = domain, al_accepts = accepts,
             al_meta_requests = join_branches (al_meta_requests self) (al_meta_requests other)\<rparr>))"

definition with_meta_requests :: "allocation_params \<Rightarrow> meta_requests \<Rightarrow> allocation_params" where
  "with_meta_requests p r = p\<lparr>al_meta_requests := r\<rparr>"

definition constrains_pool :: "allocation_params \<Rightarrow> bool" where
  "constrains_pool p \<longleftrightarrow> p \<noteq> meta_demand (al_meta_requests p)"

definition resolve_for_producer :: "allocation_params \<Rightarrow> domain_set \<Rightarrow> g2g_error + allocation_params" where
  "resolve_for_producer self can =
     (let accepts = ds_intersect (al_accepts self) can in
      bind_res (ok_or (ds_preferred accepts) AllocationConflict) (\<lambda>domain.
        Inr (self\<lparr>al_domain := domain, al_accepts := accepts\<rparr>)))"

definition mr_is_empty :: "meta_requests \<Rightarrow> bool" where
  "mr_is_empty r = (case r of [] \<Rightarrow> True | e # _ \<Rightarrow> e = None)"

definition with_meta_demand :: "allocation_params option \<Rightarrow> meta_requests \<Rightarrow> allocation_params option" where
  "with_meta_demand proposal requests =
     (if mr_is_empty requests then proposal
      else Some (case proposal of Some p \<Rightarrow> with_meta_requests p requests | None \<Rightarrow> meta_demand requests))"

definition narrow_to_input_domains :: "allocation_params option \<Rightarrow> domain_set \<Rightarrow> allocation_params option" where
  "narrow_to_input_domains proposal accepts =
     (if accepts = ds_ALL then proposal
      else (let narrowed = (case proposal of Some p \<Rightarrow> ds_intersect (al_accepts p) accepts | None \<Rightarrow> accepts)
            in case ds_preferred narrowed of
                 None \<Rightarrow> proposal
               | Some domain \<Rightarrow> Some ((case proposal of Some p \<Rightarrow> p | None \<Rightarrow> alloc_default)
                   \<lparr>al_domain := domain, al_accepts := narrowed\<rparr>)))"

definition edge_meta_requests :: "allocation_params option \<Rightarrow> meta_requests" where
  "edge_meta_requests proposal = (case proposal of Some p \<Rightarrow> al_meta_requests p | None \<Rightarrow> mr_new)"

definition join_alloc :: "allocation_params option \<Rightarrow> allocation_params option \<Rightarrow> g2g_error + allocation_params option" where
  "join_alloc a b =
     bind_res
       (case (a, b) of
          (Some x, Some y) \<Rightarrow> bind_res (alloc_join x y) (\<lambda>j. Inr (Some j))
        | (Some x, None) \<Rightarrow> Inr (Some (with_meta_requests x (join_branches (al_meta_requests x) mr_new)))
        | (None, Some y) \<Rightarrow> Inr (Some (with_meta_requests y (join_branches (al_meta_requests y) mr_new)))
        | (None, None) \<Rightarrow> Inr None)
       (\<lambda>joined. Inr (case joined of
            Some p \<Rightarrow> if constrains_pool p \<or> \<not> mr_is_empty (al_meta_requests p) then Some p else None
          | None \<Rightarrow> None))"

section \<open>Domain sets as sets\<close>

text \<open>
  What negotiation needs of a set of domains: membership, intersection, and a preferred member. The lemmas say what two parties
  that intersect their sets agree on.
\<close>

locale preference_set =
  fixes contains :: "'s \<Rightarrow> 'k \<Rightarrow> bool"
    and intersect :: "'s \<Rightarrow> 's \<Rightarrow> 's"
    and everything :: 's
    and preferred :: "'s \<Rightarrow> 'k option"
  assumes contains_intersect: "contains (intersect a b) k \<longleftrightarrow> contains a k \<and> contains b k"
    and contains_everything: "contains everything k"
    and preferred_None: "preferred a = None \<longleftrightarrow> (\<forall>k. \<not> contains a k)"
    and preferred_Some: "preferred a = Some k \<Longrightarrow> contains a k"
begin

lemma agreed: "preferred (intersect a b) = Some k \<Longrightarrow> contains a k \<and> contains b k"
  using preferred_Some contains_intersect by blast

lemma conflict: "preferred (intersect a b) = None \<longleftrightarrow> (\<forall>k. \<not> (contains a k \<and> contains b k))"
  using preferred_None contains_intersect by blast

lemma member_has_preferred: "contains a k \<Longrightarrow> \<exists>j. preferred a = Some j \<and> contains a j"
  using preferred_None preferred_Some by (metis option.exhaust)

end

lemma bit_index_inject [simp]: "bit_index j = bit_index k \<longleftrightarrow> j = k"
  by (cases j; cases k) simp_all

lemma bit_index_bound: "bit_index k < 16"
  by (cases k) simp_all

lemma in_preference [simp]: "k \<in> set DOMAIN_PREFERENCE"
  by (cases k) (simp_all add: DOMAIN_PREFERENCE_def)

lemma contains_bit: "ds_contains s k \<longleftrightarrow> bit s (bit_index k)"
proof -
  have "s AND push_bit n 1 = (if bit s n then push_bit n 1 else 0)" for n
    by (rule bit_word_eqI) (auto simp: bit_simps)
  moreover have "push_bit (bit_index k) 1 \<noteq> (0 :: u16)"
    by (cases k) simp_all
  ultimately show ?thesis by (simp add: ds_contains_def)
qed

lemma contains_only: "ds_contains (ds_only j) k \<longleftrightarrow> j = k"
  by (cases j; cases k) (simp_all add: contains_bit ds_only_def bit_simps)

lemma contains_with: "ds_contains (ds_with s j) k \<longleftrightarrow> ds_contains s k \<or> j = k"
  by (auto simp: contains_bit ds_with_def bit_simps bit_index_bound)

lemma contains_union: "ds_contains (ds_union a b) k \<longleftrightarrow> ds_contains a k \<or> ds_contains b k"
  by (simp add: contains_bit ds_union_def bit_simps)

lemma contains_all: "ds_contains ds_ALL k"
proof -
  have "list_all (ds_contains ds_ALL) DOMAIN_PREFERENCE" by code_simp
  then show ?thesis by (simp add: list_all_iff)
qed

interpretation masks: preference_set ds_contains ds_intersect ds_ALL ds_preferred
proof
  show "ds_contains (ds_intersect a b) k \<longleftrightarrow> ds_contains a k \<and> ds_contains b k" for a b k
    by (simp add: contains_bit ds_intersect_def bit_simps)
  show "ds_contains ds_ALL k" for k by (rule contains_all)
  show "ds_preferred a = None \<longleftrightarrow> (\<forall>k. \<not> ds_contains a k)" for a
    by (auto simp: ds_preferred_def find_None_iff)
  show "ds_preferred a = Some k \<Longrightarrow> ds_contains a k" for a k
    by (auto simp: ds_preferred_def find_Some_iff)
qed

lemma preferred_first: "ds_preferred s = (case ds_iter s of [] \<Rightarrow> None | k # _ \<Rightarrow> Some k)"
proof -
  have "List.find P xs = (case filter P xs of [] \<Rightarrow> None | k # _ \<Rightarrow> Some k)" for P and xs :: "memory_domain_kind list"
    by (induction xs) auto
  then show ?thesis by (simp add: ds_preferred_def ds_iter_def)
qed

section \<open>How proposals combine\<close>

text \<open>What a proposal accepts; the absence of one constrains nothing.\<close>

definition accepts_kind :: "allocation_params option \<Rightarrow> memory_domain_kind \<Rightarrow> bool" where
  "accepts_kind p k = (case p of Some q \<Rightarrow> ds_contains (al_accepts q) k | None \<Rightarrow> True)"

lemma resolve_cases:
  "resolve_for_producer p can =
    (case ds_preferred (ds_intersect (al_accepts p) can) of
       Some d \<Rightarrow> Inr (p\<lparr>al_domain := d, al_accepts := ds_intersect (al_accepts p) can\<rparr>)
     | None \<Rightarrow> Inl AllocationConflict)"
  by (simp add: resolve_for_producer_def Let_def ok_or_def bind_res_def split: option.split)

lemma narrow_accepts: "accepts_kind (narrow_to_input_domains p d) k \<Longrightarrow> accepts_kind p k"
  by (auto simp: accepts_kind_def narrow_to_input_domains_def Let_def masks.contains_intersect split: if_splits option.splits)

lemma demand_only_accepts_all: "\<not> constrains_pool p \<Longrightarrow> al_accepts p = ds_ALL"
  by (metis constrains_pool_def meta_demand_def allocation_params.select_convs(5))

lemma join_accepts:
  assumes "join_alloc a b = Inr j"
  shows "accepts_kind j k \<longleftrightarrow> accepts_kind a k \<and> accepts_kind b k"
proof -
  have f: "accepts_kind (if constrains_pool p \<or> c then Some p else None) k \<longleftrightarrow> ds_contains (al_accepts p) k" for p c
    using demand_only_accepts_all [of p] by (simp add: accepts_kind_def contains_all)
  show ?thesis
    using assms
    by (cases a; cases b)
      (auto simp: join_alloc_def alloc_join_def Let_def bind_res_eq_Inr ok_or_eq_Inr f with_meta_requests_def
        masks.contains_intersect accepts_kind_def [of None] accepts_kind_def [of "Some _"])
qed

text \<open>
  Two branches that only demand metadata, and constrain no buffer, join to a proposal that does count as constraining: the join
  names the preferred domain of all (CUDA) where a demand names system memory. So the demand does not vanish when the requests die
  out, and the producer is made to reconcile: a request for metadata chooses the memory domain, the first the
  producer can emit in order of preference.
\<close>

theorem joined_demands_choose_domain:
  "\<not> constrains_pool (meta_demand r) \<and> \<not> constrains_pool (meta_demand s) \<and>
   (\<exists>p. join_alloc (Some (meta_demand r)) (Some (meta_demand s)) = Inr (Some p) \<and> constrains_pool p \<and>
      al_domain p = KCuda \<and> res_ok (map_sum id al_domain (resolve_for_producer p can)) = ds_preferred (ds_intersect ds_ALL can))"
proof -
  have i: "ds_intersect ds_ALL ds_ALL = ds_ALL" by (simp add: ds_intersect_def)
  have pr: "ds_preferred ds_ALL = Some KCuda" by code_simp
  have c: "constrains_pool p" if "al_domain p = KCuda" for p
    using that by (metis constrains_pool_def meta_demand_def allocation_params.select_convs(4) memory_domain_kind.distinct(9))
  show ?thesis
    by (auto simp: join_alloc_def alloc_join_def Let_def bind_res_def ok_or_def pr i meta_demand_def c resolve_cases
        constrains_pool_def res_ok_def map_sum_def split: option.split)
qed

end
