(* ===== verification/AllocCascade.thy ===== *)
theory AllocCascade
  imports Alloc GraphBuild
begin

text \<open>
  The allocation cascade over a solved graph (\<^verbatim>\<open>runtime/graph_runner.rs\<close>): in reverse topological order each node absorbs
  the proposal on its output and hands one to its producer, a tee joins its branches, and a source reconciles what
  arrives with the domains it can emit. What an element proposes, accepts, emits and does with a configuration is given by
  the caller as a record of functions; a configuration may change what the element proposes afterwards.
\<close>

section \<open>Elements\<close>

datatype ref_variant = RSource | RElement | RMuxer | RFanoutSource | RDemux

record 'e alloc_ops =
  ao_variant :: "'e \<Rightarrow> ref_variant"
  ao_propose :: "'e \<Rightarrow> caps \<Rightarrow> allocation_params option"
  ao_propose_input :: "'e \<Rightarrow> nat \<Rightarrow> caps \<Rightarrow> allocation_params option"
  ao_in_domains :: "'e \<Rightarrow> domain_set"
  ao_out_domains :: "'e \<Rightarrow> domain_set"
  ao_requests :: "'e \<Rightarrow> meta_requests"
  ao_follows :: "'e \<Rightarrow> bool"
  ao_configure :: "allocation_params \<Rightarrow> 'e \<Rightarrow> 'e"
  ao_configure_output :: "allocation_params \<Rightarrow> 'e \<Rightarrow> 'e"

definition ref_output_domains :: "'e alloc_ops \<Rightarrow> 'e \<Rightarrow> domain_set" where
  "ref_output_domains ops e =
     (case ao_variant ops e of
        RFanoutSource \<Rightarrow> ds_only KSystem
      | RDemux \<Rightarrow> ds_only KSystem
      | _ \<Rightarrow> ao_out_domains ops e)"

definition ref_input_domains :: "'e alloc_ops \<Rightarrow> 'e \<Rightarrow> domain_set" where
  "ref_input_domains ops e =
     (case ao_variant ops e of
        RSource \<Rightarrow> ds_ALL
      | RFanoutSource \<Rightarrow> ds_ALL
      | _ \<Rightarrow> ao_in_domains ops e)"

definition element_at :: "('e, 'c) validated_graph \<Rightarrow> node_id \<Rightarrow> 'e option" where
  "element_at vg node = nd_element (vg_nodes vg ! node)"

definition update_element :: "node_id \<Rightarrow> ('e \<Rightarrow> 'e) \<Rightarrow> ('e, 'c) validated_graph \<Rightarrow> ('e, 'c) validated_graph" where
  "update_element node f vg =
     vg\<lparr>vg_nodes := (vg_nodes vg)[node := (vg_nodes vg ! node)\<lparr>nd_element := map_option f (element_at vg node)\<rparr>]\<rparr>"

definition node_input_domains :: "'e alloc_ops \<Rightarrow> ('e, 'c) validated_graph \<Rightarrow> node_id \<Rightarrow> domain_set" where
  "node_input_domains ops vg node = (case element_at vg node of Some e \<Rightarrow> ref_input_domains ops e | None \<Rightarrow> ds_ALL)"

definition node_output_domains :: "'e alloc_ops \<Rightarrow> ('e, 'c) validated_graph \<Rightarrow> node_id \<Rightarrow> domain_set" where
  "node_output_domains ops vg node = (case element_at vg node of Some e \<Rightarrow> ref_output_domains ops e | None \<Rightarrow> ds_only KSystem)"

definition element_configure_alloc :: "'e alloc_ops \<Rightarrow> node_id \<Rightarrow> allocation_params \<Rightarrow> ('e, 'c) validated_graph \<Rightarrow> ('e, 'c) validated_graph" where
  "element_configure_alloc ops node params vg =
     update_element node (\<lambda>e. if ao_variant ops e = RElement then ao_configure ops params e else e) vg"

definition element_propose ::
  "'e alloc_ops \<Rightarrow> ('e, 'c) validated_graph \<Rightarrow> node_id \<Rightarrow> caps \<Rightarrow> meta_requests \<Rightarrow> allocation_params option \<Rightarrow> allocation_params option" where
  "element_propose ops vg node c downstream forwarded =
     (case element_at vg node of
        Some e \<Rightarrow>
          if ao_variant ops e = RElement
          then with_meta_demand
            (narrow_to_input_domains (case ao_propose ops e c of Some p \<Rightarrow> Some p | None \<Rightarrow> forwarded) (ao_in_domains ops e))
            (carry_upstream (ao_requests ops e) downstream)
          else None
      | None \<Rightarrow> None)"

definition forwards_input_domain :: "'e alloc_ops \<Rightarrow> 'e option \<Rightarrow> bool" where
  "forwards_input_domain ops r = (case r of Some e \<Rightarrow> ao_variant ops e = RElement \<and> ao_follows ops e | None \<Rightarrow> False)"

section \<open>The cascade\<close>

text \<open>The join of a tee's branches, the first of which seeds it.\<close>

fun join_rest :: "allocation_params option \<Rightarrow> allocation_params option list \<Rightarrow> g2g_error + allocation_params option" where
  "join_rest j [] = Inr j"
| "join_rest j (p # ps) = bind_res (join_alloc j p) (\<lambda>j. join_rest j ps)"

definition join_outputs :: "allocation_params option list \<Rightarrow> g2g_error + allocation_params option" where
  "join_outputs ps = (case ps of [] \<Rightarrow> Inr None | p # ps \<Rightarrow> join_rest p ps)"

text \<open>
  The state: the graph with its elements, the proposal stored on each edge, and what the last source absorbed. The single
  input of a sink, transform or tee and the single output of a source exist in a validated graph.
\<close>

type_synonym ('e, 'c) cascade = "('e, 'c) validated_graph \<times> allocation_params option list \<times> allocation_params option"

definition cascade_source :: "'e alloc_ops \<Rightarrow> node_id \<Rightarrow> ('e, 'c) cascade \<Rightarrow> g2g_error + ('e, 'c) cascade" where
  "cascade_source ops node st =
     (let (vg, ep, al) = st; out_e = hd (out_edges_of vg node) in
      case ep ! out_e of
        None \<Rightarrow> Inr st
      | Some p \<Rightarrow>
          bind_res (if constrains_pool p then resolve_for_producer p (node_output_domains ops vg node) else Inr p) (\<lambda>resolved.
          bind_res (ok_or (element_at vg node) CapsMismatch) (\<lambda>e.
            Inr (update_element node (\<lambda>e. if ao_variant ops e = RSource then ao_configure ops resolved e else e) vg, ep, Some resolved))))"

definition cascade_transform :: "'e alloc_ops \<Rightarrow> caps list \<Rightarrow> node_id \<Rightarrow> ('e, 'c) cascade \<Rightarrow> ('e, 'c) cascade" where
  "cascade_transform ops solution node st =
     (let (vg, ep, al) = st; in_e = hd (in_edges_of vg node); out_e = hd (out_edges_of vg node);
          vg = (case ep ! out_e of Some p \<Rightarrow> element_configure_alloc ops node p vg | None \<Rightarrow> vg);
          forwarded = (if forwards_input_domain ops (element_at vg node) then ep ! out_e else None)
      in (vg, ep[in_e := element_propose ops vg node (solution ! out_e) (edge_meta_requests (ep ! out_e)) forwarded], al))"

definition fanin_inputs ::
  "'e alloc_ops \<Rightarrow> caps list \<Rightarrow> ('e, 'c) validated_graph \<Rightarrow> 'e \<Rightarrow> domain_set \<Rightarrow> nat list \<Rightarrow> allocation_params option list \<Rightarrow> allocation_params option list" where
  "fanin_inputs ops solution vg e accepts es ep =
     foldl (\<lambda>ep in_e. ep[in_e := narrow_to_input_domains
        (ao_propose_input ops e (unat (pad_index (e_dst (vg_edge vg in_e)))) (solution ! in_e)) accepts]) ep es"

definition cascade_fanin :: "'e alloc_ops \<Rightarrow> caps list \<Rightarrow> node_id \<Rightarrow> ('e, 'c) cascade \<Rightarrow> ('e, 'c) cascade" where
  "cascade_fanin ops solution node st =
     (let (vg, ep, al) = st;
          out_demand = (case out_edges_of vg node of [] \<Rightarrow> mr_new | out_e # _ \<Rightarrow> edge_meta_requests (ep ! out_e));
          vg = (if mr_is_empty out_demand then vg
                else update_element node
                  (\<lambda>e. if ao_variant ops e = RMuxer then ao_configure_output ops (meta_demand out_demand) e else e) vg)
      in case element_at vg node of
           Some e \<Rightarrow>
             (if ao_variant ops e = RMuxer
              then (vg, fanin_inputs ops solution vg e (node_input_domains ops vg node) (in_edges_of vg node) ep, al)
              else (vg, ep, al))
         | None \<Rightarrow> (vg, ep, al))"

definition cascade_node :: "'e alloc_ops \<Rightarrow> caps list \<Rightarrow> node_id \<Rightarrow> ('e, 'c) cascade \<Rightarrow> g2g_error + ('e, 'c) cascade" where
  "cascade_node ops solution node st =
     (let (vg, ep, al) = st in
      case vg_kind vg node of
        Sink \<Rightarrow>
          (let in_e = hd (in_edges_of vg node)
           in Inr (vg, ep[in_e := element_propose ops vg node (solution ! in_e) mr_new None], al))
      | Transform \<Rightarrow> Inr (cascade_transform ops solution node st)
      | Tee _ \<Rightarrow>
          (let in_e = hd (in_edges_of vg node) in
           bind_res (join_outputs (map ((!) ep) (out_edges_of vg node))) (\<lambda>j.
             Inr (vg, ep[in_e := narrow_to_input_domains j (node_input_domains ops vg node)], al)))
      | Source \<Rightarrow> cascade_source ops node st
      | FanoutSrc _ \<Rightarrow> Inr st
      | Muxer _ \<Rightarrow> Inr (cascade_fanin ops solution node st)
      | FaninSink _ \<Rightarrow> Inr (cascade_fanin ops solution node st))"

fun cascade_nodes :: "'e alloc_ops \<Rightarrow> caps list \<Rightarrow> node_id list \<Rightarrow> ('e, 'c) cascade \<Rightarrow> g2g_error + ('e, 'c) cascade" where
  "cascade_nodes ops solution [] st = Inr st"
| "cascade_nodes ops solution (v # vs) st = bind_res (cascade_node ops solution v st) (cascade_nodes ops solution vs)"

definition cascade_allocation ::
  "'e alloc_ops \<Rightarrow> ('e, 'c) validated_graph \<Rightarrow> node_id list \<Rightarrow> caps list \<Rightarrow> g2g_error + ('e, 'c) cascade" where
  "cascade_allocation ops vg topo solution =
     cascade_nodes ops solution (rev topo) (vg, replicate (edge_count vg) None, None)"

section \<open>What a step leaves alone\<close>

definition same_shape :: "('e, 'c) validated_graph \<Rightarrow> ('e, 'c) validated_graph \<Rightarrow> bool" where
  "same_shape vg vg' \<longleftrightarrow> vg_edges vg' = vg_edges vg \<and> vg_in_edges vg' = vg_in_edges vg \<and> vg_out_edges vg' = vg_out_edges vg \<and>
     map nd_kind (vg_nodes vg') = map nd_kind (vg_nodes vg)"

lemma same_shape_refl [simp]: "same_shape vg vg"
  by (simp add: same_shape_def)

lemma same_shape_trans: "same_shape a b \<Longrightarrow> same_shape b c \<Longrightarrow> same_shape a c"
  by (simp add: same_shape_def)

lemma same_shape_update [simp]: "same_shape vg (update_element node f vg)"
proof -
  have "map nd_kind ((vg_nodes vg)[node := (vg_nodes vg ! node)\<lparr>nd_element := x\<rparr>]) = map nd_kind (vg_nodes vg)" for x
    by (cases "node < length (vg_nodes vg)") (simp_all add: map_update list_update_same_conv list_update_beyond)
  then show ?thesis by (simp add: same_shape_def update_element_def)
qed

lemma same_shapeD:
  assumes "same_shape vg vg'"
  shows "in_edges_of vg' v = in_edges_of vg v" "out_edges_of vg' v = out_edges_of vg v" "edge_dst vg' e = edge_dst vg e"
    "v < node_count vg \<Longrightarrow> vg_kind vg' v = vg_kind vg v"
  using assms nth_map [of v "vg_nodes vg" nd_kind] nth_map [of v "vg_nodes vg'" nd_kind] map_eq_imp_length_eq [of nd_kind "vg_nodes vg'" nd_kind "vg_nodes vg"]
  by (simp_all add: same_shape_def in_edges_of_def out_edges_of_def edge_dst_def vg_edge_def vg_kind_def node_count_def)

lemma update_element_other: "u \<noteq> v \<Longrightarrow> element_at (update_element v f vg) u = element_at vg u"
  by (simp add: element_at_def update_element_def)

lemma update_element_same: "v < node_count vg \<Longrightarrow> element_at (update_element v f vg) v = map_option f (element_at vg v)"
  by (simp add: element_at_def update_element_def node_count_def)

definition step_frame :: "('e, 'c) validated_graph \<Rightarrow> node_id \<Rightarrow> ('e, 'c) cascade \<Rightarrow> ('e, 'c) cascade \<Rightarrow> bool" where
  "step_frame vg0 v st st' \<longleftrightarrow>
     (let (vg, ep, al) = st; (vg', ep', al') = st' in
      same_shape vg vg' \<and> length ep' = length ep \<and> (\<forall>u. u \<noteq> v \<longrightarrow> element_at vg' u = element_at vg u) \<and>
      (\<forall>e. e \<notin> set (in_edges_of vg v) \<longrightarrow> ep' ! e = ep ! e))"

lemma length_fanin_inputs [simp]: "length (fanin_inputs ops sol vg e acc es ep) = length ep"
  unfolding fanin_inputs_def by (induction es arbitrary: ep) auto

lemma fanin_inputs_other [simp]: "x \<notin> set es \<Longrightarrow> fanin_inputs ops sol vg e acc es ep ! x = ep ! x"
  unfolding fanin_inputs_def by (induction es arbitrary: ep) auto

lemma cascade_fanin_frame: "step_frame vg0 v st (cascade_fanin ops sol v st)"
  by (cases st) (auto simp: step_frame_def cascade_fanin_def Let_def update_element_other same_shapeD(1) [OF same_shape_update]
    split: option.splits if_splits)

lemma cascade_node_frame:
  assumes ok: "graph_ok vg0" and v: "v < node_count vg0" and sh: "same_shape vg0 (fst st)" and r: "cascade_node ops sol v st = Inr st'"
  shows "step_frame vg0 v st st'"
proof -
  obtain vg ep al where st: "st = (vg, ep, al)" by (cases st)
  note sd = same_shapeD [OF sh, unfolded st fst_conv]
  note single = graph_ok_singletons [OF ok v]
  have upd: "ep[hd (in_edges_of vg v) := x] ! e = ep ! e" if "in_edges_of vg0 v \<noteq> []" "e \<notin> set (in_edges_of vg v)" for x e
    using that sd(1) by (metis list.set_sel(1) nth_list_update_neq)
  show ?thesis
  proof (cases "vg_kind vg0 v")
    case Source
    then show ?thesis using r sd(4) [OF v]
      by (auto simp: st cascade_node_def step_frame_def cascade_source_def Let_def bind_res_eq_Inr ok_or_eq_Inr update_element_other
          split: option.splits if_splits)
  next
    case Transform
    then have "in_edges_of vg0 v \<noteq> []" using single(3) by auto
    then show ?thesis using Transform r sd(4) [OF v] upd
      by (auto simp: st cascade_node_def step_frame_def cascade_transform_def Let_def element_configure_alloc_def update_element_other
          split: option.splits)
  next
    case Sink
    then have "in_edges_of vg0 v \<noteq> []" using single(2) by auto
    then show ?thesis using Sink r sd(4) [OF v] upd
      by (auto simp: st cascade_node_def step_frame_def Let_def)
  next
    case (Tee k)
    then have "in_edges_of vg0 v \<noteq> []" using single(4) by auto
    then show ?thesis using Tee r sd(4) [OF v] upd
      by (auto simp: st cascade_node_def step_frame_def Let_def bind_res_eq_Inr)
  next
    case (Muxer k)
    then have "st' = cascade_fanin ops sol v st" using r sd(4) [OF v] by (simp add: st cascade_node_def)
    then show ?thesis using cascade_fanin_frame by simp
  next
    case (FaninSink k)
    then have "st' = cascade_fanin ops sol v st" using r sd(4) [OF v] by (simp add: st cascade_node_def)
    then show ?thesis using cascade_fanin_frame by simp
  next
    case (FanoutSrc k)
    then show ?thesis using r sd(4) [OF v] by (auto simp: st cascade_node_def step_frame_def)
  qed
qed

section \<open>The run\<close>

lemma precedes_suffix:
  assumes "distinct xs" "xs = pre @ u # post" "precedes xs u w"
  shows "w \<in> set post"
proof -
  obtain i j where ij: "i < j" "j < length xs" "xs ! i = u" "xs ! j = w" using assms(3) by (auto simp: precedes_def in_set_conv_nth)
  have "i = length pre"
    using nth_eq_iff_index_eq [OF assms(1), of i "length pre"] ij assms(2) by simp
  then have "w = post ! (j - Suc (length pre))" "j - Suc (length pre) < length post"
    using ij assms(2) by (auto simp: nth_append)
  then show ?thesis by simp
qed

lemma downstream_done:
  assumes ok: "graph_ok vg" and o: "rev (vg_topo vg) = before @ v # rest" and e: "e < edge_count vg" "edge_src vg e = v"
  shows "edge_dst vg e \<in> set before"
proof -
  have "vg_topo vg = rev rest @ v # rev before" using arg_cong [OF o, of rev] by simp
  then show ?thesis
    using precedes_suffix [OF graph_ok_topo(1) [OF ok]] graph_ok_edges(3) [OF ok e(1)] e(2) by fastforce
qed

definition tee_ok :: "('e, 'c) validated_graph \<Rightarrow> allocation_params option list \<Rightarrow> node_id \<Rightarrow> bool" where
  "tee_ok vg ep v \<longleftrightarrow>
     (case vg_kind vg v of
        Tee _ \<Rightarrow> (\<forall>i\<in>set (in_edges_of vg v). \<forall>o'\<in>set (out_edges_of vg v). \<forall>k. accepts_kind (ep ! i) k \<longrightarrow> accepts_kind (ep ! o') k)
      | _ \<Rightarrow> True)"

definition source_ok :: "'e alloc_ops \<Rightarrow> ('e, 'c) validated_graph \<Rightarrow> ('e, 'c) validated_graph \<Rightarrow> allocation_params option list \<Rightarrow> node_id \<Rightarrow> bool" where
  "source_ok ops vg0 vg ep v \<longleftrightarrow>
     (case (vg_kind vg0 v, element_at vg0 v) of
        (Source, Some e) \<Rightarrow> \<forall>o'\<in>set (out_edges_of vg0 v). \<forall>p. ep ! o' = Some p \<longrightarrow> constrains_pool p \<longrightarrow>
          (\<exists>r. resolve_for_producer p (ref_output_domains ops e) = Inr r \<and>
             (ao_variant ops e = RSource \<longrightarrow> element_at vg v = Some (ao_configure ops r e)))
      | _ \<Rightarrow> True)"

definition cascade_inv :: "'e alloc_ops \<Rightarrow> ('e, 'c) validated_graph \<Rightarrow> node_id list \<Rightarrow> ('e, 'c) cascade \<Rightarrow> bool" where
  "cascade_inv ops vg0 before st \<longleftrightarrow>
     (let (vg, ep, al) = st in
      same_shape vg0 vg \<and> length ep = edge_count vg0 \<and> (\<forall>u. u \<notin> set before \<longrightarrow> element_at vg u = element_at vg0 u) \<and>
      (\<forall>u\<in>set before. tee_ok vg0 ep u \<and> source_ok ops vg0 vg ep u))"

lemma join_rest_accepts: "join_rest j ps = Inr r \<Longrightarrow> accepts_kind r k \<Longrightarrow> accepts_kind j k \<and> (\<forall>p\<in>set ps. accepts_kind p k)"
proof (induction ps arbitrary: j)
  case (Cons p ps)
  then obtain x where x: "join_alloc j p = Inr x" "join_rest x ps = Inr r" by (auto simp: bind_res_eq_Inr)
  then show ?case using Cons.IH [OF x(2) Cons.prems(2)] join_accepts [OF x(1)] by simp
qed simp

lemma join_outputs_accepts: "join_outputs ps = Inr r \<Longrightarrow> accepts_kind r k \<Longrightarrow> p \<in> set ps \<Longrightarrow> accepts_kind p k"
  using join_rest_accepts by (auto simp: join_outputs_def split: list.splits)

lemma tee_step:
  assumes ok: "graph_ok vg0" and v: "v < node_count vg0" and sh: "same_shape vg0 vg" and n: "length ep = edge_count vg0"
    and k: "vg_kind vg0 v = Tee m" and r: "cascade_node ops sol v (vg, ep, al) = Inr (vg', ep', al')"
  shows "tee_ok vg0 ep' v"
proof -
  note sd = same_shapeD [OF sh]
  obtain i where i: "in_edges_of vg0 v = [i]" using graph_ok_singletons(4) [OF ok v k] by blast
  then have il: "i < length ep" "edge_dst vg0 i = v" using graph_ok_in_edges(1) [OF ok v, of i] n by auto
  obtain j where j: "join_outputs (map ((!) ep) (out_edges_of vg0 v)) = Inr j"
      "ep' = ep[i := narrow_to_input_domains j (node_input_domains ops vg v)]"
    using r k sd v by (auto simp: cascade_node_def Let_def bind_res_eq_Inr i)
  have "ep' ! o' = ep ! o'" if "o' \<in> set (out_edges_of vg0 v)" for o'
  proof -
    have "o' < edge_count vg0" "edge_src vg0 o' = v" using that graph_ok_in_edges(2) [OF ok v] by auto
    then have "o' \<noteq> i" using graph_ok_no_loop [OF ok, of o'] il(2) by auto
    then show ?thesis by (simp add: j(2))
  qed
  moreover have "accepts_kind (ep ! o') x" if "o' \<in> set (out_edges_of vg0 v)" "accepts_kind (ep' ! i) x" for o' x
    using join_outputs_accepts [OF j(1), of x "ep ! o'"] narrow_accepts that il(1) by (auto simp: j(2))
  ultimately show ?thesis by (simp add: tee_ok_def k i)
qed

lemma source_step:
  assumes ok: "graph_ok vg0" and v: "v < node_count vg0" and sh: "same_shape vg0 vg" and same: "element_at vg v = element_at vg0 v"
    and k: "vg_kind vg0 v = Source" and r: "cascade_node ops sol v (vg, ep, al) = Inr (vg', ep', al')"
  shows "source_ok ops vg0 vg' ep' v"
proof -
  note sd = same_shapeD [OF sh]
  have v': "v < node_count vg" using sh v by (metis length_map node_count_def same_shape_def)
  obtain o' where o: "out_edges_of vg0 v = [o']" using graph_ok_singletons(1) [OF ok v k] by blast
  show ?thesis
  proof (cases "ep ! o'")
    case None
    then have "ep' = ep" using r k sd v by (auto simp: cascade_node_def cascade_source_def Let_def o)
    then show ?thesis using None by (auto simp: source_ok_def k o split: option.split)
  next
    case (Some p)
    then show ?thesis using r k sd(2,4) v v'
      by (auto simp: cascade_node_def cascade_source_def Let_def o bind_res_eq_Inr ok_or_eq_Inr source_ok_def
          node_output_domains_def same update_element_same split: option.splits if_splits)
  qed
qed

lemma cascade_inv_step:
  assumes ok: "graph_ok vg0" and o: "rev (vg_topo vg0) = before @ v # rest" and inv: "cascade_inv ops vg0 before st"
    and r: "cascade_node ops sol v st = Inr st'"
  shows "cascade_inv ops vg0 (before @ [v]) st'"
proof -
  obtain vg ep al where st: "st = (vg, ep, al)" by (cases st)
  obtain vg' ep' al' where st': "st' = (vg', ep', al')" by (cases st')
  have vm: "set (before @ v # rest) = {..<node_count vg0}" "distinct (before @ v # rest)"
    using graph_ok_topo [OF ok] o by (metis set_rev, metis distinct_rev)
  then have v: "v < node_count vg0" and nv: "v \<notin> set before" by auto
  have i: "same_shape vg0 vg" "length ep = edge_count vg0" "\<And>u. u \<notin> set before \<Longrightarrow> element_at vg u = element_at vg0 u"
    "\<And>u. u \<in> set before \<Longrightarrow> tee_ok vg0 ep u \<and> source_ok ops vg0 vg ep u"
    using inv by (auto simp: cascade_inv_def st)
  have f: "same_shape vg vg'" "length ep' = length ep" "\<And>u. u \<noteq> v \<Longrightarrow> element_at vg' u = element_at vg u"
    "\<And>e. e \<notin> set (in_edges_of vg0 v) \<Longrightarrow> ep' ! e = ep ! e"
    using cascade_node_frame [OF ok v _ r] i(1) same_shapeD(1) [OF i(1)] by (auto simp: step_frame_def st st')
  have old: "ep' ! e = ep ! e" if ub: "u \<in> set before" and eu: "e \<in> set (in_edges_of vg0 u) \<union> set (out_edges_of vg0 u)" for u e
  proof -
    have u: "u < node_count vg0" using ub vm(1) by auto
    obtain b1 b2 where b: "before = b1 @ u # b2" using split_list [OF ub] by blast
    have "edge_dst vg0 e \<in> set before"
      using ub eu graph_ok_in_edges(1,2) [OF ok u] downstream_done [OF ok, of b1 u "b2 @ v # rest" e] o b by auto
    then have "edge_dst vg0 e \<noteq> v" using nv by auto
    then show ?thesis using f(4) graph_ok_in_edges(1) [OF ok v] by blast
  qed
  have "tee_ok vg0 ep' u \<and> source_ok ops vg0 vg' ep' u" if u: "u \<in> set before" for u
  proof -
    have "u \<noteq> v" using nv u by blast
    then have "element_at vg' u = element_at vg u" by (rule f(3))
    then show ?thesis using i(4) [OF u] old [OF u] by (auto simp: tee_ok_def source_ok_def split: node_kind.splits option.splits)
  qed
  moreover have "tee_ok vg0 ep' v"
    using tee_step [OF ok v i(1,2) _ r [unfolded st st']] by (cases "vg_kind vg0 v") (auto simp: tee_ok_def)
  moreover have "source_ok ops vg0 vg' ep' v"
    using source_step [OF ok v i(1) i(3) [OF nv] _ r [unfolded st st']] by (cases "vg_kind vg0 v") (auto simp: source_ok_def)
  ultimately show ?thesis
    using same_shape_trans [OF i(1) f(1)] f(2,3) i(2,3) by (auto simp: cascade_inv_def st')
qed

lemma cascade_inv_run:
  assumes ok: "graph_ok vg0" and "rev (vg_topo vg0) = before @ vs" and "cascade_inv ops vg0 before st" and "cascade_nodes ops sol vs st = Inr st'"
  shows "cascade_inv ops vg0 (before @ vs) st'"
  using assms(2-4)
proof (induction vs arbitrary: before st)
  case (Cons v vs)
  then obtain s where s: "cascade_node ops sol v st = Inr s" "cascade_nodes ops sol vs s = Inr st'" by (auto simp: bind_res_eq_Inr)
  show ?case using Cons.IH [of "before @ [v]" s] cascade_inv_step [OF ok Cons.prems(1,2) s(1)] s(2) Cons.prems(1) by simp
qed simp

section \<open>Properties\<close>

text \<open>The edges that carry the buffers of an edge on, through tees that hand every buffer to all their branches.\<close>

inductive shares :: "('e, 'c) validated_graph \<Rightarrow> nat \<Rightarrow> nat \<Rightarrow> bool" for vg where
  shares_self: "shares vg e e"
| shares_tee: "shares vg e f \<Longrightarrow> f < edge_count vg \<Longrightarrow> vg_kind vg (edge_dst vg f) = Tee m \<Longrightarrow> g < edge_count vg \<Longrightarrow>
    edge_src vg g = edge_dst vg f \<Longrightarrow> shares vg e g"

lemma shares_accepts:
  assumes ok: "graph_ok vg" and tees: "\<forall>v<node_count vg. tee_ok vg ep v"
  shows "shares vg e f \<Longrightarrow> accepts_kind (ep ! e) k \<Longrightarrow> accepts_kind (ep ! f) k"
proof (induction rule: shares.induct)
  case (shares_tee e f m g)
  let ?v = "edge_dst vg f"
  have v: "?v < node_count vg" using graph_ok_edges(2) [OF ok shares_tee.hyps(2)] .
  have "f \<in> set (in_edges_of vg ?v)" "g \<in> set (out_edges_of vg ?v)"
    using graph_ok_in_edges(1,2) [OF ok v] shares_tee.hyps by auto
  then show ?case using tees v shares_tee.hyps(3) shares_tee.IH [OF shares_tee.prems] by (fastforce simp: tee_ok_def)
qed


text \<open>A source that can emit CUDA or system memory, feeding through a tee one sink that takes both and one that takes system memory only.\<close>

definition demo_tee_nodes :: "(nat, unit) graph" where
  "demo_tee_nodes = snd (push_node Sink (Some 2) (snd (push_node Sink (Some 1) (snd (push_node (Tee 2) None (snd (push_node Source (Some 0) graph_new)))))))"

definition demo_tee_graph :: "(nat, unit) graph" where
  "demo_tee_graph =
     (case bind_res (link (pad_of 0 0) (pad_of 1 0) demo_tee_nodes) (\<lambda>g. bind_res (link (pad_of 1 0) (pad_of 2 0) g) (link (pad_of 1 1) (pad_of 3 0))) of
        Inr g \<Rightarrow> g | Inl _ \<Rightarrow> graph_new)"

definition demo_ops :: "nat alloc_ops" where
  "demo_ops = \<lparr>ao_variant = (\<lambda>e. if e = 0 then RSource else RElement),
     ao_propose = (\<lambda>e _. if e = 1 then Some ((alloc_cuda 64 2 256)\<lparr>al_accepts := ds_with (ds_only KCuda) KSystem\<rparr>) else Some (alloc_system 100 1)),
     ao_propose_input = (\<lambda>_ _ _. None), ao_in_domains = (\<lambda>_. ds_ALL), ao_out_domains = (\<lambda>_. ds_with (ds_only KCuda) KSystem),
     ao_requests = (\<lambda>_. mr_new), ao_follows = (\<lambda>_. False), ao_configure = (\<lambda>p e. 100 + al_size_bytes p), ao_configure_output = (\<lambda>_ e. e)\<rparr>"

lemma demo_tee_built: "built demo_tee_graph"
proof -
  have "built demo_tee_nodes"
    unfolding demo_tee_nodes_def by (intro built_push built_new) (simp_all add: graph_new_def push_node_def)
  moreover have "\<exists>g1 g2. link (pad_of 0 0) (pad_of 1 0) demo_tee_nodes = Inr g1 \<and> link (pad_of 1 0) (pad_of 2 0) g1 = Inr g2 \<and>
      link (pad_of 1 1) (pad_of 3 0) g2 = Inr demo_tee_graph"
    by (simp add: demo_tee_graph_def demo_tee_nodes_def push_node_def graph_new_def node_id_def link_def link_with_def link_full_def
        check_pad_def kind_of_def pad_of_def pad_count_def get_def) code_simp
  ultimately show ?thesis using built_link unfolding link_def link_with_def by blast
qed


end
