(* ===== verification/CopyPlan.thy ===== *)
theory CopyPlan
  imports AllocCascade RustStr
begin

text \<open>
  The copy plan of a negotiated graph (\<^verbatim>\<open>copyplan.rs\<close>) and its enforcement before a run
  (\<^verbatim>\<open>runtime/graph_runner.rs\<close>). The analysis works on flat profiles of nodes and edges; the runner builds them from the
  validated graph, where the label and the output domain of an element are what the element says, arguments here.
\<close>

section \<open>Profiles and transfers\<close>

record node_profile =
  np_label :: string
  np_out_domain :: memory_domain_kind

record edge_profile =
  pe_src :: nat
  pe_dst :: nat
  pe_domain :: memory_domain_kind
  pe_caps :: caps

datatype transfer_kind = TransferNone | Interop | DeviceHost | CrossDevice

fun copies_bytes :: "transfer_kind \<Rightarrow> bool" where
  "copies_bytes DeviceHost = True"
| "copies_bytes CrossDevice = True"
| "copies_bytes _ = False"

fun is_host :: "memory_domain_kind \<Rightarrow> bool" where
  "is_host KSystem = True"
| "is_host KSystemView = True"
| "is_host _ = False"

definition copy_classify :: "memory_domain_kind \<Rightarrow> memory_domain_kind \<Rightarrow> transfer_kind" where
  "copy_classify src dst =
     (if src = dst then TransferNone
      else if src = KDmaBuf \<or> dst = KDmaBuf then Interop
      else case (is_host src, is_host dst) of
        (True, True) \<Rightarrow> TransferNone
      | (True, False) \<Rightarrow> DeviceHost
      | (False, True) \<Rightarrow> DeviceHost
      | (False, False) \<Rightarrow> CrossDevice)"

record transfer =
  tr_at :: nat
  tr_label :: string
  tr_from :: memory_domain_kind
  tr_to :: memory_domain_kind
  tr_kind :: transfer_kind
  tr_frame_copy :: bool

definition is_counted_copy :: "transfer \<Rightarrow> bool" where
  "is_counted_copy t \<longleftrightarrow> tr_frame_copy t \<and> copies_bytes (tr_kind t)"

record hop =
  hp_src_label :: string
  hp_dst_label :: string
  hp_domain :: memory_domain_kind

record copy_plan =
  cp_hops :: "hop list"
  cp_transfers :: "transfer list"

datatype copy_policy = CopyAllow | CopyAtMost u8 | CopyDenyAll

record copy_budget_error =
  ce_copies :: nat
  ce_budget :: nat
  ce_offenders :: "string list"

section \<open>Analysis\<close>

definition profile_label :: "node_profile list \<Rightarrow> nat \<Rightarrow> string" where
  "profile_label nodes i = (case get nodes i of Some n \<Rightarrow> np_label n | None \<Rightarrow> [])"

text \<open>The transfers into one node, an input edge at a time.\<close>

definition node_transfers :: "edge_profile list \<Rightarrow> nat \<Rightarrow> node_profile \<Rightarrow> transfer list" where
  "node_transfers edges idx node =
     (let out = np_out_domain node;
          out_caps = map_option pe_caps (find (\<lambda>e. pe_src e = idx) edges)
      in concat (map (\<lambda>e.
           let kind = copy_classify (pe_domain e) out
           in if kind = TransferNone then []
              else [\<lparr>tr_at = idx, tr_label = np_label node, tr_from = pe_domain e, tr_to = out, tr_kind = kind,
                     tr_frame_copy = (is_raw_media (pe_caps e) \<and> (case out_caps of Some c \<Rightarrow> is_raw_media c | None \<Rightarrow> False))\<rparr>])
         (filter (\<lambda>e. pe_dst e = idx) edges)))"

definition analyze :: "node_profile list \<Rightarrow> edge_profile list \<Rightarrow> copy_plan" where
  "analyze nodes edges =
     \<lparr>cp_hops = map (\<lambda>e. \<lparr>hp_src_label = profile_label nodes (pe_src e), hp_dst_label = profile_label nodes (pe_dst e),
        hp_domain = pe_domain e\<rparr>) edges,
      cp_transfers = concat (map (\<lambda>(idx, node). node_transfers edges idx node) (zip [0..<length nodes] nodes))\<rparr>"

definition frame_copies :: "copy_plan \<Rightarrow> nat" where
  "frame_copies p = length (filter is_counted_copy (cp_transfers p))"

definition host_round_trips :: "copy_plan \<Rightarrow> nat" where
  "host_round_trips p = length (filter (\<lambda>t. tr_frame_copy t \<and> tr_kind t = DeviceHost) (cp_transfers p))"

definition is_zero_copy :: "copy_plan \<Rightarrow> bool" where
  "is_zero_copy p \<longleftrightarrow> frame_copies p = 0"

fun domain_name :: "memory_domain_kind \<Rightarrow> string" where
  "domain_name KSystem = ''System''"
| "domain_name KSystemView = ''SystemView''"
| "domain_name KDmaBuf = ''DmaBuf''"
| "domain_name KVulkanTexture = ''VulkanTexture''"
| "domain_name KWebGPUBuffer = ''WebGPUBuffer''"
| "domain_name KCuda = ''Cuda''"
| "domain_name KD3D11Texture = ''D3D11Texture''"
| "domain_name KCvPixelBuffer = ''CvPixelBuffer''"
| "domain_name KWebGPUExternalTexture = ''WebGPUExternalTexture''"
| "domain_name KWgpuTexture = ''WgpuTexture''"
| "domain_name KWgpuBuffer = ''WgpuBuffer''"

definition plan_check :: "copy_plan \<Rightarrow> copy_policy \<Rightarrow> copy_budget_error + unit" where
  "plan_check p policy =
     (let limit = (\<lambda>budget.
        if frame_copies p \<le> budget then Inr ()
        else Inl \<lparr>ce_copies = frame_copies p, ce_budget = budget,
               ce_offenders = map (\<lambda>t. tr_label t @ '': '' @ domain_name (tr_from t) @ '' -> '' @ domain_name (tr_to t))
                 (filter is_counted_copy (cp_transfers p))\<rparr>)
      in case policy of
           CopyAllow \<Rightarrow> Inr ()
         | CopyDenyAll \<Rightarrow> limit 0
         | CopyAtMost n \<Rightarrow> limit (unat n))"

fun transfer_note :: "transfer_kind \<Rightarrow> bool \<Rightarrow> string" where
  "transfer_note DeviceHost True = ''device<->host copy (raw frame)''"
| "transfer_note CrossDevice True = ''cross-device copy (raw frame)''"
| "transfer_note DeviceHost False = ''codec boundary (no raw-frame copy)''"
| "transfer_note CrossDevice False = ''codec boundary (no raw-frame copy)''"
| "transfer_note Interop _ = ''zero-copy interop''"
| "transfer_note TransferNone _ = []"

definition newline :: string where "newline = [CHR 0x0A]"

definition to_report :: "copy_plan \<Rightarrow> string" where
  "to_report p =
     (let copies = frame_copies p;
          outcome = (if copies = 0 then ''zero-copy''
                     else show_nat copies @ '' frame cop'' @ (if copies = 1 then ''y'' else ''ies''))
      in ''Copy plan ('' @ outcome @ ''):'' @ newline @
         concat (map (\<lambda>h. ''  '' @ hp_src_label h @ '' --'' @ domain_name (hp_domain h) @ ''--> '' @ hp_dst_label h @ newline)
           (cp_hops p)) @
         (if cp_transfers p = [] then []
          else ''  transfers:'' @ newline @
            concat (map (\<lambda>t. ''    '' @ (if is_counted_copy t then ''!'' else ''~'') @ '' '' @ tr_label t @ ''  '' @
              domain_name (tr_from t) @ '' -> '' @ domain_name (tr_to t) @ ''  '' @
              transfer_note (tr_kind t) (tr_frame_copy t) @ newline) (cp_transfers p))))"

section \<open>The plan of a graph\<close>

definition ref_output_memory :: "'e alloc_ops \<Rightarrow> ('e \<Rightarrow> memory_domain_kind) \<Rightarrow> 'e \<Rightarrow> memory_domain_kind" where
  "ref_output_memory ops out_mem e =
     (case ao_variant ops e of
        RSource \<Rightarrow> out_mem e
      | RElement \<Rightarrow> out_mem e
      | RMuxer \<Rightarrow> (case ds_preferred (ao_out_domains ops e) of Some k \<Rightarrow> k | None \<Rightarrow> KSystem)
      | RFanoutSource \<Rightarrow> KSystem
      | RDemux \<Rightarrow> KSystem)"

definition node_output_memory :: "'e alloc_ops \<Rightarrow> ('e \<Rightarrow> memory_domain_kind) \<Rightarrow> ('e, 'c) validated_graph \<Rightarrow> node_id \<Rightarrow> memory_domain_kind" where
  "node_output_memory ops out_mem vg node =
     (case element_at vg node of Some e \<Rightarrow> ref_output_memory ops out_mem e | None \<Rightarrow> KSystem)"

definition caps_label :: "('e \<Rightarrow> string) \<Rightarrow> (node_kind \<Rightarrow> string) \<Rightarrow> ('e, 'c) validated_graph \<Rightarrow> node_id \<Rightarrow> string" where
  "caps_label category debug vg node =
     (case element_at vg node of
        Some e \<Rightarrow> category e
      | None \<Rightarrow> (case vg_kind vg node of Tee _ \<Rightarrow> ''tee'' | k \<Rightarrow> debug k))"

definition edge_memory_of :: "'e alloc_ops \<Rightarrow> ('e \<Rightarrow> memory_domain_kind) \<Rightarrow> ('e, 'c) validated_graph \<Rightarrow> memory_domain_kind list" where
  "edge_memory_of ops out_mem vg =
     map (\<lambda>i. node_output_memory ops out_mem vg (pad_node (e_src (vg_edge vg i)))) [0..<edge_count vg]"

definition graph_copy_plan ::
  "'e alloc_ops \<Rightarrow> ('e \<Rightarrow> memory_domain_kind) \<Rightarrow> ('e \<Rightarrow> string) \<Rightarrow> (node_kind \<Rightarrow> string) \<Rightarrow> ('e, 'c) validated_graph \<Rightarrow>
     caps list \<Rightarrow> memory_domain_kind list \<Rightarrow> copy_plan" where
  "graph_copy_plan ops out_mem category debug vg edge_caps edge_memory =
     analyze
       (map (\<lambda>i. \<lparr>np_label = caps_label category debug vg i, np_out_domain = node_output_memory ops out_mem vg i\<rparr>) [0..<node_count vg])
       (map (\<lambda>i. \<lparr>pe_src = pad_node (e_src (vg_edge vg i)), pe_dst = pad_node (e_dst (vg_edge vg i)),
                  pe_domain = edge_memory ! i, pe_caps = edge_caps ! i\<rparr>) [0..<edge_count vg])"

definition enforce_copy_policy ::
  "'e alloc_ops \<Rightarrow> ('e \<Rightarrow> memory_domain_kind) \<Rightarrow> ('e \<Rightarrow> string) \<Rightarrow> (node_kind \<Rightarrow> string) \<Rightarrow> ('e, 'c) validated_graph \<Rightarrow>
     caps list \<Rightarrow> copy_policy \<Rightarrow> g2g_error + unit" where
  "enforce_copy_policy ops out_mem category debug vg solution policy =
     (case plan_check (graph_copy_plan ops out_mem category debug vg solution (edge_memory_of ops out_mem vg)) policy of
        Inr _ \<Rightarrow> Inr ()
      | Inl _ \<Rightarrow> Inl CopyBudget)"

section \<open>What the plan counts\<close>

text \<open>The caps of the first edge out of a node, by which the plan judges its output.\<close>

definition first_out :: "edge_profile list \<Rightarrow> nat \<Rightarrow> caps option" where
  "first_out edges i = map_option pe_caps (find (\<lambda>e. pe_src e = i) edges)"

definition copies_into :: "node_profile list \<Rightarrow> edge_profile list \<Rightarrow> edge_profile \<Rightarrow> bool" where
  "copies_into nodes edges e \<longleftrightarrow>
     pe_dst e < length nodes \<and> copies_bytes (copy_classify (pe_domain e) (np_out_domain (nodes ! pe_dst e))) \<and>
     is_raw_media (pe_caps e) \<and> (\<exists>c. first_out edges (pe_dst e) = Some c \<and> is_raw_media c)"

lemma zip_upt_mem: "(i, x) \<in> set (zip [0..<length xs] xs) \<longleftrightarrow> i < length xs \<and> x = xs ! i"
  by (force simp: set_zip)

lemma transfers_set:
  "set (cp_transfers (analyze nodes edges)) = (\<Union>i < length nodes. set (node_transfers edges i (nodes ! i)))"
proof -
  have "set (zip [0..<length nodes] nodes) = (\<lambda>i. (i, nodes ! i)) ` {..<length nodes}" by (auto simp: zip_upt_mem)
  then show ?thesis by (simp add: analyze_def)
qed

lemma counted_transfer_iff:
  "(\<exists>t \<in> set (cp_transfers (analyze nodes edges)). is_counted_copy t) \<longleftrightarrow> (\<exists>e \<in> set edges. copies_into nodes edges e)"
proof
  assume "\<exists>t \<in> set (cp_transfers (analyze nodes edges)). is_counted_copy t"
  then obtain i where i: "i < length nodes" "\<exists>t \<in> set (node_transfers edges i (nodes ! i)). is_counted_copy t"
    unfolding transfers_set by blast
  then show "\<exists>e \<in> set edges. copies_into nodes edges e"
    by (auto simp: node_transfers_def Let_def copies_into_def first_out_def is_counted_copy_def split: if_splits option.splits)
next
  assume "\<exists>e \<in> set edges. copies_into nodes edges e"
  then obtain e where e: "e \<in> set edges" "copies_into nodes edges e" by blast
  have "\<exists>t \<in> set (node_transfers edges (pe_dst e) (nodes ! pe_dst e)). is_counted_copy t"
    using e by (force simp: node_transfers_def Let_def copies_into_def first_out_def is_counted_copy_def split: option.splits)
  then show "\<exists>t \<in> set (cp_transfers (analyze nodes edges)). is_counted_copy t"
    using e(2) unfolding transfers_set copies_into_def by blast
qed

lemma zero_copy_iff: "is_zero_copy (analyze nodes edges) \<longleftrightarrow> (\<forall>e \<in> set edges. \<not> copies_into nodes edges e)"
  using counted_transfer_iff [of nodes edges] by (auto simp: is_zero_copy_def frame_copies_def filter_empty_conv)

lemma deny_all_iff: "plan_check p CopyDenyAll = Inr () \<longleftrightarrow> is_zero_copy p"
  by (simp add: plan_check_def is_zero_copy_def)

lemma check_iff:
  "plan_check p policy = Inr () \<longleftrightarrow>
     (case policy of CopyAllow \<Rightarrow> True | CopyDenyAll \<Rightarrow> frame_copies p = 0 | CopyAtMost n \<Rightarrow> frame_copies p \<le> unat n)"
  by (auto simp: plan_check_def Let_def split: copy_policy.split)

text \<open>Two domains that need no transfer: the same, or both host memory.\<close>

definition same_memory :: "memory_domain_kind \<Rightarrow> memory_domain_kind \<Rightarrow> bool" where
  "same_memory a b \<longleftrightarrow> a = b \<or> is_host a \<and> is_host b"

lemma same_memory_trans: "same_memory a b \<Longrightarrow> same_memory b c \<Longrightarrow> same_memory a c"
  by (auto simp: same_memory_def)

lemma no_copy_same_memory: "\<not> copies_bytes (copy_classify a b) \<Longrightarrow> a \<noteq> KDmaBuf \<Longrightarrow> b \<noteq> KDmaBuf \<Longrightarrow> same_memory a b"
  by (auto simp: copy_classify_def same_memory_def split: if_splits bool.splits)

text \<open>A route of a frame: each edge starts where the one before ended.\<close>

fun is_route :: "edge_profile list \<Rightarrow> bool" where
  "is_route (e # f # es) \<longleftrightarrow> pe_dst e = pe_src f \<and> is_route (f # es)"
| "is_route _ \<longleftrightarrow> True"

definition profiles_agree :: "node_profile list \<Rightarrow> edge_profile list \<Rightarrow> bool" where
  "profiles_agree nodes edges \<longleftrightarrow>
     (\<forall>e \<in> set edges. pe_src e < length nodes \<and> pe_dst e < length nodes \<and> pe_domain e = np_out_domain (nodes ! pe_src e)) \<and>
     (\<forall>e \<in> set edges. \<forall>f \<in> set edges. pe_src e = pe_src f \<longrightarrow> is_raw_media (pe_caps e) = is_raw_media (pe_caps f))"

lemma find_witness: "x \<in> set xs \<Longrightarrow> P x \<Longrightarrow> \<exists>y \<in> set xs. find P xs = Some y \<and> P y"
  by (induction xs) auto

lemma first_out_raw:
  assumes "profiles_agree nodes edges" "f \<in> set edges" "is_raw_media (pe_caps f)"
  shows "\<exists>c. first_out edges (pe_src f) = Some c \<and> is_raw_media c"
proof -
  obtain y where "y \<in> set edges" "find (\<lambda>e. pe_src e = pe_src f) edges = Some y" "pe_src y = pe_src f"
    using find_witness [OF assms(2), of "\<lambda>e. pe_src e = pe_src f"] by auto
  then show ?thesis using assms unfolding profiles_agree_def first_out_def by (metis option.map(2))
qed

lemma route_step:
  assumes "is_zero_copy (analyze nodes edges)" "profiles_agree nodes edges" "e \<in> set edges" "f \<in> set edges"
    and "pe_dst e = pe_src f" "is_raw_media (pe_caps e)" "is_raw_media (pe_caps f)" "pe_domain e \<noteq> KDmaBuf" "pe_domain f \<noteq> KDmaBuf"
  shows "same_memory (pe_domain e) (pe_domain f)"
proof -
  have d: "pe_domain f = np_out_domain (nodes ! pe_dst e)" "pe_dst e < length nodes"
    using assms(2-5) unfolding profiles_agree_def by auto
  obtain c where "first_out edges (pe_dst e) = Some c" "is_raw_media c"
    using first_out_raw [OF assms(2,4,7)] assms(5) by auto
  then have "\<not> copies_bytes (copy_classify (pe_domain e) (pe_domain f))"
    using assms(1,3,6) d by (auto simp: zero_copy_iff copies_into_def)
  then show ?thesis using assms(8,9) by (rule no_copy_same_memory)
qed

lemma route_same_memory:
  assumes "is_zero_copy (analyze nodes edges)" "profiles_agree nodes edges"
  shows "is_route es \<Longrightarrow> set es \<subseteq> set edges \<Longrightarrow> \<forall>e \<in> set es. is_raw_media (pe_caps e) \<and> pe_domain e \<noteq> KDmaBuf \<Longrightarrow>
     f \<in> set es \<Longrightarrow> same_memory (pe_domain (hd es)) (pe_domain f)"
proof (induction es rule: is_route.induct)
  case (1 e g es)
  have s: "same_memory (pe_domain e) (pe_domain g)"
    using "1.prems" by (intro route_step [OF assms]) auto
  show ?case
  proof (cases "f = e")
    case False
    then have "same_memory (pe_domain g) (pe_domain f)" using "1.IH" "1.prems" by auto
    then show ?thesis using s same_memory_trans by simp
  qed (simp add: same_memory_def)
qed (auto simp: same_memory_def)

section \<open>Contracts\<close>


definition pcm :: caps where
  "pcm = Audio PcmS16Le 2 48000 STEREO"

lemma pcm_raw: "is_raw_media pcm"
  by code_simp


text \<open>
  C23. The plan of a graph does not see through a tee: a tee carries no element, so it is taken to emit host memory. A
  pipeline whose raw frames stay on one device up to a tee and past it, where nothing is copied, is refused under the
  zero-copy policy.
\<close>

theorem tee_on_device_refused:
  assumes "i < edge_count vg" "pad_node (e_dst (vg_edge vg i)) = t" "t < node_count vg" "element_at vg t = None"
    and "is_raw_media (solution ! i)"
    and "\<not> is_host (node_output_memory ops out_mem vg (pad_node (e_src (vg_edge vg i))))"
    and "node_output_memory ops out_mem vg (pad_node (e_src (vg_edge vg i))) \<noteq> KDmaBuf"
    and "\<exists>j < edge_count vg. pad_node (e_src (vg_edge vg j)) = t"
    and "\<forall>j < edge_count vg. pad_node (e_src (vg_edge vg j)) = t \<longrightarrow> is_raw_media (solution ! j)"
  shows "enforce_copy_policy ops out_mem category debug vg solution CopyDenyAll = Inl CopyBudget"
proof -
  let ?edge = "\<lambda>i. \<lparr>pe_src = pad_node (e_src (vg_edge vg i)), pe_dst = pad_node (e_dst (vg_edge vg i)),
    pe_domain = edge_memory_of ops out_mem vg ! i, pe_caps = solution ! i\<rparr>"
  let ?edges = "map ?edge [0..<edge_count vg]"
  let ?nodes = "map (\<lambda>i. \<lparr>np_label = caps_label category debug vg i, np_out_domain = node_output_memory ops out_mem vg i\<rparr>) [0..<node_count vg]"
  obtain j where j: "j < edge_count vg" "pad_node (e_src (vg_edge vg j)) = t" using assms(8) by blast
  have "\<exists>y \<in> set ?edges. find (\<lambda>e. pe_src e = t) ?edges = Some y \<and> pe_src y = t"
    by (rule find_witness [of "?edge j"]) (use j in \<open>auto intro!: image_eqI [of _ _ j]\<close>)
  then have "\<exists>c. first_out ?edges t = Some c \<and> is_raw_media c" using assms(9) by (auto simp: first_out_def)
  then have "copies_into ?nodes ?edges (?edge i)"
    using assms(1-7) by (auto simp: copies_into_def edge_memory_of_def copy_classify_def node_output_memory_def split: bool.splits)
  then have "\<not> is_zero_copy (analyze ?nodes ?edges)" using assms(1) by (auto simp: zero_copy_iff)
  then have "plan_check (graph_copy_plan ops out_mem category debug vg solution (edge_memory_of ops out_mem vg)) CopyDenyAll \<noteq> Inr ()"
    unfolding deny_all_iff graph_copy_plan_def .
  then show ?thesis by (auto simp: enforce_copy_policy_def split: sum.split)
qed

text \<open>A source on one device, a tee, and a download on each branch; an element is here the domain it emits.\<close>

definition downloads_graph :: "(memory_domain_kind, unit) graph" where
  "downloads_graph =
     (let (s, g) = add_source KCuda graph_new; (t, g) = add_tee 2 g; (a, g) = add_transform KSystem g;
          (b, g) = add_transform KSystem g; (x, g) = add_sink KSystem g; (y, g) = add_sink KSystem g
      in case bind_res (link (pad_of s 0) (pad_of t 0) g) (\<lambda>g.
              bind_res (link (pad_of t 0) (pad_of a 0) g) (\<lambda>g.
              bind_res (link (pad_of t 1) (pad_of b 0) g) (\<lambda>g.
              bind_res (link (pad_of a 0) (pad_of x 0) g) (link (pad_of b 0) (pad_of y 0))))) of
           Inr g \<Rightarrow> g | Inl _ \<Rightarrow> graph_new)"

definition domain_ops :: "memory_domain_kind alloc_ops" where
  "domain_ops = \<lparr>ao_variant = (\<lambda>_. RElement), ao_propose = (\<lambda>_ _. None), ao_propose_input = (\<lambda>_ _ _. None),
     ao_in_domains = (\<lambda>_. ds_ALL), ao_out_domains = ds_only, ao_requests = (\<lambda>_. mr_new), ao_follows = (\<lambda>_. False),
     ao_configure = (\<lambda>_ e. e), ao_configure_output = (\<lambda>_ e. e)\<rparr>"

theorem tee_on_device_refused_witness:
  "\<exists>vg. finish downloads_graph = Some (Inr vg) \<and>
     enforce_copy_policy domain_ops (\<lambda>k. k) domain_name (\<lambda>_. []) vg (replicate 5 pcm) CopyDenyAll = Inl CopyBudget"
proof -
  have "(case finish downloads_graph of
      Some (Inr vg) \<Rightarrow> edge_count vg = 5 \<and> pad_node (e_dst (vg_edge vg 0)) = 1 \<and> 1 < node_count vg \<and> element_at vg 1 = None \<and>
        node_output_memory domain_ops (\<lambda>k. k) vg (pad_node (e_src (vg_edge vg 0))) = KCuda \<and> pad_node (e_src (vg_edge vg 1)) = 1
    | _ \<Rightarrow> False)" by code_simp
  then obtain vg where v: "finish downloads_graph = Some (Inr vg)" "edge_count vg = 5" "pad_node (e_dst (vg_edge vg 0)) = 1"
    "1 < node_count vg" "element_at vg 1 = None"
    "node_output_memory domain_ops (\<lambda>k. k) vg (pad_node (e_src (vg_edge vg 0))) = KCuda" "pad_node (e_src (vg_edge vg 1)) = 1"
    by (auto split: option.splits sum.splits)
  have "enforce_copy_policy domain_ops (\<lambda>k. k) domain_name (\<lambda>_. []) vg (replicate 5 pcm) CopyDenyAll = Inl CopyBudget"
    by (rule tee_on_device_refused [of 0 vg 1]) (use v in \<open>auto simp: pcm_raw intro!: exI [of _ 1]\<close>)
  then show ?thesis using v(1) by blast
qed

text \<open>
  Behind a tee copies go uncounted: two branches of a tee that each download the frames of a device make two copies, the
  plan counts one, at the tee where there is none, and a budget of one is met.
\<close>

theorem tee_hides_downloads:
  "case finish downloads_graph of
     Some (Inr vg) \<Rightarrow>
       (let plan = graph_copy_plan domain_ops (\<lambda>k. k) domain_name (\<lambda>_. []) vg (replicate 5 pcm) (edge_memory_of domain_ops (\<lambda>k. k) vg) in
        map tr_label (filter is_counted_copy (cp_transfers plan)) = [''tee''] \<and>
        enforce_copy_policy domain_ops (\<lambda>k. k) domain_name (\<lambda>_. []) vg (replicate 5 pcm) (CopyAtMost 1) = Inr ())
   | _ \<Rightarrow> False"
  by code_simp

end
