(* ===== verification/Drift.thy ===== *)
theory Drift
  imports Clocks Complex_Main
begin

text \<open>
  The disciplined clock (\<^verbatim>\<open>DriftClock\<close> of \<^verbatim>\<open>clock.rs\<close>): a window of observations, an exponentially weighted
  least-squares line through them, and a gate that drops outliers. Floating point is modelled by exact rational arithmetic with a
  rounding function \<open>rnd\<close> applied to the result of every operation, in the order of the source; the magnitudes here are far
  from the overflow of a double. The identity as rounding function is the idealised arithmetic of the exactness lemmas.
\<close>

section \<open>The fit\<close>

record drift_fit =
  df_anchor_local :: u64
  df_master :: rat
  df_slope :: rat

type_synonym sample = "u64 \<times> u64"

definition DEFAULT_WINDOW :: nat where "DEFAULT_WINDOW = 64"
definition DEFAULT_OUTLIER_GATE_NS :: u64 where "DEFAULT_OUTLIER_GATE_NS = 10000000"
definition RECENCY_DECAY :: rat where "RECENCY_DECAY = 95 / 100"
definition MIN_SAMPLES_TO_GATE :: nat where "MIN_SAMPLES_TO_GATE = 8"
definition MAX_CONSECUTIVE_REJECTS :: nat where "MAX_CONSECUTIVE_REJECTS = 8"

text \<open>The first pass over the samples, newest first: the weight in force, and the sums of weights and weighted coordinates.\<close>

fun centroid_pass :: "(rat \<Rightarrow> rat) \<Rightarrow> (rat \<times> rat) list \<Rightarrow> rat \<Rightarrow> rat \<times> rat \<times> rat \<Rightarrow> rat \<times> rat \<times> rat" where
  "centroid_pass rnd [] w (t, x, y) = (t, x, y)"
| "centroid_pass rnd ((dx, dy) # ps) w (t, x, y) =
     centroid_pass rnd ps (rnd (w * rnd RECENCY_DECAY))
       (rnd (t + w), rnd (x + rnd (w * dx)), rnd (y + rnd (w * dy)))"

text \<open>The second pass: the weighted squares and products of the distances from the centroid.\<close>

fun moment_pass :: "(rat \<Rightarrow> rat) \<Rightarrow> (rat \<times> rat) list \<Rightarrow> rat \<Rightarrow> rat \<Rightarrow> rat \<Rightarrow> rat \<times> rat \<Rightarrow> rat \<times> rat" where
  "moment_pass rnd [] cx cy w (sxx, sxy) = (sxx, sxy)"
| "moment_pass rnd ((dx, dy) # ps) cx cy w (sxx, sxy) =
     (let ex = rnd (dx - cx); ey = rnd (dy - cy) in
      moment_pass rnd ps cx cy (rnd (w * rnd RECENCY_DECAY))
        (rnd (sxx + rnd (rnd (w * ex) * ex)), rnd (sxy + rnd (rnd (w * ex) * ey))))"

definition compute_fit :: "(rat \<Rightarrow> rat) \<Rightarrow> sample list \<Rightarrow> drift_fit" where
  "compute_fit rnd samples =
     (let (anchor_local, anchor_master) = List.last samples; n = int (length samples) in
      if n = 1 then \<lparr>df_anchor_local = anchor_local, df_master = rnd (of_int (uint anchor_master)), df_slope = 1\<rparr>
      else
        (let mean_x = (\<Sum>(x, _)\<leftarrow>samples. uint x) div n;
             mean_y = (\<Sum>(_, y)\<leftarrow>samples. uint y) div n;
             centred = map (\<lambda>(x, y). (rnd (of_int (uint x - mean_x)), rnd (of_int (uint y - mean_y)))) (rev samples);
             (weight_total, weighted_x, weighted_y) = centroid_pass rnd centred 1 (0, 0, 0);
             centroid_x = rnd (weighted_x / weight_total);
             centroid_y = rnd (weighted_y / weight_total);
             (sxx, sxy) = moment_pass rnd centred centroid_x centroid_y 1 (0, 0);
             slope = (if 0 < sxx then rnd (sxy / sxx) else 1);
             anchor_dx = rnd (of_int (uint anchor_local - mean_x));
             master = rnd (rnd (rnd (of_int mean_y) + centroid_y) + rnd (slope * rnd (anchor_dx - centroid_x)))
         in \<lparr>df_anchor_local = anchor_local, df_master = master, df_slope = slope\<rparr>))"

definition project_through :: "(rat \<Rightarrow> rat) \<Rightarrow> drift_fit \<Rightarrow> u64 \<Rightarrow> rat" where
  "project_through rnd fit local =
     rnd (df_master fit + rnd (df_slope fit * rnd (of_int (uint local - uint (df_anchor_local fit)))))"

section \<open>The clock\<close>

record drift_clock =
  dc_outlier_gate_ns :: u64
  dc_samples :: "sample list"
  dc_capacity :: nat
  dc_fit :: "drift_fit option"
  dc_consecutive_rejects :: nat

datatype drift_observation = Folded | Rejected | Restarted

definition with_window_and_gate :: "nat \<Rightarrow> u64 \<Rightarrow> drift_clock" where
  "with_window_and_gate window gate =
     \<lparr>dc_outlier_gate_ns = gate, dc_samples = [], dc_capacity = max window 2, dc_fit = None, dc_consecutive_rejects = 0\<rparr>"

definition with_window :: "nat \<Rightarrow> drift_clock" where
  "with_window window = with_window_and_gate window DEFAULT_OUTLIER_GATE_NS"

definition with_gate :: "u64 \<Rightarrow> drift_clock" where
  "with_gate gate = with_window_and_gate DEFAULT_WINDOW gate"

definition drift_new :: drift_clock where
  "drift_new = with_window DEFAULT_WINDOW"

definition is_gated :: "(rat \<Rightarrow> rat) \<Rightarrow> u64 \<Rightarrow> u64 \<Rightarrow> drift_clock \<Rightarrow> bool" where
  "is_gated rnd local master st \<longleftrightarrow>
     MIN_SAMPLES_TO_GATE \<le> length (dc_samples st) \<and>
     (case dc_fit st of
        Some fit \<Rightarrow> \<bar>rnd (rnd (of_int (uint master)) - project_through rnd fit local)\<bar> > rnd (of_int (uint (dc_outlier_gate_ns st)))
      | None \<Rightarrow> False)"

definition accept_sample :: "(rat \<Rightarrow> rat) \<Rightarrow> u64 \<Rightarrow> u64 \<Rightarrow> sample list \<Rightarrow> drift_clock \<Rightarrow> drift_clock" where
  "accept_sample rnd local master samples st =
     (let samples = (if length samples = dc_capacity st then tl samples else samples) @ [(local, master)]
      in st\<lparr>dc_samples := samples, dc_fit := Some (compute_fit rnd samples), dc_consecutive_rejects := 0\<rparr>)"

definition drift_observe :: "(rat \<Rightarrow> rat) \<Rightarrow> u64 \<Rightarrow> u64 \<Rightarrow> drift_clock \<Rightarrow> drift_clock \<times> drift_observation" where
  "drift_observe rnd local master st =
     (if is_gated rnd local master st
      then (let rejects = dc_consecutive_rejects st + 1 in
            if rejects < MAX_CONSECUTIVE_REJECTS then (st\<lparr>dc_consecutive_rejects := rejects\<rparr>, Rejected)
            else (accept_sample rnd local master [] st, Restarted))
      else (accept_sample rnd local master (dc_samples st) st, Folded))"

definition drift_slope :: "drift_clock \<Rightarrow> rat" where
  "drift_slope st = (case dc_fit st of Some f \<Rightarrow> df_slope f | None \<Rightarrow> 1)"

definition observations :: "drift_clock \<Rightarrow> nat" where
  "observations st = length (dc_samples st)"

text \<open>The cast of a positive double to an unsigned integer truncates and saturates.\<close>

definition project_ns :: "(rat \<Rightarrow> rat) \<Rightarrow> drift_clock \<Rightarrow> u64 \<Rightarrow> u64" where
  "project_ns rnd st local =
     (case dc_fit st of
        None \<Rightarrow> local
      | Some f \<Rightarrow> (let est = project_through rnd f local in if est \<le> 0 then 0 else of_int (min (2 ^ 64 - 1) \<lfloor>est\<rfloor>)))"

section \<open>The window\<close>

definition drift_inv :: "drift_clock \<Rightarrow> bool" where
  "drift_inv st \<longleftrightarrow> 2 \<le> dc_capacity st \<and> length (dc_samples st) \<le> dc_capacity st \<and>
     dc_consecutive_rejects st < MAX_CONSECUTIVE_REJECTS \<and> (dc_fit st = None \<longleftrightarrow> dc_samples st = [])"

lemma drift_inv_new [simp]: "drift_inv (with_window_and_gate w g)"
  by (simp add: drift_inv_def with_window_and_gate_def MAX_CONSECUTIVE_REJECTS_def)

lemma drift_inv_accept:
  "2 \<le> dc_capacity st \<Longrightarrow> length xs \<le> dc_capacity st \<Longrightarrow> drift_inv (accept_sample rnd l m xs st)"
  by (simp add: drift_inv_def accept_sample_def Let_def MAX_CONSECUTIVE_REJECTS_def)

lemma drift_inv_observe:
  assumes "drift_inv st"
  shows "drift_inv (fst (drift_observe rnd l m st))"
  using assms drift_inv_accept [of st "[]"] drift_inv_accept [of st "dc_samples st"]
  by (auto simp: drift_observe_def Let_def drift_inv_def)

section \<open>The fit of a line\<close>

lemma decay_pos: "0 < RECENCY_DECAY"
  by (simp add: RECENCY_DECAY_def)

text \<open>On points of a line the weighted centroid lies on it, whatever the weights.\<close>

lemma centroid_pass_line:
  assumes "\<forall>(dx, dy)\<in>set ps. dy = a * dx + c" "y = a * x + c * t" "0 \<le> t" "0 < w"
    and "centroid_pass id ps w (t, x, y) = (t', x', y')"
  shows "y' = a * x' + c * t' \<and> t \<le> t' \<and> (ps \<noteq> [] \<longrightarrow> 0 < t')"
  using assms
proof (induction ps arbitrary: w t x y)
  case (Cons p ps)
  obtain dx dy where p: "p = (dx, dy)" by (cases p)
  have "y + w * dy = a * (x + w * dx) + c * (t + w)" using Cons.prems(1,2) by (simp add: p algebra_simps)
  then show ?case
    using Cons.IH [of "y + w * dy" "x + w * dx" "t + w" "w * RECENCY_DECAY"] Cons.prems decay_pos by (auto simp: p)
qed auto

text \<open>So do the moments: the products are the slope times the squares, and the squares vanish only if every point has the same abscissa.\<close>

lemma moment_pass_line:
  assumes "\<forall>(dx, dy)\<in>set ps. dy - cy = a * (dx - cx)" "sxy = a * sxx" "0 \<le> sxx" "0 < w"
    and "moment_pass id ps cx cy w (sxx, sxy) = (sxx', sxy')"
  shows "sxy' = a * sxx' \<and> sxx \<le> sxx' \<and> (sxx' = 0 \<longrightarrow> (\<forall>(dx, dy)\<in>set ps. dx = cx))"
  using assms
proof (induction ps arbitrary: w sxx sxy)
  case (Cons p ps)
  obtain dx dy where p: "p = (dx, dy)" by (cases p)
  have e: "dy - cy = a * (dx - cx)" using Cons.prems(1) by (simp add: p)
  have q: "0 \<le> w * (dx - cx) * (dx - cx)" using Cons.prems(4) by (simp add: mult.assoc)
  have "sxy + w * (dx - cx) * (dy - cy) = a * (sxx + w * (dx - cx) * (dx - cx))"
    by (simp add: e Cons.prems(2) algebra_simps)
  then have i: "sxy' = a * sxx' \<and> sxx + w * (dx - cx) * (dx - cx) \<le> sxx' \<and> (sxx' = 0 \<longrightarrow> (\<forall>(dx, dy)\<in>set ps. dx = cx))"
    using Cons.IH [of "sxy + w * (dx - cx) * (dy - cy)" "sxx + w * (dx - cx) * (dx - cx)" "w * RECENCY_DECAY"]
      Cons.prems decay_pos q by (auto simp: p Let_def)
  moreover have "dx = cx" if "sxx' = 0"
  proof -
    have "w * (dx - cx) * (dx - cx) = 0" using i that q Cons.prems(3) by linarith
    then show ?thesis using Cons.prems(4) by simp
  qed
  ultimately show ?case using q Cons.prems(3) by (auto simp: p)
qed auto

definition on_line :: "rat \<Rightarrow> rat \<Rightarrow> sample \<Rightarrow> bool" where
  "on_line a b s \<longleftrightarrow> rat_of_int (uint (snd s)) = a * rat_of_int (uint (fst s)) + b"

lemma fit_of_line:
  assumes line: "\<forall>s\<in>set samples. on_line a b s" and two: "\<exists>s\<in>set samples. \<exists>t\<in>set samples. fst s \<noteq> fst t"
  shows "df_slope (compute_fit id samples) = a" and "project_through id (compute_fit id samples) l = a * of_int (uint l) + b"
proof -
  obtain al am where l: "List.last samples = (al, am)" by (cases "List.last samples")
  have n: "int (length samples) \<noteq> 1" using two by (auto simp: length_Suc_conv)
  have ne: "samples \<noteq> []" using two by auto
  define mx my where "mx = (\<Sum>(x, _)\<leftarrow>samples. uint x) div int (length samples)" and "my = (\<Sum>(_, y)\<leftarrow>samples. uint y) div int (length samples)"
  define c where "c = a * of_int mx + b - of_int my"
  define ps where "ps = map (\<lambda>(x, y). (rat_of_int (uint x - mx), rat_of_int (uint y - my))) (rev samples)"
  have pc: "\<forall>(dx, dy)\<in>set ps. dy = a * dx + c"
    using line by (auto simp: ps_def c_def on_line_def algebra_simps)
  obtain t x y where pass: "centroid_pass id ps 1 (0, 0, 0) = (t, x, y)" by (metis prod_cases3)
  have "ps \<noteq> []" using ne by (simp add: ps_def)
  then have xy: "y = a * x + c * t" "0 < t" using centroid_pass_line [OF pc _ _ _ pass] by auto
  define cx cy where "cx = x / t" and "cy = y / t"
  have cy: "cy = a * cx + c" using xy by (simp add: cx_def cy_def field_simps)
  have pm: "\<forall>(dx, dy)\<in>set ps. dy - cy = a * (dx - cx)" using pc by (auto simp: cy algebra_simps)
  obtain sxx sxy where mom: "moment_pass id ps cx cy 1 (0, 0) = (sxx, sxy)" by (metis prod.exhaust)
  note m = moment_pass_line [OF pm _ _ _ mom]
  have "sxx \<noteq> 0"
  proof
    assume "sxx = 0"
    then have "\<forall>(dx, dy)\<in>set ps. dx = cx" using m by simp
    then have "\<forall>s\<in>set samples. rat_of_int (uint (fst s) - mx) = cx" by (auto simp: ps_def)
    then have "uint (fst s) = uint (fst t)" if "s \<in> set samples" "t \<in> set samples" for s t
      using that by (metis of_int_eq_iff diff_add_cancel)
    then show False using two by (metis word_uint_eq_iff)
  qed
  then have s: "0 < sxx" "sxy / sxx = a" using m by auto
  define mm where "mm = of_int my + cy + a * (of_int (uint al - mx) - cx)"
  have fit: "compute_fit id samples = \<lparr>df_anchor_local = al, df_master = mm, df_slope = a\<rparr>"
    unfolding compute_fit_def Let_def l prod.case id_apply mx_def [symmetric] my_def [symmetric] ps_def [symmetric] pass
      cx_def [symmetric] cy_def [symmetric] mom mm_def using n s by simp
  show "df_slope (compute_fit id samples) = a" by (simp add: fit)
  show "project_through id (compute_fit id samples) l = a * of_int (uint l) + b"
    by (simp add: fit project_through_def mm_def cy c_def algebra_simps)
qed

section \<open>Properties\<close>

fun drift_run :: "(rat \<Rightarrow> rat) \<Rightarrow> sample list \<Rightarrow> drift_clock \<Rightarrow> drift_clock \<times> drift_observation list" where
  "drift_run rnd [] st = (st, [])"
| "drift_run rnd ((l, m) # obs) st =
     (let (st, o1) = drift_observe rnd l m st; (st, os) = drift_run rnd obs st in (st, o1 # os))"

lemma drift_run_append:
  "drift_run rnd (xs @ ys) st =
    (let (st1, o1) = drift_run rnd xs st; (st2, o2) = drift_run rnd ys st1 in (st2, o1 @ o2))"
  by (induction xs arbitrary: st) (auto simp: Let_def split: prod.split)

text \<open>Rejections are bounded: any eight observations in a row fold or restart at least once, whatever the arithmetic.\<close>

lemma rejects_counted:
  assumes "drift_run rnd obs st = (st', os)" "set os = {Rejected}"
  shows "dc_consecutive_rejects st' = dc_consecutive_rejects st + length obs"
  using assms
proof (induction obs arbitrary: st os)
  case (Cons ob obs)
  obtain l m where ob: "ob = (l, m)" by (cases ob)
  obtain st1 o1 os1 where r: "drift_observe rnd l m st = (st1, o1)" "drift_run rnd obs st1 = (st', os1)" "os = o1 # os1"
    using Cons.prems(1) by (auto simp: ob Let_def split: prod.splits)
  have "o1 = Rejected" using Cons.prems(2) r(3) by auto
  then have c: "dc_consecutive_rejects st1 = dc_consecutive_rejects st + 1"
    using r(1) by (auto simp: drift_observe_def Let_def split: if_splits)
  show ?case
  proof (cases "obs = []")
    case True
    then show ?thesis using r(2) c by simp
  next
    case False
    then have "os1 \<noteq> []" using r(2) by (cases obs) (auto simp: Let_def split: prod.splits)
    then have "set os1 = {Rejected}" using Cons.prems(2) r(3) by (cases os1) auto
    then show ?thesis using Cons.IH [OF r(2)] c by simp
  qed
qed simp

lemma drift_run_inv: "drift_inv st \<Longrightarrow> drift_run rnd obs st = (st', os) \<Longrightarrow> drift_inv st' \<and> length os = length obs"
proof (induction obs arbitrary: st os)
  case (Cons ob obs)
  obtain l m where ob: "ob = (l, m)" by (cases ob)
  obtain st1 o1 os1 where r: "drift_observe rnd l m st = (st1, o1)" "drift_run rnd obs st1 = (st', os1)" "os = o1 # os1"
    using Cons.prems(2) by (auto simp: ob Let_def split: prod.splits)
  have "drift_inv st1" using drift_inv_observe [OF Cons.prems(1), of rnd l m] r(1) by simp
  then show ?case using Cons.IH [OF _ r(2)] r(3) by simp
qed simp

text \<open>
  C40. No run of observations, whatever the rounding, leaves more than seven rejections in a row: among any eight successive
  observations one is folded in or restarts the window, so a timeline that really moved is followed.
\<close>

theorem rejects_bounded:
  assumes "drift_run rnd (obs @ recent) (with_window_and_gate w g) = (st, os @ outcomes)" "length os = length obs" "8 \<le> length recent"
  shows "Folded \<in> set outcomes \<or> Restarted \<in> set outcomes"
proof (rule ccontr)
  assume n: "\<not> ?thesis"
  obtain st1 o1 o2 where r: "drift_run rnd obs (with_window_and_gate w g) = (st1, o1)" "drift_run rnd recent st1 = (st, o2)" "os @ outcomes = o1 @ o2"
    using assms(1) by (auto simp: drift_run_append Let_def split: prod.splits)
  have i: "drift_inv st1" "length o1 = length obs" using drift_run_inv [OF drift_inv_new r(1)] by auto
  then have "outcomes = o2" using r(3) assms(2) by simp
  moreover have "drift_inv st" "length o2 = length recent" using drift_run_inv [OF i(1) r(2)] by auto
  moreover have "x = Rejected" if "x \<in> set outcomes" for x using n that by (cases x) auto
  ultimately have "set o2 = {Rejected}" using assms(3) by (cases o2) auto
  then have "8 \<le> dc_consecutive_rejects st" using rejects_counted [OF r(2)] assms(3) by simp
  then show False using \<open>drift_inv st\<close> by (simp add: drift_inv_def MAX_CONSECUTIVE_REJECTS_def)
qed

theorem rejects_bounded_witness:
  "Folded \<in> set (snd (drift_run id (replicate 8 (1, 2)) (with_window_and_gate 4 5))) \<or>
   Restarted \<in> set (snd (drift_run id (replicate 8 (1, 2)) (with_window_and_gate 4 5)))"
proof -
  obtain st os where "drift_run id (replicate 8 (1, 2)) (with_window_and_gate 4 5) = (st, os)" by (metis prod.exhaust)
  then show ?thesis using rejects_bounded [of id "[]" "replicate 8 (1, 2)" 4 5 st "[]" os] by simp
qed

lemma line_window_step:
  assumes line: "\<forall>s\<in>set (xs @ [(l, m)]). on_line a b s" and d: "distinct (map fst (xs @ [(l, m)]))"
    and st: "dc_samples st = drop (length xs - dc_capacity st) xs" "drift_inv st"
      "dc_fit st = (if xs = [] then None else Some (compute_fit id (dc_samples st)))"
  shows "drift_observe id l m st = (accept_sample id l m (dc_samples st) st, Folded)"
    and "dc_samples (accept_sample id l m (dc_samples st) st) = drop (Suc (length xs) - dc_capacity st) (xs @ [(l, m)])"
proof -
  have "\<not> is_gated id l m st"
  proof
    assume g: "is_gated id l m st"
    then have n: "8 \<le> length (dc_samples st)" "xs \<noteq> []" by (auto simp: is_gated_def MIN_SAMPLES_TO_GATE_def st(1))
    obtain s t r where "dc_samples st = s # t # r" using n(1) by (cases "dc_samples st"; cases "tl (dc_samples st)") auto
    moreover have "distinct (map fst (dc_samples st))" "set (dc_samples st) \<subseteq> set xs"
      using d by (simp_all add: st(1) distinct_drop set_drop_subset flip: drop_map)
    ultimately have "\<exists>s\<in>set (dc_samples st). \<exists>t\<in>set (dc_samples st). fst s \<noteq> fst t" "\<forall>s\<in>set (dc_samples st). on_line a b s"
      using line by (force, auto)
    then have "project_through id (compute_fit id (dc_samples st)) l = a * of_int (uint l) + b" by (intro fit_of_line) auto
    moreover have "on_line a b (l, m)" using line by simp
    moreover have "\<not> rat_of_int (uint (dc_outlier_gate_ns st)) < 0" by (metis of_int_0_le_iff uint_ge_0 not_less)
    ultimately show False using g n(2) by (simp add: is_gated_def st(3) on_line_def)
  qed
  then show "drift_observe id l m st = (accept_sample id l m (dc_samples st) st, Folded)" by (simp add: drift_observe_def)
  show "dc_samples (accept_sample id l m (dc_samples st) st) = drop (Suc (length xs) - dc_capacity st) (xs @ [(l, m)])"
  proof (cases "length xs < dc_capacity st")
    case True
    then show ?thesis by (simp add: accept_sample_def Let_def st(1))
  next
    case False
    have "2 \<le> dc_capacity st" using st(2) by (simp add: drift_inv_def)
    then show ?thesis using False by (simp add: accept_sample_def Let_def st(1) Suc_diff_le drop_Suc tl_drop)
  qed
qed

definition line_inv :: "sample list \<Rightarrow> drift_clock \<Rightarrow> bool" where
  "line_inv xs st \<longleftrightarrow> drift_inv st \<and> dc_samples st = drop (length xs - dc_capacity st) xs \<and>
     dc_fit st = (if xs = [] then None else Some (compute_fit id (dc_samples st)))"

lemma line_inv_step:
  assumes "\<forall>s\<in>set (xs @ [(l, m)]). on_line a b s" "distinct (map fst (xs @ [(l, m)]))" "line_inv xs st"
  shows "snd (drift_observe id l m st) = Folded" "line_inv (xs @ [(l, m)]) (fst (drift_observe id l m st))"
    "dc_capacity (fst (drift_observe id l m st)) = dc_capacity st"
proof -
  have i: "drift_inv st" "dc_samples st = drop (length xs - dc_capacity st) xs"
    "dc_fit st = (if xs = [] then None else Some (compute_fit id (dc_samples st)))" using assms(3) by (auto simp: line_inv_def)
  note s = line_window_step [OF assms(1,2) i(2,1,3)]
  have c: "dc_capacity (accept_sample id l m (dc_samples st) st) = dc_capacity st" by (simp add: accept_sample_def Let_def)
  have f: "dc_fit (accept_sample id l m (dc_samples st) st) = Some (compute_fit id (dc_samples (accept_sample id l m (dc_samples st) st)))"
    by (simp add: accept_sample_def Let_def)
  show "snd (drift_observe id l m st) = Folded" "dc_capacity (fst (drift_observe id l m st)) = dc_capacity st" by (simp_all add: s(1) c)
  show "line_inv (xs @ [(l, m)]) (fst (drift_observe id l m st))"
    using drift_inv_observe [OF i(1), of id l m] by (simp add: line_inv_def s c f)
qed

lemma line_fit:
  assumes "\<forall>s\<in>set xs. on_line a b s" "distinct (map fst xs)" "line_inv xs st" "2 \<le> length xs"
  shows "\<exists>f. dc_fit st = Some f \<and> df_slope f = a \<and> project_through id f l = a * of_int (uint l) + b"
proof -
  have "2 \<le> length (dc_samples st)" using assms(3,4) by (auto simp: line_inv_def drift_inv_def)
  then obtain s t r where str: "dc_samples st = s # t # r" by (cases "dc_samples st"; cases "tl (dc_samples st)") auto
  moreover have "distinct (map fst (dc_samples st))" "set (dc_samples st) \<subseteq> set xs"
    using assms(2,3) by (simp_all add: line_inv_def distinct_drop set_drop_subset flip: drop_map)
  ultimately have "\<exists>s\<in>set (dc_samples st). \<exists>t\<in>set (dc_samples st). fst s \<noteq> fst t" "\<forall>s\<in>set (dc_samples st). on_line a b s"
    using assms(1) by (force, auto)
  then show ?thesis using fit_of_line [of "dc_samples st" a b] assms(3,4) by (auto simp: line_inv_def)
qed

lemma project_exact:
  assumes "dc_fit st = Some f" "project_through rnd f l = of_int (uint m)" "m \<noteq> 0"
  shows "project_ns rnd st l = m"
proof -
  have "uint m \<noteq> 0" "0 \<le> uint m" "uint m < 2 ^ 64" using assms(3) uint_lt2p [of m] by (auto simp: word_uint_eq_iff)
  moreover have "\<not> rat_of_int (uint m) \<le> 0" using calculation(1,2) by (metis of_int_le_0_iff antisym)
  ultimately show ?thesis unfolding project_ns_def assms(1) option.case Let_def assms(2) floor_of_int
    by (simp add: min_absorb2 [of "uint m" "2 ^ 64 - 1"] zless_imp_add1_zle)
qed

lemma drift_run_snoc:
  "fst (drift_run rnd (xs @ [(l, m)]) st) = fst (drift_observe rnd l m (fst (drift_run rnd xs st)))"
  "snd (drift_run rnd (xs @ [(l, m)]) st) = snd (drift_run rnd xs st) @ [snd (drift_observe rnd l m (fst (drift_run rnd xs st)))]"
  by (simp_all add: drift_run_append Let_def split: prod.split)

lemma line_run:
  assumes "\<forall>s\<in>set obs. on_line a b s" "distinct (map fst obs)"
  shows "line_inv obs (fst (drift_run id obs (with_window_and_gate w g))) \<and>
    snd (drift_run id obs (with_window_and_gate w g)) = replicate (length obs) Folded"
  using assms
proof (induction obs rule: rev_induct)
  case Nil
  then show ?case by (simp add: line_inv_def) (simp add: with_window_and_gate_def)
next
  case (snoc ob obs)
  obtain l m where ob: "ob = (l, m)" by (cases ob)
  have p: "\<forall>s\<in>set obs. on_line a b s" "distinct (map fst obs)" using snoc.prems by auto
  have i: "line_inv obs (fst (drift_run id obs (with_window_and_gate w g)))"
    "snd (drift_run id obs (with_window_and_gate w g)) = replicate (length obs) Folded"
    by (rule conjunct1 [OF snoc.IH [OF p]], rule conjunct2 [OF snoc.IH [OF p]])
  note s = line_inv_step [OF snoc.prems [unfolded ob] i(1)]
  show ?case unfolding ob drift_run_snoc using s(1,2) i(2) by (simp add: replicate_append_same)
qed

text \<open>
  In exact arithmetic the clock follows a master that runs at a constant rate: if every observation lies on one line then none is
  rejected, whatever the window and the gate, and from the second on the fit is that line, slope and projection.
\<close>

theorem drift_tracks_line:
  assumes "\<forall>s\<in>set obs. on_line a b s" "distinct (map fst obs)" "2 \<le> length obs"
    and "drift_run id obs (with_window_and_gate w g) = (st, outcomes)"
  shows "outcomes = replicate (length obs) Folded \<and> drift_slope st = a \<and>
    (\<forall>l. on_line a b (l, m) \<longrightarrow> 0 < m \<longrightarrow> project_ns id st l = m)"
proof -
  have r: "line_inv obs st" "outcomes = replicate (length obs) Folded" using line_run [OF assms(1,2), of w g] assms(4) by auto
  have "project_ns id st l = m" if "on_line a b (l, m)" "0 < m" for l
  proof -
    obtain f where f: "dc_fit st = Some f" "project_through id f l = a * of_int (uint l) + b" using line_fit [OF assms(1,2) r(1) assms(3)] by blast
    then have "project_through id f l = of_int (uint m)" using that(1) by (simp add: on_line_def)
    then show ?thesis using project_exact [OF f(1)] that(2) by auto
  qed
  moreover have "drift_slope st = a" using line_fit [OF assms(1,2) r(1) assms(3), of 0] by (auto simp: drift_slope_def)
  ultimately show ?thesis using r(2) by blast
qed

theorem drift_tracks_line_witness:
  "drift_slope (fst (drift_run id [(0, 500), (1000, 1501), (2000, 2502)] (with_gate 20))) = 1001 / 1000"
proof -
  let ?obs = "[(0, 500), (1000, 1501), (2000, 2502)] :: sample list"
  obtain st os where r: "drift_run id ?obs (with_window_and_gate DEFAULT_WINDOW 20) = (st, os)" by (metis prod.exhaust)
  then have "drift_slope st = 1001 / 1000"
    using drift_tracks_line [of ?obs "1001 / 1000" 500 DEFAULT_WINDOW 20 st os 0] by (simp add: on_line_def)
  then show ?thesis by (simp only: with_gate_def r fst_conv)
qed

end
