(* ===== verification/Ptp.thy ===== *)
theory Ptp
  imports Bytes
begin

text \<open>
  The Precision Time Protocol on the wire (\<^verbatim>\<open>ptp/wire.rs\<close>, \<^verbatim>\<open>ptp/management.rs\<close>): the common header, the messages a slave
  reads, the delay request it sends, and management queries. Signed 64-bit fields are integers; the shift by 16 that
  drops the fraction of a nanosecond rounds towards minus infinity.
\<close>

unbundle bit_operations_syntax

section \<open>Wire format\<close>

definition HEADER_LEN :: nat where "HEADER_LEN = 34"
definition TIMESTAMP_LEN :: nat where "TIMESTAMP_LEN = 10"
definition BODY_OFFSET :: nat where "BODY_OFFSET = HEADER_LEN"
definition PTP_VERSION :: u8 where "PTP_VERSION = 2"
definition DELAY_REQ_LEN :: nat where "DELAY_REQ_LEN = HEADER_LEN + TIMESTAMP_LEN"

lemmas ptp_sizes = HEADER_LEN_def TIMESTAMP_LEN_def BODY_OFFSET_def DELAY_REQ_LEN_def

datatype ptp_message_type = PtpSync | PtpDelayReq | PtpFollowUp | PtpDelayResp | PtpAnnounce | PtpManagement | PtpOther u8

definition from_nibble :: "u8 \<Rightarrow> ptp_message_type" where
  "from_nibble n =
     (let v = n AND 0x0F in
      if v = 0 then PtpSync
      else if v = 1 then PtpDelayReq
      else if v = 8 then PtpFollowUp
      else if v = 9 then PtpDelayResp
      else if v = 0xB then PtpAnnounce
      else if v = 0xD then PtpManagement
      else PtpOther v)"

fun nibble :: "ptp_message_type \<Rightarrow> u8" where
  "nibble PtpSync = 0"
| "nibble PtpDelayReq = 1"
| "nibble PtpFollowUp = 8"
| "nibble PtpDelayResp = 9"
| "nibble PtpAnnounce = 0xB"
| "nibble PtpManagement = 0xD"
| "nibble (PtpOther v) = v AND 0x0F"

record ptp_header =
  ph_message_type :: ptp_message_type
  ph_version :: u8
  ph_message_length :: u16
  ph_domain :: u8
  ph_flags :: u16
  ph_correction_ns :: int
  ph_source_clock_id :: "u8 list"
  ph_source_port :: u16
  ph_sequence_id :: u16

definition slice :: "'a list \<Rightarrow> nat \<Rightarrow> nat \<Rightarrow> 'a list" where
  "slice xs a b = take (b - a) (drop a xs)"

definition i64_be :: "u8 list \<Rightarrow> int" where
  "i64_be bs = sint (be64 bs)"

definition parse_ptp_header :: "u8 list \<Rightarrow> ptp_header option" where
  "parse_ptp_header buf =
     (if length buf < HEADER_LEN then None
      else Some \<lparr>ph_message_type = from_nibble (buf ! 0), ph_version = buf ! 1 AND 0x0F,
        ph_message_length = be16 (buf ! 2) (buf ! 3), ph_domain = buf ! 4, ph_flags = be16 (buf ! 6) (buf ! 7),
        ph_correction_ns = i64_be (slice buf 8 16) div 2 ^ 16, ph_source_clock_id = slice buf 20 28,
        ph_source_port = be16 (buf ! 28) (buf ! 29), ph_sequence_id = be16 (buf ! 30) (buf ! 31)\<rparr>)"

definition header_two_step :: "ptp_header \<Rightarrow> bool" where
  "header_two_step h \<longleftrightarrow> ph_flags h AND 0x0200 \<noteq> 0"

text \<open>\<^verbatim>\<open>off + TIMESTAMP_LEN\<close> does not overflow for the offsets in use.\<close>

definition parse_timestamp :: "u8 list \<Rightarrow> nat \<Rightarrow> u64 option" where
  "parse_timestamp buf off =
     Option.bind (slice_get buf off (off + TIMESTAMP_LEN)) (\<lambda>b.
       let secs = push_bit 40 (ucast (b ! 0)) OR push_bit 32 (ucast (b ! 1)) OR push_bit 24 (ucast (b ! 2)) OR
                  push_bit 16 (ucast (b ! 3)) OR push_bit 8 (ucast (b ! 4)) OR ucast (b ! 5) :: u64;
           nanos = ucast (be32 (b ! 6) (b ! 7) (b ! 8) (b ! 9)) :: u64
       in Option.bind (checked_mul secs 1000000000) (\<lambda>s. checked_add s nanos))"

definition parse_sync_origin :: "u8 list \<Rightarrow> u64 option" where
  "parse_sync_origin buf = parse_timestamp buf BODY_OFFSET"

definition parse_follow_up_origin :: "u8 list \<Rightarrow> u64 option" where
  "parse_follow_up_origin buf = parse_timestamp buf BODY_OFFSET"

record delay_resp =
  dr_receive_ts_ns :: u64
  dr_requesting_clock_id :: "u8 list"
  dr_requesting_port :: u16

definition parse_delay_resp :: "u8 list \<Rightarrow> delay_resp option" where
  "parse_delay_resp buf =
     Option.bind (parse_timestamp buf BODY_OFFSET) (\<lambda>ts.
       let id_off = BODY_OFFSET + TIMESTAMP_LEN in
       Option.bind (slice_get buf id_off (id_off + 8)) (\<lambda>clock.
       Option.bind (slice_get buf (id_off + 8) (id_off + 10)) (\<lambda>port.
         Some \<lparr>dr_receive_ts_ns = ts, dr_requesting_clock_id = clock, dr_requesting_port = be16 (port ! 0) (port ! 1)\<rparr>)))"

text \<open>\<^verbatim>\<open>m[a..b].copy_from_slice(bs)\<close>.\<close>

definition put_slice :: "nat \<Rightarrow> 'a list \<Rightarrow> 'a list \<Rightarrow> 'a list" where
  "put_slice a bs m = take a m @ bs @ drop (a + length bs) m"

definition put_header_fields :: "u8 \<Rightarrow> nat \<Rightarrow> u8 \<Rightarrow> u8 list \<Rightarrow> u16 \<Rightarrow> u16 \<Rightarrow> u8 \<Rightarrow> u8 list \<Rightarrow> u8 list" where
  "put_header_fields kind len domain clock_id port seq control m =
     (let m = m[0 := kind, 1 := PTP_VERSION];
          m = put_slice 2 (to_be16 (of_nat len)) m;
          m = m[4 := domain];
          m = put_slice 20 clock_id m;
          m = put_slice 28 (to_be16 port) m;
          m = put_slice 30 (to_be16 seq) m
      in m[32 := control, 33 := 0x7F])"

definition build_delay_req :: "u8 \<Rightarrow> u8 list \<Rightarrow> u16 \<Rightarrow> u16 \<Rightarrow> u8 list" where
  "build_delay_req domain clock_id port seq =
     put_header_fields (nibble PtpDelayReq) DELAY_REQ_LEN domain clock_id port seq 0x01 (replicate DELAY_REQ_LEN 0)"

section \<open>Management\<close>

definition MANAGEMENT_BODY_LEN :: nat where "MANAGEMENT_BODY_LEN = 14"
definition TLV_OFFSET :: nat where "TLV_OFFSET = HEADER_LEN + MANAGEMENT_BODY_LEN"
definition TLV_HEADER_LEN :: nat where "TLV_HEADER_LEN = 6"
definition DATA_OFFSET :: nat where "DATA_OFFSET = TLV_OFFSET + TLV_HEADER_LEN"
definition GET_LEN :: nat where "GET_LEN = DATA_OFFSET"
definition TLV_MANAGEMENT :: u16 where "TLV_MANAGEMENT = 1"
definition ACTION_GET :: u8 where "ACTION_GET = 0"
definition ACTION_RESPONSE :: u8 where "ACTION_RESPONSE = 2"
definition LENGTH_FIELD_ID_LEN :: u16 where "LENGTH_FIELD_ID_LEN = 2"
definition CONTROL_MANAGEMENT :: u8 where "CONTROL_MANAGEMENT = 4"
definition CURRENT_DATA_SET :: u16 where "CURRENT_DATA_SET = 0x2001"
definition PORT_DATA_SET :: u16 where "PORT_DATA_SET = 0x2004"
definition PORT_DATA_SET_LEN :: nat where "PORT_DATA_SET_LEN = 26"
definition CURRENT_DATA_SET_LEN :: nat where "CURRENT_DATA_SET_LEN = 18"

lemmas management_consts = MANAGEMENT_BODY_LEN_def TLV_OFFSET_def TLV_HEADER_LEN_def DATA_OFFSET_def GET_LEN_def TLV_MANAGEMENT_def
  ACTION_GET_def ACTION_RESPONSE_def LENGTH_FIELD_ID_LEN_def CONTROL_MANAGEMENT_def PORT_DATA_SET_LEN_def CURRENT_DATA_SET_LEN_def

datatype port_state =
  Initializing | Faulty | Disabled | Listening | PreMaster | PortMaster | Passive | Uncalibrated | PortSlave | PortOther u8

definition port_from_octet :: "u8 \<Rightarrow> port_state" where
  "port_from_octet v =
     (if v = 1 then Initializing
      else if v = 2 then Faulty
      else if v = 3 then Disabled
      else if v = 4 then Listening
      else if v = 5 then PreMaster
      else if v = 6 then PortMaster
      else if v = 7 then Passive
      else if v = 8 then Uncalibrated
      else if v = 9 then PortSlave
      else PortOther v)"

definition build_get :: "u8 \<Rightarrow> u8 list \<Rightarrow> u16 \<Rightarrow> u16 \<Rightarrow> u16 \<Rightarrow> u8 list" where
  "build_get domain clock_id port seq management_id =
     (let m = put_header_fields (nibble PtpManagement) GET_LEN domain clock_id port seq CONTROL_MANAGEMENT (replicate GET_LEN 0);
          m = put_slice HEADER_LEN (replicate 10 0xFF) m;
          m = m[HEADER_LEN + 12 := ACTION_GET];
          m = put_slice TLV_OFFSET (to_be16 TLV_MANAGEMENT) m;
          m = put_slice (TLV_OFFSET + 2) (to_be16 LENGTH_FIELD_ID_LEN) m
      in put_slice (TLV_OFFSET + 4) (to_be16 management_id) m)"

record management_response =
  mg_header :: ptp_header
  mg_management_id :: u16
  mg_data :: "u8 list"

definition parse_management :: "u8 list \<Rightarrow> management_response option" where
  "parse_management buf =
     Option.bind (parse_ptp_header buf) (\<lambda>h.
       if ph_message_type h \<noteq> PtpManagement \<or> ph_version h \<noteq> PTP_VERSION then None
       else Option.bind (get buf (HEADER_LEN + 12)) (\<lambda>flags.
         if flags AND 0x0F \<noteq> ACTION_RESPONSE then None
         else Option.bind (slice_get buf TLV_OFFSET DATA_OFFSET) (\<lambda>tlv.
           if be16 (tlv ! 0) (tlv ! 1) \<noteq> TLV_MANAGEMENT then None
           else (let length_field = be16 (tlv ! 2) (tlv ! 3) in
             if length_field < LENGTH_FIELD_ID_LEN then None
             else Option.bind (slice_get buf DATA_OFFSET (DATA_OFFSET + unat (length_field - LENGTH_FIELD_ID_LEN))) (\<lambda>d.
               Some \<lparr>mg_header = h, mg_management_id = be16 (tlv ! 4) (tlv ! 5), mg_data = d\<rparr>)))))"

record port_data_set =
  pd_clock_id :: "u8 list"
  pd_port_number :: u16
  pd_port_state :: port_state

definition parse_port_data_set :: "u8 list \<Rightarrow> port_data_set option" where
  "parse_port_data_set bytes =
     Option.bind (slice_get bytes 0 PORT_DATA_SET_LEN) (\<lambda>body.
       Some \<lparr>pd_clock_id = slice body 0 8, pd_port_number = be16 (body ! 8) (body ! 9),
         pd_port_state = port_from_octet (body ! 10)\<rparr>)"

record current_data_set =
  cd_steps_removed :: u16
  cd_offset_from_master_ns :: int
  cd_mean_path_delay_ns :: int

definition parse_current_data_set :: "u8 list \<Rightarrow> current_data_set option" where
  "parse_current_data_set bytes =
     Option.bind (slice_get bytes 0 CURRENT_DATA_SET_LEN) (\<lambda>body.
       Some \<lparr>cd_steps_removed = be16 (body ! 0) (body ! 1), cd_offset_from_master_ns = i64_be (slice body 2 10) div 2 ^ 16,
         cd_mean_path_delay_ns = i64_be (slice body 10 18) div 2 ^ 16\<rparr>)"

section \<open>Lemmas\<close>

lemma from_nibble_nibble: "from_nibble (nibble t) = (case t of PtpOther v \<Rightarrow> from_nibble v | _ \<Rightarrow> t)"
  by (cases t) (simp_all add: from_nibble_def Let_def and.assoc)

lemma length_put_slice [simp]: "a + length bs \<le> length m \<Longrightarrow> length (put_slice a bs m) = length m"
  by (simp add: put_slice_def)

lemma nth_put_slice:
  assumes "a + length bs \<le> length m"
  shows "put_slice a bs m ! i = (if i < a then m ! i else if i < a + length bs then bs ! (i - a) else m ! i)"
  using assms by (auto simp: put_slice_def nth_append)

lemma be16_nth: "be16 (to_be16 w ! 0) (to_be16 w ! Suc 0) = w"
  using be16_to_be16 [of w] by (simp add: to_be16_def)

lemma slice_eqI: "length xs = n \<Longrightarrow> a + n \<le> length m \<Longrightarrow> (\<And>i. i < n \<Longrightarrow> m ! (a + i) = xs ! i) \<Longrightarrow> slice m a (a + n) = xs"
  by (rule nth_equalityI) (auto simp: slice_def)

lemma to_be16_pair:
  obtains a b where "to_be16 w = [a, b]" "be16 a b = w"
  using be16_to_be16 [of w] by (auto simp: to_be16_def)

lemma octets_of_length_8:
  assumes "length xs = 8"
  obtains a b c d e f g h where "xs = [a, b, c, d, e, f, g, h]"
  using assms by (auto simp: eval_nat_numeral length_Suc_conv)

lemma i64_be_zero: "i64_be [0, 0, 0, 0, 0, 0, 0, 0] = 0"
  by code_simp

definition sent_header :: "ptp_message_type \<Rightarrow> nat \<Rightarrow> u8 \<Rightarrow> u8 list \<Rightarrow> u16 \<Rightarrow> u16 \<Rightarrow> ptp_header" where
  "sent_header t n domain clock_id port seq =
     \<lparr>ph_message_type = t, ph_version = PTP_VERSION, ph_message_length = of_nat n, ph_domain = domain, ph_flags = 0,
      ph_correction_ns = 0, ph_source_clock_id = clock_id, ph_source_port = port, ph_sequence_id = seq\<rparr>"

lemma parse_header_take: "parse_ptp_header (take HEADER_LEN buf) = parse_ptp_header buf"
  by (auto simp: parse_ptp_header_def HEADER_LEN_def slice_def min_def drop_take)

lemma take_put_slice: "n \<le> a \<Longrightarrow> a \<le> length m \<Longrightarrow> take n (put_slice a bs m) = take n m"
  by (simp add: put_slice_def min_def)

lemma parse_put_header_fields:
  assumes "length clock_id = 8" and "from_nibble k = t" and "m = replicate n 0" and "HEADER_LEN \<le> n"
  shows "parse_ptp_header (put_header_fields k len domain clock_id port seq control m) =
    Some (sent_header t len domain clock_id port seq)"
proof -
  obtain c0 c1 c2 c3 c4 c5 c6 c7 where c: "clock_id = [c0, c1, c2, c3, c4, c5, c6, c7]"
    using assms(1) by (rule octets_of_length_8)
  obtain l0 l1 where l: "to_be16 (of_nat len) = [l0, l1]" "be16 l0 l1 = of_nat len" by (rule to_be16_pair)
  obtain p0 p1 where p: "to_be16 port = [p0, p1]" "be16 p0 p1 = port" by (rule to_be16_pair)
  obtain s0 s1 where s: "to_be16 seq = [s0, s1]" "be16 s0 s1 = seq" by (rule to_be16_pair)
  obtain r where n: "n = 34 + r" using assms(4) by (auto simp: HEADER_LEN_def le_iff_add)
  have m: "m = [0,0,0,0,0,0,0,0,0,0,0,0,0,0,0,0,0,0,0,0,0,0,0,0,0,0,0,0,0,0,0,0,0,0] @ replicate r 0"
    unfolding assms(3) n replicate_add by (simp add: eval_nat_numeral)
  have z: "be16 0 0 = (0 :: u16)" by code_simp
  have v: "PTP_VERSION AND 0x0F = PTP_VERSION" by code_simp
  show ?thesis
    by (simp add: put_header_fields_def Let_def m c l(1) p(1) s(1) put_slice_def parse_ptp_header_def slice_def HEADER_LEN_def
        sent_header_def l(2) p(2) s(2) z v assms(2) i64_be_zero)
qed

lemma length_put_header_fields [simp]:
  "length clock_id = 8 \<Longrightarrow> HEADER_LEN \<le> length m \<Longrightarrow>
   length (put_header_fields k len domain clock_id port seq control m) = length m"
  by (simp add: put_header_fields_def Let_def HEADER_LEN_def to_be16_def)

lemma parse_build_delay_req:
  "length clock_id = 8 \<Longrightarrow> parse_ptp_header (build_delay_req domain clock_id port seq) =
    Some (sent_header PtpDelayReq DELAY_REQ_LEN domain clock_id port seq)"
  unfolding build_delay_req_def
  by (rule parse_put_header_fields [where n = DELAY_REQ_LEN]) (simp_all add: ptp_sizes from_nibble_def)

definition get_header :: "u8 \<Rightarrow> u8 list \<Rightarrow> u16 \<Rightarrow> u16 \<Rightarrow> u8 list" where
  "get_header domain clock_id port seq =
     put_header_fields (nibble PtpManagement) GET_LEN domain clock_id port seq CONTROL_MANAGEMENT (replicate GET_LEN 0)"

lemma build_get_get_header:
  "build_get domain clock_id port seq mid =
    (let m = put_slice HEADER_LEN (replicate 10 0xFF) (get_header domain clock_id port seq);
         m = m[HEADER_LEN + 12 := ACTION_GET];
         m = put_slice TLV_OFFSET (to_be16 TLV_MANAGEMENT) m;
         m = put_slice (TLV_OFFSET + 2) (to_be16 LENGTH_FIELD_ID_LEN) m
     in put_slice (TLV_OFFSET + 4) (to_be16 mid) m)"
  by (simp add: build_get_def get_header_def Let_def)

lemma length_get_header [simp]: "length clock_id = 8 \<Longrightarrow> length (get_header domain clock_id port seq) = 54"
  by (simp add: get_header_def management_consts ptp_sizes)

lemma take_build_get:
  assumes "length clock_id = 8"
  shows "take HEADER_LEN (build_get domain clock_id port seq mid) = take HEADER_LEN (get_header domain clock_id port seq)"
  using assms unfolding build_get_get_header Let_def
  by (simp add: take_put_slice management_consts ptp_sizes to_be16_def)

lemma parse_build_get:
  assumes "length clock_id = 8"
  shows "parse_ptp_header (build_get domain clock_id port seq mid) =
    Some (sent_header PtpManagement GET_LEN domain clock_id port seq)"
proof -
  have "parse_ptp_header (build_get domain clock_id port seq mid) = parse_ptp_header (get_header domain clock_id port seq)"
    using parse_header_take [of "build_get domain clock_id port seq mid"] parse_header_take [of "get_header domain clock_id port seq"]
    by (simp add: take_build_get [OF assms])
  also have "\<dots> = Some (sent_header PtpManagement GET_LEN domain clock_id port seq)"
    unfolding get_header_def
    by (rule parse_put_header_fields [where n = GET_LEN]) (simp_all add: assms ptp_sizes management_consts from_nibble_def)
  finally show ?thesis .
qed

lemma build_get_action:
  assumes "length clock_id = 8"
  shows "get (build_get domain clock_id port seq mid) (HEADER_LEN + 12) = Some ACTION_GET"
  using assms unfolding build_get_get_header Let_def
  by (simp add: nth_put_slice management_consts ptp_sizes to_be16_def)

text \<open>
  What the slave sends, every reader of the format reads back: the delay request and the management query carry the
  header they were built from (type, version, length, domain, clock identity, port, sequence), for an 8-octet clock
  identity. The query is not itself taken for a response, so a client that hears its own multicast query ignores it.
\<close>

theorem ptp_requests_read_back:
  assumes "length clock_id = 8"
  shows "parse_ptp_header (build_delay_req domain clock_id port seq) =
      Some (sent_header PtpDelayReq DELAY_REQ_LEN domain clock_id port seq) \<and>
    parse_ptp_header (build_get domain clock_id port seq mid) =
      Some (sent_header PtpManagement GET_LEN domain clock_id port seq) \<and>
    parse_management (build_get domain clock_id port seq mid) = None"
  using parse_build_delay_req [OF assms] parse_build_get [OF assms] build_get_action [OF assms]
  by (simp add: parse_management_def sent_header_def PTP_VERSION_def ACTION_GET_def ACTION_RESPONSE_def del: get_eq_Some)

theorem ptp_requests_read_back_witness:
  "parse_ptp_header (build_delay_req 3 [1, 2, 3, 4, 5, 6, 7, 8] 9 258) =
      Some (sent_header PtpDelayReq DELAY_REQ_LEN 3 [1, 2, 3, 4, 5, 6, 7, 8] 9 258)"
  using ptp_requests_read_back [of "[1, 2, 3, 4, 5, 6, 7, 8]" 3 9 258 0] by simp

end
