(* ===== verification/PtpSlave.thy ===== *)
theory PtpSlave
  imports Ptp MediaTime
begin

text \<open>
  The delay request-response cycle of a PTP slave (\<^verbatim>\<open>ptp/slave.rs\<close>): messages in, the next thing the transport has
  to do out. One cycle starts at a Sync and ends with the four timestamps of one exchange.
\<close>

datatype slave_action = Idle | SendDelayReq u16 | Exchange u64 u64 u64 u64

record ptp_slave =
  sl_domain :: u8
  sl_clock_id :: "u8 list"
  sl_port :: u16
  sl_sync_seq :: "u16 option"
  sl_two_step :: bool
  sl_sync_correction_ns :: int
  sl_t1 :: "u64 option"
  sl_t2 :: "u64 option"
  sl_delay_req_seq :: u16
  sl_dr_seq :: "u16 option"
  sl_t3 :: "u64 option"

definition slave_new :: "u8 \<Rightarrow> u8 list \<Rightarrow> u16 \<Rightarrow> ptp_slave" where
  "slave_new domain clock_id port =
     \<lparr>sl_domain = domain, sl_clock_id = clock_id, sl_port = port, sl_sync_seq = None, sl_two_step = False,
      sl_sync_correction_ns = 0, sl_t1 = None, sl_t2 = None, sl_delay_req_seq = 0, sl_dr_seq = None, sl_t3 = None\<rparr>"

text \<open>\<^verbatim>\<open>u64::saturating_add_signed\<close>.\<close>

definition saturating_add_signed :: "u64 \<Rightarrow> int \<Rightarrow> u64" where
  "saturating_add_signed a d = of_int (max 0 (min (2 ^ 64 - 1) (uint a + d)))"

definition begin_delay_req :: "ptp_slave \<Rightarrow> ptp_slave \<times> slave_action" where
  "begin_delay_req s =
     (let q = sl_delay_req_seq s + 1
      in (s\<lparr>sl_delay_req_seq := q, sl_dr_seq := Some q, sl_t3 := None\<rparr>, SendDelayReq q))"

definition on_sync :: "ptp_header \<Rightarrow> u8 list \<Rightarrow> u64 \<Rightarrow> ptp_slave \<Rightarrow> ptp_slave \<times> slave_action" where
  "on_sync h msg rx s =
     (let s = s\<lparr>sl_sync_seq := Some (ph_sequence_id h), sl_two_step := header_two_step h,
                sl_sync_correction_ns := ph_correction_ns h, sl_t2 := Some rx, sl_t1 := None,
                sl_dr_seq := None, sl_t3 := None\<rparr>
      in if header_two_step h then (s, Idle)
         else case parse_sync_origin msg of
             Some origin \<Rightarrow> begin_delay_req (s\<lparr>sl_t1 := Some (saturating_add_signed origin (ph_correction_ns h))\<rparr>)
           | None \<Rightarrow> (s, Idle))"

definition on_follow_up :: "ptp_header \<Rightarrow> u8 list \<Rightarrow> ptp_slave \<Rightarrow> ptp_slave \<times> slave_action" where
  "on_follow_up h msg s =
     (if sl_sync_seq s \<noteq> Some (ph_sequence_id h) \<or> \<not> sl_two_step s \<or> sl_t1 s \<noteq> None then (s, Idle)
      else case parse_follow_up_origin msg of
          Some precise \<Rightarrow>
            (let corr = i64_saturate (sl_sync_correction_ns s + ph_correction_ns h)
             in begin_delay_req (s\<lparr>sl_t1 := Some (saturating_add_signed precise corr)\<rparr>))
        | None \<Rightarrow> (s, Idle))"

definition on_delay_resp :: "ptp_header \<Rightarrow> u8 list \<Rightarrow> ptp_slave \<Rightarrow> ptp_slave \<times> slave_action" where
  "on_delay_resp h msg s =
     (case parse_delay_resp msg of
        None \<Rightarrow> (s, Idle)
      | Some resp \<Rightarrow>
          if sl_dr_seq s \<noteq> Some (ph_sequence_id h) \<or> dr_requesting_clock_id resp \<noteq> sl_clock_id s
             \<or> dr_requesting_port resp \<noteq> sl_port s
          then (s, Idle)
          else (case (sl_t1 s, sl_t2 s, sl_t3 s) of
              (Some t1, Some t2, Some t3) \<Rightarrow>
                (s\<lparr>sl_dr_seq := None, sl_t3 := None\<rparr>,
                 Exchange t1 t2 t3 (saturating_add_signed (dr_receive_ts_ns resp) (- ph_correction_ns h)))
            | _ \<Rightarrow> (s, Idle)))"

definition on_message :: "u8 list \<Rightarrow> u64 \<Rightarrow> ptp_slave \<Rightarrow> ptp_slave \<times> slave_action" where
  "on_message msg rx s =
     (case parse_ptp_header msg of
        None \<Rightarrow> (s, Idle)
      | Some h \<Rightarrow>
          if ph_domain h \<noteq> sl_domain s then (s, Idle)
          else (case ph_message_type h of
              PtpSync \<Rightarrow> on_sync h msg rx s
            | PtpFollowUp \<Rightarrow> on_follow_up h msg s
            | PtpDelayResp \<Rightarrow> on_delay_resp h msg s
            | _ \<Rightarrow> (s, Idle)))"

definition delay_req_sent :: "u16 \<Rightarrow> u64 \<Rightarrow> ptp_slave \<Rightarrow> ptp_slave" where
  "delay_req_sent q t3 s = (if sl_dr_seq s = Some q then s\<lparr>sl_t3 := Some t3\<rparr> else s)"

section \<open>Runs\<close>

text \<open>What the transport calls: a message with its arrival time, or the send time of a request.\<close>

datatype slave_event = Received "u8 list" u64 | Sent u16 u64

fun slave_step :: "ptp_slave \<Rightarrow> slave_event \<Rightarrow> ptp_slave \<times> slave_action" where
  "slave_step s (Received msg rx) = on_message msg rx s"
| "slave_step s (Sent q t) = (delay_req_sent q t s, Idle)"

definition slave_run :: "ptp_slave \<Rightarrow> slave_event list \<Rightarrow> ptp_slave" where
  "slave_run s evs = foldl (\<lambda>s e. fst (slave_step s e)) s evs"

fun slave_actions :: "ptp_slave \<Rightarrow> slave_event list \<Rightarrow> slave_action list" where
  "slave_actions s [] = []"
| "slave_actions s (e # es) = snd (slave_step s e) # slave_actions (fst (slave_step s e)) es"

lemma slave_run_snoc [simp]: "slave_run s (evs @ [e]) = fst (slave_step (slave_run s evs) e)"
  by (simp add: slave_run_def)

lemma slave_run_Nil [simp]: "slave_run s [] = s"
  by (simp add: slave_run_def)

lemma slave_actions_snoc: "slave_actions s (evs @ [e]) = slave_actions s evs @ [snd (slave_step (slave_run s evs) e)]"
  by (induction evs arbitrary: s) (simp_all add: slave_run_def)

lemmas slave_defs = on_message_def on_sync_def on_follow_up_def on_delay_resp_def begin_delay_req_def delay_req_sent_def Let_def

lemma slave_identity [simp]:
  "sl_domain (fst (slave_step s e)) = sl_domain s"
  "sl_clock_id (fst (slave_step s e)) = sl_clock_id s"
  "sl_port (fst (slave_step s e)) = sl_port s"
  by (cases e; simp add: slave_defs split: option.split ptp_message_type.split)+

lemma slave_run_identity [simp]:
  "sl_domain (slave_run s evs) = sl_domain s" "sl_clock_id (slave_run s evs) = sl_clock_id s" "sl_port (slave_run s evs) = sl_port s"
  by (induction evs rule: rev_induct) simp_all

section \<open>Cycles\<close>

text \<open>A cycle is what arrived since the last Sync of the slave's domain, that Sync included.\<close>

fun sync_header :: "u8 \<Rightarrow> slave_event \<Rightarrow> ptp_header option" where
  "sync_header domain (Received msg rx) =
     (case parse_ptp_header msg of
        Some h \<Rightarrow> if ph_domain h = domain \<and> ph_message_type h = PtpSync then Some h else None
      | None \<Rightarrow> None)"
| "sync_header domain (Sent q t) = None"

definition starts_cycle :: "u8 \<Rightarrow> slave_event \<Rightarrow> bool" where
  "starts_cycle domain e \<longleftrightarrow> sync_header domain e \<noteq> None"

text \<open>\<open>origin_of\<close>: the master time of the cycle's Sync, from a one-step Sync itself or from the Follow_Up of a two-step one.\<close>

definition origin_of :: "u8 \<Rightarrow> ptp_header \<Rightarrow> u8 list \<Rightarrow> slave_event list \<Rightarrow> u64 \<Rightarrow> bool" where
  "origin_of domain h msg mid t1 \<longleftrightarrow>
     (if header_two_step h
      then \<exists>fm fr fh p. Received fm fr \<in> set mid \<and> parse_ptp_header fm = Some fh \<and> ph_domain fh = domain \<and>
        ph_message_type fh = PtpFollowUp \<and> ph_sequence_id fh = ph_sequence_id h \<and> parse_follow_up_origin fm = Some p \<and>
        t1 = saturating_add_signed p (i64_saturate (ph_correction_ns h + ph_correction_ns fh))
      else \<exists>p. parse_sync_origin msg = Some p \<and> t1 = saturating_add_signed p (ph_correction_ns h))"

definition cycle_inv :: "slave_event list \<Rightarrow> ptp_slave \<Rightarrow> bool" where
  "cycle_inv evs s \<longleftrightarrow>
     (case sl_t2 s of
        None \<Rightarrow> sl_sync_seq s = None \<and> sl_t1 s = None \<and> sl_dr_seq s = None \<and> sl_t3 s = None
      | Some t2 \<Rightarrow> \<exists>pre msg mid h. evs = pre @ Received msg t2 # mid \<and> sync_header (sl_domain s) (Received msg t2) = Some h \<and>
          (\<forall>e\<in>set mid. \<not> starts_cycle (sl_domain s) e) \<and>
          sl_sync_seq s = Some (ph_sequence_id h) \<and> sl_two_step s = header_two_step h \<and>
          sl_sync_correction_ns s = ph_correction_ns h \<and>
          (case sl_t1 s of Some t1 \<Rightarrow> origin_of (sl_domain s) h msg mid t1 | None \<Rightarrow> sl_dr_seq s = None) \<and>
          (case sl_t3 s of Some t3 \<Rightarrow> (\<exists>q. sl_dr_seq s = Some q \<and> Sent q t3 \<in> set mid) | None \<Rightarrow> True))"

lemma origin_of_mono: "origin_of d h msg mid t \<Longrightarrow> origin_of d h msg (mid @ [e]) t"
  unfolding origin_of_def by (auto split: if_splits)

text \<open>A step that starts no cycle and keeps what the invariant reads of the state, but for an origin or a send time it can account for.\<close>

lemma cycle_inv_extend:
  assumes inv: "cycle_inv evs s" and e: "\<not> starts_cycle (sl_domain s) e"
    and same: "sl_domain s' = sl_domain s" "sl_t2 s' = sl_t2 s" "sl_sync_seq s' = sl_sync_seq s" "sl_two_step s' = sl_two_step s"
      "sl_sync_correction_ns s' = sl_sync_correction_ns s"
    and quiet: "sl_t2 s = None \<Longrightarrow> sl_t1 s' = None \<and> sl_dr_seq s' = None \<and> sl_t3 s' = None"
    and t1: "\<And>pre msg mid t2 h t. evs = pre @ Received msg t2 # mid \<Longrightarrow> sl_sync_seq s = Some (ph_sequence_id h) \<Longrightarrow>
      sl_two_step s = header_two_step h \<Longrightarrow> sl_sync_correction_ns s = ph_correction_ns h \<Longrightarrow> sl_t1 s' = Some t \<Longrightarrow>
      sl_t1 s = Some t \<or> origin_of (sl_domain s) h msg (mid @ [e]) t"
    and dr: "sl_t1 s' = None \<Longrightarrow> sl_dr_seq s' = None"
    and t3: "\<And>t. sl_t3 s' = Some t \<Longrightarrow> (\<exists>q. sl_dr_seq s' = Some q \<and> (e = Sent q t \<or> sl_dr_seq s = Some q \<and> sl_t3 s = Some t))"
  shows "cycle_inv (evs @ [e]) s'"
proof (cases "sl_t2 s")
  case None
  then show ?thesis using inv quiet same by (simp add: cycle_inv_def)
next
  case (Some t2)
  then obtain pre msg mid h where d: "evs = pre @ Received msg t2 # mid"
      "sync_header (sl_domain s) (Received msg t2) = Some h" "\<forall>e\<in>set mid. \<not> starts_cycle (sl_domain s) e"
      "sl_sync_seq s = Some (ph_sequence_id h)" "sl_two_step s = header_two_step h" "sl_sync_correction_ns s = ph_correction_ns h"
    and o: "case sl_t1 s of Some t1 \<Rightarrow> origin_of (sl_domain s) h msg mid t1 | None \<Rightarrow> sl_dr_seq s = None"
    and w: "case sl_t3 s of Some t3 \<Rightarrow> (\<exists>q. sl_dr_seq s = Some q \<and> Sent q t3 \<in> set mid) | None \<Rightarrow> True"
    using inv by (auto simp: cycle_inv_def)
  have o': "case sl_t1 s' of Some t1 \<Rightarrow> origin_of (sl_domain s) h msg (mid @ [e]) t1 | None \<Rightarrow> sl_dr_seq s' = None"
  proof (cases "sl_t1 s'")
    case None
    then show ?thesis using dr by simp
  next
    case (Some t)
    then have "sl_t1 s = Some t \<or> origin_of (sl_domain s) h msg (mid @ [e]) t"
      using t1 [OF d(1,4,5,6)] by blast
    then show ?thesis using Some o origin_of_mono by auto
  qed
  have w': "case sl_t3 s' of Some t3 \<Rightarrow> (\<exists>q. sl_dr_seq s' = Some q \<and> Sent q t3 \<in> set (mid @ [e])) | None \<Rightarrow> True"
  proof (cases "sl_t3 s'")
    case (Some t)
    then show ?thesis using t3 [OF Some] w by auto
  qed simp
  show ?thesis
    unfolding cycle_inv_def same Some option.case
    by (rule exI [of _ pre], rule exI [of _ msg], rule exI [of _ "mid @ [e]"], rule exI [of _ h])
      (use d e o' w' in simp)
qed

lemma cycle_inv_quiet:
  assumes "cycle_inv evs s"
  shows "sl_t2 s = None \<Longrightarrow> sl_t1 s = None \<and> sl_dr_seq s = None \<and> sl_t3 s = None"
    and "sl_t1 s = None \<Longrightarrow> sl_dr_seq s = None"
    and "sl_t3 s = Some t \<Longrightarrow> \<exists>q. sl_dr_seq s = Some q"
  using assms unfolding cycle_inv_def by (cases "sl_t2 s"; force)+

lemma cycle_inv_idle: "cycle_inv evs s \<Longrightarrow> \<not> starts_cycle (sl_domain s) e \<Longrightarrow> cycle_inv (evs @ [e]) s"
  by (rule cycle_inv_extend [where s = s]) (auto dest: cycle_inv_quiet)

lemma cycle_inv_sent:
  assumes "cycle_inv evs s"
  shows "cycle_inv (evs @ [Sent q t]) (delay_req_sent q t s)"
proof (cases "sl_dr_seq s = Some q")
  case True
  then have "sl_t2 s \<noteq> None" "sl_t1 s \<noteq> None" using cycle_inv_quiet [OF assms] by auto
  then show ?thesis
    by (intro cycle_inv_extend [OF assms]) (simp_all add: delay_req_sent_def starts_cycle_def True)
next
  case False
  then show ?thesis using cycle_inv_idle [OF assms] by (simp add: delay_req_sent_def starts_cycle_def)
qed

lemma cycle_inv_sync:
  assumes "sync_header (sl_domain s) (Received msg rx) = Some h"
  shows "cycle_inv (evs @ [Received msg rx]) (fst (on_sync h msg rx s))"
proof -
  have *: "cycle_inv (evs @ [Received msg rx]) s'"
    if "sl_domain s' = sl_domain s" "sl_t2 s' = Some rx" "sl_sync_seq s' = Some (ph_sequence_id h)" "sl_two_step s' = header_two_step h"
      "sl_sync_correction_ns s' = ph_correction_ns h" "sl_t3 s' = None"
      "case sl_t1 s' of Some t1 \<Rightarrow> origin_of (sl_domain s) h msg [] t1 | None \<Rightarrow> sl_dr_seq s' = None" for s'
    unfolding cycle_inv_def that(1,2) option.case
    by (rule exI [of _ evs], rule exI [of _ msg], rule exI [of _ "[]"], rule exI [of _ h]) (use that assms in simp)
  show ?thesis
    by (rule *) (simp_all add: slave_defs origin_of_def split: option.split)
qed

lemma cycle_inv_follow_up:
  assumes "cycle_inv evs s" and "parse_ptp_header msg = Some h" and "ph_domain h = sl_domain s" and "ph_message_type h = PtpFollowUp"
  shows "cycle_inv (evs @ [Received msg rx]) (fst (on_follow_up h msg s))"
proof -
  have e: "\<not> starts_cycle (sl_domain s) (Received msg rx)" using assms(2,4) by (simp add: starts_cycle_def)
  show ?thesis
  proof (cases "sl_sync_seq s \<noteq> Some (ph_sequence_id h) \<or> \<not> sl_two_step s \<or> sl_t1 s \<noteq> None \<or> parse_follow_up_origin msg = None")
    case True
    then have "fst (on_follow_up h msg s) = s" by (auto simp: on_follow_up_def)
    then show ?thesis using cycle_inv_idle [OF assms(1) e] by simp
  next
    case False
    then obtain p where g: "sl_sync_seq s = Some (ph_sequence_id h)" "sl_two_step s" "sl_t1 s = None" "parse_follow_up_origin msg = Some p"
      by auto
    then have n: "sl_t2 s \<noteq> None" using assms(1) by (auto simp: cycle_inv_def split: option.splits)
    show ?thesis
      by (rule cycle_inv_extend [OF assms(1) e]) (use g n assms(2-4) in \<open>auto simp: slave_defs origin_of_def\<close>)
  qed
qed

lemma on_delay_resp_cases:
  obtains (idle) "on_delay_resp h msg s = (s, Idle)"
  | (complete) resp t1 t2 t3 where "parse_delay_resp msg = Some resp" "sl_dr_seq s = Some (ph_sequence_id h)"
      "dr_requesting_clock_id resp = sl_clock_id s" "dr_requesting_port resp = sl_port s"
      "sl_t1 s = Some t1" "sl_t2 s = Some t2" "sl_t3 s = Some t3"
      "on_delay_resp h msg s = (s\<lparr>sl_dr_seq := None, sl_t3 := None\<rparr>,
         Exchange t1 t2 t3 (saturating_add_signed (dr_receive_ts_ns resp) (- ph_correction_ns h)))"
proof (cases "on_delay_resp h msg s = (s, Idle)")
  case False
  then obtain resp t1 t2 t3 where "parse_delay_resp msg = Some resp" "sl_t1 s = Some t1" "sl_t2 s = Some t2" "sl_t3 s = Some t3"
    by (auto simp: on_delay_resp_def split: option.splits if_splits)
  then show ?thesis using False complete by (auto simp: on_delay_resp_def split: if_splits)
qed (rule idle)

lemma cycle_inv_delay_resp:
  assumes "cycle_inv evs s" and "parse_ptp_header msg = Some h" and "ph_message_type h = PtpDelayResp"
  shows "cycle_inv (evs @ [Received msg rx]) (fst (on_delay_resp h msg s))"
proof -
  have e: "\<not> starts_cycle (sl_domain s) (Received msg rx)" using assms(2,3) by (simp add: starts_cycle_def)
  show ?thesis
  proof (cases rule: on_delay_resp_cases [of h msg s])
    case idle
    then show ?thesis using cycle_inv_idle [OF assms(1) e] by simp
  next
    case complete
    show ?thesis unfolding complete(8) fst_conv
      by (rule cycle_inv_extend [OF assms(1) e]) (simp_all add: complete)
  qed
qed

lemma on_message_cases:
  obtains (idle) "on_message msg rx s = (s, Idle)" "\<not> starts_cycle (sl_domain s) (Received msg rx)"
  | (sync) h where "sync_header (sl_domain s) (Received msg rx) = Some h" "on_message msg rx s = on_sync h msg rx s"
  | (follow_up) h where "parse_ptp_header msg = Some h" "ph_domain h = sl_domain s" "ph_message_type h = PtpFollowUp"
      "on_message msg rx s = on_follow_up h msg s"
  | (delay_resp) h where "parse_ptp_header msg = Some h" "ph_domain h = sl_domain s" "ph_message_type h = PtpDelayResp"
      "on_message msg rx s = on_delay_resp h msg s"
proof (cases "parse_ptp_header msg")
  case None
  then show ?thesis using idle by (simp add: on_message_def starts_cycle_def)
next
  case (Some h)
  show ?thesis
  proof (cases "ph_domain h = sl_domain s")
    case False
    then show ?thesis using idle Some by (simp add: on_message_def starts_cycle_def)
  next
    case True
    then show ?thesis using idle sync follow_up delay_resp Some
      by (cases "ph_message_type h") (simp_all add: on_message_def starts_cycle_def)
  qed
qed

lemma cycle_inv_step:
  assumes "cycle_inv evs s"
  shows "cycle_inv (evs @ [e]) (fst (slave_step s e))"
proof (cases e)
  case (Sent q t)
  then show ?thesis using cycle_inv_sent [OF assms] by simp
next
  case (Received msg rx)
  show ?thesis unfolding Received slave_step.simps
  proof (cases rule: on_message_cases [of msg rx s])
    case idle
    then show "cycle_inv (evs @ [Received msg rx]) (fst (on_message msg rx s))" using cycle_inv_idle [OF assms] by simp
  next
    case (sync h)
    then show "cycle_inv (evs @ [Received msg rx]) (fst (on_message msg rx s))" using cycle_inv_sync by simp
  next
    case (follow_up h)
    then show "cycle_inv (evs @ [Received msg rx]) (fst (on_message msg rx s))" using cycle_inv_follow_up [OF assms] by simp
  next
    case (delay_resp h)
    then show "cycle_inv (evs @ [Received msg rx]) (fst (on_message msg rx s))" using cycle_inv_delay_resp [OF assms] by simp
  qed
qed

lemma cycle_inv_run: "cycle_inv evs (slave_run (slave_new domain clock_id port) evs)"
proof (induction evs rule: rev_induct)
  case Nil
  then show ?case by (simp add: cycle_inv_def slave_new_def)
next
  case (snoc e evs)
  then show ?case using cycle_inv_step by simp
qed

lemma exchange_only_from_delay_resp:
  assumes "snd (slave_step s e) = Exchange t1 t2 t3 t4"
  obtains msg rx h resp where "e = Received msg rx" "parse_ptp_header msg = Some h" "ph_domain h = sl_domain s"
    "ph_message_type h = PtpDelayResp" "parse_delay_resp msg = Some resp" "sl_dr_seq s = Some (ph_sequence_id h)"
    "dr_requesting_clock_id resp = sl_clock_id s" "dr_requesting_port resp = sl_port s" "sl_t1 s = Some t1" "sl_t2 s = Some t2" "sl_t3 s = Some t3"
    "t4 = saturating_add_signed (dr_receive_ts_ns resp) (- ph_correction_ns h)"
proof (cases e)
  case (Sent q t)
  then show ?thesis using assms by simp
next
  case (Received msg rx)
  have a: "snd (on_message msg rx s) = Exchange t1 t2 t3 t4" using assms Received by simp
  show ?thesis
  proof (cases rule: on_message_cases [of msg rx s])
    case (delay_resp h)
    show ?thesis
      by (cases rule: on_delay_resp_cases [of h msg s]) (use a delay_resp Received that in auto)
  qed (use a in \<open>auto simp: slave_defs split: option.splits if_splits\<close>)
qed

section \<open>Properties\<close>

text \<open>
  C34. Whatever messages arrive and whenever the transport reports its send times: the four timestamps of an exchange all belong to one
  cycle. \<open>t2\<close> is the arrival of the last Sync of our domain, \<open>t1\<close> its origin (with its corrections, from its own
  Follow_Up if it is two-step), \<open>t3\<close> a send time reported after that Sync for the very request this response
  names, \<open>t4\<close> the response's receive time less its correction; and the response is addressed to us.
\<close>

theorem exchange_is_one_cycle:
  assumes "snd (slave_step (slave_run (slave_new domain clock_id port) evs) e) = Exchange t1 t2 t3 t4"
  shows "\<exists>pre sync mid hs msg rx hr resp.
    evs = pre @ Received sync t2 # mid \<and> sync_header domain (Received sync t2) = Some hs \<and>
    (\<forall>x\<in>set mid. \<not> starts_cycle domain x) \<and> origin_of domain hs sync mid t1 \<and>
    e = Received msg rx \<and> parse_ptp_header msg = Some hr \<and> ph_domain hr = domain \<and> ph_message_type hr = PtpDelayResp \<and>
    parse_delay_resp msg = Some resp \<and> dr_requesting_clock_id resp = clock_id \<and> dr_requesting_port resp = port \<and>
    Sent (ph_sequence_id hr) t3 \<in> set mid \<and> t4 = saturating_add_signed (dr_receive_ts_ns resp) (- ph_correction_ns hr)"
proof -
  let ?s = "slave_run (slave_new domain clock_id port) evs"
  have d: "sl_domain ?s = domain" "sl_clock_id ?s = clock_id" "sl_port ?s = port" by (simp_all add: slave_new_def)
  obtain msg rx h resp where x: "e = Received msg rx" "parse_ptp_header msg = Some h" "ph_domain h = domain"
      "ph_message_type h = PtpDelayResp" "parse_delay_resp msg = Some resp" "sl_dr_seq ?s = Some (ph_sequence_id h)"
      "dr_requesting_clock_id resp = clock_id" "dr_requesting_port resp = port" "sl_t1 ?s = Some t1" "sl_t2 ?s = Some t2" "sl_t3 ?s = Some t3"
      "t4 = saturating_add_signed (dr_receive_ts_ns resp) (- ph_correction_ns h)"
    using exchange_only_from_delay_resp [OF assms, unfolded d] by blast
  obtain pre sync mid hs where c: "evs = pre @ Received sync t2 # mid" "sync_header domain (Received sync t2) = Some hs"
      "\<forall>e\<in>set mid. \<not> starts_cycle domain e" "origin_of domain hs sync mid t1" "Sent (ph_sequence_id h) t3 \<in> set mid"
    using cycle_inv_run [of evs domain clock_id port] unfolding cycle_inv_def x(6,9,10,11) d option.case option.inject by blast
  show ?thesis
    by (rule exI [of _ pre], rule exI [of _ sync], rule exI [of _ mid], rule exI [of _ hs], rule exI [of _ msg], rule exI [of _ rx],
        rule exI [of _ h], rule exI [of _ resp]) (use c x in blast)
qed

theorem exchange_is_one_cycle_witness:
  "\<exists>pre sync mid hs. [Received ((replicate 44 0)[43 := 200]) 1000, Sent 1 1100] = pre @ Received sync 1000 # mid \<and>
    origin_of 0 hs sync mid 200 \<and> Sent 1 1100 \<in> set mid"
proof -
  let ?resp = "Received ((replicate 54 0)[0 := 9, 31 := 1, 43 := 250]) 1300"
  let ?evs = "[Received ((replicate 44 0)[43 := 200]) 1000, Sent 1 1100]"
  have x: "snd (slave_step (slave_run (slave_new 0 (replicate 8 0) 0) ?evs) ?resp) = Exchange 200 1000 1100 250"
    by code_simp
  have q: "map_option ph_sequence_id (parse_ptp_header ((replicate 54 0)[0 := 9, 31 := 1, 43 := 250])) = Some 1"
    by code_simp
  obtain pre sync mid hs msg rx hr where c: "?evs = pre @ Received sync 1000 # mid" "origin_of 0 hs sync mid 200"
      "?resp = Received msg rx" "parse_ptp_header msg = Some hr" "Sent (ph_sequence_id hr) 1100 \<in> set mid"
    using exchange_is_one_cycle [OF x] by blast
  have "ph_sequence_id hr = 1" using q c(4) unfolding slave_event.inject(1) [THEN iffD1, OF c(3), THEN conjunct1] by simp
  then show ?thesis using c(1,2,5) by metis
qed

text \<open>Sends and exchanges of a run: a send needs a Sync of its own, an exchange a send of its own.\<close>

definition is_send :: "slave_action \<Rightarrow> bool" where
  "is_send a \<longleftrightarrow> (case a of SendDelayReq _ \<Rightarrow> True | _ \<Rightarrow> False)"

definition is_exchange :: "slave_action \<Rightarrow> bool" where
  "is_exchange a \<longleftrightarrow> (case a of Exchange _ _ _ _ \<Rightarrow> True | _ \<Rightarrow> False)"

definition owed :: "'a option \<Rightarrow> nat" where
  "owed r = (if r = None then 0 else 1)"

definition open_origin :: "ptp_slave \<Rightarrow> nat" where
  "open_origin s = (if sl_t2 s \<noteq> None \<and> sl_t1 s = None then 1 else 0)"

lemma step_exchange_paid:
  "of_bool (is_exchange (snd (slave_step s e))) + owed (sl_dr_seq (fst (slave_step s e)))
   \<le> of_bool (is_send (snd (slave_step s e))) + owed (sl_dr_seq s)"
proof (cases e)
  case (Received msg rx)
  show ?thesis unfolding Received slave_step.simps
  proof (cases rule: on_message_cases [of msg rx s])
    case (delay_resp h)
    then show "of_bool (is_exchange (snd (on_message msg rx s))) + owed (sl_dr_seq (fst (on_message msg rx s)))
      \<le> of_bool (is_send (snd (on_message msg rx s))) + owed (sl_dr_seq s)"
      by (cases rule: on_delay_resp_cases [of h msg s]) (simp_all add: is_exchange_def is_send_def owed_def)
  qed (simp_all add: slave_defs is_exchange_def is_send_def owed_def split: option.split)
qed (simp add: is_exchange_def is_send_def owed_def delay_req_sent_def)

lemma step_send_paid:
  "of_bool (is_send (snd (slave_step s e))) + open_origin (fst (slave_step s e))
   \<le> of_bool (starts_cycle (sl_domain s) e) + open_origin s" if "cycle_inv evs s"
proof (cases e)
  case (Received msg rx)
  show ?thesis unfolding Received slave_step.simps
  proof (cases rule: on_message_cases [of msg rx s])
    case (sync h)
    then show "of_bool (is_send (snd (on_message msg rx s))) + open_origin (fst (on_message msg rx s))
      \<le> of_bool (starts_cycle (sl_domain s) (Received msg rx)) + open_origin s"
      by (simp add: slave_defs is_send_def open_origin_def starts_cycle_def split: option.split)
  next
    case (follow_up h)
    have "sl_t2 s \<noteq> None" if "sl_sync_seq s \<noteq> None" using \<open>cycle_inv evs s\<close> that by (auto simp: cycle_inv_def split: option.splits)
    then show "of_bool (is_send (snd (on_message msg rx s))) + open_origin (fst (on_message msg rx s))
      \<le> of_bool (starts_cycle (sl_domain s) (Received msg rx)) + open_origin s"
      using follow_up by (auto simp: slave_defs is_send_def open_origin_def starts_cycle_def split: option.split)
  next
    case (delay_resp h)
    then show "of_bool (is_send (snd (on_message msg rx s))) + open_origin (fst (on_message msg rx s))
      \<le> of_bool (starts_cycle (sl_domain s) (Received msg rx)) + open_origin s"
      by (cases rule: on_delay_resp_cases [of h msg s]) (simp_all add: is_send_def open_origin_def)
  qed (simp add: is_send_def)
qed (simp add: is_send_def open_origin_def delay_req_sent_def)

lemma run_counts:
  fixes domain clock_id port evs
  defines "s0 \<equiv> slave_new domain clock_id port"
  shows "length (filter is_exchange (slave_actions s0 evs)) + owed (sl_dr_seq (slave_run s0 evs))
      \<le> length (filter is_send (slave_actions s0 evs))
    \<and> length (filter is_send (slave_actions s0 evs)) + open_origin (slave_run s0 evs) \<le> length (filter (starts_cycle domain) evs)"
proof (induction evs rule: rev_induct)
  case Nil
  then show ?case by (simp add: s0_def slave_new_def owed_def open_origin_def)
next
  case (snoc e evs)
  let ?s = "slave_run s0 evs"
  have "sl_domain ?s = domain" by (simp add: s0_def slave_new_def)
  then show ?case
    using snoc step_exchange_paid [of ?s e] step_send_paid [OF cycle_inv_run [of evs domain clock_id port], folded s0_def, of e]
    by (auto simp: slave_actions_snoc)
qed

text \<open>
  A slave answers each Sync with at most one request and turns each request into at most one exchange, over any run: a
  duplicate Follow_Up sends nothing and a duplicate Delay_Resp yields nothing.
\<close>

theorem one_exchange_per_sync:
  "length (filter is_exchange (slave_actions (slave_new domain clock_id port) evs))
     \<le> length (filter is_send (slave_actions (slave_new domain clock_id port) evs)) \<and>
   length (filter is_send (slave_actions (slave_new domain clock_id port) evs)) \<le> length (filter (starts_cycle domain) evs)"
  using run_counts [of domain clock_id port evs] by linarith

end
