(* ===== verification/PtpServo.thy ===== *)
theory PtpServo
  imports Drift PtpSlave "HOL-Library.Signed_Division"
begin

text \<open>
  The PTP servo (\<^verbatim>\<open>ptp/mod.rs\<close>): one exchange of four timestamps gives a measured master time, which is scored
  against the drift clock's fit and folded into it; lock, holdover and the offer to clock election follow from the
  recent scores. The reference clock's reading is an argument of the calls that take it. The 128-bit intermediate values are
  integers, their division truncates, and the 64-bit subtraction of the score wraps.
\<close>

section \<open>The servo\<close>

datatype ptp_state = FreeRunning | Locked | Holdover

datatype exchange_result = Accepted | RejectedInvalid | RejectedOutlier

record ptp_servo =
  sv_drift :: drift_clock
  sv_errors :: "u64 list"
  sv_samples :: nat
  sv_last_update_ns :: u64
  sv_last_error_ns :: int
  sv_last_delay_ns :: int
  sv_locked :: bool
  sv_ever_locked :: bool

definition MIN_LOCK_SAMPLES :: nat where "MIN_LOCK_SAMPLES = 8"
definition ERROR_WINDOW :: nat where "ERROR_WINDOW = 16"
definition LOCK_THRESHOLD_NS :: u64 where "LOCK_THRESHOLD_NS = 1000000"
definition OUTLIER_GATE_NS :: u64 where "OUTLIER_GATE_NS = 20000000"
definition HOLDOVER_TIMEOUT_NS :: u64 where "HOLDOVER_TIMEOUT_NS = 5000000000"

lemmas servo_consts = MIN_LOCK_SAMPLES_def ERROR_WINDOW_def LOCK_THRESHOLD_NS_def OUTLIER_GATE_NS_def HOLDOVER_TIMEOUT_NS_def

definition servo_new :: ptp_servo where
  "servo_new = \<lparr>sv_drift = with_gate OUTLIER_GATE_NS, sv_errors = [], sv_samples = 0, sv_last_update_ns = 0, sv_last_error_ns = 0,
     sv_last_delay_ns = 0, sv_locked = False, sv_ever_locked = False\<rparr>"

text \<open>The lock decision at the end of an accepted sample.\<close>

definition worst_error :: "u64 list \<Rightarrow> u64" where
  "worst_error es = (case es of [] \<Rightarrow> - 1 | e # es \<Rightarrow> foldl max e es)"

definition note_sample :: "u64 \<Rightarrow> int \<Rightarrow> ptp_servo \<Rightarrow> ptp_servo" where
  "note_sample local error s =
     (let samples = sv_samples s + 1;
          errors = (if 2 \<le> samples
                    then (if length (sv_errors s) = ERROR_WINDOW then tl (sv_errors s) else sv_errors s) @ [of_int \<bar>error\<bar>]
                    else sv_errors s);
          locked = (MIN_LOCK_SAMPLES \<le> samples \<and> errors \<noteq> [] \<and> worst_error errors \<le> LOCK_THRESHOLD_NS)
      in s\<lparr>sv_samples := samples, sv_last_update_ns := local, sv_last_error_ns := error, sv_errors := errors,
           sv_locked := locked, sv_ever_locked := (sv_ever_locked s \<or> locked)\<rparr>)"

definition servo_fold :: "(rat \<Rightarrow> rat) \<Rightarrow> u64 \<Rightarrow> u64 \<Rightarrow> ptp_servo \<Rightarrow> ptp_servo \<times> exchange_result" where
  "servo_fold rnd local master s =
     (let error = (if 1 \<le> sv_samples s then sint (master - project_ns rnd (sv_drift s) local) else 0);
          (drift, outcome) = drift_observe rnd local master (sv_drift s);
          s = s\<lparr>sv_drift := drift\<rparr>
      in case outcome of
           Folded \<Rightarrow> (note_sample local error s, Accepted)
         | Rejected \<Rightarrow> (s, RejectedOutlier)
         | Restarted \<Rightarrow> (note_sample local 0 (s\<lparr>sv_locked := False, sv_errors := [], sv_samples := 0\<rparr>), Accepted))"

definition exchange_offset :: "int \<Rightarrow> int \<Rightarrow> int \<Rightarrow> int \<Rightarrow> int" where
  "exchange_offset t1 t2 t3 t4 = ((t2 - t1) - (t4 - t3)) sdiv 2"

definition exchange_delay :: "int \<Rightarrow> int \<Rightarrow> int \<Rightarrow> int \<Rightarrow> int" where
  "exchange_delay t1 t2 t3 t4 = ((t2 - t1) + (t4 - t3)) sdiv 2"

text \<open>\<^verbatim>\<open>as u64\<close> and \<^verbatim>\<open>as i64\<close> keep the low 64 bits.\<close>

definition sync_exchange :: "(rat \<Rightarrow> rat) \<Rightarrow> u64 \<Rightarrow> u64 \<Rightarrow> u64 \<Rightarrow> u64 \<Rightarrow> ptp_servo \<Rightarrow> ptp_servo \<times> exchange_result" where
  "sync_exchange rnd t1 t2 t3 t4 s =
     (let delay = exchange_delay (uint t1) (uint t2) (uint t3) (uint t4);
          master = uint t2 - exchange_offset (uint t1) (uint t2) (uint t3) (uint t4)
      in if delay < 0 then (s, RejectedInvalid)
         else if master \<le> 0 then (s, RejectedInvalid)
         else (let (s, result) = servo_fold rnd t2 (of_int master) s
               in (if result = Accepted then s\<lparr>sv_last_delay_ns := sint (of_int delay :: u64)\<rparr> else s, result)))"

definition observe_master :: "(rat \<Rightarrow> rat) \<Rightarrow> u64 \<Rightarrow> u64 \<Rightarrow> ptp_servo \<Rightarrow> ptp_servo \<times> exchange_result" where
  "observe_master rnd local master s = (if master = 0 then (s, RejectedInvalid) else servo_fold rnd local master s)"

definition servo_state :: "u64 \<Rightarrow> ptp_servo \<Rightarrow> ptp_state" where
  "servo_state now s =
     (if sv_samples s < MIN_LOCK_SAMPLES then FreeRunning
      else if saturating_sub now (sv_last_update_ns s) > HOLDOVER_TIMEOUT_NS
      then (if sv_ever_locked s then Holdover else FreeRunning)
      else if sv_locked s then Locked else FreeRunning)"

definition is_locked :: "u64 \<Rightarrow> ptp_servo \<Rightarrow> bool" where
  "is_locked now s \<longleftrightarrow> servo_state now s = Locked"

definition servo_now_ns :: "(rat \<Rightarrow> rat) \<Rightarrow> u64 \<Rightarrow> ptp_servo \<Rightarrow> u64" where
  "servo_now_ns rnd now s = project_ns rnd (sv_drift s) now"

text \<open>The shared clock around the servo: what it offers to election, and its health.\<close>

definition ptp_candidate :: "u64 \<Rightarrow> 'c \<Rightarrow> ptp_servo \<Rightarrow> 'c clock_candidate option" where
  "ptp_candidate now clock s =
     (if servo_state now s = FreeRunning then None else Some \<lparr>cc_priority = PtpGrandmaster, cc_clock = clock\<rparr>)"

definition ptp_healthy :: "u64 \<Rightarrow> ptp_servo \<Rightarrow> bool" where
  "ptp_healthy now s \<longleftrightarrow> servo_state now s \<noteq> FreeRunning"

section \<open>Inputs\<close>

datatype servo_input = ExchangeIn u64 u64 u64 u64 | MasterIn u64 u64

fun servo_input_step :: "(rat \<Rightarrow> rat) \<Rightarrow> servo_input \<Rightarrow> ptp_servo \<Rightarrow> ptp_servo \<times> exchange_result" where
  "servo_input_step rnd (ExchangeIn t1 t2 t3 t4) s = sync_exchange rnd t1 t2 t3 t4 s"
| "servo_input_step rnd (MasterIn local master) s = observe_master rnd local master s"

definition servo_run :: "(rat \<Rightarrow> rat) \<Rightarrow> servo_input list \<Rightarrow> ptp_servo" where
  "servo_run rnd ins = foldl (\<lambda>s i. fst (servo_input_step rnd i s)) servo_new ins"

section \<open>The estimators\<close>

lemma sdiv_2: "(x :: int) sdiv 2 = (if 0 \<le> x then x div 2 else - (- x div 2))"
  by (auto simp: signed_divide_int_def sgn_if)

text \<open>
  The estimators of one exchange: with path delays \<open>d1\<close> to us and \<open>d2\<close> back and a master that is \<open>off\<close> ahead of our
  reference, the measured master time misses the true one at the Sync's arrival by at most half the difference of the two
  delays (rounded up), and it is exact on a symmetric path, and the measured delay is then the path's.
\<close>

theorem exchange_estimates:
  fixes x y d1 d2 off :: int
  defines "t1 \<equiv> x + off" and "t2 \<equiv> x + d1" and "t3 \<equiv> y" and "t4 \<equiv> y + d2 + off"
  shows "2 * \<bar>(t2 - exchange_offset t1 t2 t3 t4) - (t2 + off)\<bar> \<le> \<bar>d1 - d2\<bar> + 1 \<and>
    exchange_delay t1 t2 t3 t4 = (d1 + d2) sdiv 2 \<and>
    (if d1 = d2 then t2 - exchange_offset t1 t2 t3 t4 = t2 + off \<and> exchange_delay t1 t2 t3 t4 = d1 else True)"
proof -
  have e: "(t2 - t1) - (t4 - t3) = (d1 - d2) - 2 * off" "(t2 - t1) + (t4 - t3) = d1 + d2"
    by (simp_all add: t1_def t2_def t3_def t4_def)
  show ?thesis unfolding exchange_offset_def exchange_delay_def e sdiv_2 by (auto simp: abs_if)
qed

section \<open>Lock\<close>

lemma foldl_max_le: "foldl max (e :: u64) es \<le> t \<longleftrightarrow> e \<le> t \<and> (\<forall>x\<in>set es. x \<le> t)"
  by (induction es arbitrary: e) auto

lemma worst_error_le: "es \<noteq> [] \<Longrightarrow> worst_error es \<le> t \<longleftrightarrow> (\<forall>x\<in>set es. x \<le> t)"
  by (cases es) (auto simp: worst_error_def foldl_max_le)

definition servo_inv :: "ptp_servo \<Rightarrow> bool" where
  "servo_inv s \<longleftrightarrow> drift_inv (sv_drift s) \<and> length (sv_errors s) = min ERROR_WINDOW (sv_samples s - 1) \<and>
     (sv_locked s \<longrightarrow> sv_ever_locked s \<and> MIN_LOCK_SAMPLES \<le> sv_samples s \<and> (\<forall>e\<in>set (sv_errors s). e \<le> LOCK_THRESHOLD_NS))"

lemma servo_inv_note:
  assumes "drift_inv (sv_drift s)" "length (sv_errors s) = min ERROR_WINDOW (sv_samples s - 1)"
  shows "servo_inv (note_sample l e s)"
  using assms by (auto simp: servo_inv_def note_sample_def Let_def worst_error_le servo_consts)

lemma servo_inv_fold:
  assumes "servo_inv s"
  shows "servo_inv (fst (servo_fold rnd l m s))"
proof -
  obtain d out where o: "drift_observe rnd l m (sv_drift s) = (d, out)" by (metis prod.exhaust)
  have d: "drift_inv d" using drift_inv_observe [of "sv_drift s" rnd l m] assms o by (simp add: servo_inv_def)
  show ?thesis using assms d
    by (cases out) (auto simp: servo_fold_def o Let_def servo_inv_def [of s] servo_inv_def [of "s\<lparr>sv_drift := _\<rparr>"] intro!: servo_inv_note)
qed

lemma servo_inv_delay [simp]: "servo_inv (s\<lparr>sv_last_delay_ns := d\<rparr>) = servo_inv s"
  by (simp add: servo_inv_def)

lemma servo_inv_step: "servo_inv s \<Longrightarrow> servo_inv (fst (servo_input_step rnd i s))"
  using servo_inv_fold
  by (cases i) (auto simp: sync_exchange_def observe_master_def Let_def split: prod.split, metis fst_conv, metis fst_conv)

lemma servo_inv_run: "servo_inv (servo_run rnd ins)"
  unfolding servo_run_def
  by (induction ins rule: rev_induct)
    (simp_all add: servo_inv_step, simp add: servo_inv_def servo_new_def with_gate_def)

text \<open>
  A servo that reports itself locked, after any inputs and whatever the rounding, rests on at least eight folded samples; the last of
  them is no older than the holdover timeout; and each of the last sixteen scores (all of them, while there are fewer) is within
  a millisecond.
\<close>

theorem locked_is_earned:
  assumes "servo_state now (servo_run rnd ins) = Locked"
  shows "8 \<le> sv_samples (servo_run rnd ins) \<and> length (sv_errors (servo_run rnd ins)) = min 16 (sv_samples (servo_run rnd ins) - 1) \<and>
    (\<forall>e\<in>set (sv_errors (servo_run rnd ins)). unat e \<le> 1000000) \<and>
    unat now \<le> unat (sv_last_update_ns (servo_run rnd ins)) + 5000000000"
proof -
  let ?s = "servo_run rnd ins"
  have l: "sv_locked ?s" "\<not> saturating_sub now (sv_last_update_ns ?s) > HOLDOVER_TIMEOUT_NS"
    using assms by (auto simp: servo_state_def split: if_splits)
  then have "unat (saturating_sub now (sv_last_update_ns ?s)) \<le> 5000000000"
    by (simp add: word_less_nat_alt HOLDOVER_TIMEOUT_NS_def)
  moreover have "unat e \<le> 1000000" if "e \<le> LOCK_THRESHOLD_NS" for e
    using that by (simp add: word_le_nat_alt LOCK_THRESHOLD_NS_def)
  ultimately show ?thesis using servo_inv_run [of rnd ins] l(1)
    by (auto simp: servo_inv_def unat_saturating_sub MIN_LOCK_SAMPLES_def ERROR_WINDOW_def)
qed

section \<open>Locking on\<close>

text \<open>The reference and master time an input measures, if its timestamps are possible.\<close>

fun measured :: "servo_input \<Rightarrow> sample option" where
  "measured (ExchangeIn t1 t2 t3 t4) =
     (let master = uint t2 - exchange_offset (uint t1) (uint t2) (uint t3) (uint t4)
      in if exchange_delay (uint t1) (uint t2) (uint t3) (uint t4) < 0 \<or> master \<le> 0 then None else Some (t2, of_int master))"
| "measured (MasterIn local master) = (if master = 0 then None else Some (local, master))"

lemma input_step_measured:
  "servo_input_step rnd i s =
    (case measured i of
       None \<Rightarrow> (s, RejectedInvalid)
     | Some (l, m) \<Rightarrow>
         (let (s', r) = servo_fold rnd l m s in
          (case i of ExchangeIn t1 t2 t3 t4 \<Rightarrow>
              if r = Accepted then s'\<lparr>sv_last_delay_ns := sint (of_int (exchange_delay (uint t1) (uint t2) (uint t3) (uint t4)) :: u64)\<rparr> else s'
            | MasterIn _ _ \<Rightarrow> s', r)))"
  by (cases i) (auto simp: sync_exchange_def observe_master_def Let_def split: prod.split)

lemma input_step_accepted:
  assumes "measured i = Some (l, m)" "snd (servo_fold rnd l m s) = Accepted"
  shows "\<exists>d. fst (servo_input_step rnd i s) = (fst (servo_fold rnd l m s))\<lparr>sv_last_delay_ns := d\<rparr>"
proof -
  have same: "\<exists>d. s = s\<lparr>sv_last_delay_ns := d\<rparr>" for s :: ptp_servo by (rule exI [of _ "sv_last_delay_ns s"]) simp
  show ?thesis
  proof (cases i)
    case (ExchangeIn t1 t2 t3 t4)
    then show ?thesis unfolding input_step_measured assms(1) using assms(2) by (auto simp: Let_def split: prod.split)
  next
    case (MasterIn l' m')
    then have "fst (servo_input_step rnd i s) = fst (servo_fold rnd l m s)"
      unfolding input_step_measured assms(1) by (simp add: Let_def split: prod.split)
    then show ?thesis using same by metis
  qed
qed

definition tracking_inv :: "sample list \<Rightarrow> ptp_servo \<Rightarrow> bool" where
  "tracking_inv obs s \<longleftrightarrow> line_inv obs (sv_drift s) \<and> sv_samples s = length obs \<and>
     length (sv_errors s) = min 16 (length obs - 1) \<and> set (tl (sv_errors s)) \<subseteq> {0} \<and> (18 \<le> length obs \<longrightarrow> set (sv_errors s) \<subseteq> {0}) \<and>
     (obs \<noteq> [] \<longrightarrow> sv_last_update_ns s = fst (List.last obs)) \<and> (18 \<le> length obs \<longrightarrow> sv_locked s)"

lemma tracking_errors:
  assumes "length es = min 16 (n - 1)" "set (tl es) \<subseteq> {0 :: u64}" "1 \<le> n" "2 \<le> n \<longrightarrow> x = 0"
  defines "fs \<equiv> (if length es = 16 then tl es else es) @ [x]"
  shows "length fs = min 16 n" "set (tl fs) \<subseteq> {0}" "18 \<le> Suc n \<Longrightarrow> set fs \<subseteq> {0}"
proof -
  show "length fs = min 16 n" using assms by auto
  have x: "x = 0" if "es \<noteq> []" using assms(1,3,4) that by (cases "2 \<le> n") auto
  have tls: "set (tl (ys @ [0])) \<subseteq> {0}" if "set ys \<subseteq> {0}" for ys :: "u64 list" using that by (cases ys) auto
  show "set (tl fs) \<subseteq> {0}" using assms(2) x tls [of "tl es"] by (cases es) (auto simp: fs_def)
  show "set fs \<subseteq> {0}" if "18 \<le> Suc n" using assms(1,2,4) that by (auto simp: fs_def)
qed

lemma tracking_score:
  assumes "\<forall>s\<in>set (obs @ [(l, m)]). on_line a b s" "distinct (map fst (obs @ [(l, m)]))" "line_inv obs d" "2 \<le> length obs" "m \<noteq> 0"
  shows "project_ns id d l = m"
proof -
  have p: "\<forall>s\<in>set obs. on_line a b s" "distinct (map fst obs)" "on_line a b (l, m)" using assms(1,2) by auto
  obtain f where f: "dc_fit d = Some f" "project_through id f l = a * of_int (uint l) + b" using line_fit [OF p(1,2) assms(3,4)] by blast
  then have "project_through id f l = of_int (uint m)" using p(3) by (simp add: on_line_def)
  then show ?thesis using project_exact [OF f(1)] assms(5) by blast
qed

lemma tracking_fold:
  assumes "\<forall>s\<in>set (obs @ [(l, m)]). on_line a b s" "distinct (map fst (obs @ [(l, m)]))" "tracking_inv obs s" "m \<noteq> 0"
  shows "snd (servo_fold id l m s) = Accepted \<and> tracking_inv (obs @ [(l, m)]) (fst (servo_fold id l m s))"
proof -
  have t: "line_inv obs (sv_drift s)" "sv_samples s = length obs" using assms(3) by (auto simp: tracking_inv_def)
  obtain d where d: "drift_observe id l m (sv_drift s) = (d, Folded)" "line_inv (obs @ [(l, m)]) d"
    using line_inv_step [OF assms(1,2) t(1)] by (metis prod.collapse)
  define e where "e = (if 1 \<le> sv_samples s then sint (m - project_ns id (sv_drift s) l) else 0)"
  have f: "servo_fold id l m s = (note_sample l e (s\<lparr>sv_drift := d\<rparr>), Accepted)"
    unfolding servo_fold_def d e_def Let_def by simp
  have z: "e = 0" if "2 \<le> length obs" using tracking_score [OF assms(1,2) t(1) that assms(4)] by (simp add: e_def)
  have er: "sv_errors (note_sample l e (s\<lparr>sv_drift := d\<rparr>)) =
      (if obs = [] then sv_errors s else (if length (sv_errors s) = 16 then tl (sv_errors s) else sv_errors s) @ [of_int \<bar>e\<bar>])"
    by (auto simp: note_sample_def Let_def t(2) ERROR_WINDOW_def Suc_le_eq)
  note te = tracking_errors [of "sv_errors s" "length obs" "of_int \<bar>e\<bar>"]
  have ers: "length (sv_errors (note_sample l e (s\<lparr>sv_drift := d\<rparr>))) = min 16 (length obs)"
      "set (tl (sv_errors (note_sample l e (s\<lparr>sv_drift := d\<rparr>)))) \<subseteq> {0}"
      "18 \<le> Suc (length obs) \<Longrightarrow> set (sv_errors (note_sample l e (s\<lparr>sv_drift := d\<rparr>))) \<subseteq> {0}"
    using te z assms(3) unfolding er by (auto simp: tracking_inv_def Suc_le_eq)
  have lk: "sv_locked (note_sample l e (s\<lparr>sv_drift := d\<rparr>))" if "18 \<le> Suc (length obs)"
  proof -
    have "sv_errors (note_sample l e (s\<lparr>sv_drift := d\<rparr>)) \<noteq> []" using ers(1) that by auto
    then have "worst_error (sv_errors (note_sample l e (s\<lparr>sv_drift := d\<rparr>))) \<le> LOCK_THRESHOLD_NS"
      using ers(3) [OF that] by (auto simp: worst_error_le)
    then show ?thesis using that \<open>sv_errors _ \<noteq> []\<close> by (simp add: note_sample_def Let_def t(2) MIN_LOCK_SAMPLES_def)
  qed
  have "sv_drift (note_sample l e (s\<lparr>sv_drift := d\<rparr>)) = d" "sv_samples (note_sample l e (s\<lparr>sv_drift := d\<rparr>)) = Suc (length obs)"
      "sv_last_update_ns (note_sample l e (s\<lparr>sv_drift := d\<rparr>)) = l"
    by (simp_all add: note_sample_def Let_def t(2))
  then show ?thesis unfolding f tracking_inv_def fst_conv snd_conv using d(2) ers lk by simp
qed

lemma tracking_run:
  assumes "map measured ins = map Some obs" "\<forall>s\<in>set obs. on_line a b s" "distinct (map fst obs)" "\<forall>s\<in>set obs. snd s \<noteq> 0"
  shows "tracking_inv obs (servo_run id ins)"
  using assms
proof (induction ins arbitrary: obs rule: rev_induct)
  case Nil
  then show ?case by (simp add: tracking_inv_def servo_run_def servo_new_def line_inv_def with_gate_def) (simp add: with_window_and_gate_def)
next
  case (snoc i ins)
  then obtain l m os where o: "obs = os @ [(l, m)]" "measured i = Some (l, m)" "map measured ins = map Some os"
    by (cases obs rule: rev_cases) auto
  let ?s = "servo_run id ins"
  have t: "tracking_inv os ?s" by (rule snoc.IH) (use snoc.prems o in auto)
  have f: "snd (servo_fold id l m ?s) = Accepted" "tracking_inv obs (fst (servo_fold id l m ?s))"
    using tracking_fold [of os l m a b ?s] snoc.prems(2-4) t o(1) by auto
  have k: "tracking_inv obs (r\<lparr>sv_last_delay_ns := x\<rparr>) = tracking_inv obs r" for r x by (simp add: tracking_inv_def)
  have "servo_run id (ins @ [i]) = fst (servo_input_step id i ?s)" by (simp add: servo_run_def)
  moreover obtain x where "fst (servo_input_step id i ?s) = (fst (servo_fold id l m ?s))\<lparr>sv_last_delay_ns := x\<rparr>"
    using input_step_accepted [OF o(2) f(1)] by blast
  ultimately show ?case using f(2) k by metis
qed

lemma locks_on:
  assumes "map measured ins = map Some obs" "\<forall>s\<in>set obs. on_line a b s" "distinct (map fst obs)" "\<forall>s\<in>set obs. snd s \<noteq> 0"
    and "18 \<le> length obs" "unat now \<le> unat (fst (List.last obs)) + 5000000000"
  shows "servo_state now (servo_run id ins) = Locked"
proof -
  have l: "sv_locked (servo_run id ins)" "sv_samples (servo_run id ins) = length obs" "sv_last_update_ns (servo_run id ins) = fst (List.last obs)"
    using tracking_run [OF assms(1-4)] assms(5) by (auto simp: tracking_inv_def)
  have "unat (saturating_sub now (fst (List.last obs))) \<le> 5000000000" using assms(6) by (simp add: unat_saturating_sub)
  then have "\<not> saturating_sub now (fst (List.last obs)) > HOLDOVER_TIMEOUT_NS" by (simp add: word_less_nat_alt HOLDOVER_TIMEOUT_NS_def)
  then show ?thesis using l assms(5) by (simp add: servo_state_def MIN_LOCK_SAMPLES_def)
qed


section \<open>Losing lock\<close>

lemma sint_diff:
  assumes "\<bar>uint m - uint p\<bar> \<le> 20000000"
  shows "sint (m - p :: u64) = uint m - uint p"
proof -
  have "m - p = word_of_int (uint m - uint p)" by (simp add: wi_hom_sub [symmetric])
  then show ?thesis using sint_of_int_64 [of "uint m - uint p"] assms by (simp add: abs_le_iff)
qed

lemma accept_gate [simp]: "dc_outlier_gate_ns (accept_sample rnd l m xs d) = dc_outlier_gate_ns d"
  by (simp add: accept_sample_def Let_def)

lemma servo_fold_gate: "dc_outlier_gate_ns (sv_drift (fst (servo_fold rnd l m s))) = dc_outlier_gate_ns (sv_drift s)"
  by (auto simp: servo_fold_def drift_observe_def note_sample_def Let_def)

lemma servo_run_gate: "dc_outlier_gate_ns (sv_drift (servo_run rnd ins)) = OUTLIER_GATE_NS"
proof (induction ins rule: rev_induct)
  case Nil
  then show ?case by (simp add: servo_run_def servo_new_def with_gate_def with_window_and_gate_def)
next
  case (snoc i ins)
  have "dc_outlier_gate_ns (sv_drift (fst (servo_input_step rnd i s))) = dc_outlier_gate_ns (sv_drift s)" for s
    using servo_fold_gate [of rnd] by (cases i) (auto simp: sync_exchange_def observe_master_def Let_def case_prod_beta)
  then show ?case using snoc by (simp add: servo_run_def)
qed

lemma within_gate:
  assumes "dc_fit d = Some f" "project_through id f l = of_int (uint p)" "\<bar>uint m - uint p\<bar> \<le> 20000000" "dc_outlier_gate_ns d = OUTLIER_GATE_NS"
  shows "\<not> is_gated id l m d"
proof -
  have "\<bar>rat_of_int (uint m) - rat_of_int (uint p)\<bar> = rat_of_int \<bar>uint m - uint p\<bar>" by (simp only: of_int_diff of_int_abs)
  also have "\<dots> \<le> rat_of_int 20000000" using assms(3) by (simp only: of_int_le_iff)
  finally have "\<not> \<bar>rat_of_int (uint m) - rat_of_int (uint p)\<bar> > rat_of_int (uint OUTLIER_GATE_NS)"
    by (simp add: OUTLIER_GATE_NS_def)
  then show ?thesis unfolding is_gated_def assms(1,2,4) option.case id_apply by blast
qed

lemma bad_sample:
  assumes "18 \<le> sv_samples s" "sv_ever_locked s" "1000000 < \<bar>e\<bar>" "\<bar>e\<bar> \<le> 20000000"
  shows "\<not> sv_locked (note_sample l e s)" "sv_ever_locked (note_sample l e s)" "sv_last_update_ns (note_sample l e s) = l"
    "sv_samples (note_sample l e s) = Suc (sv_samples s)"
proof -
  have "uint (of_int \<bar>e\<bar> :: u64) = \<bar>e\<bar>" using assms(4) by (simp add: uint_word_of_int)
  then have "\<not> (of_int \<bar>e\<bar> :: u64) \<le> LOCK_THRESHOLD_NS" using assms(3) by (simp add: word_le_def LOCK_THRESHOLD_NS_def)
  then show "\<not> sv_locked (note_sample l e s)" using assms(1) by (auto simp: note_sample_def Let_def worst_error_le)
qed (use assms in \<open>simp_all add: note_sample_def Let_def\<close>)


section \<open>Examples\<close>

definition steady :: "nat \<Rightarrow> servo_input list" where
  "steady n = map (\<lambda>k. MasterIn (of_nat k * 1000) (of_nat k * 1000 + 7)) [0..<n]"

definition steady_samples :: "nat \<Rightarrow> sample list" where
  "steady_samples n = map (\<lambda>k. (of_nat k * 1000, of_nat k * 1000 + 7)) [0..<n]"

lemma steady_18:
  "map measured (steady 18) = map Some (steady_samples 18)" "\<forall>s\<in>set (steady_samples 18). on_line 1 7 s"
  "distinct (map fst (steady_samples 18))" "\<forall>s\<in>set (steady_samples 18). snd s \<noteq> 0" "18 \<le> length (steady_samples 18)"
  "unat (17500 :: u64) \<le> unat (fst (List.last (steady_samples 18))) + 5000000000"
proof -
  show "map measured (steady 18) = map Some (steady_samples 18)" by code_simp
  have "list_all (on_line 1 7) (steady_samples 18)" by code_simp
  then show "\<forall>s\<in>set (steady_samples 18). on_line 1 7 s" by (simp add: list_all_iff)
  show "distinct (map fst (steady_samples 18))" by code_simp
  have "list_all (\<lambda>s. snd s \<noteq> 0) (steady_samples 18)" by code_simp
  then show "\<forall>s\<in>set (steady_samples 18). snd s \<noteq> 0" by (simp add: list_all_iff)
  show "18 \<le> length (steady_samples 18)" by (simp add: steady_samples_def)
  have "fst (List.last (steady_samples 18)) = 17000" by code_simp
  then show "unat (17500 :: u64) \<le> unat (fst (List.last (steady_samples 18))) + 5000000000" by simp
qed


theorem locked_is_earned_witness:
  "8 \<le> sv_samples (servo_run id (steady 18)) \<and> unat (17500 :: u64) \<le> unat (sv_last_update_ns (servo_run id (steady 18))) + 5000000000"
  using locked_is_earned [OF locks_on [OF steady_18]] by blast


end
