(* ===== verification/Segments.thy ===== *)
theory Segments
  imports Complex_Main Wire MediaTime
begin

text \<open>
  Seek requests and the playback segment (\<^verbatim>\<open>segment.rs\<close>). A segment is the record of the wire theory: rates are
  the bit patterns of doubles, \<open>f64_value\<close> reads one as the rational it stands for. Rounding is the argument \<open>rnd\<close>,
  applied to the result of every operation; a quotient past the largest double is infinite, and \<^verbatim>\<open>as u64\<close> saturates
  it to the same word as the unbounded rational here. A signed 64-bit count is an \<open>int\<close> with its saturation written out.
\<close>

section \<open>Doubles\<close>

datatype f64_class = F_nan | F_inf bool | F_finite rat

definition f64_value :: "f64 \<Rightarrow> f64_class" where
  "f64_value b =
     (let negative = 2 ^ 63 \<le> uint b; e = nat (uint b div 2 ^ 52 mod 2 ^ 11); m = uint b mod 2 ^ 52;
          signed = (\<lambda>q. F_finite (if negative then - q else q))
      in if e = 2047 then (if m = 0 then F_inf negative else F_nan)
         else if e = 0 then signed (of_int m / 2 ^ 1074)
         else signed (of_int (2 ^ 52 + m) * 2 ^ e / 2 ^ 1075))"

definition ONE_F64 :: f64 where "ONE_F64 = 0x3FF0000000000000"
definition MINUS_ONE_F64 :: f64 where "MINUS_ONE_F64 = 0xBFF0000000000000"

definition f64_as_u64 :: "rat \<Rightarrow> u64" where
  "f64_as_u64 x = (if x \<le> 0 then 0 else of_int (min (2 ^ 64 - 1) \<lfloor>x\<rfloor>))"

definition clamp_i64 :: "int \<Rightarrow> int" where
  "clamp_i64 x = max (- (2 ^ 63)) (min (2 ^ 63 - 1) x)"

definition checked_sub :: "u64 \<Rightarrow> u64 \<Rightarrow> u64 option" where
  "checked_sub a b = (if b \<le> a then Some (a - b) else None)"

definition f64_negative :: "f64 \<Rightarrow> bool" where
  "f64_negative r = (case f64_value r of F_finite q \<Rightarrow> q < 0 | F_inf neg \<Rightarrow> neg | F_nan \<Rightarrow> False)"

section \<open>Seek requests\<close>

datatype seek_type = Seek_none | Seek_set | Seek_end

type_synonym seek_flags = u32

definition SEEK_NONE :: seek_flags where "SEEK_NONE = 0"
definition SEEK_FLUSH :: seek_flags where "SEEK_FLUSH = 1"
definition SEEK_ACCURATE :: seek_flags where "SEEK_ACCURATE = 2"
definition SEEK_KEY_UNIT :: seek_flags where "SEEK_KEY_UNIT = 4"
definition SEEK_SEGMENT :: seek_flags where "SEEK_SEGMENT = 8"
definition SEEK_TRICKMODE :: seek_flags where "SEEK_TRICKMODE = 16"
definition SEEK_SNAP_BEFORE :: seek_flags where "SEEK_SNAP_BEFORE = 32"
definition SEEK_SNAP_AFTER :: seek_flags where "SEEK_SNAP_AFTER = 64"

unbundle bit_operations_syntax

definition flags_contains :: "seek_flags \<Rightarrow> seek_flags \<Rightarrow> bool" where
  "flags_contains self other \<longleftrightarrow> self AND other = other"

definition flags_bitor :: "seek_flags \<Rightarrow> seek_flags \<Rightarrow> seek_flags" where
  "flags_bitor a b = a OR b"

record seek =
  sk_rate :: f64
  sk_flags :: seek_flags
  sk_start_type :: seek_type
  sk_start :: u64
  sk_stop_type :: seek_type
  sk_stop :: u64

definition flush_to :: "u64 \<Rightarrow> seek" where
  "flush_to target = \<lparr>sk_rate = ONE_F64, sk_flags = SEEK_FLUSH, sk_start_type = Seek_set, sk_start = target,
     sk_stop_type = Seek_none, sk_stop = 0\<rparr>"

definition seek_reverse :: "u64 \<Rightarrow> u64 \<Rightarrow> seek" where
  "seek_reverse start stop = \<lparr>sk_rate = MINUS_ONE_F64, sk_flags = SEEK_FLUSH, sk_start_type = Seek_set, sk_start = start,
     sk_stop_type = Seek_set, sk_stop = stop\<rparr>"

definition is_flush :: "seek \<Rightarrow> bool" where
  "is_flush k = flags_contains (sk_flags k) SEEK_FLUSH"

definition is_reverse :: "seek \<Rightarrow> bool" where
  "is_reverse k = f64_negative (sk_rate k)"

section \<open>The segment\<close>

definition stream_time_ns :: "u64 \<Rightarrow> int" where
  "stream_time_ns ns = min (2 ^ 63 - 1) (uint ns)"

definition segment_new :: segment where
  "segment_new = \<lparr>sgm_rate = ONE_F64, sgm_applied_rate = ONE_F64, sgm_base = 0, sgm_start = 0, sgm_stop = None,
     sgm_time = 0, sgm_position = 0, sgm_key_units_only = False\<rparr>"

definition segment_contains :: "segment \<Rightarrow> u64 \<Rightarrow> bool" where
  "segment_contains g ts \<longleftrightarrow> sgm_start g \<le> ts \<and> (case sgm_stop g of None \<Rightarrow> True | Some stop \<Rightarrow> ts \<le> stop)"

definition presents :: "segment \<Rightarrow> u64 \<Rightarrow> bool" where
  "presents g pts \<longleftrightarrow>
     pts = PTS_NONE \<or> (sgm_start g \<le> pts \<and> (case sgm_stop g of None \<Rightarrow> True | Some stop \<Rightarrow> pts < stop))"

text \<open>The kept range of sample indices, and the time of the first.\<close>

definition samples_until :: "u64 \<Rightarrow> u64 \<Rightarrow> u32 \<Rightarrow> u64 \<Rightarrow> u64" where
  "samples_until pts sample_count rate edge = min (ns_to_ticks (saturating_sub edge pts) rate) sample_count"

definition kept_samples :: "segment \<Rightarrow> u64 \<Rightarrow> u64 \<Rightarrow> u32 \<Rightarrow> ((u64 \<times> u64) \<times> u64) option" where
  "kept_samples g pts sample_count rate =
     (if pts = PTS_NONE then (if 0 < sample_count then Some ((0, sample_count), pts) else None)
      else let first = samples_until pts sample_count rate (sgm_start g);
               end_sample = (case sgm_stop g of None \<Rightarrow> sample_count | Some stop \<Rightarrow> samples_until pts sample_count rate stop)
           in if first < end_sample then Some ((first, end_sample), saturating_add pts (ticks_to_ns first rate)) else None)"

text \<open>\<open>(span as f64 / fabs(rate)) as u64\<close>: a NaN reads as zero, a quotient by an infinity is zero.\<close>

definition over_rate :: "(rat \<Rightarrow> rat) \<Rightarrow> u64 \<Rightarrow> f64 \<Rightarrow> u64" where
  "over_rate rnd gap rate =
     (case f64_value rate of
        F_finite q \<Rightarrow> f64_as_u64 (rnd (rnd (of_int (uint gap)) / \<bar>q\<bar>))
      | F_inf _ \<Rightarrow> 0
      | F_nan \<Rightarrow> 0)"

definition to_running_time :: "(rat \<Rightarrow> rat) \<Rightarrow> segment \<Rightarrow> u64 \<Rightarrow> u64 option" where
  "to_running_time rnd g ts =
     (if \<not> segment_contains g ts then None
      else if f64_value (sgm_rate g) = F_finite 0 then None
      else Option.bind
        (if f64_negative (sgm_rate g)
         then Option.bind (sgm_stop g) (\<lambda>stop. checked_sub stop ts)
         else checked_sub ts (sgm_start g))
        (\<lambda>span. Some (saturating_add (sgm_base g) (over_rate rnd span (sgm_rate g)))))"

text \<open>\<open>(span as f64 * fabs(applied_rate)) as i64\<close>: zero times an infinity is NaN, which reads as zero.\<close>

definition by_applied_rate :: "(rat \<Rightarrow> rat) \<Rightarrow> u64 \<Rightarrow> f64 \<Rightarrow> int" where
  "by_applied_rate rnd gap rate =
     (case f64_value rate of
        F_finite q \<Rightarrow> min (2 ^ 63 - 1) \<lfloor>rnd (rnd (of_int (uint gap)) * \<bar>q\<bar>)\<rfloor>
      | F_inf _ \<Rightarrow> (if gap = 0 then 0 else 2 ^ 63 - 1)
      | F_nan \<Rightarrow> 0)"

definition to_stream_time :: "(rat \<Rightarrow> rat) \<Rightarrow> segment \<Rightarrow> u64 \<Rightarrow> u64 option" where
  "to_stream_time rnd g ts =
     (if \<not> segment_contains g ts then None
      else Option.bind (checked_sub ts (sgm_start g))
        (\<lambda>span. let t = clamp_i64 (sint (sgm_time g) + by_applied_rate rnd span (sgm_applied_rate g))
                in if 0 \<le> t then Some (of_int t) else None))"

definition segment_clip :: "segment \<Rightarrow> u64 \<Rightarrow> u64 option \<Rightarrow> (u64 \<times> u64 option) option" where
  "segment_clip g b_start b_stop =
     (if (case sgm_stop g of Some seg_stop \<Rightarrow> seg_stop \<le> b_start | None \<Rightarrow> False) then None
      else if (case b_stop of Some bs \<Rightarrow> bs \<le> sgm_start g | None \<Rightarrow> False) then None
      else Some (max b_start (sgm_start g),
        case (b_stop, sgm_stop g) of
          (Some bs, Some ss) \<Rightarrow> Some (min bs ss)
        | (Some bs, None) \<Rightarrow> Some bs
        | (None, Some ss) \<Rightarrow> Some ss
        | (None, None) \<Rightarrow> None))"

section \<open>Applying a seek\<close>

definition from_seek :: "seek \<Rightarrow> u64 option \<Rightarrow> u64 \<Rightarrow> u64 \<Rightarrow> u64 option \<Rightarrow> segment" where
  "from_seek k duration base prev_start prev_stop =
     (let whole = (case duration of Some d \<Rightarrow> d | None \<Rightarrow> 0);
          start = (case sk_start_type k of
                     Seek_none \<Rightarrow> prev_start | Seek_set \<Rightarrow> sk_start k | Seek_end \<Rightarrow> saturating_sub whole (sk_start k));
          stop = (case sk_stop_type k of
                     Seek_none \<Rightarrow> prev_stop | Seek_set \<Rightarrow> Some (sk_stop k) | Seek_end \<Rightarrow> Some (saturating_sub whole (sk_stop k)))
      in \<lparr>sgm_rate = sk_rate k, sgm_applied_rate = ONE_F64, sgm_base = base, sgm_start = start, sgm_stop = stop,
          sgm_time = of_int (stream_time_ns start), sgm_position = start,
          sgm_key_units_only = flags_contains (sk_flags k) SEEK_TRICKMODE\<rparr>)"

definition for_flush_seek :: "seek \<Rightarrow> u64 option \<Rightarrow> segment" where
  "for_flush_seek k duration = from_seek k duration 0 0 None"

definition accumulate_seek :: "(rat \<Rightarrow> rat) \<Rightarrow> segment \<Rightarrow> seek \<Rightarrow> u64 option \<Rightarrow> segment" where
  "accumulate_seek rnd g k duration =
     (let base = (case to_running_time rnd g (sgm_position g) of Some t \<Rightarrow> t | None \<Rightarrow> sgm_base g)
      in from_seek k duration base (sgm_start g) (sgm_stop g))"

section \<open>Clipping is intersection\<close>

text \<open>The timestamps of a half-open span, an open end reaching every later one.\<close>

definition span_set :: "u64 \<Rightarrow> u64 option \<Rightarrow> u64 set" where
  "span_set a b = {t. a \<le> t \<and> (case b of None \<Rightarrow> True | Some e \<Rightarrow> t < e)}"

lemma clip_denotes:
  "(case segment_clip g b_start b_stop of None \<Rightarrow> {} | Some (s, e) \<Rightarrow> span_set s e) =
     span_set b_start b_stop \<inter> span_set (sgm_start g) (sgm_stop g)"
  by (auto simp: segment_clip_def span_set_def min_def max_def split: option.splits if_splits)

lemma presents_iff_in_span:
  "pts \<noteq> PTS_NONE \<Longrightarrow> presents g pts \<longleftrightarrow> pts \<in> span_set (sgm_start g) (sgm_stop g)"
  by (simp add: presents_def span_set_def split: option.split)

section \<open>Cutting a stream of samples\<close>

lemma ns_to_ticks_mono: "a \<le> b \<Longrightarrow> ns_to_ticks a rate \<le> ns_to_ticks b rate"
  unfolding word_le_nat_alt ns_to_ticks_nat by (intro min.mono div_le_mono add_mono mult_le_mono order_refl)

lemma saturating_sub_mono: "a \<le> b \<Longrightarrow> saturating_sub a c \<le> saturating_sub (b :: u64) c"
  unfolding word_le_nat_alt unat_saturating_sub by (rule diff_le_mono)

lemma samples_until_mono: "a \<le> b \<Longrightarrow> samples_until pts n rate a \<le> samples_until pts n rate b"
  unfolding samples_until_def by (intro min.mono ns_to_ticks_mono saturating_sub_mono order_refl)

text \<open>The indices of a kept range.\<close>

definition kept_indices :: "((u64 \<times> u64) \<times> u64) option \<Rightarrow> u64 set" where
  "kept_indices k = (case k of None \<Rightarrow> {} | Some ((first, end_sample), _) \<Rightarrow> {first..<end_sample})"

lemma kept_indices_eq:
  "pts \<noteq> PTS_NONE \<Longrightarrow> kept_indices (kept_samples g pts n rate) =
     {samples_until pts n rate (sgm_start g) ..<
      (case sgm_stop g of None \<Rightarrow> n | Some stop \<Rightarrow> samples_until pts n rate stop)}"
  by (auto simp: kept_indices_def kept_samples_def Let_def split: option.split)

lemma cut_keeps_every_sample:
  assumes "pts \<noteq> PTS_NONE" "sgm_start g \<le> mark_ns" "case sgm_stop g of None \<Rightarrow> True | Some stop \<Rightarrow> mark_ns \<le> stop"
  shows "kept_indices (kept_samples (g\<lparr>sgm_stop := Some mark_ns\<rparr>) pts n rate) \<union>
           kept_indices (kept_samples (g\<lparr>sgm_start := mark_ns\<rparr>) pts n rate) = kept_indices (kept_samples g pts n rate) \<and>
         kept_indices (kept_samples (g\<lparr>sgm_stop := Some mark_ns\<rparr>) pts n rate) \<inter>
           kept_indices (kept_samples (g\<lparr>sgm_start := mark_ns\<rparr>) pts n rate) = {}"
proof -
  let ?u = "samples_until pts n rate"
  have m: "?u (sgm_start g) \<le> ?u mark_ns" using assms(2) by (rule samples_until_mono)
  have e: "?u mark_ns \<le> (case sgm_stop g of None \<Rightarrow> n | Some stop \<Rightarrow> ?u stop)"
    using assms(3) samples_until_mono [of "mark_ns" _ pts n rate] by (auto simp: samples_until_def split: option.splits)
  show ?thesis using m e by (auto simp: kept_indices_eq [OF assms(1)])
qed

section \<open>Running time\<close>

text \<open>What is used of rounding: it keeps order and zero.\<close>

definition rounds :: "(rat \<Rightarrow> rat) \<Rightarrow> bool" where
  "rounds rnd \<longleftrightarrow> mono rnd \<and> rnd 0 = 0"

lemma rounds_le: "rounds rnd \<Longrightarrow> x \<le> y \<Longrightarrow> rnd x \<le> rnd y"
  by (auto simp: rounds_def mono_def)

lemma rounds_nonneg: "rounds rnd \<Longrightarrow> 0 \<le> x \<Longrightarrow> 0 \<le> rnd x"
  using rounds_le [of rnd 0 x] by (simp add: rounds_def)

lemma uint_f64_as_u64: "uint (f64_as_u64 x) = (if x \<le> 0 then 0 else min (2 ^ 64 - 1) \<lfloor>x\<rfloor>)"
proof (cases "x \<le> 0")
  case False
  then have "0 \<le> \<lfloor>x\<rfloor>" by (simp add: less_imp_le)
  then have "uint (of_int (min (2 ^ 64 - 1) \<lfloor>x\<rfloor>) :: u64) = min (2 ^ 64 - 1) \<lfloor>x\<rfloor>"
    by (simp add: uint_word_of_int take_bit_int_eq_self_iff)
  then show ?thesis using False by (simp add: f64_as_u64_def)
qed (simp add: f64_as_u64_def)

lemma f64_as_u64_mono:
  assumes "x \<le> y"
  shows "f64_as_u64 x \<le> f64_as_u64 y"
proof -
  have "\<lfloor>x\<rfloor> \<le> \<lfloor>y\<rfloor>" using assms by (rule floor_mono)
  moreover have "0 < y \<Longrightarrow> 0 \<le> \<lfloor>y\<rfloor>" by simp
  ultimately show ?thesis using assms by (auto simp: word_le_def uint_f64_as_u64)
qed

lemma over_rate_mono:
  assumes "rounds rnd" "a \<le> b"
  shows "over_rate rnd a r \<le> over_rate rnd b r"
proof (cases "f64_value r")
  case (F_finite q)
  have "rnd (of_int (uint a)) \<le> rnd (of_int (uint b))"
    by (rule rounds_le [OF assms(1)]) (use assms(2) in \<open>simp only: word_le_def of_int_le_iff\<close>)
  then have "rnd (of_int (uint a)) / \<bar>q\<bar> \<le> rnd (of_int (uint b)) / \<bar>q\<bar>" by (rule divide_right_mono) simp
  then have "f64_as_u64 (rnd (rnd (of_int (uint a)) / \<bar>q\<bar>)) \<le> f64_as_u64 (rnd (rnd (of_int (uint b)) / \<bar>q\<bar>))"
    by (intro f64_as_u64_mono rounds_le [OF assms(1)])
  then show ?thesis unfolding over_rate_def F_finite f64_class.case .
qed (simp_all add: over_rate_def)

lemma over_rate_zero: "rounds rnd \<Longrightarrow> over_rate rnd 0 r = 0"
  by (simp add: over_rate_def rounds_def f64_as_u64_def split: f64_class.split)

lemma saturating_add_mono: "b \<le> c \<Longrightarrow> saturating_add a b \<le> saturating_add (a :: u64) c"
  unfolding word_le_nat_alt unat_saturating_add by (intro min.mono add_mono order_refl)

lemma saturating_add_ge: "a \<le> saturating_add (a :: u64) b"
  unfolding word_le_nat_alt unat_saturating_add using unat_lt2p [of a] by simp

lemma running_time_forward:
  "\<not> f64_negative (sgm_rate g) \<Longrightarrow> to_running_time rnd g ts =
     (if segment_contains g ts \<and> f64_value (sgm_rate g) \<noteq> F_finite 0
      then Some (saturating_add (sgm_base g) (over_rate rnd (ts - sgm_start g) (sgm_rate g))) else None)"
  by (auto simp: to_running_time_def checked_sub_def segment_contains_def)

lemma running_time_reverse:
  "f64_negative (sgm_rate g) \<Longrightarrow> to_running_time rnd g ts =
     (case sgm_stop g of
        Some stop \<Rightarrow> if segment_contains g ts
          then Some (saturating_add (sgm_base g) (over_rate rnd (stop - ts) (sgm_rate g))) else None
      | None \<Rightarrow> None)"
  by (auto simp: to_running_time_def checked_sub_def segment_contains_def f64_negative_def split: option.splits)

lemma running_time_from_base: "to_running_time rnd g ts = Some t \<Longrightarrow> sgm_base g \<le> t"
  by (cases "f64_negative (sgm_rate g)")
    (auto simp: running_time_forward running_time_reverse saturating_add_ge split: option.splits if_splits)

lemma running_time_direction:
  assumes "rounds rnd" "to_running_time rnd g ts = Some t" "to_running_time rnd g ts' = Some t'"
    and "if f64_negative (sgm_rate g) then ts' \<le> ts else ts \<le> ts'"
  shows "t \<le> t'"
proof (cases "f64_negative (sgm_rate g)")
  case True
  then obtain stop where s: "sgm_stop g = Some stop" "ts \<le> stop" "ts' \<le> stop"
    "t = saturating_add (sgm_base g) (over_rate rnd (stop - ts) (sgm_rate g))"
    "t' = saturating_add (sgm_base g) (over_rate rnd (stop - ts') (sgm_rate g))"
    using assms(2,3) by (auto simp: running_time_reverse segment_contains_def split: option.splits if_splits)
  have "stop - ts \<le> stop - ts'" using s(2,3) assms(4) True by (simp add: word_le_nat_alt unat_sub)
  then show ?thesis unfolding s(4,5) by (intro saturating_add_mono over_rate_mono [OF assms(1)])
next
  case False
  then have s: "sgm_start g \<le> ts" "sgm_start g \<le> ts'"
    "t = saturating_add (sgm_base g) (over_rate rnd (ts - sgm_start g) (sgm_rate g))"
    "t' = saturating_add (sgm_base g) (over_rate rnd (ts' - sgm_start g) (sgm_rate g))"
    using assms(2,3) by (auto simp: running_time_forward segment_contains_def split: if_splits)
  have "ts - sgm_start g \<le> ts' - sgm_start g" using s(1,2) assms(4) False by (simp add: word_le_nat_alt unat_sub)
  then show ?thesis unfolding s(3,4) by (intro saturating_add_mono over_rate_mono [OF assms(1)])
qed

lemma accumulate_base:
  "sgm_base (accumulate_seek rnd g k d) =
     (case to_running_time rnd g (sgm_position g) of Some t \<Rightarrow> t | None \<Rightarrow> sgm_base g)"
  by (simp add: accumulate_seek_def from_seek_def Let_def)

lemma accumulate_continues:
  "to_running_time rnd g (sgm_position g) = Some reached \<Longrightarrow>
   to_running_time rnd (accumulate_seek rnd g k d) ts = Some t \<Longrightarrow> reached \<le> t"
  using running_time_from_base [of rnd "accumulate_seek rnd g k d" ts t] by (simp add: accumulate_base)

section \<open>Exact rates\<close>

text \<open>Doubles hold every integer up to two to the fifty-third.\<close>

definition rounds_exactly :: "(rat \<Rightarrow> rat) \<Rightarrow> bool" where
  "rounds_exactly rnd \<longleftrightarrow> rounds rnd \<and> (\<forall>n. 0 \<le> n \<and> n \<le> 2 ^ 53 \<longrightarrow> rnd (of_int n) = of_int n)"

lemma f64_units: "f64_value ONE_F64 = F_finite 1" "f64_value MINUS_ONE_F64 = F_finite (- 1)"
  by (simp_all add: f64_value_def ONE_F64_def MINUS_ONE_F64_def Let_def)

lemma f64_negative_units [simp]: "\<not> f64_negative ONE_F64" "f64_negative MINUS_ONE_F64"
  by (simp_all add: f64_negative_def f64_units)

lemma f64_as_u64_of_int: "0 \<le> n \<Longrightarrow> n < 2 ^ 64 \<Longrightarrow> uint (f64_as_u64 (of_int n)) = n"
  by (auto simp: uint_f64_as_u64)

lemma f64_as_u64_uint: "f64_as_u64 (of_int (uint x)) = x"
  by (rule word_uint_eq_iff [THEN iffD2], rule f64_as_u64_of_int) (use uint_lt2p [of x] in simp_all)

lemma over_rate_unit:
  assumes "rounds_exactly rnd" "gap \<le> 2 ^ 53" "f64_value r = F_finite 1 \<or> f64_value r = F_finite (- 1)"
  shows "over_rate rnd gap r = gap"
proof -
  have "0 \<le> uint gap" "uint gap \<le> 2 ^ 53" using assms(2) by (simp_all add: word_le_def)
  then have "rnd (of_int (uint gap)) = of_int (uint gap)" using assms(1) unfolding rounds_exactly_def by blast
  then have "over_rate rnd gap r = f64_as_u64 (of_int (uint gap))"
    unfolding over_rate_def using assms(3) by auto
  then show ?thesis using f64_as_u64_uint by simp
qed

lemma by_applied_rate_unit:
  assumes "rounds_exactly rnd" "gap \<le> 2 ^ 53"
  shows "by_applied_rate rnd gap ONE_F64 = uint gap"
proof -
  have "0 \<le> uint gap" "uint gap \<le> 2 ^ 53" using assms(2) by (simp_all add: word_le_def)
  moreover from this have "rnd (of_int (uint gap)) = of_int (uint gap)" using assms(1) unfolding rounds_exactly_def by blast
  ultimately show ?thesis unfolding by_applied_rate_def f64_units f64_class.case by (simp del: of_int_uint)
qed

lemma stream_time_of_seek:
  assumes "rounds_exactly rnd" "segment_contains g ts" "sgm_applied_rate g = ONE_F64"
    and "sgm_time g = of_int (stream_time_ns (sgm_start g))" "ts < 2 ^ 63" "ts - sgm_start g \<le> 2 ^ 53"
  shows "to_stream_time rnd g ts = Some ts"
proof -
  have le: "sgm_start g \<le> ts" using assms(2) by (simp add: segment_contains_def)
  then have u: "uint (sgm_start g) + uint (ts - sgm_start g) = uint ts" by (simp add: uint_sub_if' word_le_def)
  have b: "uint ts < 2 ^ 63" using assms(5) by (simp add: word_less_def)
  then have s: "uint (sgm_start g) < 2 ^ 63" using le by (simp add: word_le_def)
  then have "sint (sgm_time g) = uint (sgm_start g)"
    unfolding assms(4) stream_time_ns_def
    by (simp add: sint_uint signed_take_bit_int_eq_self_iff order_trans [OF _ uint_ge_0])
  then have t: "sint (sgm_time g) + by_applied_rate rnd (ts - sgm_start g) (sgm_applied_rate g) = uint ts"
    using by_applied_rate_unit [OF assms(1,6)] u by (simp add: assms(3))
  have "clamp_i64 (uint ts) = uint ts" using b order_trans [OF _ uint_ge_0, of "- (2 ^ 63)" ts] by (simp add: clamp_i64_def)
  then show ?thesis
    using assms(2) le by (simp add: to_stream_time_def checked_sub_def t Let_def)
qed

lemma flush_to_segment:
  "for_flush_seek (flush_to p) d =
     \<lparr>sgm_rate = ONE_F64, sgm_applied_rate = ONE_F64, sgm_base = 0, sgm_start = p, sgm_stop = None,
      sgm_time = of_int (stream_time_ns p), sgm_position = p, sgm_key_units_only = False\<rparr>"
  by (simp add: for_flush_seek_def flush_to_def from_seek_def Let_def flags_contains_def SEEK_FLUSH_def SEEK_TRICKMODE_def)

lemma reverse_segment:
  "for_flush_seek (seek_reverse a b) d =
     \<lparr>sgm_rate = MINUS_ONE_F64, sgm_applied_rate = ONE_F64, sgm_base = 0, sgm_start = a, sgm_stop = Some b,
      sgm_time = of_int (stream_time_ns a), sgm_position = a, sgm_key_units_only = False\<rparr>"
  by (simp add: for_flush_seek_def seek_reverse_def from_seek_def Let_def flags_contains_def SEEK_FLUSH_def SEEK_TRICKMODE_def)

lemma saturating_add_zero: "saturating_add 0 (x :: u64) = x"
  by (simp add: word_unat_eq_iff unat_saturating_add) (use unat_lt2p [of x] in simp)

lemma rounds_exactly_id: "rounds_exactly (\<lambda>x. x)"
  by (simp add: rounds_exactly_def rounds_def mono_def)

section \<open>The timelines of a seek\<close>

text \<open>
  A flushing seek restarts running time at its target: a frame of the new segment is due as long after the target as
  its timestamp lies past it, and reverse playback counts down from the stop. Stream time stays the position in the media.
  Times are nanoseconds; the distance to the edge is within the integers a double holds exactly, a hundred days.
\<close>

theorem seek_timelines:
  assumes "rounds_exactly rnd" "lo \<le> ts" "ts \<le> hi" "ts < 2 ^ 63" "ts - lo \<le> 2 ^ 53" "hi - ts \<le> 2 ^ 53"
  shows "to_running_time rnd (for_flush_seek (flush_to lo) d) ts = Some (ts - lo) \<and>
    to_running_time rnd (for_flush_seek (seek_reverse lo hi) d) ts = Some (hi - ts) \<and>
    to_stream_time rnd (for_flush_seek (flush_to lo) d) ts = Some ts \<and>
    to_stream_time rnd (for_flush_seek (seek_reverse lo hi) d) ts = Some ts"
proof -
  have "over_rate rnd (ts - lo) ONE_F64 = ts - lo" "over_rate rnd (hi - ts) MINUS_ONE_F64 = hi - ts"
    using over_rate_unit [OF assms(1,5), of ONE_F64] over_rate_unit [OF assms(1,6), of MINUS_ONE_F64] by (simp_all add: f64_units)
  then have "to_running_time rnd (for_flush_seek (flush_to lo) d) ts = Some (ts - lo)"
    "to_running_time rnd (for_flush_seek (seek_reverse lo hi) d) ts = Some (hi - ts)"
    by (simp_all add: flush_to_segment reverse_segment running_time_forward running_time_reverse segment_contains_def
        assms(2,3) f64_units saturating_add_zero)
  moreover have "to_stream_time rnd (for_flush_seek (flush_to lo) d) ts = Some ts"
    "to_stream_time rnd (for_flush_seek (seek_reverse lo hi) d) ts = Some ts"
    using stream_time_of_seek [OF assms(1) _ _ _ assms(4), of "for_flush_seek (flush_to lo) d"]
      stream_time_of_seek [OF assms(1) _ _ _ assms(4), of "for_flush_seek (seek_reverse lo hi) d"] assms(2,3,5)
    by (simp_all add: flush_to_segment reverse_segment segment_contains_def)
  ultimately show ?thesis by blast
qed

theorem seek_timelines_witness:
  "to_running_time (\<lambda>x. x) (for_flush_seek (seek_reverse 1000000000 3000000000) None) 2500000000 = Some 500000000"
  using seek_timelines [OF rounds_exactly_id, of 1000000000 2500000000 3000000000 None] by simp

text \<open>
  C25. Running time never goes down: within a segment it follows the direction of playback, and after a seek that does not
  flush no frame of the new segment is due before the moment the old one had reached, whatever the new rate and edges.
\<close>

theorem running_time_keeps_order:
  assumes "rounds rnd" "to_running_time rnd g ts = Some t" "to_running_time rnd g (sgm_position g) = Some reached"
    and "if f64_negative (sgm_rate g) then sgm_position g \<le> ts else ts \<le> sgm_position g"
    and "to_running_time rnd (accumulate_seek rnd g k d) ts' = Some t'"
  shows "t \<le> reached \<and> reached \<le> t'"
  using running_time_direction [OF assms(1,2,3,4)] accumulate_continues [OF assms(3,5)] by simp

theorem running_time_keeps_order_witness:
  "to_running_time (\<lambda>x. x) (accumulate_seek (\<lambda>x. x) ((for_flush_seek (seek_reverse 1000 3000) None)\<lparr>sgm_position := 1200\<rparr>)
     (flush_to 50) None) 60 = Some 1810 \<and> (1000 :: u64) \<le> 1800 \<and> (1800 :: u64) \<le> 1810"
proof -
  let ?g = "(for_flush_seek (seek_reverse 1000 3000) None)\<lparr>sgm_position := 1200\<rparr>"
  have u: "over_rate (\<lambda>x. x) (c :: u64) ONE_F64 = c" "over_rate (\<lambda>x. x) (c :: u64) MINUS_ONE_F64 = c" if "c \<le> 2 ^ 53" for c
    by (rule over_rate_unit [OF rounds_exactly_id that]; simp add: f64_units)+
  have a: "to_running_time (\<lambda>x. x) ?g 2000 = Some 1000" "to_running_time (\<lambda>x. x) ?g (sgm_position ?g) = Some 1800"
    by (simp_all add: reverse_segment running_time_reverse segment_contains_def u saturating_add_zero)
  have b: "to_running_time (\<lambda>x. x) (accumulate_seek (\<lambda>x. x) ?g (flush_to 50) None) 60 = Some 1810"
    using a(2) by (simp add: accumulate_seek_def from_seek_def flush_to_def reverse_segment Let_def running_time_forward
        segment_contains_def f64_units u saturating_add_def checked_add_def)
  show ?thesis
    using running_time_keeps_order [OF _ a _ b] b rounds_exactly_id by (simp add: rounds_exactly_def reverse_segment)
qed

text \<open>
  Clipping a buffer to a segment is intersection: the timestamps of the clipped span are those of the buffer that lie
  in the segment, ends excluded, and nothing is returned exactly when there are none to present.
\<close>

theorem clip_is_intersection:
  "(case segment_clip g b_start b_stop of None \<Rightarrow> {} | Some (s, e) \<Rightarrow> span_set s e) =
     span_set b_start b_stop \<inter> span_set (sgm_start g) (sgm_stop g)"
  by (rule clip_denotes)

text \<open>
  Cutting a segment in two at any moment loses and repeats no sample: the samples of a frame kept before the cut and
  those kept after it are together the samples kept without the cut, and none is kept on both sides.
\<close>

theorem cut_partitions_samples:
  assumes "pts \<noteq> PTS_NONE" "sgm_start g \<le> moment" "case sgm_stop g of None \<Rightarrow> True | Some stop \<Rightarrow> moment \<le> stop"
  shows "kept_indices (kept_samples (g\<lparr>sgm_stop := Some moment\<rparr>) pts n rate) \<union>
           kept_indices (kept_samples (g\<lparr>sgm_start := moment\<rparr>) pts n rate) = kept_indices (kept_samples g pts n rate) \<and>
         kept_indices (kept_samples (g\<lparr>sgm_stop := Some moment\<rparr>) pts n rate) \<inter>
           kept_indices (kept_samples (g\<lparr>sgm_start := moment\<rparr>) pts n rate) = {}"
  by (rule cut_keeps_every_sample [OF assms])

theorem cut_partitions_samples_witness:
  "kept_indices (kept_samples (segment_new\<lparr>sgm_stop := Some 10000000\<rparr>) 0 1024 48000) \<inter>
     kept_indices (kept_samples (segment_new\<lparr>sgm_start := 10000000\<rparr>) 0 1024 48000) = {}"
  using cut_partitions_samples [of 0 segment_new 10000000 1024 48000] by (simp add: segment_new_def PTS_NONE_def)

end
