(* ===== verification/Property.thy ===== *)
theory Property
  imports RustStr Meta
begin

text \<open>
  Runtime element properties (\<^verbatim>\<open>property.rs\<close>): values with their kinds, their text as it stands in a pipeline
  description, and the specifications a text is checked against. Signed integers are words read with \<open>sint\<close>. The text of
  a double is that of the standard library: its printer and parser are arguments.
\<close>

section \<open>Kinds and values\<close>

datatype prop_kind = K_bool | K_int | K_uint | K_double | K_fraction | K_str | K_flags

fun kind_label :: "prop_kind \<Rightarrow> string" where
  "kind_label K_bool = ''Boolean''"
| "kind_label K_int = ''Integer''"
| "kind_label K_uint = ''Unsigned Integer''"
| "kind_label K_double = ''Double''"
| "kind_label K_fraction = ''Fraction''"
| "kind_label K_str = ''String''"
| "kind_label K_flags = ''Flags''"

datatype prop_value =
    P_bool bool | P_int "64 word" | P_uint u64 | P_double f64 | P_fraction "32 word" "32 word" | P_str string
  | P_flags "string list"

datatype prop_error = Prop_unknown | Prop_type | Prop_value | Prop_read_only

fun prop_kind_of :: "prop_value \<Rightarrow> prop_kind" where
  "prop_kind_of (P_bool _) = K_bool"
| "prop_kind_of (P_int _) = K_int"
| "prop_kind_of (P_uint _) = K_uint"
| "prop_kind_of (P_double _) = K_double"
| "prop_kind_of (P_fraction _ _) = K_fraction"
| "prop_kind_of (P_str _) = K_str"
| "prop_kind_of (P_flags _) = K_flags"

fun as_bool :: "prop_value \<Rightarrow> bool option" where
  "as_bool (P_bool b) = Some b" | "as_bool _ = None"

fun as_int :: "prop_value \<Rightarrow> 64 word option" where
  "as_int (P_int v) = Some v" | "as_int _ = None"

fun as_uint :: "prop_value \<Rightarrow> u64 option" where
  "as_uint (P_uint v) = Some v" | "as_uint _ = None"

fun as_double :: "prop_value \<Rightarrow> f64 option" where
  "as_double (P_double v) = Some v" | "as_double _ = None"

fun as_fraction :: "prop_value \<Rightarrow> (32 word \<times> 32 word) option" where
  "as_fraction (P_fraction n d) = Some (n, d)" | "as_fraction _ = None"

fun as_str :: "prop_value \<Rightarrow> string option" where
  "as_str (P_str s) = Some s" | "as_str _ = None"

fun as_flags :: "prop_value \<Rightarrow> string list option" where
  "as_flags (P_flags ns) = Some ns" | "as_flags _ = None"

definition has_flag :: "string \<Rightarrow> prop_value \<Rightarrow> bool" where
  "has_flag nick v = (case as_flags v of Some ns \<Rightarrow> nick \<in> set ns | None \<Rightarrow> False)"

section \<open>Texts\<close>

text \<open>\<^verbatim>\<open>str::parse::<iN>()\<close>: an optional sign, at least one digit, and the value in range.\<close>

definition parse_signed :: "nat \<Rightarrow> string \<Rightarrow> int option" where
  "parse_signed bound s =
     (case s of
        c # cs \<Rightarrow>
          if c = CHR ''-''
          then (if cs = [] then None
                else case parse_digits 0 cs of None \<Rightarrow> None | Some v \<Rightarrow> if v \<le> bound then Some (- int v) else None)
          else map_option int (parse_unsigned bound s)
      | [] \<Rightarrow> None)"

definition show_int :: "int \<Rightarrow> string" where
  "show_int n = (if n < 0 then CHR ''-'' # show_nat (nat (- n)) else show_nat (nat n))"

text \<open>\<^verbatim>\<open>split_once\<close>: the text before and after the first separator.\<close>

fun split_once :: "char \<Rightarrow> string \<Rightarrow> (string \<times> string) option" where
  "split_once sep [] = None"
| "split_once sep (c # cs) =
     (if c = sep then Some ([], cs) else map_option (\<lambda>(a, b). (c # a, b)) (split_once sep cs))"

definition parse_i32 :: "string \<Rightarrow> prop_error + 32 word" where
  "parse_i32 s = (case parse_signed (2 ^ 31) s of Some n \<Rightarrow> Inr (of_int n) | None \<Rightarrow> Inl Prop_value)"

definition prop_parse :: "(string \<Rightarrow> f64 option) \<Rightarrow> prop_kind \<Rightarrow> string \<Rightarrow> prop_error + prop_value" where
  "prop_parse parse_f64 kind txt =
     (let t = trim txt in
      case kind of
        K_bool \<Rightarrow>
          (let l = map ascii_lower t
           in if l \<in> {''true'', ''1'', ''yes''} then Inr (P_bool True)
              else if l \<in> {''false'', ''0'', ''no''} then Inr (P_bool False)
              else Inl Prop_value)
      | K_int \<Rightarrow> (case parse_signed (2 ^ 63) t of Some n \<Rightarrow> Inr (P_int (of_int n)) | None \<Rightarrow> Inl Prop_value)
      | K_uint \<Rightarrow> (case parse_unsigned (2 ^ 64) t of Some n \<Rightarrow> Inr (P_uint (of_nat n)) | None \<Rightarrow> Inl Prop_value)
      | K_double \<Rightarrow> (case parse_f64 t of Some x \<Rightarrow> Inr (P_double x) | None \<Rightarrow> Inl Prop_value)
      | K_fraction \<Rightarrow>
          (case split_once (CHR ''/'') t of
             Some (n, d) \<Rightarrow>
               bind_res (parse_i32 (trim n)) (\<lambda>n. bind_res (parse_i32 (trim d)) (\<lambda>d.
                 if d = 0 then Inl Prop_value else Inr (P_fraction n d)))
           | None \<Rightarrow> bind_res (parse_i32 t) (\<lambda>n. Inr (P_fraction n 1)))
      | K_str \<Rightarrow> Inr (P_str t)
      | K_flags \<Rightarrow>
          (let nicks = map trim (split_on (CHR ''+'') t)
           in if [] \<in> set nicks then Inl Prop_value else Inr (P_flags nicks)))"

fun join_with :: "char \<Rightarrow> string list \<Rightarrow> string" where
  "join_with sep [] = []"
| "join_with sep [s] = s"
| "join_with sep (s # ss) = s @ sep # join_with sep ss"

fun prop_show :: "(f64 \<Rightarrow> string) \<Rightarrow> prop_value \<Rightarrow> string" where
  "prop_show show_f64 (P_bool b) = (if b then ''true'' else ''false'')"
| "prop_show show_f64 (P_int v) = show_int (sint v)"
| "prop_show show_f64 (P_uint v) = show_nat (unat v)"
| "prop_show show_f64 (P_double x) = show_f64 x"
| "prop_show show_f64 (P_fraction n d) = show_int (sint n) @ CHR ''/'' # show_int (sint d)"
| "prop_show show_f64 (P_str s) = s"
| "prop_show show_f64 (P_flags nicks) = join_with (CHR ''+'') nicks"

section \<open>Specifications\<close>

record property_spec =
  ps_name :: string
  ps_kind :: prop_kind
  ps_blurb :: string
  ps_default :: "string option"
  ps_range :: "(string \<times> string) option"
  ps_enum_values :: "string option"
  ps_readable :: bool
  ps_writable :: bool

definition spec_new :: "string \<Rightarrow> prop_kind \<Rightarrow> string \<Rightarrow> property_spec" where
  "spec_new name kind blurb = \<lparr>ps_name = name, ps_kind = kind, ps_blurb = blurb, ps_default = None, ps_range = None,
     ps_enum_values = None, ps_readable = True, ps_writable = True\<rparr>"

definition UNDECLARED_PROPERTIES :: string where "UNDECLARED_PROPERTIES = ''*''"

definition spec_undeclared :: "string \<Rightarrow> property_spec" where
  "spec_undeclared blurb = spec_new UNDECLARED_PROPERTIES K_str blurb"

definition takes_undeclared_properties :: "property_spec list \<Rightarrow> bool" where
  "takes_undeclared_properties specs \<longleftrightarrow> (\<exists>s \<in> set specs. ps_name s = UNDECLARED_PROPERTIES)"

definition with_default :: "string \<Rightarrow> property_spec \<Rightarrow> property_spec" where
  "with_default d s = s\<lparr>ps_default := Some d\<rparr>"

definition with_range :: "string \<Rightarrow> string \<Rightarrow> property_spec \<Rightarrow> property_spec" where
  "with_range lo hi s = s\<lparr>ps_range := Some (lo, hi)\<rparr>"

definition with_enum_values :: "string \<Rightarrow> property_spec \<Rightarrow> property_spec" where
  "with_enum_values vs s = s\<lparr>ps_enum_values := Some vs\<rparr>"

definition read_only :: "property_spec \<Rightarrow> property_spec" where
  "read_only s = s\<lparr>ps_readable := True, ps_writable := False\<rparr>"

definition first_word :: "string \<Rightarrow> string" where
  "first_word s = takeWhile (\<lambda>c. \<not> is_space c) (dropWhile is_space s)"

definition enum_nicks :: "property_spec \<Rightarrow> string list" where
  "enum_nicks s =
     filter (\<lambda>w. w \<noteq> [])
       (map first_word (split_on (CHR ''|'') (case ps_enum_values s of Some vs \<Rightarrow> vs | None \<Rightarrow> [])))"

datatype value_error = Error_kind prop_error | Error_nick string

definition parse_value :: "(string \<Rightarrow> f64 option) \<Rightarrow> property_spec \<Rightarrow> string \<Rightarrow> value_error + prop_value" where
  "parse_value parse_f64 s txt =
     (case prop_parse parse_f64 (ps_kind s) txt of
        Inl e \<Rightarrow> Inl (if ps_kind s = K_flags then Error_nick (trim txt) else Error_kind e)
      | Inr v \<Rightarrow>
          if ps_enum_values s = None then Inr v
          else case (case v of P_str t \<Rightarrow> Some [t] | P_flags ns \<Rightarrow> Some ns | _ \<Rightarrow> None) of
                 None \<Rightarrow> Inr v
               | Some nicks \<Rightarrow>
                   (case find (\<lambda>n. n \<notin> set (enum_nicks s)) nicks of
                      Some n \<Rightarrow> Inl (Error_nick n)
                    | None \<Rightarrow> Inr v))"

section \<open>Element metadata and the inspection text\<close>

record element_metadata =
  em_long_name :: string
  em_klass :: string
  em_description :: string
  em_author :: string

definition metadata_is_set :: "element_metadata \<Rightarrow> bool" where
  "metadata_is_set m \<longleftrightarrow> \<not> (em_long_name m = [] \<and> em_klass m = [] \<and> em_description m = [] \<and> em_author m = [])"

definition is_sink_class :: "element_metadata \<Rightarrow> bool" where
  "is_sink_class m \<longleftrightarrow> ''Sink'' \<in> set (split_on (CHR ''/'') (em_klass m))"

definition nl :: string where "nl = [CHR 0x0A]"

definition format_spec :: "property_spec \<Rightarrow> string" where
  "format_spec s =
     ''  '' @ ps_name s @ '': '' @ ps_blurb s @ nl @
     ''    flags: '' @
       (if ps_readable s then (if ps_writable s then ''readable, writable'' else ''readable'')
        else (if ps_writable s then ''writable'' else [])) @ nl @
     ''    '' @ kind_label (ps_kind s) @
     (case ps_range s of Some (lo, hi) \<Rightarrow> ''. Range: '' @ lo @ '' - '' @ hi | None \<Rightarrow> []) @
     (case ps_enum_values s of Some vs \<Rightarrow> ''. Values: '' @ vs | None \<Rightarrow> []) @
     (case ps_default s of Some d \<Rightarrow> ''. Default: '' @ d | None \<Rightarrow> []) @ nl"

definition format_specs :: "property_spec list \<Rightarrow> string" where
  "format_specs specs = concat (map format_spec specs)"

definition format_metadata :: "string \<Rightarrow> element_metadata \<Rightarrow> string" where
  "format_metadata name m =
     (let field = (\<lambda>label v. if v = [] then [] else label @ v @ nl)
      in ''Factory Details:'' @ nl @ ''  Name        '' @ name @ nl @ field ''  Long-name   '' (em_long_name m) @
         field ''  Klass       '' (em_klass m) @ field ''  Description '' (em_description m) @
         field ''  Author      '' (em_author m))"

definition spec_names :: "property_spec list \<Rightarrow> string list" where
  "spec_names specs = map ps_name specs"

section \<open>Texts read back\<close>

definition f64_is_nan :: "f64 \<Rightarrow> bool" where
  "f64_is_nan b \<longleftrightarrow> 0x7FF0000000000000 < uint b mod 2 ^ 63"

text \<open>The values that survive a trip through their text.\<close>

fun prop_printable :: "prop_value \<Rightarrow> bool" where
  "prop_printable (P_fraction n d) \<longleftrightarrow> d \<noteq> 0"
| "prop_printable (P_str s) \<longleftrightarrow> trim s = s"
| "prop_printable (P_flags ns) \<longleftrightarrow> ns \<noteq> [] \<and> (\<forall>n \<in> set ns. n \<noteq> [] \<and> trim n = n \<and> CHR ''+'' \<notin> set n)"
| "prop_printable _ \<longleftrightarrow> True"

lemma trim_iff: "trim s = s \<longleftrightarrow> s = [] \<or> \<not> is_space (hd s) \<and> \<not> is_space (last s)"
proof -
  have d: "dropWhile P xs = xs \<longleftrightarrow> xs = [] \<or> \<not> P (hd xs)" for P and xs :: "'b list"
    by (cases xs) (auto, metis Suc_n_not_le_n length_Cons length_dropWhile_le)
  have l: "length (dropWhile P xs) \<le> length xs" for P and xs :: "'b list" by (rule length_dropWhile_le)
  show ?thesis
  proof
    assume t: "trim s = s"
    let ?u = "dropWhile is_space s"
    have "length s \<le> length ?u" using t l [of is_space "rev ?u"] by (metis length_rev trim_def)
    moreover have "s = takeWhile is_space s @ ?u" by simp
    ultimately have u: "?u = s" by (metis append_Nil append_eq_append_conv l le_antisym)
    then have "dropWhile is_space (rev s) = rev s" using t unfolding trim_def u by (metis rev_rev_ident)
    then show "s = [] \<or> \<not> is_space (hd s) \<and> \<not> is_space (last s)" using u d [of is_space s] d [of is_space "rev s"] by (auto simp: hd_rev)
  next
    assume "s = [] \<or> \<not> is_space (hd s) \<and> \<not> is_space (last s)"
    then have "dropWhile is_space s = s" "dropWhile is_space (rev s) = rev s"
      using d [of is_space s] d [of is_space "rev s"] by (auto simp: hd_rev)
    then show "trim s = s" by (simp add: trim_def)
  qed
qed

lemma trim_idem [simp]: "trim (trim s) = trim s"
proof -
  let ?u = "dropWhile is_space s"
  have h: "?u = [] \<or> \<not> is_space (hd ?u)" using hd_dropWhile [of is_space s] by blast
  let ?v = "rev (dropWhile is_space (rev ?u))"
  have l: "?v = [] \<or> \<not> is_space (last ?v)" using hd_dropWhile [of is_space "rev ?u"] unfolding last_rev rev_is_Nil_conv by blast
  have e: "?u = ?v @ rev (takeWhile is_space (rev ?u))" by (metis rev_append rev_rev_ident takeWhile_dropWhile_id)
  have "?v \<noteq> [] \<Longrightarrow> hd ?v = hd ?u \<and> ?u \<noteq> []" using arg_cong [OF e, of hd] e by (metis append_is_Nil_conv hd_append)
  then have "?v = [] \<or> \<not> is_space (hd ?v) \<and> \<not> is_space (last ?v)" using h l by argo
  then show ?thesis unfolding trim_iff by (simp add: trim_def)
qed

lemma split_on_pieces: "p \<in> set (split_on sep s) \<Longrightarrow> sep \<notin> set p"
  by (induction s arbitrary: p) (auto split: list.splits if_splits)

lemma split_on_join: "ns \<noteq> [] \<Longrightarrow> \<forall>n \<in> set ns. sep \<notin> set n \<Longrightarrow> split_on sep (join_with sep ns) = ns"
  by (induction sep ns rule: join_with.induct) (auto simp: split_on_no_sep split_on_append)

lemma set_trim: "set (trim s) \<subseteq> set s"
  unfolding trim_def set_rev using set_dropWhileD [of _ is_space] by (metis set_rev subsetI)

lemma join_ends:
  "ns \<noteq> [] \<Longrightarrow> \<forall>n \<in> set ns. n \<noteq> [] \<Longrightarrow>
     join_with sep ns \<noteq> [] \<and> hd (join_with sep ns) = hd (hd ns) \<and> last (join_with sep ns) = last (last ns)"
  by (induction sep ns rule: join_with.induct) simp_all

lemma trim_join:
  assumes "ns \<noteq> []" "\<forall>n \<in> set ns. n \<noteq> [] \<and> trim n = n"
  shows "trim (join_with sep ns) = join_with sep ns"
proof -
  have "trim (hd ns) = hd ns" "trim (last ns) = last ns" "hd ns \<noteq> []" "last ns \<noteq> []" using assms by simp_all
  then have "\<not> is_space (hd (hd ns))" "\<not> is_space (last (last ns))" by (simp_all add: trim_iff)
  moreover have "join_with sep ns \<noteq> [] \<and> hd (join_with sep ns) = hd (hd ns) \<and> last (join_with sep ns) = last (last ns)"
    using assms by (intro join_ends) blast+
  ultimately show ?thesis by (simp add: trim_iff)
qed

lemma is_space_sign: "\<not> is_space (CHR ''-'')" "\<not> is_space (CHR ''/'')"
  by (simp_all add: is_space_def Let_def)

lemma show_int_chars: "c \<in> set (show_int n) \<Longrightarrow> c = CHR ''-'' \<or> (\<exists>m. c \<in> set (show_nat m))"
  by (auto simp: show_int_def split: if_splits)

lemma show_int_no_space: "c \<in> set (show_int n) \<Longrightarrow> \<not> is_space c"
  using show_int_chars [of c n] show_nat_no_space is_space_sign by blast

lemma show_int_no_slash: "CHR ''/'' \<notin> set (show_int n)"
  using show_int_chars [of "CHR ''/''" n] show_nat_no_char [of "CHR ''/''"] by auto

lemma parse_signed_show_int:
  assumes "- int bound \<le> n" "n < int bound"
  shows "parse_signed bound (show_int n) = Some n"
proof (cases "n < 0")
  case True
  then show ?thesis using assms by (simp add: show_int_def parse_signed_def)
next
  case False
  obtain c cs where s: "show_nat (nat n) = c # cs" by (cases "show_nat (nat n)") auto
  have "c \<noteq> CHR ''-''" using show_nat_no_char [of "CHR ''-''" "nat n"] s by auto
  moreover have "parse_unsigned bound (show_nat (nat n)) = Some (nat n)"
    using False assms(2) by (intro parse_unsigned_show_nat) linarith
  ultimately show ?thesis using False s by (simp add: show_int_def parse_signed_def)
qed

lemma split_once_append: "sep \<notin> set a \<Longrightarrow> split_once sep (a @ sep # b) = Some (a, b)"
  by (induction a) auto

lemma parse_i32_show: "parse_i32 (show_int (sint n)) = Inr (n :: 32 word)"
proof -
  have "- (2 ^ 31) \<le> sint n" "sint n < 2 ^ 31" using sint_ge [of n] sint_lt [of n] by simp_all
  then show ?thesis by (simp add: parse_i32_def parse_signed_show_int)
qed

lemma trim_show_int: "trim (show_int n) = show_int n"
  using show_int_no_space by (blast intro: trim_no_space)

lemma trim_fraction: "trim (show_int n @ CHR ''/'' # show_int d) = show_int n @ CHR ''/'' # show_int d"
  by (rule trim_no_space) (use show_int_no_space is_space_sign in auto)

text \<open>What is used of the text of doubles.\<close>

definition f64_text :: "(string \<Rightarrow> f64 option) \<Rightarrow> (f64 \<Rightarrow> string) \<Rightarrow> bool" where
  "f64_text parse_f64 show_f64 \<longleftrightarrow> (\<forall>x. \<not> f64_is_nan x \<longrightarrow> parse_f64 (trim (show_f64 x)) = Some x)"

lemma show_read_back:
  assumes "f64_text parse_f64 show_f64" "\<And>x. v = P_double x \<Longrightarrow> \<not> f64_is_nan x" "prop_printable v"
  shows "prop_parse parse_f64 (prop_kind_of v) (prop_show show_f64 v) = Inr v"
proof (cases v)
  case (P_bool b)
  have "trim ''true'' = ''true''" "trim ''false'' = ''false''" by (simp_all add: trim_iff is_space_def)
  then show ?thesis using P_bool by (simp add: prop_parse_def ascii_lower_def)
next
  case (P_int n)
  have "- (2 ^ 63) \<le> sint n" "sint n < 2 ^ 63" using sint_ge [of n] sint_lt [of n] by simp_all
  then show ?thesis using P_int by (simp add: prop_parse_def trim_show_int parse_signed_show_int)
next
  case (P_uint n)
  have "trim (show_nat (unat n)) = show_nat (unat n)" using show_nat_no_space by (blast intro: trim_no_space)
  moreover have "unat n < 2 ^ 64" using unat_lt2p [of n] by simp
  ultimately show ?thesis using P_uint by (simp add: prop_parse_def)
next
  case (P_double x)
  then show ?thesis using assms by (simp add: prop_parse_def f64_text_def)
next
  case (P_fraction n d)
  then show ?thesis
    using assms(3) by (simp add: prop_parse_def trim_fraction split_once_append show_int_no_slash trim_show_int parse_i32_show)
next
  case (P_str s)
  then show ?thesis using assms(3) by (simp add: prop_parse_def)
next
  case (P_flags ns)
  have n: "ns \<noteq> []" "\<forall>n \<in> set ns. n \<noteq> [] \<and> trim n = n" "\<forall>n \<in> set ns. CHR ''+'' \<notin> set n"
    using assms(3) P_flags by auto
  have "map trim ns = ns" using n(2) by (simp add: map_idI)
  then show ?thesis
    using P_flags n by (auto simp: prop_parse_def trim_join split_on_join)
qed

lemma parsed_kind: "prop_parse pf kind txt = Inr v \<Longrightarrow> prop_kind_of v = kind"
  by (cases kind) (auto simp: prop_parse_def Let_def bind_res_eq_Inr split: option.splits if_splits)

lemma parsed_printable: "prop_parse pf kind txt = Inr v \<Longrightarrow> prop_printable v"
proof (cases kind)
  case K_flags
  assume "prop_parse pf kind txt = Inr v"
  then have v: "v = P_flags (map trim (split_on (CHR ''+'') (trim txt)))" "[] \<notin> set (map trim (split_on (CHR ''+'') (trim txt)))"
    unfolding K_flags prop_parse_def Let_def by (simp_all split: if_splits)
  have "CHR ''+'' \<notin> set (trim p)" if "p \<in> set (split_on (CHR ''+'') (trim txt))" for p
    using split_on_pieces [OF that] set_trim [of p] by blast
  moreover have "trim p \<noteq> []" if "p \<in> set (split_on (CHR ''+'') (trim txt))" for p using v(2) that by force
  ultimately show ?thesis using v(1) by auto
qed (auto simp: prop_parse_def Let_def bind_res_eq_Inr split: option.splits if_splits prod.splits)

section \<open>Contracts\<close>

text \<open>
  The text of a property value reads back as that value exactly when it is one a text can carry: a fraction with a
  nonzero denominator, a string without outer space, a non-empty set of trimmed non-empty flags free of the plus sign. What
  a parser accepts is always such a value, so printing and reading it again changes nothing.
\<close>

theorem property_text_roundtrip:
  assumes "f64_text parse_f64 show_f64" "v \<notin> P_double ` Collect f64_is_nan"
  shows "(prop_parse parse_f64 (prop_kind_of v) (prop_show show_f64 v) = Inr v \<longleftrightarrow> prop_printable v) \<and>
    (prop_parse parse_f64 kind txt = Inr v \<longrightarrow> prop_parse parse_f64 kind (prop_show show_f64 v) = Inr v)"
proof -
  have n: "\<not> f64_is_nan x" if "v = P_double x" for x using assms(2) that by blast
  show ?thesis
    using show_read_back [OF assms(1) n] parsed_printable [where v = v and pf = parse_f64]
      parsed_kind [where v = v and pf = parse_f64] by blast
qed

theorem property_text_roundtrip_witness:
  "prop_parse (\<lambda>_. Some 0) K_flags (prop_show (\<lambda>_. ''0'') (P_flags [''video'', ''audio''])) = Inr (P_flags [''video'', ''audio'']) \<and>
   prop_parse (\<lambda>s. Some (if s = ''x'' then 1 else 0)) K_str (prop_show (\<lambda>_. ''0'') (P_str '' x'')) \<noteq> Inr (P_str '' x'')"
proof -
  define dec where "dec = (\<lambda>s. Some (of_nat (the (parse_digits 0 s))) :: f64 option)"
  have "f64_text dec (\<lambda>x. show_nat (unat x))"
    using show_nat_no_space by (simp add: f64_text_def dec_def trim_no_space)
  from property_text_roundtrip [OF this, of "P_flags [''video'', ''audio'']"] property_text_roundtrip [OF this, of "P_str '' x''"]
  show ?thesis by (auto simp: prop_parse_def trim_iff is_space_def)
qed

lemma find_None: "find P xs = None \<longleftrightarrow> (\<forall>x \<in> set xs. \<not> P x)"
  by (induction xs) auto

text \<open>
  A value that a specification accepts has the kind it declares, and where it declares its choices, a string is one of
  them and every flag of a set is. A rejection names an entry that is not a choice, or the whole text of a malformed set.
\<close>

theorem accepted_value_is_declared:
  "case parse_value parse_f64 s txt of
     Inr v \<Rightarrow> prop_kind_of v = ps_kind s \<and> prop_printable v \<and>
       (ps_enum_values s = None \<or>
        (case v of P_str t \<Rightarrow> t \<in> set (enum_nicks s) | P_flags ns \<Rightarrow> set ns \<subseteq> set (enum_nicks s) | _ \<Rightarrow> True))
   | Inl (Error_nick n) \<Rightarrow> n \<notin> set (enum_nicks s) \<or> ps_kind s = K_flags \<and> n = trim txt
   | Inl (Error_kind e) \<Rightarrow> ps_kind s \<noteq> K_flags"
proof (cases "prop_parse parse_f64 (ps_kind s) txt")
  case (Inr v)
  show ?thesis
    using parsed_kind [OF Inr] parsed_printable [OF Inr] Inr
    by (cases v) (auto simp: parse_value_def find_None find_Some_iff split: option.splits)
qed (simp add: parse_value_def)

end
