(* ===== verification/Pacing.thy ===== *)
theory Pacing
  imports Segments Clocks Property
begin

text \<open>
  Presentation pacing of synchronizing sinks: the late-frame rule with its reports (\<^verbatim>\<open>qos.rs\<close>) and the pacer
  (\<^verbatim>\<open>pacing.rs\<close>) that turns a timestamp into a deadline on the elected clock. What the clock reads is an argument of
  each call, once per reading: \<open>now_anchor\<close> where the anchor is latched, \<open>now\<close> where the frame is judged; \<open>taken\<close> is the
  monotonic time of the report. Signed counts are integers within 64 bits. A posted message is part of the result.
\<close>

section \<open>Late frames and their reports\<close>

record bus_qos =
  bq_running_time_ns :: u64
  bq_jitter_ns :: int
  bq_processed :: u64
  bq_dropped :: u64

definition jitter_ns :: "u64 \<Rightarrow> u64 \<Rightarrow> int" where
  "jitter_ns deadline now =
     (if deadline \<le> now then (if uint (now - deadline) < 2 ^ 63 then uint (now - deadline) else 2 ^ 63 - 1)
      else (if uint (deadline - now) < 2 ^ 63 then - uint (deadline - now) else - (2 ^ 63)))"

definition upstream_report :: "u64 \<Rightarrow> u64 \<Rightarrow> u64 \<Rightarrow> u64 \<Rightarrow> qos_message" where
  "upstream_report deadline now rt taken =
     \<lparr>qm_jitter_ns = of_int (jitter_ns deadline now), qm_running_time_ns = rt, qm_taken_ns = taken, qm_downstream_proc_ns = 0\<rparr>"

record qos_tracker =
  qt_bus :: bool
  qt_max_lateness_ns :: u64
  qt_interval_ns :: u64
  qt_last_report_ns :: "u64 option"
  qt_dropped :: u64

definition tracker_new :: qos_tracker where
  "tracker_new = \<lparr>qt_bus = False, qt_max_lateness_ns = - 1, qt_interval_ns = 0, qt_last_report_ns = None, qt_dropped = 0\<rparr>"

definition is_too_late :: "qos_tracker \<Rightarrow> u64 \<Rightarrow> u64 \<Rightarrow> bool" where
  "is_too_late q deadline now \<longleftrightarrow> saturating_add deadline (qt_max_lateness_ns q) < now"

definition qos_post :: "u64 \<Rightarrow> int \<Rightarrow> u64 \<Rightarrow> u64 \<Rightarrow> qos_tracker \<Rightarrow> qos_tracker \<times> bus_qos list" where
  "qos_post rt jitter processed now q =
     (let q = q\<lparr>qt_last_report_ns := Some now\<rparr>
      in (q, if qt_bus q then [\<lparr>bq_running_time_ns = rt, bq_jitter_ns = jitter, bq_processed = processed, bq_dropped = qt_dropped q\<rparr>]
             else []))"

definition judge_frame ::
  "u64 \<Rightarrow> u64 \<Rightarrow> u64 \<Rightarrow> u64 \<Rightarrow> u64 \<Rightarrow> qos_tracker \<Rightarrow> (qos_tracker \<times> bus_qos list) \<times> qos_message option" where
  "judge_frame deadline now rt processed taken q =
     (let jitter = jitter_ns deadline now in
      if is_too_late q deadline now
      then (qos_post rt jitter processed now (q\<lparr>qt_dropped := qt_dropped q + 1\<rparr>), Some (upstream_report deadline now rt taken))
      else (case qt_last_report_ns q of
              None \<Rightarrow> (q\<lparr>qt_last_report_ns := Some now\<rparr>, [])
            | Some l \<Rightarrow>
                if 0 < qt_interval_ns q \<and> qt_interval_ns q \<le> saturating_sub now l
                then qos_post rt jitter processed now q else (q, []), None))"

section \<open>The pacer\<close>

datatype pace = Now | Wait u64 | Drop

definition MAX_LATENESS_PROPERTY :: property_spec where
  "MAX_LATENESS_PROPERTY = spec_new ''max-lateness'' K_uint ''QoS drop threshold, nanoseconds past the deadline''"

definition QOS_INTERVAL_PROPERTY :: property_spec where
  "QOS_INTERVAL_PROPERTY =
     spec_new ''qos-interval'' K_uint ''periodic QoS report interval in nanoseconds, 0 to report drops only''"

definition PACING_PROPERTIES :: "property_spec list" where
  "PACING_PROPERTIES = [MAX_LATENESS_PROPERTY, QOS_INTERVAL_PROPERTY]"

definition VIDEO_SINK_MAX_LATENESS_NS :: u64 where "VIDEO_SINK_MAX_LATENESS_NS = 20000000"
definition UPSTREAM_QOS_INTERVAL_NS :: u64 where "UPSTREAM_QOS_INTERVAL_NS = 100000000"

definition as_signed :: "u64 \<Rightarrow> int" where
  "as_signed ns = (if uint ns < 2 ^ 63 then uint ns else 2 ^ 63 - 1)"

record 'c pacer =
  pa_clock_sync :: "'c clock_sync option"
  pa_segment :: "segment option"
  pa_anchor_ns :: "int option"
  pa_anchor_pre_play :: bool
  pa_seek_reanchor :: bool
  pa_qos :: qos_tracker
  pa_pending_qos :: "qos_message option"
  pa_last_upstream_report_ns :: "u64 option"
  pa_last_deadline_ns :: "u64 option"
  pa_late_drops_in_a_row :: u64

definition pacer_new :: "'c pacer" where
  "pacer_new = \<lparr>pa_clock_sync = None, pa_segment = None, pa_anchor_ns = None, pa_anchor_pre_play = False,
     pa_seek_reanchor = False, pa_qos = tracker_new, pa_pending_qos = None, pa_last_upstream_report_ns = None,
     pa_last_deadline_ns = None, pa_late_drops_in_a_row = 0\<rparr>"

definition set_max_lateness_ns :: "u64 \<Rightarrow> 'c pacer \<Rightarrow> 'c pacer" where
  "set_max_lateness_ns ns p = p\<lparr>pa_qos := (pa_qos p)\<lparr>qt_max_lateness_ns := ns\<rparr>\<rparr>"

definition set_report_interval_ns :: "u64 \<Rightarrow> 'c pacer \<Rightarrow> 'c pacer" where
  "set_report_interval_ns ns p = p\<lparr>pa_qos := (pa_qos p)\<lparr>qt_interval_ns := ns\<rparr>\<rparr>"

definition set_bus :: "'c pacer \<Rightarrow> 'c pacer" where
  "set_bus p = p\<lparr>pa_qos := (pa_qos p)\<lparr>qt_bus := True\<rparr>\<rparr>"

definition for_video_sink :: "'c pacer" where
  "for_video_sink = set_max_lateness_ns VIDEO_SINK_MAX_LATENESS_NS pacer_new"

definition set_clock_sync :: "'c clock_sync \<Rightarrow> 'c pacer \<Rightarrow> 'c pacer" where
  "set_clock_sync sync p = p\<lparr>pa_clock_sync := Some sync, pa_anchor_ns := None, pa_anchor_pre_play := False,
     pa_last_upstream_report_ns := None\<rparr>"

definition is_paced :: "'c pacer \<Rightarrow> bool" where
  "is_paced p \<longleftrightarrow> pa_clock_sync p \<noteq> None"

definition set_anchor_ns :: "u64 \<Rightarrow> 'c pacer \<Rightarrow> 'c pacer" where
  "set_anchor_ns anchor p = p\<lparr>pa_anchor_ns := Some (as_signed anchor), pa_anchor_pre_play := False\<rparr>"

definition set_segment :: "segment \<Rightarrow> 'c pacer \<Rightarrow> 'c pacer" where
  "set_segment g p = p\<lparr>pa_segment := Some g\<rparr>"

definition pacer_flush :: "'c pacer \<Rightarrow> 'c pacer" where
  "pacer_flush p = p\<lparr>pa_anchor_ns := None, pa_anchor_pre_play := False, pa_seek_reanchor := True\<rparr>"

definition pacer_running_time :: "(rat \<Rightarrow> rat) \<Rightarrow> 'c pacer \<Rightarrow> u64 \<Rightarrow> u64 option" where
  "pacer_running_time rnd p pts = (case pa_segment p of Some g \<Rightarrow> to_running_time rnd g pts | None \<Rightarrow> Some pts)"

text \<open>The anchor a deadline is measured from, and what is left in the three anchor fs.\<close>

definition presentation_anchor ::
  "'c clock_sync \<Rightarrow> u64 \<Rightarrow> u64 \<Rightarrow> int option \<times> bool \<times> bool \<Rightarrow> int \<times> int option \<times> bool \<times> bool" where
  "presentation_anchor sync now rt fs =
     (if cs_path_live sync then (as_signed (base_time sync), fs)
      else let (anchor, pre_play, reanchor) = fs;
               (anchor, pre_play) =
                 (if pre_play \<and> play_anchored sync \<and> \<not> reanchor then (Some (as_signed (base_time sync)), False)
                  else (anchor, pre_play))
           in case anchor of
                Some a \<Rightarrow> (a, anchor, pre_play, reanchor)
              | None \<Rightarrow>
                  let use_play = (play_anchored sync \<and> \<not> reanchor);
                      a = (if use_play then as_signed (base_time sync) else clamp_i64 (as_signed now - as_signed rt))
                  in (a, Some a, \<not> use_play \<and> \<not> play_anchored sync, False))"

definition due_at ::
  "'c clock_sync \<Rightarrow> u64 \<Rightarrow> u64 \<Rightarrow> int option \<times> bool \<times> bool \<Rightarrow> u64 \<times> int option \<times> bool \<times> bool" where
  "due_at sync now rt fs =
     (let (a, fs) = presentation_anchor sync now rt fs;
          deadline = clamp_i64 (clamp_i64 (a + as_signed rt) + as_signed (cs_path_latency_min_ns sync))
      in (of_int (max deadline 0), fs))"

definition anchor_fields :: "'c pacer \<Rightarrow> int option \<times> bool \<times> bool" where
  "anchor_fields p = (pa_anchor_ns p, pa_anchor_pre_play p, pa_seek_reanchor p)"

definition with_fields :: "int option \<times> bool \<times> bool \<Rightarrow> 'c pacer \<Rightarrow> 'c pacer" where
  "with_fields fs p = (case fs of (a, pre_play, reanchor) \<Rightarrow>
     p\<lparr>pa_anchor_ns := a, pa_anchor_pre_play := pre_play, pa_seek_reanchor := reanchor\<rparr>)"

definition deadline_ns :: "(rat \<Rightarrow> rat) \<Rightarrow> u64 \<Rightarrow> u64 \<Rightarrow> 'c pacer \<Rightarrow> u64 option \<times> 'c pacer" where
  "deadline_ns rnd now_anchor pts p =
     (if pts = PTS_NONE then (None, p)
      else case pacer_running_time rnd p pts of
        None \<Rightarrow> (None, p)
      | Some rt \<Rightarrow>
          case pa_clock_sync p of
            None \<Rightarrow> (None, p)
          | Some sync \<Rightarrow> let (d, fs) = due_at sync now_anchor rt (anchor_fields p) in (Some d, with_fields fs p))"

definition judge ::
  "(rat \<Rightarrow> rat) \<Rightarrow> u64 \<Rightarrow> u64 \<Rightarrow> u64 \<Rightarrow> u64 \<Rightarrow> u64 \<Rightarrow> 'c pacer \<Rightarrow> pace \<times> bus_qos list \<times> 'c pacer" where
  "judge rnd now_anchor now taken pts presented p =
     (let p = p\<lparr>pa_last_deadline_ns := None\<rparr> in
      if pts = PTS_NONE then (Now, [], p)
      else case pa_clock_sync p of
        None \<Rightarrow> (Now, [], p)
      | Some sync \<Rightarrow>
          case pacer_running_time rnd p pts of
            None \<Rightarrow> (Drop, [], p)
          | Some rt \<Rightarrow>
              let (deadline, fs) = due_at sync now_anchor rt (anchor_fields p);
                  ((qos, posted), late) = judge_frame deadline now rt presented taken (pa_qos p);
                  p = (with_fields fs p)\<lparr>pa_last_deadline_ns := Some deadline, pa_qos := qos\<rparr>
              in case late of
                   Some m \<Rightarrow>
                     (Drop, posted, p\<lparr>pa_late_drops_in_a_row := pa_late_drops_in_a_row p + 1, pa_pending_qos := Some m,
                        pa_last_upstream_report_ns := Some now\<rparr>)
                 | None \<Rightarrow>
                     let p = p\<lparr>pa_late_drops_in_a_row := 0\<rparr>;
                         p = (case pa_last_upstream_report_ns p of
                                None \<Rightarrow> p\<lparr>pa_last_upstream_report_ns := Some now\<rparr>
                              | Some l \<Rightarrow>
                                  if UPSTREAM_QOS_INTERVAL_NS \<le> saturating_sub now l
                                  then p\<lparr>pa_pending_qos := Some (upstream_report deadline now rt taken),
                                         pa_last_upstream_report_ns := Some now\<rparr>
                                  else p)
                     in (if deadline \<le> now then Now else Wait (deadline - now), posted, p))"

definition take_qos :: "'c pacer \<Rightarrow> qos_message option \<times> 'c pacer" where
  "take_qos p = (pa_pending_qos p, p\<lparr>pa_pending_qos := None\<rparr>)"

definition pacer_set_property :: "string \<Rightarrow> prop_value \<Rightarrow> 'c pacer \<Rightarrow> (prop_error + unit) option \<times> 'c pacer" where
  "pacer_set_property name v p =
     (let assign = (\<lambda>f. case as_uint v of Some n \<Rightarrow> (Some (Inr ()), f n p) | None \<Rightarrow> (Some (Inl Prop_type), p))
      in if name = ''max-lateness'' then assign set_max_lateness_ns
         else if name = ''qos-interval'' then assign set_report_interval_ns
         else (None, p))"

definition pacer_get_property :: "string \<Rightarrow> 'c pacer \<Rightarrow> prop_value option" where
  "pacer_get_property name p =
     (if name = ''max-lateness'' then Some (P_uint (qt_max_lateness_ns (pa_qos p)))
      else if name = ''qos-interval'' then Some (P_uint (qt_interval_ns (pa_qos p)))
      else None)"

lemma pacing_property_roundtrip:
  "fst (pacer_set_property name (P_uint n) p) \<noteq> None \<longleftrightarrow> name \<in> set (spec_names PACING_PROPERTIES)"
  "name \<in> set (spec_names PACING_PROPERTIES) \<Longrightarrow>
     pacer_get_property name (snd (pacer_set_property name (P_uint n) p)) = Some (P_uint n)"
  by (auto simp: pacer_set_property_def pacer_get_property_def spec_names_def PACING_PROPERTIES_def MAX_LATENESS_PROPERTY_def
      QOS_INTERVAL_PROPERTY_def spec_new_def set_max_lateness_ns_def set_report_interval_ns_def)

section \<open>One frame\<close>

text \<open>What a sink does with a frame due at \<open>d\<close> when the clock reads \<open>now\<close>.\<close>

definition verdict :: "u64 \<Rightarrow> u64 \<Rightarrow> u64 \<Rightarrow> pace" where
  "verdict lateness d now =
     (if unat d + unat lateness < unat now then Drop else if d \<le> now then Now else Wait (d - now))"

lemma too_late_iff: "is_too_late q d now \<longleftrightarrow> unat d + unat (qt_max_lateness_ns q) < unat now"
  using unat_lt2p [of now] by (auto simp: is_too_late_def word_less_nat_alt unat_saturating_add)

lemma judge_frame_keeps:
  "judge_frame d now rt n taken q = ((q', posted), late) \<Longrightarrow>
     qt_max_lateness_ns q' = qt_max_lateness_ns q \<and> (late \<noteq> None \<longleftrightarrow> is_too_late q d now)"
  by (auto simp: judge_frame_def qos_post_def Let_def split: if_splits option.splits)

lemma anchor_fields_with [simp]: "anchor_fields (with_fields fs p) = fs"
  by (cases fs) (simp add: anchor_fields_def with_fields_def)

lemma with_fields_keeps [simp]:
  "pa_clock_sync (with_fields fs p) = pa_clock_sync p" "pa_segment (with_fields fs p) = pa_segment p"
  "pa_qos (with_fields fs p) = pa_qos p"
  by (cases fs; simp add: with_fields_def)+

lemma anchor_fields_updates [simp]:
  "anchor_fields (p\<lparr>pa_last_deadline_ns := d\<rparr>) = anchor_fields p" "anchor_fields (p\<lparr>pa_qos := q\<rparr>) = anchor_fields p"
  "anchor_fields (p\<lparr>pa_late_drops_in_a_row := k\<rparr>) = anchor_fields p" "anchor_fields (p\<lparr>pa_pending_qos := m\<rparr>) = anchor_fields p"
  "anchor_fields (p\<lparr>pa_last_upstream_report_ns := l\<rparr>) = anchor_fields p"
  by (simp_all add: anchor_fields_def)

lemma running_time_updates [simp]:
  "pacer_running_time rnd (p\<lparr>pa_last_deadline_ns := d\<rparr>) = pacer_running_time rnd p"
  by (simp add: pacer_running_time_def fun_eq_iff)

text \<open>The parts of the state that pacing reads.\<close>

definition pacing_view :: "'c pacer \<Rightarrow> 'c clock_sync option \<times> segment option \<times> u64" where
  "pacing_view p = (pa_clock_sync p, pa_segment p, qt_max_lateness_ns (pa_qos p))"

lemma judge_paced:
  assumes "pts \<noteq> PTS_NONE" "pa_clock_sync p = Some sync" "pacer_running_time rnd p pts = Some rt"
    and "due_at sync now_anchor rt (anchor_fields p) = (d, fs)"
    and "judge rnd now_anchor now taken pts n p = (v, posted, p')"
  shows "v = verdict (qt_max_lateness_ns (pa_qos p)) d now \<and> pa_last_deadline_ns p' = Some d \<and>
    anchor_fields p' = fs \<and> pacing_view p' = pacing_view p"
proof -
  obtain q ps late where j: "judge_frame d now rt n taken (pa_qos p) = ((q, ps), late)" by (metis prod.exhaust)
  note k = judge_frame_keeps [OF j]
  show ?thesis
    using assms(5) k
    by (auto simp: judge_def assms(1-4) j Let_def verdict_def too_late_iff pacing_view_def split: option.splits if_splits)
qed

lemma judge_unpaced:
  assumes "pts = PTS_NONE \<or> pacer_running_time rnd p pts = None" "pa_clock_sync p = Some sync"
    and "judge rnd now_anchor now taken pts n p = (v, posted, p')"
  shows "v = (if pts = PTS_NONE then Now else Drop) \<and> pa_last_deadline_ns p' = None \<and>
    anchor_fields p' = anchor_fields p \<and> pacing_view p' = pacing_view p"
  using assms by (auto simp: judge_def Let_def pacing_view_def split: if_splits)

section \<open>The anchor of a run\<close>

text \<open>The anchor the pacer documents: the play edge for a live path or once playing started, unless a seek is pending.\<close>

definition anchor_choice :: "'c clock_sync \<Rightarrow> u64 \<Rightarrow> u64 \<Rightarrow> int option \<times> bool \<times> bool \<Rightarrow> int" where
  "anchor_choice sync now rt fs =
     (case fs of (latched, provisional, seeking) \<Rightarrow>
        if cs_path_live sync \<or> play_anchored sync \<and> \<not> seeking \<and> (provisional \<or> latched = None)
        then as_signed (base_time sync)
        else case latched of Some a \<Rightarrow> a | None \<Rightarrow> clamp_i64 (as_signed now - as_signed rt))"

definition deadline_from :: "'c clock_sync \<Rightarrow> int \<Rightarrow> u64 \<Rightarrow> u64" where
  "deadline_from sync a rt = of_int (max (clamp_i64 (clamp_i64 (a + as_signed rt) + as_signed (cs_path_latency_min_ns sync))) 0)"

lemma due_at_choice:
  "fst (due_at sync now rt fs) = deadline_from sync (anchor_choice sync now rt fs) rt"
  by (cases fs) (auto simp: due_at_def presentation_anchor_def anchor_choice_def deadline_from_def Let_def split: option.splits)

text \<open>Later frames reuse the anchor of the first.\<close>

lemma anchor_stays:
  assumes "due_at sync now rt fs = (d, fs')"
  shows "anchor_choice sync now' rt' fs' = anchor_choice sync now rt fs \<and> (\<exists>d'. due_at sync now' rt' fs' = (d', fs'))"
  using assms
  by (cases fs) (auto simp: due_at_def presentation_anchor_def anchor_choice_def Let_def split: option.splits if_splits)

section \<open>A run of frames\<close>

text \<open>One frame: the two clock readings, the monotonic time, the timestamp and the presented count.\<close>

record judged_frame =
  jf_now_anchor :: u64
  jf_now :: u64
  jf_taken :: u64
  jf_pts :: u64
  jf_presented :: u64

definition judge_one :: "(rat \<Rightarrow> rat) \<Rightarrow> judged_frame \<Rightarrow> 'c pacer \<Rightarrow> pace \<times> bus_qos list \<times> 'c pacer" where
  "judge_one rnd f = judge rnd (jf_now_anchor f) (jf_now f) (jf_taken f) (jf_pts f) (jf_presented f)"

fun judge_run :: "(rat \<Rightarrow> rat) \<Rightarrow> judged_frame list \<Rightarrow> 'c pacer \<Rightarrow> (pace \<times> u64 option) list \<times> 'c pacer" where
  "judge_run rnd [] p = ([], p)"
| "judge_run rnd (f # frames) p =
     (let (v, _, p) = judge_one rnd f p; (rest, p') = judge_run rnd frames p in ((v, pa_last_deadline_ns p) # rest, p'))"

text \<open>The stateless rule: every frame is measured from one anchor.\<close>

definition paced_from :: "(rat \<Rightarrow> rat) \<Rightarrow> 'c clock_sync \<Rightarrow> segment option \<Rightarrow> u64 \<Rightarrow> int \<Rightarrow> judged_frame \<Rightarrow> pace \<times> u64 option" where
  "paced_from rnd sync g lateness a f =
     (if jf_pts f = PTS_NONE then (Now, None)
      else case (case g of None \<Rightarrow> Some (jf_pts f) | Some g \<Rightarrow> to_running_time rnd g (jf_pts f)) of
        None \<Rightarrow> (Drop, None)
      | Some rt \<Rightarrow> let d = deadline_from sync a rt in (verdict lateness d (jf_now f), Some d))"

text \<open>The anchor is the same whatever the clock reads and whichever frame comes next.\<close>

definition anchored :: "'c clock_sync \<Rightarrow> int \<Rightarrow> int option \<times> bool \<times> bool \<Rightarrow> bool" where
  "anchored sync a fs \<longleftrightarrow>
     (\<forall>now rt. anchor_choice sync now rt fs = a \<and> (\<exists>d. due_at sync now rt fs = (d, fs)))"

lemma anchored_after: "due_at sync now rt fs = (d, fs') \<Longrightarrow> anchored sync (anchor_choice sync now rt fs) fs'"
  using anchor_stays unfolding anchored_def by fast

lemma anchored_due: "anchored sync a fs \<Longrightarrow> due_at sync now rt fs = (deadline_from sync a rt, fs)"
  using due_at_choice [of sync now rt fs] unfolding anchored_def by (metis fst_conv)

lemma judge_anchored:
  assumes "anchored sync a (anchor_fields p)" "pacing_view p = (Some sync, g, lateness)"
    and "judge_one rnd f p = (v, posted, p')"
  shows "(v, pa_last_deadline_ns p') = paced_from rnd sync g lateness a f \<and>
    anchor_fields p' = anchor_fields p \<and> pacing_view p' = pacing_view p"
proof -
  note j = assms(3) [unfolded judge_one_def] and v = assms(2) [unfolded pacing_view_def prod.inject]
  have s: "pa_clock_sync p = Some sync" using v by simp
  have rt: "pacer_running_time rnd p = (\<lambda>pts. case g of None \<Rightarrow> Some pts | Some g \<Rightarrow> to_running_time rnd g pts)"
    using v by (auto simp: pacer_running_time_def fun_eq_iff split: option.split)
  show ?thesis
  proof (cases "jf_pts f = PTS_NONE \<or> pacer_running_time rnd p (jf_pts f) = None")
    case True
    then show ?thesis using judge_unpaced [OF True s j] by (auto simp: paced_from_def rt)
  next
    case False
    then obtain t where t: "jf_pts f \<noteq> PTS_NONE" "pacer_running_time rnd p (jf_pts f) = Some t" by auto
    show ?thesis
      using judge_paced [OF t(1) s t(2) anchored_due [OF assms(1)] j] t v by (simp add: paced_from_def rt Let_def)
  qed
qed

lemma run_anchored:
  assumes "anchored sync a (anchor_fields p)" "pacing_view p = (Some sync, g, lateness)"
  shows "fst (judge_run rnd frames p) = map (paced_from rnd sync g lateness a) frames"
  using assms
proof (induction frames arbitrary: p)
  case (Cons f frames)
  obtain v posted p' where j: "judge_one rnd f p = (v, posted, p')" by (metis prod.exhaust)
  note s = judge_anchored [OF Cons.prems j]
  have "fst (judge_run rnd frames p') = map (paced_from rnd sync g lateness a) frames"
    using s Cons.prems by (intro Cons.IH) simp_all
  then show ?case using s j by (simp add: split_beta)
qed simp

lemma run_from_first:
  assumes "pacing_view p = (Some sync, g, lateness)" "jf_pts f \<noteq> PTS_NONE" "pacer_running_time rnd p (jf_pts f) = Some rt"
  shows "fst (judge_run rnd (f # frames) p) =
    map (paced_from rnd sync g lateness (anchor_choice sync (jf_now_anchor f) rt (anchor_fields p))) (f # frames)"
proof -
  obtain v posted p' where j: "judge_one rnd f p = (v, posted, p')" by (metis prod.exhaust)
  note v = assms(1) [unfolded pacing_view_def prod.inject]
  obtain d fs where d: "due_at sync (jf_now_anchor f) rt (anchor_fields p) = (d, fs)" by (metis surj_pair)
  define a where "a = anchor_choice sync (jf_now_anchor f) rt (anchor_fields p)"
  note p' = judge_paced [OF assms(2) _ assms(3) d j [unfolded judge_one_def]]
  have da: "d = deadline_from sync a rt" using due_at_choice [of sync _ rt] d unfolding a_def by (metis fst_conv)
  have r: "fst (judge_run rnd frames p') = map (paced_from rnd sync g lateness a) frames"
    using anchored_after [OF d] p' v assms(1) unfolding a_def by (intro run_anchored) simp_all
  have "(case g of None \<Rightarrow> Some (jf_pts f) | Some g \<Rightarrow> to_running_time rnd g (jf_pts f)) = Some rt"
    using assms(3) v by (auto simp: pacer_running_time_def split: option.splits)
  then have "(v, pa_last_deadline_ns p') = paced_from rnd sync g lateness a f"
    using p' v assms(2) da by (simp add: paced_from_def Let_def)
  then show ?thesis using r j by (simp add: split_beta a_def)
qed

section \<open>Contracts of pacing\<close>

text \<open>
  C24. A run of frames on one clock is paced by timestamps: the first frame with a running time fixes the anchor, and every
  later verdict is the stateless rule from that anchor. A frame is held until anchor plus running time plus the latency of
  the path, dropped exactly when it is past that by more than the bound or outside the segment, and presented otherwise,
  whatever the clock read when it was judged and however late the frames before it were.
\<close>

theorem paced_by_timestamps:
  assumes "pacing_view p = (Some sync, g, lateness)" "jf_pts f \<noteq> PTS_NONE" "pacer_running_time rnd p (jf_pts f) = Some rt"
  shows "fst (judge_run rnd (f # frames) p) =
    map (paced_from rnd sync g lateness (anchor_choice sync (jf_now_anchor f) rt (anchor_fields p))) (f # frames)"
  by (rule run_from_first [OF assms])

definition frame_at :: "u64 \<Rightarrow> u64 \<Rightarrow> judged_frame" where
  "frame_at now pts = \<lparr>jf_now_anchor = now, jf_now = now, jf_taken = 0, jf_pts = pts, jf_presented = 0\<rparr>"

lemma paced_by_timestamps_witness:
  "fst (judge_run (\<lambda>x. x) [frame_at 5000 100, frame_at 5000 33000100, frame_at 90000000 66000100]
     (set_clock_sync (sync_new () 0) for_video_sink)) =
   [(Now, Some 5000), (Wait 33000000, Some 33005000), (Drop, Some 66005000)]"
proof -
  let ?p = "set_clock_sync (sync_new () 0) for_video_sink"
  have v: "pacing_view ?p = (Some (sync_new () 0), None, VIDEO_SINK_MAX_LATENESS_NS)"
    by (simp add: pacing_view_def set_clock_sync_def for_video_sink_def set_max_lateness_ns_def pacer_new_def)
  have "anchor_choice (sync_new () 0) 5000 100 (anchor_fields ?p) = 4900"
    by (simp add: anchor_choice_def anchor_fields_def set_clock_sync_def for_video_sink_def set_max_lateness_ns_def pacer_new_def
        sync_new_def play_anchored_def clamp_i64_def as_signed_def)
  then show ?thesis
    using paced_by_timestamps [OF v, of "frame_at 5000 100" "\<lambda>x. x" 100 "[frame_at 5000 33000100, frame_at 90000000 66000100]"]
    by (simp add: frame_at_def PTS_NONE_def pacer_running_time_def set_clock_sync_def for_video_sink_def set_max_lateness_ns_def
        pacer_new_def paced_from_def deadline_from_def clamp_i64_def as_signed_def sync_new_def verdict_def
        VIDEO_SINK_MAX_LATENESS_NS_def)
qed

lemma as_signed_small: "uint x < 2 ^ 62 \<Longrightarrow> as_signed x = uint x"
  by (simp add: as_signed_def)

lemma of_int_uint_add: "of_int (uint a + uint b) = (a + b :: u64)"
  unfolding of_int_add by simp

lemma clamp_uint:
  assumes "uint x < 2 ^ 62" "uint y < 2 ^ 62"
  shows "clamp_i64 (uint x - uint y) = uint x - uint y" "clamp_i64 (uint x + uint y) = uint x + uint y"
    "clamp_i64 (uint x) = uint x"
proof -
  have "- (2 ^ 63) \<le> n - m \<and> n - m < 2 ^ 63 \<and> - (2 ^ 63) \<le> n + m \<and> n + m < 2 ^ 63 \<and> - (2 ^ 63) \<le> n \<and> n < 2 ^ 63"
    if "0 \<le> n" "0 \<le> m" "n < 2 ^ 62" "m < 2 ^ 62" for n m :: int
    using that by simp
  from this [OF uint_ge_0 uint_ge_0 assms]
  show "clamp_i64 (uint x - uint y) = uint x - uint y" "clamp_i64 (uint x + uint y) = uint x + uint y"
    "clamp_i64 (uint x) = uint x"
    unfolding clamp_i64_def min_def max_def by (smt (verit))+
qed

lemma first_frame_deadline:
  assumes "uint now < 2 ^ 62" "uint rt < 2 ^ 62" "uint (cs_path_latency_min_ns sync) < 2 ^ 62"
  shows "deadline_from sync (clamp_i64 (as_signed now - as_signed rt)) rt = now + cs_path_latency_min_ns sync"
proof -
  have "clamp_i64 (as_signed now - as_signed rt) = uint now - uint rt" "clamp_i64 (uint now) = uint now"
    "clamp_i64 (uint now + uint (cs_path_latency_min_ns sync)) = uint now + uint (cs_path_latency_min_ns sync)"
    using assms by (simp_all only: as_signed_small clamp_uint [OF assms(1,2)] clamp_uint [OF assms(1,3)])
  moreover have "as_signed rt = uint rt" "as_signed (cs_path_latency_min_ns sync) = uint (cs_path_latency_min_ns sync)"
    using assms by (simp_all only: as_signed_small)
  ultimately show ?thesis using of_int_uint_add [of now "cs_path_latency_min_ns sync"] by (simp add: deadline_from_def)
qed

text \<open>
  After a flushing seek the first frame at or past the target is due at once: a pacer that was flushed and handed the
  segment of the seek measures it from the present reading, not from the play edge, and asks only for the latency of the
  path. (A live path keeps its base time.)
\<close>

theorem seek_target_presents_at_once:
  assumes "rounds_exactly rnd" "\<not> cs_path_live sync" "pa_clock_sync p = Some sync"
    and "target \<le> ts" "ts < 2 ^ 62" "ts - target \<le> 2 ^ 53"
    and "uint now < 2 ^ 62" "uint (cs_path_latency_min_ns sync) < 2 ^ 62"
  shows "fst (deadline_ns rnd now ts (set_segment (for_flush_seek (flush_to target) d) (pacer_flush p))) =
    Some (now + cs_path_latency_min_ns sync)"
proof -
  let ?p = "set_segment (for_flush_seek (flush_to target) d) (pacer_flush p)"
  have f: "anchor_fields ?p = (None, False, True)" by (simp add: anchor_fields_def set_segment_def pacer_flush_def)
  have o: "over_rate rnd (ts - target) ONE_F64 = ts - target" using assms(1,6) by (intro over_rate_unit) (simp_all add: f64_units)
  have rt: "pacer_running_time rnd ?p ts = Some (ts - target)"
    by (simp add: pacer_running_time_def set_segment_def flush_to_segment running_time_forward segment_contains_def assms(4)
        f64_units o saturating_add_zero)
  have n: "ts \<noteq> PTS_NONE" using assms(5) by (auto simp: PTS_NONE_def)
  have "ts - target \<le> ts" using assms(4) by (simp add: word_le_nat_alt unat_sub)
  then have b: "uint (ts - target) < 2 ^ 62" using assms(5) by (simp add: word_le_def word_less_def)
  have "anchor_choice sync now (ts - target) (anchor_fields ?p) = clamp_i64 (as_signed now - as_signed (ts - target))"
    by (simp add: anchor_choice_def f assms(2))
  then have "fst (due_at sync now (ts - target) (anchor_fields ?p)) = now + cs_path_latency_min_ns sync"
    using first_frame_deadline [OF assms(7) b assms(8)] by (simp add: due_at_choice)
  moreover have "pa_clock_sync ?p = Some sync" by (simp add: set_segment_def pacer_flush_def assms(3))
  ultimately show ?thesis using n rt by (simp add: deadline_ns_def split_beta)
qed

theorem seek_target_presents_at_once_witness:
  "fst (deadline_ns (\<lambda>x. x) 7000 30500 (set_segment (for_flush_seek (flush_to 30000) None)
     (pacer_flush (set_clock_sync (with_play_anchor () 0 40) pacer_new)))) = Some 7000"
  using seek_target_presents_at_once [OF rounds_exactly_id, of "with_play_anchor () 0 40"
      "set_clock_sync (with_play_anchor () 0 40) pacer_new" 30000 30500 7000 None]
  by (simp add: with_play_anchor_def set_clock_sync_def)

end
