(* ===== verification/SeekControl.thy ===== *)
theory SeekControl
  imports Segments
begin

text \<open>
  The seek channel between application and source (\<^verbatim>\<open>runtime/seek.rs\<close>) and the end of a run that takes seeks after its
  stream ended (\<^verbatim>\<open>runtime/seek_after_end.rs\<close>). A controller is a cell; its ticket is an index into the answers given so far.
  A controller with followers is the list of its cells, the leader first.
\<close>

section \<open>Tickets and controllers\<close>

datatype seek_refusal = NonFlushing | OutsideLiveWindow u64 u64 | NoLiveWindow

datatype seek_outcome = Served | Refused seek_refusal | Superseded

definition flushing_only :: "seek \<Rightarrow> seek_refusal + seek" where
  "flushing_only k = (if is_flush k then Inr k else Inl NonFlushing)"

record segment_done =
  sd_count :: u64
  sd_position_ns :: u64
  sd_fresh :: bool

record seek_cell =
  sc_pending :: "(seek \<times> nat) option"
  sc_segment_done :: segment_done
  sc_shutdown :: bool
  sc_stream_len :: "u64 option"
  sc_bus :: bool
  sc_flushing_seeks_taken :: u64
  sc_stream_ended_at :: "u64 option"
  sc_takes_seeks_after_end :: bool
  sc_run_held_open :: bool

definition cell_new :: seek_cell where
  "cell_new = \<lparr>sc_pending = None, sc_segment_done = \<lparr>sd_count = 0, sd_position_ns = 0, sd_fresh = False\<rparr>, sc_shutdown = False,
     sc_stream_len = None, sc_bus = False, sc_flushing_seeks_taken = 0, sc_stream_ended_at = None,
     sc_takes_seeks_after_end = False, sc_run_held_open = False\<rparr>"

type_synonym tickets = "seek_outcome option list"

text \<open>A new seek gets a fresh ticket and supersedes the one not yet taken.\<close>

definition cell_seek :: "seek \<Rightarrow> tickets \<times> seek_cell \<Rightarrow> nat \<times> tickets \<times> seek_cell" where
  "cell_seek k tc =
     (let (ts, c) = tc;
          ticket = length ts;
          ts = ts @ [None];
          ts = (case sc_pending c of Some (_, replaced) \<Rightarrow> ts[replaced := Some Superseded] | None \<Rightarrow> ts)
      in (ticket, ts, c\<lparr>sc_pending := Some (k, ticket)\<rparr>))"

text \<open>On a controller with followers every cell gets the seek; the ticket returned is that of the leader.\<close>

fun seek_all :: "seek \<Rightarrow> tickets \<Rightarrow> seek_cell list \<Rightarrow> tickets \<times> seek_cell list" where
  "seek_all k ts [] = (ts, [])"
| "seek_all k ts (c # cs) =
     (let (_, ts, c) = cell_seek k (ts, c); (ts, cs) = seek_all k ts cs in (ts, c # cs))"

definition take_seek ::
  "(seek \<Rightarrow> seek_refusal + seek) \<Rightarrow> tickets \<times> seek_cell \<Rightarrow> seek option \<times> tickets \<times> seek_cell" where
  "take_seek accept tc =
     (let (ts, c) = tc in
      case sc_pending c of
        None \<Rightarrow> (None, ts, c)
      | Some (k, ticket) \<Rightarrow>
          let c = c\<lparr>sc_pending := None\<rparr> in
          case accept k of
            Inr k \<Rightarrow>
              (Some k, ts[ticket := Some Served],
               if is_flush k then c\<lparr>sc_flushing_seeks_taken := sc_flushing_seeks_taken c + 1\<rparr> else c)
          | Inl refusal \<Rightarrow> (None, ts[ticket := Some (Refused refusal)], c))"

definition notify_segment_done :: "u64 \<Rightarrow> seek_cell \<Rightarrow> seek_cell \<times> u64 list" where
  "notify_segment_done position_ns c =
     (let d = sc_segment_done c
      in (c\<lparr>sc_segment_done := \<lparr>sd_count = saturating_add (sd_count d) 1, sd_position_ns = position_ns, sd_fresh = True\<rparr>\<rparr>,
          if sc_bus c then [position_ns] else []))"

definition take_segment_done :: "seek_cell \<Rightarrow> u64 option \<times> seek_cell" where
  "take_segment_done c =
     (let d = sc_segment_done c
      in if sd_fresh d then (Some (sd_position_ns d), c\<lparr>sc_segment_done := d\<lparr>sd_fresh := False\<rparr>\<rparr>) else (None, c))"

definition shutdown_all :: "seek_cell list \<Rightarrow> seek_cell list" where
  "shutdown_all cs = map (\<lambda>c. c\<lparr>sc_shutdown := True\<rparr>) cs"

definition enable_seeks_after_end :: "seek_cell list \<Rightarrow> seek_cell list" where
  "enable_seeks_after_end cs = map (\<lambda>c. c\<lparr>sc_takes_seeks_after_end := True\<rparr>) cs"

definition has_pending :: "seek_cell \<Rightarrow> bool" where
  "has_pending c \<longleftrightarrow> sc_pending c \<noteq> None"

definition stream_ended :: "seek_cell \<Rightarrow> bool" where
  "stream_ended c \<longleftrightarrow> sc_stream_ended_at c = Some (sc_flushing_seeks_taken c) \<and> \<not> has_pending c"

definition mark_stream_ended :: "u64 \<Rightarrow> seek_cell \<Rightarrow> seek_cell" where
  "mark_stream_ended taken c = c\<lparr>sc_stream_ended_at := Some taken\<rparr>"

section \<open>Every seek is answered once\<close>

text \<open>A run of one controller: seeks and takes in any order.\<close>

datatype seek_op = Op_seek seek | Op_take "seek \<Rightarrow> seek_refusal + seek"

fun seek_op_step :: "seek_op \<Rightarrow> tickets \<times> seek_cell \<Rightarrow> tickets \<times> seek_cell" where
  "seek_op_step (Op_seek k) tc = snd (cell_seek k tc)"
| "seek_op_step (Op_take accept) tc = snd (take_seek accept tc)"

definition tickets_ok :: "tickets \<times> seek_cell \<Rightarrow> bool" where
  "tickets_ok tc \<longleftrightarrow>
     (case tc of (ts, c) \<Rightarrow>
        \<forall>t < length ts. ts ! t = None \<longleftrightarrow> (case sc_pending c of Some (_, p) \<Rightarrow> p = t | None \<Rightarrow> False)) \<and>
     (case sc_pending (snd tc) of Some (_, p) \<Rightarrow> Suc p = length (fst tc) | None \<Rightarrow> True)"

lemma tickets_step: "tickets_ok tc \<Longrightarrow> tickets_ok (seek_op_step opn tc)"
proof (cases tc)
  case (Pair ts c)
  assume ok: "tickets_ok tc"
  show ?thesis
  proof (cases opn)
    case (Op_seek k)
    then show ?thesis using ok Pair
      by (auto simp: tickets_ok_def cell_seek_def Let_def nth_append nth_list_update split: option.splits prod.splits if_splits)
  next
    case (Op_take accept)
    then show ?thesis using ok Pair
      by (auto simp: tickets_ok_def take_seek_def Let_def nth_list_update split: option.splits prod.splits if_splits sum.splits)
  qed
qed

lemma answered_stays:
  assumes "tickets_ok (ts, c)" "t < length ts" "ts ! t = Some r"
  shows "fst (seek_op_step opn (ts, c)) ! t = Some r"
proof (cases opn)
  case (Op_seek k)
  then show ?thesis using assms
    by (auto simp: tickets_ok_def cell_seek_def Let_def nth_append nth_list_update split: option.splits prod.splits if_splits)
next
  case (Op_take accept)
  then show ?thesis using assms
    by (auto simp: tickets_ok_def take_seek_def Let_def nth_list_update split: option.splits prod.splits if_splits sum.splits)
qed

definition seek_run :: "seek_op list \<Rightarrow> tickets \<times> seek_cell \<Rightarrow> tickets \<times> seek_cell" where
  "seek_run ops tc = fold seek_op_step ops tc"

lemma tickets_run: "tickets_ok tc \<Longrightarrow> tickets_ok (seek_run ops tc)"
  unfolding seek_run_def by (induction ops arbitrary: tc) (simp_all add: tickets_step)

lemma tickets_grow: "length (fst tc) \<le> length (fst (seek_op_step opn tc))"
  by (cases opn; cases tc) (auto simp: cell_seek_def take_seek_def Let_def split: option.splits prod.splits sum.splits)

lemma answers_run:
  "tickets_ok tc \<Longrightarrow> t < length (fst tc) \<Longrightarrow> fst tc ! t = Some r \<Longrightarrow> fst (seek_run ops tc) ! t = Some r"
  unfolding seek_run_def
proof (induction ops arbitrary: tc)
  case (Cons opn ops)
  have "fst (seek_op_step opn tc) ! t = Some r" using answered_stays [of "fst tc" "snd tc" t r opn] Cons.prems by simp
  then show ?case
    using Cons.IH [of "seek_op_step opn tc"] tickets_step [OF Cons.prems(1)] tickets_grow [of tc opn] Cons.prems(2) by simp
qed simp

section \<open>The end of a run\<close>

text \<open>
  A run whose source parks at the end of the stream, one thread per arm. The source checks for a seek and parks in one step:
  it registers its waker before its last check. A taken seek is counted in a second step. A Flush and an Eos go down a queue
  to each sink, which reports them; a reported end wakes the task that ends the run. That task registers its waker, reads
  the count, looks at the sinks and then at the pending seek, in three steps.
\<close>

datatype ctl = Flush_ctl | Eos_ctl

datatype source_pc = Src_ready | Src_parked | Src_taken seek | Src_flush | Src_play | Src_done

datatype poll_pc = Poll_idle | Poll_counted nat | Poll_sinks nat

record end_run =
  er_pending :: "seek option"
  er_taken :: nat
  er_source :: source_pc
  er_queues :: "ctl list list"
  er_sinks :: "(nat \<times> bool) list"
  er_poll :: poll_pc
  er_waker :: bool
  er_wake :: bool
  er_held :: bool
  er_ended_at :: "nat option"
  er_shutdown :: bool

definition end_run_init :: "nat \<Rightarrow> end_run" where
  "end_run_init n = \<lparr>er_pending = None, er_taken = 0, er_source = Src_play, er_queues = replicate n [],
     er_sinks = replicate n (0, False), er_poll = Poll_idle, er_waker = False, er_wake = True, er_held = False,
     er_ended_at = None, er_shutdown = False\<rparr>"

definition wake_run_end :: "end_run \<Rightarrow> end_run" where
  "wake_run_end s = (if er_waker s then s\<lparr>er_waker := False, er_wake := True\<rparr> else s)"

definition wake_source :: "end_run \<Rightarrow> end_run" where
  "wake_source s = (if er_source s = Src_parked then s\<lparr>er_source := Src_ready\<rparr> else s)"

definition every_sink_ended :: "nat \<Rightarrow> (nat \<times> bool) list \<Rightarrow> bool" where
  "every_sink_ended taken sinks \<longleftrightarrow> list_all (\<lambda>(flushes, at_eos). at_eos \<and> taken \<le> flushes) sinks"

definition eos_is_stale :: "end_run \<Rightarrow> nat \<Rightarrow> bool" where
  "eos_is_stale s i \<longleftrightarrow> fst (er_sinks s ! i) < er_taken s"

definition sink_flushed :: "nat \<Rightarrow> end_run \<Rightarrow> end_run" where
  "sink_flushed i s = s\<lparr>er_sinks := (er_sinks s)[i := (Suc (fst (er_sinks s ! i)), False)]\<rparr>"

definition sink_ended :: "nat \<Rightarrow> end_run \<Rightarrow> end_run" where
  "sink_ended i s = wake_run_end (s\<lparr>er_sinks := (er_sinks s)[i := (fst (er_sinks s ! i), True)]\<rparr>)"

definition push_ctl :: "ctl \<Rightarrow> end_run \<Rightarrow> end_run" where
  "push_ctl p s = s\<lparr>er_queues := map (\<lambda>q. q @ [p]) (er_queues s)\<rparr>"

text \<open>What the arms and the ending task do by themselves; \<open>accept\<close> is the answer of the source to a seek.\<close>

inductive arm_step :: "(seek \<Rightarrow> seek_refusal + seek) \<Rightarrow> end_run \<Rightarrow> end_run \<Rightarrow> bool" for accept where
  src_take: "er_source s = Src_ready \<Longrightarrow> er_pending s = Some k \<Longrightarrow>
    arm_step accept s (s\<lparr>er_pending := None, er_source := Src_taken k\<rparr>)"
| src_stop: "er_source s = Src_ready \<Longrightarrow> er_pending s = None \<Longrightarrow> er_shutdown s \<Longrightarrow> arm_step accept s (s\<lparr>er_source := Src_done\<rparr>)"
| src_park: "er_source s = Src_ready \<Longrightarrow> er_pending s = None \<Longrightarrow> \<not> er_shutdown s \<Longrightarrow> arm_step accept s (s\<lparr>er_source := Src_parked\<rparr>)"
| src_refuse: "er_source s = Src_taken k \<Longrightarrow> accept k = Inl r \<Longrightarrow> arm_step accept s (s\<lparr>er_source := Src_ready\<rparr>)"
| src_accept: "er_source s = Src_taken k \<Longrightarrow> accept k = Inr k' \<Longrightarrow>
    arm_step accept s (if is_flush k' then s\<lparr>er_source := Src_flush, er_taken := Suc (er_taken s)\<rparr> else s\<lparr>er_source := Src_play\<rparr>)"
| src_flushes: "er_source s = Src_flush \<Longrightarrow> arm_step accept s (push_ctl Flush_ctl s\<lparr>er_source := Src_play\<rparr>)"
| src_ends: "er_source s = Src_play \<Longrightarrow> arm_step accept s (push_ctl Eos_ctl s\<lparr>er_source := Src_ready\<rparr>)"
| sink_takes_flush: "i < length (er_queues s) \<Longrightarrow> er_queues s ! i = Flush_ctl # q \<Longrightarrow>
    arm_step accept s (sink_flushed i (s\<lparr>er_queues := (er_queues s)[i := q]\<rparr>))"
| sink_skips_eos: "i < length (er_queues s) \<Longrightarrow> er_queues s ! i = Eos_ctl # q \<Longrightarrow> eos_is_stale s i \<Longrightarrow>
    arm_step accept s (s\<lparr>er_queues := (er_queues s)[i := q]\<rparr>)"
| sink_takes_eos: "i < length (er_queues s) \<Longrightarrow> er_queues s ! i = Eos_ctl # q \<Longrightarrow> \<not> eos_is_stale s i \<Longrightarrow>
    arm_step accept s (sink_ended i (s\<lparr>er_queues := (er_queues s)[i := q]\<rparr>))"
| poll_counts: "er_poll s = Poll_idle \<Longrightarrow> er_wake s \<Longrightarrow>
    arm_step accept s (s\<lparr>er_wake := False, er_waker := True, er_poll := Poll_counted (er_taken s)\<rparr>)"
| poll_looks: "er_poll s = Poll_counted n \<Longrightarrow>
    arm_step accept s (s\<lparr>er_poll := if every_sink_ended n (er_sinks s) then Poll_sinks n else Poll_idle\<rparr>)"
| poll_decides: "er_poll s = Poll_sinks n \<Longrightarrow>
    arm_step accept s
      (if er_pending s = None
       then (if er_held s then s\<lparr>er_poll := Poll_idle, er_ended_at := Some n\<rparr>
             else wake_source (s\<lparr>er_poll := Poll_idle, er_ended_at := Some n, er_shutdown := True\<rparr>))
       else s\<lparr>er_poll := Poll_idle\<rparr>)"

text \<open>What the application does.\<close>

inductive app_step :: "end_run \<Rightarrow> end_run \<Rightarrow> bool" where
  app_seek: "app_step s (wake_source (s\<lparr>er_pending := Some k\<rparr>))"
| app_hold: "app_step s (s\<lparr>er_held := True\<rparr>)"
| app_release: "app_step s (wake_run_end (s\<lparr>er_held := False\<rparr>))"

definition run_step :: "(seek \<Rightarrow> seek_refusal + seek) \<Rightarrow> end_run \<Rightarrow> end_run \<Rightarrow> bool" where
  "run_step accept s t \<longleftrightarrow> arm_step accept s t \<or> app_step s t"

inductive_cases arm_step_cases: "arm_step accept s t"
inductive_cases app_step_cases: "app_step s t"

definition at_rest :: "(seek \<Rightarrow> seek_refusal + seek) \<Rightarrow> end_run \<Rightarrow> bool" where
  "at_rest accept s \<longleftrightarrow> (\<forall>t. \<not> arm_step accept s t)"

section \<open>Runs end\<close>

definition flushes_queued :: "ctl list \<Rightarrow> nat" where
  "flushes_queued q = length (filter (\<lambda>p. p = Flush_ctl) q)"

definition between_streams :: "source_pc \<Rightarrow> bool" where
  "between_streams pc \<longleftrightarrow> pc \<noteq> Src_flush \<and> pc \<noteq> Src_play"

text \<open>Nothing is under way and nothing is asked for, so the run is due to end.\<close>

definition due :: "end_run \<Rightarrow> bool" where
  "due s \<longleftrightarrow> \<not> er_shutdown s \<and> \<not> er_held s \<and> er_source s \<in> {Src_ready, Src_parked} \<and> er_pending s = None \<and>
     (\<forall>i < length (er_queues s). er_queues s ! i = [])"

definition sinks_inv :: "end_run \<Rightarrow> bool" where
  "sinks_inv s \<longleftrightarrow> length (er_sinks s) = length (er_queues s) \<and> er_queues s \<noteq> [] \<and>
     (\<forall>i < length (er_queues s).
        fst (er_sinks s ! i) + flushes_queued (er_queues s ! i) + (if er_source s = Src_flush then 1 else 0) = er_taken s \<and>
        (between_streams (er_source s) \<longrightarrow>
           (if er_queues s ! i = [] then snd (er_sinks s ! i) else last (er_queues s ! i) = Eos_ctl)))"

definition pcs_inv :: "end_run \<Rightarrow> bool" where
  "pcs_inv s \<longleftrightarrow> (er_waker s \<or> er_wake s) \<and>
     (er_source s = Src_parked \<longrightarrow> er_pending s = None \<and> \<not> er_shutdown s) \<and> (er_source s = Src_done \<longrightarrow> er_shutdown s) \<and>
     (case er_poll s of Poll_idle \<Rightarrow> True | Poll_counted n \<Rightarrow> n \<le> er_taken s | Poll_sinks n \<Rightarrow> n \<le> er_taken s)"

definition wake_inv :: "end_run \<Rightarrow> bool" where
  "wake_inv s \<longleftrightarrow> (due s \<longrightarrow> er_wake s \<or> er_poll s \<noteq> Poll_idle)"

lemmas end_run_defs = wake_run_end_def wake_source_def sink_flushed_def sink_ended_def push_ctl_def

lemma init_inv: "0 < n \<Longrightarrow> sinks_inv (end_run_init n) \<and> pcs_inv (end_run_init n) \<and> wake_inv (end_run_init n)"
  by (auto simp: sinks_inv_def pcs_inv_def wake_inv_def end_run_init_def flushes_queued_def between_streams_def)

lemma pcs_step: "run_step accept s t \<Longrightarrow> pcs_inv s \<Longrightarrow> pcs_inv t"
  unfolding run_step_def
  by (elim disjE arm_step_cases app_step_cases) (auto simp: pcs_inv_def end_run_defs split: poll_pc.splits if_splits)

lemma last_flush: "flushes_queued (q @ [Flush_ctl]) = Suc (flushes_queued q)" "flushes_queued (q @ [Eos_ctl]) = flushes_queued q"
  "flushes_queued (Flush_ctl # q) = Suc (flushes_queued q)" "flushes_queued (Eos_ctl # q) = flushes_queued q" "flushes_queued [] = 0"
  by (simp_all add: flushes_queued_def)

lemma sinks_app: "app_step s t \<Longrightarrow> sinks_inv s \<Longrightarrow> sinks_inv t"
  by (elim app_step_cases) (auto simp: sinks_inv_def end_run_defs between_streams_def split: if_splits)

lemma sinks_arm:
  assumes "arm_step accept s t" "sinks_inv s"
  shows "sinks_inv t"
  using assms(1)
proof (cases rule: arm_step.cases)
  case (sink_takes_flush i q)
  then show ?thesis using assms(2)
    by (auto simp: sinks_inv_def end_run_defs nth_list_update last_flush split: if_splits)
next
  case (sink_skips_eos i q)
  then show ?thesis using assms(2)
    by (auto simp: sinks_inv_def eos_is_stale_def between_streams_def nth_list_update last_flush split: if_splits)
next
  case (sink_takes_eos i q)
  then show ?thesis using assms(2)
    by (auto simp: sinks_inv_def end_run_defs nth_list_update last_flush split: if_splits)
qed (use assms(2) in \<open>auto simp: sinks_inv_def end_run_defs between_streams_def last_flush split: if_splits\<close>)

lemma due_ended: "due s \<Longrightarrow> sinks_inv s \<Longrightarrow> n \<le> er_taken s \<Longrightarrow> every_sink_ended n (er_sinks s)"
  by (auto simp: due_def sinks_inv_def every_sink_ended_def list_all_length between_streams_def last_flush split: prod.splits)

definition serves_all :: "(seek \<Rightarrow> seek_refusal + seek) \<Rightarrow> bool" where
  "serves_all accept \<longleftrightarrow> (\<forall>k. \<exists>k'. accept k = Inr k')"

lemma wake_app: "app_step s t \<Longrightarrow> pcs_inv s \<Longrightarrow> wake_inv s \<Longrightarrow> wake_inv t"
  by (elim app_step_cases) (auto simp: wake_inv_def due_def pcs_inv_def end_run_defs split: if_splits)

lemma wake_arm:
  assumes "arm_step accept s t" "serves_all accept" "sinks_inv s" "pcs_inv s" "wake_inv s"
  shows "wake_inv t"
  using assms(1)
proof (cases rule: arm_step.cases)
  case (src_refuse k r)
  then show ?thesis using assms(2) by (metis serves_all_def Inl_Inr_False)
next
  case src_ends
  then show ?thesis using assms(3) by (auto simp: wake_inv_def due_def sinks_inv_def end_run_defs intro!: exI [of _ 0])
next
  case (sink_takes_flush i q)
  have "\<not> due t"
  proof
    assume d: "due t"
    then have "q = []" "between_streams (er_source s)"
      using sink_takes_flush by (auto simp: due_def sink_flushed_def between_streams_def nth_list_update)
    then show False using assms(3) sink_takes_flush unfolding sinks_inv_def by fastforce
  qed
  then show ?thesis by (simp add: wake_inv_def)
next
  case (sink_skips_eos i q)
  have "\<not> due t"
  proof
    assume d: "due t"
    then have q: "q = []" "er_source s \<noteq> Src_flush"
      using sink_skips_eos by (auto simp: due_def nth_list_update)
    have "fst (er_sinks s ! i) + flushes_queued (er_queues s ! i) + (if er_source s = Src_flush then 1 else 0) = er_taken s"
      using assms(3) sink_skips_eos(2) unfolding sinks_inv_def by blast
    then show False using q sink_skips_eos by (simp add: eos_is_stale_def last_flush)
  qed
  then show ?thesis by (simp add: wake_inv_def)
next
  case (sink_takes_eos i q)
  then show ?thesis using assms(4) by (auto simp: wake_inv_def pcs_inv_def end_run_defs)
next
  case (poll_looks n)
  have n: "n \<le> er_taken s" using assms(4) poll_looks(2) by (simp add: pcs_inv_def)
  have "er_poll t \<noteq> Poll_idle" if "due t"
  proof -
    have "due s" using that unfolding poll_looks(1) by (simp add: due_def)
    then have "every_sink_ended n (er_sinks s)" using assms(3) n by (rule due_ended)
    then show ?thesis unfolding poll_looks(1) by simp
  qed
  then show ?thesis by (simp add: wake_inv_def)
qed (use assms(5) in \<open>auto simp: wake_inv_def due_def end_run_defs split: if_splits\<close>)

lemma run_inv:
  assumes "(run_step accept)\<^sup>*\<^sup>* (end_run_init n) s" "0 < n"
  shows "sinks_inv s \<and> pcs_inv s \<and> (serves_all accept \<longrightarrow> wake_inv s)"
  using assms(1)
proof (induction rule: rtranclp_induct)
  case (step s t)
  then show ?case
    using pcs_step [of accept s t] sinks_app [of s t] sinks_arm [of accept s t] wake_app [of s t] wake_arm [of accept s t]
    unfolding run_step_def by blast
qed (use init_inv [OF assms(2)] in simp)

lemma at_rest_state:
  assumes "at_rest accept s"
  shows "er_source s \<in> {Src_parked, Src_done}" "\<And>i. i < length (er_queues s) \<Longrightarrow> er_queues s ! i = []"
    "er_poll s = Poll_idle" "\<not> er_wake s"
proof -
  note r = assms [unfolded at_rest_def, rule_format]
  show "er_poll s = Poll_idle" using r poll_looks poll_decides by (cases "er_poll s") blast+
  then show "\<not> er_wake s" using r poll_counts by blast
  show "er_queues s ! i = []" if i: "i < length (er_queues s)" for i
  proof (cases "er_queues s ! i")
    case (Cons p q)
    then show ?thesis
      using i r sink_takes_flush [OF i] sink_skips_eos [OF i] sink_takes_eos [OF i] by (cases p) blast+
  qed
  show "er_source s \<in> {Src_parked, Src_done}"
  proof (cases "er_source s")
    case (Src_taken k)
    then show ?thesis using r src_refuse [OF Src_taken] src_accept [OF Src_taken] by (cases "accept k") blast+
  next
    case Src_ready
    then show ?thesis using r src_take src_stop src_park by (cases "er_pending s") blast+
  qed (use r src_flushes src_ends in \<open>blast+\<close>)
qed

lemma served_run_ends:
  assumes "(run_step accept)\<^sup>*\<^sup>* (end_run_init n) s" "0 < n" "serves_all accept" "at_rest accept s" "\<not> er_held s"
  shows "er_shutdown s \<and> er_source s = Src_done"
proof -
  have i: "pcs_inv s" "wake_inv s" using run_inv [OF assms(1,2)] assms(3) by auto
  note a = at_rest_state [OF assms(4)]
  have "\<not> due s" using i(2) a(3,4) by (simp add: wake_inv_def)
  then show ?thesis using i(1) a(1,2) assms(5) by (auto simp: due_def pcs_inv_def)
qed

lemma at_rest_iff:
  "at_rest accept s \<longleftrightarrow> er_source s \<in> {Src_parked, Src_done} \<and> (\<forall>i < length (er_queues s). er_queues s ! i = []) \<and>
     er_poll s = Poll_idle \<and> \<not> er_wake s"
proof
  assume "at_rest accept s"
  then show "er_source s \<in> {Src_parked, Src_done} \<and> (\<forall>i < length (er_queues s). er_queues s ! i = []) \<and> er_poll s = Poll_idle \<and> \<not> er_wake s"
    using at_rest_state by blast
qed (auto simp: at_rest_def elim!: arm_step_cases)

text \<open>States of a run with one sink and no flushing seek taken.\<close>

definition one_sink :: "seek option \<Rightarrow> source_pc \<Rightarrow> ctl list \<Rightarrow> bool \<Rightarrow> poll_pc \<Rightarrow> bool \<Rightarrow> nat option \<Rightarrow> bool \<Rightarrow> end_run" where
  "one_sink pending source q at_eos poll wake ended down =
     \<lparr>er_pending = pending, er_taken = 0, er_source = source, er_queues = [q], er_sinks = [(0, at_eos)], er_poll = poll,
      er_waker = (\<not> wake), er_wake = wake, er_held = False, er_ended_at = ended, er_shutdown = down\<rparr>"

lemma one_sink_stream:
  "(run_step accept)\<^sup>*\<^sup>* (end_run_init 1) (one_sink None Src_parked [] True Poll_idle True None False)"
proof -
  let ?q = "one_sink None Src_ready [Eos_ctl] False Poll_idle True None False"
  let ?p = "one_sink None Src_parked [Eos_ctl] False Poll_idle True None False"
  have "run_step accept (end_run_init 1) ?q"
    using src_ends [of "end_run_init 1" accept] by (simp add: run_step_def end_run_init_def push_ctl_def one_sink_def)
  moreover have "run_step accept ?q ?p" using src_park [of ?q accept] by (simp add: run_step_def one_sink_def)
  moreover have "run_step accept ?p (one_sink None Src_parked [] True Poll_idle True None False)"
    using sink_takes_eos [of 0 ?p "[]" accept] by (simp add: run_step_def one_sink_def eos_is_stale_def sink_ended_def wake_run_end_def)
  ultimately show ?thesis by (meson converse_rtranclp_into_rtranclp rtranclp.rtrancl_refl)
qed

section \<open>Contracts\<close>

text \<open>
  Every seek is answered: over any sequence of seeks and takes, the only ticket without an answer is that of the seek
  still pending, which is the latest, and an answer once given never changes.
\<close>

theorem every_seek_answered:
  "case seek_run ops ([], cell_new) of (ts, c) \<Rightarrow>
     (\<forall>t < length ts. ts ! t = None \<longleftrightarrow> Suc t = length ts \<and> has_pending c) \<and>
     (\<forall>t < length ts. ts ! t = None \<or> fst (seek_run later (ts, c)) ! t = ts ! t)"
proof -
  have "tickets_ok ([], cell_new)" by (simp add: tickets_ok_def cell_new_def)
  then have ok: "tickets_ok (seek_run ops ([], cell_new))" by (rule tickets_run)
  obtain ts c where tc: "seek_run ops ([], cell_new) = (ts, c)" by fastforce
  have "ts ! t = None \<longleftrightarrow> Suc t = length ts \<and> has_pending c" if "t < length ts" for t
    using ok that unfolding tc by (auto simp: tickets_ok_def has_pending_def split: option.splits prod.splits)
  moreover have "ts ! t = None \<or> fst (seek_run later (ts, c)) ! t = ts ! t" if "t < length ts" for t
    using answers_run [OF ok, of t _ later] that unfolding tc by (cases "ts ! t") auto
  ultimately show ?thesis by (simp add: tc)
qed



text \<open>
  C28. A refused seek can keep a run open for ever: when the application seeks just as the last sink ends and the source
  refuses that seek, nothing wakes the ending task again. The run is at rest with nothing pending, every sink at its end and
  nobody holding it open, and has not been shut down.
\<close>

theorem refused_seek_strands_run:
  "\<exists>s. (run_step flushing_only)\<^sup>*\<^sup>* (end_run_init 1) s \<and> at_rest flushing_only s \<and> due s \<and>
     every_sink_ended (er_taken s) (er_sinks s) \<and> \<not> er_shutdown s"
proof -
  define k where "k = (flush_to 0)\<lparr>sk_flags := SEEK_NONE\<rparr>"
  have k: "flushing_only k = Inl NonFlushing"
    by (simp add: flushing_only_def k_def is_flush_def flags_contains_def SEEK_NONE_def SEEK_FLUSH_def)
  let ?a = "one_sink None Src_parked [] True Poll_idle True None False"
  let ?b = "one_sink (Some k) Src_ready [] True Poll_idle True None False"
  let ?c = "one_sink (Some k) Src_ready [] True (Poll_counted 0) False None False"
  let ?d = "one_sink (Some k) Src_ready [] True (Poll_sinks 0) False None False"
  let ?e = "one_sink (Some k) Src_ready [] True Poll_idle False None False"
  let ?f = "one_sink None (Src_taken k) [] True Poll_idle False None False"
  let ?g = "one_sink None Src_ready [] True Poll_idle False None False"
  let ?h = "one_sink None Src_parked [] True Poll_idle False None False"
  have ab: "run_step flushing_only ?a ?b" using app_seek [of ?a k] by (simp add: run_step_def one_sink_def wake_source_def)
  have bc: "run_step flushing_only ?b ?c" using poll_counts [of ?b flushing_only] by (simp add: run_step_def one_sink_def)
  have cd: "run_step flushing_only ?c ?d"
    using poll_looks [of ?c 0 flushing_only] by (simp add: run_step_def one_sink_def every_sink_ended_def)
  have de: "run_step flushing_only ?d ?e" using poll_decides [of ?d 0 flushing_only] by (simp add: run_step_def one_sink_def)
  have ef: "run_step flushing_only ?e ?f" using src_take [of ?e k flushing_only] by (simp add: run_step_def one_sink_def)
  have fg: "run_step flushing_only ?f ?g" using src_refuse [of ?f k flushing_only, OF _ k] by (simp add: run_step_def one_sink_def)
  have gh: "run_step flushing_only ?g ?h" using src_park [of ?g flushing_only] by (simp add: run_step_def one_sink_def)
  have "(run_step flushing_only)\<^sup>*\<^sup>* (end_run_init 1) ?h"
    using one_sink_stream [of flushing_only] ab bc cd de ef fg gh by (meson rtranclp.rtrancl_into_rtrancl)
  moreover have "at_rest flushing_only ?h" "due ?h" "every_sink_ended (er_taken ?h) (er_sinks ?h)" "\<not> er_shutdown ?h"
    by (simp_all add: at_rest_iff one_sink_def due_def every_sink_ended_def)
  ultimately show ?thesis by blast
qed

end
