(* ===== verification/Controller.thy ===== *)
theory Controller
  imports Property Segments
begin

text \<open>
  Animated properties (\<^verbatim>\<open>controller.rs\<close>): keyframed curves, programs that bind them to property names, and the sampling
  of a resolved program. Curve values are the rationals finite doubles stand for, \<open>rnd\<close> rounds the result of every
  operation, and \<open>encode\<close> is the double of a rational. An element is a state with its own \<^verbatim>\<open>set_property\<close>.
\<close>

section \<open>Curves\<close>

datatype control_source = Step_curve "(u64 \<times> rat) list" | Linear_curve "(u64 \<times> rat) list"

definition step_curve :: "(u64 \<times> rat) list \<Rightarrow> control_source" where
  "step_curve keys = Step_curve (sort_key fst keys)"

definition linear_curve :: "(u64 \<times> rat) list \<Rightarrow> control_source" where
  "linear_curve keys = Linear_curve (sort_key fst keys)"

fun curve_keys :: "control_source \<Rightarrow> (u64 \<times> rat) list" where
  "curve_keys (Step_curve k) = k"
| "curve_keys (Linear_curve k) = k"

definition partition_point :: "('a \<Rightarrow> bool) \<Rightarrow> 'a list \<Rightarrow> nat" where
  "partition_point P xs = length (takeWhile P xs)"

definition interpolate :: "(rat \<Rightarrow> rat) \<Rightarrow> u64 \<times> rat \<Rightarrow> u64 \<times> rat \<Rightarrow> u64 \<Rightarrow> rat" where
  "interpolate rnd k0 k1 t =
     (let (t0, v0) = k0; (t1, v1) = k1; whole = rnd (of_int (uint (t1 - t0))); into = rnd (of_int (uint (t - t0)))
      in rnd (v0 + rnd (rnd (v1 - v0) * rnd (into / whole))))"

definition value_at :: "(rat \<Rightarrow> rat) \<Rightarrow> control_source \<Rightarrow> u64 \<Rightarrow> rat" where
  "value_at rnd src t =
     (let keys = curve_keys src in
      if keys = [] then 0
      else if t \<le> fst (hd keys) then snd (hd keys)
      else if fst (last keys) \<le> t then snd (last keys)
      else case src of
        Step_curve _ \<Rightarrow> snd (keys ! (partition_point (\<lambda>k. fst k \<le> t) keys - 1))
      | Linear_curve _ \<Rightarrow>
          let i = partition_point (\<lambda>k. fst k < t) keys in interpolate rnd (keys ! (i - 1)) (keys ! i) t)"

section \<open>Programs\<close>

type_synonym control_program = "(string \<times> control_source) list"

definition control_bind :: "string \<Rightarrow> control_source \<Rightarrow> control_program \<Rightarrow> control_program" where
  "control_bind property src bs =
     (case position (\<lambda>b. fst b = property) bs of
        Some i \<Rightarrow> bs[i := (property, src)]
      | None \<Rightarrow> bs @ [(property, src)])"

datatype control_reason = UnknownProperty | NotAnimatable prop_kind | NoKeyframes | Control_rejected prop_error

record control_fault =
  cf_property :: string
  cf_reason :: control_reason

record control_bound =
  cb_property :: string
  cb_kind :: prop_kind
  cb_source :: control_source

definition animatable :: "prop_kind \<Rightarrow> bool" where
  "animatable kind \<longleftrightarrow> kind \<in> {K_bool, K_int, K_uint, K_double}"

fun control_resolve :: "property_spec list \<Rightarrow> control_program \<Rightarrow> control_fault + control_bound list" where
  "control_resolve specs [] = Inr []"
| "control_resolve specs ((property, src) # bs) =
     (if curve_keys src = [] then Inl \<lparr>cf_property = property, cf_reason = NoKeyframes\<rparr>
      else case find (\<lambda>s. ps_name s = property) specs of
        None \<Rightarrow> Inl \<lparr>cf_property = property, cf_reason = UnknownProperty\<rparr>
      | Some spec \<Rightarrow>
          if \<not> animatable (ps_kind spec) then Inl \<lparr>cf_property = property, cf_reason = NotAnimatable (ps_kind spec)\<rparr>
          else bind_res (control_resolve specs bs) (\<lambda>bound.
            Inr (\<lparr>cb_property = property, cb_kind = ps_kind spec, cb_source = src\<rparr> # bound)))"

definition trunc_i64 :: "rat \<Rightarrow> 64 word" where
  "trunc_i64 x = of_int (clamp_i64 (if x < 0 then - \<lfloor>- x\<rfloor> else \<lfloor>x\<rfloor>))"

fun control_convert :: "(rat \<Rightarrow> rat) \<Rightarrow> (rat \<Rightarrow> f64) \<Rightarrow> prop_kind \<Rightarrow> rat \<Rightarrow> prop_value" where
  "control_convert rnd encode K_bool x = P_bool (1 / 2 \<le> x)"
| "control_convert rnd encode K_double x = P_double (encode x)"
| "control_convert rnd encode K_uint x = P_uint (if x \<le> 0 then 0 else f64_as_u64 (rnd (x + 1 / 2)))"
| "control_convert rnd encode _ x = P_int (if x < 0 then trunc_i64 (rnd (x - 1 / 2)) else trunc_i64 (rnd (x + 1 / 2)))"

text \<open>The sampling of a frame. \<open>set_control\<close> is the element's; a refusal ends the run with the fault.\<close>

fun control_apply ::
  "(rat \<Rightarrow> rat) \<Rightarrow> (rat \<Rightarrow> f64) \<Rightarrow> ('t \<Rightarrow> string \<Rightarrow> prop_value \<Rightarrow> prop_error + 't) \<Rightarrow> u64 \<Rightarrow> control_bound list \<Rightarrow> 't \<Rightarrow>
     control_fault + 't" where
  "control_apply rnd encode set_control pts [] target = Inr target"
| "control_apply rnd encode set_control pts (b # bs) target =
     (case set_control target (cb_property b) (control_convert rnd encode (cb_kind b) (value_at rnd (cb_source b) pts)) of
        Inl e \<Rightarrow> Inl \<lparr>cf_property = cb_property b, cf_reason = Control_rejected e\<rparr>
      | Inr target \<Rightarrow> control_apply rnd encode set_control pts bs target)"

fun fault_text :: "(prop_error \<Rightarrow> string) \<Rightarrow> string \<Rightarrow> control_reason \<Rightarrow> string" where
  "fault_text show_error p UnknownProperty = ''no property named `'' @ p @ ''` on this element''"
| "fault_text show_error p (NotAnimatable k) = ''property `'' @ p @ ''` is a '' @ kind_label k @ '' and cannot be animated''"
| "fault_text show_error p NoKeyframes = ''property `'' @ p @ ''` is bound to an empty curve''"
| "fault_text show_error p (Control_rejected e) = ''property `'' @ p @ ''` rejected a sampled value ('' @ show_error e @ '')''"

section \<open>Curves hold and interpolate\<close>

definition ordered :: "control_source \<Rightarrow> bool" where
  "ordered src \<longleftrightarrow> sorted (map fst (curve_keys src))"

lemma built_ordered: "ordered (step_curve keys)" "ordered (linear_curve keys)"
  by (simp_all add: ordered_def step_curve_def linear_curve_def)

lemma partition_split:
  "i = partition_point P xs \<Longrightarrow> (\<forall>j < i. P (xs ! j)) \<and> i \<le> length xs \<and> (i < length xs \<longrightarrow> \<not> P (xs ! i))"
  unfolding partition_point_def by (metis length_takeWhile_le nth_length_takeWhile nth_mem set_takeWhileD takeWhile_nth)

text \<open>The last keyframe at or before a time, the first before them all.\<close>

definition keyframe_before :: "(u64 \<times> rat) list \<Rightarrow> u64 \<Rightarrow> u64 \<times> rat" where
  "keyframe_before keys t =
     (case filter (\<lambda>k. fst k \<le> t) keys of [] \<Rightarrow> hd keys | ks \<Rightarrow> last ks)"

lemma sorted_filter_takeWhile:
  "sorted_wrt (<) (map fst keys) \<Longrightarrow> filter (\<lambda>k. fst k \<le> (t :: u64)) keys = takeWhile (\<lambda>k. fst k \<le> t) keys"
proof (induction keys)
  case (Cons k keys)
  show ?case
  proof (cases "fst k \<le> t")
    case False
    then have "\<forall>x \<in> set (k # keys). \<not> fst x \<le> t" using Cons.prems by (fastforce intro: order_trans)
    then show ?thesis using False by (simp add: filter_empty_conv)
  qed (use Cons in simp)
qed simp

lemma step_holds:
  assumes "sorted_wrt (<) (map fst keys)" "keys \<noteq> []"
  shows "value_at rnd (Step_curve keys) t = snd (keyframe_before keys t)"
proof -
  let ?tw = "takeWhile (\<lambda>k. fst k \<le> t) keys"
  have f: "filter (\<lambda>k. fst k \<le> t) keys = ?tw" by (rule sorted_filter_takeWhile [OF assms(1)])
  obtain k ks where k: "keys = k # ks" using assms(2) by (cases keys) auto
  show ?thesis
  proof (cases "fst k < t")
    case False
    then have "\<forall>x \<in> set ks. \<not> fst x \<le> t" using assms(1) k by fastforce
    then have "takeWhile (\<lambda>k. fst k \<le> t) ks = []" by (cases ks) auto
    then show ?thesis using False k f by (auto simp: value_at_def keyframe_before_def Let_def)
  next
    case True
    then have ne: "?tw \<noteq> []" using k by simp
    have l: "last ?tw = keys ! (length ?tw - 1)" using ne last_conv_nth [OF ne] takeWhile_nth [of "length ?tw - 1" _ keys] by simp
    have "?tw = keys" if "fst (last keys) \<le> t"
    proof -
      have "fst x \<le> fst (last keys)" if "x \<in> set keys" for x
        using assms(1) that by (induction keys) (auto dest: last_in_set less_imp_le)
      then show ?thesis using that by (auto simp: takeWhile_eq_all_conv intro: order_trans)
    qed
    then show ?thesis using True k f ne l by (auto simp: value_at_def keyframe_before_def partition_point_def Let_def split: list.split)
  qed
qed

lemma interpolate_between:
  assumes "t0 < t" "t \<le> t1"
  shows "min v0 v1 \<le> interpolate (\<lambda>x. x) (t0, v0) (t1, v1) t \<and> interpolate (\<lambda>x. x) (t0, v0) (t1, v1) t \<le> max v0 v1"
proof -
  define r where "r = (of_int (uint (t - t0)) / of_int (uint (t1 - t0)) :: rat)"
  have u: "uint (t - t0) = uint t - uint t0" "uint (t1 - t0) = uint t1 - uint t0" "uint t0 < uint t" "uint t \<le> uint t1"
    using assms by (simp_all add: uint_sub_if' word_less_def word_le_def)
  have r: "0 \<le> r" "r \<le> 1" unfolding r_def u by (use u(3,4) in \<open>simp_all add: divide_le_eq_1 flip: of_int_diff\<close>)
  have e: "interpolate (\<lambda>x. x) (t0, v0) (t1, v1) t = v0 + (v1 - v0) * r" by (simp only: interpolate_def Let_def prod.case r_def)
  define w where "w = (v1 - v0) * r"
  have "if v0 \<le> v1 then 0 \<le> w \<and> w \<le> v1 - v0 else w \<le> 0 \<and> v1 - v0 \<le> w"
    using r mult_left_mono [of r 1 "v1 - v0"] mult_left_mono_neg [of r 1 "v1 - v0"] unfolding w_def
    by (auto intro: mult_nonneg_nonneg mult_nonpos_nonneg)
  then show ?thesis unfolding e w_def [symmetric] min_def max_def by (auto split: if_splits)
qed

lemma linear_in_range:
  assumes "keys \<noteq> []" "\<forall>k \<in> set keys. lo \<le> snd k \<and> snd k \<le> hi"
  shows "lo \<le> value_at (\<lambda>x. x) (Linear_curve keys) t \<and> value_at (\<lambda>x. x) (Linear_curve keys) t \<le> hi"
proof -
  let ?i = "partition_point (\<lambda>k. fst k < t) keys"
  note p = partition_split [OF refl, of "\<lambda>k. fst k < t" keys]
  have inner: "lo \<le> interpolate (\<lambda>x. x) (keys ! (?i - 1)) (keys ! ?i) t \<and> interpolate (\<lambda>x. x) (keys ! (?i - 1)) (keys ! ?i) t \<le> hi"
    if "\<not> t \<le> fst (hd keys)" "\<not> fst (last keys) \<le> t"
  proof -
    have "0 < ?i" using that(1) assms(1) by (cases keys) (auto simp: partition_point_def)
    moreover have "?i < length keys"
    proof (rule ccontr)
      assume "\<not> ?i < length keys"
      then have "fst (last keys) < t" using p assms(1) by (auto simp: last_conv_nth)
      then show False using that(2) by simp
    qed
    ultimately have "fst (keys ! (?i - 1)) < t" "t \<le> fst (keys ! ?i)" "keys ! (?i - 1) \<in> set keys" "keys ! ?i \<in> set keys"
      using p by auto
    then show ?thesis
      using interpolate_between [of "fst (keys ! (?i - 1))" t "fst (keys ! ?i)" "snd (keys ! (?i - 1))" "snd (keys ! ?i)"] assms(2)
      by (fastforce simp: min_def max_def split: if_splits)
  qed
  show ?thesis using inner assms hd_in_set [OF assms(1)] last_in_set [OF assms(1)] by (auto simp: value_at_def Let_def)
qed

section \<open>Resolved programs are well typed\<close>

lemma convert_kind: "animatable k \<Longrightarrow> prop_kind_of (control_convert rnd encode k x) = k"
  by (auto simp: animatable_def)

definition bound_ok :: "property_spec list \<Rightarrow> control_bound \<Rightarrow> bool" where
  "bound_ok specs b \<longleftrightarrow> curve_keys (cb_source b) \<noteq> [] \<and> animatable (cb_kind b) \<and>
     (\<exists>spec. find (\<lambda>s. ps_name s = cb_property b) specs = Some spec \<and> ps_kind spec = cb_kind b)"

lemma resolve_bound:
  "control_resolve specs bs = Inr bound \<Longrightarrow>
     list_all (bound_ok specs) bound \<and> map (\<lambda>b. (cb_property b, cb_source b)) bound = bs"
  by (induction specs bs arbitrary: bound rule: control_resolve.induct)
    (auto simp: bound_ok_def bind_res_eq_Inr split: if_splits option.splits)

definition binding_ok :: "property_spec list \<Rightarrow> string \<times> control_source \<Rightarrow> bool" where
  "binding_ok specs b \<longleftrightarrow> curve_keys (snd b) \<noteq> [] \<and>
     (case find (\<lambda>s. ps_name s = fst b) specs of None \<Rightarrow> False | Some spec \<Rightarrow> animatable (ps_kind spec))"

lemma resolve_fails:
  "control_resolve specs bs = Inl fault \<Longrightarrow>
     \<exists>pre b post. bs = pre @ b # post \<and> list_all (binding_ok specs) pre \<and> \<not> binding_ok specs b \<and> cf_property fault = fst b"
proof (induction specs bs rule: control_resolve.induct)
  case (2 specs property src bs)
  show ?case
  proof (cases "binding_ok specs (property, src)")
    case True
    then obtain spec where s: "find (\<lambda>s. ps_name s = property) specs = Some spec" "animatable (ps_kind spec)" "curve_keys src \<noteq> []"
      by (auto simp: binding_ok_def split: option.splits)
    then have "control_resolve specs bs = Inl fault" using "2.prems" by (simp add: bind_res_eq_Inl)
    from "2.IH" [OF s(3,1) _ this] s(2) obtain pre b post where
      "bs = pre @ b # post" "list_all (binding_ok specs) pre" "\<not> binding_ok specs b" "cf_property fault = fst b" by auto
    then show ?thesis using True by (intro exI [of _ "(property, src) # pre"] exI [of _ b] exI [of _ post]) simp
  next
    case False
    then have "cf_property fault = property"
      using "2.prems" by (auto simp: binding_ok_def split: if_splits option.splits)
    then show ?thesis using False by (intro exI [of _ "[]"] exI [of _ "(property, src)"] exI [of _ bs]) simp
  qed
qed simp

text \<open>
  A program that resolves against an element drives it only with values of the kinds the element declares, for
  properties it declares, one per binding and in their order; a program that does not is refused for its first bad binding.
\<close>

theorem animation_well_typed:
  "case control_resolve specs bs of
     Inr bound \<Rightarrow>
       map cb_property bound = map fst bs \<and>
       list_all (\<lambda>b. \<exists>spec. find (\<lambda>s. ps_name s = cb_property b) specs = Some spec \<and>
         prop_kind_of (control_convert rnd encode (cb_kind b) (value_at rnd (cb_source b) pts)) = ps_kind spec) bound
   | Inl fault \<Rightarrow>
       \<exists>pre b post. bs = pre @ b # post \<and> list_all (binding_ok specs) pre \<and> \<not> binding_ok specs b \<and> cf_property fault = fst b"
proof (cases "control_resolve specs bs")
  case (Inr bound)
  note r = resolve_bound [OF Inr]
  have "map cb_property bound = map fst bs" using r by (auto simp flip: r [THEN conjunct2])
  then show ?thesis using Inr r convert_kind by (auto simp: list_all_iff bound_ok_def)
next
  case (Inl fault)
  then show ?thesis using resolve_fails by simp
qed

text \<open>
  A curve never leaves the range of its keyframes, in exact arithmetic: a step curve with distinct times has the value of
  the last keyframe at or before the time asked for, a linear one lies between its least and its greatest value.
\<close>

theorem curve_in_range:
  assumes "keys \<noteq> []" "sorted_wrt (<) (map fst keys)" "\<forall>k \<in> set keys. lo \<le> snd k \<and> snd k \<le> hi"
  shows "value_at rnd (Step_curve keys) t = snd (keyframe_before keys t) \<and>
    lo \<le> value_at (\<lambda>x. x) (Linear_curve keys) t \<and> value_at (\<lambda>x. x) (Linear_curve keys) t \<le> hi"
  using step_holds [OF assms(2,1)] linear_in_range [OF assms(1,3)] by blast

theorem curve_in_range_witness: "0 \<le> value_at (\<lambda>x. x) (Linear_curve [(0, 0), (10, 1)]) 4"
  using curve_in_range [of "[(0, 0), (10, 1)]" 0 1 "\<lambda>x. x" 4] by simp

end
