(* ===== verification/Slot.thy ===== *)
theory Slot
  imports Caps_Laws Negotiate
begin

text \<open>
  The swappable element slot (\<^verbatim>\<open>slot.rs\<close>), as negotiation sees it: the constraint of the element behind the lock is
  evaluated per input, through \<open>forward_image\<close>. The current element is read once per call, so a swap shows from the next
  call on.
\<close>

definition forward_image :: "caps_constraint \<Rightarrow> caps \<Rightarrow> caps_set" where
  "forward_image c input =
     (case c of
        Identity s \<Rightarrow> set_intersect [input] s
      | IdentityAny \<Rightarrow> [input]
      | Mapping pairs \<Rightarrow>
          fold (\<lambda>(_, produced) out. set_union out produced) (filter (\<lambda>(accepted, _). set_accepts accepted input) pairs) []
      | DerivedOutput f \<Rightarrow> f input
      | DerivedFields t \<Rightarrow> derive t input
      | Accepts _ \<Rightarrow> []
      | Produces _ \<Rightarrow> []
      | AcceptsAny \<Rightarrow> [])"

definition slot_as_transform :: "caps_constraint \<Rightarrow> caps_constraint" where
  "slot_as_transform c = DerivedOutput (forward_image c)"

definition slot_as_sink :: "caps_constraint \<Rightarrow> caps_constraint" where
  "slot_as_sink c = (case c of Accepts s \<Rightarrow> Accepts s | _ \<Rightarrow> AcceptsAny)"

text \<open>The slot: what it holds, a swap, and the constraint the next call answers.\<close>

record element_slot =
  es_element :: caps_constraint

definition slot_swap :: "caps_constraint \<Rightarrow> element_slot \<Rightarrow> element_slot" where
  "slot_swap c s = s\<lparr>es_element := c\<rparr>"

definition slot_constraint :: "element_slot \<Rightarrow> caps_constraint" where
  "slot_constraint s = slot_as_transform (es_element s)"

section \<open>The slot is transparent\<close>

lemma set_accepts_member: "set_accepts s c \<longleftrightarrow> (\<exists>a \<in> set s. is_ok (caps_intersect a c))"
  by (simp add: set_accepts_def list_ex_iff)

lemma set_accepts_union: "set_accepts (set_union a b) c \<longleftrightarrow> set_accepts a c \<or> set_accepts b c"
  by (auto simp: set_accepts_member set_union_def set_extend_unique)

lemma fold_union_accepts:
  "set_accepts (fold (\<lambda>(_, produced) out. set_union out produced) pairs acc) c \<longleftrightarrow>
     set_accepts acc c \<or> (\<exists>(i, p) \<in> set pairs. set_accepts p c)"
  by (induction pairs arbitrary: acc) (auto simp: set_accepts_union)

lemma slot_mapping:
  "transform_pair_consistent (slot_as_transform (Mapping pairs)) i out \<longleftrightarrow> transform_pair_consistent (Mapping pairs) i out"
  by (auto simp: slot_as_transform_def forward_image_def fold_union_accepts set_accepts_def [of "[]"] list_ex_iff)

text \<open>Every pair of input and output that the element behind the slot relates is one the slot relates.\<close>

lemma slot_keeps_pairs:
  assumes "transform_pair_consistent c i out" "constraint_accepts c i" "caps_is_fixed i"
    and "c \<notin> range Accepts" "c \<notin> range Produces" "c \<noteq> AcceptsAny"
  shows "transform_pair_consistent (slot_as_transform c) i out"
proof (cases c)
  case (Identity s)
  then have "i = out" "set_accepts s i" using assms(1,2) by simp_all
  then obtain d where d: "caps_ne d" "caps_le d i" "set_admits s d" by (auto simp: set_accepts_iff)
  then have "set_admits (set_intersect [i] s) d" using set_admits_intersect [OF d(1), of "[i]" s] by (simp add: set_admits_iff)
  then show ?thesis using d Identity \<open>i = out\<close> by (auto simp: slot_as_transform_def forward_image_def set_accepts_iff)
next
  case IdentityAny
  then have "i = out" using assms(1) by simp
  moreover have "set_accepts [i] i" using caps_fixed_ne [OF assms(3)] caps_le_refl by (auto simp: set_accepts_iff set_admits_def)
  ultimately show ?thesis using IdentityAny by (simp add: slot_as_transform_def forward_image_def)
next
  case (Mapping pairs)
  then show ?thesis using slot_mapping assms(1) by simp
qed (use assms in \<open>auto simp: slot_as_transform_def forward_image_def\<close>)

end
