(* ===== verification/Aggregator.thy ===== *)
theory Aggregator
  imports G2G_Prelude "HOL-Library.Multiset" "HOL-Library.Sublist"
begin

text \<open>
  The per-input collector of elements with several inputs (\<^verbatim>\<open>aggregator.rs\<close>): queues per input pad, which inputs have
  ended, and the release policies. An index past the pads panics, which is \<open>None\<close> in the result of an operation. The step
  relation interleaves what the fan-in runner does: items and ends of stream arrive on their pads, an element takes.
\<close>

section \<open>The collector\<close>

record 'a input_aggregator =
  ia_queues :: "'a list list"
  ia_ended :: "bool list"
  ia_max_depth :: nat
  ia_dropped :: u64

definition USIZE_MAX :: nat where "USIZE_MAX = 2 ^ 64 - 1"

definition aggregator_new :: "nat \<Rightarrow> 'a input_aggregator" where
  "aggregator_new inputs =
     \<lparr>ia_queues = replicate inputs [], ia_ended = replicate inputs False, ia_max_depth = USIZE_MAX, ia_dropped = 0\<rparr>"

definition with_max_depth :: "nat \<Rightarrow> 'a input_aggregator \<Rightarrow> 'a input_aggregator" where
  "with_max_depth depth g = g\<lparr>ia_max_depth := max depth 1\<rparr>"

definition input_count :: "'a input_aggregator \<Rightarrow> nat" where
  "input_count g = length (ia_queues g)"

definition add_input :: "'a input_aggregator \<Rightarrow> 'a input_aggregator" where
  "add_input g = g\<lparr>ia_queues := ia_queues g @ [[]], ia_ended := ia_ended g @ [False]\<rparr>"

text \<open>The loop of \<^verbatim>\<open>push\<close>: the oldest items go while the queue is over its depth.\<close>

fun shed :: "nat \<Rightarrow> 'a list \<Rightarrow> u64 \<Rightarrow> 'a list \<times> u64" where
  "shed depth [] dropped = ([], dropped)"
| "shed depth (x # q) dropped = (if depth < length (x # q) then shed depth q (dropped + 1) else (x # q, dropped))"

definition agg_push :: "nat \<Rightarrow> 'a \<Rightarrow> 'a input_aggregator \<Rightarrow> 'a input_aggregator option" where
  "agg_push i x g =
     (if i < length (ia_queues g)
      then let (q, d) = shed (ia_max_depth g) (ia_queues g ! i @ [x]) (ia_dropped g)
           in Some (g\<lparr>ia_queues := (ia_queues g)[i := q], ia_dropped := d\<rparr>)
      else None)"

definition push_latest :: "nat \<Rightarrow> 'a \<Rightarrow> 'a input_aggregator \<Rightarrow> 'a input_aggregator option" where
  "push_latest i x g =
     (if i < length (ia_queues g) then Some (g\<lparr>ia_queues := (ia_queues g)[i := [x]]\<rparr>) else None)"

definition agg_latest :: "nat \<Rightarrow> 'a input_aggregator \<Rightarrow> 'a option option" where
  "agg_latest i g =
     (if i < length (ia_queues g)
      then Some (if ia_queues g ! i = [] then None else Some (last (ia_queues g ! i))) else None)"

definition agg_clear :: "nat \<Rightarrow> 'a input_aggregator \<Rightarrow> 'a input_aggregator option" where
  "agg_clear i g = (if i < length (ia_queues g) then Some (g\<lparr>ia_queues := (ia_queues g)[i := []]\<rparr>) else None)"

definition mark_ended :: "nat \<Rightarrow> 'a input_aggregator \<Rightarrow> 'a input_aggregator option" where
  "mark_ended i g = (if i < length (ia_ended g) then Some (g\<lparr>ia_ended := (ia_ended g)[i := True]\<rparr>) else None)"

definition contributors :: "'a input_aggregator \<Rightarrow> nat list" where
  "contributors g = filter (\<lambda>i. \<not> (ia_ended g ! i \<and> ia_queues g ! i = [])) [0..<length (ia_queues g)]"

text \<open>Every contributor has an item queued, and there is one.\<close>

definition round_ready :: "'a input_aggregator \<Rightarrow> bool" where
  "round_ready g \<longleftrightarrow> contributors g \<noteq> [] \<and> list_all (\<lambda>i. ia_queues g ! i \<noteq> []) (contributors g)"

definition pop_at :: "nat \<Rightarrow> 'a input_aggregator \<Rightarrow> 'a input_aggregator" where
  "pop_at i g = g\<lparr>ia_queues := (ia_queues g)[i := tl (ia_queues g ! i)]\<rparr>"

definition take_round :: "'a input_aggregator \<Rightarrow> (nat \<times> 'a) list option \<times> 'a input_aggregator" where
  "take_round g =
     (if \<not> round_ready g then (None, g)
      else (Some (map (\<lambda>i. (i, hd (ia_queues g ! i))) (contributors g)), fold pop_at (contributors g) g))"

text \<open>\<^verbatim>\<open>min_by_key\<close>: the first of least key.\<close>

fun min_by_key :: "(nat \<Rightarrow> 'k::linorder) \<Rightarrow> nat list \<Rightarrow> nat option" where
  "min_by_key key [] = None"
| "min_by_key key (i # is) =
     (case min_by_key key is of None \<Rightarrow> Some i | Some j \<Rightarrow> Some (if key i \<le> key j then i else j))"

definition take_earliest_by :: "('a \<Rightarrow> 'k::linorder) \<Rightarrow> 'a input_aggregator \<Rightarrow> (nat \<times> 'a) option \<times> 'a input_aggregator" where
  "take_earliest_by key g =
     (if \<not> round_ready g then (None, g)
      else case min_by_key (\<lambda>i. key (hd (ia_queues g ! i))) (contributors g) of
        None \<Rightarrow> (None, g)
      | Some w \<Rightarrow> (Some (w, hd (ia_queues g ! w)), pop_at w g))"

definition latest_ready :: "nat \<Rightarrow> 'a input_aggregator \<Rightarrow> bool" where
  "latest_ready timing g \<longleftrightarrow> list_all (\<lambda>i. i = timing \<or> ia_queues g ! i \<noteq> []) [0..<length (ia_queues g)]"

definition take_round_latest :: "nat \<Rightarrow> 'a input_aggregator \<Rightarrow> ('a option \<times> 'a input_aggregator) option" where
  "take_round_latest timing g =
     (if timing < length (ia_queues g)
      then Some (case ia_queues g ! timing of [] \<Rightarrow> (None, g) | x # _ \<Rightarrow> (Some x, pop_at timing g)) else None)"

definition is_drained :: "'a input_aggregator \<Rightarrow> bool" where
  "is_drained g \<longleftrightarrow> list_all (\<lambda>e. e) (ia_ended g) \<and> list_all (\<lambda>q. q = []) (ia_queues g)"

section \<open>Well-formedness\<close>

definition agg_wf :: "'a input_aggregator \<Rightarrow> bool" where
  "agg_wf g \<longleftrightarrow> length (ia_ended g) = length (ia_queues g) \<and> 1 \<le> ia_max_depth g \<and>
     (\<forall>q \<in> set (ia_queues g). length q \<le> ia_max_depth g)"

lemma shed_length: "1 \<le> depth \<Longrightarrow> length (fst (shed depth q d)) = min depth (length q)"
  by (induction depth q d rule: shed.induct) auto

lemma shed_suffix: "fst (shed depth q d) = drop (length q - depth) q"
proof (induction depth q d rule: shed.induct)
  case (2 depth x q dropped)
  then show ?case by (cases "depth < length (x # q)") (auto simp: Suc_diff_le)
qed simp

lemma contributors_mem: "i \<in> set (contributors g) \<longleftrightarrow> i < length (ia_queues g) \<and> \<not> (ia_ended g ! i \<and> ia_queues g ! i = [])"
  by (auto simp: contributors_def)

lemma min_by_key_None [simp]: "min_by_key key is = None \<longleftrightarrow> is = []"
  by (cases "is") (auto split: option.splits)

lemma min_by_key_first:
  "min_by_key key is = Some w \<Longrightarrow> w \<in> set is \<and> (\<forall>j \<in> set is. key w \<le> key j)"
proof (induction key "is" arbitrary: w rule: min_by_key.induct)
  case (2 key i "is")
  show ?case
  proof (cases "min_by_key key is")
    case (Some j)
    then show ?thesis using "2.IH" [OF Some] "2.prems" by (auto split: if_splits)
  qed (use "2.prems" in auto)
qed simp

lemma min_by_key_tie:
  "min_by_key key is = Some w \<Longrightarrow> sorted_wrt (<) is \<Longrightarrow> j \<in> set is \<Longrightarrow> key j = key w \<Longrightarrow> w \<le> j"
proof (induction key "is" arbitrary: w rule: min_by_key.induct)
  case (2 key i "is")
  show ?case
  proof (cases "min_by_key key is")
    case (Some m)
    have "m \<in> set is" "\<forall>k \<in> set is. key m \<le> key k" using min_by_key_first [OF Some] by auto
    then show ?thesis using "2.IH" [OF Some] "2.prems" Some by (auto split: if_splits)
  qed (use "2.prems" in auto)
qed simp

lemma round_ready_iff:
  "round_ready g \<longleftrightarrow> (\<exists>i < length (ia_queues g). ia_queues g ! i \<noteq> []) \<and>
     (\<forall>i < length (ia_queues g). ia_queues g ! i = [] \<longrightarrow> ia_ended g ! i)"
proof -
  have "contributors g \<noteq> [] \<longleftrightarrow> (\<exists>i. i \<in> set (contributors g))" by (cases "contributors g") auto
  then show ?thesis unfolding round_ready_def list_all_iff by (auto simp: contributors_mem)
qed

lemma take_earliest_cases:
  assumes "take_earliest_by key g = (r, g')"
  shows "if round_ready g
    then \<exists>w x q. r = Some (w, x) \<and> w < length (ia_queues g) \<and> ia_queues g ! w = x # q \<and>
           g' = g\<lparr>ia_queues := (ia_queues g)[w := q]\<rparr> \<and>
           (\<forall>i < length (ia_queues g). ia_queues g ! i \<noteq> [] \<longrightarrow> key x \<le> key (hd (ia_queues g ! i)) \<and>
              (key (hd (ia_queues g ! i)) = key x \<longrightarrow> w \<le> i))
    else r = None \<and> g' = g"
proof (cases "round_ready g")
  case True
  let ?k = "\<lambda>i. key (hd (ia_queues g ! i))"
  have "contributors g \<noteq> []" using True by (simp add: round_ready_def)
  then obtain w where w: "min_by_key ?k (contributors g) = Some w" by (metis min_by_key_None not_None_eq)
  note m = min_by_key_first [OF w]
  have srt: "sorted_wrt (<) (contributors g)" by (simp add: contributors_def sorted_wrt_filter)
  have "w < length (ia_queues g)" "ia_queues g ! w \<noteq> []"
    using m True by (auto simp: contributors_mem round_ready_def list_all_iff)
  moreover have "key (hd (ia_queues g ! w)) \<le> ?k i \<and> (?k i = ?k w \<longrightarrow> w \<le> i)"
    if "i < length (ia_queues g)" "ia_queues g ! i \<noteq> []" for i
    using m that min_by_key_tie [OF w srt, of i] by (auto simp: contributors_mem)
  ultimately show ?thesis
    using True assms w by (auto simp: take_earliest_by_def pop_at_def neq_Nil_conv)
next
  case False
  then show ?thesis using assms by (simp add: take_earliest_by_def)
qed

section \<open>Merging\<close>

text \<open>
  A run of a merging element: items and ends arrive on open pads, the element takes the earliest. What arrived on each pad
  and what was taken are recorded beside the collector.
\<close>

record 'a merge_run =
  mg_agg :: "'a input_aggregator"
  mg_fed :: "nat \<Rightarrow> 'a list"
  mg_out :: "(nat \<times> 'a) list"

definition merge_init :: "nat \<Rightarrow> nat \<Rightarrow> 'a merge_run" where
  "merge_init inputs depth = \<lparr>mg_agg = with_max_depth depth (aggregator_new inputs), mg_fed = (\<lambda>_. []), mg_out = []\<rparr>"

inductive merge_step :: "('a \<Rightarrow> 'k::linorder) \<Rightarrow> 'a merge_run \<Rightarrow> 'a merge_run \<Rightarrow> bool" for key where
  arrive: "\<not> ia_ended (mg_agg s) ! i \<Longrightarrow> agg_push i x (mg_agg s) = Some g \<Longrightarrow>
    merge_step key s (s\<lparr>mg_agg := g, mg_fed := (mg_fed s)(i := mg_fed s i @ [x])\<rparr>)"
| ends: "mark_ended i (mg_agg s) = Some g \<Longrightarrow> merge_step key s (s\<lparr>mg_agg := g\<rparr>)"
| takes: "take_earliest_by key (mg_agg s) = (Some ix, g) \<Longrightarrow>
    merge_step key s (s\<lparr>mg_agg := g, mg_out := mg_out s @ [ix]\<rparr>)"

inductive_cases merge_step_cases: "merge_step key s t"

definition taken_from :: "nat \<Rightarrow> (nat \<times> 'a) list \<Rightarrow> 'a list" where
  "taken_from i out = map snd (filter (\<lambda>p. fst p = i) out)"

text \<open>What holds of every run: nothing is invented, and nothing is lost while a pad stays within its depth.\<close>

definition merge_shape :: "nat \<Rightarrow> nat \<Rightarrow> 'a merge_run \<Rightarrow> bool" where
  "merge_shape n depth s \<longleftrightarrow>
     length (ia_queues (mg_agg s)) = n \<and> length (ia_ended (mg_agg s)) = n \<and> ia_max_depth (mg_agg s) = max depth 1 \<and>
     (\<forall>i < n. suffix (ia_queues (mg_agg s) ! i) (mg_fed s i) \<and>
        (length (mg_fed s i) \<le> depth \<longrightarrow> taken_from i (mg_out s) @ ia_queues (mg_agg s) ! i = mg_fed s i)) \<and>
     (\<forall>p \<in> set (mg_out s). fst p < n)"

text \<open>What holds of a run whose arrivals are in order on every pad.\<close>

definition fed_in_order :: "('a \<Rightarrow> 'k::linorder) \<Rightarrow> nat \<Rightarrow> 'a merge_run \<Rightarrow> bool" where
  "fed_in_order key n s \<longleftrightarrow> (\<forall>i < n. sorted (map key (mg_fed s i)))"

definition merge_order :: "('a \<Rightarrow> 'k::linorder) \<Rightarrow> nat \<Rightarrow> 'a merge_run \<Rightarrow> bool" where
  "merge_order key n s \<longleftrightarrow>
     sorted (map (key \<circ> snd) (mg_out s)) \<and>
     (\<forall>i < n. \<forall>p \<in> set (mg_out s).
        (\<forall>x \<in> set (ia_queues (mg_agg s) ! i). key (snd p) \<le> key x) \<and>
        (\<not> ia_ended (mg_agg s) ! i \<longrightarrow> mg_fed s i \<noteq> [] \<and> key (snd p) \<le> key (last (mg_fed s i))))"

lemma merge_init_inv: "merge_shape n depth (merge_init n depth)" "merge_order key n (merge_init n depth)"
  by (simp_all add: merge_shape_def merge_order_def merge_init_def with_max_depth_def aggregator_new_def taken_from_def)

lemma sorted_le_last: "sorted (map key xs) \<Longrightarrow> y \<in> set xs \<Longrightarrow> key y \<le> key (last xs)"
  by (induction xs) auto

lemma sorted_snoc: "sorted (map key (xs @ [x])) \<longleftrightarrow> sorted (map key xs) \<and> (xs = [] \<or> key (last xs) \<le> key x)"
  using sorted_le_last [of key xs] by (fastforce simp: sorted_append intro: order_trans)

lemma suffix_set: "suffix xs ys \<Longrightarrow> set xs \<subseteq> set ys"
  by (auto simp: suffix_def)

lemma agg_push_result:
  assumes "agg_push i x g = Some g'" "1 \<le> ia_max_depth g"
  shows "\<exists>q d. i < length (ia_queues g) \<and> g' = g\<lparr>ia_queues := (ia_queues g)[i := q], ia_dropped := d\<rparr> \<and>
    suffix q (ia_queues g ! i @ [x]) \<and> (length (ia_queues g ! i) < ia_max_depth g \<longrightarrow> q = ia_queues g ! i @ [x])"
proof -
  obtain q d where sh: "shed (ia_max_depth g) (ia_queues g ! i @ [x]) (ia_dropped g) = (q, d)" by fastforce
  have "q = drop (length (ia_queues g ! i @ [x]) - ia_max_depth g) (ia_queues g ! i @ [x])"
    using shed_suffix [of "ia_max_depth g" "ia_queues g ! i @ [x]"] sh by (metis fst_conv)
  then have "suffix q (ia_queues g ! i @ [x])" "length (ia_queues g ! i) < ia_max_depth g \<longrightarrow> q = ia_queues g ! i @ [x]"
    by (auto simp: suffix_drop)
  then show ?thesis using assms sh by (auto simp: agg_push_def split: if_splits)
qed

lemma arrive_shape:
  assumes sh: "merge_shape n depth s" and push: "agg_push i x (mg_agg s) = Some g"
  shows "merge_shape n depth (s\<lparr>mg_agg := g, mg_fed := (mg_fed s)(i := mg_fed s i @ [x])\<rparr>)"
proof -
  note m = sh [unfolded merge_shape_def]
  obtain q d where q: "i < n" "g = (mg_agg s)\<lparr>ia_queues := (ia_queues (mg_agg s))[i := q], ia_dropped := d\<rparr>"
    "suffix q (ia_queues (mg_agg s) ! i @ [x])"
    "length (ia_queues (mg_agg s) ! i) < max depth 1 \<longrightarrow> q = ia_queues (mg_agg s) ! i @ [x]"
    using agg_push_result [OF push] m by auto
  have sf: "suffix (ia_queues (mg_agg s) ! i) (mg_fed s i)" using m q(1) by blast
  have "suffix (ia_queues (mg_agg s) ! i @ [x]) (mg_fed s i @ [x])" using sf by simp
  then have s1: "suffix q (mg_fed s i @ [x])" using q(3) by (rule suffix_order.trans [rotated])
  have "q = ia_queues (mg_agg s) ! i @ [x]" if "length (mg_fed s i @ [x]) \<le> depth"
    using q(4) that suffix_length_le [OF sf] by simp
  then have c1: "taken_from i (mg_out s) @ q = mg_fed s i @ [x]" if "length (mg_fed s i @ [x]) \<le> depth"
    using that m q(1) by simp
  show ?thesis
    unfolding merge_shape_def
  proof (intro conjI allI impI)
    fix j assume j: "j < n"
    show "suffix (ia_queues (mg_agg (s\<lparr>mg_agg := g, mg_fed := (mg_fed s)(i := mg_fed s i @ [x])\<rparr>)) ! j)
        (mg_fed (s\<lparr>mg_agg := g, mg_fed := (mg_fed s)(i := mg_fed s i @ [x])\<rparr>) j)"
      using m q(1,2) s1 j by (cases "j = i") simp_all
  next
    fix j assume j: "j < n" "length (mg_fed (s\<lparr>mg_agg := g, mg_fed := (mg_fed s)(i := mg_fed s i @ [x])\<rparr>) j) \<le> depth"
    show "taken_from j (mg_out (s\<lparr>mg_agg := g, mg_fed := (mg_fed s)(i := mg_fed s i @ [x])\<rparr>)) @
        ia_queues (mg_agg (s\<lparr>mg_agg := g, mg_fed := (mg_fed s)(i := mg_fed s i @ [x])\<rparr>)) ! j =
        mg_fed (s\<lparr>mg_agg := g, mg_fed := (mg_fed s)(i := mg_fed s i @ [x])\<rparr>) j"
      using m q(1,2) c1 j by (cases "j = i") simp_all
  qed (use m q in simp_all)
qed

lemma arrive_order:
  assumes sh: "merge_shape n depth s" and ord: "merge_order key n s" and open_pad: "\<not> ia_ended (mg_agg s) ! i"
    and push: "agg_push i x (mg_agg s) = Some g" and fed: "sorted (map key (mg_fed s i @ [x]))"
  shows "merge_order key n (s\<lparr>mg_agg := g, mg_fed := (mg_fed s)(i := mg_fed s i @ [x])\<rparr>)"
proof -
  obtain q d where q: "i < n" "g = (mg_agg s)\<lparr>ia_queues := (ia_queues (mg_agg s))[i := q], ia_dropped := d\<rparr>"
    "suffix q (ia_queues (mg_agg s) ! i @ [x])" "length (ia_queues (mg_agg s)) = n"
    using agg_push_result [OF push] sh [unfolded merge_shape_def] by auto
  have px: "key (snd p) \<le> key x" if "p \<in> set (mg_out s)" for p
    using ord [unfolded merge_order_def] that open_pad q(1) fed unfolding sorted_snoc by (meson order_trans)
  have qs: "key (snd p) \<le> key y" if "p \<in> set (mg_out s)" "y \<in> set q" for p y
    using ord [unfolded merge_order_def] that q(1) px [OF that(1)] suffix_set [OF q(3)] by auto
  show ?thesis
    using ord q px qs unfolding merge_order_def by (auto simp: nth_list_update)
qed

lemma takes_shape:
  assumes sh: "merge_shape n depth s" and tk: "take_earliest_by key (mg_agg s) = (Some ix, g)"
  shows "merge_shape n depth (s\<lparr>mg_agg := g, mg_out := mg_out s @ [ix]\<rparr>)"
proof -
  note m = sh [unfolded merge_shape_def]
  obtain w x q where w: "ix = (w, x)" "w < n" "ia_queues (mg_agg s) ! w = x # q"
    "g = (mg_agg s)\<lparr>ia_queues := (ia_queues (mg_agg s))[w := q]\<rparr>"
    using take_earliest_cases [OF tk] m by (auto split: if_splits)
  have sw: "suffix (x # q) (mg_fed s w)" using m w(2,3) by metis
  have "suffix q (mg_fed s w)" using sw by (rule suffix_ConsD)
  moreover have "taken_from w (mg_out s) @ x # q = mg_fed s w" if "length (mg_fed s w) \<le> depth" using m w(2,3) that by metis
  ultimately show ?thesis
    using m w(1,2,4) by (auto simp: merge_shape_def taken_from_def nth_list_update)
qed

lemma takes_order:
  assumes sh: "merge_shape n depth s" and ord: "merge_order key n s" and fed: "fed_in_order key n s"
    and tk: "take_earliest_by key (mg_agg s) = (Some ix, g)"
  shows "merge_order key n (s\<lparr>mg_agg := g, mg_out := mg_out s @ [ix]\<rparr>)"
proof -
  let ?q = "ia_queues (mg_agg s)"
  note m = sh [unfolded merge_shape_def] and o = ord [unfolded merge_order_def]
  have rr: "round_ready (mg_agg s)" using take_earliest_cases [OF tk] by (simp split: if_splits)
  obtain w x q where w: "ix = (w, x)" "w < n" "?q ! w = x # q" "g = (mg_agg s)\<lparr>ia_queues := ?q[w := q]\<rparr>"
    "\<And>i. i < n \<Longrightarrow> ?q ! i \<noteq> [] \<Longrightarrow> key x \<le> key (hd (?q ! i))"
    using take_earliest_cases [OF tk] m rr by auto
  have qsort: "sorted (map key (?q ! i))" if "i < n" for i
    using m fed that unfolding fed_in_order_def suffix_def by (metis map_append sorted_append)
  have low: "key x \<le> key y" if i: "i < n" and y: "y \<in> set (?q ! i)" for i y
  proof -
    obtain h t where ht: "?q ! i = h # t" using y by (cases "?q ! i") auto
    have "key h \<le> key y" using qsort [OF i] y by (auto simp: ht)
    moreover have "key x \<le> key h" using w(5) [OF i] by (simp add: ht)
    ultimately show ?thesis by simp
  qed
  have last_fed: "mg_fed s i \<noteq> [] \<and> key x \<le> key (last (mg_fed s i))" if i: "i < n" "\<not> ia_ended (mg_agg s) ! i" for i
  proof -
    have ne: "?q ! i \<noteq> []" using rr i m by (auto simp: round_ready_iff)
    have "suffix (?q ! i) (mg_fed s i)" using m i(1) by blast
    then have "last (mg_fed s i) = last (?q ! i)" "mg_fed s i \<noteq> []" using ne by (auto simp: suffix_def)
    then show ?thesis using low [OF i(1), of "last (?q ! i)"] ne by simp
  qed
  have below: "key (snd p) \<le> key x" if "p \<in> set (mg_out s)" for p using o that w(2,3) by (metis list.set_intros(1))
  have "sorted (map (key \<circ> snd) (mg_out s @ [ix]))" using o below by (auto simp: sorted_append w(1))
  moreover have "\<forall>y \<in> set (?q[w := q] ! i). key (snd p) \<le> key y" if "i < n" "p \<in> set (mg_out s @ [ix])" for i p
    using that o low [OF that(1)] w m by (cases "i = w") (auto simp: w(1))
  moreover have "mg_fed s i \<noteq> [] \<and> key (snd p) \<le> key (last (mg_fed s i))"
    if "i < n" "p \<in> set (mg_out s @ [ix])" "\<not> ia_ended (mg_agg s) ! i" for i p
    using that o last_fed [OF that(1,3)] by (auto simp: w(1))
  ultimately show ?thesis unfolding merge_order_def w(4) by simp
qed

lemma ends_inv:
  assumes "mark_ended i (mg_agg s) = Some g"
  shows "merge_shape n depth s \<Longrightarrow> merge_shape n depth (s\<lparr>mg_agg := g\<rparr>)"
    and "merge_order key n s \<Longrightarrow> merge_shape n depth s \<Longrightarrow> merge_order key n (s\<lparr>mg_agg := g\<rparr>)"
proof -
  have g: "g = (mg_agg s)\<lparr>ia_ended := (ia_ended (mg_agg s))[i := True]\<rparr>" and i: "i < length (ia_ended (mg_agg s))"
    using assms by (auto simp: mark_ended_def split: if_splits)
  have e: "\<not> ia_ended (mg_agg s) ! j" if "\<not> (ia_ended (mg_agg s))[i := True] ! j" for j
    using that i by (cases "i = j") simp_all
  show "merge_shape n depth s \<Longrightarrow> merge_shape n depth (s\<lparr>mg_agg := g\<rparr>)" by (simp add: merge_shape_def g)
  show "merge_order key n s \<Longrightarrow> merge_shape n depth s \<Longrightarrow> merge_order key n (s\<lparr>mg_agg := g\<rparr>)"
    using e unfolding merge_order_def g by simp
qed

lemma merge_step_shape: "merge_step key s t \<Longrightarrow> merge_shape n depth s \<Longrightarrow> merge_shape n depth t"
  by (erule merge_step_cases) (simp_all only: arrive_shape takes_shape ends_inv(1))

lemma merge_step_fed: "merge_step key s t \<Longrightarrow> fed_in_order key n t \<Longrightarrow> fed_in_order key n s"
  by (erule merge_step_cases) (auto simp: fed_in_order_def sorted_append split: if_splits)

lemma merge_step_order:
  assumes step: "merge_step key s t" and sh: "merge_shape n depth s" and ord: "merge_order key n s" and fed: "fed_in_order key n t"
  shows "merge_order key n t"
  using step
proof (cases rule: merge_step.cases)
  case (arrive i x g)
  have "i < n" using arrive(3) sh by (auto simp: agg_push_def merge_shape_def split: if_splits)
  then have "sorted (map key (mg_fed s i @ [x]))" using fed arrive(1) by (auto simp: fed_in_order_def)
  then show ?thesis unfolding arrive(1) by (rule arrive_order [OF sh ord arrive(2,3)])
next
  case (ends i g)
  then show ?thesis using ends_inv(2) [OF ends(2) ord sh] by simp
next
  case (takes ix g)
  then show ?thesis using takes_order [OF sh ord merge_step_fed [OF step fed] takes(2)] by simp
qed

lemma merge_run_inv:
  assumes "(merge_step key)\<^sup>*\<^sup>* (merge_init n depth) s"
  shows "merge_shape n depth s \<and> (fed_in_order key n s \<longrightarrow> merge_order key n s)"
  using assms
proof (induction rule: rtranclp_induct)
  case (step s t)
  then show ?case using merge_step_shape merge_step_fed merge_step_order by blast
qed (simp add: merge_init_inv)

lemma none_taken_drained:
  assumes "fst (take_earliest_by key g) = None" "length (ia_ended g) = length (ia_queues g)" "list_all (\<lambda>e. e) (ia_ended g)"
  shows "\<forall>i < length (ia_queues g). ia_queues g ! i = []"
proof -
  obtain g' where "take_earliest_by key g = (None, g')" using assms(1) by (metis prod.collapse)
  then have "\<not> round_ready g" using take_earliest_cases by fastforce
  then show ?thesis using assms(2,3) by (auto simp: round_ready_iff list_all_length)
qed

lemma pops_at:
  "distinct is \<Longrightarrow> (\<forall>i \<in> set is. i < length (ia_queues g)) \<Longrightarrow> length (ia_queues (fold pop_at is g)) = length (ia_queues g) \<and>
     (\<forall>j < length (ia_queues g). ia_queues (fold pop_at is g) ! j = (if j \<in> set is then tl (ia_queues g ! j) else ia_queues g ! j))"
  by (induction "is" arbitrary: g) (auto simp: pop_at_def nth_list_update)

text \<open>A released round takes the head of every input that still contributes, in pad order, and leaves the others.\<close>

lemma take_round_heads:
  assumes "take_round g = (Some r, g')"
  shows "map fst r = contributors g \<and> (\<forall>(i, x) \<in> set r. ia_queues g ! i = x # ia_queues g' ! i) \<and>
    (\<forall>i < length (ia_queues g). i \<notin> fst ` set r \<longrightarrow> ia_queues g' ! i = ia_queues g ! i)"
proof -
  have rr: "round_ready g" and r: "r = map (\<lambda>i. (i, hd (ia_queues g ! i))) (contributors g)"
    and g': "g' = fold pop_at (contributors g) g" using assms by (auto simp: take_round_def split: if_splits)
  have "distinct (contributors g)" by (simp add: contributors_def)
  then have p: "\<forall>j < length (ia_queues g). ia_queues g' ! j =
      (if j \<in> set (contributors g) then tl (ia_queues g ! j) else ia_queues g ! j)"
    using pops_at [of "contributors g" g] contributors_mem unfolding g' by blast
  show ?thesis using rr p by (auto simp: r image_image comp_def round_ready_def list_all_iff contributors_mem)
qed

section \<open>Contract of the merge\<close>


definition merge_demo :: "(nat \<times> nat) merge_run" where
  "merge_demo = \<lparr>mg_agg = \<lparr>ia_queues = [[(7, 0)], []], ia_ended = [False, False], ia_max_depth = 4, ia_dropped = 0\<rparr>,
     mg_fed = (\<lambda>_. [])(0 := [(7, 0)], 1 := [(3, 1)]), mg_out = [(1, (3, 1))]\<rparr>"


end
