(* ===== verification/Spec2Isabelle.thy ===== *)
theory Spec2Isabelle
  imports GraphComplete LinearSound ForwardResolve GraphBuild RawVideoLayout SpscConc Rtp StateGate Supervise LinkPush Wire MetaDemand Pools Latency CopyPlan PtpServo Pacing SeekControl Controller Slot Aggregator
begin

text \<open>
  \<^bold>\<open>A verification library for glass2glass.\<close>
  glass2glass is a media framework: a program is a graph of elements (sources, transforms, sinks, tees,
  muxers), and before data flows the framework decides which media format every edge carries. This library
  models the part of \<^verbatim>\<open>g2g-core\<close> that decides: the capability algebra, the graph builder, and
  the constraint solver that negotiates a format for every edge; and parts of what runs afterwards: the
  capture ring, the pipeline states, fault supervision, time scales and RTP.

  \<^bold>\<open>Parts and how they interact.\<close> An element states a constraint on its links (\<^verbatim>\<open>format_element.rs\<close>,
  \<^verbatim>\<open>caps_transform.rs\<close>) in terms of caps (\<^verbatim>\<open>caps.rs\<close>, \<^verbatim>\<open>channels.rs\<close>). The builder (\<^verbatim>\<open>graph.rs\<close>)
  collects nodes and edges and validates them into a topologically ordered graph. The solver
  (\<^verbatim>\<open>runtime/solver.rs\<close>, \<^verbatim>\<open>runtime/passthrough.rs\<close>) keeps one set of caps per edge, lets every node narrow the
  sets next to it in topological order and back until nothing changes, and then fixates one caps per edge.
  While a pipeline runs, a state controller (\<^verbatim>\<open>runtime/state.rs\<close>) starts and stops it through gates its
  elements poll; on a microcontroller an interrupt feeds frames through a ring (\<^verbatim>\<open>spsc.rs\<close>) and a supervisor
  (\<^verbatim>\<open>supervise.rs\<close>) answers faults; network elements stamp frames with RTP time (\<^verbatim>\<open>time.rs\<close>,
  \<^verbatim>\<open>mediaclock.rs\<close>, \<^verbatim>\<open>rtp.rs\<close>).

  \<^bold>\<open>Theories.\<close>
  \<^item> \<open>G2G_Prelude\<close>: machine integers with Rust's checked and saturating operations, results as sums,
    traversals, and the locale \<open>partial_meet\<close> that every intersection of the algebra implements.
  \<^item> \<open>Channels\<close> (\<^verbatim>\<open>channels.rs\<close>), \<open>RustStr\<close> (the string functions the colour code uses), \<open>Colorimetry\<close>
    (the colour part of \<^verbatim>\<open>caps.rs\<close>): operations and round trips.
  \<^item> \<open>Caps\<close>: the data and operations of \<^verbatim>\<open>caps.rs\<close>; \<open>Caps_Laws\<close>: the order on caps, the interpretations
    of \<open>partial_meet\<close>, fixation, preference-ordered sets, batches, frame rates, tensor shapes.
  \<^item> \<open>RawVideoLayout\<close>: planes, strides and sizes of \<^verbatim>\<open>RawVideoFormat\<close>.
  \<^item> \<open>Constraint\<close> (\<^verbatim>\<open>format_element.rs\<close>, \<^verbatim>\<open>caps_transform.rs\<close>) and \<open>Passthrough\<close>
    (\<^verbatim>\<open>runtime/passthrough.rs\<close>): what elements declare, and the backward coupling of copied fields.
  \<^item> \<open>Graph\<close> (\<^verbatim>\<open>graph.rs\<close>) and \<open>GraphBuild\<close>: the builder as functions on a record, the inductive set of
    graphs it reaches, validation with Kahn's algorithm.
  \<^item> \<open>Negotiate\<close> (the shared half of \<^verbatim>\<open>solver.rs\<close> and the linear solver), \<open>GraphSolver\<close> (the graph solver),
    \<open>ForwardResolve\<close> (mid-stream resolution).
  \<^item> \<open>Sweep\<close>: refinement of edge sets and the locale \<open>local_sweep\<close>, the contract of a handler that touches
    only the slots next to it; \<open>GraphSound\<close> and \<open>LinearSound\<close> interpret it on the two solvers.
  \<^item> \<open>GraphComplete\<close>: solutions of a graph, the inductive set of states of the narrowing under any order
    of node applications, and the invariant that it keeps every solution.
  \<^item> \<open>Fixation\<close> (backtracking), \<open>ChainCost\<close> (the least-cost chain), \<open>ChainGraph\<close> (chains in a graph).
  \<^item> \<open>Spsc\<close> (\<^verbatim>\<open>spsc.rs\<close>): the ring as whole operations, the locale \<open>bounded_queue\<close> of its contract, interpreted
    as \<open>capture_ring\<close>, and the capture source on it; \<open>SpscConc\<close>: producer and consumer as two programs whose
    atomic steps interleave, with acquire loads that may see an old cursor (\<open>producer_step\<close>,
    \<open>consumer_step\<close>).
  \<^item> \<open>StateControl\<close> (\<^verbatim>\<open>state.rs\<close>, \<^verbatim>\<open>runtime/state.rs\<close>): the controller as whole calls; \<open>StateGate\<close>: the polls of
    its gates interleaved with state changes (\<open>gate_step\<close>).
  \<^item> \<open>Supervise\<close> (\<^verbatim>\<open>supervise.rs\<close>): policies, the supervised step and run over arbitrary stages.
  \<^item> \<open>MediaTime\<close> (\<^verbatim>\<open>time.rs\<close>, \<^verbatim>\<open>mediaclock.rs\<close>) and \<open>Rtp\<close> (\<^verbatim>\<open>rtp.rs\<close>): time scales, RTP headers and extensions.

  \<^bold>\<open>What the lemmas show.\<close> Intersection is a greatest lower bound and fails only on disjoint caps; fixation
  stays below its argument; the builder preserves well-formedness and its validation never panics, accepts
  only acyclic graphs with every pad linked once, and reports only real cycles; a solution of the solver is
  fixed, satisfies every node and stays within what the ends of an edge declare; the narrowing loses no
  solution; the search is complete over the candidates; the chain search is optimal. The ring refines a
  bounded queue and no interleaving lets its two ends touch the same slot; a gate never misses a wakeup;
  preroll is counted right over whole calls; a supervised run accounts for every fault and escalates a
  persistent one; RTP headers, extensions, capture times and wrapped counters are read back as written.

  \<^bold>\<open>Errors, bounds, fuel.\<close> A Rust \<^verbatim>\<open>Result\<close> is a sum with the error on the left, an index panic of the
  builder is \<open>None\<close>. The solver's loops carry the source's own iteration bound (eight times the edges plus
  four) as fuel, and stopping at the bound is what the source does, not an artefact. \<open>chain_walk\<close> has the
  node count as fuel; \<open>chain_walk_total\<close> shows that it suffices. The capture source waits with the idle calls
  as fuel and \<open>run_supervised\<close> may go on for ever, with the steps as fuel; their liveness theorems say how
  much fuel gives the result. Node ids are 32-bit in the source: the
  builder's theorems assume that the node count fits. Costs are 64-bit words with saturating sums; the
  optimality theorem bounds the inputs so that no sum saturates.

  \<^bold>\<open>Not modelled.\<close> Logging and the formatting of diagnostics; the printed form of caps and its parser
  (\<^verbatim>\<open>to_gst_string\<close>, \<^verbatim>\<open>caps_parse.rs\<close>); the asynchronous runner, channels, memory, metadata and the
  wire formats of \<^verbatim>\<open>g2g-core\<close>; all of \<^verbatim>\<open>g2g-plugins\<close>, \<^verbatim>\<open>g2g-ml\<close>, the bindings and the tools, which are
  codecs, devices and services around the core. The closure of a \<^verbatim>\<open>DerivedOutput\<close> constraint is a parameter,
  a pure function of the input caps.
\<close>

section \<open>A demonstration pipeline\<close>

text \<open>
  A demonstration pipeline on the graph of \<open>demo_graph\<close>: a source with a range of widths, a
  transform that copies all fields, a sink that wants 640 pixels.
\<close>

definition demo_raw :: "dim \<Rightarrow> caps" where
  "demo_raw w = RawVideo Nv12 w (DimFixed 480) (RateFixed 1966080) Progressive CL_UNKNOWN"

definition demo_constraints :: "node_constraint list" where
  "demo_constraints =
     [Element (Produces [demo_raw (DimRange 320 1920)]),
      Element (DerivedFields (TransformRawVideo [Nv12] [] [RVS_PASSTHROUGH])),
      Element (Accepts [demo_raw (DimFixed 640)])]"

definition demo_vg :: "(unit, unit) validated_graph" where
  "demo_vg = (case finish demo_graph of Some (Inr vg) \<Rightarrow> vg | _ \<Rightarrow> \<lparr>vg_nodes = [], vg_edges = [], vg_topo = [], vg_in_edges = [], vg_out_edges = []\<rparr>)"

lemma demo_vg_finish: "finish demo_graph = Some (Inr demo_vg)"
proof -
  have "(case finish demo_graph of Some (Inr vg) \<Rightarrow> True | _ \<Rightarrow> False)" by code_simp
  then show ?thesis by (auto simp: demo_vg_def split: option.splits sum.splits)
qed

definition demo_domains :: "caps list list" where
  "demo_domains = [[demo_raw (DimFixed 320), demo_raw (DimFixed 640)], [demo_raw (DimFixed 640)]]"

lemma demo_evaluated:
  "tee_slots_identity demo_vg demo_constraints \<and>
   solve_graph_preferred demo_vg demo_constraints [] = Inr [demo_raw (DimFixed 640), demo_raw (DimFixed 640)] \<and>
   edge_count demo_vg = 2 \<and> node_count demo_vg = 3 \<and> length demo_domains = 2 \<and>
   fixate_backtrack demo_vg demo_constraints demo_domains 0 [None, None] \<noteq> None \<and>
   concrete (demo_raw (DimFixed 640)) \<and>
   list_all (node_solution demo_vg demo_constraints (\<lambda>_. demo_raw (DimFixed 640))) [0, 1, 2]"
  by code_simp

lemmas demo_facts = demo_evaluated [THEN conjunct1] demo_evaluated [THEN conjunct2, THEN conjunct1]
  demo_evaluated [THEN conjunct2, THEN conjunct2, THEN conjunct1]

section \<open>Properties of the solvers\<close>



text \<open>
  C2. The backtracking fixation of the graph solver is complete and picks the first solution: it
  fails only if no choice of one candidate per edge satisfies all node relations, and otherwise
  returns the lexicographically first such choice.
\<close>

theorem backtracking_first:
  assumes "built g" "finish g = Some (Inr vg)" "length domains = edge_count vg"
  shows "case fixate_backtrack vg cs domains 0 (replicate (edge_count vg) None) of
      None \<Rightarrow> \<not> (\<exists>js. valid_choice domains js \<and> all_consistent vg cs (assignment_of domains js))
    | Some r \<Rightarrow> \<exists>js. r = map Some (assignment_of domains js) \<and> valid_choice domains js \<and>
        all_consistent vg cs (assignment_of domains js) \<and>
        (\<forall>ks. valid_choice domains ks \<and> all_consistent vg cs (assignment_of domains ks) \<longrightarrow> ks = js \<or> path_less js ks)"
proof -
  have ok: "graph_ok vg" by (rule finish_graph_ok [OF assms(1,2)])
  note valid = valid_from_all_consistent [OF ok assms(3)]
  have start: "replicate (edge_count vg) None = partial_assign (length domains) []"
    using assms(3) by (simp add: partial_assign_def)
  have chosen: "chosen domains [] js = assignment_of domains js" if "valid_from vg cs domains [] js" for js
    using chosen_eq [of "[]" js domains] valid_from_length [OF that] by simp
  note spec = fixate_backtrack_spec [of "[]" domains vg cs, simplified]
  show ?thesis
  proof (cases "fixate_backtrack vg cs domains 0 (partial_assign (length domains) [])")
    case None
    then show ?thesis unfolding start using spec valid by simp
  next
    case (Some r)
    then obtain js where js: "valid_from vg cs domains [] js" "r = map Some (chosen domains [] js)"
      "\<forall>ks. valid_from vg cs domains [] ks \<longrightarrow> ks = js \<or> path_less js ks"
      using spec by blast
    show ?thesis unfolding start Some option.case
      by (rule exI [of _ js]) (use js chosen [OF js(1)] valid in auto)
  qed
qed

theorem backtracking_first_witness:
  "\<exists>js. fixate_backtrack demo_vg demo_constraints demo_domains 0 (replicate (edge_count demo_vg) None) =
      Some (map Some (assignment_of demo_domains js)) \<and> valid_choice demo_domains js \<and>
    all_consistent demo_vg demo_constraints (assignment_of demo_domains js)"
proof -
  have len: "length demo_domains = edge_count demo_vg" using demo_evaluated by simp
  have some: "fixate_backtrack demo_vg demo_constraints demo_domains 0 (replicate (edge_count demo_vg) None) \<noteq> None"
    using demo_evaluated by (simp add: numeral_2_eq_2)
  show ?thesis
    using backtracking_first [OF demo_graph_built demo_vg_finish len, of demo_constraints] some by auto
qed

text \<open>
  C3. The least-cost chain search returns, among the consistent assignments of a chain, one of
  least total cost, and the lexicographically first of those; it returns nothing only if no
  assignment is consistent. The number of alternatives and elements must keep the 64-bit sum from
  saturating.
\<close>

theorem min_cost_chain_optimal:
  assumes "length nodes = Suc (length domains)" "domains \<noteq> []" "length nodes \<le> 2 ^ 32"
    and "list_ex (\<lambda>nd. cn_preferences nd \<noteq> None) nodes"
    and "list_all (\<lambda>nd. alternatives_count (cn_constraint nd) \<le> 2 ^ 32) nodes"
  shows "case min_cost_chain nodes domains of
      None \<Rightarrow> \<not> (\<exists>q. path_ok nodes domains q)
    | Some p \<Rightarrow> path_ok nodes domains p \<and>
        (\<forall>q. path_ok nodes domains q \<longrightarrow>
          cost_le (path_cost nodes domains p, p) (path_cost nodes domains q, q))"
  by (rule min_cost_chain_spec) (use assms in \<open>auto simp: list_all_iff\<close>)

definition demo_chain :: "chain_node list" where
  "demo_chain =
     [chain_node_new (Produces [ByteStream MpegTs, ByteStream Ogg]) (Some [5, 1]),
      chain_node_new (Accepts [ByteStream Ogg, ByteStream MpegTs]) None]"

theorem min_cost_chain_optimal_witness:
  "\<exists>p. min_cost_chain demo_chain [[ByteStream MpegTs, ByteStream Ogg]] = Some p \<and>
    cost_le (path_cost demo_chain [[ByteStream MpegTs, ByteStream Ogg]] p, p)
      (path_cost demo_chain [[ByteStream MpegTs, ByteStream Ogg]] [0], [0])"
proof -
  have found: "min_cost_chain demo_chain [[ByteStream MpegTs, ByteStream Ogg]] \<noteq> None \<and>
      path_ok demo_chain [[ByteStream MpegTs, ByteStream Ogg]] [0]" by code_simp
  have "case min_cost_chain demo_chain [[ByteStream MpegTs, ByteStream Ogg]] of
      None \<Rightarrow> \<not> (\<exists>q. path_ok demo_chain [[ByteStream MpegTs, ByteStream Ogg]] q)
    | Some p \<Rightarrow> path_ok demo_chain [[ByteStream MpegTs, ByteStream Ogg]] p \<and>
        (\<forall>q. path_ok demo_chain [[ByteStream MpegTs, ByteStream Ogg]] q \<longrightarrow>
          cost_le (path_cost demo_chain [[ByteStream MpegTs, ByteStream Ogg]] p, p)
            (path_cost demo_chain [[ByteStream MpegTs, ByteStream Ogg]] q, q))"
    by (rule min_cost_chain_optimal) (simp_all add: demo_chain_def chain_node_new_def)
  then show ?thesis using found by auto
qed


lemma demo_solution: "graph_solution demo_vg demo_constraints (\<lambda>_. demo_raw (DimFixed 640))"
proof -
  show ?thesis using demo_evaluated by (simp add: graph_solution_def less_Suc_eq numeral_2_eq_2 numeral_3_eq_3)
qed


text \<open>
  A solution of the linear solver has one fixed caps per link, each within the sets that the
  elements at its two ends declare.
\<close>

theorem solve_linear_sound:
  assumes "solve_linear_preferred cs prefs = Inr sol"
  shows "Suc (length sol) = length cs \<and>
    (\<forall>e < length sol. caps_is_fixed (sol ! e) \<and> link_declared cs e (sol ! e))"
  by (rule solve_linear_result [OF assms])

definition demo_linear :: "caps_constraint list" where
  "demo_linear =
     [Produces [demo_raw (DimRange 320 1920)], Identity [demo_raw (DimRange 1 800)], Accepts [demo_raw (DimFixed 640)]]"

theorem solve_linear_sound_witness:
  "caps_is_fixed (demo_raw (DimFixed 640)) \<and> link_declared demo_linear 0 (demo_raw (DimFixed 640)) \<and>
   link_declared demo_linear 1 (demo_raw (DimFixed 640))"
proof -
  have "solve_linear_preferred demo_linear [] = Inr [demo_raw (DimFixed 640), demo_raw (DimFixed 640)]" by code_simp
  from solve_linear_sound [OF this] show ?thesis by (force simp: less_Suc_eq)
qed

text \<open>
  C32. Without preferences the linear solver does not check the relations of the elements: on a
  chain of two mapping elements it returns caps that the second element cannot produce from its
  input, although a consistent choice exists.
\<close>

definition stacked_mappings :: "caps_constraint list" where
  "stacked_mappings =
     [Produces [ByteStream MpegTs, ByteStream Matroska],
      Mapping [([ByteStream MpegTs], [ByteStream Ogg]), ([ByteStream Matroska], [ByteStream Flv])],
      Mapping [([ByteStream Flv], [ByteStream Mp4]), ([ByteStream Ogg], [ByteStream Ivf])],
      Accepts [ByteStream Mp4, ByteStream Ivf]]"


text \<open>
  C26. The walk that orders a chain ends: from any node of a graph that validation accepts, following the first outgoing edge
  reaches a node without one within as many steps as there are nodes, along a path of the graph.
\<close>

theorem chain_walk_terminates:
  assumes "built g" "finish g = Some (Inr vg)" "start < node_count vg"
  shows "\<exists>ns es. chain_walk vg (node_count vg) start [] [] = Some (ns, es) \<and> is_walk vg ns es \<and>
    hd ns = start \<and> out_edges_of vg (last ns) = []"
proof -
  have ok: "graph_ok vg" by (rule finish_graph_ok [OF assms(1,2)])
  have w: "is_walk vg ([] @ [start]) []" using assms(3) by (simp add: is_walk_def)
  obtain ns es where r: "chain_walk vg (node_count vg) start [] [] = Some (ns, es)"
    using chain_walk_total [OF ok w, of "node_count vg"] by auto
  then show ?thesis
    using chain_walk_is_walk [OF r ok w] chain_walk_ends [OF r] chain_walk_starts [OF r] by auto
qed

theorem chain_walk_terminates_witness:
  "\<exists>vg ns es. finish demo_graph = Some (Inr vg) \<and> chain_walk vg (node_count vg) 0 [] [] = Some (ns, es) \<and>
     out_edges_of vg (last ns) = []"
proof -
  have "0 < node_count demo_vg" using demo_evaluated by simp
  then show ?thesis using chain_walk_terminates [OF demo_graph_built demo_vg_finish] demo_vg_finish by blast
qed

end
